(* ===== verification/Xen_Prelude.thy ===== *)
theory Xen_Prelude
  imports Main "HOL-Library.Word" "HOL-Library.Multiset"
begin

unbundle bit_operations_syntax

text \<open>
  Shared vocabulary of the development: the machine integer types of the C code, the faults a
  C program can run into (they are values of the model, never silently ignored), the result type
  of an operation that may fault, bounds-checked array access, and the generic facts on lists
  and words that the component theories use.
\<close>

section \<open>Machine integers\<close>

type_synonym u8 = "8 word"
type_synonym u16 = "16 word"
type_synonym u32 = "32 word"
type_synonym u64 = "64 word"

section \<open>Faults and results\<close>

text \<open>
  \<open>Null_deref\<close>: a pointer that is \<open>NULL\<close> is dereferenced. \<open>Out_of_bounds\<close>: an array is read or
  written outside its allocation. \<open>Bug_on\<close>: a \<open>BUG()\<close> or \<open>BUG_ON()\<close> of the source fires (the
  hypervisor stops). \<open>Assert_failed\<close>: an \<open>ASSERT()\<close> of the source does not hold.
  \<open>Use_after_free\<close>: an object is read or written after \<open>xfree\<close>. \<open>Union_confusion\<close>: a member of a
  union is accessed while another member is the live one. \<open>List_corruption\<close>: an entry is unlinked from a list it
  is not on.
\<close>

datatype fault = Null_deref | Out_of_bounds | Bug_on | Assert_failed | Use_after_free | Union_confusion | List_corruption

type_synonym 'a result = "fault + 'a"

definition bindR :: "'a result \<Rightarrow> ('a \<Rightarrow> 'b result) \<Rightarrow> 'b result" where
  "bindR r f = (case r of Inl e \<Rightarrow> Inl e | Inr x \<Rightarrow> f x)"

lemma bindR_simps [simp]:
  "bindR (Inl e) f = Inl e"
  "bindR (Inr x) f = f x"
  by (simp_all add: bindR_def)

lemma bindR_Inr_iff: "bindR r f = Inr y \<longleftrightarrow> (\<exists>x. r = Inr x \<and> f x = Inr y)"
  by (cases r) auto

lemma bindR_assoc: "bindR (bindR r f) g = bindR r (\<lambda>x. bindR (f x) g)"
  by (cases r) auto

lemma bindR_cong [fundef_cong]: "r = r' \<Longrightarrow> (\<And>x. r' = Inr x \<Longrightarrow> f x = g x) \<Longrightarrow> bindR r f = bindR r' g"
  by (cases r') auto

text \<open>The same for code with loops that may not end: \<open>None\<close> when it does not.\<close>

definition bindO :: "'a result option \<Rightarrow> ('a \<Rightarrow> 'b result option) \<Rightarrow> 'b result option" where
  "bindO r f = (case r of None \<Rightarrow> None | Some (Inl e) \<Rightarrow> Some (Inl e) | Some (Inr x) \<Rightarrow> f x)"

lemma bindO_simps [simp]: "bindO None f = None" "bindO (Some (Inl e)) f = Some (Inl e)" "bindO (Some (Inr x)) f = f x"
  by (simp_all add: bindO_def)

lemma bindO_Inr_iff: "bindO r f = Some (Inr y) \<longleftrightarrow> (\<exists>x. r = Some (Inr x) \<and> f x = Some (Inr y))"
  by (auto simp: bindO_def split: option.splits sum.splits)

text \<open>Array access with the bounds check that C leaves to the programmer.\<close>

definition arr_get :: "'a list \<Rightarrow> nat \<Rightarrow> 'a result" where
  "arr_get xs i = (if i < length xs then Inr (xs ! i) else Inl Out_of_bounds)"

definition arr_set :: "'a list \<Rightarrow> nat \<Rightarrow> 'a \<Rightarrow> 'a list result" where
  "arr_set xs i v = (if i < length xs then Inr (xs[i := v]) else Inl Out_of_bounds)"

lemma arr_get_in [simp]: "i < length xs \<Longrightarrow> arr_get xs i = Inr (xs ! i)"
  by (simp add: arr_get_def)

lemma arr_get_out [simp]: "\<not> i < length xs \<Longrightarrow> arr_get xs i = Inl Out_of_bounds"
  by (simp add: arr_get_def)

lemma arr_set_in [simp]: "i < length xs \<Longrightarrow> arr_set xs i v = Inr (xs[i := v])"
  by (simp add: arr_set_def)

lemma arr_set_out [simp]: "\<not> i < length xs \<Longrightarrow> arr_set xs i v = Inl Out_of_bounds"
  by (simp add: arr_set_def)

text \<open>A C array behind a pointer: \<open>None\<close> is the \<open>NULL\<close> pointer.\<close>

definition ptr_get :: "'a list option \<Rightarrow> nat \<Rightarrow> 'a result" where
  "ptr_get p i = (case p of None \<Rightarrow> Inl Null_deref | Some xs \<Rightarrow> arr_get xs i)"

definition ptr_set :: "'a list option \<Rightarrow> nat \<Rightarrow> 'a \<Rightarrow> 'a list option result" where
  "ptr_set p i v =
     (case p of None \<Rightarrow> Inl Null_deref | Some xs \<Rightarrow> bindR (arr_set xs i v) (\<lambda>ys. Inr (Some ys)))"

lemma ptr_simps [simp]:
  "ptr_get None i = Inl Null_deref"
  "ptr_get (Some xs) i = arr_get xs i"
  "ptr_set None i v = Inl Null_deref"
  "ptr_set (Some xs) i v = bindR (arr_set xs i v) (\<lambda>ys. Inr (Some ys))"
  by (simp_all add: ptr_get_def ptr_set_def)

section \<open>Counting loops\<close>

text \<open>
  A loop over a list of index values whose body may leave it: \<open>Inl\<close> ends the loop with that value.
\<close>

fun for_loop :: "('i \<Rightarrow> 's \<Rightarrow> 'e + 's) \<Rightarrow> 'i list \<Rightarrow> 's \<Rightarrow> 'e + 's" where
  "for_loop f [] s = Inr s"
| "for_loop f (i # is) s = (case f i s of Inl e \<Rightarrow> Inl e | Inr s' \<Rightarrow> for_loop f is s')"

lemma for_loop_total:
  assumes "\<And>i s. i \<in> set is \<Longrightarrow> f i s = Inr (g i s)"
  shows "for_loop f is s = Inr (fold g is s)"
  using assms by (induction "is" arbitrary: s) auto

lemma for_loop_append:
  "for_loop f (is @ js) s = (case for_loop f is s of Inl e \<Rightarrow> Inl e | Inr s' \<Rightarrow> for_loop f js s')"
  by (induction "is" arbitrary: s) (auto split: sum.splits)

lemma for_loop_invariant:
  assumes "for_loop f is s = Inr s'" "I s"
    and "\<And>i s s'. i \<in> set is \<Longrightarrow> I s \<Longrightarrow> f i s = Inr s' \<Longrightarrow> I s'"
  shows "I s'"
  using assms
proof (induction "is" arbitrary: s)
  case (Cons a "is")
  then obtain t where t: "f a s = Inr t" "for_loop f is t = Inr s'" by (auto split: sum.splits)
  then have "I t" using Cons.prems(2,3) by (metis list.set_intros(1))
  then show ?case using Cons.IH[OF t(2)] Cons.prems(3) by (meson list.set_intros(2))
qed simp

text \<open>The rule for a counting loop that never leaves early, with an assertion for every index.\<close>

lemma for_loop_range:
  assumes "P 0 s" and "\<And>i s. i < n \<Longrightarrow> P i s \<Longrightarrow> \<exists>s'. f i s = Inr s' \<and> P (Suc i) s'"
  shows "\<exists>s'. for_loop f [0..<n] s = Inr s' \<and> P n s'"
  using assms(2)
proof (induction n)
  case (Suc n)
  then obtain t where t: "for_loop f [0..<n] s = Inr t" "P n t" by fastforce
  from Suc.prems[OF lessI t(2)] show ?case
    using t by (auto simp: for_loop_append)
qed (simp add: assms(1))

section \<open>Loops that may not end\<close>

text \<open>
  A \<open>while\<close> loop whose body is one step: \<open>Inr None\<close> when the condition is false, \<open>Inr (Some s')\<close> after an
  iteration. The value of a loop that does not end is \<open>None\<close>.
\<close>

partial_function (option) while_loop :: "('s \<Rightarrow> 's option result) \<Rightarrow> 's \<Rightarrow> 's result option" where
  "while_loop f s =
     (case f s of Inl e \<Rightarrow> Some (Inl e) | Inr None \<Rightarrow> Some (Inr s) | Inr (Some s') \<Rightarrow> while_loop f s')"

declare while_loop.simps [code]

text \<open>The rule for loops: an invariant, and a measure that every iteration decreases.\<close>

lemma while_loop_rule:
  fixes \<mu> :: "'s \<Rightarrow> nat"
  assumes "I s"
    and "\<And>s. I s \<Longrightarrow> f s = Inr None \<and> Q s \<or> (\<exists>s'. f s = Inr (Some s') \<and> I s' \<and> \<mu> s' < \<mu> s)"
  shows "\<exists>s'. while_loop f s = Some (Inr s') \<and> I s' \<and> Q s'"
  using assms(1)
proof (induction "\<mu> s" arbitrary: s rule: less_induct)
  case less
  from assms(2)[OF less.prems] show ?case
  proof (elim disjE conjE exE)
    assume "f s = Inr None" "Q s"
    then show ?thesis using less.prems by (intro exI[of _ s]) (simp add: while_loop.simps)
  next
    fix s' assume s': "f s = Inr (Some s')" "I s'" "\<mu> s' < \<mu> s"
    from less.hyps[OF s'(3,2)] show ?thesis using s'(1) by (simp add: while_loop.simps[of f s])
  qed
qed

text \<open>What every iteration keeps holds when the loop has ended.\<close>

lemma while_loop_keeps:
  assumes w: "while_loop f s = Some (Inr s')" and P: "P s" and step: "\<And>s t. P s \<Longrightarrow> f s = Inr (Some t) \<Longrightarrow> P t"
  shows "P s'"
proof -
  have "g = f \<longrightarrow> P u \<longrightarrow> (\<forall>s'. r = Inr s' \<longrightarrow> P s')" if "while_loop g u = Some r" for g u r
    using that
  proof (rule while_loop.raw_induct[rotated])
    fix W g u r
    assume IH: "\<And>g u r. W g u = Some r \<Longrightarrow> g = f \<longrightarrow> P u \<longrightarrow> (\<forall>s'. r = Inr s' \<longrightarrow> P s')"
      and r: "(case g u of Inl e \<Rightarrow> Some (Inl e) | Inr None \<Rightarrow> Some (Inr u) | Inr (Some s') \<Rightarrow> W g s') = Some r"
    show "g = f \<longrightarrow> P u \<longrightarrow> (\<forall>s'. r = Inr s' \<longrightarrow> P s')"
    proof (cases "\<exists>t. g u = Inr (Some t)")
      case True
      then obtain t where t: "g u = Inr (Some t)" by blast
      then have "W g t = Some r" using r by simp
      from IH[OF this] show ?thesis using t step[of u t] by metis
    next
      case False
      then show ?thesis using r by (auto split: sum.splits option.splits)
    qed
  qed
  then show ?thesis using w P by blast
qed

section \<open>Systems of guarded operations\<close>

text \<open>
  The contract of a component whose operations, called when they are allowed, return without a
  fault, keep the invariant and keep the other calls allowed. The provider shows it for one call;
  every finite sequence of calls follows.
\<close>

locale guarded_system =
  fixes inv :: "'s \<Rightarrow> bool" and okay :: "'a \<Rightarrow> 's \<Rightarrow> bool" and step :: "'a \<Rightarrow> 's \<Rightarrow> 's result"
  assumes step_ok: "inv s \<Longrightarrow> okay a s \<Longrightarrow> \<exists>s'. step a s = Inr s' \<and> inv s'"
    and okay_stable: "inv s \<Longrightarrow> okay a s \<Longrightarrow> okay b s \<Longrightarrow> step a s = Inr s' \<Longrightarrow> okay b s'"
begin

lemma run_ok:
  assumes "inv s" "\<forall>a\<in>set as. okay a s"
  shows "\<exists>s'. for_loop step as s = Inr s' \<and> inv s'"
  using assms
proof (induction as arbitrary: s)
  case (Cons a as)
  from step_ok[of s a] Cons.prems obtain t where t: "step a s = Inr t" "inv t" by auto
  have "\<forall>b\<in>set as. okay b t" using okay_stable[of s a _ t] Cons.prems t(1) by simp
  from Cons.IH[OF t(2) this] show ?case using t(1) by simp
qed simp

lemma run_prefix_ok:
  assumes "inv s" "\<forall>a\<in>set (as @ bs). okay a s" "for_loop step (as @ bs) s = Inr u"
  shows "\<exists>t. for_loop step as s = Inr t \<and> inv t \<and> for_loop step bs t = Inr u"
  using run_ok[of s as] assms by (auto simp: for_loop_append)

end

text \<open>
  A system of guarded operations that implements a specification: an abstraction function maps the
  states, and every operation acts on the abstract state as its specification says.
\<close>

locale refined_system = guarded_system inv okay step
  for inv :: "'s \<Rightarrow> bool" and okay :: "'a \<Rightarrow> 's \<Rightarrow> bool" and step :: "'a \<Rightarrow> 's \<Rightarrow> 's result" +
  fixes abs :: "'s \<Rightarrow> 't" and spec :: "'a \<Rightarrow> 't \<Rightarrow> 't"
  assumes step_abs: "inv s \<Longrightarrow> okay a s \<Longrightarrow> step a s = Inr s' \<Longrightarrow> abs s' = spec a (abs s)"
begin

lemma run_abs:
  assumes "inv s" "\<forall>a\<in>set as. okay a s"
  shows "\<exists>s'. for_loop step as s = Inr s' \<and> inv s' \<and> abs s' = fold spec as (abs s)"
  using assms
proof (induction as arbitrary: s)
  case (Cons a as)
  from step_ok[of s a] Cons.prems obtain t where t: "step a s = Inr t" "inv t" by auto
  have "\<forall>b\<in>set as. okay b t" using okay_stable[of s a _ t] Cons.prems t(1) by simp
  from Cons.IH[OF t(2) this] show ?case using t(1) step_abs[of s a t] Cons.prems by simp
qed simp

end

section \<open>Lists\<close>

lemma takeWhile_length_full: "length (takeWhile P xs) = length xs \<longleftrightarrow> (\<forall>x\<in>set xs. P x)"
  by (induction xs) auto

lemma take_drop_Cons:
  assumes "i < n" "n \<le> length xs"
  shows "take (n - i) (drop i xs) = xs ! i # take (n - Suc i) (drop (Suc i) xs)"
  using assms by (simp add: Cons_nth_drop_Suc[symmetric] take_Cons')

lemma replicate_two: "replicate 2 x = [x, x]"
  by (simp add: numeral_2_eq_2)

section \<open>Words\<close>

lemma unat_of_nat_small: "n < 2 ^ LENGTH('a) \<Longrightarrow> unat (of_nat n :: 'a::len word) = n"
  by (simp add: unsigned_of_nat take_bit_nat_eq_self)

lemma word_less_plus1_le: "(e::'a::len word) < t \<Longrightarrow> e + 1 \<le> v \<longleftrightarrow> e < v"
  by (auto simp: inc_less_eq_iff)

lemma word_less_plus1: "(e::'a::len word) < t \<Longrightarrow> e < e + 1"
  using word_less_plus1_le[of e t "e + 1"] by simp

lemma word_minus1_less: "(t::'a::len word) < s \<Longrightarrow> v \<le> s - 1 \<longleftrightarrow> v < s"
  by (auto simp: less_eq_dec_iff)

lemma word_eq_bitI: "(\<And>n. n < LENGTH('a) \<Longrightarrow> bit v n = bit w n) \<Longrightarrow> v = (w :: 'a::len word)"
  by (rule bit_word_eqI)

lemma bit_double_word [simp]:
  "bit ((w :: 'a::len word) * 2) n \<longleftrightarrow> 0 < n \<and> n < LENGTH('a) \<and> bit w (n - 1)"
  "bit (2 * (w :: 'a::len word)) n \<longleftrightarrow> 0 < n \<and> n < LENGTH('a) \<and> bit w (n - 1)"
  by (auto simp add: mult.commute[of w 2] bit_double_iff)

end
