(* ===== verification/CR3_Sampling.thy ===== *)
theory CR3_Sampling
  imports Xen_Prelude
begin

unbundle bit_operations_syntax

text \<open>
  CR3 sampling, the hypervisor half of the memory monitor. The scheduler records the CR3 of every
  vcpu it is about to run in a per-domain array (the \<open><VT> add\<close> block of \<open>schedule()\<close> in
  \<open>common/schedule.c\<close>); the hypercall \<open>do_vt_op\<close> of \<open>arch/x86/mm/hap/p2m-ept.c\<close> starts and stops the
  sampling and drains the array into a buffer of the control domain; the fields live in
  \<open>struct domain\<close> (\<open>include/xen/sched.h\<close>) and are initialised by \<open>domain_create\<close>
  (\<open>common/domain.c\<close>). Memory errors of the C code are values of the model.
\<close>

section \<open>State\<close>

record domain =
  domain_id :: u16
  refcnt :: u32
  sample_flag :: u32
  recent_cr3_size :: u64
  recent_cr3 :: "u64 list option"  \<comment> \<open>\<open>None\<close> is the \<open>NULL\<close> pointer\<close>

definition domain_create_vt :: "u16 \<Rightarrow> domain" where
  "domain_create_vt domid =
     \<lparr>domain_id = domid, refcnt = 1, sample_flag = 0, recent_cr3_size = 0, recent_cr3 = None\<rparr>"

section \<open>Looking a domain up\<close>

definition DOMAIN_DESTROYED :: u32 where
  "DOMAIN_DESTROYED = push_bit 31 1"

definition get_domain :: "domain \<Rightarrow> domain option" where
  "get_domain d =
     (if refcnt d AND DOMAIN_DESTROYED \<noteq> 0 then None
      else Some (d\<lparr>refcnt := refcnt d + 1\<rparr>))"

definition DOMAIN_HASH :: "u16 \<Rightarrow> u16" where
  "DOMAIN_HASH domid = domid AND (256 - 1)"

text \<open>
  The walk of one hash bucket: the first domain with the wanted id, its reference taken. The result
  is the domain and the bucket with that domain updated.
\<close>

fun get_domain_in_bucket :: "u16 \<Rightarrow> domain list \<Rightarrow> (domain \<times> domain list) option" where
  "get_domain_in_bucket domid [] = None"
| "get_domain_in_bucket domid (d # ds) =
     (if domain_id d = domid
      then (case get_domain d of None \<Rightarrow> None | Some d' \<Rightarrow> Some (d', d' # ds))
      else (case get_domain_in_bucket domid ds of None \<Rightarrow> None
            | Some (d', ds') \<Rightarrow> Some (d', d # ds')))"

type_synonym domain_table = "u16 \<Rightarrow> domain list"

definition get_domain_by_id :: "domain_table \<Rightarrow> u16 \<Rightarrow> (domain \<times> domain_table) option" where
  "get_domain_by_id domain_hash domid =
     (case get_domain_in_bucket domid (domain_hash (DOMAIN_HASH domid)) of
        None \<Rightarrow> None
      | Some (d, ds) \<Rightarrow> Some (d, domain_hash (DOMAIN_HASH domid := ds)))"

text \<open>Writing through the \<open>struct domain *\<close> that the lookup returned.\<close>

fun store_in_bucket :: "domain \<Rightarrow> domain list \<Rightarrow> domain list" where
  "store_in_bucket d [] = []"
| "store_in_bucket d (x # xs) =
     (if domain_id x = domain_id d then d # xs else x # store_in_bucket d xs)"

definition store_domain :: "domain \<Rightarrow> domain_table \<Rightarrow> domain_table" where
  "store_domain d h =
     h (DOMAIN_HASH (domain_id d) := store_in_bucket d (h (DOMAIN_HASH (domain_id d))))"

section \<open>The scheduler's sampling hook\<close>

text \<open>\<open>for (i = 0; i < recent_cr3_size; i++) if (tmp_cr3 == recent_cr3[i]) break;\<close>\<close>

function cr3_find :: "u64 \<Rightarrow> u64 list option \<Rightarrow> nat \<Rightarrow> nat \<Rightarrow> nat result" where
  "cr3_find tmp_cr3 rc i n =
     (if i < n
      then bindR (ptr_get rc i)
             (\<lambda>v. if tmp_cr3 = v then Inr i else cr3_find tmp_cr3 rc (Suc i) n)
      else Inr i)"
  by pat_completeness auto
termination
  by (relation "measure (\<lambda>(c, b, i, n). n - i)") auto

declare cr3_find.simps [simp del]

text \<open>\<open>for (i = ...; i > 0; i--) recent_cr3[i] = recent_cr3[i - 1];\<close>\<close>

fun cr3_shift :: "u64 list option \<Rightarrow> nat \<Rightarrow> u64 list option result" where
  "cr3_shift rc 0 = Inr rc"
| "cr3_shift rc (Suc i) =
     bindR (ptr_get rc i) (\<lambda>v. bindR (ptr_set rc (Suc i) v) (\<lambda>rc'. cr3_shift rc' i))"

text \<open>
  The critical section, with the size that was read before the lock was taken. The start index of
  the shifting loop is \<open>recent_cr3_size - 1\<close> narrowed to a signed 32-bit \<open>int\<close>.
\<close>

definition shift_start :: "u64 \<Rightarrow> nat" where
  "shift_start sz = nat (sint (ucast (sz - 1) :: u32))"

definition record_cr3 :: "u64 \<Rightarrow> u64 \<Rightarrow> u64 list option \<Rightarrow> u64 list option result" where
  "record_cr3 tmp_cr3 sz rc =
     bindR (cr3_find tmp_cr3 rc 0 (unat sz)) (\<lambda>i.
       if i = unat sz
       then bindR (cr3_shift rc (shift_start sz)) (\<lambda>rc'. ptr_set rc' 0 tmp_cr3)
       else Inr rc)"

definition schedule_sample :: "u64 \<Rightarrow> domain \<Rightarrow> domain result" where
  "schedule_sample guest_cr3 d =
     (let sz = recent_cr3_size d; tmp_cr3 = guest_cr3
      in if sample_flag d = 1
         then bindR (record_cr3 tmp_cr3 sz (recent_cr3 d)) (\<lambda>rc. Inr (d\<lparr>recent_cr3 := rc\<rparr>))
         else Inr d)"

section \<open>The hypercall\<close>

text \<open>
  \<open>xmalloc_array(unsigned long, num)\<close>: the overflow check of \<open>_xmalloc_array\<close>, then the heap. The heap
  is a parameter: it fails, or returns an array whose contents are whatever the heap held.
\<close>

definition xmalloc_array :: "(u64 \<Rightarrow> u64 list option) \<Rightarrow> u64 \<Rightarrow> u64 list option" where
  "xmalloc_array heap num = (if (2 ^ 32 - 1) div 8 < num then None else heap num)"

definition heap_ok :: "(u64 \<Rightarrow> u64 list option) \<Rightarrow> bool" where
  "heap_ok heap \<longleftrightarrow> (\<forall>n b. heap n = Some b \<longrightarrow> length b = unat n)"

text \<open>
  The draining loop of operation 3. \<open>longBuff[0]\<close> counts the entries copied so far and is also the
  index of the next one.
\<close>

function drain_loop ::
  "nat \<Rightarrow> nat \<Rightarrow> u64 list option \<Rightarrow> u64 list \<Rightarrow> (u64 list option \<times> u64 list) result" where
  "drain_loop i n rc longBuff =
     (if i < n
      then bindR (ptr_get rc i) (\<lambda>v.
             if v \<noteq> 0
             then bindR (arr_get longBuff 0) (\<lambda>c.
                  bindR (arr_set longBuff 0 (c + 1)) (\<lambda>lb.
                  bindR (arr_set lb (unat (c + 1)) v) (\<lambda>lb'.
                  bindR (ptr_set rc i 0) (\<lambda>rc'.
                    drain_loop (Suc i) n rc' lb'))))
             else drain_loop (Suc i) n rc longBuff)
      else Inr (rc, longBuff))"
  by pat_completeness auto
termination
  by (relation "measure (\<lambda>(i, n, r, l). n - i)") auto

declare drain_loop.simps [simp del]

definition vt_init :: "(u64 \<Rightarrow> u64 list option) \<Rightarrow> u64 \<Rightarrow> domain \<Rightarrow> u64 \<times> domain" where
  "vt_init heap arg d =
     (if recent_cr3_size d \<noteq> 0 then (1, d)
      else let d1 = d\<lparr>recent_cr3_size := arg\<rparr>;
               d2 = d1\<lparr>recent_cr3 := xmalloc_array heap arg\<rparr>
           in if recent_cr3 d2 = None then (- 1, d2)
              else (0, d2\<lparr>sample_flag := 1\<rparr>))"

definition vt_stop :: "domain \<Rightarrow> domain" where
  "vt_stop d = d\<lparr>sample_flag := 0, recent_cr3_size := 0, recent_cr3 := None\<rparr>"

definition vt_drain :: "u64 list \<Rightarrow> domain \<Rightarrow> (domain \<times> u64 list) result" where
  "vt_drain longBuff d =
     bindR (arr_set longBuff 0 0) (\<lambda>lb.
     bindR (drain_loop 0 (unat (recent_cr3_size d)) (recent_cr3 d) lb) (\<lambda>(rc, lb').
       Inr (d\<lparr>recent_cr3 := rc\<rparr>, lb')))"

text \<open>
  The whole hypercall. \<open>p2m_get_hostp2m(d)\<close> reads through \<open>d\<close> before \<open>d\<close> is tested against
  \<open>NULL\<close>, so an unknown domain is a null dereference. Nothing gives the reference taken by
  \<open>get_domain_by_id\<close> back.
\<close>

definition do_vt_op ::
  "(u64 \<Rightarrow> u64 list option) \<Rightarrow> u64 \<Rightarrow> u32 \<Rightarrow> u64 \<Rightarrow> u64 list \<Rightarrow> domain_table
     \<Rightarrow> (u64 \<times> domain_table \<times> u64 list) result" where
  "do_vt_op heap op domID arg buf1 h =
     (case get_domain_by_id h (ucast domID) of
        None \<Rightarrow> Inl Null_deref
      | Some (d, h') \<Rightarrow>
          if op = 1 then (case vt_init heap arg d of (r, d') \<Rightarrow> Inr (r, store_domain d' h', buf1))
          else if op = 2 then Inr (0, store_domain (vt_stop d) h', buf1)
          else if op = 3
          then bindR (vt_drain buf1 d) (\<lambda>(d', lb). Inr (0, store_domain d' h', lb))
          else Inr (0, h', buf1))"

lemma cr3_find_eq:
  "i \<le> n \<Longrightarrow> n \<le> length b \<Longrightarrow>
   cr3_find c (Some b) i n = Inr (i + length (takeWhile (\<lambda>v. v \<noteq> c) (take (n - i) (drop i b))))"
proof (induction c "Some b" i n rule: cr3_find.induct)
  case (1 c i n)
  show ?case
  proof (cases "i < n")
    case True
    then have d: "take (n - i) (drop i b) = b ! i # take (n - Suc i) (drop (Suc i) b)"
      using 1(3) by (simp add: Cons_nth_drop_Suc[symmetric] take_Cons' )
    show ?thesis
      using 1 True by (subst cr3_find.simps) (auto simp: d)
  next
    case False
    then show ?thesis using 1 by (subst cr3_find.simps) simp
  qed
qed

lemma cr3_find_full:
  assumes "length b = n"
  shows "cr3_find c (Some b) 0 n = Inr (length (takeWhile (\<lambda>v. v \<noteq> c) b))"
  using cr3_find_eq[of 0 n b c] assms by simp

lemma cr3_shift_eq:
  "i < length b \<Longrightarrow> cr3_shift (Some b) i = Inr (Some (b ! 0 # take i b @ drop (Suc i) b))"
proof (induction i arbitrary: b)
  case 0
  then show ?case by (cases b) auto
next
  case (Suc i)
  have "take i b @ b ! i # drop (Suc (Suc i)) b = take (Suc i) b @ drop (Suc (Suc i)) b"
    using Suc.prems by (simp add: take_Suc_conv_app_nth)
  moreover have "b[Suc i := b ! i] ! 0 = b ! 0" by simp
  moreover have "drop (Suc i) (b[Suc i := b ! i]) = b ! i # drop (Suc (Suc i)) b"
    using Suc.prems by (simp add: Cons_nth_drop_Suc[symmetric] del: drop_Suc)
  ultimately show ?case
    using Suc.IH[of "b[Suc i := b ! i]"] Suc.prems by simp
qed

lemma shift_start_eq:
  assumes "0 < unat sz" "unat sz < 2 ^ 31"
  shows "shift_start sz = unat sz - 1"
proof -
  have u: "unat (sz - 1) = unat sz - 1"
    using assms(1) by (metis unat_minus_one less_irrefl unat_0)
  have b: "uint (sz - 1) = int (unat sz - 1)"
    unfolding uint_nat u ..
  have lt: "int (unat sz - 1) < 2 ^ 31"
  proof -
    have "unat sz - 1 < 2 ^ 31" using assms by linarith
    then show ?thesis using of_nat_less_iff[where 'a = int, of "unat sz - 1" "2 ^ 31"] by (simp del: of_nat_less_iff of_nat_diff)
  qed
  have c: "uint (ucast (sz - 1) :: u32) = int (unat sz - 1)"
    using lt by (simp add: unsigned_ucast_eq b take_bit_int_eq_self)
  have "sint (ucast (sz - 1) :: u32) = int (unat sz - 1)"
    using lt by (simp only: sint_uint c) (simp add: signed_take_bit_int_eq_self)
  then show ?thesis by (simp add: shift_start_def)
qed

definition after_drain :: "nat \<Rightarrow> nat \<Rightarrow> u64 list \<Rightarrow> u64 list" where
  "after_drain i n rc = take i rc @ replicate (n - i) 0 @ drop n rc"

lemma unat_of_nat_Suc64:
  "Suc k < 2 ^ 64 \<Longrightarrow> unat (of_nat k + 1 :: u64) = Suc k"
proof -
  assume "Suc k < 2 ^ 64"
  then have "unat (of_nat (Suc k) :: u64) = Suc k" by (intro unat_of_nat_small) simp
  moreover have "of_nat k + 1 = (of_nat (Suc k) :: u64)" by simp
  ultimately show ?thesis by metis
qed

lemma drain_step_copy:
  assumes "i < n" "n \<le> length rc" "rc ! i \<noteq> 0" "Suc (length out) < 2 ^ 64"
  shows "drain_loop i n (Some rc) (of_nat (length out) # out @ r # rest) =
    drain_loop (Suc i) n (Some (rc[i := 0]))
      (of_nat (length (out @ [rc ! i])) # (out @ [rc ! i]) @ rest)"
proof -
  have "of_nat (length out) + 1 = (of_nat (length (out @ [rc ! i])) :: u64)" by simp
  then show ?thesis
    using assms unat_of_nat_Suc64[OF assms(4)]
    by (subst drain_loop.simps) (simp del: of_nat_Suc add: list_update_append)
qed

lemma drain_loop_eq:
  assumes "i \<le> n" "n \<le> length rc" "lb = of_nat (length out) # out @ rest"
    and "vs = filter (\<lambda>v. v \<noteq> 0) (take (n - i) (drop i rc))"
    and "length vs \<le> length rest" "length lb < 2 ^ 64"
  shows "drain_loop i n (Some rc) lb =
    Inr (Some (after_drain i n rc),
         of_nat (length out + length vs) # out @ vs @ drop (length vs) rest)"
  using assms
proof (induction "n - i" arbitrary: i rc lb out rest vs)
  case 0
  then show ?case by (subst drain_loop.simps) (simp add: after_drain_def)
next
  case (Suc m)
  then have i: "i < n" "i < length rc" by auto
  have d: "take (n - i) (drop i rc) = rc ! i # take (n - Suc i) (drop (Suc i) rc)"
    using i Suc.prems(2) by (simp add: Cons_nth_drop_Suc[symmetric] take_Cons')
  show ?case
  proof (cases "rc ! i = 0")
    case True
    have "after_drain (Suc i) n rc = after_drain i n rc"
      using True i by (simp add: after_drain_def take_Suc_conv_app_nth Suc_diff_Suc[symmetric] flip: replicate_Suc)
    then show ?thesis
      using Suc.hyps(1)[of "Suc i" rc lb out rest vs] Suc.hyps(2) Suc.prems True i
      by (subst drain_loop.simps) (simp add: d)
  next
    case False
    define vs' where "vs' = filter (\<lambda>v. v \<noteq> 0) (take (n - Suc i) (drop (Suc i) rc))"
    have vs: "vs = rc ! i # vs'" using Suc.prems(4) d False by (simp add: vs'_def)
    then obtain r rest' where r: "rest = r # rest'" using Suc.prems(5) by (cases rest) auto
    have lv: "length vs' \<le> length rest'" using Suc.prems(5) vs r by simp
    have len: "Suc (length out) < 2 ^ 64" using Suc.prems(3,6) r by simp
    have ad: "after_drain (Suc i) n (rc[i := 0]) = after_drain i n rc"
      using i by (simp add: after_drain_def take_Suc_conv_app_nth Suc_diff_Suc[symmetric] flip: replicate_Suc)
    have "drain_loop (Suc i) n (Some (rc[i := 0])) (of_nat (length (out @ [rc ! i])) # (out @ [rc ! i]) @ rest') =
       Inr (Some (after_drain (Suc i) n (rc[i := 0])),
         of_nat (length (out @ [rc ! i]) + length vs') # (out @ [rc ! i]) @ vs' @ drop (length vs') rest')"
      using Suc.prems Suc.hyps(2) lv r i
      by (intro Suc.hyps(1)) (simp_all add: vs'_def)
    then show ?thesis
      using i False Suc.prems(2,3) r len drain_step_copy[of i n rc out r rest']
      by (simp add: ad vs)
  qed
qed

section \<open>The hook and the drain as list functions\<close>

lemma record_cr3_eq:
  assumes "length b = unat sz" "0 < unat sz" "unat sz < 2 ^ 31"
  shows "record_cr3 c sz (Some b) = Inr (Some (if c \<in> set b then b else c # butlast b))"
proof (cases "c \<in> set b")
  case True
  then have "length (takeWhile (\<lambda>v. v \<noteq> c) b) \<noteq> unat sz"
    using assms(1) takeWhile_length_full[of "\<lambda>v. v \<noteq> c" b] by auto
  with True show ?thesis
    by (simp add: record_cr3_def cr3_find_full[OF assms(1)])
next
  case False
  then have f: "length (takeWhile (\<lambda>v. v \<noteq> c) b) = unat sz"
    using assms(1) takeWhile_length_full[of "\<lambda>v. v \<noteq> c" b] by auto
  have "b \<noteq> []" using assms by auto
  have "take (unat sz - 1) b = butlast b" "drop (Suc (unat sz - 1)) b = []"
    using assms by (simp_all add: butlast_conv_take)
  with False f \<open>b \<noteq> []\<close> show ?thesis
    using cr3_shift_eq[of "unat sz - 1" b] assms
    by (simp add: record_cr3_def cr3_find_full[OF assms(1)] shift_start_eq)
qed

lemma vt_drain_eq:
  assumes "recent_cr3 d = Some b" "length b = unat (recent_cr3_size d)"
    and "length (filter (\<lambda>v. v \<noteq> 0) b) < length lb" "length lb < 2 ^ 64"
  shows "vt_drain lb d =
    Inr (d\<lparr>recent_cr3 := Some (replicate (length b) 0)\<rparr>,
         of_nat (length (filter (\<lambda>v. v \<noteq> 0) b)) # filter (\<lambda>v. v \<noteq> 0) b
           @ drop (Suc (length (filter (\<lambda>v. v \<noteq> 0) b))) lb)"
proof -
  obtain x rest where lb: "lb = x # rest" using assms(3) by (cases lb) auto
  have "drain_loop 0 (length b) (Some b) (0 # rest) =
    Inr (Some (after_drain 0 (length b) b),
      of_nat (length (filter (\<lambda>v. v \<noteq> 0) b)) # filter (\<lambda>v. v \<noteq> 0) b
        @ drop (length (filter (\<lambda>v. v \<noteq> 0) b)) rest)"
    using drain_loop_eq[of 0 "length b" b "0 # rest" "[]" rest "filter (\<lambda>v. v \<noteq> 0) b"] assms(3,4) lb
    by simp
  then show ?thesis
    using assms lb by (simp add: vt_drain_def after_drain_def)
qed

lemma drain_loop_overflow:
  assumes "i \<le> n" "n \<le> length rc" "lb = of_nat (length out) # out @ rest"
    and "length rest < length (filter (\<lambda>v. v \<noteq> 0) (take (n - i) (drop i rc)))"
    and "length lb < 2 ^ 64"
  shows "drain_loop i n (Some rc) lb = Inl Out_of_bounds"
  using assms
proof (induction "n - i" arbitrary: i rc lb out rest)
  case 0
  then show ?case by simp
next
  case (Suc m)
  then have i: "i < n" "i < length rc" by auto
  note d = take_drop_Cons[OF i(1) Suc.prems(2)]
  show ?case
  proof (cases "rc ! i = 0")
    case True
    then show ?thesis
      using Suc.hyps(1)[of "Suc i" rc lb out rest] Suc.hyps(2) Suc.prems i
      by (subst drain_loop.simps) (simp add: d)
  next
    case False
    have len: "Suc (length out) < 2 ^ 64" using Suc.prems(3,5) by simp
    show ?thesis
    proof (cases rest)
      case Nil
      then show ?thesis
        using i False Suc.prems(3) by (subst drain_loop.simps) (simp add: unat_of_nat_Suc64[OF len])
    next
      case (Cons r rest')
      have "drain_loop (Suc i) n (Some (rc[i := 0])) (of_nat (length (out @ [rc ! i])) # (out @ [rc ! i]) @ rest')
        = Inl Out_of_bounds"
        using Suc.prems Suc.hyps(2) Cons i False d
        by (intro Suc.hyps(1)[where out = "out @ [rc ! i]" and rest = rest']) simp_all
      then show ?thesis
        using i False Suc.prems(2,3) Cons len drain_step_copy[of i n rc out r rest'] by simp
    qed
  qed
qed

lemma vt_drain_overflow:
  assumes "recent_cr3 d = Some b" "length b = unat (recent_cr3_size d)"
    and "length lb \<le> length (filter (\<lambda>v. v \<noteq> 0) b)" "length lb < 2 ^ 64"
  shows "vt_drain lb d = Inl Out_of_bounds"
proof (cases lb)
  case Nil
  then show ?thesis by (simp add: vt_drain_def)
next
  case (Cons x rest)
  then show ?thesis
    using drain_loop_overflow[of 0 "length b" b "0 # rest" "[]" rest] assms
    by (simp add: vt_drain_def)
qed

section \<open>The interface of a recorder of recent keys\<close>

text \<open>
  What the monitor relies on: a bounded record of recently seen keys, newest first, that never
  repeats a key. \<open>note\<close> may fault; under the invariant it does not.
\<close>

locale recent_recorder =
  fixes note_key :: "'k \<Rightarrow> 's \<Rightarrow> 's result"
    and contents :: "'s \<Rightarrow> 'k list"
    and capacity :: "'s \<Rightarrow> nat"
    and inv :: "'s \<Rightarrow> bool"
    and valid :: "'k \<Rightarrow> bool"
  assumes contents_distinct: "inv s \<Longrightarrow> distinct (contents s)"
    and contents_bound: "inv s \<Longrightarrow> length (contents s) \<le> capacity s"
    and note_key_law: "inv s \<Longrightarrow> valid k \<Longrightarrow>
          \<exists>s'. note_key k s = Inr s' \<and> inv s' \<and> capacity s' = capacity s \<and>
               contents s' = (if k \<in> set (contents s) then contents s
                              else take (capacity s) (k # contents s))"
begin

primrec note_all :: "'k list \<Rightarrow> 's \<Rightarrow> 's result" where
  "note_all [] s = Inr s"
| "note_all (k # ks) s = bindR (note_key k s) (note_all ks)"

lemma note_all_inv:
  assumes "inv s" "\<forall>k\<in>set ks. valid k"
  shows "\<exists>s'. note_all ks s = Inr s' \<and> inv s' \<and> capacity s' = capacity s \<and>
               set (contents s') \<subseteq> set (contents s) \<union> set ks"
  using assms
proof (induction ks arbitrary: s)
  case Nil
  then show ?case by simp
next
  case (Cons k ks)
  then obtain s1 where s1: "note_key k s = Inr s1" "inv s1" "capacity s1 = capacity s"
    "contents s1 = (if k \<in> set (contents s) then contents s else take (capacity s) (k # contents s))"
    using note_key_law[of s k] by auto
  obtain s2 where s2: "note_all ks s1 = Inr s2" "inv s2" "capacity s2 = capacity s1"
    "set (contents s2) \<subseteq> set (contents s1) \<union> set ks"
    using Cons.IH[OF s1(2)] Cons.prems by auto
  have "set (contents s1) \<subseteq> insert k (set (contents s))"
    using s1(4) set_take_subset[of "capacity s" "k # contents s"] by auto
  with s1 s2 show ?case by auto
qed

text \<open>
  Completeness: while the distinct keys fit, none is ever dropped, and the record lists exactly the
  keys that were noted.
\<close>

lemma note_all_complete:
  assumes "inv s" "\<forall>k\<in>set ks. valid k" "card (set (contents s) \<union> set ks) \<le> capacity s"
  shows "\<exists>s'. note_all ks s = Inr s' \<and> inv s' \<and> capacity s' = capacity s \<and>
               set (contents s') = set (contents s) \<union> set ks"
  using assms
proof (induction ks arbitrary: s)
  case Nil
  then show ?case by simp
next
  case (Cons k ks)
  then obtain s1 where s1: "note_key k s = Inr s1" "inv s1" "capacity s1 = capacity s"
    "contents s1 = (if k \<in> set (contents s) then contents s else take (capacity s) (k # contents s))"
    using note_key_law[of s k] by auto
  have fits: "k \<notin> set (contents s) \<Longrightarrow> length (k # contents s) \<le> capacity s"
  proof -
    assume "k \<notin> set (contents s)"
    then have "length (k # contents s) = card (insert k (set (contents s)))"
      using contents_distinct[OF Cons.prems(1)] by (simp add: distinct_card)
    also have "\<dots> \<le> card (set (contents s) \<union> set (k # ks))"
      by (intro card_mono) auto
    finally show ?thesis using Cons.prems(3) by simp
  qed
  have set1: "set (contents s1) = insert k (set (contents s))"
    using s1(4) fits by (auto split: if_splits)
  then have "set (contents s1) \<union> set ks = set (contents s) \<union> set (k # ks)" by auto
  then have "card (set (contents s1) \<union> set ks) \<le> capacity s1"
    using Cons.prems(3) s1(3) by metis
  then obtain s2 where "note_all ks s1 = Inr s2" "inv s2" "capacity s2 = capacity s1"
    "set (contents s2) = set (contents s1) \<union> set ks"
    using Cons.IH[OF s1(2)] Cons.prems(2) by auto
  with s1 set1 show ?case by auto
qed

end

section \<open>The sampler implements the interface\<close>

definition sampling_cr3s :: "domain \<Rightarrow> u64 list" where
  "sampling_cr3s d = (case recent_cr3 d of None \<Rightarrow> [] | Some b \<Rightarrow> filter (\<lambda>v. v \<noteq> 0) b)"

definition sampling_cap :: "domain \<Rightarrow> nat" where
  "sampling_cap d = unat (recent_cr3_size d)"

text \<open>Sampling is on, the array is allocated, and its used part is a prefix without repetitions.\<close>

definition sampling_inv :: "domain \<Rightarrow> bool" where
  "sampling_inv d \<longleftrightarrow>
     sample_flag d = 1 \<and> 0 < sampling_cap d \<and> sampling_cap d < 2 ^ 31 \<and>
     recent_cr3 d = Some (sampling_cr3s d @ replicate (sampling_cap d - length (sampling_cr3s d)) 0) \<and>
     length (sampling_cr3s d) \<le> sampling_cap d \<and> distinct (sampling_cr3s d)"

lemma sampling_cr3s_nonzero [simp]: "0 \<notin> set (sampling_cr3s d)"
  by (auto simp: sampling_cr3s_def split: option.splits)

lemma schedule_sample_eq:
  assumes "sample_flag d = 1" "recent_cr3 d = Some b" "length b = sampling_cap d"
    and "0 < sampling_cap d" "sampling_cap d < 2 ^ 31"
  shows "schedule_sample c d =
    Inr (d\<lparr>recent_cr3 := Some (if c \<in> set b then b else c # butlast b)\<rparr>)"
  using assms by (simp add: schedule_sample_def record_cr3_eq sampling_cap_def)

lemma butlast_pad:
  assumes "length xs \<le> n" "0 < n"
  shows "butlast (xs @ replicate (n - length xs) y) =
    take (n - 1) xs @ replicate (n - 1 - length xs) y"
proof (cases "length xs = n")
  case True
  then show ?thesis by (simp add: butlast_conv_take)
next
  case False
  then have "replicate (n - length xs) y = replicate (n - 1 - length xs) y @ [y]"
    using assms by (simp add: replicate_append_same flip: replicate_Suc)
  then show ?thesis using assms False by (simp only: butlast_append butlast_snoc) simp
qed

lemma schedule_sample_law:
  assumes "sampling_inv d" "c \<noteq> 0"
  shows "\<exists>d'. schedule_sample c d = Inr d' \<and> sampling_inv d' \<and> sampling_cap d' = sampling_cap d \<and>
    sampling_cr3s d' = (if c \<in> set (sampling_cr3s d) then sampling_cr3s d
                        else take (sampling_cap d) (c # sampling_cr3s d))"
proof -
  define xs where "xs = sampling_cr3s d"
  define n where "n = sampling_cap d"
  define b where "b = xs @ replicate (n - length xs) 0"
  have inv: "sample_flag d = 1" "0 < n" "n < 2 ^ 31" "recent_cr3 d = Some b" "length xs \<le> n" "distinct xs"
    using assms(1) by (simp_all add: sampling_inv_def xs_def n_def b_def)
  have nz: "0 \<notin> set xs" by (simp add: xs_def)
  have cb: "c \<in> set b \<longleftrightarrow> c \<in> set xs" using assms(2) by (auto simp: b_def)
  have eq: "schedule_sample c d = Inr (d\<lparr>recent_cr3 := Some (if c \<in> set xs then b else c # butlast b)\<rparr>)"
    using schedule_sample_eq[of d b c] inv cb by (simp add: b_def n_def)
  show ?thesis
  proof (cases "c \<in> set xs")
    case True
    then have "schedule_sample c d = Inr d" using eq inv(4) by simp
    with True assms(1) show ?thesis by (simp add: xs_def)
  next
    case False
    define ys where "ys = take n (c # xs)"
    define d' where "d' = d\<lparr>recent_cr3 := Some (ys @ replicate (n - length ys) 0)\<rparr>"
    have "ys = c # take (n - 1) xs" using inv(2) by (cases n) (simp_all add: ys_def)
    moreover have "n - length ys = n - 1 - length xs" using inv(2) by (cases n) (auto simp: ys_def)
    ultimately have "c # butlast b = ys @ replicate (n - length ys) 0"
      using butlast_pad[OF inv(5,2)] by (simp add: b_def)
    then have e: "schedule_sample c d = Inr d'" using eq False by (simp add: d'_def)
    have "0 \<notin> set ys" using nz assms(2) by (auto simp: ys_def dest: in_set_takeD)
    then have "filter (\<lambda>v. v \<noteq> 0) ys = ys" by (intro filter_True) auto
    then have ys: "sampling_cr3s d' = ys"
      by (simp add: d'_def sampling_cr3s_def)
    have "distinct ys" using False inv(6) unfolding ys_def by (metis distinct.simps(2) distinct_take)
    moreover have r: "sample_flag d' = 1" "sampling_cap d' = n"
      "recent_cr3 d' = Some (ys @ replicate (n - length ys) 0)"
      using inv by (simp_all add: d'_def sampling_cap_def n_def)
    moreover have "length ys \<le> n" by (simp add: ys_def)
    ultimately have "sampling_inv d'"
      unfolding sampling_inv_def ys r using inv by blast
    with e ys r False show ?thesis by (auto simp: ys_def xs_def n_def)
  qed
qed

interpretation sampler: recent_recorder schedule_sample sampling_cr3s sampling_cap sampling_inv
  "\<lambda>c. c \<noteq> 0"
  by unfold_locales (simp add: sampling_inv_def, simp add: sampling_inv_def, rule schedule_sample_law)

section \<open>Interleaving of the hook and the hypercall\<close>

text \<open>
  The hook reads the size and the CR3, then tests \<open>sample_flag\<close>, and only then takes
  \<open>recent_cr3_lock\<close>; operation 1 runs without the lock. Both are split where another processor can
  get in between: \<open>reads\<close> holds the sizes and CR3s of hooks that have not yet tested the flag,
  \<open>pend\<close> those of hooks that found it set and have not yet got the lock, \<open>starts\<close> how far each
  operation 1 in progress has come. Nothing in \<open>do_vt_op\<close> keeps two calls apart: with \<open>one_tool\<close>
  false a call may begin while an operation 1 is in progress, with \<open>one_tool\<close> true the calls come
  one after the other, as they do from one run of the monitor. \<open>arg\<close> is the size the tool asks for,
  \<open>blen\<close> the length of its buffer; \<open>stop_ok\<close> says whether the tool ever issues operation 2.

  Operations 2 and 3 hold the lock and are one step each. The unlocked reads of a hook do not see the
  difference: a drain writes neither the size nor the flag, and a stop clears the flag first, which a
  hook reads last. An operation 1 could get in between (only with \<open>one_tool\<close> false, where
  \<open>vt_start_race\<close> below shows a fault without these further interleavings).
\<close>

datatype ctl_pc = C_checked | C_sized | C_alloced | C_tested

record vt_sys =
  vdom :: domain
  reads :: "(u64 \<times> u64) list"
  pend :: "(u64 \<times> u64) list"
  starts :: "ctl_pc list"
  crashed :: "fault option"

definition vt_sys_init :: "u16 \<Rightarrow> vt_sys" where
  "vt_sys_init domid =
     \<lparr>vdom = domain_create_vt domid, reads = [], pend = [], starts = [], crashed = None\<rparr>"

text \<open>An operation 1 that goes from one point to the next.\<close>

definition advance :: "ctl_pc \<Rightarrow> ctl_pc \<Rightarrow> ctl_pc list \<Rightarrow> ctl_pc list" where
  "advance p q ps = q # remove1 p ps"

inductive vt_step ::
  "(u64 \<Rightarrow> u64 list option) \<Rightarrow> bool \<Rightarrow> bool \<Rightarrow> u64 \<Rightarrow> nat \<Rightarrow> vt_sys \<Rightarrow> vt_sys \<Rightarrow> bool"
  for heap one_tool stop_ok arg blen where
  hook_read: "crashed s = None \<Longrightarrow>
     vt_step heap one_tool stop_ok arg blen s
       (s\<lparr>reads := (recent_cr3_size (vdom s), c) # reads s\<rparr>)"
| hook_skip: "crashed s = None \<Longrightarrow> (sz, c) \<in> set (reads s) \<Longrightarrow> sample_flag (vdom s) \<noteq> 1 \<Longrightarrow>
     vt_step heap one_tool stop_ok arg blen s (s\<lparr>reads := remove1 (sz, c) (reads s)\<rparr>)"
| hook_test: "crashed s = None \<Longrightarrow> (sz, c) \<in> set (reads s) \<Longrightarrow> sample_flag (vdom s) = 1 \<Longrightarrow>
     vt_step heap one_tool stop_ok arg blen s
       (s\<lparr>reads := remove1 (sz, c) (reads s), pend := (sz, c) # pend s\<rparr>)"
| hook_locked: "crashed s = None \<Longrightarrow> (sz, c) \<in> set (pend s) \<Longrightarrow>
     record_cr3 c sz (recent_cr3 (vdom s)) = Inr rc \<Longrightarrow>
     vt_step heap one_tool stop_ok arg blen s
       (s\<lparr>vdom := (vdom s)\<lparr>recent_cr3 := rc\<rparr>, pend := remove1 (sz, c) (pend s)\<rparr>)"
| hook_fault: "crashed s = None \<Longrightarrow> (sz, c) \<in> set (pend s) \<Longrightarrow>
     record_cr3 c sz (recent_cr3 (vdom s)) = Inl f \<Longrightarrow>
     vt_step heap one_tool stop_ok arg blen s (s\<lparr>crashed := Some f\<rparr>)"
| init_check: "crashed s = None \<Longrightarrow> one_tool \<longrightarrow> starts s = [] \<Longrightarrow> recent_cr3_size (vdom s) = 0 \<Longrightarrow>
     vt_step heap one_tool stop_ok arg blen s (s\<lparr>starts := C_checked # starts s\<rparr>)"
| init_size: "crashed s = None \<Longrightarrow> C_checked \<in> set (starts s) \<Longrightarrow>
     vt_step heap one_tool stop_ok arg blen s
       (s\<lparr>vdom := (vdom s)\<lparr>recent_cr3_size := arg\<rparr>,
          starts := advance C_checked C_sized (starts s)\<rparr>)"
| init_alloc: "crashed s = None \<Longrightarrow> C_sized \<in> set (starts s) \<Longrightarrow>
     vt_step heap one_tool stop_ok arg blen s
       (s\<lparr>vdom := (vdom s)\<lparr>recent_cr3 := xmalloc_array heap arg\<rparr>,
          starts := advance C_sized C_alloced (starts s)\<rparr>)"
| init_fail: "crashed s = None \<Longrightarrow> C_alloced \<in> set (starts s) \<Longrightarrow> recent_cr3 (vdom s) = None \<Longrightarrow>
     vt_step heap one_tool stop_ok arg blen s (s\<lparr>starts := remove1 C_alloced (starts s)\<rparr>)"
| init_test: "crashed s = None \<Longrightarrow> C_alloced \<in> set (starts s) \<Longrightarrow> recent_cr3 (vdom s) \<noteq> None \<Longrightarrow>
     vt_step heap one_tool stop_ok arg blen s
       (s\<lparr>starts := advance C_alloced C_tested (starts s)\<rparr>)"
| init_flag: "crashed s = None \<Longrightarrow> C_tested \<in> set (starts s) \<Longrightarrow>
     vt_step heap one_tool stop_ok arg blen s
       (s\<lparr>vdom := (vdom s)\<lparr>sample_flag := 1\<rparr>, starts := remove1 C_tested (starts s)\<rparr>)"
| stop: "crashed s = None \<Longrightarrow> one_tool \<longrightarrow> starts s = [] \<Longrightarrow> stop_ok \<Longrightarrow>
     vt_step heap one_tool stop_ok arg blen s (s\<lparr>vdom := vt_stop (vdom s)\<rparr>)"
| drain: "crashed s = None \<Longrightarrow> one_tool \<longrightarrow> starts s = [] \<Longrightarrow> length lb = blen \<Longrightarrow>
     vt_drain lb (vdom s) = Inr (d, lb') \<Longrightarrow>
     vt_step heap one_tool stop_ok arg blen s (s\<lparr>vdom := d\<rparr>)"
| drain_fault: "crashed s = None \<Longrightarrow> one_tool \<longrightarrow> starts s = [] \<Longrightarrow> length lb = blen \<Longrightarrow>
     vt_drain lb (vdom s) = Inl f \<Longrightarrow>
     vt_step heap one_tool stop_ok arg blen s (s\<lparr>crashed := Some f\<rparr>)"

inductive vt_reach ::
  "(u64 \<Rightarrow> u64 list option) \<Rightarrow> bool \<Rightarrow> bool \<Rightarrow> u64 \<Rightarrow> nat \<Rightarrow> vt_sys \<Rightarrow> bool"
  for heap one_tool stop_ok arg blen where
  start: "vt_reach heap one_tool stop_ok arg blen (vt_sys_init domid)"
| step: "vt_reach heap one_tool stop_ok arg blen s \<Longrightarrow> vt_step heap one_tool stop_ok arg blen s t \<Longrightarrow>
     vt_reach heap one_tool stop_ok arg blen t"

text \<open>
  What holds between the steps when one tool makes the calls and never stops the sampling. A hook that
  read the size before the start may still hold a zero.
\<close>

definition has_array :: "u64 \<Rightarrow> domain \<Rightarrow> bool" where
  "has_array arg d \<longleftrightarrow> recent_cr3_size d = arg \<and> (\<exists>b. recent_cr3 d = Some b \<and> length b = unat arg)"

definition start_inv :: "u64 \<Rightarrow> domain \<Rightarrow> ctl_pc list \<Rightarrow> bool" where
  "start_inv arg d ps \<longleftrightarrow>
     (ps = [] \<and> (if sample_flag d = 1 then has_array arg d else recent_cr3_size d = 0)) \<or>
     (ps = [C_checked] \<and> sample_flag d \<noteq> 1 \<and> recent_cr3_size d = 0) \<or>
     (ps = [C_sized] \<and> sample_flag d \<noteq> 1 \<and> recent_cr3_size d = arg) \<or>
     ((ps = [C_alloced] \<or> ps = [C_tested]) \<and> sample_flag d \<noteq> 1 \<and> has_array arg d)"

definition vt_sys_inv :: "u64 \<Rightarrow> vt_sys \<Rightarrow> bool" where
  "vt_sys_inv arg s \<longleftrightarrow>
     crashed s = None \<and> start_inv arg (vdom s) (starts s) \<and>
     (pend s \<noteq> [] \<longrightarrow> sample_flag (vdom s) = 1) \<and>
     (\<forall>p\<in>set (reads s) \<union> set (pend s). fst p = 0 \<or> fst p = arg)"

lemma start_inv_size: "start_inv arg d ps \<Longrightarrow> recent_cr3_size d = 0 \<or> recent_cr3_size d = arg"
  by (auto simp: start_inv_def has_array_def split: if_splits)

lemma start_inv_flag: "start_inv arg d ps \<Longrightarrow> sample_flag d = 1 \<Longrightarrow> ps = [] \<and> has_array arg d"
  by (auto simp: start_inv_def split: if_splits)

lemma vt_sys_inv_pend:
  assumes "vt_sys_inv arg s" "(sz, c) \<in> set (pend s)"
  shows "has_array arg (vdom s)" "sz = 0 \<or> sz = arg" "starts s = []" "sample_flag (vdom s) = 1"
proof -
  have "pend s \<noteq> []" using assms(2) by auto
  then show f: "sample_flag (vdom s) = 1" using assms(1) by (simp add: vt_sys_inv_def)
  show "sz = 0 \<or> sz = arg" using assms by (force simp: vt_sys_inv_def)
  show "has_array arg (vdom s)" "starts s = []"
    using start_inv_flag[of arg "vdom s" "starts s"] f assms(1) by (simp_all add: vt_sys_inv_def)
qed

lemma unat_xmalloc_bound:
  assumes "xmalloc_array heap arg = Some b" "heap_ok heap"
  shows "length b = unat arg" "unat arg < 2 ^ 31"
proof -
  have h: "heap arg = Some b" "\<not> (2 ^ 32 - 1) div 8 < arg"
    using assms(1) by (auto simp: xmalloc_array_def split: if_splits)
  then show "length b = unat arg" using assms(2) by (simp add: heap_ok_def)
  have "arg \<le> (2 ^ 32 - 1) div 8" using h(2) by simp
  then have "unat arg \<le> unat ((2 ^ 32 - 1) div 8 :: u64)" by (simp add: word_le_nat_alt)
  also have "\<dots> < 2 ^ 31" by simp
  finally show "unat arg < 2 ^ 31" .
qed

lemma shift_start_zero: "shift_start 0 = 0"
  by code_simp

lemma record_cr3_zero:
  assumes "0 < length b"
  shows "record_cr3 c 0 (Some b) = Inr (Some (b[0 := c]))"
  using assms by (simp add: record_cr3_def cr3_find.simps[of _ _ 0] shift_start_zero)

lemma record_cr3_length:
  assumes "length b = unat arg" "arg \<noteq> 0" "unat arg < 2 ^ 31" "sz = 0 \<or> sz = arg"
  shows "\<exists>b'. record_cr3 c sz (Some b) = Inr (Some b') \<and> length b' = unat arg"
proof -
  have pos: "0 < unat arg" using assms(2) by (simp add: unat_gt_0)
  then show ?thesis
    using record_cr3_eq[OF assms(1) _ assms(3), of c] record_cr3_zero[of b c] assms(1,4) by auto
qed

lemma vt_drain_length:
  assumes "recent_cr3_size d = 0 \<or>
      (\<exists>b. recent_cr3 d = Some b \<and> length b = unat (recent_cr3_size d))"
    and "unat (recent_cr3_size d) < length lb" "length lb < 2 ^ 64"
  shows "\<exists>d' lb'. vt_drain lb d = Inr (d', lb') \<and> sample_flag d' = sample_flag d \<and>
    recent_cr3_size d' = recent_cr3_size d \<and>
    (\<forall>b. recent_cr3 d = Some b \<longrightarrow> (\<exists>b'. recent_cr3 d' = Some b' \<and> length b' = length b))"
proof (cases "recent_cr3_size d = 0")
  case True
  then show ?thesis using assms(2)
    by (auto simp: vt_drain_def drain_loop.simps[of 0 0])
next
  case False
  then obtain b where b: "recent_cr3 d = Some b" "length b = unat (recent_cr3_size d)"
    using assms(1) by auto
  have "length (filter (\<lambda>v. v \<noteq> 0) b) < length lb"
    using assms(2) b(2) length_filter_le[of "\<lambda>v. v \<noteq> 0" b] by linarith
  from vt_drain_eq[OF b this assms(3)] b show ?thesis by auto
qed

lemma vt_step_inv:
  assumes "vt_step heap True False arg blen s t" "vt_sys_inv arg s"
    and "heap_ok heap" "xmalloc_array heap arg \<noteq> None" "arg \<noteq> 0" "unat arg < blen" "blen < 2 ^ 64"
  shows "vt_sys_inv arg t"
proof -
  obtain b0 where b0: "xmalloc_array heap arg = Some b0" "length b0 = unat arg" "unat arg < 2 ^ 31"
    using assms(3,4) unat_xmalloc_bound by blast
  have rec: "\<exists>b'. record_cr3 c sz (recent_cr3 (vdom s)) = Inr (Some b') \<and> length b' = unat arg"
    if "(sz, c) \<in> set (pend s)" for sz c
    using vt_sys_inv_pend[OF assms(2) that] record_cr3_length[OF _ assms(5) b0(3)]
    by (auto simp: has_array_def)
  have dr: "\<exists>d' lb'. vt_drain lb (vdom s) = Inr (d', lb') \<and> start_inv arg d' [] \<and>
      sample_flag d' = sample_flag (vdom s)" if "starts s = []" "length lb = blen" for lb
    using vt_drain_length[of "vdom s" lb] assms(2,5,6,7) that
    by (fastforce simp: vt_sys_inv_def start_inv_def has_array_def split: if_splits)
  note inv = assms(2)[unfolded vt_sys_inv_def]
  show ?thesis
    using assms(1)
  proof (cases rule: vt_step.cases)
    case (hook_read c)
    then show ?thesis using inv start_inv_size[of arg "vdom s" "starts s"] by (auto simp: vt_sys_inv_def)
  next
    case (hook_skip sz c)
    then show ?thesis using inv set_remove1_subset[of "(sz, c)" "reads s"] by (auto simp: vt_sys_inv_def)
  next
    case (hook_test sz c)
    then have "sz = 0 \<or> sz = arg" using inv by force
    with hook_test show ?thesis using inv set_remove1_subset[of "(sz, c)" "reads s"]
      by (auto simp: vt_sys_inv_def)
  next
    case (hook_locked sz c rc)
    note p = vt_sys_inv_pend[OF assms(2) hook_locked(3)]
    obtain b' where "rc = Some b'" "length b' = unat arg" using rec[OF hook_locked(3)] hook_locked(4) by auto
    then have "start_inv arg ((vdom s)\<lparr>recent_cr3 := rc\<rparr>) (starts s)"
      using p by (simp add: start_inv_def has_array_def)
    then show ?thesis
      using inv p(4) hook_locked set_remove1_subset[of "(sz, c)" "pend s"] by (auto simp: vt_sys_inv_def)
  next
    case (hook_fault sz c f)
    then show ?thesis using rec[OF hook_fault(3)] by auto
  next
    case init_check
    then show ?thesis using inv assms(5) by (auto simp: vt_sys_inv_def start_inv_def has_array_def split: if_splits)
  next
    case init_size
    then show ?thesis using inv by (auto simp: vt_sys_inv_def start_inv_def advance_def)
  next
    case init_alloc
    then show ?thesis using inv b0 by (auto simp: vt_sys_inv_def start_inv_def advance_def has_array_def)
  next
    case init_fail
    then show ?thesis using inv by (auto simp: vt_sys_inv_def start_inv_def has_array_def)
  next
    case init_test
    then show ?thesis using inv by (auto simp: vt_sys_inv_def start_inv_def advance_def)
  next
    case init_flag
    then show ?thesis using inv by (auto simp: vt_sys_inv_def start_inv_def has_array_def)
  next
    case stop
    then show ?thesis by simp
  next
    case (drain lb d lb')
    then show ?thesis using dr[of lb] inv by (auto simp: vt_sys_inv_def)
  next
    case (drain_fault lb f)
    then show ?thesis using dr[of lb] by auto
  qed
qed

lemma vt_reach_inv:
  assumes "vt_reach heap True False arg blen s"
    and "heap_ok heap" "xmalloc_array heap arg \<noteq> None" "arg \<noteq> 0" "unat arg < blen" "blen < 2 ^ 64"
  shows "vt_sys_inv arg s"
  using assms
proof (induction rule: vt_reach.induct)
  case (start domid)
  then show ?case by (simp add: vt_sys_inv_def vt_sys_init_def domain_create_vt_def start_inv_def)
next
  case (step s t)
  then show ?case using vt_step_inv by blast
qed

text \<open>
  The state after a complete operation 1, which a run reaches with any other setting of the
  parameters as long as the allocation succeeds.
\<close>

definition vt_started :: "u64 \<Rightarrow> u64 list \<Rightarrow> vt_sys" where
  "vt_started arg b = (vt_sys_init 1)\<lparr>vdom := (domain_create_vt 1)\<lparr>sample_flag := 1,
     recent_cr3_size := arg, recent_cr3 := Some b\<rparr>\<rparr>"

lemmas vt_sys_defs = vt_sys_init_def domain_create_vt_def vt_stop_def advance_def vt_started_def

lemma vt_reach_started:
  assumes "xmalloc_array heap arg = Some b"
  shows "vt_reach heap one_tool stop_ok arg blen (vt_started arg b)"
proof -
  let ?step = "vt_step heap one_tool stop_ok arg blen"
  define s0 where "s0 = vt_sys_init 1"
  define s1 where "s1 = s0\<lparr>starts := [C_checked]\<rparr>"
  define s2 where "s2 = s1\<lparr>vdom := (vdom s1)\<lparr>recent_cr3_size := arg\<rparr>, starts := [C_sized]\<rparr>"
  define s3 where "s3 = s2\<lparr>vdom := (vdom s2)\<lparr>recent_cr3 := Some b\<rparr>, starts := [C_alloced]\<rparr>"
  define s4 where "s4 = s3\<lparr>starts := [C_tested]\<rparr>"
  note defs = s0_def s1_def s2_def s3_def s4_def vt_sys_defs
  have "?step s0 s1" using vt_step.init_check[of s0 one_tool heap stop_ok arg blen] by (simp add: defs)
  moreover have "?step s1 s2"
    using vt_step.init_size[of s1 heap one_tool stop_ok arg blen] by (simp add: defs)
  moreover have "?step s2 s3"
    using vt_step.init_alloc[of s2 heap one_tool stop_ok arg blen] assms by (simp add: defs)
  moreover have "?step s3 s4"
    using vt_step.init_test[of s3 heap one_tool stop_ok arg blen] by (simp add: defs)
  moreover have "?step s4 (vt_started arg b)"
    using vt_step.init_flag[of s4 heap one_tool stop_ok arg blen] by (simp add: defs)
  moreover have "vt_reach heap one_tool stop_ok arg blen s0" by (simp add: s0_def vt_reach.start)
  ultimately show ?thesis by (meson vt_reach.step)
qed

text \<open>
  Two calls at once: a drain that comes between the two writes of an operation 1 finds the new size
  and no array.
\<close>

lemma vt_start_race:
  assumes "arg \<noteq> 0" "0 < blen"
  shows "\<exists>s. vt_reach heap False stop_ok arg blen s \<and> crashed s = Some Null_deref"
proof -
  let ?step = "vt_step heap False stop_ok arg blen"
  define s0 where "s0 = vt_sys_init 1"
  define s1 where "s1 = s0\<lparr>starts := [C_checked]\<rparr>"
  define s2 where "s2 = s1\<lparr>vdom := (vdom s1)\<lparr>recent_cr3_size := arg\<rparr>, starts := [C_sized]\<rparr>"
  note defs = s0_def s1_def s2_def vt_sys_defs
  have "?step s0 s1" using vt_step.init_check[of s0 False heap stop_ok arg blen] by (simp add: defs)
  moreover have "?step s1 s2"
    using vt_step.init_size[of s1 heap False stop_ok arg blen] by (simp add: defs)
  moreover have "vt_drain (replicate blen 0) (vdom s2) = Inl Null_deref"
    using assms by (simp add: defs vt_drain_def drain_loop.simps[of 0] unat_gt_0)
  then have "?step s2 (s2\<lparr>crashed := Some Null_deref\<rparr>)"
    using vt_step.drain_fault[of s2 False "replicate blen 0" blen Null_deref heap stop_ok arg]
    by (simp add: defs)
  moreover have "vt_reach heap False stop_ok arg blen s0" by (simp add: s0_def vt_reach.start)
  ultimately have "vt_reach heap False stop_ok arg blen (s2\<lparr>crashed := Some Null_deref\<rparr>)"
    by (meson vt_reach.step)
  then show ?thesis by (intro exI[of _ "s2\<lparr>crashed := Some Null_deref\<rparr>"]) simp
qed

section \<open>Runs of the hook between two drains\<close>

primrec sample_run :: "u64 list \<Rightarrow> domain \<Rightarrow> domain result" where
  "sample_run [] d = Inr d"
| "sample_run (c # cs) d = bindR (schedule_sample c d) (sample_run cs)"

lemma sample_run_note_all: "sample_run cs d = sampler.note_all cs d"
proof (induction cs arbitrary: d)
  case (Cons c cs)
  then have "sample_run cs = sampler.note_all cs" by (simp add: fun_eq_iff)
  then show ?case by simp
qed simp

lemma vt_drain_sampling:
  assumes "sampling_inv d" "length (sampling_cr3s d) < length lb" "length lb < 2 ^ 64"
  shows "\<exists>d'. vt_drain lb d = Inr (d', of_nat (length (sampling_cr3s d)) # sampling_cr3s d
              @ drop (Suc (length (sampling_cr3s d))) lb) \<and>
         sampling_inv d' \<and> sampling_cr3s d' = [] \<and> sampling_cap d' = sampling_cap d"
proof -
  obtain b where b: "recent_cr3 d = Some b" "length b = unat (recent_cr3_size d)"
    using assms(1) by (auto simp: sampling_inv_def sampling_cap_def)
  have f: "filter (\<lambda>v. v \<noteq> 0) b = sampling_cr3s d" using b(1) by (simp add: sampling_cr3s_def)
  define d' where "d' = d\<lparr>recent_cr3 := Some (replicate (length b) 0)\<rparr>"
  have "length (filter (\<lambda>v. v \<noteq> 0) b) < length lb"
    using assms f by (simp add: sampling_inv_def)
  note eq = vt_drain_eq[OF b this assms(3), unfolded f]
  have e: "sampling_cr3s d' = []" by (simp add: d'_def sampling_cr3s_def)
  moreover have "sampling_inv d'"
    unfolding sampling_inv_def e using assms(1) b(2)
    by (simp add: d'_def sampling_inv_def sampling_cap_def)
  ultimately show ?thesis using eq by (simp add: d'_def sampling_cap_def)
qed

text \<open>
  C2. Sampling is complete: start with an empty record of capacity n, run the scheduler hook on any
  sequence of guest CR3s with at most n distinct values; draining into a buffer of more than n words
  then reports the number of distinct CR3s followed by exactly those CR3s, each once, and leaves
  the record empty and ready for the next round.
\<close>

theorem sampling_complete:
  assumes "sampling_inv d" "sampling_cr3s d = []" "\<forall>c\<in>set cs. c \<noteq> 0"
    and "card (set cs) \<le> sampling_cap d" "sampling_cap d < length lb" "length lb < 2 ^ 64"
  shows "\<exists>d' d'' xs. sample_run cs d = Inr d' \<and>
    vt_drain lb d' = Inr (d'', of_nat (length xs) # xs @ drop (Suc (length xs)) lb) \<and>
    distinct xs \<and> set xs = set cs \<and> sampling_inv d'' \<and> sampling_cr3s d'' = []"
proof -
  obtain d' where d': "sample_run cs d = Inr d'" "sampling_inv d'" "sampling_cap d' = sampling_cap d"
    "set (sampling_cr3s d') = set cs"
    using sampler.note_all_complete[of d cs] assms by (auto simp: sample_run_note_all)
  moreover obtain d'' where "vt_drain lb d' = Inr (d'', of_nat (length (sampling_cr3s d')) #
      sampling_cr3s d' @ drop (Suc (length (sampling_cr3s d'))) lb)"
    "sampling_inv d''" "sampling_cr3s d'' = []"
    using vt_drain_sampling[OF d'(2), of lb] d'(2,3) assms(5,6) by (auto simp: sampling_inv_def)
  ultimately show ?thesis using sampler.contents_distinct by blast
qed


theorem sampling_complete_witness:
  "\<exists>d' d'' xs.
     sample_run [3, 5, 3] \<lparr>domain_id = 1, refcnt = 1, sample_flag = 1, recent_cr3_size = 2,
       recent_cr3 = Some (replicate 2 0)\<rparr> = Inr d' \<and>
     vt_drain [9, 9, 9] d' = Inr (d'', of_nat (length xs) # xs @ drop (Suc (length xs)) [9, 9, 9]) \<and>
     distinct xs \<and> set xs = set [3, 5, 3] \<and> sampling_inv d'' \<and> sampling_cr3s d'' = []"
  by (rule sampling_complete)
    (simp_all add: sampling_inv_def sampling_cr3s_def sampling_cap_def card_insert_if)

text \<open>
  C3. One run of the hook in a sampled domain never faults and keeps the record sound: a CR3 that is
  already listed changes nothing, a new one goes to the front and pushes the oldest out when the
  record is full.
\<close>

theorem schedule_sample_correct:
  assumes "sampling_inv d" "c \<noteq> 0"
  shows "\<exists>d'. schedule_sample c d = Inr d' \<and> sampling_inv d' \<and> sampling_cap d' = sampling_cap d \<and>
    sampling_cr3s d' = (if c \<in> set (sampling_cr3s d) then sampling_cr3s d
                        else take (sampling_cap d) (c # sampling_cr3s d))"
  using assms by (rule sampler.note_key_law)

theorem schedule_sample_correct_witness:
  "\<exists>d'. schedule_sample 7 \<lparr>domain_id = 1, refcnt = 1, sample_flag = 1, recent_cr3_size = 2,
       recent_cr3 = Some [3, 5]\<rparr> = Inr d' \<and> sampling_inv d' \<and> sampling_cap d' = 2 \<and>
       sampling_cr3s d' = [7, 3]"
  using schedule_sample_correct[of "\<lparr>domain_id = 1, refcnt = 1, sample_flag = 1, recent_cr3_size = 2,
       recent_cr3 = Some [3, 5]\<rparr>" 7]
  by (simp add: sampling_inv_def sampling_cr3s_def sampling_cap_def)

text \<open>
  C4. One control tool issues its hypercalls one after the other, asks for a non-zero size, has the
  allocation succeed, passes a buffer with more words than the record and never issues the stop
  operation. Then no interleaving of scheduler hooks on other processors with the unlocked start
  operation and the drains reaches a memory fault, and whenever the sampling flag is set the domain
  has an array of the size asked for. (Two tools at once fault, as \<open>vt_start_race\<close> shows.)
\<close>

theorem vt_no_stop_safe:
  assumes "vt_reach heap True False arg blen s" "heap_ok heap" "xmalloc_array heap arg \<noteq> None"
    and "arg \<noteq> 0" "unat arg < blen" "blen < 2 ^ 64"
  shows "crashed s = None \<and>
    (sample_flag (vdom s) = 1 \<longrightarrow> recent_cr3_size (vdom s) = arg \<and>
       (\<exists>b. recent_cr3 (vdom s) = Some b \<and> length b = unat arg))"
  using vt_reach_inv[OF assms] start_inv_flag[of arg "vdom s" "starts s"]
  by (auto simp: vt_sys_inv_def has_array_def)

text \<open>A run with a start, a hook that records CR3 7, a drain, and a hook that has read CR3 8.\<close>

definition vt_demo :: vt_sys where
  "vt_demo = (vt_started 4 [0, 0, 0, 0])\<lparr>pend := [(4, 8)]\<rparr>"

lemma vt_demo_reach: "vt_reach (\<lambda>n. Some (replicate (unat n) 0)) True False 4 9 vt_demo"
proof -
  let ?h = "\<lambda>n. Some (replicate (unat n) 0)"
  let ?step = "vt_step ?h True False 4 9"
  define s0 where "s0 = vt_started 4 [0, 0, 0, 0]"
  define s1 where "s1 = s0\<lparr>reads := [(4, 7)]\<rparr>"
  define s2 where "s2 = s0\<lparr>pend := [(4, 7)]\<rparr>"
  define s3 where "s3 = s0\<lparr>vdom := (vdom s0)\<lparr>recent_cr3 := Some [7, 0, 0, 0]\<rparr>\<rparr>"
  define s5 where "s5 = s0\<lparr>reads := [(4, 8)]\<rparr>"
  note defs = s0_def s1_def s2_def s3_def s5_def vt_sys_defs vt_demo_def
  have "?step s0 s1" using vt_step.hook_read[of s0 ?h True False 4 9 7] by (simp add: defs)
  moreover have "?step s1 s2"
    using vt_step.hook_test[of s1 4 7 ?h True False 4 9] by (simp add: defs)
  moreover have "?step s2 s3"
    using vt_step.hook_locked[of s2 4 7 "Some [7, 0, 0, 0]" ?h True False 4 9]
      record_cr3_eq[of "[0, 0, 0, 0]" 4 7] by (simp add: defs)
  moreover have "?step s3 s0"
    using vt_step.drain[of s3 True "replicate 9 0" 9 "vdom s0" _ ?h False 4]
      vt_drain_eq[of "vdom s3" "[7, 0, 0, 0]" "replicate 9 0"] by (simp add: defs)
  moreover have "?step s0 s5" using vt_step.hook_read[of s0 ?h True False 4 9 8] by (simp add: defs)
  moreover have "?step s5 vt_demo"
    using vt_step.hook_test[of s5 4 8 ?h True False 4 9] by (simp add: defs)
  moreover have "replicate 4 0 = [0 :: u64, 0, 0, 0]" by (simp add: numeral_eq_Suc)
  then have "vt_reach ?h True False 4 9 s0"
    unfolding s0_def by (intro vt_reach_started) (simp add: xmalloc_array_def)
  ultimately show ?thesis by (meson vt_reach.step)
qed

theorem vt_no_stop_safe_witness:
  "crashed vt_demo = None \<and> sample_flag (vdom vt_demo) = 1 \<and> recent_cr3_size (vdom vt_demo) = 4 \<and>
   (\<exists>b. recent_cr3 (vdom vt_demo) = Some b \<and> length b = 4)"
  using vt_no_stop_safe[OF vt_demo_reach]
  by (simp add: heap_ok_def xmalloc_array_def vt_demo_def vt_started_def)

text \<open>
  C5. The stop operation races with the hook: the hook reads size and flag before it takes the lock,
  so a stop in between frees the array under it. From every successful start with a non-zero
  size such an interleaving reaches a null dereference in the scheduler, also when one tool issues
  the hypercalls one after the other.
\<close>

theorem vt_stop_race:
  assumes "xmalloc_array heap arg = Some b" "arg \<noteq> 0"
  shows "\<exists>s. vt_reach heap one_tool True arg blen s \<and> crashed s = Some Null_deref"
proof -
  let ?R = "vt_reach heap one_tool True arg blen" and ?step = "vt_step heap one_tool True arg blen"
  define s3 where "s3 = vt_started arg b"
  define s4 where "s4 = s3\<lparr>reads := [(arg, 7)]\<rparr>"
  define s5 where "s5 = s3\<lparr>pend := [(arg, 7)]\<rparr>"
  define s6 where "s6 = s5\<lparr>vdom := vt_stop (vdom s5)\<rparr>"
  define s7 where "s7 = s6\<lparr>crashed := Some Null_deref\<rparr>"
  note defs = s3_def s4_def s5_def s6_def s7_def vt_sys_defs
  have "?step s3 s4" using vt_step.hook_read[of s3 heap one_tool True arg blen 7] by (simp add: defs)
  moreover have "?step s4 s5"
    using vt_step.hook_test[of s4 arg 7 heap one_tool True arg blen] by (simp add: defs)
  moreover have "?step s5 s6"
    using vt_step.stop[of s5 one_tool True heap arg blen] by (simp add: defs)
  moreover have "?step s6 s7"
    using vt_step.hook_fault[of s6 arg 7 Null_deref heap one_tool True arg blen] assms(2)
    by (simp add: defs record_cr3_def cr3_find.simps[of _ _ 0] unat_gt_0)
  moreover have "?R s3" unfolding s3_def using assms(1) by (rule vt_reach_started)
  ultimately have "?R s7" by (meson vt_reach.step)
  then show ?thesis by (auto simp: s7_def)
qed

theorem vt_stop_race_witness:
  "\<exists>s. vt_reach (\<lambda>n. Some (replicate (unat n) 0)) True True 4 9 s \<and> crashed s = Some Null_deref"
  by (rule vt_stop_race[where b = "replicate 4 0"]) (simp_all add: xmalloc_array_def)

text \<open>
  A drain writes one word more than it copies, with no check against the caller's buffer: whenever
  the record holds at least as many CR3s as the buffer has words, the hypercall writes out of bounds.
  The monitor asks for \<open>RECENT_CR3_SIZE\<close> entries and passes a buffer of just as many words.
\<close>

lemma vt_drain_buffer_overflow:
  assumes "sampling_inv d" "length lb \<le> length (sampling_cr3s d)"
  shows "vt_drain lb d = Inl Out_of_bounds"
proof -
  obtain b where b: "recent_cr3 d = Some b" "length b = unat (recent_cr3_size d)"
    using assms(1) by (auto simp: sampling_inv_def sampling_cap_def)
  have "length lb < 2 ^ 64" using assms by (simp add: sampling_inv_def)
  with vt_drain_overflow[OF b] b(1) assms(2) show ?thesis by (simp add: sampling_cr3s_def)
qed

section \<open>The hypercall on the domain table\<close>

definition lookup_domain :: "domain_table \<Rightarrow> u16 \<Rightarrow> domain option" where
  "lookup_domain h domid = find (\<lambda>d. domain_id d = domid) (h (DOMAIN_HASH domid))"

lemma get_domain_in_bucket_find:
  assumes "find (\<lambda>d. domain_id d = domid) ds = Some d0" "refcnt d0 AND DOMAIN_DESTROYED = 0"
  shows "\<exists>ds'. get_domain_in_bucket domid ds = Some (d0\<lparr>refcnt := refcnt d0 + 1\<rparr>, ds') \<and>
           find (\<lambda>d. domain_id d = domid) ds' = Some (d0\<lparr>refcnt := refcnt d0 + 1\<rparr>)"
  using assms by (induction ds) (auto simp: get_domain_def split: if_splits)

lemma get_domain_in_bucket_missing:
  "find (\<lambda>d. domain_id d = domid) ds = None \<Longrightarrow> get_domain_in_bucket domid ds = None"
  by (induction ds) (auto split: if_splits)

lemma find_store_in_bucket:
  "find (\<lambda>x. domain_id x = domid) ds = Some d0 \<Longrightarrow> domain_id d = domid \<Longrightarrow>
   find (\<lambda>x. domain_id x = domid) (store_in_bucket d ds) = Some d"
  by (induction ds) (auto split: if_splits)

lemma vt_ops_keep_identity:
  "vt_init heap arg d = (r, d') \<Longrightarrow> domain_id d' = domain_id d \<and> refcnt d' = refcnt d"
  "vt_drain lb d = Inr (d', lb') \<Longrightarrow> domain_id d' = domain_id d \<and> refcnt d' = refcnt d"
  by (auto simp: vt_init_def vt_drain_def Let_def bindR_Inr_iff split: if_splits prod.splits)

lemma get_domain_by_id_found:
  assumes "lookup_domain h domid = Some d0" "refcnt d0 AND DOMAIN_DESTROYED = 0"
  shows "\<exists>h'. get_domain_by_id h domid = Some (d0\<lparr>refcnt := refcnt d0 + 1\<rparr>, h') \<and>
     lookup_domain h' domid = Some (d0\<lparr>refcnt := refcnt d0 + 1\<rparr>)"
  using get_domain_in_bucket_find[of domid "h (DOMAIN_HASH domid)" d0] assms
  by (auto simp: lookup_domain_def get_domain_by_id_def)

lemma lookup_store_domain:
  assumes "lookup_domain h domid = Some d0" "domain_id d = domid"
  shows "lookup_domain (store_domain d h) domid = Some d"
  using assms by (simp add: lookup_domain_def store_domain_def find_store_in_bucket)

lemma lookup_domain_id: "lookup_domain h domid = Some d \<Longrightarrow> domain_id d = domid"
  by (auto simp: lookup_domain_def find_Some_iff)

text \<open>
  Every completed hypercall on a live domain, whatever the operation, leaves the domain's
  reference count one higher than before: the reference taken by the lookup is never dropped.
\<close>

lemma do_vt_op_leaks_reference:
  assumes "lookup_domain h (ucast domID) = Some d0" "refcnt d0 AND DOMAIN_DESTROYED = 0"
    and "do_vt_op heap op domID arg buf h = Inr (r, h', lb)"
  shows "\<exists>d'. lookup_domain h' (ucast domID) = Some d' \<and> refcnt d' = refcnt d0 + 1"
proof -
  let ?d1 = "d0\<lparr>refcnt := refcnt d0 + 1\<rparr>"
  obtain h1 where h1: "get_domain_by_id h (ucast domID) = Some (?d1, h1)"
    "lookup_domain h1 (ucast domID) = Some ?d1"
    using get_domain_by_id_found[OF assms(1,2)] by auto
  have id: "domain_id d0 = ucast domID" using lookup_domain_id[OF assms(1)] .
  note st = lookup_store_domain[OF h1(2)]
  from assms(3) h1(1) consider
      (init) d' where "vt_init heap arg ?d1 = (r, d')" "h' = store_domain d' h1"
    | (stop) "h' = store_domain (vt_stop ?d1) h1"
    | (drain) d' where "vt_drain buf ?d1 = Inr (d', lb)" "h' = store_domain d' h1"
    | (other) "h' = h1"
    by (auto simp: do_vt_op_def bindR_Inr_iff split: if_splits prod.splits)
  then show ?thesis
  proof cases
    case init
    then show ?thesis using vt_ops_keep_identity(1)[OF init(1)] id st[of d'] by simp
  next
    case stop
    then show ?thesis using id st[of "vt_stop ?d1"] by (simp add: vt_stop_def)
  next
    case drain
    then show ?thesis using vt_ops_keep_identity(2)[OF drain(1)] id st[of d'] by simp
  next
    case other
    then show ?thesis using h1(2) by simp
  qed
qed

lemma do_vt_op_leaks_reference_witness:
  "\<exists>d'. lookup_domain (store_domain (vt_stop ((domain_create_vt 3)\<lparr>refcnt := 2\<rparr>))
          ((\<lambda>_. [])(3 := [(domain_create_vt 3)\<lparr>refcnt := 2\<rparr>]))) 3 = Some d' \<and> refcnt d' = 2"
  using do_vt_op_leaks_reference[of "(\<lambda>_. [])(3 := [domain_create_vt 3])" 3 "domain_create_vt 3"
      "\<lambda>_. None" 2 0 "[]" 0]
  by (simp add: lookup_domain_def DOMAIN_HASH_def domain_create_vt_def DOMAIN_DESTROYED_def
      do_vt_op_def get_domain_by_id_def get_domain_def)

text \<open>
  The array comes from the heap uninitialised: right after a successful start a drain reports the
  non-zero words the heap happened to hold as CR3s; after that first drain the record is empty
  and satisfies the sampling invariant, whatever the heap held.
\<close>

lemma vt_init_then_drain:
  assumes "recent_cr3_size d = 0" "xmalloc_array heap arg = Some b" "heap_ok heap" "arg \<noteq> 0"
    and "unat arg < length lb" "length lb < 2 ^ 64"
  shows "\<exists>d1 d2. vt_init heap arg d = (0, d1) \<and>
    vt_drain lb d1 = Inr (d2, of_nat (length (filter (\<lambda>v. v \<noteq> 0) b)) # filter (\<lambda>v. v \<noteq> 0) b
        @ drop (Suc (length (filter (\<lambda>v. v \<noteq> 0) b))) lb) \<and>
    sampling_inv d2 \<and> sampling_cr3s d2 = []"
proof -
  define d1 where "d1 = d\<lparr>recent_cr3_size := arg, recent_cr3 := Some b, sample_flag := 1\<rparr>"
  have i: "vt_init heap arg d = (0, d1)" using assms(1,2) by (simp add: vt_init_def d1_def)
  note b = unat_xmalloc_bound[OF assms(2,3)]
  have r: "recent_cr3 d1 = Some b" "length b = unat (recent_cr3_size d1)"
    using b by (simp_all add: d1_def)
  have "length (filter (\<lambda>v. v \<noteq> 0) b) < length lb"
    using assms(5) b(1) length_filter_le[of "\<lambda>v. v \<noteq> 0" b] by linarith
  note dr = vt_drain_eq[OF r this assms(6)]
  let ?d2 = "d1\<lparr>recent_cr3 := Some (replicate (length b) 0)\<rparr>"
  have e: "sampling_cr3s ?d2 = []" by (simp add: sampling_cr3s_def)
  have "sampling_inv ?d2"
    unfolding sampling_inv_def e using b assms(4)
    by (simp add: sampling_cap_def d1_def unat_gt_0)
  with i dr e show ?thesis by blast
qed

lemma vt_init_then_drain_witness:
  "\<exists>d1 d2. vt_init (\<lambda>n. Some (replicate (unat n) 6)) 2 (domain_create_vt 1) = (0, d1) \<and>
    vt_drain [0, 0, 0] d1 = Inr (d2, [2, 6, 6]) \<and> sampling_inv d2 \<and> sampling_cr3s d2 = []"
  using vt_init_then_drain[of "domain_create_vt 1" "\<lambda>n. Some (replicate (unat n) 6)" 2
      "replicate 2 6" "[0, 0, 0]"]
  by (simp add: xmalloc_array_def heap_ok_def domain_create_vt_def replicate_two)

end
