(* ===== verification/Std_Map.thy ===== *)
theory Std_Map
  imports Xen_Prelude
begin

text \<open>
  The ordered map of the C++ library (\<open>std::map\<close>), as far as the monitor tool
  \<open>Monitor_tools/analyze.h\<close> uses it: an association list in ascending key order, which is also the
  order an iterator visits. The interface the tool relies on is the locale \<open>dictionary\<close>; the list
  implements it.
\<close>

type_synonym ('k, 'v) std_map = "('k \<times> 'v) list"

fun map_put :: "'k::linorder \<Rightarrow> 'v \<Rightarrow> ('k, 'v) std_map \<Rightarrow> ('k, 'v) std_map" where
  "map_put k v [] = [(k, v)]"
| "map_put k v ((k', v') # m) =
     (if k < k' then (k, v) # (k', v') # m
      else if k = k' then (k, v) # m
      else (k', v') # map_put k v m)"

text \<open>\<open>insert\<close> leaves an existing entry alone; \<open>m[k]\<close> creates a missing one.\<close>

definition map_insert :: "'k::linorder \<Rightarrow> 'v \<Rightarrow> ('k, 'v) std_map \<Rightarrow> ('k, 'v) std_map" where
  "map_insert k v m = (case map_of m k of None \<Rightarrow> map_put k v m | Some _ \<Rightarrow> m)"

fun map_erase :: "'k \<Rightarrow> ('k, 'v) std_map \<Rightarrow> ('k, 'v) std_map" where
  "map_erase k [] = []"
| "map_erase k ((k', v) # m) = (if k = k' then m else (k', v) # map_erase k m)"

definition map_wf :: "('k::linorder, 'v) std_map \<Rightarrow> bool" where
  "map_wf m \<longleftrightarrow> sorted_wrt (<) (map fst m)"

lemma map_wf_simps [simp]:
  "map_wf []"
  "map_wf ((k, v) # m) \<longleftrightarrow> (\<forall>k'\<in>fst ` set m. k < k') \<and> map_wf m"
  by (auto simp: map_wf_def)

lemma keys_map_put [simp]: "fst ` set (map_put k v m) = insert k (fst ` set m)"
  by (induction k v m rule: map_put.induct) auto

lemma map_of_map_put [simp]: "map_of (map_put k v m) = (map_of m)(k \<mapsto> v)"
  by (induction k v m rule: map_put.induct) (auto simp: fun_eq_iff)

lemma map_wf_map_put [simp]: "map_wf m \<Longrightarrow> map_wf (map_put k v m)"
  by (induction k v m rule: map_put.induct) auto

lemma map_wf_map_insert [simp]: "map_wf m \<Longrightarrow> map_wf (map_insert k v m)"
  by (simp add: map_insert_def split: option.splits)

lemma map_of_map_insert [simp]:
  "map_of (map_insert k v m) = (if k \<in> dom (map_of m) then map_of m else (map_of m)(k \<mapsto> v))"
  by (auto simp: map_insert_def split: option.splits)

lemma set_map_erase: "set (map_erase k m) \<subseteq> set m"
  by (induction k m rule: map_erase.induct) auto

lemma map_wf_map_erase [simp]: "map_wf m \<Longrightarrow> map_wf (map_erase k m)"
proof (induction k m rule: map_erase.induct)
  case (2 k k' v m)
  then show ?case using set_map_erase[of k m] by (cases "k = k'") auto
qed simp

lemma map_wf_notin: "map_wf ((k, v) # m) \<Longrightarrow> map_of m k = None"
  by (force simp: map_of_eq_None_iff)

lemma map_of_map_erase [simp]: "map_wf m \<Longrightarrow> map_of (map_erase k m) = (map_of m)(k := None)"
proof (induction k m rule: map_erase.induct)
  case (2 k k' v m)
  then show ?case using map_wf_notin[of k' v m] by (auto simp: fun_eq_iff)
qed simp

lemma map_wf_distinct: "map_wf m \<Longrightarrow> distinct (map fst m)"
  by (simp add: map_wf_def strict_sorted_iff)

lemma map_wf_filter [simp]: "map_wf m \<Longrightarrow> map_wf (filter P m)"
  by (induction m) auto

lemma map_of_filter:
  "map_wf m \<Longrightarrow> map_of (filter P m) k = (case map_of m k of None \<Rightarrow> None
     | Some v \<Rightarrow> if P (k, v) then Some v else None)"
proof (induction m)
  case (Cons p m)
  obtain k' v where "p = (k', v)" by (cases p)
  then show ?case using Cons map_wf_notin[of k' v m] by (auto split: option.splits)
qed simp

section \<open>The interface\<close>

locale dictionary =
  fixes lookup :: "'m \<Rightarrow> 'k \<Rightarrow> 'v option"
    and put :: "'k \<Rightarrow> 'v \<Rightarrow> 'm \<Rightarrow> 'm"
    and ok :: "'m \<Rightarrow> bool"
  assumes lookup_put: "ok m \<Longrightarrow> lookup (put k v m) = (lookup m)(k \<mapsto> v)"
    and put_ok: "ok m \<Longrightarrow> ok (put k v m)"
begin

text \<open>A pass that updates every key of a list at most once, from the value the key has then.\<close>

definition update_all :: "('k \<Rightarrow> 'v option \<Rightarrow> 'v) \<Rightarrow> 'k list \<Rightarrow> 'm \<Rightarrow> 'm" where
  "update_all f ks m = fold (\<lambda>k m. put k (f k (lookup m k)) m) ks m"

lemma update_all_ok: "ok m \<Longrightarrow> ok (update_all f ks m)"
  unfolding update_all_def by (induction ks arbitrary: m) (simp_all add: put_ok)

lemma lookup_update_all:
  assumes "ok m" "distinct ks"
  shows "lookup (update_all f ks m) k =
    (if k \<in> set ks then Some (f k (lookup m k)) else lookup m k)"
  using assms
proof (induction ks arbitrary: m)
  case (Cons a ks)
  let ?m = "put a (f a (lookup m a)) m"
  have "update_all f (a # ks) m = update_all f ks ?m" by (simp add: update_all_def)
  then show ?case using Cons by (auto simp: lookup_put put_ok)
qed (simp add: update_all_def)

end

interpretation std_map: dictionary map_of map_put map_wf
  by unfold_locales simp_all

end
