(* ===== verification/Monitor_Analyze.thy ===== *)
theory Monitor_Analyze
  imports Std_Map
begin

unbundle bit_operations_syntax

text \<open>
  The monitor tool in the control domain, \<open>Monitor_tools/analyze.h\<close>: it walks the page tables of the
  sampled CR3s, keeps per CR3 a map from virtual pages to what was seen of them, counts the pages that
  went to swap, sums the working set over all processes and forgets CR3s not seen for a while.
  Guest memory is a parameter (\<open>foreign\<close>: what \<open>xc_map_foreign_range\<close> returns for a frame number,
  \<open>None\<close> for \<open>NULL\<close>; a mapped page is a function from entry index to entry, \<open>None\<close> where the read
  raises \<open>SIGBUS\<close>). Words that the code leaves uninitialised are parameters as well.
\<close>

section \<open>Data\<close>

text \<open>
  \<open>byte\<close> is \<open>char\<close>; the code masks after every shift, so the signedness of \<open>char\<close> does not show and the
  model uses \<open>8 word\<close>. The doubles \<open>activity_page\<close> and \<open>result\<close> only ever hold sums of the integer
  \<open>weight\<close>s times 1 or 512, which doubles represent exactly; the model uses \<open>int\<close>.
\<close>

record mapData =
  present_times :: u8
  weight :: int
  paddr :: u64

record hash_table =
  ht_h :: "(u64, mapData) std_map"
  ht_cr3 :: u64
  ht_count :: u64
  change_page :: u64
  total_valid_pages :: u64
  activity_page0 :: int
  activity_page1 :: int
  ht_round :: u64
  check :: u8

record guest_pagetable_walk =
  va :: u64
  l4e :: u64
  l3e :: u64
  l2e :: u64
  l1e :: u64
  l4mfn :: u64
  l3mfn :: u64
  l2mfn :: u64
  l1mfn :: u64

type_synonym foreign_mem = "u64 \<Rightarrow> (nat \<Rightarrow> u64 option) option"

definition CHANGE_LIMIT :: u8 where "CHANGE_LIMIT = 1"
definition MAX_ROUND_INTERVAL :: int where "MAX_ROUND_INTERVAL = 20"
definition ADDR_MASK :: u64 where "ADDR_MASK = 0x0000ffffffffffff"

section \<open>Bit fields\<close>

definition add_change_number :: "u8 \<Rightarrow> u8" where
  "add_change_number v =
     (let number = drop_bit 1 v AND 0x7f
      in if number < 0x7f then push_bit 1 (number + 1) OR (v AND 1) else v)"

definition get_change_number :: "u8 \<Rightarrow> u8" where
  "get_change_number v = drop_bit 1 v AND 0x7f"

text \<open>\<open>for (i = 0; i < num; i++) { mask <<= 1; mask += 1; }\<close>\<close>

fun ones_mask :: "nat \<Rightarrow> u64 \<Rightarrow> u64" where
  "ones_mask 0 m = m"
| "ones_mask (Suc n) m = ones_mask n (push_bit 1 m + 1)"

definition get_bit :: "u64 \<Rightarrow> nat \<Rightarrow> nat \<Rightarrow> u64" where
  "get_bit entry num position =
     drop_bit position (entry AND push_bit position (ones_mask num 0))"

text \<open>\<open>for (i = start; i <= end; i++) { mask <<= 1; mask |= 1; }\<close>\<close>

fun ones_mask_or :: "nat \<Rightarrow> u64 \<Rightarrow> u64" where
  "ones_mask_or 0 m = m"
| "ones_mask_or (Suc n) m = ones_mask_or n (push_bit 1 m OR 1)"

definition clear_bit :: "u64 \<Rightarrow> nat \<Rightarrow> nat \<Rightarrow> u64" where
  "clear_bit addr st en =
     addr AND (push_bit st (ones_mask_or (Suc en - st) 0) XOR (- 1))"

definition page_size_flag :: "u64 \<Rightarrow> u64" where "page_size_flag entry = get_bit entry 1 7"
definition entry_present :: "u64 \<Rightarrow> u64" where "entry_present entry = get_bit entry 1 0"
definition get_access_bit :: "u64 \<Rightarrow> u64" where "get_access_bit entry = get_bit entry 1 5"
definition get_huge_bit :: "u64 \<Rightarrow> u64" where "get_huge_bit entry = get_bit entry 1 0"
definition get_paddr :: "u64 \<Rightarrow> u64" where "get_paddr addr = get_bit addr 36 28"
definition get_swap_id :: "u64 \<Rightarrow> u64" where "get_swap_id addr = get_bit addr 63 1"

definition save_paddr :: "u64 \<Rightarrow> u64 \<Rightarrow> u64" where
  "save_paddr addr v = clear_bit addr 28 63 OR push_bit 28 v"

definition save_swap_paddr :: "u64 \<Rightarrow> u64 \<Rightarrow> u64" where
  "save_swap_paddr addr v = clear_bit addr 1 27 OR push_bit 1 (v AND 0xeffffff)"

definition save_huge_bit :: "u64 \<Rightarrow> u64 \<Rightarrow> u64" where
  "save_huge_bit addr v = clear_bit addr 0 0 OR (v AND 1)"

definition get_vaddr :: "u64 \<Rightarrow> u64 \<Rightarrow> u64 \<Rightarrow> u64 \<Rightarrow> u64" where
  "get_vaddr l1offset l2offset l3offset l4offset =
     0 OR (0 OR push_bit 12 l1offset) OR (0 OR push_bit 21 l2offset)
       OR (0 OR push_bit 30 l3offset) OR (0 OR push_bit 39 l4offset)"

definition entry_valid :: "u64 \<Rightarrow> bool" where
  "entry_valid entry \<longleftrightarrow> \<not> (entry AND 1 = 0)"

definition pte_entry_valid :: "u64 \<Rightarrow> u64" where
  "pte_entry_valid entry = entry_present entry"

definition map_frame :: "u64 \<Rightarrow> u64" where
  "map_frame pa_base = drop_bit 12 pa_base AND ADDR_MASK"

definition map_page ::
  "foreign_mem \<Rightarrow> u64 \<Rightarrow> nat \<Rightarrow> guest_pagetable_walk \<Rightarrow> (nat \<Rightarrow> u64 option) option \<times> guest_pagetable_walk"
  where
  "map_page foreign pa_base level gw =
     (let pa = map_frame pa_base
      in (foreign pa,
          if level = 1 then gw\<lparr>l1mfn := pa\<rparr>
          else if level = 2 then gw\<lparr>l2mfn := pa\<rparr>
          else if level = 3 then gw\<lparr>l3mfn := pa\<rparr>
          else gw\<lparr>l4mfn := pa\<rparr>))"

section \<open>Fetching the sampled CR3s\<close>

text \<open>
  \<open>get_cr3_hypercall\<close>: clear the buffer, let the hypervisor fill it (\<open>drain\<close>: the buffer and the
  hypervisor's state after the hypercall), move the entries down by one and write a terminator. \<open>list_size\<close> is read before it is
  written.
\<close>

definition clear_list :: "nat \<Rightarrow> u64 list \<Rightarrow> u64 list result" where
  "clear_list n l = for_loop (\<lambda>i l. arr_set l i 0) [0..<n] l"

definition move_down :: "nat \<Rightarrow> u64 list \<Rightarrow> u64 list result" where
  "move_down n l = for_loop (\<lambda>i l. bindR (arr_get l i) (\<lambda>v. arr_set l (i - 1) v)) [1..<Suc n] l"

definition get_cr3_hypercall ::
  "(u64 list \<Rightarrow> 'h \<Rightarrow> (u64 list \<times> 'h) result) \<Rightarrow> u64 list \<Rightarrow> int \<Rightarrow> 'h \<Rightarrow> (u64 list \<times> int \<times> 'h) result" where
  "get_cr3_hypercall drain cr3_list list_size hv =
     bindR (clear_list (nat list_size) cr3_list) (\<lambda>l1.
     bindR (drain l1 hv) (\<lambda>(l2, hv).
     bindR (arr_get l2 0) (\<lambda>c.
       let n = sint (ucast c :: u32)
       in bindR (move_down (nat n) l2) (\<lambda>l3.
          let i = max 1 (n + 1)
          in bindR (arr_set l3 (nat (i + 1)) 0) (\<lambda>l4. Inr (l4, n, hv))))))"

section \<open>One virtual page\<close>

definition walk_paddr :: "guest_pagetable_walk \<Rightarrow> u8 \<Rightarrow> u64" where
  "walk_paddr gw huge_bit =
     (if huge_bit = 0 then drop_bit 12 (l1e gw AND ADDR_MASK) else drop_bit 12 (l2e gw AND ADDR_MASK))"

definition store_paddr :: "u64 \<Rightarrow> u64 \<Rightarrow> u8 \<Rightarrow> u8 \<Rightarrow> u64" where
  "store_paddr old p valid_bit huge_bit =
     save_huge_bit (if valid_bit = 1 then save_paddr old p else save_swap_paddr old p) (ucast huge_bit)"

text \<open>\<open>junk\<close> is the uninitialised \<open>mapVal.paddr\<close> of a new entry.\<close>

definition compare_swap ::
  "(u64 \<Rightarrow> u64) \<Rightarrow> hash_table \<Rightarrow> guest_pagetable_walk \<Rightarrow> u8 \<Rightarrow> u8 \<Rightarrow> int \<times> hash_table" where
  "compare_swap junk table gw valid_bit huge_bit =
     (let vkey = va gw; p = walk_paddr gw huge_bit
      in case map_of (ht_h table) vkey of
           None \<Rightarrow>
             (0, table\<lparr>ht_h := map_insert vkey \<lparr>present_times = valid_bit, weight = 1,
                               paddr = store_paddr (junk vkey) p valid_bit huge_bit\<rparr> (ht_h table)\<rparr>)
         | Some d \<Rightarrow>
             let d1 = d\<lparr>weight := 1, paddr := store_paddr (paddr d) p valid_bit huge_bit\<rparr>;
                 val = present_times d1 AND 1;
                 (ret, pt, chg) =
                   (if val = 1 \<and> valid_bit = 0
                    then let pt = add_change_number (present_times d1); tmp = get_change_number pt
                         in (1, pt, if tmp \<ge> CHANGE_LIMIT then change_page table + 1 else change_page table)
                    else if val = 0 \<and> valid_bit = 1
                    then (0, add_change_number (present_times d1), change_page table)
                    else (0, present_times d1, change_page table));
                 pt' = (if val \<noteq> valid_bit then (pt AND 0xfe) OR valid_bit else pt)
             in (ret, table\<lparr>ht_h := map_put vkey (d1\<lparr>present_times := pt'\<rparr>) (ht_h table),
                            change_page := chg\<rparr>))"

section \<open>The page-table walk\<close>

record walk_state =
  ws_table :: hash_table
  ws_gw :: guest_pagetable_walk
  ws_count :: u64
  ws_total :: u64
  hugepage_counter :: u32

text \<open>
  The bodies of the four nested loops. \<open>Inl st\<close> is a \<open>SIGBUS\<close> in state \<open>st\<close>, which leaves all loops by
  \<open>siglongjmp\<close>.
\<close>

definition walk_l1 ::
  "(u64 \<Rightarrow> u64) \<Rightarrow> (nat \<Rightarrow> u64 option) \<Rightarrow> nat \<Rightarrow> nat \<Rightarrow> nat \<Rightarrow> nat \<Rightarrow> walk_state \<Rightarrow> walk_state + walk_state" where
  "walk_l1 junk l1p l4offset l3offset l2offset l1offset st =
     (case l1p l1offset of
        None \<Rightarrow> Inl st
      | Some e \<Rightarrow>
          let gw = (ws_gw st)\<lparr>l1e := e, va := get_vaddr (of_nat l1offset) (of_nat l2offset)
                                                  (of_nat l3offset) (of_nat l4offset)\<rparr>;
              st1 = st\<lparr>ws_gw := gw\<rparr>
          in if va gw = 0 then Inr st1
             else if pte_entry_valid (l1e gw) = 0
             then Inr (st1\<lparr>ws_count := ws_count st1 + 1,
                           ws_table := snd (compare_swap junk (ws_table st1) gw 0 0)\<rparr>)
             else Inr (st1\<lparr>ws_table := snd (compare_swap junk (ws_table st1) gw 1 0),
                           ws_total := ws_total st1 + 1\<rparr>))"

definition walk_l2 ::
  "(u64 \<Rightarrow> u64) \<Rightarrow> foreign_mem \<Rightarrow> (nat \<Rightarrow> u64 option) \<Rightarrow> nat \<Rightarrow> nat \<Rightarrow> nat \<Rightarrow> walk_state \<Rightarrow> walk_state + walk_state"
  where
  "walk_l2 junk foreign l2p l4offset l3offset l2offset st =
     (case l2p l2offset of
        None \<Rightarrow> Inl st
      | Some e \<Rightarrow>
          let gw = (ws_gw st)\<lparr>l2e := e\<rparr>; st1 = st\<lparr>ws_gw := gw\<rparr>
          in if \<not> entry_valid (l2e gw) then Inr st1
             else if page_size_flag (l2e gw) \<noteq> 0
             then (if get_bit (l2e gw) 1 2 \<noteq> 0
                   then let gw2 = gw\<lparr>va := get_vaddr 0 (of_nat l2offset) (of_nat l3offset) (of_nat l4offset)\<rparr>;
                            st2 = st1\<lparr>ws_gw := gw2, ws_total := ws_total st1 + 512,
                                      hugepage_counter := hugepage_counter st1 + 1\<rparr>
                        in if pte_entry_valid (l2e gw2) = 0
                           then Inr (st2\<lparr>ws_table := snd (compare_swap junk (ws_table st2) gw2 0 1)\<rparr>)
                           else Inr (st2\<lparr>ws_table := snd (compare_swap junk (ws_table st2) gw2 1 1)\<rparr>)
                   else Inr st1)
             else (case map_page foreign (l2e gw) 1 gw of
                     (None, gw') \<Rightarrow> Inr (st1\<lparr>ws_gw := gw'\<rparr>)
                   | (Some l1p, gw') \<Rightarrow>
                       for_loop (walk_l1 junk l1p l4offset l3offset l2offset) [0..<512] (st1\<lparr>ws_gw := gw'\<rparr>)))"

definition walk_l3 ::
  "(u64 \<Rightarrow> u64) \<Rightarrow> foreign_mem \<Rightarrow> (nat \<Rightarrow> u64 option) \<Rightarrow> nat \<Rightarrow> nat \<Rightarrow> walk_state \<Rightarrow> walk_state + walk_state" where
  "walk_l3 junk foreign l3p l4offset l3offset st =
     (case l3p l3offset of
        None \<Rightarrow> Inl st
      | Some e \<Rightarrow>
          let gw = (ws_gw st)\<lparr>l3e := e\<rparr>; st1 = st\<lparr>ws_gw := gw\<rparr>
          in if \<not> entry_valid (l3e gw) then Inr st1
             else if page_size_flag (l3e gw) \<noteq> 0 then Inr st1
             else (case map_page foreign (l3e gw) 2 gw of
                     (None, gw') \<Rightarrow> Inr (st1\<lparr>ws_gw := gw'\<rparr>)
                   | (Some l2p, gw') \<Rightarrow>
                       for_loop (walk_l2 junk foreign l2p l4offset l3offset) [0..<512] (st1\<lparr>ws_gw := gw'\<rparr>)))"

definition walk_l4 ::
  "(u64 \<Rightarrow> u64) \<Rightarrow> foreign_mem \<Rightarrow> (nat \<Rightarrow> u64 option) \<Rightarrow> nat \<Rightarrow> walk_state \<Rightarrow> walk_state + walk_state" where
  "walk_l4 junk foreign l4p l4offset st =
     (case l4p l4offset of
        None \<Rightarrow> Inl st
      | Some e \<Rightarrow>
          let gw = (ws_gw st)\<lparr>l4e := e\<rparr>; st1 = st\<lparr>ws_gw := gw\<rparr>
          in if \<not> entry_valid (l4e gw) then Inr st1
             else (case map_page foreign (l4e gw) 3 gw of
                     (None, gw') \<Rightarrow> Inr (st1\<lparr>ws_gw := gw'\<rparr>)
                   | (Some l3p, gw') \<Rightarrow>
                       for_loop (walk_l3 junk foreign l3p l4offset) [0..<512] (st1\<lparr>ws_gw := gw'\<rparr>)))"

definition gw_zero :: guest_pagetable_walk where
  "gw_zero = \<lparr>va = 0, l4e = 0, l3e = 0, l2e = 0, l1e = 0, l4mfn = 0, l3mfn = 0, l2mfn = 0, l1mfn = 0\<rparr>"

text \<open>
  The whole walk. After a \<open>SIGBUS\<close> the local \<open>count\<close>, changed since \<open>sigsetjmp\<close> and not volatile, is
  indeterminate: \<open>junk_count\<close>. The result is the return value, the table and the walk record. The mappings
  themselves are not represented: not the \<open>munmap\<close> of a table when its loop ends, and not the \<open>munmap\<close>s after
  a \<open>SIGBUS\<close>, which also pass pointers that no assignment has reached.
\<close>

definition page_walk_ia32e ::
  "(u64 \<Rightarrow> u64) \<Rightarrow> u64 \<Rightarrow> foreign_mem \<Rightarrow> u64 \<Rightarrow> hash_table \<Rightarrow> u64 \<times> hash_table \<times> guest_pagetable_walk" where
  "page_walk_ia32e junk junk_count foreign dtb table =
     (let table1 = table\<lparr>ht_count := 0, change_page := 0, activity_page0 := 0, activity_page1 := 0,
                         total_valid_pages := 0\<rparr>
      in case map_page foreign dtb 4 gw_zero of
           (None, gw) \<Rightarrow> (- 1, table1, gw)
         | (Some l4p, gw) \<Rightarrow>
             (case for_loop (walk_l4 junk foreign l4p) [0..<512]
                     \<lparr>ws_table = table1, ws_gw = gw, ws_count = 0, ws_total = 0, hugepage_counter = 0\<rparr> of
                Inl st \<Rightarrow> (junk_count, (ws_table st)\<lparr>ht_h := [], ht_count := junk_count\<rparr>, ws_gw st)
              | Inr st \<Rightarrow> (ws_count st, (ws_table st)\<lparr>ht_count := ws_count st\<rparr>, ws_gw st)))"

section \<open>The rounds\<close>

type_synonym datamap = "(u64, hash_table) std_map"

definition check_cr3 :: "datamap \<Rightarrow> u64 \<Rightarrow> bool" where
  "check_cr3 list cr3 = (map_of list cr3 \<noteq> None)"

text \<open>
  \<open>fresh cr3\<close> is what the uninitialised \<open>struct hash_table tmp\<close> holds when \<open>cr3\<close> is entered; its map starts
  out empty.
\<close>

fun check_cr3_list :: "(u64 \<Rightarrow> hash_table) \<Rightarrow> datamap \<Rightarrow> u64 list \<Rightarrow> u64 \<Rightarrow> u64 \<times> datamap" where
  "check_cr3_list fresh list [] total_change_page = (total_change_page, list)"
| "check_cr3_list fresh list (cr3 # cr3s) total_change_page =
     (if \<not> check_cr3 list cr3
      then check_cr3_list fresh
             (map_insert cr3 ((fresh cr3)\<lparr>ht_h := [], ht_cr3 := cr3, change_page := 0\<rparr>) list) cr3s total_change_page
      else let h = (the (map_of list cr3))\<lparr>check := 1\<rparr>
           in check_cr3_list fresh (map_put cr3 h list) cr3s (total_change_page + change_page h))"

type_synonym system_map = "(u64, u64) std_map"

text \<open>
  The pass over the pages of one process: \<open>wks\<close> and \<open>swp\<close> are the global maps of frames and swap slots
  already counted in this round. The decay \<open>weight *= 0.9\<close> of a \<open>short\<close> truncates towards zero.
\<close>

definition decay :: "int \<Rightarrow> int" where
  "decay w = (if 0 \<le> w then (w * 9) div 10 else - ((- w * 9) div 10))"

definition count_frame :: "u64 \<Rightarrow> system_map \<Rightarrow> system_map" where
  "count_frame p m = (case map_of m p of Some n \<Rightarrow> map_put p (n + 1) m | None \<Rightarrow> map_insert p 1 m)"

record calc_state =
  wks :: system_map
  swp :: system_map
  act0 :: int
  act1 :: int

definition calc_page :: "mapData \<Rightarrow> calc_state \<Rightarrow> calc_state" where
  "calc_page d cs =
     (let valid_bit = present_times d AND 1;
          val_ref = present_times d;
          huge_bit = get_huge_bit (paddr d);
          w = weight d;
          amount = (if huge_bit = 0 then 1 * w else 512 * w);
          p = (if valid_bit = 0 then get_swap_id (paddr d) else get_paddr (paddr d))
      in if (get_change_number val_ref \<ge> CHANGE_LIMIT \<and> valid_bit = 0) \<or> valid_bit = 1
         then (if valid_bit = 0
               then cs\<lparr>swp := count_frame p (swp cs),
                       act0 := (if map_of (swp cs) p \<noteq> None then act0 cs else act0 cs + amount)\<rparr>
               else cs\<lparr>wks := count_frame p (wks cs),
                       act1 := (if map_of (wks cs) p \<noteq> None then act1 cs else act1 cs + amount)\<rparr>)
         else cs)"

fun calc_pages :: "(u64, mapData) std_map \<Rightarrow> calc_state \<Rightarrow> (u64, mapData) std_map \<times> calc_state" where
  "calc_pages [] cs = ([], cs)"
| "calc_pages ((k, d) # h) cs =
     (case calc_pages h (calc_page d cs) of
        (h', cs') \<Rightarrow> ((k, d\<lparr>weight := decay (weight d)\<rparr>) # h', cs'))"

record calc_result =
  res0 :: int
  res1 :: int
  res2 :: int

fun calculate_loop ::
  "datamap \<Rightarrow> system_map \<Rightarrow> system_map \<Rightarrow> calc_result \<Rightarrow> datamap \<times> system_map \<times> system_map \<times> calc_result" where
  "calculate_loop [] sw ss r = ([], sw, ss, r)"
| "calculate_loop ((cr3, h) # list) sw ss r =
     (if check h = 1
      then (case calc_pages (ht_h h) \<lparr>wks = sw, swp = ss, act0 = activity_page0 h, act1 = activity_page1 h\<rparr> of
              (pages, cs) \<Rightarrow>
                let h' = h\<lparr>ht_h := pages, activity_page0 := act0 cs, activity_page1 := act1 cs, check := 0\<rparr>;
                    r' = r\<lparr>res0 := res0 r + activity_page0 h', res1 := res1 r + activity_page1 h',
                           res2 := res2 r + int (unat (total_valid_pages h'))\<rparr>
                in (case calculate_loop list (wks cs) (swp cs) r' of
                      (list', rest) \<Rightarrow> ((cr3, h') # list', rest)))
      else (case calculate_loop list sw ss r of
              (list', rest) \<Rightarrow> ((cr3, h\<lparr>check := 0\<rparr>) # list', rest)))"

definition calculate_all_page ::
  "datamap \<Rightarrow> system_map \<Rightarrow> system_map \<Rightarrow> calc_result \<Rightarrow> u64 \<times> datamap \<times> system_map \<times> system_map \<times> calc_result" where
  "calculate_all_page list sw ss r =
     (of_nat (length list), calculate_loop list sw ss r)"

definition KERNEL_CR3 :: u64 where "KERNEL_CR3 = 0x187000"

text \<open>\<open>blank\<close> is the value that \<open>list[cr3]\<close> creates for a missing key.\<close>

fun walk_cr3_list ::
  "(u64 \<Rightarrow> u64) \<Rightarrow> u64 \<Rightarrow> foreign_mem \<Rightarrow> hash_table \<Rightarrow> datamap \<Rightarrow> u64 list \<Rightarrow> u64 \<Rightarrow> datamap" where
  "walk_cr3_list junk jc foreign blank list [] round = list"
| "walk_cr3_list junk jc foreign blank list (cr3 # cr3s) round =
     (let h0 = (case map_of list cr3 of Some h \<Rightarrow> h | None \<Rightarrow> blank\<lparr>ht_h := []\<rparr>);
          h = h0\<lparr>ht_cr3 := cr3, check := 0, ht_round := round\<rparr>;
          h' = (if cr3 = KERNEL_CR3 then h else fst (snd (page_walk_ia32e junk jc foreign cr3 h)))
      in walk_cr3_list junk jc foreign blank (map_put cr3 h' list) cr3s round)"

text \<open>
  \<open>interval\<close> is an \<open>int\<close>, \<open>max_int\<close> an \<open>unsigned int\<close>. Erasing the node behind the iterator keeps the
  order of the others.
\<close>

definition round_interval :: "u64 \<Rightarrow> u64 \<Rightarrow> int" where
  "round_interval round h_round =
     (if round > h_round then sint (ucast (round - h_round) :: u32)
      else sint (ucast (ucast (- 1 :: u32) - h_round + round :: u64) :: u32))"

fun retrieve_loop :: "datamap \<Rightarrow> u64 \<Rightarrow> datamap \<times> nat" where
  "retrieve_loop [] round = ([], 0)"
| "retrieve_loop ((cr3, h) # list) round =
     (case retrieve_loop list round of
        (list', n) \<Rightarrow> if round_interval round (ht_round h) \<ge> MAX_ROUND_INTERVAL then (list', Suc n)
                     else ((cr3, h) # list', n))"

definition retrieve_list :: "datamap \<Rightarrow> u64 \<Rightarrow> int \<times> datamap" where
  "retrieve_list list round = (case retrieve_loop list round of (l, n) \<Rightarrow> (int n, l))"

text \<open>One turn of the endless loop of \<open>main\<close>, after the CR3s of the round were fetched.\<close>

definition monitor_round ::
  "(u64 \<Rightarrow> u64) \<Rightarrow> u64 \<Rightarrow> foreign_mem \<Rightarrow> (u64 \<Rightarrow> hash_table) \<Rightarrow> hash_table \<Rightarrow> u64 list \<Rightarrow> datamap \<times> u64
     \<Rightarrow> calc_result \<times> datamap \<times> u64" where
  "monitor_round junk jc foreign fresh blank cr3_list s =
     (case s of (data_map, global_round) \<Rightarrow>
        let (each_change_page, m1) = check_cr3_list fresh data_map cr3_list 0;
            (_, m2, _, _, r) = calculate_all_page m1 [] [] \<lparr>res0 = 0, res1 = 0, res2 = 0\<rparr>;
            m3 = walk_cr3_list junk jc foreign blank m2 cr3_list global_round;
            global_round' = global_round + 1
        in (r, snd (retrieve_list m3 global_round'), global_round'))"

section \<open>Bit fields, bit by bit\<close>

lemma push_plus_one: "push_bit 1 (m :: u64) + 1 = push_bit 1 m OR 1"
  by (rule disjunctive_add) (auto simp: bit_simps)

lemma ones_mask_or: "ones_mask n m = ones_mask_or n m"
  by (induction n arbitrary: m) (simp_all only: ones_mask.simps ones_mask_or.simps push_plus_one)

lemma bit_ones_mask_or: "bit (ones_mask_or n m) i \<longleftrightarrow> i < 64 \<and> (i < n \<or> bit m (i - n))"
proof (induction n arbitrary: m i)
  case 0
  then show ?case using bit_imp_le_length[of m i] by auto
next
  case (Suc n)
  show ?case
    unfolding ones_mask_or.simps Suc
    by (auto simp: bit_simps Suc_diff_Suc not_less_eq less_Suc_eq) 
qed

lemma bit_get_bit: "bit (get_bit e n p) i \<longleftrightarrow> i < n \<and> bit e (p + i)"
  using bit_imp_le_length[of e "p + i"]
  by (auto simp: get_bit_def ones_mask_or bit_simps bit_ones_mask_or)

lemma bit_clear_bit: "bit (clear_bit a s t) i \<longleftrightarrow> bit a i \<and> \<not> (s \<le> i \<and> i \<le> t)"
  using bit_imp_le_length[of a i]
  by (auto simp: clear_bit_def bit_simps bit_ones_mask_or)

lemma get_bit_one [simp]: "get_bit e 1 p = (if bit e p then 1 else 0)"
  by (rule bit_word_eqI) (auto simp: bit_get_bit bit_simps)

lemma get_bit_Suc0 [simp]: "get_bit e (Suc 0) p = (if bit e p then 1 else 0)"
  using get_bit_one[of e p] by (simp only: One_nat_def)

lemma bit_save_paddr: "bit (save_paddr a v) i \<longleftrightarrow> (if i < 28 then bit a i else i < 64 \<and> bit v (i - 28))"
  using bit_imp_le_length[of a i]
  by (auto simp: save_paddr_def bit_clear_bit bit_simps)

lemma swap_mask: "(0xeffffff :: u64) = mask 28 AND NOT (push_bit 24 1)"
  by (simp add: mask_eq_exp_minus_1)

lemma bit_and_swap_mask: "bit (v AND (0xeffffff :: u64)) i \<longleftrightarrow> bit v i \<and> i < 28 \<and> i \<noteq> 24"
  unfolding swap_mask
  by (simp only: bit_and_iff bit_mask_iff bit_not_iff bit_push_bit_iff bit_1_iff possible_bit_word) auto

lemma bit_save_swap: "bit (save_swap_paddr a v) i \<longleftrightarrow>
    (if i = 0 then bit a 0 else if i \<le> 27 then bit v (i - 1) \<and> i \<noteq> 25
     else if i = 28 then bit a 28 \<or> bit v 27 else bit a i)"
  using bit_imp_le_length[of a i] bit_imp_le_length[of v "i - 1"]
  unfolding save_swap_paddr_def bit_or_iff bit_clear_bit bit_push_bit_iff bit_and_swap_mask possible_bit_word
  by auto

lemma bit_save_huge: "bit (save_huge_bit a v) i \<longleftrightarrow> (if i = 0 then bit v 0 else bit a i)"
  by (auto simp: save_huge_bit_def bit_clear_bit bit_simps)

lemma entry_valid_bit: "entry_valid e \<longleftrightarrow> bit e 0"
  by (simp add: entry_valid_def and_one_eq odd_iff_mod_2_eq_one[symmetric] bit_0)

lemma pte_entry_valid_bit: "pte_entry_valid e = (if bit e 0 then 1 else 0)"
  by (simp only: pte_entry_valid_def entry_present_def get_bit_one)

section \<open>The change counter\<close>

lemma get_change_take: "get_change_number v = drop_bit 1 v"
proof (rule bit_word_eqI)
  fix n assume "n < LENGTH(8)"
  have "(0x7f :: u8) = mask 7" by (simp add: mask_eq_exp_minus_1)
  then have "get_change_number v = drop_bit 1 v AND mask 7" by (simp only: get_change_number_def)
  then show "bit (get_change_number v) n = bit (drop_bit 1 v) n"
    using bit_imp_le_length[of v "1 + n"]
    by (simp only: bit_and_iff bit_mask_iff bit_drop_bit_eq possible_bit_word comp_def) auto
qed

lemma unat_drop_bit1: "unat (drop_bit 1 (v :: u8)) = unat v div 2"
  by (simp add: unat_div drop_bit_Suc)

lemma push_or_low: "push_bit 1 n OR (v AND 1) = push_bit 1 n + (v AND (1 :: u8))"
  by (rule disjunctive_add[symmetric]) (auto simp: bit_simps)

lemma half: "b \<le> 1 \<Longrightarrow> (2 * a + b) div 2 = (a :: nat)"
  by linarith

lemma add_change_number_eq:
  "add_change_number v =
     (if drop_bit 1 v < 0x7f then push_bit 1 (drop_bit 1 v + 1) + (v AND 1) else v)"
  by (simp only: add_change_number_def Let_def get_change_take[unfolded get_change_number_def] push_or_low)

text \<open>The counter, bits 1 to 7, saturates at 127; bit 0 is left alone.\<close>

lemma change_number_add:
  "unat (get_change_number (add_change_number v)) = min 127 (unat (get_change_number v) + 1)"
proof (cases "drop_bit 1 v < (0x7f :: u8)")
  case True
  then have n: "unat (drop_bit 1 v) < 127" by (simp add: word_less_nat_alt)
  have one: "unat (v AND 1) \<le> 1" by (simp add: and_one_eq unat_mod)
  have "unat (drop_bit 1 v + 1) = unat (drop_bit 1 v) + 1"
    using n by (simp add: unat_plus_simple[THEN iffD1] unat_word_ariths)
  then have p: "unat (push_bit 1 (drop_bit 1 v + 1)) = 2 * (unat (drop_bit 1 v) + 1)"
    using n by (simp add: unat_word_ariths)
  then have "unat (push_bit 1 (drop_bit 1 v + 1) + (v AND 1)) = 2 * (unat (drop_bit 1 v) + 1) + unat (v AND 1)"
    using n one by (simp only: unat_word_ariths) simp
  then have "unat (drop_bit 1 (push_bit 1 (drop_bit 1 v + 1) + (v AND 1))) = unat (drop_bit 1 v) + 1"
    using half[OF one] by (simp only: unat_drop_bit1)
  then show ?thesis
    using True n by (simp only: add_change_number_eq get_change_take if_True)
next
  case False
  have "unat (drop_bit 1 v) = 127"
  proof -
    have "unat v < 256" using unsigned_less[of v] by simp
    then have "unat (drop_bit 1 v) \<le> 127" by (simp only: unat_drop_bit1)
    moreover have "127 \<le> unat (drop_bit 1 v)" using False by (simp add: word_less_nat_alt)
    ultimately show ?thesis by linarith
  qed
  then show ?thesis
    using False by (simp only: add_change_number_eq get_change_take if_False)
qed

lemma change_number_add_ge: "get_change_number (add_change_number v) \<ge> CHANGE_LIMIT"
  using change_number_add[of v] by (simp add: word_le_nat_alt CHANGE_LIMIT_def)

lemma add_change_number_bit0: "add_change_number v AND 1 = v AND 1"
proof (cases "drop_bit 1 v AND 0x7f < (0x7f :: u8)")
  case True
  define n where "n = (drop_bit 1 v AND 0x7f) + (1 :: u8)"
  have "(push_bit 1 n OR (v AND 1)) AND 1 = v AND 1"
    by (rule bit_word_eqI) (auto simp: bit_simps)
  then show ?thesis using True by (simp only: add_change_number_def Let_def n_def if_True)
qed (simp only: add_change_number_def Let_def if_False)

section \<open>One page as an update of the map\<close>

text \<open>What a visit makes of the record of a page: \<open>l\<close> is (valid bit, huge bit, frame or swap slot).\<close>

definition page_update :: "u64 \<Rightarrow> mapData option \<Rightarrow> u8 \<times> u8 \<times> u64 \<Rightarrow> mapData" where
  "page_update j old l =
     (case l of (v, hb, p) \<Rightarrow>
        (case old of
           None \<Rightarrow> \<lparr>present_times = v, weight = 1, paddr = store_paddr j p v hb\<rparr>
         | Some d \<Rightarrow> \<lparr>present_times =
               (if present_times d AND 1 = v then present_times d
                else (add_change_number (present_times d) AND 0xfe) OR v),
             weight = 1, paddr = store_paddr (paddr d) p v hb\<rparr>))"

definition went_to_swap :: "mapData option \<Rightarrow> u8 \<times> u8 \<times> u64 \<Rightarrow> bool" where
  "went_to_swap old l \<longleftrightarrow> fst l = 0 \<and> (\<exists>d. old = Some d \<and> present_times d AND 1 = 1)"

definition apply_visit ::
  "(u64 \<Rightarrow> u64) \<Rightarrow> u64 \<times> u8 \<times> u8 \<times> u64 \<Rightarrow> hash_table \<Rightarrow> hash_table" where
  "apply_visit junk x t =
     t\<lparr>ht_h := map_put (fst x) (page_update (junk (fst x)) (map_of (ht_h t) (fst x)) (snd x)) (ht_h t),
       change_page := change_page t +
         (if went_to_swap (map_of (ht_h t) (fst x)) (snd x) then 1 else 0)\<rparr>"

lemma and_one_cases: "(v :: u8) AND 1 = 0 \<or> v AND 1 = 1"
  by (simp add: and_one_eq) (metis mod2_eq_if)

lemma compare_swap_visit:
  assumes "v \<in> {0, 1}"
  shows "snd (compare_swap junk t gw v hb) = apply_visit junk (va gw, v, hb, walk_paddr gw hb) t"
proof (cases "map_of (ht_h t) (va gw)")
  case None
  then show ?thesis
    by (simp add: compare_swap_def apply_visit_def page_update_def went_to_swap_def map_insert_def Let_def)
next
  case (Some d)
  consider "present_times d AND 1 = 0" "v = 0" | "present_times d AND 1 = 0" "v = 1"
    | "present_times d AND 1 = 1" "v = 0" | "present_times d AND 1 = 1" "v = 1"
    using assms and_one_cases by blast
  then show ?thesis
    using Some change_number_add_ge
    by cases (cases d; simp add: compare_swap_def apply_visit_def page_update_def went_to_swap_def Let_def)+
qed

section \<open>The pages a walk visits\<close>

definition frame_of :: "u64 \<Rightarrow> u64" where
  "frame_of e = drop_bit 12 (e AND ADDR_MASK)"

type_synonym visit = "u64 \<times> u8 \<times> u8 \<times> u64"

definition l1_visits :: "(nat \<Rightarrow> u64 option) \<Rightarrow> nat \<Rightarrow> nat \<Rightarrow> nat \<Rightarrow> nat \<Rightarrow> visit list" where
  "l1_visits l1p o4 o3 o2 o1 =
     (case l1p o1 of
        None \<Rightarrow> []
      | Some e \<Rightarrow> let v = get_vaddr (of_nat o1) (of_nat o2) (of_nat o3) (of_nat o4)
                 in if v = 0 then [] else [(v, if bit e 0 then 1 else 0, 0, frame_of e)])"

definition l2_visits :: "foreign_mem \<Rightarrow> (nat \<Rightarrow> u64 option) \<Rightarrow> nat \<Rightarrow> nat \<Rightarrow> nat \<Rightarrow> visit list" where
  "l2_visits foreign l2p o4 o3 o2 =
     (case l2p o2 of
        None \<Rightarrow> []
      | Some e \<Rightarrow>
          if \<not> bit e 0 then []
          else if bit e 7
          then (if bit e 2 then [(get_vaddr 0 (of_nat o2) (of_nat o3) (of_nat o4), 1, 1, frame_of e)] else [])
          else (case foreign (map_frame e) of None \<Rightarrow> []
                | Some l1p \<Rightarrow> concat (map (l1_visits l1p o4 o3 o2) [0..<512])))"

definition l3_visits :: "foreign_mem \<Rightarrow> (nat \<Rightarrow> u64 option) \<Rightarrow> nat \<Rightarrow> nat \<Rightarrow> visit list" where
  "l3_visits foreign l3p o4 o3 =
     (case l3p o3 of
        None \<Rightarrow> []
      | Some e \<Rightarrow>
          if \<not> bit e 0 \<or> bit e 7 then []
          else (case foreign (map_frame e) of None \<Rightarrow> []
                | Some l2p \<Rightarrow> concat (map (l2_visits foreign l2p o4 o3) [0..<512])))"

definition l4_visits :: "foreign_mem \<Rightarrow> (nat \<Rightarrow> u64 option) \<Rightarrow> nat \<Rightarrow> visit list" where
  "l4_visits foreign l4p o4 =
     (case l4p o4 of
        None \<Rightarrow> []
      | Some e \<Rightarrow>
          if \<not> bit e 0 then []
          else (case foreign (map_frame e) of None \<Rightarrow> []
                | Some l3p \<Rightarrow> concat (map (l3_visits foreign l3p o4) [0..<512])))"

definition visits :: "foreign_mem \<Rightarrow> u64 \<Rightarrow> visit list" where
  "visits foreign dtb =
     (case foreign (map_frame dtb) of None \<Rightarrow> []
      | Some l4p \<Rightarrow> concat (map (l4_visits foreign l4p) [0..<512]))"

text \<open>Loops that fold a visitor over what each turn visits.\<close>

lemma for_loop_fold:
  assumes "\<And>i s s'. f i s = Inr s' \<Longrightarrow> T s' = fold A (g i) (T s)"
  shows "for_loop f is s = Inr s' \<Longrightarrow> T s' = fold A (concat (map g is)) (T s)"
proof (induction "is" arbitrary: s)
  case (Cons i "is")
  then show ?case using assms by (auto split: sum.splits)
qed simp

lemma walk_paddr_simps [simp]:
  "walk_paddr gw 0 = frame_of (l1e gw)" "walk_paddr gw 1 = frame_of (l2e gw)"
  by (simp_all add: walk_paddr_def frame_of_def)

lemma walk_l1_visits:
  assumes "walk_l1 junk l1p o4 o3 o2 o1 st = Inr st'"
  shows "ws_table st' = fold (apply_visit junk) (l1_visits l1p o4 o3 o2 o1) (ws_table st)"
proof -
  obtain e where e: "l1p o1 = Some e" using assms by (cases "l1p o1") (simp_all add: walk_l1_def)
  define v where "v = get_vaddr (of_nat o1) (of_nat o2) (of_nat o3) (of_nat o4)"
  consider "v = 0" | "v \<noteq> 0" "bit e 0" | "v \<noteq> 0" "\<not> bit e 0" by blast
  then show ?thesis
    using assms e
    by cases (simp_all add: walk_l1_def l1_visits_def v_def[symmetric] pte_entry_valid_bit compare_swap_visit
        Let_def, auto simp: compare_swap_visit)
qed

lemma walk_l2_visits:
  assumes "walk_l2 junk foreign l2p o4 o3 o2 st = Inr st'"
  shows "ws_table st' = fold (apply_visit junk) (l2_visits foreign l2p o4 o3 o2) (ws_table st)"
proof -
  obtain e where e: "l2p o2 = Some e" using assms by (cases "l2p o2") (simp_all add: walk_l2_def)
  have loop: "for_loop (walk_l1 junk l1p o4 o3 o2) is s = Inr s' \<Longrightarrow>
    ws_table s' = fold (apply_visit junk) (concat (map (l1_visits l1p o4 o3 o2) is)) (ws_table s)" for l1p "is" s s'
    by (rule for_loop_fold[where T = ws_table]) (rule walk_l1_visits)
  consider "\<not> bit e 0" | "bit e 0" "bit e 7" | "bit e 0" "\<not> bit e 7" by blast
  then show ?thesis
  proof cases
    case 3
    then show ?thesis
      using assms e loop
      by (auto simp add: walk_l2_def l2_visits_def entry_valid_bit page_size_flag_def map_page_def Let_def
          simp del: for_loop.simps split: option.splits)
  qed (use assms e in \<open>auto simp: walk_l2_def l2_visits_def entry_valid_bit page_size_flag_def
      pte_entry_valid_bit compare_swap_visit Let_def split: if_splits\<close>)
qed

lemma walk_l3_visits:
  assumes "walk_l3 junk foreign l3p o4 o3 st = Inr st'"
  shows "ws_table st' = fold (apply_visit junk) (l3_visits foreign l3p o4 o3) (ws_table st)"
proof -
  obtain e where e: "l3p o3 = Some e" using assms by (cases "l3p o3") (simp_all add: walk_l3_def)
  have loop: "for_loop (walk_l2 junk foreign l2p o4 o3) is s = Inr s' \<Longrightarrow>
    ws_table s' = fold (apply_visit junk) (concat (map (l2_visits foreign l2p o4 o3) is)) (ws_table s)" for l2p "is" s s'
    by (rule for_loop_fold[where T = ws_table]) (rule walk_l2_visits)
  show ?thesis
  proof (cases "bit e 0 \<and> \<not> bit e 7 \<and> foreign (map_frame e) \<noteq> None")
    case True
    then obtain l2p where f: "foreign (map_frame e) = Some l2p" by blast
    then have "for_loop (walk_l2 junk foreign l2p o4 o3) [0..<512]
        (st\<lparr>ws_gw := (ws_gw st)\<lparr>l3e := e, l2mfn := map_frame e\<rparr>\<rparr>) = Inr st'"
      using assms e True by (simp add: walk_l3_def entry_valid_bit page_size_flag_def map_page_def Let_def)
    from loop[OF this] show ?thesis using e True f by (simp add: l3_visits_def)
  next
    case False
    then consider "\<not> bit e 0 \<or> bit e 7" | "foreign (map_frame e) = None" by blast
    then have "ws_table st' = ws_table st"
      using assms e
      by cases (auto simp: walk_l3_def entry_valid_bit page_size_flag_def map_page_def Let_def split: if_splits)
    then show ?thesis using e False by (auto simp: l3_visits_def)
  qed
qed

lemma walk_l4_visits:
  assumes "walk_l4 junk foreign l4p o4 st = Inr st'"
  shows "ws_table st' = fold (apply_visit junk) (l4_visits foreign l4p o4) (ws_table st)"
proof -
  obtain e where e: "l4p o4 = Some e" using assms by (cases "l4p o4") (simp_all add: walk_l4_def)
  have loop: "for_loop (walk_l3 junk foreign l3p o4) is s = Inr s' \<Longrightarrow>
    ws_table s' = fold (apply_visit junk) (concat (map (l3_visits foreign l3p o4) is)) (ws_table s)" for l3p "is" s s'
    by (rule for_loop_fold[where T = ws_table]) (rule walk_l3_visits)
  show ?thesis
  proof (cases "bit e 0 \<and> foreign (map_frame e) \<noteq> None")
    case True
    then obtain l3p where f: "foreign (map_frame e) = Some l3p" by blast
    then have "for_loop (walk_l3 junk foreign l3p o4) [0..<512]
        (st\<lparr>ws_gw := (ws_gw st)\<lparr>l4e := e, l3mfn := map_frame e\<rparr>\<rparr>) = Inr st'"
      using assms e True by (simp add: walk_l4_def entry_valid_bit map_page_def Let_def)
    from loop[OF this] show ?thesis using e True f by (simp add: l4_visits_def)
  next
    case False
    then consider "\<not> bit e 0" | "foreign (map_frame e) = None" by blast
    then have "ws_table st' = ws_table st"
      using assms e by cases (auto simp: walk_l4_def entry_valid_bit map_page_def Let_def split: if_splits)
    then show ?thesis using e False by (auto simp: l4_visits_def)
  qed
qed

text \<open>No read raises \<open>SIGBUS\<close>.\<close>

definition readable :: "foreign_mem \<Rightarrow> bool" where
  "readable foreign \<longleftrightarrow> (\<forall>f pg. foreign f = Some pg \<longrightarrow> (\<forall>i<512. pg i \<noteq> None))"

lemma for_loop_Inr:
  assumes "\<And>i s. i \<in> set is \<Longrightarrow> \<exists>s'. f i s = Inr s'"
  shows "\<exists>s'. for_loop f is s = Inr s'"
  using assms
proof (induction "is" arbitrary: s)
  case (Cons i "is")
  obtain s1 where "f i s = Inr s1" using Cons.prems[of i s] by auto
  then show ?case using Cons by simp
qed simp

lemma walk_total:
  assumes "readable foreign"
  shows "foreign f1 = Some l1p \<Longrightarrow> o1 < 512 \<Longrightarrow> \<exists>s'. walk_l1 junk l1p o4 o3 o2 o1 s = Inr s'"
    and "foreign f2 = Some l2p \<Longrightarrow> o2 < 512 \<Longrightarrow> \<exists>s'. walk_l2 junk foreign l2p o4 o3 o2 s = Inr s'"
    and "foreign f3 = Some l3p \<Longrightarrow> o3 < 512 \<Longrightarrow> \<exists>s'. walk_l3 junk foreign l3p o4 o3 s = Inr s'"
    and "foreign f4 = Some l4p \<Longrightarrow> o4 < 512 \<Longrightarrow> \<exists>s'. walk_l4 junk foreign l4p o4 s = Inr s'"
proof -
  have rd: "\<exists>e. pg i = Some e" if "foreign f = Some pg" "i < 512" for f pg i
    using assms that by (auto simp: readable_def)
  show 1: "foreign f1 = Some l1p \<Longrightarrow> o1 < 512 \<Longrightarrow> \<exists>s'. walk_l1 junk l1p o4 o3 o2 o1 s = Inr s'"
    for f1 l1p o4 o3 o2 o1 s
    using rd[of f1 l1p o1] by (auto simp: walk_l1_def Let_def)
  show 2: "foreign f2 = Some l2p \<Longrightarrow> o2 < 512 \<Longrightarrow> \<exists>s'. walk_l2 junk foreign l2p o4 o3 o2 s = Inr s'"
    for f2 l2p o4 o3 o2 s
  proof -
    assume a: "foreign f2 = Some l2p" "o2 < 512"
    then obtain e where e: "l2p o2 = Some e" using rd by blast
    show ?thesis
    proof (cases "foreign (map_frame e)")
      case (Some l1p)
      then have "\<exists>s'. for_loop (walk_l1 junk l1p o4 o3 o2) [0..<512] st = Inr s'" for st
        by (intro for_loop_Inr 1) auto
      then show ?thesis using e Some by (simp add: walk_l2_def Let_def map_page_def)
    qed (simp add: e walk_l2_def Let_def map_page_def)
  qed
  show 3: "foreign f3 = Some l3p \<Longrightarrow> o3 < 512 \<Longrightarrow> \<exists>s'. walk_l3 junk foreign l3p o4 o3 s = Inr s'"
    for f3 l3p o4 o3 s
  proof -
    assume a: "foreign f3 = Some l3p" "o3 < 512"
    then obtain e where e: "l3p o3 = Some e" using rd by blast
    show ?thesis
    proof (cases "foreign (map_frame e)")
      case (Some l2p)
      then have "\<exists>s'. for_loop (walk_l2 junk foreign l2p o4 o3) [0..<512] st = Inr s'" for st
        by (intro for_loop_Inr 2) auto
      then show ?thesis using e Some by (simp add: walk_l3_def Let_def map_page_def)
    qed (simp add: e walk_l3_def Let_def map_page_def)
  qed
  show "foreign f4 = Some l4p \<Longrightarrow> o4 < 512 \<Longrightarrow> \<exists>s'. walk_l4 junk foreign l4p o4 s = Inr s'"
  proof -
    assume a: "foreign f4 = Some l4p" "o4 < 512"
    then obtain e where e: "l4p o4 = Some e" using rd by blast
    show ?thesis
    proof (cases "foreign (map_frame e)")
      case (Some l3p)
      then have "\<exists>s'. for_loop (walk_l3 junk foreign l3p o4) [0..<512] st = Inr s'" for st
        by (intro for_loop_Inr 3) auto
      then show ?thesis using e Some by (simp add: walk_l4_def Let_def map_page_def)
    qed (simp add: e walk_l4_def Let_def map_page_def)
  qed
qed

section \<open>Virtual addresses and their table indices\<close>

text \<open>The index of \<open>v\<close> in the table of level \<open>k\<close>, as the processor takes it.\<close>

definition table_index :: "nat \<Rightarrow> u64 \<Rightarrow> nat" where
  "table_index k v = unat (take_bit 9 (drop_bit (3 + 9 * k) v))"

lemma table_index_less: "table_index k v < 512"
  using take_bit_nat_less_exp[of 9 "unat (drop_bit (3 + 9 * k) v)"]
  by (simp add: table_index_def unsigned_take_bit_eq)

lemma small_bit: "n < 512 \<Longrightarrow> bit (of_nat n :: u64) i \<longleftrightarrow> i < 9 \<and> bit n i"
proof -
  assume n: "n < 512"
  have "\<not> bit n i" if "9 \<le> i"
  proof -
    have "n < 2 ^ i" using n that power_increasing[of 9 i "2::nat"] by simp
    then show ?thesis by (simp add: bit_iff_odd)
  qed
  then show ?thesis by (auto simp: bit_of_nat_iff not_less not_le[symmetric])
qed

lemma bit_get_vaddr:
  assumes "a < 512" "b < 512" "c < 512" "d < 512"
  shows "bit (get_vaddr (of_nat a) (of_nat b) (of_nat c) (of_nat d)) i \<longleftrightarrow>
    (12 \<le> i \<and> i < 21 \<and> bit a (i - 12) \<or> 21 \<le> i \<and> i < 30 \<and> bit b (i - 21) \<or>
     30 \<le> i \<and> i < 39 \<and> bit c (i - 30) \<or> 39 \<le> i \<and> i < 48 \<and> bit d (i - 39))"
proof -
  have r: "12 \<le> i \<and> i < 64 \<and> i - 12 < 9 \<longleftrightarrow> 12 \<le> i \<and> i < 21"
    "21 \<le> i \<and> i < 64 \<and> i - 21 < 9 \<longleftrightarrow> 21 \<le> i \<and> i < 30"
    "30 \<le> i \<and> i < 64 \<and> i - 30 < 9 \<longleftrightarrow> 30 \<le> i \<and> i < 39"
    "39 \<le> i \<and> i < 64 \<and> i - 39 < 9 \<longleftrightarrow> 39 \<le> i \<and> i < 48" by arith+
  have p: "bit (push_bit k (of_nat n) :: u64) i \<longleftrightarrow> (k \<le> i \<and> i < 64 \<and> i - k < 9) \<and> bit n (i - k)"
    if "n < 512" for k n
    using small_bit[OF that] by (auto simp: bit_push_bit_iff)
  show ?thesis
    unfolding get_vaddr_def bit_or_iff p[OF assms(1)] p[OF assms(2)] p[OF assms(3)] p[OF assms(4)] r
    by (simp only: bit_0_eq bot_apply bot_bool_def simp_thms conj_assoc disj_assoc)
qed

lemma table_index_get_vaddr:
  assumes "a < 512" "b < 512" "c < 512" "d < 512"
  defines "v \<equiv> get_vaddr (of_nat a) (of_nat b) (of_nat c) (of_nat d)"
  shows "table_index 1 v = a" "table_index 2 v = b" "table_index 3 v = c" "table_index 4 v = d"
    "take_bit 12 v = 0" "drop_bit 48 v = 0"
proof -
  have ix: "table_index k v = n" if "n < 512"
    "\<And>i. i < 9 \<Longrightarrow> bit v (3 + 9 * k + i) = bit n i" for k n
  proof -
    have "take_bit 9 (drop_bit (3 + 9 * k) v) = of_nat n"
      by (rule bit_word_eqI) (auto simp: bit_take_bit_iff bit_drop_bit_eq small_bit[OF that(1)] that(2))
    then show ?thesis
      using that(1) unat_of_nat_small[where 'a = 64, of n] by (simp add: table_index_def)
  qed
  note b = bit_get_vaddr[OF assms(1-4), folded v_def]
  show "table_index 1 v = a" by (rule ix[OF assms(1)]) (simp add: b)
  show "table_index 2 v = b" by (rule ix[OF assms(2)]) (simp add: b)
  show "table_index 3 v = c" by (rule ix[OF assms(3)]) (simp add: b)
  show "table_index 4 v = d" by (rule ix[OF assms(4)]) (simp add: b)
  show "take_bit 12 v = 0" by (rule bit_word_eqI) (auto simp: bit_simps b)
  show "drop_bit 48 v = 0" by (rule bit_word_eqI) (auto simp: bit_simps b)
qed

lemma bit_table_index: "bit (table_index k v) i \<longleftrightarrow> i < 9 \<and> bit v (3 + 9 * k + i)"
  by (simp add: table_index_def bit_unsigned_iff bit_take_bit_iff bit_drop_bit_eq)

lemma get_vaddr_table_index:
  assumes "take_bit 12 v = 0" "drop_bit 48 v = 0"
  shows "get_vaddr (of_nat (table_index 1 v)) (of_nat (table_index 2 v))
    (of_nat (table_index 3 v)) (of_nat (table_index 4 v)) = v" (is "?g = v")
proof (rule bit_word_eqI)
  fix i
  have lo: "\<not> bit v i" if "i < 12"
    using bit_take_bit_iff[of 12 v i] assms(1) that by simp
  have hi: "\<not> bit v i" if "48 \<le> i"
    using bit_drop_bit_eq[of 48 v] assms(2) that by (simp add: fun_eq_iff) (metis le_add_diff_inverse)
  have "i < 12 \<or> 12 \<le> i \<and> i < 21 \<or> 21 \<le> i \<and> i < 30 \<or> 30 \<le> i \<and> i < 39 \<or> 39 \<le> i \<and> i < 48 \<or> 48 \<le> i"
    by linarith
  then show "bit ?g i = bit v i"
    unfolding bit_get_vaddr[OF table_index_less table_index_less table_index_less table_index_less]
      bit_table_index
    using lo hi by (elim disjE) (simp_all add: less_diff_conv2)
qed

section \<open>What the tool looks at, address by address\<close>

text \<open>
  The entry that the tool takes for one page-aligned virtual address below \<open>2 ^ 48\<close>, found by going down the
  tables with one index per level, taken from the bits of the address. This is not the translation of a
  processor: the tool passes over 1 GB pages, over 2 MB pages without the user bit and over address 0, it takes a
  4 KB entry whether it is present or not, it does not look at the user bit of 4 KB pages or of upper
  levels, and it goes on past tables that cannot be mapped. \<open>None\<close>: the tool does not look at the address.
\<close>

definition table_entry :: "foreign_mem \<Rightarrow> u64 \<Rightarrow> nat \<Rightarrow> u64 option" where
  "table_entry foreign base i = (case foreign (map_frame base) of None \<Rightarrow> None | Some pg \<Rightarrow> pg i)"

definition tool_leaf :: "foreign_mem \<Rightarrow> u64 \<Rightarrow> u64 \<Rightarrow> (u8 \<times> u8 \<times> u64) option" where
  "tool_leaf foreign dtb v =
     (if take_bit 12 v \<noteq> 0 \<or> drop_bit 48 v \<noteq> 0 then None
      else case table_entry foreign dtb (table_index 4 v) of None \<Rightarrow> None | Some e4 \<Rightarrow>
        if \<not> bit e4 0 then None
        else case table_entry foreign e4 (table_index 3 v) of None \<Rightarrow> None | Some e3 \<Rightarrow>
          if \<not> bit e3 0 \<or> bit e3 7 then None
          else case table_entry foreign e3 (table_index 2 v) of None \<Rightarrow> None | Some e2 \<Rightarrow>
            if \<not> bit e2 0 then None
            else if bit e2 7
            then (if bit e2 2 \<and> table_index 1 v = 0 then Some (1, 1, frame_of e2) else None)
            else case table_entry foreign e2 (table_index 1 v) of None \<Rightarrow> None | Some e1 \<Rightarrow>
              if v = 0 then None else Some (if bit e1 0 then 1 else 0, 0, frame_of e1))"

lemma l1_visits_mem:
  assumes "o1 < 512" "o2 < 512" "o3 < 512" "o4 < 512" "(v, l) \<in> set (l1_visits l1p o4 o3 o2 o1)"
  obtains e where "l1p o1 = Some e" "v = get_vaddr (of_nat o1) (of_nat o2) (of_nat o3) (of_nat o4)" "v \<noteq> 0"
    "l = (if bit e 0 then 1 else 0, 0, frame_of e)"
  using assms(5) by (cases "l1p o1") (simp_all add: l1_visits_def Let_def split: if_splits)

lemma l2_visitsE:
  assumes "x \<in> set (l2_visits foreign l2p o4 o3 o2)"
  obtains (huge) e where "l2p o2 = Some e" "bit e 0" "bit e 7" "bit e 2"
      "x = (get_vaddr (of_nat 0) (of_nat o2) (of_nat o3) (of_nat o4), 1, 1, frame_of e)"
  | (small) e l1p o1 where "l2p o2 = Some e" "bit e 0" "\<not> bit e 7" "foreign (map_frame e) = Some l1p"
      "o1 < 512" "x \<in> set (l1_visits l1p o4 o3 o2 o1)"
proof -
  obtain e where e: "l2p o2 = Some e" using assms by (cases "l2p o2") (auto simp: l2_visits_def)
  show thesis
  proof (cases "bit e 7")
    case True
    then show thesis using huge[of e] assms e by (simp add: l2_visits_def split: if_splits)
  next
    case False
    then show thesis
      using small[of e] assms e by (cases "foreign (map_frame e)") (auto simp: l2_visits_def split: if_splits)
  qed
qed

lemma l3_visitsE:
  assumes "x \<in> set (l3_visits foreign l3p o4 o3)"
  obtains e l2p o2 where "l3p o3 = Some e" "bit e 0" "\<not> bit e 7" "foreign (map_frame e) = Some l2p"
    "o2 < 512" "x \<in> set (l2_visits foreign l2p o4 o3 o2)"
proof -
  obtain e where e: "l3p o3 = Some e" using assms by (cases "l3p o3") (auto simp: l3_visits_def)
  then show thesis
    using that[of e] assms by (cases "foreign (map_frame e)") (auto simp: l3_visits_def split: if_splits)
qed

lemma l4_visitsE:
  assumes "x \<in> set (l4_visits foreign l4p o4)"
  obtains e l3p o3 where "l4p o4 = Some e" "bit e 0" "foreign (map_frame e) = Some l3p"
    "o3 < 512" "x \<in> set (l3_visits foreign l3p o4 o3)"
proof -
  obtain e where e: "l4p o4 = Some e" using assms by (cases "l4p o4") (auto simp: l4_visits_def)
  then show thesis
    using that[of e] assms by (cases "foreign (map_frame e)") (auto simp: l4_visits_def split: if_splits)
qed

lemma l1_visits_index:
  assumes "o1 < 512" "o2 < 512" "o3 < 512" "o4 < 512" "x \<in> set (l1_visits l1p o4 o3 o2 o1)"
  shows "table_index 1 (fst x) = o1" "table_index 2 (fst x) = o2" "table_index 3 (fst x) = o3"
    "table_index 4 (fst x) = o4"
proof -
  have "fst x = get_vaddr (of_nat o1) (of_nat o2) (of_nat o3) (of_nat o4)"
    using assms(5) by (cases "l1p o1") (auto simp: l1_visits_def Let_def split: if_splits)
  then show "table_index 1 (fst x) = o1" "table_index 2 (fst x) = o2" "table_index 3 (fst x) = o3"
    "table_index 4 (fst x) = o4" using table_index_get_vaddr[OF assms(1-4)] by simp_all
qed

lemma visits_tool_leaf:
  assumes "(v, l) \<in> set (visits foreign dtb)"
  shows "tool_leaf foreign dtb v = Some l"
proof -
  obtain l4p o4 where 4: "foreign (map_frame dtb) = Some l4p" "o4 < 512" "(v, l) \<in> set (l4_visits foreign l4p o4)"
    using assms by (cases "foreign (map_frame dtb)") (auto simp: visits_def)
  obtain e4 l3p o3 where 3: "l4p o4 = Some e4" "bit e4 0" "foreign (map_frame e4) = Some l3p" "o3 < 512"
    "(v, l) \<in> set (l3_visits foreign l3p o4 o3)"
    using l4_visitsE[OF 4(3)] .
  obtain e3 l2p o2 where 2: "l3p o3 = Some e3" "bit e3 0" "\<not> bit e3 7" "foreign (map_frame e3) = Some l2p" "o2 < 512"
    "(v, l) \<in> set (l2_visits foreign l2p o4 o3 o2)"
    using l3_visitsE[OF 3(5)] .
  from 2(6) show ?thesis
  proof (cases rule: l2_visitsE)
    case (huge e)
    then have v: "v = get_vaddr (of_nat 0) (of_nat o2) (of_nat o3) (of_nat o4)" "l = (1, 1, frame_of e)" by simp_all
    then show ?thesis
      using table_index_get_vaddr[of 0 o2 o3 o4, folded v(1)] 4 3 2 huge
      by (simp add: tool_leaf_def table_entry_def)
  next
    case (small e2 l1p o1)
    obtain e where e: "l1p o1 = Some e" "v = get_vaddr (of_nat o1) (of_nat o2) (of_nat o3) (of_nat o4)"
      "v \<noteq> 0" "l = (if bit e 0 then 1 else 0, 0, frame_of e)"
      using l1_visits_mem[OF small(5) 2(5) 3(4) 4(2) small(6)] .
    then show ?thesis
      using table_index_get_vaddr[OF small(5) 2(5) 3(4) 4(2), folded e(2)] 4 3 2 small
      by (simp add: tool_leaf_def table_entry_def)
  qed
qed

lemma tool_leaf_visits:
  assumes "tool_leaf foreign dtb v = Some l"
  shows "(v, l) \<in> set (visits foreign dtb)"
proof -
  have al: "take_bit 12 v = 0" "drop_bit 48 v = 0"
    using assms by (auto simp: tool_leaf_def split: if_splits)
  note vv = get_vaddr_table_index[OF al] and ix = table_index_less[of _ v]
  obtain l4p e4 where 4: "foreign (map_frame dtb) = Some l4p" "l4p (table_index 4 v) = Some e4" "bit e4 0"
    using assms al by (auto simp: tool_leaf_def table_entry_def split: option.splits if_splits)
  obtain l3p e3 where 3: "foreign (map_frame e4) = Some l3p" "l3p (table_index 3 v) = Some e3" "bit e3 0" "\<not> bit e3 7"
    using assms al 4 by (auto simp: tool_leaf_def table_entry_def split: option.splits if_splits)
  obtain l2p e2 where 2: "foreign (map_frame e3) = Some l2p" "l2p (table_index 2 v) = Some e2" "bit e2 0"
    using assms al 4 3 by (auto simp: tool_leaf_def table_entry_def split: option.splits if_splits)
  have "(v, l) \<in> set (l2_visits foreign l2p (table_index 4 v) (table_index 3 v) (table_index 2 v))"
  proof (cases "bit e2 7")
    case True
    then have h: "bit e2 2" "table_index 1 v = 0" "l = (1, 1, frame_of e2)"
      using assms al 4 3 2 by (auto simp: tool_leaf_def table_entry_def split: if_splits)
    then have "v = get_vaddr 0 (of_nat (table_index 2 v)) (of_nat (table_index 3 v)) (of_nat (table_index 4 v))"
      using vv by simp
    then show ?thesis using True h 2 by (simp add: l2_visits_def)
  next
    case False
    obtain l1p e1 where 1: "foreign (map_frame e2) = Some l1p" "l1p (table_index 1 v) = Some e1" "v \<noteq> 0"
      "l = (if bit e1 0 then 1 else 0, 0, frame_of e1)"
      using assms al 4 3 2 False by (auto simp: tool_leaf_def table_entry_def split: option.splits if_splits)
    have "(v, l) \<in> set (l1_visits l1p (table_index 4 v) (table_index 3 v) (table_index 2 v) (table_index 1 v))"
      using 1 vv by (simp add: l1_visits_def Let_def)
    then show ?thesis using False 2 1(1) ix[of 1] by (auto simp: l2_visits_def)
  qed
  then have "(v, l) \<in> set (l3_visits foreign l3p (table_index 4 v) (table_index 3 v))"
    using 3 2 ix[of 2] by (auto simp: l3_visits_def)
  then have "(v, l) \<in> set (l4_visits foreign l4p (table_index 4 v))"
    using 4 3 ix[of 3] by (auto simp: l4_visits_def)
  then show ?thesis using 4 ix[of 4] by (auto simp: visits_def)
qed

text \<open>No address is visited twice.\<close>

lemma distinct_concat_indexed:
  assumes "distinct is" "\<And>i. i \<in> set is \<Longrightarrow> distinct (map fst (g i))"
    and "\<And>i x. i \<in> set is \<Longrightarrow> x \<in> set (g i) \<Longrightarrow> ix (fst x) = i"
  shows "distinct (map fst (concat (map g is)))"
  using assms
proof (induction "is")
  case (Cons i "is")
  have "fst x \<noteq> fst y" if "x \<in> set (g i)" "j \<in> set is" "y \<in> set (g j)" for x y j
    using that Cons.prems(1) Cons.prems(3)[of i x] Cons.prems(3)[of j y] by auto
  then have "fst ` set (g i) \<inter> fst ` (\<Union>j\<in>set is. set (g j)) = {}" by auto
  then show ?case using Cons by (simp add: image_UN)
qed simp

lemma l2_visits_index:
  assumes "o2 < 512" "o3 < 512" "o4 < 512" "x \<in> set (l2_visits foreign l2p o4 o3 o2)"
  shows "table_index 2 (fst x) = o2 \<and> table_index 3 (fst x) = o3 \<and> table_index 4 (fst x) = o4"
  using assms(4)
proof (cases rule: l2_visitsE)
  case (huge e)
  then show ?thesis using table_index_get_vaddr[of 0 o2 o3 o4] assms by simp
next
  case (small e l1p o1)
  then show ?thesis using l1_visits_index[OF small(5) assms(1-3)] by blast
qed

lemma distinct_visits: "distinct (map fst (visits foreign dtb))"
proof -
  have d1: "distinct (map fst (concat (map (l1_visits l1p o4 o3 o2) [0..<512])))"
    if "o4 < 512" "o3 < 512" "o2 < 512" for l1p o4 o3 o2
  proof (rule distinct_concat_indexed[where ix = "table_index 1"])
    show "distinct (map fst (l1_visits l1p o4 o3 o2 i))" for i
      by (simp add: l1_visits_def Let_def split: option.splits)
  qed (use l1_visits_index(1) that in auto)
  have d2: "distinct (map fst (concat (map (l2_visits foreign l2p o4 o3) [0..<512])))"
    if "o4 < 512" "o3 < 512" for l2p o4 o3
  proof (rule distinct_concat_indexed[where ix = "table_index 2"])
    show "distinct (map fst (l2_visits foreign l2p o4 o3 i))" if "i \<in> set [0..<512]" for i
      using d1[OF \<open>o4 < 512\<close> \<open>o3 < 512\<close>, of i] that by (simp add: l2_visits_def split: option.splits)
  qed (use l2_visits_index that in auto)
  have d3: "distinct (map fst (concat (map (l3_visits foreign l3p o4) [0..<512])))" if "o4 < 512" for l3p o4
  proof (rule distinct_concat_indexed[where ix = "table_index 3"])
    show "distinct (map fst (l3_visits foreign l3p o4 i))" if "i \<in> set [0..<512]" for i
      using d2[OF \<open>o4 < 512\<close>, of i] that by (simp add: l3_visits_def split: option.splits)
    show "table_index 3 (fst x) = i" if "i \<in> set [0..<512]" "x \<in> set (l3_visits foreign l3p o4 i)" for i x
      using that(2) by (rule l3_visitsE) (use l2_visits_index \<open>o4 < 512\<close> that(1) in auto)
  qed simp
  have "distinct (map fst (concat (map (l4_visits foreign l4p) [0..<512])))" for l4p
  proof (rule distinct_concat_indexed[where ix = "table_index 4"])
    show "distinct (map fst (l4_visits foreign l4p i))" if "i \<in> set [0..<512]" for i
      using d3[of i] that by (simp add: l4_visits_def split: option.splits)
    show "table_index 4 (fst x) = i" if "i \<in> set [0..<512]" "x \<in> set (l4_visits foreign l4p i)" for i x
      using that(2) by (elim l4_visitsE l3_visitsE) (use l2_visits_index that(1) in auto)
  qed simp
  then show ?thesis by (simp add: visits_def split: option.splits)
qed

section \<open>What a walk does to a table\<close>

lemma fold_visits_map:
  assumes "\<And>x. x \<in> set xs \<Longrightarrow> f (fst x) = (\<lambda>old. page_update (junk (fst x)) old (snd x))"
  shows "ht_h (fold (apply_visit junk) xs t) = std_map.update_all f (map fst xs) (ht_h t)"
  using assms
proof (induction xs arbitrary: t)
  case (Cons x xs)
  then show ?case by (simp add: std_map.update_all_def apply_visit_def)
qed (simp add: std_map.update_all_def)

lemma fold_visits_lookup:
  assumes "map_wf (ht_h t)" "distinct (map fst xs)"
  shows "map_of (ht_h (fold (apply_visit junk) xs t)) k =
      (case map_of xs k of None \<Rightarrow> map_of (ht_h t) k
       | Some l \<Rightarrow> Some (page_update (junk k) (map_of (ht_h t) k) l))"
    and "map_wf (ht_h (fold (apply_visit junk) xs t))"
proof -
  let ?f = "\<lambda>k old. page_update (junk k) old (the (map_of xs k))"
  have eq: "ht_h (fold (apply_visit junk) xs t) = std_map.update_all ?f (map fst xs) (ht_h t)"
    by (rule fold_visits_map) (use assms(2) in auto)
  show "map_of (ht_h (fold (apply_visit junk) xs t)) k =
      (case map_of xs k of None \<Rightarrow> map_of (ht_h t) k
       | Some l \<Rightarrow> Some (page_update (junk k) (map_of (ht_h t) k) l))"
    unfolding eq std_map.lookup_update_all[OF assms(1,2)]
  proof (cases "map_of xs k")
    case None
    then have "k \<notin> set (map fst xs)" by (simp add: map_of_eq_None_iff)
    then show "(if k \<in> set (map fst xs) then Some (?f k (map_of (ht_h t) k)) else map_of (ht_h t) k) =
      (case map_of xs k of None \<Rightarrow> map_of (ht_h t) k
       | Some l \<Rightarrow> Some (page_update (junk k) (map_of (ht_h t) k) l))" using None by (simp only: if_False option.case)
  next
    case (Some l)
    then have "k \<in> set (map fst xs)" using map_of_SomeD[OF Some] by force
    then show "(if k \<in> set (map fst xs) then Some (?f k (map_of (ht_h t) k)) else map_of (ht_h t) k) =
      (case map_of xs k of None \<Rightarrow> map_of (ht_h t) k
       | Some l \<Rightarrow> Some (page_update (junk k) (map_of (ht_h t) k) l))" using Some by (simp only: if_True option.case option.sel)
  qed
  show "map_wf (ht_h (fold (apply_visit junk) xs t))"
    unfolding eq by (rule std_map.update_all_ok[OF assms(1)])
qed

lemma fold_visits_change:
  assumes "distinct (map fst xs)"
  shows "change_page (fold (apply_visit junk) xs t) =
    change_page t + of_nat (length (filter (\<lambda>x. went_to_swap (map_of (ht_h t) (fst x)) (snd x)) xs))"
  using assms
proof (induction xs arbitrary: t)
  case (Cons x xs)
  let ?t = "apply_visit junk x t"
  have "map_of (ht_h ?t) (fst y) = map_of (ht_h t) (fst y)" if "y \<in> set xs" for y
  proof -
    have "fst y \<in> fst ` set xs" using that by simp
    moreover have "fst x \<notin> fst ` set xs" using Cons.prems by simp
    ultimately have "fst y \<noteq> fst x" by metis
    then show ?thesis by (simp add: apply_visit_def)
  qed
  then have "filter (\<lambda>y. went_to_swap (map_of (ht_h ?t) (fst y)) (snd y)) xs =
      filter (\<lambda>y. went_to_swap (map_of (ht_h t) (fst y)) (snd y)) xs"
    by (intro filter_cong) simp_all
  then show ?case using Cons.IH[of ?t] Cons.prems
    by (simp add: apply_visit_def)
qed simp

lemma map_of_visits: "map_of (visits foreign dtb) v = tool_leaf foreign dtb v"
proof (cases "tool_leaf foreign dtb v")
  case None
  then have "v \<notin> fst ` set (visits foreign dtb)" using visits_tool_leaf[of v] by fastforce
  then show ?thesis using None by (simp add: map_of_eq_None_iff)
next
  case (Some l)
  then show ?thesis using tool_leaf_visits[OF Some] distinct_visits by (simp add: map_of_is_SomeI)
qed

lemma visits_iff: "x \<in> set (visits foreign dtb) \<longleftrightarrow> tool_leaf foreign dtb (fst x) = Some (snd x)"
  using tool_leaf_visits[of foreign dtb "fst x" "snd x"] visits_tool_leaf[of "fst x" "snd x" foreign dtb] by auto

lemma image_fst_Collect: "fst ` {x. P (fst x) (snd x) \<and> Q (fst x) (snd x)} = {v. \<exists>l. P v l \<and> Q v l}"
proof (intro equalityI subsetI)
  fix v assume "v \<in> {v. \<exists>l. P v l \<and> Q v l}"
  then obtain l where "P v l \<and> Q v l" by blast
  then have "(v, l) \<in> {x. P (fst x) (snd x) \<and> Q (fst x) (snd x)}" by simp
  then show "v \<in> fst ` {x. P (fst x) (snd x) \<and> Q (fst x) (snd x)}" by (rule image_eqI[rotated]) simp
qed auto

lemma page_walk_fold:
  assumes "readable foreign" "foreign (map_frame dtb) \<noteq> None"
  obtains n gw where "page_walk_ia32e junk jc foreign dtb table =
    (n, (fold (apply_visit junk) (visits foreign dtb)
           (table\<lparr>ht_count := 0, change_page := 0, activity_page0 := 0, activity_page1 := 0,
                  total_valid_pages := 0\<rparr>))\<lparr>ht_count := n\<rparr>, gw)"
proof -
  obtain l4p where f: "foreign (map_frame dtb) = Some l4p" using assms(2) by blast
  let ?t = "table\<lparr>ht_count := 0, change_page := 0, activity_page0 := 0, activity_page1 := 0,
                  total_valid_pages := 0\<rparr>"
  let ?s = "\<lparr>ws_table = ?t, ws_gw = gw_zero\<lparr>l4mfn := map_frame dtb\<rparr>, ws_count = 0, ws_total = 0, hugepage_counter = 0\<rparr>"
  obtain st where st: "for_loop (walk_l4 junk foreign l4p) [0..<512] ?s = Inr st"
    using for_loop_Inr[of "[0..<512]" "walk_l4 junk foreign l4p"] walk_total(4)[OF assms(1) f]
    by (metis atLeastLessThan_iff set_upt)
  have "ws_table st = fold (apply_visit junk) (concat (map (l4_visits foreign l4p) [0..<512])) (ws_table ?s)"
    by (rule for_loop_fold[where T = ws_table, OF walk_l4_visits st])
  then have "ws_table st = fold (apply_visit junk) (visits foreign dtb) ?t" using f by (simp add: visits_def)
  moreover have "page_walk_ia32e junk jc foreign dtb table =
    (ws_count st, (ws_table st)\<lparr>ht_count := ws_count st\<rparr>, ws_gw st)"
    using f st by (simp add: page_walk_ia32e_def map_page_def)
  ultimately show thesis using that by simp
qed

section \<open>Properties of the walk\<close>

text \<open>
  C33. The four nested loops of the tool, address by address: after a walk in which the top table can be
  mapped and no read faults, the record of every virtual page that the tool looks at is updated exactly once, from
  the entry found by going down the tables with the indices of its address, and the record of every
  other page is what it was. The tool looks at every 4 KB entry of a last-level table it can reach, present or not,
  except that of address 0, and at 2 MB pages with the user bit; not at 1 GB pages and supervisor 2 MB pages.\<close>

theorem page_walk_pointwise:
  assumes "readable foreign" "foreign (map_frame dtb) \<noteq> None" "map_wf (ht_h table)"
  shows "\<exists>n t' gw. page_walk_ia32e junk jc foreign dtb table = (n, t', gw) \<and> map_wf (ht_h t') \<and>
    (\<forall>v. map_of (ht_h t') v =
       (case tool_leaf foreign dtb v of
          None \<Rightarrow> map_of (ht_h table) v
        | Some l \<Rightarrow> Some (page_update (junk v) (map_of (ht_h table) v) l)))"
proof -
  let ?t = "table\<lparr>ht_count := 0, change_page := 0, activity_page0 := 0, activity_page1 := 0,
                  total_valid_pages := 0\<rparr>"
  obtain n gw where w: "page_walk_ia32e junk jc foreign dtb table =
    (n, (fold (apply_visit junk) (visits foreign dtb) ?t)\<lparr>ht_count := n\<rparr>, gw)"
    using page_walk_fold[OF assms(1,2)] .
  have "map_wf (ht_h ?t)" using assms(3) by simp
  note f0 = fold_visits_lookup[OF this distinct_visits, of junk foreign dtb, unfolded map_of_visits]
  have "ht_h ?t = ht_h table" by simp
  note f = f0[unfolded this]
  have "\<forall>v. map_of (ht_h ((fold (apply_visit junk) (visits foreign dtb) ?t)\<lparr>ht_count := n\<rparr>)) v =
       (case tool_leaf foreign dtb v of
          None \<Rightarrow> map_of (ht_h table) v
        | Some l \<Rightarrow> Some (page_update (junk v) (map_of (ht_h table) v) l))"
    using f(1) by simp
  moreover have "map_wf (ht_h ((fold (apply_visit junk) (visits foreign dtb) ?t)\<lparr>ht_count := n\<rparr>))"
    using f(2) by simp
  ultimately show ?thesis using w by blast
qed

text \<open>
  Four tables in the frames 5 to 8. Page \<open>0x1000\<close> is present in frame 9, \<open>0x2000\<close> is in swap slot 3, all other
  entries of the last table are empty; \<open>0x200000\<close> is a user 2 MB page, \<open>0x400000\<close> a supervisor 2 MB page.
\<close>

definition demo_tables :: foreign_mem where
  "demo_tables f =
     (if f = 5 then Some (\<lambda>i. Some (if i = 0 then 0x6007 else 0))
      else if f = 6 then Some (\<lambda>i. Some (if i = 0 then 0x7007 else 0))
      else if f = 7 then Some (\<lambda>i. Some (if i = 0 then 0x8007 else if i = 1 then 0x200087
                                          else if i = 2 then 0x400083 else 0))
      else if f = 8 then Some (\<lambda>i. Some (if i = 1 then 0x9007 else if i = 2 then 0x3000 else 0))
      else None)"

text \<open>A table in which \<open>0x1000\<close> and \<open>0x2000\<close> are recorded as present in frames 4 and 3, and \<open>0x400000\<close> in frame 2.\<close>

definition demo_record :: "u64 \<Rightarrow> mapData" where
  "demo_record p = \<lparr>present_times = 1, weight = 0, paddr = push_bit 28 p\<rparr>"

definition demo_seen :: hash_table where
  "demo_seen = \<lparr>ht_h = [(0x1000, demo_record 4), (0x2000, demo_record 3), (0x400000, demo_record 2)], ht_cr3 = 0x5000,
     ht_count = 0, change_page = 7, total_valid_pages = 0, activity_page0 = 0, activity_page1 = 0, ht_round = 0, check = 0\<rparr>"

lemma demo_readable: "readable demo_tables" "demo_tables (map_frame 0x5000) \<noteq> None"
  by (simp_all add: readable_def demo_tables_def map_frame_def ADDR_MASK_def)

lemma demo_seen_wf: "map_wf (ht_h demo_seen)"
  by (simp add: demo_seen_def map_wf_def)

lemma demo_leaves:
  "tool_leaf demo_tables 0x5000 0x1000 = Some (1, 0, 9)" "tool_leaf demo_tables 0x5000 0x2000 = Some (0, 0, 3)"
  "tool_leaf demo_tables 0x5000 0x200000 = Some (1, 1, 0x200)" "tool_leaf demo_tables 0x5000 0x400000 = None"
  by code_simp+

theorem page_walk_pointwise_witness:
  "\<exists>n t' gw. page_walk_ia32e (\<lambda>_. 0) 0 demo_tables 0x5000 demo_seen = (n, t', gw) \<and> map_wf (ht_h t') \<and>
     map_of (ht_h t') 0x1000 = Some \<lparr>present_times = 1, weight = 1, paddr = push_bit 28 9\<rparr> \<and>
     map_of (ht_h t') 0x2000 = Some \<lparr>present_times = 2, weight = 1, paddr = push_bit 28 3 + 6\<rparr> \<and>
     map_of (ht_h t') 0x200000 = Some \<lparr>present_times = 1, weight = 1, paddr = push_bit 28 0x200 + 1\<rparr> \<and>
     map_of (ht_h t') 0x400000 = Some (demo_record 2)"
proof -
  have m: "map_of (ht_h demo_seen) 0x1000 = Some (demo_record 4)" "map_of (ht_h demo_seen) 0x2000 = Some (demo_record 3)"
    "map_of (ht_h demo_seen) 0x200000 = None" "map_of (ht_h demo_seen) 0x400000 = Some (demo_record 2)"
    by (simp_all add: demo_seen_def)
  have u: "page_update 0 (Some (demo_record 4)) (1, 0, 9) = \<lparr>present_times = 1, weight = 1, paddr = push_bit 28 9\<rparr>"
    "page_update 0 (Some (demo_record 3)) (0, 0, 3) = \<lparr>present_times = 2, weight = 1, paddr = push_bit 28 3 + 6\<rparr>"
    "page_update 0 None (1, 1, 0x200) = \<lparr>present_times = 1, weight = 1, paddr = push_bit 28 0x200 + 1\<rparr>"
    by code_simp+
  obtain n t' gw where w: "page_walk_ia32e (\<lambda>_. 0) 0 demo_tables 0x5000 demo_seen = (n, t', gw)" "map_wf (ht_h t')"
    "\<And>v. map_of (ht_h t') v = (case tool_leaf demo_tables 0x5000 v of None \<Rightarrow> map_of (ht_h demo_seen) v
       | Some l \<Rightarrow> Some (page_update 0 (map_of (ht_h demo_seen) v) l))"
    using page_walk_pointwise[OF demo_readable demo_seen_wf, of "\<lambda>_. 0" 0] by blast
  have "map_of (ht_h t') 0x1000 = Some \<lparr>present_times = 1, weight = 1, paddr = push_bit 28 9\<rparr>"
    "map_of (ht_h t') 0x2000 = Some \<lparr>present_times = 2, weight = 1, paddr = push_bit 28 3 + 6\<rparr>"
    "map_of (ht_h t') 0x200000 = Some \<lparr>present_times = 1, weight = 1, paddr = push_bit 28 0x200 + 1\<rparr>"
    "map_of (ht_h t') 0x400000 = Some (demo_record 2)"
    by (simp_all only: w(3) demo_leaves m u option.case)
  with w(1,2) show ?thesis by blast
qed

text \<open>
  C34. \<open>change_page\<close> after such a walk is the number of virtual pages that are recorded as present, that the walk
  reaches through present upper levels down to a 4 KB entry, and whose entry is now not present. A page whose upper
  level vanished, a 2 MB page that vanished and a page never recorded are not counted.\<close>

theorem page_walk_counts_swapped:
  assumes "readable foreign" "foreign (map_frame dtb) \<noteq> None"
  shows "\<exists>n t' gw. page_walk_ia32e junk jc foreign dtb table = (n, t', gw) \<and>
    change_page t' = of_nat (card {v. \<exists>l. tool_leaf foreign dtb v = Some l \<and>
                                       went_to_swap (map_of (ht_h table) v) l})"
proof -
  let ?t = "table\<lparr>ht_count := 0, change_page := 0, activity_page0 := 0, activity_page1 := 0,
                  total_valid_pages := 0\<rparr>"
  let ?P = "\<lambda>x. went_to_swap (map_of (ht_h table) (fst x)) (snd x)"
  obtain n gw where w: "page_walk_ia32e junk jc foreign dtb table =
    (n, (fold (apply_visit junk) (visits foreign dtb) ?t)\<lparr>ht_count := n\<rparr>, gw)"
    using page_walk_fold[OF assms] .
  have d: "distinct (map fst (filter ?P (visits foreign dtb)))"
    using distinct_visits by (simp add: distinct_map_filter)
  have "{v. \<exists>l. tool_leaf foreign dtb v = Some l \<and> went_to_swap (map_of (ht_h table) v) l} =
      fst ` set (filter ?P (visits foreign dtb))"
    unfolding set_filter visits_iff by (rule image_fst_Collect[symmetric])
  then have "card {v. \<exists>l. tool_leaf foreign dtb v = Some l \<and> went_to_swap (map_of (ht_h table) v) l} =
      length (filter ?P (visits foreign dtb))"
    using distinct_card[OF d] by simp
  then show ?thesis
    unfolding w using fold_visits_change[OF distinct_visits, of junk foreign dtb ?t] by simp
qed

theorem page_walk_counts_swapped_witness:
  "\<exists>n t' gw. page_walk_ia32e (\<lambda>_. 0) 0 demo_tables 0x5000 demo_seen = (n, t', gw) \<and> change_page t' = 1"
proof -
  have "present_times (demo_record p) AND 1 = 1" for p by (simp add: demo_record_def)
  then have "{v. \<exists>l. tool_leaf demo_tables 0x5000 v = Some l \<and> went_to_swap (map_of (ht_h demo_seen) v) l} = {0x2000}"
    using demo_leaves by (auto simp: went_to_swap_def demo_seen_def split: if_splits)
  then show ?thesis using page_walk_counts_swapped[OF demo_readable, of "\<lambda>_. 0" 0 demo_seen] by simp
qed

section \<open>The packed physical address\<close>

lemma bit_frame_of: "bit (frame_of e) i \<longleftrightarrow> i < 36 \<and> bit e (i + 12)"
proof -
  have "ADDR_MASK = mask 48" by (simp add: ADDR_MASK_def mask_eq_exp_minus_1)
  then have "bit ADDR_MASK j \<longleftrightarrow> j < 48" for j
    unfolding \<open>ADDR_MASK = mask 48\<close> bit_mask_iff by auto
  then show ?thesis by (auto simp: frame_of_def bit_drop_bit_eq bit_and_iff add.commute)
qed

lemma bit_ucast8: "bit (ucast (hb :: u8) :: u64) 0 \<longleftrightarrow> bit hb 0"
  by (simp add: bit_unsigned_iff)

text \<open>
  A present page's frame number and huge bit survive the packing into the 64-bit word of the record,
  whatever the word held before.\<close>

lemma paddr_roundtrip:
  "get_paddr (store_paddr old (frame_of e) 1 hb) = frame_of e \<and>
   get_huge_bit (store_paddr old (frame_of e) 1 hb) = (if bit hb 0 then 1 else 0)"
proof
  show "get_paddr (store_paddr old (frame_of e) 1 hb) = frame_of e"
    by (rule bit_word_eqI) (auto simp: get_paddr_def bit_get_bit store_paddr_def bit_save_huge bit_save_paddr
        bit_frame_of)
  show "get_huge_bit (store_paddr old (frame_of e) 1 hb) = (if bit hb 0 then 1 else 0)"
    by (simp add: get_huge_bit_def store_paddr_def bit_save_huge bit_ucast8)
qed

text \<open>
  A swapped page's slot number does not survive it: the mask \<open>0xeffffff\<close> drops bit 24, so two slots that
  differ there are stored alike; the slot is read back with 63 bits, so that bits 29 and up of the word the
  record held before are part of it; and bit 27 of the slot is merged into the frame field.\<close>

lemma swap_slot_lossy:
  "get_swap_id (store_paddr old p 0 hb) = get_swap_id (store_paddr old (p XOR push_bit 24 1) 0 hb) \<and>
   (\<forall>i. bit (get_swap_id (store_paddr old p 0 hb)) i \<longleftrightarrow>
      (if i < 27 then bit p i \<and> i \<noteq> 24 else if i = 27 then bit old 28 \<or> bit p 27
       else i < 63 \<and> bit old (Suc i)))"
proof -
  have b: "bit (get_swap_id (store_paddr old q 0 hb)) i \<longleftrightarrow>
      (if i < 27 then bit q i \<and> i \<noteq> 24 else if i = 27 then bit old 28 \<or> bit q 27
       else i < 63 \<and> bit old (Suc i))" for q i
    by (auto simp: get_swap_id_def bit_get_bit store_paddr_def bit_save_huge bit_save_swap)
  have x: "bit (p XOR push_bit 24 1) i \<longleftrightarrow> bit p i" if "i \<noteq> 24" for i
    using that by (simp only: bit_xor_iff bit_push_bit_iff bit_1_iff) auto
  have "get_swap_id (store_paddr old p 0 hb) = get_swap_id (store_paddr old (p XOR push_bit 24 1) 0 hb)"
    by (rule bit_word_eqI) (use x in \<open>auto simp: b\<close>)
  then show ?thesis using b by blast
qed

section \<open>Counting every frame once\<close>

definition amount :: "mapData \<Rightarrow> int" where
  "amount d = (if get_huge_bit (paddr d) = 0 then weight d else 512 * weight d)"

definition present_frames :: "(u64, mapData) std_map \<Rightarrow> (u64 \<times> int) list" where
  "present_frames h = map (\<lambda>(k, d). (get_paddr (paddr d), amount d))
     (filter (\<lambda>(k, d). present_times d AND 1 = 1) h)"

definition swapped_slots :: "(u64, mapData) std_map \<Rightarrow> (u64 \<times> int) list" where
  "swapped_slots h = map (\<lambda>(k, d). (get_swap_id (paddr d), amount d))
     (filter (\<lambda>(k, d). present_times d AND 1 = 0 \<and> CHANGE_LIMIT \<le> get_change_number (present_times d)) h)"

text \<open>The amounts of the first occurrence of every key not seen before.\<close>

fun first_sum :: "u64 set \<Rightarrow> (u64 \<times> int) list \<Rightarrow> int" where
  "first_sum S [] = 0"
| "first_sum S ((p, a) # xs) = (if p \<in> S then first_sum S xs else a + first_sum (insert p S) xs)"

lemma first_sum_append: "first_sum S (xs @ ys) = first_sum S xs + first_sum (S \<union> fst ` set xs) ys"
  by (induction S xs rule: first_sum.induct) (auto simp: insert_absorb)

lemma first_sum_ones:
  "\<forall>x\<in>set xs. snd x = 1 \<Longrightarrow> first_sum S xs = int (card (fst ` set xs - S))"
proof (induction S xs rule: first_sum.induct)
  case (2 S p a xs)
  show ?case
  proof (cases "p \<in> S")
    case True
    then have "insert p (fst ` set xs) - S = fst ` set xs - S" by auto
    then show ?thesis using 2 True by simp
  next
    case False
    have "insert p (fst ` set xs) - S = insert p (fst ` set xs - insert p S)" using False by auto
    moreover have "card (insert p (fst ` set xs - insert p S)) = Suc (card (fst ` set xs - insert p S))"
      by (rule card_insert_disjoint) auto
    ultimately show ?thesis using 2 False by simp
  qed
qed simp

lemma dom_count_frame [simp]: "dom (map_of (count_frame p m)) = insert p (dom (map_of m))"
  by (auto simp: count_frame_def split: option.splits)

definition seen_wks :: "calc_state \<Rightarrow> u64 set" where "seen_wks cs = dom (map_of (wks cs))"
definition seen_swp :: "calc_state \<Rightarrow> u64 set" where "seen_swp cs = dom (map_of (swp cs))"

lemma calc_page_eq:
  "act1 (calc_page d cs) = act1 cs + first_sum (seen_wks cs) (present_frames [(k, d)])"
  "act0 (calc_page d cs) = act0 cs + first_sum (seen_swp cs) (swapped_slots [(k, d)])"
  "seen_wks (calc_page d cs) = seen_wks cs \<union> fst ` set (present_frames [(k, d)])"
  "seen_swp (calc_page d cs) = seen_swp cs \<union> fst ` set (swapped_slots [(k, d)])"
  using and_one_cases[of "present_times d"]
  by (auto simp: calc_page_def Let_def present_frames_def swapped_slots_def seen_wks_def seen_swp_def amount_def
      domIff)

lemma frames_Cons:
  "present_frames (x # h) = present_frames [x] @ present_frames h"
  "swapped_slots (x # h) = swapped_slots [x] @ swapped_slots h"
  by (simp_all add: present_frames_def swapped_slots_def)

lemma calc_pages_eq:
  assumes "calc_pages h cs = (h', cs')"
  shows "h' = map (\<lambda>(k, d). (k, d\<lparr>weight := decay (weight d)\<rparr>)) h"
    "act1 cs' = act1 cs + first_sum (seen_wks cs) (present_frames h)"
    "act0 cs' = act0 cs + first_sum (seen_swp cs) (swapped_slots h)"
    "seen_wks cs' = seen_wks cs \<union> fst ` set (present_frames h)"
    "seen_swp cs' = seen_swp cs \<union> fst ` set (swapped_slots h)"
proof -
  have "h' = map (\<lambda>(k, d). (k, d\<lparr>weight := decay (weight d)\<rparr>)) h \<and>
    act1 cs' = act1 cs + first_sum (seen_wks cs) (present_frames h) \<and>
    act0 cs' = act0 cs + first_sum (seen_swp cs) (swapped_slots h) \<and>
    seen_wks cs' = seen_wks cs \<union> fst ` set (present_frames h) \<and>
    seen_swp cs' = seen_swp cs \<union> fst ` set (swapped_slots h)"
    using assms
  proof (induction h arbitrary: cs h')
    case Nil
    then show ?case by (simp add: present_frames_def swapped_slots_def)
  next
    case (Cons x h)
    obtain k d where x: "x = (k, d)" by (cases x)
    obtain h1 where h1: "calc_pages h (calc_page d cs) = (h1, cs')" "h' = (k, d\<lparr>weight := decay (weight d)\<rparr>) # h1"
      using Cons.prems x by (auto split: prod.splits)
    show ?case
      using Cons.IH[OF h1(1)] h1(2) calc_page_eq[where d = d and k = k and cs = cs]
      by (simp add: x frames_Cons[of "(k, d)" h] first_sum_append Un_assoc image_Un)
  qed
  then show "h' = map (\<lambda>(k, d). (k, d\<lparr>weight := decay (weight d)\<rparr>)) h"
    "act1 cs' = act1 cs + first_sum (seen_wks cs) (present_frames h)"
    "act0 cs' = act0 cs + first_sum (seen_swp cs) (swapped_slots h)"
    "seen_wks cs' = seen_wks cs \<union> fst ` set (present_frames h)"
    "seen_swp cs' = seen_swp cs \<union> fst ` set (swapped_slots h)" by blast+
qed

text \<open>The pages of the processes marked for this round, in the order of the pass.\<close>

definition checked_tables :: "datamap \<Rightarrow> hash_table list" where
  "checked_tables m = map snd (filter (\<lambda>(c, h). check h = 1) m)"

lemma checked_tables_simps [simp]:
  "checked_tables [] = []"
  "checked_tables ((c, h) # m) = (if check h = 1 then h # checked_tables m else checked_tables m)"
  by (simp_all add: checked_tables_def)

lemma calculate_loop_eq:
  assumes "calculate_loop m sw ss r = (m', sw', ss', r')"
  shows "res1 r' = res1 r + sum_list (map activity_page1 (checked_tables m)) +
      first_sum (dom (map_of sw)) (concat (map (present_frames \<circ> ht_h) (checked_tables m))) \<and>
    res0 r' = res0 r + sum_list (map activity_page0 (checked_tables m)) +
      first_sum (dom (map_of ss)) (concat (map (swapped_slots \<circ> ht_h) (checked_tables m)))"
  using assms
proof (induction m sw ss r arbitrary: m' rule: calculate_loop.induct)
  case (2 cr3 h m sw ss r)
  show ?case
  proof (cases "check h = 1")
    case False
    then obtain m1 where "calculate_loop m sw ss r = (m1, sw', ss', r')"
      using "2.prems" by (auto split: prod.splits)
    then show ?thesis using "2.IH"(2)[OF False] False by simp
  next
    case True
    obtain pages cs where p: "calc_pages (ht_h h) \<lparr>wks = sw, swp = ss, act0 = activity_page0 h, act1 = activity_page1 h\<rparr> = (pages, cs)"
      by (cases "calc_pages (ht_h h) \<lparr>wks = sw, swp = ss, act0 = activity_page0 h, act1 = activity_page1 h\<rparr>")
    let ?h = "h\<lparr>ht_h := pages, activity_page0 := act0 cs, activity_page1 := act1 cs, check := 0\<rparr>"
    let ?r = "r\<lparr>res0 := res0 r + activity_page0 ?h, res1 := res1 r + activity_page1 ?h,
                           res2 := res2 r + int (unat (total_valid_pages ?h))\<rparr>"
    obtain m1 where m1: "calculate_loop m (wks cs) (swp cs) ?r = (m1, sw', ss', r')"
      using "2.prems" True p by (auto simp: Let_def split: prod.splits)
    note IH = "2.IH"(1)[OF True p[symmetric] refl refl m1]
    show ?thesis
      using IH calc_pages_eq[OF p] True
      by (simp add: first_sum_append seen_wks_def seen_swp_def)
  qed
qed simp

lemma first_sum_map_of: "first_sum S xs = (\<Sum>p\<in>fst ` set xs - S. the (map_of xs p))"
proof (induction S xs rule: first_sum.induct)
  case (2 S p a xs)
  show ?case
  proof (cases "p \<in> S")
    case True
    then have "insert p (fst ` set xs) - S = fst ` set xs - S" by auto
    moreover have "(\<Sum>q\<in>fst ` set xs - S. the (map_of ((p, a) # xs) q)) = (\<Sum>q\<in>fst ` set xs - S. the (map_of xs q))"
      using True by (intro sum.cong) auto
    ultimately show ?thesis using 2 True by simp
  next
    case False
    let ?A = "fst ` set xs - insert p S"
    have "insert p (fst ` set xs) - S = insert p ?A" using False by auto
    moreover have "(\<Sum>q\<in>insert p ?A. the (map_of ((p, a) # xs) q)) = a + (\<Sum>q\<in>?A. the (map_of ((p, a) # xs) q))"
      by (subst sum.insert) auto
    moreover have "(\<Sum>q\<in>?A. the (map_of ((p, a) # xs) q)) = (\<Sum>q\<in>?A. the (map_of xs q))"
      by (intro sum.cong) auto
    ultimately show ?thesis using 2 False by simp
  qed
qed simp

text \<open>The pages of a round with their frames (or swap slots) and amounts, in the order of the pass.\<close>

definition round_frames :: "datamap \<Rightarrow> (u64 \<times> int) list" where
  "round_frames m = concat (map (present_frames \<circ> ht_h) (checked_tables m))"

definition round_slots :: "datamap \<Rightarrow> (u64 \<times> int) list" where
  "round_slots m = concat (map (swapped_slots \<circ> ht_h) (checked_tables m))"

lemma round_frames_ones:
  assumes "\<forall>h\<in>set (checked_tables m). \<forall>(k, d)\<in>set (ht_h h). weight d = 1 \<and> get_huge_bit (paddr d) = 0"
  shows "(\<Sum>p\<in>fst ` set (round_frames m). the (map_of (round_frames m) p)) = int (card (fst ` set (round_frames m)))"
proof -
  have "\<forall>x\<in>set (round_frames m). snd x = 1"
    using assms by (fastforce simp: round_frames_def present_frames_def amount_def)
  from first_sum_ones[OF this, of "{}"] show ?thesis by (simp add: first_sum_map_of)
qed

text \<open>
  C35. The page count of a round. \<open>result[1]\<close> is the activity carried over by the processes marked for the
  round plus, for every distinct frame that their present pages lie in, one amount: the weight, times 512 for a huge
  page, of the first page of the pass that lies in the frame. A frame shared by several pages or processes is counted
  once, with the weight of the first of them, which may have decayed to 0. \<open>result[0]\<close> likewise for the swap slots
  of the pages that are not present and have a recorded change. In particular, when every page has weight 1, none is
  huge and nothing was carried over, \<open>result[1]\<close> is the number of distinct frames of present pages.\<close>

theorem working_set_counts_frames_once:
  "\<exists>n m' sw ss r'. calculate_all_page m [] [] \<lparr>res0 = 0, res1 = 0, res2 = 0\<rparr> = (n, m', sw, ss, r') \<and>
     res1 r' = sum_list (map activity_page1 (checked_tables m)) +
       (\<Sum>p\<in>fst ` set (round_frames m). the (map_of (round_frames m) p)) \<and>
     res0 r' = sum_list (map activity_page0 (checked_tables m)) +
       (\<Sum>p\<in>fst ` set (round_slots m). the (map_of (round_slots m) p)) \<and>
     ((\<forall>h\<in>set (checked_tables m). activity_page1 h = 0 \<and>
         (\<forall>(k, d)\<in>set (ht_h h). weight d = 1 \<and> get_huge_bit (paddr d) = 0)) \<longrightarrow>
      res1 r' = int (card {get_paddr (paddr d) | h k d. h \<in> set (checked_tables m) \<and>
         (k, d) \<in> set (ht_h h) \<and> present_times d AND 1 = 1}))"
proof -
  obtain m' sw ss r' where c: "calculate_loop m [] [] \<lparr>res0 = 0, res1 = 0, res2 = 0\<rparr> = (m', sw, ss, r')"
    by (cases "calculate_loop m [] [] \<lparr>res0 = 0, res1 = 0, res2 = 0\<rparr>")
  have r: "res1 r' = sum_list (map activity_page1 (checked_tables m)) +
      (\<Sum>p\<in>fst ` set (round_frames m). the (map_of (round_frames m) p))"
    "res0 r' = sum_list (map activity_page0 (checked_tables m)) +
      (\<Sum>p\<in>fst ` set (round_slots m). the (map_of (round_slots m) p))"
    using calculate_loop_eq[OF c] by (simp_all add: first_sum_map_of round_frames_def round_slots_def)
  have "res1 r' = int (card {get_paddr (paddr d) | h k d. h \<in> set (checked_tables m) \<and>
      (k, d) \<in> set (ht_h h) \<and> present_times d AND 1 = 1})"
    if a: "\<forall>h\<in>set (checked_tables m). activity_page1 h = 0 \<and>
         (\<forall>(k, d)\<in>set (ht_h h). weight d = 1 \<and> get_huge_bit (paddr d) = 0)"
  proof -
    have "map activity_page1 (checked_tables m) = map (\<lambda>_. 0) (checked_tables m)" using a by simp
    then have "sum_list (map activity_page1 (checked_tables m)) = 0" by (simp only: sum_list_0)
    moreover have "fst ` set (round_frames m) = {get_paddr (paddr d) | h k d. h \<in> set (checked_tables m) \<and>
        (k, d) \<in> set (ht_h h) \<and> present_times d AND 1 = 1}"
      by (force simp: round_frames_def present_frames_def)
    ultimately show ?thesis using r(1) round_frames_ones[of m] a by simp
  qed
  with c r show ?thesis by (simp add: calculate_all_page_def)
qed

text \<open>
  Two processes share frame 7; the first has also a huge page in frame 8, and a page in frame 9 whose weight has
  decayed, which the second has seen again.
\<close>

definition two_sharers :: datamap where
  "two_sharers = (let d = (\<lambda>w hb p. \<lparr>present_times = 1, weight = w, paddr = push_bit 28 p OR hb\<rparr>);
      t = (\<lambda>pages. \<lparr>ht_h = pages, ht_cr3 = 0, ht_count = 0, change_page = 0, total_valid_pages = 0,
           activity_page0 = 0, activity_page1 = 0, ht_round = 0, check = 1\<rparr>)
    in [(1, t [(0x1000, d 1 0 7), (0x200000, d 1 1 8), (0x400000, d 0 0 9)]), (2, t [(0x1000, d 1 0 7), (0x2000, d 1 0 9)])])"

theorem working_set_counts_frames_once_witness:
  "\<exists>n m' sw ss r'. calculate_all_page two_sharers [] [] \<lparr>res0 = 0, res1 = 0, res2 = 0\<rparr> = (n, m', sw, ss, r') \<and>
     res1 r' = 513"
proof -
  have f: "round_frames two_sharers = [(7, 1), (8, 512), (9, 0), (7, 1), (9, 1)]" by code_simp
  have a: "map activity_page1 (checked_tables two_sharers) = [0, 0]" by code_simp
  have "(\<Sum>p\<in>fst ` set (round_frames two_sharers). the (map_of (round_frames two_sharers) p)) = 513"
    unfolding f by (simp add: sum.insert_if)
  then show ?thesis using working_set_counts_frames_once[of two_sharers] a by auto
qed

section \<open>Ageing\<close>

lemma decay_01: "w \<in> {0, 1} \<Longrightarrow> decay w = 0"
  by (auto simp: decay_def)

lemma retrieve_loop_filter:
  "retrieve_loop m round =
     (filter (\<lambda>(c, h). \<not> MAX_ROUND_INTERVAL \<le> round_interval round (ht_round h)) m,
      length (filter (\<lambda>(c, h). MAX_ROUND_INTERVAL \<le> round_interval round (ht_round h)) m))"
  by (induction m round rule: retrieve_loop.induct) auto

lemma round_interval_diff:
  assumes "hr < round" "unat round - unat hr < 2 ^ 31"
  shows "round_interval round hr = int (unat round - unat hr)"
proof -
  have u: "unat (round - hr) = unat round - unat hr"
    using assms(1) by (simp add: unat_sub less_imp_le)
  have "unat (ucast (round - hr) :: u32) = unat round - unat hr"
    using assms(2) by (simp add: unsigned_ucast_eq u take_bit_nat_eq_self)
  then have "uint (ucast (round - hr) :: u32) = int (unat round - unat hr)" by (simp only: uint_nat)
  moreover have "int (unat round - unat hr) < 2 ^ 31"
    using assms(2) by (metis of_nat_less_iff of_nat_numeral of_nat_power)
  ultimately have "sint (ucast (round - hr) :: u32) = int (unat round - unat hr)"
    by (simp only: sint_uint) (simp add: signed_take_bit_int_eq_self)
  then show ?thesis using assms(1) by (simp add: round_interval_def)
qed

lemma retrieve_list_eq:
  assumes "map_wf m" "\<forall>(c, h)\<in>set m. ht_round h < round \<and> unat round - unat (ht_round h) < 2 ^ 31"
  shows "\<exists>n m'. retrieve_list m round = (n, m') \<and> map_wf m' \<and> n = int (length m - length m') \<and>
    (\<forall>c. map_of m' c = (case map_of m c of None \<Rightarrow> None
       | Some h \<Rightarrow> if 20 \<le> unat round - unat (ht_round h) then None else Some h))"
proof -
  let ?old = "\<lambda>(c :: u64, h). 20 \<le> unat round - unat (ht_round h)"
  have iv: "MAX_ROUND_INTERVAL \<le> round_interval round (ht_round h) \<longleftrightarrow> 20 \<le> unat round - unat (ht_round h)"
    if "(c, h) \<in> set m" for c h
  proof -
    have "round_interval round (ht_round h) = int (unat round - unat (ht_round h))"
      by (rule round_interval_diff) (use assms(2) that in auto)
    then show ?thesis by (simp only: MAX_ROUND_INTERVAL_def) linarith
  qed
  have f: "filter (\<lambda>(c, h). \<not> MAX_ROUND_INTERVAL \<le> round_interval round (ht_round h)) m = filter (\<lambda>x. \<not> ?old x) m"
    "filter (\<lambda>(c, h). MAX_ROUND_INTERVAL \<le> round_interval round (ht_round h)) m = filter ?old m"
    using iv by (auto intro!: filter_cong)
  have "retrieve_list m round = (int (length (filter ?old m)), filter (\<lambda>x. \<not> ?old x) m)"
    by (simp only: retrieve_list_def retrieve_loop_filter f prod.case)
  moreover have "length (filter ?old m) = length m - length (filter (\<lambda>x. \<not> ?old x) m)"
    using sum_length_filter_compl[of ?old m] by linarith
  ultimately show ?thesis
    using assms(1) by (auto simp: map_of_filter split: option.splits)
qed

text \<open>
  The ageing pass forgets exactly the CR3s that were last walked 20 or more rounds ago, reports how many,
  and keeps the rest of the map as it was, as long as every recorded round lies before the current one by less
  than \<open>2 ^ 31\<close> rounds.\<close>

lemma retrieve_list_ages:
  assumes "map_wf m" "\<forall>(c, h)\<in>set m. ht_round h < round \<and> unat round - unat (ht_round h) < 2 ^ 31"
  shows "\<exists>n m'. retrieve_list m round = (n, m') \<and> map_wf m' \<and> n = int (length m - length m') \<and>
    (\<forall>c. map_of m' c = (case map_of m c of None \<Rightarrow> None
       | Some h \<Rightarrow> if 20 \<le> unat round - unat (ht_round h) then None else Some h))"
  using assms by (rule retrieve_list_eq)

lemma retrieve_list_ages_witness:
  "\<exists>n m'. retrieve_list [(1, \<lparr>ht_h = [], ht_cr3 = 1, ht_count = 0, change_page = 0, total_valid_pages = 0,
       activity_page0 = 0, activity_page1 = 0, ht_round = 3, check = 0\<rparr>)] 23 = (n, m') \<and> map_of m' 1 = None"
  using retrieve_list_ages[of "[(1, \<lparr>ht_h = [], ht_cr3 = 1, ht_count = 0, change_page = 0, total_valid_pages = 0,
       activity_page0 = 0, activity_page1 = 0, ht_round = 3, check = 0\<rparr>)]" 23]
  by auto

end
