(* ===== verification/Monitor_Pipeline.thy ===== *)
theory Monitor_Pipeline
  imports CR3_Sampling Monitor_Analyze
begin

text \<open>
  The monitor as a whole: the scheduler hook fills the record of the sampled domain, the hypercall
  drains it into the buffer of the tool, and a turn of the tool's loop walks every CR3 it was given.
\<close>

section \<open>The tool on top of the hypercall\<close>

definition RECENT_CR3_SIZE :: u64 where "RECENT_CR3_SIZE = 50"

definition init_hypercall ::
  "(u64 \<Rightarrow> u64 list option) \<Rightarrow> u32 \<Rightarrow> u64 \<Rightarrow> domain_table \<Rightarrow> (u64 \<times> domain_table) result" where
  "init_hypercall heap domID n h =
     bindR (do_vt_op heap 1 domID n [] h) (\<lambda>(ret, h, _). Inr (ret, h))"

text \<open>The hypercall that \<open>get_cr3_hypercall\<close> issues.\<close>

definition drain_call ::
  "(u64 \<Rightarrow> u64 list option) \<Rightarrow> u32 \<Rightarrow> u64 list \<Rightarrow> domain_table \<Rightarrow> (u64 list \<times> domain_table) result" where
  "drain_call heap domID buf h = bindR (do_vt_op heap 3 domID 0 buf h) (\<lambda>(ret, h, buf). Inr (buf, h))"

text \<open>The scheduler switches to the virtual processors of a domain with these CR3s, one after the other.\<close>

definition guest_runs :: "u16 \<Rightarrow> u64 list \<Rightarrow> domain_table \<Rightarrow> domain_table result" where
  "guest_runs domid cs h =
     (case lookup_domain h domid of
        None \<Rightarrow> Inr h
      | Some d \<Rightarrow> bindR (sample_run cs d) (\<lambda>d'. Inr (store_domain d' h)))"

text \<open>The variables of \<open>main\<close> that live from one turn of its loop to the next.\<close>

record monitor =
  m_cr3_list :: "u64 list"
  m_list_size :: int
  data_map :: datamap
  global_round :: u64

text \<open>What the tool does not initialise and what it reads of the guest's memory.\<close>

record walk_env =
  e_junk :: "u64 \<Rightarrow> u64"
  e_junk_count :: u64
  e_foreign :: foreign_mem
  e_fresh :: "u64 \<Rightarrow> hash_table"
  e_blank :: hash_table

definition monitor_turn ::
  "(u64 \<Rightarrow> u64 list option) \<Rightarrow> u32 \<Rightarrow> walk_env \<Rightarrow> domain_table \<Rightarrow> monitor
     \<Rightarrow> (calc_result \<times> domain_table \<times> monitor) result" where
  "monitor_turn heap domID E h m =
     bindR (get_cr3_hypercall (drain_call heap domID) (m_cr3_list m) (m_list_size m) h) (\<lambda>(l, n, h).
       case monitor_round (e_junk E) (e_junk_count E) (e_foreign E) (e_fresh E) (e_blank E)
              (take (nat n) l) (data_map m, global_round m) of
         (r, dm, gr) \<Rightarrow> Inr (r, h, \<lparr>m_cr3_list = l, m_list_size = n, data_map = dm, global_round = gr\<rparr>))"

section \<open>Fetching\<close>

lemma clear_list_eq: "n \<le> length l \<Longrightarrow> clear_list n l = Inr (replicate n 0 @ drop n l)"
proof (induction n)
  case 0
  then show ?case by (simp add: clear_list_def)
next
  case (Suc n)
  then have "drop n l = l ! n # drop (Suc n) l" by (simp add: Cons_nth_drop_Suc)
  then show ?case
    using Suc by (simp add: clear_list_def for_loop_append list_update_append replicate_append_same)
qed

lemma clear_list_length: "clear_list n l = Inr l' \<Longrightarrow> length l' = length l"
  unfolding clear_list_def
  by (rule for_loop_invariant[where I = "\<lambda>x. length x = length l", rotated 2])
     (auto simp: arr_set_def split: if_splits)

lemma move_down_eq: "n < length (x # xs) \<Longrightarrow> move_down n (x # xs) = Inr (take n xs @ drop n (x # xs))"
proof (induction n)
  case 0
  then show ?case by (simp add: move_down_def)
next
  case (Suc n)
  then have m: "move_down n (x # xs) = Inr (take n xs @ drop n (x # xs))" by simp
  have d: "drop n (x # xs) = (x # xs) ! n # xs ! n # drop (Suc n) xs"
    using Suc.prems by (simp add: Cons_nth_drop_Suc[symmetric] del: drop_Suc_Cons) (metis Cons_nth_drop_Suc Suc_less_eq drop_Suc_Cons length_Cons)
  have l: "length (take n xs) = n" using Suc.prems by simp
  have "move_down (Suc n) (x # xs) = (case move_down n (x # xs) of Inl e \<Rightarrow> Inl e
     | Inr l \<Rightarrow> bindR (arr_get l (Suc n)) (\<lambda>v. arr_set l n v))"
    by (simp add: move_down_def for_loop_append del: upt_Suc) (simp add: upt_Suc for_loop_append split: sum.splits)
  also have "\<dots> = Inr (take n xs @ xs ! n # xs ! n # drop (Suc n) xs)"
    unfolding m d using l Suc.prems by (simp add: nth_append list_update_append)
  also have "take n xs @ xs ! n # xs ! n # drop (Suc n) xs = take (Suc n) xs @ drop (Suc n) (x # xs)"
    using Suc.prems by (simp add: take_Suc_conv_app_nth Cons_nth_drop_Suc)
  finally show ?case .
qed

lemma sint_count: "n < 2 ^ 31 \<Longrightarrow> sint (ucast (of_nat n :: u64) :: u32) = int n"
proof -
  assume n: "n < 2 ^ 31"
  then have "uint (ucast (of_nat n :: u64) :: u32) = int n"
    by (simp add: unsigned_ucast_eq unsigned_of_nat take_bit_nat_eq_self uint_nat)
  then show ?thesis using n by (simp only: sint_uint) (simp add: signed_take_bit_int_eq_self)
qed


text \<open>A domain the hypercalls can find: in the table and not being destroyed.\<close>

definition live :: "domain_table \<Rightarrow> u32 \<Rightarrow> domain \<Rightarrow> bool" where
  "live h domID d \<longleftrightarrow> lookup_domain h (ucast domID) = Some d \<and> refcnt d AND DOMAIN_DESTROYED = 0"

lemma sampling_refcnt [simp]:
  "sampling_cr3s (d\<lparr>refcnt := r\<rparr>) = sampling_cr3s d" "sampling_cap (d\<lparr>refcnt := r\<rparr>) = sampling_cap d"
  "sampling_inv (d\<lparr>refcnt := r\<rparr>) = sampling_inv d"
  by (simp_all add: sampling_inv_def sampling_cr3s_def sampling_cap_def)

lemma drain_call_live:
  assumes "live h domID d"
  obtains h1 where "lookup_domain h1 (ucast domID) = Some (d\<lparr>refcnt := refcnt d + 1\<rparr>)"
    "\<And>buf. drain_call heap domID buf h =
       bindR (vt_drain buf (d\<lparr>refcnt := refcnt d + 1\<rparr>)) (\<lambda>(d', lb). Inr (lb, store_domain d' h1))"
proof -
  obtain h1 where h1: "get_domain_by_id h (ucast domID) = Some (d\<lparr>refcnt := refcnt d + 1\<rparr>, h1)"
    "lookup_domain h1 (ucast domID) = Some (d\<lparr>refcnt := refcnt d + 1\<rparr>)"
    using get_domain_by_id_found[of h "ucast domID" d] assms by (auto simp: live_def)
  show thesis
  proof (rule that[OF h1(2)])
    show "drain_call heap domID buf h =
       bindR (vt_drain buf (d\<lparr>refcnt := refcnt d + 1\<rparr>)) (\<lambda>(d', lb). Inr (lb, store_domain d' h1))" for buf
      by (cases "vt_drain buf (d\<lparr>refcnt := refcnt d + 1\<rparr>)") (auto simp: drain_call_def do_vt_op_def h1(1))
  qed
qed

text \<open>The domain after a drain: the record is empty again and one more reference is held.\<close>

definition drained :: "domain \<Rightarrow> domain \<Rightarrow> bool" where
  "drained d d' \<longleftrightarrow> sampling_inv d' \<and> sampling_cr3s d' = [] \<and> sampling_cap d' = sampling_cap d \<and> refcnt d' = refcnt d + 1"

lemma drain_call_sampling:
  assumes "live h domID d" "sampling_inv d" "length (sampling_cr3s d) < length buf" "length buf < 2 ^ 31"
  shows "\<exists>h' d'. drain_call heap domID buf h = Inr (of_nat (length (sampling_cr3s d)) # sampling_cr3s d
       @ drop (Suc (length (sampling_cr3s d))) buf, h') \<and> lookup_domain h' (ucast domID) = Some d' \<and> drained d d'"
proof -
  let ?d = "d\<lparr>refcnt := refcnt d + 1\<rparr>"
  obtain h1 where h1: "lookup_domain h1 (ucast domID) = Some ?d"
    "\<And>buf. drain_call heap domID buf h = bindR (vt_drain buf ?d) (\<lambda>(d', lb). Inr (lb, store_domain d' h1))"
    using drain_call_live[OF assms(1)] by metis
  obtain d' where d': "vt_drain buf ?d = Inr (d', of_nat (length (sampling_cr3s d)) # sampling_cr3s d
       @ drop (Suc (length (sampling_cr3s d))) buf)" "sampling_inv d'" "sampling_cr3s d' = []" "sampling_cap d' = sampling_cap d"
    using vt_drain_sampling[of ?d buf] assms by auto
  have id: "domain_id d' = ucast domID" "refcnt d' = refcnt d + 1"
    using vt_ops_keep_identity(2)[OF d'(1)] lookup_domain_id[OF h1(1)] by auto
  then show ?thesis
    using h1(2)[of buf] lookup_store_domain[OF h1(1) id(1)] d' by (auto simp: drained_def)
qed

lemma drain_call_overflow:
  assumes "live h domID d" "sampling_inv d" "length buf \<le> length (sampling_cr3s d)"
  shows "drain_call heap domID buf h = Inl Out_of_bounds"
proof -
  have "vt_drain buf (d\<lparr>refcnt := refcnt d + 1\<rparr>) = Inl Out_of_bounds"
    using vt_drain_buffer_overflow[of "d\<lparr>refcnt := refcnt d + 1\<rparr>" buf] assms(2,3) by simp
  then show ?thesis using drain_call_live[OF assms(1)] by (metis bindR_simps(1))
qed

lemma fetch_eq:
  assumes "live h domID d" "sampling_inv d" "nat sz \<le> length buf" "length buf < 2 ^ 31"
  shows "length (sampling_cr3s d) + 2 < length buf \<Longrightarrow>
      \<exists>rest h' d'. get_cr3_hypercall (drain_call heap domID) buf sz h =
        Inr (sampling_cr3s d @ rest, int (length (sampling_cr3s d)), h') \<and>
        length (sampling_cr3s d @ rest) = length buf \<and> lookup_domain h' (ucast domID) = Some d' \<and> drained d d'"
    and "\<not> length (sampling_cr3s d) + 2 < length buf \<Longrightarrow>
      get_cr3_hypercall (drain_call heap domID) buf sz h = Inl Out_of_bounds"
proof -
  let ?xs = "sampling_cr3s d" and ?b = "replicate (nat sz) 0 @ drop (nat sz) buf"
  let ?n = "length ?xs" and ?r = "drop (Suc (length (sampling_cr3s d))) (replicate (nat sz) 0 @ drop (nat sz) buf)"
  have l: "length ?b = length buf" using assms(3) by simp
  note c = clear_list_eq[OF assms(3)]
  have ok: "\<exists>h' d'. drain_call heap domID ?b h = Inr (of_nat ?n # ?xs @ ?r, h') \<and>
      lookup_domain h' (ucast domID) = Some d' \<and> drained d d'" if "?n < length buf"
    by (rule drain_call_sampling[OF assms(1,2)]) (use that l assms(4) in simp_all)
  have m: "move_down ?n (of_nat ?n # ?xs @ ?r) = Inr (?xs @ drop ?n (of_nat ?n # ?xs @ ?r))" if "?n < length buf"
    by (subst move_down_eq) simp_all
  have s: "sint (ucast (of_nat ?n :: u64) :: u32) = int ?n" if "?n < length buf"
    by (rule sint_count) (use that assms(4) in simp)
  have len: "length (of_nat ?n # ?xs @ ?r) = length buf" if "?n < length buf" using that l
    by (simp only: length_Cons length_append length_drop)
  let ?l = "?xs @ drop ?n (of_nat ?n # ?xs @ ?r)"
  have ll: "length ?l = length buf" if "?n < length buf"
    using len[OF that] by (simp only: length_Cons length_append length_drop)
  have e: "\<exists>h' d'. get_cr3_hypercall (drain_call heap domID) buf sz h =
        bindR (arr_set ?l (?n + 2) 0) (\<lambda>l. Inr (l, int ?n, h')) \<and> lookup_domain h' (ucast domID) = Some d' \<and> drained d d'"
    if "?n < length buf"
  proof -
    from ok[OF that] obtain h' d' where h': "drain_call heap domID ?b h = Inr (of_nat ?n # ?xs @ ?r, h')"
      "lookup_domain h' (ucast domID) = Some d'" "drained d d'" by blast
    have "nat (max 1 (int ?n + 1) + 1) = ?n + 2" by simp
    then show ?thesis
      using h' s[OF that] m[OF that] by (intro exI[of _ h'] exI[of _ d']) (simp add: get_cr3_hypercall_def c Let_def)
  qed
  show "\<exists>rest h' d'. get_cr3_hypercall (drain_call heap domID) buf sz h =
        Inr (?xs @ rest, int ?n, h') \<and> length (?xs @ rest) = length buf \<and> lookup_domain h' (ucast domID) = Some d' \<and> drained d d'"
    if n: "?n + 2 < length buf"
  proof -
    have "?n < length buf" using n by simp
    note e = e[OF this] and ll = ll[OF this]
    have "arr_set ?l (?n + 2) 0 = Inr (?l[?n + 2 := 0])" by (simp only: arr_set_def ll n if_True)
    moreover have "?l[?n + 2 := 0] = ?xs @ (drop ?n (of_nat ?n # ?xs @ ?r))[2 := 0]"
      by (simp add: list_update_append)
    moreover have "length (?xs @ (drop ?n (of_nat ?n # ?xs @ ?r))[2 := 0]) = length buf" using ll by (simp only: length_append length_list_update)
    ultimately show ?thesis using e by (metis bindR_simps(2))
  qed
  show "get_cr3_hypercall (drain_call heap domID) buf sz h = Inl Out_of_bounds" if n: "\<not> ?n + 2 < length buf"
  proof (cases "?n < length buf")
    case True
    then have "arr_set ?l (?n + 2) 0 = Inl Out_of_bounds" by (simp only: arr_set_def ll[OF True] n if_False)
    then show ?thesis using e[OF True] by (metis bindR_simps(1))
  next
    case False
    then have "drain_call heap domID ?b h = Inl Out_of_bounds"
      using drain_call_overflow[OF assms(1,2), of ?b heap] l by simp
    then show ?thesis by (simp add: get_cr3_hypercall_def c)
  qed
qed


section \<open>A round, CR3 by CR3\<close>

lemma check_cr3_list_lookup:
  assumes "distinct cs" "map_wf m"
  shows "map_of (snd (check_cr3_list fresh m cs n)) c =
      (if c \<in> set cs
       then Some (case map_of m c of None \<Rightarrow> (fresh c)\<lparr>ht_h := [], ht_cr3 := c, change_page := 0\<rparr> | Some h \<Rightarrow> h\<lparr>check := 1\<rparr>)
       else map_of m c)"
    and "map_wf (snd (check_cr3_list fresh m cs n))"
proof -
  have "map_of (snd (check_cr3_list fresh m cs n)) c =
      (if c \<in> set cs
       then Some (case map_of m c of None \<Rightarrow> (fresh c)\<lparr>ht_h := [], ht_cr3 := c, change_page := 0\<rparr> | Some h \<Rightarrow> h\<lparr>check := 1\<rparr>)
       else map_of m c) \<and> map_wf (snd (check_cr3_list fresh m cs n))"
    using assms by (induction fresh m cs n rule: check_cr3_list.induct)
      (auto simp: check_cr3_def Let_def split: option.splits if_splits)
  then show "map_of (snd (check_cr3_list fresh m cs n)) c =
      (if c \<in> set cs
       then Some (case map_of m c of None \<Rightarrow> (fresh c)\<lparr>ht_h := [], ht_cr3 := c, change_page := 0\<rparr> | Some h \<Rightarrow> h\<lparr>check := 1\<rparr>)
       else map_of m c)" "map_wf (snd (check_cr3_list fresh m cs n))" by blast+
qed

text \<open>What the counting pass does to a table: pages of a marked table lose weight, the mark goes.\<close>

definition fade :: "(u64, mapData) std_map \<Rightarrow> (u64, mapData) std_map" where
  "fade h = map (\<lambda>(k, d). (k, d\<lparr>weight := decay (weight d)\<rparr>)) h"

definition counted :: "hash_table \<Rightarrow> hash_table \<Rightarrow> bool" where
  "counted h h' \<longleftrightarrow> check h' = 0 \<and> ht_round h' = ht_round h \<and>
     (if check h = 1 then ht_h h' = fade (ht_h h) else h' = h\<lparr>check := 0\<rparr>)"

lemma map_of_fade: "map_of (fade h) v = map_option (\<lambda>d. d\<lparr>weight := decay (weight d)\<rparr>) (map_of h v)"
  by (induction h) (auto simp: fade_def)

lemma map_wf_fade [simp]: "map_wf (fade h) = map_wf h"
  by (simp add: map_wf_def fade_def case_prod_beta comp_def)

lemma calculate_loop_counted:
  "calculate_loop m sw ss r = (m', rest) \<Longrightarrow> list_all2 (\<lambda>x y. fst x = fst y \<and> counted (snd x) (snd y)) m m'"
proof (induction m sw ss r arbitrary: m' rest rule: calculate_loop.induct)
  case (2 cr3 h m sw ss r)
  show ?case
  proof (cases "check h = 1")
    case False
    then have "counted h (h\<lparr>check := 0\<rparr>)" by (simp add: counted_def)
    then show ?thesis using False "2.prems" "2.IH"(2)[OF False] by (auto split: prod.splits)
  next
    case True
    obtain pages cs where p: "calc_pages (ht_h h) \<lparr>wks = sw, swp = ss, act0 = activity_page0 h, act1 = activity_page1 h\<rparr> = (pages, cs)"
      by (cases "calc_pages (ht_h h) \<lparr>wks = sw, swp = ss, act0 = activity_page0 h, act1 = activity_page1 h\<rparr>")
    have "counted h (h\<lparr>ht_h := pages, activity_page0 := act0 cs, activity_page1 := act1 cs, check := 0\<rparr>)"
      using calc_pages_eq(1)[OF p] True by (simp add: counted_def fade_def)
    then show ?thesis
      using "2.prems" True p "2.IH"(1)[OF True p[symmetric] refl refl] by (auto simp: Let_def split: prod.splits)
  qed
qed simp

lemma list_all2_map_of:
  assumes "list_all2 (\<lambda>x y. fst x = fst y \<and> R (snd x) (snd y)) m m'"
  shows "map fst m' = map fst m" "rel_option R (map_of m c) (map_of m' c)"
  using assms by (induction rule: list_all2_induct) auto

lemma calculate_all_page_counted:
  assumes "calculate_all_page m [] [] r = (n, m', sw, ss, r')"
  shows "map_wf m \<Longrightarrow> map_wf m'" "rel_option counted (map_of m c) (map_of m' c)"
proof -
  have "calculate_loop m [] [] r = (m', sw, ss, r')" using assms by (simp add: calculate_all_page_def)
  note a = list_all2_map_of[OF calculate_loop_counted[OF this]]
  show "map_wf m \<Longrightarrow> map_wf m'" using a(1) by (simp add: map_wf_def)
  show "rel_option counted (map_of m c) (map_of m' c)" by (rule a(2))
qed

lemma fold_visits_frame:
  "ht_round (fold (apply_visit junk) xs t) = ht_round t" "check (fold (apply_visit junk) xs t) = check t"
  by (induction xs arbitrary: t) (simp_all add: apply_visit_def)

text \<open>The records of a walked table.\<close>

lemma page_walk_table:
  assumes "readable foreign" "foreign (map_frame dtb) \<noteq> None" "map_wf (ht_h table)"
    and "t' = fst (snd (page_walk_ia32e junk jc foreign dtb table))"
  shows "map_wf (ht_h t')" "ht_round t' = ht_round table" "check t' = check table"
    "map_of (ht_h t') v = (case tool_leaf foreign dtb v of
        None \<Rightarrow> map_of (ht_h table) v | Some l \<Rightarrow> Some (page_update (junk v) (map_of (ht_h table) v) l))"
proof -
  let ?t = "table\<lparr>ht_count := 0, change_page := 0, activity_page0 := 0, activity_page1 := 0, total_valid_pages := 0\<rparr>"
  obtain n gw where w: "page_walk_ia32e junk jc foreign dtb table =
    (n, (fold (apply_visit junk) (visits foreign dtb) ?t)\<lparr>ht_count := n\<rparr>, gw)"
    using page_walk_fold[OF assms(1,2)] .
  have wf: "map_wf (ht_h ?t)" using assms(3) by simp
  have h: "ht_h ?t = ht_h table" by simp
  note f = fold_visits_lookup[OF wf distinct_visits, of junk foreign dtb, unfolded map_of_visits h]
  show "map_wf (ht_h t')" "ht_round t' = ht_round table" "check t' = check table"
    "map_of (ht_h t') v = (case tool_leaf foreign dtb v of
        None \<Rightarrow> map_of (ht_h table) v | Some l \<Rightarrow> Some (page_update (junk v) (map_of (ht_h table) v) l))"
    using f(2) f(1)[of v] fold_visits_frame[of junk "visits foreign dtb" ?t] unfolding assms(4) w by simp_all
qed

lemma walk_cr3_list_lookup:
  assumes "distinct cs" "map_wf m"
  shows "map_of (walk_cr3_list junk jc foreign blank m cs round) c =
      (if c \<in> set cs
       then let h = (case map_of m c of Some h \<Rightarrow> h | None \<Rightarrow> blank\<lparr>ht_h := []\<rparr>)\<lparr>ht_cr3 := c, check := 0, ht_round := round\<rparr>
            in Some (if c = KERNEL_CR3 then h else fst (snd (page_walk_ia32e junk jc foreign c h)))
       else map_of m c)"
    and "map_wf (walk_cr3_list junk jc foreign blank m cs round)"
proof -
  have "map_of (walk_cr3_list junk jc foreign blank m cs round) c =
      (if c \<in> set cs
       then let h = (case map_of m c of Some h \<Rightarrow> h | None \<Rightarrow> blank\<lparr>ht_h := []\<rparr>)\<lparr>ht_cr3 := c, check := 0, ht_round := round\<rparr>
            in Some (if c = KERNEL_CR3 then h else fst (snd (page_walk_ia32e junk jc foreign c h)))
       else map_of m c) \<and> map_wf (walk_cr3_list junk jc foreign blank m cs round)"
    using assms
  proof (induction cs arbitrary: m)
    case (Cons a cs)
    let ?h = "(case map_of m a of Some h \<Rightarrow> h | None \<Rightarrow> blank\<lparr>ht_h := []\<rparr>)\<lparr>ht_cr3 := a, check := 0, ht_round := round\<rparr>"
    let ?m = "map_put a (if a = KERNEL_CR3 then ?h else fst (snd (page_walk_ia32e junk jc foreign a ?h))) m"
    have "walk_cr3_list junk jc foreign blank m (a # cs) round = walk_cr3_list junk jc foreign blank ?m cs round"
      by (simp add: Let_def)
    moreover have "c \<noteq> a \<Longrightarrow> map_of ?m c = map_of m c" by simp
    moreover have "c = a \<Longrightarrow> c \<notin> set cs" using Cons.prems by simp
    ultimately show ?case using Cons.IH[of ?m] Cons.prems by (cases "c = a") (simp_all add: Let_def)
  qed simp
  then show "map_of (walk_cr3_list junk jc foreign blank m cs round) c =
      (if c \<in> set cs
       then let h = (case map_of m c of Some h \<Rightarrow> h | None \<Rightarrow> blank\<lparr>ht_h := []\<rparr>)\<lparr>ht_cr3 := c, check := 0, ht_round := round\<rparr>
            in Some (if c = KERNEL_CR3 then h else fst (snd (page_walk_ia32e junk jc foreign c h)))
       else map_of m c)"
    "map_wf (walk_cr3_list junk jc foreign blank m cs round)" by blast+
qed


section \<open>A turn of the tool\<close>

text \<open>
  The tables the tool keeps between turns: both levels of maps are sorted, no table is marked, and
  every table was walked in one of the last 20 rounds.
\<close>

definition tables_ok :: "datamap \<Rightarrow> u64 \<Rightarrow> bool" where
  "tables_ok dm round \<longleftrightarrow> map_wf dm \<and>
     (\<forall>c t. map_of dm c = Some t \<longrightarrow> map_wf (ht_h t) \<and> check t = 0 \<and> ht_round t < round \<and>
        unat round - unat (ht_round t) < 20)"

text \<open>The record of a page when the walk of its CR3 starts.\<close>

definition page_before :: "datamap \<Rightarrow> u64 \<Rightarrow> u64 \<Rightarrow> mapData option" where
  "page_before dm c v = (case map_of dm c of None \<Rightarrow> None | Some t \<Rightarrow> map_of (fade (ht_h t)) v)"

definition walked :: "walk_env \<Rightarrow> datamap \<Rightarrow> u64 \<Rightarrow> u64 \<Rightarrow> hash_table \<Rightarrow> bool" where
  "walked E dm round c t \<longleftrightarrow> ht_round t = round \<and> check t = 0 \<and> map_wf (ht_h t) \<and>
     (\<forall>v. map_of (ht_h t) v =
        (case if c = KERNEL_CR3 then None else tool_leaf (e_foreign E) c v of
           None \<Rightarrow> page_before dm c v
         | Some l \<Rightarrow> Some (page_update (e_junk E v) (page_before dm c v) l)))"

definition aged :: "u64 \<Rightarrow> hash_table option \<Rightarrow> hash_table option" where
  "aged round x = (case x of None \<Rightarrow> None | Some t \<Rightarrow> if 20 \<le> unat round - unat (ht_round t) then None else Some t)"

lemma unat_next: "r \<noteq> - 1 \<Longrightarrow> unat (r + 1 :: u64) = unat r + 1"
  using unatSuc[of r] by (metis Suc_eq_plus1 add.commute add_eq_0_iff2)

lemma walked_start:
  assumes "counted t0 t1"
    and "t0 = (case map_of dm c of None \<Rightarrow> fresh\<lparr>ht_h := [], ht_cr3 := c, change_page := 0\<rparr> | Some h \<Rightarrow> h\<lparr>check := 1\<rparr>)"
  shows "map_of (ht_h t1) v = page_before dm c v"
    "(\<forall>t. map_of dm c = Some t \<longrightarrow> map_wf (ht_h t)) \<Longrightarrow> map_wf (ht_h t1)"
  using assms fade_def[of "[]"] by (auto simp: counted_def page_before_def split: option.splits if_splits)

text \<open>The tables after the three passes over the CR3s of a round, before the ageing.\<close>

lemma round_tables:
  assumes dm: "tables_ok dm round" and cs: "distinct cs"
    and f: "readable (e_foreign E)" "\<forall>c\<in>set cs. e_foreign E (map_frame c) \<noteq> None"
    and m1: "m1 = snd (check_cr3_list (e_fresh E) dm cs 0)"
    and c2: "calculate_all_page m1 [] [] \<lparr>res0 = 0, res1 = 0, res2 = 0\<rparr> = (n, m2, sw, ss, r)"
    and m3: "m3 = walk_cr3_list (e_junk E) (e_junk_count E) (e_foreign E) (e_blank E) m2 cs round"
  shows "c \<in> set cs \<Longrightarrow> \<exists>t. map_of m3 c = Some t \<and> walked E dm round c t"
    and "c \<notin> set cs \<Longrightarrow> map_of m3 c = map_of dm c" and "map_wf m3"
proof -
  have wf: "map_wf dm" using dm by (simp add: tables_ok_def)
  note L1 = check_cr3_list_lookup[OF cs wf, of "e_fresh E" 0, folded m1]
  note L2 = calculate_all_page_counted[OF c2]
  note L3 = walk_cr3_list_lookup[OF cs L2(1)[OF L1(2)], of "e_junk E" "e_junk_count E" "e_foreign E" "e_blank E" round, folded m3]
  show "map_wf m3" by (rule L3(2))
  show "map_of m3 c = map_of dm c" if c: "c \<notin> set cs"
  proof (cases "map_of dm c")
    case None
    then show ?thesis using L3(1)[of c] L2(2)[of c] L1(1)[of c] c by (cases "map_of m2 c") auto
  next
    case (Some t)
    then have "check t = 0" using dm by (auto simp: tables_ok_def)
    then have "\<And>t'. counted t t' \<Longrightarrow> t' = t" by (simp add: counted_def)
    then show ?thesis using Some L3(1)[of c] L2(2)[of c] L1(1)[of c] c by (cases "map_of m2 c") auto
  qed
  show "\<exists>t. map_of m3 c = Some t \<and> walked E dm round c t" if c: "c \<in> set cs"
  proof -
    let ?t0 = "case map_of dm c of None \<Rightarrow> (e_fresh E c)\<lparr>ht_h := [], ht_cr3 := c, change_page := 0\<rparr> | Some h \<Rightarrow> h\<lparr>check := 1\<rparr>"
    obtain t1 where t1: "map_of m2 c = Some t1" "counted ?t0 t1"
      using L2(2)[of c] L1(1)[of c] c by (cases "map_of m2 c") auto
    note s = walked_start[OF t1(2) refl]
    let ?h = "t1\<lparr>ht_cr3 := c, check := 0, ht_round := round\<rparr>"
    have h: "map_wf (ht_h ?h)" "\<And>v. map_of (ht_h ?h) v = page_before dm c v"
      using s dm by (simp_all add: tables_ok_def)
    let ?t = "if c = KERNEL_CR3 then ?h else fst (snd (page_walk_ia32e (e_junk E) (e_junk_count E) (e_foreign E) c ?h))"
    have "e_foreign E (map_frame c) \<noteq> None" using f(2) c by blast
    note w = page_walk_table[OF f(1) this h(1) refl, of "e_junk E" "e_junk_count E", unfolded h(2)]
    have "walked E dm round c ?t" using h w by (cases "c = KERNEL_CR3") (simp_all add: walked_def)
    then show ?thesis using L3(1)[of c] c t1(1) by (simp add: Let_def)
  qed
qed

lemma monitor_round_ok:
  assumes dm: "tables_ok dm round" and cs: "distinct cs" and r: "round \<noteq> - 1"
    and f: "readable (e_foreign E)" "\<forall>c\<in>set cs. e_foreign E (map_frame c) \<noteq> None"
  shows "\<exists>r dm'. monitor_round (e_junk E) (e_junk_count E) (e_foreign E) (e_fresh E) (e_blank E) cs (dm, round) = (r, dm', round + 1) \<and>
    tables_ok dm' (round + 1) \<and> (\<forall>c\<in>set cs. \<exists>t. map_of dm' c = Some t \<and> walked E dm round c t) \<and>
    (\<forall>c. c \<notin> set cs \<longrightarrow> map_of dm' c = aged (round + 1) (map_of dm c))"
proof -
  define m1 where "m1 = snd (check_cr3_list (e_fresh E) dm cs 0)"
  obtain n m2 sw ss r where c2: "calculate_all_page m1 [] [] \<lparr>res0 = 0, res1 = 0, res2 = 0\<rparr> = (n, m2, sw, ss, r)"
    by (cases "calculate_all_page m1 [] [] \<lparr>res0 = 0, res1 = 0, res2 = 0\<rparr>")
  define m3 where "m3 = walk_cr3_list (e_junk E) (e_junk_count E) (e_foreign E) (e_blank E) m2 cs round"
  define dm' where "dm' = snd (retrieve_list m3 (round + 1))"
  have eq: "monitor_round (e_junk E) (e_junk_count E) (e_foreign E) (e_fresh E) (e_blank E) cs (dm, round) = (r, dm', round + 1)"
    unfolding monitor_round_def by (simp add: Let_def case_prod_beta m1_def[symmetric] c2 m3_def[symmetric] dm'_def)
  note T = round_tables[OF dm cs f m1_def c2 m3_def]
  have u: "unat (round + 1) = unat round + 1" by (rule unat_next[OF r])
  have rng: "ht_round t < round + 1 \<and> unat (round + 1) - unat (ht_round t) \<le> 20 \<and> map_wf (ht_h t) \<and> check t = 0"
    if t: "map_of m3 c = Some t" for c t
    using T(1,2)[of c] t dm u by (cases "c \<in> set cs") (fastforce simp: tables_ok_def walked_def word_less_nat_alt)+
  have pre: "\<forall>(c, h)\<in>set m3. ht_round h < round + 1 \<and> unat (round + 1) - unat (ht_round h) < 2 ^ 31"
  proof (intro ballI, clarify)
    fix c h assume "(c, h) \<in> set m3"
    then have "map_of m3 c = Some h" using map_wf_distinct[OF T(3)] by simp
    from rng[OF this] show "ht_round h < round + 1 \<and> unat (round + 1) - unat (ht_round h) < 2 ^ 31" by simp
  qed
  have a: "map_of dm' c = aged (round + 1) (map_of m3 c)" and wf': "map_wf dm'" for c
    using retrieve_list_eq[OF T(3) pre] by (auto simp: dm'_def aged_def)
  have "tables_ok dm' (round + 1)"
    unfolding tables_ok_def using wf' a rng by (auto simp: aged_def split: option.splits if_splits)
  moreover have "\<exists>t. map_of dm' c = Some t \<and> walked E dm round c t" if "c \<in> set cs" for c
    using T(1)[OF that] a[of c] u by (auto simp: aged_def walked_def)
  moreover have "map_of dm' c = aged (round + 1) (map_of dm c)" if "c \<notin> set cs" for c
    using a[of c] T(2)[OF that] by simp
  ultimately show ?thesis using eq by blast
qed

section \<open>Sampling in the domain table\<close>

lemma schedule_sample_identity:
  "schedule_sample c d = Inr d' \<Longrightarrow> domain_id d' = domain_id d \<and> refcnt d' = refcnt d"
  by (auto simp: schedule_sample_def bindR_Inr_iff split: if_splits)

lemma sample_run_identity:
  "sample_run cs d = Inr d' \<Longrightarrow> domain_id d' = domain_id d \<and> refcnt d' = refcnt d"
proof (induction cs arbitrary: d)
  case (Cons c cs)
  from Cons.prems obtain d1 where d1: "schedule_sample c d = Inr d1" "sample_run cs d1 = Inr d'"
    by (auto simp: bindR_Inr_iff)
  show ?case using schedule_sample_identity[OF d1(1)] Cons.IH[OF d1(2)] by simp
qed simp

lemma guest_runs_ok:
  assumes "live h domID d" "sampling_inv d" "sampling_cr3s d = []" "\<forall>c\<in>set cs. c \<noteq> 0" "card (set cs) \<le> sampling_cap d"
  shows "\<exists>h' d'. guest_runs (ucast domID) cs h = Inr h' \<and> live h' domID d' \<and> sampling_inv d' \<and>
    set (sampling_cr3s d') = set cs \<and> sampling_cap d' = sampling_cap d \<and> refcnt d' = refcnt d"
proof -
  obtain d' where d': "sample_run cs d = Inr d'" "sampling_inv d'" "sampling_cap d' = sampling_cap d"
    "set (sampling_cr3s d') = set cs"
    using sampler.note_all_complete[of d cs] assms by (auto simp: sample_run_note_all)
  note id = sample_run_identity[OF d'(1)]
  have l: "lookup_domain h (ucast domID) = Some d" using assms(1) by (simp add: live_def)
  have "domain_id d' = ucast domID" using id lookup_domain_id[OF l] by simp
  from lookup_store_domain[OF l this] show ?thesis
    using d' id l assms(1) by (auto simp: guest_runs_def live_def)
qed

lemma sampled_count: "sampling_inv d \<Longrightarrow> set (sampling_cr3s d) = set cs \<Longrightarrow> length (sampling_cr3s d) = card (set cs)"
  using distinct_card[of "sampling_cr3s d"] by (simp add: sampling_inv_def)

text \<open>
  Starting: when the heap happens to return a cleared array, the domain is sampled with an empty record of
  \<open>RECENT_CR3_SIZE\<close> entries.
\<close>

lemma init_hypercall_starts:
  assumes "live h domID d" "recent_cr3_size d = 0" "heap RECENT_CR3_SIZE = Some (replicate 50 0)"
  shows "\<exists>h' d'. init_hypercall heap domID RECENT_CR3_SIZE h = Inr (0, h') \<and> lookup_domain h' (ucast domID) = Some d' \<and>
    sampling_inv d' \<and> sampling_cr3s d' = [] \<and> sampling_cap d' = 50"
proof -
  let ?d = "d\<lparr>refcnt := refcnt d + 1\<rparr>"
  let ?d' = "?d\<lparr>recent_cr3_size := RECENT_CR3_SIZE, recent_cr3 := Some (replicate 50 0), sample_flag := 1\<rparr>"
  obtain h1 where h1: "get_domain_by_id h (ucast domID) = Some (?d, h1)" "lookup_domain h1 (ucast domID) = Some ?d"
    using get_domain_by_id_found[of h "ucast domID" d] assms(1) by (auto simp: live_def)
  have "xmalloc_array heap RECENT_CR3_SIZE = Some (replicate 50 0)"
    using assms(3) by (simp add: xmalloc_array_def RECENT_CR3_SIZE_def)
  then have "init_hypercall heap domID RECENT_CR3_SIZE h = Inr (0, store_domain ?d' h1)"
    using assms(2) by (simp add: init_hypercall_def do_vt_op_def h1(1) vt_init_def Let_def)
  moreover have "lookup_domain (store_domain ?d' h1) (ucast domID) = Some ?d'"
    by (rule lookup_store_domain[OF h1(2)]) (use lookup_domain_id[OF h1(2)] in simp)
  moreover have c: "sampling_cr3s ?d' = []" by (simp add: sampling_cr3s_def)
  moreover have k: "sampling_cap ?d' = 50" by (simp add: sampling_cap_def RECENT_CR3_SIZE_def)
  moreover have "sampling_inv ?d'" unfolding sampling_inv_def c k by simp
  ultimately show ?thesis by blast
qed

text \<open>A domain that is being sampled with room for three CR3s, and a tool about to take its first turn.\<close>

definition demo_sampled :: "u64 list \<Rightarrow> domain" where
  "demo_sampled cs = \<lparr>domain_id = 3, refcnt = 1, sample_flag = 1, recent_cr3_size = 3, recent_cr3 = Some cs\<rparr>"

definition demo_table :: "u64 list \<Rightarrow> domain_table" where
  "demo_table cs = (\<lambda>_. [])(3 := [demo_sampled cs])"

definition demo_hash_table :: hash_table where
  "demo_hash_table = \<lparr>ht_h = [], ht_cr3 = 0, ht_count = 0, change_page = 0, total_valid_pages = 0,
     activity_page0 = 0, activity_page1 = 0, ht_round = 0, check = 0\<rparr>"

definition demo_walk :: walk_env where
  "demo_walk = \<lparr>e_junk = (\<lambda>_. 0), e_junk_count = 0, e_foreign = demo_tables, e_fresh = (\<lambda>_. demo_hash_table), e_blank = demo_hash_table\<rparr>"

definition demo_monitor :: monitor where
  "demo_monitor = \<lparr>m_cr3_list = replicate 5 0, m_list_size = 0, data_map = [], global_round = 0\<rparr>"

lemma replicate_three: "replicate 3 x = [x, x, x]"
  by (simp add: numeral_3_eq_3)

lemma demo_live: "live (demo_table cs) 3 (demo_sampled cs)"
  by (simp add: live_def demo_table_def demo_sampled_def lookup_domain_def DOMAIN_HASH_def DOMAIN_DESTROYED_def)

section \<open>Properties\<close>

text \<open>
  C1. The monitor end to end: let the scheduler run a sampled domain with any sequence of non-zero CR3s, few
  enough for the record and for the buffer of the tool, and let the tool take a turn in which it can map the top
  table of each of them and no read of guest memory raises \<open>SIGBUS\<close>. Nothing faults, and afterwards the tool
  has a table for every CR3 that ran, stamped with this round. In it the record of every page that the tool looks at
  (\<open>tool_leaf\<close>: 4 KB entries but address 0, and user 2 MB pages) is updated once from the entry in the guest's
  tables, and every other record is as before but for the decay of its weight. CR3 \<open>0x187000\<close>, the Windows
  kernel, gets a stamp but is never walked. Tables of CR3s that did not run are as before, or forgotten when last
  walked 20 rounds ago; the record is empty again and the tables are ready for the next turn.
\<close>

theorem monitor_end_to_end:
  assumes "live h domID d" "sampling_inv d" "sampling_cr3s d = []" "\<forall>c\<in>set cs. c \<noteq> 0" "card (set cs) \<le> sampling_cap d"
    and "card (set cs) + 2 < length (m_cr3_list m)" "length (m_cr3_list m) < 2 ^ 31" "nat (m_list_size m) \<le> length (m_cr3_list m)"
    and "tables_ok (data_map m) (global_round m)" "global_round m \<noteq> - 1"
    and "readable (e_foreign E)" "\<forall>c\<in>set cs. e_foreign E (map_frame c) \<noteq> None"
  shows "\<exists>h1 r h2 d2 m'. guest_runs (ucast domID) cs h = Inr h1 \<and> monitor_turn heap domID E h1 m = Inr (r, h2, m') \<and>
    lookup_domain h2 (ucast domID) = Some d2 \<and> drained d d2 \<and>
    tables_ok (data_map m') (global_round m') \<and> global_round m' = global_round m + 1 \<and>
    (\<forall>c\<in>set cs. \<exists>t. map_of (data_map m') c = Some t \<and> walked E (data_map m) (global_round m) c t) \<and>
    (\<forall>c. c \<notin> set cs \<longrightarrow> map_of (data_map m') c = aged (global_round m') (map_of (data_map m) c))"
proof -
  obtain h1 d1 where h1: "guest_runs (ucast domID) cs h = Inr h1" "live h1 domID d1" "sampling_inv d1"
    "set (sampling_cr3s d1) = set cs" "sampling_cap d1 = sampling_cap d" "refcnt d1 = refcnt d"
    using guest_runs_ok[OF assms(1-5)] by blast
  let ?xs = "sampling_cr3s d1"
  have n: "length ?xs + 2 < length (m_cr3_list m)" using sampled_count[OF h1(3,4)] assms(6) by simp
  obtain rest h2 d2 where f: "get_cr3_hypercall (drain_call heap domID) (m_cr3_list m) (m_list_size m) h1 =
      Inr (?xs @ rest, int (length ?xs), h2)" "lookup_domain h2 (ucast domID) = Some d2" "drained d1 d2"
    using fetch_eq(1)[OF h1(2,3) assms(8,7) n] by blast
  have "distinct ?xs" using h1(3) by (simp add: sampling_inv_def)
  from monitor_round_ok[OF assms(9) this assms(10,11)] h1(4) assms(12)
  obtain r dm' where r: "monitor_round (e_junk E) (e_junk_count E) (e_foreign E) (e_fresh E) (e_blank E) ?xs
      (data_map m, global_round m) = (r, dm', global_round m + 1)" "tables_ok dm' (global_round m + 1)"
    "\<forall>c\<in>set cs. \<exists>t. map_of dm' c = Some t \<and> walked E (data_map m) (global_round m) c t"
    "\<forall>c. c \<notin> set cs \<longrightarrow> map_of dm' c = aged (global_round m + 1) (map_of (data_map m) c)" by auto
  let ?m = "\<lparr>m_cr3_list = ?xs @ rest, m_list_size = int (length ?xs), data_map = dm', global_round = global_round m + 1\<rparr>"
  have "monitor_turn heap domID E h1 m = Inr (r, h2, ?m)"
    by (simp add: monitor_turn_def f(1) r(1))
  moreover have "drained d d2" using f(3) h1(5,6) by (simp add: drained_def)
  ultimately show ?thesis using h1(1) f(2) r(2-4) by (intro exI[of _ h1] exI[of _ r] exI[of _ h2] exI[of _ d2] exI[of _ ?m]) simp
qed

lemma demo_page_before: "page_before (data_map demo_monitor) c v = None"
  by (simp add: page_before_def demo_monitor_def)

lemma demo_walked:
  assumes "walked demo_walk (data_map demo_monitor) (global_round demo_monitor) 0x5000 t"
  shows "map_of (ht_h t) 0x1000 = Some \<lparr>present_times = 1, weight = 1, paddr = push_bit 28 9\<rparr>"
    "map_of (ht_h t) 0x200000 = Some \<lparr>present_times = 1, weight = 1, paddr = push_bit 28 0x200 + 1\<rparr>"
    "map_of (ht_h t) 0x400000 = None"
proof -
  have k: "(0x5000 :: u64) \<noteq> KERNEL_CR3" by (simp add: KERNEL_CR3_def)
  have u: "page_update 0 None (1, 0, 9) = \<lparr>present_times = 1, weight = 1, paddr = push_bit 28 9\<rparr>"
    "page_update 0 None (1, 1, 0x200) = \<lparr>present_times = 1, weight = 1, paddr = push_bit 28 0x200 + 1\<rparr>"
    by code_simp+
  have e: "map_of (ht_h t) v = (case tool_leaf demo_tables 0x5000 v of None \<Rightarrow> None | Some l \<Rightarrow> Some (page_update 0 None l))" for v
    using assms k unfolding walked_def demo_page_before by (simp add: demo_walk_def split: option.splits)
  show "map_of (ht_h t) 0x1000 = Some \<lparr>present_times = 1, weight = 1, paddr = push_bit 28 9\<rparr>"
    "map_of (ht_h t) 0x200000 = Some \<lparr>present_times = 1, weight = 1, paddr = push_bit 28 0x200 + 1\<rparr>"
    "map_of (ht_h t) 0x400000 = None"
    by (simp_all only: e demo_leaves u option.case)
qed

theorem monitor_end_to_end_witness:
  "\<exists>h1 r h2 d2 m' t. guest_runs (ucast (3 :: u32)) [0x5000, 0x5000] (demo_table [0, 0, 0]) = Inr h1 \<and>
    monitor_turn (\<lambda>_. None) 3 demo_walk h1 demo_monitor = Inr (r, h2, m') \<and>
    lookup_domain h2 (ucast (3 :: u32)) = Some d2 \<and> drained (demo_sampled [0, 0, 0]) d2 \<and>
    tables_ok (data_map m') (global_round m') \<and> global_round m' = global_round demo_monitor + 1 \<and>
    map_of (data_map m') 0x5000 = Some t \<and>
    map_of (ht_h t) 0x1000 = Some \<lparr>present_times = 1, weight = 1, paddr = push_bit 28 9\<rparr> \<and>
    map_of (ht_h t) 0x200000 = Some \<lparr>present_times = 1, weight = 1, paddr = push_bit 28 0x200 + 1\<rparr> \<and>
    map_of (ht_h t) 0x400000 = None \<and> map_of (data_map m') 0x6000 = None"
proof -
  have s: "sampling_inv (demo_sampled [0, 0, 0])" "sampling_cr3s (demo_sampled [0, 0, 0]) = []"
    "card (set [0x5000, 0x5000 :: u64]) \<le> sampling_cap (demo_sampled [0, 0, 0])"
    by (simp_all add: sampling_inv_def sampling_cr3s_def sampling_cap_def demo_sampled_def replicate_three)
  have f: "readable (e_foreign demo_walk)" "\<forall>c\<in>set [0x5000, 0x5000]. e_foreign demo_walk (map_frame c) \<noteq> None"
    using demo_readable by (simp_all add: demo_walk_def)
  have m: "\<forall>c\<in>set [0x5000, 0x5000 :: u64]. c \<noteq> 0" "card (set [0x5000, 0x5000 :: u64]) + 2 < length (m_cr3_list demo_monitor)"
    "length (m_cr3_list demo_monitor) < 2 ^ 31" "nat (m_list_size demo_monitor) \<le> length (m_cr3_list demo_monitor)"
    "tables_ok (data_map demo_monitor) (global_round demo_monitor)" "global_round demo_monitor \<noteq> - 1"
    by (simp_all add: demo_monitor_def tables_ok_def)
  obtain h1 r h2 d2 m' where t: "guest_runs (ucast (3 :: u32)) [0x5000, 0x5000] (demo_table [0, 0, 0]) = Inr h1"
    "monitor_turn (\<lambda>_. None) 3 demo_walk h1 demo_monitor = Inr (r, h2, m')"
    "lookup_domain h2 (ucast (3 :: u32)) = Some d2" "drained (demo_sampled [0, 0, 0]) d2"
    "tables_ok (data_map m') (global_round m')" "global_round m' = global_round demo_monitor + 1"
    and w: "\<forall>c\<in>set [0x5000, 0x5000]. \<exists>t. map_of (data_map m') c = Some t \<and>
      walked demo_walk (data_map demo_monitor) (global_round demo_monitor) c t"
    and o: "\<forall>c. c \<notin> set [0x5000, 0x5000] \<longrightarrow> map_of (data_map m') c = aged (global_round m') (map_of (data_map demo_monitor) c)"
    using monitor_end_to_end[OF demo_live s(1,2) m(1) s(3) m(2-6) f, of "\<lambda>_. None"] by blast
  obtain t where "map_of (data_map m') 0x5000 = Some t"
    "walked demo_walk (data_map demo_monitor) (global_round demo_monitor) 0x5000 t" using w by auto
  moreover have "map_of (data_map m') 0x6000 = None" using o by (simp add: aged_def demo_monitor_def)
  ultimately show ?thesis using t demo_walked[of t] by blast
qed

text \<open>
  C6. The buffer of the tool: fetching the CR3s returns if and only if the buffer has more than two words
  beyond those the sampled CR3s need. The tool asks the hypervisor for as many CR3s as its buffer has words,
  so two processes fewer than it asked for already make it write outside the buffer.
\<close>

theorem cr3_buffer_bound:
  assumes "live h domID d" "sampling_inv d" "nat sz \<le> length buf" "length buf < 2 ^ 31"
  shows "(\<exists>x. get_cr3_hypercall (drain_call heap domID) buf sz h = Inr x) \<longleftrightarrow> length (sampling_cr3s d) + 2 < length buf"
proof (cases "length (sampling_cr3s d) + 2 < length buf")
  case True
  from fetch_eq(1)[OF assms this, of heap] True show ?thesis by blast
next
  case False
  from fetch_eq(2)[OF assms this, of heap] False show ?thesis by simp
qed

theorem cr3_buffer_bound_witness:
  "\<not> (\<exists>x. get_cr3_hypercall (drain_call (\<lambda>_. None) 3) (replicate 4 0) 0 (demo_table [7, 5, 0]) = Inr x)"
proof -
  have c: "sampling_cr3s (demo_sampled [7, 5, 0]) = [7, 5]" by (simp add: sampling_cr3s_def demo_sampled_def)
  have "sampling_inv (demo_sampled [7, 5, 0])"
    unfolding sampling_inv_def c by (simp add: sampling_cap_def demo_sampled_def)
  from cr3_buffer_bound[OF demo_live this, of 0 "replicate 4 0" "\<lambda>_. None"] c show ?thesis by simp
qed

end
