(* ===== verification/Rangeset.thy ===== *)
theory Rangeset
  imports Xen_Prelude
begin

text \<open>
  Sets of numeric ranges, \<open>common/rangeset.c\<close>: the structure behind the I/O port, interrupt and MMIO
  permissions of a domain, and behind the read-only MMIO ranges that the EPT code consults. A
  rangeset is an ascending linked list of inclusive ranges; the model keeps the list and lets a
  \<open>struct range *\<close> be an index into it (\<open>None\<close> is \<open>NULL\<close>), so that pointer comparisons, reads through
  \<open>NULL\<close> and frees are visible.
\<close>

section \<open>Data\<close>

record range =
  r_s :: u64
  r_e :: u64

record rangeset =
  owner :: "u16 option"
  range_list :: "range list"
  rs_name :: string
  flags :: u32

type_synonym range_ptr = "nat option"

section \<open>Private list functions\<close>

fun find_range_loop :: "range list \<Rightarrow> u64 \<Rightarrow> range_ptr \<Rightarrow> nat \<Rightarrow> range_ptr" where
  "find_range_loop [] s x i = x"
| "find_range_loop (y # ys) s x i =
     (if r_s y > s then x else find_range_loop ys s (Some i) (Suc i))"

definition find_range :: "range list \<Rightarrow> u64 \<Rightarrow> range_ptr" where
  "find_range r s = find_range_loop r s None 0"

definition first_range :: "range list \<Rightarrow> range_ptr" where
  "first_range r = (if r = [] then None else Some 0)"

definition next_range :: "range list \<Rightarrow> nat \<Rightarrow> range_ptr" where
  "next_range r x = (if Suc x < length r then Some (Suc x) else None)"

text \<open>Inserts behind \<open>x\<close>, or in front of everything; the result says where the new range is.\<close>

definition insert_range :: "range list \<Rightarrow> range_ptr \<Rightarrow> range \<Rightarrow> range list \<times> nat" where
  "insert_range r x y =
     (case x of None \<Rightarrow> (y # r, 0)
      | Some i \<Rightarrow> (take (Suc i) r @ y # drop (Suc i) r, Suc i))"

definition destroy_range :: "range list \<Rightarrow> nat \<Rightarrow> range list" where
  "destroy_range r x = take x r @ drop (Suc x) r"

text \<open>A pointer that the code dereferences.\<close>

definition deref :: "range_ptr \<Rightarrow> nat result" where
  "deref p = (case p of None \<Rightarrow> Inl Null_deref | Some i \<Rightarrow> Inr i)"

definition set_s :: "range list \<Rightarrow> nat \<Rightarrow> u64 \<Rightarrow> range list" where
  "set_s r i v = r[i := (r ! i)\<lparr>r_s := v\<rparr>]"

definition set_e :: "range list \<Rightarrow> nat \<Rightarrow> u64 \<Rightarrow> range list" where
  "set_e r i v = r[i := (r ! i)\<lparr>r_e := v\<rparr>]"

section \<open>Adding a range\<close>

definition ENOMEM :: int where
  "ENOMEM = 12"

text \<open>\<open>for (;;)\<close>: free the ranges behind \<open>x\<close> that end no later than \<open>x\<close>.\<close>

function absorb_loop :: "range list \<Rightarrow> nat \<Rightarrow> range list" where
  "absorb_loop r x =
     (case next_range r x of
        None \<Rightarrow> r
      | Some y \<Rightarrow> if r_e (r ! y) > r_e (r ! x) then r else absorb_loop (destroy_range r y) x)"
  by pat_completeness auto
termination
  by (relation "measure (\<lambda>(r, x). length r)")
    (auto simp: next_range_def destroy_range_def split: if_splits)

declare absorb_loop.simps [simp del]

text \<open>The merge with the next range that ends the operation.\<close>

definition merge_next :: "range list \<Rightarrow> nat \<Rightarrow> range list" where
  "merge_next r x =
     (case next_range r x of
        None \<Rightarrow> r
      | Some y \<Rightarrow> if r_e (r ! x) + 1 = r_s (r ! y)
                then destroy_range (set_e r x (r_e (r ! y))) y else r)"

text \<open>
  \<open>alloc\<close> says whether \<open>xmalloc\<close> succeeds. The result is the return code and the new list.
\<close>

definition add_range_locked :: "bool \<Rightarrow> range list \<Rightarrow> u64 \<Rightarrow> u64 \<Rightarrow> (int \<times> range list) result" where
  "add_range_locked alloc r s e =
     (let x = find_range r s; y = find_range r e
      in if x = y
         then (if x = None \<or> (r_e (r ! the x) < s \<and> r_e (r ! the x) + 1 \<noteq> s)
               then (if \<not> alloc then Inr (- ENOMEM, r)
                     else case insert_range r y \<lparr>r_s = s, r_e = e\<rparr> of
                            (r', x') \<Rightarrow> Inr (0, merge_next r' x'))
               else if r_e (r ! the x) < e
               then Inr (0, merge_next (set_e r (the x) e) (the x))
               else Inr (0, merge_next r (the x)))
         else bindR
           (if x = None
            then bindR (deref (first_range r)) (\<lambda>x'. Inr (set_s r x' s, x'))
            else if r_e (r ! the x) < s \<and> r_e (r ! the x) + 1 \<noteq> s
            then bindR (deref (next_range r (the x))) (\<lambda>x'. Inr (set_s r x' s, x'))
            else Inr (r, the x))
           (\<lambda>(r1, x1). bindR (deref y) (\<lambda>y1.
              let r2 = set_e r1 x1 (if r_e (r1 ! y1) > e then r_e (r1 ! y1) else e)
              in Inr (0, merge_next (absorb_loop r2 x1) x1))))"

definition rangeset_add_range ::
  "(rangeset \<Rightarrow> u64 \<Rightarrow> u64 \<Rightarrow> int) \<Rightarrow> bool \<Rightarrow> rangeset \<Rightarrow> u64 \<Rightarrow> u64 \<Rightarrow> (int \<times> rangeset) result" where
  "rangeset_add_range xsm_add_range alloc r s e =
     (let rc = xsm_add_range r s e
      in if rc \<noteq> 0 then Inr (rc, r)
         else if \<not> s \<le> e then Inl Assert_failed
         else bindR (add_range_locked alloc (range_list r) s e)
                (\<lambda>(rc, l). Inr (rc, r\<lparr>range_list := l\<rparr>)))"

section \<open>Removing a range\<close>

text \<open>
  \<open>while (x != y) { t = x; x = next_range(r, x); destroy_range(t); }\<close>: freeing \<open>t\<close> moves everything
  behind it down by one index. A loop that runs off the end of the list dereferences \<open>NULL\<close>.
\<close>

function remove_loop :: "range list \<Rightarrow> nat \<Rightarrow> nat \<Rightarrow> (range list \<times> nat) result" where
  "remove_loop r x y =
     (if x = y then Inr (r, x)
      else case next_range r x of
             None \<Rightarrow> Inl Null_deref
           | Some _ \<Rightarrow> remove_loop (destroy_range r x) x (if x < y then y - 1 else y))"
  by pat_completeness auto
termination
  by (relation "measure (\<lambda>(r, x, y). length r)")
    (auto simp: next_range_def destroy_range_def split: if_splits)

declare remove_loop.simps [simp del]

definition remove_range_locked :: "bool \<Rightarrow> range list \<Rightarrow> u64 \<Rightarrow> u64 \<Rightarrow> (int \<times> range list) result" where
  "remove_range_locked alloc r s e =
     (let x = find_range r s; y = find_range r e
      in if x = y
         then (if x = None \<or> r_e (r ! the x) < s then Inr (0, r)
               else let i = the x; rx = r ! i
                    in if r_s rx < s \<and> r_e rx > e
                       then (if \<not> alloc then Inr (- ENOMEM, r)
                             else Inr (0, fst (insert_range (set_e r i (s - 1)) (Some i)
                                                \<lparr>r_s = e + 1, r_e = r_e rx\<rparr>)))
                       else if r_s rx = s \<and> r_e rx \<le> e then Inr (0, destroy_range r i)
                       else if r_s rx = s then Inr (0, set_s r i (e + 1))
                       else if r_e rx \<le> e then Inr (0, set_e r i (s - 1))
                       else Inr (0, r))
         else bindR (deref (if x = None then first_range r else x)) (\<lambda>x0.
              bindR (if r_s (r ! x0) < s
                     then bindR (deref (next_range r x0)) (\<lambda>x1. Inr (set_e r x0 (s - 1), x1))
                     else Inr (r, x0)) (\<lambda>(r1, x1).
              bindR (deref y) (\<lambda>y1.
              bindR (remove_loop r1 x1 y1) (\<lambda>(r2, x2).
                let r3 = set_s r2 x2 (e + 1)
                in Inr (0, if r_s (r3 ! x2) > r_e (r3 ! x2) then destroy_range r3 x2 else r3))))))"

definition rangeset_remove_range ::
  "(rangeset \<Rightarrow> u64 \<Rightarrow> u64 \<Rightarrow> int) \<Rightarrow> bool \<Rightarrow> rangeset \<Rightarrow> u64 \<Rightarrow> u64 \<Rightarrow> (int \<times> rangeset) result" where
  "rangeset_remove_range xsm_remove_range alloc r s e =
     (let rc = xsm_remove_range r s e
      in if rc \<noteq> 0 then Inr (rc, r)
         else if \<not> s \<le> e then Inl Assert_failed
         else bindR (remove_range_locked alloc (range_list r) s e)
                (\<lambda>(rc, l). Inr (rc, r\<lparr>range_list := l\<rparr>)))"

section \<open>Queries\<close>

definition rangeset_contains_range :: "rangeset \<Rightarrow> u64 \<Rightarrow> u64 \<Rightarrow> bool result" where
  "rangeset_contains_range r s e =
     (if \<not> s \<le> e then Inl Assert_failed
      else case find_range (range_list r) s of
             None \<Rightarrow> Inr False
           | Some x \<Rightarrow> Inr (r_e (range_list r ! x) \<ge> e))"

definition rangeset_overlaps_range :: "rangeset \<Rightarrow> u64 \<Rightarrow> u64 \<Rightarrow> bool result" where
  "rangeset_overlaps_range r s e =
     (if \<not> s \<le> e then Inl Assert_failed
      else case find_range (range_list r) e of
             None \<Rightarrow> Inr False
           | Some x \<Rightarrow> Inr (s \<le> r_e (range_list r ! x)))"

text \<open>
  The callback threads its context \<open>ctxt\<close> and returns a code; a non-zero code ends the loop.
\<close>

function report_loop ::
  "(u64 \<Rightarrow> u64 \<Rightarrow> 'c \<Rightarrow> int \<times> 'c) \<Rightarrow> range list \<Rightarrow> range_ptr \<Rightarrow> u64 \<Rightarrow> u64 \<Rightarrow> int \<Rightarrow> 'c \<Rightarrow> int \<times> 'c"
  where
  "report_loop cb r x s e rc ctxt =
     (case x of
        None \<Rightarrow> (rc, ctxt)
      | Some i \<Rightarrow>
          if i < length r \<and> r_s (r ! i) \<le> e \<and> rc = 0
          then (if r_e (r ! i) \<ge> s
                then (case cb (max (r_s (r ! i)) s) (min (r_e (r ! i)) e) ctxt of
                        (rc', ctxt') \<Rightarrow> report_loop cb r (next_range r i) s e rc' ctxt')
                else report_loop cb r (next_range r i) s e rc ctxt)
          else (rc, ctxt))"
  by pat_completeness auto
termination
  by (relation "measure (\<lambda>(cb, r, x, s, e, rc, c). case x of None \<Rightarrow> 0 | Some i \<Rightarrow> Suc (length r) - i)")
    (auto simp: next_range_def split: option.splits if_splits)

declare report_loop.simps [simp del]

definition rangeset_report_ranges ::
  "rangeset \<Rightarrow> u64 \<Rightarrow> u64 \<Rightarrow> (u64 \<Rightarrow> u64 \<Rightarrow> 'c \<Rightarrow> int \<times> 'c) \<Rightarrow> 'c \<Rightarrow> int \<times> 'c" where
  "rangeset_report_ranges r s e cb ctxt =
     report_loop cb (range_list r) (find_range (range_list r) s) s e 0 ctxt"

definition rangeset_add_singleton ::
  "(rangeset \<Rightarrow> u64 \<Rightarrow> u64 \<Rightarrow> int) \<Rightarrow> bool \<Rightarrow> rangeset \<Rightarrow> u64 \<Rightarrow> (int \<times> rangeset) result" where
  "rangeset_add_singleton xsm alloc r s = rangeset_add_range xsm alloc r s s"

definition rangeset_remove_singleton ::
  "(rangeset \<Rightarrow> u64 \<Rightarrow> u64 \<Rightarrow> int) \<Rightarrow> bool \<Rightarrow> rangeset \<Rightarrow> u64 \<Rightarrow> (int \<times> rangeset) result" where
  "rangeset_remove_singleton xsm alloc r s = rangeset_remove_range xsm alloc r s s"

definition rangeset_contains_singleton :: "rangeset \<Rightarrow> u64 \<Rightarrow> bool result" where
  "rangeset_contains_singleton r s = rangeset_contains_range r s s"

definition rangeset_is_empty :: "rangeset option \<Rightarrow> bool" where
  "rangeset_is_empty r = (case r of None \<Rightarrow> True | Some r' \<Rightarrow> range_list r' = [])"

section \<open>The set a list of ranges stands for, and its invariant\<close>

definition elems :: "range list \<Rightarrow> u64 set" where
  "elems r = (\<Union>x\<in>set r. {r_s x..r_e x})"

text \<open>Two ranges in ascending order with at least one number between them.\<close>

definition before :: "range \<Rightarrow> range \<Rightarrow> bool" where
  "before x y \<longleftrightarrow> r_e x < r_s y \<and> r_e x + 1 \<noteq> r_s y"

definition wf_ranges :: "range list \<Rightarrow> bool" where
  "wf_ranges r \<longleftrightarrow> sorted_wrt before r \<and> (\<forall>x\<in>set r. r_s x \<le> r_e x)"

lemma elems_simps [simp]:
  "elems [] = {}"
  "elems (x # r) = {r_s x..r_e x} \<union> elems r"
  "elems (r1 @ r2) = elems r1 \<union> elems r2"
  by (auto simp: elems_def)

lemma wf_ranges_simps [simp]:
  "wf_ranges []"
  "wf_ranges (x # r) \<longleftrightarrow> r_s x \<le> r_e x \<and> (\<forall>y\<in>set r. before x y) \<and> wf_ranges r"
  by (auto simp: wf_ranges_def)

lemma wf_ranges_append [simp]:
  "wf_ranges (r1 @ r2) \<longleftrightarrow>
     wf_ranges r1 \<and> wf_ranges r2 \<and> (\<forall>x\<in>set r1. \<forall>y\<in>set r2. before x y)"
  by (auto simp: wf_ranges_def sorted_wrt_append)

section \<open>Pointers as list prefixes\<close>

definition last_ptr :: "range list \<Rightarrow> range_ptr" where
  "last_ptr r = (if r = [] then None else Some (length r - 1))"

lemma find_range_loop_eq:
  "find_range_loop r s x i =
     (if takeWhile (\<lambda>y. r_s y \<le> s) r = [] then x
      else Some (i + length (takeWhile (\<lambda>y. r_s y \<le> s) r) - 1))"
proof (induction r arbitrary: x i)
  case (Cons y ys)
  then show ?case by (auto simp: not_le)
qed simp

lemma find_range_eq: "find_range r s = last_ptr (takeWhile (\<lambda>y. r_s y \<le> s) r)"
  by (simp add: find_range_def find_range_loop_eq last_ptr_def)

lemma next_range_simps [simp]:
  "next_range (p @ [x]) (length p) = None"
  "next_range (p @ x # y # q) (length p) = Some (Suc (length p))"
  by (simp_all add: next_range_def)

lemma list_ops_append [simp]:
  "set_s (p @ x # q) (length p) v = p @ x\<lparr>r_s := v\<rparr> # q"
  "set_e (p @ x # q) (length p) v = p @ x\<lparr>r_e := v\<rparr> # q"
  "destroy_range (p @ x # q) (length p) = p @ q"
  "destroy_range (p @ x # y # q) (Suc (length p)) = p @ x # q"
  by (simp_all add: set_s_def set_e_def destroy_range_def)

lemma absorb_loop_eq:
  "absorb_loop (p @ x # q) (length p) = p @ x # dropWhile (\<lambda>y. r_e y \<le> r_e x) q"
proof (induction q)
  case Nil
  then show ?case by (subst absorb_loop.simps) simp
next
  case (Cons y q)
  then show ?case by (subst absorb_loop.simps) (simp add: nth_append not_less)
qed

lemma merge_next_eq:
  "merge_next (p @ x # q) (length p) =
     (case q of [] \<Rightarrow> p @ [x]
      | y # q' \<Rightarrow> if r_e x + 1 = r_s y then p @ x\<lparr>r_e := r_e y\<rparr> # q' else p @ x # q)"
  by (cases q) (simp_all add: merge_next_def nth_append)

lemma insert_range_eq:
  "insert_range r None y = (y # r, 0)"
  "insert_range (p @ x # q) (Some (length p)) y = (p @ x # y # q, Suc (length p))"
  by (simp_all add: insert_range_def)

text \<open>The three parts of the list that an operation on \<open>[s, e]\<close> distinguishes.\<close>

lemma split_ranges:
  assumes "wf_ranges r" "s \<le> e"
  obtains A M B where "r = A @ M @ B" "find_range r s = last_ptr A" "find_range r e = last_ptr (A @ M)"
    "\<forall>x\<in>set A. r_s x \<le> s" "\<forall>x\<in>set M. s < r_s x \<and> r_s x \<le> e" "\<forall>x\<in>set B. e < r_s x"
proof -
  define A where "A = takeWhile (\<lambda>y. r_s y \<le> s) r"
  define R where "R = dropWhile (\<lambda>y. r_s y \<le> s) r"
  define M where "M = takeWhile (\<lambda>y. r_s y \<le> e) R"
  define B where "B = dropWhile (\<lambda>y. r_s y \<le> e) R"
  have r: "r = A @ R" "R = M @ B" by (simp_all add: A_def R_def M_def B_def)
  have A: "\<forall>x\<in>set A. r_s x \<le> s" by (auto simp: A_def dest: set_takeWhileD)
  have up: "wf_ranges (x # q) \<Longrightarrow> s' < r_s x \<Longrightarrow> \<forall>y\<in>set (x # q). s' < r_s y" for x q s'
    by (auto simp: before_def)
  have R: "\<forall>x\<in>set R. s < r_s x"
  proof (cases R)
    case (Cons x q)
    then have "s < r_s x" using hd_dropWhile[of "\<lambda>y. r_s y \<le> s" r] by (auto simp: R_def)
    moreover have "wf_ranges (x # q)" using assms(1) r Cons by (metis wf_ranges_append)
    ultimately show ?thesis using up Cons by metis
  qed simp
  have B: "\<forall>x\<in>set B. e < r_s x"
  proof (cases B)
    case (Cons x q)
    then have "e < r_s x" using hd_dropWhile[of "\<lambda>y. r_s y \<le> e" R] by (auto simp: B_def)
    moreover have "wf_ranges (x # q)" using assms(1) r Cons by (metis wf_ranges_append)
    ultimately show ?thesis using up Cons by metis
  qed simp
  have M: "\<forall>x\<in>set M. s < r_s x \<and> r_s x \<le> e"
  proof -
    have "\<forall>x\<in>set M. r_s x \<le> e" by (auto simp: M_def dest: set_takeWhileD)
    moreover have "set M \<subseteq> set R" by (auto simp: M_def dest: set_takeWhileD)
    ultimately show ?thesis using R by blast
  qed
  have "takeWhile (\<lambda>y. r_s y \<le> e) (A @ R) = A @ M"
    using A assms(2) by (auto simp: takeWhile_append M_def)
  then have "find_range r e = last_ptr (A @ M)" by (simp only: find_range_eq r(1))
  moreover have "find_range r s = last_ptr A" by (simp only: find_range_eq A_def)
  moreover have "r = A @ M @ B" by (simp only: r(1) flip: r(2))
  ultimately show thesis using that[of A M B] A M B by blast
qed


section \<open>Correctness of adding\<close>

text \<open>
  All paths of the operation end the same way: a range \<open>x\<close> stands between a part \<open>p\<close> that lies below
  it with a gap and a part \<open>q\<close> that lies above it, and the final merge closes a missing gap.
\<close>

lemma merge_next_correct:
  assumes "wf_ranges p" "wf_ranges q" "r_s x \<le> r_e x" "\<forall>y\<in>set p. before y x"
    and "\<forall>y\<in>set q. r_e x < r_s y"
  shows "wf_ranges (merge_next (p @ x # q) (length p))"
    and "elems (merge_next (p @ x # q) (length p)) = elems p \<union> {r_s x..r_e x} \<union> elems q"
proof -
  have pq: "before y z" if "y \<in> set p" "z \<in> set q" for y z
  proof -
    have "before y x" "r_e x < r_s z" using assms(4,5) that by auto
    then show ?thesis using assms(3) word_less_plus1_le[of "r_e y" "r_s x" "r_s x"]
      by (auto simp: before_def)
  qed
  show "wf_ranges (merge_next (p @ x # q) (length p))"
  proof (cases q)
    case Nil
    then show ?thesis using assms by (simp add: merge_next_eq)
  next
    case (Cons y q')
    then have "\<forall>z\<in>set q'. r_e x + 1 < r_s z"
      using assms word_less_plus1_le[of "r_e x" "r_s y" "r_s y"]
      by (fastforce simp: before_def)
    with Cons show ?thesis
      using assms pq by (auto simp: merge_next_eq before_def)
  qed
  show "elems (merge_next (p @ x # q) (length p)) = elems p \<union> {r_s x..r_e x} \<union> elems q"
  proof (cases q)
    case Nil
    then show ?thesis by (simp add: merge_next_eq)
  next
    case (Cons y q')
    have join: "{r_s x..r_e y} = {r_s x..r_e x} \<union> {r_s y..r_e y}" if "r_e x + 1 = r_s y"
    proof -
      have lt: "r_e x < r_s y" "r_s y \<le> r_e y" using assms Cons by auto
      show ?thesis
        using word_less_plus1_le[OF lt(1), unfolded that] lt assms(3) by fastforce
    qed
    then show ?thesis using Cons by (auto simp: merge_next_eq)
  qed
qed

lemma dropWhile_below:
  assumes "wf_ranges q" "\<forall>y\<in>set m. r_e y \<le> v" "\<forall>y\<in>set q. v < r_s y"
  shows "dropWhile (\<lambda>y. r_e y \<le> v) (m @ q) = q"
proof -
  have "dropWhile (\<lambda>y. r_e y \<le> v) q = q"
  proof (cases q)
    case (Cons y q')
    then have "v < r_e y" using assms by auto
    then show ?thesis using Cons by simp
  qed simp
  then show ?thesis using assms(2) by (simp add: dropWhile_append)
qed

text \<open>Swallowing the ranges \<open>m\<close> that start inside the added range.\<close>

lemma absorb_merge_correct:
  assumes "wf_ranges p" "wf_ranges (m @ b)" "s' \<le> v" "\<forall>y\<in>set p. before y \<lparr>r_s = s', r_e = v\<rparr>"
    and "\<forall>y\<in>set m. s' \<le> r_s y \<and> r_e y \<le> v" "\<forall>y\<in>set b. v < r_s y"
  shows "\<exists>l. merge_next (absorb_loop (p @ \<lparr>r_s = s', r_e = v\<rparr> # m @ b) (length p)) (length p) = l \<and>
    wf_ranges l \<and> elems l = elems p \<union> {s'..v} \<union> elems m \<union> elems b"
proof -
  have "dropWhile (\<lambda>y. r_e y \<le> v) (m @ b) = b"
    using dropWhile_below[of b m v] assms by auto
  then have l: "absorb_loop (p @ \<lparr>r_s = s', r_e = v\<rparr> # m @ b) (length p) = p @ \<lparr>r_s = s', r_e = v\<rparr> # b"
    by (simp add: absorb_loop_eq)
  have "elems m \<subseteq> {s'..v}" using assms(5) by (fastforce simp: elems_def)
  then show ?thesis
    using merge_next_correct[of p b "\<lparr>r_s = s', r_e = v\<rparr>"] assms l by auto
qed

lemma last_ptr_simps [simp]:
  "last_ptr [] = None"
  "last_ptr (p @ [x]) = Some (length p)"
  "last_ptr p = last_ptr (p @ m) \<longleftrightarrow> m = []"
  "last_ptr (p @ m) = last_ptr p \<longleftrightarrow> m = []"
  by (cases p; auto simp: last_ptr_def)+

lemma last_ptr_Cons: "last_ptr (p @ x # m) = Some (length p + length m)"
  by (simp add: last_ptr_def)

lemma range_upd:
  "(x :: range)\<lparr>r_s := s\<rparr> = \<lparr>r_s = s, r_e = r_e x\<rparr>"
  "(x :: range)\<lparr>r_e := v\<rparr> = \<lparr>r_s = r_s x, r_e = v\<rparr>"
  by simp_all

lemma list_ops_append2 [simp]:
  "set_s (p @ x # y # q) (Suc (length p)) v = p @ x # y\<lparr>r_s := v\<rparr> # q"
  "set_e (p @ x # y # q) (Suc (length p)) v = p @ x # y\<lparr>r_e := v\<rparr> # q"
  using list_ops_append(1,2)[of "p @ [x]" y q v] by simp_all

lemma nth_last_block: "(p @ x # m @ b) ! (length p + length m) = last (x # m)"
  by (cases m rule: rev_cases) (simp_all add: nth_append)

lemma wf_ranges_last:
  assumes "wf_ranges (x # m)" "y \<in> set (x # m)"
  shows "r_e y \<le> r_e (last (x # m))"
  using assms
proof (induction m arbitrary: x y)
  case Nil
  then show ?case by simp
next
  case (Cons z m)
  have xz: "r_e x \<le> r_e z" using Cons.prems(1) by (auto simp: before_def)
  have z: "r_e z \<le> r_e (last (z # m))" using Cons.IH[of z z] Cons.prems by simp
  show ?case
  proof (cases "y = x")
    case True
    then show ?thesis using xz z by (simp only: last_ConsR list.distinct) simp
  next
    case False
    then show ?thesis using Cons.IH[of z y] Cons.prems by simp
  qed
qed

lemma before_shift:
  assumes "before y x" "r_s x \<le> r_e x" "r_e x < s"
  shows "before y \<lparr>r_s = s, r_e = v\<rparr>"
proof -
  have "r_e y < r_s x" "r_e y + 1 \<le> r_s x"
    using assms(1) word_less_plus1_le[of "r_e y" "r_s x" "r_s x"] by (auto simp: before_def)
  then show ?thesis using assms by (auto simp: before_def)
qed

lemma add_range_same:
  assumes wf: "wf_ranges (A @ B)" and se: "s \<le> e"
    and f: "find_range (A @ B) s = last_ptr A" "find_range (A @ B) e = last_ptr A"
    and A: "\<forall>x\<in>set A. r_s x \<le> s" and B: "\<forall>x\<in>set B. e < r_s x"
  shows "\<exists>rc l. add_range_locked alloc (A @ B) s e = Inr (rc, l) \<and> wf_ranges l \<and>
    (rc = 0 \<and> elems l = elems (A @ B) \<union> {s..e} \<or> rc = - ENOMEM \<and> \<not> alloc \<and> l = A @ B)"
proof (cases A rule: rev_cases)
  case Nil
  let ?n = "\<lparr>r_s = s, r_e = e\<rparr>"
  have l: "wf_ranges (merge_next (?n # B) 0)" "elems (merge_next (?n # B) 0) = {s..e} \<union> elems B"
    using merge_next_correct[of "[]" B ?n] wf se B Nil by simp_all
  show ?thesis
    using f Nil l wf by (cases alloc) (simp_all add: add_range_locked_def insert_range_eq Un_commute)
next
  case (snoc p x)
  let ?n = "\<lparr>r_s = s, r_e = e\<rparr>"
  have x: "r_s x \<le> s" "r_s x \<le> r_e x" "wf_ranges p" "wf_ranges B" "\<forall>y\<in>set p. before y x"
    "\<forall>y\<in>set B. before x y"
    using A wf snoc by auto
  have fp: "find_range (p @ x # B) s = Some (length p)" "find_range (p @ x # B) e = Some (length p)"
    using f snoc by simp_all
  consider (gap) "r_e x < s" "r_e x + 1 \<noteq> s" | (ext) "\<not> (r_e x < s \<and> r_e x + 1 \<noteq> s)" "r_e x < e"
    | (inside) "\<not> (r_e x < s \<and> r_e x + 1 \<noteq> s)" "e \<le> r_e x" by force
  then show ?thesis
  proof cases
    case gap
    have px: "wf_ranges (p @ [x])" "\<forall>y\<in>set (p @ [x]). before y ?n"
      using x gap before_shift[of _ x s e] by (auto simp: before_def)
    have l: "wf_ranges (merge_next (p @ x # ?n # B) (Suc (length p)))"
      "elems (merge_next (p @ x # ?n # B) (Suc (length p))) = elems (p @ [x]) \<union> {s..e} \<union> elems B"
      using merge_next_correct[of "p @ [x]" B ?n] px x se B by simp_all
    show ?thesis
      using fp gap l wf snoc
      by (cases alloc) (auto simp: add_range_locked_def insert_range_eq)
  next
    case ext
    have l: "wf_ranges (merge_next (p @ x\<lparr>r_e := e\<rparr> # B) (length p))"
      "elems (merge_next (p @ x\<lparr>r_e := e\<rparr> # B) (length p)) = elems p \<union> {r_s x..e} \<union> elems B"
      using merge_next_correct[of p B "x\<lparr>r_e := e\<rparr>"] x se B ext by (auto simp: before_def)
    have "{r_s x..e} = {r_s x..r_e x} \<union> {s..e}"
    proof -
      have "s \<le> r_e x \<or> r_e x + 1 = s" using ext by auto
      then show ?thesis
        using ext(2) x(1,2) word_less_plus1_le[OF ext(2)] by fastforce
    qed
    then show ?thesis
      using fp ext l snoc by (auto simp: add_range_locked_def)
  next
    case inside
    have l: "wf_ranges (merge_next (p @ x # B) (length p))"
      "elems (merge_next (p @ x # B) (length p)) = elems p \<union> {r_s x..r_e x} \<union> elems B"
      using merge_next_correct[of p B x] x by (auto simp: before_def)
    have "{s..e} \<subseteq> {r_s x..r_e x}" using inside x(1) by auto
    then have "elems (merge_next (p @ x # B) (length p)) = elems (p @ x # B) \<union> {s..e}"
      unfolding l(2) by auto
    moreover have "add_range_locked alloc (p @ x # B) s e = Inr (0, merge_next (p @ x # B) (length p))"
      using fp inside by (auto simp: add_range_locked_def Let_def)
    ultimately show ?thesis using l(1) by (simp add: snoc)
  qed
qed

lemma add_range_across:
  assumes wf: "wf_ranges (A @ m # M @ B)" and se: "s \<le> e"
    and f: "find_range (A @ m # M @ B) s = last_ptr A"
      "find_range (A @ m # M @ B) e = last_ptr (A @ m # M)"
    and A: "\<forall>x\<in>set A. r_s x \<le> s" and M: "\<forall>x\<in>set (m # M). s < r_s x \<and> r_s x \<le> e"
    and B: "\<forall>x\<in>set B. e < r_s x"
  shows "\<exists>l. add_range_locked alloc (A @ m # M @ B) s e = Inr (0, l) \<and> wf_ranges l \<and>
    elems l = elems (A @ m # M @ B) \<union> {s..e}"
proof -
  define v where "v = (if e < r_e (last (m # M)) then r_e (last (m # M)) else e)"
  have ev: "e \<le> v" by (auto simp: v_def)
  have wM: "wf_ranges (m # M)" using wf by simp
  have Mv: "\<forall>y\<in>set (m # M). r_e y \<le> v"
    using wf_ranges_last[OF wM] by (fastforce simp: v_def)
  have Bv: "\<forall>y\<in>set B. v < r_s y"
  proof -
    have "\<forall>y\<in>set B. before (last (m # M)) y" using wf last_in_set[of "m # M"] by auto
    then show ?thesis using B by (auto simp: v_def before_def)
  qed
  have vin: "{e..v} \<subseteq> {e} \<union> elems (m # M)"
  proof (cases "e < r_e (last (m # M))")
    case True
    have "last (m # M) \<in> set (m # M)" by (rule last_in_set) simp
    then have "{e..v} \<subseteq> {r_s (last (m # M))..r_e (last (m # M))}"
      using True M by (fastforce simp: v_def)
    also have "\<dots> \<subseteq> elems (m # M)"
      using \<open>last (m # M) \<in> set (m # M)\<close> by (fastforce simp: elems_def)
    finally show ?thesis by blast
  qed (simp add: v_def)
  have sv: "{s..v} \<subseteq> {s..e} \<union> elems (m # M)" "{s..e} \<subseteq> {s..v}"
  proof -
    have "{s..v} \<subseteq> {s..e} \<union> {e..v}" using linear by fastforce
    then show "{s..v} \<subseteq> {s..e} \<union> elems (m # M)" using vin se by fastforce
    show "{s..e} \<subseteq> {s..v}" using ev by fastforce
  qed
  have M2: "\<forall>y\<in>set (m # M). s \<le> r_s y \<and> r_e y \<le> v" using M Mv by auto
  show ?thesis
  proof (cases A rule: rev_cases)
    case Nil
    have eq: "add_range_locked alloc (A @ m # M @ B) s e =
      Inr (0, merge_next (absorb_loop ([] @ \<lparr>r_s = s, r_e = v\<rparr> # M @ B) (length [])) (length []))"
      using f Nil nth_last_block[of "[]" "m\<lparr>r_s := s\<rparr>" M B]
      by (cases M rule: rev_cases)
        (simp_all add: add_range_locked_def last_ptr_def deref_def first_range_def set_s_def set_e_def v_def range_upd)
    obtain l where "merge_next (absorb_loop ([] @ \<lparr>r_s = s, r_e = v\<rparr> # M @ B) (length [])) (length []) = l"
      "wf_ranges l" "elems l = elems [] \<union> {s..v} \<union> elems M \<union> elems B"
      using absorb_merge_correct[of "[]" M B s v] wf se ev M2 Bv by auto
    moreover have "{r_s m..r_e m} \<subseteq> {s..v}" using M2 by auto
    ultimately show ?thesis using eq sv Nil by auto
  next
    case (snoc p x)
    have x: "r_s x \<le> s" "r_s x \<le> r_e x" "wf_ranges p" "\<forall>y\<in>set p. before y x"
      "wf_ranges (M @ B)" "wf_ranges ((m # M) @ B)"
      using A wf snoc by auto
    have fp: "find_range (p @ x # m # M @ B) s = Some (length p)"
      "find_range (p @ x # m # M @ B) e = Some (Suc (length p) + length M)"
      using f snoc by (simp_all add: last_ptr_def)
    show ?thesis
    proof (cases "r_e x < s \<and> r_e x + 1 \<noteq> s")
      case True
      have px: "wf_ranges (p @ [x])" "\<forall>y\<in>set (p @ [x]). before y \<lparr>r_s = s, r_e = v\<rparr>"
        using x True before_shift[of _ x s v] by (auto simp: before_def)
      have eq: "add_range_locked alloc (A @ m # M @ B) s e =
        Inr (0, merge_next (absorb_loop ((p @ [x]) @ \<lparr>r_s = s, r_e = v\<rparr> # M @ B) (length (p @ [x])))
                  (length (p @ [x])))"
        using fp snoc True nth_last_block[of "p @ [x]" "m\<lparr>r_s := s\<rparr>" M B]
        by (cases M rule: rev_cases)
          (simp_all add: add_range_locked_def deref_def v_def nth_append range_upd)
      obtain l where "merge_next (absorb_loop ((p @ [x]) @ \<lparr>r_s = s, r_e = v\<rparr> # M @ B) (length (p @ [x])))
           (length (p @ [x])) = l"
        "wf_ranges l" "elems l = elems (p @ [x]) \<union> {s..v} \<union> elems M \<union> elems B"
        using absorb_merge_correct[of "p @ [x]" M B s v] px x se ev M2 Bv by auto
      moreover have "{r_s m..r_e m} \<subseteq> {s..v}" using M2 by auto
      ultimately show ?thesis using eq sv snoc by auto
    next
      case False
      have eq: "add_range_locked alloc (A @ m # M @ B) s e =
        Inr (0, merge_next (absorb_loop (p @ \<lparr>r_s = r_s x, r_e = v\<rparr> # (m # M) @ B) (length p)) (length p))"
        using fp snoc nth_last_block[of "p @ [x]" m M B]
        by (simp add: add_range_locked_def Let_def if_not_P[OF False] deref_def v_def range_upd)
      have Mx: "\<forall>y\<in>set (m # M). r_s x \<le> r_s y \<and> r_e y \<le> v" "r_s x \<le> v"
        using M2 x se ev by auto
      obtain l where "merge_next (absorb_loop (p @ \<lparr>r_s = r_s x, r_e = v\<rparr> # (m # M) @ B) (length p))
           (length p) = l"
        "wf_ranges l" "elems l = elems p \<union> {r_s x..v} \<union> elems (m # M) \<union> elems B"
        using absorb_merge_correct[of p "m # M" B "r_s x" v] x Mx Bv by (auto simp: before_def)
      moreover have "{r_s x..v} \<union> elems (m # M) = {r_s x..r_e x} \<union> {s..e} \<union> elems (m # M)"
      proof -
        have rx: "r_e x < r_s m" using wf snoc by (auto simp: before_def)
        then have "r_e x \<le> v" using M ev by auto
        then have sup: "{r_s x..r_e x} \<union> {s..e} \<subseteq> {r_s x..v}" using x ev by auto
        have "t \<in> {r_s x..r_e x} \<union> {s..v}" if t: "t \<in> {r_s x..v}" for t
        proof (cases "t \<le> r_e x")
          case True
          then show ?thesis using t by simp
        next
          case nle: False
          then have "r_e x + 1 \<le> t" using word_less_plus1_le[OF rx] by simp
          then have "s \<le> t" using False nle by force
          then show ?thesis using t by simp
        qed
        then show ?thesis using sup sv(1) by blast
      qed
      ultimately show ?thesis using eq sv snoc by auto
    qed
  qed
qed


lemma add_range_locked_correct:
  assumes "wf_ranges r" "s \<le> e"
  shows "\<exists>rc l. add_range_locked alloc r s e = Inr (rc, l) \<and> wf_ranges l \<and>
    (rc = 0 \<and> elems l = elems r \<union> {s..e} \<or> rc = - ENOMEM \<and> \<not> alloc \<and> l = r)"
proof -
  obtain A M B where d: "r = A @ M @ B" "find_range r s = last_ptr A" "find_range r e = last_ptr (A @ M)"
    "\<forall>x\<in>set A. r_s x \<le> s" "\<forall>x\<in>set M. s < r_s x \<and> r_s x \<le> e" "\<forall>x\<in>set B. e < r_s x"
    using split_ranges[OF assms] .
  show ?thesis
  proof (cases M)
    case Nil
    then show ?thesis using add_range_same[of A B s e alloc] d assms by simp
  next
    case (Cons m M')
    then show ?thesis using add_range_across[of A m M' B s e alloc] d assms by auto
  qed
qed

lemma add_range_alloc_ok:
  assumes "wf_ranges r" "s \<le> e"
  shows "\<exists>l. add_range_locked True r s e = Inr (0, l) \<and> wf_ranges l \<and> elems l = elems r \<union> {s..e}"
  using add_range_locked_correct[OF assms, of True] by (auto simp: ENOMEM_def)

section \<open>Correctness of removing\<close>

lemma remove_loop_eq:
  "remove_loop (p @ m @ x # q) (length p) (length p + length m) = Inr (p @ x # q, length p)"
proof (induction m)
  case Nil
  then show ?case by (subst remove_loop.simps) simp
next
  case (Cons y m)
  have "next_range (p @ y # m @ x # q) (length p) = Some (Suc (length p))"
    by (simp add: next_range_def)
  with Cons show ?case by (subst remove_loop.simps) simp
qed

text \<open>Word intervals cut at an end or in the middle.\<close>

lemma interval_cut_low:
  assumes "(e::u64) < b" "s \<le> e"
  shows "{s..b} - {s..e} = {e + 1..b}"
proof (rule set_eqI)
  fix t
  show "t \<in> {s..b} - {s..e} \<longleftrightarrow> t \<in> {e + 1..b}"
    unfolding Diff_iff atLeastAtMost_iff word_less_plus1_le[OF assms(1)] using assms by force
qed

lemma interval_cut_high:
  assumes "(a::u64) < s" "b \<le> e"
  shows "{a..b} - {s..e} = {a..min b (s - 1)}"
proof (rule set_eqI)
  fix t
  show "t \<in> {a..b} - {s..e} \<longleftrightarrow> t \<in> {a..min b (s - 1)}"
    unfolding Diff_iff atLeastAtMost_iff min.bounded_iff word_minus1_less[OF assms(1)]
    using assms by force
qed

lemma interval_cut_mid:
  assumes "(a::u64) < s" "s \<le> e" "e < b"
  shows "{a..b} - {s..e} = {a..s - 1} \<union> {e + 1..b}"
proof (rule set_eqI)
  fix t
  show "t \<in> {a..b} - {s..e} \<longleftrightarrow> t \<in> {a..s - 1} \<union> {e + 1..b}"
    unfolding Diff_iff Un_iff atLeastAtMost_iff word_minus1_less[OF assms(1)] word_less_plus1_le[OF assms(3)]
    using assms by force
qed

text \<open>Moving the start of a range up keeps what lies below it below it.\<close>

lemma before_raise:
  assumes "before y x" "r_s x \<le> s'"
  shows "before y \<lparr>r_s = s', r_e = v\<rparr>"
proof -
  have "r_e y < r_s x" "r_e y + 1 \<le> r_s x"  "r_e y + 1 \<noteq> r_s x"
    using assms(1) word_less_plus1_le[of "r_e y" "r_s x" "r_s x"] by (auto simp: before_def)
  then show ?thesis using assms(2) by (auto simp: before_def)
qed

lemma remove_range_same:
  assumes wf: "wf_ranges (A @ B)" and se: "s \<le> e"
    and f: "find_range (A @ B) s = last_ptr A" "find_range (A @ B) e = last_ptr A"
    and A: "\<forall>x\<in>set A. r_s x \<le> s" and B: "\<forall>x\<in>set B. e < r_s x"
  shows "\<exists>rc l. remove_range_locked alloc (A @ B) s e = Inr (rc, l) \<and> wf_ranges l \<and>
    (rc = 0 \<and> elems l = elems (A @ B) - {s..e} \<or> rc = - ENOMEM \<and> \<not> alloc \<and> l = A @ B)"
proof (cases A rule: rev_cases)
  case Nil
  have "elems B - {s..e} = elems B" using B by (fastforce simp: elems_def)
  then show ?thesis using f Nil wf by (simp add: remove_range_locked_def)
next
  case (snoc p x)
  have x: "r_s x \<le> s" "r_s x \<le> r_e x" "wf_ranges p" "wf_ranges B" "\<forall>y\<in>set p. before y x"
    "\<forall>y\<in>set B. before x y" "\<forall>y\<in>set p. \<forall>z\<in>set B. before y z"
    using A wf snoc by auto
  have fp: "find_range (p @ x # B) s = Some (length p)" "find_range (p @ x # B) e = Some (length p)"
    using f snoc by simp_all
  have out: "elems p - {s..e} = elems p" "elems B - {s..e} = elems B"
    using x(1,5) B by (fastforce simp: elems_def before_def)+
  then have el: "elems (A @ B) - {s..e} = elems p \<union> ({r_s x..r_e x} - {s..e}) \<union> elems B"
    using snoc by auto
  consider (none) "r_e x < s" | (split) "s \<le> r_e x" "r_s x < s" "e < r_e x"
    | (all) "r_s x = s" "r_e x \<le> e" | (low) "r_s x = s" "e < r_e x"
    | (high) "s \<le> r_e x" "r_s x < s" "r_e x \<le> e"
    using x(1) by force
  then show ?thesis
  proof cases
    case none
    then have "{r_s x..r_e x} - {s..e} = {r_s x..r_e x}" by auto
    then have "elems (A @ B) - {s..e} = elems (A @ B)" by (simp only: el) (simp add: snoc Un_assoc)
    then show ?thesis using fp none wf snoc by (simp add: remove_range_locked_def)
  next
    case split
    let ?l = "p @ x\<lparr>r_e := s - 1\<rparr> # \<lparr>r_s = e + 1, r_e = r_e x\<rparr> # B"
    note s1 = word_minus1_less[OF split(2)] and e1 = word_less_plus1_le[OF split(3)]
    have eq: "remove_range_locked alloc (A @ B) s e = (if alloc then Inr (0, ?l) else Inr (- ENOMEM, A @ B))"
      using fp split snoc by (auto simp: remove_range_locked_def Let_def insert_range_def)
    have "elems ?l = elems (A @ B) - {s..e}"
      unfolding el interval_cut_mid[OF split(2) se split(3)] by auto
    moreover have "wf_ranges ?l"
    proof -
      have w: "s - 1 < s" "r_s x \<le> s - 1" "e < e + 1" "e + 1 \<le> r_e x"
        using s1[of "s - 1"] s1[of "r_s x"] split e1[of "r_e x"] word_less_plus1[OF split(3)] by auto
      have B1: "\<forall>y\<in>set B. r_e x < r_s y \<and> s - 1 < r_s y \<and> s - 1 + 1 \<noteq> r_s y"
        using x(6) B se w(1) by (auto simp: before_def)
      have P1: "\<forall>y\<in>set p. before y \<lparr>r_s = e + 1, r_e = r_e x\<rparr>"
        using x(1,5) se w(3) before_raise by fastforce
      have "s - 1 < e + 1" "s - 1 + 1 \<noteq> e + 1" using w(1,3) se by auto
      with x B1 P1 w show ?thesis by (simp add: before_def)
    qed
    ultimately show ?thesis using eq wf by (cases alloc) simp_all
  next
    case all
    have eq: "remove_range_locked alloc (A @ B) s e = Inr (0, p @ B)"
    proof -
      have c: "\<not> r_e x < s" "\<not> r_s x < s" using all x(2) by auto
      show ?thesis using fp snoc c all by (simp add: remove_range_locked_def Let_def)
    qed
    have "elems (p @ B) = elems (A @ B) - {s..e}" unfolding el using all by auto
    then show ?thesis using eq x by simp
  next
    case low
    let ?l = "p @ x\<lparr>r_s := e + 1\<rparr> # B"
    note e1 = word_less_plus1_le[OF low(2)]
    have eq: "remove_range_locked alloc (A @ B) s e = Inr (0, ?l)"
    proof -
      have c: "\<not> r_e x < s" "\<not> r_s x < s" "\<not> r_e x \<le> e" using low x(2) by auto
      show ?thesis using fp snoc c low(1) by (simp add: remove_range_locked_def Let_def)
    qed
    have "elems ?l = elems (A @ B) - {s..e}"
      unfolding el low(1) interval_cut_low[OF low(2) se] by auto
    moreover have "\<forall>y\<in>set p. before y (x\<lparr>r_s := e + 1\<rparr>)"
      using x(5) low(1) se word_less_plus1[OF low(2)] before_raise[of _ x "e + 1" "r_e x"]
      by (auto simp: range_upd)
    moreover have "e + 1 \<le> r_e x" using e1 low by simp
    ultimately show ?thesis using eq x by (simp add: before_def)
  next
    case high
    let ?l = "p @ x\<lparr>r_e := s - 1\<rparr> # B"
    note s1 = word_minus1_less[OF high(2)]
    have eq: "remove_range_locked alloc (A @ B) s e = Inr (0, ?l)"
    proof -
      have c: "\<not> r_e x < s" "\<not> e < r_e x" "r_s x \<noteq> s" using high by auto
      show ?thesis using fp snoc c high(3) by (simp add: remove_range_locked_def Let_def)
    qed
    have w: "s - 1 < s" "s - 1 \<le> r_e x" using s1[of "s - 1"] high by auto
    have "elems ?l = elems (A @ B) - {s..e}"
      unfolding el interval_cut_high[OF high(2,3)] using w(2) by (auto simp: min_def)
    moreover have "\<forall>y\<in>set B. s - 1 < r_s y \<and> s - 1 + 1 \<noteq> r_s y"
      using B se w(1) by auto
    moreover have "r_s x \<le> s - 1" using s1 high by simp
    ultimately show ?thesis using eq x by (simp add: before_def)
  qed
qed

text \<open>
  What a removal across several ranges leaves of the last one, \<open>y\<close>, and of the ranges \<open>B\<close> above.
\<close>

definition cut_tail :: "u64 \<Rightarrow> range \<Rightarrow> range list \<Rightarrow> range list" where
  "cut_tail e y B = (if e + 1 > r_e y then B else \<lparr>r_s = e + 1, r_e = r_e y\<rparr> # B)"

lemma cut_tail_correct:
  assumes wf: "wf_ranges (M @ y # B)" and e: "e \<noteq> - 1"
    and M: "\<forall>z\<in>set (M @ [y]). s < r_s z \<and> r_s z \<le> e" and B: "\<forall>z\<in>set B. e < r_s z"
  shows "elems (cut_tail e y B) = (elems (M @ y # B)) - {s..e}" "wf_ranges (cut_tail e y B)"
    "\<forall>z\<in>set (cut_tail e y B). e < r_s z"
proof -
  have e1: "e < e + 1"
    using e by (metis word_less_plus1 max_word_max order.not_eq_order_implies_strict)
  note le1 = word_less_plus1_le[OF e1]
  have "elems M \<subseteq> {s..e}" using M wf by (fastforce simp: elems_def before_def)
  moreover have "elems B - {s..e} = elems B" using B by (fastforce simp: elems_def)
  ultimately have el: "elems (M @ y # B) - {s..e} = ({r_s y..r_e y} - {s..e}) \<union> elems B" by auto
  have y: "s < r_s y" "r_s y \<le> e" "r_s y \<le> r_e y" "wf_ranges B" "\<forall>z\<in>set B. before y z"
    using M wf by auto
  have "{r_s y..r_e y} - {s..e} = (if e + 1 > r_e y then {} else {e + 1..r_e y})"
  proof (rule set_eqI)
    fix t
    show "t \<in> {r_s y..r_e y} - {s..e} \<longleftrightarrow> t \<in> (if e + 1 > r_e y then {} else {e + 1..r_e y})"
      using y le1[of t] le1[of "r_e y"] by (auto simp: not_less)
  qed
  then show "elems (cut_tail e y B) = elems (M @ y # B) - {s..e}"
    unfolding el by (auto simp: cut_tail_def)
  show "wf_ranges (cut_tail e y B)" using y by (auto simp: cut_tail_def before_def not_less)
  show "\<forall>z\<in>set (cut_tail e y B). e < r_s z" using B e1 by (auto simp: cut_tail_def)
qed

text \<open>
  The removal across several ranges, exactly as the code does it: when a range starts below \<open>s\<close>, its
  end is set to \<open>s - 1\<close> even where it ended before.
\<close>

lemma remove_range_across:
  assumes wf: "wf_ranges (A @ M @ y # B)" and se: "s \<le> e" and e: "e \<noteq> - 1"
    and f: "find_range (A @ M @ y # B) s = last_ptr A"
      "find_range (A @ M @ y # B) e = last_ptr (A @ M @ [y])"
    and A: "\<forall>x\<in>set A. r_s x \<le> s" and M: "\<forall>x\<in>set (M @ [y]). s < r_s x \<and> r_s x \<le> e"
    and B: "\<forall>x\<in>set B. e < r_s x"
  shows "\<exists>l. remove_range_locked alloc (A @ M @ y # B) s e = Inr (0, l) \<and> wf_ranges l \<and>
    elems l = (elems (A @ M @ y # B) - {s..e}) \<union>
      (if A \<noteq> [] \<and> r_s (last A) < s then {r_s (last A)..s - 1} else {})"
proof -
  note t = cut_tail_correct[OF _ e M B]
  have wt: "wf_ranges (M @ y # B)" using wf by simp
  have ne: "last_ptr A \<noteq> last_ptr (A @ M @ [y])" by simp
  show ?thesis
  proof (cases A rule: rev_cases)
    case Nil
    have "\<not> r_s ((M @ y # B) ! 0) < s" using M by (cases M) auto
    then have eq: "remove_range_locked alloc (A @ M @ y # B) s e = Inr (0, cut_tail e y B)"
      using f Nil ne remove_loop_eq[of "[]" M y B]
      by (simp add: remove_range_locked_def Let_def deref_def first_range_def last_ptr_def
          set_s_def destroy_range_def cut_tail_def range_upd)
    show ?thesis using eq t[OF wt] Nil by simp
  next
    case (snoc p x)
    have x: "r_s x \<le> s" "r_s x \<le> r_e x" "wf_ranges p" "\<forall>z\<in>set p. before z x"
      using A wf snoc by auto
    have fp: "find_range (p @ x # M @ y # B) s = Some (length p)"
      "find_range (p @ x # M @ y # B) e = Some (Suc (length p + length M))"
      using f snoc by (simp_all add: last_ptr_def)
    have out: "elems p - {s..e} = elems p"
      using x(1,4) by (fastforce simp: elems_def before_def)
    have T: "before z w" if "z \<in> set p" "w \<in> set (cut_tail e y B)" for z w
    proof -
      have "r_s x \<le> r_s w" using t(3)[OF wt] that(2) x(1) se by fastforce
      then show ?thesis using before_raise[of z x "r_s w" "r_e w"] x(4) that(1) by (simp add: before_def)
    qed
    show ?thesis
    proof (cases "r_s x < s")
      case True
      note s1 = word_minus1_less[OF True]
      let ?x = "x\<lparr>r_e := s - 1\<rparr>"
      have eq: "remove_range_locked alloc (A @ M @ y # B) s e = Inr (0, p @ ?x # cut_tail e y B)"
        using fp snoc True remove_loop_eq[of "p @ [?x]" M y B]
        by (cases M) (simp_all add: remove_range_locked_def Let_def deref_def
            nth_append destroy_range_def cut_tail_def range_upd)
      have w: "s - 1 < s" "r_s x \<le> s - 1" using s1[of "s - 1"] s1[of "r_s x"] True by auto
      have "before ?x z" if "z \<in> set (cut_tail e y B)" for z
        using t(3)[OF wt] that w(1) se by (fastforce simp: before_def)
      then have "wf_ranges (p @ ?x # cut_tail e y B)"
        using x w(2) t(2)[OF wt] T by (auto simp: before_def)
      moreover have "{r_s x..r_e x} - {s..e} \<subseteq> {r_s x..s - 1}"
      proof -
        have "r_e x \<le> e" using wf snoc M by (cases M) (auto simp: before_def)
        then show ?thesis using interval_cut_high[OF True] by (auto simp: min_def split: if_splits)
      qed
      ultimately show ?thesis using eq t(1)[OF wt] out True snoc
        by auto
    next
      case False
      then have xs: "r_s x = s" using x(1) by simp
      have eq: "remove_range_locked alloc (A @ M @ y # B) s e = Inr (0, p @ cut_tail e y B)"
        using fp snoc False remove_loop_eq[of p "x # M" y B]
        by (simp add: remove_range_locked_def Let_def deref_def cut_tail_def range_upd)
      have "r_e x \<le> e" using wf snoc M by (cases M) (auto simp: before_def)
      then have "{r_s x..r_e x} - {s..e} = {}" using xs by auto
      then show ?thesis using eq t[OF wt] out False snoc x T by auto
    qed
  qed
qed

text \<open>
  The removal is right when it stays within one range or when the range found for \<open>s\<close> reaches up to
  \<open>s - 1\<close>; the end of the number space must not be removed across several ranges.
\<close>

definition remove_safe :: "range list \<Rightarrow> u64 \<Rightarrow> u64 \<Rightarrow> bool" where
  "remove_safe r s e \<longleftrightarrow> find_range r s = find_range r e \<or>
     (e \<noteq> - 1 \<and> (case find_range r s of None \<Rightarrow> True | Some x \<Rightarrow> s \<le> r_e (r ! x) + 1))"

lemma last_ptr_nth: "A \<noteq> [] \<Longrightarrow> last_ptr A = Some (length A - 1) \<and> (A @ R) ! (length A - 1) = last A"
  by (cases A rule: rev_cases) (simp_all add: last_ptr_def)

lemma split_ranges_last:
  assumes "wf_ranges r" "s \<le> e" "find_range r s \<noteq> find_range r e"
  obtains A M y B where "r = A @ M @ y # B" "find_range r s = last_ptr A"
    "find_range r e = last_ptr (A @ M @ [y])"
    "\<forall>x\<in>set A. r_s x \<le> s" "\<forall>x\<in>set (M @ [y]). s < r_s x \<and> r_s x \<le> e" "\<forall>x\<in>set B. e < r_s x"
proof -
  obtain A M B where d: "r = A @ M @ B" "find_range r s = last_ptr A" "find_range r e = last_ptr (A @ M)"
    "\<forall>x\<in>set A. r_s x \<le> s" "\<forall>x\<in>set M. s < r_s x \<and> r_s x \<le> e" "\<forall>x\<in>set B. e < r_s x"
    using split_ranges[OF assms(1,2)] .
  then have "M \<noteq> []" using assms(3) by auto
  then obtain M' y where "M = M' @ [y]" by (cases M rule: rev_cases) auto
  then show thesis using that[of A M' y B] d by simp
qed

lemma remove_range_locked_exact:
  assumes "wf_ranges r" "s \<le> e" "find_range r s \<noteq> find_range r e" "e \<noteq> - 1"
  shows "\<exists>l. remove_range_locked alloc r s e = Inr (0, l) \<and> wf_ranges l \<and>
    elems l = (elems r - {s..e}) \<union>
      (case find_range r s of None \<Rightarrow> {}
       | Some x \<Rightarrow> if r_s (r ! x) < s then {r_s (r ! x)..s - 1} else {})"
proof -
  obtain A M y B where d: "r = A @ M @ y # B" "find_range r s = last_ptr A"
    "find_range r e = last_ptr (A @ M @ [y])"
    "\<forall>x\<in>set A. r_s x \<le> s" "\<forall>x\<in>set (M @ [y]). s < r_s x \<and> r_s x \<le> e" "\<forall>x\<in>set B. e < r_s x"
    using split_ranges_last[OF assms(1,2,3)] .
  have "(case find_range r s of None \<Rightarrow> {}
       | Some x \<Rightarrow> if r_s (r ! x) < s then {r_s (r ! x)..s - 1} else {}) =
      (if A \<noteq> [] \<and> r_s (last A) < s then {r_s (last A)..s - 1} else {})"
  proof (cases "A = []")
    case True
    then show ?thesis unfolding d(2) by simp
  next
    case False
    then show ?thesis
      using last_ptr_nth[of A "M @ y # B"] unfolding d(2) by (simp add: d(1))
  qed
  then show ?thesis
    using remove_range_across[of A M y B s e alloc] d assms by simp
qed

lemma remove_range_locked_correct:
  assumes "wf_ranges r" "s \<le> e" "remove_safe r s e"
  shows "\<exists>rc l. remove_range_locked alloc r s e = Inr (rc, l) \<and> wf_ranges l \<and>
    (rc = 0 \<and> elems l = elems r - {s..e} \<or> rc = - ENOMEM \<and> \<not> alloc \<and> l = r)"
proof (cases "find_range r s = find_range r e")
  case True
  obtain A M B where d: "r = A @ M @ B" "find_range r s = last_ptr A" "find_range r e = last_ptr (A @ M)"
    "\<forall>x\<in>set A. r_s x \<le> s" "\<forall>x\<in>set M. s < r_s x \<and> r_s x \<le> e" "\<forall>x\<in>set B. e < r_s x"
    using split_ranges[OF assms(1,2)] .
  with True have "M = []" by simp
  then show ?thesis using remove_range_same[of A B s e alloc] d assms by simp
next
  case False
  then have e: "e \<noteq> - 1" using assms(3) by (simp add: remove_safe_def)
  obtain l where l: "remove_range_locked alloc r s e = Inr (0, l)" "wf_ranges l"
    "elems l = (elems r - {s..e}) \<union>
      (case find_range r s of None \<Rightarrow> {}
       | Some x \<Rightarrow> if r_s (r ! x) < s then {r_s (r ! x)..s - 1} else {})"
    using remove_range_locked_exact[OF assms(1,2) False e] by blast
  have "(case find_range r s of None \<Rightarrow> {}
       | Some x \<Rightarrow> if r_s (r ! x) < s then {r_s (r ! x)..s - 1} else {}) \<subseteq> elems r - {s..e}"
  proof (cases "find_range r s")
    case (Some x)
    have x: "s \<le> r_e (r ! x) + 1" using assms(3) False Some by (simp add: remove_safe_def)
    obtain A M y B where d: "r = A @ M @ y # B" "find_range r s = last_ptr A"
      "\<forall>x\<in>set (M @ [y]). s < r_s x \<and> r_s x \<le> e"
      using split_ranges_last[OF assms(1,2) False] by metis
    have A: "A \<noteq> []" "r ! x = last A" using d(2) Some last_ptr_nth[of A "M @ y # B"]
      by (auto simp: d(1) last_ptr_def split: if_splits)
    then have inr: "r ! x \<in> set r" "r_e (r ! x) < r_s y"
      using assms(1) by (auto simp: d(1) before_def)
    show ?thesis
    proof (cases "r_s (r ! x) < s")
      case True
      note s1 = word_minus1_less[OF True]
      have "s - 1 \<le> r_e (r ! x)"
      proof (rule ccontr)
        assume "\<not> s - 1 \<le> r_e (r ! x)"
        then have "r_e (r ! x) + 1 \<le> s - 1" using word_less_plus1_le[OF inr(2)] by simp
        then show False using s1 x by simp
      qed
      then have "{r_s (r ! x)..s - 1} \<subseteq> elems r" using inr(1) by (fastforce simp: elems_def)
      moreover have "{r_s (r ! x)..s - 1} \<inter> {s..e} = {}" using s1 by fastforce
      ultimately show ?thesis using Some True by auto
    qed (simp add: Some)
  qed simp
  then show ?thesis using l by auto
qed

section \<open>The interface of a set of numbers\<close>

text \<open>
  What the users of rangesets rely on (the permission checks, and the EPT code for read-only MMIO):
  adding and the containment test agree on one set of numbers. An operation may fail with a
  non-zero code and then changes nothing.
\<close>

locale number_set =
  fixes members :: "'s \<Rightarrow> u64 set"
    and inv :: "'s \<Rightarrow> bool"
    and add :: "u64 \<Rightarrow> u64 \<Rightarrow> 's \<Rightarrow> (int \<times> 's) result"
    and contains :: "'s \<Rightarrow> u64 \<Rightarrow> u64 \<Rightarrow> bool result"
  assumes add_law: "inv s \<Longrightarrow> a \<le> b \<Longrightarrow> \<exists>rc s'. add a b s = Inr (rc, s') \<and> inv s' \<and>
        (if rc = 0 then members s' = members s \<union> {a..b} else s' = s)"
    and contains_law: "inv s \<Longrightarrow> a \<le> b \<Longrightarrow> contains s a b = Inr ({a..b} \<subseteq> members s)"
begin

lemma add_then_contains:
  assumes "inv s" "a \<le> b" "add a b s = Inr (0, s')" "a \<le> c" "c \<le> d" "d \<le> b"
  shows "contains s' c d = Inr True"
proof -
  have "inv s'" "members s' = members s \<union> {a..b}" using add_law[OF assms(1,2)] assms(3) by auto
  moreover from assms(4,6) have "{c..d} \<subseteq> {a..b}" by (simp add: atLeastatMost_subset_iff)
  ultimately show ?thesis using contains_law[of s' c d] assms(5) by (simp add: le_supI2)
qed

lemma contains_mono:
  assumes "inv s" "a \<le> b" "add a b s = Inr (rc, s')" "c \<le> d" "contains s c d = Inr True"
  shows "contains s' c d = Inr True"
proof -
  have "inv s'" "if rc = 0 then members s' = members s \<union> {a..b} else s' = s"
    using add_law[OF assms(1,2)] assms(3) by auto
  then have m: "inv s'" "members s \<subseteq> members s'" by (cases "rc = 0"; simp)+
  have "{c..d} \<subseteq> members s" using contains_law[OF assms(1,4)] assms(5) by simp
  then have "{c..d} \<subseteq> members s'" using m(2) by (rule subset_trans)
  then show ?thesis using contains_law[OF m(1) assms(4)] by (simp only: simp_thms)
qed

end

section \<open>Rangesets implement it\<close>

abbreviation rs_elems :: "rangeset \<Rightarrow> u64 set" where
  "rs_elems r \<equiv> elems (range_list r)"

abbreviation rs_wf :: "rangeset \<Rightarrow> bool" where
  "rs_wf r \<equiv> wf_ranges (range_list r)"

lemma find_range_contains:
  assumes "wf_ranges r" "s \<le> e"
  shows "{s..e} \<subseteq> elems r \<longleftrightarrow> (\<exists>x. find_range r s = Some x \<and> e \<le> r_e (r ! x))"
proof -
  obtain A M B where d: "r = A @ M @ B" "find_range r s = last_ptr A"
    "\<forall>x\<in>set A. r_s x \<le> s" "\<forall>x\<in>set M. s < r_s x \<and> r_s x \<le> e" "\<forall>x\<in>set B. e < r_s x"
    using split_ranges[OF assms] by metis
  show ?thesis
  proof (cases A rule: rev_cases)
    case Nil
    have "s \<notin> elems r" using d Nil assms(2) by (fastforce simp: elems_def)
    then show ?thesis using d Nil assms(2) by auto
  next
    case (snoc p x)
    have f: "find_range r s = Some (length p)" "r ! length p = x"
      using d snoc by simp_all
    have b: "\<forall>y\<in>set p. before y x" "\<forall>y\<in>set (M @ B). before x y" "r_s x \<le> r_e x"
      using assms(1) d(1) snoc by auto
    show ?thesis
    proof
      assume sub: "{s..e} \<subseteq> elems r"
      have "e \<le> r_e x"
      proof (rule ccontr)
        assume "\<not> e \<le> r_e x"
        then have lt: "r_e x < e" by simp
        note p1 = word_less_plus1_le[OF lt] and p2 = word_less_plus1[OF lt]
        define t where "t = max s (r_e x + 1)"
        have "t \<in> {s..e}" using assms(2) p1[of e] lt by (simp add: t_def)
        then have "t \<in> elems r" using sub by blast
        moreover have tx: "r_e x < t" using p2 by (auto simp: t_def less_max_iff_disj)
        moreover have "t \<notin> elems p" using b(1,3) tx by (fastforce simp: elems_def before_def)
        moreover have "t \<notin> elems (M @ B)"
        proof -
          have "t < r_s y" if "y \<in> set (M @ B)" for y
          proof -
            have "s < r_s y" using d assms(2) that by auto
            moreover have "r_e x + 1 < r_s y" using b(2) that p1[of "r_s y"] by (fastforce simp: before_def le_less)
            ultimately show ?thesis by (simp add: t_def)
          qed
          then show ?thesis by (fastforce simp: elems_def)
        qed
        ultimately show False by (auto simp: d(1) snoc)
      qed
      then show "\<exists>x. find_range r s = Some x \<and> e \<le> r_e (r ! x)" using f by auto
    next
      assume "\<exists>x. find_range r s = Some x \<and> e \<le> r_e (r ! x)"
      then have "e \<le> r_e x" using f by simp
      moreover have "r_s x \<le> s" using d snoc by simp
      ultimately show "{s..e} \<subseteq> elems r" using d(1) snoc by auto
    qed
  qed
qed

lemma rangeset_add_range_law:
  assumes "rs_wf r" "s \<le> e"
  shows "\<exists>rc r'. rangeset_add_range xsm alloc r s e = Inr (rc, r') \<and> rs_wf r' \<and>
    (if rc = 0 then rs_elems r' = rs_elems r \<union> {s..e} else r' = r)"
proof (cases "xsm r s e = 0")
  case True
  obtain rc l where "add_range_locked alloc (range_list r) s e = Inr (rc, l)" "wf_ranges l"
    "rc = 0 \<and> elems l = elems (range_list r) \<union> {s..e} \<or> rc = - ENOMEM \<and> \<not> alloc \<and> l = range_list r"
    using add_range_locked_correct[OF assms] by blast
  then show ?thesis using True assms(2) by (auto simp: rangeset_add_range_def ENOMEM_def)
qed (use assms in \<open>simp add: rangeset_add_range_def\<close>)

lemma rangeset_contains_range_law:
  assumes "rs_wf r" "s \<le> e"
  shows "rangeset_contains_range r s e = Inr ({s..e} \<subseteq> rs_elems r)"
  using find_range_contains[OF assms] assms(2)
  by (auto simp: rangeset_contains_range_def split: option.splits)

interpretation rangesets: number_set rs_elems rs_wf "\<lambda>s e r. rangeset_add_range xsm alloc r s e"
  rangeset_contains_range
  by unfold_locales (rule rangeset_add_range_law rangeset_contains_range_law; assumption)+

section \<open>Reporting\<close>

lemma report_loop_eq:
  assumes "wf_ranges (p @ q)"
  shows "report_loop (\<lambda>a b acc. (0, acc @ [(a, b)])) (p @ q)
           (if q = [] then None else Some (length p)) s e 0 acc =
    (0, acc @ map (\<lambda>x. (max (r_s x) s, min (r_e x) e))
                (filter (\<lambda>x. r_s x \<le> e \<and> s \<le> r_e x) q))"
  using assms
proof (induction q arbitrary: p acc)
  case Nil
  then show ?case by (simp add: report_loop.simps)
next
  case (Cons x q)
  have nx: "next_range (p @ x # q) (length p) = (if q = [] then None else Some (Suc (length p)))"
    by (auto simp: next_range_def neq_Nil_conv)
  have IH: "report_loop (\<lambda>a b acc. (0, acc @ [(a, b)])) (p @ x # q)
      (if q = [] then None else Some (Suc (length p))) s e 0 acc' =
    (0, acc' @ map (\<lambda>x. (max (r_s x) s, min (r_e x) e)) (filter (\<lambda>x. r_s x \<le> e \<and> s \<le> r_e x) q))"
    for acc' using Cons.IH[of "p @ [x]" acc'] Cons.prems by (cases "q = []") simp_all
  show ?case
  proof (cases "r_s x \<le> e")
    case True
    then show ?thesis
      using IH by (subst report_loop.simps) (simp add: nx)
  next
    case False
    have "\<forall>y\<in>set q. \<not> r_s y \<le> e" using Cons.prems False by (fastforce simp: before_def)
    then have "filter (\<lambda>x. r_s x \<le> e \<and> s \<le> r_e x) q = []" by (auto simp: filter_empty_conv)
    then show ?thesis using False by (subst report_loop.simps) simp
  qed
qed

section \<open>Life cycle\<close>

text \<open>
  The rangesets in existence by address, and per domain the list \<open>d->rangesets\<close>. \<open>rangeset_new\<close> gets
  the address from \<open>xmalloc\<close> (\<open>None\<close>: allocation failure).
\<close>

record rs_state =
  rs_heap :: "nat \<Rightarrow> rangeset option"
  dom_rangesets :: "u16 \<Rightarrow> nat list"

definition safe_strcpy :: "nat \<Rightarrow> string \<Rightarrow> string" where
  "safe_strcpy n src = take (n - 1) src"

definition rangeset_new ::
  "nat option \<Rightarrow> rs_state \<Rightarrow> u16 option \<Rightarrow> string option \<Rightarrow> u32 \<Rightarrow> (nat option \<times> rs_state) result" where
  "rangeset_new addr st d nm fl =
     (case addr of
        None \<Rightarrow> Inr (None, st)
      | Some a \<Rightarrow>
          if fl AND NOT 1 \<noteq> 0 then Inl Bug_on
          else let r = \<lparr>owner = d, range_list = [],
                        rs_name = (case nm of Some n \<Rightarrow> safe_strcpy 32 n | None \<Rightarrow> ''(no name)''),
                        flags = fl\<rparr>;
                   st' = st\<lparr>rs_heap := (rs_heap st)(a := Some r)\<rparr>
               in Inr (Some a,
                       case d of None \<Rightarrow> st'
                       | Some k \<Rightarrow> st'\<lparr>dom_rangesets := (dom_rangesets st')(k := a # dom_rangesets st' k)\<rparr>))"

definition rangeset_destroy :: "nat option \<Rightarrow> rs_state \<Rightarrow> rs_state result" where
  "rangeset_destroy p st =
     (case p of
        None \<Rightarrow> Inr st
      | Some a \<Rightarrow>
          (case rs_heap st a of
             None \<Rightarrow> Inl Out_of_bounds
           | Some r \<Rightarrow>
               let st' = (case owner r of None \<Rightarrow> st
                          | Some k \<Rightarrow> st\<lparr>dom_rangesets :=
                              (dom_rangesets st)(k := remove1 a (dom_rangesets st k))\<rparr>)
               in Inr (st'\<lparr>rs_heap := (rs_heap st')(a := None)\<rparr>)))"

definition rangeset_domain_initialise :: "u16 \<Rightarrow> rs_state \<Rightarrow> rs_state" where
  "rangeset_domain_initialise d st = st\<lparr>dom_rangesets := (dom_rangesets st)(d := [])\<rparr>"

function rangeset_domain_destroy :: "u16 \<Rightarrow> rs_state \<Rightarrow> rs_state result" where
  "rangeset_domain_destroy d st =
     (case dom_rangesets st d of
        [] \<Rightarrow> Inr st
      | a # as \<Rightarrow>
          (case rs_heap st a of
             None \<Rightarrow> Inl Out_of_bounds
           | Some r \<Rightarrow>
               if owner r \<noteq> Some d then Inl Bug_on
               else let st1 = st\<lparr>rs_heap := (rs_heap st)(a := Some (r\<lparr>owner := None\<rparr>)),
                                 dom_rangesets := (dom_rangesets st)(d := as)\<rparr>
                    in case rangeset_destroy (Some a) st1 of
                         Inl f \<Rightarrow> Inl f
                       | Inr st2 \<Rightarrow> rangeset_domain_destroy d st2))"
  by pat_completeness auto
termination
  by (relation "measure (\<lambda>(d, st). length (dom_rangesets st d))")
    (auto simp: rangeset_destroy_def split: option.splits)

declare rangeset_domain_destroy.simps [simp del]

text \<open>
  The lists and the rangesets agree: a domain's list holds, once each, the rangesets it owns.
\<close>

definition rs_inv :: "rs_state \<Rightarrow> bool" where
  "rs_inv st \<longleftrightarrow>
     (\<forall>d. distinct (dom_rangesets st d) \<and>
          (\<forall>a. a \<in> set (dom_rangesets st d) \<longleftrightarrow> (\<exists>r. rs_heap st a = Some r \<and> owner r = Some d)))"

lemma rs_inv_member:
  "rs_inv st \<Longrightarrow> a \<in> set (dom_rangesets st d) \<longleftrightarrow> (\<exists>r. rs_heap st a = Some r \<and> owner r = Some d)"
  by (simp add: rs_inv_def)

lemma rangeset_new_inv:
  assumes "rs_inv st" "\<forall>a. addr = Some a \<longrightarrow> rs_heap st a = None"
    and "rangeset_new addr st d nm fl = Inr (res, st')"
  shows "rs_inv st'"
proof (cases addr)
  case (Some a)
  then have a: "rs_heap st a = None" "\<forall>k. a \<notin> set (dom_rangesets st k)"
    using assms(1,2) by (auto simp: rs_inv_def)
  show ?thesis
    using assms Some a
    by (auto simp: rangeset_new_def Let_def rs_inv_def split: if_splits option.splits)
qed (use assms in \<open>simp add: rangeset_new_def\<close>)

lemma rangeset_destroy_inv:
  assumes "rs_inv st" "rangeset_destroy p st = Inr st'"
  shows "rs_inv st'"
proof (cases p)
  case (Some a)
  with assms obtain r where r: "rs_heap st a = Some r" by (auto simp: rangeset_destroy_def split: option.splits)
  show ?thesis
  proof (cases "owner r")
    case None
    then have "\<forall>k. a \<notin> set (dom_rangesets st k)" using assms(1) r by (auto simp: rs_inv_def)
    then show ?thesis
      using assms Some r None by (auto simp: rangeset_destroy_def rs_inv_def split: if_splits)
  next
    case (Some k)
    then show ?thesis
      using assms \<open>p = Some a\<close> r by (auto simp: rangeset_destroy_def rs_inv_def split: if_splits)
  qed
qed (use assms in \<open>simp add: rangeset_destroy_def\<close>)

lemma rangeset_domain_destroy_step:
  assumes "rs_inv st" "dom_rangesets st d = a # as"
  defines "st2 \<equiv> st\<lparr>dom_rangesets := (dom_rangesets st)(d := as), rs_heap := (rs_heap st)(a := None)\<rparr>"
  shows "rangeset_domain_destroy d st = rangeset_domain_destroy d st2" "rs_inv st2"
proof -
  obtain r where r: "rs_heap st a = Some r" "owner r = Some d"
    using assms(1,2) by (metis list.set_intros(1) rs_inv_member)
  have ds: "distinct (a # as)" using assms(1,2) by (metis rs_inv_def)
  show "rangeset_domain_destroy d st = rangeset_domain_destroy d st2"
    using assms(2) r by (subst rangeset_domain_destroy.simps) (simp add: rangeset_destroy_def st2_def)
  show "rs_inv st2"
    unfolding rs_inv_def
  proof (intro allI conjI)
    fix k b
    show "distinct (dom_rangesets st2 k)" using assms(1) ds by (simp add: st2_def rs_inv_def)
    have m: "b \<in> set (dom_rangesets st k) \<longleftrightarrow> (\<exists>r. rs_heap st b = Some r \<and> owner r = Some k)"
      using rs_inv_member[OF assms(1)] .
    show "b \<in> set (dom_rangesets st2 k) \<longleftrightarrow> (\<exists>r. rs_heap st2 b = Some r \<and> owner r = Some k)"
      using m assms(2) ds r by (auto simp: st2_def)
  qed
qed

lemma rangeset_domain_destroy_result:
  assumes "rs_inv st"
  shows "\<exists>st'. rangeset_domain_destroy d st = Inr st' \<and> rs_inv st' \<and> dom_rangesets st' d = [] \<and>
    (\<forall>k. k \<noteq> d \<longrightarrow> dom_rangesets st' k = dom_rangesets st k) \<and>
    (\<forall>a. rs_heap st' a = (if a \<in> set (dom_rangesets st d) then None else rs_heap st a))"
  using assms
proof (induction "dom_rangesets st d" arbitrary: st)
  case Nil
  then show ?case using Nil.hyps[symmetric] by (simp add: rangeset_domain_destroy.simps)
next
  case (Cons a as)
  note st = rangeset_domain_destroy_step[OF Cons.prems Cons.hyps(2)[symmetric]]
  show ?case
    unfolding st(1) using Cons.hyps(1)[OF _ st(2)] Cons.hyps(2)[symmetric] by auto
qed

section \<open>Queries and reports against the set\<close>

lemma find_range_overlaps:
  assumes "wf_ranges r" "s \<le> e"
  shows "{s..e} \<inter> elems r \<noteq> {} \<longleftrightarrow> (\<exists>x. find_range r e = Some x \<and> s \<le> r_e (r ! x))"
proof -
  obtain A M B where d0: "r = A @ M @ B" "find_range r e = last_ptr (A @ M)"
    "\<forall>x\<in>set A. r_s x \<le> s" "\<forall>x\<in>set M. s < r_s x \<and> r_s x \<le> e" "\<forall>x\<in>set B. e < r_s x"
    using split_ranges[OF assms] by metis
  define P where "P = A @ M"
  have d: "r = P @ B" "find_range r e = last_ptr P" "\<forall>x\<in>set P. r_s x \<le> e" "\<forall>x\<in>set B. e < r_s x"
    using d0 assms(2) by (auto simp: P_def)
  have B: "{s..e} \<inter> elems B = {}" using d(4) by (fastforce simp: elems_def)
  show ?thesis
  proof (cases P rule: rev_cases)
    case Nil
    then show ?thesis using d B by simp
  next
    case (snoc p x)
    have f: "find_range r e = Some (length p)" "r ! length p = x" using d snoc by simp_all
    have b: "\<forall>y\<in>set p. r_e y < r_s x" "r_s x \<le> r_e x" "r_s x \<le> e"
      using assms(1) d snoc by (auto simp: before_def)
    show ?thesis
    proof
      assume "{s..e} \<inter> elems r \<noteq> {}"
      then obtain v y where v: "s \<le> v" "v \<le> e" "y \<in> set (p @ [x])" "r_s y \<le> v" "v \<le> r_e y"
        using B d(1) snoc by (fastforce simp: elems_def)
      then have "r_e y \<le> r_e x" using b by (cases "y = x") fastforce+
      then show "\<exists>x. find_range r e = Some x \<and> s \<le> r_e (r ! x)" using f v by auto
    next
      assume "\<exists>x. find_range r e = Some x \<and> s \<le> r_e (r ! x)"
      then have s: "s \<le> r_e x" using f by simp
      define v where "v = max s (r_s x)"
      have "v \<in> {s..e}" "v \<in> {r_s x..r_e x}" using s b assms(2) by (simp_all add: v_def)
      then show "{s..e} \<inter> elems r \<noteq> {}" using d(1) snoc by auto
    qed
  qed
qed

lemma rangeset_overlaps_range_law:
  assumes "rs_wf r" "s \<le> e"
  shows "rangeset_overlaps_range r s e = Inr ({s..e} \<inter> rs_elems r \<noteq> {})"
  using find_range_overlaps[OF assms] assms(2)
  by (simp add: rangeset_overlaps_range_def split: option.splits)

lemma rangeset_remove_range_law:
  assumes "rs_wf r" "s \<le> e" "remove_safe (range_list r) s e"
  shows "\<exists>rc r'. rangeset_remove_range xsm alloc r s e = Inr (rc, r') \<and> rs_wf r' \<and>
    (if rc = 0 then rs_elems r' = rs_elems r - {s..e} else r' = r)"
proof (cases "xsm r s e = 0")
  case True
  obtain rc l where "remove_range_locked alloc (range_list r) s e = Inr (rc, l)" "wf_ranges l"
    "rc = 0 \<and> elems l = elems (range_list r) - {s..e} \<or> rc = - ENOMEM \<and> \<not> alloc \<and> l = range_list r"
    using remove_range_locked_correct[OF assms] by blast
  then show ?thesis using True assms(2) by (auto simp: rangeset_remove_range_def ENOMEM_def)
qed (use assms in \<open>simp add: rangeset_remove_range_def\<close>)

lemma report_ranges_collect:
  assumes "rs_wf r" "s \<le> e" "find_range (range_list r) s \<noteq> None"
  shows "rangeset_report_ranges r s e (\<lambda>a b acc. (0, acc @ [(a, b)])) [] =
    (0, map (\<lambda>x. (max (r_s x) s, min (r_e x) e))
            (filter (\<lambda>x. r_s x \<le> e \<and> s \<le> r_e x) (range_list r)))"
proof -
  obtain A M B where d: "range_list r = A @ M @ B" "find_range (range_list r) s = last_ptr A"
    "\<forall>x\<in>set A. r_s x \<le> s"
    using split_ranges[OF assms(1,2)] by metis
  with assms(3) obtain p x where A: "A = p @ [x]" by (cases A rule: rev_cases) auto
  have "\<forall>y\<in>set p. \<not> s \<le> r_e y"
    using assms(1) d(1,3) A by (fastforce simp: before_def)
  then have "filter (\<lambda>x. r_s x \<le> e \<and> s \<le> r_e x) p = []" by (auto simp: filter_empty_conv)
  then show ?thesis
    using report_loop_eq[of p "x # M @ B" s e "[]"] assms(1) d A
    by (simp add: rangeset_report_ranges_def del: wf_ranges_append wf_ranges_simps)
qed

lemma collected_elems:
  "(\<Union>(a, b)\<in>set (map (\<lambda>x. (max (r_s x) s, min (r_e x) e))
      (filter (\<lambda>x. r_s x \<le> e \<and> s \<le> r_e x) l)). {a..b}) = elems l \<inter> {s..e}"
proof (induction l)
  case (Cons x l)
  have "{max (r_s x) s..min (r_e x) e} = {r_s x..r_e x} \<inter> {s..e}"
    by (rule set_eqI) auto
  moreover have "{r_s x..r_e x} \<inter> {s..e} = {}" if "\<not> (r_s x \<le> e \<and> s \<le> r_e x)"
    using that by (meson Int_iff atLeastAtMost_iff equals0I order_trans)
  ultimately show ?case using Cons by (auto simp only: filter.simps list.map set_simps elems_simps split: if_splits)
qed simp


section \<open>Properties\<close>

text \<open>
  C30. Adding \<open>[s, e]\<close> to a well-formed rangeset never faults; on success the set of numbers grows by
  exactly \<open>[s, e]\<close>, on any failure (the security hook refuses, or \<open>xmalloc\<close> fails) the rangeset is
  unchanged; the ranges stay sorted, non-empty and separated by gaps, so each set has one
  representation. The hook's refusal is the only failure when memory is available.\<close>

theorem rangeset_add_correct:
  assumes "rs_wf r" "s \<le> e"
  shows "\<exists>rc r'. rangeset_add_range xsm alloc r s e = Inr (rc, r') \<and> rs_wf r' \<and>
    (if rc = 0 then rs_elems r' = rs_elems r \<union> {s..e} else r' = r) \<and>
    (alloc \<longrightarrow> rc = xsm r s e)"
proof -
  obtain rc r' where law: "rangeset_add_range xsm alloc r s e = Inr (rc, r')" "rs_wf r'"
    "if rc = 0 then rs_elems r' = rs_elems r \<union> {s..e} else r' = r"
    using rangeset_add_range_law[OF assms] by blast
  have "alloc \<longrightarrow> rc = xsm r s e"
    using law(1) add_range_alloc_ok[OF assms] assms(2)
    by (auto simp: rangeset_add_range_def Let_def split: if_splits)
  with law show ?thesis by blast
qed

theorem rangeset_add_correct_witness:
  "\<exists>rc r'. rangeset_add_range (\<lambda>_ _ _. 0) True
      \<lparr>owner = None, range_list = [\<lparr>r_s = 2, r_e = 4\<rparr>, \<lparr>r_s = 9, r_e = 9\<rparr>], rs_name = [], flags = 0\<rparr> 5 7
      = Inr (rc, r') \<and> rs_wf r' \<and> rc = 0"
  using rangeset_add_correct[of "\<lparr>owner = None, range_list = [\<lparr>r_s = 2, r_e = 4\<rparr>, \<lparr>r_s = 9, r_e = 9\<rparr>],
      rs_name = [], flags = 0\<rparr>" 5 7 "\<lambda>_ _ _. 0" True]
  by (auto simp: before_def)

text \<open>
  C31. Removing \<open>[s, e]\<close> from a well-formed rangeset never faults, removes exactly \<open>[s, e]\<close> from the
  set and keeps the list well-formed, in two cases: the two ends fall into the same range or gap; or
  they do not, \<open>e\<close> is not \<open>ULONG_MAX\<close>, and the range found for \<open>s\<close>, if any, reaches at least to
  \<open>s - 1\<close>. On any failure nothing changes. Outside these cases the code does something else
  (\<open>rangeset_remove_extends\<close>, \<open>rangeset_remove_wraps\<close>).\<close>

theorem rangeset_remove_correct:
  assumes "rs_wf r" "s \<le> e" "remove_safe (range_list r) s e"
  shows "\<exists>rc r'. rangeset_remove_range xsm alloc r s e = Inr (rc, r') \<and> rs_wf r' \<and>
    (if rc = 0 then rs_elems r' = rs_elems r - {s..e} else r' = r)"
  using rangeset_remove_range_law[OF assms] .

definition demo_ranges :: rangeset where
  "demo_ranges = \<lparr>owner = None, range_list = [\<lparr>r_s = 2, r_e = 4\<rparr>, \<lparr>r_s = 9, r_e = 20\<rparr>], rs_name = [], flags = 0\<rparr>"

theorem rangeset_remove_correct_witness:
  "\<exists>rc r'. rangeset_remove_range (\<lambda>_ _ _. 0) True demo_ranges 5 12 = Inr (rc, r') \<and> rs_wf r' \<and>
      (if rc = 0 then rs_elems r' = rs_elems demo_ranges - {5..12} else r' = demo_ranges)"
  by (rule rangeset_remove_correct) (auto simp: demo_ranges_def remove_safe_def find_range_def before_def)

text \<open>
  With \<open>e = ULONG_MAX\<close> the new start \<open>e + 1\<close> of the last range wraps to 0: removing \<open>[5, ULONG_MAX]\<close>
  from the ranges \<open>[0, 4]\<close> and \<open>[10, 20]\<close> reports success, removes nothing, adds the numbers from 5 to
  9 and leaves a list that is not well-formed.\<close>

lemma rangeset_remove_wraps:
  "rangeset_remove_range (\<lambda>_ _ _. 0) alloc
     \<lparr>owner = None, range_list = [\<lparr>r_s = 0, r_e = 4\<rparr>, \<lparr>r_s = 10, r_e = 20\<rparr>], rs_name = [], flags = 0\<rparr> 5 (- 1) =
   Inr (0, \<lparr>owner = None, range_list = [\<lparr>r_s = 0, r_e = 4\<rparr>, \<lparr>r_s = 0, r_e = 20\<rparr>], rs_name = [], flags = 0\<rparr>)"
  by code_simp

text \<open>
  C32. What a removal over several ranges does to the set, in all cases but \<open>e = ULONG_MAX\<close>: the numbers
  of \<open>[s, e]\<close> go, but the range below \<open>s\<close> is made to end at \<open>s - 1\<close>, so that the numbers between its
  old end and \<open>s\<close> are added to the set.\<close>

theorem rangeset_remove_extends:
  assumes "rs_wf r" "s \<le> e" "e \<noteq> - 1" "xsm r s e = 0"
    and "find_range (range_list r) s = Some x" "find_range (range_list r) e \<noteq> Some x"
    and "r_s (range_list r ! x) < s"
  shows "\<exists>r'. rangeset_remove_range xsm alloc r s e = Inr (0, r') \<and> rs_wf r' \<and>
    rs_elems r' = (rs_elems r - {s..e}) \<union> {r_s (range_list r ! x)..s - 1}"
  using remove_range_locked_exact[of "range_list r" s e alloc] assms
  by (auto simp: rangeset_remove_range_def)

theorem rangeset_remove_extends_witness:
  "\<exists>r'. rangeset_remove_range (\<lambda>_ _ _. 0) True
     \<lparr>owner = None, range_list = [\<lparr>r_s = 2, r_e = 4\<rparr>, \<lparr>r_s = 20, r_e = 30\<rparr>], rs_name = [], flags = 0\<rparr> 10 25
     = Inr (0, r') \<and> rs_wf r' \<and> 7 \<in> rs_elems r'"
  using rangeset_remove_extends[of "\<lparr>owner = None, range_list = [\<lparr>r_s = 2, r_e = 4\<rparr>, \<lparr>r_s = 20, r_e = 30\<rparr>],
      rs_name = [], flags = 0\<rparr>" 10 25 "\<lambda>_ _ _. 0" 0 True]
  by (auto simp: before_def find_range_def)

text \<open>
  The two queries of a well-formed rangeset decide containment and overlap of \<open>[s, e]\<close> exactly; a
  call with \<open>s > e\<close> fails the assertion.\<close>

lemma rangeset_queries_exact:
  assumes "rs_wf r"
  shows "rangeset_contains_range r s e = (if s \<le> e then Inr ({s..e} \<subseteq> rs_elems r) else Inl Assert_failed) \<and>
    rangeset_overlaps_range r s e = (if s \<le> e then Inr ({s..e} \<inter> rs_elems r \<noteq> {}) else Inl Assert_failed)"
  using rangeset_contains_range_law[OF assms, of s e] rangeset_overlaps_range_law[OF assms, of s e]
  by (cases "s \<le> e") (simp_all add: rangeset_contains_range_def rangeset_overlaps_range_def)

lemma rangeset_queries_exact_witness:
  "rangeset_contains_range \<lparr>owner = None, range_list = [\<lparr>r_s = 2, r_e = 4\<rparr>], rs_name = [], flags = 0\<rparr> 3 4 = Inr True \<and>
   rangeset_overlaps_range \<lparr>owner = None, range_list = [\<lparr>r_s = 2, r_e = 4\<rparr>], rs_name = [], flags = 0\<rparr> 3 4 = Inr True"
  using rangeset_queries_exact[of "\<lparr>owner = None, range_list = [\<lparr>r_s = 2, r_e = 4\<rparr>], rs_name = [], flags = 0\<rparr>" 3 4]
  by auto

text \<open>
  \<open>rangeset_report_ranges\<close> with a callback that collects its arguments: when some range starts at or
  below \<open>s\<close> the reported intervals cover exactly the members within \<open>[s, e]\<close>; when every range starts
  above \<open>s\<close> nothing at all is reported, whatever lies within \<open>[s, e]\<close>.\<close>

lemma rangeset_report_exact:
  assumes "rs_wf r" "s \<le> e"
  shows "\<exists>l. rangeset_report_ranges r s e (\<lambda>a b acc. (0, acc @ [(a, b)])) [] = (0, l) \<and>
    (\<Union>(a, b)\<in>set l. {a..b}) =
      (if \<forall>x\<in>set (range_list r). s < r_s x then {} else rs_elems r \<inter> {s..e})"
proof (cases "find_range (range_list r) s = None")
  case True
  then have "takeWhile (\<lambda>y. r_s y \<le> s) (range_list r) = []"
    by (simp add: find_range_eq last_ptr_def split: if_splits)
  then have "\<forall>x\<in>set (range_list r). s < r_s x"
    using assms(1) by (cases "range_list r") (auto simp: before_def split: if_splits)
  then show ?thesis using True by (simp add: rangeset_report_ranges_def report_loop.simps)
next
  case False
  then have "\<not> (\<forall>x\<in>set (range_list r). s < r_s x)"
    by (metis find_range_eq last_ptr_simps(1) not_less takeWhile_eq_Nil_iff list.set_sel(1))
  then show ?thesis
    using report_ranges_collect[OF assms False] collected_elems[of s e "range_list r"]
    by (simp only: if_False) blast
qed

lemma rangeset_report_exact_witness:
  "\<exists>l. rangeset_report_ranges \<lparr>owner = None, range_list = [\<lparr>r_s = 2, r_e = 4\<rparr>], rs_name = [], flags = 0\<rparr> 1 9
     (\<lambda>a b acc. (0, acc @ [(a, b)])) [] = (0, l) \<and> (\<Union>(a, b)\<in>set l. {a..b}) = ({} :: u64 set)"
  using rangeset_report_exact[of "\<lparr>owner = None, range_list = [\<lparr>r_s = 2, r_e = 4\<rparr>], rs_name = [], flags = 0\<rparr>" 1 9]
  by simp

text \<open>
  Destroying a domain's rangesets, when the domain lists and the owner fields agree, never faults or
  stops the hypervisor: it frees exactly the rangesets the domain owns, empties its list, leaves every
  other domain's list and rangeset alone and keeps the agreement.\<close>

lemma rangeset_domain_destroy_correct:
  assumes "rs_inv st"
  shows "\<exists>st'. rangeset_domain_destroy d st = Inr st' \<and> rs_inv st' \<and> dom_rangesets st' d = [] \<and>
    (\<forall>k. k \<noteq> d \<longrightarrow> dom_rangesets st' k = dom_rangesets st k) \<and>
    (\<forall>a. rs_heap st' a =
       (if \<exists>r. rs_heap st a = Some r \<and> owner r = Some d then None else rs_heap st a))"
  using rangeset_domain_destroy_result[OF assms, of d]
  unfolding rs_inv_member[OF assms, of _ d] .

lemma rangeset_domain_destroy_correct_witness:
  "\<exists>st'. rangeset_domain_destroy 1 \<lparr>rs_heap = (\<lambda>a. if a = 5 then
        Some \<lparr>owner = Some 1, range_list = [], rs_name = [], flags = 0\<rparr> else None),
      dom_rangesets = (\<lambda>d. if d = 1 then [5] else [])\<rparr> = Inr st' \<and> rs_heap st' 5 = None"
proof -
  let ?st = "\<lparr>rs_heap = (\<lambda>a. if a = 5 then
        Some \<lparr>owner = Some 1, range_list = [], rs_name = [], flags = 0\<rparr> else None),
      dom_rangesets = (\<lambda>d. if d = 1 then [5] else [])\<rparr>"
  have "rs_inv ?st" by (auto simp: rs_inv_def split: if_splits)
  from rangeset_domain_destroy_correct[OF this, of 1] obtain st' where
    "rangeset_domain_destroy 1 ?st = Inr st'"
    "\<forall>a. rs_heap st' a =
       (if \<exists>r. rs_heap ?st a = Some r \<and> owner r = Some 1 then None else rs_heap ?st a)"
    by blast
  then show ?thesis by simp
qed

end
