(* ===== verification/EPT_P2M.thy ===== *)
theory EPT_P2M
  imports Rangeset
begin

unbundle bit_operations_syntax

text \<open>
  The guest-physical to machine map on extended page tables, \<open>arch/x86/mm/hap/p2m-ept.c\<close>. Tables are
  page frames of 512 entries; the model keeps the contents of all frames that may hold a table, the pool
  they are taken from (\<open>hap.c\<close>), and a log of the effects whose order matters (TLB synchronisation,
  IOMMU updates, tables given back). Code of other parts of the hypervisor that the file calls is a
  parameter of the record \<open>ept_env\<close>: the memory type of a frame (\<open>mtrr.c\<close>), frame validity, the
  populate-on-demand cache (\<open>p2m.c\<close>) and the configuration flags. The read-only MMIO ranges are a
  rangeset.
\<close>

section \<open>Data\<close>

datatype p2m_type =
    p2m_invalid | p2m_ram_rw | p2m_ram_logdirty | p2m_ram_ro | p2m_mmio_dm | p2m_mmio_direct
  | p2m_populate_on_demand | p2m_grant_map_rw | p2m_grant_map_ro | p2m_ram_paging_out | p2m_ram_paged
  | p2m_ram_paging_in | p2m_ram_paging_in_start | p2m_ram_shared | p2m_ram_broken

datatype p2m_access =
    p2m_access_n | p2m_access_r | p2m_access_w | p2m_access_rw | p2m_access_x | p2m_access_rx
  | p2m_access_wx | p2m_access_rwx | p2m_access_rx2rw

datatype p2m_query_t = p2m_query | p2m_alloc | p2m_guest

definition p2m_is_grant :: "p2m_type \<Rightarrow> bool" where
  "p2m_is_grant t \<longleftrightarrow> t \<in> {p2m_grant_map_rw, p2m_grant_map_ro}"

definition p2m_is_paged :: "p2m_type \<Rightarrow> bool" where
  "p2m_is_paged t \<longleftrightarrow> t = p2m_ram_paged"

definition p2m_is_ram :: "p2m_type \<Rightarrow> bool" where
  "p2m_is_ram t \<longleftrightarrow> t \<in> {p2m_ram_rw, p2m_ram_logdirty, p2m_ram_ro, p2m_ram_paging_out, p2m_ram_paged,
     p2m_ram_paging_in_start, p2m_ram_paging_in, p2m_ram_shared}"

definition p2m_has_emt :: "p2m_type \<Rightarrow> bool" where
  "p2m_has_emt t \<longleftrightarrow> p2m_is_ram t \<or> t = p2m_mmio_direct"

text \<open>
  An entry by its bit fields; the fields no code of the file touches are left out. The field \<open>mfn\<close> has 40
  bits: storing truncates.
\<close>

record ept_entry =
  e_r :: bool
  e_w :: bool
  e_x :: bool
  emt :: "3 word"
  ipat :: bool
  sp :: bool
  rsvd2_snp :: bool
  e_mfn :: u64
  sa_p2mt :: p2m_type
  e_access :: p2m_access

definition epte_zero :: ept_entry where
  "epte_zero = \<lparr>e_r = False, e_w = False, e_x = False, emt = 0, ipat = False, sp = False,
     rsvd2_snp = False, e_mfn = 0, sa_p2mt = p2m_invalid, e_access = p2m_access_n\<rparr>"

definition mfn_field :: "u64 \<Rightarrow> u64" where
  "mfn_field m = take_bit 40 m"

definition is_epte_present :: "ept_entry \<Rightarrow> bool" where
  "is_epte_present e \<longleftrightarrow> e_r e \<or> e_w e \<or> e_x e"

definition is_epte_superpage :: "ept_entry \<Rightarrow> bool" where
  "is_epte_superpage e = sp e"

datatype ept_event =
    Ept_sync
  | Iommu_pte_flush u64 nat bool
  | Iommu_map u64 u64
  | Iommu_unmap u64
  | Free_table u64

record p2m_domain =
  tables :: "u64 \<Rightarrow> nat \<Rightarrow> ept_entry"
  freelist :: "u64 list"
  pages :: "u64 list"
  max_mapped_pfn :: u64
  default_access :: p2m_access
  asr :: u64
  wl :: nat
  events :: "ept_event list"

record ept_env =
  mfn_valid :: "u64 \<Rightarrow> bool"
  epte_get_entry_emt :: "u64 \<Rightarrow> u64 \<Rightarrow> bool \<Rightarrow> 3 word \<times> bool"
  mmio_ro_ranges :: rangeset
  iommu_enabled :: bool
  iommu_snoop :: bool
  need_iommu :: bool
  iommu_hap_pt_share :: bool
  has_1gb :: bool
  has_2mb :: bool
  p2m_pod_demand_populate :: "p2m_domain \<Rightarrow> u64 \<Rightarrow> nat \<Rightarrow> p2m_query_t \<Rightarrow> bool \<times> p2m_domain"

definition set_table :: "p2m_domain \<Rightarrow> u64 \<Rightarrow> nat \<Rightarrow> ept_entry \<Rightarrow> p2m_domain" where
  "set_table p m i e = p\<lparr>tables := (tables p)(m := (tables p m)(i := e))\<rparr>"

definition log_event :: "ept_event \<Rightarrow> p2m_domain \<Rightarrow> p2m_domain" where
  "log_event ev p = p\<lparr>events := events p @ [ev]\<rparr>"

section \<open>Table pages\<close>

text \<open>\<open>hap_alloc\<close> takes the head of the pool and clears it; \<open>p2m_alloc_ptp\<close> records it.\<close>

definition p2m_alloc_ptp :: "p2m_domain \<Rightarrow> (u64 \<times> p2m_domain) option" where
  "p2m_alloc_ptp p =
     (case freelist p of
        [] \<Rightarrow> None
      | m # ms \<Rightarrow> Some (m, p\<lparr>freelist := ms, tables := (tables p)(m := \<lambda>_. epte_zero),
                               pages := pages p @ [m]\<rparr>))"

definition p2m_free_ptp :: "p2m_domain \<Rightarrow> u64 \<Rightarrow> p2m_domain" where
  "p2m_free_ptp p m =
     log_event (Free_table m) (p\<lparr>pages := remove1 m (pages p), freelist := freelist p @ [m]\<rparr>)"

section \<open>Entries\<close>

definition ept_pod_check_and_populate ::
  "ept_env \<Rightarrow> p2m_domain \<Rightarrow> u64 \<Rightarrow> ept_entry \<Rightarrow> nat \<Rightarrow> p2m_query_t \<Rightarrow> bool \<times> p2m_domain" where
  "ept_pod_check_and_populate env p gfn e order q =
     (if sa_p2mt e \<noteq> p2m_populate_on_demand then (False, p)
      else p2m_pod_demand_populate env p gfn order q)"

definition type_flags :: "ept_env \<Rightarrow> ept_entry \<Rightarrow> p2m_type \<Rightarrow> ept_entry" where
  "type_flags env e t =
     (case t of
        p2m_ram_rw \<Rightarrow> e\<lparr>e_r := True, e_w := True, e_x := True\<rparr>
      | p2m_mmio_direct \<Rightarrow>
          e\<lparr>e_r := True, e_x := True,
            e_w := (rangeset_contains_singleton (mmio_ro_ranges env) (e_mfn e) \<noteq> Inr True)\<rparr>
      | p2m_ram_logdirty \<Rightarrow> e\<lparr>e_r := True, e_x := True, e_w := False\<rparr>
      | p2m_ram_ro \<Rightarrow> e\<lparr>e_r := True, e_x := True, e_w := False\<rparr>
      | p2m_ram_shared \<Rightarrow> e\<lparr>e_r := True, e_x := True, e_w := False\<rparr>
      | p2m_grant_map_rw \<Rightarrow> e\<lparr>e_r := True, e_w := True, e_x := False\<rparr>
      | p2m_grant_map_ro \<Rightarrow> e\<lparr>e_r := True, e_w := False, e_x := False\<rparr>
      | _ \<Rightarrow> e\<lparr>e_r := False, e_w := False, e_x := False\<rparr>)"

definition access_flags :: "ept_entry \<Rightarrow> p2m_access \<Rightarrow> ept_entry" where
  "access_flags e a =
     (case a of
        p2m_access_n \<Rightarrow> e\<lparr>e_r := False, e_w := False, e_x := False\<rparr>
      | p2m_access_r \<Rightarrow> e\<lparr>e_w := False, e_x := False\<rparr>
      | p2m_access_w \<Rightarrow> e\<lparr>e_r := False, e_x := False\<rparr>
      | p2m_access_x \<Rightarrow> e\<lparr>e_r := False, e_w := False\<rparr>
      | p2m_access_rx \<Rightarrow> e\<lparr>e_w := False\<rparr>
      | p2m_access_rx2rw \<Rightarrow> e\<lparr>e_w := False\<rparr>
      | p2m_access_wx \<Rightarrow> e\<lparr>e_r := False\<rparr>
      | p2m_access_rw \<Rightarrow> e\<lparr>e_x := False\<rparr>
      | p2m_access_rwx \<Rightarrow> e)"

definition ept_p2m_type_to_flags :: "ept_env \<Rightarrow> ept_entry \<Rightarrow> p2m_type \<Rightarrow> p2m_access \<Rightarrow> ept_entry" where
  "ept_p2m_type_to_flags env e t a = access_flags (type_flags env e t) a"

text \<open>The new middle entry, to be written by the caller; \<open>None\<close>: no table page left.\<close>

definition ept_set_middle_entry :: "p2m_domain \<Rightarrow> (ept_entry \<times> p2m_domain) option" where
  "ept_set_middle_entry p =
     (case p2m_alloc_ptp p of
        None \<Rightarrow> None
      | Some (m, p') \<Rightarrow>
          Some (epte_zero\<lparr>e_mfn := mfn_field m, e_access := default_access p', e_r := True, e_w := True,
                          e_x := True\<rparr>, p'))"

fun ept_free_entry :: "nat \<Rightarrow> ept_entry \<Rightarrow> p2m_domain \<Rightarrow> p2m_domain" where
  "ept_free_entry 0 e p = p"
| "ept_free_entry (Suc l) e p =
     (if \<not> is_epte_present e \<or> is_epte_superpage e then p
      else let p1 = (if Suc l > 1
                     then fold (\<lambda>i p. ept_free_entry l (tables p (e_mfn e) i) p) [0..<512] p else p)
           in p2m_free_ptp p1 (e_mfn e))"

section \<open>Splitting a superpage\<close>

text \<open>A loop over the entries of a table that stops when its body returns 0.\<close>

fun split_loop ::
  "(nat \<Rightarrow> p2m_domain \<Rightarrow> (bool \<times> p2m_domain) result) \<Rightarrow> nat list \<Rightarrow> p2m_domain \<Rightarrow> (bool \<times> p2m_domain) result" where
  "split_loop body [] p = Inr (True, p)"
| "split_loop body (i # is) p =
     bindR (body i p) (\<lambda>(rv, p'). if rv then split_loop body is p' else Inr (False, p'))"

text \<open>Entry \<open>i\<close> of the table that replaces the superpage entry \<open>e\<close> of level \<open>Suc l\<close>.\<close>

definition split_child :: "ept_env \<Rightarrow> ept_entry \<Rightarrow> nat \<Rightarrow> nat \<Rightarrow> ept_entry" where
  "split_child env e l i =
     (let trunk = push_bit (l * 9) 1 :: u64;
          c = epte_zero\<lparr>emt := emt e, ipat := ipat e, sp := (Suc l > 1), e_access := e_access e,
                        sa_p2mt := sa_p2mt e, e_mfn := mfn_field (e_mfn e + of_nat i * trunk),
                        rsvd2_snp := (iommu_enabled env \<and> iommu_snoop env)\<rparr>
      in ept_p2m_type_to_flags env c (sa_p2mt c) (e_access c))"

fun ept_split_super_page ::
  "ept_env \<Rightarrow> nat \<Rightarrow> nat \<Rightarrow> ept_entry \<Rightarrow> p2m_domain \<Rightarrow> (bool \<times> ept_entry \<times> p2m_domain) result" where
  "ept_split_super_page env target 0 e p = Inr (True, e, p)"
| "ept_split_super_page env target (Suc l) e p =
     (if Suc l = target then Inr (True, e, p)
      else if \<not> is_epte_superpage e then Inl Assert_failed
      else case ept_set_middle_entry p of
             None \<Rightarrow> Inr (False, e, p)
           | Some (new_ept, p1) \<Rightarrow>
               bindR (split_loop (\<lambda>i p.
                   let c = split_child env e l i;
                       p2 = set_table p (e_mfn new_ept) i c
                   in if l = target then Inr (True, p2)
                      else if \<not> is_epte_superpage c then Inl Assert_failed
                      else bindR (ept_split_super_page env target l c p2)
                             (\<lambda>(rv, c', p3). Inr (rv, set_table p3 (e_mfn new_ept) i c'))) [0..<512] p1)
                 (\<lambda>(rv, p4). Inr (rv, new_ept, p4)))"

section \<open>Walking down\<close>

datatype table_ret = MAP_FAILED | NORMAL_PAGE | SUPER_PAGE | POD_PAGE

definition level_index :: "u64 \<Rightarrow> nat \<Rightarrow> nat" where
  "level_index rem i = unat (ucast (drop_bit (i * 9) rem) :: u32)"

text \<open>The result: return value, table mapped now, remaining gfn, and the map.\<close>

definition ept_next_level ::
  "bool \<Rightarrow> u64 \<Rightarrow> u64 \<Rightarrow> nat \<Rightarrow> p2m_domain \<Rightarrow> (table_ret \<times> u64 \<times> u64 \<times> p2m_domain) result" where
  "ept_next_level read_only table gfn_remainder next_level p =
     (let index = level_index gfn_remainder next_level;
          e = tables p table index;
          go = (\<lambda>e p. if is_epte_superpage e then Inr (SUPER_PAGE, table, gfn_remainder, p)
                     else Inr (NORMAL_PAGE, e_mfn e, gfn_remainder AND (push_bit (next_level * 9) 1 - 1), p))
      in if \<not> index < 512 then Inl Assert_failed
         else if \<not> is_epte_present e
         then (if sa_p2mt e = p2m_populate_on_demand then Inr (POD_PAGE, table, gfn_remainder, p)
               else if read_only then Inr (MAP_FAILED, table, gfn_remainder, p)
               else case ept_set_middle_entry p of
                      None \<Rightarrow> Inr (MAP_FAILED, table, gfn_remainder, p)
                    | Some (e', p') \<Rightarrow> go e' (set_table p' table index e'))
         else go e p)"

section \<open>Setting an entry\<close>

text \<open>\<open>for (i = wl; i > target; i--)\<close>: walk down until the target level, a failure or a leaf.\<close>

function set_walk ::
  "nat \<Rightarrow> nat \<Rightarrow> table_ret \<Rightarrow> u64 \<Rightarrow> u64 \<Rightarrow> p2m_domain
     \<Rightarrow> (table_ret \<times> nat \<times> u64 \<times> u64 \<times> p2m_domain) result" where
  "set_walk target i ret table rem p =
     (if i > target
      then bindR (ept_next_level False table rem i p) (\<lambda>(ret', table', rem', p').
             if ret' = NORMAL_PAGE then set_walk target (i - 1) ret' table' rem' p'
             else Inr (ret', i, table', rem', p'))
      else Inr (ret, i, table, rem, p))"
  by pat_completeness auto
termination
  by (relation "measure (\<lambda>(target, i, r, t, m, p). i)") auto

declare set_walk.simps [simp del]

text \<open>\<open>for ( ; i > target; i--) ept_next_level(...)\<close>, which ignores the return value.\<close>

fun descend :: "nat \<Rightarrow> nat \<Rightarrow> u64 \<Rightarrow> u64 \<Rightarrow> p2m_domain \<Rightarrow> (u64 \<times> u64 \<times> p2m_domain) result" where
  "descend target 0 table rem p = Inr (table, rem, p)"
| "descend target (Suc i) table rem p =
     (if Suc i > target
      then bindR (ept_next_level False table rem (Suc i) p) (\<lambda>(ret, table', rem', p').
             descend target i table' rem' p')
      else Inr (table, rem, p))"

definition new_leaf :: "ept_env \<Rightarrow> u64 \<Rightarrow> u64 \<Rightarrow> bool \<Rightarrow> p2m_type \<Rightarrow> p2m_access \<Rightarrow> ept_entry" where
  "new_leaf env gfn mfn is_sp t a =
     (let (m, ip) = epte_get_entry_emt env gfn mfn (t = p2m_mmio_direct);
          e = epte_zero\<lparr>emt := m, ipat := ip, sp := is_sp, sa_p2mt := t, e_access := a,
                        rsvd2_snp := (iommu_enabled env \<and> iommu_snoop env)\<rparr>;
          e' = (if e_mfn e = mfn then e else e\<lparr>e_mfn := mfn_field mfn\<rparr>)
      in ept_p2m_type_to_flags env e' t a)"

text \<open>\<open>need_modify_vtd_table\<close> compares the frame with the one in the blank new entry.\<close>

definition vtd_modify :: "u64 \<Rightarrow> bool" where
  "vtd_modify mfn \<longleftrightarrow> \<not> e_mfn epte_zero = mfn"

definition iommu_update ::
  "ept_env \<Rightarrow> u64 \<Rightarrow> u64 \<Rightarrow> nat \<Rightarrow> p2m_type \<Rightarrow> u64 \<Rightarrow> bool \<Rightarrow> p2m_domain \<Rightarrow> p2m_domain" where
  "iommu_update env gfn mfn order t offset vtd_pte_present p =
     (if iommu_hap_pt_share env then log_event (Iommu_pte_flush gfn order vtd_pte_present) p
      else if t = p2m_ram_rw
      then (if order > 0
            then fold (\<lambda>i. log_event (Iommu_map (gfn - offset + of_nat i) (mfn - offset + of_nat i)))
                   [0..<2 ^ order] p
            else log_event (Iommu_map gfn mfn) p)
      else (if order > 0
            then fold (\<lambda>i. log_event (Iommu_unmap (gfn - offset + of_nat i))) [0..<2 ^ order] p
            else log_event (Iommu_unmap gfn) p))"

text \<open>What follows the label \<open>out\<close>.\<close>

definition set_entry_out ::
  "ept_env \<Rightarrow> u64 \<Rightarrow> u64 \<Rightarrow> nat \<Rightarrow> p2m_type \<Rightarrow> nat \<Rightarrow> bool \<Rightarrow> bool \<Rightarrow> bool \<Rightarrow> bool \<Rightarrow> u64 \<Rightarrow> ept_entry
     \<Rightarrow> p2m_domain \<Rightarrow> bool \<times> p2m_domain" where
  "set_entry_out env gfn mfn order t target rv needs_sync need_modify vtd_present offset old_entry p =
     (let p1 = (if needs_sync then log_event Ept_sync p else p);
          p2 = (if rv \<and> iommu_enabled env \<and> need_iommu env \<and> need_modify
                then iommu_update env gfn mfn order t offset vtd_present p1 else p1);
          p3 = (if is_epte_present old_entry then ept_free_entry target old_entry p2 else p2)
      in (rv, p3))"

definition track_max :: "ept_env \<Rightarrow> u64 \<Rightarrow> u64 \<Rightarrow> nat \<Rightarrow> p2m_domain \<Rightarrow> p2m_domain" where
  "track_max env gfn mfn order p =
     (if mfn_valid env mfn \<and> gfn + push_bit order 1 - 1 > max_mapped_pfn p
      then p\<lparr>max_mapped_pfn := gfn + push_bit order 1 - 1\<rparr> else p)"

definition ept_set_entry ::
  "ept_env \<Rightarrow> u64 \<Rightarrow> u64 \<Rightarrow> nat \<Rightarrow> p2m_type \<Rightarrow> p2m_access \<Rightarrow> p2m_domain \<Rightarrow> (bool \<times> p2m_domain) result" where
  "ept_set_entry env gfn mfn order p2mt p2ma p =
     (let target = order div 9; direct_mmio = (p2mt = p2m_mmio_direct)
      in if (gfn OR mfn) AND (push_bit order 1 - 1) \<noteq> 0 \<or> drop_bit ((wl p + 1) * 9) gfn \<noteq> 0 \<or> order mod 9 \<noteq> 0
         then Inr (False, p)
         else if \<not> (target = 2 \<and> has_1gb env \<or> target = 1 \<and> has_2mb env \<or> target = 0) then Inl Assert_failed
         else bindR (set_walk target (wl p) MAP_FAILED (asr p) gfn p) (\<lambda>(ret, i, table, rem, p1).
           if i > target \<and> ret = MAP_FAILED
           then Inr (set_entry_out env gfn mfn order p2mt target False True True False 0 epte_zero p1)
           else if ret = POD_PAGE \<and> i = target then Inl Assert_failed
           else let index = level_index rem i;
                    offset = rem AND (push_bit (i * 9) 1 - 1);
                    ept_entry = tables p1 table index;
                    vtd_present = is_epte_present ept_entry
                in if i = target
                   then let needs_sync = is_epte_present ept_entry;
                            valid = (mfn_valid env mfn \<or> direct_mmio \<or> p2m_is_paged p2mt
                                     \<or> p2mt = p2m_ram_paging_in_start);
                            new_entry = (if valid then new_leaf env gfn mfn (order \<noteq> 0) p2mt p2ma
                                         else epte_zero);
                            need_modify = (if valid then vtd_modify mfn else True);
                            p2 = track_max env gfn mfn order (set_table p1 table index new_entry)
                        in Inr (set_entry_out env gfn mfn order p2mt target True needs_sync need_modify
                                  vtd_present offset ept_entry p2)
                   else if \<not> is_epte_superpage ept_entry then Inl Assert_failed
                   else bindR (ept_split_super_page env target i ept_entry p1) (\<lambda>(ok, split_ept_entry, p2).
                     if \<not> ok
                     then Inr (set_entry_out env gfn mfn order p2mt target False True True vtd_present offset
                                 epte_zero (ept_free_entry i split_ept_entry p2))
                     else bindR (descend target i table rem (set_table p2 table index split_ept_entry))
                       (\<lambda>(table', rem', p3).
                         let index' = level_index rem' target;
                             offset' = rem' AND (push_bit (target * 9) 1 - 1);
                             p4 = track_max env gfn mfn order
                                    (set_table p3 table' index' (new_leaf env gfn mfn (target \<noteq> 0) p2mt p2ma))
                         in Inr (set_entry_out env gfn mfn order p2mt target True True (vtd_modify mfn)
                                   vtd_present offset' epte_zero p4)))))"

section \<open>Reading entries\<close>

definition INVALID_MFN :: u64 where "INVALID_MFN = - 1"

text \<open>
  The walk of \<open>ept_get_entry\<close>. \<open>Out\<close> ends the call (label \<open>out\<close>) with the type reported so far; \<open>Leaf\<close>
  goes on with the level, table and remainder reached. A retry after the populate-on-demand call is bounded by \<open>fuel\<close>:
  \<open>None\<close> is a loop that did not end.
\<close>

datatype get_result = Out p2m_type | Leaf nat u64 u64

fun get_walk ::
  "nat \<Rightarrow> ept_env \<Rightarrow> u64 \<Rightarrow> p2m_query_t \<Rightarrow> nat \<Rightarrow> u64 \<Rightarrow> u64 \<Rightarrow> p2m_domain
     \<Rightarrow> (get_result \<times> p2m_domain) result option" where
  "get_walk fuel env gfn q 0 table rem p = Some (Inr (Leaf 0 table rem, p))"
| "get_walk 0 env gfn q (Suc i) table rem p = None"
| "get_walk (Suc fuel) env gfn q (Suc i) table rem p =
     (case ept_next_level True table rem (Suc i) p of
        Inl f \<Rightarrow> Some (Inl f)
      | Inr (MAP_FAILED, _, _, p') \<Rightarrow> Some (Inr (Out p2m_mmio_dm, p'))
      | Inr (POD_PAGE, table', rem', p') \<Rightarrow>
          if q = p2m_query then Some (Inr (Out p2m_populate_on_demand, p'))
          else if Suc i \<noteq> 1 then Some (Inl Assert_failed)
          else (case ept_pod_check_and_populate env p' gfn (tables p' table' (level_index rem' (Suc i))) 9 q of
                  (False, p2) \<Rightarrow> get_walk fuel env gfn q (Suc i) table' rem' p2
                | (True, p2) \<Rightarrow> Some (Inr (Out p2m_mmio_dm, p2)))
      | Inr (SUPER_PAGE, table', rem', p') \<Rightarrow> Some (Inr (Leaf (Suc i) table' rem', p'))
      | Inr (NORMAL_PAGE, table', rem', p') \<Rightarrow> get_walk (Suc fuel) env gfn q i table' rem' p')"

text \<open>The result: frame, type, access, and the map (populating changes it).\<close>

definition ept_get_entry ::
  "nat \<Rightarrow> ept_env \<Rightarrow> u64 \<Rightarrow> p2m_query_t \<Rightarrow> p2m_domain
     \<Rightarrow> (u64 \<times> p2m_type \<times> p2m_access \<times> p2m_domain) result option" where
  "ept_get_entry fuel env gfn q p =
     (if gfn > max_mapped_pfn p then Some (Inr (INVALID_MFN, p2m_mmio_dm, p2m_access_n, p))
      else case get_walk fuel env gfn q (wl p) (asr p) gfn p of
             None \<Rightarrow> None
           | Some (Inl f) \<Rightarrow> Some (Inl f)
           | Some (Inr (Out t, p1)) \<Rightarrow> Some (Inr (INVALID_MFN, t, p2m_access_n, p1))
           | Some (Inr (Leaf i table rem, p1)) \<Rightarrow>
               let index = level_index rem i;
                   e = tables p1 table index;
                   finish = (\<lambda>p. let e = tables p table index
                      in if sa_p2mt e \<noteq> p2m_invalid
                         then (if i \<noteq> 0 then e_mfn e + (rem AND (push_bit (i * 9) 1 - 1)) else e_mfn e,
                               sa_p2mt e, e_access e, p)
                         else (INVALID_MFN, p2m_mmio_dm, p2m_access_n, p))
               in if sa_p2mt e = p2m_populate_on_demand
                  then (if q = p2m_query
                        then Some (Inr (INVALID_MFN, p2m_populate_on_demand, p2m_access_n, p1))
                        else if i \<noteq> 0 then Some (Inl Assert_failed)
                        else case ept_pod_check_and_populate env p1 gfn e 0 q of
                               (True, p2) \<Rightarrow> Some (Inr (INVALID_MFN, p2m_mmio_dm, p2m_access_n, p2))
                             | (False, p2) \<Rightarrow> Some (Inr (finish p2)))
                  else Some (Inr (finish p1)))"

definition ept_get_entry_current ::
  "nat \<Rightarrow> ept_env \<Rightarrow> u64 \<Rightarrow> p2m_query_t \<Rightarrow> p2m_domain
     \<Rightarrow> (u64 \<times> p2m_type \<times> p2m_access \<times> p2m_domain) result option" where
  "ept_get_entry_current fuel env gfn q p = ept_get_entry fuel env gfn q p"

text \<open>The entry itself and its level; \<open>level\<close> keeps its old value on the failing paths.\<close>

fun content_walk :: "nat \<Rightarrow> u64 \<Rightarrow> u64 \<Rightarrow> p2m_domain \<Rightarrow> (nat \<times> u64 \<times> u64) option result" where
  "content_walk 0 table rem p = Inr (Some (0, table, rem))"
| "content_walk (Suc i) table rem p =
     bindR (ept_next_level True table rem (Suc i) p) (\<lambda>(ret, table', rem', p').
       if ret = MAP_FAILED \<or> ret = POD_PAGE then Inr None
       else if ret = SUPER_PAGE then Inr (Some (Suc i, table', rem'))
       else content_walk i table' rem' p')"

definition ept_get_entry_content :: "p2m_domain \<Rightarrow> u64 \<Rightarrow> nat \<Rightarrow> (ept_entry \<times> nat) result" where
  "ept_get_entry_content p gfn level =
     (if gfn > max_mapped_pfn p then Inr (epte_zero, level)
      else bindR (content_walk (wl p) (asr p) gfn p) (\<lambda>w. case w of
             None \<Rightarrow> Inr (epte_zero, level)
           | Some (i, table, rem) \<Rightarrow> Inr (tables p table (level_index rem i), i)))"

text \<open>The entries \<open>ept_walk_table\<close> prints on its way down.\<close>

fun walk_table_loop :: "nat \<Rightarrow> u64 \<Rightarrow> u64 \<Rightarrow> p2m_domain \<Rightarrow> ept_entry list" where
  "walk_table_loop 0 table rem p = [tables p table (level_index rem 0)]"
| "walk_table_loop (Suc i) table rem p =
     (let e = tables p table (level_index rem (Suc i))
      in e # (if \<not> is_epte_present e \<or> is_epte_superpage e then []
              else walk_table_loop i (e_mfn e) (rem AND (push_bit (Suc i * 9) 1 - 1)) p))"

definition ept_walk_table :: "p2m_domain \<Rightarrow> u64 \<Rightarrow> ept_entry list" where
  "ept_walk_table p gfn = (if gfn > max_mapped_pfn p then [] else walk_table_loop (wl p) (asr p) gfn p)"

section \<open>Changing many entries\<close>

definition need_modify_ept_entry :: "ept_env \<Rightarrow> u64 \<Rightarrow> u64 \<Rightarrow> bool \<Rightarrow> 3 word \<Rightarrow> p2m_type \<Rightarrow> bool" where
  "need_modify_ept_entry env gfn mfn o_ipat o_emt t =
     (case epte_get_entry_emt env gfn mfn (t = p2m_mmio_direct) of
        (m, ip) \<Rightarrow> \<not> (m = o_emt \<and> ip = o_ipat))"

text \<open>\<open>while (level)\<close>: the largest aligned piece of the superpage within the range; the result is gfn and the map.\<close>

fun emt_superpage ::
  "ept_env \<Rightarrow> ept_entry \<Rightarrow> u64 \<Rightarrow> nat \<Rightarrow> u64 \<Rightarrow> p2m_domain \<Rightarrow> (u64 \<times> p2m_domain) result" where
  "emt_superpage env e end_gfn 0 gfn p = Inr (gfn, p)"
| "emt_superpage env e end_gfn (Suc level) gfn p =
     (let trunk = push_bit (Suc level * 9) 1 - 1
      in if gfn AND trunk = 0 \<and> gfn + trunk \<le> end_gfn
         then bindR (if need_modify_ept_entry env gfn (e_mfn e) (ipat e) (emt e) (sa_p2mt e)
                     then bindR (ept_set_entry env gfn (e_mfn e) (Suc level * 9) (sa_p2mt e) (e_access e) p)
                            (\<lambda>(_, p'). Inr p')
                     else Inr p) (\<lambda>p'. Inr (gfn + trunk, p'))
         else emt_superpage env e end_gfn level gfn p)"

definition emt_step :: "ept_env \<Rightarrow> u64 \<Rightarrow> u64 \<Rightarrow> p2m_domain \<Rightarrow> (u64 \<times> p2m_domain) result" where
  "emt_step env end_gfn gfn p =
     bindR (ept_get_entry_content p gfn 0) (\<lambda>(e, level).
       if \<not> p2m_has_emt (sa_p2mt e) then Inr (gfn, p)
       else if is_epte_superpage e then emt_superpage env e end_gfn level gfn p
       else if need_modify_ept_entry env gfn (e_mfn e) (ipat e) (emt e) (sa_p2mt e)
       then bindR (ept_set_entry env gfn (e_mfn e) 0 (sa_p2mt e) (e_access e) p) (\<lambda>(_, p'). Inr (gfn, p'))
       else Inr (gfn, p))"

text \<open>The loop over the range need not end (\<open>end_gfn\<close> may be the last number): \<open>None\<close> is divergence.\<close>

partial_function (option) emt_range :: "ept_env \<Rightarrow> u64 \<Rightarrow> u64 \<Rightarrow> p2m_domain \<Rightarrow> p2m_domain result option" where
  "emt_range env end_gfn gfn p =
     (if gfn \<le> end_gfn
      then (case emt_step env end_gfn gfn p of
              Inl f \<Rightarrow> Some (Inl f)
            | Inr (gfn', p') \<Rightarrow> emt_range env end_gfn (gfn' + 1) p')
      else Some (Inr p))"

definition ept_change_entry_emt_with_range ::
  "ept_env \<Rightarrow> u64 \<Rightarrow> u64 \<Rightarrow> p2m_domain \<Rightarrow> p2m_domain result option" where
  "ept_change_entry_emt_with_range env start_gfn end_gfn p = emt_range env end_gfn start_gfn p"

fun ept_change_entry_type_page ::
  "ept_env \<Rightarrow> p2m_type \<Rightarrow> p2m_type \<Rightarrow> nat \<Rightarrow> u64 \<Rightarrow> p2m_domain \<Rightarrow> p2m_domain" where
  "ept_change_entry_type_page env ot nt level m p =
     fold (\<lambda>i p.
       let e = tables p m i
       in if \<not> is_epte_present e then p
          else if level > 0 \<and> \<not> is_epte_superpage e
          then (case level of 0 \<Rightarrow> p | Suc l \<Rightarrow> ept_change_entry_type_page env ot nt l (e_mfn e) p)
          else if sa_p2mt e \<noteq> ot then p
          else set_table p m i (ept_p2m_type_to_flags env (e\<lparr>sa_p2mt := nt\<rparr>) nt (e_access e))) [0..<512] p"

declare ept_change_entry_type_page.simps [simp del]

definition ept_change_entry_type_global ::
  "ept_env \<Rightarrow> p2m_type \<Rightarrow> p2m_type \<Rightarrow> p2m_domain \<Rightarrow> p2m_domain result" where
  "ept_change_entry_type_global env ot nt p =
     (if asr p = 0 then Inr p
      else if p2m_is_grant ot \<or> p2m_is_grant nt then Inl Bug_on
      else if ot \<noteq> nt \<and> (ot = p2m_mmio_direct \<or> nt = p2m_mmio_direct) then Inl Bug_on
      else Inr (log_event Ept_sync (ept_change_entry_type_page env ot nt (wl p) (asr p) p)))"

section \<open>Indices\<close>

definition idx :: "nat \<Rightarrow> nat \<Rightarrow> nat" where
  "idx l g = (g div 512 ^ l) mod 512"

lemma idx_less [simp]: "idx l g < 512"
  by (simp add: idx_def)

lemma pow512: "(512 :: nat) ^ l = 2 ^ (l * 9)"
  by (induction l) (simp_all add: power_add)

lemma mod_mult_div: "(a mod (b * c)) div b = (a div b) mod (c :: nat)"
  by (cases "b = 0") (simp_all add: mod_mult2_eq)

lemma idx_mod: "l < i \<Longrightarrow> idx l (g mod 512 ^ i) = idx l g"
proof -
  assume "l < i"
  then obtain k where "i = l + Suc k" using less_imp_Suc_add by fastforce
  then have k: "(512 :: nat) ^ i = 512 ^ l * 512 ^ Suc k" by (simp only: power_add)
  have "(512 :: nat) dvd 512 ^ Suc k" by simp
  then have "x mod 512 ^ Suc k mod 512 = x mod 512" for x :: nat by (rule mod_mod_cancel)
  then show ?thesis by (simp only: idx_def k mod_mult_div)
qed

lemma unat_drop_bit: "unat (drop_bit n (w :: u64)) = unat w div 2 ^ n"
proof -
  have "unat (drop_bit n w) = drop_bit n (unat w)"
    using bit_imp_le_length[of w]
    by (intro bit_eqI) (auto simp: bit_unsigned_iff bit_drop_bit_eq)
  then show ?thesis by (simp only: drop_bit_eq_div)
qed

lemma unat_take_bit: "unat (take_bit n (w :: u64)) = unat w mod 2 ^ n"
proof -
  have "unat (take_bit n w) = take_bit n (unat w)" by (rule unsigned_take_bit_eq)
  then show ?thesis by (simp only: take_bit_eq_mod[of n "unat w"])
qed

lemma level_index_eq:
  assumes "unat rem = g mod 512 ^ Suc i"
  shows "level_index rem i = idx i g"
proof -
  have "(512 :: nat) ^ Suc i = 512 ^ i * 512" by simp
  then have u: "unat (drop_bit (i * 9) rem) = idx i g"
    by (simp only: unat_drop_bit assms pow512[symmetric] mod_mult_div idx_def)
  have "idx i g < 2 ^ 32" using idx_less[of i g] by (rule less_trans) simp
  then have "take_bit 32 (idx i g) = idx i g" by (rule take_bit_nat_eq_self)
  then show ?thesis by (simp add: level_index_def unsigned_ucast_eq u)
qed

lemma and_low_mask: "(rem :: u64) AND (push_bit n 1 - 1) = take_bit n rem"
  by (simp add: take_bit_eq_mask mask_eq_exp_minus_1 push_bit_eq_mult)

lemma unat_and_low_mask:
  assumes "unat rem = g mod 512 ^ Suc i"
  shows "unat ((rem :: u64) AND (push_bit (i * 9) 1 - 1)) = g mod 512 ^ i"
proof -
  have "(512 :: nat) ^ i dvd 512 ^ Suc i" by simp
  then show ?thesis
    by (simp only: and_low_mask unat_take_bit assms pow512[symmetric] mod_mod_cancel)
qed

section \<open>Tables as trees\<close>

definition is_link :: "ept_entry \<Rightarrow> bool" where
  "is_link e \<longleftrightarrow> is_epte_present e \<and> \<not> is_epte_superpage e"

text \<open>The frames of the tables below table \<open>m\<close> of level \<open>i\<close>, and that no table is used twice.\<close>

fun tabs :: "(u64 \<Rightarrow> nat \<Rightarrow> ept_entry) \<Rightarrow> nat \<Rightarrow> u64 \<Rightarrow> u64 set" where
  "tabs T 0 m = {m}"
| "tabs T (Suc i) m = insert m (\<Union>k\<in>{k. k < 512 \<and> is_link (T m k)}. tabs T i (e_mfn (T m k)))"

fun wf_tree :: "(u64 \<Rightarrow> nat \<Rightarrow> ept_entry) \<Rightarrow> nat \<Rightarrow> u64 \<Rightarrow> bool" where
  "wf_tree T 0 m = True"
| "wf_tree T (Suc i) m \<longleftrightarrow>
     (\<forall>k<512. is_link (T m k) \<longrightarrow> wf_tree T i (e_mfn (T m k)) \<and> m \<notin> tabs T i (e_mfn (T m k))) \<and>
     (\<forall>k<512. \<forall>k'<512. k \<noteq> k' \<longrightarrow> is_link (T m k) \<longrightarrow> is_link (T m k') \<longrightarrow>
        tabs T i (e_mfn (T m k)) \<inter> tabs T i (e_mfn (T m k')) = {})"

text \<open>The entry that translates \<open>g\<close>, with its level.\<close>

fun ept_lookup :: "(u64 \<Rightarrow> nat \<Rightarrow> ept_entry) \<Rightarrow> nat \<Rightarrow> u64 \<Rightarrow> nat \<Rightarrow> nat \<times> ept_entry" where
  "ept_lookup T 0 m g = (0, T m (idx 0 g))"
| "ept_lookup T (Suc i) m g =
     (let e = T m (idx (Suc i) g) in if is_link e then ept_lookup T i (e_mfn e) g else (Suc i, e))"

lemma tabs_self [simp]: "m \<in> tabs T i m"
  by (cases i) simp_all

lemma agree_tabs:
  assumes "\<forall>x\<in>tabs T i m. T' x = T x"
  shows "tabs T' i m = tabs T i m" and "wf_tree T' i m = wf_tree T i m"
    and "ept_lookup T' i m g = ept_lookup T i m g"
proof -
  have "tabs T' i m = tabs T i m \<and> wf_tree T' i m = wf_tree T i m \<and> ept_lookup T' i m g = ept_lookup T i m g"
    using assms
  proof (induction i arbitrary: m)
    case 0
    then show ?case by simp
  next
    case (Suc i)
    have m: "T' m = T m" using Suc.prems by simp
    have IH: "tabs T' i c = tabs T i c \<and> wf_tree T' i c = wf_tree T i c \<and>
        ept_lookup T' i c g = ept_lookup T i c g"
      if "k < 512" "is_link (T m k)" "c = e_mfn (T m k)" for k c
      by (rule Suc.IH) (use Suc.prems that in auto)
    have "tabs T' (Suc i) m = tabs T (Suc i) m" using IH by (auto simp: m)
    moreover have "wf_tree T' (Suc i) m = wf_tree T (Suc i) m" using IH by (simp add: m)
    moreover have "ept_lookup T' (Suc i) m g = ept_lookup T (Suc i) m g" using IH by (simp add: m Let_def)
    ultimately show ?case by blast
  qed
  then show "tabs T' i m = tabs T i m" and "wf_tree T' i m = wf_tree T i m"
    and "ept_lookup T' i m g = ept_lookup T i m g" by blast+
qed

text \<open>Walking along \<open>g\<close> from table \<open>m\<close> of level \<open>i\<close> reaches table \<open>n\<close> of level \<open>j\<close>.\<close>

inductive ept_path ::
  "(u64 \<Rightarrow> nat \<Rightarrow> ept_entry) \<Rightarrow> nat \<Rightarrow> nat \<Rightarrow> u64 \<Rightarrow> nat \<Rightarrow> u64 \<Rightarrow> bool" for T g j n where
  path_here: "ept_path T g j n j n"
| path_down: "is_link (T m (idx (Suc i) g)) \<Longrightarrow> ept_path T g j n i (e_mfn (T m (idx (Suc i) g))) \<Longrightarrow>
    ept_path T g j n (Suc i) m"

lemma ept_path_le: "ept_path T g j n i m \<Longrightarrow> j \<le> i"
  by (induction rule: ept_path.induct) auto

lemma ept_path_tabs: "ept_path T g j n i m \<Longrightarrow> tabs T j n \<subseteq> tabs T i m"
proof (induction rule: ept_path.induct)
  case (path_down m i)
  then show ?case by (auto intro!: exI[of _ "idx (Suc i) g"])
qed simp

lemma ept_path_trans:
  "ept_path T g j n i m \<Longrightarrow> ept_path T g k l j n \<Longrightarrow> ept_path T g k l i m"
  by (induction rule: ept_path.induct) (auto intro: ept_path.intros)

text \<open>\<open>g\<close> and \<open>g'\<close> take the same way from level \<open>i\<close> down to level \<open>j\<close>.\<close>

definition same_way :: "nat \<Rightarrow> nat \<Rightarrow> nat \<Rightarrow> nat \<Rightarrow> bool" where
  "same_way j i g g' \<longleftrightarrow> (\<forall>l. j < l \<and> l \<le> i \<longrightarrow> idx l g' = idx l g)"

lemma same_way_refl [simp]: "same_way j j g g'"
  by (simp add: same_way_def)

lemma same_way_Suc: "j \<le> i \<Longrightarrow> same_way j (Suc i) g g' \<longleftrightarrow> idx (Suc i) g' = idx (Suc i) g \<and> same_way j i g g'"
  by (auto simp: same_way_def le_Suc_eq)

text \<open>
  Replacing the subtree below one table: if the new contents \<open>T'\<close> differ only in tables of that subtree and
  in fresh ones \<open>F\<close>, and the new subtree is well formed and made of those, then the whole tree is, and only the
  addresses that lead into the subtree see the change.
\<close>

lemma replace_subtree:
  assumes "ept_path T g j n i m" "wf_tree T i m"
    and "\<forall>x. x \<notin> tabs T j n \<union> F \<longrightarrow> T' x = T x" "F \<inter> tabs T i m = {}"
    and "tabs T' j n \<subseteq> tabs T j n \<union> F" "wf_tree T' j n"
  shows "wf_tree T' i m \<and> tabs T' i m \<subseteq> tabs T i m \<union> F \<and> ept_path T' g j n i m \<and>
    (\<forall>g'. ept_lookup T' i m g' = (if same_way j i g g' then ept_lookup T' j n g' else ept_lookup T i m g'))"
  using assms
proof (induction rule: ept_path.induct)
  case path_here
  then show ?case by (auto intro: ept_path.intros)
next
  case (path_down m i)
  let ?k = "idx (Suc i) g"
  let ?c = "e_mfn (T m ?k)"
  have wfc: "wf_tree T i ?c" "m \<notin> tabs T i ?c" using path_down by auto
  have sub: "tabs T i ?c \<subseteq> tabs T (Suc i) m" using path_down.hyps(1) by (auto intro!: exI[of _ ?k])
  note sc = ept_path_tabs[OF path_down.hyps(2)]
  have IH: "wf_tree T' i ?c" "tabs T' i ?c \<subseteq> tabs T i ?c \<union> F" "ept_path T' g j n i ?c"
    "\<And>g'. ept_lookup T' i ?c g' = (if same_way j i g g' then ept_lookup T' j n g' else ept_lookup T i ?c g')"
    using path_down.IH[OF wfc(1) path_down.prems(2) _ path_down.prems(4,5)] path_down.prems(3) sub by blast+
  have Fm: "m \<notin> F" using path_down.prems(3) by auto
  have m: "T' m = T m" using path_down.prems(2) wfc(2) sc Fm by blast
  have other: "tabs T' i (e_mfn (T m k)) = tabs T i (e_mfn (T m k))"
    "wf_tree T' i (e_mfn (T m k)) = wf_tree T i (e_mfn (T m k))"
    "ept_lookup T' i (e_mfn (T m k)) g' = ept_lookup T i (e_mfn (T m k)) g'"
    if "k < 512" "k \<noteq> ?k" "is_link (T m k)" for k g'
  proof -
    have "tabs T i (e_mfn (T m k)) \<inter> tabs T i ?c = {}"
      using path_down.prems(1) path_down.hyps(1) that idx_less[of "Suc i" g] by auto
    moreover have "F \<inter> tabs T i (e_mfn (T m k)) = {}" using path_down.prems(3) that by auto
    ultimately have "\<forall>x\<in>tabs T i (e_mfn (T m k)). T' x = T x" using path_down.prems(2) sc by blast
    from agree_tabs[OF this] show "tabs T' i (e_mfn (T m k)) = tabs T i (e_mfn (T m k))"
      "wf_tree T' i (e_mfn (T m k)) = wf_tree T i (e_mfn (T m k))"
      "ept_lookup T' i (e_mfn (T m k)) g' = ept_lookup T i (e_mfn (T m k)) g'" by blast+
  qed
  have tk: "tabs T' i (e_mfn (T m k)) \<subseteq> tabs T i (e_mfn (T m k)) \<union> F" if "k < 512" "is_link (T m k)" for k
    using other(1)[of k] IH(2) that by (cases "k = ?k") auto
  have "tabs T' (Suc i) m \<subseteq> tabs T (Suc i) m \<union> F" using tk by (fastforce simp: m)
  moreover have "wf_tree T' (Suc i) m"
    unfolding wf_tree.simps m
  proof (intro conjI allI impI)
    fix k assume k: "k < 512" "is_link (T m k)"
    show "wf_tree T' i (e_mfn (T m k))"
      using other(2)[of k] IH(1) path_down.prems(1) k by (cases "k = ?k") auto
    show "m \<notin> tabs T' i (e_mfn (T m k))" using tk[OF k] Fm path_down.prems(1) k by auto
  next
    fix k k' assume k: "k < 512" "k' < 512" "k \<noteq> k'" "is_link (T m k)" "is_link (T m k')"
    have d: "tabs T i (e_mfn (T m k)) \<inter> tabs T i (e_mfn (T m k')) = {}"
      using path_down.prems(1) k by auto
    have F: "F \<inter> tabs T i (e_mfn (T m l)) = {}" if "l < 512" "is_link (T m l)" for l
      using path_down.prems(3) that by auto
    show "tabs T' i (e_mfn (T m k)) \<inter> tabs T' i (e_mfn (T m k')) = {}"
    proof (cases "k = ?k")
      case True
      then have "tabs T' i (e_mfn (T m k')) = tabs T i (e_mfn (T m k'))" using other(1) k by blast
      then show ?thesis using tk[OF k(1,4)] d F[OF k(2,5)] by auto
    next
      case False
      then have "tabs T' i (e_mfn (T m k)) = tabs T i (e_mfn (T m k))" using other(1) k by blast
      then show ?thesis using tk[OF k(2,5)] d F[OF k(1,4)] by auto
    qed
  qed
  moreover have "ept_path T' g j n (Suc i) m"
    using path_down.hyps(1) IH(3) by (simp add: m ept_path.path_down)
  moreover have "ept_lookup T' (Suc i) m g' =
      (if same_way j (Suc i) g g' then ept_lookup T' j n g' else ept_lookup T (Suc i) m g')" for g'
  proof -
    have "j \<le> i" using ept_path_le[OF path_down.hyps(2)] .
    then show ?thesis
      using IH(4)[of g'] other(3)[of "idx (Suc i) g'" g'] path_down.hyps(1)
      by (cases "idx (Suc i) g' = ?k") (auto simp: m Let_def same_way_Suc)
  qed
  ultimately show ?case by blast
qed

text \<open>
  Writing entry \<open>k\<close> of one table, where a new link leads into fresh tables \<open>F\<close> only.
\<close>

lemma set_entry_at:
  assumes wf: "wf_tree T j n" and k: "k < 512" and n: "T' n = (T n)(k := e)"
    and out: "\<forall>x. x \<notin> insert n F \<longrightarrow> T' x = T x" and F: "F \<inter> tabs T j n = {}"
    and link: "\<And>i. j = Suc i \<Longrightarrow> is_link e \<Longrightarrow> tabs T' i (e_mfn e) \<subseteq> F \<and> wf_tree T' i (e_mfn e)"
  shows "wf_tree T' j n" "tabs T' j n \<subseteq> tabs T j n \<union> F"
    "ept_lookup T' j n g = (if idx j g \<noteq> k then ept_lookup T j n g
       else if 0 < j \<and> is_link e then ept_lookup T' (j - 1) (e_mfn e) g else (j, e))"
proof -
  have "wf_tree T' j n \<and> tabs T' j n \<subseteq> tabs T j n \<union> F \<and>
    ept_lookup T' j n g = (if idx j g \<noteq> k then ept_lookup T j n g
       else if 0 < j \<and> is_link e then ept_lookup T' (j - 1) (e_mfn e) g else (j, e))"
  proof (cases j)
    case 0
    then show ?thesis using n by auto
  next
    case (Suc i)
    have nF: "n \<notin> F" using F by auto
    have other: "tabs T' i (e_mfn (T n l)) = tabs T i (e_mfn (T n l))"
      "wf_tree T' i (e_mfn (T n l)) = wf_tree T i (e_mfn (T n l))"
      "ept_lookup T' i (e_mfn (T n l)) g = ept_lookup T i (e_mfn (T n l)) g"
      if "l < 512" "is_link (T n l)" for l
    proof -
      have "n \<notin> tabs T i (e_mfn (T n l))" using wf that Suc by auto
      moreover have "F \<inter> tabs T i (e_mfn (T n l)) = {}" using F that Suc by auto
      ultimately have "x \<notin> insert n F" if "x \<in> tabs T i (e_mfn (T n l))" for x using that by auto
      then have "\<forall>x\<in>tabs T i (e_mfn (T n l)). T' x = T x" using out by simp
      from agree_tabs[OF this] show "tabs T' i (e_mfn (T n l)) = tabs T i (e_mfn (T n l))"
        "wf_tree T' i (e_mfn (T n l)) = wf_tree T i (e_mfn (T n l))"
        "ept_lookup T' i (e_mfn (T n l)) g = ept_lookup T i (e_mfn (T n l)) g" by blast+
    qed
    have tl: "tabs T' i (e_mfn (T' n l)) \<subseteq> (if l = k then F else tabs T i (e_mfn (T n l)))"
      if "l < 512" "is_link (T' n l)" for l
      using other(1)[of l] link[OF Suc] that n by (cases "l = k") auto
    have "wf_tree T' (Suc i) n"
      unfolding wf_tree.simps
    proof (intro conjI allI impI)
      fix l assume l: "l < 512" "is_link (T' n l)"
      show "wf_tree T' i (e_mfn (T' n l))"
        using link[OF Suc] other(2)[of l] wf l Suc n by (cases "l = k") auto
      show "n \<notin> tabs T' i (e_mfn (T' n l))"
        using tl[OF l] nF wf l Suc n by (cases "l = k") auto
    next
      fix l l' assume l: "l < 512" "l' < 512" "l \<noteq> l'" "is_link (T' n l)" "is_link (T' n l')"
      show "tabs T' i (e_mfn (T' n l)) \<inter> tabs T' i (e_mfn (T' n l')) = {}"
      proof (cases "l = k \<or> l' = k")
        case True
        then show ?thesis using tl[OF l(1,4)] tl[OF l(2,5)] F l n Suc by (auto split: if_splits)
      next
        case False
        then show ?thesis using tl[OF l(1,4)] tl[OF l(2,5)] wf l n Suc by fastforce
      qed
    qed
    moreover have "tabs T' (Suc i) n \<subseteq> tabs T (Suc i) n \<union> F"
    proof -
      have "tabs T' i (e_mfn (T' n l)) \<subseteq> tabs T (Suc i) n \<union> F" if "l < 512" "is_link (T' n l)" for l
        using tl[OF that] that n by (cases "l = k") auto
      then show ?thesis by auto
    qed
    moreover have "ept_lookup T' (Suc i) n g = (if idx (Suc i) g \<noteq> k then ept_lookup T (Suc i) n g
       else if is_link e then ept_lookup T' i (e_mfn e) g else (Suc i, e))"
      using other(3)[of "idx (Suc i) g"] by (simp add: n Let_def)
    ultimately show ?thesis using Suc by simp
  qed
  then show "wf_tree T' j n" "tabs T' j n \<subseteq> tabs T j n \<union> F"
    "ept_lookup T' j n g = (if idx j g \<noteq> k then ept_lookup T j n g
       else if 0 < j \<and> is_link e then ept_lookup T' (j - 1) (e_mfn e) g else (j, e))" by blast+
qed

lemma ept_path_lookup:
  assumes "ept_path T g j n i m" "same_way j i g g'"
  shows "ept_lookup T i m g' = ept_lookup T j n g'"
  using assms
proof (induction rule: ept_path.induct)
  case (path_down m i)
  have "j \<le> i" using ept_path_le[OF path_down.hyps(2)] .
  then show ?case using path_down by (simp add: same_way_Suc Let_def)
qed simp

section \<open>Reading is looking up\<close>

text \<open>What the map says of \<open>g\<close>, given the entry found and its level.\<close>

definition ept_translate :: "nat \<times> ept_entry \<Rightarrow> nat \<Rightarrow> u64 \<times> p2m_type \<times> p2m_access" where
  "ept_translate le g =
     (case le of (l, e) \<Rightarrow>
        if sa_p2mt e = p2m_populate_on_demand then (INVALID_MFN, p2m_populate_on_demand, p2m_access_n)
        else if sa_p2mt e = p2m_invalid \<or> (l > 0 \<and> \<not> is_epte_present e)
        then (INVALID_MFN, p2m_mmio_dm, p2m_access_n)
        else (e_mfn e + of_nat (g mod 512 ^ l), sa_p2mt e, e_access e))"

definition ept_abs :: "p2m_domain \<Rightarrow> nat \<Rightarrow> u64 \<times> p2m_type \<times> p2m_access" where
  "ept_abs p g = ept_translate (ept_lookup (tables p) (wl p) (asr p) g) g"

lemma next_level_read:
  fixes p :: p2m_domain and m :: u64
  assumes "unat rem = g mod 512 ^ Suc (Suc i)"
  defines "e \<equiv> tables p m (idx (Suc i) g)"
  shows "ept_next_level True m rem (Suc i) p =
    (if \<not> is_epte_present e
     then Inr (if sa_p2mt e = p2m_populate_on_demand then POD_PAGE else MAP_FAILED, m, rem, p)
     else if is_epte_superpage e then Inr (SUPER_PAGE, m, rem, p)
     else Inr (NORMAL_PAGE, e_mfn e, rem AND (push_bit (Suc i * 9) 1 - 1), p))"
  using level_index_eq[OF assms(1)] by (simp add: ept_next_level_def Let_def e_def)

lemma get_walk_query:
  assumes "unat rem = g mod 512 ^ Suc i" "ept_lookup (tables p) i m g = (l, e)"
  shows "\<exists>r. get_walk (Suc f) env gfn p2m_query i m rem p = Some (Inr (r, p)) \<and>
    (if l > 0 \<and> \<not> is_epte_present e
     then r = Out (if sa_p2mt e = p2m_populate_on_demand then p2m_populate_on_demand else p2m_mmio_dm)
     else \<exists>tb rm. r = Leaf l tb rm \<and> unat rm = g mod 512 ^ Suc l \<and> tables p tb (idx l g) = e)"
  using assms
proof (induction i arbitrary: m rem)
  case 0
  then show ?case by auto
next
  case (Suc i)
  let ?e = "tables p m (idx (Suc i) g)"
  note nl = next_level_read[OF Suc.prems(1), where p = p and m = m]
  consider "\<not> is_epte_present ?e" | "is_epte_present ?e" "sp ?e" | "is_link ?e"
    by (auto simp: is_link_def is_epte_superpage_def)
  then show ?case
  proof cases
    case 1
    then show ?thesis using nl Suc.prems(2) by (auto simp: is_link_def)
  next
    case 2
    then show ?thesis using nl Suc.prems by (auto simp: is_link_def is_epte_superpage_def)
  next
    case 3
    let ?r = "rem AND (push_bit (Suc i * 9) 1 - 1)"
    have "unat ?r = g mod 512 ^ Suc i" using unat_and_low_mask[OF Suc.prems(1)] .
    moreover have "ept_lookup (tables p) i (e_mfn ?e) g = (l, e)" using Suc.prems(2) 3 by simp
    moreover have "get_walk (Suc f) env gfn p2m_query (Suc i) m rem p =
        get_walk (Suc f) env gfn p2m_query i (e_mfn ?e) ?r p"
      using nl 3 by (simp add: is_link_def)
    ultimately show ?thesis using Suc.IH by presburger
  qed
qed

lemma ept_get_entry_abs:
  assumes "gfn \<le> max_mapped_pfn p" "unat gfn < 512 ^ Suc (wl p)"
  shows "ept_get_entry (Suc f) env gfn p2m_query p =
    Some (Inr (case ept_abs p (unat gfn) of (m, t, a) \<Rightarrow> (m, t, a, p)))"
proof -
  obtain l e where le: "ept_lookup (tables p) (wl p) (asr p) (unat gfn) = (l, e)" by fastforce
  have "unat gfn = unat gfn mod 512 ^ Suc (wl p)" using assms(2) by simp
  from get_walk_query[OF this le, of f env gfn] obtain r where
    w: "get_walk (Suc f) env gfn p2m_query (wl p) (asr p) gfn p = Some (Inr (r, p))" and
    r: "if l > 0 \<and> \<not> is_epte_present e
     then r = Out (if sa_p2mt e = p2m_populate_on_demand then p2m_populate_on_demand else p2m_mmio_dm)
     else \<exists>tb rm. r = Leaf l tb rm \<and> unat rm = unat gfn mod 512 ^ Suc l \<and> tables p tb (idx l (unat gfn)) = e"
    by blast
  have mx: "\<not> gfn > max_mapped_pfn p" using assms(1) by simp
  show ?thesis
  proof (cases "l > 0 \<and> \<not> is_epte_present e")
    case True
    then show ?thesis using r w mx le by (auto simp: ept_get_entry_def ept_abs_def ept_translate_def)
  next
    case False
    then obtain tb rm where L: "r = Leaf l tb rm" "unat rm = unat gfn mod 512 ^ Suc l"
      "tables p tb (idx l (unat gfn)) = e" using r by auto
    have off: "rm AND (push_bit (l * 9) 1 - 1) = of_nat (unat gfn mod 512 ^ l)"
      unfolding unat_and_low_mask[OF L(2), symmetric] by simp
    have ix: "level_index rm l = idx l (unat gfn)" using level_index_eq[OF L(2)] .
    have e: "tables p tb (level_index rm l) = e" using ix L(3) by simp
    have zero: "l = 0 \<Longrightarrow> of_nat (unat gfn mod 512 ^ l) = (0 :: u64)" by simp
    show ?thesis
      using mx False zero
      by (simp only: ept_get_entry_def ept_abs_def le w L(1) e Let_def off ept_translate_def
          option.case sum.case prod.case get_result.case if_False if_True p2m_query_t.simps refl) auto
  qed
qed

section \<open>The invariant of the map\<close>

text \<open>
  The tables form a tree, and the pool holds distinct frames, with numbers that fit the entry field, none of
  which is in use as a table.
\<close>

definition pool_ok :: "p2m_domain \<Rightarrow> bool" where
  "pool_ok p \<longleftrightarrow> distinct (freelist p) \<and> (\<forall>m\<in>set (freelist p). mfn_field m = m)"

definition ept_wf :: "p2m_domain \<Rightarrow> bool" where
  "ept_wf p \<longleftrightarrow> wf_tree (tables p) (wl p) (asr p) \<and> pool_ok p \<and>
     set (freelist p) \<inter> tabs (tables p) (wl p) (asr p) = {}"

text \<open>The frames of every mapped superpage fit the 40 bits of an entry.\<close>

definition frames_fit :: "p2m_domain \<Rightarrow> bool" where
  "frames_fit p \<longleftrightarrow> (\<forall>g l e. ept_lookup (tables p) (wl p) (asr p) g = (l, e) \<and> l > 0 \<and> is_epte_present e \<longrightarrow>
     unat (e_mfn e) + 512 ^ l \<le> 2 ^ 40)"

text \<open>Two states with the same configuration, differing in tables and pool only.\<close>

definition same_config :: "p2m_domain \<Rightarrow> p2m_domain \<Rightarrow> bool" where
  "same_config p p' \<longleftrightarrow> wl p' = wl p \<and> asr p' = asr p \<and> max_mapped_pfn p' = max_mapped_pfn p \<and>
     default_access p' = default_access p \<and> events p' = events p"

lemma same_config_refl [simp]: "same_config p p"
  by (simp add: same_config_def)

lemma same_config_trans [trans]: "same_config p q \<Longrightarrow> same_config q r \<Longrightarrow> same_config p r"
  by (simp add: same_config_def)

lemma set_table_simps [simp]:
  "tables (set_table p m i e) = (tables p)(m := (tables p m)(i := e))"
  "freelist (set_table p m i e) = freelist p"
  "same_config p (set_table p m i e)"
  by (simp_all add: set_table_def same_config_def)

lemma epte_zero_simps [simp]:
  "\<not> is_epte_present epte_zero" "\<not> is_link epte_zero" "sa_p2mt epte_zero = p2m_invalid" "e_mfn epte_zero = 0"
  by (simp_all add: epte_zero_def is_epte_present_def is_link_def)

lemma ept_set_middle_entry_Some:
  assumes "ept_set_middle_entry p = Some (e, p')" "pool_ok p"
  obtains fs where "freelist p = e_mfn e # fs" "freelist p' = fs" "is_link e"
    "tables p' = (tables p)(e_mfn e := \<lambda>_. epte_zero)" "same_config p p'" "pool_ok p'"
proof -
  obtain f fs where f: "freelist p = f # fs"
    using assms(1) by (cases "freelist p") (auto simp: ept_set_middle_entry_def p2m_alloc_ptp_def)
  have e: "e = epte_zero\<lparr>e_mfn := f, e_access := default_access p, e_r := True, e_w := True, e_x := True\<rparr>"
    and p': "p' = p\<lparr>freelist := fs, tables := (tables p)(f := \<lambda>_. epte_zero), pages := pages p @ [f]\<rparr>"
    using assms f by (auto simp: ept_set_middle_entry_def p2m_alloc_ptp_def pool_ok_def)
  have "is_link e" "e_mfn e = f"
    unfolding e by (simp_all add: is_link_def is_epte_present_def is_epte_superpage_def epte_zero_def)
  then show thesis
    using that[of fs] assms(2) f by (simp add: p' pool_ok_def same_config_def)
qed

lemma zero_table:
  assumes "T f = (\<lambda>_. epte_zero)"
  shows "tabs T i f = {f}" "wf_tree T i f" "ept_lookup T i f g = (i, epte_zero)"
  using assms by (cases i; simp)+

text \<open>A change below the table that a walk along \<open>g\<close> has reached.\<close>

lemma ept_wf_replace:
  assumes wf: "ept_wf p" and cfg: "same_config p p'" and path: "ept_path (tables p) g j n (wl p) (asr p)"
    and fl: "freelist p = F @ freelist p'"
    and out: "\<forall>x. x \<notin> tabs (tables p) j n \<union> set F \<longrightarrow> tables p' x = tables p x"
    and sub: "tabs (tables p') j n \<subseteq> tabs (tables p) j n \<union> set F" "wf_tree (tables p') j n"
  shows "ept_wf p'" "ept_path (tables p') g j n (wl p') (asr p')"
    "ept_abs p' g' = (if same_way j (wl p) g g' then ept_translate (ept_lookup (tables p') j n g') g'
       else ept_abs p g')"
    "ept_lookup (tables p') (wl p') (asr p') g' =
      (if same_way j (wl p) g g' then ept_lookup (tables p') j n g' else ept_lookup (tables p) (wl p) (asr p) g')"
proof -
  have "set F \<inter> tabs (tables p) (wl p) (asr p) = {}" using wf fl by (auto simp: ept_wf_def)
  from replace_subtree[OF path _ out this sub] wf
  have r: "wf_tree (tables p') (wl p) (asr p)" "tabs (tables p') (wl p) (asr p) \<subseteq> tabs (tables p) (wl p) (asr p) \<union> set F"
    "ept_path (tables p') g j n (wl p) (asr p)"
    "ept_lookup (tables p') (wl p) (asr p) g' =
      (if same_way j (wl p) g g' then ept_lookup (tables p') j n g' else ept_lookup (tables p) (wl p) (asr p) g')"
    by (auto simp: ept_wf_def)
  have "pool_ok p'" "set (freelist p') \<inter> set F = {}" using wf fl by (auto simp: ept_wf_def pool_ok_def)
  moreover have "set (freelist p') \<inter> tabs (tables p) (wl p) (asr p) = {}" using wf fl by (auto simp: ept_wf_def)
  ultimately show "ept_wf p'" using r(1,2) cfg unfolding ept_wf_def same_config_def by auto
  show "ept_path (tables p') g j n (wl p') (asr p')" using r(3) cfg by (simp add: same_config_def)
  show "ept_abs p' g' = (if same_way j (wl p) g g' then ept_translate (ept_lookup (tables p') j n g') g'
       else ept_abs p g')"
    using r(4) cfg by (simp add: ept_abs_def same_config_def)
  show "ept_lookup (tables p') (wl p') (asr p') g' =
      (if same_way j (wl p) g g' then ept_lookup (tables p') j n g' else ept_lookup (tables p) (wl p) (asr p) g')"
    using r(4) cfg by (simp add: same_config_def)
qed

lemma ept_wf_path:
  assumes "ept_wf p" "ept_path (tables p) g j n (wl p) (asr p)"
  shows "wf_tree (tables p) j n" "set (freelist p) \<inter> tabs (tables p) j n = {}"
proof -
  have "wf_tree T i m \<Longrightarrow> ept_path T g j n i m \<Longrightarrow> wf_tree T j n" for T i m
    by (rotate_tac, induction rule: ept_path.induct) auto
  then show "wf_tree (tables p) j n" using assms by (auto simp: ept_wf_def)
  show "set (freelist p) \<inter> tabs (tables p) j n = {}"
    using ept_path_tabs[OF assms(2)] assms(1) by (auto simp: ept_wf_def)
qed

lemma ept_abs_path:
  assumes "ept_path (tables p) g j n (wl p) (asr p)" "same_way j (wl p) g g'"
  shows "ept_abs p g' = ept_translate (ept_lookup (tables p) j n g') g'"
  using ept_path_lookup[OF assms] by (simp add: ept_abs_def)

text \<open>Putting an empty table under an entry that is not present changes no translation.\<close>

lemma new_middle_table:
  assumes wf: "ept_wf p" and path: "ept_path (tables p) g (Suc j) n (wl p) (asr p)"
    and np: "\<not> is_epte_present (tables p n (idx (Suc j) g))"
      "sa_p2mt (tables p n (idx (Suc j) g)) \<noteq> p2m_populate_on_demand"
    and mid: "ept_set_middle_entry p = Some (e, p1)"
  defines "p' \<equiv> set_table p1 n (idx (Suc j) g) e"
  shows "ept_wf p'" "ept_path (tables p') g j (e_mfn e) (wl p') (asr p')" "same_config p p'"
    "ept_abs p' g' = ept_abs p g'" "is_link e"
    "freelist p = e_mfn e # freelist p'" "frames_fit p \<Longrightarrow> frames_fit p'"
proof -
  have pool: "pool_ok p" using wf by (simp add: ept_wf_def)
  obtain fs where m: "freelist p = e_mfn e # fs" "freelist p1 = fs" "is_link e"
    "tables p1 = (tables p)(e_mfn e := \<lambda>_. epte_zero)" "same_config p p1"
    using ept_set_middle_entry_Some[OF mid pool] by metis
  note wfn = ept_wf_path[OF wf path]
  have nf: "e_mfn e \<notin> tabs (tables p) (Suc j) n" using wfn(2) m(1) by auto
  then have ne: "n \<noteq> e_mfn e" by auto
  have T: "tables p' n = (tables p n)(idx (Suc j) g := e)" "tables p' (e_mfn e) = (\<lambda>_. epte_zero)"
    "\<forall>x. x \<notin> insert n {e_mfn e} \<longrightarrow> tables p' x = tables p x"
    using ne by (auto simp: p'_def m(4))
  note z = zero_table[where T = "tables p'" and f = "e_mfn e", OF T(2)]
  have at: "wf_tree (tables p') (Suc j) n" "tabs (tables p') (Suc j) n \<subseteq> tabs (tables p) (Suc j) n \<union> {e_mfn e}"
    "\<And>g'. ept_lookup (tables p') (Suc j) n g' = (if idx (Suc j) g' \<noteq> idx (Suc j) g then ept_lookup (tables p) (Suc j) n g'
       else if 0 < Suc j \<and> is_link e then ept_lookup (tables p') (Suc j - 1) (e_mfn e) g' else (Suc j, e))"
    by (rule set_entry_at[OF wfn(1) idx_less T(1) T(3)]; use nf z in auto)+
  show cfg: "same_config p p'" using m(5) same_config_trans unfolding p'_def by fastforce
  have fl: "freelist p = [e_mfn e] @ freelist p'" using m by (simp add: p'_def)
  then show "freelist p = e_mfn e # freelist p'" by simp
  have out: "\<forall>x. x \<notin> tabs (tables p) (Suc j) n \<union> set [e_mfn e] \<longrightarrow> tables p' x = tables p x" using T(3) by auto
  have sub: "tabs (tables p') (Suc j) n \<subseteq> tabs (tables p) (Suc j) n \<union> set [e_mfn e]" using at(2) by simp
  note R = ept_wf_replace[OF wf cfg path fl out sub at(1)]
  show "ept_wf p'" by (rule R(1))
  show "is_link e" by (rule m(3))
  have "ept_path (tables p') g j (e_mfn e) (Suc j) n"
    using path_down[of "tables p'" n j g j "e_mfn e"] m(3) T(1) by (simp add: path_here)
  then show "ept_path (tables p') g j (e_mfn e) (wl p') (asr p')" using ept_path_trans[OF R(2)] by blast
  show "ept_abs p' g' = ept_abs p g'"
  proof (cases "same_way (Suc j) (wl p) g g'")
    case True
    show ?thesis
      using R(3)[of g'] True ept_abs_path[OF path True] at(3)[of g'] z(3)[of j g'] np m(3)
      by (auto simp: Let_def ept_translate_def is_link_def)
  qed (use R(3)[of g'] in simp)
  have "ept_lookup (tables p') (wl p') (asr p') h \<in> {ept_lookup (tables p) (wl p) (asr p) h, (j, epte_zero)}" for h
    using R(4)[of h] at(3)[of h] z(3)[of j h] ept_path_lookup[OF path, of h] m(3) by auto
  then show "frames_fit p'" if "frames_fit p"
    using that epte_zero_simps(1) unfolding frames_fit_def by (metis insertE prod.inject singletonD)
qed

section \<open>Walking down for an update\<close>

lemma next_level_write:
  fixes p :: p2m_domain and m :: u64
  assumes "unat rem = g mod 512 ^ Suc (Suc i)"
  defines "e \<equiv> tables p m (idx (Suc i) g)" and "rem' \<equiv> rem AND (push_bit (Suc i * 9) 1 - 1)"
  shows "ept_next_level False m rem (Suc i) p =
    (if \<not> is_epte_present e
     then (if sa_p2mt e = p2m_populate_on_demand then Inr (POD_PAGE, m, rem, p)
           else case ept_set_middle_entry p of
                  None \<Rightarrow> Inr (MAP_FAILED, m, rem, p)
                | Some (e', p') \<Rightarrow>
                    if is_epte_superpage e' then Inr (SUPER_PAGE, m, rem, set_table p' m (idx (Suc i) g) e')
                    else Inr (NORMAL_PAGE, e_mfn e', rem', set_table p' m (idx (Suc i) g) e'))
     else if is_epte_superpage e then Inr (SUPER_PAGE, m, rem, p)
     else Inr (NORMAL_PAGE, e_mfn e, rem', p))"
  using level_index_eq[OF assms(1)]
  by (simp add: ept_next_level_def Let_def e_def rem'_def split: option.splits)

text \<open>
  Where the walk may stop: at the target level, at a table page that could not be allocated, or above a leaf.
\<close>

definition walk_stop :: "p2m_domain \<Rightarrow> nat \<Rightarrow> nat \<Rightarrow> table_ret \<Rightarrow> nat \<Rightarrow> u64 \<Rightarrow> u64 \<Rightarrow> p2m_domain \<Rightarrow> bool" where
  "walk_stop p g target ret i tb rem p' \<longleftrightarrow>
     ept_wf p' \<and> same_config p p' \<and> ept_path (tables p') g i tb (wl p') (asr p') \<and>
     unat rem = g mod 512 ^ Suc i \<and> target \<le> i \<and> (\<forall>g'. ept_abs p' g' = ept_abs p g') \<and>
     (frames_fit p \<longrightarrow> frames_fit p') \<and>
     (i > target \<and> ret \<noteq> MAP_FAILED \<longrightarrow> \<not> is_link (tables p' tb (idx i g)) \<and>
        (is_epte_present (tables p' tb (idx i g)) \<or> sa_p2mt (tables p' tb (idx i g)) = p2m_populate_on_demand))"

lemma walk_stop_trans:
  assumes "walk_stop p1 g target ret i tb rem p2" "same_config p p1" "\<And>g'. ept_abs p1 g' = ept_abs p g'"
    and "frames_fit p \<Longrightarrow> frames_fit p1"
  shows "walk_stop p g target ret i tb rem p2"
  using assms same_config_trans[OF assms(2)] by (auto simp: walk_stop_def)

lemma set_walk_ok:
  assumes "ept_wf p" "ept_path (tables p) g j n (wl p) (asr p)" "unat rem = g mod 512 ^ Suc j" "target \<le> j"
    and "set_walk target j ret n rem p = Inr (ret', i, tb, rem', p')"
  shows "walk_stop p g target ret' i tb rem' p'"
  using assms
proof (induction j arbitrary: n rem p ret)
  case 0
  then show ?case by (simp add: set_walk.simps walk_stop_def)
next
  case (Suc j)
  show ?case
  proof (cases "target = Suc j")
    case True
    then show ?thesis using Suc.prems by (auto simp: set_walk.simps walk_stop_def simp del: power_Suc)
  next
    case False
    then have lt: "target < Suc j" "target \<le> j" using Suc.prems(4) by auto
    let ?e = "tables p n (idx (Suc j) g)" and ?r = "rem AND (push_bit (Suc j * 9) 1 - 1)"
    have r: "unat ?r = g mod 512 ^ Suc j" using unat_and_low_mask[OF Suc.prems(3)] .
    note nl = next_level_write[OF Suc.prems(3), where p = p and m = n]
    have step: "(case ept_next_level False n rem (Suc j) p of Inl f \<Rightarrow> Inl f
        | Inr (rt, tb1, rm1, p1) \<Rightarrow> if rt = NORMAL_PAGE then set_walk target j rt tb1 rm1 p1
             else Inr (rt, Suc j, tb1, rm1, p1)) = Inr (ret', i, tb, rem', p')"
      using Suc.prems(5) lt(1) unfolding set_walk.simps[of target "Suc j"] bindR_def diff_Suc_1 by simp
    consider (pod) "\<not> is_epte_present ?e" "sa_p2mt ?e = p2m_populate_on_demand"
      | (full) "\<not> is_epte_present ?e" "sa_p2mt ?e \<noteq> p2m_populate_on_demand" "ept_set_middle_entry p = None"
      | (new) e1 p1 where "\<not> is_epte_present ?e" "sa_p2mt ?e \<noteq> p2m_populate_on_demand"
          "ept_set_middle_entry p = Some (e1, p1)"
      | (super) "is_epte_present ?e" "is_epte_superpage ?e" | (link) "is_link ?e"
      unfolding is_link_def by (cases "ept_set_middle_entry p") (blast, force)
    then show ?thesis
    proof cases
      case new
      note m = new_middle_table[OF Suc.prems(1,2) new]
      have "\<not> is_epte_superpage e1" using m(5) by (simp add: is_link_def)
      then have "set_walk target j NORMAL_PAGE (e_mfn e1) ?r (set_table p1 n (idx (Suc j) g) e1) =
          Inr (ret', i, tb, rem', p')"
        using step nl new by simp
      from Suc.IH[OF m(1,2) r lt(2) this] show ?thesis using walk_stop_trans m(3,4,7) by blast
    next
      case link
      then have "ept_path (tables p) g j (e_mfn ?e) (Suc j) n" by (simp add: path_down path_here)
      from Suc.IH[OF Suc.prems(1) ept_path_trans[OF Suc.prems(2) this] r lt(2)]
      show ?thesis using step nl link by (simp add: is_link_def)
    qed (use step nl Suc.prems lt in \<open>auto simp: walk_stop_def is_link_def\<close>)
  qed
qed

section \<open>Splitting keeps the translation\<close>

lemma flags_fields [simp]:
  "sa_p2mt (ept_p2m_type_to_flags env e t a) = sa_p2mt e" "e_access (ept_p2m_type_to_flags env e t a) = e_access e"
  "e_mfn (ept_p2m_type_to_flags env e t a) = e_mfn e" "sp (ept_p2m_type_to_flags env e t a) = sp e"
  by (simp_all add: ept_p2m_type_to_flags_def type_flags_def access_flags_def split: p2m_type.splits p2m_access.splits)

lemma split_child_simps [simp]:
  "sa_p2mt (split_child env e l i) = sa_p2mt e" "e_access (split_child env e l i) = e_access e"
  "sp (split_child env e l i) = (l > 0)"
  "e_mfn (split_child env e l i) = mfn_field (e_mfn e + of_nat i * push_bit (l * 9) 1)"
  by (simp_all add: split_child_def Let_def)

text \<open>The subtree that a split to 4 KB pages builds for a superpage with frame \<open>b\<close>, type \<open>t\<close> and access \<open>a\<close>.\<close>

definition split_leaf :: "u64 \<Rightarrow> p2m_type \<Rightarrow> p2m_access \<Rightarrow> nat \<Rightarrow> nat \<Rightarrow> nat \<times> ept_entry \<Rightarrow> bool" where
  "split_leaf b t a l g le \<longleftrightarrow> fst le = 0 \<and> e_mfn (snd le) = mfn_field (b + of_nat (g mod 512 ^ l)) \<and>
     sa_p2mt (snd le) = t \<and> e_access (snd le) = a"

lemma mfn_field_add: "mfn_field (mfn_field x + y) = mfn_field (x + y)"
proof -
  have m: "unat (mfn_field (v + w)) = (unat v + unat w) mod 2 ^ 40" for v w
  proof -
    have "(2 :: nat) ^ 40 dvd 2 ^ LENGTH(64)" by (rule le_imp_power_dvd) simp
    then show ?thesis by (simp only: mfn_field_def unat_take_bit unat_word_ariths(1) mod_mod_cancel)
  qed
  have "unat (mfn_field (mfn_field x + y)) = unat (mfn_field (x + y))"
    by (simp only: m) (simp only: mfn_field_def unat_take_bit mod_add_left_eq)
  then show ?thesis by (simp only: word_unat_eq_iff)
qed

lemma idx_split: "idx l g * 512 ^ l + g mod 512 ^ l = g mod 512 ^ Suc l"
proof -
  have "g mod (512 ^ l * 512) = 512 ^ l * (g div 512 ^ l mod 512) + g mod 512 ^ l" by (rule mod_mult2_eq)
  then show ?thesis by (simp add: idx_def mult.commute)
qed


lemma split_child_mfn:
  assumes "mfn_field x = mfn_field (b + of_nat (idx l g) * push_bit (l * 9) 1)"
  shows "mfn_field (x + of_nat (g mod 512 ^ l)) = mfn_field (b + of_nat (g mod 512 ^ Suc l))"
proof -
  have "(push_bit (l * 9) 1 :: u64) = of_nat (512 ^ l)" by (simp add: pow512)
  then have "b + of_nat (idx l g) * push_bit (l * 9) 1 + of_nat (g mod 512 ^ l) =
      b + of_nat (idx l g * 512 ^ l + g mod 512 ^ l)"
    by (simp only: of_nat_add of_nat_mult add.assoc)
  then show ?thesis using assms mfn_field_add by (metis idx_split)
qed

text \<open>Progress of the loop over a new table \<open>f\<close> of level \<open>l\<close>: the first \<open>i\<close> entries are done.\<close>

definition split_inv ::
  "p2m_domain \<Rightarrow> u64 \<Rightarrow> nat \<Rightarrow> u64 \<Rightarrow> p2m_type \<Rightarrow> p2m_access \<Rightarrow> nat \<Rightarrow> u64 list \<Rightarrow> p2m_domain \<Rightarrow> bool" where
  "split_inv p f l b t a i F q \<longleftrightarrow>
     freelist p = F @ freelist q \<and> pool_ok q \<and> same_config p q \<and>
     (\<forall>x. x \<notin> set F \<longrightarrow> tables q x = tables p x) \<and> f \<in> set F \<and>
     wf_tree (tables q) l f \<and> tabs (tables q) l f \<subseteq> set F \<and>
     (\<forall>g. idx l g < i \<longrightarrow> split_leaf b t a (Suc l) g (ept_lookup (tables q) l f g))"

lemma split_inv_start:
  assumes "ept_set_middle_entry p = Some (e, p1)" "pool_ok p"
  shows "split_inv p (e_mfn e) l b t a 0 [e_mfn e] p1" "is_link e"
proof -
  obtain fs where m: "freelist p = e_mfn e # fs" "freelist p1 = fs" "is_link e"
    "tables p1 = (tables p)(e_mfn e := \<lambda>_. epte_zero)" "same_config p p1" "pool_ok p1"
    using ept_set_middle_entry_Some[OF assms] by metis
  have z: "tables p1 (e_mfn e) = (\<lambda>_. epte_zero)" by (simp add: m(4))
  show "split_inv p (e_mfn e) l b t a 0 [e_mfn e] p1"
    using m zero_table(1,2)[where T = "tables p1" and f = "e_mfn e", OF z] by (simp add: split_inv_def)
  show "is_link e" by (rule m(3))
qed

lemma split_inv_fresh:
  assumes "split_inv p f l b t a i F q" "pool_ok p"
  shows "f \<notin> set (freelist q)" "set F \<inter> set (freelist q) = {}"
  using assms by (auto simp: split_inv_def pool_ok_def)

text \<open>One more entry: a 4 KB leaf, or a link to a subtree of fresh tables \<open>G\<close>.\<close>

lemma split_inv_leaf:
  assumes "split_inv p f 0 (e_mfn e) (sa_p2mt e) (e_access e) k F q" "k < 512"
  shows "split_inv p f 0 (e_mfn e) (sa_p2mt e) (e_access e) (Suc k) F (set_table q f k (split_child env e 0 k))"
  using assms same_config_trans[OF _ set_table_simps(3)]
  by (auto simp: split_inv_def pool_ok_def split_leaf_def idx_def less_Suc_eq)

lemma split_inv_link:
  assumes inv: "split_inv p f (Suc l) (e_mfn e) (sa_p2mt e) (e_access e) k F q" and pool: "pool_ok p"
    and k: "k < 512" and c: "c = split_child env e (Suc l) k"
    and sub: "split_inv (set_table q f k c) (e_mfn c') l (e_mfn c) (sa_p2mt c) (e_access c) 512 G r" "is_link c'"
  shows "split_inv p f (Suc l) (e_mfn e) (sa_p2mt e) (e_access e) (Suc k) (F @ G) (set_table r f k c')"
proof -
  let ?T = "tables q" and ?R = "tables r"
  define T' where "T' = tables (set_table r f k c')"
  have fl: "freelist q = G @ freelist r" using sub(1) by (simp add: split_inv_def)
  have fG: "f \<notin> set G" and FG: "set G \<inter> set F = {}"
    using split_inv_fresh[OF inv pool] fl by auto
  have R: "?R x = (if x = f then (?T f)(k := c) else ?T x)" if "x \<notin> set G" for x
    using sub(1) that by (auto simp: split_inv_def)
  have T': "T' f = (?T f)(k := c')" "\<forall>x. x \<notin> insert f (set G) \<longrightarrow> T' x = ?T x"
    using R fG by (auto simp: T'_def)
  have tf: "tabs ?T (Suc l) f \<subseteq> set F" "wf_tree ?T (Suc l) f" using inv by (simp_all add: split_inv_def)
  then have disj: "set G \<inter> tabs ?T (Suc l) f = {}" using FG by blast
  have tc: "tabs ?R l (e_mfn c') \<subseteq> set G" "wf_tree ?R l (e_mfn c')"
    "\<And>g. split_leaf (e_mfn c) (sa_p2mt c) (e_access c) (Suc l) g (ept_lookup ?R l (e_mfn c') g)"
    using sub(1) by (simp_all add: split_inv_def)
  have "\<forall>x\<in>tabs ?R l (e_mfn c'). T' x = ?R x" using tc(1) fG by (auto simp: T'_def)
  note ag = agree_tabs[OF this]
  have link: "tabs T' l (e_mfn c') \<subseteq> set G \<and> wf_tree T' l (e_mfn c')" using ag tc by simp
  note at = set_entry_at[OF tf(2) k T' disj]
  have at1: "wf_tree T' (Suc l) f" "tabs T' (Suc l) f \<subseteq> tabs ?T (Suc l) f \<union> set G"
    by (rule at; use link in auto)+
  have at3: "ept_lookup T' (Suc l) f g = (if idx (Suc l) g \<noteq> k then ept_lookup ?T (Suc l) f g
       else ept_lookup ?R l (e_mfn c') g)" for g
    using at(3)[of g] link sub(2) ag(3) by simp
  have leaf: "split_leaf (e_mfn e) (sa_p2mt e) (e_access e) (Suc (Suc l)) g (ept_lookup ?R l (e_mfn c') g)"
    if "idx (Suc l) g = k" for g
    using tc(3)[of g] split_child_mfn[of "e_mfn c" "e_mfn e" "Suc l" g] that
    unfolding split_leaf_def c split_child_simps mfn_field_add[of _ 0, simplified] by simp
  have "split_leaf (e_mfn e) (sa_p2mt e) (e_access e) (Suc (Suc l)) g (ept_lookup T' (Suc l) f g)"
    if "idx (Suc l) g < Suc k" for g
    using inv leaf[of g] that unfolding at3 split_inv_def by (auto simp: less_Suc_eq)
  moreover have "same_config p (set_table r f k c')"
  proof -
    have "same_config p q" "same_config (set_table q f k c) r" using inv sub(1) by (simp_all add: split_inv_def)
    then show ?thesis using set_table_simps(3) by (meson same_config_trans)
  qed
  moreover have "freelist p = (F @ G) @ freelist (set_table r f k c')" "f \<in> set (F @ G)"
    using inv fl by (simp_all add: split_inv_def)
  moreover have "pool_ok (set_table r f k c')" using sub(1) by (simp add: split_inv_def pool_ok_def)
  moreover have "T' x = tables p x" if "x \<notin> set (F @ G)" for x
    using T'(2) inv that unfolding split_inv_def by auto
  moreover have "tabs T' (Suc l) f \<subseteq> set (F @ G)" using at1(2) tf(1) unfolding set_append by blast
  ultimately show ?thesis
    using at1(1) unfolding split_inv_def T'_def by blast
qed

lemma split_loop_invariant:
  assumes "split_loop body [k..<n] q = Inr (True, r)" "k \<le> n" "P k q"
    and "\<And>i q q'. k \<le> i \<Longrightarrow> i < n \<Longrightarrow> P i q \<Longrightarrow> body i q = Inr (True, q') \<Longrightarrow> P (Suc i) q'"
  shows "P n r"
  using assms
proof (induction "n - k" arbitrary: k q)
  case 0
  then show ?case by simp
next
  case (Suc d)
  then have kn: "k < n" by simp
  have "[k..<n] = k # [Suc k..<n]" using kn by (rule upt_conv_Cons)
  then obtain q' where b: "body k q = Inr (True, q')" "split_loop body [Suc k..<n] q' = Inr (True, r)"
    using Suc.prems(1) by (auto simp: bindR_Inr_iff split: if_splits)
  then have "P (Suc k) q'" using Suc.prems(3,4) kn by blast
  then show ?case using Suc.hyps(1)[of "Suc k" q'] Suc.hyps(2) Suc.prems(4) b(2) kn by simp
qed

text \<open>
  A successful split to 4 KB pages yields a link to a fresh subtree whose leaves carry the frames of the superpage one
  by one.
\<close>

lemma split_ok:
  assumes "ept_split_super_page env 0 (Suc l) e p = Inr (True, e', q)" "pool_ok p"
  shows "\<exists>F. split_inv p (e_mfn e') l (e_mfn e) (sa_p2mt e) (e_access e) 512 F q \<and> is_link e'"
  using assms
proof (induction l arbitrary: e p e' q)
  case 0
  obtain p1 where m: "ept_set_middle_entry p = Some (e', p1)"
    and lp: "split_loop (\<lambda>i p. Inr (True, set_table p (e_mfn e') i (split_child env e 0 i))) [0..<512] p1 = Inr (True, q)"
    using 0 by (auto simp: bindR_Inr_iff Let_def split: option.splits if_splits)
  note s = split_inv_start(1)[OF m 0(2), of 0 "e_mfn e" "sa_p2mt e" "e_access e"] split_inv_start(2)[OF m 0(2)]
  have "split_inv p (e_mfn e') 0 (e_mfn e) (sa_p2mt e) (e_access e) 512 [e_mfn e'] q"
    by (rule split_loop_invariant[where P = "\<lambda>k. split_inv p (e_mfn e') 0 (e_mfn e) (sa_p2mt e) (e_access e) k [e_mfn e']",
          OF lp _ s(1)]) (auto intro: split_inv_leaf)
  then show ?case using s(2) by blast
next
  case (Suc l)
  define body where "body = (\<lambda>i p.
      let c = split_child env e (Suc l) i; p2 = set_table p (e_mfn e') i c
      in if Suc l = 0 then Inr (True, p2)
         else if \<not> is_epte_superpage c then Inl Assert_failed
         else bindR (ept_split_super_page env 0 (Suc l) c p2)
                (\<lambda>(rv, c', p3). Inr (rv, set_table p3 (e_mfn e') i c')))"
  obtain p1 where m: "ept_set_middle_entry p = Some (e', p1)"
    and lp: "split_loop body [0..<512] p1 = Inr (True, q)"
    using Suc.prems(1) unfolding ept_split_super_page.simps(2)[of env 0 "Suc l"] body_def
    by (auto simp only: bindR_Inr_iff prod.inject split_paired_Ex prod.case option.case if_False nat.simps
        split: option.splits if_splits)
  note s = split_inv_start(1)[OF m Suc.prems(2), of "Suc l" "e_mfn e" "sa_p2mt e" "e_access e"]
    split_inv_start(2)[OF m Suc.prems(2)]
  let ?P = "\<lambda>k r. \<exists>F. split_inv p (e_mfn e') (Suc l) (e_mfn e) (sa_p2mt e) (e_access e) k F r"
  have "?P 512 q"
  proof (rule split_loop_invariant[OF lp, of ?P])
    show "?P 0 p1" using s(1) by blast
    fix i r r' assume i: "i < 512" "?P i r" "body i r = Inr (True, r')"
    then obtain F where F: "split_inv p (e_mfn e') (Suc l) (e_mfn e) (sa_p2mt e) (e_access e) i F r" by blast
    let ?c = "split_child env e (Suc l) i"
    obtain c' p3 where c': "ept_split_super_page env 0 (Suc l) ?c (set_table r (e_mfn e') i ?c) = Inr (True, c', p3)"
      "r' = set_table p3 (e_mfn e') i c'"
      using i(3) unfolding body_def Let_def
      by (auto simp only: bindR_Inr_iff prod.inject split_paired_Ex prod.case nat.simps if_False sum.inject
          split: if_splits)
    have "pool_ok (set_table r (e_mfn e') i ?c)" using F by (simp add: split_inv_def pool_ok_def)
    from Suc.IH[OF c'(1) this] obtain G where
      "split_inv (set_table r (e_mfn e') i ?c) (e_mfn c') l (e_mfn ?c) (sa_p2mt ?c) (e_access ?c) 512 G p3" "is_link c'"
      by blast
    from split_inv_link[OF F Suc.prems(2) i(1) refl this] show "?P (Suc i) r'" using c'(2) by blast
  qed simp
  then show ?case using s(2) by blast
qed

lemma descend_ok:
  assumes "ept_path (tables p) g j n (wl p) (asr p)" "unat rem = g mod 512 ^ Suc j"
    and "fst (ept_lookup (tables p) j n g) = 0"
  shows "\<exists>tb rem'. descend 0 j n rem p = Inr (tb, rem', p) \<and> ept_path (tables p) g 0 tb (wl p) (asr p) \<and>
    unat rem' = g mod 512"
  using assms
proof (induction j arbitrary: n rem)
  case 0
  then show ?case by auto
next
  case (Suc j)
  let ?e = "tables p n (idx (Suc j) g)" and ?r = "rem AND (push_bit (Suc j * 9) 1 - 1)"
  have e: "is_link ?e" using Suc.prems(3) by (auto simp: Let_def split: if_splits)
  then have "ept_path (tables p) g j (e_mfn ?e) (Suc j) n" by (simp add: path_down path_here)
  note pt = ept_path_trans[OF Suc.prems(1) this]
  have r: "unat ?r = g mod 512 ^ Suc j" using unat_and_low_mask[OF Suc.prems(2)] .
  have "descend 0 (Suc j) n rem p = descend 0 j (e_mfn ?e) ?r p"
    using next_level_write[OF Suc.prems(2), where p = p and m = n] e by (simp add: is_link_def)
  moreover have "fst (ept_lookup (tables p) j (e_mfn ?e) g) = 0" using Suc.prems(3) e by simp
  ultimately show ?case using Suc.IH[OF pt r] by simp
qed

section \<open>The update of one page\<close>

lemma leaf_write:
  fixes e :: ept_entry
  assumes wf: "ept_wf p" and path: "ept_path (tables p) g 0 tb (wl p) (asr p)"
  defines "p' \<equiv> set_table p tb (idx 0 g) e"
  shows "ept_wf p'" "ept_abs p' g' =
    (if same_way 0 (wl p) g g' \<and> idx 0 g' = idx 0 g then ept_translate (0, e) g' else ept_abs p g')"
    "frames_fit p \<Longrightarrow> frames_fit p'"
proof -
  have T: "tables p' tb = (tables p tb)(idx 0 g := e)" "\<forall>x. x \<notin> insert tb {} \<longrightarrow> tables p' x = tables p x"
    by (auto simp: p'_def)
  have R: "ept_wf p' \<and> ept_abs p' h = (if same_way 0 (wl p) g h then ept_translate (ept_lookup (tables p') 0 tb h) h
       else ept_abs p h) \<and> ept_lookup (tables p') (wl p') (asr p') h =
      (if same_way 0 (wl p) g h then ept_lookup (tables p') 0 tb h else ept_lookup (tables p) (wl p) (asr p) h)" for h
    using ept_wf_replace[OF wf _ path, of p' "[]"] T by (auto simp: p'_def)
  then show "ept_wf p'" by blast
  show "ept_abs p' g' =
    (if same_way 0 (wl p) g g' \<and> idx 0 g' = idx 0 g then ept_translate (0, e) g' else ept_abs p g')"
    using R[of g'] T(1) ept_abs_path[OF path, of g'] by auto
  show "frames_fit p'" if "frames_fit p"
    using that R unfolding frames_fit_def by (metis ept_lookup.simps(1) less_irrefl prod.inject)
qed

lemma same_page:
  assumes "g < 512 ^ Suc i" "g' < 512 ^ Suc i"
  shows "same_way 0 i g g' \<and> idx 0 g' = idx 0 g \<longleftrightarrow> g' = g"
proof
  assume a: "same_way 0 i g g' \<and> idx 0 g' = idx 0 g"
  then have ix: "l \<le> i \<Longrightarrow> idx l g' = idx l g" for l
    by (cases l) (auto simp: same_way_def)
  have "l \<le> Suc i \<Longrightarrow> g' mod 512 ^ l = g mod 512 ^ l" for l
  proof (induction l)
    case (Suc l)
    then show ?case using idx_split[of l g] idx_split[of l g'] ix[of l] by simp
  qed simp
  from this[of "Suc i"] show "g' = g" using assms by simp
qed (simp add: same_way_def)

lemma mfn_field_small: "unat m < 2 ^ 40 \<Longrightarrow> mfn_field m = m"
  unfolding mfn_field_def word_unat_eq_iff unat_take_bit by simp

lemma split_leaf_translate:
  assumes "split_leaf (e_mfn e) (sa_p2mt e) (e_access e) (Suc l) g le"
    and "is_epte_present e \<or> sa_p2mt e = p2m_populate_on_demand"
    and "is_epte_present e \<Longrightarrow> unat (e_mfn e) + 512 ^ Suc l \<le> 2 ^ 40"
  shows "ept_translate le g = ept_translate (Suc l, e) g"
proof (cases "sa_p2mt e = p2m_populate_on_demand \<or> sa_p2mt e = p2m_invalid")
  case True
  then show ?thesis using assms(1) by (cases le) (auto simp: split_leaf_def ept_translate_def)
next
  case False
  then have pr: "is_epte_present e" "unat (e_mfn e) + 512 ^ Suc l \<le> 2 ^ 40" using assms(2,3) by auto
  have lt: "g mod 512 ^ Suc l < 512 ^ Suc l" by simp
  have small: "unat (of_nat (g mod 512 ^ Suc l) :: u64) = g mod 512 ^ Suc l"
  proof (rule unat_of_nat_small)
    have "g mod 512 ^ Suc l < 2 ^ 40" using pr(2) lt by linarith
    also have "(2 :: nat) ^ 40 \<le> 2 ^ LENGTH(64)" by (rule power_increasing) simp_all
    finally show "g mod 512 ^ Suc l < 2 ^ LENGTH(64)" .
  qed
  have "unat (e_mfn e + of_nat (g mod 512 ^ Suc l)) < 2 ^ 40"
    unfolding unat_word_ariths(1) small using pr(2) lt
    by (meson le_trans less_le_trans mod_less_eq_dividend nat_add_left_cancel_less not_le)
  then have "mfn_field (e_mfn e + of_nat (g mod 512 ^ Suc l)) = e_mfn e + of_nat (g mod 512 ^ Suc l)"
    by (rule mfn_field_small)
  then show ?thesis
    using assms(1) False pr(1) by (cases le) (simp add: split_leaf_def ept_translate_def del: power_Suc)
qed

text \<open>Installing a split subtree changes no translation.\<close>

lemma split_install:
  assumes wf: "ept_wf p" and path: "ept_path (tables p) g (Suc l) tb (wl p) (asr p)" and fit: "frames_fit p"
    and e: "e = tables p tb (idx (Suc l) g)" "\<not> is_link e" "is_epte_present e \<or> sa_p2mt e = p2m_populate_on_demand"
    and inv: "split_inv p (e_mfn e') l (e_mfn e) (sa_p2mt e) (e_access e) 512 F q" "is_link e'"
  defines "p' \<equiv> set_table q tb (idx (Suc l) g) e'"
  shows "ept_wf p'" "same_config p p'" "ept_path (tables p') g (Suc l) tb (wl p') (asr p')"
    "\<And>g'. ept_abs p' g' = ept_abs p g'" "fst (ept_lookup (tables p') (Suc l) tb g) = 0" "frames_fit p'"
proof -
  note wfn = ept_wf_path[OF wf path]
  have fl: "freelist p = F @ freelist q" using inv(1) by (simp add: split_inv_def)
  have disj: "set F \<inter> tabs (tables p) (Suc l) tb = {}" using wfn(2) fl by auto
  then have tF: "tb \<notin> set F" by auto
  define T' where "T' = tables p'"
  have q: "\<forall>x. x \<notin> set F \<longrightarrow> tables q x = tables p x" using inv(1) by (simp add: split_inv_def)
  have T: "T' tb = (tables p tb)(idx (Suc l) g := e')" "\<forall>x. x \<notin> insert tb (set F) \<longrightarrow> T' x = tables p x"
    using q tF by (auto simp: T'_def p'_def)
  have sub: "tabs (tables q) l (e_mfn e') \<subseteq> set F" "wf_tree (tables q) l (e_mfn e')"
    "\<And>h. split_leaf (e_mfn e) (sa_p2mt e) (e_access e) (Suc l) h (ept_lookup (tables q) l (e_mfn e') h)"
    using inv(1) by (simp_all add: split_inv_def)
  have "\<forall>x\<in>tabs (tables q) l (e_mfn e'). T' x = tables q x" using sub(1) tF by (auto simp: T'_def p'_def)
  note ag = agree_tabs[OF this]
  have link: "tabs T' l (e_mfn e') \<subseteq> set F \<and> wf_tree T' l (e_mfn e')" using ag sub by simp
  note at = set_entry_at[OF wfn(1) idx_less T disj]
  have at1: "wf_tree T' (Suc l) tb" "tabs T' (Suc l) tb \<subseteq> tabs (tables p) (Suc l) tb \<union> set F"
    by (rule at; use link in auto)+
  have at3: "ept_lookup T' (Suc l) tb h = (if idx (Suc l) h \<noteq> idx (Suc l) g then ept_lookup (tables p) (Suc l) tb h
       else ept_lookup (tables q) l (e_mfn e') h)" for h
    using at(3)[of h] link inv(2) ag(3) by simp
  show cfg: "same_config p p'"
    using inv(1) same_config_trans[OF _ set_table_simps(3)] by (auto simp: split_inv_def p'_def)
  have fl': "freelist p = F @ freelist p'" using fl by (simp add: p'_def)
  have out: "\<forall>x. x \<notin> tabs (tables p) (Suc l) tb \<union> set F \<longrightarrow> tables p' x = tables p x"
    using T(2) unfolding T'_def by auto
  note R = ept_wf_replace[OF wf cfg path fl' out at1(2)[unfolded T'_def] at1(1)[unfolded T'_def]]
  show "ept_wf p'" "ept_path (tables p') g (Suc l) tb (wl p') (asr p')" by (fact R(1), fact R(2))
  show "fst (ept_lookup (tables p') (Suc l) tb g) = 0"
    using at3[of g] sub(3)[of g] by (simp add: T'_def split_leaf_def del: ept_lookup.simps)
  have fite: "is_epte_present e \<Longrightarrow> unat (e_mfn e) + 512 ^ Suc l \<le> 2 ^ 40"
    using fit ept_path_lookup[OF path, of g] e(1,2) unfolding frames_fit_def
    by (auto simp: same_way_def simp del: power_Suc)
  show "ept_abs p' h = ept_abs p h" for h
  proof (cases "same_way (Suc l) (wl p) g h \<and> idx (Suc l) h = idx (Suc l) g")
    case True
    then have "ept_abs p' h = ept_translate (ept_lookup (tables q) l (e_mfn e') h) h"
      using R(3)[of h] at3[of h] by (simp add: T'_def del: ept_lookup.simps)
    also have "\<dots> = ept_translate (Suc l, e) h" using split_leaf_translate[OF sub(3) e(3) fite] .
    also have "\<dots> = ept_abs p h"
      using ept_abs_path[OF path, of h] True e(1,2) by (simp add: Let_def)
    finally show ?thesis .
  next
    case False
    then show ?thesis
      using R(3)[of h] at3[of h] ept_abs_path[OF path, of h] by (auto simp: T'_def simp del: ept_lookup.simps)
  qed
  have "ept_lookup (tables p') (wl p') (asr p') h = ept_lookup (tables p) (wl p) (asr p) h \<or>
      fst (ept_lookup (tables p') (wl p') (asr p') h) = 0" for h
    using R(4)[of h] at3[of h] sub(3)[of h] ept_path_lookup[OF path, of h]
    by (auto simp: T'_def split_leaf_def simp del: ept_lookup.simps)
  then show "frames_fit p'"
    using fit unfolding frames_fit_def by (metis fst_conv less_irrefl)
qed

text \<open>What the log and the highest mapped frame do not change.\<close>

definition same_map :: "p2m_domain \<Rightarrow> p2m_domain \<Rightarrow> bool" where
  "same_map p q \<longleftrightarrow> tables q = tables p \<and> freelist q = freelist p \<and> wl q = wl p \<and> asr q = asr p \<and>
     max_mapped_pfn q = max_mapped_pfn p"

lemma same_map_refl [simp]: "same_map p p"
  by (simp add: same_map_def)

lemma same_map_log [simp]: "same_map p (log_event ev q) = same_map p q"
  by (simp add: same_map_def log_event_def)

lemma same_map_fold_log [simp]: "same_map p (fold (\<lambda>i. log_event (f i)) is q) = same_map p q"
  by (induction "is" arbitrary: q) simp_all

lemma same_map_iommu [simp]: "same_map p (iommu_update env gfn mfn order t off vp q) = same_map p q"
  by (simp add: iommu_update_def)

lemma set_entry_out_4k:
  "set_entry_out env gfn mfn order t 0 rv s nm vp off old p = (rv', p') \<Longrightarrow> rv' = rv \<and> same_map p p'"
  by (auto simp: set_entry_out_def Let_def split: if_splits)

lemma same_map_abs: "same_map p q \<Longrightarrow> ept_abs q = ept_abs p \<and> ept_wf q = ept_wf p \<and> frames_fit q = frames_fit p"
  by (intro conjI ext) (simp_all add: same_map_def ept_abs_def ept_wf_def pool_ok_def frames_fit_def)

lemma track_max_simps [simp]:
  "ept_abs (track_max env gfn mfn order p) = ept_abs p" "ept_wf (track_max env gfn mfn order p) = ept_wf p"
  "frames_fit (track_max env gfn mfn order p) = frames_fit p"
  by (simp_all add: track_max_def ept_abs_def ept_wf_def pool_ok_def frames_fit_def fun_eq_iff)

lemma gfn_in_range:
  assumes "drop_bit ((n + 1) * 9) (gfn :: u64) = 0"
  shows "unat gfn < 512 ^ Suc n"
proof -
  have "unat gfn div 512 ^ Suc n = 0"
    using unat_drop_bit[of "(n + 1) * 9" gfn] assms by (simp add: pow512 del: power_Suc)
  then show ?thesis by (simp add: div_eq_0_iff)
qed

text \<open>The entry that a successful call leaves at the page.\<close>

definition leaf_of :: "ept_env \<Rightarrow> u64 \<Rightarrow> u64 \<Rightarrow> p2m_type \<Rightarrow> p2m_access \<Rightarrow> ept_entry" where
  "leaf_of env gfn mfn t a =
     (if mfn_valid env mfn \<or> t = p2m_mmio_direct \<or> p2m_is_paged t \<or> t = p2m_ram_paging_in_start
      then new_leaf env gfn mfn False t a else epte_zero)"

definition set_done :: "ept_env \<Rightarrow> u64 \<Rightarrow> u64 \<Rightarrow> ept_entry \<Rightarrow> p2m_domain \<Rightarrow> p2m_domain \<Rightarrow> bool" where
  "set_done env gfn mfn e p p' \<longleftrightarrow>
     ept_wf p' \<and> frames_fit p' \<and> unat gfn < 512 ^ Suc (wl p) \<and> wl p' = wl p \<and>
     max_mapped_pfn p' = (if mfn_valid env mfn \<and> gfn > max_mapped_pfn p then gfn else max_mapped_pfn p) \<and>
     (\<forall>g'. g' < 512 ^ Suc (wl p) \<longrightarrow>
        ept_abs p' g' = (if g' = unat gfn then ept_translate (0, e) g' else ept_abs p g'))"

lemma set_done_leaf:
  assumes "ept_wf q" "frames_fit q" "ept_path (tables q) (unat gfn) 0 tb (wl q) (asr q)" "same_config p q"
    and "\<And>h. ept_abs q h = ept_abs p h" "unat gfn < 512 ^ Suc (wl p)"
    and "same_map (track_max env gfn mfn 0 (set_table q tb (idx 0 (unat gfn)) e)) p'"
  shows "set_done env gfn mfn e p p'"
proof -
  let ?q = "set_table q tb (idx 0 (unat gfn)) e"
  note lw = leaf_write[OF assms(1,3), of e]
  note sm = same_map_abs[OF assms(7)]
  have wl: "wl q = wl p" "wl p' = wl p"
    using assms(4,7) by (auto simp: same_config_def same_map_def track_max_def set_table_def split: if_splits)
  have "max_mapped_pfn ?q = max_mapped_pfn p" using assms(4) by (simp add: same_config_def set_table_def)
  then have mx: "max_mapped_pfn p' = (if mfn_valid env mfn \<and> gfn > max_mapped_pfn p then gfn else max_mapped_pfn p)"
    using assms(7) by (auto simp: same_map_def track_max_def)
  have "ept_abs p' g' = (if g' = unat gfn then ept_translate (0, e) g' else ept_abs p g')"
    if "g' < 512 ^ Suc (wl p)" for g'
    using lw(2)[of g'] sm assms(5) same_page[OF assms(6) that] by (simp add: wl del: power_Suc)
  then show ?thesis
    using sm lw(1) lw(3)[OF assms(2)] wl mx assms(6) unfolding set_done_def by simp
qed

text \<open>
  The shape of every successful call: the tables in front of the write still translate as before, and one leaf is written.
\<close>

definition set_form :: "ept_env \<Rightarrow> u64 \<Rightarrow> u64 \<Rightarrow> p2m_type \<Rightarrow> p2m_access \<Rightarrow> p2m_domain \<Rightarrow> p2m_domain \<Rightarrow> p2m_domain \<Rightarrow> bool" where
  "set_form env gfn mfn t a p q p' \<longleftrightarrow>
     (\<exists>tb e s nm vp off old. (e = leaf_of env gfn mfn t a \<or> e = new_leaf env gfn mfn False t a) \<and>
        (mfn_valid env mfn \<longrightarrow> nm = vtd_modify mfn) \<and>
        ept_path (tables q) (unat gfn) 0 tb (wl q) (asr q) \<and>
        set_entry_out env gfn mfn 0 t 0 True s nm vp off old
          (track_max env gfn mfn 0 (set_table q tb (idx 0 (unat gfn)) e)) = (True, p'))"

lemma ept_set_entry_form:
  assumes wf: "ept_wf p" and fit: "frames_fit p" and set: "ept_set_entry env gfn mfn 0 t a p = Inr (True, p')"
  shows "\<exists>q. ept_wf q \<and> frames_fit q \<and> same_config p q \<and> (\<forall>h. ept_abs q h = ept_abs p h) \<and>
    unat gfn < 512 ^ Suc (wl p) \<and> set_form env gfn mfn t a p q p'"
proof -
  let ?g = "unat gfn"
  have dr: "drop_bit ((wl p + 1) * 9) gfn = 0"
    using set unfolding ept_set_entry_def Let_def by (auto split: if_splits)
  note g = gfn_in_range[OF this]
  obtain ret i tb rem p1 where w: "set_walk 0 (wl p) MAP_FAILED (asr p) gfn p = Inr (ret, i, tb, rem, p1)"
    using set dr by (auto simp: ept_set_entry_def Let_def bindR_Inr_iff)
  have "unat gfn = ?g mod 512 ^ Suc (wl p)" using g by simp
  from set_walk_ok[OF wf path_here this _ w]
  have ws: "ept_wf p1" "same_config p p1" "ept_path (tables p1) ?g i tb (wl p1) (asr p1)" "unat rem = ?g mod 512 ^ Suc i"
    "\<And>h. ept_abs p1 h = ept_abs p h" "frames_fit p1"
    "i > 0 \<Longrightarrow> ret \<noteq> MAP_FAILED \<Longrightarrow> \<not> is_link (tables p1 tb (idx i ?g)) \<and>
      (is_epte_present (tables p1 tb (idx i ?g)) \<or> sa_p2mt (tables p1 tb (idx i ?g)) = p2m_populate_on_demand)"
    using fit by (auto simp: walk_stop_def)
  note ix = level_index_eq[OF ws(4)]
  show ?thesis
  proof (cases i)
    case 0
    obtain s nm vp off old where "set_entry_out env gfn mfn 0 t 0 True s nm vp off old
        (track_max env gfn mfn 0 (set_table p1 tb (idx 0 ?g) (leaf_of env gfn mfn t a))) = (True, p')"
      "mfn_valid env mfn \<longrightarrow> nm = vtd_modify mfn"
      using set dr w 0 ix unfolding ept_set_entry_def leaf_of_def
      by (simp add: Let_def split: if_splits)
    then have "set_form env gfn mfn t a p p1 p'" using ws(3) 0 unfolding set_form_def by blast
    then show ?thesis using ws g by blast
  next
    case (Suc l)
    let ?e = "tables p1 tb (idx (Suc l) ?g)"
    have ret: "ret \<noteq> MAP_FAILED"
      using set dr w Suc set_entry_out_4k by (fastforce simp: ept_set_entry_def Let_def)
    have sb: "bindR (ept_split_super_page env 0 (Suc l) (tables p1 tb (level_index rem (Suc l))) p1) (\<lambda>(ok, e', p2).
        if \<not> ok
        then Inr (set_entry_out env gfn mfn 0 t (0 div 9) False True True
                (is_epte_present (tables p1 tb (level_index rem (Suc l))))
                (rem AND (push_bit (Suc l * 9) 1 - 1)) epte_zero (ept_free_entry (Suc l) e' p2))
        else bindR (descend (0 div 9) (Suc l) tb rem (set_table p2 tb (level_index rem (Suc l)) e')) (\<lambda>(tb', rem', p3).
          Inr (set_entry_out env gfn mfn 0 t (0 div 9) True True (vtd_modify mfn)
                 (is_epte_present (tables p1 tb (level_index rem (Suc l))))
                 (rem' AND (push_bit (0 div 9 * 9) 1 - 1)) epte_zero
                 (track_max env gfn mfn 0 (set_table p3 tb' (level_index rem' (0 div 9))
                    (new_leaf env gfn mfn (0 div 9 \<noteq> (0::nat)) t a))))))
        = Inr (True, p')"
      using set dr w[unfolded Suc] ret unfolding ept_set_entry_def Let_def
      by (simp del: ept_split_super_page.simps descend.simps split: if_splits)
    note sb = sb[unfolded div_0 ix[unfolded Suc]]
    then obtain ok e' p2 where sp: "ept_split_super_page env 0 (Suc l) ?e p1 = Inr (ok, e', p2)"
      by (auto simp: bindR_Inr_iff)
    have ok: "ok = True" using sb sp set_entry_out_4k by (cases ok) fastforce+
    have "pool_ok p1" using ws(1) by (simp add: ept_wf_def)
    then obtain F where F: "split_inv p1 (e_mfn e') l (e_mfn ?e) (sa_p2mt ?e) (e_access ?e) 512 F p2" "is_link e'"
      using split_ok[OF sp[unfolded ok]] by blast
    let ?q = "set_table p2 tb (idx (Suc l) ?g) e'"
    have pth: "ept_path (tables p1) ?g (Suc l) tb (wl p1) (asr p1)" using ws(3) Suc by simp
    have "\<not> is_link ?e" "is_epte_present ?e \<or> sa_p2mt ?e = p2m_populate_on_demand" using ws(7) ret Suc by auto
    note I' = split_install[OF ws(1) pth ws(6) refl this F]
    obtain tb' rem' where d: "descend 0 (Suc l) tb rem ?q = Inr (tb', rem', ?q)"
      "ept_path (tables ?q) ?g 0 tb' (wl ?q) (asr ?q)" "unat rem' = ?g mod 512"
      using descend_ok[OF I'(3) _ I'(5)] ws(4) Suc by blast
    have "level_index rem' 0 = idx 0 ?g" using level_index_eq[of rem' ?g 0] d(3) by simp
    then have "set_entry_out env gfn mfn 0 t 0 True True (vtd_modify mfn) (is_epte_present ?e)
        (rem' AND (push_bit (0 * 9) 1 - 1)) epte_zero
        (track_max env gfn mfn 0 (set_table ?q tb' (idx 0 ?g) (new_leaf env gfn mfn False t a))) = (True, p')"
      using sb sp ok d(1) by simp
    then have "set_form env gfn mfn t a p ?q p'" using d(2) unfolding set_form_def by blast
    then show ?thesis using I' ws(5) same_config_trans[OF ws(2) I'(2)] g by (metis (no_types, lifting))
  qed
qed

lemma ept_set_entry_4k:
  assumes "ept_wf p" "frames_fit p" "ept_set_entry env gfn mfn 0 t a p = Inr (True, p')"
  shows "\<exists>e. (e = leaf_of env gfn mfn t a \<or> e = new_leaf env gfn mfn False t a) \<and> set_done env gfn mfn e p p'"
proof -
  obtain q where q: "ept_wf q" "frames_fit q" "same_config p q" "\<And>h. ept_abs q h = ept_abs p h"
    "unat gfn < 512 ^ Suc (wl p)" "set_form env gfn mfn t a p q p'"
    using ept_set_entry_form[OF assms] by blast
  then obtain tb e s nm vp off old where e: "e = leaf_of env gfn mfn t a \<or> e = new_leaf env gfn mfn False t a"
    "ept_path (tables q) (unat gfn) 0 tb (wl q) (asr q)"
    "set_entry_out env gfn mfn 0 t 0 True s nm vp off old
          (track_max env gfn mfn 0 (set_table q tb (idx 0 (unat gfn)) e)) = (True, p')"
    unfolding set_form_def by blast
  have "same_map (track_max env gfn mfn 0 (set_table q tb (idx 0 (unat gfn)) e)) p'" using set_entry_out_4k[OF e(3)] by blast
  from set_done_leaf[OF q(1,2) e(2) q(3,4,5) this] e(1) show ?thesis by blast
qed

lemma set_entry_out_events:
  "set_entry_out env gfn mfn 0 t 0 True s nm vp off old p = (rv, p') \<Longrightarrow>
   events p' = events p @ (if s then [Ept_sync] else []) @
     (if iommu_enabled env \<and> need_iommu env \<and> nm
      then [if iommu_hap_pt_share env then Iommu_pte_flush gfn 0 vp
            else if t = p2m_ram_rw then Iommu_map gfn mfn else Iommu_unmap gfn] else [])"
  by (auto simp: set_entry_out_def Let_def iommu_update_def log_event_def split: if_splits)

section \<open>Properties\<close>

lemma new_leaf_simps [simp]:
  "sa_p2mt (new_leaf env gfn mfn b t a) = t" "e_access (new_leaf env gfn mfn b t a) = a"
  "e_mfn (new_leaf env gfn mfn b t a) = mfn_field mfn"
  by (simp_all add: new_leaf_def Let_def mfn_field_def split: prod.splits)

text \<open>
  C36. Setting one 4 KB page: after a successful call with a valid frame, reading the page back gives the frame (its 40 bits), the type
  and the access that were set, and every other page at or below the old highest page reads as before, whether the call filled an empty
  entry, added tables or split a 2 MB or 1 GB page; the tables still form a tree disjoint from the free pool, and
  superpages still fit the entries.\<close>

theorem ept_set_get:
  assumes "ept_wf p" "frames_fit p" "ept_set_entry env gfn mfn 0 t a p = Inr (True, p')"
    and "mfn_valid env mfn" "t \<noteq> p2m_invalid" "t \<noteq> p2m_populate_on_demand"
  shows "ept_wf p' \<and> frames_fit p' \<and>
    ept_get_entry 1 env gfn p2m_query p' = Some (Inr (mfn_field mfn, t, a, p')) \<and>
    (\<forall>gfn'. gfn' \<noteq> gfn \<and> gfn' \<le> max_mapped_pfn p \<and> unat gfn' < 512 ^ Suc (wl p) \<longrightarrow>
       map_option (map_sum id (\<lambda>(m, t, a, _). (m, t, a))) (ept_get_entry 1 env gfn' p2m_query p') =
       map_option (map_sum id (\<lambda>(m, t, a, _). (m, t, a))) (ept_get_entry 1 env gfn' p2m_query p))"
proof -
  obtain e where e: "e = leaf_of env gfn mfn t a \<or> e = new_leaf env gfn mfn False t a" "set_done env gfn mfn e p p'"
    using ept_set_entry_4k[OF assms(1-3)] by blast
  then have e': "e = new_leaf env gfn mfn False t a" using assms(4) by (auto simp: leaf_of_def)
  note d = e(2)[unfolded set_done_def]
  have g: "unat gfn < 512 ^ Suc (wl p')" "gfn \<le> max_mapped_pfn p'" using d assms(4) by auto
  have "ept_abs p' (unat gfn) = (mfn_field mfn, t, a)"
    using d assms(5,6) by (auto simp: e' ept_translate_def)
  then have own: "ept_get_entry 1 env gfn p2m_query p' = Some (Inr (mfn_field mfn, t, a, p'))"
    using ept_get_entry_abs[OF g(2,1), of 0 env] by simp
  have "map_option (map_sum id (\<lambda>(m, t, a, _). (m, t, a))) (ept_get_entry 1 env gfn' p2m_query p') =
       map_option (map_sum id (\<lambda>(m, t, a, _). (m, t, a))) (ept_get_entry 1 env gfn' p2m_query p)"
    if "gfn' \<noteq> gfn" "gfn' \<le> max_mapped_pfn p" "unat gfn' < 512 ^ Suc (wl p)" for gfn'
  proof -
    have "gfn' \<le> max_mapped_pfn p'" "unat gfn' < 512 ^ Suc (wl p')" using d that by auto
    moreover have "unat gfn' \<noteq> unat gfn" using that(1) by (simp add: word_unat_eq_iff)
    ultimately show ?thesis
      using ept_get_entry_abs[of gfn' p' 0 env] ept_get_entry_abs[OF that(2,3), of 0 env] d that(3)
      by (simp split: prod.splits)
  qed
  then show ?thesis using d own by blast
qed

text \<open>An empty map with three table pages in the pool, and a plain environment.\<close>

definition demo_p2m :: p2m_domain where
  "demo_p2m = \<lparr>tables = (\<lambda>_ _. epte_zero), freelist = [10, 11, 12], pages = [1], max_mapped_pfn = 100,
     default_access = p2m_access_rwx, asr = 1, wl = 3, events = []\<rparr>"

definition demo_env :: ept_env where
  "demo_env = \<lparr>mfn_valid = (\<lambda>m. m < 0x1000), epte_get_entry_emt = (\<lambda>_ _ _. (6, False)),
     mmio_ro_ranges = \<lparr>owner = None, range_list = [], rs_name = [], flags = 0\<rparr>, iommu_enabled = False,
     iommu_snoop = False, need_iommu = False, iommu_hap_pt_share = False, has_1gb = True, has_2mb = True,
     p2m_pod_demand_populate = (\<lambda>p _ _ _. (True, p))\<rparr>"

lemma demo_p2m_wf: "ept_wf demo_p2m" "frames_fit demo_p2m"
proof -
  have z: "tables demo_p2m f = (\<lambda>_. epte_zero)" for f by (simp add: demo_p2m_def)
  note zt = zero_table[where T = "tables demo_p2m", OF z]
  show "ept_wf demo_p2m"
    using zt(1,2) by (simp add: ept_wf_def pool_ok_def) (simp add: demo_p2m_def mfn_field_def take_bit_eq_mod)
  show "frames_fit demo_p2m" using zt(3) by (simp add: frames_fit_def)
qed

lemma set_walk_succeeds:
  assumes "ept_wf p" "ept_path (tables p) g j n (wl p) (asr p)" "unat rem = g mod 512 ^ Suc j"
    and "ept_lookup (tables p) j n g = (l, e)" "l = 0 \<or> \<not> is_epte_present e \<and> sa_p2mt e \<noteq> p2m_populate_on_demand"
    and "j \<le> length (freelist p)"
  shows "\<exists>ret' tb rem' p'. set_walk 0 j ret n rem p = Inr (ret', 0, tb, rem', p') \<and> (ret' = ret \<or> ret' = NORMAL_PAGE)"
  using assms
proof (induction j arbitrary: n rem p ret l e)
  case 0
  then show ?case by (simp add: set_walk.simps)
next
  case (Suc j)
  let ?e = "tables p n (idx (Suc j) g)" and ?r = "rem AND (push_bit (Suc j * 9) 1 - 1)"
  have r: "unat ?r = g mod 512 ^ Suc j" using unat_and_low_mask[OF Suc.prems(3)] .
  note nl = next_level_write[OF Suc.prems(3), where p = p and m = n]
  show ?case
  proof (cases "is_link ?e")
    case True
    then have "ept_path (tables p) g j (e_mfn ?e) (Suc j) n" by (simp add: path_down path_here)
    note pt = ept_path_trans[OF Suc.prems(2) this]
    have "ept_lookup (tables p) j (e_mfn ?e) g = (l, e)" using Suc.prems(4) True by simp
    from Suc.IH[OF Suc.prems(1) pt r this Suc.prems(5), of NORMAL_PAGE] Suc.prems(6)
    show ?thesis using nl True by (subst set_walk.simps) (auto simp: is_link_def)
  next
    case False
    then have np: "\<not> is_epte_present ?e" "sa_p2mt ?e \<noteq> p2m_populate_on_demand"
      using Suc.prems(4,5) by (auto simp: Let_def)
    obtain f fs where "freelist p = f # fs" using Suc.prems(6) by (cases "freelist p") auto
    then obtain e1 p1 where m: "ept_set_middle_entry p = Some (e1, p1)"
      by (simp add: ept_set_middle_entry_def p2m_alloc_ptp_def)
    let ?p = "set_table p1 n (idx (Suc j) g) e1"
    note nm = new_middle_table[OF Suc.prems(1,2) np m]
    obtain fs' where "tables p1 = (tables p)(e_mfn e1 := \<lambda>_. epte_zero)"
      using ept_set_middle_entry_Some[OF m] Suc.prems(1) by (metis ept_wf_def)
    moreover have "n \<noteq> e_mfn e1"
      using ept_wf_path(2)[OF Suc.prems(1,2)] nm(6) by auto
    ultimately have "tables ?p (e_mfn e1) = (\<lambda>_. epte_zero)" by simp
    note z = zero_table(3)[where T = "tables ?p" and f = "e_mfn e1", OF this, of j g]
    have "j \<le> length (freelist ?p)" using nm(6) Suc.prems(6) by simp
    from Suc.IH[OF nm(1,2) r z _ this, of NORMAL_PAGE]
    show ?thesis using nl np m nm(5) by (subst set_walk.simps) (auto simp: is_link_def)
  qed
qed

lemma set_entry_4k_ok:
  assumes "ept_wf p" "unat gfn < 512 ^ Suc (wl p)" "wl p \<le> length (freelist p)"
    and "ept_lookup (tables p) (wl p) (asr p) (unat gfn) = (l, e)"
    and "l = 0 \<or> \<not> is_epte_present e \<and> sa_p2mt e \<noteq> p2m_populate_on_demand"
  shows "\<exists>p'. ept_set_entry env gfn mfn 0 t a p = Inr (True, p')"
proof -
  have "unat gfn = unat gfn mod 512 ^ Suc (wl p)" using assms(2) by simp
  from set_walk_succeeds[OF assms(1) path_here this assms(4,5,3), of MAP_FAILED]
  obtain ret tb rem p1 where w: "set_walk 0 (wl p) MAP_FAILED (asr p) gfn p = Inr (ret, 0, tb, rem, p1)"
    "ret = MAP_FAILED \<or> ret = NORMAL_PAGE" by blast
  have "unat (drop_bit ((wl p + 1) * 9) gfn) = 0"
    unfolding unat_drop_bit using assms(2) pow512[of "Suc (wl p)"] by simp
  then have "drop_bit ((wl p + 1) * 9) gfn = 0" by (simp only: unat_eq_zero)
  then show ?thesis
    using w by (auto simp: ept_set_entry_def Let_def set_entry_out_def)
qed

lemma demo_lookup: "ept_lookup (tables demo_p2m) (wl demo_p2m) (asr demo_p2m) g = (3, epte_zero)"
  using zero_table(3)[where T = "tables demo_p2m" and f = "asr demo_p2m"] by (simp add: demo_p2m_def)

text \<open>
  C38. Setting a 4 KB page succeeds, without failing an assertion, whenever the page number is in range, no superpage and no populate-on-demand
  entry covers the page, and the pool has a table page for every level below the top.\<close>

theorem ept_set_entry_succeeds:
  assumes "ept_wf p" "unat gfn < 512 ^ Suc (wl p)" "wl p \<le> length (freelist p)"
    and "ept_lookup (tables p) (wl p) (asr p) (unat gfn) = (l, e)"
    and "l = 0 \<or> \<not> is_epte_present e \<and> sa_p2mt e \<noteq> p2m_populate_on_demand"
  shows "\<exists>p'. ept_set_entry env gfn mfn 0 t a p = Inr (True, p')"
  using set_entry_4k_ok[OF assms] .

theorem ept_set_entry_succeeds_witness:
  "\<exists>p'. ept_set_entry demo_env 5 7 0 p2m_ram_rw p2m_access_rwx demo_p2m = Inr (True, p')"
  using ept_set_entry_succeeds[OF demo_p2m_wf(1) _ _ demo_lookup] by (simp add: demo_p2m_def)

theorem ept_set_get_witness:
  "\<exists>p'. ept_set_entry demo_env 5 7 0 p2m_ram_rw p2m_access_rwx demo_p2m = Inr (True, p') \<and>
     ept_get_entry 1 demo_env 5 p2m_query p' = Some (Inr (mfn_field 7, p2m_ram_rw, p2m_access_rwx, p'))"
proof -
  obtain p' where p': "ept_set_entry demo_env 5 7 0 p2m_ram_rw p2m_access_rwx demo_p2m = Inr (True, p')"
    using set_entry_4k_ok[OF demo_p2m_wf(1) _ _ demo_lookup, of 5 demo_env 7 p2m_ram_rw p2m_access_rwx]
    by (auto simp: demo_p2m_def)
  from ept_set_get[OF demo_p2m_wf this] p' show ?thesis by (simp add: demo_env_def)
qed

definition access_allows :: "p2m_access \<Rightarrow> bool \<times> bool \<times> bool" where
  "access_allows a = (case a of p2m_access_n \<Rightarrow> (False, False, False) | p2m_access_r \<Rightarrow> (True, False, False)
     | p2m_access_w \<Rightarrow> (False, True, False) | p2m_access_rw \<Rightarrow> (True, True, False)
     | p2m_access_x \<Rightarrow> (False, False, True) | p2m_access_rx \<Rightarrow> (True, False, True)
     | p2m_access_wx \<Rightarrow> (False, True, True) | p2m_access_rwx \<Rightarrow> (True, True, True)
     | p2m_access_rx2rw \<Rightarrow> (True, False, True))"

lemma mmio_ro_singleton:
  assumes "rs_wf r"
  shows "rangeset_contains_singleton r m = Inr True \<longleftrightarrow> m \<in> rs_elems r"
  using rangeset_contains_range_law[OF assms, of m m] by (simp add: rangeset_contains_singleton_def)

text \<open>
  The permission bits of an entry: none exceeds what the access restriction allows, whatever the type; and a direct MMIO frame is writable
  exactly when the restriction allows writing and the frame is not in the set of read-only MMIO frames.\<close>

lemma ept_flags_sound:
  assumes "rs_wf (mmio_ro_ranges env)"
  shows "(\<forall>ar aw ax. access_allows a = (ar, aw, ax) \<longrightarrow>
      (e_r (ept_p2m_type_to_flags env e t a) \<longrightarrow> ar) \<and> (e_w (ept_p2m_type_to_flags env e t a) \<longrightarrow> aw) \<and>
      (e_x (ept_p2m_type_to_flags env e t a) \<longrightarrow> ax)) \<and>
    (e_w (ept_p2m_type_to_flags env e p2m_mmio_direct a) \<longleftrightarrow>
       fst (snd (access_allows a)) \<and> e_mfn e \<notin> rs_elems (mmio_ro_ranges env))"
  using mmio_ro_singleton[OF assms, of "e_mfn e"]
  by (cases a) (simp_all add: access_allows_def ept_p2m_type_to_flags_def type_flags_def access_flags_def
      split: p2m_type.splits)

lemma ept_flags_sound_witness:
  "\<not> e_w (ept_p2m_type_to_flags (demo_env\<lparr>mmio_ro_ranges := \<lparr>owner = None, range_list = [\<lparr>r_s = 2, r_e = 9\<rparr>],
       rs_name = [], flags = 0\<rparr>\<rparr>) (epte_zero\<lparr>e_mfn := 5\<rparr>) p2m_mmio_direct p2m_access_rwx)"
  using ept_flags_sound[of "demo_env\<lparr>mmio_ro_ranges := \<lparr>owner = None, range_list = [\<lparr>r_s = 2, r_e = 9\<rparr>],
       rs_name = [], flags = 0\<rparr>\<rparr>" p2m_access_rwx "epte_zero\<lparr>e_mfn := 5\<rparr>" p2m_ram_rw]
  by simp

text \<open>
  The IOMMU and the update of one page with a valid frame: every update of a frame other than 0 ends by telling the IOMMU
  (mapping for read-write RAM, unmapping for every other type), but an update to frame 0 never does, since the test that should
  detect an unchanged frame compares with the blank new entry.\<close>

lemma ept_set_iommu:
  assumes "ept_wf p" "frames_fit p" "ept_set_entry env gfn mfn 0 t a p = Inr (True, p')" "mfn_valid env mfn"
    and "iommu_enabled env" "need_iommu env" "\<not> iommu_hap_pt_share env"
  shows "\<exists>sync. sync \<in> {[], [Ept_sync]} \<and> events p' = events p @ sync @
    (if mfn = 0 then [] else [if t = p2m_ram_rw then Iommu_map gfn mfn else Iommu_unmap gfn])"
proof -
  obtain q where q: "same_config p q" "set_form env gfn mfn t a p q p'"
    using ept_set_entry_form[OF assms(1-3)] by blast
  then obtain tb e s vp off old where
    "set_entry_out env gfn mfn 0 t 0 True s (vtd_modify mfn) vp off old
          (track_max env gfn mfn 0 (set_table q tb (idx 0 (unat gfn)) e)) = (True, p')"
    using assms(4) unfolding set_form_def by blast
  from set_entry_out_events[OF this] have
    "events p' = events p @ (if s then [Ept_sync] else []) @
      (if mfn \<noteq> 0 then [if t = p2m_ram_rw then Iommu_map gfn mfn else Iommu_unmap gfn] else [])"
    using assms(5-7) q(1) by (auto simp: vtd_modify_def track_max_def set_table_def same_config_def)
  then show ?thesis by (cases s) auto
qed

lemma ept_set_iommu_witness:
  "\<exists>p' sync. ept_set_entry (demo_env\<lparr>iommu_enabled := True, need_iommu := True\<rparr>) 5 0 0 p2m_ram_rw p2m_access_rwx demo_p2m
     = Inr (True, p') \<and> sync \<in> {[], [Ept_sync]} \<and> events p' = sync"
proof -
  let ?env = "demo_env\<lparr>iommu_enabled := True, need_iommu := True\<rparr>"
  obtain p' where p': "ept_set_entry ?env 5 0 0 p2m_ram_rw p2m_access_rwx demo_p2m = Inr (True, p')"
    using set_entry_4k_ok[OF demo_p2m_wf(1) _ _ demo_lookup, of 5 ?env 0 p2m_ram_rw p2m_access_rwx]
    by (auto simp: demo_p2m_def)
  from ept_set_iommu[OF demo_p2m_wf this] p' show ?thesis by (simp add: demo_env_def) (auto simp: demo_p2m_def)
qed

section \<open>Changing a type everywhere\<close>

definition retype :: "ept_env \<Rightarrow> p2m_type \<Rightarrow> p2m_type \<Rightarrow> ept_entry \<Rightarrow> ept_entry" where
  "retype env ot nt e =
     (if is_epte_present e \<and> sa_p2mt e = ot
      then ept_p2m_type_to_flags env (e\<lparr>sa_p2mt := nt\<rparr>) nt (e_access e) else e)"

lemma sp_retype [simp]: "sp (retype env ot nt e) = sp e"
  by (simp add: retype_def)

text \<open>The first \<open>k\<close> entries of table \<open>m\<close> of level \<open>i\<close> are done.\<close>

definition retype_inv ::
  "ept_env \<Rightarrow> p2m_type \<Rightarrow> p2m_type \<Rightarrow> nat \<Rightarrow> u64 \<Rightarrow> p2m_domain \<Rightarrow> nat \<Rightarrow> p2m_domain \<Rightarrow> bool" where
  "retype_inv env ot nt i m p k q \<longleftrightarrow>
     same_config p q \<and> freelist q = freelist p \<and>
     (\<forall>x. x \<notin> tabs (tables p) i m \<longrightarrow> tables q x = tables p x) \<and>
     wf_tree (tables q) i m \<and> tabs (tables q) i m \<subseteq> tabs (tables p) i m \<and>
     (\<forall>l\<ge>k. tables q m l = tables p m l) \<and>
     (\<forall>g. ept_lookup (tables q) i m g =
        (if idx i g < k then map_prod id (retype env ot nt) (ept_lookup (tables p) i m g)
         else ept_lookup (tables p) i m g))"

lemma retype_inv_start: "wf_tree (tables p) i m \<Longrightarrow> retype_inv env ot nt i m p 0 p"
  by (simp add: retype_inv_def)

lemma retype_inv_skip:
  assumes inv: "retype_inv env ot nt i m p k q" and k: "k < 512"
    and e: "\<not> (0 < i \<and> is_link (tables p m k))" "retype env ot nt (tables p m k) = tables p m k"
  shows "retype_inv env ot nt i m p (Suc k) q"
proof -
  have "ept_lookup (tables p) i m g = (i, tables p m k)" if "idx i g = k" for g
    using that e(1) by (cases i) (auto simp: Let_def)
  then show ?thesis using inv e(2) unfolding retype_inv_def by (auto simp: less_Suc_eq)
qed

lemma retype_inv_leaf:
  assumes inv: "retype_inv env ot nt i m p k q" and k: "k < 512" and e: "\<not> (0 < i \<and> is_link (tables p m k))"
  shows "retype_inv env ot nt i m p (Suc k) (set_table q m k (retype env ot nt (tables p m k)))"
proof -
  let ?e = "retype env ot nt (tables p m k)"
  have wf: "wf_tree (tables q) i m" using inv by (simp add: retype_inv_def)
  define T' where "T' = tables (set_table q m k ?e)"
  have T': "T' m = (tables q m)(k := ?e)" "\<forall>x. x \<notin> insert m {} \<longrightarrow> T' x = tables q x" by (auto simp: T'_def)
  have nl: "is_link ?e \<Longrightarrow> i = 0"
    using e by (auto simp: is_link_def is_epte_superpage_def retype_def split: if_splits)
  have at: "wf_tree T' i m" "tabs T' i m \<subseteq> tabs (tables q) i m \<union> {}"
    "ept_lookup T' i m g = (if idx i g \<noteq> k then ept_lookup (tables q) i m g
       else if 0 < i \<and> is_link ?e then ept_lookup T' (i - 1) (e_mfn ?e) g else (i, ?e))" for g
    by (rule set_entry_at[OF wf k T']; use nl in auto)+
  have old: "ept_lookup (tables p) i m g = (i, tables p m k)" if "idx i g = k" for g
    using that e by (cases i) (auto simp: Let_def)
  have lk: "ept_lookup T' i m g = (if idx i g < Suc k then map_prod id (retype env ot nt) (ept_lookup (tables p) i m g)
         else ept_lookup (tables p) i m g)" for g
    using at(3)[of g] nl old[of g] inv unfolding retype_inv_def by (auto simp: less_Suc_eq)
  have out: "T' x = tables p x" if "x \<notin> tabs (tables p) i m" for x
  proof -
    have "x \<noteq> m" using that tabs_self[of m "tables p" i] by metis
    then show ?thesis using T'(2) inv that by (simp add: retype_inv_def)
  qed
  have cfg: "same_config p (set_table q m k ?e)"
    using inv same_config_trans[OF _ set_table_simps(3)] by (auto simp: retype_inv_def)
  show ?thesis
    unfolding retype_inv_def T'_def[symmetric] using inv at(1,2) lk T'(1) out cfg unfolding retype_inv_def by auto
qed

lemma idx_pick: "k < 512 \<Longrightarrow> idx i (k * 512 ^ i) = k"
  by (simp add: idx_def)

lemma retype_inv_child:
  assumes inv: "retype_inv env ot nt (Suc i) m p k q" and k: "k < 512" and e: "is_link (tables p m k)"
    and wf: "wf_tree (tables p) (Suc i) m"
    and child: "retype_inv env ot nt i (e_mfn (tables p m k)) q 512 r"
  shows "retype_inv env ot nt (Suc i) m p (Suc k) r"
proof -
  let ?c = "e_mfn (tables p m k)" and ?g = "k * 512 ^ Suc i"
  have qk: "tables q m k = tables p m k" and wfq: "wf_tree (tables q) (Suc i) m"
    and tq: "tabs (tables q) (Suc i) m \<subseteq> tabs (tables p) (Suc i) m"
    using inv by (simp_all add: retype_inv_def del: tabs.simps wf_tree.simps)
  have "ept_path (tables q) ?g i ?c (Suc i) m"
    using path_down[of "tables q" m i ?g i ?c] idx_pick[OF k, of "Suc i"] e qk by (simp add: path_here)
  note R = replace_subtree[OF this wfq, of "{}" "tables r"]
  have rc: "\<forall>x. x \<notin> tabs (tables q) i ?c \<longrightarrow> tables r x = tables q x" "wf_tree (tables r) i ?c"
    "tabs (tables r) i ?c \<subseteq> tabs (tables q) i ?c"
    "\<And>g. ept_lookup (tables r) i ?c g = map_prod id (retype env ot nt) (ept_lookup (tables q) i ?c g)"
    "same_config q r" "freelist r = freelist q"
    using child by (simp_all add: retype_inv_def)
  have R': "wf_tree (tables r) (Suc i) m" "tabs (tables r) (Suc i) m \<subseteq> tabs (tables q) (Suc i) m"
    "\<And>g'. ept_lookup (tables r) (Suc i) m g' =
      (if same_way i (Suc i) ?g g' then ept_lookup (tables r) i ?c g' else ept_lookup (tables q) (Suc i) m g')"
    using R rc by (simp_all del: tabs.simps wf_tree.simps ept_lookup.simps)
  have sw: "same_way i (Suc i) ?g g' \<longleftrightarrow> idx (Suc i) g' = k" for g'
    using idx_pick[OF k, of "Suc i"] by (simp add: same_way_Suc)
  have lk: "ept_lookup (tables r) (Suc i) m g =
      (if idx (Suc i) g < Suc k then map_prod id (retype env ot nt) (ept_lookup (tables p) (Suc i) m g)
       else ept_lookup (tables p) (Suc i) m g)" for g
  proof -
    have q: "ept_lookup (tables q) (Suc i) m g =
        (if idx (Suc i) g < k then map_prod id (retype env ot nt) (ept_lookup (tables p) (Suc i) m g)
         else ept_lookup (tables p) (Suc i) m g)" for g
      using inv unfolding retype_inv_def by blast
    have "ept_lookup (tables q) (Suc i) m g = ept_lookup (tables q) i ?c g" if "idx (Suc i) g = k"
      using that e qk by simp
    then show ?thesis using R'(3)[of g] sw[of g] rc(4)[of g] q[of g] by (auto simp: less_Suc_eq simp del: ept_lookup.simps)
  qed
  have "m \<notin> tabs (tables q) i ?c" using wfq e qk k by auto
  then have "tables r m = tables q m" using rc(1) by blast
  moreover have "tabs (tables q) i ?c \<subseteq> tabs (tables q) (Suc i) m" using e qk k by auto
  then have "tabs (tables q) i ?c \<subseteq> tabs (tables p) (Suc i) m" using tq by (rule subset_trans)
  then have "\<forall>x. x \<notin> tabs (tables p) (Suc i) m \<longrightarrow> tables r x = tables p x"
    using rc(1) inv unfolding retype_inv_def by (metis subsetD)
  ultimately show ?thesis
    using R'(1,2) lk rc(5,6) inv same_config_trans unfolding retype_inv_def
    by (auto simp del: tabs.simps wf_tree.simps ept_lookup.simps)
qed


lemma change_type_page_inv:
  assumes "wf_tree (tables p) i m"
  shows "retype_inv env ot nt i m p 512 (ept_change_entry_type_page env ot nt i m p)"
  using assms
proof (induction i arbitrary: m p)
  case 0
  let ?f = "\<lambda>k q. let e = tables q m k in if \<not> is_epte_present e then q
      else if sa_p2mt e \<noteq> ot then q
      else set_table q m k (ept_p2m_type_to_flags env (e\<lparr>sa_p2mt := nt\<rparr>) nt (e_access e))"
  have step: "retype_inv env ot nt 0 m p (Suc k) (?f k q)" if "retype_inv env ot nt 0 m p k q" "k < 512" for k q
  proof -
    have e: "tables q m k = tables p m k" using that(1) by (simp add: retype_inv_def)
    show ?thesis
      using retype_inv_skip[OF that] retype_inv_leaf[OF that] by (auto simp: Let_def e retype_def)
  qed
  have "n \<le> 512 \<Longrightarrow> retype_inv env ot nt 0 m p n (fold ?f [0..<n] p)" for n
    by (induction n) (simp_all add: retype_inv_start step)
  from this[of 512] show ?case by (subst ept_change_entry_type_page.simps) (simp add: Let_def cong: if_cong)
next
  case (Suc i)
  let ?f = "\<lambda>k q. let e = tables q m k in if \<not> is_epte_present e then q
      else if \<not> is_epte_superpage e then ept_change_entry_type_page env ot nt i (e_mfn e) q
      else if sa_p2mt e \<noteq> ot then q
      else set_table q m k (ept_p2m_type_to_flags env (e\<lparr>sa_p2mt := nt\<rparr>) nt (e_access e))"
  have step: "retype_inv env ot nt (Suc i) m p (Suc k) (?f k q)"
    if q: "retype_inv env ot nt (Suc i) m p k q" "k < 512" for k q
  proof -
    have e: "tables q m k = tables p m k" and wfq: "wf_tree (tables q) (Suc i) m"
      using q(1) unfolding retype_inv_def by blast+
    show ?thesis
    proof (cases "is_link (tables p m k)")
      case True
      then have "wf_tree (tables q) i (e_mfn (tables p m k))" using wfq q(2) e by auto
      from retype_inv_child[OF q True Suc.prems Suc.IH[OF this]] show ?thesis
        using True by (simp add: e is_link_def)
    next
      case False
      then show ?thesis
        using retype_inv_skip[OF q] retype_inv_leaf[OF q]
        by (auto simp: Let_def e retype_def is_link_def)
    qed
  qed
  have "n \<le> 512 \<Longrightarrow> retype_inv env ot nt (Suc i) m p n (fold ?f [0..<n] p)" for n
    by (induction n) (simp_all add: retype_inv_start Suc.prems step del: wf_tree.simps)
  from this[of 512] show ?case by (subst ept_change_entry_type_page.simps) (simp add: Let_def cong: if_cong)
qed

text \<open>
  C39. Changing a type over the whole map (the step that turns log-dirty tracking on and off): the entry that translates any page is the old
  one, retyped and with the permissions of the new type if it was present with the old type; nothing else in any table changes, the
  tables stay a tree, and the translation caches are flushed afterwards.\<close>

theorem ept_change_type_exact:
  assumes "ept_wf p" "asr p \<noteq> 0" "\<not> p2m_is_grant ot" "\<not> p2m_is_grant nt" "ot \<noteq> p2m_mmio_direct" "nt \<noteq> p2m_mmio_direct"
  shows "\<exists>p'. ept_change_entry_type_global env ot nt p = Inr p' \<and> ept_wf p' \<and> events p' = events p @ [Ept_sync] \<and>
    (\<forall>g. ept_lookup (tables p') (wl p') (asr p') g =
       map_prod id (retype env ot nt) (ept_lookup (tables p) (wl p) (asr p) g)) \<and>
    (\<forall>x. x \<notin> tabs (tables p) (wl p) (asr p) \<longrightarrow> tables p' x = tables p x)"
proof -
  let ?q = "ept_change_entry_type_page env ot nt (wl p) (asr p) p"
  have "wf_tree (tables p) (wl p) (asr p)" using assms(1) by (simp add: ept_wf_def)
  note inv = change_type_page_inv[OF this, of env ot nt, unfolded retype_inv_def]
  have "ept_wf ?q" using inv assms(1) by (auto simp: ept_wf_def pool_ok_def same_config_def)
  then have "ept_wf (log_event Ept_sync ?q)" by (simp add: ept_wf_def pool_ok_def log_event_def)
  moreover have "events (log_event Ept_sync ?q) = events p @ [Ept_sync]"
    using inv by (simp add: log_event_def same_config_def)
  moreover have "tables (log_event Ept_sync ?q) = tables ?q" "wl (log_event Ept_sync ?q) = wl p"
    "asr (log_event Ept_sync ?q) = asr p"
    using inv by (simp_all add: log_event_def same_config_def)
  ultimately show ?thesis
    using inv assms(2-6) by (auto simp: ept_change_entry_type_global_def)
qed

theorem ept_change_type_exact_witness:
  "\<exists>p'. ept_change_entry_type_global demo_env p2m_ram_rw p2m_ram_logdirty demo_p2m = Inr p' \<and> events p' = [Ept_sync]"
  using ept_change_type_exact[OF demo_p2m_wf(1), of p2m_ram_rw p2m_ram_logdirty demo_env]
  by (auto simp: p2m_is_grant_def demo_p2m_def)

section \<open>The map as its users see it\<close>

text \<open>
  What the callers of \<open>p2m->set_entry\<close> and \<open>p2m->get_entry\<close> rely on: a map from pages to values in which an update is
  seen by the page it names and by no other. \<open>good\<close> are the values a caller may store.
\<close>

locale page_map =
  fixes get :: "'s \<Rightarrow> nat \<Rightarrow> 'v"
    and set_page :: "nat \<Rightarrow> 'v \<Rightarrow> 's \<Rightarrow> 's option"
    and inv :: "'s \<Rightarrow> bool"
    and pages_of :: "'s \<Rightarrow> nat set"
    and good :: "'v \<Rightarrow> bool"
  assumes set_law: "inv s \<Longrightarrow> g \<in> pages_of s \<Longrightarrow> good v \<Longrightarrow> set_page g v s = Some s' \<Longrightarrow>
      inv s' \<and> pages_of s' = pages_of s \<and> (\<forall>h\<in>pages_of s. get s' h = (if h = g then v else get s h))"
begin

primrec set_pages :: "(nat \<times> 'v) list \<Rightarrow> 's \<Rightarrow> 's option" where
  "set_pages [] s = Some s"
| "set_pages (x # xs) s = (case set_page (fst x) (snd x) s of None \<Rightarrow> None | Some s' \<Rightarrow> set_pages xs s')"

lemma set_pages_law:
  assumes "inv s" "\<forall>x\<in>set xs. fst x \<in> pages_of s \<and> good (snd x)" "set_pages xs s = Some s'" "h \<in> pages_of s"
  shows "get s' h = (case map_of (rev xs) h of Some v \<Rightarrow> v | None \<Rightarrow> get s h)" "inv s'"
proof -
  have "get s' h = (case map_of (rev xs) h of Some v \<Rightarrow> v | None \<Rightarrow> get s h) \<and> inv s'"
    using assms
  proof (induction xs arbitrary: s)
    case (Cons x xs)
    obtain s1 where s1: "set_page (fst x) (snd x) s = Some s1" "set_pages xs s1 = Some s'"
      using Cons.prems(3) by (auto split: option.splits)
    have l: "inv s1" "pages_of s1 = pages_of s" "get s1 h = (if h = fst x then snd x else get s h)"
      using set_law[OF Cons.prems(1) _ _ s1(1)] Cons.prems(2,4) by auto
    have "get s' h = (case map_of (rev xs) h of Some v \<Rightarrow> v | None \<Rightarrow> get s1 h) \<and> inv s'"
      by (rule Cons.IH) (use Cons.prems l s1 in auto)
    then show ?case using l(3) by (cases x) (auto simp: map_add_def split: option.splits)
  qed simp
  then show "get s' h = (case map_of (rev xs) h of Some v \<Rightarrow> v | None \<Rightarrow> get s h)" "inv s'" by blast+
qed

end

definition ept_set_page :: "ept_env \<Rightarrow> nat \<Rightarrow> u64 \<times> p2m_type \<times> p2m_access \<Rightarrow> p2m_domain \<Rightarrow> p2m_domain option" where
  "ept_set_page env g v p =
     (case v of (m, t, a) \<Rightarrow>
        (case ept_set_entry env (of_nat g) m 0 t a p of Inr (True, p') \<Rightarrow> Some p' | _ \<Rightarrow> None))"

definition good_value :: "ept_env \<Rightarrow> u64 \<times> p2m_type \<times> p2m_access \<Rightarrow> bool" where
  "good_value env v \<longleftrightarrow> (case v of (m, t, a) \<Rightarrow>
     mfn_valid env m \<and> mfn_field m = m \<and> t \<noteq> p2m_invalid \<and> t \<noteq> p2m_populate_on_demand)"

lemma ept_set_page_law:
  assumes "ept_wf p \<and> frames_fit p" "g \<in> {g. g < 512 ^ Suc (wl p) \<and> g < 2 ^ 64}" "good_value env v"
    and "ept_set_page env g v p = Some p'"
  shows "(ept_wf p' \<and> frames_fit p') \<and> {g. g < 512 ^ Suc (wl p') \<and> g < 2 ^ 64} = {g. g < 512 ^ Suc (wl p) \<and> g < 2 ^ 64} \<and>
    (\<forall>h\<in>{g. g < 512 ^ Suc (wl p) \<and> g < 2 ^ 64}. ept_abs p' h = (if h = g then v else ept_abs p h))"
proof -
  obtain m t a where v: "v = (m, t, a)" by (cases v)
  have gv: "mfn_valid env m" "mfn_field m = m" "t \<noteq> p2m_invalid" "t \<noteq> p2m_populate_on_demand"
    using assms(3) by (auto simp: good_value_def v)
  have "ept_set_entry env (of_nat g) m 0 t a p = Inr (True, p')"
  proof (cases "ept_set_entry env (of_nat g) m 0 t a p")
    case (Inr r)
    obtain ok q where r: "r = (ok, q)" by (cases r)
    have "ept_set_page env g v p = (if ok then Some q else None)"
      unfolding ept_set_page_def v prod.case Inr r sum.case by (cases ok) simp_all
    then show ?thesis using assms(4) Inr r by (cases ok) simp_all
  next
    case (Inl f)
    then have "ept_set_page env g v p = None" unfolding ept_set_page_def v prod.case by (simp only: sum.case)
    then show ?thesis using assms(4) by simp
  qed
  note S = this
  have W: "ept_wf p" "frames_fit p" using assms(1) by simp_all
  from ept_set_entry_4k[OF W S] obtain e where e: "e = leaf_of env (of_nat g) m t a \<or> e = new_leaf env (of_nat g) m False t a"
    "set_done env (of_nat g) m e p p'"
    by blast
  have "e = new_leaf env (of_nat g) m False t a" using e(1) gv(1) by (auto simp: leaf_of_def)
  then have tr: "ept_translate (0, e) h = v" for h using gv by (simp add: ept_translate_def v)
  have "g < 2 ^ LENGTH(64)" using assms(2) by simp
  then have u: "unat (of_nat g :: u64) = g" by (rule unat_of_nat_small)
  show ?thesis using e(2) unfolding set_done_def u tr by auto
qed

interpretation ept_pages: page_map ept_abs "ept_set_page env" "\<lambda>p. ept_wf p \<and> frames_fit p"
  "\<lambda>p. {g. g < 512 ^ Suc (wl p) \<and> g < 2 ^ 64}" "good_value env"
  by unfold_locales (rule ept_set_page_law)

text \<open>
  C37. A sequence of successful 4 KB updates: every page then reads as the last update of the sequence that names it, and a page that none names
  reads as before.\<close>

theorem ept_set_sequence:
  assumes "ept_wf p" "frames_fit p" "ept_pages.set_pages env xs p = Some p'" "h < 512 ^ Suc (wl p)" "h < 2 ^ 64"
    and "\<forall>x\<in>set xs. fst x < 512 ^ Suc (wl p) \<and> fst x < 2 ^ 64 \<and> good_value env (snd x)"
  shows "ept_abs p' h = (case map_of (rev xs) h of Some v \<Rightarrow> v | None \<Rightarrow> ept_abs p h)"
  by (rule ept_pages.set_pages_law(1)[OF _ _ assms(3)]) (use assms in auto)

theorem ept_set_sequence_witness:
  "\<exists>p'. ept_pages.set_pages demo_env [(5, (7, p2m_ram_rw, p2m_access_rwx))] demo_p2m = Some p' \<and>
     ept_abs p' 5 = (7, p2m_ram_rw, p2m_access_rwx)"
proof -
  obtain p' where "ept_set_entry demo_env 5 7 0 p2m_ram_rw p2m_access_rwx demo_p2m = Inr (True, p')"
    using set_entry_4k_ok[OF demo_p2m_wf(1) _ _ demo_lookup, of 5 demo_env 7 p2m_ram_rw p2m_access_rwx]
    by (auto simp: demo_p2m_def)
  then have s: "ept_pages.set_pages demo_env [(5, (7, p2m_ram_rw, p2m_access_rwx))] demo_p2m = Some p'"
    by (simp add: ept_set_page_def)
  have w: "wl demo_p2m = 3" by (simp add: demo_p2m_def)
  have "good_value demo_env (7, p2m_ram_rw, p2m_access_rwx)"
    by (simp add: good_value_def demo_env_def mfn_field_def take_bit_eq_mod)
  with ept_set_sequence[OF demo_p2m_wf s, of 5] s show ?thesis by (simp add: w)
qed

end
