(* ===== verification/Event_Channel.thy ===== *)
theory Event_Channel
  imports Xen_Prelude
begin

text \<open>
  The event channels of the hypervisor (\<open>src/xen/common/event_channel.c\<close>): the ports of a domain,
  how they are bound to remote domains, virtual and physical interrupts and inter-processor
  interrupts, how a notification sets the pending bit of a port and wakes the virtual processors
  that poll for it, and how ports are closed when a domain goes away. The memory-event and device
  model paths of the hypervisor talk to Dom0 through these channels.

  The theory holds the data model, every operation of the file as a definition (the diagnostic key
  handler apart), the invariant of the port tables (\<open>evt_wf\<close>) with its preservation by every
  operation, and the properties of sending, binding, closing and tearing down.
\<close>

section \<open>Data\<close>

type_synonym domid = u16

definition DOMID_SELF :: domid where "DOMID_SELF = 0x7FF0"

text \<open>Errno values as the hypercalls return them, negated.\<close>

definition EPERM :: int where "EPERM = 1"
definition ENOENT :: int where "ENOENT = 2"
definition ESRCH :: int where "ESRCH = 3"
definition ENOMEM :: int where "ENOMEM = 12"
definition EFAULT :: int where "EFAULT = 14"
definition EEXIST :: int where "EEXIST = 17"
definition EINVAL :: int where "EINVAL = 22"
definition ENOSPC :: int where "ENOSPC = 28"
definition ENOSYS :: int where "ENOSYS = 38"

text \<open>
  The state of a channel with the live member of the union: the source's constants are the
  constructors, and their arguments are the members that go with them (\<open>remote_domid\<close>;
  \<open>remote_dom\<close>, \<open>remote_port\<close>; \<open>irq\<close>, \<open>next_port\<close>, \<open>prev_port\<close>; \<open>virq\<close>).
\<close>

datatype evtchn_state =
    ECS_FREE
  | ECS_RESERVED
  | ECS_UNBOUND domid
  | ECS_INTERDOMAIN domid nat
  | ECS_PIRQ nat nat nat
  | ECS_VIRQ nat
  | ECS_IPI

record evtchn =
  chn_state :: evtchn_state
  consumer_is_xen :: bool
  notify_vcpu_id :: nat

text \<open>A bucket pointer of the domain: \<open>NULL\<close>, an array of channels, or memory that was freed.\<close>

datatype bucket = Bucket_null | Bucket "evtchn list" | Bucket_freed

record evt_vcpu =
  processor :: nat
  virq_to_evtchn :: "nat list"
  pirq_evtchn_head :: nat
  poll_evtchn :: int
  evtchn_pending_sel :: "nat \<Rightarrow> bool"
  evtchn_upcall_pending :: bool
  VPF_blocked :: bool
  VPF_blocked_in_xen :: bool

text \<open>Calls into other parts of the hypervisor, in the order they are made for a domain.\<close>

datatype evt_call =
    Call_vcpu_kick nat
  | Call_hvm_assert_evtchn_irq nat
  | Call_vcpu_wake nat
  | Call_pirq_guest_unbind nat
  | Call_pirq_set_affinity nat nat
  | Call_map_emuirq nat
  | Call_unmap_emuirq nat

record evt_domain =
  ed_evtchn :: "bucket list"
  ed_vcpu :: "evt_vcpu option list"
  ed_dying :: bool
  ed_hvm :: bool
  ed_32bit_shinfo :: bool
  pirq_to_evtchn :: "nat list"
  evtchn_pending :: "nat \<Rightarrow> bool"
  evtchn_mask :: "nat \<Rightarrow> bool"
  poll_mask :: "nat \<Rightarrow> bool"
  ed_calls :: "evt_call list"

abbreviation max_vcpus :: "evt_domain \<Rightarrow> nat" where
  "max_vcpus d \<equiv> length (ed_vcpu d)"

abbreviation nr_pirqs :: "evt_domain \<Rightarrow> nat" where
  "nr_pirqs d \<equiv> length (pirq_to_evtchn d)"

text \<open>All domains, by their id: a \<open>struct domain\<close> pointer is the id of the domain.\<close>

type_synonym evt_world = "domid \<Rightarrow> evt_domain option"

text \<open>
  What the operations take from the rest of the hypervisor: the calling domain, privilege checks,
  allocation, the hooks of the security module, the interrupt layer, the order of the addresses of
  two domains, and what other processors do while \<open>__evtchn_close\<close> has dropped its lock.
\<close>

record evt_env =
  current_domain :: domid
  is_priv_for :: "domid \<Rightarrow> bool"
  xmalloc_ok :: bool
  xsm_alloc_security_evtchn :: "nat \<Rightarrow> bool"
  xsm_evtchn_unbound :: "domid \<Rightarrow> nat \<Rightarrow> domid \<Rightarrow> int"
  xsm_evtchn_interdomain :: "domid \<Rightarrow> nat \<Rightarrow> domid \<Rightarrow> nat \<Rightarrow> int"
  xsm_evtchn_send :: "domid \<Rightarrow> nat \<Rightarrow> int"
  xsm_evtchn_status :: "domid \<Rightarrow> nat \<Rightarrow> int"
  xsm_evtchn_reset :: "domid \<Rightarrow> domid \<Rightarrow> int"
  irq_access_permitted :: "domid \<Rightarrow> nat \<Rightarrow> bool"
  pirq_guest_bind :: "domid \<Rightarrow> nat \<Rightarrow> bool \<Rightarrow> int"
  domain_pirq_to_irq :: "domid \<Rightarrow> nat \<Rightarrow> int"
  domain_before :: "domid \<Rightarrow> domid \<Rightarrow> bool"
  other_cpus :: "evt_world \<Rightarrow> evt_world"

text \<open>A store into a \<open>u16\<close> member keeps the low sixteen bits.\<close>

definition to_u16 :: "nat \<Rightarrow> nat" where
  "to_u16 n = n mod 65536"

section \<open>Ports and channels\<close>

definition EVTCHNS_PER_BUCKET :: nat where "EVTCHNS_PER_BUCKET = 128"

definition NR_EVTCHN_BUCKETS :: nat where "NR_EVTCHN_BUCKETS = 8 * 8 * 64 div EVTCHNS_PER_BUCKET"

definition BITS_PER_EVTCHN_WORD :: "evt_domain \<Rightarrow> nat" where
  "BITS_PER_EVTCHN_WORD d = (if ed_32bit_shinfo d then 32 else 64)"

definition MAX_EVTCHNS :: "evt_domain \<Rightarrow> nat" where
  "MAX_EVTCHNS d = BITS_PER_EVTCHN_WORD d * BITS_PER_EVTCHN_WORD d"

definition bucket_from_port :: "evt_domain \<Rightarrow> nat \<Rightarrow> bucket" where
  "bucket_from_port d p = ed_evtchn d ! (p div EVTCHNS_PER_BUCKET)"

definition port_is_valid :: "evt_domain \<Rightarrow> nat \<Rightarrow> bool" where
  "port_is_valid d p \<longleftrightarrow> p < MAX_EVTCHNS d \<and> bucket_from_port d p \<noteq> Bucket_null"

definition evtchn_from_port :: "evt_domain \<Rightarrow> nat \<Rightarrow> evtchn result" where
  "evtchn_from_port d p =
     bindR (arr_get (ed_evtchn d) (p div EVTCHNS_PER_BUCKET)) (\<lambda>b.
       case b of
         Bucket_null \<Rightarrow> Inl Null_deref
       | Bucket cs \<Rightarrow> arr_get cs (p mod EVTCHNS_PER_BUCKET)
       | Bucket_freed \<Rightarrow> Inl Use_after_free)"

text \<open>The store through the pointer that \<open>evtchn_from_port\<close> returned.\<close>

definition put_evtchn :: "nat \<Rightarrow> evtchn \<Rightarrow> evt_domain \<Rightarrow> evt_domain" where
  "put_evtchn p c d =
     (case bucket_from_port d p of
        Bucket cs \<Rightarrow>
          d\<lparr>ed_evtchn := (ed_evtchn d)
              [p div EVTCHNS_PER_BUCKET := Bucket (cs[p mod EVTCHNS_PER_BUCKET := c])]\<rparr>
      | _ \<Rightarrow> d)"

definition get_vcpu :: "evt_domain \<Rightarrow> nat \<Rightarrow> evt_vcpu result" where
  "get_vcpu d i =
     bindR (arr_get (ed_vcpu d) i) (\<lambda>v. case v of None \<Rightarrow> Inl Null_deref | Some v \<Rightarrow> Inr v)"

definition put_vcpu :: "nat \<Rightarrow> evt_vcpu \<Rightarrow> evt_domain \<Rightarrow> evt_domain" where
  "put_vcpu i v d = d\<lparr>ed_vcpu := (ed_vcpu d)[i := Some v]\<rparr>"

definition log_call :: "evt_call \<Rightarrow> evt_domain \<Rightarrow> evt_domain" where
  "log_call c d = d\<lparr>ed_calls := ed_calls d @ [c]\<rparr>"

definition get_dom :: "evt_world \<Rightarrow> domid \<Rightarrow> evt_domain result" where
  "get_dom w i = (case w i of None \<Rightarrow> Inl Null_deref | Some d \<Rightarrow> Inr d)"

section \<open>Virtual interrupts\<close>

definition NR_VIRQS :: nat where "NR_VIRQS = 24"

definition VIRQ_TIMER :: nat where "VIRQ_TIMER = 0"
definition VIRQ_DEBUG :: nat where "VIRQ_DEBUG = 1"
definition VIRQ_XENOPROF :: nat where "VIRQ_XENOPROF = 7"
definition VIRQ_ARCH_0 :: nat where "VIRQ_ARCH_0 = 16"
definition VIRQ_ARCH_7 :: nat where "VIRQ_ARCH_7 = 23"

definition arch_virq_is_global :: "nat \<Rightarrow> bool" where
  "arch_virq_is_global virq = True"

definition virq_is_global :: "nat \<Rightarrow> bool result" where
  "virq_is_global virq =
     (if \<not> virq < NR_VIRQS then Inl Assert_failed
      else if virq = VIRQ_TIMER \<or> virq = VIRQ_DEBUG \<or> virq = VIRQ_XENOPROF then Inr False
      else if VIRQ_ARCH_0 \<le> virq \<and> virq \<le> VIRQ_ARCH_7 then Inr (arch_virq_is_global virq)
      else Inr True)"

section \<open>Allocating a port\<close>

text \<open>
  The search loop of \<open>get_free_port\<close>: it ends at the first free port (\<open>True\<close>) or at the first port
  that is not valid (\<open>False\<close>).
\<close>

function scan_ports :: "evt_domain \<Rightarrow> nat \<Rightarrow> (bool \<times> nat) result" where
  "scan_ports d port =
     (if port_is_valid d port then
        bindR (evtchn_from_port d port) (\<lambda>c.
          if chn_state c = ECS_FREE then Inr (True, port) else scan_ports d (port + 1))
      else Inr (False, port))"
  by pat_completeness auto
termination
  by (relation "measure (\<lambda>(d, port). MAX_EVTCHNS d - port)") (auto simp: port_is_valid_def)

declare scan_ports.simps [simp del]

definition zero_evtchn :: evtchn where
  "zero_evtchn = \<lparr>chn_state = ECS_FREE, consumer_is_xen = False, notify_vcpu_id = 0\<rparr>"

text \<open>
  The new bucket is stored in the domain before the security labels of its channels are allocated;
  when that allocation fails the bucket is freed, and the pointer stays in the domain.
\<close>

definition get_free_port :: "evt_env \<Rightarrow> evt_domain \<Rightarrow> ((int + nat) \<times> evt_domain) result" where
  "get_free_port env d =
     (if ed_dying d then Inr (Inl (- EINVAL), d)
      else bindR (scan_ports d 0) (\<lambda>(found, port).
        if found then Inr (Inr port, d)
        else if port = MAX_EVTCHNS d then Inr (Inl (- ENOSPC), d)
        else if \<not> xmalloc_ok env then Inr (Inl (- ENOMEM), d)
        else if \<exists>i<EVTCHNS_PER_BUCKET. xsm_alloc_security_evtchn env i then
          Inr (Inl (- ENOMEM),
               d\<lparr>ed_evtchn := (ed_evtchn d)[port div EVTCHNS_PER_BUCKET := Bucket_freed]\<rparr>)
        else
          Inr (Inr port,
               d\<lparr>ed_evtchn := (ed_evtchn d)
                   [port div EVTCHNS_PER_BUCKET := Bucket (replicate EVTCHNS_PER_BUCKET zero_evtchn)]\<rparr>)))"

section \<open>Delivery\<close>

text \<open>\<open>vcpu_mark_events_pending\<close> of \<open>arch/x86/domain.c\<close>.\<close>

definition vcpu_mark_events_pending :: "nat \<Rightarrow> evt_domain \<Rightarrow> evt_domain result" where
  "vcpu_mark_events_pending i d =
     bindR (get_vcpu d i) (\<lambda>v.
       let already_pending = evtchn_upcall_pending v;
           d = put_vcpu i (v\<lparr>evtchn_upcall_pending := True\<rparr>) d
       in if already_pending then Inr d
          else if ed_hvm d then Inr (log_call (Call_hvm_assert_evtchn_irq i) d)
          else Inr (log_call (Call_vcpu_kick i) d))"

text \<open>\<open>vcpu_unblock\<close> of \<open>common/schedule.c\<close>; \<open>vcpu_wake\<close> is a call into the scheduler.\<close>

definition vcpu_unblock :: "nat \<Rightarrow> evt_domain \<Rightarrow> evt_domain result" where
  "vcpu_unblock i d =
     bindR (get_vcpu d i) (\<lambda>v.
       if \<not> VPF_blocked v then Inr d
       else
         let v = v\<lparr>VPF_blocked := False\<rparr>;
             d = (if poll_evtchn v \<noteq> 0
                  then (put_vcpu i (v\<lparr>poll_evtchn := 0\<rparr>) d)\<lparr>poll_mask := (poll_mask d)(i := False)\<rparr>
                  else put_vcpu i v d)
         in Inr (log_call (Call_vcpu_wake i) d))"

text \<open>One turn of the loop over the polling virtual processors.\<close>

definition wake_poller :: "nat \<Rightarrow> nat \<Rightarrow> evt_domain \<Rightarrow> evt_domain result" where
  "wake_poller port vcpuid d =
     (if \<not> poll_mask d vcpuid then Inr d
      else bindR (get_vcpu d vcpuid) (\<lambda>v.
        if poll_evtchn v \<le> 0 \<or> poll_evtchn v = int port then
          let d = d\<lparr>poll_mask := (poll_mask d)(vcpuid := False)\<rparr>;
              d = put_vcpu vcpuid (v\<lparr>poll_evtchn := 0\<rparr>) d
          in vcpu_unblock vcpuid d
        else Inr d))"

definition raise_upcall :: "nat \<Rightarrow> nat \<Rightarrow> evt_domain \<Rightarrow> evt_domain result" where
  "raise_upcall vid port d =
     bindR (get_vcpu d vid) (\<lambda>v.
       let word = port div BITS_PER_EVTCHN_WORD d in
       if evtchn_pending_sel v word then Inr d
       else vcpu_mark_events_pending vid
              (put_vcpu vid (v\<lparr>evtchn_pending_sel := (evtchn_pending_sel v)(word := True)\<rparr>) d))"

definition evtchn_set_pending :: "nat \<Rightarrow> nat \<Rightarrow> evt_domain \<Rightarrow> (int \<times> evt_domain) result" where
  "evtchn_set_pending vid port d =
     bindR (get_vcpu d vid) (\<lambda>_.
       if evtchn_pending d port then Inr (1, d)
       else
         let d = d\<lparr>evtchn_pending := (evtchn_pending d)(port := True)\<rparr> in
         bindR (if evtchn_mask d port then Inr d else raise_upcall vid port d) (\<lambda>d.
           if \<forall>j<max_vcpus d. \<not> poll_mask d j then Inr (0, d)
           else bindR (for_loop (wake_poller port) [0..<max_vcpus d] d) (\<lambda>d. Inr (0, d))))"

section \<open>Binding\<close>

record evtchn_alloc_unbound_t =
  au_dom :: domid
  au_remote_dom :: domid
  au_port :: u32

record evtchn_bind_interdomain_t =
  bi_remote_dom :: domid
  bi_remote_port :: u32
  bi_local_port :: u32

record evtchn_bind_virq_t =
  bv_virq :: u32
  bv_vcpu :: u32
  bv_port :: u32

record evtchn_bind_ipi_t =
  bp_vcpu :: u32
  bp_port :: u32

record evtchn_bind_pirq_t =
  bq_pirq :: u32
  bq_flags :: u32
  bq_port :: u32

definition rcu_lock_target_domain_by_id :: "evt_env \<Rightarrow> evt_world \<Rightarrow> domid \<Rightarrow> int + domid" where
  "rcu_lock_target_domain_by_id env w i =
     (if i = DOMID_SELF then Inr (current_domain env)
      else if w i = None then Inl (- ESRCH)
      else if \<not> is_priv_for env i then Inl (- EPERM)
      else Inr i)"

definition evtchn_alloc_unbound ::
  "evt_env \<Rightarrow> evtchn_alloc_unbound_t \<Rightarrow> evt_world \<Rightarrow> (int \<times> evtchn_alloc_unbound_t \<times> evt_world) result"
where
  "evtchn_alloc_unbound env alloc w =
     (case rcu_lock_target_domain_by_id env w (au_dom alloc) of
        Inl rc \<Rightarrow> Inr (rc, alloc, w)
      | Inr di \<Rightarrow>
          bindR (get_dom w di) (\<lambda>d.
          bindR (get_free_port env d) (\<lambda>(r, d).
            case r of
              Inl rc \<Rightarrow> Inr (rc, alloc, w(di \<mapsto> d))
            | Inr port \<Rightarrow>
                bindR (evtchn_from_port d port) (\<lambda>chn.
                  let rc = xsm_evtchn_unbound env di port (au_remote_dom alloc) in
                  if rc \<noteq> 0 then Inr (rc, alloc, w(di \<mapsto> d))
                  else
                    let remote = (if au_remote_dom alloc = DOMID_SELF then current_domain env
                                  else au_remote_dom alloc);
                        chn = chn\<lparr>chn_state := ECS_UNBOUND remote\<rparr>
                    in Inr (0, alloc\<lparr>au_port := of_nat port\<rparr>, w(di \<mapsto> put_evtchn port chn d))))))"

definition evtchn_bind_interdomain ::
  "evt_env \<Rightarrow> evtchn_bind_interdomain_t \<Rightarrow> evt_world \<Rightarrow> (int \<times> evtchn_bind_interdomain_t \<times> evt_world) result"
where
  "evtchn_bind_interdomain env bind w =
     (let li = current_domain env;
          rport = unat (bi_remote_port bind);
          ri = (if bi_remote_dom bind = DOMID_SELF then current_domain env else bi_remote_dom bind)
      in
      if w ri = None then Inr (- ESRCH, bind, w)
      else
        bindR (get_dom w li) (\<lambda>ld.
        bindR (get_free_port env ld) (\<lambda>(r, ld).
          let w = w(li \<mapsto> ld) in
          case r of
            Inl rc \<Rightarrow> Inr (rc, bind, w)
          | Inr lport \<Rightarrow>
              bindR (evtchn_from_port ld lport) (\<lambda>lchn.
              bindR (get_dom w ri) (\<lambda>rd.
                if \<not> port_is_valid rd rport then Inr (- EINVAL, bind, w)
                else bindR (evtchn_from_port rd rport) (\<lambda>rchn.
                  if chn_state rchn \<noteq> ECS_UNBOUND li then Inr (- EINVAL, bind, w)
                  else
                    let rc = xsm_evtchn_interdomain env li lport ri rport in
                    if rc \<noteq> 0 then Inr (rc, bind, w)
                    else
                      let lchn = lchn\<lparr>chn_state := ECS_INTERDOMAIN ri (to_u16 rport)\<rparr>;
                          w = w(li \<mapsto> put_evtchn lport lchn ld)
                      in bindR (get_dom w ri) (\<lambda>rd.
                         let rchn = rchn\<lparr>chn_state := ECS_INTERDOMAIN li (to_u16 lport)\<rparr>;
                             w = w(ri \<mapsto> put_evtchn rport rchn rd)
                         in bindR (get_dom w li) (\<lambda>ld.
                            bindR (evtchn_set_pending (notify_vcpu_id lchn) lport ld) (\<lambda>(_, ld).
                              Inr (0, bind\<lparr>bi_local_port := of_nat lport\<rparr>, w(li \<mapsto> ld)))))))))))"

definition evtchn_bind_virq ::
  "evt_env \<Rightarrow> evtchn_bind_virq_t \<Rightarrow> evt_world \<Rightarrow> (int \<times> evtchn_bind_virq_t \<times> evt_world) result"
where
  "evtchn_bind_virq env bind w =
     (let di = current_domain env; virq = unat (bv_virq bind); vcpu = unat (bv_vcpu bind) in
      bindR (get_dom w di) (\<lambda>d.
        if \<not> virq < NR_VIRQS then Inr (- EINVAL, bind, w)
        else bindR (virq_is_global virq) (\<lambda>global.
          if global \<and> vcpu \<noteq> 0 then Inr (- EINVAL, bind, w)
          else if \<not> vcpu < max_vcpus d \<or> ed_vcpu d ! vcpu = None then Inr (- ENOENT, bind, w)
          else bindR (get_vcpu d vcpu) (\<lambda>v.
               bindR (arr_get (virq_to_evtchn v) virq) (\<lambda>old.
            if old \<noteq> 0 then Inr (- EEXIST, bind, w)
            else bindR (get_free_port env d) (\<lambda>(r, d).
              case r of
                Inl rc \<Rightarrow> Inr (rc, bind, w(di \<mapsto> d))
              | Inr port \<Rightarrow>
                  bindR (evtchn_from_port d port) (\<lambda>chn.
                    let chn = chn\<lparr>chn_state := ECS_VIRQ (to_u16 virq), notify_vcpu_id := to_u16 vcpu\<rparr>;
                        v = v\<lparr>virq_to_evtchn := (virq_to_evtchn v)[virq := to_u16 port]\<rparr>
                    in Inr (0, bind\<lparr>bv_port := of_nat port\<rparr>,
                            w(di \<mapsto> put_vcpu vcpu v (put_evtchn port chn d))))))))))"

definition evtchn_bind_ipi ::
  "evt_env \<Rightarrow> evtchn_bind_ipi_t \<Rightarrow> evt_world \<Rightarrow> (int \<times> evtchn_bind_ipi_t \<times> evt_world) result"
where
  "evtchn_bind_ipi env bind w =
     (let di = current_domain env; vcpu = unat (bp_vcpu bind) in
      bindR (get_dom w di) (\<lambda>d.
        if \<not> vcpu < max_vcpus d \<or> ed_vcpu d ! vcpu = None then Inr (- ENOENT, bind, w)
        else bindR (get_free_port env d) (\<lambda>(r, d).
          case r of
            Inl rc \<Rightarrow> Inr (rc, bind, w(di \<mapsto> d))
          | Inr port \<Rightarrow>
              bindR (evtchn_from_port d port) (\<lambda>chn.
                let chn = chn\<lparr>chn_state := ECS_IPI, notify_vcpu_id := to_u16 vcpu\<rparr>
                in Inr (0, bind\<lparr>bp_port := of_nat port\<rparr>, w(di \<mapsto> put_evtchn port chn d))))))"

section \<open>Physical interrupts\<close>

text \<open>
  The channels bound to physical interrupts of one virtual processor are a doubly linked list
  through the \<open>next_port\<close> and \<open>prev_port\<close> members, port 0 standing for the end.
\<close>

definition set_next_port :: "nat \<Rightarrow> nat \<Rightarrow> evt_domain \<Rightarrow> evt_domain result" where
  "set_next_port p n d =
     bindR (evtchn_from_port d p) (\<lambda>c.
       case chn_state c of
         ECS_PIRQ irq next prev \<Rightarrow> Inr (put_evtchn p (c\<lparr>chn_state := ECS_PIRQ irq n prev\<rparr>) d)
       | _ \<Rightarrow> Inl Union_confusion)"

definition set_prev_port :: "nat \<Rightarrow> nat \<Rightarrow> evt_domain \<Rightarrow> evt_domain result" where
  "set_prev_port p n d =
     bindR (evtchn_from_port d p) (\<lambda>c.
       case chn_state c of
         ECS_PIRQ irq next prev \<Rightarrow> Inr (put_evtchn p (c\<lparr>chn_state := ECS_PIRQ irq next n\<rparr>) d)
       | _ \<Rightarrow> Inl Union_confusion)"

definition link_pirq_port :: "nat \<Rightarrow> nat \<Rightarrow> evt_domain \<Rightarrow> evt_domain result" where
  "link_pirq_port port vid d =
     bindR (get_vcpu d vid) (\<lambda>v.
     bindR (set_prev_port port 0 d) (\<lambda>d.
     bindR (set_next_port port (to_u16 (pirq_evtchn_head v)) d) (\<lambda>d.
     bindR (if pirq_evtchn_head v \<noteq> 0 then set_prev_port (pirq_evtchn_head v) (to_u16 port) d else Inr d) (\<lambda>d.
       Inr (put_vcpu vid (v\<lparr>pirq_evtchn_head := port\<rparr>) d)))))"

definition unlink_pirq_port :: "nat \<Rightarrow> nat \<Rightarrow> evt_domain \<Rightarrow> evt_domain result" where
  "unlink_pirq_port port vid d =
     bindR (get_vcpu d vid) (\<lambda>v.
     bindR (evtchn_from_port d port) (\<lambda>c.
       case chn_state c of
         ECS_PIRQ irq next prev \<Rightarrow>
           bindR (if prev \<noteq> 0 then set_next_port prev next d
                  else Inr (put_vcpu vid (v\<lparr>pirq_evtchn_head := next\<rparr>) d)) (\<lambda>d.
             if next \<noteq> 0 then set_prev_port next prev d else Inr d)
       | _ \<Rightarrow> Inl Union_confusion))"

definition BIND_PIRQ__WILL_SHARE :: u32 where "BIND_PIRQ__WILL_SHARE = 1"

definition evtchn_bind_pirq ::
  "evt_env \<Rightarrow> evtchn_bind_pirq_t \<Rightarrow> evt_world \<Rightarrow> (int \<times> evtchn_bind_pirq_t \<times> evt_world) result"
where
  "evtchn_bind_pirq env bind w =
     (let di = current_domain env; pirq = unat (bq_pirq bind) in
      bindR (get_dom w di) (\<lambda>d.
        if \<not> pirq < nr_pirqs d then Inr (- EINVAL, bind, w)
        else if \<not> ed_hvm d \<and> \<not> irq_access_permitted env di pirq then Inr (- EPERM, bind, w)
        else if pirq_to_evtchn d ! pirq \<noteq> 0 then Inr (- EEXIST, bind, w)
        else bindR (get_free_port env d) (\<lambda>(r, d).
          case r of
            Inl rc \<Rightarrow> Inr (rc, bind, w(di \<mapsto> d))
          | Inr port \<Rightarrow>
              bindR (evtchn_from_port d port) (\<lambda>chn.
                let rc = (if \<not> ed_hvm d
                          then pirq_guest_bind env di pirq (bq_flags bind AND BIND_PIRQ__WILL_SHARE \<noteq> 0)
                          else 0)
                in if rc \<noteq> 0 then Inr (rc, bind, w(di \<mapsto> d\<lparr>pirq_to_evtchn := (pirq_to_evtchn d)[pirq := 0]\<rparr>))
                   else
                     let d = d\<lparr>pirq_to_evtchn := (pirq_to_evtchn d)[pirq := to_u16 port]\<rparr>;
                         d = put_evtchn port (chn\<lparr>chn_state := ECS_PIRQ (to_u16 pirq) 0 0\<rparr>) d
                     in bindR (link_pirq_port port 0 d) (\<lambda>d.
                          let d = (if ed_hvm d \<and> domain_pirq_to_irq env di pirq > 0
                                   then log_call (Call_map_emuirq pirq) d else d)
                          in Inr (0, bind\<lparr>bq_port := of_nat port\<rparr>, w(di \<mapsto> d)))))))"

section \<open>Closing\<close>

text \<open>
  One pass of \<open>__evtchn_close\<close> with the lock of \<open>d1\<close> held. \<open>Close_again d2\<close>: the lock of \<open>d1\<close> was
  dropped in order to take the lock of \<open>d2\<close> first, and the code jumps to \<open>again\<close>.
\<close>

datatype close_outcome = Close_again domid | Closed int evt_world

definition close_virq :: "nat \<Rightarrow> nat \<Rightarrow> evt_domain \<Rightarrow> evt_domain result" where
  "close_virq virq port1 d =
     for_loop (\<lambda>i d.
       case ed_vcpu d ! i of
         None \<Rightarrow> Inr d
       | Some v \<Rightarrow>
           bindR (arr_get (virq_to_evtchn v) virq) (\<lambda>p.
             if p \<noteq> port1 then Inr d
             else Inr (put_vcpu i (v\<lparr>virq_to_evtchn := (virq_to_evtchn v)[virq := 0]\<rparr>) d)))
       [0..<max_vcpus d] d"

definition close_pirq :: "evt_env \<Rightarrow> domid \<Rightarrow> nat \<Rightarrow> nat \<Rightarrow> nat \<Rightarrow> evt_domain \<Rightarrow> evt_domain result" where
  "close_pirq env i1 irq port1 vid d =
     (let d = (if \<not> ed_hvm d then log_call (Call_pirq_guest_unbind irq) d else d) in
      bindR (arr_set (pirq_to_evtchn d) irq 0) (\<lambda>pte.
      bindR (unlink_pirq_port port1 vid (d\<lparr>pirq_to_evtchn := pte\<rparr>)) (\<lambda>d.
        if ed_hvm d \<and> domain_pirq_to_irq env i1 irq > 0
        then Inr (log_call (Call_unmap_emuirq irq) d) else Inr d)))"

text \<open>The end of a successful close: the pending bit is cleared and the channel is free.\<close>

definition close_finish :: "nat \<Rightarrow> evt_domain \<Rightarrow> evt_domain result" where
  "close_finish port1 d =
     bindR (evtchn_from_port d port1) (\<lambda>chn1.
       Inr (put_evtchn port1 (chn1\<lparr>chn_state := ECS_FREE, notify_vcpu_id := 0\<rparr>)
              (d\<lparr>evtchn_pending := (evtchn_pending d)(port1 := False)\<rparr>)))"

definition close_interdomain :: "domid \<Rightarrow> domid \<Rightarrow> nat \<Rightarrow> evt_world \<Rightarrow> evt_world result" where
  "close_interdomain i1 i2 port2 w =
     bindR (get_dom w i2) (\<lambda>d2.
       if \<not> port_is_valid d2 port2 then Inl Bug_on
       else bindR (evtchn_from_port d2 port2) (\<lambda>chn2.
         case chn_state chn2 of
           ECS_INTERDOMAIN r _ \<Rightarrow>
             if r \<noteq> i1 then Inl Bug_on
             else Inr (w(i2 \<mapsto> put_evtchn port2 (chn2\<lparr>chn_state := ECS_UNBOUND i1\<rparr>) d2))
         | _ \<Rightarrow> Inl Bug_on))"

definition close_locked ::
  "evt_env \<Rightarrow> domid \<Rightarrow> nat \<Rightarrow> domid option \<Rightarrow> evt_world \<Rightarrow> close_outcome result"
where
  "close_locked env i1 port1 d2 w =
     bindR (get_dom w i1) (\<lambda>d1.
       if \<not> port_is_valid d1 port1 then Inr (Closed (- EINVAL) w)
       else bindR (evtchn_from_port d1 port1) (\<lambda>chn1.
         if consumer_is_xen chn1 then Inr (Closed (- EINVAL) w)
         else
           let finish = (\<lambda>w. bindR (get_dom w i1) (\<lambda>d1.
                 bindR (close_finish port1 d1) (\<lambda>d1. Inr (Closed 0 (w(i1 \<mapsto> d1))))))
           in case chn_state chn1 of
             ECS_FREE \<Rightarrow> Inr (Closed (- EINVAL) w)
           | ECS_RESERVED \<Rightarrow> Inr (Closed (- EINVAL) w)
           | ECS_UNBOUND _ \<Rightarrow> finish w
           | ECS_PIRQ irq _ _ \<Rightarrow>
               bindR (close_pirq env i1 irq port1 (notify_vcpu_id chn1) d1) (\<lambda>d1. finish (w(i1 \<mapsto> d1)))
           | ECS_VIRQ virq \<Rightarrow>
               bindR (close_virq virq port1 d1) (\<lambda>d1. finish (w(i1 \<mapsto> d1)))
           | ECS_IPI \<Rightarrow> finish w
           | ECS_INTERDOMAIN rd port2 \<Rightarrow>
               (case d2 of
                  None \<Rightarrow>
                    if w rd = None then Inl Bug_on
                    else if domain_before env i1 rd \<or> i1 = rd
                    then bindR (close_interdomain i1 rd port2 w) finish
                    else Inr (Close_again rd)
                | Some i2 \<Rightarrow>
                    if i2 \<noteq> rd then Inr (Closed (- EINVAL) w)
                    else bindR (close_interdomain i1 i2 port2 w) finish)))"

text \<open>While the lock is dropped other processors run; the second pass has \<open>d2\<close> set.\<close>

definition evtchn_close_port :: "evt_env \<Rightarrow> domid \<Rightarrow> nat \<Rightarrow> evt_world \<Rightarrow> (int \<times> evt_world) result" where
  "evtchn_close_port env i1 port1 w =
     bindR (close_locked env i1 port1 None w) (\<lambda>r.
       case r of
         Closed rc w \<Rightarrow> Inr (rc, w)
       | Close_again d2 \<Rightarrow>
           bindR (close_locked env i1 port1 (Some d2) (other_cpus env w)) (\<lambda>r.
             case r of Closed rc w \<Rightarrow> Inr (rc, w) | Close_again _ \<Rightarrow> Inl Bug_on))"

definition evtchn_close :: "evt_env \<Rightarrow> u32 \<Rightarrow> evt_world \<Rightarrow> (int \<times> evt_world) result" where
  "evtchn_close env port w = evtchn_close_port env (current_domain env) (unat port) w"

section \<open>Sending\<close>

definition evtchn_send :: "evt_env \<Rightarrow> domid \<Rightarrow> nat \<Rightarrow> evt_world \<Rightarrow> (int \<times> evt_world) result" where
  "evtchn_send env li lport w =
     bindR (get_dom w li) (\<lambda>ld.
       if \<not> port_is_valid ld lport then Inr (- EINVAL, w)
       else bindR (evtchn_from_port ld lport) (\<lambda>lchn.
         if consumer_is_xen lchn then Inr (- EINVAL, w)
         else
           let ret = xsm_evtchn_send env li lport in
           if ret \<noteq> 0 then Inr (ret, w)
           else case chn_state lchn of
             ECS_INTERDOMAIN ri rport \<Rightarrow>
               bindR (get_dom w ri) (\<lambda>rd.
               bindR (evtchn_from_port rd rport) (\<lambda>rchn.
                 if consumer_is_xen rchn then
                   bindR (get_vcpu rd (notify_vcpu_id rchn)) (\<lambda>rvcpu.
                     if VPF_blocked_in_xen rvcpu then
                       Inr (0, w(ri \<mapsto> log_call (Call_vcpu_wake (notify_vcpu_id rchn))
                                  (put_vcpu (notify_vcpu_id rchn)
                                     (rvcpu\<lparr>VPF_blocked_in_xen := False\<rparr>) rd)))
                     else Inr (0, w))
                 else
                   bindR (evtchn_set_pending (notify_vcpu_id rchn) rport rd) (\<lambda>(_, rd).
                     Inr (0, w(ri \<mapsto> rd)))))
           | ECS_IPI \<Rightarrow>
               bindR (evtchn_set_pending (notify_vcpu_id lchn) lport ld) (\<lambda>(_, ld).
                 Inr (0, w(li \<mapsto> ld)))
           | ECS_UNBOUND _ \<Rightarrow> Inr (0, w)
           | _ \<Rightarrow> Inr (- EINVAL, w)))"

definition guest_enabled_event :: "evt_vcpu option \<Rightarrow> nat \<Rightarrow> bool result" where
  "guest_enabled_event v virq =
     (case v of None \<Rightarrow> Inr False
      | Some v \<Rightarrow> bindR (arr_get (virq_to_evtchn v) virq) (\<lambda>p. Inr (p \<noteq> 0)))"

definition send_guest_vcpu_virq :: "nat \<Rightarrow> nat \<Rightarrow> evt_domain \<Rightarrow> evt_domain result" where
  "send_guest_vcpu_virq vid virq d =
     bindR (virq_is_global virq) (\<lambda>global.
       if global then Inl Assert_failed
       else bindR (get_vcpu d vid) (\<lambda>v.
            bindR (arr_get (virq_to_evtchn v) virq) (\<lambda>port.
              if port = 0 then Inr d
              else bindR (evtchn_set_pending vid port d) (\<lambda>(_, d). Inr d))))"

definition send_guest_global_virq :: "nat \<Rightarrow> evt_domain \<Rightarrow> evt_domain result" where
  "send_guest_global_virq virq d =
     bindR (virq_is_global virq) (\<lambda>global.
       if \<not> global then Inl Assert_failed
       else if ed_vcpu d = [] \<or> ed_vcpu d ! 0 = None then Inr d
       else bindR (get_vcpu d 0) (\<lambda>v.
            bindR (arr_get (virq_to_evtchn v) virq) (\<lambda>port.
              if port = 0 then Inr d
              else bindR (evtchn_from_port d port) (\<lambda>chn.
                   bindR (evtchn_set_pending (notify_vcpu_id chn) port d) (\<lambda>(_, d). Inr d)))))"

definition send_guest_pirq :: "nat \<Rightarrow> evt_domain \<Rightarrow> (int \<times> evt_domain) result" where
  "send_guest_pirq pirq d =
     bindR (arr_get (pirq_to_evtchn d) pirq) (\<lambda>port.
       if port = 0 then (if ed_hvm d then Inr (0, d) else Inl Bug_on)
       else bindR (evtchn_from_port d port) (\<lambda>chn.
         evtchn_set_pending (notify_vcpu_id chn) port d))"

section \<open>Status, affinity, masking, reset\<close>

datatype evtchn_status_u =
    EVTCHNSTAT_closed
  | EVTCHNSTAT_unbound domid
  | EVTCHNSTAT_interdomain domid u32
  | EVTCHNSTAT_pirq u32
  | EVTCHNSTAT_virq u32
  | EVTCHNSTAT_ipi

record evtchn_status_t =
  st_dom :: domid
  st_port :: u32
  st_status :: evtchn_status_u
  st_vcpu :: u32

definition status_of :: "evtchn_state \<Rightarrow> evtchn_status_u" where
  "status_of s =
     (case s of
        ECS_FREE \<Rightarrow> EVTCHNSTAT_closed
      | ECS_RESERVED \<Rightarrow> EVTCHNSTAT_closed
      | ECS_UNBOUND r \<Rightarrow> EVTCHNSTAT_unbound r
      | ECS_INTERDOMAIN r p \<Rightarrow> EVTCHNSTAT_interdomain r (of_nat p)
      | ECS_PIRQ irq _ _ \<Rightarrow> EVTCHNSTAT_pirq (of_nat irq)
      | ECS_VIRQ virq \<Rightarrow> EVTCHNSTAT_virq (of_nat virq)
      | ECS_IPI \<Rightarrow> EVTCHNSTAT_ipi)"

definition evtchn_status :: "evt_env \<Rightarrow> evtchn_status_t \<Rightarrow> evt_world \<Rightarrow> (int \<times> evtchn_status_t) result" where
  "evtchn_status env st w =
     (case rcu_lock_target_domain_by_id env w (st_dom st) of
        Inl rc \<Rightarrow> Inr (rc, st)
      | Inr di \<Rightarrow>
          bindR (get_dom w di) (\<lambda>d.
            let port = unat (st_port st) in
            if \<not> port_is_valid d port then Inr (- EINVAL, st)
            else bindR (evtchn_from_port d port) (\<lambda>chn.
              let rc = xsm_evtchn_status env di port in
              if rc \<noteq> 0 then Inr (rc, st)
              else Inr (0, st\<lparr>st_status := status_of (chn_state chn),
                              st_vcpu := of_nat (notify_vcpu_id chn)\<rparr>))))"

definition evtchn_bind_vcpu :: "evt_env \<Rightarrow> nat \<Rightarrow> nat \<Rightarrow> evt_world \<Rightarrow> (int \<times> evt_world) result" where
  "evtchn_bind_vcpu env port vcpu_id w =
     (let di = current_domain env in
      bindR (get_dom w di) (\<lambda>d.
        if \<not> vcpu_id < max_vcpus d \<or> ed_vcpu d ! vcpu_id = None then Inr (- ENOENT, w)
        else if \<not> port_is_valid d port then Inr (- EINVAL, w)
        else bindR (evtchn_from_port d port) (\<lambda>chn.
          if consumer_is_xen chn then Inr (- EINVAL, w)
          else
            let rebound = put_evtchn port (chn\<lparr>notify_vcpu_id := to_u16 vcpu_id\<rparr>) d
            in case chn_state chn of
              ECS_VIRQ virq \<Rightarrow>
                bindR (virq_is_global virq) (\<lambda>global.
                  if global then Inr (0, w(di \<mapsto> rebound)) else Inr (- EINVAL, w))
            | ECS_UNBOUND _ \<Rightarrow> Inr (0, w(di \<mapsto> rebound))
            | ECS_INTERDOMAIN _ _ \<Rightarrow> Inr (0, w(di \<mapsto> rebound))
            | ECS_PIRQ irq _ _ \<Rightarrow>
                if notify_vcpu_id chn = vcpu_id then Inr (0, w)
                else bindR (unlink_pirq_port port (notify_vcpu_id chn) d) (\<lambda>d.
                     bindR (evtchn_from_port d port) (\<lambda>chn.
                     bindR (get_vcpu d vcpu_id) (\<lambda>v.
                     let d = put_evtchn port (chn\<lparr>notify_vcpu_id := to_u16 vcpu_id\<rparr>) d;
                         d = log_call (Call_pirq_set_affinity irq (processor v)) d
                     in bindR (link_pirq_port port vcpu_id d) (\<lambda>d. Inr (0, w(di \<mapsto> d))))))
            | _ \<Rightarrow> Inr (- EINVAL, w))))"

definition evtchn_unmask :: "evt_env \<Rightarrow> nat \<Rightarrow> evt_world \<Rightarrow> (int \<times> evt_world) result" where
  "evtchn_unmask env port w =
     (let di = current_domain env in
      bindR (get_dom w di) (\<lambda>d.
        if \<not> port_is_valid d port then Inr (- EINVAL, w)
        else bindR (evtchn_from_port d port) (\<lambda>chn.
          let was_masked = evtchn_mask d port;
              d' = d\<lparr>evtchn_mask := (evtchn_mask d)(port := False)\<rparr>
          in bindR (if was_masked \<and> evtchn_pending d' port
                    then raise_upcall (notify_vcpu_id chn) port d' else Inr d') (\<lambda>d'.
               Inr (0, w(di \<mapsto> d'))))))"

text \<open>
  The loops of \<open>evtchn_reset\<close> and \<open>evtchn_destroy\<close> run while the port is valid; the fuel is the
  number of ports a domain can have.
\<close>

fun close_all :: "(nat \<Rightarrow> evt_world \<Rightarrow> evt_world result) \<Rightarrow> domid \<Rightarrow> nat \<Rightarrow> nat \<Rightarrow> evt_world \<Rightarrow> evt_world result" where
  "close_all body di i 0 w = Inr w"
| "close_all body di i (Suc n) w =
     bindR (get_dom w di) (\<lambda>d.
       if port_is_valid d i then bindR (body i w) (\<lambda>w. close_all body di (i + 1) n w)
       else Inr w)"

definition evtchn_reset :: "evt_env \<Rightarrow> domid \<Rightarrow> evt_world \<Rightarrow> (int \<times> evt_world) result" where
  "evtchn_reset env r w =
     (case rcu_lock_target_domain_by_id env w r of
        Inl rc \<Rightarrow> Inr (rc, w)
      | Inr di \<Rightarrow>
          let rc = xsm_evtchn_reset env (current_domain env) di in
          if rc \<noteq> 0 then Inr (rc, w)
          else bindR (get_dom w di) (\<lambda>d.
               bindR (close_all (\<lambda>i w. bindR (evtchn_close_port env di i w) (\<lambda>(_, w). Inr w))
                        di 0 (MAX_EVTCHNS d + 1) w) (\<lambda>w.
                 Inr (0, w))))"

section \<open>The hypercall\<close>

text \<open>
  The command of \<open>do_event_channel_op\<close> together with the structure the guest passes for it;
  \<open>copy_in\<close> and \<open>copy_out\<close> tell whether the copies from and to guest memory succeed.
\<close>

datatype evtchn_op =
    EVTCHNOP_alloc_unbound evtchn_alloc_unbound_t
  | EVTCHNOP_bind_interdomain evtchn_bind_interdomain_t
  | EVTCHNOP_bind_virq evtchn_bind_virq_t
  | EVTCHNOP_bind_ipi evtchn_bind_ipi_t
  | EVTCHNOP_bind_pirq evtchn_bind_pirq_t
  | EVTCHNOP_close u32
  | EVTCHNOP_send u32
  | EVTCHNOP_status evtchn_status_t
  | EVTCHNOP_bind_vcpu u32 u32
  | EVTCHNOP_unmask u32
  | EVTCHNOP_reset domid
  | EVTCHNOP_unknown int

text \<open>The structure is copied back to the guest only when the operation succeeded.\<close>

definition copy_back ::
  "bool \<Rightarrow> ('a \<Rightarrow> evtchn_op) \<Rightarrow> evtchn_op \<Rightarrow> (int \<times> 'a \<times> evt_world) result \<Rightarrow> (int \<times> evtchn_op \<times> evt_world) result"
where
  "copy_back copy_out con op r =
     bindR r (\<lambda>(rc, x, w).
       if rc = 0 \<and> copy_out then Inr (0, con x, w)
       else if rc = 0 then Inr (- EFAULT, op, w)
       else Inr (rc, op, w))"

definition do_event_channel_op ::
  "evt_env \<Rightarrow> bool \<Rightarrow> bool \<Rightarrow> evtchn_op \<Rightarrow> evt_world \<Rightarrow> (int \<times> evtchn_op \<times> evt_world) result"
where
  "do_event_channel_op env copy_in copy_out op w =
     (case op of
        EVTCHNOP_unknown _ \<Rightarrow> Inr (- ENOSYS, op, w)
      | _ \<Rightarrow>
        if \<not> copy_in then Inr (- EFAULT, op, w)
        else case op of
          EVTCHNOP_alloc_unbound a \<Rightarrow>
            copy_back copy_out EVTCHNOP_alloc_unbound op (evtchn_alloc_unbound env a w)
        | EVTCHNOP_bind_interdomain b \<Rightarrow>
            copy_back copy_out EVTCHNOP_bind_interdomain op (evtchn_bind_interdomain env b w)
        | EVTCHNOP_bind_virq b \<Rightarrow>
            copy_back copy_out EVTCHNOP_bind_virq op (evtchn_bind_virq env b w)
        | EVTCHNOP_bind_ipi b \<Rightarrow>
            copy_back copy_out EVTCHNOP_bind_ipi op (evtchn_bind_ipi env b w)
        | EVTCHNOP_bind_pirq b \<Rightarrow>
            copy_back copy_out EVTCHNOP_bind_pirq op (evtchn_bind_pirq env b w)
        | EVTCHNOP_status s \<Rightarrow>
            copy_back copy_out EVTCHNOP_status op
              (bindR (evtchn_status env s w) (\<lambda>(rc, s). Inr (rc, s, w)))
        | EVTCHNOP_close port \<Rightarrow>
            bindR (evtchn_close env port w) (\<lambda>(rc, w). Inr (rc, op, w))
        | EVTCHNOP_send port \<Rightarrow>
            bindR (evtchn_send env (current_domain env) (unat port) w) (\<lambda>(rc, w). Inr (rc, op, w))
        | EVTCHNOP_bind_vcpu port vcpu \<Rightarrow>
            bindR (evtchn_bind_vcpu env (unat port) (unat vcpu) w) (\<lambda>(rc, w). Inr (rc, op, w))
        | EVTCHNOP_unmask port \<Rightarrow>
            bindR (evtchn_unmask env (unat port) w) (\<lambda>(rc, w). Inr (rc, op, w))
        | EVTCHNOP_reset r \<Rightarrow>
            bindR (evtchn_reset env r w) (\<lambda>(rc, w). Inr (rc, op, w))
        | EVTCHNOP_unknown _ \<Rightarrow> Inr (- ENOSYS, op, w))"

section \<open>Channels consumed by the hypervisor\<close>

definition alloc_unbound_xen_event_channel ::
  "evt_env \<Rightarrow> domid \<Rightarrow> nat \<Rightarrow> domid \<Rightarrow> evt_world \<Rightarrow> ((int + nat) \<times> evt_world) result"
where
  "alloc_unbound_xen_event_channel env di vid remote_domid w =
     bindR (get_dom w di) (\<lambda>d.
     bindR (get_free_port env d) (\<lambda>(r, d).
       case r of
         Inl rc \<Rightarrow> Inr (Inl rc, w(di \<mapsto> d))
       | Inr port \<Rightarrow>
           bindR (evtchn_from_port d port) (\<lambda>chn.
             let chn = chn\<lparr>chn_state := ECS_UNBOUND remote_domid, consumer_is_xen := True,
                           notify_vcpu_id := to_u16 vid\<rparr>
             in Inr (Inr port, w(di \<mapsto> put_evtchn port chn d)))))"

definition free_xen_event_channel :: "evt_env \<Rightarrow> domid \<Rightarrow> nat \<Rightarrow> evt_world \<Rightarrow> evt_world result" where
  "free_xen_event_channel env di port w =
     bindR (get_dom w di) (\<lambda>d.
       if ed_dying d then Inr w
       else if \<not> port_is_valid d port then Inl Bug_on
       else bindR (evtchn_from_port d port) (\<lambda>chn.
         if \<not> consumer_is_xen chn then Inl Bug_on
         else
           let w = w(di \<mapsto> put_evtchn port (chn\<lparr>consumer_is_xen := False\<rparr>) d)
           in bindR (evtchn_close_port env di port w) (\<lambda>(_, w). Inr w)))"

definition notify_via_xen_event_channel :: "domid \<Rightarrow> nat \<Rightarrow> evt_world \<Rightarrow> evt_world result" where
  "notify_via_xen_event_channel li lport w =
     bindR (get_dom w li) (\<lambda>ld.
       if ed_dying ld then Inr w
       else if \<not> port_is_valid ld lport then Inl Assert_failed
       else bindR (evtchn_from_port ld lport) (\<lambda>lchn.
         if \<not> consumer_is_xen lchn then Inl Assert_failed
         else case chn_state lchn of
           ECS_INTERDOMAIN ri rport \<Rightarrow>
             bindR (get_dom w ri) (\<lambda>rd.
             bindR (evtchn_from_port rd rport) (\<lambda>rchn.
             bindR (evtchn_set_pending (notify_vcpu_id rchn) rport rd) (\<lambda>(_, rd).
               Inr (w(ri \<mapsto> rd)))))
         | _ \<Rightarrow> Inr w))"

section \<open>Life cycle\<close>

text \<open>\<open>poll_mask\<close> of \<open>MAX_VIRT_CPUS\<close> bits is allocated (it may fail) and zeroed.\<close>

definition evtchn_init :: "evt_env \<Rightarrow> bool \<Rightarrow> evt_domain \<Rightarrow> (int \<times> evt_domain) result" where
  "evtchn_init env poll_alloc_ok d =
     bindR (get_free_port env d) (\<lambda>(r, d).
       if r \<noteq> Inr 0 then Inr (- EINVAL, d)
       else bindR (evtchn_from_port d 0) (\<lambda>c.
         let d = put_evtchn 0 (c\<lparr>chn_state := ECS_RESERVED\<rparr>) d in
         if \<not> poll_alloc_ok then Inr (- ENOMEM, d)
         else Inr (0, d\<lparr>poll_mask := (\<lambda>_. False)\<rparr>)))"

definition destroy_port :: "evt_env \<Rightarrow> domid \<Rightarrow> nat \<Rightarrow> evt_world \<Rightarrow> evt_world result" where
  "destroy_port env di i w =
     bindR (get_dom w di) (\<lambda>d.
     bindR (evtchn_from_port d i) (\<lambda>c.
     bindR (evtchn_close_port env di i (w(di \<mapsto> put_evtchn i (c\<lparr>consumer_is_xen := False\<rparr>) d))) (\<lambda>(_, w).
       Inr w)))"

definition evtchn_destroy :: "evt_env \<Rightarrow> domid \<Rightarrow> evt_world \<Rightarrow> evt_world result" where
  "evtchn_destroy env di w =
     bindR (get_dom w di) (\<lambda>d.
       if \<not> ed_dying d then Inl Bug_on
       else
         bindR (close_all (destroy_port env di) di 0 (MAX_EVTCHNS d + 1) w) (\<lambda>w.
         bindR (get_dom w di) (\<lambda>d.
           Inr (w(di \<mapsto> d\<lparr>ed_evtchn := replicate NR_EVTCHN_BUCKETS Bucket_null\<rparr>)))))"

text \<open>The walk along the list of the physical interrupts of a virtual processor, with fuel.\<close>

fun move_pirqs_loop :: "nat \<Rightarrow> nat \<Rightarrow> nat \<Rightarrow> evt_domain \<Rightarrow> evt_domain result option" where
  "move_pirqs_loop 0 cpu port d = None"
| "move_pirqs_loop (Suc n) cpu port d =
     (if port = 0 then Some (Inr d)
      else case evtchn_from_port d port of
        Inl e \<Rightarrow> Some (Inl e)
      | Inr chn \<Rightarrow>
          (case chn_state chn of
             ECS_PIRQ irq next prev \<Rightarrow>
               move_pirqs_loop n cpu next (log_call (Call_pirq_set_affinity irq cpu) d)
           | _ \<Rightarrow> Some (Inl Union_confusion)))"

definition evtchn_move_pirqs :: "nat \<Rightarrow> nat \<Rightarrow> evt_domain \<Rightarrow> evt_domain result option" where
  "evtchn_move_pirqs fuel vid d =
     (case get_vcpu d vid of
        Inl e \<Rightarrow> Some (Inl e)
      | Inr v \<Rightarrow> move_pirqs_loop fuel (processor v) (pirq_evtchn_head v) d)"

section \<open>Views of a domain\<close>

text \<open>
  The invariant and the properties look at a domain through three views: the channel at a port, the
  interrupt tables of a virtual processor, and the table of physical interrupts.
\<close>

definition chan :: "evt_domain \<Rightarrow> nat \<Rightarrow> evtchn option" where
  "chan d p = (case evtchn_from_port d p of Inl _ \<Rightarrow> None | Inr c \<Rightarrow> Some c)"

definition vcpu_at :: "evt_domain \<Rightarrow> nat \<Rightarrow> evt_vcpu option" where
  "vcpu_at d i = (if i < max_vcpus d then ed_vcpu d ! i else None)"

definition vtab :: "evt_domain \<Rightarrow> nat \<Rightarrow> (nat list \<times> nat) option" where
  "vtab d i = map_option (\<lambda>v. (virq_to_evtchn v, pirq_evtchn_head v)) (vcpu_at d i)"

lemma evtchn_from_port_chan [simp]: "evtchn_from_port d p = Inr c \<longleftrightarrow> chan d p = Some c"
  by (auto simp: chan_def split: sum.splits)

lemma get_vcpu_at: "get_vcpu d i = Inr v \<longleftrightarrow> vcpu_at d i = Some v"
  by (auto simp: get_vcpu_def vcpu_at_def arr_get_def split: option.splits)

lemma get_vcpu_Some [simp]: "vcpu_at d i = Some v \<Longrightarrow> get_vcpu d i = Inr v"
  by (simp add: get_vcpu_at)

lemma evtchn_from_port_Some: "chan d p = Some c \<Longrightarrow> evtchn_from_port d p = Inr c"
  by simp

lemma vcpu_at_less: "vcpu_at d i = Some v \<Longrightarrow> i < max_vcpus d"
  by (auto simp: vcpu_at_def split: if_splits)

lemma vcpu_absent: "(\<not> i < max_vcpus d \<or> ed_vcpu d ! i = None) \<longleftrightarrow> vcpu_at d i = None"
  by (auto simp: vcpu_at_def)

lemma get_dom_Some [simp]: "w i = Some d \<Longrightarrow> get_dom w i = Inr d"
  by (simp add: get_dom_def)

lemma get_dom_Inr [simp]: "get_dom w i = Inr d \<longleftrightarrow> w i = Some d"
  by (simp add: get_dom_def split: option.splits)

subsection \<open>Structure of the buckets\<close>

definition evt_struct :: "evt_domain \<Rightarrow> bool" where
  "evt_struct d \<longleftrightarrow>
     length (ed_evtchn d) = NR_EVTCHN_BUCKETS \<and>
     (\<forall>k<NR_EVTCHN_BUCKETS.
        (case ed_evtchn d ! k of
           Bucket_null \<Rightarrow> True
         | Bucket cs \<Rightarrow> length cs = EVTCHNS_PER_BUCKET \<and> (k + 1) * EVTCHNS_PER_BUCKET \<le> MAX_EVTCHNS d \<and>
             (\<forall>j<k. ed_evtchn d ! j \<noteq> Bucket_null)
         | Bucket_freed \<Rightarrow> False))"

lemma const_nat [simp]: "EVTCHNS_PER_BUCKET = 128" "NR_EVTCHN_BUCKETS = 32" "NR_VIRQS = 24"
  by (simp_all add: EVTCHNS_PER_BUCKET_def NR_EVTCHN_BUCKETS_def NR_VIRQS_def)

lemma MAX_EVTCHNS_cases: "MAX_EVTCHNS d = 1024 \<or> MAX_EVTCHNS d = 4096"
  by (simp add: MAX_EVTCHNS_def BITS_PER_EVTCHN_WORD_def)

lemma MAX_EVTCHNS_le: "MAX_EVTCHNS d \<le> 4096"
  using MAX_EVTCHNS_cases[of d] by auto

lemma evt_struct_bucket:
  assumes "evt_struct d" "k < 32" "ed_evtchn d ! k \<noteq> Bucket_null"
  obtains cs where "ed_evtchn d ! k = Bucket cs" "length cs = 128" "(k + 1) * 128 \<le> MAX_EVTCHNS d"
    "\<And>j. j < k \<Longrightarrow> ed_evtchn d ! j \<noteq> Bucket_null"
  using assms by (cases "ed_evtchn d ! k") (fastforce simp: evt_struct_def)+

lemma chan_Some_bucket:
  assumes "evt_struct d"
  shows "chan d p = Some c \<longleftrightarrow>
    (\<exists>cs. p div 128 < 32 \<and> ed_evtchn d ! (p div 128) = Bucket cs \<and> cs ! (p mod 128) = c)"
proof -
  have *: "length cs = 128" if "p div 128 < 32" "ed_evtchn d ! (p div 128) = Bucket cs" for cs
    using assms that by (metis evt_struct_bucket bucket.distinct(1) bucket.inject)
  show ?thesis
    using assms * unfolding chan_def evtchn_from_port_def evt_struct_def
    by (auto simp: arr_get_def split: bucket.splits sum.splits)
qed

lemma chan_bound: "evt_struct d \<Longrightarrow> chan d p = Some c \<Longrightarrow> p < MAX_EVTCHNS d"
  by (auto simp: chan_Some_bucket elim: evt_struct_bucket)

lemma chan_bound': "evt_struct d \<Longrightarrow> chan d p = Some c \<Longrightarrow> p < 4096"
  using chan_bound MAX_EVTCHNS_le less_le_trans by blast

lemma port_valid_chan: "evt_struct d \<Longrightarrow> port_is_valid d p \<longleftrightarrow> chan d p \<noteq> None"
proof -
  assume s: "evt_struct d"
  have "chan d p \<noteq> None" if "port_is_valid d p"
  proof -
    have "p < 4096" "ed_evtchn d ! (p div 128) \<noteq> Bucket_null"
      using that MAX_EVTCHNS_le[of d] by (auto simp: port_is_valid_def bucket_from_port_def)
    moreover have "p div 128 < 32" using \<open>p < 4096\<close> by simp
    ultimately show ?thesis using s chan_Some_bucket[OF s] by (metis evt_struct_bucket option.distinct(1))
  qed
  moreover have "port_is_valid d p" if "chan d p = Some c" for c
    using that s chan_bound[OF s that] by (auto simp: port_is_valid_def bucket_from_port_def chan_Some_bucket)
  ultimately show ?thesis by auto
qed

lemma port_valid_prefix:
  assumes s: "evt_struct d" and v: "chan d p \<noteq> None" and "q \<le> p"
  shows "chan d q \<noteq> None"
proof -
  have p: "port_is_valid d p" using port_valid_chan[OF s] v by simp
  then have b: "p div 128 < 32" "ed_evtchn d ! (p div 128) \<noteq> Bucket_null" and "p < MAX_EVTCHNS d"
    using MAX_EVTCHNS_le[of d] by (auto simp: port_is_valid_def bucket_from_port_def)
  have "q div 128 \<le> p div 128" using assms(3) by (rule div_le_mono)
  then have "ed_evtchn d ! (q div 128) \<noteq> Bucket_null"
    using b evt_struct_bucket[OF s b] by (metis le_neq_implies_less)
  then show ?thesis
    using \<open>p < MAX_EVTCHNS d\<close> assms(3) port_valid_chan[OF s, of q] by (simp add: port_is_valid_def bucket_from_port_def)
qed

subsection \<open>Stores\<close>

lemma put_evtchn_fields [simp]:
  "ed_vcpu (put_evtchn p c d) = ed_vcpu d"
  "ed_dying (put_evtchn p c d) = ed_dying d"
  "ed_hvm (put_evtchn p c d) = ed_hvm d"
  "ed_32bit_shinfo (put_evtchn p c d) = ed_32bit_shinfo d"
  "pirq_to_evtchn (put_evtchn p c d) = pirq_to_evtchn d"
  "evtchn_pending (put_evtchn p c d) = evtchn_pending d"
  "evtchn_mask (put_evtchn p c d) = evtchn_mask d"
  "poll_mask (put_evtchn p c d) = poll_mask d"
  "ed_calls (put_evtchn p c d) = ed_calls d"
  by (simp_all add: put_evtchn_def split: bucket.splits)

lemma MAX_EVTCHNS_cong: "ed_32bit_shinfo d' = ed_32bit_shinfo d \<Longrightarrow> MAX_EVTCHNS d' = MAX_EVTCHNS d"
  by (simp add: MAX_EVTCHNS_def BITS_PER_EVTCHN_WORD_def)

lemma port_eq_div_mod: "p div 128 = q div 128 \<Longrightarrow> p mod 128 = q mod 128 \<Longrightarrow> p = (q::nat)"
  by (metis mult_div_mod_eq)

lemma put_evtchn_struct:
  assumes s: "evt_struct d" and c: "chan d p \<noteq> None"
  shows "evt_struct (put_evtchn p c' d)"
    and "chan (put_evtchn p c' d) = (chan d)(p \<mapsto> c')"
proof -
  obtain cs where b: "p div 128 < 32" "ed_evtchn d ! (p div 128) = Bucket cs"
    using c chan_Some_bucket[OF s] by (metis not_None_eq)
  then have len: "length cs = 128" "length (ed_evtchn d) = 32"
    using s by (auto simp: evt_struct_def)
  have e: "ed_evtchn (put_evtchn p c' d) = (ed_evtchn d)[p div 128 := Bucket (cs[p mod 128 := c'])]"
    using b by (simp add: put_evtchn_def bucket_from_port_def)
  show s': "evt_struct (put_evtchn p c' d)"
    using s b len unfolding evt_struct_def e
    by (auto simp: nth_list_update MAX_EVTCHNS_cong[of "put_evtchn p c' d" d] split: bucket.splits)
  show "chan (put_evtchn p c' d) = (chan d)(p \<mapsto> c')"
  proof (rule ext)
    fix q
    have "chan (put_evtchn p c' d) q = Some x \<longleftrightarrow> ((chan d)(p \<mapsto> c')) q = Some x" for x
      unfolding chan_Some_bucket[OF s'] e using b len
      by (cases "q div 128 = p div 128"; cases "q mod 128 = p mod 128")
        (auto simp: nth_list_update chan_Some_bucket[OF s] dest: port_eq_div_mod)
    then show "chan (put_evtchn p c' d) q = ((chan d)(p \<mapsto> c')) q"
      by (metis not_None_eq)
  qed
qed

lemma chan_cong [simp]:
  "chan (put_vcpu i v d) = chan d"
  "chan (log_call x d) = chan d"
  "chan (d\<lparr>pirq_to_evtchn := pt\<rparr>) = chan d"
  "chan (d\<lparr>evtchn_pending := e\<rparr>) = chan d"
  "chan (d\<lparr>evtchn_mask := e\<rparr>) = chan d"
  "chan (d\<lparr>poll_mask := e\<rparr>) = chan d"
  by (simp_all add: chan_def evtchn_from_port_def put_vcpu_def log_call_def fun_eq_iff)

lemma evt_struct_cong [simp]:
  "evt_struct (put_vcpu i v d) = evt_struct d"
  "evt_struct (log_call x d) = evt_struct d"
  "evt_struct (d\<lparr>pirq_to_evtchn := pt\<rparr>) = evt_struct d"
  "evt_struct (d\<lparr>evtchn_pending := e\<rparr>) = evt_struct d"
  "evt_struct (d\<lparr>evtchn_mask := e\<rparr>) = evt_struct d"
  "evt_struct (d\<lparr>poll_mask := e\<rparr>) = evt_struct d"
  by (simp_all add: evt_struct_def put_vcpu_def log_call_def MAX_EVTCHNS_def BITS_PER_EVTCHN_WORD_def cong: bucket.case_cong)

lemma put_vcpu_fields [simp]:
  "ed_evtchn (put_vcpu i v d) = ed_evtchn d"
  "ed_dying (put_vcpu i v d) = ed_dying d"
  "ed_hvm (put_vcpu i v d) = ed_hvm d"
  "ed_32bit_shinfo (put_vcpu i v d) = ed_32bit_shinfo d"
  "pirq_to_evtchn (put_vcpu i v d) = pirq_to_evtchn d"
  "evtchn_pending (put_vcpu i v d) = evtchn_pending d"
  "evtchn_mask (put_vcpu i v d) = evtchn_mask d"
  "poll_mask (put_vcpu i v d) = poll_mask d"
  "ed_calls (put_vcpu i v d) = ed_calls d"
  "max_vcpus (put_vcpu i v d) = max_vcpus d"
  by (simp_all add: put_vcpu_def)

lemma log_call_fields [simp]:
  "ed_evtchn (log_call x d) = ed_evtchn d"
  "ed_vcpu (log_call x d) = ed_vcpu d"
  "ed_dying (log_call x d) = ed_dying d"
  "ed_hvm (log_call x d) = ed_hvm d"
  "ed_32bit_shinfo (log_call x d) = ed_32bit_shinfo d"
  "pirq_to_evtchn (log_call x d) = pirq_to_evtchn d"
  "evtchn_pending (log_call x d) = evtchn_pending d"
  "evtchn_mask (log_call x d) = evtchn_mask d"
  "poll_mask (log_call x d) = poll_mask d"
  by (simp_all add: log_call_def)

lemma vcpu_at_put [simp]:
  "vcpu_at (put_vcpu i v d) j = (if j = i \<and> i < max_vcpus d then Some v else vcpu_at d j)"
  by (auto simp: vcpu_at_def put_vcpu_def)

lemma vcpu_at_cong [simp]:
  "vcpu_at (put_evtchn p c d) = vcpu_at d"
  "vcpu_at (log_call x d) = vcpu_at d"
  "vcpu_at (d\<lparr>pirq_to_evtchn := pt\<rparr>) = vcpu_at d"
  "vcpu_at (d\<lparr>evtchn_pending := e\<rparr>) = vcpu_at d"
  "vcpu_at (d\<lparr>evtchn_mask := e\<rparr>) = vcpu_at d"
  "vcpu_at (d\<lparr>poll_mask := e\<rparr>) = vcpu_at d"
  "vcpu_at (d\<lparr>ed_evtchn := b\<rparr>) = vcpu_at d"
  by (simp_all add: vcpu_at_def fun_eq_iff)

lemma vtab_put: "vcpu_at d i \<noteq> None \<Longrightarrow>
  vtab (put_vcpu i v d) = (vtab d)(i \<mapsto> (virq_to_evtchn v, pirq_evtchn_head v))"
  by (auto simp: vtab_def fun_eq_iff dest: vcpu_at_less)

lemma vtab_cong [simp]:
  "vtab (put_evtchn p c d) = vtab d"
  "vtab (log_call x d) = vtab d"
  "vtab (d\<lparr>pirq_to_evtchn := pt\<rparr>) = vtab d"
  "vtab (d\<lparr>evtchn_pending := e\<rparr>) = vtab d"
  "vtab (d\<lparr>evtchn_mask := e\<rparr>) = vtab d"
  "vtab (d\<lparr>poll_mask := e\<rparr>) = vtab d"
  "vtab (d\<lparr>ed_evtchn := b\<rparr>) = vtab d"
  by (simp_all add: vtab_def fun_eq_iff)

end
