(* ===== verification/Event_Invariant.thy ===== *)
theory Event_Invariant
  imports Event_Channel
begin

text \<open>
  The invariant of the event-channel tables and its preservation: the lists of physical interrupts
  are well linked, the interrupt tables and the channels point at each other, and the two ends of
  an interdomain channel name each other. From it follows that no operation of
  \<open>common/event_channel.c\<close> dereferences a null pointer, leaves an array, reads the wrong member of
  the union or fires one of its \<open>BUG_ON\<close>s.
\<close>

section \<open>The invariant\<close>

subsection \<open>Doubly linked port lists\<close>

text \<open>
  \<open>pl p = Some (next, prev, vcpu)\<close> for a port in the list of a virtual processor; \<open>hv\<close> gives the
  head of each list. The rank decreases towards the head, so that there are no cycles.
\<close>

definition ranked :: "(nat \<Rightarrow> (nat \<times> nat \<times> nat) option) \<Rightarrow> bool" where
  "ranked pl \<longleftrightarrow>
     (\<exists>rk :: nat \<Rightarrow> int. \<forall>p n r v. pl p = Some (n, r, v) \<longrightarrow> r \<noteq> 0 \<longrightarrow> rk r < rk p)"

definition linked :: "(nat \<Rightarrow> (nat \<times> nat \<times> nat) option) \<Rightarrow> (nat \<Rightarrow> nat) \<Rightarrow> bool" where
  "linked pl hv \<longleftrightarrow>
     (\<forall>p n r v. pl p = Some (n, r, v) \<longrightarrow>
        p \<noteq> 0 \<and>
        (n \<noteq> 0 \<longrightarrow> (\<exists>n'. pl n = Some (n', p, v))) \<and>
        (if r = 0 then hv v = p else \<exists>r'. pl r = Some (p, r', v))) \<and>
     (\<forall>v. hv v \<noteq> 0 \<longrightarrow> (\<exists>n. pl (hv v) = Some (n, 0, v))) \<and> ranked pl"

definition set_prev :: "nat \<Rightarrow> nat \<Rightarrow> (nat \<Rightarrow> (nat \<times> nat \<times> nat) option) \<Rightarrow> nat \<Rightarrow> (nat \<times> nat \<times> nat) option" where
  "set_prev p x pl = (if p = 0 then pl else pl(p := map_option (\<lambda>(n, r, v). (n, x, v)) (pl p)))"

definition set_next :: "nat \<Rightarrow> nat \<Rightarrow> (nat \<Rightarrow> (nat \<times> nat \<times> nat) option) \<Rightarrow> nat \<Rightarrow> (nat \<times> nat \<times> nat) option" where
  "set_next p x pl = (if p = 0 then pl else pl(p := map_option (\<lambda>(n, r, v). (x, r, v)) (pl p)))"

lemma linkedD:
  assumes "linked pl hv"
  shows "pl p = Some (n, r, v) \<Longrightarrow> p \<noteq> 0"
    and "pl p = Some (n, r, v) \<Longrightarrow> n \<noteq> 0 \<Longrightarrow> \<exists>n'. pl n = Some (n', p, v)"
    and "pl p = Some (n, 0, v) \<Longrightarrow> hv v = p"
    and "pl p = Some (n, r, v) \<Longrightarrow> r \<noteq> 0 \<Longrightarrow> \<exists>r'. pl r = Some (p, r', v)"
    and "hv v \<noteq> 0 \<Longrightarrow> \<exists>n. pl (hv v) = Some (n, 0, v)"
    and "ranked pl"
  using assms unfolding linked_def by (blast, blast, auto)

lemma linkedI:
  assumes "\<And>p n r v. pl p = Some (n, r, v) \<Longrightarrow> p \<noteq> 0"
    and "\<And>p n r v. pl p = Some (n, r, v) \<Longrightarrow> n \<noteq> 0 \<Longrightarrow> \<exists>n'. pl n = Some (n', p, v)"
    and "\<And>p n v. pl p = Some (n, 0, v) \<Longrightarrow> hv v = p"
    and "\<And>p n r v. pl p = Some (n, r, v) \<Longrightarrow> r \<noteq> 0 \<Longrightarrow> \<exists>r'. pl r = Some (p, r', v)"
    and "\<And>v. hv v \<noteq> 0 \<Longrightarrow> \<exists>n. pl (hv v) = Some (n, 0, v)"
    and "ranked pl"
  shows "linked pl hv"
  using assms unfolding linked_def by simp

lemma linked_link:
  assumes l: "linked pl hv" and p: "p \<noteq> 0" "pl p = None"
  shows "linked ((set_prev (hv v) p pl)(p \<mapsto> (hv v, 0, v))) (hv(v := p))"
proof -
  note D = linkedD[OF l]
  have h: "hv v \<noteq> p" if "hv v \<noteq> 0" using D(5)[OF that] p(2) by auto
  show ?thesis
  proof (rule linkedI)
    fix q n r u
    assume q: "((set_prev (hv v) p pl)(p \<mapsto> (hv v, 0, v))) q = Some (n, r, u)"
    then show "q \<noteq> 0" using p D(1) by (auto simp: set_prev_def split: if_splits)
    show "\<exists>n'. ((set_prev (hv v) p pl)(p \<mapsto> (hv v, 0, v))) n = Some (n', q, u)" if "n \<noteq> 0"
    proof (cases "q = p")
      case True
      then show ?thesis using q D(5) h that by (fastforce simp: set_prev_def)
    next
      case False
      then obtain r0 where "pl q = Some (n, r0, u)" using q by (auto simp: set_prev_def split: if_splits)
      from D(2)[OF this that] obtain n' where n': "pl n = Some (n', q, u)" by blast
      then have "n \<noteq> p" using p by auto
      moreover have "n \<noteq> hv v \<or> hv v = 0" using n' D(5)[of v] D(1)[OF \<open>pl q = _\<close>] by (cases "hv v = 0") auto
      ultimately show ?thesis using n' by (auto simp: set_prev_def)
    qed
    show "\<exists>r'. ((set_prev (hv v) p pl)(p \<mapsto> (hv v, 0, v))) r = Some (q, r', u)" if r: "r \<noteq> 0"
    proof (cases "q = hv v \<and> hv v \<noteq> 0")
      case True
      then show ?thesis using q h D(5)[of v] by (auto simp: set_prev_def)
    next
      case False
      then have "q \<noteq> p" using q r by auto
      then have "pl q = Some (n, r, u)" using q False by (auto simp: set_prev_def split: if_splits)
      from D(4)[OF this r] obtain r' where r': "pl r = Some (q, r', u)" by blast
      then show ?thesis using p by (cases "r = hv v") (auto simp: set_prev_def)
    qed
  next
    fix q n u
    assume q: "((set_prev (hv v) p pl)(p \<mapsto> (hv v, 0, v))) q = Some (n, 0, u)"
    show "(hv(v := p)) u = q"
    proof (cases "q = p")
      case False
      then have "pl q = Some (n, 0, u)" and "q \<noteq> hv v \<or> hv v = 0"
        using q p by (auto simp: set_prev_def split: if_splits)
      then show ?thesis using D(3) D(1) by (metis fun_upd_other)
    qed (use q in auto)
  next
    fix u
    assume u: "(hv(v := p)) u \<noteq> 0"
    show "\<exists>n. ((set_prev (hv v) p pl)(p \<mapsto> (hv v, 0, v))) ((hv(v := p)) u) = Some (n, 0, u)"
    proof (cases "u = v")
      case False
      then obtain n where n: "pl (hv u) = Some (n, 0, u)" using u D(5) by fastforce
      then have "hv u \<noteq> p" "hv u \<noteq> hv v \<or> hv v = 0" using n p D(5)[of v] False by (cases "hv v = 0"; auto)+
      then show ?thesis using n False by (auto simp: set_prev_def)
    qed simp
  next
    from D(6) obtain rk :: "nat \<Rightarrow> int" where rk: "\<And>q n r u. pl q = Some (n, r, u) \<Longrightarrow> r \<noteq> 0 \<Longrightarrow> rk r < rk q"
      unfolding ranked_def by blast
    have np: "r \<noteq> p" if "pl q = Some (n, r, u)" "r \<noteq> 0" for q n r u using D(4)[OF that] p(2) by auto
    have "(rk(p := rk (hv v) - 1)) r < (rk(p := rk (hv v) - 1)) q"
      if q: "((set_prev (hv v) p pl)(p \<mapsto> (hv v, 0, v))) q = Some (n, r, u)" "r \<noteq> 0" for q n r u
    proof (cases "q = hv v \<and> hv v \<noteq> 0")
      case True
      then show ?thesis using q h D(5)[of v] by (auto simp: set_prev_def)
    next
      case False
      then have "q \<noteq> p" using q by auto
      then have "pl q = Some (n, r, u)" using q False by (auto simp: set_prev_def split: if_splits)
      then show ?thesis using rk q(2) np \<open>q \<noteq> p\<close> by simp
    qed
    then show "ranked ((set_prev (hv v) p pl)(p \<mapsto> (hv v, 0, v)))"
      unfolding ranked_def by blast
  qed
qed

lemma linked_unlink:
  assumes l: "linked pl hv" and p: "pl p = Some (n, r, v)"
  shows "linked ((set_prev n r (set_next r n pl))(p := None)) (if r = 0 then hv(v := n) else hv)"
    (is "linked ?pl ?hv")
proof -
  note D = linkedD[OF l]
  have upd: "?pl q = (if q = p then None else
      map_option (\<lambda>(n', r', u). (if q = r then n else n', if q = n then r else r', u)) (pl q))" for q
    using p D(1) by (cases "pl q") (auto simp: set_prev_def set_next_def)
  have old: "\<exists>n' r'. pl q = Some (n', r', u) \<and> n1 = (if q = r then n else n') \<and> r1 = (if q = n then r else r') \<and> q \<noteq> p"
    if "?pl q = Some (n1, r1, u)" for q n1 r1 u
    using that unfolding upd by (auto split: if_splits)
  have uniq_n: "q = r" if "pl q = Some (p, r', u)" for q r' u
    using D(2)[OF that] p D(1)[OF p] by auto
  have uniq_r: "q = n" if "pl q = Some (n', p, u)" for q n' u
    using D(4)[OF that] p D(1)[OF p] by auto
  show ?thesis
  proof (rule linkedI)
    fix q n1 r1 u
    assume "?pl q = Some (n1, r1, u)"
    from old[OF this] obtain n' r' where q: "pl q = Some (n', r', u)"
      "n1 = (if q = r then n else n')" "r1 = (if q = n then r else r')" "q \<noteq> p" by blast
    show "q \<noteq> 0" by (rule D(1)[OF q(1)])
    show "\<exists>n'. ?pl n1 = Some (n', q, u)" if n1: "n1 \<noteq> 0"
    proof (cases "q = r")
      case True
      then have "q \<noteq> n \<or> True" "n1 = n" using q by auto
      moreover obtain r0 where "pl r = Some (p, r0, v)" using D(4)[OF p] True D(1)[OF q(1)] by auto
      moreover obtain n0 where "pl n = Some (n0, p, v)" using D(2)[OF p] n1 \<open>n1 = n\<close> by auto
      moreover have "n \<noteq> p" using q(4) True p \<open>pl n = _\<close> by auto
      ultimately show ?thesis using True q unfolding upd by auto
    next
      case False
      then have "n1 = n'" using q by simp
      then obtain n0 where "pl n1 = Some (n0, q, u)" using D(2)[OF q(1)] n1 by auto
      moreover have "n1 \<noteq> p" using uniq_n q(1) \<open>n1 = n'\<close> False by auto
      moreover have "n1 \<noteq> n" using D(2)[OF p] n1 q(4) calculation by auto
      ultimately show ?thesis unfolding upd by auto
    qed
    show "\<exists>r'. ?pl r1 = Some (q, r', u)" if r1: "r1 \<noteq> 0"
    proof (cases "q = n")
      case True
      then have "r1 = r" using q by simp
      then obtain r0 where r0: "pl r = Some (p, r0, v)" using D(4)[OF p] r1 by auto
      obtain n0 where "pl n = Some (n0, p, v)" using D(2)[OF p] True D(1)[OF q(1)] by auto
      moreover have "r \<noteq> p" using q(4) True p r0 by auto
      ultimately show ?thesis using True q r0 \<open>r1 = r\<close> unfolding upd by auto
    next
      case False
      then have "r1 = r'" using q by simp
      then obtain r0 where "pl r1 = Some (q, r0, u)" using D(4)[OF q(1)] r1 by auto
      moreover have "r1 \<noteq> p" using uniq_r q(1) \<open>r1 = r'\<close> False by auto
      moreover have "r1 \<noteq> r" using D(4)[OF p] r1 q(4) calculation by auto
      ultimately show ?thesis unfolding upd by auto
    qed
  next
    fix q n1 u
    assume "?pl q = Some (n1, 0, u)"
    from old[OF this] obtain n' r' where q: "pl q = Some (n', r', u)"
      "0 = (if q = n then r else r')" "q \<noteq> p" by blast
    show "?hv u = q"
    proof (cases "q = n")
      case True
      then have "r = 0" "n \<noteq> 0" using q D(1)[OF q(1)] by auto
      then have "u = v" using D(2)[OF p] q True by auto
      then show ?thesis using True \<open>r = 0\<close> by simp
    next
      case False
      then have "hv u = q" using q D(3) by simp
      moreover have "r = 0 \<Longrightarrow> u \<noteq> v" using D(3) p q(3) \<open>hv u = q\<close> by auto
      ultimately show ?thesis by simp
    qed
  next
    fix u
    assume u: "?hv u \<noteq> 0"
    show "\<exists>n. ?pl (?hv u) = Some (n, 0, u)"
    proof (cases "r = 0 \<and> u = v")
      case True
      then have "n \<noteq> 0" using u by simp
      then obtain n0 where "pl n = Some (n0, p, v)" using D(2)[OF p] by blast
      moreover have "n \<noteq> p" using p True \<open>pl n = _\<close> D(1)[OF p] by auto
      ultimately show ?thesis using True unfolding upd by auto
    next
      case False
      then have "?hv u = hv u" by auto
      then obtain n0 where n0: "pl (hv u) = Some (n0, 0, u)" using D(5)[of u] u by auto
      moreover have "hv u \<noteq> p" using p n0 False by auto
      moreover have "hv u \<noteq> n" using D(2)[OF p] n0 D(1)[OF p] D(1)[OF n0] by auto
      ultimately show ?thesis using \<open>?hv u = hv u\<close> unfolding upd by auto
    qed
  next
    from D(6) obtain rk :: "nat \<Rightarrow> int" where rk: "\<And>q n r u. pl q = Some (n, r, u) \<Longrightarrow> r \<noteq> 0 \<Longrightarrow> rk r < rk q"
      unfolding ranked_def by blast
    have "rk r1 < rk q" if q1: "?pl q = Some (n1, r1, u)" "r1 \<noteq> 0" for q n1 r1 u
    proof -
      from old[OF q1(1)] obtain n' r' where q: "pl q = Some (n', r', u)" "r1 = (if q = n then r else r')" by blast
      show ?thesis
      proof (cases "q = n")
        case True
        then have "r1 = r" "n \<noteq> 0" using q D(1)[OF q(1)] by auto
        then obtain n0 where "pl n = Some (n0, p, v)" using D(2)[OF p] by blast
        then have "rk p < rk n" using rk D(1)[OF p] by blast
        then show ?thesis using rk[OF p] \<open>r1 = r\<close> q1(2) True by simp
      qed (use q rk q1(2) in auto)
    qed
    then show "ranked ?pl" unfolding ranked_def by blast
  qed
qed

section \<open>The tables of a domain\<close>

definition virq_global :: "nat \<Rightarrow> bool" where
  "virq_global q \<longleftrightarrow> virq_is_global q = Inr True"

text \<open>
  What a channel contributes to the tables: a virtual interrupt with the virtual processor whose
  table holds its port, a physical interrupt, and its links in the list of physical interrupts.
\<close>

definition virq_of :: "evtchn \<Rightarrow> (nat \<times> nat) option" where
  "virq_of c =
     (case chn_state c of
        ECS_VIRQ q \<Rightarrow> Some (q, if virq_global q then 0 else notify_vcpu_id c) | _ \<Rightarrow> None)"

definition pirq_of :: "evtchn \<Rightarrow> nat option" where
  "pirq_of c = (case chn_state c of ECS_PIRQ i n r \<Rightarrow> Some i | _ \<Rightarrow> None)"

definition links_of :: "evtchn \<Rightarrow> (nat \<times> nat \<times> nat) option" where
  "links_of c = (case chn_state c of ECS_PIRQ i n r \<Rightarrow> Some (n, r, notify_vcpu_id c) | _ \<Rightarrow> None)"

definition view :: "(evtchn \<Rightarrow> 'a option) \<Rightarrow> (nat \<Rightarrow> evtchn option) \<Rightarrow> nat \<Rightarrow> 'a option" where
  "view f ch p = Option.bind (ch p) f"

definition hview :: "(nat \<Rightarrow> (nat list \<times> nat) option) \<Rightarrow> nat \<Rightarrow> nat" where
  "hview vt i = (case vt i of None \<Rightarrow> 0 | Some (_, h) \<Rightarrow> h)"

definition chan_ok :: "(nat \<Rightarrow> (nat list \<times> nat) option) \<Rightarrow> nat \<Rightarrow> evtchn \<Rightarrow> bool" where
  "chan_ok vt p c \<longleftrightarrow>
     vt (notify_vcpu_id c) \<noteq> None \<and>
     (chn_state c = ECS_FREE \<longrightarrow> notify_vcpu_id c = 0 \<and> \<not> consumer_is_xen c) \<and>
     (p = 0 \<longrightarrow> chn_state c = ECS_RESERVED)"

definition virqs_ok :: "(nat \<Rightarrow> (nat \<times> nat) option) \<Rightarrow> (nat \<Rightarrow> (nat list \<times> nat) option) \<Rightarrow> bool" where
  "virqs_ok vv vt \<longleftrightarrow>
     (\<forall>i vl h. vt i = Some (vl, h) \<longrightarrow>
        length vl = NR_VIRQS \<and> (\<forall>q<NR_VIRQS. vl ! q \<noteq> 0 \<longrightarrow> vv (vl ! q) = Some (q, i))) \<and>
     (\<forall>p q i. vv p = Some (q, i) \<longrightarrow>
        p \<noteq> 0 \<and> q < NR_VIRQS \<and> (\<exists>vl h. vt i = Some (vl, h) \<and> vl ! q = p))"

definition pirqs_ok :: "(nat \<Rightarrow> nat option) \<Rightarrow> nat list \<Rightarrow> bool" where
  "pirqs_ok iv pt \<longleftrightarrow>
     (\<forall>i<length pt. pt ! i \<noteq> 0 \<longrightarrow> iv (pt ! i) = Some i) \<and>
     (\<forall>p i. iv p = Some i \<longrightarrow> p \<noteq> 0 \<and> i < length pt \<and> pt ! i = p)"

definition ports_ok :: "(nat \<Rightarrow> evtchn option) \<Rightarrow> (nat \<Rightarrow> (nat list \<times> nat) option) \<Rightarrow> nat list \<Rightarrow> bool" where
  "ports_ok ch vt pt \<longleftrightarrow>
     vt 0 \<noteq> None \<and> (\<forall>p c. ch p = Some c \<longrightarrow> chan_ok vt p c) \<and>
     virqs_ok (view virq_of ch) vt \<and> pirqs_ok (view pirq_of ch) pt \<and>
     linked (view links_of ch) (hview vt)"

lemma virq_is_global_Inr: "q < NR_VIRQS \<Longrightarrow> virq_is_global q = Inr (virq_global q)"
  by (simp add: virq_global_def virq_is_global_def VIRQ_TIMER_def VIRQ_DEBUG_def VIRQ_XENOPROF_def
      VIRQ_ARCH_0_def VIRQ_ARCH_7_def arch_virq_is_global_def)

lemma view_upd [simp]: "view f (ch(p \<mapsto> c)) = (view f ch)(p := f c)"
  by (auto simp: view_def fun_eq_iff)

lemma view_at: "ch p = Some c \<Longrightarrow> view f ch p = f c"
  by (simp add: view_def)

lemma ports_okD:
  assumes "ports_ok ch vt pt"
  shows "vt 0 \<noteq> None" "ch p = Some c \<Longrightarrow> chan_ok vt p c" "virqs_ok (view virq_of ch) vt"
    "pirqs_ok (view pirq_of ch) pt" "linked (view links_of ch) (hview vt)"
  using assms by (simp_all add: ports_ok_def)

text \<open>A state that no table points at.\<close>

definition loose :: "evtchn \<Rightarrow> bool" where
  "loose c \<longleftrightarrow> virq_of c = None \<and> pirq_of c = None \<and> links_of c = None"

lemma loose_state:
  "loose c \<longleftrightarrow> (case chn_state c of ECS_VIRQ _ \<Rightarrow> False | ECS_PIRQ _ _ _ \<Rightarrow> False | _ \<Rightarrow> True)"
  by (simp add: loose_def virq_of_def pirq_of_def links_of_def split: evtchn_state.splits)

text \<open>A store that changes nothing in the tables.\<close>

lemma ports_ok_same_views:
  assumes o: "ports_ok ch vt pt" and c0: "ch p = Some c0"
    and v: "virq_of c = virq_of c0" "pirq_of c = pirq_of c0" "links_of c = links_of c0"
    and c: "chan_ok vt p c"
  shows "ports_ok (ch(p \<mapsto> c)) vt pt"
proof -
  have "(view f ch)(p := f c) = view f ch" if "f c = f c0" for f :: "evtchn \<Rightarrow> 'b option"
    using that c0 by (simp add: view_def fun_upd_idem)
  note eq = this[of virq_of, OF v(1)] this[of pirq_of, OF v(2)] this[of links_of, OF v(3)]
  show ?thesis
    using o c unfolding ports_ok_def view_upd eq by (simp add: fun_upd_apply)
qed

lemma ports_ok_loose:
  assumes "ports_ok ch vt pt" "ch p = Some c0" "loose c0" "loose c" "chan_ok vt p c"
  shows "ports_ok (ch(p \<mapsto> c)) vt pt"
  using assms by (intro ports_ok_same_views[OF assms(1,2)]) (auto simp: loose_def)

text \<open>A new bucket of free channels.\<close>

lemma ports_ok_new:
  assumes o: "ports_ok ch vt pt" and n: "\<And>p. p \<in> A \<Longrightarrow> ch p = None" "0 \<notin> A"
  shows "ports_ok (\<lambda>p. if p \<in> A then Some zero_evtchn else ch p) vt pt"
proof -
  have eq: "view f (\<lambda>p. if p \<in> A then Some zero_evtchn else ch p) = view f ch"
    if "f zero_evtchn = None" for f :: "evtchn \<Rightarrow> 'b option"
    using that n by (auto simp: view_def fun_eq_iff)
  have "virq_of zero_evtchn = None" "pirq_of zero_evtchn = None" "links_of zero_evtchn = None"
    by (simp_all add: virq_of_def pirq_of_def links_of_def zero_evtchn_def)
  then show ?thesis
    using o n(2) unfolding ports_ok_def by (auto simp: eq chan_ok_def zero_evtchn_def intro!: gr0I)
qed

subsection \<open>Virtual interrupts\<close>

lemma virqs_ok_bind:
  assumes o: "virqs_ok vv vt" and i: "vt i = Some (vl, h)" and q: "q < NR_VIRQS" "vl ! q = 0"
    and p: "p \<noteq> 0" "vv p = None"
  shows "virqs_ok (vv(p \<mapsto> (q, i))) (vt(i \<mapsto> (vl[q := p], h)))"
proof -
  have len: "length vl = 24" using o i by (auto simp: virqs_ok_def)
  have a: "vv (vl' ! q') = Some (q', j)" if "vt j = Some (vl', h')" "q' < 24" "vl' ! q' \<noteq> 0" for j vl' h' q'
    using o that by (auto simp: virqs_ok_def)
  have b: "q' < 24" "r \<noteq> 0" "\<exists>vl h. vt j = Some (vl, h) \<and> vl ! q' = r" if "vv r = Some (q', j)" for r q' j
    using o that unfolding virqs_ok_def const_nat by blast+
  show ?thesis
    unfolding virqs_ok_def
  proof (intro conjI allI impI)
    fix j vl' h'
    assume j: "(vt(i \<mapsto> (vl[q := p], h))) j = Some (vl', h')"
    then show "length vl' = NR_VIRQS" using len o by (auto simp: virqs_ok_def split: if_splits)
    fix q' assume q': "q' < NR_VIRQS" "vl' ! q' \<noteq> 0"
    show "(vv(p \<mapsto> (q, i))) (vl' ! q') = Some (q', j)"
    proof (cases "j = i \<and> q' = q")
      case True
      then show ?thesis using j len q by auto
    next
      case False
      then have "vv (vl' ! q') = Some (q', j)"
        using j q' a[of i vl h q'] a[of j vl' h' q'] i len by (auto split: if_splits)
      then show ?thesis using p by auto
    qed
  next
    fix r q' j
    assume r: "(vv(p \<mapsto> (q, i))) r = Some (q', j)"
    show "r \<noteq> 0" "q' < NR_VIRQS" using r q p b(1,2) by (auto split: if_splits)
    show "\<exists>vl' h'. (vt(i \<mapsto> (vl[q := p], h))) j = Some (vl', h') \<and> vl' ! q' = r"
    proof (cases "r = p")
      case True
      then show ?thesis using r q len by auto
    next
      case False
      then have v: "vv r = Some (q', j)" using r by simp
      obtain vl' h' where vl': "vt j = Some (vl', h')" "vl' ! q' = r" using b(3)[OF v] by blast
      show ?thesis
      proof (cases "j = i")
        case True
        then have "q' \<noteq> q" using vl' i q b(2)[OF v] by auto
        then show ?thesis using vl' True i by auto
      qed (use vl' in auto)
    qed
  qed
qed

lemma virqs_ok_close:
  assumes o: "virqs_ok vv vt" and p: "vv p = Some (q, i)"
  shows "virqs_ok (vv(p := None)) (\<lambda>j. map_option (\<lambda>(vl, h). (if vl ! q = p then vl[q := 0] else vl, h)) (vt j))"
proof -
  have a: "length vl = 24 \<and> (\<forall>q<24. vl ! q \<noteq> 0 \<longrightarrow> vv (vl ! q) = Some (q, j))" if "vt j = Some (vl, h)" for j vl h
    using o that by (auto simp: virqs_ok_def)
  have b: "r \<noteq> 0 \<and> q' < 24 \<and> (\<exists>vl h. vt j = Some (vl, h) \<and> vl ! q' = r)" if "vv r = Some (q', j)" for r q' j
    using o that unfolding virqs_ok_def const_nat by blast
  have q: "q < 24" "p \<noteq> 0" using b[OF p] by auto
  show ?thesis
    unfolding virqs_ok_def
  proof (intro conjI allI impI)
    fix j vl' h'
    assume "map_option (\<lambda>(vl, h). (if vl ! q = p then vl[q := 0] else vl, h)) (vt j) = Some (vl', h')"
    then obtain vl where vl: "vt j = Some (vl, h')" "vl' = (if vl ! q = p then vl[q := 0] else vl)" by auto
    then show "length vl' = NR_VIRQS" using a by simp
    fix q' assume q': "q' < NR_VIRQS" "vl' ! q' \<noteq> 0"
    have "vl ! q' = vl' ! q'" "q' \<noteq> q \<or> vl ! q \<noteq> p" using vl q' a[OF vl(1)] q by (auto simp: nth_list_update split: if_splits)
    moreover from this have "vv (vl ! q') = Some (q', j)" using a[OF vl(1)] q' by auto
    moreover from this have "vl ! q' \<noteq> p" using p calculation(2) by auto
    ultimately show "(vv(p := None)) (vl' ! q') = Some (q', j)" by simp
  next
    fix r q' j
    assume "(vv(p := None)) r = Some (q', j)"
    then have r: "vv r = Some (q', j)" "r \<noteq> p" by (auto split: if_splits)
    show "r \<noteq> 0" "q' < NR_VIRQS" using b[OF r(1)] by auto
    obtain vl h where vl: "vt j = Some (vl, h)" "vl ! q' = r" using b[OF r(1)] by blast
    then show "\<exists>vl' h'. map_option (\<lambda>(vl, h). (if vl ! q = p then vl[q := 0] else vl, h)) (vt j) = Some (vl', h') \<and> vl' ! q' = r"
      using r(2) by (cases "q' = q") auto
  qed
qed

lemma pirqs_ok_bind:
  assumes "pirqs_ok iv pt" "i < length pt" "pt ! i = 0" "p \<noteq> 0" "iv p = None"
  shows "pirqs_ok (iv(p \<mapsto> i)) (pt[i := p])"
  using assms unfolding pirqs_ok_def by (auto simp: nth_list_update) (metis less_irrefl)

lemma pirqs_ok_close:
  assumes "pirqs_ok iv pt" "iv p = Some i"
  shows "pirqs_ok (iv(p := None)) (pt[i := 0])"
  using assms unfolding pirqs_ok_def by (auto simp: nth_list_update) (metis option.inject, metis)


subsection \<open>The invariant of a domain\<close>

definition evt_dom_ok :: "evt_domain \<Rightarrow> bool" where
  "evt_dom_ok d \<longleftrightarrow>
     evt_struct d \<and> ports_ok (chan d) (vtab d) (pirq_to_evtchn d) \<and>
     max_vcpus d \<le> 65536 \<and> nr_pirqs d \<le> 65536 \<and>
     (\<forall>j<max_vcpus d. poll_mask d j \<longrightarrow> vcpu_at d j \<noteq> None) \<and>
     (\<not> ed_dying d \<longrightarrow> chan d 0 \<noteq> None)"

text \<open>The invariant of the system: both ends of an interdomain channel name each other.\<close>

definition inter_of :: "evtchn \<Rightarrow> (domid \<times> nat) option" where
  "inter_of c = (case chn_state c of ECS_INTERDOMAIN j q \<Rightarrow> Some (j, q) | _ \<Rightarrow> None)"

definition wlink :: "evt_world \<Rightarrow> domid \<Rightarrow> nat \<Rightarrow> (domid \<times> nat) option" where
  "wlink w i p = Option.bind (w i) (\<lambda>d. view inter_of (chan d) p)"

definition evt_wf :: "evt_world \<Rightarrow> bool" where
  "evt_wf w \<longleftrightarrow>
     (\<forall>i d. w i = Some d \<longrightarrow> evt_dom_ok d) \<and>
     (\<forall>i p j q. wlink w i p = Some (j, q) \<longrightarrow> wlink w j q = Some (i, p))"

lemma evt_dom_okD:
  assumes "evt_dom_ok d"
  shows "evt_struct d" "ports_ok (chan d) (vtab d) (pirq_to_evtchn d)"
    "max_vcpus d \<le> 65536" "nr_pirqs d \<le> 65536"
    "j < max_vcpus d \<Longrightarrow> poll_mask d j \<Longrightarrow> vcpu_at d j \<noteq> None"
    "\<not> ed_dying d \<Longrightarrow> chan d 0 \<noteq> None"
  using assms by (auto simp: evt_dom_ok_def)

lemma chan_vcpu:
  assumes "evt_dom_ok d" "chan d p = Some c"
  obtains v where "vcpu_at d (notify_vcpu_id c) = Some v"
  using assms ports_okD(2)[OF evt_dom_okD(2)[OF assms(1)] assms(2)]
  by (auto simp: chan_ok_def vtab_def)

lemma to_u16_small [simp]: "n < 65536 \<Longrightarrow> to_u16 n = n"
  by (simp add: to_u16_def)

lemma port_u16: "evt_dom_ok d \<Longrightarrow> chan d p = Some c \<Longrightarrow> p < 65536"
  using chan_bound'[of d p c] evt_dom_okD(1)[of d] by simp

lemma evt_wfD:
  assumes "evt_wf w"
  shows "w i = Some d \<Longrightarrow> evt_dom_ok d"
    and "wlink w i p = Some (j, q) \<Longrightarrow> wlink w j q = Some (i, p)"
  using assms unfolding evt_wf_def by blast+

lemma evt_wfI:
  assumes "\<And>i d. w i = Some d \<Longrightarrow> evt_dom_ok d"
    and "\<And>i p j q. wlink w i p = Some (j, q) \<Longrightarrow> wlink w j q = Some (i, p)"
  shows "evt_wf w"
  using assms unfolding evt_wf_def by blast

section \<open>Delivery\<close>

text \<open>Two domains that differ only in what the delivery of an event touches.\<close>

definition keeps_ports :: "evt_domain \<Rightarrow> evt_domain \<Rightarrow> bool" where
  "keeps_ports d d' \<longleftrightarrow>
     ed_evtchn d' = ed_evtchn d \<and> ed_32bit_shinfo d' = ed_32bit_shinfo d \<and> ed_dying d' = ed_dying d \<and>
     ed_hvm d' = ed_hvm d \<and> pirq_to_evtchn d' = pirq_to_evtchn d \<and> vtab d' = vtab d \<and>
     max_vcpus d' = max_vcpus d \<and> (\<forall>j. poll_mask d' j \<longrightarrow> poll_mask d j)"

lemma keeps_ports_refl [simp]: "keeps_ports d d"
  by (simp add: keeps_ports_def)

lemma keeps_ports_trans: "keeps_ports d e \<Longrightarrow> keeps_ports e f \<Longrightarrow> keeps_ports d f"
  by (simp add: keeps_ports_def)

lemma keeps_ports_chan: "keeps_ports d d' \<Longrightarrow> chan d' = chan d"
  by (simp add: keeps_ports_def chan_def evtchn_from_port_def fun_eq_iff)

lemma vtab_None: "vtab d j = None \<longleftrightarrow> vcpu_at d j = None"
  by (simp add: vtab_def)

lemma keeps_ports_ok:
  assumes "keeps_ports d d'" "evt_dom_ok d"
  shows "evt_dom_ok d'"
proof -
  have k: "ed_evtchn d' = ed_evtchn d" "MAX_EVTCHNS d' = MAX_EVTCHNS d" "pirq_to_evtchn d' = pirq_to_evtchn d"
    "vtab d' = vtab d" "max_vcpus d' = max_vcpus d" "ed_dying d' = ed_dying d"
    "\<And>j. poll_mask d' j \<Longrightarrow> poll_mask d j"
    using assms(1) unfolding keeps_ports_def by (simp_all add: MAX_EVTCHNS_cong[of d' d])
  have "evt_struct d'" using evt_dom_okD(1)[OF assms(2)] unfolding evt_struct_def k(1,2) .
  moreover have "vcpu_at d' j = None \<longleftrightarrow> vcpu_at d j = None" for j
    using k(4) by (metis vtab_None)
  ultimately show ?thesis
    using evt_dom_okD[OF assms(2)] k(7) unfolding evt_dom_ok_def keeps_ports_chan[OF assms(1)] k(3-6) by blast
qed

lemma vcpu_at_dom: "keeps_ports d d' \<Longrightarrow> vcpu_at d' j = None \<longleftrightarrow> vcpu_at d j = None"
  using vtab_None[of d j] vtab_None[of d' j] by (simp add: keeps_ports_def)

text \<open>The members of a virtual processor that waking a poller leaves alone.\<close>

definition same_upcall :: "evt_vcpu \<Rightarrow> evt_vcpu \<Rightarrow> bool" where
  "same_upcall v v' \<longleftrightarrow>
     v' = v\<lparr>poll_evtchn := poll_evtchn v', VPF_blocked := VPF_blocked v'\<rparr>"

lemma same_upcall_refl [simp]: "same_upcall v v"
  by (simp add: same_upcall_def)

lemma same_upcall_fields:
  "same_upcall v v' \<Longrightarrow> evtchn_pending_sel v' = evtchn_pending_sel v"
  "same_upcall v v' \<Longrightarrow> evtchn_upcall_pending v' = evtchn_upcall_pending v"
  "same_upcall v v' \<Longrightarrow> virq_to_evtchn v' = virq_to_evtchn v"
  "same_upcall v v' \<Longrightarrow> pirq_evtchn_head v' = pirq_evtchn_head v"
  unfolding same_upcall_def by (metis evt_vcpu.select_convs evt_vcpu.update_convs evt_vcpu.surjective)+

text \<open>What waking the pollers of a port does to one virtual processor.\<close>

definition polls_for :: "evt_vcpu \<Rightarrow> nat \<Rightarrow> bool" where
  "polls_for v port \<longleftrightarrow> poll_evtchn v \<le> 0 \<or> poll_evtchn v = int port"

text \<open>
  The calls into the scheduler that an event makes: \<open>vcpu_wake\<close> of every blocked virtual processor that
  polls for it, in the order of their numbers, and the kick (or, in an HVM domain, the interrupt) of
  the notified virtual processor when neither its selector bit nor its upcall was pending.
\<close>

definition blocked_poller :: "nat \<Rightarrow> evt_domain \<Rightarrow> nat \<Rightarrow> bool" where
  "blocked_poller port d j \<longleftrightarrow>
     poll_mask d j \<and> (\<exists>v. vcpu_at d j = Some v \<and> polls_for v port \<and> VPF_blocked v)"

definition wake_calls :: "nat \<Rightarrow> nat \<Rightarrow> evt_domain \<Rightarrow> evt_call list" where
  "wake_calls port n d = map Call_vcpu_wake (filter (blocked_poller port d) [0..<n])"

definition upcall_calls :: "nat \<Rightarrow> nat \<Rightarrow> evt_vcpu \<Rightarrow> evt_domain \<Rightarrow> evt_call list" where
  "upcall_calls vid port v d =
     (if evtchn_pending_sel v (port div BITS_PER_EVTCHN_WORD d) \<or> evtchn_upcall_pending v then []
      else [if ed_hvm d then Call_hvm_assert_evtchn_irq vid else Call_vcpu_kick vid])"

lemma wake_calls_Suc:
  "wake_calls port (Suc n) d = wake_calls port n d @ (if blocked_poller port d n then [Call_vcpu_wake n] else [])"
  by (simp add: wake_calls_def)

lemma wake_calls_none: "(\<And>j. j < n \<Longrightarrow> \<not> poll_mask d j) \<Longrightarrow> wake_calls port n d = []"
  by (auto simp: wake_calls_def blocked_poller_def filter_empty_conv)

lemma wake_calls_cong:
  "(\<And>j. j < n \<Longrightarrow> blocked_poller port d j = blocked_poller port d' j) \<Longrightarrow> wake_calls port n d = wake_calls port n d'"
  unfolding wake_calls_def by (intro arg_cong[where f = "map Call_vcpu_wake"] filter_cong) auto

definition woken :: "nat \<Rightarrow> evt_domain \<Rightarrow> evt_domain \<Rightarrow> nat \<Rightarrow> bool" where
  "woken port d d' j \<longleftrightarrow>
     (\<forall>v. vcpu_at d j = Some v \<longrightarrow>
        (\<exists>v'. vcpu_at d' j = Some v' \<and> same_upcall v v' \<and>
          (if poll_mask d j \<and> polls_for v port
           then \<not> poll_mask d' j \<and> \<not> VPF_blocked v' \<and> poll_evtchn v' = 0 \<and>
                (VPF_blocked v \<longrightarrow> Call_vcpu_wake j \<in> set (ed_calls d'))
           else v' = v \<and> poll_mask d' j = poll_mask d j)))"

lemma wake_poller_ok:
  assumes "poll_mask d j \<Longrightarrow> vcpu_at d j \<noteq> None" "j < max_vcpus d"
  shows "\<exists>d'. wake_poller port j d = Inr d' \<and> keeps_ports d d' \<and> woken port d d' j \<and>
    evtchn_pending d' = evtchn_pending d \<and> evtchn_mask d' = evtchn_mask d \<and>
    ed_calls d' = ed_calls d @ (if blocked_poller port d j then [Call_vcpu_wake j] else []) \<and>
    (\<forall>i. i \<noteq> j \<longrightarrow> vcpu_at d' i = vcpu_at d i \<and> poll_mask d' i = poll_mask d i)"
proof (cases "poll_mask d j")
  case True
  then obtain v where v: "vcpu_at d j = Some v" using assms by auto
  show ?thesis
  proof (cases "polls_for v port")
    case False
    then show ?thesis using True v by (auto simp: wake_poller_def polls_for_def woken_def blocked_poller_def)
  next
    case p: True
    define d1 where "d1 = put_vcpu j (v\<lparr>poll_evtchn := 0\<rparr>) (d\<lparr>poll_mask := (poll_mask d)(j := False)\<rparr>)"
    have v1: "vcpu_at d1 j = Some (v\<lparr>poll_evtchn := 0\<rparr>)" using assms(2) by (simp add: d1_def)
    have vt: "vtab d1 = vtab d" using v by (simp add: d1_def vtab_put fun_upd_idem_iff vtab_def)
    have w: "wake_poller port j d = vcpu_unblock j d1"
      using True v p by (simp add: wake_poller_def polls_for_def d1_def Let_def)
    show ?thesis
    proof (cases "VPF_blocked v")
      case False
      then have "vcpu_unblock j d1 = Inr d1" using v1 by (simp add: vcpu_unblock_def)
      then show ?thesis
        using w False v v1 True p vt by (auto simp: d1_def keeps_ports_def woken_def same_upcall_def blocked_poller_def)
    next
      case b: True
      define d2 where "d2 = log_call (Call_vcpu_wake j) (put_vcpu j (v\<lparr>poll_evtchn := 0, VPF_blocked := False\<rparr>) d1)"
      have pm: "\<not> poll_mask d2 j" by (simp add: d2_def d1_def)
      have "vcpu_unblock j d1 = Inr d2" using v1 b by (simp add: vcpu_unblock_def d2_def)
      moreover have "vtab d2 = vtab d"
        using v v1 vt by (simp add: d2_def vtab_put fun_upd_idem_iff vtab_def)
      moreover have "ed_calls d2 = ed_calls d @ [Call_vcpu_wake j]" by (simp add: d2_def d1_def log_call_def put_vcpu_def)
      moreover have "vcpu_at d2 i = (if i = j then Some (v\<lparr>poll_evtchn := 0, VPF_blocked := False\<rparr>) else vcpu_at d i)" for i
        using assms(2) by (simp add: d2_def d1_def)
      moreover have "keeps_ports d d2"
        using calculation(2) by (simp add: keeps_ports_def d2_def d1_def)
      moreover have "woken port d d2 j"
        using calculation(3,4) v True p pm by (auto simp: woken_def same_upcall_def)
      moreover have "blocked_poller port d j" using v True p b by (simp add: blocked_poller_def)
      ultimately show ?thesis using w by (auto simp: d2_def d1_def)
    qed
  qed
qed (auto simp: wake_poller_def woken_def blocked_poller_def)

lemma wake_pollers_ok:
  assumes "\<And>j. j < max_vcpus d \<Longrightarrow> poll_mask d j \<Longrightarrow> vcpu_at d j \<noteq> None"
  shows "\<exists>d'. for_loop (wake_poller port) [0..<max_vcpus d] d = Inr d' \<and>
    keeps_ports d d' \<and> evtchn_pending d' = evtchn_pending d \<and> evtchn_mask d' = evtchn_mask d \<and>
    ed_calls d' = ed_calls d @ wake_calls port (max_vcpus d) d \<and> (\<forall>j<max_vcpus d. woken port d d' j)"
proof -
  define P where "P = (\<lambda>i s. keeps_ports d s \<and> evtchn_pending s = evtchn_pending d \<and>
    evtchn_mask s = evtchn_mask d \<and> ed_calls s = ed_calls d @ wake_calls port i d \<and>
    (\<forall>j<i. woken port d s j) \<and> (\<forall>j\<ge>i. vcpu_at s j = vcpu_at d j \<and> poll_mask s j = poll_mask d j))"
  have "\<exists>d'. for_loop (wake_poller port) [0..<max_vcpus d] d = Inr d' \<and> P (max_vcpus d) d'"
  proof (rule for_loop_range)
    show "P 0 d" by (simp add: P_def wake_calls_def)
    fix i s
    assume i: "i < max_vcpus d" and P: "P i s"
    have bp: "blocked_poller port s i = blocked_poller port d i" using P by (simp add: P_def blocked_poller_def)
    have "i < max_vcpus s" "poll_mask s i \<Longrightarrow> vcpu_at s i \<noteq> None"
      using P i assms[OF i] by (auto simp: P_def keeps_ports_def)
    from wake_poller_ok[of s i port, OF this(2,1)] obtain s' where s':
      "wake_poller port i s = Inr s'" "keeps_ports s s'" "woken port s s' i"
      "evtchn_pending s' = evtchn_pending s" "evtchn_mask s' = evtchn_mask s"
      "ed_calls s' = ed_calls s @ (if blocked_poller port s i then [Call_vcpu_wake i] else [])"
      and o: "\<And>k. k \<noteq> i \<Longrightarrow> vcpu_at s' k = vcpu_at s k \<and> poll_mask s' k = poll_mask s k" by blast
    have "woken port d s' j" if "j < Suc i" for j
    proof (cases "j = i")
      case True
      have eq: "vcpu_at s i = vcpu_at d i" "poll_mask s i = poll_mask d i" using P by (auto simp: P_def)
      show ?thesis using s'(3) unfolding woken_def True eq .
    next
      case False
      then have "woken port d s j" using that P by (simp add: P_def)
      moreover have "set (ed_calls s) \<subseteq> set (ed_calls s')" using s'(6) by auto
      ultimately show ?thesis using o[OF False] unfolding woken_def by (metis (no_types, lifting) subsetD)
    qed
    then have "P (Suc i) s'"
      using P s' o bp by (auto simp: P_def wake_calls_Suc intro: keeps_ports_trans)
    then show "\<exists>s'. wake_poller port i s = Inr s' \<and> P (Suc i) s'" using s'(1) by blast
  qed
  then show ?thesis by (auto simp: P_def)
qed

definition same_poll :: "evt_vcpu \<Rightarrow> evt_vcpu \<Rightarrow> bool" where
  "same_poll v v' \<longleftrightarrow>
     v' = v\<lparr>evtchn_pending_sel := evtchn_pending_sel v', evtchn_upcall_pending := evtchn_upcall_pending v'\<rparr>"

lemma same_poll_fields:
  "same_poll v v' \<Longrightarrow> poll_evtchn v' = poll_evtchn v \<and> VPF_blocked v' = VPF_blocked v"
  unfolding same_poll_def by (metis evt_vcpu.select_convs evt_vcpu.update_convs evt_vcpu.surjective)

lemma raise_upcall_ok:
  assumes v: "vcpu_at d vid = Some v"
  shows "\<exists>d' v'. raise_upcall vid port d = Inr d' \<and> keeps_ports d d' \<and>
    evtchn_pending d' = evtchn_pending d \<and> evtchn_mask d' = evtchn_mask d \<and> poll_mask d' = poll_mask d \<and>
    (\<forall>j. j \<noteq> vid \<longrightarrow> vcpu_at d' j = vcpu_at d j) \<and> vcpu_at d' vid = Some v' \<and> same_poll v v' \<and>
    evtchn_pending_sel v' = (evtchn_pending_sel v)(port div BITS_PER_EVTCHN_WORD d := True) \<and>
    (evtchn_upcall_pending v' \<longleftrightarrow>
       evtchn_upcall_pending v \<or> \<not> evtchn_pending_sel v (port div BITS_PER_EVTCHN_WORD d)) \<and>
    ed_calls d' = ed_calls d @ upcall_calls vid port v d"
proof (cases "evtchn_pending_sel v (port div BITS_PER_EVTCHN_WORD d)")
  case True
  then show ?thesis
    using v by (auto simp: raise_upcall_def same_poll_def fun_eq_iff upcall_calls_def)
next
  case False
  define v1 where "v1 = v\<lparr>evtchn_pending_sel := (evtchn_pending_sel v)(port div BITS_PER_EVTCHN_WORD d := True)\<rparr>"
  define d1 where "d1 = put_vcpu vid v1 d"
  define d2 where "d2 = put_vcpu vid (v1\<lparr>evtchn_upcall_pending := True\<rparr>) d1"
  define d3 where "d3 = (if evtchn_upcall_pending v then d2
    else if ed_hvm d2 then log_call (Call_hvm_assert_evtchn_irq vid) d2 else log_call (Call_vcpu_kick vid) d2)"
  have l: "vid < max_vcpus d" using vcpu_at_less[OF v] .
  have r: "raise_upcall vid port d = vcpu_mark_events_pending vid d1"
    using v False by (simp add: raise_upcall_def d1_def v1_def)
  have v1: "vcpu_at d1 vid = Some v1" using l by (simp add: d1_def)
  then have m: "vcpu_mark_events_pending vid d1 = Inr d3"
    by (simp add: vcpu_mark_events_pending_def d2_def d3_def v1_def)
  have vt1: "vtab d1 = vtab d"
    using v unfolding d1_def by (subst vtab_put) (auto simp: v1_def fun_upd_idem_iff vtab_def)
  have vt2: "vtab d2 = vtab d1"
    using v1 unfolding d2_def by (subst vtab_put) (auto simp: fun_upd_idem_iff vtab_def)
  have "keeps_ports d d3"
    using vt1 vt2 by (simp add: keeps_ports_def d3_def d2_def d1_def)
  moreover have "vcpu_at d3 j = (if j = vid then Some (v1\<lparr>evtchn_upcall_pending := True\<rparr>) else vcpu_at d j)" for j
    using l by (simp add: d3_def d2_def d1_def)
  moreover have "evtchn_pending d3 = evtchn_pending d" "evtchn_mask d3 = evtchn_mask d" "poll_mask d3 = poll_mask d"
    by (simp_all add: d3_def d2_def d1_def)
  moreover have "ed_calls d3 = ed_calls d @ upcall_calls vid port v d"
    using False by (simp add: d3_def d2_def d1_def upcall_calls_def log_call_def put_vcpu_def)
  ultimately show ?thesis
    using r m False by (auto simp: v1_def same_poll_def)
qed

text \<open>The delivery of an event, completely.\<close>

lemma evtchn_set_pending_ok:
  assumes d: "evt_dom_ok d" and v: "vcpu_at d vid = Some v"
  shows "\<exists>d'. evtchn_set_pending vid port d = Inr (if evtchn_pending d port then 1 else 0, d') \<and>
    keeps_ports d d' \<and> evt_dom_ok d' \<and> evtchn_mask d' = evtchn_mask d \<and>
    evtchn_pending d' = (evtchn_pending d)(port := True) \<and>
    (evtchn_pending d port \<longrightarrow> d' = d) \<and>
    (\<not> evtchn_pending d port \<longrightarrow>
       ed_calls d' = ed_calls d @ (if evtchn_mask d port then [] else upcall_calls vid port v d) @
         wake_calls port (max_vcpus d) d \<and>
       (\<forall>j u. vcpu_at d j = Some u \<longrightarrow> poll_mask d j \<longrightarrow> polls_for u port \<longrightarrow>
          \<not> poll_mask d' j \<and> (\<exists>u'. vcpu_at d' j = Some u' \<and> \<not> VPF_blocked u')) \<and>
       (\<not> evtchn_mask d port \<longrightarrow>
          (\<exists>v'. vcpu_at d' vid = Some v' \<and> evtchn_pending_sel v' (port div BITS_PER_EVTCHN_WORD d) \<and>
             (evtchn_pending_sel v (port div BITS_PER_EVTCHN_WORD d) \<or> evtchn_upcall_pending v'))))"
proof (cases "evtchn_pending d port")
  case True
  then show ?thesis using d v by (auto simp: evtchn_set_pending_def fun_eq_iff)
next
  case False
  define d1 where "d1 = d\<lparr>evtchn_pending := (evtchn_pending d)(port := True)\<rparr>"
  have k1: "keeps_ports d d1" by (simp add: keeps_ports_def d1_def)
  have v1: "vcpu_at d1 vid = Some v" and w: "BITS_PER_EVTCHN_WORD d1 = BITS_PER_EVTCHN_WORD d"
    using v by (simp_all add: d1_def BITS_PER_EVTCHN_WORD_def)
  obtain d2 v2 where d2: "(if evtchn_mask d1 port then Inr d1 else raise_upcall vid port d1) = Inr d2"
    and k2: "keeps_ports d1 d2" "evtchn_pending d2 = evtchn_pending d1" "evtchn_mask d2 = evtchn_mask d1" "poll_mask d2 = poll_mask d1"
    and o2: "\<And>j. j \<noteq> vid \<Longrightarrow> vcpu_at d2 j = vcpu_at d1 j"
    and v2: "vcpu_at d2 vid = Some v2" "same_poll v v2"
    and c2: "ed_calls d2 = ed_calls d @ (if evtchn_mask d port then [] else upcall_calls vid port v d)"
    and s2: "\<not> evtchn_mask d port \<Longrightarrow> evtchn_pending_sel v2 (port div BITS_PER_EVTCHN_WORD d) \<and>
        (evtchn_pending_sel v (port div BITS_PER_EVTCHN_WORD d) \<or> evtchn_upcall_pending v2)"
  proof (cases "evtchn_mask d port")
    case True
    then show ?thesis using that[of d1 v] v1 by (simp add: d1_def same_poll_def)
  next
    case False
    from raise_upcall_ok[OF v1, of port] obtain d' v' where
      r: "raise_upcall vid port d1 = Inr d'" "keeps_ports d1 d'" "evtchn_pending d' = evtchn_pending d1"
      "evtchn_mask d' = evtchn_mask d1" "poll_mask d' = poll_mask d1" "\<forall>j. j \<noteq> vid \<longrightarrow> vcpu_at d' j = vcpu_at d1 j"
      "vcpu_at d' vid = Some v'" "same_poll v v'"
      "evtchn_pending_sel v' = (evtchn_pending_sel v)(port div BITS_PER_EVTCHN_WORD d1 := True)"
      "evtchn_upcall_pending v' \<longleftrightarrow>
        evtchn_upcall_pending v \<or> \<not> evtchn_pending_sel v (port div BITS_PER_EVTCHN_WORD d1)"
      "ed_calls d' = ed_calls d1 @ upcall_calls vid port v d1" by blast
    have "\<not> evtchn_mask d1 port" using False by (simp add: d1_def)
    moreover have "ed_calls d1 @ upcall_calls vid port v d1 = ed_calls d @ upcall_calls vid port v d"
      by (simp add: d1_def upcall_calls_def BITS_PER_EVTCHN_WORD_def)
    ultimately show ?thesis using that[of d' v'] r w False by auto
  qed
  have ok2: "evt_dom_ok d2" using k1 k2(1) d keeps_ports_ok by blast
  obtain d3 where d3: "(if \<forall>j<max_vcpus d2. \<not> poll_mask d2 j then Inr d2
      else for_loop (wake_poller port) [0..<max_vcpus d2] d2) = Inr d3"
    and k3: "keeps_ports d2 d3" "evtchn_pending d3 = evtchn_pending d2" "evtchn_mask d3 = evtchn_mask d2"
    and w3: "\<And>j. j < max_vcpus d2 \<Longrightarrow> woken port d2 d3 j"
    and c3: "ed_calls d3 = ed_calls d2 @ wake_calls port (max_vcpus d2) d2"
  proof (cases "\<forall>j<max_vcpus d2. \<not> poll_mask d2 j")
    case True
    then show ?thesis using that[of d2] wake_calls_none[of "max_vcpus d2" d2] by (auto simp: woken_def)
  next
    case False
    from wake_pollers_ok[of d2 port] evt_dom_okD(5)[OF ok2] obtain d' where
      "for_loop (wake_poller port) [0..<max_vcpus d2] d2 = Inr d'" "keeps_ports d2 d'"
      "evtchn_pending d' = evtchn_pending d2" "evtchn_mask d' = evtchn_mask d2" "\<forall>j<max_vcpus d2. woken port d2 d' j"
      "ed_calls d' = ed_calls d2 @ wake_calls port (max_vcpus d2) d2" by blast
    then show ?thesis using that[of d'] False by auto
  qed
  have "evtchn_set_pending vid port d = Inr (0, d3)"
    using v False d2 d3 unfolding evtchn_set_pending_def d1_def[symmetric]
    by (auto simp: d1_def[symmetric] Let_def split: if_splits)
  moreover have "keeps_ports d d3" using k1 k2(1) k3(1) keeps_ports_trans by blast
  moreover have "\<not> poll_mask d3 j \<and> (\<exists>u'. vcpu_at d3 j = Some u' \<and> \<not> VPF_blocked u')"
    if u: "vcpu_at d j = Some u" "poll_mask d j" "polls_for u port" for j u
  proof -
    obtain u2 where u2: "vcpu_at d2 j = Some u2" "polls_for u2 port"
      using u v v2 o2[of j] same_poll_fields[of v v2] by (cases "j = vid") (auto simp: d1_def polls_for_def)
    then show ?thesis
      using w3[of j] vcpu_at_less[OF u2(1)] u(2) k2(4) unfolding woken_def by (auto simp: d1_def)
  qed
  moreover have "\<exists>v'. vcpu_at d3 vid = Some v' \<and> evtchn_pending_sel v' (port div BITS_PER_EVTCHN_WORD d) \<and>
      (evtchn_pending_sel v (port div BITS_PER_EVTCHN_WORD d) \<or> evtchn_upcall_pending v')" if "\<not> evtchn_mask d port"
  proof -
    obtain v3 where "vcpu_at d3 vid = Some v3" "same_upcall v2 v3"
      using w3[of vid] vcpu_at_less[OF v2(1)] v2(1) unfolding woken_def by blast
    then show ?thesis using s2[OF that] same_upcall_fields[of v2 v3] by auto
  qed
  moreover have "blocked_poller port d2 j = blocked_poller port d j" for j
    using v v2 o2[of j] k2(4) same_poll_fields[of v v2]
    by (cases "j = vid") (auto simp: blocked_poller_def polls_for_def d1_def)
  then have "ed_calls d3 = ed_calls d @ (if evtchn_mask d port then [] else upcall_calls vid port v d) @
      wake_calls port (max_vcpus d) d"
    using c2 c3 k1 k2(1) wake_calls_cong[of "max_vcpus d" port d2 d] by (simp add: keeps_ports_def)
  ultimately show ?thesis
    using False k2 k3 keeps_ports_ok d by (auto simp: d1_def)
qed

section \<open>Allocation\<close>

text \<open>The search returns the first port that is free or not valid.\<close>

lemma scan_ports_ok:
  assumes s: "evt_struct d"
  shows "\<exists>b q. scan_ports d port = Inr (b, q) \<and> port \<le> q \<and>
    (\<forall>p. port \<le> p \<longrightarrow> p < q \<longrightarrow> (\<exists>c. chan d p = Some c \<and> chn_state c \<noteq> ECS_FREE)) \<and>
    (if b then \<exists>c. chan d q = Some c \<and> chn_state c = ECS_FREE else chan d q = None)"
proof (induction "MAX_EVTCHNS d - port" arbitrary: port rule: less_induct)
  case less
  show ?case
  proof (cases "chan d port")
    case None
    then have "scan_ports d port = Inr (False, port)"
      using port_valid_chan[OF s, of port] by (simp add: scan_ports.simps)
    then show ?thesis using None by auto
  next
    case (Some c)
    then have e: "scan_ports d port = (if chn_state c = ECS_FREE then Inr (True, port) else scan_ports d (port + 1))"
      using port_valid_chan[OF s, of port] by (subst scan_ports.simps) (simp add: evtchn_from_port_Some)
    show ?thesis
    proof (cases "chn_state c = ECS_FREE")
      case True
      then show ?thesis using e Some by auto
    next
      case False
      have "MAX_EVTCHNS d - (port + 1) < MAX_EVTCHNS d - port" using chan_bound[OF s Some] by simp
      from less[OF this] obtain b q where bq: "scan_ports d (port + 1) = Inr (b, q)" "port + 1 \<le> q"
        "\<forall>p. port + 1 \<le> p \<longrightarrow> p < q \<longrightarrow> (\<exists>c. chan d p = Some c \<and> chn_state c \<noteq> ECS_FREE)"
        "if b then \<exists>c. chan d q = Some c \<and> chn_state c = ECS_FREE else chan d q = None" by blast
      have "\<exists>c. chan d p = Some c \<and> chn_state c \<noteq> ECS_FREE" if "port \<le> p" "p < q" for p
        using that bq(3) Some False by (cases "p = port") auto
      then show ?thesis using e False bq by (intro exI[of _ b] exI[of _ q]) auto
    qed
  qed
qed

text \<open>The first port of a domain that is not valid is the first port of a bucket, or the limit.\<close>

lemma first_invalid_port:
  assumes s: "evt_struct d" and n: "chan d q = None" and a: "\<And>p. p < q \<Longrightarrow> chan d p \<noteq> None"
  shows "q mod 128 = 0" "q \<le> MAX_EVTCHNS d"
proof -
  show le: "q \<le> MAX_EVTCHNS d"
  proof (rule ccontr)
    assume "\<not> q \<le> MAX_EVTCHNS d"
    then have "chan d (MAX_EVTCHNS d) \<noteq> None" using a by simp
    then show False using chan_bound[OF s] by fastforce
  qed
  show "q mod 128 = 0"
  proof (rule ccontr)
    assume m: "q mod 128 \<noteq> 0"
    then have q0: "0 < q" by (cases q) auto
    have dv: "(q - 1) div 128 = q div 128"
      using m by (metis q0 Suc_pred' div_Suc nat_dvd_not_less mod_0_imp_dvd dvd_imp_mod_0 diff_Suc_1)
    have "port_is_valid d (q - 1)" using a[of "q - 1"] q0 port_valid_chan[OF s] by simp
    moreover have "q \<noteq> MAX_EVTCHNS d" using m MAX_EVTCHNS_cases[of d] by auto
    ultimately have "port_is_valid d q" using dv le by (simp add: port_is_valid_def bucket_from_port_def)
    then show False using n port_valid_chan[OF s] by simp
  qed
qed

definition add_bucket :: "nat \<Rightarrow> evt_domain \<Rightarrow> evt_domain" where
  "add_bucket port d =
     d\<lparr>ed_evtchn := (ed_evtchn d)[port div 128 := Bucket (replicate 128 zero_evtchn)]\<rparr>"

lemma add_bucket_ok:
  assumes s: "evt_struct d" and n: "chan d q = None" and a: "\<And>p. p < q \<Longrightarrow> chan d p \<noteq> None"
    and q: "q \<noteq> MAX_EVTCHNS d"
  shows "evt_struct (add_bucket q d)"
    and "chan (add_bucket q d) = (\<lambda>p. if p \<in> {q..<q + 128} then Some zero_evtchn else chan d p)"
    and "\<And>p. p \<in> {q..<q + 128} \<Longrightarrow> chan d p = None"
proof -
  have f: "q mod 128 = 0" "q < MAX_EVTCHNS d" using first_invalid_port[OF s n a] q by auto
  define k where "k = q div 128"
  have k: "q = k * 128" using f(1) unfolding k_def by (metis div_mult_mod_eq add.right_neutral)
  have k32: "k < 32" using f(2) MAX_EVTCHNS_le[of d] k by simp
  have kM: "(k + 1) * 128 \<le> MAX_EVTCHNS d" using f(2) k MAX_EVTCHNS_cases[of d] by auto
  have before: "ed_evtchn d ! j \<noteq> Bucket_null" if "j < k" for j
  proof -
    have "chan d (j * 128) \<noteq> None" using a[of "j * 128"] that k by simp
    then show ?thesis using port_valid_chan[OF s, of "j * 128"] by (auto simp: port_is_valid_def bucket_from_port_def)
  qed
  have null: "ed_evtchn d ! k = Bucket_null"
    using n port_valid_chan[OF s, of q] f(2) k by (simp add: port_is_valid_def bucket_from_port_def)
  have len: "length (ed_evtchn d) = 32" using s by (simp add: evt_struct_def)
  have e: "ed_evtchn (add_bucket q d) = (ed_evtchn d)[k := Bucket (replicate 128 zero_evtchn)]"
    by (simp add: add_bucket_def k_def)
  have M: "MAX_EVTCHNS (add_bucket q d) = MAX_EVTCHNS d" by (simp add: add_bucket_def MAX_EVTCHNS_def BITS_PER_EVTCHN_WORD_def)
  show s': "evt_struct (add_bucket q d)"
    unfolding evt_struct_def e M
  proof (intro conjI allI impI)
    fix i assume i: "i < NR_EVTCHN_BUCKETS"
    show "case (ed_evtchn d)[k := Bucket (replicate 128 zero_evtchn)] ! i of Bucket_null \<Rightarrow> True
      | Bucket cs \<Rightarrow> length cs = EVTCHNS_PER_BUCKET \<and> (i + 1) * EVTCHNS_PER_BUCKET \<le> MAX_EVTCHNS d \<and>
          (\<forall>j<i. (ed_evtchn d)[k := Bucket (replicate 128 zero_evtchn)] ! j \<noteq> Bucket_null)
      | Bucket_freed \<Rightarrow> False"
    proof (cases "i = k")
      case True
      then show ?thesis using len k32 kM before by auto
    next
      case False
      then have ni: "(ed_evtchn d)[k := Bucket (replicate 128 zero_evtchn)] ! i = ed_evtchn d ! i" by simp
      show ?thesis
      proof (cases "ed_evtchn d ! i = Bucket_null")
        case nn: False
        have i32: "i < 32" using i by simp
        obtain cs where cs: "ed_evtchn d ! i = Bucket cs" "length cs = 128" "(i + 1) * 128 \<le> MAX_EVTCHNS d"
          "\<And>j. j < i \<Longrightarrow> ed_evtchn d ! j \<noteq> Bucket_null"
          using evt_struct_bucket[OF s i32 nn] by blast
        have "(ed_evtchn d)[k := Bucket (replicate 128 zero_evtchn)] ! j \<noteq> Bucket_null" if "j < i" for j
          using cs(4)[OF that] len k32 by (cases "j = k") auto
        then show ?thesis unfolding ni using cs by simp
      qed (simp add: ni)
    qed
  qed (simp add: len)
  have in_k: "p div 128 = k \<longleftrightarrow> p \<in> {q..<q + 128}" for p
    using k by (auto simp: div_nat_eqI)
  show inv: "chan d p = None" if "p \<in> {q..<q + 128}" for p
    using that in_k[of p] null chan_Some_bucket[OF s, of p] by (metis bucket.distinct(1) not_None_eq)
  show "chan (add_bucket q d) = (\<lambda>p. if p \<in> {q..<q + 128} then Some zero_evtchn else chan d p)"
  proof (rule ext)
    fix p
    have "chan (add_bucket q d) p = Some c \<longleftrightarrow>
        (if p \<in> {q..<q + 128} then Some zero_evtchn else chan d p) = Some c" for c
      unfolding chan_Some_bucket[OF s'] e using in_k[of p] len k32 chan_Some_bucket[OF s, of p]
      by (auto simp: nth_list_update)
    then show "chan (add_bucket q d) p = (if p \<in> {q..<q + 128} then Some zero_evtchn else chan d p)"
      by (metis not_None_eq)
  qed
qed

lemma add_bucket_fields [simp]:
  "vcpu_at (add_bucket p d) = vcpu_at d"
  "vtab (add_bucket p d) = vtab d"
  "ed_vcpu (add_bucket p d) = ed_vcpu d"
  "ed_dying (add_bucket p d) = ed_dying d"
  "ed_hvm (add_bucket p d) = ed_hvm d"
  "ed_32bit_shinfo (add_bucket p d) = ed_32bit_shinfo d"
  "pirq_to_evtchn (add_bucket p d) = pirq_to_evtchn d"
  "evtchn_pending (add_bucket p d) = evtchn_pending d"
  "evtchn_mask (add_bucket p d) = evtchn_mask d"
  "poll_mask (add_bucket p d) = poll_mask d"
  "ed_calls (add_bucket p d) = ed_calls d"
  by (simp_all add: add_bucket_def)

text \<open>The domain after an allocation: as before, or with one more bucket of free channels.\<close>

definition grown :: "evt_domain \<Rightarrow> evt_domain \<Rightarrow> bool" where
  "grown d d' \<longleftrightarrow> d' = d \<or>
     (\<exists>q. d' = add_bucket q d \<and>
        (\<forall>p. chan d' p = chan d p \<or> chan d p = None \<and> chan d' p = Some zero_evtchn))"

lemma grown_fields:
  assumes "grown d d'"
  shows "vcpu_at d' = vcpu_at d" "vtab d' = vtab d" "ed_vcpu d' = ed_vcpu d" "ed_dying d' = ed_dying d"
    "ed_hvm d' = ed_hvm d" "pirq_to_evtchn d' = pirq_to_evtchn d" "evtchn_pending d' = evtchn_pending d"
    "evtchn_mask d' = evtchn_mask d" "poll_mask d' = poll_mask d" "ed_calls d' = ed_calls d"
  using assms unfolding grown_def by (elim disjE exE conjE; simp)+

lemma grown_chan:
  assumes "grown d d'"
  shows "chan d p = Some c \<Longrightarrow> chan d' p = Some c"
    and "chan d' p = Some c \<Longrightarrow> chan d p = Some c \<or> chan d p = None \<and> c = zero_evtchn"
  using assms unfolding grown_def by (metis option.distinct(1), metis option.inject)

definition xsm_allocates :: "evt_env \<Rightarrow> bool" where
  "xsm_allocates env \<longleftrightarrow> (\<forall>i<EVTCHNS_PER_BUCKET. \<not> xsm_alloc_security_evtchn env i)"

lemma get_free_port_ok:
  assumes d: "evt_dom_ok d" and x: "xsm_allocates env"
  shows "\<exists>r d'. get_free_port env d = Inr (r, d') \<and> evt_dom_ok d' \<and> grown d d' \<and>
    (case r of
       Inl e \<Rightarrow> e < 0 \<and> d' = d
     | Inr port \<Rightarrow> port \<noteq> 0 \<and> (\<exists>c. chan d' port = Some c \<and> chn_state c = ECS_FREE) \<and>
         \<not> ed_dying d \<and> (\<forall>p<port. \<exists>c. chan d p = Some c \<and> chn_state c \<noteq> ECS_FREE))"
proof (cases "ed_dying d")
  case True
  then show ?thesis using d by (auto simp: get_free_port_def grown_def EINVAL_def)
next
  case False
  note s = evt_dom_okD(1)[OF d]
  from scan_ports_ok[OF s, of 0] obtain b q where sc: "scan_ports d 0 = Inr (b, q)"
    and a: "\<And>p. p < q \<Longrightarrow> \<exists>c. chan d p = Some c \<and> chn_state c \<noteq> ECS_FREE"
    and bq: "if b then \<exists>c. chan d q = Some c \<and> chn_state c = ECS_FREE else chan d q = None" by blast
  obtain c0 where c0: "chan d 0 = Some c0" "chn_state c0 = ECS_RESERVED"
    using evt_dom_okD(6)[OF d False] ports_okD(2)[OF evt_dom_okD(2)[OF d], of 0] by (auto simp: chan_ok_def)
  have q0: "q \<noteq> 0" using bq c0 by (auto split: if_splits intro: gr0I)
  show ?thesis
  proof (cases b)
    case True
    then have "get_free_port env d = Inr (Inr q, d)" using False sc by (simp add: get_free_port_def)
    then show ?thesis using True d q0 bq a False by (auto simp: grown_def)
  next
    case nb: False
    then have n: "chan d q = None" using bq by simp
    have a': "\<And>p. p < q \<Longrightarrow> chan d p \<noteq> None" using a by fastforce
    consider "q = MAX_EVTCHNS d \<or> \<not> xmalloc_ok env" | "q \<noteq> MAX_EVTCHNS d" "xmalloc_ok env" by blast
    then show ?thesis
    proof cases
      case 1
      then have "get_free_port env d = Inr (Inl (- ENOSPC), d) \<or> get_free_port env d = Inr (Inl (- ENOMEM), d)"
        using False sc nb by (auto simp: get_free_port_def)
      then show ?thesis using d by (auto simp: grown_def ENOSPC_def ENOMEM_def)
    next
      case 2
      note ab = add_bucket_ok[OF s n a' 2(1)]
      have nx: "(\<exists>i<EVTCHNS_PER_BUCKET. xsm_alloc_security_evtchn env i) = False"
        using x unfolding xsm_allocates_def by blast
      have g: "get_free_port env d = Inr (Inr q, add_bucket q d)"
        using False nb 2 unfolding get_free_port_def sc nx add_bucket_def by simp
      have gr: "grown d (add_bucket q d)" using ab(2,3) unfolding grown_def by auto
      have "ports_ok (\<lambda>p. if p \<in> {q..<q + 128} then Some zero_evtchn else chan d p) (vtab d) (pirq_to_evtchn d)"
        by (rule ports_ok_new[OF evt_dom_okD(2)[OF d]]) (use ab(3) q0 in simp_all)
      then have "ports_ok (chan (add_bucket q d)) (vtab (add_bucket q d)) (pirq_to_evtchn (add_bucket q d))"
        unfolding add_bucket_fields by (subst ab(2))
      moreover have "chan (add_bucket q d) 0 \<noteq> None" using grown_chan(1)[OF gr c0(1)] by simp
      ultimately have "evt_dom_ok (add_bucket q d)"
        using d ab(1) by (simp add: evt_dom_ok_def)
      moreover have "chan (add_bucket q d) q = Some zero_evtchn" using fun_cong[OF ab(2), of q] by simp
      ultimately show ?thesis using g gr q0 a False by (auto simp: zero_evtchn_def)
    qed
  qed
qed

section \<open>Steps of a domain and of the system\<close>

text \<open>
  What every operation guarantees, and what \<open>__evtchn_close\<close> relies on while its lock is dropped: no
  domain appears or disappears, and in a dying domain no port is bound again.
\<close>

definition dom_frame :: "evt_domain \<Rightarrow> evt_domain \<Rightarrow> bool" where
  "dom_frame d d' \<longleftrightarrow>
     ed_dying d' = ed_dying d \<and> ed_32bit_shinfo d' = ed_32bit_shinfo d \<and>
     (ed_dying d \<longrightarrow>
        (\<forall>p. chan d' p = None \<longleftrightarrow> chan d p = None) \<and>
        (\<forall>p c c'. chan d p = Some c \<longrightarrow> chan d' p = Some c' \<longrightarrow>
           chn_state c \<in> {ECS_FREE, ECS_RESERVED} \<longrightarrow> chn_state c' = chn_state c))"

definition dom_step :: "evt_domain \<Rightarrow> evt_domain \<Rightarrow> bool" where
  "dom_step d d' \<longleftrightarrow>
     evt_dom_ok d' \<and> view inter_of (chan d') = view inter_of (chan d) \<and> dom_frame d d'"

definition evt_frame :: "domid \<Rightarrow> evt_world \<Rightarrow> evt_world \<Rightarrow> bool" where
  "evt_frame i w w' \<longleftrightarrow>
     (\<forall>j. w' j = None \<longleftrightarrow> w j = None) \<and>
     (\<forall>d d'. w i = Some d \<longrightarrow> w' i = Some d' \<longrightarrow> dom_frame d d')"

definition evt_guar :: "evt_world \<Rightarrow> evt_world \<Rightarrow> bool" where
  "evt_guar w w' \<longleftrightarrow> evt_wf w' \<and> (\<forall>i. evt_frame i w w')"

lemma dom_frame_refl [simp]: "dom_frame d d"
  by (simp add: dom_frame_def)

lemma dom_frame_trans:
  assumes a: "dom_frame d e" and b: "dom_frame e f"
  shows "dom_frame d f"
proof -
  have "chn_state c' = chn_state c"
    if t: "ed_dying d" "chan d p = Some c" "chan f p = Some c'" "chn_state c \<in> {ECS_FREE, ECS_RESERVED}" for p c c'
  proof -
    obtain c1 where c1: "chan e p = Some c1"
      using a t(1,2) unfolding dom_frame_def by (metis not_None_eq)
    then have "chn_state c1 = chn_state c" using a t c1 unfolding dom_frame_def by blast
    then show ?thesis using b t c1 a unfolding dom_frame_def by metis
  qed
  then show ?thesis using a b unfolding dom_frame_def by blast
qed

lemma dom_step_trans: "dom_step d e \<Longrightarrow> dom_step e f \<Longrightarrow> dom_step d f"
  unfolding dom_step_def using dom_frame_trans by auto

lemma dom_step_refl: "evt_dom_ok d \<Longrightarrow> dom_step d d"
  by (simp add: dom_step_def)

lemma evt_frame_refl [simp]: "evt_frame i w w"
  by (simp add: evt_frame_def)

lemma evt_frame_trans:
  assumes a: "evt_frame i w w'" and b: "evt_frame i w' w''"
  shows "evt_frame i w w''"
proof -
  have "dom_frame d d''" if d: "w i = Some d" "w'' i = Some d''" for d d''
  proof -
    obtain d' where "w' i = Some d'" using a d unfolding evt_frame_def by (metis not_None_eq)
    then show ?thesis using a b d dom_frame_trans unfolding evt_frame_def by blast
  qed
  then show ?thesis using a b unfolding evt_frame_def by blast
qed

lemma evt_guar_refl: "evt_wf w \<Longrightarrow> evt_guar w w"
  by (simp add: evt_guar_def)

lemma evt_guar_trans: "evt_guar w w' \<Longrightarrow> evt_guar w' w'' \<Longrightarrow> evt_guar w w''"
  unfolding evt_guar_def using evt_frame_trans by blast

lemma evt_guar_wf: "evt_guar w w' \<Longrightarrow> evt_wf w'"
  by (simp add: evt_guar_def)

lemma evt_guar_dom: "evt_guar w w' \<Longrightarrow> w' i = None \<longleftrightarrow> w i = None"
  by (simp add: evt_guar_def evt_frame_def)

lemma evt_guar_upd:
  assumes w: "evt_wf w" "w i = Some d" and s: "dom_step d d'"
  shows "evt_guar w (w(i \<mapsto> d'))"
proof -
  have eq: "wlink (w(i \<mapsto> d')) = wlink w"
    using w(2) s by (auto simp: wlink_def dom_step_def fun_eq_iff)
  have "evt_wf (w(i \<mapsto> d'))"
  proof (rule evt_wfI)
    show "(w(i \<mapsto> d')) j = Some e \<Longrightarrow> evt_dom_ok e" for j e
      using s evt_wfD(1)[OF w(1)] by (auto simp: dom_step_def split: if_splits)
    show "wlink (w(i \<mapsto> d')) k p = Some (j, q) \<Longrightarrow> wlink (w(i \<mapsto> d')) j q = Some (k, p)" for k p j q
      unfolding eq by (rule evt_wfD(2)[OF w(1)])
  qed
  moreover have "evt_frame j w (w(i \<mapsto> d'))" for j
    using w(2) s by (auto simp: evt_frame_def dom_step_def)
  ultimately show ?thesis by (simp add: evt_guar_def)
qed

lemma keeps_ports_step: "evt_dom_ok d \<Longrightarrow> keeps_ports d d' \<Longrightarrow> dom_step d d'"
  using keeps_ports_ok[of d d'] keeps_ports_chan[of d d'] by (simp add: dom_step_def dom_frame_def keeps_ports_def)

lemma grown_step:
  assumes "evt_dom_ok d'" "grown d d'" "d' = d \<or> \<not> ed_dying d"
  shows "dom_step d d'"
proof -
  have "inter_of zero_evtchn = None" by (simp add: inter_of_def zero_evtchn_def)
  then have "view inter_of (chan d') p = view inter_of (chan d) p" for p
    using grown_chan[OF assms(2), of p] by (cases "chan d' p"; cases "chan d p") (auto simp: view_def)
  moreover have "dom_frame d d'" using assms(2,3) by (auto simp: dom_frame_def grown_def)
  ultimately show ?thesis using assms(1) by (auto simp: dom_step_def)
qed

text \<open>Stores of one channel.\<close>

lemma evt_dom_ok_put:
  assumes d: "evt_dom_ok d" and c0: "chan d p = Some c0"
    and "ports_ok ((chan d)(p \<mapsto> c)) (vtab d) (pirq_to_evtchn d)"
  shows "evt_dom_ok (put_evtchn p c d)"
  using assms put_evtchn_struct[OF evt_dom_okD(1)[OF d], of p c] by (auto simp: evt_dom_ok_def)

lemma put_step:
  assumes d: "evt_dom_ok d" and c0: "chan d p = Some c0"
    and v: "virq_of c = virq_of c0" "pirq_of c = pirq_of c0" "links_of c = links_of c0" "inter_of c = inter_of c0"
    and c: "chan_ok (vtab d) p c"
    and dy: "ed_dying d \<Longrightarrow> chn_state c0 \<in> {ECS_FREE, ECS_RESERVED} \<Longrightarrow> chn_state c = chn_state c0"
  shows "dom_step d (put_evtchn p c d)"
proof -
  have ch: "chan (put_evtchn p c d) = (chan d)(p \<mapsto> c)"
    using put_evtchn_struct(2)[OF evt_dom_okD(1)[OF d]] c0 by simp
  have "evt_dom_ok (put_evtchn p c d)"
    using evt_dom_ok_put[OF d c0] ports_ok_same_views[OF evt_dom_okD(2)[OF d] c0 v(1-3) c] by simp
  moreover have "view inter_of (chan (put_evtchn p c d)) = view inter_of (chan d)"
    using v(4) c0 unfolding ch by (auto simp: fun_eq_iff view_at)
  moreover have "dom_frame d (put_evtchn p c d)"
    using dy c0 by (auto simp: dom_frame_def ch)
  ultimately show ?thesis by (simp add: dom_step_def)
qed

lemma inter_of_simps [simp]:
  "chn_state c = ECS_FREE \<Longrightarrow> inter_of c = None"
  "chn_state c = ECS_RESERVED \<Longrightarrow> inter_of c = None"
  "chn_state c = ECS_UNBOUND r \<Longrightarrow> inter_of c = None"
  "chn_state c = ECS_PIRQ i n s \<Longrightarrow> inter_of c = None"
  "chn_state c = ECS_VIRQ v \<Longrightarrow> inter_of c = None"
  "chn_state c = ECS_IPI \<Longrightarrow> inter_of c = None"
  "chn_state c = ECS_INTERDOMAIN j q \<Longrightarrow> inter_of c = Some (j, q)"
  by (simp_all add: inter_of_def)

text \<open>The states that only the channel itself records.\<close>

definition plain :: "evtchn_state \<Rightarrow> bool" where
  "plain s \<longleftrightarrow> (case s of ECS_FREE \<Rightarrow> True | ECS_RESERVED \<Rightarrow> True | ECS_UNBOUND _ \<Rightarrow> True | ECS_IPI \<Rightarrow> True | _ \<Rightarrow> False)"

lemma plain_simps [simp]:
  "plain ECS_FREE" "plain ECS_RESERVED" "plain (ECS_UNBOUND r)" "plain ECS_IPI"
  by (simp_all add: plain_def)

lemma put_plain_step:
  assumes "evt_dom_ok d" "chan d p = Some c0" "plain (chn_state c0)" "plain (chn_state c)"
    "chan_ok (vtab d) p c" "ed_dying d \<Longrightarrow> chn_state c0 \<in> {ECS_FREE, ECS_RESERVED} \<Longrightarrow> chn_state c = chn_state c0"
  shows "dom_step d (put_evtchn p c d)"
proof -
  have "virq_of x = None \<and> pirq_of x = None \<and> links_of x = None \<and> inter_of x = None" if "plain (chn_state x)" for x
    using that by (simp add: plain_def virq_of_def pirq_of_def links_of_def inter_of_def split: evtchn_state.splits)
  then show ?thesis using assms by (intro put_step[OF assms(1,2)]) auto
qed

end
