(* ===== verification/Event_Ops.thy ===== *)
theory Event_Ops
  imports Event_Invariant
begin

text \<open>
  Every operation of \<open>common/event_channel.c\<close>, run in a state that satisfies the invariant, returns
  without a fault and guarantees the invariant again (\<open>evt_guar\<close>): one lemma per operation, in the
  order of the source.
\<close>

section \<open>Binding a free port\<close>

lemma get_free_portE:
  assumes d: "evt_dom_ok d" and x: "xsm_allocates env"
  obtains (err) e where "get_free_port env d = Inr (Inl e, d)" "e < 0"
  | (port) port d' c where "get_free_port env d = Inr (Inr port, d')" "evt_dom_ok d'" "grown d d'" "dom_step d d'"
      "port \<noteq> 0" "chan d' port = Some c" "chn_state c = ECS_FREE" "notify_vcpu_id c = 0" "\<not> consumer_is_xen c"
      "\<not> ed_dying d'" "port < 4096"
proof -
  from get_free_port_ok[OF d x] obtain r d' where g: "get_free_port env d = Inr (r, d')" "evt_dom_ok d'" "grown d d'"
    and r: "case r of Inl e \<Rightarrow> e < 0 \<and> d' = d
      | Inr port \<Rightarrow> port \<noteq> 0 \<and> (\<exists>c. chan d' port = Some c \<and> chn_state c = ECS_FREE) \<and>
         \<not> ed_dying d \<and> (\<forall>p<port. \<exists>c. chan d p = Some c \<and> chn_state c \<noteq> ECS_FREE)" by blast
  show thesis
  proof (cases r)
    case (Inl e)
    then show thesis using g r err by auto
  next
    case (Inr p)
    then obtain c where c: "p \<noteq> 0" "chan d' p = Some c" "chn_state c = ECS_FREE" "\<not> ed_dying d" using r by auto
    have "chan_ok (vtab d') p c" using ports_okD(2)[OF evt_dom_okD(2)[OF g(2)] c(2)] .
    then have "notify_vcpu_id c = 0" "\<not> consumer_is_xen c" using c by (auto simp: chan_ok_def)
    moreover have "dom_step d d'" using grown_step[OF g(2,3)] c by blast
    moreover have "\<not> ed_dying d'" using c(4) grown_fields(4)[OF g(3)] by simp
    moreover have "p < 4096" using chan_bound'[OF evt_dom_okD(1)[OF g(2)] c(2)] .
    ultimately show thesis using port[of p d' c] g Inr c by blast
  qed
qed

lemma put_fresh_step:
  assumes "evt_dom_ok d" "chan d p = Some c0" "chn_state c0 = ECS_FREE" "\<not> ed_dying d" "p \<noteq> 0"
    "plain (chn_state c)" "chn_state c \<noteq> ECS_FREE" "vcpu_at d (notify_vcpu_id c) \<noteq> None"
  shows "dom_step d (put_evtchn p c d)"
  using assms by (intro put_plain_step[OF assms(1,2)]) (auto simp: chan_ok_def vtab_None)

lemma vcpu0: "evt_dom_ok d \<Longrightarrow> vcpu_at d 0 \<noteq> None"
  using ports_okD(1)[OF evt_dom_okD(2)] by (simp add: vtab_None)

definition runs :: "('a \<times> evt_world) result \<Rightarrow> evt_world \<Rightarrow> bool" where
  "runs r w \<longleftrightarrow> (\<exists>x w'. r = Inr (x, w') \<and> evt_guar w w')"

definition runs3 :: "(int \<times> 'a \<times> evt_world) result \<Rightarrow> evt_world \<Rightarrow> bool" where
  "runs3 r w \<longleftrightarrow> (\<exists>x y w'. r = Inr (x, y, w') \<and> evt_guar w w')"

lemma runs_simps [simp]:
  "runs (Inr (x, w')) w \<longleftrightarrow> evt_guar w w'"
  "runs3 (Inr (rc, y, w')) w \<longleftrightarrow> evt_guar w w'"
  by (simp_all add: runs_def runs3_def)

lemma target_domain:
  assumes "rcu_lock_target_domain_by_id env w i = Inr di" "w (current_domain env) \<noteq> None"
  obtains d where "w di = Some d"
  using assms by (auto simp: rcu_lock_target_domain_by_id_def split: if_splits)

lemma evtchn_alloc_unbound_ok:
  assumes w: "evt_wf w" "w (current_domain env) \<noteq> None" and x: "xsm_allocates env"
  shows "runs3 (evtchn_alloc_unbound env alloc w) w"
proof (cases "rcu_lock_target_domain_by_id env w (au_dom alloc)")
  case (Inl e)
  then show ?thesis using w evt_guar_refl by (simp add: evtchn_alloc_unbound_def)
next
  case (Inr di)
  then obtain d where d: "w di = Some d" using w(2) target_domain by blast
  have ok: "evt_dom_ok d" using evt_wfD(1)[OF w(1) d] .
  from ok x show ?thesis
  proof (cases rule: get_free_portE)
    case (err e)
    then show ?thesis using Inr d w evt_guar_upd[OF w(1) d dom_step_refl[OF ok]]
      by (simp add: evtchn_alloc_unbound_def)
  next
    case (port p d' c)
    have g1: "evt_guar w (w(di \<mapsto> d'))" using evt_guar_upd[OF w(1) d port(4)] .
    have "dom_step d' (put_evtchn p (c\<lparr>chn_state := ECS_UNBOUND r\<rparr>) d')" for r
      using put_fresh_step[OF port(2,6,7,10,5)] vcpu0[OF port(2)] port(8) by simp
    then have "evt_guar w (w(di \<mapsto> put_evtchn p (c\<lparr>chn_state := ECS_UNBOUND r\<rparr>) d'))" for r
      using evt_guar_upd[OF w(1) d] dom_step_trans[OF port(4)] by blast
    then show ?thesis using Inr d port(1,6) g1
      by (simp add: evtchn_alloc_unbound_def Let_def evtchn_from_port_Some)
  qed
qed

lemma evtchn_bind_ipi_ok:
  assumes w: "evt_wf w" "w (current_domain env) = Some d" and x: "xsm_allocates env"
  shows "runs3 (evtchn_bind_ipi env bind w) w"
proof -
  have ok: "evt_dom_ok d" using evt_wfD(1)[OF w] .
  define v where "v = unat (bp_vcpu bind)"
  show ?thesis
  proof (cases "vcpu_at d v = None")
    case True
    then show ?thesis using w evt_guar_refl[OF w(1)] vcpu_absent[of v d]
      by (auto simp: evtchn_bind_ipi_def v_def[symmetric] Let_def)
  next
    case False
    then have vv: "v < max_vcpus d" "ed_vcpu d ! v \<noteq> None" by (auto simp: vcpu_at_def split: if_splits)
    then have u: "to_u16 v = v" using evt_dom_okD(3)[OF ok] by simp
    from ok x show ?thesis
    proof (cases rule: get_free_portE)
      case (err e)
      then show ?thesis using vv w evt_guar_upd[OF w dom_step_refl[OF ok]]
        by (auto simp: evtchn_bind_ipi_def v_def[symmetric] Let_def)
    next
      case (port p d' c)
      have "dom_step d' (put_evtchn p (c\<lparr>chn_state := ECS_IPI, notify_vcpu_id := v\<rparr>) d')"
        using put_fresh_step[OF port(2,6,7,10,5)] False grown_fields(1)[OF port(3)] by simp
      then have "evt_guar w (w(current_domain env \<mapsto> put_evtchn p (c\<lparr>chn_state := ECS_IPI, notify_vcpu_id := v\<rparr>) d'))"
        using evt_guar_upd[OF w] dom_step_trans[OF port(4)] by blast
      then show ?thesis using vv w u port(1,6)
        by (auto simp: evtchn_bind_ipi_def v_def[symmetric] Let_def evtchn_from_port_Some)
    qed
  qed
qed

lemma alloc_unbound_xen_event_channel_ok:
  assumes w: "evt_wf w" "w di = Some d" and x: "xsm_allocates env" and v: "vcpu_at d vid \<noteq> None"
  shows "runs (alloc_unbound_xen_event_channel env di vid r w) w"
proof -
  have ok: "evt_dom_ok d" using evt_wfD(1)[OF w] .
  have u: "to_u16 vid = vid" using v vcpu_at_less evt_dom_okD(3)[OF ok] by (metis less_le_trans not_None_eq to_u16_small)
  from ok x show ?thesis
  proof (cases rule: get_free_portE)
    case (err e)
    then show ?thesis using w evt_guar_upd[OF w dom_step_refl[OF ok]]
      by (simp add: alloc_unbound_xen_event_channel_def)
  next
    case (port p d' c)
    have "dom_step d' (put_evtchn p (c\<lparr>chn_state := ECS_UNBOUND r, consumer_is_xen := True, notify_vcpu_id := vid\<rparr>) d')"
      using put_fresh_step[OF port(2,6,7,10,5)] v grown_fields(1)[OF port(3)] by simp
    then have "evt_guar w (w(di \<mapsto> put_evtchn p (c\<lparr>chn_state := ECS_UNBOUND r, consumer_is_xen := True, notify_vcpu_id := vid\<rparr>) d'))"
      using evt_guar_upd[OF w] dom_step_trans[OF port(4)] by blast
    then show ?thesis using w u port(1,6)
      by (simp add: alloc_unbound_xen_event_channel_def Let_def evtchn_from_port_Some)
  qed
qed

lemma evtchn_bind_virq_ok:
  assumes w: "evt_wf w" "w (current_domain env) = Some d" and x: "xsm_allocates env"
  shows "runs3 (evtchn_bind_virq env bind w) w"
proof -
  have ok: "evt_dom_ok d" using evt_wfD(1)[OF w] .
  note po = evt_dom_okD(2)[OF ok]
  have refl: "evt_guar w w" using evt_guar_refl[OF w(1)] .
  define vi q where "vi = unat (bv_vcpu bind)" and "q = unat (bv_virq bind)"
  note defs = evtchn_bind_virq_def vi_def[symmetric] q_def[symmetric] Let_def
  consider "\<not> q < NR_VIRQS" | "q < NR_VIRQS" "virq_global q \<and> vi \<noteq> 0"
    | "q < NR_VIRQS" "\<not> (virq_global q \<and> vi \<noteq> 0)" "vcpu_at d vi = None"
    | v where "q < NR_VIRQS" "\<not> (virq_global q \<and> vi \<noteq> 0)" "vcpu_at d vi = Some v" by (metis not_None_eq)
  then show ?thesis
  proof cases
    case 1
    then show ?thesis using w refl by (simp add: defs)
  next
    case 2
    then show ?thesis using w refl by (simp add: defs virq_is_global_Inr)
  next
    case 3
    then show ?thesis using w refl vcpu_absent[of vi d] by (auto simp: defs virq_is_global_Inr)
  next
    case 4
    have q24: "q < 24" using 4(1) by simp
    have vv: "vi < max_vcpus d" "ed_vcpu d ! vi \<noteq> None" using 4(3) by (auto simp: vcpu_at_def split: if_splits)
    have vt: "vtab d vi = Some (virq_to_evtchn v, pirq_evtchn_head v)" using 4(3) by (simp add: vtab_def)
    have len: "length (virq_to_evtchn v) = 24" using ports_okD(3)[OF po] vt by (auto simp: virqs_ok_def)
    have u: "to_u16 vi = vi" "to_u16 q = q" using vv(1) evt_dom_okD(3)[OF ok] q24 by simp_all
    show ?thesis
    proof (cases "virq_to_evtchn v ! q = 0")
      case False
      then show ?thesis using w refl 4 vv len q24 by (simp add: defs virq_is_global_Inr)
    next
      case z: True
      from ok x show ?thesis
      proof (cases rule: get_free_portE)
        case (err e)
        then show ?thesis using vv w evt_guar_upd[OF w dom_step_refl[OF ok]] 4 len q24 z
          by (auto simp: defs virq_is_global_Inr)
      next
        case (port p d' c)
        define c' where "c' = c\<lparr>chn_state := ECS_VIRQ q, notify_vcpu_id := vi\<rparr>"
        define v' where "v' = v\<lparr>virq_to_evtchn := (virq_to_evtchn v)[q := p]\<rparr>"
        define d2 where "d2 = put_vcpu vi v' (put_evtchn p c' d')"
        have r: "evtchn_bind_virq env bind w = Inr (0, bind\<lparr>bv_port := of_nat p\<rparr>, w(current_domain env \<mapsto> d2))"
          using w 4 vv len q24 z port(1,6,11) u
          by (auto simp: defs virq_is_global_Inr evtchn_from_port_Some d2_def c'_def v'_def)
        note f = grown_fields[OF port(3)]
        have ch: "chan d2 = (chan d')(p \<mapsto> c')"
          using put_evtchn_struct(2)[OF evt_dom_okD(1)[OF port(2)]] port(6) by (simp add: d2_def)
        have st: "evt_struct d2"
          using put_evtchn_struct(1)[OF evt_dom_okD(1)[OF port(2)]] port(6) by (simp add: d2_def)
        have vt2: "vtab d2 = (vtab d')(vi \<mapsto> ((virq_to_evtchn v)[q := p], pirq_evtchn_head v))"
          using 4(3) f(1) by (simp add: d2_def vtab_put v'_def)
        note po' = evt_dom_okD(2)[OF port(2)]
        have none: "virq_of c = None" "pirq_of c = None" "links_of c = None" "inter_of c = None"
          using port(7) by (simp_all add: virq_of_def pirq_of_def links_of_def inter_of_def)
        have new: "virq_of c' = Some (q, vi)" "pirq_of c' = None" "links_of c' = None" "inter_of c' = None"
          using 4(2) by (auto simp: c'_def virq_of_def pirq_of_def links_of_def inter_of_def)
        have same: "(view g (chan d'))(p := None) = view g (chan d')" if "g c = None" for g :: "evtchn \<Rightarrow> 'z option"
          using that port(6) by (simp add: fun_upd_idem view_def)
        have "ports_ok (chan d2) (vtab d2) (pirq_to_evtchn d')"
          unfolding ports_ok_def ch vt2 view_upd new
        proof (intro conjI allI impI)
          show "virqs_ok ((view virq_of (chan d'))(p \<mapsto> (q, vi))) ((vtab d')(vi \<mapsto> ((virq_to_evtchn v)[q := p], pirq_evtchn_head v)))"
            using virqs_ok_bind[OF ports_okD(3)[OF po'], of vi "virq_to_evtchn v" "pirq_evtchn_head v" q p]
              vt f(2) 4(1) z port(5) none(1) port(6) by (simp add: view_at)
          show "pirqs_ok ((view pirq_of (chan d'))(p := None)) (pirq_to_evtchn d')"
            using ports_okD(4)[OF po'] same[of pirq_of, OF none(2)] by simp
          have "hview ((vtab d')(vi \<mapsto> ((virq_to_evtchn v)[q := p], pirq_evtchn_head v))) = hview (vtab d')"
            using vt f(2) by (auto simp: hview_def fun_eq_iff)
          then show "linked ((view links_of (chan d'))(p := None)) (hview ((vtab d')(vi \<mapsto> ((virq_to_evtchn v)[q := p], pirq_evtchn_head v))))"
            using ports_okD(5)[OF po'] same[of links_of, OF none(3)] by simp
          fix r e assume "((chan d')(p \<mapsto> c')) r = Some e"
          then show "chan_ok ((vtab d')(vi \<mapsto> ((virq_to_evtchn v)[q := p], pirq_evtchn_head v))) r e"
            using ports_okD(2)[OF po', of r e] port(5) by (auto simp: chan_ok_def c'_def split: if_splits)
        qed (use ports_okD(1)[OF po'] in auto)
        then have "evt_dom_ok d2"
          using st port(2) evt_dom_okD(5)[OF port(2)] ch by (auto simp: evt_dom_ok_def d2_def)
        moreover have "view inter_of (chan d2) = view inter_of (chan d')"
          using same[of inter_of, OF none(4)] by (simp add: ch new)
        moreover have "dom_frame d' d2" using port(10) by (simp add: dom_frame_def d2_def)
        ultimately have "dom_step d' d2" by (simp add: dom_step_def)
        then show ?thesis using r evt_guar_upd[OF w] dom_step_trans[OF port(4)] by auto
      qed
    qed
  qed
qed

section \<open>The lists of physical interrupts\<close>

text \<open>A change of links and list heads only.\<close>

definition relink1 :: "evtchn \<Rightarrow> evtchn \<Rightarrow> bool" where
  "relink1 c c' \<longleftrightarrow>
     c' = c \<or> (\<exists>i n r n' r'. chn_state c = ECS_PIRQ i n r \<and> c' = c\<lparr>chn_state := ECS_PIRQ i n' r'\<rparr>)"

definition relinked :: "evt_domain \<Rightarrow> evt_domain \<Rightarrow> bool" where
  "relinked d d' \<longleftrightarrow>
     evt_struct d' \<and> (\<forall>p. rel_option relink1 (chan d p) (chan d' p)) \<and>
     (\<forall>j. map_option (\<lambda>v. v\<lparr>pirq_evtchn_head := 0\<rparr>) (vcpu_at d' j) =
          map_option (\<lambda>v. v\<lparr>pirq_evtchn_head := 0\<rparr>) (vcpu_at d j)) \<and>
     max_vcpus d' = max_vcpus d \<and> ed_dying d' = ed_dying d \<and> ed_hvm d' = ed_hvm d \<and>
     ed_32bit_shinfo d' = ed_32bit_shinfo d \<and> pirq_to_evtchn d' = pirq_to_evtchn d \<and>
     evtchn_pending d' = evtchn_pending d \<and> evtchn_mask d' = evtchn_mask d \<and>
     poll_mask d' = poll_mask d \<and> ed_calls d' = ed_calls d"

lemma relink1_refl [simp]: "relink1 c c"
  by (simp add: relink1_def)

lemma relink1_trans:
  assumes "relink1 a b" "relink1 b c"
  shows "relink1 a c"
proof (cases "b = a \<or> c = b")
  case False
  then obtain i n r n' r' i2 n2 r2 n3 r3 where
    "chn_state a = ECS_PIRQ i n r" "b = a\<lparr>chn_state := ECS_PIRQ i n' r'\<rparr>"
    "chn_state b = ECS_PIRQ i2 n2 r2" "c = b\<lparr>chn_state := ECS_PIRQ i2 n3 r3\<rparr>"
    using assms unfolding relink1_def by blast
  then have "chn_state a = ECS_PIRQ i n r \<and> c = a\<lparr>chn_state := ECS_PIRQ i n3 r3\<rparr>" by simp
  then show ?thesis unfolding relink1_def by blast
qed (use assms in auto)

lemma relink1_views:
  "relink1 c c' \<Longrightarrow> virq_of c' = virq_of c"
  "relink1 c c' \<Longrightarrow> pirq_of c' = pirq_of c"
  "relink1 c c' \<Longrightarrow> inter_of c' = inter_of c"
  "relink1 c c' \<Longrightarrow> notify_vcpu_id c' = notify_vcpu_id c"
  "relink1 c c' \<Longrightarrow> consumer_is_xen c' = consumer_is_xen c"
  "relink1 c c' \<Longrightarrow> plain (chn_state c) \<Longrightarrow> chn_state c' = chn_state c"
  "relink1 c c' \<Longrightarrow> plain (chn_state c') \<Longrightarrow> chn_state c' = chn_state c"
  by (auto simp: relink1_def virq_of_def pirq_of_def inter_of_def plain_def)

lemma relinked_refl: "evt_struct d \<Longrightarrow> relinked d d"
  by (auto simp: relinked_def option.rel_refl)

lemma relinked_chan:
  assumes "relinked d d'"
  shows "chan d p = None \<longleftrightarrow> chan d' p = None"
    and "chan d p = Some c \<Longrightarrow> \<exists>c'. chan d' p = Some c' \<and> relink1 c c'"
    and "chan d' p = Some c' \<Longrightarrow> \<exists>c. chan d p = Some c \<and> relink1 c c'"
  using assms unfolding relinked_def by (metis option.rel_distinct option.rel_sel not_None_eq option.sel)+

lemma relinked_trans:
  assumes a: "relinked d e" and b: "relinked e f"
  shows "relinked d f"
proof -
  have "rel_option relink1 (chan d p) (chan f p)" for p
  proof (cases "chan d p")
    case None
    then have "chan f p = None" using relinked_chan(1)[OF a, of p] relinked_chan(1)[OF b, of p] by simp
    then show ?thesis using None by simp
  next
    case (Some c)
    obtain c1 where c1: "chan e p = Some c1" "relink1 c c1" using relinked_chan(2)[OF a Some] by blast
    obtain c2 where c2: "chan f p = Some c2" "relink1 c1 c2" using relinked_chan(2)[OF b c1(1)] by blast
    show ?thesis using Some c2 relink1_trans[OF c1(2) c2(2)] by simp
  qed
  then show ?thesis using assms unfolding relinked_def by simp
qed

lemma relinked_view:
  assumes "relinked d d'" "\<And>c c'. relink1 c c' \<Longrightarrow> f c' = f c"
  shows "view f (chan d') = view f (chan d)"
proof (rule ext)
  fix p
  show "view f (chan d') p = view f (chan d) p"
  proof (cases "chan d p")
    case None
    then show ?thesis using relinked_chan(1)[OF assms(1), of p] by (simp add: view_def)
  next
    case (Some c)
    then show ?thesis using relinked_chan(2)[OF assms(1) Some] assms(2) by (auto simp: view_def)
  qed
qed

lemma relinked_vcpu:
  assumes "relinked d d'"
  shows "vcpu_at d' j = None \<longleftrightarrow> vcpu_at d j = None"
    and "map_option fst (vtab d' j) = map_option fst (vtab d j)"
proof -
  have e: "map_option (\<lambda>v. v\<lparr>pirq_evtchn_head := 0\<rparr>) (vcpu_at d' j) =
          map_option (\<lambda>v. v\<lparr>pirq_evtchn_head := 0\<rparr>) (vcpu_at d j)" using assms by (simp add: relinked_def)
  then show "vcpu_at d' j = None \<longleftrightarrow> vcpu_at d j = None" by (metis map_option_is_None)
  have "map_option (virq_to_evtchn \<circ> (\<lambda>v. v\<lparr>pirq_evtchn_head := 0\<rparr>)) (vcpu_at d' j) =
      map_option (virq_to_evtchn \<circ> (\<lambda>v. v\<lparr>pirq_evtchn_head := 0\<rparr>)) (vcpu_at d j)"
    using arg_cong[OF e, of "map_option virq_to_evtchn"] by (simp add: option.map_comp)
  then show "map_option fst (vtab d' j) = map_option fst (vtab d j)"
    by (simp add: vtab_def option.map_comp comp_def)
qed

lemma virqs_ok_heads:
  assumes v: "virqs_ok vv vt" and e: "\<And>j. map_option fst (vt' j) = map_option fst (vt j)"
  shows "virqs_ok vv vt'"
proof -
  have up: "\<exists>h. vt j = Some (vl, h)" if "vt' j = Some (vl, h')" for j vl h'
    using e[of j] that by (cases "vt j") auto
  have down: "\<exists>h. vt' j = Some (vl, h)" if "vt j = Some (vl, h')" for j vl h'
    using e[of j] that by (cases "vt' j") auto
  show ?thesis
    unfolding virqs_ok_def
  proof (intro conjI allI impI)
    fix j vl h assume "vt' j = Some (vl, h)"
    then obtain h' where h': "vt j = Some (vl, h')" using up by blast
    then show "length vl = NR_VIRQS" using v unfolding virqs_ok_def by blast
    show "vv (vl ! q) = Some (q, j)" if "q < NR_VIRQS" "vl ! q \<noteq> 0" for q
      using v h' that unfolding virqs_ok_def by blast
  next
    fix p q j assume a: "vv p = Some (q, j)"
    then show "p \<noteq> 0" "q < NR_VIRQS" using v unfolding virqs_ok_def by blast+
    obtain vl h where "vt j = Some (vl, h)" "vl ! q = p" using v a unfolding virqs_ok_def by blast
    then show "\<exists>vl h. vt' j = Some (vl, h) \<and> vl ! q = p" using down by blast
  qed
qed

text \<open>The invariant of a domain apart from the links.\<close>

definition dom_base :: "evt_domain \<Rightarrow> bool" where
  "dom_base d \<longleftrightarrow>
     evt_struct d \<and> vtab d 0 \<noteq> None \<and> (\<forall>p c. chan d p = Some c \<longrightarrow> chan_ok (vtab d) p c) \<and>
     virqs_ok (view virq_of (chan d)) (vtab d) \<and> pirqs_ok (view pirq_of (chan d)) (pirq_to_evtchn d) \<and>
     max_vcpus d \<le> 65536 \<and> nr_pirqs d \<le> 65536 \<and>
     (\<forall>j<max_vcpus d. poll_mask d j \<longrightarrow> vcpu_at d j \<noteq> None) \<and>
     (\<not> ed_dying d \<longrightarrow> chan d 0 \<noteq> None)"

lemma evt_dom_ok_base: "evt_dom_ok d \<longleftrightarrow> dom_base d \<and> linked (view links_of (chan d)) (hview (vtab d))"
  by (auto simp: evt_dom_ok_def dom_base_def ports_ok_def)

lemma dom_baseD:
  assumes "dom_base d"
  shows "evt_struct d" "vtab d 0 \<noteq> None" "chan d p = Some c \<Longrightarrow> chan_ok (vtab d) p c"
    "virqs_ok (view virq_of (chan d)) (vtab d)" "pirqs_ok (view pirq_of (chan d)) (pirq_to_evtchn d)"
    "max_vcpus d \<le> 65536" "nr_pirqs d \<le> 65536"
    "j < max_vcpus d \<Longrightarrow> poll_mask d j \<Longrightarrow> vcpu_at d j \<noteq> None" "\<not> ed_dying d \<Longrightarrow> chan d 0 \<noteq> None"
  using assms by (auto simp: dom_base_def)

text \<open>After a change of links only the links have to be checked again.\<close>

lemma relinked_ports:
  assumes r: "relinked d d'" and o: "dom_base d"
  shows "virqs_ok (view virq_of (chan d')) (vtab d')" "pirqs_ok (view pirq_of (chan d')) (pirq_to_evtchn d)"
    "view inter_of (chan d') = view inter_of (chan d)" "vtab d' 0 \<noteq> None"
    "chan d' p = Some c' \<Longrightarrow> chan_ok (vtab d') p c'"
proof -
  have v: "view virq_of (chan d') = view virq_of (chan d)" "view pirq_of (chan d') = view pirq_of (chan d)"
    using relinked_view[OF r] relink1_views by blast+
  show "virqs_ok (view virq_of (chan d')) (vtab d')"
    unfolding v by (rule virqs_ok_heads[OF dom_baseD(4)[OF o] relinked_vcpu(2)[OF r]])
  show "pirqs_ok (view pirq_of (chan d')) (pirq_to_evtchn d)" unfolding v by (rule dom_baseD(5)[OF o])
  show "view inter_of (chan d') = view inter_of (chan d)"
    using relinked_view[OF r] relink1_views(3) by blast
  have n: "vtab d' j = None \<longleftrightarrow> vtab d j = None" for j using relinked_vcpu(1)[OF r] by (simp add: vtab_None)
  show "vtab d' 0 \<noteq> None" using n[of 0] dom_baseD(2)[OF o] by simp
  assume "chan d' p = Some c'"
  from relinked_chan(3)[OF r this] obtain c where c: "chan d p = Some c" "relink1 c c'" by blast
  note k = dom_baseD(3)[OF o c(1)] relink1_views[OF c(2)]
  have "chn_state c' = ECS_FREE \<Longrightarrow> chn_state c = ECS_FREE" using k(8) by simp
  moreover have "p = 0 \<Longrightarrow> chn_state c' = ECS_RESERVED" using k(1,7) by (simp add: chan_ok_def)
  ultimately show "chan_ok (vtab d') p c'" using k n by (auto simp: chan_ok_def)
qed

lemma relinked_frame: "relinked d d' \<Longrightarrow> dom_frame d d'"
proof -
  assume r: "relinked d d'"
  have "chn_state c' = chn_state c" if "chan d p = Some c" "chan d' p = Some c'" "chn_state c \<in> {ECS_FREE, ECS_RESERVED}" for p c c'
  proof -
    have "relink1 c c'" using relinked_chan(2)[OF r that(1)] that(2) by auto
    moreover have "plain (chn_state c)" using that(3) by auto
    ultimately show ?thesis by (rule relink1_views(6))
  qed
  moreover have "ed_dying d' = ed_dying d" "ed_32bit_shinfo d' = ed_32bit_shinfo d"
    using r unfolding relinked_def by blast+
  moreover have "chan d' p = None \<longleftrightarrow> chan d p = None" for p using relinked_chan(1)[OF r, of p] by simp
  ultimately show ?thesis unfolding dom_frame_def by blast
qed

text \<open>Stores of one link.\<close>

lemma links_view_Some:
  "view links_of (chan d) p = Some (n, r, v) \<longleftrightarrow>
     (\<exists>c i. chan d p = Some c \<and> chn_state c = ECS_PIRQ i n r \<and> notify_vcpu_id c = v)"
  by (cases "chan d p") (auto simp: view_def links_of_def split: evtchn_state.splits)

lemma relink_put:
  assumes s: "evt_struct d" and c: "chan d p = Some c" "chn_state c = ECS_PIRQ i n r"
  shows "relinked d (put_evtchn p (c\<lparr>chn_state := ECS_PIRQ i n' r'\<rparr>) d)"
    and "view links_of (chan (put_evtchn p (c\<lparr>chn_state := ECS_PIRQ i n' r'\<rparr>) d)) =
      (view links_of (chan d))(p \<mapsto> (n', r', notify_vcpu_id c))"
    and "vtab (put_evtchn p (c\<lparr>chn_state := ECS_PIRQ i n' r'\<rparr>) d) = vtab d"
proof -
  note st = put_evtchn_struct[OF s, of p "c\<lparr>chn_state := ECS_PIRQ i n' r'\<rparr>"]
  show "relinked d (put_evtchn p (c\<lparr>chn_state := ECS_PIRQ i n' r'\<rparr>) d)"
    using st c by (auto simp: relinked_def relink1_def option.rel_refl)
  show "view links_of (chan (put_evtchn p (c\<lparr>chn_state := ECS_PIRQ i n' r'\<rparr>) d)) =
      (view links_of (chan d))(p \<mapsto> (n', r', notify_vcpu_id c))"
    using st(2) c by (simp add: links_of_def)
qed simp

lemma set_prev_port_ok:
  assumes s: "evt_struct d" and l: "view links_of (chan d) p = Some (n, r, v)"
  shows "\<exists>d'. set_prev_port p x d = Inr d' \<and> relinked d d' \<and> vtab d' = vtab d \<and>
    view links_of (chan d') = (view links_of (chan d))(p \<mapsto> (n, x, v)) \<and> vcpu_at d' = vcpu_at d"
proof -
  obtain c i where c: "chan d p = Some c" "chn_state c = ECS_PIRQ i n r" "notify_vcpu_id c = v"
    using l links_view_Some by blast
  then show ?thesis using relink_put[OF s c(1,2), of n x] by (simp add: set_prev_port_def evtchn_from_port_Some)
qed

lemma set_next_port_ok:
  assumes s: "evt_struct d" and l: "view links_of (chan d) p = Some (n, r, v)"
  shows "\<exists>d'. set_next_port p x d = Inr d' \<and> relinked d d' \<and> vtab d' = vtab d \<and>
    view links_of (chan d') = (view links_of (chan d))(p \<mapsto> (x, r, v)) \<and> vcpu_at d' = vcpu_at d"
proof -
  obtain c i where c: "chan d p = Some c" "chn_state c = ECS_PIRQ i n r" "notify_vcpu_id c = v"
    using l links_view_Some by blast
  then show ?thesis using relink_put[OF s c(1,2), of x r] by (simp add: set_next_port_def evtchn_from_port_Some)
qed

lemma relinked_head:
  assumes "evt_struct d" "vcpu_at d i = Some v"
  shows "relinked d (put_vcpu i (v\<lparr>pirq_evtchn_head := h\<rparr>) d)"
    and "hview (vtab (put_vcpu i (v\<lparr>pirq_evtchn_head := h\<rparr>) d)) = (hview (vtab d))(i := h)"
  using assms vcpu_at_less[OF assms(2)]
  by (auto simp: relinked_def option.rel_refl vtab_put hview_def fun_eq_iff)

lemma relinked_struct: "relinked d d' \<Longrightarrow> evt_struct d'"
  by (simp add: relinked_def)

lemma unlink_pirq_port_ok:
  assumes s: "evt_struct d" and l: "linked (view links_of (chan d)) (hview (vtab d))"
    and p: "view links_of (chan d) p = Some (n, r, vid)" and v: "vcpu_at d vid = Some v"
  shows "\<exists>d'. unlink_pirq_port p vid d = Inr d' \<and> relinked d d' \<and>
    view links_of (chan d') = set_prev n r (set_next r n (view links_of (chan d))) \<and>
    hview (vtab d') = (if r = 0 then (hview (vtab d))(vid := n) else hview (vtab d))"
proof -
  note D = linkedD[OF l]
  obtain c i where c: "chan d p = Some c" "chn_state c = ECS_PIRQ i n r" using p links_view_Some by blast
  obtain d1 where d1: "(if r \<noteq> 0 then set_next_port r n d else Inr (put_vcpu vid (v\<lparr>pirq_evtchn_head := n\<rparr>) d)) = Inr d1"
    and r1: "relinked d d1" and l1: "view links_of (chan d1) = set_next r n (view links_of (chan d))"
    and h1: "hview (vtab d1) = (if r = 0 then (hview (vtab d))(vid := n) else hview (vtab d))"
  proof (cases "r = 0")
    case True
    then show ?thesis using that relinked_head[OF s v, of n] by (simp add: set_next_def)
  next
    case False
    then obtain r' where r': "view links_of (chan d) r = Some (p, r', vid)" using D(4)[OF p] by blast
    from set_next_port_ok[OF s r', of n] obtain e where "set_next_port r n d = Inr e" "relinked d e" "vtab e = vtab d"
      "view links_of (chan e) = (view links_of (chan d))(r \<mapsto> (n, r', vid))" by blast
    then show ?thesis using that[of e] False r' by (simp add: set_next_def)
  qed
  obtain d2 where d2: "(if n \<noteq> 0 then set_prev_port n r d1 else Inr d1) = Inr d2"
    and r2: "relinked d1 d2" and l2: "view links_of (chan d2) = set_prev n r (view links_of (chan d1))"
    and h2: "vtab d2 = vtab d1"
  proof (cases "n = 0")
    case True
    then show ?thesis using that[of d1] relinked_refl[OF relinked_struct[OF r1]] by (simp add: set_prev_def)
  next
    case False
    then obtain n' where n': "view links_of (chan d) n = Some (n', p, vid)" using D(2)[OF p] by blast
    have "view links_of (chan d1) n = Some (if n = r then n else n', p, vid)"
      using n' False unfolding l1 set_next_def by auto
    then obtain n'' where n'': "view links_of (chan d1) n = Some (n'', p, vid)" by blast
    from set_prev_port_ok[OF relinked_struct[OF r1] n'', of r] obtain e where "set_prev_port n r d1 = Inr e" "relinked d1 e"
      "vtab e = vtab d1" "view links_of (chan e) = (view links_of (chan d1))(n \<mapsto> (n'', r, vid))" by blast
    then show ?thesis using that[of e] False n'' by (simp add: set_prev_def)
  qed
  have "unlink_pirq_port p vid d = Inr d2"
    using v c d1 d2 by (simp add: unlink_pirq_port_def evtchn_from_port_Some)
  then show ?thesis using relinked_trans[OF r1 r2] l1 l2 h1 h2 by auto
qed

lemma link_pirq_port_ok:
  assumes s: "evt_struct d" and p: "view links_of (chan d) p = Some (n, r, vid)" "p \<noteq> 0"
    and l: "linked ((view links_of (chan d))(p := None)) (hview (vtab d))" and v: "vcpu_at d vid = Some v"
  shows "\<exists>d'. link_pirq_port p vid d = Inr d' \<and> relinked d d' \<and> linked (view links_of (chan d')) (hview (vtab d'))"
proof -
  define L where "L = (view links_of (chan d))(p := None)"
  define h where "h = pirq_evtchn_head v"
  have hv: "hview (vtab d) vid = h" using v by (simp add: hview_def vtab_def h_def)
  obtain cp where "chan d p = Some cp" using p(1) links_view_Some by blast
  then have p16: "p < 65536" using chan_bound'[OF s] by fastforce
  have h16: "h < 65536" and hp: "h \<noteq> 0 \<Longrightarrow> \<exists>n'. view links_of (chan d) h = Some (n', 0, vid) \<and> h \<noteq> p"
  proof -
    show hp: "\<exists>n'. view links_of (chan d) h = Some (n', 0, vid) \<and> h \<noteq> p" if "h \<noteq> 0"
      using linkedD(5)[OF l, of vid] that hv by (auto split: if_splits)
    show "h < 65536"
    proof (cases "h = 0")
      case False
      then obtain c where "chan d h = Some c" using hp links_view_Some by blast
      then show ?thesis using chan_bound'[OF s] by fastforce
    qed simp
  qed
  from set_prev_port_ok[OF s p(1), of 0] obtain d1 where d1: "set_prev_port p 0 d = Inr d1" "relinked d d1" "vtab d1 = vtab d"
    "view links_of (chan d1) = (view links_of (chan d))(p \<mapsto> (n, 0, vid))" "vcpu_at d1 = vcpu_at d" by blast
  have "view links_of (chan d1) p = Some (n, 0, vid)" by (simp add: d1(4))
  from set_next_port_ok[OF relinked_struct[OF d1(2)] this, of h] obtain d2 where d2: "set_next_port p h d1 = Inr d2" "relinked d1 d2" "vtab d2 = vtab d1"
    "view links_of (chan d2) = (view links_of (chan d1))(p \<mapsto> (h, 0, vid))" "vcpu_at d2 = vcpu_at d1" by blast
  have l2: "view links_of (chan d2) = L(p \<mapsto> (h, 0, vid))" by (simp add: d2(4) d1(4) L_def)
  obtain d3 where d3: "(if h \<noteq> 0 then set_prev_port h p d2 else Inr d2) = Inr d3" "relinked d2 d3" "vtab d3 = vtab d2"
    "view links_of (chan d3) = (set_prev h p L)(p \<mapsto> (h, 0, vid))" "vcpu_at d3 = vcpu_at d2"
  proof (cases "h = 0")
    case True
    then show ?thesis using that[of d2] relinked_refl[OF relinked_struct[OF d2(2)]] l2 by (simp add: set_prev_def)
  next
    case False
    then obtain n' where n': "view links_of (chan d) h = Some (n', 0, vid)" "h \<noteq> p" using hp by blast
    then have "view links_of (chan d2) h = Some (n', 0, vid)" by (simp add: l2 L_def)
    from set_prev_port_ok[OF relinked_struct[OF d2(2)] this, of p] obtain e where "set_prev_port h p d2 = Inr e" "relinked d2 e"
      "vtab e = vtab d2" "view links_of (chan e) = (view links_of (chan d2))(h \<mapsto> (n', p, vid))" "vcpu_at e = vcpu_at d2" by blast
    then show ?thesis using that[of e] False n' l2 by (auto simp: set_prev_def L_def fun_eq_iff)
  qed
  have v3: "vcpu_at d3 vid = Some v" using d3(5) d2(5) d1(5) v by simp
  note h4 = relinked_head[OF relinked_struct[OF d3(2)] v3, of p]
  have "link_pirq_port p vid d = Inr (put_vcpu vid (v\<lparr>pirq_evtchn_head := p\<rparr>) d3)"
    using v d1(1) d2(1) d3(1) p16 h16 by (auto simp: link_pirq_port_def h_def[symmetric] split: if_splits)
  moreover have "relinked d (put_vcpu vid (v\<lparr>pirq_evtchn_head := p\<rparr>) d3)"
    using relinked_trans d1(2) d2(2) d3(2) h4(1) by blast
  moreover have "linked (view links_of (chan (put_vcpu vid (v\<lparr>pirq_evtchn_head := p\<rparr>) d3))) (hview (vtab (put_vcpu vid (v\<lparr>pirq_evtchn_head := p\<rparr>) d3)))"
    unfolding h4(2) using linked_link[OF l p(2), of vid] hv d1(3) d2(3) d3(3,4) by (simp add: L_def)
  ultimately show ?thesis by blast
qed

text \<open>Putting the parts of the invariant together after a change of links.\<close>

lemma relinked_base:
  assumes d: "dom_base d" and r: "relinked d d'"
  shows "dom_base d'"
proof -
  note P = relinked_ports[OF r d]
  have f: "pirq_to_evtchn d' = pirq_to_evtchn d" "max_vcpus d' = max_vcpus d" "poll_mask d' = poll_mask d" "ed_dying d' = ed_dying d"
    using r unfolding relinked_def by blast+
  show ?thesis
    using dom_baseD(6-)[OF d] relinked_struct[OF r] relinked_vcpu(1)[OF r] relinked_chan(1)[OF r, of 0] P
    unfolding dom_base_def f by auto
qed

lemma relinked_dom_step:
  assumes d: "dom_base d" and r: "relinked d d'" and l: "linked (view links_of (chan d')) (hview (vtab d'))"
  shows "dom_step d d'"
  using relinked_base[OF d r] l relinked_ports(3)[OF r d] relinked_frame[OF r]
  by (simp add: dom_step_def evt_dom_ok_base)

lemma evtchn_bind_pirq_ok:
  assumes w: "evt_wf w" "w (current_domain env) = Some d" and x: "xsm_allocates env"
  shows "runs3 (evtchn_bind_pirq env bind w) w"
proof -
  have ok: "evt_dom_ok d" using evt_wfD(1)[OF w] .
  have refl: "evt_guar w w" using evt_guar_refl[OF w(1)] .
  define di q where "di = current_domain env" and "q = unat (bq_pirq bind)"
  note defs = evtchn_bind_pirq_def q_def[symmetric] Let_def
  show ?thesis
  proof (cases "q < nr_pirqs d \<and> (ed_hvm d \<or> irq_access_permitted env di q) \<and> pirq_to_evtchn d ! q = 0")
    case False
    then show ?thesis using w refl by (auto simp: defs di_def)
  next
    case True
    then have q: "q < nr_pirqs d" "ed_hvm d \<or> irq_access_permitted env di q" "pirq_to_evtchn d ! q = 0" by auto
    have u: "to_u16 q = q" using q(1) evt_dom_okD(4)[OF ok] by simp
    from ok x show ?thesis
    proof (cases rule: get_free_portE)
      case (err e)
      then show ?thesis using w q evt_guar_upd[OF w dom_step_refl[OF ok]] by (auto simp: defs di_def)
    next
      case (port p d' c)
      note f = grown_fields[OF port(3)]
      note s' = evt_dom_okD(1)[OF port(2)]
      define rc where "rc = (if \<not> ed_hvm d' then pirq_guest_bind env di q (bq_flags bind AND BIND_PIRQ__WILL_SHARE \<noteq> 0) else 0)"
      show ?thesis
      proof (cases "rc = 0")
        case False
        have "d'\<lparr>pirq_to_evtchn := (pirq_to_evtchn d')[q := 0]\<rparr> = d'"
          using q(3) f(6) by (simp add: list_update_same_conv q(1))
        then have "evtchn_bind_pirq env bind w = Inr (rc, bind, w(di \<mapsto> d'))"
          using w q port(1,6) False by (auto simp: defs di_def rc_def evtchn_from_port_Some)
        then show ?thesis using evt_guar_upd[OF w port(4)] by (simp add: di_def)
      next
        case rc0: True
        define c1 where "c1 = c\<lparr>chn_state := ECS_PIRQ q 0 0\<rparr>"
        define d1 where "d1 = put_evtchn p c1 (d'\<lparr>pirq_to_evtchn := (pirq_to_evtchn d')[q := p]\<rparr>)"
        have st: "evt_struct d1" and ch: "chan d1 = (chan d')(p \<mapsto> c1)"
          using put_evtchn_struct[of "d'\<lparr>pirq_to_evtchn := (pirq_to_evtchn d')[q := p]\<rparr>" p] s' port(6) by (simp_all add: d1_def)
        have new: "virq_of c1 = None" "pirq_of c1 = Some q" "links_of c1 = Some (0, 0, 0)" "inter_of c1 = None"
          using port(8) by (auto simp: c1_def virq_of_def pirq_of_def links_of_def inter_of_def)
        have none: "virq_of c = None" "pirq_of c = None" "links_of c = None" "inter_of c = None"
          using port(7) by (simp_all add: virq_of_def pirq_of_def links_of_def inter_of_def)
        have same: "(view g (chan d'))(p := None) = view g (chan d')" if "g c = None" for g :: "evtchn \<Rightarrow> 'z option"
          using that port(6) by (simp add: fun_upd_idem view_def)
        have bd': "dom_base d'" using port(2) by (simp add: evt_dom_ok_base)
        have pq: "pirqs_ok ((view pirq_of (chan d'))(p \<mapsto> q)) ((pirq_to_evtchn d')[q := p])"
          using pirqs_ok_bind[OF dom_baseD(5)[OF bd'], of q p] q f(6) port(5,6) none(2) by (simp add: view_at)
        have ck: "chan_ok (vtab d') r e" if "((chan d')(p \<mapsto> c1)) r = Some e" for r e
          using that dom_baseD(3)[OF bd', of r e] dom_baseD(2)[OF bd'] port(5,8) by (auto simp: chan_ok_def c1_def split: if_splits)
        have base: "dom_base d1"
          using bd' st pq ck same[of virq_of, OF none(1)] unfolding dom_base_def ch view_upd new
          by (auto simp: d1_def)
        have "view links_of (chan d1) p = Some (0, 0, 0)" by (simp add: ch new)
        moreover have "linked ((view links_of (chan d1))(p := None)) (hview (vtab d1))"
        proof -
          have "vtab d1 = vtab d'" by (simp add: d1_def)
          then show ?thesis using port(2) same[of links_of, OF none(3)] by (simp add: ch evt_dom_ok_base)
        qed
        moreover obtain v where "vcpu_at d1 0 = Some v" using vcpu0[OF port(2)] by (auto simp: d1_def)
        ultimately obtain d2 where d2: "link_pirq_port p 0 d1 = Inr d2" "relinked d1 d2" "linked (view links_of (chan d2)) (hview (vtab d2))"
          using link_pirq_port_ok[OF st _ port(5)] by blast
        have s2: "dom_step d1 d2" using relinked_dom_step[OF base d2(2,3)] .
        define d3 where "d3 = (if ed_hvm d2 \<and> domain_pirq_to_irq env di q > 0 then log_call (Call_map_emuirq q) d2 else d2)"
        have s3: "dom_step d2 d3"
          using s2 by (intro keeps_ports_step) (auto simp: dom_step_def d3_def keeps_ports_def)
        have "view inter_of (chan d1) = view inter_of (chan d')"
          using same[of inter_of, OF none(4)] by (simp add: ch new)
        moreover have "dom_frame d' d1" using port(10) by (simp add: dom_frame_def d1_def)
        ultimately have "dom_step d' d3" using dom_step_trans[OF s2 s3] dom_frame_trans by (auto simp: dom_step_def)
        moreover have "evtchn_bind_pirq env bind w = Inr (0, bind\<lparr>bq_port := of_nat p\<rparr>, w(di \<mapsto> d3))"
          using w q port(1,6,11) rc0 u d2(1) by (auto simp: defs di_def rc_def evtchn_from_port_Some d1_def c1_def d3_def)
        ultimately show ?thesis using evt_guar_upd[OF w dom_step_trans[OF port(4)]] by (simp add: di_def)
      qed
    qed
  qed
qed

section \<open>Closing\<close>

definition freed :: "evtchn \<Rightarrow> evtchn" where
  "freed c = c\<lparr>chn_state := ECS_FREE, notify_vcpu_id := 0\<rparr>"

lemma freed_views [simp]:
  "virq_of (freed c) = None" "pirq_of (freed c) = None" "links_of (freed c) = None" "inter_of (freed c) = None"
  "chn_state (freed c) = ECS_FREE" "notify_vcpu_id (freed c) = 0" "consumer_is_xen (freed c) = consumer_is_xen c"
  by (simp_all add: freed_def virq_of_def pirq_of_def links_of_def inter_of_def)

lemma close_finish_ok:
  assumes "evt_struct d" "chan d p = Some c"
  shows "\<exists>d'. close_finish p d = Inr d' \<and> chan d' = (chan d)(p \<mapsto> freed c) \<and> evt_struct d' \<and>
    d' = (put_evtchn p (freed c) d)\<lparr>evtchn_pending := (evtchn_pending d)(p := False)\<rparr>"
proof -
  have "close_finish p d = Inr (put_evtchn p (freed c) (d\<lparr>evtchn_pending := (evtchn_pending d)(p := False)\<rparr>))"
    using assms by (simp add: close_finish_def evtchn_from_port_Some freed_def)
  moreover have "put_evtchn p (freed c) (d\<lparr>evtchn_pending := e\<rparr>) = (put_evtchn p (freed c) d)\<lparr>evtchn_pending := e\<rparr>" for e
    by (simp add: put_evtchn_def bucket_from_port_def split: bucket.splits)
  ultimately show ?thesis using put_evtchn_struct[OF assms(1), of p "freed c"] assms(2) by simp
qed

text \<open>The result of closing a port in a domain, whatever it was bound to.\<close>

definition closed_port :: "nat \<Rightarrow> evt_domain \<Rightarrow> evt_domain \<Rightarrow> bool" where
  "closed_port p d d' \<longleftrightarrow>
     (\<exists>c. chan d' p = Some c \<and> chn_state c = ECS_FREE) \<and>
     evtchn_pending d' = (evtchn_pending d)(p := False)"

lemma close_plain_ok:
  assumes d: "evt_dom_ok d" and c: "chan d p = Some c" "plain (chn_state c)" "chn_state c \<notin> {ECS_FREE, ECS_RESERVED}" "\<not> consumer_is_xen c"
  shows "\<exists>d'. close_finish p d = Inr d' \<and> dom_step d d' \<and> closed_port p d d'"
proof -
  from close_finish_ok[OF evt_dom_okD(1)[OF d] c(1)] obtain d' where
    d': "close_finish p d = Inr d'" "chan d' = (chan d)(p \<mapsto> freed c)"
      "d' = (put_evtchn p (freed c) d)\<lparr>evtchn_pending := (evtchn_pending d)(p := False)\<rparr>" by blast
  have "p \<noteq> 0" using ports_okD(2)[OF evt_dom_okD(2)[OF d] c(1)] c by (auto simp: chan_ok_def)
  then have "dom_step d (put_evtchn p (freed c) d)"
    using put_plain_step[OF d c(1,2), of "freed c"] c ports_okD(1)[OF evt_dom_okD(2)[OF d]] by (auto simp: chan_ok_def)
  moreover have "dom_step (put_evtchn p (freed c) d) d'"
    using calculation by (intro keeps_ports_step) (simp_all add: dom_step_def d'(3) keeps_ports_def)
  ultimately show ?thesis using d' dom_step_trans by (auto simp: closed_port_def)
qed

text \<open>The loop over the virtual processors clears every table entry that names the port.\<close>

definition drop_virq :: "nat \<Rightarrow> nat \<Rightarrow> evt_vcpu \<Rightarrow> evt_vcpu" where
  "drop_virq q p v = (if virq_to_evtchn v ! q = p then v\<lparr>virq_to_evtchn := (virq_to_evtchn v)[q := 0]\<rparr> else v)"

lemma close_virq_ok:
  assumes len: "\<And>j v. vcpu_at d j = Some v \<Longrightarrow> q < length (virq_to_evtchn v)"
  shows "\<exists>d'. close_virq q p d = Inr d' \<and> (\<forall>j. vcpu_at d' j = map_option (drop_virq q p) (vcpu_at d j)) \<and>
    max_vcpus d' = max_vcpus d \<and> d' = d\<lparr>ed_vcpu := ed_vcpu d'\<rparr>"
proof -
  define P where "P = (\<lambda>i s. max_vcpus s = max_vcpus d \<and> s = d\<lparr>ed_vcpu := ed_vcpu s\<rparr> \<and>
    (\<forall>j. vcpu_at s j = (if j < i then map_option (drop_virq q p) (vcpu_at d j) else vcpu_at d j)))"
  have "\<exists>d'. close_virq q p d = Inr d' \<and> P (max_vcpus d) d'"
    unfolding close_virq_def
  proof (rule for_loop_range)
    show "P 0 d" by (simp add: P_def)
    fix i s
    assume i: "i < max_vcpus d" and P: "P i s"
    have e: "ed_vcpu s ! i = vcpu_at d i"
    proof -
      have "vcpu_at s i = vcpu_at d i" using P by (simp add: P_def)
      then show ?thesis using P i by (simp add: vcpu_at_def P_def)
    qed
    show "\<exists>s'. (case ed_vcpu s ! i of None \<Rightarrow> Inr s
         | Some v \<Rightarrow> bindR (arr_get (virq_to_evtchn v) q) (\<lambda>r. if r \<noteq> p then Inr s
             else Inr (put_vcpu i (v\<lparr>virq_to_evtchn := (virq_to_evtchn v)[q := 0]\<rparr>) s))) = Inr s' \<and> P (Suc i) s'"
    proof (cases "vcpu_at d i")
      case None
      then show ?thesis using P e by (auto simp: P_def less_Suc_eq)
    next
      case (Some v)
      define s' where "s' = (if virq_to_evtchn v ! q = p then put_vcpu i (drop_virq q p v) s else s)"
      have pv: "put_vcpu i x s = d\<lparr>ed_vcpu := ed_vcpu (put_vcpu i x s)\<rparr>" for x
      proof -
        have "s = d\<lparr>ed_vcpu := ed_vcpu s\<rparr>" using P by (simp add: P_def)
        then show ?thesis unfolding put_vcpu_def by (metis evt_domain.select_convs(2) evt_domain.surjective evt_domain.update_convs(2))
      qed
      have "P (Suc i) s'"
        using P Some i pv by (auto simp: P_def s'_def drop_virq_def less_Suc_eq)
      then show ?thesis using e Some len[OF Some] by (auto simp: s'_def drop_virq_def)
    qed
  qed
  then obtain d' where d': "close_virq q p d = Inr d'" "P (max_vcpus d) d'" by blast
  have "vcpu_at d' j = map_option (drop_virq q p) (vcpu_at d j)" for j
  proof -
    have "vcpu_at d' j = (if j < max_vcpus d then map_option (drop_virq q p) (vcpu_at d j) else vcpu_at d j)"
      using d'(2) by (simp add: P_def)
    moreover have "\<not> j < max_vcpus d \<Longrightarrow> vcpu_at d j = None" by (simp add: vcpu_at_def)
    ultimately show ?thesis by (cases "j < max_vcpus d") simp_all
  qed
  then show ?thesis using d' by (auto simp: P_def)
qed

lemma ed_vcpu_upd_cong [simp]:
  "chan (d\<lparr>ed_vcpu := x\<rparr>) = chan d"
  "evt_struct (d\<lparr>ed_vcpu := x\<rparr>) = evt_struct d"
  by (simp_all add: chan_def evtchn_from_port_def fun_eq_iff evt_struct_def MAX_EVTCHNS_def
      BITS_PER_EVTCHN_WORD_def cong: bucket.case_cong)

lemma close_virq_port_ok:
  assumes d: "evt_dom_ok d" and c: "chan d p = Some c" "chn_state c = ECS_VIRQ q" "\<not> consumer_is_xen c"
  shows "\<exists>d1 d'. close_virq q p d = Inr d1 \<and> chan d1 = chan d \<and> close_finish p d1 = Inr d' \<and> dom_step d d' \<and> closed_port p d d' \<and>
    (\<forall>j v. vcpu_at d' j = Some v \<longrightarrow> virq_to_evtchn v ! q \<noteq> p)"
proof -
  note po = evt_dom_okD(2)[OF d]
  define i where "i = (if virq_global q then 0 else notify_vcpu_id c)"
  have vv: "view virq_of (chan d) p = Some (q, i)" using c by (simp add: view_at virq_of_def i_def)
  have p0: "p \<noteq> 0" and q: "q < 24" using ports_okD(3)[OF po] vv unfolding virqs_ok_def const_nat by blast+
  have len: "length (virq_to_evtchn v) = 24" if "vcpu_at d j = Some v" for j v
  proof -
    have "vtab d j = Some (virq_to_evtchn v, pirq_evtchn_head v)" using that by (simp add: vtab_def)
    then show ?thesis using ports_okD(3)[OF po] unfolding virqs_ok_def const_nat by blast
  qed
  have "\<exists>d'. close_virq q p d = Inr d' \<and> (\<forall>j. vcpu_at d' j = map_option (drop_virq q p) (vcpu_at d j)) \<and>
      max_vcpus d' = max_vcpus d \<and> d' = d\<lparr>ed_vcpu := ed_vcpu d'\<rparr>"
    by (rule close_virq_ok) (use len q in simp)
  then obtain d1 where d1: "close_virq q p d = Inr d1"
    "\<And>j. vcpu_at d1 j = map_option (drop_virq q p) (vcpu_at d j)" "max_vcpus d1 = max_vcpus d" "d1 = d\<lparr>ed_vcpu := ed_vcpu d1\<rparr>" by blast
  define x where "x = ed_vcpu d1"
  have d1x: "d1 = d\<lparr>ed_vcpu := x\<rparr>" using d1(4) x_def by simp
  have ch1: "chan d1 = chan d" and st1: "evt_struct d1"
    using evt_dom_okD(1)[OF d] unfolding d1x by simp_all
  from close_finish_ok[OF st1, of p c] c ch1 obtain d' where d': "close_finish p d1 = Inr d'" "chan d' = (chan d)(p \<mapsto> freed c)" "evt_struct d'"
    "d' = (put_evtchn p (freed c) d1)\<lparr>evtchn_pending := (evtchn_pending d1)(p := False)\<rparr>" by auto
  have vt: "vtab d' = (\<lambda>j. map_option (\<lambda>(vl, h). (if vl ! q = p then vl[q := 0] else vl, h)) (vtab d j))"
    by (auto simp: d'(4) vtab_def d1(2) option.map_comp comp_def drop_virq_def fun_eq_iff intro!: option.map_cong0)
  have hv: "hview (vtab d') = hview (vtab d)"
    by (auto simp: vt hview_def fun_eq_iff split: option.splits)
  have same: "(view g (chan d))(p := None) = view g (chan d)" if "g c = None" for g :: "evtchn \<Rightarrow> 'z option"
    using that c(1) by (simp add: fun_upd_idem view_def)
  have none: "pirq_of c = None" "links_of c = None" "inter_of c = None"
    using c(2) by (simp_all add: pirq_of_def links_of_def)
  have n: "vtab d' j = None \<longleftrightarrow> vtab d j = None" for j by (simp add: vt)
  have ck: "chan_ok (vtab d') r e" if "((chan d)(p \<mapsto> freed c)) r = Some e" for r e
  proof (cases "r = p")
    case True
    then show ?thesis using that c p0 ports_okD(1)[OF po] n by (auto simp: chan_ok_def)
  next
    case False
    then show ?thesis using that ports_okD(2)[OF po, of r e] n by (auto simp: chan_ok_def)
  qed
  have "ports_ok (chan d') (vtab d') (pirq_to_evtchn d)"
    unfolding ports_ok_def hv d'(2) view_upd freed_views
    using virqs_ok_close[OF ports_okD(3)[OF po] vv] ports_okD(1,4,5)[OF po] ck n[of 0]
      same[of pirq_of, OF none(1)] same[of links_of, OF none(2)] by (simp add: vt[symmetric])
  moreover have f: "max_vcpus d' = max_vcpus d" "pirq_to_evtchn d' = pirq_to_evtchn d" "poll_mask d' = poll_mask d"
    "ed_dying d' = ed_dying d"
    using d1(3) by (simp_all add: d'(4) d1x)
  moreover have "vcpu_at d' j = None \<longleftrightarrow> vcpu_at d j = None" for j using n[of j] by (simp add: vtab_None)
  moreover have "chan d' 0 = None \<longleftrightarrow> chan d 0 = None" using c(1) by (auto simp add: d'(2))
  ultimately have "evt_dom_ok d'"
    using evt_dom_okD(3-)[OF d] d'(3) unfolding evt_dom_ok_def by auto
  moreover have "view inter_of (chan d') = view inter_of (chan d)"
    using same[of inter_of, OF none(3)] by (simp add: d'(2))
  moreover have "dom_frame d d'"
    using c unfolding dom_frame_def d'(2) by (auto simp: d'(4) d1x)
  moreover have "closed_port p d d'" by (simp add: closed_port_def d'(2)) (simp add: d'(4) d1x)
  moreover have "virq_to_evtchn v ! q \<noteq> p" if vj: "vcpu_at d' j = Some v" for j v
  proof -
    obtain z where z: "vcpu_at d j = Some z" "v = drop_virq q p z" using vj by (auto simp: d'(4) d1(2))
    then show ?thesis using p0 q len[OF z(1)] by (cases "virq_to_evtchn z ! q = p") (simp_all add: drop_virq_def)
  qed
  ultimately show ?thesis using d1(1) ch1 d'(1) unfolding dom_step_def by blast
qed

lemma close_pirq_port_ok:
  assumes d: "evt_dom_ok d" and c: "chan d p = Some c" "chn_state c = ECS_PIRQ i n r" "\<not> consumer_is_xen c"
  shows "\<exists>d1 d'. close_pirq env di i p (notify_vcpu_id c) d = Inr d1 \<and> close_finish p d1 = Inr d' \<and>
    dom_step d d' \<and> closed_port p d d' \<and> pirq_to_evtchn d' = (pirq_to_evtchn d)[i := 0]"
proof -
  note po = evt_dom_okD(2)[OF d]
  define vid where "vid = notify_vcpu_id c"
  have pv: "view pirq_of (chan d) p = Some i" and lv: "view links_of (chan d) p = Some (n, r, vid)"
    using c by (simp_all add: view_at pirq_of_def links_of_def vid_def)
  have i: "i < nr_pirqs d" and p0: "p \<noteq> 0" using ports_okD(4)[OF po] pv by (auto simp: pirqs_ok_def)
  define d0 where "d0 = (if \<not> ed_hvm d then log_call (Call_pirq_guest_unbind i) d else d)\<lparr>pirq_to_evtchn := (pirq_to_evtchn d)[i := 0]\<rparr>"
  have ch0: "chan d0 = chan d" and st0: "evt_struct d0" and vt0: "vtab d0 = vtab d" and vc0: "vcpu_at d0 = vcpu_at d"
    using evt_dom_okD(1)[OF d] by (simp_all add: d0_def)
  obtain v where v: "vcpu_at d0 vid = Some v" using chan_vcpu[OF d c(1)] by (auto simp: vid_def vc0)
  have l0: "linked (view links_of (chan d0)) (hview (vtab d0))" using ports_okD(5)[OF po] by (simp add: ch0 vt0)
  obtain d1 where d1: "unlink_pirq_port p vid d0 = Inr d1" "relinked d0 d1"
    "view links_of (chan d1) = set_prev n r (set_next r n (view links_of (chan d)))"
    "hview (vtab d1) = (if r = 0 then (hview (vtab d))(vid := n) else hview (vtab d))"
    using unlink_pirq_port_ok[OF st0 l0 _ v, of p n r] lv by (auto simp: ch0 vt0)
  define d2 where "d2 = (if ed_hvm d1 \<and> domain_pirq_to_irq env di i > 0 then log_call (Call_unmap_emuirq i) d1 else d1)"
  have cl: "close_pirq env di i p vid d = Inr d2"
    using i d1(1) by (auto simp: close_pirq_def d0_def d2_def Let_def)
  obtain c1 where c1: "chan d1 p = Some c1" "relink1 c c1" using relinked_chan(2)[OF d1(2)] c(1) ch0 by auto
  have ch2: "chan d2 = chan d1" and st2: "evt_struct d2" and vt2: "vtab d2 = vtab d1"
    using relinked_struct[OF d1(2)] by (simp_all add: d2_def)
  from close_finish_ok[OF st2, of p c1] c1 ch2 obtain d' where d': "close_finish p d2 = Inr d'" "chan d' = (chan d1)(p \<mapsto> freed c1)" "evt_struct d'"
    "d' = (put_evtchn p (freed c1) d2)\<lparr>evtchn_pending := (evtchn_pending d2)(p := False)\<rparr>" by auto
  have vt': "vtab d' = vtab d1" by (simp add: d'(4) vt2)
  have views: "view virq_of (chan d1) = view virq_of (chan d)" "view pirq_of (chan d1) = view pirq_of (chan d)"
    "view inter_of (chan d1) = view inter_of (chan d)"
    using relinked_view[OF d1(2)] relink1_views ch0 by metis+
  have none: "virq_of c = None" "inter_of c = None" using c(2) by (simp_all add: virq_of_def)
  have same: "(view g (chan d))(p := None) = view g (chan d)" if "g c = None" for g :: "evtchn \<Rightarrow> 'z option"
    using that c(1) by (simp add: fun_upd_idem view_def)
  have n': "vtab d1 j = None \<longleftrightarrow> vtab d j = None" for j using relinked_vcpu(1)[OF d1(2)] vc0 by (simp add: vtab_None)
  have vq: "virqs_ok (view virq_of (chan d)) (vtab d1)"
    using virqs_ok_heads[OF ports_okD(3)[OF po]] relinked_vcpu(2)[OF d1(2)] vt0 by metis
  have ck: "chan_ok (vtab d1) s e" if "((chan d1)(p \<mapsto> freed c1)) s = Some e" for s e
  proof (cases "s = p")
    case True
    then show ?thesis using that c(3) p0 ports_okD(1)[OF po] n' relink1_views(5)[OF c1(2)] by (auto simp: chan_ok_def)
  next
    case False
    then have "chan d1 s = Some e" using that by simp
    from relinked_chan(3)[OF d1(2) this] obtain e0 where e0: "chan d s = Some e0" "relink1 e0 e" unfolding ch0 by blast
    note k = relink1_views[OF e0(2)] ports_okD(2)[OF po e0(1)]
    have "chn_state e = ECS_FREE \<Longrightarrow> chn_state e0 = ECS_FREE" "s = 0 \<Longrightarrow> chn_state e = ECS_RESERVED"
      using k by (auto simp: chan_ok_def)
    then show ?thesis using k n' by (auto simp: chan_ok_def)
  qed
  have f: "max_vcpus d' = max_vcpus d" "pirq_to_evtchn d' = (pirq_to_evtchn d)[i := 0]" "poll_mask d' = poll_mask d"
    "ed_dying d' = ed_dying d" "ed_32bit_shinfo d' = ed_32bit_shinfo d" "evtchn_pending d' = (evtchn_pending d)(p := False)"
    using d1(2) by (simp_all add: d'(4) d2_def relinked_def d0_def)
  have "ports_ok (chan d') (vtab d') (pirq_to_evtchn d')"
    unfolding ports_ok_def d'(2) vt' f(2) view_upd freed_views views d1(3,4)
    using vq ck n'[of 0] ports_okD(1)[OF po] same[of virq_of, OF none(1)] pirqs_ok_close[OF ports_okD(4)[OF po] pv]
      linked_unlink[OF ports_okD(5)[OF po] lv] by simp
  moreover have "vcpu_at d' j = None \<longleftrightarrow> vcpu_at d j = None" for j using n'[of j] vt' by (metis vtab_None)
  moreover have "chan d' q = None \<longleftrightarrow> chan d q = None" for q
    using c1 c(1) relinked_chan(1)[OF d1(2), of q] by (auto simp: d'(2) ch0)
  ultimately have "evt_dom_ok d'"
    using evt_dom_okD(3-)[OF d] d'(3) f unfolding evt_dom_ok_def by auto
  moreover have "view inter_of (chan d') = view inter_of (chan d)"
    using same[of inter_of, OF none(2)] by (simp add: d'(2) views)
  moreover have "dom_frame d d'"
    unfolding dom_frame_def
  proof (intro conjI impI allI)
    fix q e e' assume "chan d q = Some e" "chan d' q = Some e'" "chn_state e \<in> {ECS_FREE, ECS_RESERVED}"
    moreover from this have "q \<noteq> p" using c by auto
    ultimately show "chn_state e' = chn_state e"
      using relinked_chan(2)[OF d1(2), of q e] relink1_views(6)[of e e'] by (auto simp: d'(2) ch0)
  qed (use f \<open>\<And>q. (chan d' q = None) = (chan d q = None)\<close> in auto)
  moreover have "closed_port p d d'" using f by (simp add: closed_port_def d'(2))
  ultimately show ?thesis using cl d'(1) f(2) unfolding vid_def dom_step_def by blast
qed

lemma put_loose_ok:
  assumes d: "evt_dom_ok d" and c0: "chan d p = Some c0" "loose c0" "chn_state c0 \<notin> {ECS_FREE, ECS_RESERVED}"
    and c: "loose c" "chan_ok (vtab d) p c"
  shows "evt_dom_ok (put_evtchn p c d)" "dom_frame d (put_evtchn p c d)" "chan (put_evtchn p c d) = (chan d)(p \<mapsto> c)"
proof -
  show ch: "chan (put_evtchn p c d) = (chan d)(p \<mapsto> c)"
    using put_evtchn_struct(2)[OF evt_dom_okD(1)[OF d]] c0 by simp
  show "evt_dom_ok (put_evtchn p c d)"
    using evt_dom_ok_put[OF d c0(1)] ports_ok_loose[OF evt_dom_okD(2)[OF d] c0(1,2) c] by simp
  show "dom_frame d (put_evtchn p c d)"
    using c0 by (auto simp: dom_frame_def ch)
qed

text \<open>Cutting an interdomain link at both ends keeps the symmetry of the others.\<close>

lemma wlink_cut:
  assumes w: "evt_wf w" and l: "wlink w i1 p1 = Some (i2, p2)"
    and d: "\<And>i d. w' i = Some d \<Longrightarrow> evt_dom_ok d"
    and e: "\<And>i p. wlink w' i p = (if (i, p) = (i1, p1) \<or> (i, p) = (i2, p2) then None else wlink w i p)"
  shows "evt_wf w'"
proof (rule evt_wfI)
  fix a x b y assume "wlink w' a x = Some (b, y)"
  then have ax: "wlink w a x = Some (b, y)" "(a, x) \<noteq> (i1, p1)" "(a, x) \<noteq> (i2, p2)"
    unfolding e by (auto split: if_splits)
  have by': "wlink w b y = Some (a, x)" using evt_wfD(2)[OF w ax(1)] .
  have "(b, y) \<noteq> (i1, p1)" "(b, y) \<noteq> (i2, p2)" using by' l evt_wfD(2)[OF w l] ax by auto
  then show "wlink w' b y = Some (a, x)" using by' unfolding e by auto
qed (rule d)

lemma inter_of_Some: "inter_of c = Some (j, q) \<longleftrightarrow> chn_state c = ECS_INTERDOMAIN j q"
  by (cases "chn_state c") auto

lemma wlink_Some:
  "wlink w i p = Some (j, q) \<longleftrightarrow>
     (\<exists>d c. w i = Some d \<and> chan d p = Some c \<and> chn_state c = ECS_INTERDOMAIN j q)"
  by (simp add: wlink_def view_def bind_eq_Some_conv inter_of_Some)

lemma wlink_upd: "wlink (w(i \<mapsto> d)) = (\<lambda>j p. if j = i then view inter_of (chan d) p else wlink w j p)"
  by (auto simp: wlink_def fun_eq_iff)

lemma loose_simps [simp]:
  "chn_state c = ECS_INTERDOMAIN j q \<Longrightarrow> loose c"
  "chn_state c = ECS_UNBOUND r \<Longrightarrow> loose c"
  "loose (freed c)"
  by (simp_all add: loose_state)

lemma close_interdomain_ok:
  assumes w: "evt_wf w" "w i1 = Some d1" and c1: "chan d1 p1 = Some c1" "chn_state c1 = ECS_INTERDOMAIN i2 p2" "\<not> consumer_is_xen c1"
  shows "\<exists>w1 d1a d1'. close_interdomain i1 i2 p2 w = Inr w1 \<and> w1 i1 = Some d1a \<and> close_finish p1 d1a = Inr d1' \<and>
    evt_guar w (w1(i1 \<mapsto> d1')) \<and> closed_port p1 d1 d1' \<and> w i2 \<noteq> None \<and>
    ((i1, p1) \<noteq> (i2, p2) \<longrightarrow> (\<exists>d c. (w1(i1 \<mapsto> d1')) i2 = Some d \<and> chan d p2 = Some c \<and> chn_state c = ECS_UNBOUND i1))"
proof -
  have l: "wlink w i1 p1 = Some (i2, p2)" using w c1 wlink_Some by blast
  from evt_wfD(2)[OF w(1) l] obtain d2 c2 where d2: "w i2 = Some d2" and c2: "chan d2 p2 = Some c2" "chn_state c2 = ECS_INTERDOMAIN i1 p1"
    using wlink_Some by blast
  have ok: "evt_dom_ok d1" "evt_dom_ok d2" using evt_wfD(1)[OF w] evt_wfD(1)[OF w(1) d2] by auto
  define u where "u = c2\<lparr>chn_state := ECS_UNBOUND i1\<rparr>"
  define w1 where "w1 = w(i2 \<mapsto> put_evtchn p2 u d2)"
  have cl: "close_interdomain i1 i2 p2 w = Inr w1"
    using d2 c2 port_valid_chan[OF evt_dom_okD(1)[OF ok(2)], of p2]
    by (simp add: close_interdomain_def evtchn_from_port_Some w1_def u_def)
  have cku: "chan_ok (vtab d2) p2 u" using ports_okD(2)[OF evt_dom_okD(2)[OF ok(2)] c2(1)] c2(2) by (auto simp: chan_ok_def u_def)
  have ns2: "chn_state c2 \<notin> {ECS_FREE, ECS_RESERVED}" using c2 by simp
  have lu: "loose u" "loose c2" using c2 by (simp_all add: u_def)
  note P2 = put_loose_ok[OF ok(2) c2(1) lu(2) ns2 lu(1) cku]
  obtain d1a c1a where d1a: "w1 i1 = Some d1a" "evt_dom_ok d1a" "dom_frame d1 d1a" "chan d1a p1 = Some c1a" "loose c1a"
    "chn_state c1a \<notin> {ECS_FREE, ECS_RESERVED}" "\<not> consumer_is_xen c1a" "evtchn_pending d1a = evtchn_pending d1" "vtab d1a = vtab d1"
    and v1a: "view inter_of (chan d1a) = (if i1 = i2 then (view inter_of (chan d1))(p2 := None) else view inter_of (chan d1))"
    and ch1a: "chan d1a = (if i1 = i2 then (chan d1)(p2 \<mapsto> u) else chan d1)"
  proof (cases "i1 = i2")
    case True
    then have "d2 = d1" using w(2) d2 by simp
    then have P: "w1 i1 = Some (put_evtchn p2 u d1)" "chan (put_evtchn p2 u d1) = (chan d1)(p2 \<mapsto> u)" "evt_dom_ok (put_evtchn p2 u d1)" "dom_frame d1 (put_evtchn p2 u d1)"
      using P2 True by (simp_all add: w1_def)
    have "inter_of u = None" by (simp add: u_def)
    show ?thesis
    proof (cases "p1 = p2")
      case p: True
      have "c2 = c1" using p c1 c2 \<open>d2 = d1\<close> by simp
      then show ?thesis using that[of "put_evtchn p2 u d1" u] P p lu c1(3) True \<open>inter_of u = None\<close> by (simp add: u_def)
    next
      case False
      then show ?thesis using that[of "put_evtchn p2 u d1" c1] P c1 True \<open>inter_of u = None\<close> by simp
    qed
  next
    case False
    then show ?thesis using that[of d1 c1] w c1 ok by (simp add: w1_def)
  qed
  from close_finish_ok[OF evt_dom_okD(1)[OF d1a(2)] d1a(4)] obtain d1' where d1': "close_finish p1 d1a = Inr d1'" "chan d1' = (chan d1a)(p1 \<mapsto> freed c1a)"
    "d1' = (put_evtchn p1 (freed c1a) d1a)\<lparr>evtchn_pending := (evtchn_pending d1a)(p1 := False)\<rparr>" by blast
  have p10: "p1 \<noteq> 0" using ports_okD(2)[OF evt_dom_okD(2)[OF ok(1)] c1(1)] c1(2) by (auto simp: chan_ok_def)
  have ckf: "chan_ok (vtab d1a) p1 (freed c1a)" using p10 d1a(7) ports_okD(1)[OF evt_dom_okD(2)[OF d1a(2)]] by (auto simp: chan_ok_def)
  note P1 = put_loose_ok[OF d1a(2,4,5,6) loose_simps(3) ckf]
  have kp: "keeps_ports (put_evtchn p1 (freed c1a) d1a) d1'" by (simp add: d1'(3) keeps_ports_def)
  have ok1': "evt_dom_ok d1'" and fr1': "dom_frame d1 d1'"
    using keeps_ports_step[OF P1(1) kp] dom_frame_trans[OF d1a(3) dom_frame_trans[OF P1(2)]] by (auto simp: dom_step_def)
  define w2 where "w2 = w1(i1 \<mapsto> d1')"
  have dw2: "w2 = w(i2 \<mapsto> put_evtchn p2 u d2, i1 \<mapsto> d1')" by (simp add: w2_def w1_def)
  have iu: "inter_of u = None" by (simp add: u_def)
  have "wlink w2 i p = (if (i, p) = (i1, p1) \<or> (i, p) = (i2, p2) then None else wlink w i p)" for i p
    using w(2) d2 iu unfolding dw2 wlink_upd d1'(2) P2(3) by (auto simp: v1a wlink_def split: if_splits)
  then have wf2: "evt_wf w2"
    using ok1' P2(1) evt_wfD(1)[OF w(1)] by (intro wlink_cut[OF w(1) l]) (auto simp: dw2 split: if_splits)
  have "evt_frame j w w2" for j
    using w(2) d2 fr1' P2(2) by (auto simp: evt_frame_def dw2 split: if_splits)
  then have g: "evt_guar w w2" using wf2 by (simp add: evt_guar_def)
  have cp: "closed_port p1 d1 d1'" using d1a(8) by (simp add: closed_port_def d1'(2)) (simp add: d1'(3))
  have "\<exists>d c. w2 i2 = Some d \<and> chan d p2 = Some c \<and> chn_state c = ECS_UNBOUND i1" if "(i1, p1) \<noteq> (i2, p2)"
    using that P2(3) by (auto simp: dw2 d1'(2) ch1a u_def)
  then show ?thesis using cl d1a(1) d1'(1) g cp d2 unfolding w2_def by blast
qed

lemma not_plain_simps [simp]:
  "\<not> plain (ECS_INTERDOMAIN j q)" "\<not> plain (ECS_PIRQ i n r)" "\<not> plain (ECS_VIRQ v)"
  by (simp_all add: plain_def)

definition closeable :: "evt_domain \<Rightarrow> nat \<Rightarrow> bool" where
  "closeable d p \<longleftrightarrow>
     (\<exists>c. chan d p = Some c \<and> \<not> consumer_is_xen c \<and> chn_state c \<notin> {ECS_FREE, ECS_RESERVED})"

definition peer_unbound :: "evt_world \<Rightarrow> domid \<Rightarrow> nat \<Rightarrow> evt_world \<Rightarrow> bool" where
  "peer_unbound w i p w' \<longleftrightarrow>
     (\<forall>j q. wlink w i p = Some (j, q) \<longrightarrow> (i, p) \<noteq> (j, q) \<longrightarrow>
        (\<exists>d c. w' j = Some d \<and> chan d q = Some c \<and> chn_state c = ECS_UNBOUND i))"

text \<open>The effect of a successful close.\<close>

definition close_done :: "evt_world \<Rightarrow> domid \<Rightarrow> nat \<Rightarrow> evt_domain \<Rightarrow> evt_world \<Rightarrow> bool" where
  "close_done w i p d w' \<longleftrightarrow>
     (\<exists>d'. w' i = Some d' \<and> closed_port p d d') \<and> peer_unbound w i p w'"

lemma close_done_local:
  assumes "w i = Some d" "chan d p = Some c" "closed_port p d d'" "\<And>j q. chn_state c \<noteq> ECS_INTERDOMAIN j q"
  shows "close_done w i p d (w(i \<mapsto> d'))"
  using assms by (auto simp: close_done_def peer_unbound_def wlink_Some)

lemma close_locked_ok:
  assumes w: "evt_wf w" "w i = Some d"
  shows "\<exists>r. close_locked env i p d2 w = Inr r \<and>
    (case r of
       Close_again j \<Rightarrow> d2 = None \<and> (\<exists>q. wlink w i p = Some (j, q)) \<and> closeable d p
     | Closed rc w' \<Rightarrow> evt_guar w w' \<and>
         (if closeable d p \<and> (\<forall>j q k. wlink w i p = Some (j, q) \<longrightarrow> d2 = Some k \<longrightarrow> k = j)
          then rc = 0 \<and> close_done w i p d w' else rc = - EINVAL \<and> w' = w))"
proof -
  have ok: "evt_dom_ok d" using evt_wfD(1)[OF w] .
  note valid = port_valid_chan[OF evt_dom_okD(1)[OF ok], of p]
  have refl: "evt_guar w w" using evt_guar_refl[OF w(1)] .
  show ?thesis
  proof (cases "chan d p")
    case None
    then show ?thesis using w valid refl by (auto simp: close_locked_def closeable_def)
  next
    case (Some c)
    note cl = close_locked_def evtchn_from_port_Some[OF Some]
    have lk: "wlink w i p = Some (j, q) \<longleftrightarrow> chn_state c = ECS_INTERDOMAIN j q" for j q
      using w(2) Some by (auto simp: wlink_Some)
    show ?thesis
    proof (cases "consumer_is_xen c")
      case True
      then show ?thesis using w valid refl Some by (auto simp: cl closeable_def)
    next
      case nx: False
      have plain_case: ?thesis if pl: "plain (chn_state c)" "chn_state c \<notin> {ECS_FREE, ECS_RESERVED}"
      proof -
        from close_plain_ok[OF ok Some pl nx] obtain d' where d': "close_finish p d = Inr d'" "dom_step d d'" "closed_port p d d'" by blast
        have "close_locked env i p d2 w = Inr (Closed 0 (w(i \<mapsto> d')))"
          using w valid Some nx pl d'(1) by (auto simp: cl plain_def split: evtchn_state.splits)
        moreover have "close_done w i p d (w(i \<mapsto> d'))"
          using close_done_local[where w = w and i = i, OF w(2) Some d'(3)] pl by (cases "chn_state c") auto
        moreover have "closeable d p" using Some nx pl by (simp add: closeable_def)
        moreover have "\<not> (\<exists>j q. wlink w i p = Some (j, q))" using pl lk by (cases "chn_state c") (auto simp: plain_def)
        ultimately show ?thesis using evt_guar_upd[OF w d'(2)] by auto
      qed
      show ?thesis
      proof (cases "chn_state c")
        case ECS_FREE
        then show ?thesis using w valid refl Some nx by (auto simp: cl closeable_def)
      next
        case ECS_RESERVED
        then show ?thesis using w valid refl Some nx by (auto simp: cl closeable_def)
      next
        case (ECS_UNBOUND r)
        then show ?thesis using plain_case by simp
      next
        case ECS_IPI
        then show ?thesis using plain_case by simp
      next
        case (ECS_VIRQ q)
        from close_virq_port_ok[OF ok Some ECS_VIRQ nx] obtain d1 d' where d': "close_virq q p d = Inr d1" "close_finish p d1 = Inr d'"
          "dom_step d d'" "closed_port p d d'" by blast
        have "close_locked env i p d2 w = Inr (Closed 0 (w(i \<mapsto> d')))"
          using w valid Some nx ECS_VIRQ d'(1,2) by (simp add: cl)
        moreover have "close_done w i p d (w(i \<mapsto> d'))"
          using close_done_local[where w = w and i = i, OF w(2) Some d'(4)] ECS_VIRQ by simp
        moreover have "closeable d p" using Some nx ECS_VIRQ by (simp add: closeable_def)
        ultimately show ?thesis using evt_guar_upd[OF w d'(3)] lk ECS_VIRQ by auto
      next
        case (ECS_PIRQ irq n r)
        from close_pirq_port_ok[OF ok Some ECS_PIRQ nx] obtain d1 d' where d': "close_pirq env i irq p (notify_vcpu_id c) d = Inr d1" "close_finish p d1 = Inr d'"
          "dom_step d d'" "closed_port p d d'" by blast
        have "close_locked env i p d2 w = Inr (Closed 0 (w(i \<mapsto> d')))"
          using w valid Some nx ECS_PIRQ d'(1,2) by (simp add: cl)
        moreover have "close_done w i p d (w(i \<mapsto> d'))"
          using close_done_local[where w = w and i = i, OF w(2) Some d'(4)] ECS_PIRQ by simp
        moreover have "closeable d p" using Some nx ECS_PIRQ by (simp add: closeable_def)
        ultimately show ?thesis using evt_guar_upd[OF w d'(3)] lk ECS_PIRQ by auto
      next
        case (ECS_INTERDOMAIN j q)
        have lj: "wlink w i p = Some (j, q)" using lk ECS_INTERDOMAIN by simp
        have cb: "closeable d p" using Some nx ECS_INTERDOMAIN by (simp add: closeable_def)
        from close_interdomain_ok[OF w Some ECS_INTERDOMAIN nx] obtain w1 d1a d1' where
          x: "close_interdomain i j q w = Inr w1" "w1 i = Some d1a" "close_finish p d1a = Inr d1'" "evt_guar w (w1(i \<mapsto> d1'))"
          "closed_port p d d1'" "w j \<noteq> None"
          and pr: "(i, p) \<noteq> (j, q) \<Longrightarrow> \<exists>d c. (w1(i \<mapsto> d1')) j = Some d \<and> chan d q = Some c \<and> chn_state c = ECS_UNBOUND i" by blast
        have dn: "close_done w i p d (w1(i \<mapsto> d1'))"
          using x(5) pr lj unfolding close_done_def peer_unbound_def by auto
        consider "d2 = None" "domain_before env i j \<or> i = j" | "d2 = None" "\<not> (domain_before env i j \<or> i = j)"
          | k where "d2 = Some k" "k = j" | k where "d2 = Some k" "k \<noteq> j" by blast
        then show ?thesis
        proof cases
          case 1
          then have "close_locked env i p d2 w = Inr (Closed 0 (w1(i \<mapsto> d1')))"
            using w valid Some nx ECS_INTERDOMAIN x by (auto simp: cl)
          then show ?thesis using x(4) dn cb 1 by auto
        next
          case 2
          then have "close_locked env i p d2 w = Inr (Close_again j)"
            using w valid Some nx ECS_INTERDOMAIN x(6) by (auto simp: cl)
          then show ?thesis using lj cb 2 by auto
        next
          case 3
          then have "close_locked env i p d2 w = Inr (Closed 0 (w1(i \<mapsto> d1')))"
            using w valid Some nx ECS_INTERDOMAIN x by (auto simp: cl)
          then show ?thesis using x(4) dn cb 3 lj by auto
        next
          case 4
          then have "close_locked env i p d2 w = Inr (Closed (- EINVAL) w)"
            using w valid Some nx ECS_INTERDOMAIN by (auto simp: cl)
          then show ?thesis using refl 4 lj by auto
        qed
      qed
    qed
  qed
qed

text \<open>
  What other processors may do while the lock is dropped: anything that keeps the invariant and
  does not bind ports of a dying domain.
\<close>

definition others_ok :: "evt_env \<Rightarrow> bool" where
  "others_ok env \<longleftrightarrow> (\<forall>w. evt_wf w \<longrightarrow> evt_guar w (other_cpus env w))"

lemma evt_guar_Some:
  assumes "evt_guar w w'" "w i = Some d"
  obtains d' where "w' i = Some d'"
  using evt_guar_dom[OF assms(1), of i] assms(2) by auto

lemma close_lockedE:
  assumes w: "evt_wf w" "w i = Some d"
  obtains (again) j q where "d2 = None" "close_locked env i p d2 w = Inr (Close_again j)" "wlink w i p = Some (j, q)" "closeable d p"
  | (closed) w' where "close_locked env i p d2 w = Inr (Closed 0 w')" "evt_guar w w'" "close_done w i p d w'" "closeable d p"
  | (refused) "close_locked env i p d2 w = Inr (Closed (- EINVAL) w)"
      "\<not> (closeable d p \<and> (\<forall>j q k. wlink w i p = Some (j, q) \<longrightarrow> d2 = Some k \<longrightarrow> k = j))"
proof -
  from close_locked_ok[OF w, of env p d2] obtain r where r: "close_locked env i p d2 w = Inr r" and
    R: "case r of Close_again j \<Rightarrow> d2 = None \<and> (\<exists>q. wlink w i p = Some (j, q)) \<and> closeable d p
      | Closed rc w' \<Rightarrow> evt_guar w w' \<and>
         (if closeable d p \<and> (\<forall>j q k. wlink w i p = Some (j, q) \<longrightarrow> d2 = Some k \<longrightarrow> k = j)
          then rc = 0 \<and> close_done w i p d w' else rc = - EINVAL \<and> w' = w)" by blast
  show thesis
  proof (cases r)
    case (Close_again j)
    then show thesis using r R again by auto
  next
    case (Closed rc w')
    show thesis
    proof (cases "closeable d p \<and> (\<forall>j q k. wlink w i p = Some (j, q) \<longrightarrow> d2 = Some k \<longrightarrow> k = j)")
      case True
      have R': "evt_guar w w' \<and> (if closeable d p \<and> (\<forall>j q k. wlink w i p = Some (j, q) \<longrightarrow> d2 = Some k \<longrightarrow> k = j)
          then rc = 0 \<and> close_done w i p d w' else rc = - EINVAL \<and> w' = w)" using R Closed by simp
      show thesis using closed[of w'] r R' True unfolding Closed if_P[OF True] by blast
    next
      case False
      have R': "evt_guar w w' \<and> (if closeable d p \<and> (\<forall>j q k. wlink w i p = Some (j, q) \<longrightarrow> d2 = Some k \<longrightarrow> k = j)
          then rc = 0 \<and> close_done w i p d w' else rc = - EINVAL \<and> w' = w)" using R Closed by simp
      show thesis using refused r R' False unfolding Closed if_not_P[OF False] by blast
    qed
  qed
qed

lemma evtchn_close_port_ok:
  assumes w: "evt_wf w" "w i = Some d" and o: "others_ok env"
  shows "runs (evtchn_close_port env i p w) w"
  using w
proof (cases rule: close_lockedE[of w i d None env p])
  case (again j q)
  define w1 where "w1 = other_cpus env w"
  have g: "evt_guar w w1" using o w(1) by (simp add: others_ok_def w1_def)
  then obtain d1 where d1: "w1 i = Some d1" using evt_guar_Some w(2) by blast
  from evt_guar_wf[OF g] d1 show ?thesis
  proof (cases rule: close_lockedE[of w1 i d1 "Some j" env p])
    case (closed w')
    then show ?thesis using again evt_guar_trans[OF g] by (simp add: evtchn_close_port_def w1_def[symmetric])
  next
    case refused
    then show ?thesis using again g by (simp add: evtchn_close_port_def w1_def[symmetric])
  qed simp
qed (use w evt_guar_refl in \<open>simp_all add: evtchn_close_port_def\<close>)

text \<open>Without interference a port that can be closed is closed.\<close>

lemma evtchn_close_port_done:
  assumes w: "evt_wf w" "w i = Some d" and c: "closeable d p" and o: "other_cpus env w = w"
  shows "\<exists>w'. evtchn_close_port env i p w = Inr (0, w') \<and> evt_guar w w' \<and> close_done w i p d w'"
  using w
proof (cases rule: close_lockedE[of w i d None env p])
  case (again j q)
  from w show ?thesis
  proof (cases rule: close_lockedE[of w i d "Some j" env p])
    case (closed w')
    then show ?thesis using again o by (simp add: evtchn_close_port_def)
  next
    case refused
    then show ?thesis using again c by auto
  qed simp
qed (use c in \<open>auto simp: evtchn_close_port_def\<close>)

section \<open>Interdomain binding\<close>

lemma wlink_join:
  assumes w: "evt_wf w" and n: "wlink w i1 p1 = None" "wlink w i2 p2 = None"
    and d: "\<And>i d. w' i = Some d \<Longrightarrow> evt_dom_ok d"
    and e: "\<And>i p. wlink w' i p = (if (i, p) = (i1, p1) then Some (i2, p2)
      else if (i, p) = (i2, p2) then Some (i1, p1) else wlink w i p)"
  shows "evt_wf w'"
proof (rule evt_wfI)
  fix a x b y assume ax: "wlink w' a x = Some (b, y)"
  show "wlink w' b y = Some (a, x)"
  proof (cases "(a, x) = (i1, p1) \<or> (a, x) = (i2, p2)")
    case True
    then show ?thesis using ax unfolding e by (auto split: if_splits)
  next
    case False
    then have l: "wlink w a x = Some (b, y)" using ax unfolding e by (auto split: if_splits)
    have by': "wlink w b y = Some (a, x)" using evt_wfD(2)[OF w l] .
    then have "(b, y) \<noteq> (i1, p1)" "(b, y) \<noteq> (i2, p2)" using n by auto
    then show ?thesis using by' unfolding e by auto
  qed
qed (rule d)

text \<open>
  The two stores of a successful binding: the port \<open>lp\<close> of \<open>li\<close> was free, the port \<open>rp\<close> of \<open>ri\<close> was
  waiting for the domain \<open>li\<close>.
\<close>

lemma bind_ends_ok:
  assumes w: "evt_wf w" "w li = Some ld" "w ri = Some rd"
    and lc: "chan ld lp = Some lc" "chn_state lc = ECS_FREE" "\<not> ed_dying ld" "lp \<noteq> 0"
    and rc: "chan rd rp = Some rc" "chn_state rc = ECS_UNBOUND li"
  defines "lc' \<equiv> lc\<lparr>chn_state := ECS_INTERDOMAIN ri rp\<rparr>" and "rc' \<equiv> rc\<lparr>chn_state := ECS_INTERDOMAIN li lp\<rparr>"
  shows "\<exists>rd1 w'. (w(li \<mapsto> put_evtchn lp lc' ld)) ri = Some rd1 \<and>
    w' = (w(li \<mapsto> put_evtchn lp lc' ld))(ri \<mapsto> put_evtchn rp rc' rd1) \<and> evt_guar w w' \<and>
    wlink w' li lp = Some (ri, rp) \<and> wlink w' ri rp = Some (li, lp) \<and>
    (\<exists>ld'. w' li = Some ld' \<and> evtchn_pending ld' = evtchn_pending ld \<and> vcpu_at ld' = vcpu_at ld)"
proof -
  have ok: "evt_dom_ok ld" "evt_dom_ok rd" using evt_wfD(1)[OF w(1)] w by auto
  have ll: "loose lc" "loose lc'" "loose rc" "loose rc'"
    using lc rc by (simp_all add: loose_state lc'_def rc'_def)
  have ckl: "chan_ok (vtab ld) lp lc'"
    using ports_okD(2)[OF evt_dom_okD(2)[OF ok(1)] lc(1)] lc(4) by (auto simp: chan_ok_def lc'_def)
  define ld1 where "ld1 = put_evtchn lp lc' ld"
  have ch1: "chan ld1 = (chan ld)(lp \<mapsto> lc')"
    using put_evtchn_struct(2)[OF evt_dom_okD(1)[OF ok(1)]] lc by (simp add: ld1_def)
  have ok1: "evt_dom_ok ld1"
    using evt_dom_ok_put[OF ok(1) lc(1)] ports_ok_loose[OF evt_dom_okD(2)[OF ok(1)] lc(1) ll(1,2) ckl] by (simp add: ld1_def)
  have fr1: "dom_frame ld ld1" using lc(3) by (simp add: dom_frame_def ld1_def)
  define rd1 where "rd1 = (if ri = li then ld1 else rd)"
  have r1: "(w(li \<mapsto> ld1)) ri = Some rd1" using w(3) by (simp add: rd1_def)
  have okr: "evt_dom_ok rd1" using ok ok1 by (simp add: rd1_def)
  have ne: "ri = li \<Longrightarrow> rp \<noteq> lp" using w lc rc by auto
  have rc1: "chan rd1 rp = Some rc" using w rc ne by (auto simp: rd1_def ch1)
  have rns: "chn_state rc \<notin> {ECS_FREE, ECS_RESERVED}" using rc by simp
  have ckr: "chan_ok (vtab rd1) rp rc'"
    using ports_okD(2)[OF evt_dom_okD(2)[OF okr] rc1] rc(2) by (auto simp: chan_ok_def rc'_def)
  note P = put_loose_ok[OF okr rc1 ll(3) rns ll(4) ckr]
  define w' where "w' = (w(li \<mapsto> ld1))(ri \<mapsto> put_evtchn rp rc' rd1)"
  have io: "inter_of lc' = Some (ri, rp)" "inter_of rc' = Some (li, lp)" by (simp_all add: lc'_def rc'_def)
  have e: "wlink w' i p = (if (i, p) = (li, lp) then Some (ri, rp)
      else if (i, p) = (ri, rp) then Some (li, lp) else wlink w i p)" for i p
    using w(2,3) ne io unfolding w'_def wlink_upd P(3) by (auto simp: rd1_def ch1 wlink_def)
  have n: "wlink w li lp = None" "wlink w ri rp = None"
    using w lc rc by (simp_all add: wlink_def view_at)
  have wf: "evt_wf w'"
    using ok1 P(1) evt_wfD(1)[OF w(1)] by (intro wlink_join[OF w(1) n _ e]) (auto simp: w'_def split: if_splits)
  have "evt_frame j w w'" for j
    using w(2,3) fr1 P(2) dom_frame_trans[OF fr1] by (auto simp: evt_frame_def w'_def rd1_def split: if_splits)
  then have g: "evt_guar w w'" using wf by (simp add: evt_guar_def)
  have "\<exists>ld'. w' li = Some ld' \<and> evtchn_pending ld' = evtchn_pending ld \<and> vcpu_at ld' = vcpu_at ld"
    by (auto simp: w'_def rd1_def ld1_def)
  moreover have "wlink w' li lp = Some (ri, rp)" "wlink w' ri rp = Some (li, lp)" using e ne by auto
  ultimately show ?thesis using r1 g unfolding ld1_def[symmetric] w'_def by blast
qed

lemma evt_guar_pending:
  assumes w: "evt_wf w" "w i = Some d" and v: "vcpu_at d vid \<noteq> None"
  shows "\<exists>r d'. evtchn_set_pending vid port d = Inr (r, d') \<and> evt_guar w (w(i \<mapsto> d')) \<and> keeps_ports d d' \<and>
    evtchn_pending d' = (evtchn_pending d)(port := True)"
proof -
  have ok: "evt_dom_ok d" using evt_wfD(1)[OF w] .
  from v obtain x where "vcpu_at d vid = Some x" by auto
  from evtchn_set_pending_ok[OF ok this, of port] obtain d' where
    "evtchn_set_pending vid port d = Inr (if evtchn_pending d port then 1 else 0, d')" "keeps_ports d d'"
    "evtchn_pending d' = (evtchn_pending d)(port := True)" by blast
  then show ?thesis using evt_guar_upd[OF w keeps_ports_step[OF ok]] by blast
qed

lemma get_free_port_free:
  assumes ok: "evt_dom_ok d" and dy: "\<not> ed_dying d" and c: "chan d p = Some c" "chn_state c = ECS_FREE"
  shows "\<exists>q. get_free_port env d = Inr (Inr q, d)"
proof -
  note s = evt_dom_okD(1)[OF ok]
  from scan_ports_ok[OF s, of 0] obtain b q where sc: "scan_ports d 0 = Inr (b, q)"
    and a: "\<And>p. p < q \<Longrightarrow> \<exists>c. chan d p = Some c \<and> chn_state c \<noteq> ECS_FREE"
    and bq: "if b then \<exists>c. chan d q = Some c \<and> chn_state c = ECS_FREE else chan d q = None" by blast
  have "q \<le> p" using a[of p] c by (metis not_le_imp_less option.inject)
  then have "chan d q \<noteq> None" using port_valid_prefix[OF s _ \<open>q \<le> p\<close>] c by simp
  then have b using bq by (auto split: if_splits)
  then show ?thesis using sc dy by (simp add: get_free_port_def)
qed

text \<open>
  \<open>evtchn_bind_interdomain\<close> in every case: what it guarantees, the two ends after success, and
  conditions under which it succeeds.
\<close>

lemma evtchn_bind_interdomain_cases:
  assumes w: "evt_wf w" "w (current_domain env) = Some ld" and x: "xsm_allocates env"
  shows "\<exists>rc b w'. evtchn_bind_interdomain env bind w = Inr (rc, b, w') \<and> evt_guar w w' \<and>
    (rc = 0 \<longrightarrow>
      (let li = current_domain env; rp = unat (bi_remote_port bind);
           ri = (if bi_remote_dom bind = DOMID_SELF then li else bi_remote_dom bind)
       in wlink w' li (unat (bi_local_port b)) = Some (ri, rp) \<and>
          wlink w' ri rp = Some (li, unat (bi_local_port b)) \<and>
          (\<exists>ld'. w' li = Some ld' \<and> evtchn_pending ld' (unat (bi_local_port b))))) \<and>
    (let li = current_domain env; rp = unat (bi_remote_port bind);
         ri = (if bi_remote_dom bind = DOMID_SELF then li else bi_remote_dom bind)
     in (\<exists>rd c. w ri = Some rd \<and> chan rd rp = Some c \<and> chn_state c = ECS_UNBOUND li) \<longrightarrow>
        \<not> ed_dying ld \<longrightarrow> (\<exists>p c. chan ld p = Some c \<and> chn_state c = ECS_FREE) \<longrightarrow>
        (\<forall>lp. xsm_evtchn_interdomain env li lp ri rp = 0) \<longrightarrow> rc = 0)"
proof -
  define li rp ri where "li = current_domain env" and "rp = unat (bi_remote_port bind)"
    and "ri = (if bi_remote_dom bind = DOMID_SELF then li else bi_remote_dom bind)"
  note ri' = ri_def[unfolded li_def]
  have refl: "evt_guar w w" using evt_guar_refl[OF w(1)] .
  have ok: "evt_dom_ok ld" using evt_wfD(1)[OF w] .
  show ?thesis
  proof (cases "w ri")
    case None
    then have "evtchn_bind_interdomain env bind w = Inr (- ESRCH, bind, w)"
      by (simp add: evtchn_bind_interdomain_def Let_def ri')
    then show ?thesis using refl None unfolding Let_def li_def[symmetric] rp_def[symmetric] ri_def[symmetric]
      by (simp add: ESRCH_def)
  next
    case (Some rd0)
    from ok x show ?thesis
    proof (cases rule: get_free_portE)
      case (err e)
      then have "evtchn_bind_interdomain env bind w = Inr (e, bind, w(li \<mapsto> ld))"
        using w Some by (simp add: evtchn_bind_interdomain_def Let_def ri' li_def)
      moreover have "ed_dying ld \<or> \<not> (\<exists>p c. chan ld p = Some c \<and> chn_state c = ECS_FREE)"
        using get_free_port_free[OF ok, of _ _ env] err(1) by fastforce
      ultimately show ?thesis using err(2) evt_guar_upd[OF w dom_step_refl[OF ok]] unfolding Let_def li_def[symmetric] by auto
    next
      case (port lp ld' lc)
      define w1 where "w1 = w(li \<mapsto> ld')"
      have g1: "evt_guar w w1" using evt_guar_upd[OF w port(4)] by (simp add: w1_def li_def)
      note wf1 = evt_guar_wf[OF g1]
      obtain rd where rd: "w1 ri = Some rd" using evt_guar_Some[OF g1 Some] .
      have okr: "evt_dom_ok rd" using evt_wfD(1)[OF wf1 rd] .
      note valid = port_valid_chan[OF evt_dom_okD(1)[OF okr], of rp]
      note D = evtchn_bind_interdomain_def Let_def li_def[symmetric] rp_def[symmetric] ri_def[symmetric]
      have start: "evtchn_bind_interdomain env bind w =
         (if \<not> port_is_valid rd rp then Inr (- EINVAL, bind, w1)
          else bindR (evtchn_from_port rd rp) (\<lambda>rchn.
            if chn_state rchn \<noteq> ECS_UNBOUND li then Inr (- EINVAL, bind, w1)
            else if xsm_evtchn_interdomain env li lp ri rp \<noteq> 0 then Inr (xsm_evtchn_interdomain env li lp ri rp, bind, w1)
            else
              let lc' = lc\<lparr>chn_state := ECS_INTERDOMAIN ri (to_u16 rp)\<rparr>;
                  w2 = w1(li \<mapsto> put_evtchn lp lc' ld')
              in bindR (get_dom w2 ri) (\<lambda>rd.
                 let w3 = w2(ri \<mapsto> put_evtchn rp (rchn\<lparr>chn_state := ECS_INTERDOMAIN li (to_u16 lp)\<rparr>) rd)
                 in bindR (get_dom w3 li) (\<lambda>ld.
                    bindR (evtchn_set_pending (notify_vcpu_id lc') lp ld) (\<lambda>(_, ld).
                      Inr (0, bind\<lparr>bi_local_port := of_nat lp\<rparr>, w3(li \<mapsto> ld)))))))"
        using w Some port(1,6) rd by (simp add: D w1_def evtchn_from_port_Some cong: if_cong)
      have chr: "chan rd rp = Some c" if "chan rd0 rp = Some c" for c
        using that rd Some w(2) grown_chan(1)[OF port(3)] by (auto simp: w1_def li_def split: if_splits)
      have einval: ?thesis if "evtchn_bind_interdomain env bind w = Inr (e, bind, w1)" "e \<noteq> 0"
        "\<not> (\<exists>c. chan rd rp = Some c \<and> chn_state c = ECS_UNBOUND li) \<or> xsm_evtchn_interdomain env li lp ri rp \<noteq> 0" for e
        using that g1 chr Some unfolding Let_def li_def[symmetric] rp_def[symmetric] ri_def[symmetric] by auto
      show ?thesis
      proof (cases "chan rd rp")
        case None
        then show ?thesis using einval[of "- EINVAL"] start valid by (simp add: EINVAL_def)
      next
        case (Some rchn)
        show ?thesis
        proof (cases "chn_state rchn = ECS_UNBOUND li \<and> xsm_evtchn_interdomain env li lp ri rp = 0")
          case False
          then show ?thesis
            using einval[of "- EINVAL"] einval[of "xsm_evtchn_interdomain env li lp ri rp"] start valid Some
            by (auto simp: EINVAL_def evtchn_from_port_Some[OF Some])
        next
          case True
          have w1l: "w1 li = Some ld'" by (simp add: w1_def)
          have u: "to_u16 rp = rp" "to_u16 lp = lp" using chan_bound'[OF evt_dom_okD(1)[OF okr] Some] port(11) by simp_all
          from bind_ends_ok[OF wf1 w1l rd port(6,7,10,5) Some conjunct1[OF True]] obtain rd1 w3 ld3 where
            b: "(w1(li \<mapsto> put_evtchn lp (lc\<lparr>chn_state := ECS_INTERDOMAIN ri rp\<rparr>) ld')) ri = Some rd1"
              "w3 = (w1(li \<mapsto> put_evtchn lp (lc\<lparr>chn_state := ECS_INTERDOMAIN ri rp\<rparr>) ld'))(ri \<mapsto> put_evtchn rp (rchn\<lparr>chn_state := ECS_INTERDOMAIN li lp\<rparr>) rd1)"
              "evt_guar w1 w3" "wlink w3 li lp = Some (ri, rp)" "wlink w3 ri rp = Some (li, lp)"
              "w3 li = Some ld3" "vcpu_at ld3 = vcpu_at ld'" by blast
          have v0: "vcpu_at ld3 0 \<noteq> None" using vcpu0[OF port(2)] b(7) by simp
          from evt_guar_pending[OF evt_guar_wf[OF b(3)] b(6) v0, of lp] obtain r ld4 where
            p: "evtchn_set_pending 0 lp ld3 = Inr (r, ld4)" "evt_guar w3 (w3(li \<mapsto> ld4))" "keeps_ports ld3 ld4"
               "evtchn_pending ld4 = (evtchn_pending ld3)(lp := True)" by blast
          have w34: "w1(ri \<mapsto> put_evtchn rp (rchn\<lparr>chn_state := ECS_INTERDOMAIN li lp\<rparr>) rd1, li \<mapsto> ld4) = w3(li \<mapsto> ld4)"
            by (auto simp: b(2) fun_eq_iff)
          have res: "evtchn_bind_interdomain env bind w = Inr (0, bind\<lparr>bi_local_port := of_nat lp\<rparr>, w3(li \<mapsto> ld4))"
            using start valid Some True u b(1,6) p(1) port(8) by (simp add: evtchn_from_port_Some b(2)[symmetric] w34)
          have same: "wlink (w3(li \<mapsto> ld4)) = wlink w3"
            using b(6) by (intro ext) (simp add: wlink_def keeps_ports_chan[OF p(3)])
          have lp: "unat (of_nat lp :: u32) = lp" using port(11) by (simp add: unat_of_nat_small)
          have "evt_guar w (w3(li \<mapsto> ld4))" using evt_guar_trans g1 b(3) p(2) by blast
          then show ?thesis
            using res b(4,5) p(4) lp unfolding Let_def li_def[symmetric] rp_def[symmetric] ri_def[symmetric]
            by (auto simp: same)
        qed
      qed
    qed
  qed
qed

section \<open>Sending\<close>

text \<open>The other end of an interdomain channel exists.\<close>

lemma peer_channel:
  assumes w: "evt_wf w" "w i = Some d" and c: "chan d p = Some c" "chn_state c = ECS_INTERDOMAIN j q"
  obtains d' c' v' where "w j = Some d'" "chan d' q = Some c'" "chn_state c' = ECS_INTERDOMAIN i p"
    "vcpu_at d' (notify_vcpu_id c') = Some v'" "evt_dom_ok d'"
proof -
  have "wlink w i p = Some (j, q)" using w c wlink_Some by blast
  from evt_wfD(2)[OF w(1) this] obtain d' c' where d': "w j = Some d'" "chan d' q = Some c'" "chn_state c' = ECS_INTERDOMAIN i p"
    using wlink_Some by blast
  have "evt_dom_ok d'" using evt_wfD(1)[OF w(1) d'(1)] .
  moreover obtain v' where "vcpu_at d' (notify_vcpu_id c') = Some v'" using chan_vcpu[OF calculation d'(2)] .
  ultimately show thesis using d' that by blast
qed

lemma evtchn_send_ok:
  assumes w: "evt_wf w" "w li = Some ld"
  shows "runs (evtchn_send env li lport w) w"
proof -
  have ok: "evt_dom_ok ld" using evt_wfD(1)[OF w] .
  note valid = port_valid_chan[OF evt_dom_okD(1)[OF ok], of lport]
  have refl: "evt_guar w w" using evt_guar_refl[OF w(1)] .
  show ?thesis
  proof (cases "chan ld lport")
    case None
    then show ?thesis using w valid refl by (simp add: evtchn_send_def)
  next
    case (Some lc)
    note S = evtchn_send_def evtchn_from_port_Some[OF Some]
    show ?thesis
    proof (cases "consumer_is_xen lc \<or> xsm_evtchn_send env li lport \<noteq> 0")
      case True
      then show ?thesis using w valid refl Some by (auto simp: S)
    next
      case False
      show ?thesis
      proof (cases "chn_state lc")
        case (ECS_INTERDOMAIN ri rport)
        from peer_channel[OF w Some ECS_INTERDOMAIN] obtain rd rc v where
          r: "w ri = Some rd" "chan rd rport = Some rc" "vcpu_at rd (notify_vcpu_id rc) = Some v" "evt_dom_ok rd" by metis
        show ?thesis
        proof (cases "consumer_is_xen rc")
          case True
          define rd' where "rd' = log_call (Call_vcpu_wake (notify_vcpu_id rc)) (put_vcpu (notify_vcpu_id rc) (v\<lparr>VPF_blocked_in_xen := False\<rparr>) rd)"
          have "vtab rd' = vtab rd" using r(3) by (simp add: rd'_def vtab_put fun_upd_idem_iff vtab_def)
          then have "keeps_ports rd rd'" by (simp add: keeps_ports_def rd'_def)
          then have "evt_guar w (w(ri \<mapsto> rd'))" using evt_guar_upd[OF w(1) r(1)] keeps_ports_step[OF r(4)] by blast
          then show ?thesis
            using w valid Some False ECS_INTERDOMAIN r True refl by (simp add: S evtchn_from_port_Some rd'_def)
        next
          case nx: False
          from evt_guar_pending[OF w(1) r(1)] r(3) obtain x rd' where
            "evtchn_set_pending (notify_vcpu_id rc) rport rd = Inr (x, rd')" "evt_guar w (w(ri \<mapsto> rd'))" by blast
          then show ?thesis
            using w valid Some False ECS_INTERDOMAIN r nx by (simp add: S evtchn_from_port_Some)
        qed
      next
        case ECS_IPI
        obtain v where v: "vcpu_at ld (notify_vcpu_id lc) = Some v" using chan_vcpu[OF ok Some] .
        from evt_guar_pending[OF w] v obtain x ld' where
          "evtchn_set_pending (notify_vcpu_id lc) lport ld = Inr (x, ld')" "evt_guar w (w(li \<mapsto> ld'))" by blast
        then show ?thesis using w valid Some False ECS_IPI by (simp add: S)
      qed (use w valid Some False refl in \<open>simp_all add: S\<close>)
    qed
  qed
qed

lemma evtchn_status_ok:
  assumes w: "evt_wf w" "w (current_domain env) \<noteq> None"
  shows "\<exists>rc s. evtchn_status env st w = Inr (rc, s)"
proof (cases "rcu_lock_target_domain_by_id env w (st_dom st)")
  case (Inr di)
  then obtain d where d: "w di = Some d" using w(2) target_domain by blast
  have ok: "evt_dom_ok d" using evt_wfD(1)[OF w(1) d] .
  show ?thesis
    using Inr d port_valid_chan[OF evt_dom_okD(1)[OF ok], of "unat (st_port st)"]
    by (cases "chan d (unat (st_port st))") (auto simp: evtchn_status_def Let_def evtchn_from_port_Some)
qed (simp add: evtchn_status_def)

lemma evtchn_unmask_ok:
  assumes w: "evt_wf w" "w (current_domain env) = Some d"
  shows "runs (evtchn_unmask env port w) w"
proof -
  have ok: "evt_dom_ok d" using evt_wfD(1)[OF w] .
  have refl: "evt_guar w w" using evt_guar_refl[OF w(1)] .
  show ?thesis
  proof (cases "chan d port")
    case None
    then show ?thesis using w refl port_valid_chan[OF evt_dom_okD(1)[OF ok], of port] by (simp add: evtchn_unmask_def)
  next
    case (Some c)
    define d1 where "d1 = d\<lparr>evtchn_mask := (evtchn_mask d)(port := False)\<rparr>"
    have k1: "keeps_ports d d1" by (simp add: keeps_ports_def d1_def)
    obtain v where v: "vcpu_at d1 (notify_vcpu_id c) = Some v" using chan_vcpu[OF ok Some] by (auto simp: d1_def)
    from raise_upcall_ok[OF v, of port] obtain d2 where d2: "raise_upcall (notify_vcpu_id c) port d1 = Inr d2" "keeps_ports d1 d2" by blast
    have "evt_guar w (w(current_domain env \<mapsto> e))" if "e = d1 \<or> e = d2" for e
      using evt_guar_upd[OF w keeps_ports_step[OF ok]] k1 keeps_ports_trans[OF k1 d2(2)] that by blast
    then show ?thesis
      using w Some d2(1) port_valid_chan[OF evt_dom_okD(1)[OF ok], of port]
      by (auto simp: evtchn_unmask_def Let_def evtchn_from_port_Some d1_def)
  qed
qed

lemma put_notify_step:
  assumes d: "evt_dom_ok d" and c: "chan d p = Some c" and v: "vcpu_at d vid \<noteq> None"
    and s: "(\<exists>r. chn_state c = ECS_UNBOUND r) \<or> (\<exists>j q. chn_state c = ECS_INTERDOMAIN j q) \<or>
      (\<exists>q. chn_state c = ECS_VIRQ q \<and> virq_global q)"
  shows "dom_step d (put_evtchn p (c\<lparr>notify_vcpu_id := vid\<rparr>) d)"
proof (rule put_step[OF d c])
  show "chan_ok (vtab d) p (c\<lparr>notify_vcpu_id := vid\<rparr>)"
    using ports_okD(2)[OF evt_dom_okD(2)[OF d] c] s v by (auto simp: chan_ok_def vtab_None)
qed (use s in \<open>auto simp: virq_of_def pirq_of_def links_of_def inter_of_def\<close>)

lemma rebind_pirq_ok:
  assumes ok: "evt_dom_ok d" and c: "chan d port = Some c" "chn_state c = ECS_PIRQ irq n r" and v: "vcpu_at d vid = Some v"
  shows "\<exists>d1 c1 v1 d3. unlink_pirq_port port (notify_vcpu_id c) d = Inr d1 \<and> chan d1 port = Some c1 \<and>
    vcpu_at d1 vid = Some v1 \<and> dom_step d d3 \<and>
    link_pirq_port port vid (log_call (Call_pirq_set_affinity irq (processor v1))
      (put_evtchn port (c1\<lparr>notify_vcpu_id := vid\<rparr>) d1)) = Inr d3"
proof -
  define old where "old = notify_vcpu_id c"
  have base: "dom_base d" "linked (view links_of (chan d)) (hview (vtab d))" using ok by (simp_all add: evt_dom_ok_base)
  have lv: "view links_of (chan d) port = Some (n, r, old)" using c by (simp add: view_at links_of_def old_def)
  obtain vo where vo: "vcpu_at d old = Some vo" using chan_vcpu[OF ok c(1)] by (auto simp: old_def)
  obtain d1 where d1: "unlink_pirq_port port old d = Inr d1" "relinked d d1"
    "view links_of (chan d1) = set_prev n r (set_next r n (view links_of (chan d)))"
    "hview (vtab d1) = (if r = 0 then (hview (vtab d))(old := n) else hview (vtab d))"
    using unlink_pirq_port_ok[OF dom_baseD(1)[OF base(1)] base(2) lv vo] by blast
  obtain c1 where c1: "chan d1 port = Some c1" "relink1 c c1" using relinked_chan(2)[OF d1(2) c(1)] by blast
  obtain n1 r1 where s1: "chn_state c1 = ECS_PIRQ irq n1 r1" using c1(2) c(2) by (auto simp: relink1_def)
  obtain v1 where v1: "vcpu_at d1 vid = Some v1" using relinked_vcpu(1)[OF d1(2), of vid] v by auto
  define c2 where "c2 = c1\<lparr>notify_vcpu_id := vid\<rparr>"
  define d2 where "d2 = log_call (Call_pirq_set_affinity irq (processor v1)) (put_evtchn port c2 d1)"
  have b1: "dom_base d1" using relinked_base[OF base(1) d1(2)] .
  note st = put_evtchn_struct[OF dom_baseD(1)[OF b1], of port c2]
  have ch2: "chan d2 = (chan d1)(port \<mapsto> c2)" using st(2) c1 by (simp add: d2_def)
  have views: "virq_of c2 = virq_of c1" "pirq_of c2 = pirq_of c1" "inter_of c2 = inter_of c1"
    using s1 by (simp_all add: c2_def virq_of_def pirq_of_def)
  have same: "(view g (chan d1))(port := g c2) = view g (chan d1)" if "g c2 = g c1" for g :: "evtchn \<Rightarrow> 'z option"
    using that c1(1) by (simp add: fun_upd_idem view_def)
  have p0: "port \<noteq> 0" using linkedD(1)[OF base(2) lv] .
  have ck2: "chan_ok (vtab d1) s e" if "((chan d1)(port \<mapsto> c2)) s = Some e" for s e
    using that dom_baseD(3)[OF b1, of s e] s1 p0 v1 by (auto simp: chan_ok_def c2_def vtab_None split: if_splits)
  have b2: "dom_base d2"
    using b1 st(1) c1(1) ck2 unfolding dom_base_def ch2 view_upd same[of virq_of, OF views(1)] same[of pirq_of, OF views(2)]
    by (auto simp: d2_def)
  have fr2: "dom_frame d1 d2" using s1 c1(1) unfolding dom_frame_def ch2 by (auto simp: d2_def)
  have in2: "view inter_of (chan d2) = view inter_of (chan d1)" using same[of inter_of, OF views(3)] by (simp add: ch2)
  have lv2: "view links_of (chan d2) port = Some (n1, r1, vid)" using s1 by (simp add: ch2 links_of_def c2_def)
  have l1: "linked ((view links_of (chan d1))(port := None)) (hview (vtab d1))"
    unfolding d1(3,4) by (rule linked_unlink[OF base(2) lv])
  have "vtab d2 = vtab d1" by (simp add: d2_def)
  then have l2: "linked ((view links_of (chan d2))(port := None)) (hview (vtab d2))"
    using l1 by (simp add: ch2)
  have v2: "vcpu_at d2 vid = Some v1" using v1 by (simp add: d2_def)
  obtain d3 where d3: "link_pirq_port port vid d2 = Inr d3" "relinked d2 d3" "linked (view links_of (chan d3)) (hview (vtab d3))"
    using link_pirq_port_ok[OF dom_baseD(1)[OF b2] lv2 p0 l2 v2] by blast
  have s3: "dom_step d2 d3" using relinked_dom_step[OF b2 d3(2,3)] .
  have "dom_step d d3"
    using s3 in2 fr2 relinked_ports(3)[OF d1(2) base(1)] relinked_frame[OF d1(2)] dom_frame_trans
    unfolding dom_step_def by metis
  then show ?thesis using d1(1) c1(1) v1 d3(1) unfolding old_def d2_def c2_def by blast
qed

lemma evtchn_bind_vcpu_ok:
  assumes w: "evt_wf w" "w (current_domain env) = Some d"
  shows "runs (evtchn_bind_vcpu env port vid w) w"
proof -
  define di where "di = current_domain env"
  have ok: "evt_dom_ok d" using evt_wfD(1)[OF w] .
  have refl: "evt_guar w w" using evt_guar_refl[OF w(1)] .
  note valid = port_valid_chan[OF evt_dom_okD(1)[OF ok], of port]
  note B = evtchn_bind_vcpu_def Let_def
  consider "vcpu_at d vid = None \<or> chan d port = None" | v c where "vcpu_at d vid = Some v" "chan d port = Some c" by (metis not_None_eq)
  then show ?thesis
  proof cases
    case 1
    then show ?thesis using w refl valid vcpu_absent[of vid d] by (auto simp: B)
  next
    case (2 v c)
    have vv: "vid < max_vcpus d" "ed_vcpu d ! vid = Some v" using 2(1) by (auto simp: vcpu_at_def split: if_splits)
    have u: "to_u16 vid = vid" using vv(1) evt_dom_okD(3)[OF ok] by simp
    have vd: "port_is_valid d port" using valid 2 by simp
    have step: "evt_guar w (w(di \<mapsto> put_evtchn port (c\<lparr>notify_vcpu_id := vid\<rparr>) d))"
      if "(\<exists>r. chn_state c = ECS_UNBOUND r) \<or> (\<exists>j q. chn_state c = ECS_INTERDOMAIN j q) \<or> (\<exists>q. chn_state c = ECS_VIRQ q \<and> virq_global q)"
      using evt_guar_upd[OF w put_notify_step[OF ok 2(2) _ that]] 2(1) by (simp add: di_def)
    show ?thesis
    proof (cases "consumer_is_xen c")
      case True
      then show ?thesis using w refl vv vd 2 by (simp add: B evtchn_from_port_Some)
    next
      case nx: False
      note S = w vv vd 2(2) nx u refl
      show ?thesis
      proof (cases "chn_state c")
        case (ECS_VIRQ q)
        then obtain i where "view virq_of (chan d) port = Some (q, i)" using 2(2) by (simp add: view_at virq_of_def)
        then have "q < 24" using ports_okD(3)[OF evt_dom_okD(2)[OF ok]] unfolding virqs_ok_def const_nat by blast
        then show ?thesis using S ECS_VIRQ step by (simp add: B evtchn_from_port_Some virq_is_global_Inr di_def)
      next
        case (ECS_PIRQ irq n r)
        show ?thesis
        proof (cases "notify_vcpu_id c = vid")
          case True
          then show ?thesis using S ECS_PIRQ by (simp add: B evtchn_from_port_Some)
        next
          case False
          from rebind_pirq_ok[OF ok 2(2) ECS_PIRQ 2(1)] obtain d1 c1 v1 d3 where
            x: "unlink_pirq_port port (notify_vcpu_id c) d = Inr d1" "chan d1 port = Some c1" "vcpu_at d1 vid = Some v1" "dom_step d d3"
            "link_pirq_port port vid (log_call (Call_pirq_set_affinity irq (processor v1))
              (put_evtchn port (c1\<lparr>notify_vcpu_id := vid\<rparr>) d1)) = Inr d3" by blast
          have "evt_guar w (w(di \<mapsto> d3))" using evt_guar_upd[OF w x(4)] by (simp add: di_def)
          moreover have "evtchn_bind_vcpu env port vid w = Inr (0, w(di \<mapsto> d3))"
            using S ECS_PIRQ False x by (simp add: B evtchn_from_port_Some di_def)
          ultimately show ?thesis by simp
        qed
      qed (use S step in \<open>simp_all add: B evtchn_from_port_Some di_def\<close>)
    qed
  qed
qed

end
