(* ===== verification/Event_Lifecycle.thy ===== *)
theory Event_Lifecycle
  imports Event_Ops
begin

text \<open>
  Loops and life cycle of event channels: delivery of virtual and physical interrupts, reset,
  channels consumed by the hypervisor, initialisation, the walk over the list of physical
  interrupts and the teardown of a dying domain; the dispatch of the hypercall; and the properties
  of the component.
\<close>

section \<open>Delivery of interrupts\<close>

lemma virq_of_Some: "virq_of c = Some (q, i) \<Longrightarrow> chn_state c = ECS_VIRQ q"
  by (cases "chn_state c") (auto simp: virq_of_def)

lemma virq_table:
  assumes ok: "evt_dom_ok d" and v: "vcpu_at d i = Some v" and q: "q < NR_VIRQS"
  shows "length (virq_to_evtchn v) = NR_VIRQS"
    and "virq_to_evtchn v ! q \<noteq> 0 \<Longrightarrow>
      \<exists>c. chan d (virq_to_evtchn v ! q) = Some c \<and> chn_state c = ECS_VIRQ q"
proof -
  have vt: "vtab d i = Some (virq_to_evtchn v, pirq_evtchn_head v)" using v by (simp add: vtab_def)
  note vo = ports_okD(3)[OF evt_dom_okD(2)[OF ok]]
  show "length (virq_to_evtchn v) = NR_VIRQS" using vo vt unfolding virqs_ok_def by blast
  assume "virq_to_evtchn v ! q \<noteq> 0"
  then have "view virq_of (chan d) (virq_to_evtchn v ! q) = Some (q, i)" using vo vt q unfolding virqs_ok_def by blast
  then show "\<exists>c. chan d (virq_to_evtchn v ! q) = Some c \<and> chn_state c = ECS_VIRQ q"
    by (auto simp: view_def bind_eq_Some_conv dest: virq_of_Some)
qed

lemma set_pending_step:
  assumes "evt_dom_ok d" "vcpu_at d vid \<noteq> None"
  shows "\<exists>r d'. evtchn_set_pending vid port d = Inr (r, d') \<and> dom_step d d'"
proof -
  from assms(2) obtain v where "vcpu_at d vid = Some v" by auto
  from evtchn_set_pending_ok[OF assms(1) this, of port] show ?thesis
    using keeps_ports_step[OF assms(1)] by blast
qed

lemma send_guest_vcpu_virq_ok:
  assumes ok: "evt_dom_ok d" and v: "vcpu_at d i = Some v" and q: "q < NR_VIRQS" "\<not> virq_global q"
  shows "\<exists>d'. send_guest_vcpu_virq i q d = Inr d' \<and> dom_step d d'"
proof -
  note t = virq_table[OF ok v q(1)]
  from set_pending_step[OF ok, of i "virq_to_evtchn v ! q"] v obtain r d' where
    "evtchn_set_pending i (virq_to_evtchn v ! q) d = Inr (r, d')" "dom_step d d'" by auto
  then show ?thesis
    using t(1) q v dom_step_refl[OF ok] by (auto simp: send_guest_vcpu_virq_def virq_is_global_Inr)
qed

lemma send_guest_global_virq_ok:
  assumes ok: "evt_dom_ok d" and q: "q < NR_VIRQS" "virq_global q"
  shows "\<exists>d'. send_guest_global_virq q d = Inr d' \<and> dom_step d d'"
proof -
  obtain v where v: "vcpu_at d 0 = Some v" using vcpu0[OF ok] by auto
  then have v0: "ed_vcpu d \<noteq> []" "ed_vcpu d ! 0 \<noteq> None" by (auto simp: vcpu_at_def split: if_splits)
  note t = virq_table[OF ok v q(1)]
  show ?thesis
  proof (cases "virq_to_evtchn v ! q = 0")
    case True
    then show ?thesis using t(1) q v v0 dom_step_refl[OF ok] by (auto simp: send_guest_global_virq_def virq_is_global_Inr)
  next
    case False
    then obtain c where c: "chan d (virq_to_evtchn v ! q) = Some c" using t(2) by blast
    obtain u where u: "vcpu_at d (notify_vcpu_id c) = Some u" using chan_vcpu[OF ok c] .
    then obtain r d' where "evtchn_set_pending (notify_vcpu_id c) (virq_to_evtchn v ! q) d = Inr (r, d')" "dom_step d d'"
      using set_pending_step[OF ok] by blast
    then show ?thesis using False t(1) q v v0 c by (auto simp: send_guest_global_virq_def virq_is_global_Inr evtchn_from_port_Some)
  qed
qed

lemma send_guest_pirq_ok:
  assumes ok: "evt_dom_ok d" and q: "q < nr_pirqs d" "ed_hvm d \<or> pirq_to_evtchn d ! q \<noteq> 0"
  shows "\<exists>r d'. send_guest_pirq q d = Inr (r, d') \<and> dom_step d d'"
proof (cases "pirq_to_evtchn d ! q = 0")
  case True
  then show ?thesis using q dom_step_refl[OF ok] by (simp add: send_guest_pirq_def)
next
  case False
  then have "view pirq_of (chan d) (pirq_to_evtchn d ! q) = Some q"
    using ports_okD(4)[OF evt_dom_okD(2)[OF ok]] q(1) unfolding pirqs_ok_def by blast
  then obtain c where c: "chan d (pirq_to_evtchn d ! q) = Some c" by (auto simp: view_def bind_eq_Some_conv)
  obtain u where u: "vcpu_at d (notify_vcpu_id c) = Some u" using chan_vcpu[OF ok c] .
  then obtain r d' where "evtchn_set_pending (notify_vcpu_id c) (pirq_to_evtchn d ! q) d = Inr (r, d')" "dom_step d d'"
    using set_pending_step[OF ok] by blast
  then show ?thesis using False q c by (simp add: send_guest_pirq_def evtchn_from_port_Some)
qed

section \<open>Loops over the ports\<close>

lemma close_all_ok:
  assumes b: "\<And>i w. evt_wf w \<Longrightarrow> w di \<noteq> None \<Longrightarrow> \<exists>w'. body i w = Inr w' \<and> evt_guar w w'"
    and w: "evt_wf w" "w di \<noteq> None"
  shows "\<exists>w'. close_all body di i n w = Inr w' \<and> evt_guar w w'"
  using w
proof (induction n arbitrary: i w)
  case 0
  then show ?case using evt_guar_refl by simp
next
  case (Suc n)
  then obtain d where d: "w di = Some d" by auto
  show ?case
  proof (cases "port_is_valid d i")
    case True
    from b[OF Suc.prems, of i] obtain w1 where w1: "body i w = Inr w1" "evt_guar w w1" by blast
    from Suc.IH[OF evt_guar_wf[OF w1(2)], of "i + 1"] evt_guar_dom[OF w1(2), of di] d obtain w2 where
      "close_all body di (i + 1) n w1 = Inr w2" "evt_guar w1 w2" by auto
    then show ?thesis using d True w1 evt_guar_trans by auto
  next
    case False
    then show ?thesis using d evt_guar_refl[OF Suc.prems(1)] by simp
  qed
qed

lemma close_port_unit:
  assumes "evt_wf w" "w di \<noteq> None" "others_ok env"
  shows "\<exists>w'. bindR (evtchn_close_port env di i w) (\<lambda>(_, w). Inr w) = Inr w' \<and> evt_guar w w'"
  using evtchn_close_port_ok[of w di _ env i] assms by (fastforce simp: runs_def)

lemma evtchn_reset_ok:
  assumes w: "evt_wf w" "w (current_domain env) \<noteq> None" and o: "others_ok env"
  shows "runs (evtchn_reset env r w) w"
proof (cases "rcu_lock_target_domain_by_id env w r")
  case (Inl e)
  then show ?thesis using evt_guar_refl[OF w(1)] by (simp add: evtchn_reset_def)
next
  case (Inr di)
  then obtain d where d: "w di = Some d" using w(2) target_domain by blast
  then have "\<exists>w'. close_all (\<lambda>i w. bindR (evtchn_close_port env di i w) (\<lambda>(_, w). Inr w)) di 0 (MAX_EVTCHNS d + 1) w = Inr w' \<and> evt_guar w w'"
    using close_port_unit[OF _ _ o] w(1) by (intro close_all_ok) auto
  then show ?thesis
    using Inr d evt_guar_refl[OF w(1)] by (auto simp: evtchn_reset_def Let_def simp del: close_all.simps)
qed

lemma notify_via_xen_event_channel_ok:
  assumes w: "evt_wf w" "w li = Some ld" and c: "chan ld lport = Some lc" "consumer_is_xen lc"
  shows "\<exists>w'. notify_via_xen_event_channel li lport w = Inr w' \<and> evt_guar w w'"
proof -
  have ok: "evt_dom_ok ld" using evt_wfD(1)[OF w] .
  note valid = port_valid_chan[OF evt_dom_okD(1)[OF ok], of lport]
  have refl: "evt_guar w w" using evt_guar_refl[OF w(1)] .
  show ?thesis
  proof (cases "chn_state lc")
    case (ECS_INTERDOMAIN ri rport)
    from peer_channel[OF w c(1) ECS_INTERDOMAIN] obtain rd rc v where
      r: "w ri = Some rd" "chan rd rport = Some rc" "vcpu_at rd (notify_vcpu_id rc) = Some v" "evt_dom_ok rd" by metis
    from evt_guar_pending[OF w(1) r(1)] r(3) obtain x rd' where
      "evtchn_set_pending (notify_vcpu_id rc) rport rd = Inr (x, rd')" "evt_guar w (w(ri \<mapsto> rd'))" by blast
    then show ?thesis using w valid c ECS_INTERDOMAIN r refl
      by (simp add: notify_via_xen_event_channel_def evtchn_from_port_Some)
  qed (use w valid c refl in \<open>simp_all add: notify_via_xen_event_channel_def evtchn_from_port_Some\<close>)
qed

lemma drop_consumer_step:
  assumes d: "evt_dom_ok d" and c: "chan d p = Some c"
  shows "dom_step d (put_evtchn p (c\<lparr>consumer_is_xen := False\<rparr>) d)"
proof (rule put_step[OF d c])
  show "virq_of (c\<lparr>consumer_is_xen := False\<rparr>) = virq_of c" "pirq_of (c\<lparr>consumer_is_xen := False\<rparr>) = pirq_of c"
    "links_of (c\<lparr>consumer_is_xen := False\<rparr>) = links_of c" "inter_of (c\<lparr>consumer_is_xen := False\<rparr>) = inter_of c"
    by (cases "chn_state c"; simp add: virq_of_def pirq_of_def links_of_def)+
  show "chan_ok (vtab d) p (c\<lparr>consumer_is_xen := False\<rparr>)"
    using ports_okD(2)[OF evt_dom_okD(2)[OF d] c] by (simp add: chan_ok_def)
qed simp

lemma free_xen_event_channel_ok:
  assumes w: "evt_wf w" "w di = Some d" and c: "chan d port = Some c" "consumer_is_xen c" and o: "others_ok env"
  shows "\<exists>w'. free_xen_event_channel env di port w = Inr w' \<and> evt_guar w w'"
proof -
  have ok: "evt_dom_ok d" using evt_wfD(1)[OF w] .
  define w1 where "w1 = w(di \<mapsto> put_evtchn port (c\<lparr>consumer_is_xen := False\<rparr>) d)"
  have g: "evt_guar w w1" using evt_guar_upd[OF w drop_consumer_step[OF ok c(1)]] by (simp add: w1_def)
  from close_port_unit[OF evt_guar_wf[OF g] _ o, of di port] obtain w2 where
    "bindR (evtchn_close_port env di port w1) (\<lambda>(_, w). Inr w) = Inr w2" "evt_guar w1 w2" by (auto simp: w1_def)
  then show ?thesis
    using w c port_valid_chan[OF evt_dom_okD(1)[OF ok], of port] evt_guar_refl[OF w(1)] evt_guar_trans[OF g]
    by (auto simp: free_xen_event_channel_def evtchn_from_port_Some w1_def)
qed

text \<open>The hypercall.\<close>

lemma copy_back_runs: "runs3 r w \<Longrightarrow> runs3 (copy_back b con op r) w"
  by (auto simp: runs3_def copy_back_def)

lemma runs_with_op: "runs r w \<Longrightarrow> runs3 (bindR r (\<lambda>(rc, w). Inr (rc, op, w))) w"
  by (auto simp: runs_def runs3_def)

lemma do_event_channel_op_ok:
  assumes w: "evt_wf w" "w (current_domain env) \<noteq> None" and x: "xsm_allocates env" and o: "others_ok env"
  shows "runs3 (do_event_channel_op env copy_in copy_out op w) w"
proof -
  obtain d where d: "w (current_domain env) = Some d" using w(2) by auto
  have refl: "evt_guar w w" using evt_guar_refl[OF w(1)] .
  show ?thesis
  proof (cases op)
    case (EVTCHNOP_alloc_unbound a)
    then show ?thesis using copy_back_runs[OF evtchn_alloc_unbound_ok[OF w x]] refl by (simp add: do_event_channel_op_def)
  next
    case (EVTCHNOP_bind_interdomain b)
    have "runs3 (evtchn_bind_interdomain env b w) w"
      using evtchn_bind_interdomain_cases[OF w(1) d x, of b] by (auto simp: runs3_def)
    from copy_back_runs[OF this] show ?thesis using EVTCHNOP_bind_interdomain refl by (simp add: do_event_channel_op_def)
  next
    case (EVTCHNOP_bind_virq b)
    then show ?thesis using copy_back_runs[OF evtchn_bind_virq_ok[OF w(1) d x]] refl by (simp add: do_event_channel_op_def)
  next
    case (EVTCHNOP_bind_ipi b)
    then show ?thesis using copy_back_runs[OF evtchn_bind_ipi_ok[OF w(1) d x]] refl by (simp add: do_event_channel_op_def)
  next
    case (EVTCHNOP_bind_pirq b)
    then show ?thesis using copy_back_runs[OF evtchn_bind_pirq_ok[OF w(1) d x]] refl by (simp add: do_event_channel_op_def)
  next
    case (EVTCHNOP_close p)
    then show ?thesis using runs_with_op[OF evtchn_close_port_ok[OF w(1) d o, of "unat p"], of op] refl
      by (simp add: do_event_channel_op_def evtchn_close_def)
  next
    case (EVTCHNOP_send p)
    then show ?thesis using runs_with_op[OF evtchn_send_ok[OF w(1) d, of env "unat p"], of op] refl by (simp add: do_event_channel_op_def)
  next
    case (EVTCHNOP_status s)
    from evtchn_status_ok[OF w] obtain rc s' where "evtchn_status env s w = Inr (rc, s')" by blast
    then have "runs3 (bindR (evtchn_status env s w) (\<lambda>(rc, s). Inr (rc, s, w))) w" using refl by simp
    from copy_back_runs[OF this] show ?thesis using EVTCHNOP_status refl by (simp add: do_event_channel_op_def)
  next
    case (EVTCHNOP_bind_vcpu p v)
    then show ?thesis using runs_with_op[OF evtchn_bind_vcpu_ok[OF w(1) d, of "unat p" "unat v"], of op] refl by (simp add: do_event_channel_op_def)
  next
    case (EVTCHNOP_unmask p)
    then show ?thesis using runs_with_op[OF evtchn_unmask_ok[OF w(1) d, of "unat p"], of op] refl by (simp add: do_event_channel_op_def)
  next
    case (EVTCHNOP_reset r)
    then show ?thesis using runs_with_op[OF evtchn_reset_ok[OF w o, of r], of op] refl by (simp add: do_event_channel_op_def)
  next
    case (EVTCHNOP_unknown n)
    then show ?thesis using refl by (simp add: do_event_channel_op_def)
  qed
qed

section \<open>Walking the list of physical interrupts\<close>

inductive port_path :: "(nat \<Rightarrow> (nat \<times> nat \<times> nat) option) \<Rightarrow> nat \<Rightarrow> nat list \<Rightarrow> bool" for pl where
  path_end: "port_path pl 0 []"
| path_step: "p \<noteq> 0 \<Longrightarrow> pl p = Some (n, r, v) \<Longrightarrow> port_path pl n ps \<Longrightarrow> port_path pl p (p # ps)"

inductive_cases port_path_ConsE: "port_path pl p (q # ps)"

lemma port_path_head: "port_path pl p ps \<Longrightarrow> p \<noteq> 0 \<Longrightarrow> p \<in> set ps"
  by (erule port_path.cases) auto

definition is_rank :: "(nat \<Rightarrow> int) \<Rightarrow> (nat \<Rightarrow> (nat \<times> nat \<times> nat) option) \<Rightarrow> bool" where
  "is_rank rk pl \<longleftrightarrow> (\<forall>p n r v. pl p = Some (n, r, v) \<longrightarrow> r \<noteq> 0 \<longrightarrow> rk r < rk p)"

lemma is_rankD: "is_rank rk pl \<Longrightarrow> pl p = Some (n, r, v) \<Longrightarrow> r \<noteq> 0 \<Longrightarrow> rk r < rk p"
  by (simp add: is_rank_def)

lemma port_path_next:
  assumes "port_path pl p ps" "q \<in> set ps" "pl q = Some (n, r, v)" "n \<noteq> 0"
  shows "n \<in> set ps"
  using assms
proof (induction rule: port_path.induct)
  case (path_step p n' r' v' ps)
  show ?case
  proof (cases "q = p")
    case True
    then have "n = n'" using path_step by simp
    then show ?thesis using port_path_head[OF path_step.hyps(3)] path_step.prems(3) by simp
  next
    case False
    then show ?thesis using path_step by simp
  qed
qed simp

lemma port_path_exists:
  assumes l: "linked pl hv" and f: "finite {q. pl q \<noteq> None}"
    and rk: "is_rank rk pl"
    and p: "p \<noteq> 0 \<Longrightarrow> \<exists>n r. pl p = Some (n, r, v)"
  shows "\<exists>ps. port_path pl p ps \<and> distinct ps \<and>
    (\<forall>q\<in>set ps. (\<exists>n r. pl q = Some (n, r, v)) \<and> rk p \<le> rk q)"
  using p
proof (induction "card {q. pl q \<noteq> None \<and> rk p \<le> rk q}" arbitrary: p rule: less_induct)
  case less
  note D = linkedD[OF l]
  show ?case
  proof (cases "p = 0")
    case True
    then show ?thesis using path_end by fastforce
  next
    case False
    then obtain n r where pn: "pl p = Some (n, r, v)" using less.prems by blast
    show ?thesis
    proof (cases "n = 0")
      case True
      then have "port_path pl p [p]" using path_step[where pl = pl, OF False pn] path_end by simp
      then show ?thesis using pn by fastforce
    next
      case n: False
      then obtain n' where n': "pl n = Some (n', p, v)" using D(2)[OF pn] by blast
      have r: "rk p < rk n" using is_rankD[OF rk, of n, OF n' False] .
      have "{q. pl q \<noteq> None \<and> rk n \<le> rk q} \<subset> {q. pl q \<noteq> None \<and> rk p \<le> rk q}"
      proof -
        have "p \<in> {q. pl q \<noteq> None \<and> rk p \<le> rk q}" "p \<notin> {q. pl q \<noteq> None \<and> rk n \<le> rk q}" using r pn by auto
        moreover have "{q. pl q \<noteq> None \<and> rk n \<le> rk q} \<subseteq> {q. pl q \<noteq> None \<and> rk p \<le> rk q}" using r by auto
        ultimately show ?thesis by blast
      qed
      moreover have "finite {q. pl q \<noteq> None \<and> rk p \<le> rk q}" by (rule finite_subset[OF _ f]) auto
      ultimately have "card {q. pl q \<noteq> None \<and> rk n \<le> rk q} < card {q. pl q \<noteq> None \<and> rk p \<le> rk q}"
        by (rule psubset_card_mono[rotated])
      from less.hyps[OF this] n' obtain ps where ps: "port_path pl n ps" "distinct ps"
        "\<forall>q\<in>set ps. (\<exists>n r. pl q = Some (n, r, v)) \<and> rk n \<le> rk q" by blast
      have "p \<notin> set ps" using ps(3) r by fastforce
      then have "port_path pl p (p # ps) \<and> distinct (p # ps) \<and>
          (\<forall>q\<in>set (p # ps). (\<exists>n r. pl q = Some (n, r, v)) \<and> rk p \<le> rk q)"
        using path_step[where pl = pl, OF False pn ps(1)] ps(2,3) pn r by fastforce
      then show ?thesis by blast
    qed
  qed
qed

lemma port_path_complete:
  assumes l: "linked pl hv" and f: "finite {q. pl q \<noteq> None}"
    and rk: "is_rank rk pl"
    and ps: "port_path pl (hv v) ps" and q: "pl q = Some (n, r, v)"
  shows "q \<in> set ps"
  using q
proof (induction "card {x. pl x \<noteq> None \<and> rk x \<le> rk q}" arbitrary: q n r rule: less_induct)
  case less
  note D = linkedD[OF l]
  note q = less.prems
  show ?case
  proof (cases "r = 0")
    case True
    then have "hv v = q" using D(3) q by blast
    moreover have "q \<noteq> 0" using D(1)[OF q] .
    ultimately show ?thesis using port_path_head[OF ps] by simp
  next
    case False
    then obtain r' where r': "pl r = Some (q, r', v)" using D(4)[OF q] by blast
    have lt: "rk r < rk q" using is_rankD[OF rk, of q, OF q False] .
    have "{x. pl x \<noteq> None \<and> rk x \<le> rk r} \<subset> {x. pl x \<noteq> None \<and> rk x \<le> rk q}"
    proof -
      have "q \<in> {x. pl x \<noteq> None \<and> rk x \<le> rk q}" "q \<notin> {x. pl x \<noteq> None \<and> rk x \<le> rk r}" using lt q by auto
      moreover have "{x. pl x \<noteq> None \<and> rk x \<le> rk r} \<subseteq> {x. pl x \<noteq> None \<and> rk x \<le> rk q}" using lt by auto
      ultimately show ?thesis by blast
    qed
    moreover have "finite {x. pl x \<noteq> None \<and> rk x \<le> rk q}" by (rule finite_subset[OF _ f]) auto
    ultimately have "card {x. pl x \<noteq> None \<and> rk x \<le> rk r} < card {x. pl x \<noteq> None \<and> rk x \<le> rk q}"
      by (rule psubset_card_mono[rotated])
    from less.hyps[OF this r'] have "r \<in> set ps" .
    then show ?thesis using port_path_next[OF ps _ r'] D(1)[OF q] by blast
  qed
qed

definition pirq_at :: "evt_domain \<Rightarrow> nat \<Rightarrow> nat" where
  "pirq_at d p = the (view pirq_of (chan d) p)"

lemma move_pirqs_loop_path:
  assumes "port_path (view links_of (chan d)) p ps" "length ps < n"
  shows "move_pirqs_loop n cpu p d =
    Some (Inr (d\<lparr>ed_calls := ed_calls d @ map (\<lambda>q. Call_pirq_set_affinity (pirq_at d q) cpu) ps\<rparr>))"
  using assms
proof (induction n arbitrary: p ps d)
  case (Suc n)
  show ?case
  proof (cases ps)
    case Nil
    then have "p = 0" using Suc.prems(1) by (auto elim: port_path.cases)
    then show ?thesis using Nil by simp
  next
    case (Cons q qs)
    then have pq: "p = q" "p \<noteq> 0" and pth: "\<exists>n' r v. view links_of (chan d) p = Some (n', r, v) \<and> port_path (view links_of (chan d)) n' qs"
      using Suc.prems(1) by (auto elim: port_path_ConsE)
    then obtain n' r v where pn: "view links_of (chan d) p = Some (n', r, v)" "port_path (view links_of (chan d)) n' qs" by blast
    obtain c i where c: "chan d p = Some c" "chn_state c = ECS_PIRQ i n' r" using pn(1) links_view_Some by blast
    have i: "pirq_at d p = i" using c by (simp add: pirq_at_def view_at pirq_of_def)
    define d1 where "d1 = log_call (Call_pirq_set_affinity i cpu) d"
    have p1: "port_path (view links_of (chan d1)) n' qs" using pn(2) by (simp add: d1_def)
    have at1: "pirq_at d1 = pirq_at d" by (simp add: pirq_at_def d1_def fun_eq_iff)
    have "move_pirqs_loop (Suc n) cpu p d = move_pirqs_loop n cpu n' d1"
      using pq(2) c by (simp add: evtchn_from_port_Some d1_def)
    also have "\<dots> = Some (Inr (d1\<lparr>ed_calls := ed_calls d1 @ map (\<lambda>q. Call_pirq_set_affinity (pirq_at d1 q) cpu) qs\<rparr>))"
      using Suc.IH[OF p1] Suc.prems(2) Cons by simp
    finally show ?thesis using Cons pq(1) i by (simp add: at1) (simp add: d1_def log_call_def)
  qed
qed simp

lemma evtchn_move_pirqs_ok:
  assumes ok: "evt_dom_ok d" and v: "vcpu_at d vid = Some v" and n: "4096 < n"
  shows "\<exists>ps. evtchn_move_pirqs n vid d =
      Some (Inr (d\<lparr>ed_calls := ed_calls d @ map (\<lambda>p. Call_pirq_set_affinity (pirq_at d p) (processor v)) ps\<rparr>)) \<and>
    distinct ps \<and>
    set ps = {p. \<exists>c i nx pv. chan d p = Some c \<and> chn_state c = ECS_PIRQ i nx pv \<and> notify_vcpu_id c = vid}"
proof -
  define pl where "pl = view links_of (chan d)"
  have l: "linked pl (hview (vtab d))" using ports_okD(5)[OF evt_dom_okD(2)[OF ok]] by (simp add: pl_def)
  have sub: "{q. pl q \<noteq> None} \<subseteq> {..<4096}"
    using chan_bound'[OF evt_dom_okD(1)[OF ok]] by (auto simp: pl_def view_def bind_eq_Some_conv)
  then have f: "finite {q. pl q \<noteq> None}" by (rule finite_subset) simp
  obtain rk :: "nat \<Rightarrow> int" where rk: "is_rank rk pl"
    using linkedD(6)[OF l] unfolding ranked_def is_rank_def by blast
  define h where "h = hview (vtab d) vid"
  have h: "h = pirq_evtchn_head v" using v by (simp add: h_def hview_def vtab_def)
  have "h \<noteq> 0 \<Longrightarrow> \<exists>n r. pl h = Some (n, r, vid)" using linkedD(5)[OF l, of vid] by (auto simp: h_def)
  from port_path_exists[OF l f rk this] obtain ps where ps: "port_path pl h ps" "distinct ps"
    "\<forall>q\<in>set ps. \<exists>n r. pl q = Some (n, r, vid)" by blast
  have "set ps = {q. \<exists>n r. pl q = Some (n, r, vid)}"
    using ps(3) port_path_complete[OF l f rk] ps(1) by (fastforce simp: h_def)
  then have sp: "set ps = {p. \<exists>c i nx pv. chan d p = Some c \<and> chn_state c = ECS_PIRQ i nx pv \<and> notify_vcpu_id c = vid}"
    unfolding pl_def links_view_Some by auto
  have "set ps \<subseteq> {..<4096}" using ps(3) sub by fastforce
  then have "length ps \<le> 4096"
    using ps(2) by (metis card_lessThan card_mono distinct_card finite_lessThan)
  then have "length ps < n" using n by simp
  from move_pirqs_loop_path[OF ps(1)[unfolded pl_def] this, of "processor v"]
  show ?thesis using sp ps(2) v h by (auto simp: evtchn_move_pirqs_def)
qed

section \<open>Teardown\<close>

text \<open>
  In a dying domain other processors may close its ports and the far ends of its channels may come
  and go, but a port does not become one of the hypervisor and is not bound to another domain.
\<close>

definition others_quiet :: "evt_env \<Rightarrow> domid \<Rightarrow> bool" where
  "others_quiet env di \<longleftrightarrow> others_ok env \<and>
     (\<forall>w d d' p c c'. evt_wf w \<longrightarrow> w di = Some d \<longrightarrow> ed_dying d \<longrightarrow> other_cpus env w di = Some d' \<longrightarrow>
        chan d p = Some c \<longrightarrow> chan d' p = Some c' \<longrightarrow>
        (\<not> consumer_is_xen c \<longrightarrow> \<not> consumer_is_xen c') \<and>
        (\<forall>j q j' q'. chn_state c = ECS_INTERDOMAIN j q \<longrightarrow> chn_state c' = ECS_INTERDOMAIN j' q' \<longrightarrow> j' = j))"

definition port_closed :: "evt_domain \<Rightarrow> nat \<Rightarrow> bool" where
  "port_closed d p \<longleftrightarrow> (\<exists>c. chan d p = Some c \<and> chn_state c \<in> {ECS_FREE, ECS_RESERVED})"

lemma close_done_closed: "close_done w i p d w' \<Longrightarrow> \<exists>d'. w' i = Some d' \<and> port_closed d' p"
  by (auto simp: close_done_def closed_port_def port_closed_def)

lemma not_closeable_closed: "chan d p = Some c \<Longrightarrow> \<not> consumer_is_xen c \<Longrightarrow> \<not> closeable d p \<Longrightarrow> port_closed d p"
  by (auto simp: closeable_def port_closed_def)

lemma dying_frame:
  assumes "evt_guar w w'" "w i = Some d" "ed_dying d"
  obtains d' where "w' i = Some d'" "ed_dying d'" "dom_frame d d'"
proof -
  obtain d' where d': "w' i = Some d'" using evt_guar_Some[OF assms(1,2)] .
  have fr: "dom_frame d d'" using assms d' unfolding evt_guar_def evt_frame_def by blast
  then have "ed_dying d' = ed_dying d" unfolding dom_frame_def by blast
  then show thesis using that[OF d' _ fr] assms(3) by blast
qed

lemma close_port_dying:
  assumes w: "evt_wf w" "w di = Some d" "ed_dying d" and q: "others_quiet env di"
    and c: "chan d p = Some c" "\<not> consumer_is_xen c"
  shows "\<exists>rc w' d'. evtchn_close_port env di p w = Inr (rc, w') \<and> evt_guar w w' \<and> w' di = Some d' \<and> port_closed d' p"
  using w(1,2)
proof (cases rule: close_lockedE[of w di d None env p])
  case (closed w')
  then show ?thesis using close_done_closed by (fastforce simp: evtchn_close_port_def)
next
  case refused
  then have "port_closed d p" using not_closeable_closed[OF c] by blast
  then show ?thesis using refused w evt_guar_refl by (auto simp: evtchn_close_port_def)
next
  case (again j x)
  define w1 where "w1 = other_cpus env w"
  have g: "evt_guar w w1" using q w(1) by (simp add: others_quiet_def others_ok_def w1_def)
  obtain d1 where d1: "w1 di = Some d1" "ed_dying d1" "dom_frame d d1" using dying_frame[OF g w(2,3)] .
  obtain c1 where c1: "chan d1 p = Some c1" using d1(3) w(3) c(1) unfolding dom_frame_def by (metis not_None_eq)
  have cs: "chn_state c = ECS_INTERDOMAIN j x" using again(3) w(2) c(1) by (auto simp: wlink_Some)
  have qx: "\<not> consumer_is_xen c1" "\<And>j' q'. chn_state c1 = ECS_INTERDOMAIN j' q' \<Longrightarrow> j' = j"
    using q w c d1(1) c1 cs unfolding others_quiet_def w1_def by blast+
  from evt_guar_wf[OF g] d1(1) show ?thesis
  proof (cases rule: close_lockedE[of w1 di d1 "Some j" env p])
    case (closed w')
    then show ?thesis using again close_done_closed evt_guar_trans[OF g]
      by (fastforce simp: evtchn_close_port_def w1_def[symmetric])
  next
    case refused
    have "\<And>j' q'. wlink w1 di p = Some (j', q') \<Longrightarrow> j = j'" using qx(2) d1(1) c1 by (auto simp: wlink_Some)
    then have "port_closed d1 p" using refused(2) not_closeable_closed[OF c1 qx(1)] by blast
    then show ?thesis using again refused g d1(1) by (auto simp: evtchn_close_port_def w1_def[symmetric])
  qed simp
qed

lemma destroy_port_ok:
  assumes w: "evt_wf w" "w di = Some d" "ed_dying d" and q: "others_quiet env di" and c: "chan d p = Some c"
  shows "\<exists>w' d'. destroy_port env di p w = Inr w' \<and> evt_guar w w' \<and> w' di = Some d' \<and> port_closed d' p"
proof -
  have ok: "evt_dom_ok d" using evt_wfD(1)[OF w(1,2)] .
  define d1 where "d1 = put_evtchn p (c\<lparr>consumer_is_xen := False\<rparr>) d"
  have g: "evt_guar w (w(di \<mapsto> d1))" using evt_guar_upd[OF w(1,2) drop_consumer_step[OF ok c]] by (simp add: d1_def)
  have ch: "chan d1 p = Some (c\<lparr>consumer_is_xen := False\<rparr>)"
    using put_evtchn_struct(2)[OF evt_dom_okD(1)[OF ok], of p] c by (simp add: d1_def)
  have dy: "ed_dying d1" using w(3) by (simp add: d1_def)
  obtain rc w' d' where "evtchn_close_port env di p (w(di \<mapsto> d1)) = Inr (rc, w')" "evt_guar (w(di \<mapsto> d1)) w'" "w' di = Some d'" "port_closed d' p"
    using close_port_dying[OF evt_guar_wf[OF g] _ dy q ch] by auto
  then show ?thesis using evt_guar_trans[OF g] w(2) c by (auto simp: destroy_port_def evtchn_from_port_Some d1_def)
qed

lemma port_closed_frame: "dom_frame d d' \<Longrightarrow> ed_dying d \<Longrightarrow> port_closed d p \<Longrightarrow> port_closed d' p"
  unfolding dom_frame_def port_closed_def by (metis not_None_eq)

lemma destroy_loop_ok:
  assumes "evt_wf w" "w di = Some d" "ed_dying d" "others_quiet env di"
    and "\<And>p. p < i \<Longrightarrow> port_closed d p" "MAX_EVTCHNS d < i + n"
  shows "\<exists>w' d'. close_all (destroy_port env di) di i n w = Inr w' \<and> evt_guar w w' \<and> w' di = Some d' \<and>
    (\<forall>p c. chan d' p = Some c \<longrightarrow> chn_state c \<in> {ECS_FREE, ECS_RESERVED})"
  using assms
proof (induction n arbitrary: i w d)
  case 0
  have "evt_dom_ok d" using evt_wfD(1) 0(1,2) by blast
  then have "p < i" if "chan d p = Some c" for p c using chan_bound[OF evt_dom_okD(1) that] 0(6) by simp
  then have "chn_state c \<in> {ECS_FREE, ECS_RESERVED}" if "chan d p = Some c" for p c
    using 0(5)[of p] that by (auto simp: port_closed_def)
  then show ?case using 0 evt_guar_refl by auto
next
  case (Suc n)
  have ok: "evt_dom_ok d" using evt_wfD(1) Suc.prems(1,2) by blast
  note valid = port_valid_chan[OF evt_dom_okD(1)[OF ok], of i]
  show ?case
  proof (cases "chan d i")
    case None
    have "p < i" if "chan d p = Some c" for p c
      using port_valid_prefix[OF evt_dom_okD(1)[OF ok], of p i] that None by (metis leI option.distinct(1))
    then have "chn_state c \<in> {ECS_FREE, ECS_RESERVED}" if "chan d p = Some c" for p c
      using Suc.prems(5)[of p] that by (auto simp: port_closed_def)
    then show ?thesis using Suc.prems evt_guar_refl None valid by auto
  next
    case (Some c)
    from destroy_port_ok[OF Suc.prems(1-4) Some] obtain w1 d1 where
      w1: "destroy_port env di i w = Inr w1" "evt_guar w w1" "w1 di = Some d1" "port_closed d1 i" by blast
    have fr: "ed_dying d1" "dom_frame d d1" using dying_frame[OF w1(2) Suc.prems(2,3)] w1(3) by auto
    have "port_closed d1 p" if "p < i + 1" for p
      using that w1(4) port_closed_frame[OF fr(2) Suc.prems(3)] Suc.prems(5) by (cases "p = i") auto
    moreover have "MAX_EVTCHNS d1 < i + 1 + n"
      using Suc.prems(6) fr(2) MAX_EVTCHNS_cong[of d1 d] by (simp add: dom_frame_def)
    ultimately obtain w' d' where "close_all (destroy_port env di) di (i + 1) n w1 = Inr w'" "evt_guar w1 w'" "w' di = Some d'"
      "\<forall>p c. chan d' p = Some c \<longrightarrow> chn_state c \<in> {ECS_FREE, ECS_RESERVED}"
      using Suc.IH[OF evt_guar_wf[OF w1(2)] w1(3) fr(1) Suc.prems(4), of "i + 1"] by blast
    then show ?thesis using Suc.prems(2) valid Some w1 evt_guar_trans[OF w1(2)] by auto
  qed
qed

text \<open>Freeing the buckets of a domain whose ports are all closed.\<close>

lemma drop_buckets_ok:
  assumes ok: "evt_dom_ok d" and dy: "ed_dying d"
    and cl: "\<And>p c. chan d p = Some c \<Longrightarrow> chn_state c \<in> {ECS_FREE, ECS_RESERVED}"
  shows "evt_dom_ok (d\<lparr>ed_evtchn := replicate NR_EVTCHN_BUCKETS Bucket_null\<rparr>)"
    and "chan (d\<lparr>ed_evtchn := replicate NR_EVTCHN_BUCKETS Bucket_null\<rparr>) = (\<lambda>_. None)"
proof -
  let ?d = "d\<lparr>ed_evtchn := replicate NR_EVTCHN_BUCKETS Bucket_null\<rparr>"
  show ch: "chan ?d = (\<lambda>_. None)"
  proof
    fix p
    have "p div 128 < 32 \<Longrightarrow> replicate 32 Bucket_null ! (p div 128) = Bucket_null" by (rule nth_replicate)
    then show "chan ?d p = None"
      unfolding chan_def evtchn_from_port_def const_nat by (cases "p div 128 < 32") simp_all
  qed
  have st: "evt_struct ?d" unfolding evt_struct_def by auto
  note po = evt_dom_okD(2)[OF ok]
  have none: "view g (chan d) = (\<lambda>_. None)" if "\<And>c. chn_state c \<in> {ECS_FREE, ECS_RESERVED} \<Longrightarrow> g c = None" for g :: "evtchn \<Rightarrow> 'z option"
    using cl that by (auto simp: view_def fun_eq_iff split: bind_splits)
  have v: "view virq_of (chan d) = (\<lambda>_. None)" "view pirq_of (chan d) = (\<lambda>_. None)" "view links_of (chan d) = (\<lambda>_. None)"
    by (rule none; auto simp: virq_of_def pirq_of_def links_of_def)+
  have e: "view g (\<lambda>_. None) = (\<lambda>_. None)" for g :: "evtchn \<Rightarrow> 'z option" by (simp add: view_def fun_eq_iff)
  have "ports_ok (\<lambda>_. None) (vtab d) (pirq_to_evtchn d)"
    using ports_okD(1,3,4,5)[OF po] unfolding ports_ok_def e v by blast
  then show "evt_dom_ok ?d"
    using ok dy st unfolding evt_dom_ok_def ch by simp
qed

lemma evtchn_destroy_ok:
  assumes w: "evt_wf w" "w di = Some d" "ed_dying d" and q: "others_quiet env di"
  shows "\<exists>w' d'. evtchn_destroy env di w = Inr w' \<and> evt_wf w' \<and> w' di = Some d' \<and> (\<forall>p. chan d' p = None) \<and>
    (\<forall>i p j r. wlink w' i p = Some (j, r) \<longrightarrow> i \<noteq> di \<and> j \<noteq> di) \<and> (\<forall>i. w' i = None \<longleftrightarrow> w i = None)"
proof -
  obtain w1 d1 where w1: "close_all (destroy_port env di) di 0 (MAX_EVTCHNS d + 1) w = Inr w1" "evt_guar w w1" "w1 di = Some d1"
    and cl: "\<And>p c. chan d1 p = Some c \<Longrightarrow> chn_state c \<in> {ECS_FREE, ECS_RESERVED}"
    using destroy_loop_ok[OF w q, of 0 "MAX_EVTCHNS d + 1"] by auto
  have dy1: "ed_dying d1" using dying_frame[OF w1(2) w(2,3)] w1(3) by auto
  define d2 where "d2 = d1\<lparr>ed_evtchn := replicate NR_EVTCHN_BUCKETS Bucket_null\<rparr>"
  define w2 where "w2 = w1(di \<mapsto> d2)"
  have ok1: "evt_dom_ok d1" using evt_wfD(1)[OF evt_guar_wf[OF w1(2)] w1(3)] .
  have ok2: "evt_dom_ok d2" and ch2: "chan d2 = (\<lambda>_. None)" unfolding d2_def by (rule drop_buckets_ok[OF ok1 dy1 cl], assumption)+
  have "view inter_of (chan d1) p = None" for p
    using cl[of p] by (cases "chan d1 p") (auto simp: view_def)
  then have eq: "wlink w2 = wlink w1"
    using w1(3) by (auto simp: wlink_def w2_def ch2 fun_eq_iff view_def)
  have wf2: "evt_wf w2"
  proof (rule evt_wfI)
    show "w2 i = Some e \<Longrightarrow> evt_dom_ok e" for i e
      using ok2 evt_wfD(1)[OF evt_guar_wf[OF w1(2)]] by (auto simp: w2_def split: if_splits)
    show "wlink w2 i p = Some (j, r) \<Longrightarrow> wlink w2 j r = Some (i, p)" for i p j r
      unfolding eq by (rule evt_wfD(2)[OF evt_guar_wf[OF w1(2)]])
  qed
  have di: "wlink w2 di p = None" for p by (simp add: wlink_def w2_def ch2 view_def)
  have "i \<noteq> di \<and> j \<noteq> di" if "wlink w2 i p = Some (j, r)" for i p j r
    using that evt_wfD(2)[OF wf2 that] di by auto
  moreover have "evtchn_destroy env di w = Inr w2"
    using w w1 by (simp add: evtchn_destroy_def w2_def d2_def del: close_all.simps)
  moreover have "w2 i = None \<longleftrightarrow> w i = None" for i using evt_guar_dom[OF w1(2), of i] w1(3) by (auto simp: w2_def)
  moreover have "w2 di = Some d2" by (simp add: w2_def)
  ultimately show ?thesis using wf2 ch2 by auto
qed

section \<open>Initialisation\<close>

text \<open>
  A domain as it is before \<open>evtchn_init\<close>, with its virtual processors (the code allocates them later;
  \<open>evtchn_init\<close> does not look at them).
\<close>

definition fresh_domain :: "evt_domain \<Rightarrow> bool" where
  "fresh_domain d \<longleftrightarrow>
     ed_evtchn d = replicate NR_EVTCHN_BUCKETS Bucket_null \<and> \<not> ed_dying d \<and>
     (\<forall>i v. vcpu_at d i = Some v \<longrightarrow> virq_to_evtchn v = replicate NR_VIRQS 0 \<and> pirq_evtchn_head v = 0) \<and>
     vcpu_at d 0 \<noteq> None \<and> max_vcpus d \<le> 65536 \<and> nr_pirqs d \<le> 65536 \<and>
     (\<forall>i<nr_pirqs d. pirq_to_evtchn d ! i = 0)"

definition reserved_evtchn :: evtchn where
  "reserved_evtchn = zero_evtchn\<lparr>chn_state := ECS_RESERVED\<rparr>"

lemma fresh_chan:
  assumes "ed_evtchn d = replicate NR_EVTCHN_BUCKETS Bucket_null"
  shows "evt_struct d" "chan d = (\<lambda>_. None)"
proof -
  show "evt_struct d" using assms unfolding evt_struct_def by auto
  show "chan d = (\<lambda>_. None)"
  proof
    fix p
    have "p div 128 < 32 \<Longrightarrow> replicate 32 Bucket_null ! (p div 128) = Bucket_null" by (rule nth_replicate)
    then show "chan d p = None"
      using assms unfolding chan_def evtchn_from_port_def const_nat by (cases "p div 128 < 32") simp_all
  qed
qed

lemma evtchn_init_ok:
  assumes d: "fresh_domain d" and x: "xsm_allocates env" "xmalloc_ok env"
  shows "\<exists>d'. evtchn_init env True d = Inr (0, d') \<and> evt_dom_ok d' \<and>
    chan d' = (\<lambda>p. if p = 0 then Some reserved_evtchn else if p < 128 then Some zero_evtchn else None) \<and>
    vcpu_at d' = vcpu_at d \<and> ed_hvm d' = ed_hvm d \<and> evtchn_pending d' = evtchn_pending d \<and> \<not> ed_dying d' \<and>
    max_vcpus d' = max_vcpus d \<and> evtchn_mask d' = evtchn_mask d \<and> ed_calls d' = ed_calls d"
proof -
  have e: "ed_evtchn d = replicate NR_EVTCHN_BUCKETS Bucket_null" using d by (simp add: fresh_domain_def)
  note s = fresh_chan(1)[OF e] and c = fresh_chan(2)[OF e]
  have sc: "scan_ports d 0 = Inr (False, 0)"
    using port_valid_chan[OF s, of 0] c by (simp add: scan_ports.simps)
  have m: "0 \<noteq> MAX_EVTCHNS d" using MAX_EVTCHNS_cases[of d] by auto
  have nx: "(\<exists>i<EVTCHNS_PER_BUCKET. xsm_alloc_security_evtchn env i) = False" using x(1) unfolding xsm_allocates_def by blast
  have g: "get_free_port env d = Inr (Inr 0, add_bucket 0 d)"
    using d x(2) m unfolding get_free_port_def sc nx add_bucket_def by (simp add: fresh_domain_def)
  have c0: "chan d 0 = None" using c by simp
  note ab = add_bucket_ok[OF s c0 _ m]
  have ch1: "chan (add_bucket 0 d) = (\<lambda>p. if p < 128 then Some zero_evtchn else None)"
    using ab(2) c by (auto simp: fun_eq_iff)
  have s1: "evt_struct (add_bucket 0 d)" using ab(1) by simp
  define d1 where "d1 = put_evtchn 0 reserved_evtchn (add_bucket 0 d)"
  note st = put_evtchn_struct[OF s1, of 0 reserved_evtchn]
  have ch: "chan d1 = (\<lambda>p. if p = 0 then Some reserved_evtchn else if p < 128 then Some zero_evtchn else None)"
    using st(2) ch1 by (auto simp: d1_def fun_eq_iff)
  have z: "chan (add_bucket 0 d) 0 = Some zero_evtchn" using fun_cong[OF ch1, of 0] by simp
  have i: "evtchn_init env True d = Inr (0, d1\<lparr>poll_mask := \<lambda>_. False\<rparr>)"
    using g z by (simp add: evtchn_init_def evtchn_from_port_Some d1_def reserved_evtchn_def)
  have vt: "vtab d1 = vtab d" by (simp add: d1_def)
  have vtd: "vtab d j = Some (vl, h) \<Longrightarrow> vl = replicate NR_VIRQS 0 \<and> h = 0" for j vl h
    using d unfolding fresh_domain_def vtab_def by auto
  have none: "view f (chan d1) = (\<lambda>_. None)" if "f reserved_evtchn = None" "f zero_evtchn = None" for f :: "evtchn \<Rightarrow> 'z option"
    using that by (auto simp: ch view_def fun_eq_iff)
  have v: "view virq_of (chan d1) = (\<lambda>_. None)" "view pirq_of (chan d1) = (\<lambda>_. None)" "view links_of (chan d1) = (\<lambda>_. None)"
    by (rule none; simp add: virq_of_def pirq_of_def links_of_def reserved_evtchn_def zero_evtchn_def)+
  have vt0: "vtab d 0 \<noteq> None" using d by (simp add: fresh_domain_def vtab_None)
  have "ports_ok (chan d1) (vtab d1) (pirq_to_evtchn d1)"
    unfolding ports_ok_def v vt
  proof (intro conjI allI impI)
    show "virqs_ok (\<lambda>_. None) (vtab d)" using vtd unfolding virqs_ok_def by (auto dest: vtd)
    show "pirqs_ok (\<lambda>_. None) (pirq_to_evtchn d1)" using d by (simp add: pirqs_ok_def d1_def fresh_domain_def)
    have "hview (vtab d) j = 0" for j using vtd[of j] by (auto simp: hview_def split: option.splits)
    then show "linked (\<lambda>_. None) (hview (vtab d))" by (simp add: linked_def ranked_def)
    show "chan_ok (vtab d) p c" if "chan d1 p = Some c" for p c
      using that vt0 unfolding ch by (auto simp: chan_ok_def zero_evtchn_def reserved_evtchn_def split: if_splits)
  qed (rule vt0)
  then have "evt_dom_ok (d1\<lparr>poll_mask := \<lambda>_. False\<rparr>)"
    using d st(1) z ch unfolding evt_dom_ok_def fresh_domain_def by (simp add: d1_def)
  then show ?thesis using i ch d by (simp add: d1_def fresh_domain_def)
qed

end
