(* ===== verification/Event_Properties.thy ===== *)
theory Event_Properties
  imports Event_Lifecycle
begin

text \<open>
  The properties of event channels: safety of every sequence of hypercalls, the invariant of the
  reachable states, delivery, binding, closing, polling, teardown and the walk over the list of
  physical interrupts, each with a concrete instance.
\<close>

section \<open>Sequences of hypercalls\<close>

text \<open>One call: the environment of the caller, the outcome of the copies, the command.\<close>

type_synonym evt_hypercall = "evt_env \<times> bool \<times> bool \<times> evtchn_op"

definition hypercall :: "evt_hypercall \<Rightarrow> evt_world \<Rightarrow> evt_world result" where
  "hypercall h w =
     (case h of (env, copy_in, copy_out, op) \<Rightarrow>
        bindR (do_event_channel_op env copy_in copy_out op w) (\<lambda>(_, _, w). Inr w))"

definition hypercall_okay :: "evt_hypercall \<Rightarrow> evt_world \<Rightarrow> bool" where
  "hypercall_okay h w \<longleftrightarrow>
     (case h of (env, _, _, _) \<Rightarrow> w (current_domain env) \<noteq> None \<and> others_ok env)"

text \<open>
  The security module finds the memory for the labels of a new bucket. Its default hook allocates
  nothing and always succeeds; when a module's hook fails, the error path of \<open>get_free_port\<close> leaves a
  freed bucket behind, on which the next call faults.
\<close>

definition labels_allocated :: "evt_hypercall \<Rightarrow> bool" where
  "labels_allocated h \<longleftrightarrow> xsm_allocates (fst h)"

lemma hypercall_guar:
  assumes "evt_wf w" "hypercall_okay h w" "labels_allocated h"
  shows "\<exists>w'. hypercall h w = Inr w' \<and> evt_guar w w'"
proof -
  obtain env ci co op where h: "h = (env, ci, co, op)" by (cases h)
  have "runs3 (do_event_channel_op env ci co op w) w"
    using assms by (intro do_event_channel_op_ok) (auto simp: hypercall_okay_def labels_allocated_def h)
  then show ?thesis by (auto simp: hypercall_def h runs3_def)
qed

interpretation evtchn_calls: guarded_system evt_wf "\<lambda>h w. hypercall_okay h w \<and> labels_allocated h" hypercall
proof
  fix w a
  assume "evt_wf w" "hypercall_okay a w \<and> labels_allocated a"
  then show "\<exists>w'. hypercall a w = Inr w' \<and> evt_wf w'" using hypercall_guar evt_guar_wf by blast
next
  fix w a b w'
  assume "evt_wf w" "hypercall_okay a w \<and> labels_allocated a" "hypercall_okay b w \<and> labels_allocated b"
    "hypercall a w = Inr w'"
  moreover from this have "evt_guar w w'" using hypercall_guar by fastforce
  ultimately show "hypercall_okay b w' \<and> labels_allocated b" using evt_guar_dom[of w w']
    by (auto simp: hypercall_okay_def split: prod.splits)
qed

section \<open>Reachable states\<close>

text \<open>
  Everything that happens to the event channels of a running system: hypercalls, interrupts, the
  calls of the hypervisor for its own channels, what a guest writes into its shared pages,
  \<open>SCHEDOP_poll\<close>, migration of a virtual processor, and the death of a domain. As everywhere here, the
  security labels of new buckets can be allocated.
\<close>

inductive evt_step :: "evt_world \<Rightarrow> evt_world \<Rightarrow> bool" where
  step_hypercall: "hypercall_okay h w \<Longrightarrow> labels_allocated h \<Longrightarrow> hypercall h w = Inr w' \<Longrightarrow> evt_step w w'"
| step_vcpu_virq: "w i = Some d \<Longrightarrow> vcpu_at d v \<noteq> None \<Longrightarrow> q < NR_VIRQS \<Longrightarrow> \<not> virq_global q \<Longrightarrow>
    send_guest_vcpu_virq v q d = Inr d' \<Longrightarrow> evt_step w (w(i \<mapsto> d'))"
| step_global_virq: "w i = Some d \<Longrightarrow> q < NR_VIRQS \<Longrightarrow> virq_global q \<Longrightarrow>
    send_guest_global_virq q d = Inr d' \<Longrightarrow> evt_step w (w(i \<mapsto> d'))"
| step_pirq: "w i = Some d \<Longrightarrow> q < nr_pirqs d \<Longrightarrow> ed_hvm d \<or> pirq_to_evtchn d ! q \<noteq> 0 \<Longrightarrow>
    send_guest_pirq q d = Inr (r, d') \<Longrightarrow> evt_step w (w(i \<mapsto> d'))"
| step_xen_alloc: "w i = Some d \<Longrightarrow> vcpu_at d v \<noteq> None \<Longrightarrow> xsm_allocates env \<Longrightarrow>
    alloc_unbound_xen_event_channel env i v r w = Inr (x, w') \<Longrightarrow> evt_step w w'"
| step_xen_free: "w i = Some d \<Longrightarrow> chan d p = Some c \<Longrightarrow> consumer_is_xen c \<Longrightarrow> others_ok env \<Longrightarrow>
    free_xen_event_channel env i p w = Inr w' \<Longrightarrow> evt_step w w'"
| step_xen_notify: "w i = Some d \<Longrightarrow> chan d p = Some c \<Longrightarrow> consumer_is_xen c \<Longrightarrow>
    notify_via_xen_event_channel i p w = Inr w' \<Longrightarrow> evt_step w w'"
| step_guest: "w i = Some d \<Longrightarrow>
    evt_step w (w(i \<mapsto> d\<lparr>evtchn_pending := e, evtchn_mask := m\<rparr>))"
| step_poll: "w i = Some d \<Longrightarrow> vcpu_at d v = Some u \<Longrightarrow>
    evt_step w (w(i \<mapsto> (put_vcpu v (u\<lparr>poll_evtchn := x, VPF_blocked := True\<rparr>) d)
      \<lparr>poll_mask := (poll_mask d)(v := True)\<rparr>))"
| step_move: "w i = Some d \<Longrightarrow> evtchn_move_pirqs n v d = Some (Inr d') \<Longrightarrow> evt_step w (w(i \<mapsto> d'))"
| step_kill: "w i = Some d \<Longrightarrow> evt_step w (w(i \<mapsto> d\<lparr>ed_dying := True\<rparr>))"
| step_destroy: "w i = Some d \<Longrightarrow> ed_dying d \<Longrightarrow> others_quiet env i \<Longrightarrow>
    evtchn_destroy env i w = Inr w' \<Longrightarrow> evt_step w w'"

lemma evt_wf_upd: "evt_wf w \<Longrightarrow> w i = Some d \<Longrightarrow> dom_step d d' \<Longrightarrow> evt_wf (w(i \<mapsto> d'))"
  using evt_guar_upd evt_guar_wf by blast

lemma evt_wf_same_chan:
  assumes "evt_wf w" "w i = Some d" "evt_dom_ok d'" "chan d' = chan d"
  shows "evt_wf (w(i \<mapsto> d'))"
proof (rule evt_wfI)
  have eq: "wlink (w(i \<mapsto> d')) = wlink w" using assms by (intro ext) (simp add: wlink_def)
  show "wlink (w(i \<mapsto> d')) k p = Some (j, q) \<Longrightarrow> wlink (w(i \<mapsto> d')) j q = Some (k, p)" for k p j q
    unfolding eq by (rule evt_wfD(2)[OF assms(1)])
  show "(w(i \<mapsto> d')) j = Some e \<Longrightarrow> evt_dom_ok e" for j e
    using assms(3) evt_wfD(1)[OF assms(1)] by (auto split: if_splits)
qed

lemma move_pirqs_calls:
  "move_pirqs_loop n cpu p d = Some (Inr d') \<Longrightarrow> \<exists>cs. d' = d\<lparr>ed_calls := cs\<rparr>"
proof (induction n arbitrary: p d)
  case (Suc n)
  show ?case
  proof (cases "p = 0")
    case True
    then have "d' = d\<lparr>ed_calls := ed_calls d\<rparr>" using Suc.prems by simp
    then show ?thesis by blast
  next
    case False
    then obtain irq nx where "move_pirqs_loop n cpu nx (log_call (Call_pirq_set_affinity irq cpu) d) = Some (Inr d')"
      using Suc.prems by (auto split: sum.splits evtchn_state.splits)
    from Suc.IH[OF this] show ?thesis by (auto simp: log_call_def)
  qed
qed simp

lemma calls_keep: "evt_dom_ok d \<Longrightarrow> dom_step d (d\<lparr>ed_calls := cs\<rparr>)"
  by (rule keeps_ports_step) (simp_all add: keeps_ports_def vtab_def vcpu_at_def fun_eq_iff)

text \<open>A virtual processor that goes to sleep in \<open>SCHEDOP_poll\<close>.\<close>

definition poll_sleep :: "nat \<Rightarrow> int \<Rightarrow> evt_vcpu \<Rightarrow> evt_domain \<Rightarrow> evt_domain" where
  "poll_sleep v x u d = (put_vcpu v (u\<lparr>poll_evtchn := x, VPF_blocked := True\<rparr>) d)
     \<lparr>poll_mask := (poll_mask d)(v := True)\<rparr>"

lemma poll_sleep_ok:
  assumes "evt_dom_ok d" "vcpu_at d v = Some u"
  shows "evt_dom_ok (poll_sleep v x u d)" "chan (poll_sleep v x u d) = chan d"
proof -
  have vt: "vtab (poll_sleep v x u d) = vtab d"
    using assms(2) by (simp add: poll_sleep_def vtab_put fun_upd_idem_iff vtab_def)
  then have n: "vcpu_at (poll_sleep v x u d) j = None \<longleftrightarrow> vcpu_at d j = None" for j by (metis vtab_None)
  show ch: "chan (poll_sleep v x u d) = chan d" by (simp add: poll_sleep_def)
  show "evt_dom_ok (poll_sleep v x u d)"
    using assms vt n unfolding evt_dom_ok_def ch by (auto simp: poll_sleep_def)
qed

lemma evt_step_wf: "evt_step w w' \<Longrightarrow> evt_wf w \<Longrightarrow> evt_wf w'"
proof (induction rule: evt_step.induct)
  case (step_hypercall h w w')
  then show ?case using hypercall_guar evt_guar_wf by fastforce
next
  case (step_vcpu_virq w i d v q d')
  then show ?case using send_guest_vcpu_virq_ok[of d v _ q] evt_wfD(1) evt_wf_upd by fastforce
next
  case (step_global_virq w i d q d')
  then show ?case using send_guest_global_virq_ok[of d q] evt_wfD(1) evt_wf_upd by fastforce
next
  case (step_pirq w i d q r d')
  then show ?case using send_guest_pirq_ok[of d q] evt_wfD(1) evt_wf_upd by fastforce
next
  case (step_xen_alloc w i d v env r x w')
  then show ?case using alloc_unbound_xen_event_channel_ok[of w i d env v r] evt_guar_wf by (auto simp: runs_def)
next
  case (step_xen_free w i d p c env w')
  then show ?case using free_xen_event_channel_ok[of w i d p c env] evt_guar_wf by auto
next
  case (step_xen_notify w i d p c w')
  then show ?case using notify_via_xen_event_channel_ok[of w i d p c] evt_guar_wf by auto
next
  case (step_guest w i d m e)
  have k: "keeps_ports d (d\<lparr>evtchn_pending := e, evtchn_mask := m\<rparr>)"
    by (simp add: keeps_ports_def)
  show ?case by (rule evt_wf_upd[OF step_guest(2,1) keeps_ports_step[OF evt_wfD(1)[OF step_guest(2,1)] k]])
next
  case (step_poll w i d v u x)
  note k = poll_sleep_ok[OF evt_wfD(1)[OF step_poll(3,1)] step_poll(2), of x]
  show ?case using evt_wf_same_chan[OF step_poll(3,1) k] unfolding poll_sleep_def .
next
  case (step_move w i d n v d')
  then obtain u :: evt_vcpu where "move_pirqs_loop n (processor u) (pirq_evtchn_head u) d = Some (Inr d')"
    by (auto simp: evtchn_move_pirqs_def split: sum.splits)
  from move_pirqs_calls[OF this] obtain cs where e: "d' = d\<lparr>ed_calls := cs\<rparr>" by blast
  show ?case unfolding e by (rule evt_wf_upd[OF step_move(3,1) calls_keep[OF evt_wfD(1)[OF step_move(3,1)]]])
next
  case (step_kill w i d)
  have ok: "evt_dom_ok d" using evt_wfD(1) step_kill by blast
  have ch: "chan (d\<lparr>ed_dying := True\<rparr>) = chan d" by (rule ext) (simp add: chan_def evtchn_from_port_def)
  have st: "evt_struct (d\<lparr>ed_dying := True\<rparr>) = evt_struct d"
    by (simp add: evt_struct_def MAX_EVTCHNS_def BITS_PER_EVTCHN_WORD_def cong: bucket.case_cong)
  have va: "vcpu_at (d\<lparr>ed_dying := True\<rparr>) = vcpu_at d" by (rule ext) (simp add: vcpu_at_def)
  then have vt: "vtab (d\<lparr>ed_dying := True\<rparr>) = vtab d" by (intro ext) (simp add: vtab_def)
  have "evt_dom_ok (d\<lparr>ed_dying := True\<rparr>)"
    using ok unfolding evt_dom_ok_def ch st va vt by simp
  from evt_wf_same_chan[OF step_kill(2,1) this ch] show ?case .
next
  case (step_destroy w i d env w')
  then show ?case using evtchn_destroy_ok[of w i d env] by auto
qed

section \<open>A concrete system\<close>

text \<open>Two domains with one virtual processor each, just initialised, and then connected.\<close>

definition demo_vcpu :: evt_vcpu where
  "demo_vcpu = \<lparr>processor = 0, virq_to_evtchn = replicate 24 0, pirq_evtchn_head = 0, poll_evtchn = 0,
     evtchn_pending_sel = (\<lambda>_. False), evtchn_upcall_pending = False, VPF_blocked = False, VPF_blocked_in_xen = False\<rparr>"

definition demo_domain :: evt_domain where
  "demo_domain = \<lparr>ed_evtchn = replicate 32 Bucket_null, ed_vcpu = [Some demo_vcpu], ed_dying = False, ed_hvm = False,
     ed_32bit_shinfo = False, pirq_to_evtchn = [0, 0], evtchn_pending = (\<lambda>_. False), evtchn_mask = (\<lambda>_. False),
     poll_mask = (\<lambda>_. False), ed_calls = []\<rparr>"

definition demo_env :: "domid \<Rightarrow> evt_env" where
  "demo_env i = \<lparr>current_domain = i, is_priv_for = (\<lambda>_. True), xmalloc_ok = True,
     xsm_alloc_security_evtchn = (\<lambda>_. False), xsm_evtchn_unbound = (\<lambda>_ _ _. 0),
     xsm_evtchn_interdomain = (\<lambda>_ _ _ _. 0), xsm_evtchn_send = (\<lambda>_ _. 0), xsm_evtchn_status = (\<lambda>_ _. 0),
     xsm_evtchn_reset = (\<lambda>_ _. 0), irq_access_permitted = (\<lambda>_ _. True), pirq_guest_bind = (\<lambda>_ _ _. 0),
     domain_pirq_to_irq = (\<lambda>_ _. 0), domain_before = (\<lambda>_ _. False), other_cpus = (\<lambda>w. w)\<rparr>"

definition demo_boot :: evt_domain where
  "demo_boot = (case evtchn_init (demo_env 0) True demo_domain of Inr (_, d) \<Rightarrow> d | Inl _ \<Rightarrow> demo_domain)"

definition demo_world :: evt_world where
  "demo_world = [0 \<mapsto> demo_boot, 1 \<mapsto> demo_boot]"

definition demo_channel :: "evtchn_state \<Rightarrow> evtchn" where
  "demo_channel st = \<lparr>chn_state = st, consumer_is_xen = False, notify_vcpu_id = 0\<rparr>"

definition demo_linked :: evt_world where
  "demo_linked =
     [0 \<mapsto> put_evtchn 1 (demo_channel (ECS_INTERDOMAIN 1 1)) demo_boot,
      1 \<mapsto> put_evtchn 1 (demo_channel (ECS_INTERDOMAIN 0 1)) demo_boot]"

lemma demo_env_ok: "xsm_allocates (demo_env i)" "xmalloc_ok (demo_env i)" "others_ok (demo_env i)" "current_domain (demo_env i) = i"
  by (simp_all add: demo_env_def xsm_allocates_def others_ok_def evt_guar_refl)

lemma demo_domain_fresh: "fresh_domain demo_domain"
proof -
  have v: "vcpu_at demo_domain i = Some v \<Longrightarrow> v = demo_vcpu" for i v
    by (auto simp: vcpu_at_def demo_domain_def split: if_splits)
  have v0: "vcpu_at demo_domain 0 = Some demo_vcpu" by (simp add: vcpu_at_def demo_domain_def)
  have t: "virq_to_evtchn demo_vcpu = replicate NR_VIRQS 0" "pirq_evtchn_head demo_vcpu = 0"
    by (simp_all add: demo_vcpu_def)
  have p: "[0, 0] ! i = (0::nat)" if "i < 2" for i using that by (cases i) (auto simp: less_Suc_eq numeral_2_eq_2)
  have f: "ed_evtchn demo_domain = replicate NR_EVTCHN_BUCKETS Bucket_null" "\<not> ed_dying demo_domain"
    "max_vcpus demo_domain \<le> 65536" "nr_pirqs demo_domain \<le> 65536" "\<forall>i<nr_pirqs demo_domain. pirq_to_evtchn demo_domain ! i = 0"
    using p by (simp_all add: demo_domain_def numeral_2_eq_2)
  show ?thesis unfolding fresh_domain_def using f v v0 t by auto
qed

lemma demo_vcpu_at: "vcpu_at demo_domain 0 = Some demo_vcpu"
  by (simp add: vcpu_at_def demo_domain_def)

lemma demo_boot_ok: "evt_dom_ok demo_boot"
  "chan demo_boot = (\<lambda>p. if p = 0 then Some reserved_evtchn else if p < 128 then Some zero_evtchn else None)"
  "\<not> ed_dying demo_boot" "vcpu_at demo_boot 0 = Some demo_vcpu"
  using evtchn_init_ok[OF demo_domain_fresh demo_env_ok(1,2)[of 0]] demo_vcpu_at by (auto simp: demo_boot_def)

lemma demo_world_wf: "evt_wf demo_world"
proof (rule evt_wfI)
  show "demo_world i = Some d \<Longrightarrow> evt_dom_ok d" for i d
    using demo_boot_ok(1) by (auto simp: demo_world_def split: if_splits)
  have "view inter_of (chan demo_boot) p = None" for p
    by (simp add: demo_boot_ok(2) view_def inter_of_def reserved_evtchn_def zero_evtchn_def)
  then have "wlink demo_world i p = None" for i p by (simp add: wlink_def demo_world_def)
  then show "wlink demo_world i p = Some (j, q) \<Longrightarrow> wlink demo_world j q = Some (i, p)" for i p j q by simp
qed

lemma demo_put:
  assumes "plain st \<or> (\<exists>j q. st = ECS_INTERDOMAIN j q)" "st \<noteq> ECS_FREE"
  shows "evt_dom_ok (put_evtchn 1 (demo_channel st) demo_boot)"
    and "chan (put_evtchn 1 (demo_channel st) demo_boot) = (chan demo_boot)(1 \<mapsto> demo_channel st)"
proof -
  have c: "chan demo_boot 1 = Some zero_evtchn" by (simp add: demo_boot_ok(2))
  have l: "loose zero_evtchn" "loose (demo_channel st)"
    using assms(1) by (auto simp: loose_state zero_evtchn_def demo_channel_def plain_def split: evtchn_state.splits)
  have k: "chan_ok (vtab demo_boot) 1 (demo_channel st)"
    using ports_okD(1)[OF evt_dom_okD(2)[OF demo_boot_ok(1)]] assms(2) by (simp add: chan_ok_def demo_channel_def)
  show "evt_dom_ok (put_evtchn 1 (demo_channel st) demo_boot)"
    using evt_dom_ok_put[OF demo_boot_ok(1) c] ports_ok_loose[OF evt_dom_okD(2)[OF demo_boot_ok(1)] c l k] by blast
  show "chan (put_evtchn 1 (demo_channel st) demo_boot) = (chan demo_boot)(1 \<mapsto> demo_channel st)"
    using put_evtchn_struct(2)[OF evt_dom_okD(1)[OF demo_boot_ok(1)], of 1] c by simp
qed

lemma demo_linked_wf: "evt_wf demo_linked"
proof (rule evt_wfI)
  show "demo_linked i = Some d \<Longrightarrow> evt_dom_ok d" for i d
    using demo_put(1) by (auto simp: demo_linked_def split: if_splits)
  have n: "view inter_of (chan demo_boot) p = None" for p
    by (simp add: demo_boot_ok(2) view_def inter_of_def reserved_evtchn_def zero_evtchn_def)
  have io: "inter_of (demo_channel (ECS_INTERDOMAIN j q)) = Some (j, q)" for j q
    by (simp add: demo_channel_def)
  have l: "wlink demo_linked i p = (if p = 1 \<and> i = 0 then Some (1, 1) else if p = 1 \<and> i = 1 then Some (0, 1) else None)" for i p
    using n io by (simp add: wlink_def demo_linked_def demo_put(2) del: One_nat_def)
  show "wlink demo_linked i p = Some (j, q) \<Longrightarrow> wlink demo_linked j q = Some (i, p)" for i p j q
    unfolding l by (auto split: if_splits)
qed

section \<open>Properties\<close>

text \<open>
  C7. Safety of the hypercall: as long as the security module can allocate the labels of new buckets
  (its default hook always can), from a state that satisfies the invariant any sequence of
  \<open>do_event_channel_op\<close> calls by existing domains, with any arguments and any outcome of the bucket
  allocation and of the copies from and to the guest, returns: no null pointer is dereferenced, no array is left, no union member
  is confused, no \<open>BUG_ON\<close> of \<open>__evtchn_close\<close> fires; and the invariant holds again at the end.
  Other processors may run while \<open>__evtchn_close\<close> has dropped its lock.
\<close>

theorem evtchn_hypercalls_safe:
  assumes "evt_wf w" and "\<forall>h\<in>set hs. hypercall_okay h w" and "\<forall>h\<in>set hs. labels_allocated h"
  shows "\<exists>w'. for_loop hypercall hs w = Inr w' \<and> evt_wf w'"
  using evtchn_calls.run_ok[of w hs] assms by blast

lemma demo_okay: "i = 0 \<or> i = 1 \<Longrightarrow> hypercall_okay (demo_env i, ci, co, op) demo_linked"
  by (auto simp: hypercall_okay_def demo_env_ok demo_linked_def)

lemma demo_labels: "labels_allocated (demo_env i, ci, co, op)"
  by (simp add: labels_allocated_def demo_env_ok)

theorem evtchn_hypercalls_safe_witness:
  "\<exists>w'. for_loop hypercall
     [(demo_env 0, True, True, EVTCHNOP_send 1), (demo_env 1, True, False, EVTCHNOP_close 1),
      (demo_env 0, True, True, EVTCHNOP_bind_ipi \<lparr>bp_vcpu = 0, bp_port = 0\<rparr>), (demo_env 1, True, True, EVTCHNOP_reset 0)]
     demo_linked = Inr w' \<and> evt_wf w'"
  by (rule evtchn_hypercalls_safe[OF demo_linked_wf]) (simp_all add: demo_okay demo_labels)

text \<open>
  C8. Invariant of the reachable states: whatever hypercalls, interrupts, notifications of the
  hypervisor, guest writes to the shared pages, polling, migrations and domain deaths happen, the
  two ends of every interdomain channel name each other.
\<close>

theorem evtchn_reachable_symmetric:
  assumes "evt_step\<^sup>*\<^sup>* w w'" and "evt_wf w"
    and "w' i = Some d" and "chan d p = Some c" and "chn_state c = ECS_INTERDOMAIN j q"
  shows "evt_wf w' \<and> (\<exists>d' c'. w' j = Some d' \<and> chan d' q = Some c' \<and> chn_state c' = ECS_INTERDOMAIN i p)"
proof -
  have wf: "evt_wf w'" using assms(1,2) by (induction rule: rtranclp_induct) (auto intro: evt_step_wf)
  have "wlink w' i p = Some (j, q)" using assms(3-5) wlink_Some by blast
  from evt_wfD(2)[OF wf this] show ?thesis using wf wlink_Some by blast
qed

lemma demo_linked_at:
  "demo_linked 0 = Some (put_evtchn 1 (demo_channel (ECS_INTERDOMAIN 1 1)) demo_boot)"
  "demo_linked 1 = Some (put_evtchn 1 (demo_channel (ECS_INTERDOMAIN 0 1)) demo_boot)"
  "chan (put_evtchn 1 (demo_channel (ECS_INTERDOMAIN j q)) demo_boot) 1 = Some (demo_channel (ECS_INTERDOMAIN j q))"
  "chn_state (demo_channel st) = st" "\<not> consumer_is_xen (demo_channel st)" "notify_vcpu_id (demo_channel st) = 0"
  by (simp add: demo_linked_def, simp add: demo_linked_def, simp add: demo_put(2) del: One_nat_def, simp_all add: demo_channel_def)

theorem evtchn_reachable_symmetric_witness:
  "evt_wf demo_linked \<and>
   (\<exists>d' c'. demo_linked 1 = Some d' \<and> chan d' 1 = Some c' \<and> chn_state c' = ECS_INTERDOMAIN 0 1)"
  by (rule evtchn_reachable_symmetric[OF rtranclp.rtrancl_refl demo_linked_wf demo_linked_at(1,3,4)])

text \<open>
  C9. Delivery: a notification sent on an interdomain port sets exactly the pending bit of the other
  end in the remote domain; a remote end consumed by the hypervisor gets no bit, its virtual
  processor is no longer blocked. No other domain changes.
\<close>

theorem evtchn_send_delivers:
  assumes w: "evt_wf w" "w li = Some ld"
    and c: "chan ld lport = Some lc" "chn_state lc = ECS_INTERDOMAIN ri rport" "\<not> consumer_is_xen lc"
    and x: "xsm_evtchn_send env li lport = 0"
  shows "\<exists>rd rc rd' w'. w ri = Some rd \<and> chan rd rport = Some rc \<and>
    evtchn_send env li lport w = Inr (0, w') \<and> w' ri = Some rd' \<and> (\<forall>i. i \<noteq> ri \<longrightarrow> w' i = w i) \<and>
    (if consumer_is_xen rc
     then evtchn_pending rd' = evtchn_pending rd \<and>
          (\<exists>v. vcpu_at rd' (notify_vcpu_id rc) = Some v \<and> \<not> VPF_blocked_in_xen v)
     else evtchn_pending rd' = (evtchn_pending rd)(rport := True))"
proof -
  have ok: "evt_dom_ok ld" using evt_wfD(1)[OF w] .
  have valid: "port_is_valid ld lport" using port_valid_chan[OF evt_dom_okD(1)[OF ok]] c by simp
  from peer_channel[OF w c(1,2)] obtain rd rc v where
    r: "w ri = Some rd" "chan rd rport = Some rc" "vcpu_at rd (notify_vcpu_id rc) = Some v" "evt_dom_ok rd" by metis
  note S = evtchn_send_def evtchn_from_port_Some
  show ?thesis
  proof (cases "consumer_is_xen rc")
    case True
    show ?thesis
    proof (cases "VPF_blocked_in_xen v")
      case b: True
      define rd' where "rd' = log_call (Call_vcpu_wake (notify_vcpu_id rc)) (put_vcpu (notify_vcpu_id rc) (v\<lparr>VPF_blocked_in_xen := False\<rparr>) rd)"
      have "evtchn_send env li lport w = Inr (0, w(ri \<mapsto> rd'))" using w valid c x r True b by (simp add: S rd'_def)
      moreover have "vcpu_at rd' (notify_vcpu_id rc) = Some (v\<lparr>VPF_blocked_in_xen := False\<rparr>)"
        using vcpu_at_less[OF r(3)] by (simp add: rd'_def)
      moreover have "evtchn_pending rd' = evtchn_pending rd" by (simp add: rd'_def)
      ultimately show ?thesis using r True by auto
    next
      case False
      have "evtchn_send env li lport w = Inr (0, w)" using w valid c x r True False by (simp add: S)
      then show ?thesis using r True False by auto
    qed
  next
    case False
    from evtchn_set_pending_ok[OF r(4,3), of rport] obtain rd' y where
      "evtchn_set_pending (notify_vcpu_id rc) rport rd = Inr (y, rd')" "evtchn_pending rd' = (evtchn_pending rd)(rport := True)" by blast
    moreover from this have "evtchn_send env li lport w = Inr (0, w(ri \<mapsto> rd'))" using w valid c x r False by (simp add: S)
    ultimately show ?thesis using r False by auto
  qed
qed

theorem evtchn_send_delivers_witness:
  "\<exists>rd rc rd' w'. demo_linked 1 = Some rd \<and> chan rd 1 = Some rc \<and>
    evtchn_send (demo_env 0) 0 1 demo_linked = Inr (0, w') \<and> w' 1 = Some rd' \<and> (\<forall>i. i \<noteq> 1 \<longrightarrow> w' i = demo_linked i) \<and>
    (if consumer_is_xen rc
     then evtchn_pending rd' = evtchn_pending rd \<and>
          (\<exists>v. vcpu_at rd' (notify_vcpu_id rc) = Some v \<and> \<not> VPF_blocked_in_xen v)
     else evtchn_pending rd' = (evtchn_pending rd)(1 := True))"
  by (rule evtchn_send_delivers[OF demo_linked_wf demo_linked_at(1,3,4,5)]) (simp add: demo_env_def)

text \<open>
  C10. Closing: a guest port that is bound is closed with success: it is free, its pending bit is
  clear and no other pending bit of the domain changes; the other end of an interdomain channel
  waits again for this domain; the invariant holds.
\<close>

theorem evtchn_close_frees:
  assumes w: "evt_wf w" "w i = Some d" and c: "chan d p = Some c" "\<not> consumer_is_xen c"
    "chn_state c \<noteq> ECS_FREE" "chn_state c \<noteq> ECS_RESERVED" and o: "other_cpus env w = w"
  shows "\<exists>w' d' c'. evtchn_close_port env i p w = Inr (0, w') \<and> evt_wf w' \<and> w' i = Some d' \<and>
    chan d' p = Some c' \<and> chn_state c' = ECS_FREE \<and> evtchn_pending d' = (evtchn_pending d)(p := False) \<and>
    (\<forall>j q. chn_state c = ECS_INTERDOMAIN j q \<longrightarrow> (i, p) \<noteq> (j, q) \<longrightarrow>
       (\<exists>d2 c2. w' j = Some d2 \<and> chan d2 q = Some c2 \<and> chn_state c2 = ECS_UNBOUND i))"
proof -
  have "closeable d p" using c by (simp add: closeable_def)
  from evtchn_close_port_done[OF w this o] obtain w' where
    w': "evtchn_close_port env i p w = Inr (0, w')" "evt_guar w w'" "close_done w i p d w'" by blast
  have lk: "wlink w i p = Some (j, q) \<longleftrightarrow> chn_state c = ECS_INTERDOMAIN j q" for j q
    using w(2) c(1) by (auto simp: wlink_Some)
  show ?thesis
    using w' evt_guar_wf[OF w'(2)] unfolding close_done_def closed_port_def peer_unbound_def lk by blast
qed

theorem evtchn_close_frees_witness:
  "\<exists>w' d' c'. evtchn_close_port (demo_env 1) 1 1 demo_linked = Inr (0, w') \<and> evt_wf w' \<and> w' 1 = Some d' \<and>
    chan d' 1 = Some c' \<and> chn_state c' = ECS_FREE \<and>
    evtchn_pending d' = (evtchn_pending (put_evtchn 1 (demo_channel (ECS_INTERDOMAIN 0 1)) demo_boot))(1 := False) \<and>
    (\<forall>j q. chn_state (demo_channel (ECS_INTERDOMAIN 0 1)) = ECS_INTERDOMAIN j q \<longrightarrow> (1, 1) \<noteq> (j, q) \<longrightarrow>
       (\<exists>d2 c2. w' j = Some d2 \<and> chan d2 q = Some c2 \<and> chn_state c2 = ECS_UNBOUND 1))"
  by (rule evtchn_close_frees[OF demo_linked_wf demo_linked_at(2,3,5)]) (simp_all add: demo_linked_at(4) demo_env_def)

lemma evtchn_status_interdomain:
  assumes w: "evt_wf w" "w (current_domain env) \<noteq> None" and l: "wlink w i p = Some (j, q)" and i: "i \<noteq> DOMID_SELF" "is_priv_for env i"
    and x: "xsm_evtchn_status env i p = 0" and p: "unat pw = p"
  shows "\<exists>v. evtchn_status env \<lparr>st_dom = i, st_port = pw, st_status = s0, st_vcpu = v0\<rparr> w =
    Inr (0, \<lparr>st_dom = i, st_port = pw, st_status = EVTCHNSTAT_interdomain j (of_nat q), st_vcpu = v\<rparr>)"
proof -
  obtain d c where d: "w i = Some d" "chan d p = Some c" "chn_state c = ECS_INTERDOMAIN j q" using l wlink_Some by blast
  have "port_is_valid d p" using port_valid_chan[OF evt_dom_okD(1)[OF evt_wfD(1)[OF w(1) d(1)]]] d(2) by simp
  then show ?thesis
    using d i x p by (simp add: evtchn_status_def rcu_lock_target_domain_by_id_def Let_def evtchn_from_port_Some status_of_def)
qed

text \<open>
  C11. Binding: when the remote port waits for the calling domain, the caller is not dying and has a
  free port, and the security module agrees, \<open>evtchn_bind_interdomain\<close> succeeds; a privileged
  \<open>evtchn_status\<close> then reports at each end the domain and the port of the other, and the local port
  is pending so that no notification is lost.
\<close>

theorem evtchn_bind_reports_both_ends:
  assumes w: "evt_wf w" "w (current_domain env) = Some ld" and x: "xsm_allocates env"
    and ri: "bi_remote_dom bind = ri" "ri \<noteq> DOMID_SELF" and li: "current_domain env \<noteq> DOMID_SELF"
    and r: "w ri = Some rd" "chan rd (unat (bi_remote_port bind)) = Some c" "chn_state c = ECS_UNBOUND (current_domain env)"
    and l: "\<not> ed_dying ld" "chan ld p = Some c0" "chn_state c0 = ECS_FREE"
    and h: "\<forall>a b u v. xsm_evtchn_interdomain env a b u v = 0" "\<forall>a b. xsm_evtchn_status env a b = 0" "\<forall>a. is_priv_for env a"
  shows "\<exists>b w' v1 v2. evtchn_bind_interdomain env bind w = Inr (0, b, w') \<and>
    evtchn_status env \<lparr>st_dom = current_domain env, st_port = bi_local_port b, st_status = s0, st_vcpu = u0\<rparr> w' =
      Inr (0, \<lparr>st_dom = current_domain env, st_port = bi_local_port b,
        st_status = EVTCHNSTAT_interdomain ri (bi_remote_port bind), st_vcpu = v1\<rparr>) \<and>
    evtchn_status env \<lparr>st_dom = ri, st_port = bi_remote_port bind, st_status = s0, st_vcpu = u0\<rparr> w' =
      Inr (0, \<lparr>st_dom = ri, st_port = bi_remote_port bind,
        st_status = EVTCHNSTAT_interdomain (current_domain env) (bi_local_port b), st_vcpu = v2\<rparr>) \<and>
    (\<exists>ld'. w' (current_domain env) = Some ld' \<and> evtchn_pending ld' (unat (bi_local_port b)))"
proof -
  obtain b w' where b: "evtchn_bind_interdomain env bind w = Inr (0, b, w')" "evt_guar w w'"
    and lk: "wlink w' (current_domain env) (unat (bi_local_port b)) = Some (ri, unat (bi_remote_port bind))"
      "wlink w' ri (unat (bi_remote_port bind)) = Some (current_domain env, unat (bi_local_port b))"
    and pd: "\<exists>ld'. w' (current_domain env) = Some ld' \<and> evtchn_pending ld' (unat (bi_local_port b))"
    using evtchn_bind_interdomain_cases[OF w x, of bind] ri r l h(1) unfolding Let_def by auto
  have cur: "w' (current_domain env) \<noteq> None" using pd by auto
  note st = evtchn_status_interdomain[OF evt_guar_wf[OF b(2)] cur]
  from st[OF lk(1) li] h obtain v1 where s1: "evtchn_status env \<lparr>st_dom = current_domain env, st_port = bi_local_port b, st_status = s0, st_vcpu = u0\<rparr> w' =
      Inr (0, \<lparr>st_dom = current_domain env, st_port = bi_local_port b,
        st_status = EVTCHNSTAT_interdomain ri (bi_remote_port bind), st_vcpu = v1\<rparr>)" by fastforce
  from st[OF lk(2) ri(2)] h obtain v2 where s2: "evtchn_status env \<lparr>st_dom = ri, st_port = bi_remote_port bind, st_status = s0, st_vcpu = u0\<rparr> w' =
      Inr (0, \<lparr>st_dom = ri, st_port = bi_remote_port bind,
        st_status = EVTCHNSTAT_interdomain (current_domain env) (bi_local_port b), st_vcpu = v2\<rparr>)" by fastforce
  show ?thesis using b(1) s1 s2 pd by blast
qed

definition demo_waiting :: evt_world where
  "demo_waiting = [0 \<mapsto> put_evtchn 1 (demo_channel (ECS_UNBOUND 1)) demo_boot, 1 \<mapsto> demo_boot]"

lemma demo_waiting_wf: "evt_wf demo_waiting"
proof (rule evt_wfI)
  show "demo_waiting i = Some d \<Longrightarrow> evt_dom_ok d" for i d
    using demo_put(1) demo_boot_ok(1) by (auto simp: demo_waiting_def split: if_splits)
  have n: "view inter_of (chan demo_boot) p = None" for p
    by (simp add: demo_boot_ok(2) view_def inter_of_def reserved_evtchn_def zero_evtchn_def)
  have io: "inter_of (demo_channel (ECS_UNBOUND 1)) = None" by (simp add: demo_channel_def)
  have l: "wlink demo_waiting i p = None" for i p
    using n io by (simp add: wlink_def demo_waiting_def demo_put(2) del: One_nat_def)
  show "wlink demo_waiting i p = Some (j, q) \<Longrightarrow> wlink demo_waiting j q = Some (i, p)" for i p j q
    by (simp add: l)
qed

lemma demo_waiting_at:
  "demo_waiting 0 = Some (put_evtchn 1 (demo_channel (ECS_UNBOUND 1)) demo_boot)"
  "demo_waiting 1 = Some demo_boot"
  "chan (put_evtchn 1 (demo_channel (ECS_UNBOUND 1)) demo_boot) 1 = Some (demo_channel (ECS_UNBOUND 1))"
  "chan demo_boot 1 = Some zero_evtchn" "\<not> ed_dying demo_boot"
  by (simp add: demo_waiting_def, simp add: demo_waiting_def, simp add: demo_put(2) del: One_nat_def, simp_all add: demo_boot_ok)

theorem evtchn_bind_reports_both_ends_witness:
  "\<exists>b w' v1 v2. evtchn_bind_interdomain (demo_env 1) \<lparr>bi_remote_dom = 0, bi_remote_port = 1, bi_local_port = 0\<rparr> demo_waiting = Inr (0, b, w') \<and>
    evtchn_status (demo_env 1) \<lparr>st_dom = 1, st_port = bi_local_port b, st_status = EVTCHNSTAT_closed, st_vcpu = 0\<rparr> w' =
      Inr (0, \<lparr>st_dom = 1, st_port = bi_local_port b, st_status = EVTCHNSTAT_interdomain 0 1, st_vcpu = v1\<rparr>) \<and>
    evtchn_status (demo_env 1) \<lparr>st_dom = 0, st_port = 1, st_status = EVTCHNSTAT_closed, st_vcpu = 0\<rparr> w' =
      Inr (0, \<lparr>st_dom = 0, st_port = 1, st_status = EVTCHNSTAT_interdomain 1 (bi_local_port b), st_vcpu = v2\<rparr>) \<and>
    (\<exists>ld'. w' 1 = Some ld' \<and> evtchn_pending ld' (unat (bi_local_port b)))"
proof -
  let ?b = "\<lparr>bi_remote_dom = 0, bi_remote_port = 1, bi_local_port = 0\<rparr> :: evtchn_bind_interdomain_t"
  have e: "\<forall>a b u v. xsm_evtchn_interdomain (demo_env 1) a b u v = 0" "\<forall>a b. xsm_evtchn_status (demo_env 1) a b = 0"
    "\<forall>a. is_priv_for (demo_env 1) a" by (simp_all add: demo_env_def)
  have b: "bi_remote_dom ?b = 0" "(0::domid) \<noteq> DOMID_SELF" "current_domain (demo_env 1) \<noteq> DOMID_SELF"
    "demo_waiting (current_domain (demo_env 1)) = Some demo_boot"
    "chan (put_evtchn 1 (demo_channel (ECS_UNBOUND 1)) demo_boot) (unat (bi_remote_port ?b)) = Some (demo_channel (ECS_UNBOUND 1))"
    "chn_state (demo_channel (ECS_UNBOUND 1)) = ECS_UNBOUND (current_domain (demo_env 1))" "chn_state zero_evtchn = ECS_FREE"
    using demo_waiting_at by (simp_all add: demo_env_ok(4) DOMID_SELF_def demo_linked_at(4) zero_evtchn_def)
  from evtchn_bind_reports_both_ends[OF demo_waiting_wf b(4) demo_env_ok(1) b(1-3) demo_waiting_at(1) b(5,6) demo_waiting_at(5,4) b(7) e,
      of EVTCHNSTAT_closed 0]
  show ?thesis by (simp add: demo_env_ok(4))
qed

text \<open>
  C12. Set-pending: raising a port that is not pending wakes every virtual processor that polls for
  it (or for any port): it is taken off the poll mask, is no longer blocked and, when it was blocked,
  \<open>vcpu_wake\<close> is called for it. When the port is not masked, the selector bit of the notified virtual
  processor is set, and if neither that bit nor its upcall was pending, the upcall is requested and
  \<open>vcpu_kick\<close> (in an HVM domain \<open>hvm_assert_evtchn_irq\<close>) is called for it. These are all the calls, in
  this order. A port that is already pending changes nothing and reports 1.
\<close>

theorem evtchn_set_pending_wakes:
  assumes d: "evt_dom_ok d" and v: "vcpu_at d vid = Some v"
  shows "\<exists>d'. evtchn_set_pending vid port d = Inr (if evtchn_pending d port then 1 else 0, d') \<and>
    evt_dom_ok d' \<and> chan d' = chan d \<and> evtchn_pending d' = (evtchn_pending d)(port := True) \<and>
    (evtchn_pending d port \<longrightarrow> d' = d) \<and>
    (\<not> evtchn_pending d port \<longrightarrow>
       ed_calls d' = ed_calls d @
         (if evtchn_mask d port \<or> evtchn_pending_sel v (port div BITS_PER_EVTCHN_WORD d) \<or> evtchn_upcall_pending v
          then [] else [if ed_hvm d then Call_hvm_assert_evtchn_irq vid else Call_vcpu_kick vid]) @
         map Call_vcpu_wake (filter (\<lambda>j. poll_mask d j \<and> (\<exists>u. vcpu_at d j = Some u \<and>
            (poll_evtchn u \<le> 0 \<or> poll_evtchn u = int port) \<and> VPF_blocked u)) [0..<max_vcpus d]) \<and>
       (\<forall>j u. vcpu_at d j = Some u \<longrightarrow> poll_mask d j \<longrightarrow> poll_evtchn u \<le> 0 \<or> poll_evtchn u = int port \<longrightarrow>
          \<not> poll_mask d' j \<and> (\<exists>u'. vcpu_at d' j = Some u' \<and> \<not> VPF_blocked u')) \<and>
       (\<not> evtchn_mask d port \<longrightarrow>
          (\<exists>v'. vcpu_at d' vid = Some v' \<and> evtchn_pending_sel v' (port div BITS_PER_EVTCHN_WORD d) \<and>
             (evtchn_pending_sel v (port div BITS_PER_EVTCHN_WORD d) \<or> evtchn_upcall_pending v'))))"
proof -
  have "(if evtchn_mask d port then [] else upcall_calls vid port v d) @ wake_calls port (max_vcpus d) d =
      (if evtchn_mask d port \<or> evtchn_pending_sel v (port div BITS_PER_EVTCHN_WORD d) \<or> evtchn_upcall_pending v
       then [] else [if ed_hvm d then Call_hvm_assert_evtchn_irq vid else Call_vcpu_kick vid]) @
      map Call_vcpu_wake (filter (\<lambda>j. poll_mask d j \<and> (\<exists>u. vcpu_at d j = Some u \<and>
         (poll_evtchn u \<le> 0 \<or> poll_evtchn u = int port) \<and> VPF_blocked u)) [0..<max_vcpus d])"
    by (simp add: upcall_calls_def wake_calls_def blocked_poller_def[abs_def] polls_for_def)
  note calls = this[symmetric]
  show ?thesis
    unfolding calls using evtchn_set_pending_ok[OF d v, of port] keeps_ports_chan unfolding polls_for_def by blast
qed

text \<open>A domain whose virtual processor sleeps until port 1 is raised.\<close>

definition demo_polling :: evt_domain where
  "demo_polling = poll_sleep 0 1 demo_vcpu demo_boot"

definition demo_sleeper :: evt_vcpu where
  "demo_sleeper = demo_vcpu\<lparr>poll_evtchn := 1, VPF_blocked := True\<rparr>"

lemma demo_boot_fields:
  "max_vcpus demo_boot = 1" "\<not> evtchn_pending demo_boot 1" "\<not> evtchn_mask demo_boot 1" "\<not> ed_hvm demo_boot"
  "ed_calls demo_boot = []"
proof -
  obtain d' where d': "evtchn_init (demo_env 0) True demo_domain = Inr (0, d')" "ed_hvm d' = ed_hvm demo_domain"
    "evtchn_pending d' = evtchn_pending demo_domain" "max_vcpus d' = max_vcpus demo_domain"
    "evtchn_mask d' = evtchn_mask demo_domain" "ed_calls d' = ed_calls demo_domain"
    using evtchn_init_ok[OF demo_domain_fresh demo_env_ok(1,2)[of 0]] by blast
  have e: "demo_boot = d'" using d'(1) by (simp add: demo_boot_def)
  show "max_vcpus demo_boot = 1" "\<not> evtchn_pending demo_boot 1" "\<not> evtchn_mask demo_boot 1"
    "\<not> ed_hvm demo_boot" "ed_calls demo_boot = []"
    unfolding e by (simp_all add: d' demo_domain_def)
qed

lemma demo_polling_at:
  "vcpu_at demo_polling 0 = Some demo_sleeper" "max_vcpus demo_polling = 1" "poll_mask demo_polling 0"
  "\<not> evtchn_pending demo_polling 1" "\<not> evtchn_mask demo_polling 1" "\<not> ed_hvm demo_polling" "ed_calls demo_polling = []"
  using demo_boot_fields by (simp_all add: demo_polling_def poll_sleep_def demo_sleeper_def)

theorem evtchn_set_pending_wakes_witness:
  "\<exists>d'. evtchn_set_pending 0 1 demo_polling = Inr (0, d') \<and>
    evt_dom_ok d' \<and> chan d' = chan demo_boot \<and> evtchn_pending d' = (evtchn_pending demo_polling)(1 := True) \<and>
    ed_calls d' = [Call_vcpu_kick 0, Call_vcpu_wake 0] \<and> \<not> poll_mask d' 0 \<and>
    (\<exists>u'. vcpu_at d' 0 = Some u' \<and> \<not> VPF_blocked u' \<and> evtchn_upcall_pending u')"
proof -
  have ok: "evt_dom_ok demo_polling" "chan demo_polling = chan demo_boot"
    unfolding demo_polling_def by (rule poll_sleep_ok[OF demo_boot_ok(1,4)])+
  have s: "poll_evtchn demo_sleeper = 1" "VPF_blocked demo_sleeper" "\<not> evtchn_upcall_pending demo_sleeper"
    "\<not> evtchn_pending_sel demo_sleeper w" for w by (simp_all add: demo_sleeper_def demo_vcpu_def)
  from evtchn_set_pending_wakes[OF ok(1) demo_polling_at(1), of 1] obtain d' where
    d': "evtchn_set_pending 0 1 demo_polling = Inr (0, d')" "evt_dom_ok d'" "chan d' = chan demo_boot"
    "evtchn_pending d' = (evtchn_pending demo_polling)(1 := True)" "ed_calls d' = [Call_vcpu_kick 0, Call_vcpu_wake 0]"
    and w: "\<And>j u. vcpu_at demo_polling j = Some u \<Longrightarrow> poll_mask demo_polling j \<Longrightarrow> poll_evtchn u = 1 \<Longrightarrow>
      \<not> poll_mask d' j \<and> (\<exists>u'. vcpu_at d' j = Some u' \<and> \<not> VPF_blocked u')"
    and u: "\<exists>v'. vcpu_at d' 0 = Some v' \<and> evtchn_upcall_pending v'"
    using demo_polling_at s ok(2) by auto
  show ?thesis using d' w[OF demo_polling_at(1,3) s(1)] u by auto
qed

text \<open>
  Termination and exactness of \<open>evtchn_move_pirqs\<close>: the walk over the list of physical-interrupt
  ports of a virtual processor ends (more steps than there are ports are enough) and sets the
  affinity of exactly the interrupts bound to that virtual processor, each once.
\<close>

lemma evtchn_move_pirqs_exact:
  assumes "evt_dom_ok d" and "vcpu_at d vid = Some v" and "4096 < n"
  shows "\<exists>ps. evtchn_move_pirqs n vid d =
      Some (Inr (d\<lparr>ed_calls := ed_calls d @ map (\<lambda>p. Call_pirq_set_affinity (pirq_at d p) (processor v)) ps\<rparr>)) \<and>
    distinct ps \<and>
    set ps = {p. \<exists>c i nx pv. chan d p = Some c \<and> chn_state c = ECS_PIRQ i nx pv \<and> notify_vcpu_id c = vid}"
  using assms by (rule evtchn_move_pirqs_ok)

lemma evtchn_move_pirqs_exact_witness:
  "\<exists>ps. evtchn_move_pirqs 5000 0 demo_boot =
      Some (Inr (demo_boot\<lparr>ed_calls := ed_calls demo_boot @ map (\<lambda>p. Call_pirq_set_affinity (pirq_at demo_boot p) (processor demo_vcpu)) ps\<rparr>)) \<and>
    distinct ps \<and>
    set ps = {p. \<exists>c i nx pv. chan demo_boot p = Some c \<and> chn_state c = ECS_PIRQ i nx pv \<and> notify_vcpu_id c = 0}"
  by (rule evtchn_move_pirqs_exact[OF demo_boot_ok(1,4)]) simp

text \<open>
  C13. Teardown: \<open>evtchn_destroy\<close> of a dying domain returns, frees every bucket of it, leaves no channel
  of any domain connected to it, and keeps the invariant.
\<close>

theorem evtchn_destroy_clean:
  assumes w: "evt_wf w" "w di = Some d" "ed_dying d" and q: "others_quiet env di"
  shows "\<exists>w' d'. evtchn_destroy env di w = Inr w' \<and> evt_wf w' \<and> w' di = Some d' \<and> (\<forall>p. chan d' p = None) \<and>
    (\<forall>i e p c j r. w' i = Some e \<longrightarrow> chan e p = Some c \<longrightarrow> chn_state c = ECS_INTERDOMAIN j r \<longrightarrow> i \<noteq> di \<and> j \<noteq> di)"
  using evtchn_destroy_ok[OF assms] wlink_Some by meson

definition demo_dying :: evt_world where
  "demo_dying = demo_linked(1 \<mapsto> (put_evtchn 1 (demo_channel (ECS_INTERDOMAIN 0 1)) demo_boot)\<lparr>ed_dying := True\<rparr>)"

lemma demo_dying_wf: "evt_wf demo_dying"
  unfolding demo_dying_def by (rule evt_step_wf[OF step_kill[of demo_linked, OF demo_linked_at(2)] demo_linked_wf])

lemma demo_quiet: "others_quiet (demo_env i) j"
  using demo_env_ok(3)[of i] unfolding others_quiet_def by (auto simp: demo_env_def)

theorem evtchn_destroy_clean_witness:
  "\<exists>w' d'. evtchn_destroy (demo_env 0) 1 demo_dying = Inr w' \<and> evt_wf w' \<and> w' 1 = Some d' \<and> (\<forall>p. chan d' p = None) \<and>
    (\<forall>i e p c j r. w' i = Some e \<longrightarrow> chan e p = Some c \<longrightarrow> chn_state c = ECS_INTERDOMAIN j r \<longrightarrow> i \<noteq> 1 \<and> j \<noteq> 1)"
  by (rule evtchn_destroy_clean[OF demo_dying_wf _ _ demo_quiet]) (simp add: demo_dying_def, simp)

lemma scan_ports_freed:
  assumes s: "evt_struct d" and q: "q mod 128 = 0" "q < MAX_EVTCHNS d"
    and a: "\<And>p. p < q \<Longrightarrow> \<exists>c. chan d p = Some c \<and> chn_state c \<noteq> ECS_FREE" and p: "p \<le> q"
  shows "scan_ports (d\<lparr>ed_evtchn := (ed_evtchn d)[q div 128 := Bucket_freed]\<rparr>) p = Inl Use_after_free"
  using p
proof (induction rule: inc_induct)
  case base
  have "q div 128 < length (ed_evtchn d)" using s q(2) MAX_EVTCHNS_cases[of d] by (auto simp: evt_struct_def)
  then show ?case
    using q(2) by (subst scan_ports.simps)
      (simp add: port_is_valid_def bucket_from_port_def evtchn_from_port_def MAX_EVTCHNS_def BITS_PER_EVTCHN_WORD_def)
next
  case (step p)
  let ?d = "d\<lparr>ed_evtchn := (ed_evtchn d)[q div 128 := Bucket_freed]\<rparr>"
  have "q div 128 * 128 = q" using q(1) div_mult_mod_eq[of q 128] by simp
  then have ne: "p div 128 \<noteq> q div 128" using step.hyps div_mult_mod_eq[of p 128] by auto
  obtain c where c: "chan d p = Some c" "chn_state c \<noteq> ECS_FREE" using a step.hyps by blast
  have "port_is_valid ?d p" using port_valid_chan[OF s, of p] c ne
    by (simp add: port_is_valid_def bucket_from_port_def MAX_EVTCHNS_def BITS_PER_EVTCHN_WORD_def)
  moreover have "evtchn_from_port ?d p = evtchn_from_port d p" using ne by (simp add: evtchn_from_port_def arr_get_def)
  ultimately show ?case using step.IH c by (subst scan_ports.simps) (simp add: evtchn_from_port_Some)
qed

text \<open>
  C40. A flaw of \<open>get_free_port\<close>: the new bucket is published in the domain before the security labels of
  its channels are allocated. When a label cannot be allocated the bucket is freed, the call
  answers \<open>-ENOMEM\<close>, and the pointer stays: the next search for a free port reads freed memory.
\<close>

theorem get_free_port_label_failure:
  assumes s: "evt_struct d" and dy: "\<not> ed_dying d"
    and full: "\<forall>p c. chan d p = Some c \<longrightarrow> chn_state c \<noteq> ECS_FREE" and room: "\<exists>p<MAX_EVTCHNS d. chan d p = None"
    and x: "xmalloc_ok env" "i < EVTCHNS_PER_BUCKET" "xsm_alloc_security_evtchn env i"
  shows "\<exists>d'. get_free_port env d = Inr (Inl (- ENOMEM), d') \<and> (\<forall>env'. get_free_port env' d' = Inl Use_after_free)"
proof -
  from scan_ports_ok[OF s, of 0] full obtain q where sc: "scan_ports d 0 = Inr (False, q)"
    and a: "\<And>p. p < q \<Longrightarrow> \<exists>c. chan d p = Some c \<and> chn_state c \<noteq> ECS_FREE" and n: "chan d q = None"
    by (metis (full_types) zero_le)
  have a': "\<And>p. p < q \<Longrightarrow> chan d p \<noteq> None" using a by fastforce
  note f = first_invalid_port[OF s n a']
  have m: "q \<noteq> MAX_EVTCHNS d" using room a' by blast
  let ?d = "d\<lparr>ed_evtchn := (ed_evtchn d)[q div 128 := Bucket_freed]\<rparr>"
  have ex: "(\<exists>i<EVTCHNS_PER_BUCKET. xsm_alloc_security_evtchn env i) = True" using x(2,3) by blast
  have "get_free_port env d = Inr (Inl (- ENOMEM), ?d)"
    unfolding get_free_port_def sc ex using dy x(1) m by simp
  moreover have "scan_ports ?d 0 = Inl Use_after_free" using scan_ports_freed[OF s f(1) _ a, of 0] f(2) m by simp
  then have "get_free_port env' ?d = Inl Use_after_free" for env' using dy by (simp add: get_free_port_def)
  ultimately show ?thesis by blast
qed

theorem get_free_port_label_failure_witness:
  "\<exists>d'. get_free_port ((demo_env 0)\<lparr>xsm_alloc_security_evtchn := \<lambda>i. i = 5\<rparr>) demo_domain = Inr (Inl (- ENOMEM), d') \<and>
    (\<forall>env'. get_free_port env' d' = Inl Use_after_free)"
proof (rule get_free_port_label_failure)
  have e: "ed_evtchn demo_domain = replicate NR_EVTCHN_BUCKETS Bucket_null" by (simp add: demo_domain_def)
  note f = fresh_chan[OF e]
  show "evt_struct demo_domain" by (rule f(1))
  show "\<forall>p c. chan demo_domain p = Some c \<longrightarrow> chn_state c \<noteq> ECS_FREE" by (simp add: f(2))
  show "\<exists>p<MAX_EVTCHNS demo_domain. chan demo_domain p = None" using MAX_EVTCHNS_cases[of demo_domain] by (intro exI[of _ 0]) (auto simp: f(2))
qed (simp_all add: demo_domain_def demo_env_def)

end
