(* ===== verification/Timer_Heap.thy ===== *)
theory Timer_Heap
  imports Xen_Prelude
begin

text \<open>
  The timer heap of \<open>common/timer.c\<close>: an array of pointers to timers whose slot 0 holds the size and
  the limit as two 16-bit numbers, with the position of every timer stored back in the timer. Timers
  are addressed by numbers, their memory is a function from addresses to records. The operations sink,
  float, remove and add are translated with every array access checked; they are shown to keep the
  heap order and the back pointers, and to remove or add exactly the given timer.
\<close>

section \<open>Timers\<close>

type_synonym tid = nat

text \<open>\<open>struct timer\<close>: the union of the three positions has one live member.\<close>

datatype timer_status =
  TIMER_STATUS_invalid | TIMER_STATUS_inactive | TIMER_STATUS_killed | TIMER_STATUS_in_heap | TIMER_STATUS_in_list

datatype timer_pos = Pos_none | Heap_offset nat | List_next | Inactive_link

record timer =
  expires :: int
  t_pos :: timer_pos
  t_function :: nat
  t_data :: nat
  t_cpu :: nat
  t_status :: timer_status

type_synonym tmem = "tid \<Rightarrow> timer"

section \<open>The heap\<close>

record theap =
  heap_size :: nat
  heap_limit :: nat
  heap_slots :: "tid list"

definition SET_HEAP_SIZE :: "int \<Rightarrow> theap \<Rightarrow> theap" where
  "SET_HEAP_SIZE v h = h\<lparr>heap_size := nat (v mod 65536)\<rparr>"

definition SET_HEAP_LIMIT :: "int \<Rightarrow> theap \<Rightarrow> theap" where
  "SET_HEAP_LIMIT v h = h\<lparr>heap_limit := nat (v mod 65536)\<rparr>"

text \<open>\<open>heap[i]\<close> as a pointer; slot 0 holds the two numbers instead.\<close>

definition heap_get :: "theap \<Rightarrow> nat \<Rightarrow> tid result" where
  "heap_get h i = (if i = 0 then Inl Union_confusion else arr_get (heap_slots h) i)"

definition heap_put :: "theap \<Rightarrow> nat \<Rightarrow> tid \<Rightarrow> theap result" where
  "heap_put h i t =
     (if i = 0 then Inl Union_confusion
      else bindR (arr_set (heap_slots h) i t) (\<lambda>a. Inr (h\<lparr>heap_slots := a\<rparr>)))"

definition set_offset :: "nat \<Rightarrow> tid \<Rightarrow> tmem \<Rightarrow> tmem" where
  "set_offset pos t m = m(t := (m t)\<lparr>t_pos := Heap_offset pos\<rparr>)"

text \<open>The child that \<open>down_heap\<close> compares with.\<close>

definition pick_child :: "nat \<Rightarrow> nat \<Rightarrow> theap \<Rightarrow> tmem \<Rightarrow> nat result" where
  "pick_child sz nxt h m =
     (if nxt + 1 \<le> sz then
        bindR (heap_get h (nxt + 1)) (\<lambda>a.
        bindR (heap_get h nxt) (\<lambda>b.
          Inr (if expires (m a) < expires (m b) then nxt + 1 else nxt)))
      else Inr nxt)"

lemma pick_child_ge: "pick_child sz nxt h m = Inr c \<Longrightarrow> nxt \<le> c"
  by (auto simp: pick_child_def bindR_Inr_iff split: if_splits)

function down_loop :: "nat \<Rightarrow> tid \<Rightarrow> nat \<Rightarrow> theap \<Rightarrow> tmem \<Rightarrow> (nat \<times> theap \<times> tmem) result" where
  "down_loop sz t pos h m =
     (if pos * 2 \<le> sz then
        bindR (pick_child sz (pos * 2) h m) (\<lambda>nxt.
        bindR (heap_get h nxt) (\<lambda>c.
          if expires (m c) > expires (m t) then Inr (pos, h, m)
          else bindR (heap_put h pos c) (\<lambda>h. down_loop sz t nxt h (set_offset pos c m))))
      else Inr (pos, h, m))"
  by pat_completeness auto
termination
proof (relation "measure (\<lambda>(sz, t, pos, h, m). sz + 1 - pos)", goal_cases)
  case (2 sz t pos h m nxt c h')
  then have "0 < pos" by (auto simp: heap_put_def split: if_splits)
  moreover have "pos * 2 \<le> nxt" using 2(2) pick_child_ge by blast
  ultimately show ?case using 2(1) by auto
qed simp

declare down_loop.simps [simp del]

definition down_heap :: "theap \<Rightarrow> nat \<Rightarrow> tmem \<Rightarrow> (theap \<times> tmem) result" where
  "down_heap h pos m =
     bindR (heap_get h pos) (\<lambda>t.
     bindR (down_loop (heap_size h) t pos h m) (\<lambda>(pos, h, m).
     bindR (heap_put h pos t) (\<lambda>h. Inr (h, set_offset pos t m))))"

function up_loop :: "tid \<Rightarrow> nat \<Rightarrow> theap \<Rightarrow> tmem \<Rightarrow> (nat \<times> theap \<times> tmem) result" where
  "up_loop t pos h m =
     (if pos > 1 then
        bindR (heap_get h (pos div 2)) (\<lambda>p.
          if expires (m t) < expires (m p) then
            bindR (heap_put h pos p) (\<lambda>h. up_loop t (pos div 2) h (set_offset pos p m))
          else Inr (pos, h, m))
      else Inr (pos, h, m))"
  by pat_completeness auto
termination
  by (relation "measure (\<lambda>(t, pos, h, m). pos)") auto

declare up_loop.simps [simp del]

definition up_heap :: "theap \<Rightarrow> nat \<Rightarrow> tmem \<Rightarrow> (theap \<times> tmem) result" where
  "up_heap h pos m =
     bindR (heap_get h pos) (\<lambda>t.
     bindR (up_loop t pos h m) (\<lambda>(pos, h, m).
     bindR (heap_put h pos t) (\<lambda>h. Inr (h, set_offset pos t m))))"

text \<open>\<open>pos > 1 && heap[pos]->expires < heap[pos>>1]->expires\<close> of \<open>remove_from_heap\<close>.\<close>

definition above_parent :: "theap \<Rightarrow> nat \<Rightarrow> tmem \<Rightarrow> bool result" where
  "above_parent h pos m =
     (if pos > 1 then
        bindR (heap_get h pos) (\<lambda>a.
        bindR (heap_get h (pos div 2)) (\<lambda>b. Inr (expires (m a) < expires (m b))))
      else Inr False)"

definition remove_from_heap :: "theap \<Rightarrow> tid \<Rightarrow> tmem \<Rightarrow> (bool \<times> theap \<times> tmem) result" where
  "remove_from_heap h t m =
     (case t_pos (m t) of
        Heap_offset pos \<Rightarrow>
          (let sz = heap_size h in
           if pos = sz then Inr (pos = 1, SET_HEAP_SIZE (int sz - 1) h, m)
           else
             bindR (heap_get h sz) (\<lambda>l.
             bindR (heap_put h pos l) (\<lambda>h.
             let m = set_offset pos l m;
                 h = SET_HEAP_SIZE (int sz - 1) h
             in bindR (above_parent h pos m) (\<lambda>up.
                bindR (if up then up_heap h pos m else down_heap h pos m) (\<lambda>(h, m).
                  Inr (pos = 1, h, m))))))
      | _ \<Rightarrow> Inl Union_confusion)"

definition add_to_heap :: "theap \<Rightarrow> tid \<Rightarrow> tmem \<Rightarrow> (bool \<times> theap \<times> tmem) result" where
  "add_to_heap h t m =
     (let sz = heap_size h in
      if sz = heap_limit h then Inr (False, h, m)
      else
        let h = SET_HEAP_SIZE (int sz + 1) h in
        bindR (heap_put h (sz + 1) t) (\<lambda>h.
        bindR (up_heap h (sz + 1) (set_offset (sz + 1) t m)) (\<lambda>(h, m).
          Inr (t_pos (m t) = Heap_offset 1, h, m))))"

section \<open>Heap order on an array\<close>

text \<open>
  Positions count from 1. \<open>ordered\<close>: no timer expires before its parent. \<open>hole_down\<close>, \<open>hole_up\<close>: the same
  but for the links between one position and its children, or its parent, where the links around it
  still hold.
\<close>

definition ordered :: "('a \<Rightarrow> int) \<Rightarrow> 'a list \<Rightarrow> nat \<Rightarrow> bool" where
  "ordered k a n \<longleftrightarrow> (\<forall>i. 2 \<le> i \<longrightarrow> i \<le> n \<longrightarrow> k (a ! (i div 2)) \<le> k (a ! i))"

definition hole_down :: "('a \<Rightarrow> int) \<Rightarrow> 'a list \<Rightarrow> nat \<Rightarrow> nat \<Rightarrow> bool" where
  "hole_down k a n p \<longleftrightarrow>
     (\<forall>i. 2 \<le> i \<longrightarrow> i \<le> n \<longrightarrow>
        (if i div 2 = p then 2 \<le> p \<longrightarrow> k (a ! (p div 2)) \<le> k (a ! i) else k (a ! (i div 2)) \<le> k (a ! i)))"

definition hole_up :: "('a \<Rightarrow> int) \<Rightarrow> 'a list \<Rightarrow> nat \<Rightarrow> nat \<Rightarrow> bool" where
  "hole_up k a n p \<longleftrightarrow>
     (\<forall>i. 2 \<le> i \<longrightarrow> i \<le> n \<longrightarrow> i \<noteq> p \<longrightarrow>
        k (a ! (i div 2)) \<le> k (a ! i) \<and> (i div 2 = p \<longrightarrow> 2 \<le> p \<longrightarrow> k (a ! (p div 2)) \<le> k (a ! i)))"

definition swap :: "nat \<Rightarrow> nat \<Rightarrow> 'a list \<Rightarrow> 'a list" where
  "swap i j a = a[i := a ! j, j := a ! i]"

lemma swap_nth: "i < length a \<Longrightarrow> j < length a \<Longrightarrow> swap i j a ! l = (if l = i then a ! j else if l = j then a ! i else a ! l)"
  by (cases "l < length a") (auto simp: swap_def nth_list_update)

lemma ordered_root: "ordered k a n \<Longrightarrow> 1 \<le> i \<Longrightarrow> i \<le> n \<Longrightarrow> k (a ! 1) \<le> k (a ! i)"
proof (induction i rule: less_induct)
  case (less i)
  show ?case
  proof (cases "i = 1")
    case False
    then have i: "2 \<le> i" "i div 2 < i" "1 \<le> i div 2" "i div 2 \<le> n" using less.prems by auto
    have "k (a ! 1) \<le> k (a ! (i div 2))" using less.IH[OF i(2)] less.prems i by simp
    also have "\<dots> \<le> k (a ! i)" using less.prems i(1) by (simp add: ordered_def)
    finally show ?thesis .
  qed simp
qed

lemma child_cases: "i div 2 = (p::nat) \<longleftrightarrow> i = p * 2 \<or> i = p * 2 + 1"
  by auto

lemma hole_down_done:
  assumes "hole_down k a n p" and "\<And>i. i = p * 2 \<or> i = p * 2 + 1 \<Longrightarrow> 2 \<le> i \<Longrightarrow> i \<le> n \<Longrightarrow> k (a ! p) \<le> k (a ! i)"
  shows "ordered k a n"
  using assms unfolding hole_down_def ordered_def by (metis child_cases)

lemma hole_down_step:
  assumes h: "hole_down k a n p" and p: "1 \<le> p" "n < length a" and c: "c = p * 2 \<or> c = p * 2 + 1" "c \<le> n"
    and m: "\<And>i. i = p * 2 \<or> i = p * 2 + 1 \<Longrightarrow> i \<le> n \<Longrightarrow> k (a ! c) \<le> k (a ! i)" and le: "k (a ! c) \<le> k (a ! p)"
  shows "hole_down k (swap p c a) n c"
proof -
  have l: "p < length a" "c < length a" "p < c" "c div 2 = p" "2 \<le> c" "c \<noteq> p" using p c by auto
  have H: "2 \<le> i \<Longrightarrow> i \<le> n \<Longrightarrow> i div 2 \<noteq> p \<Longrightarrow> k (a ! (i div 2)) \<le> k (a ! i)" for i using h unfolding hole_down_def by auto
  have G: "2 \<le> i \<Longrightarrow> i \<le> n \<Longrightarrow> i div 2 = p \<Longrightarrow> 2 \<le> p \<Longrightarrow> k (a ! (p div 2)) \<le> k (a ! i)" for i using h unfolding hole_down_def by auto
  show ?thesis unfolding hole_down_def swap_nth[OF l(1,2)]
  proof (intro allI impI, goal_cases)
    case (1 i)
    have "i div 2 \<noteq> i" using 1 by auto
    consider "i div 2 = c" | "i div 2 = p" | "i = p" | "i div 2 \<noteq> c" "i div 2 \<noteq> p" "i \<noteq> p" by blast
    then show ?case
    proof cases
      case 1
      then have "i \<noteq> c" "i \<noteq> p" "c \<noteq> p" using l by auto
      then show ?thesis using H[of i] \<open>2 \<le> i\<close> \<open>i \<le> n\<close> 1 l by simp
    next
      case 2
      then have "i = p * 2 \<or> i = p * 2 + 1" "i \<noteq> p" using child_cases p(1) by auto
      then show ?thesis using 2 l m[of i] le \<open>i \<le> n\<close> by simp
    next
      case 3
      then show ?thesis using l H[of c] G[of c] c \<open>2 \<le> i\<close> by auto
    next
      case 4
      then have "i \<noteq> c" using l by auto
      then show ?thesis using 4 H[of i] \<open>2 \<le> i\<close> \<open>i \<le> n\<close> by simp
    qed
  qed
qed

lemma hole_up_done:
  assumes "hole_up k a n p" and "2 \<le> p \<Longrightarrow> p \<le> n \<Longrightarrow> k (a ! (p div 2)) \<le> k (a ! p)"
  shows "ordered k a n"
  using assms unfolding hole_up_def ordered_def by metis

lemma hole_up_step:
  assumes h: "hole_up k a n p" and p: "2 \<le> p" "p \<le> n" "n < length a" and lt: "k (a ! p) < k (a ! (p div 2))"
  shows "hole_up k (swap p (p div 2) a) n (p div 2)"
proof -
  let ?q = "p div 2"
  have l: "p < length a" "?q < length a" "?q < p" "1 \<le> ?q" using p by auto
  have H: "2 \<le> i \<Longrightarrow> i \<le> n \<Longrightarrow> i \<noteq> p \<Longrightarrow> k (a ! (i div 2)) \<le> k (a ! i)" for i using h unfolding hole_up_def by auto
  have G: "2 \<le> i \<Longrightarrow> i \<le> n \<Longrightarrow> i \<noteq> p \<Longrightarrow> i div 2 = p \<Longrightarrow> k (a ! ?q) \<le> k (a ! i)" for i using h p unfolding hole_up_def by auto
  show ?thesis unfolding hole_up_def swap_nth[OF l(1,2)]
  proof (intro allI impI, goal_cases)
    case (1 i)
    have qq: "2 \<le> ?q \<Longrightarrow> k (a ! (?q div 2)) \<le> k (a ! ?q)" using H[of ?q] l p by auto
    consider "i = p" | "i \<noteq> p" "i div 2 = ?q" | "i \<noteq> p" "i div 2 = p" | "i \<noteq> p" "i div 2 \<noteq> ?q" "i div 2 \<noteq> p" by blast
    then show ?case
    proof cases
      case 1
      then show ?thesis using lt qq l by auto
    next
      case 2
      have "k (a ! ?q) \<le> k (a ! i)" using H[of i] 1 2 by auto
      then show ?thesis using 2 1 lt qq l by auto
    next
      case 3
      then show ?thesis using G[of i] 1 l by auto
    next
      case 4
      then show ?thesis using H[of i] 1 l by auto
    qed
  qed
qed

section \<open>Back pointers\<close>

definition offsets_ok :: "tmem \<Rightarrow> tid list \<Rightarrow> nat \<Rightarrow> bool" where
  "offsets_ok m a n \<longleftrightarrow> (\<forall>i. 1 \<le> i \<longrightarrow> i \<le> n \<longrightarrow> t_pos (m (a ! i)) = Heap_offset i)"

definition slot_ids :: "tid list \<Rightarrow> nat \<Rightarrow> tid set" where
  "slot_ids a n = (!) a ` {1..n}"

text \<open>\<open>moved S m m'\<close>: only the positions of timers in \<open>S\<close> were written.\<close>

definition moved :: "tid set \<Rightarrow> tmem \<Rightarrow> tmem \<Rightarrow> bool" where
  "moved S m m' \<longleftrightarrow> (\<forall>x. m' x = (m x)\<lparr>t_pos := t_pos (m' x)\<rparr> \<and> (x \<notin> S \<longrightarrow> m' x = m x))"

lemma moved_refl [simp]: "moved S m m" by (simp add: moved_def)

lemma moved_trans: "moved S m m' \<Longrightarrow> moved T m' m'' \<Longrightarrow> S \<subseteq> U \<Longrightarrow> T \<subseteq> U \<Longrightarrow> moved U m m''"
  unfolding moved_def by (metis (no_types, lifting) subsetD timer.simps(8) timer.surjective timer.update_convs(2))

lemma moved_expires: "moved S m m' \<Longrightarrow> expires (m' x) = expires (m x)"
  unfolding moved_def by (metis timer.ext_inject timer.surjective timer.update_convs(2))

lemma moved_set_offset: "t \<in> S \<Longrightarrow> moved S m (set_offset p t m)"
  by (simp add: moved_def set_offset_def)

lemma expires_set_offset [simp]: "expires (set_offset p t m x) = expires (m x)"
  by (simp add: set_offset_def)

lemma t_pos_set_offset [simp]: "t_pos (set_offset p t m x) = (if x = t then Heap_offset p else t_pos (m x))"
  by (simp add: set_offset_def)

lemma offsets_inj: "offsets_ok m a n \<Longrightarrow> 1 \<le> i \<Longrightarrow> i \<le> n \<Longrightarrow> 1 \<le> j \<Longrightarrow> j \<le> n \<Longrightarrow> a ! i = a ! j \<longleftrightarrow> i = j"
  unfolding offsets_ok_def by (metis timer_pos.inject)

lemma slot_ids_I: "1 \<le> i \<Longrightarrow> i \<le> n \<Longrightarrow> a ! i \<in> slot_ids a n"
  by (simp add: slot_ids_def)

lemma slot_ids_swap:
  assumes "1 \<le> i" "i \<le> n" "1 \<le> j" "j \<le> n" "n < length a"
  shows "slot_ids (swap i j a) n = slot_ids a n"
proof -
  have l: "i < length a" "j < length a" using assms by auto
  have "\<exists>l\<in>{1..n}. swap i j a ! l = a ! k" if "k \<in> {1..n}" for k
    using that assms by (intro bexI[of _ "if k = i then j else if k = j then i else k"]) (auto simp: swap_nth[OF l])
  moreover have "\<exists>l\<in>{1..n}. a ! l = swap i j a ! k" if "k \<in> {1..n}" for k
    using that assms by (intro bexI[of _ "if k = i then j else if k = j then i else k"]) (auto simp: swap_nth[OF l])
  ultimately show ?thesis unfolding slot_ids_def by (safe; force)
qed

lemma offsets_swap:
  assumes o: "offsets_ok m a n" and "1 \<le> i" "i \<le> n" "1 \<le> j" "j \<le> n" "i \<noteq> j" "n < length a"
  shows "offsets_ok (set_offset j (a ! i) (set_offset i (a ! j) m)) (swap i j a) n"
proof -
  have l: "i < length a" "j < length a" using assms by auto
  show ?thesis
    using offsets_inj[OF o] assms o unfolding offsets_ok_def swap_nth[OF l] by auto
qed

section \<open>Sinking and floating\<close>

text \<open>The array while a timer is held aside: what it becomes when the timer is stored at the hole.\<close>

lemma swap_hole:
  assumes "p < length a" "q < length a" "p \<noteq> q"
  shows "(a[p := a ! q])[q := t] = swap p q (a[p := t])"
  using assms by (simp add: swap_def nth_list_update)

lemma set_offset_hole:
  assumes "t \<noteq> c"
  shows "set_offset q t (set_offset p c (set_offset r t m)) = set_offset q t (set_offset p c m)"
  using assms by (auto simp: set_offset_def fun_eq_iff)

definition same_size :: "theap \<Rightarrow> theap \<Rightarrow> bool" where
  "same_size h h' \<longleftrightarrow> heap_size h' = heap_size h \<and> heap_limit h' = heap_limit h \<and> length (heap_slots h') = length (heap_slots h)"

text \<open>What a loop of \<open>down_heap\<close> or \<open>up_heap\<close> leaves: a hole where the timer completes the order.\<close>

definition settles :: "nat \<Rightarrow> tid \<Rightarrow> tid set \<Rightarrow> theap \<Rightarrow> tmem \<Rightarrow> (nat \<times> theap \<times> tmem) result \<Rightarrow> bool" where
  "settles n t S h m r \<longleftrightarrow>
     (\<exists>p h' m'. r = Inr (p, h', m') \<and> 1 \<le> p \<and> p \<le> n \<and> same_size h h' \<and>
        offsets_ok (set_offset p t m') ((heap_slots h')[p := t]) n \<and>
        ordered (\<lambda>x. expires (m x)) ((heap_slots h')[p := t]) n \<and>
        slot_ids ((heap_slots h')[p := t]) n = S \<and> moved S m m')"

lemma settles_step:
  assumes "settles n t S h1 m1 r" and "same_size h h1" "moved S m m1"
  shows "settles n t S h m r"
proof -
  have "(\<lambda>x. expires (m1 x)) = (\<lambda>x. expires (m x))" using moved_expires[OF assms(3)] by auto
  then show ?thesis
    using assms moved_trans[OF assms(3)] unfolding settles_def same_size_def by (metis (no_types, lifting) order_refl)
qed

lemma pick_child_ok:
  assumes "1 \<le> p" "p * 2 \<le> n" "n < length (heap_slots h)"
  shows "\<exists>c. pick_child n (p * 2) h m = Inr c \<and> (c = p * 2 \<or> c = p * 2 + 1) \<and> c \<le> n \<and>
    (\<forall>i. i = p * 2 \<or> i = p * 2 + 1 \<longrightarrow> i \<le> n \<longrightarrow> expires (m (heap_slots h ! c)) \<le> expires (m (heap_slots h ! i)))"
  using assms by (auto simp: pick_child_def heap_get_def)

lemma down_loop_ok:
  assumes "1 \<le> p" "p \<le> n" "n < length (heap_slots h)"
    and "offsets_ok (set_offset p t m) ((heap_slots h)[p := t]) n"
    and "hole_down (\<lambda>x. expires (m x)) ((heap_slots h)[p := t]) n p"
  shows "settles n t (slot_ids ((heap_slots h)[p := t]) n) h m (down_loop n t p h m)"
  using assms
proof (induction n t p h m rule: down_loop.induct)
  case (1 n t p h m)
  note pr = "1.prems"
  let ?s = "heap_slots h" let ?a = "?s[p := t]" let ?k = "\<lambda>x. expires (m x)"
  have stop: ?case if "ordered ?k ?a n" "down_loop n t p h m = Inr (p, h, m)"
    using that pr by (auto simp: settles_def same_size_def)
  show ?case
  proof (cases "p * 2 \<le> n")
    case False
    have "ordered ?k ?a n" by (rule hole_down_done[OF pr(5)]) (use False in auto)
    then show ?thesis using stop False by (simp add: down_loop.simps)
  next
    case True
    obtain c where c: "pick_child n (p * 2) h m = Inr c" "c = p * 2 \<or> c = p * 2 + 1" "c \<le> n"
      and mn: "\<And>i. i = p * 2 \<or> i = p * 2 + 1 \<Longrightarrow> i \<le> n \<Longrightarrow> ?k (?s ! c) \<le> ?k (?s ! i)"
      using pick_child_ok[OF pr(1) True pr(3), of m] by blast
    have cp: "1 \<le> c" "c \<noteq> p" "c < length ?s" "p < length ?s" using c pr by auto
    have g: "heap_get h c = Inr (?s ! c)" using cp by (simp add: heap_get_def)
    have an: "?a ! i = ?s ! i" if "i \<noteq> p" for i using that by simp
    have ap: "?a ! p = t" using cp by simp
    have mn': "?k (?a ! c) \<le> ?k (?a ! i)" if "i = p * 2 \<or> i = p * 2 + 1" "i \<le> n" for i
      using mn[OF that] that cp pr(1) by auto
    show ?thesis
    proof (cases "?k (?s ! c) > ?k t")
      case gt: True
      have "ordered ?k ?a n"
        by (rule hole_down_done[OF pr(5)]) (use gt mn' an[OF cp(2)] ap in force)
      then show ?thesis using stop True c g gt by (simp add: down_loop.simps)
    next
      case le: False
      define h1 where "h1 = h\<lparr>heap_slots := ?s[p := ?s ! c]\<rparr>"
      define m1 where "m1 = set_offset p (?s ! c) m"
      have pt: "heap_put h p (?s ! c) = Inr h1" using cp pr(1) by (simp add: heap_put_def h1_def)
      have s1: "(heap_slots h1)[c := t] = swap p c ?a" using swap_hole[OF cp(4,3)] cp by (simp add: h1_def)
      have ln: "n < length ?a" using pr(3) by simp
      have ne: "t \<noteq> ?s ! c" using offsets_inj[OF pr(4,1,2) cp(1) c(3)] ap an[OF cp(2)] cp by auto
      have o: "offsets_ok (set_offset c t m1) ((heap_slots h1)[c := t]) n"
        using offsets_swap[OF pr(4,1,2) cp(1) c(3) cp(2)[symmetric] ln] set_offset_hole[OF ne] an[OF cp(2)] ap
        unfolding s1 m1_def by simp
      have d: "hole_down (\<lambda>x. expires (m1 x)) ((heap_slots h1)[c := t]) n c"
        using hole_down_step[OF pr(5,1) ln c(2,3) mn'] le an[OF cp(2)] ap unfolding s1 m1_def by simp
      have len: "n < length (heap_slots h1)" using pr(3) by (simp add: h1_def)
      have si: "slot_ids (swap p c ?a) n = slot_ids ?a n" by (rule slot_ids_swap[OF pr(1,2) cp(1) c(3) ln])
      have "settles n t (slot_ids ?a n) h1 m1 (down_loop n t c h1 m1)"
        using "1.IH"[OF True c(1) g _ pt cp(1) c(3) len] le o d s1 si unfolding m1_def by simp
      moreover have "same_size h h1" by (simp add: same_size_def h1_def)
      moreover have "moved (slot_ids ?a n) m m1" 
        using slot_ids_I[OF cp(1) c(3), of ?a] an[OF cp(2)] unfolding m1_def by (intro moved_set_offset) simp
      ultimately have "settles n t (slot_ids ?a n) h m (down_loop n t c h1 m1)" by (rule settles_step)
      then show ?thesis using True c(1) g le pt by (simp add: down_loop.simps[of n t p] m1_def)
    qed
  qed
qed

lemma up_loop_ok:
  assumes "1 \<le> p" "p \<le> n" "n < length (heap_slots h)"
    and "offsets_ok (set_offset p t m) ((heap_slots h)[p := t]) n"
    and "hole_up (\<lambda>x. expires (m x)) ((heap_slots h)[p := t]) n p"
  shows "settles n t (slot_ids ((heap_slots h)[p := t]) n) h m (up_loop t p h m)"
  using assms
proof (induction t p h m rule: up_loop.induct)
  case (1 t p h m)
  note pr = "1.prems"
  let ?s = "heap_slots h" let ?a = "?s[p := t]" let ?k = "\<lambda>x. expires (m x)" let ?c = "p div 2"
  have stop: ?case if "ordered ?k ?a n" "up_loop t p h m = Inr (p, h, m)"
    using that pr by (auto simp: settles_def same_size_def)
  show ?case
  proof (cases "1 < p")
    case False
    have "ordered ?k ?a n" by (rule hole_up_done[OF pr(5)]) (use False in auto)
    then show ?thesis using stop False by (simp add: up_loop.simps)
  next
    case True
    have cp: "1 \<le> ?c" "?c \<noteq> p" "?c < length ?s" "p < length ?s" "?c \<le> n" "2 \<le> p" using True pr by auto
    have g: "heap_get h ?c = Inr (?s ! ?c)" using cp by (simp add: heap_get_def)
    have an: "?a ! ?c = ?s ! ?c" using cp by simp
    have ap: "?a ! p = t" using cp by simp
    show ?thesis
    proof (cases "?k t < ?k (?s ! ?c)")
      case False
      have "ordered ?k ?a n"
        by (rule hole_up_done[OF pr(5)]) (use False an ap in auto)
      then show ?thesis using stop True g False by (simp add: up_loop.simps)
    next
      case lt: True
      define h1 where "h1 = h\<lparr>heap_slots := ?s[p := ?s ! ?c]\<rparr>"
      define m1 where "m1 = set_offset p (?s ! ?c) m"
      have pt: "heap_put h p (?s ! ?c) = Inr h1" using cp pr(1) by (simp add: heap_put_def h1_def)
      have s1: "(heap_slots h1)[?c := t] = swap p ?c ?a" using swap_hole[OF cp(4,3)] cp by (simp add: h1_def)
      have ln: "n < length ?a" using pr(3) by simp
      have ne: "t \<noteq> ?s ! ?c" using offsets_inj[OF pr(4,1,2) cp(1,5)] ap an cp by auto
      have o: "offsets_ok (set_offset ?c t m1) ((heap_slots h1)[?c := t]) n"
        using offsets_swap[OF pr(4,1,2) cp(1,5) cp(2)[symmetric] ln] set_offset_hole[OF ne] an ap
        unfolding s1 m1_def by simp
      have d: "hole_up (\<lambda>x. expires (m1 x)) ((heap_slots h1)[?c := t]) n ?c"
        using hole_up_step[OF pr(5) cp(6) pr(2) ln] lt an ap unfolding s1 m1_def by simp
      have len: "n < length (heap_slots h1)" using pr(3) by (simp add: h1_def)
      have si: "slot_ids (swap p ?c ?a) n = slot_ids ?a n" by (rule slot_ids_swap[OF pr(1,2) cp(1,5) ln])
      have "settles n t (slot_ids ?a n) h1 m1 (up_loop t ?c h1 m1)"
        using "1.IH"[OF True g lt pt cp(1,5) len] o d s1 si unfolding m1_def by simp
      moreover have "same_size h h1" by (simp add: same_size_def h1_def)
      moreover have "moved (slot_ids ?a n) m m1" 
        using slot_ids_I[OF cp(1,5), of ?a] an unfolding m1_def by (intro moved_set_offset) simp
      ultimately have "settles n t (slot_ids ?a n) h m (up_loop t ?c h1 m1)" by (rule settles_step)
      then show ?thesis using True g lt pt by (simp add: up_loop.simps[of t p] m1_def)
    qed
  qed
qed

text \<open>
  The limits a heap can have: it starts with the header only and grows sixteenfold, and the limit is
  stored in 16 bits.
\<close>

definition limit_ok :: "nat \<Rightarrow> bool" where
  "limit_ok n \<longleftrightarrow> n \<in> {0, 15, 255, 4095, 65535}"

lemma limit_ok_less: "limit_ok n \<Longrightarrow> n < 65536"
  by (auto simp: limit_ok_def)

definition heap_wf :: "tmem \<Rightarrow> theap \<Rightarrow> bool" where
  "heap_wf m h \<longleftrightarrow>
     heap_size h \<le> heap_limit h \<and> heap_limit h < length (heap_slots h) \<and> limit_ok (heap_limit h) \<and>
     offsets_ok m (heap_slots h) (heap_size h) \<and> ordered (\<lambda>x. expires (m x)) (heap_slots h) (heap_size h)"

definition heap_ids :: "theap \<Rightarrow> tid set" where
  "heap_ids h = slot_ids (heap_slots h) (heap_size h)"

definition heap_first :: "theap \<Rightarrow> tid option" where
  "heap_first h = (if heap_size h = 0 then None else Some (heap_slots h ! 1))"

lemma set_offset_idem: "t_pos (m t) = Heap_offset p \<Longrightarrow> set_offset p t m = m"
  by (simp add: set_offset_def fun_upd_idem_iff)

text \<open>Both walks, started at a slot whose timer is in place, end with an ordered heap.\<close>

definition heap_settled :: "tid set \<Rightarrow> theap \<Rightarrow> tmem \<Rightarrow> (theap \<times> tmem) result \<Rightarrow> bool" where
  "heap_settled S h m r \<longleftrightarrow>
     (\<exists>h' m'. r = Inr (h', m') \<and> same_size h h' \<and> heap_wf m' h' \<and> heap_ids h' = S \<and> moved S m m')"

lemma settles_heap:
  assumes s: "settles (heap_size h) t S h m r" and h: "heap_size h \<le> heap_limit h" "heap_limit h < length (heap_slots h)" "limit_ok (heap_limit h)"
  shows "heap_settled S h m (bindR r (\<lambda>(pos, h, m). bindR (heap_put h pos t) (\<lambda>h. Inr (h, set_offset pos t m))))"
proof -
  from s obtain p h' m' where r: "r = Inr (p, h', m')" "1 \<le> p" "p \<le> heap_size h" and z: "same_size h h'"
    and o: "offsets_ok (set_offset p t m') ((heap_slots h')[p := t]) (heap_size h)"
      "ordered (\<lambda>x. expires (m x)) ((heap_slots h')[p := t]) (heap_size h)"
    and i: "slot_ids ((heap_slots h')[p := t]) (heap_size h) = S" and m: "moved S m m'"
    unfolding settles_def by blast
  let ?h = "h'\<lparr>heap_slots := (heap_slots h')[p := t]\<rparr>" let ?m = "set_offset p t m'"
  have p: "p < length (heap_slots h')" using r z h by (simp add: same_size_def)
  have eq: "bindR r (\<lambda>(pos, h, m). bindR (heap_put h pos t) (\<lambda>h. Inr (h, set_offset pos t m))) = Inr (?h, ?m)"
    using r p by (simp add: heap_put_def)
  have ts: "t \<in> S" using slot_ids_I[OF r(2,3), of "(heap_slots h')[p := t]"] p i by simp
  have mv: "moved S m ?m" using moved_trans[OF m moved_set_offset[OF ts]] by blast
  have "heap_wf ?m ?h" using o h z moved_expires[OF mv] by (simp add: heap_wf_def same_size_def)
  then show ?thesis
    using eq mv i z by (auto simp: heap_settled_def heap_ids_def same_size_def)
qed

lemma down_heap_ok:
  assumes "heap_size h \<le> heap_limit h" "heap_limit h < length (heap_slots h)" "limit_ok (heap_limit h)"
    and "1 \<le> p" "p \<le> heap_size h" and o: "offsets_ok m (heap_slots h) (heap_size h)"
    and "hole_down (\<lambda>x. expires (m x)) (heap_slots h) (heap_size h) p"
  shows "heap_settled (heap_ids h) h m (down_heap h p m)"
proof -
  let ?t = "heap_slots h ! p"
  have "heap_get h p = Inr ?t" using assms by (simp add: heap_get_def)
  moreover have "set_offset p ?t m = m" using o assms by (intro set_offset_idem) (simp add: offsets_ok_def)
  moreover have "settles (heap_size h) ?t (heap_ids h) h m (down_loop (heap_size h) ?t p h m)"
    using down_loop_ok[of p "heap_size h" h ?t m] assms calculation(2) by (simp add: heap_ids_def)
  ultimately show ?thesis using settles_heap[of h ?t] assms by (simp add: down_heap_def)
qed

lemma up_heap_ok:
  assumes "heap_size h \<le> heap_limit h" "heap_limit h < length (heap_slots h)" "limit_ok (heap_limit h)"
    and "1 \<le> p" "p \<le> heap_size h" and o: "offsets_ok m (heap_slots h) (heap_size h)"
    and "hole_up (\<lambda>x. expires (m x)) (heap_slots h) (heap_size h) p"
  shows "heap_settled (heap_ids h) h m (up_heap h p m)"
proof -
  let ?t = "heap_slots h ! p"
  have "heap_get h p = Inr ?t" using assms by (simp add: heap_get_def)
  moreover have "set_offset p ?t m = m" using o assms by (intro set_offset_idem) (simp add: offsets_ok_def)
  moreover have "settles (heap_size h) ?t (heap_ids h) h m (up_loop ?t p h m)"
    using up_loop_ok[of p "heap_size h" h ?t m] assms calculation(2) by (simp add: heap_ids_def)
  ultimately show ?thesis using settles_heap[of h ?t] assms by (simp add: up_heap_def)
qed

section \<open>Removing and adding\<close>

text \<open>Replacing the timer at one position leaves the order around it.\<close>

lemma replaced_hole:
  assumes o: "ordered k a (Suc n)" and p: "1 \<le> p" "p \<le> n" "n + 1 < length a"
  shows "\<not> k (a ! Suc n) < k (a ! (p div 2)) \<or> p = 1 \<Longrightarrow> hole_down k (a[p := a ! Suc n]) n p"
    and "k (a ! Suc n) < k (a ! (p div 2)) \<Longrightarrow> 2 \<le> p \<Longrightarrow> hole_up k (a[p := a ! Suc n]) n p"
proof -
  have O: "2 \<le> i \<Longrightarrow> i \<le> Suc n \<Longrightarrow> k (a ! (i div 2)) \<le> k (a ! i)" for i using o by (simp add: ordered_def)
  have pp: "2 \<le> p \<Longrightarrow> i div 2 = p \<Longrightarrow> 2 \<le> i \<Longrightarrow> i \<le> n \<Longrightarrow> k (a ! (p div 2)) \<le> k (a ! i)" for i
    using O[of p] O[of i] p by (metis le_SucI order_trans)
  have ip: "i \<noteq> p \<Longrightarrow> a[p := x] ! i = a ! i" for i x by simp
  have hp: "a[p := x] ! p = x" for x using p by simp
  have d2: "2 \<le> i \<Longrightarrow> i div 2 \<noteq> i" for i :: nat by auto
  have pd: "p div 2 \<noteq> p" using p by auto
  show "hole_down k (a[p := a ! Suc n]) n p" if "\<not> k (a ! Suc n) < k (a ! (p div 2)) \<or> p = 1"
    unfolding hole_down_def
  proof (intro allI impI, goal_cases)
    case (1 i)
    show ?case
    proof (cases "i = p")
      case True
      then show ?thesis using that hp ip[OF pd] 1 pd by auto
    next
      case False
      then show ?thesis using O[of i] pp[of i] 1 ip[of i] ip[of "i div 2"] ip[OF pd] by auto
    qed
  qed
  show "hole_up k (a[p := a ! Suc n]) n p" if "k (a ! Suc n) < k (a ! (p div 2))" "2 \<le> p"
    unfolding hole_up_def
  proof (intro allI impI, goal_cases)
    case (1 i)
    show ?case
    proof (cases "i div 2 = p")
      case True
      then show ?thesis using that pp[OF that(2) True 1(1,2)] hp ip[OF 1(3)] ip[OF pd] by auto
    next
      case False
      then show ?thesis using O[of i] 1 ip[OF 1(3)] ip[OF False] by auto
    qed
  qed
qed

lemma slot_ids_replace:
  assumes o: "offsets_ok m a (Suc n)" and p: "1 \<le> p" "p \<le> n" "n + 1 < length a"
  shows "slot_ids (a[p := a ! Suc n]) n = slot_ids a (Suc n) - {a ! p}"
proof -
  have inj: "a ! i = a ! p \<longleftrightarrow> i = p" if "i \<in> {1..Suc n}" for i using offsets_inj[OF o, of i p] that p by auto
  have "(!) (a[p := a ! Suc n]) ` {1..n} = (!) a ` ({1..Suc n} - {p})"
  proof (intro equalityI subsetI; elim imageE)
    fix x i assume "x = a[p := a ! Suc n] ! i" "i \<in> {1..n}"
    then show "x \<in> (!) a ` ({1..Suc n} - {p})" using p by (cases "i = p") auto
  next
    fix x i assume i: "x = a ! i" "i \<in> {1..Suc n} - {p}"
    show "x \<in> (!) (a[p := a ! Suc n]) ` {1..n}"
    proof (cases "i = Suc n")
      case True
      then show ?thesis using i p by (intro image_eqI[of _ _ p]) auto
    next
      case False
      then show ?thesis using i p by (intro image_eqI[of _ _ i]) auto
    qed
  qed
  also have "\<dots> = slot_ids a (Suc n) - {a ! p}" using inj p unfolding slot_ids_def by auto
  finally show ?thesis unfolding slot_ids_def .
qed

lemma slot_ids_pos: "offsets_ok m a n \<Longrightarrow> t \<in> slot_ids a n \<Longrightarrow> \<exists>p. 1 \<le> p \<and> p \<le> n \<and> a ! p = t \<and> t_pos (m t) = Heap_offset p"
  unfolding slot_ids_def offsets_ok_def by auto

lemma remove_from_heap_ok:
  assumes w: "heap_wf m h" and t: "t \<in> heap_ids h"
  shows "\<exists>h' m'. remove_from_heap h t m = Inr (heap_first h = Some t, h', m') \<and> heap_wf m' h' \<and>
    heap_ids h' = heap_ids h - {t} \<and> moved (heap_ids h - {t}) m m' \<and> heap_limit h' = heap_limit h \<and>
    length (heap_slots h') = length (heap_slots h)"
proof -
  let ?a = "heap_slots h"
  note W = w[unfolded heap_wf_def]
  from slot_ids_pos[of m ?a] W t obtain p where p: "1 \<le> p" "p \<le> heap_size h" "?a ! p = t" "t_pos (m t) = Heap_offset p"
    unfolding heap_ids_def by blast
  obtain n where n: "heap_size h = Suc n" using p by (cases "heap_size h") auto
  have n16: "nat (int (Suc n) - 1) = n" "nat ((int (Suc n) - 1) mod 65536) = n" using W n limit_ok_less[of "heap_limit h"] by auto
  have top: "(p = 1) = (heap_first h = Some t)"
    using offsets_inj[of m ?a "heap_size h" 1 p] W p n by (auto simp: heap_first_def)
  show ?thesis
  proof (cases "p = Suc n")
    case True
    define h1 where "h1 = h\<lparr>heap_size := n\<rparr>"
    have r: "remove_from_heap h t m = Inr (heap_first h = Some t, h1, m)"
      using p True n n16 top by (simp add: remove_from_heap_def Let_def SET_HEAP_SIZE_def h1_def)
    have wf: "heap_wf m h1" using W n by (auto simp: heap_wf_def h1_def offsets_ok_def ordered_def)
    have o: "offsets_ok m ?a (Suc n)" using W n by simp
    have "slot_ids ?a (Suc n) = insert t (slot_ids ?a n)" using p True by (auto simp: slot_ids_def atLeastAtMostSuc_conv)
    moreover have "t \<notin> slot_ids ?a n" using slot_ids_pos[of m ?a n t] o p True by (auto simp: offsets_ok_def)
    ultimately have "heap_ids h1 = heap_ids h - {t}" by (simp add: heap_ids_def h1_def n)
    then show ?thesis using r wf by (auto simp: h1_def)
  next
    case False
    then have pn: "p \<le> n" "n + 1 < length ?a" using p n W by auto
    define l where "l = ?a ! Suc n"
    define h1 where "h1 = h\<lparr>heap_slots := ?a[p := l], heap_size := n\<rparr>"
    define m1 where "m1 = set_offset p l m"
    have o: "offsets_ok m ?a (Suc n)" and od: "ordered (\<lambda>x. expires (m x)) ?a (Suc n)" using W n by auto
    have o1: "offsets_ok m1 (?a[p := l]) n"
      using o pn offsets_inj[OF o, of _ "Suc n"] unfolding offsets_ok_def m1_def l_def
      by (auto simp: nth_list_update)
    have ids: "heap_ids h1 = heap_ids h - {t}" using slot_ids_replace[OF o p(1) pn] p n by (simp add: heap_ids_def h1_def l_def)
    have sz: "heap_size h1 \<le> heap_limit h1" "heap_limit h1 < length (heap_slots h1)" "limit_ok (heap_limit h1)"
      using W n by (auto simp: h1_def)
    define b where "b \<longleftrightarrow> 1 < p \<and> expires (m l) < expires (m (?a ! (p div 2)))"
    have up: "above_parent h1 p m1 = Inr b"
      using pn p by (auto simp: above_parent_def heap_get_def h1_def m1_def b_def)
    have "heap_settled (heap_ids h1) h1 m1 (if b then up_heap h1 p m1 else down_heap h1 p m1)"
    proof (cases b)
      case True
      have "hole_up (\<lambda>x. expires (m1 x)) (heap_slots h1) (heap_size h1) p"
        using replaced_hole(2)[OF od p(1) pn] True by (simp add: h1_def m1_def l_def b_def)
      then show ?thesis using up_heap_ok[OF sz p(1), of m1] True pn o1 by (simp add: h1_def)
    next
      case False
      have "hole_down (\<lambda>x. expires (m1 x)) (heap_slots h1) (heap_size h1) p"
        using replaced_hole(1)[OF od p(1) pn] False p(1) by (auto simp: h1_def m1_def l_def b_def)
      then have "heap_settled (heap_ids h1) h1 m1 (down_heap h1 p m1)" using down_heap_ok[OF sz p(1), of m1] pn o1 by (simp add: h1_def)
      then show ?thesis using False by (simp only: if_False)
    qed
    then obtain h' m' where r: "(if b then up_heap h1 p m1 else down_heap h1 p m1) = Inr (h', m')"
      and x: "same_size h1 h'" "heap_wf m' h'" "heap_ids h' = heap_ids h1" "moved (heap_ids h1) m1 m'"
      unfolding heap_settled_def by blast
    have g: "heap_get h (Suc n) = Inr l" "heap_put h p l = Inr (h\<lparr>heap_slots := ?a[p := l]\<rparr>)"
      "SET_HEAP_SIZE (int n) (h\<lparr>heap_slots := ?a[p := l]\<rparr>) = h1"
      using p pn n16 unfolding SET_HEAP_SIZE_def heap_get_def heap_put_def h1_def l_def by simp_all
    have "remove_from_heap h t m = Inr (p = 1, h', m')"
      using p(4) False r up by (cases b) (simp_all add: remove_from_heap_def n g m1_def)
    moreover have "l \<in> heap_ids h1" using p pn by (auto simp: heap_ids_def h1_def slot_ids_def intro!: image_eqI[of _ _ p])
    then have "moved (heap_ids h1) m m'" using moved_trans[OF moved_set_offset[of l "heap_ids h1" m p] x(4)[unfolded m1_def]] by simp
    ultimately show ?thesis using x ids top by (auto simp: same_size_def h1_def)
  qed
qed

lemma add_to_heap_full: "heap_size h = heap_limit h \<Longrightarrow> add_to_heap h t m = Inr (False, h, m)"
  by (simp add: add_to_heap_def)

lemma add_to_heap_ok:
  assumes w: "heap_wf m h" and t: "t \<notin> heap_ids h" and l: "heap_size h \<noteq> heap_limit h"
  shows "\<exists>h' m'. add_to_heap h t m = Inr (heap_first h' = Some t, h', m') \<and> heap_wf m' h' \<and>
    heap_ids h' = insert t (heap_ids h) \<and> moved (insert t (heap_ids h)) m m' \<and> heap_limit h' = heap_limit h \<and>
    length (heap_slots h') = length (heap_slots h)"
proof -
  let ?a = "heap_slots h" let ?n = "heap_size h"
  note W = w[unfolded heap_wf_def]
  define h1 where "h1 = h\<lparr>heap_size := Suc ?n, heap_slots := ?a[Suc ?n := t]\<rparr>"
  define m1 where "m1 = set_offset (Suc ?n) t m"
  have n: "Suc ?n \<le> heap_limit h" "Suc ?n < length ?a" using W l by auto
  have st: "SET_HEAP_SIZE (int ?n + 1) h = h\<lparr>heap_size := Suc ?n\<rparr>"
    using W n limit_ok_less[of "heap_limit h"] by (simp add: SET_HEAP_SIZE_def)
  have tn: "?a ! i \<noteq> t" if "1 \<le> i" "i \<le> ?n" for i using t slot_ids_I[OF that, of ?a] by (auto simp: heap_ids_def)
  have o1: "offsets_ok m1 (heap_slots h1) (Suc ?n)"
    using W tn n unfolding offsets_ok_def by (auto simp: h1_def m1_def nth_list_update le_Suc_eq)
  have u: "hole_up (\<lambda>x. expires (m1 x)) (heap_slots h1) (Suc ?n) (Suc ?n)"
    using W n unfolding hole_up_def ordered_def by (auto simp: h1_def m1_def nth_list_update le_Suc_eq)
  have ids: "heap_ids h1 = insert t (heap_ids h)"
    using n by (auto simp: heap_ids_def slot_ids_def h1_def atLeastAtMostSuc_conv)
  have "heap_settled (heap_ids h1) h1 m1 (up_heap h1 (Suc ?n) m1)"
    using up_heap_ok[of h1 "Suc ?n" m1] W n o1 u by (simp add: h1_def)
  then obtain h' m' where r: "up_heap h1 (Suc ?n) m1 = Inr (h', m')"
    and x: "same_size h1 h'" "heap_wf m' h'" "heap_ids h' = heap_ids h1" "moved (heap_ids h1) m1 m'"
    unfolding heap_settled_def by blast
  have e: "add_to_heap h t m = Inr (t_pos (m' t) = Heap_offset 1, h', m')"
    using l n r by (simp add: add_to_heap_def Let_def st heap_put_def h1_def m1_def)
  have "offsets_ok m' (heap_slots h') (heap_size h')" "t \<in> slot_ids (heap_slots h') (heap_size h')" "1 \<le> heap_size h'"
    using x ids by (auto simp: heap_wf_def heap_ids_def same_size_def h1_def)
  then have top: "(t_pos (m' t) = Heap_offset 1) = (heap_first h' = Some t)"
    using slot_ids_pos[of m' "heap_slots h'" "heap_size h'" t] offsets_inj[of m' "heap_slots h'" "heap_size h'" 1]
    by (auto simp: heap_first_def offsets_ok_def)
  have "moved (insert t (heap_ids h)) m m'"
    using moved_trans[OF moved_set_offset[of t "insert t (heap_ids h)" m "Suc ?n"] x(4)[unfolded m1_def]] ids by auto
  then show ?thesis using e top x ids by (auto simp: same_size_def h1_def)
qed

end
