(* ===== verification/Timer_Queue.thy ===== *)
theory Timer_Queue
  imports Timer_Heap
begin

text \<open>
  The two containers of active timers: the heap and, when the heap is full, a linked list sorted by
  expiry. Both keep one contract, the locale \<open>timer_container\<close>: removing and adding a timer change the
  set of timers by exactly that timer and report whether it was, or is now, the first one, and the
  first one expires no later than any other.
\<close>

section \<open>The overflow list\<close>

text \<open>
  The list that starts at \<open>timers->list\<close> and runs along the \<open>list_next\<close> members, as the list of its
  timers. Following \<open>list_next\<close> of a timer where that member of the union is not live is a fault, and
  so is walking off the end.
\<close>

fun remove_from_list :: "tid list \<Rightarrow> tid \<Rightarrow> tmem \<Rightarrow> (bool \<times> tid list) result" where
  "remove_from_list [] t m = Inl Null_deref"
| "remove_from_list (x # q) t m =
     (if t_pos (m x) \<noteq> List_next then Inl Union_confusion
      else if x = t then Inr (True, q)
      else bindR (remove_from_list q t m) (\<lambda>(_, q). Inr (False, x # q)))"

fun insert_in_list :: "tid list \<Rightarrow> tid \<Rightarrow> tmem \<Rightarrow> (bool \<times> tid list) result" where
  "insert_in_list [] t m = Inr (True, [t])"
| "insert_in_list (x # q) t m =
     (if expires (m x) \<le> expires (m t) then
        if t_pos (m x) \<noteq> List_next then Inl Union_confusion
        else bindR (insert_in_list q t m) (\<lambda>(_, q). Inr (False, x # q))
      else Inr (True, t # x # q))"

definition add_to_list :: "tid list \<Rightarrow> tid \<Rightarrow> tmem \<Rightarrow> (bool \<times> tid list \<times> tmem) result" where
  "add_to_list q t m =
     bindR (insert_in_list q t m) (\<lambda>(first, q). Inr (first, q, m(t := (m t)\<lparr>t_pos := List_next\<rparr>)))"

definition list_wf :: "tmem \<Rightarrow> tid list \<Rightarrow> bool" where
  "list_wf m q \<longleftrightarrow> distinct q \<and> sorted (map (\<lambda>x. expires (m x)) q) \<and> (\<forall>x\<in>set q. t_pos (m x) = List_next)"

definition list_first :: "tid list \<Rightarrow> tid option" where
  "list_first q = (case q of [] \<Rightarrow> None | x # _ \<Rightarrow> Some x)"

lemma remove_from_list_ok:
  "list_wf m q \<Longrightarrow> t \<in> set q \<Longrightarrow> remove_from_list q t m = Inr (list_first q = Some t, remove1 t q)"
  by (induction q) (auto simp: list_wf_def list_first_def)

lemma insert_in_list_ok:
  assumes "list_wf m q" "t \<notin> set q"
  shows "\<exists>q'. insert_in_list q t m = Inr (list_first q' = Some t, q') \<and> set q' = insert t (set q) \<and> distinct q' \<and>
    sorted (map (\<lambda>x. expires (m x)) q')"
  using assms
proof (induction q)
  case (Cons c q)
  then have w: "list_wf m q" "t_pos (m c) = List_next" "c \<noteq> t" "\<And>x. x \<in> set q \<Longrightarrow> expires (m c) \<le> expires (m x)"
    by (auto simp: list_wf_def)
  show ?case
  proof (cases "expires (m c) \<le> expires (m t)")
    case True
    from Cons.IH[OF w(1)] Cons.prems obtain q' where
      q': "insert_in_list q t m = Inr (list_first q' = Some t, q')" "set q' = insert t (set q)" "distinct q'" "sorted (map (\<lambda>x. expires (m x)) q')"
      by auto
    then show ?thesis using True w Cons.prems by (auto simp: list_first_def list_wf_def)
  next
    case False
    then show ?thesis using Cons.prems w(4) by (force simp: list_wf_def list_first_def)
  qed
qed (simp add: list_first_def list_wf_def)

section \<open>The contract of a container\<close>

locale timer_container =
  fixes wf :: "tmem \<Rightarrow> 'q \<Rightarrow> bool" and ids :: "'q \<Rightarrow> tid set" and first :: "'q \<Rightarrow> tid option"
    and room :: "'q \<Rightarrow> bool"
    and remove :: "'q \<Rightarrow> tid \<Rightarrow> tmem \<Rightarrow> (bool \<times> 'q \<times> tmem) result"
    and add :: "'q \<Rightarrow> tid \<Rightarrow> tmem \<Rightarrow> (bool \<times> 'q \<times> tmem) result"
  assumes remove_law: "wf m q \<Longrightarrow> t \<in> ids q \<Longrightarrow>
      \<exists>q' m'. remove q t m = Inr (first q = Some t, q', m') \<and> wf m' q' \<and> ids q' = ids q - {t} \<and> moved (ids q - {t}) m m'"
    and add_law: "wf m q \<Longrightarrow> t \<notin> ids q \<Longrightarrow> room q \<Longrightarrow>
      \<exists>q' m'. add q t m = Inr (first q' = Some t, q', m') \<and> wf m' q' \<and> ids q' = insert t (ids q) \<and> moved (insert t (ids q)) m m'"
    and first_law: "wf m q \<Longrightarrow> first q = Some t \<Longrightarrow> t \<in> ids q \<and> (\<forall>x\<in>ids q. expires (m t) \<le> expires (m x))"
    and first_none: "wf m q \<Longrightarrow> first q = None \<longleftrightarrow> ids q = {}"
    and frame: "wf m q \<Longrightarrow> (\<And>x. x \<in> ids q \<Longrightarrow> t_pos (m' x) = t_pos (m x) \<and> expires (m' x) = expires (m x)) \<Longrightarrow> wf m' q"
begin

text \<open>A timer that is added quietly does not expire before all the others.\<close>

lemma add_quiet:
  assumes "wf m q" "t \<notin> ids q" "room q" "add q t m = Inr (False, q', m')"
  shows "\<exists>x\<in>ids q. expires (m x) \<le> expires (m t)"
proof -
  from add_law[OF assms(1-3)] assms(4) have a: "first q' \<noteq> Some t" "wf m' q'" "ids q' = insert t (ids q)" "moved (insert t (ids q)) m m'"
    by auto
  obtain x where x: "first q' = Some x" using first_none[OF a(2)] a(3) by auto
  from first_law[OF a(2) x] a(1,3) x moved_expires[OF a(4)] show ?thesis by auto
qed

text \<open>Removing a timer that is not the first leaves the earliest expiry.\<close>

lemma remove_quiet:
  assumes "wf m q" "t \<in> ids q" "remove q t m = Inr (False, q', m')"
  shows "\<exists>x\<in>ids q'. \<forall>y\<in>ids q. expires (m x) \<le> expires (m y)"
proof -
  from remove_law[OF assms(1,2)] assms(3) have a: "first q \<noteq> Some t" "ids q' = ids q - {t}" by auto
  obtain x where x: "first q = Some x" using first_none[OF assms(1)] assms(2) by auto
  from first_law[OF assms(1) x] a x show ?thesis by auto
qed

end

lemma heap_frame:
  assumes "heap_wf m h" "\<And>x. x \<in> heap_ids h \<Longrightarrow> t_pos (m' x) = t_pos (m x) \<and> expires (m' x) = expires (m x)"
  shows "heap_wf m' h"
proof -
  have e: "t_pos (m' (heap_slots h ! i)) = t_pos (m (heap_slots h ! i)) \<and> expires (m' (heap_slots h ! i)) = expires (m (heap_slots h ! i))"
    if "1 \<le> i" "i \<le> heap_size h" for i
    using assms(2) slot_ids_I[OF that, of "heap_slots h"] by (simp add: heap_ids_def)
  have "expires (m' (heap_slots h ! (i div 2))) = expires (m (heap_slots h ! (i div 2)))" if "2 \<le> i" "i \<le> heap_size h" for i
    using e[of "i div 2"] that by auto
  then show ?thesis
    using assms(1) e unfolding heap_wf_def offsets_ok_def ordered_def by auto
qed

interpretation heap_container: timer_container heap_wf heap_ids heap_first "\<lambda>h. heap_size h \<noteq> heap_limit h" remove_from_heap add_to_heap
proof
  show "heap_wf m q \<Longrightarrow> t \<in> heap_ids q \<Longrightarrow> \<exists>q' m'. remove_from_heap q t m = Inr (heap_first q = Some t, q', m') \<and>
      heap_wf m' q' \<and> heap_ids q' = heap_ids q - {t} \<and> moved (heap_ids q - {t}) m m'" for m q t
    using remove_from_heap_ok[of m q t] by blast
  show "heap_wf m q \<Longrightarrow> t \<notin> heap_ids q \<Longrightarrow> heap_size q \<noteq> heap_limit q \<Longrightarrow>
      \<exists>q' m'. add_to_heap q t m = Inr (heap_first q' = Some t, q', m') \<and>
      heap_wf m' q' \<and> heap_ids q' = insert t (heap_ids q) \<and> moved (insert t (heap_ids q)) m m'" for m q t
    using add_to_heap_ok[of m q t] by blast
  show "heap_first q = Some t \<Longrightarrow> heap_wf m q \<Longrightarrow> t \<in> heap_ids q \<and> (\<forall>x\<in>heap_ids q. expires (m t) \<le> expires (m x))" for m q t
    using ordered_root[of "\<lambda>x. expires (m x)" "heap_slots q" "heap_size q"]
    by (auto simp: heap_first_def heap_wf_def heap_ids_def slot_ids_def split: if_splits intro!: image_eqI[of _ _ 1])
  show "(heap_first q = None) = (heap_ids q = {})" if "heap_wf m q" for m q
    by (auto simp: heap_first_def heap_ids_def slot_ids_def)
  show "heap_wf m q \<Longrightarrow> (\<And>x. x \<in> heap_ids q \<Longrightarrow> t_pos (m' x) = t_pos (m x) \<and> expires (m' x) = expires (m x)) \<Longrightarrow> heap_wf m' q" for m q m'
    by (rule heap_frame)
qed

definition remove_list_entry :: "tid list \<Rightarrow> tid \<Rightarrow> tmem \<Rightarrow> (bool \<times> tid list \<times> tmem) result" where
  "remove_list_entry q t m = bindR (remove_from_list q t m) (\<lambda>(first, q). Inr (first, q, m))"

lemma list_frame:
  assumes "list_wf m q" "\<And>x. x \<in> set q \<Longrightarrow> t_pos (m' x) = t_pos (m x) \<and> expires (m' x) = expires (m x)"
  shows "list_wf m' q"
proof -
  have "map (\<lambda>x. expires (m' x)) q = map (\<lambda>x. expires (m x)) q" using assms(2) by simp
  with assms show ?thesis unfolding list_wf_def by metis
qed

interpretation list_container: timer_container list_wf set list_first "\<lambda>_. True" remove_list_entry add_to_list
proof
  show "\<exists>q' m'. remove_list_entry q t m = Inr (list_first q = Some t, q', m') \<and>
      list_wf m' q' \<and> set q' = set q - {t} \<and> moved (set q - {t}) m m'" if "list_wf m q" "t \<in> set q" for m q t
  proof -
    have "list_wf m (remove1 t q)" "set (remove1 t q) = set q - {t}"
      using that by (auto simp: list_wf_def sorted_map_remove1 set_remove1_eq dest: in_set_remove1)
    then show ?thesis using remove_from_list_ok[OF that] by (simp add: remove_list_entry_def)
  qed
  show "\<exists>q' m'. add_to_list q t m = Inr (list_first q' = Some t, q', m') \<and>
      list_wf m' q' \<and> set q' = insert t (set q) \<and> moved (insert t (set q)) m m'" if w: "list_wf m q" "t \<notin> set q" for m q t
  proof -
    let ?m = "m(t := (m t)\<lparr>t_pos := List_next\<rparr>)"
    from insert_in_list_ok[OF w] obtain q' where
      q': "insert_in_list q t m = Inr (list_first q' = Some t, q')" "set q' = insert t (set q)" "distinct q'" "sorted (map (\<lambda>x. expires (m x)) q')"
      by blast
    have "map (\<lambda>x. expires (?m x)) q' = map (\<lambda>x. expires (m x)) q'" by simp
    moreover have "\<forall>x\<in>set q'. t_pos (?m x) = List_next" using q'(2) w(1) by (simp add: list_wf_def)
    ultimately have "list_wf ?m q'" using q' unfolding list_wf_def by metis
    then show ?thesis using q' by (auto simp: add_to_list_def moved_def)
  qed
  show "list_first q = Some t \<Longrightarrow> list_wf m q \<Longrightarrow> t \<in> set q \<and> (\<forall>x\<in>set q. expires (m t) \<le> expires (m x))" for m q t
    by (cases q) (auto simp: list_first_def list_wf_def)
  show "(list_first q = None) = (set q = {})" for q
    by (cases q) (auto simp: list_first_def)
qed (auto intro: list_frame)

text \<open>A container does not notice changes to timers outside it.\<close>

lemma heap_wf_same: "heap_wf m h \<Longrightarrow> (\<And>x. x \<in> heap_ids h \<Longrightarrow> m' x = m x) \<Longrightarrow> heap_wf m' h"
  by (rule heap_container.frame[of m]) simp_all

lemma list_wf_same: "list_wf m q \<Longrightarrow> (\<And>x. x \<in> set q \<Longrightarrow> m' x = m x) \<Longrightarrow> list_wf m' q"
  by (rule list_container.frame[of m]) simp_all

end
