(* ===== verification/Timer.thy ===== *)
theory Timer
  imports Timer_Queue
begin

text \<open>
  The timers of \<open>common/timer.c\<close>: for every processor a heap, an overflow list, the inactive timers and
  the timer that is running; the operations on a timer, the softirq that runs the expired timers, and
  the migration of the timers of a processor that goes away. Every operation runs under the locks of
  the processors it touches and is one step; where the softirq drops the lock to run a callback, the
  callback stands for everything that happens until the lock is taken again.
\<close>

section \<open>State\<close>

record timers =
  tp_heap :: theap
  tp_list :: "tid list"
  tp_running :: "tid option"
  tp_inactive :: "tid list"

text \<open>
  \<open>raised\<close>: the processors for which \<open>TIMER_SOFTIRQ\<close> was raised, newest first. \<open>fired\<close>: the timers whose
  callbacks a processor has called, in order.
\<close>

record tsys =
  tm :: tmem
  tcpus :: "timers list"
  timer_deadline :: "nat \<Rightarrow> int"
  raised :: "nat list"
  fired :: "nat \<Rightarrow> tid list"

definition TIMER_CPU_status_killed :: nat where "TIMER_CPU_status_killed = 65535"

definition STIME_MAX :: int where "STIME_MAX = 2 ^ 63 - 1"

definition timer_slop :: int where "timer_slop = 50000"

text \<open>The value of a signed 64-bit computation.\<close>

definition s64 :: "int \<Rightarrow> int" where
  "s64 x = (x + 2 ^ 63) mod 2 ^ 64 - 2 ^ 63"

definition per_cpu :: "tsys \<Rightarrow> nat \<Rightarrow> timers result" where
  "per_cpu s c = arr_get (tcpus s) c"

definition put_cpu :: "nat \<Rightarrow> timers \<Rightarrow> tsys \<Rightarrow> tsys" where
  "put_cpu c ts s = s\<lparr>tcpus := (tcpus s)[c := ts]\<rparr>"

definition set_status :: "timer_status \<Rightarrow> tid \<Rightarrow> tmem \<Rightarrow> tmem" where
  "set_status st t m = m(t := (m t)\<lparr>t_status := st\<rparr>)"

definition set_pos :: "timer_pos \<Rightarrow> tid \<Rightarrow> tmem \<Rightarrow> tmem" where
  "set_pos p t m = m(t := (m t)\<lparr>t_pos := p\<rparr>)"

definition cpu_raise_softirq :: "nat \<Rightarrow> tsys \<Rightarrow> tsys" where
  "cpu_raise_softirq c s = s\<lparr>raised := c # raised s\<rparr>"

text \<open>\<open>list_add\<close> and \<open>list_del\<close> on the lists of inactive timers.\<close>

definition list_add :: "nat \<Rightarrow> tid \<Rightarrow> tsys \<Rightarrow> tsys result" where
  "list_add c t s =
     bindR (per_cpu s c) (\<lambda>ts.
       Inr (put_cpu c (ts\<lparr>tp_inactive := t # tp_inactive ts\<rparr>) (s\<lparr>tm := set_pos Inactive_link t (tm s)\<rparr>)))"

definition list_del :: "tid \<Rightarrow> tsys \<Rightarrow> tsys result" where
  "list_del t s =
     bindR (per_cpu s (t_cpu (tm s t))) (\<lambda>ts.
       if t_pos (tm s t) \<noteq> Inactive_link \<or> t \<notin> set (tp_inactive ts) then Inl Union_confusion
       else Inr (put_cpu (t_cpu (tm s t)) (ts\<lparr>tp_inactive := remove1 t (tp_inactive ts)\<rparr>) s))"

section \<open>Operations\<close>

definition remove_entry :: "tid \<Rightarrow> tsys \<Rightarrow> (bool \<times> tsys) result" where
  "remove_entry t s =
     (let c = t_cpu (tm s t) in
      bindR (per_cpu s c) (\<lambda>ts.
      bindR (case t_status (tm s t) of
               TIMER_STATUS_in_heap \<Rightarrow>
                 bindR (remove_from_heap (tp_heap ts) t (tm s)) (\<lambda>(rc, h, m). Inr (rc, ts\<lparr>tp_heap := h\<rparr>, m))
             | TIMER_STATUS_in_list \<Rightarrow>
                 bindR (remove_list_entry (tp_list ts) t (tm s)) (\<lambda>(rc, q, m). Inr (rc, ts\<lparr>tp_list := q\<rparr>, m))
             | _ \<Rightarrow> Inl Bug_on) (\<lambda>(rc, ts, m).
        Inr (rc, put_cpu c ts (s\<lparr>tm := set_status TIMER_STATUS_invalid t m\<rparr>)))))"

definition add_entry :: "tid \<Rightarrow> tsys \<Rightarrow> (bool \<times> tsys) result" where
  "add_entry t s =
     (let c = t_cpu (tm s t) in
      bindR (per_cpu s c) (\<lambda>ts.
      if t_status (tm s t) \<noteq> TIMER_STATUS_invalid then Inl Assert_failed
      else
        bindR (add_to_heap (tp_heap ts) t
                (set_status TIMER_STATUS_in_heap t (set_pos (Heap_offset 0) t (tm s)))) (\<lambda>(rc, h, m).
          if t_pos (m t) \<noteq> Heap_offset 0 then Inr (rc, put_cpu c (ts\<lparr>tp_heap := h\<rparr>) (s\<lparr>tm := m\<rparr>))
          else
            bindR (add_to_list (tp_list ts) t (set_status TIMER_STATUS_in_list t m)) (\<lambda>(rc, q, m).
              Inr (rc, put_cpu c (ts\<lparr>tp_heap := h, tp_list := q\<rparr>) (s\<lparr>tm := m\<rparr>))))))"

definition activate_timer :: "tid \<Rightarrow> tsys \<Rightarrow> tsys result" where
  "activate_timer t s =
     (if t_status (tm s t) \<noteq> TIMER_STATUS_inactive then Inl Assert_failed
      else
        bindR (list_del t (s\<lparr>tm := set_status TIMER_STATUS_invalid t (tm s)\<rparr>)) (\<lambda>s.
        bindR (add_entry t s) (\<lambda>(rc, s).
          Inr (if rc then cpu_raise_softirq (t_cpu (tm s t)) s else s))))"

definition deactivate_timer :: "tid \<Rightarrow> tsys \<Rightarrow> tsys result" where
  "deactivate_timer t s =
     bindR (remove_entry t s) (\<lambda>(rc, s).
       let s = (if rc then cpu_raise_softirq (t_cpu (tm s t)) s else s);
           s = s\<lparr>tm := set_status TIMER_STATUS_inactive t (tm s)\<rparr>
       in list_add (t_cpu (tm s t)) t s)"

definition active_timer :: "tid \<Rightarrow> tsys \<Rightarrow> bool result" where
  "active_timer t s =
     (if t_status (tm s t) = TIMER_STATUS_invalid then Inl Assert_failed
      else Inr (t_status (tm s t) = TIMER_STATUS_in_heap \<or> t_status (tm s t) = TIMER_STATUS_in_list))"

text \<open>\<open>timer_lock\<close> fails for a killed timer.\<close>

definition timer_lock :: "tid \<Rightarrow> tsys \<Rightarrow> bool" where
  "timer_lock t s \<longleftrightarrow> t_cpu (tm s t) \<noteq> TIMER_CPU_status_killed"

definition init_timer :: "tid \<Rightarrow> nat \<Rightarrow> nat \<Rightarrow> nat \<Rightarrow> tsys \<Rightarrow> tsys result" where
  "init_timer t function data c s =
     (let s = s\<lparr>tm := (tm s)(t := \<lparr>expires = 0, t_pos = Pos_none, t_function = function, t_data = data,
                t_cpu = c mod 65536, t_status = TIMER_STATUS_inactive\<rparr>)\<rparr>
      in if \<not> timer_lock t s then Inl Bug_on else list_add c t s)"

text \<open>\<open>if (active_timer(timer)) deactivate_timer(timer)\<close>.\<close>

definition deactivate_if_active :: "tid \<Rightarrow> tsys \<Rightarrow> (bool \<times> tsys) result" where
  "deactivate_if_active t s =
     bindR (active_timer t s) (\<lambda>active.
       if active then bindR (deactivate_timer t s) (\<lambda>s. Inr (True, s)) else Inr (False, s))"

definition set_timer :: "tid \<Rightarrow> int \<Rightarrow> tsys \<Rightarrow> tsys result" where
  "set_timer t e s =
     (if \<not> timer_lock t s then Inr s
      else bindR (deactivate_if_active t s) (\<lambda>(_, s).
        activate_timer t (s\<lparr>tm := (tm s)(t := (tm s t)\<lparr>expires := e\<rparr>)\<rparr>)))"

definition stop_timer :: "tid \<Rightarrow> tsys \<Rightarrow> tsys result" where
  "stop_timer t s =
     (if \<not> timer_lock t s then Inr s
      else bindR (deactivate_if_active t s) (\<lambda>(_, s). Inr s))"

definition set_cpu :: "nat \<Rightarrow> tid \<Rightarrow> tsys \<Rightarrow> tsys" where
  "set_cpu c t s = s\<lparr>tm := (tm s)(t := (tm s t)\<lparr>t_cpu := c mod 65536\<rparr>)\<rparr>"

definition migrate_timer :: "tid \<Rightarrow> nat \<Rightarrow> tsys \<Rightarrow> tsys result" where
  "migrate_timer t new_cpu s =
     (if t_cpu (tm s t) = new_cpu \<or> \<not> timer_lock t s then Inr s
      else
        bindR (deactivate_if_active t s) (\<lambda>(active, s).
        bindR (list_del t s) (\<lambda>s.
        bindR (list_add new_cpu t (set_cpu new_cpu t s)) (\<lambda>s.
          if active then activate_timer t s else Inr s))))"

text \<open>
  \<open>kill_timer\<close> returns whether it has to wait: it spins until no processor runs the callback of the
  timer.
\<close>

definition kill_timer :: "nat \<Rightarrow> tid \<Rightarrow> tsys \<Rightarrow> (bool \<times> tsys) result" where
  "kill_timer this_cpu t s =
     bindR (per_cpu s this_cpu) (\<lambda>ts.
       if tp_running ts = Some t then Inl Bug_on
       else if \<not> timer_lock t s then Inr (False, s)
       else
         bindR (deactivate_if_active t s) (\<lambda>(_, s).
         bindR (list_del t s) (\<lambda>s.
           let s = set_cpu TIMER_CPU_status_killed t (s\<lparr>tm := set_status TIMER_STATUS_killed t (tm s)\<rparr>)
           in Inr (\<exists>ts\<in>set (tcpus s). tp_running ts = Some t, s))))"

section \<open>The softirq\<close>

text \<open>
  The environment of one run of the softirq: what \<open>xmalloc_array\<close> returns (an uninitialised array), the
  time, the callbacks, and whether the hardware accepts a deadline.
\<close>

record tenv =
  alloc_heap :: "nat \<Rightarrow> tid list option"
  now :: int
  callback :: "nat \<Rightarrow> nat \<Rightarrow> tsys \<Rightarrow> tsys"
  reprogram_timer :: "int \<Rightarrow> bool"

definition set_running :: "nat \<Rightarrow> tid option \<Rightarrow> tsys \<Rightarrow> tsys result" where
  "set_running c r s = bindR (per_cpu s c) (\<lambda>ts. Inr (put_cpu c (ts\<lparr>tp_running := r\<rparr>) s))"

definition execute_timer :: "tenv \<Rightarrow> nat \<Rightarrow> tid \<Rightarrow> tsys \<Rightarrow> tsys result" where
  "execute_timer env c t s =
     (let fn = t_function (tm s t); data = t_data (tm s t) in
      bindR (list_add c t (s\<lparr>tm := set_status TIMER_STATUS_inactive t (tm s)\<rparr>)) (\<lambda>s.
      bindR (set_running c (Some t) s) (\<lambda>s.
        set_running c None (callback env fn data (s\<lparr>fired := (fired s)(c := fired s c @ [t])\<rparr>)))))"

definition grow_heap :: "tenv \<Rightarrow> nat \<Rightarrow> tsys \<Rightarrow> tsys result" where
  "grow_heap env c s =
     bindR (per_cpu s c) (\<lambda>ts.
       if tp_list ts = [] then Inr s
       else
         let h = tp_heap ts;
             old_limit = heap_limit h;
             new_limit = (old_limit + 1) * 16 - 1
         in case alloc_heap env (new_limit + 1) of
              None \<Rightarrow> Inr s
            | Some a \<Rightarrow>
                if length (heap_slots h) < old_limit + 1 \<or> length a < old_limit + 1 then Inl Out_of_bounds
                else
                  Inr (put_cpu c (ts\<lparr>tp_heap := SET_HEAP_LIMIT (int new_limit)
                    (h\<lparr>heap_slots := take (old_limit + 1) (heap_slots h) @ drop (old_limit + 1) a\<rparr>)\<rparr>) s))"

definition heap_step :: "tenv \<Rightarrow> nat \<Rightarrow> tsys \<Rightarrow> tsys option result" where
  "heap_step env c s =
     bindR (per_cpu s c) (\<lambda>ts.
       if heap_size (tp_heap ts) = 0 then Inr None
       else
         bindR (heap_get (tp_heap ts) 1) (\<lambda>t.
           if expires (tm s t) < now env then
             bindR (remove_from_heap (tp_heap ts) t (tm s)) (\<lambda>(_, h, m).
             bindR (execute_timer env c t (put_cpu c (ts\<lparr>tp_heap := h\<rparr>) (s\<lparr>tm := m\<rparr>))) (\<lambda>s. Inr (Some s)))
           else Inr None))"

definition list_step :: "tenv \<Rightarrow> nat \<Rightarrow> tsys \<Rightarrow> tsys option result" where
  "list_step env c s =
     bindR (per_cpu s c) (\<lambda>ts.
       case tp_list ts of
         [] \<Rightarrow> Inr None
       | t # q \<Rightarrow>
           if expires (tm s t) < now env then
             if t_pos (tm s t) \<noteq> List_next then Inl Union_confusion
             else bindR (execute_timer env c t (put_cpu c (ts\<lparr>tp_list := q\<rparr>) s)) (\<lambda>s. Inr (Some s))
           else Inr None)"

definition requeue :: "tid \<Rightarrow> tsys \<Rightarrow> tsys result" where
  "requeue t s =
     (if t_pos (tm s t) \<noteq> List_next then Inl Union_confusion
      else bindR (add_entry t (s\<lparr>tm := set_status TIMER_STATUS_invalid t (tm s)\<rparr>)) (\<lambda>(_, s). Inr s))"

definition earliest :: "timers \<Rightarrow> tmem \<Rightarrow> int" where
  "earliest ts m =
     (let deadline = (if heap_size (tp_heap ts) \<noteq> 0 then expires (m (heap_slots (tp_heap ts) ! 1)) else STIME_MAX)
      in case tp_list ts of
           [] \<Rightarrow> deadline
         | t # _ \<Rightarrow> if expires (m t) < deadline then expires (m t) else deadline)"

definition program_deadline :: "tenv \<Rightarrow> nat \<Rightarrow> tsys \<Rightarrow> tsys result" where
  "program_deadline env c s =
     bindR (per_cpu s c) (\<lambda>ts.
       let deadline = earliest ts (tm s);
           d = (if deadline = STIME_MAX then 0 else s64 (deadline + timer_slop));
           s = s\<lparr>timer_deadline := (timer_deadline s)(c := d)\<rparr>
       in Inr (if reprogram_timer env d then s else cpu_raise_softirq c s))"

definition refill_heap :: "nat \<Rightarrow> tsys \<Rightarrow> tsys result" where
  "refill_heap c s =
     bindR (per_cpu s c) (\<lambda>ts. for_loop requeue (tp_list ts) (put_cpu c (ts\<lparr>tp_list := []\<rparr>) s))"

definition timer_softirq_action :: "tenv \<Rightarrow> nat \<Rightarrow> tsys \<Rightarrow> tsys result option" where
  "timer_softirq_action env c s =
     (case grow_heap env c s of
        Inl e \<Rightarrow> Some (Inl e)
      | Inr s \<Rightarrow>
          (case while_loop (heap_step env c) s of
             Some (Inr s) \<Rightarrow>
               (case while_loop (list_step env c) s of
                  Some (Inr s) \<Rightarrow> Some (bindR (refill_heap c s) (program_deadline env c))
                | r \<Rightarrow> r)
           | r \<Rightarrow> r))"

section \<open>Processors that go away\<close>

definition move_step :: "nat \<Rightarrow> nat \<Rightarrow> bool \<times> tsys \<Rightarrow> (bool \<times> tsys) option result" where
  "move_step old_cpu new_cpu bs =
     (case bs of (notify, s) \<Rightarrow>
        bindR (per_cpu s old_cpu) (\<lambda>ts.
        bindR (if heap_size (tp_heap ts) \<noteq> 0 then bindR (heap_get (tp_heap ts) 1) (\<lambda>t. Inr (Some t))
               else Inr (list_first (tp_list ts))) (\<lambda>next.
          case next of
            None \<Rightarrow> Inr None
          | Some t \<Rightarrow>
              bindR (remove_entry t s) (\<lambda>(_, s).
              bindR (add_entry t (set_cpu new_cpu t s)) (\<lambda>(rc, s).
                Inr (Some (notify \<or> rc, s)))))))"

definition inactive_step :: "nat \<Rightarrow> nat \<Rightarrow> tsys \<Rightarrow> tsys option result" where
  "inactive_step old_cpu new_cpu s =
     bindR (per_cpu s old_cpu) (\<lambda>ts.
       case tp_inactive ts of
         [] \<Rightarrow> Inr None
       | t # _ \<Rightarrow>
           bindR (list_del t s) (\<lambda>s.
           bindR (list_add new_cpu t (set_cpu new_cpu t s)) (\<lambda>s. Inr (Some s))))"

definition migrate_timers_from_cpu :: "nat list \<Rightarrow> nat \<Rightarrow> tsys \<Rightarrow> tsys result option" where
  "migrate_timers_from_cpu cpu_online_map old_cpu s =
     (case cpu_online_map of
        [] \<Rightarrow> Some (Inl Assert_failed)
      | new_cpu # _ \<Rightarrow>
          if old_cpu \<in> set cpu_online_map then Some (Inl Assert_failed)
          else
            case while_loop (move_step old_cpu new_cpu) (False, s) of
              None \<Rightarrow> None
            | Some (Inl e) \<Rightarrow> Some (Inl e)
            | Some (Inr (notify, s)) \<Rightarrow>
                (case while_loop (inactive_step old_cpu new_cpu) s of
                   Some (Inr s) \<Rightarrow> Some (Inr (if notify then cpu_raise_softirq new_cpu s else s))
                 | r \<Rightarrow> r))"

text \<open>A processor that comes up: it starts with the empty dummy heap, whose only slot is the header.\<close>

definition dummy_heap :: theap where
  "dummy_heap = \<lparr>heap_size = 0, heap_limit = 0, heap_slots = [0]\<rparr>"

definition cpu_up_prepare :: "nat \<Rightarrow> tsys \<Rightarrow> tsys result" where
  "cpu_up_prepare c s =
     bindR (per_cpu s c) (\<lambda>ts. Inr (put_cpu c (ts\<lparr>tp_inactive := [], tp_heap := dummy_heap\<rparr>) s))"

text \<open>\<open>align_timer\<close>: the first tick at or after a time, on a grid of period \<open>period\<close>.\<close>

definition align_timer :: "u64 \<Rightarrow> u64 \<Rightarrow> u64" where
  "align_timer firsttick period =
     (if period = 0 then firsttick else firsttick + (period - 1) - (firsttick - 1) mod period)"

end
