(* ===== verification/Timer_Invariant.thy ===== *)
theory Timer_Invariant
  imports Timer
begin

text \<open>
  The invariant of the timers: the containers of every processor are well formed and hold exactly the
  timers whose status and processor say so. Every operation of \<open>common/timer.c\<close> returns without a fault
  and keeps it.
\<close>

section \<open>The invariant\<close>

definition owned :: "tmem \<Rightarrow> nat \<Rightarrow> tid \<Rightarrow> bool" where
  "owned m c x \<longleftrightarrow>
     t_cpu (m x) = c \<and> t_status (m x) \<in> {TIMER_STATUS_in_heap, TIMER_STATUS_in_list, TIMER_STATUS_inactive}"

text \<open>The containers of a processor hold exactly the timers whose status says so.\<close>

definition cpu_ok :: "tmem \<Rightarrow> nat \<Rightarrow> timers \<Rightarrow> bool" where
  "cpu_ok m c ts \<longleftrightarrow>
     heap_wf m (tp_heap ts) \<and> list_wf m (tp_list ts) \<and>
     distinct (tp_inactive ts) \<and> (\<forall>t\<in>set (tp_inactive ts). t_pos (m t) = Inactive_link) \<and>
     heap_ids (tp_heap ts) = {t. t_cpu (m t) = c \<and> t_status (m t) = TIMER_STATUS_in_heap} \<and>
     set (tp_list ts) = {t. t_cpu (m t) = c \<and> t_status (m t) = TIMER_STATUS_in_list} \<and>
     set (tp_inactive ts) = {t. t_cpu (m t) = c \<and> t_status (m t) = TIMER_STATUS_inactive}"

definition timer_ok :: "nat \<Rightarrow> timer \<Rightarrow> bool" where
  "timer_ok n r \<longleftrightarrow>
     (case t_status r of
        TIMER_STATUS_invalid \<Rightarrow> True
      | TIMER_STATUS_killed \<Rightarrow> t_cpu r = TIMER_CPU_status_killed
      | _ \<Rightarrow> t_cpu r < n)"

definition tsys_ok :: "tsys \<Rightarrow> bool" where
  "tsys_ok s \<longleftrightarrow>
     length (tcpus s) \<le> TIMER_CPU_status_killed \<and> (\<forall>c<length (tcpus s). cpu_ok (tm s) c (tcpus s ! c)) \<and>
     (\<forall>t. timer_ok (length (tcpus s)) (tm s t))"

lemma tsys_okD:
  assumes "tsys_ok s"
  shows "length (tcpus s) \<le> TIMER_CPU_status_killed" "\<And>c. c < length (tcpus s) \<Longrightarrow> cpu_ok (tm s) c (tcpus s ! c)"
    "\<And>t. timer_ok (length (tcpus s)) (tm s t)"
  using assms by (auto simp: tsys_ok_def)

lemma owned_frame:
  assumes "\<And>x. owned m c x \<or> owned m' c x \<Longrightarrow> m' x = m x" and "st \<in> {TIMER_STATUS_in_heap, TIMER_STATUS_in_list, TIMER_STATUS_inactive}"
  shows "{t. t_cpu (m' t) = c \<and> t_status (m' t) = st} = {t. t_cpu (m t) = c \<and> t_status (m t) = st}"
proof (rule Collect_cong)
  fix t
  show "(t_cpu (m' t) = c \<and> t_status (m' t) = st) = (t_cpu (m t) = c \<and> t_status (m t) = st)"
    using assms(1)[of t] assms(2) unfolding owned_def by (cases "m' t = m t") auto
qed

lemma cpu_ok_frame:
  assumes k: "cpu_ok m c ts" and f: "\<And>x. owned m c x \<or> owned m' c x \<Longrightarrow> m' x = m x"
  shows "cpu_ok m' c ts"
proof -
  note K = k[unfolded cpu_ok_def]
  have "owned m c x" if "x \<in> heap_ids (tp_heap ts) \<or> x \<in> set (tp_list ts) \<or> x \<in> set (tp_inactive ts)" for x
    using K that by (auto simp: owned_def)
  then have o: "m' x = m x" if "x \<in> heap_ids (tp_heap ts) \<or> x \<in> set (tp_list ts) \<or> x \<in> set (tp_inactive ts)" for x
    using f that by blast
  have "heap_wf m' (tp_heap ts)" by (rule heap_wf_same[of m]) (use K o in blast)+
  moreover have "list_wf m' (tp_list ts)" by (rule list_wf_same[of m]) (use K o in blast)+
  moreover have "\<forall>t\<in>set (tp_inactive ts). t_pos (m' t) = Inactive_link" using K o by metis
  moreover note owned_frame[of m c m', OF f]
  ultimately show ?thesis using K unfolding cpu_ok_def by simp
qed

lemma tsys_ok_put:
  assumes s: "tsys_ok s" and c: "c < length (tcpus s)" and k: "cpu_ok m c ts"
    and f: "\<And>x c'. c' \<noteq> c \<Longrightarrow> owned (tm s) c' x \<or> owned m c' x \<Longrightarrow> m x = tm s x"
    and g: "\<And>t. timer_ok (length (tcpus s)) (m t)"
  shows "tsys_ok (put_cpu c ts (s\<lparr>tm := m\<rparr>))"
proof -
  have "cpu_ok m c' (((tcpus s)[c := ts]) ! c')" if c': "c' < length (tcpus s)" for c'
  proof (cases "c' = c")
    case False
    then show ?thesis using cpu_ok_frame[OF tsys_okD(2)[OF s c']] f by simp
  qed (use k c in simp)
  then show ?thesis using s g by (simp add: tsys_ok_def put_cpu_def)
qed

text \<open>What the timers are apart from their positions in the containers.\<close>

definition tview :: "tmem \<Rightarrow> tid \<Rightarrow> timer" where
  "tview m x = (m x)\<lparr>t_pos := Pos_none\<rparr>"

lemma tview_fields:
  assumes "tview m' x = (tview m x)\<lparr>t_status := st\<rparr>"
  shows "expires (m' x) = expires (m x)" "t_function (m' x) = t_function (m x)" "t_data (m' x) = t_data (m x)"
    "t_cpu (m' x) = t_cpu (m x)" "t_status (m' x) = st"
  using arg_cong[OF assms, of expires] arg_cong[OF assms, of t_function] arg_cong[OF assms, of t_data]
    arg_cong[OF assms, of t_cpu] arg_cong[OF assms, of t_status]
  by (simp_all add: tview_def)


lemma moved_fields:
  assumes "moved S m m'"
  shows "t_cpu (m' x) = t_cpu (m x)" "t_status (m' x) = t_status (m x)" "tview m' x = tview m x"
    "x \<notin> S \<Longrightarrow> m' x = m x"
proof -
  have e: "m' x = (m x)\<lparr>t_pos := t_pos (m' x)\<rparr>" and r: "x \<notin> S \<Longrightarrow> m' x = m x" using assms unfolding moved_def by blast+
  show "t_cpu (m' x) = t_cpu (m x)" "t_status (m' x) = t_status (m x)" by (subst e; simp)+
  show "tview m' x = tview m x" unfolding tview_def by (subst e) simp
  show "x \<notin> S \<Longrightarrow> m' x = m x" by (rule r)
qed

lemma set_status_simps [simp]:
  "t_status (set_status st t m x) = (if x = t then st else t_status (m x))"
  "t_cpu (set_status st t m x) = t_cpu (m x)" "expires (set_status st t m x) = expires (m x)"
  "t_pos (set_status st t m x) = t_pos (m x)" "t_function (set_status st t m x) = t_function (m x)"
  "t_data (set_status st t m x) = t_data (m x)" "x \<noteq> t \<Longrightarrow> set_status st t m x = m x"
  "tview (set_status st t m) = (tview m)(t := (tview m t)\<lparr>t_status := st\<rparr>)"
  "set_status st t (set_status st' t m) = set_status st t m"
  by (auto simp: set_status_def tview_def fun_eq_iff)

lemma set_pos_simps [simp]:
  "t_status (set_pos p t m x) = t_status (m x)" "t_cpu (set_pos p t m x) = t_cpu (m x)"
  "expires (set_pos p t m x) = expires (m x)" "t_pos (set_pos p t m x) = (if x = t then p else t_pos (m x))"
  "x \<noteq> t \<Longrightarrow> set_pos p t m x = m x" "tview (set_pos p t m) = tview m"
  by (auto simp: set_pos_def tview_def fun_eq_iff)

lemma per_cpu_in: "c < length (tcpus s) \<Longrightarrow> per_cpu s c = Inr (tcpus s ! c)"
  by (simp add: per_cpu_def)

lemma put_cpu_simps [simp]:
  "tm (put_cpu c ts s) = tm s" "raised (put_cpu c ts s) = raised s" "timer_deadline (put_cpu c ts s) = timer_deadline s"
  "fired (put_cpu c ts s) = fired s" "tcpus (put_cpu c ts s) = (tcpus s)[c := ts]"
  by (simp_all add: put_cpu_def)

text \<open>What an operation leaves alone: the deadlines, the callbacks called so far and the running callbacks.\<close>

definition sys_frame :: "tsys \<Rightarrow> tsys \<Rightarrow> bool" where
  "sys_frame s s' \<longleftrightarrow> timer_deadline s' = timer_deadline s \<and> fired s' = fired s \<and> map tp_running (tcpus s') = map tp_running (tcpus s)"

lemma sys_frame_len: "sys_frame s s' \<Longrightarrow> length (tcpus s') = length (tcpus s)"
  unfolding sys_frame_def by (metis length_map)

lemma sys_frame_refl [simp]: "sys_frame s s" by (simp add: sys_frame_def)

lemma sys_frame_trans: "sys_frame s s' \<Longrightarrow> sys_frame s' s'' \<Longrightarrow> sys_frame s s''" by (simp add: sys_frame_def)

lemma sys_frame_put:
  "c < length (tcpus s) \<Longrightarrow> tp_running ts = tp_running (tcpus s ! c) \<Longrightarrow> sys_frame s (put_cpu c ts (s\<lparr>tm := m\<rparr>))"
  "c < length (tcpus s) \<Longrightarrow> tp_running ts = tp_running (tcpus s ! c) \<Longrightarrow> sys_frame s (put_cpu c ts s)"
  by (simp_all add: sys_frame_def map_update list_update_same_conv)

text \<open>One timer changes its status or processor, others only move within their containers.\<close>

definition reshuffled :: "tid \<Rightarrow> tmem \<Rightarrow> tmem \<Rightarrow> bool" where
  "reshuffled t m m' \<longleftrightarrow> (\<forall>x. x \<noteq> t \<longrightarrow> tview m' x = tview m x)"

lemma tview_eq_fields:
  assumes "tview m' x = tview m x"
  shows "expires (m' x) = expires (m x) \<and> t_cpu (m' x) = t_cpu (m x) \<and> t_status (m' x) = t_status (m x)"
  using arg_cong[OF assms, of expires] arg_cong[OF assms, of t_cpu] arg_cong[OF assms, of t_status]
  by (simp add: tview_def)

lemma timer_ok_cong: "t_cpu r' = t_cpu r \<Longrightarrow> t_status r' = t_status r \<Longrightarrow> timer_ok n r' = timer_ok n r"
  unfolding timer_ok_def by presburger

lemma status_set:
  assumes "reshuffled t m m'"
  shows "{x. t_cpu (m' x) = c \<and> t_status (m' x) = st} =
    (if t_cpu (m' t) = c \<and> t_status (m' t) = st then insert t {x. t_cpu (m x) = c \<and> t_status (m x) = st}
     else {x. t_cpu (m x) = c \<and> t_status (m x) = st} - {t})"
proof -
  have e: "t_cpu (m' x) = t_cpu (m x) \<and> t_status (m' x) = t_status (m x)" if "x \<noteq> t" for x
    using assms that tview_eq_fields[of m' x m] by (simp add: reshuffled_def)
  show ?thesis
  proof (rule set_eqI, goal_cases)
    case (1 x)
    show ?case using e[of x] by (cases "x = t") auto
  qed
qed

definition active :: "timer_status \<Rightarrow> bool" where
  "active st \<longleftrightarrow> st = TIMER_STATUS_in_heap \<or> st = TIMER_STATUS_in_list"

text \<open>An operation on the containers of the processor of one timer.\<close>

lemma entry_put:
  assumes s: "tsys_ok s" and c: "t_cpu (tm s t) = c" "c < length (tcpus s)"
    and v: "tview m = (tview (tm s))(t := (tview (tm s) t)\<lparr>t_status := st\<rparr>)" "st \<noteq> TIMER_STATUS_killed"
    and o: "\<And>x. x \<noteq> t \<Longrightarrow> \<not> owned (tm s) c x \<Longrightarrow> m x = tm s x"
    and k: "cpu_ok m c ts" "tp_running ts = tp_running (tcpus s ! c)"
  shows "tsys_ok (put_cpu c ts (s\<lparr>tm := m\<rparr>)) \<and> sys_frame s (put_cpu c ts (s\<lparr>tm := m\<rparr>))"
proof -
  have vt: "t_cpu (m t) = c" "t_status (m t) = st" using tview_fields[where m' = m and x = t and m = "tm s" and st = st] v c(1) by simp_all
  have vx: "t_cpu (m x) = t_cpu (tm s x)" "t_status (m x) = t_status (tm s x)" if "x \<noteq> t" for x
    using tview_eq_fields[of m x "tm s"] v that by simp_all
  have "m x = tm s x" if "c' \<noteq> c" "owned (tm s) c' x \<or> owned m c' x" for x c'
    using that vt c(1) vx[of x] o[of x] by (cases "x = t") (auto simp: owned_def)
  moreover have "timer_ok (length (tcpus s)) (m x)" for x
    using tsys_okD(3)[OF s, of x] vx[of x] timer_ok_cong[of "m x" "tm s x"] vt v(2) c(2)
    by (cases "x = t") (auto simp: timer_ok_def[of _ "m t"] split: timer_status.splits)
  ultimately show ?thesis using tsys_ok_put[OF s c(2) k(1)] sys_frame_put(1)[OF c(2) k(2)] by blast
qed

lemma moved_status_view:
  assumes "moved S m m'"
  shows "tview (set_status st t m') = (tview m)(t := (tview m t)\<lparr>t_status := st\<rparr>)"
  using moved_fields(3)[OF assms] by (simp add: fun_eq_iff)

lemma remove_entry_ok:
  assumes s: "tsys_ok s" and a: "active (t_status (tm s t))"
  shows "\<exists>rc s'. remove_entry t s = Inr (rc, s') \<and> tsys_ok s' \<and> sys_frame s s' \<and> raised s' = raised s \<and>
    tview (tm s') = (tview (tm s))(t := (tview (tm s) t)\<lparr>t_status := TIMER_STATUS_invalid\<rparr>)"
proof -
  define c where "c = t_cpu (tm s t)"
  define ts where "ts = tcpus s ! c"
  have cl: "c < length (tcpus s)" using tsys_okD(3)[OF s, of t] a by (auto simp: timer_ok_def c_def active_def)
  have k: "cpu_ok (tm s) c ts" using tsys_okD(2)[OF s cl] by (simp add: ts_def)
  note K = k[unfolded cpu_ok_def]
  have pc: "per_cpu s c = Inr ts" using cl by (simp add: per_cpu_in ts_def)
  have fin: ?thesis
    if e: "remove_entry t s = Inr (rc, put_cpu c ts' (s\<lparr>tm := set_status TIMER_STATUS_invalid t m'\<rparr>))"
      and mv: "moved S (tm s) m'" "S \<subseteq> {x. owned (tm s) c x}"
      and ck: "cpu_ok (set_status TIMER_STATUS_invalid t m') c ts'" and run: "tp_running ts' = tp_running ts" for rc ts' m' S
  proof -
    let ?m = "set_status TIMER_STATUS_invalid t m'"
    have "?m x = tm s x" if "x \<noteq> t" "\<not> owned (tm s) c x" for x
      using that mv(2) moved_fields(4)[OF mv(1), of x] by auto
    then show ?thesis
      using entry_put[OF s c_def[symmetric] cl moved_status_view[OF mv(1)] _ _ ck] e run moved_status_view[OF mv(1)]
      by (auto simp: ts_def)
  qed
  consider "t_status (tm s t) = TIMER_STATUS_in_heap" | "t_status (tm s t) = TIMER_STATUS_in_list" using a by (auto simp: active_def)
  then show ?thesis
  proof cases
    case 1
    then have t: "t \<in> heap_ids (tp_heap ts)" using K by (simp add: c_def)
    obtain h' m' where r: "remove_from_heap (tp_heap ts) t (tm s) = Inr (heap_first (tp_heap ts) = Some t, h', m')" "heap_wf m' h'"
      "heap_ids h' = heap_ids (tp_heap ts) - {t}" and mv: "moved (heap_ids (tp_heap ts) - {t}) (tm s) m'"
      using heap_container.remove_law[of "tm s" "tp_heap ts" t] K t by blast
    let ?m = "set_status TIMER_STATUS_invalid t m'"
    have sh: "reshuffled t (tm s) ?m" using moved_fields(3)[OF mv] by (simp add: reshuffled_def)
    have o: "?m x = tm s x" if "x \<in> set (tp_list ts) \<or> x \<in> set (tp_inactive ts)" for x
    proof -
      have "x \<noteq> t" "m' x = tm s x" using that K t moved_fields(4)[OF mv, of x] by auto
      then show ?thesis by simp
    qed
    have "heap_wf ?m h'" by (rule heap_container.frame[OF r(2)]) simp
    moreover have "list_wf ?m (tp_list ts)" by (rule list_wf_same[of "tm s"]) (use K o in blast)+
    ultimately have "cpu_ok ?m c (ts\<lparr>tp_heap := h'\<rparr>)"
      using K o r(3) t 1 unfolding cpu_ok_def status_set[OF sh] by auto
    then show ?thesis
      using fin[of "heap_first (tp_heap ts) = Some t" "ts\<lparr>tp_heap := h'\<rparr>" m', OF _ mv] r(1) pc 1 K
      by (auto simp: remove_entry_def c_def[symmetric] owned_def)
  next
    case 2
    then have t: "t \<in> set (tp_list ts)" using K by (simp add: c_def)
    obtain q' m' where r: "remove_list_entry (tp_list ts) t (tm s) = Inr (list_first (tp_list ts) = Some t, q', m')" "list_wf m' q'"
      "set q' = set (tp_list ts) - {t}" and mv: "moved (set (tp_list ts) - {t}) (tm s) m'"
      using list_container.remove_law[of "tm s" "tp_list ts" t] K t by blast
    let ?m = "set_status TIMER_STATUS_invalid t m'"
    have sh: "reshuffled t (tm s) ?m" using moved_fields(3)[OF mv] by (simp add: reshuffled_def)
    have o: "?m x = tm s x" if "x \<in> heap_ids (tp_heap ts) \<or> x \<in> set (tp_inactive ts)" for x
    proof -
      have "x \<noteq> t" "m' x = tm s x" using that K t moved_fields(4)[OF mv, of x] by auto
      then show ?thesis by simp
    qed
    have "list_wf ?m q'" by (rule list_container.frame[OF r(2)]) simp
    moreover have "heap_wf ?m (tp_heap ts)" by (rule heap_wf_same[of "tm s"]) (use K o in blast)+
    ultimately have "cpu_ok ?m c (ts\<lparr>tp_list := q'\<rparr>)"
      using K o r(3) t 2 unfolding cpu_ok_def status_set[OF sh] by auto
    then show ?thesis
      using fin[of "list_first (tp_list ts) = Some t" "ts\<lparr>tp_list := q'\<rparr>" m', OF _ mv] r(1) pc 2 K
      by (auto simp: remove_entry_def c_def[symmetric] owned_def)
  qed
qed


lemma add_entry_ok:
  assumes s: "tsys_ok s" and t: "t_status (tm s t) = TIMER_STATUS_invalid" "t_cpu (tm s t) < length (tcpus s)"
  shows "\<exists>rc s' st. add_entry t s = Inr (rc, s') \<and> tsys_ok s' \<and> sys_frame s s' \<and> raised s' = raised s \<and> active st \<and>
    tview (tm s') = (tview (tm s))(t := (tview (tm s) t)\<lparr>t_status := st\<rparr>) \<and>
    (rc \<or> (\<exists>x. x \<noteq> t \<and> active (t_status (tm s x)) \<and> t_cpu (tm s x) = t_cpu (tm s t) \<and> expires (tm s x) \<le> expires (tm s t))) \<and>
    (\<forall>x. x \<noteq> t \<longrightarrow> \<not> active (t_status (tm s x)) \<longrightarrow> tm s' x = tm s x)"
proof -
  define c where "c = t_cpu (tm s t)"
  define ts where "ts = tcpus s ! c"
  have cl: "c < length (tcpus s)" using t by (simp add: c_def)
  have k: "cpu_ok (tm s) c ts" using tsys_okD(2)[OF s cl] by (simp add: ts_def)
  note K = k[unfolded cpu_ok_def]
  have pc: "per_cpu s c = Inr ts" using cl by (simp add: per_cpu_in ts_def)
  have nt: "t \<notin> heap_ids (tp_heap ts)" "t \<notin> set (tp_list ts)" "t \<notin> set (tp_inactive ts)" using K t(1) by auto
  define m0 where "m0 = set_status TIMER_STATUS_in_heap t (set_pos (Heap_offset 0) t (tm s))"
  have m0: "m0 x = tm s x" if "x \<noteq> t" for x using that by (simp add: m0_def)
  have h0: "heap_wf m0 (tp_heap ts)" by (rule heap_wf_same[of "tm s"]) (use K in blast, use nt(1) m0 in metis)
  have v0: "tview m0 = (tview (tm s))(t := (tview (tm s) t)\<lparr>t_status := TIMER_STATUS_in_heap\<rparr>)" by (simp add: m0_def)
  show ?thesis
  proof (cases "heap_size (tp_heap ts) = heap_limit (tp_heap ts)")
    case False
    obtain h' m' where r: "add_to_heap (tp_heap ts) t m0 = Inr (heap_first h' = Some t, h', m')" "heap_wf m' h'"
      "heap_ids h' = insert t (heap_ids (tp_heap ts))" and mv: "moved (insert t (heap_ids (tp_heap ts))) m0 m'"
      using heap_container.add_law[OF h0 nt(1) False] by blast
    have p: "t_pos (m' t) \<noteq> Heap_offset 0"
      using slot_ids_pos[of m' "heap_slots h'" "heap_size h'" t] r(2,3) by (auto simp: heap_wf_def heap_ids_def)
    define s' where "s' = put_cpu c (ts\<lparr>tp_heap := h'\<rparr>) (s\<lparr>tm := m'\<rparr>)"
    have e: "add_entry t s = Inr (heap_first h' = Some t, s')"
      using pc t(1) r(1) p by (simp add: add_entry_def c_def[symmetric] m0_def[symmetric] s'_def)
    have v: "tview m' = (tview (tm s))(t := (tview (tm s) t)\<lparr>t_status := TIMER_STATUS_in_heap\<rparr>)"
      using moved_fields(3)[OF mv] v0 by (simp add: fun_eq_iff)
    then have sh: "reshuffled t (tm s) m'" by (simp add: reshuffled_def)
    have o: "m' x = tm s x" if "x \<noteq> t" "x \<notin> heap_ids (tp_heap ts)" for x
      using moved_fields(4)[OF mv, of x] m0[of x] that by simp
    have o2: "m' x = tm s x" if "x \<in> set (tp_list ts) \<or> x \<in> set (tp_inactive ts)" for x
    proof -
      have "x \<noteq> t" "x \<notin> heap_ids (tp_heap ts)" using that nt K by auto
      then show ?thesis by (rule o)
    qed
    have vt: "t_cpu (m' t) = c" "t_status (m' t) = TIMER_STATUS_in_heap" using tview_fields[where m' = m' and x = t and m = "tm s"] v by (simp_all add: c_def)
    have "list_wf m' (tp_list ts)" by (rule list_wf_same[of "tm s"]) (use K o2 in blast)+
    then have ck: "cpu_ok m' c (ts\<lparr>tp_heap := h'\<rparr>)"
      using K o2 r(2,3) nt vt unfolding cpu_ok_def status_set[OF sh] by auto
    have "tsys_ok s' \<and> sys_frame s s'"
      using entry_put[OF s c_def[symmetric] cl v _ _ ck] o K unfolding s'_def by (auto simp: owned_def ts_def)
    moreover have "\<exists>x. x \<noteq> t \<and> active (t_status (tm s x)) \<and> t_cpu (tm s x) = c \<and> expires (tm s x) \<le> expires (tm s t)"
      if "heap_first h' \<noteq> Some t"
    proof -
      from that obtain x where x: "x \<in> heap_ids (tp_heap ts)" "expires (m0 x) \<le> expires (m0 t)"
        using heap_container.add_quiet[OF h0 nt(1) False] r(1) by auto
      moreover have "x \<noteq> t" using x nt by auto
      moreover have "expires (m0 t) = expires (tm s t)" by (simp add: m0_def)
      ultimately show ?thesis
        using K m0[of x] by (auto simp: active_def)
    qed
    moreover have "tm s' x = tm s x" if "x \<noteq> t" "\<not> active (t_status (tm s x))" for x
    proof -
      have "x \<notin> heap_ids (tp_heap ts)" using that(2) K by (auto simp: active_def)
      then show ?thesis using o[OF that(1)] by (simp add: s'_def)
    qed
    ultimately show ?thesis
      using e v by (intro exI[of _ "heap_first h' = Some t"] exI[of _ s'] exI[of _ TIMER_STATUS_in_heap])
        (auto simp: active_def s'_def c_def)
  next
    case True
    define m1 where "m1 = set_status TIMER_STATUS_in_list t m0"
    have m1: "m1 x = tm s x" if "x \<noteq> t" for x using that m0 by (simp add: m1_def)
    have l1: "list_wf m1 (tp_list ts)" by (rule list_wf_same[of "tm s"]) (use K in blast, use nt(2) m1 in metis)
    obtain q' m' where r: "add_to_list (tp_list ts) t m1 = Inr (list_first q' = Some t, q', m')" "list_wf m' q'"
      "set q' = insert t (set (tp_list ts))" and mv: "moved (insert t (set (tp_list ts))) m1 m'"
      using list_container.add_law[OF l1 nt(2)] by blast
    define s' where "s' = put_cpu c (ts\<lparr>tp_list := q'\<rparr>) (s\<lparr>tm := m'\<rparr>)"
    have e: "add_entry t s = Inr (list_first q' = Some t, s')"
      using pc t(1) r(1) add_to_heap_full[OF True, of t m0]
      by (simp add: add_entry_def c_def[symmetric] m0_def[symmetric] s'_def m1_def) (simp add: m0_def)
    have v: "tview m' = (tview (tm s))(t := (tview (tm s) t)\<lparr>t_status := TIMER_STATUS_in_list\<rparr>)"
      using moved_fields(3)[OF mv] v0 by (simp add: fun_eq_iff m1_def)
    then have sh: "reshuffled t (tm s) m'" by (simp add: reshuffled_def)
    have o: "m' x = tm s x" if "x \<noteq> t" "x \<notin> set (tp_list ts)" for x
      using moved_fields(4)[OF mv, of x] m1[of x] that by simp
    have o2: "m' x = tm s x" if "x \<in> heap_ids (tp_heap ts) \<or> x \<in> set (tp_inactive ts)" for x
    proof -
      have "x \<noteq> t" "x \<notin> set (tp_list ts)" using that nt K by auto
      then show ?thesis by (rule o)
    qed
    have vt: "t_cpu (m' t) = c" "t_status (m' t) = TIMER_STATUS_in_list" using tview_fields[where m' = m' and x = t and m = "tm s"] v by (simp_all add: c_def)
    have "heap_wf m' (tp_heap ts)" by (rule heap_wf_same[of "tm s"]) (use K o2 in blast)+
    then have ck: "cpu_ok m' c (ts\<lparr>tp_list := q'\<rparr>)"
      using K o2 r(2,3) nt vt unfolding cpu_ok_def status_set[OF sh] by auto
    have "tsys_ok s' \<and> sys_frame s s'"
      using entry_put[OF s c_def[symmetric] cl v _ _ ck] o K unfolding s'_def by (auto simp: owned_def ts_def)
    moreover have "\<exists>x. x \<noteq> t \<and> active (t_status (tm s x)) \<and> t_cpu (tm s x) = c \<and> expires (tm s x) \<le> expires (tm s t)"
      if "list_first q' \<noteq> Some t"
    proof -
      from that obtain x where x: "x \<in> set (tp_list ts)" "expires (m1 x) \<le> expires (m1 t)"
        using list_container.add_quiet[OF l1 nt(2)] r(1) by auto
      moreover have "x \<noteq> t" using x nt by auto
      moreover have "expires (m1 t) = expires (tm s t)" by (simp add: m1_def m0_def)
      ultimately show ?thesis
        using K m1[of x] by (auto simp: active_def)
    qed
    moreover have "tm s' x = tm s x" if "x \<noteq> t" "\<not> active (t_status (tm s x))" for x
    proof -
      have "x \<notin> set (tp_list ts)" using that(2) K by (auto simp: active_def)
      then show ?thesis using o[OF that(1)] by (simp add: s'_def)
    qed
    ultimately show ?thesis
      using e v by (intro exI[of _ "list_first q' = Some t"] exI[of _ s'] exI[of _ TIMER_STATUS_in_list])
        (auto simp: active_def s'_def c_def)
  qed
qed

section \<open>Inactive timers\<close>

text \<open>\<open>detached\<close>: the invariant holds for all timers but one, which is in no container.\<close>

definition inval :: "tid \<Rightarrow> tsys \<Rightarrow> tsys" where
  "inval t s = s\<lparr>tm := set_status TIMER_STATUS_invalid t (tm s)\<rparr>"

definition detached :: "tid \<Rightarrow> tsys \<Rightarrow> bool" where
  "detached t s \<longleftrightarrow> tsys_ok (inval t s)"

lemma inval_idem: "t_status (tm s t) = TIMER_STATUS_invalid \<Longrightarrow> inval t s = s"
  by (simp add: inval_def set_status_def fun_upd_idem_iff)

lemma detached_invalid: "t_status (tm s t) = TIMER_STATUS_invalid \<Longrightarrow> detached t s = tsys_ok s"
  by (simp add: detached_def inval_idem)

lemma tsys_ok_other:
  assumes s: "tsys_ok s" and t: "t_status (tm s t) = TIMER_STATUS_invalid" "t_status r = TIMER_STATUS_invalid"
  shows "tsys_ok (s\<lparr>tm := (tm s)(t := r)\<rparr>)"
proof -
  have "\<not> owned (tm s) c t" "\<not> owned ((tm s)(t := r)) c t" for c using t by (simp_all add: owned_def)
  then have "cpu_ok ((tm s)(t := r)) c (tcpus s ! c)" if "c < length (tcpus s)" for c
    by (intro cpu_ok_frame[OF tsys_okD(2)[OF s that]]) auto
  moreover have "timer_ok (length (tcpus s)) (((tm s)(t := r)) x)" for x
    using tsys_okD(3)[OF s, of x] t by (auto simp: timer_ok_def)
  ultimately show ?thesis using tsys_okD(1)[OF s] by (simp add: tsys_ok_def)
qed

lemma detached_upd: "detached t s \<Longrightarrow> detached t (s\<lparr>tm := (tm s)(t := r)\<rparr>)"
  using tsys_ok_other[of "inval t s" t "r\<lparr>t_status := TIMER_STATUS_invalid\<rparr>"]
  by (simp add: detached_def inval_def set_status_def)

lemma raise_simps [simp]:
  "tm (cpu_raise_softirq c s) = tm s" "tcpus (cpu_raise_softirq c s) = tcpus s" "raised (cpu_raise_softirq c s) = c # raised s"
  "timer_deadline (cpu_raise_softirq c s) = timer_deadline s" "fired (cpu_raise_softirq c s) = fired s" "tsys_ok (cpu_raise_softirq c s) = tsys_ok s"
  by (simp_all add: cpu_raise_softirq_def tsys_ok_def)

lemma list_add_ok:
  assumes d: "detached t s" and t: "t_status (tm s t) = TIMER_STATUS_inactive" "t_cpu (tm s t) = c" "c < length (tcpus s)"
  shows "\<exists>s'. list_add c t s = Inr s' \<and> tsys_ok s' \<and> sys_frame s s' \<and> raised s' = raised s \<and> tview (tm s') = tview (tm s)"
proof -
  define i where "i = inval t s"
  define ts where "ts = tcpus s ! c"
  define ts' where "ts' = ts\<lparr>tp_inactive := t # tp_inactive ts\<rparr>"
  define m where "m = set_pos Inactive_link t (tm s)"
  have i: "tsys_ok i" "tcpus i = tcpus s" "t_cpu (tm i t) = c" "t_status (tm i t) = TIMER_STATUS_invalid" and ix: "\<And>x. x \<noteq> t \<Longrightarrow> tm i x = tm s x"
    using d t by (simp_all add: i_def detached_def inval_def)
  have k: "cpu_ok (tm i) c ts" using tsys_okD(2)[OF i(1), of c] t i(2) by (simp add: ts_def)
  note K = k[unfolded cpu_ok_def]
  have nt: "t \<notin> heap_ids (tp_heap ts)" "t \<notin> set (tp_list ts)" "t \<notin> set (tp_inactive ts)" using K i by auto
  have mx: "m x = tm i x" if "x \<noteq> t" for x using that ix by (simp add: m_def)
  have sh: "reshuffled t (tm i) m" using mx by (simp add: reshuffled_def tview_def)
  have mt: "t_cpu (m t) = c" "t_status (m t) = TIMER_STATUS_inactive" "t_pos (m t) = Inactive_link" using t by (simp_all add: m_def)
  have "heap_wf m (tp_heap ts)" by (rule heap_wf_same[of "tm i"]) (use K in blast, use nt(1) mx in metis)
  moreover have "list_wf m (tp_list ts)" by (rule list_wf_same[of "tm i"]) (use K in blast, use nt(2) mx in metis)
  moreover have "\<forall>x\<in>set (tp_inactive ts). t_pos (m x) = Inactive_link" using K nt mx by metis
  ultimately have ck: "cpu_ok m c ts'"
    using K nt mt unfolding cpu_ok_def status_set[OF sh] by (simp add: ts'_def)
  have v: "tview m = (tview (tm i))(t := (tview (tm i) t)\<lparr>t_status := TIMER_STATUS_inactive\<rparr>)"
    using t by (auto simp: m_def i_def inval_def tview_def fun_eq_iff)
  have "tsys_ok (put_cpu c ts' (i\<lparr>tm := m\<rparr>)) \<and> sys_frame i (put_cpu c ts' (i\<lparr>tm := m\<rparr>))"
    using entry_put[OF i(1,3) _ v _ _ ck] mx t i(2) by (simp add: ts'_def ts_def)
  moreover have "put_cpu c ts' (i\<lparr>tm := m\<rparr>) = put_cpu c ts' (s\<lparr>tm := m\<rparr>)" by (simp add: i_def inval_def put_cpu_def)
  moreover have "sys_frame i x = sys_frame s x" for x by (simp add: sys_frame_def i_def inval_def)
  moreover have "list_add c t s = Inr (put_cpu c ts' (s\<lparr>tm := m\<rparr>))"
    using t by (simp add: list_add_def per_cpu_in ts_def ts'_def m_def)
  moreover have "tview m = tview (tm s)" by (simp add: m_def)
  ultimately show ?thesis by simp
qed

lemma list_del_ok:
  assumes s: "tsys_ok s" and t: "t_status (tm s t) = TIMER_STATUS_inactive"
  shows "\<exists>s'. list_del t (s\<lparr>tm := set_status st t (tm s)\<rparr>) = Inr s' \<and> detached t s' \<and> sys_frame s s' \<and> raised s' = raised s \<and>
    tm s' = set_status st t (tm s)"
proof -
  define c where "c = t_cpu (tm s t)"
  define ts where "ts = tcpus s ! c"
  define ts' where "ts' = ts\<lparr>tp_inactive := remove1 t (tp_inactive ts)\<rparr>"
  define m where "m = set_status TIMER_STATUS_invalid t (tm s)"
  have cl: "c < length (tcpus s)" using tsys_okD(3)[OF s, of t] t by (simp add: timer_ok_def c_def)
  have k: "cpu_ok (tm s) c ts" using tsys_okD(2)[OF s cl] by (simp add: ts_def)
  note K = k[unfolded cpu_ok_def]
  have ti: "t \<in> set (tp_inactive ts)" "t \<notin> heap_ids (tp_heap ts)" "t \<notin> set (tp_list ts)" using K t by (simp_all add: c_def)
  then have pt: "t_pos (tm s t) = Inactive_link" using K by blast
  have mx: "m x = tm s x" if "x \<noteq> t" for x using that by (simp add: m_def)
  have sh: "reshuffled t (tm s) m" using mx by (simp add: reshuffled_def tview_def)
  have "heap_wf m (tp_heap ts)" by (rule heap_wf_same[of "tm s"]) (use K in blast, use ti(2) mx in metis)
  moreover have "list_wf m (tp_list ts)" by (rule list_wf_same[of "tm s"]) (use K in blast, use ti(3) mx in metis)
  moreover have "\<forall>x\<in>set (tp_inactive ts). t_pos (m x) = Inactive_link" using K by (simp add: m_def)
  ultimately have ck: "cpu_ok m c ts'"
    using K ti unfolding cpu_ok_def status_set[OF sh] by (simp add: ts'_def m_def)
  have v: "tview m = (tview (tm s))(t := (tview (tm s) t)\<lparr>t_status := TIMER_STATUS_invalid\<rparr>)" by (simp add: m_def)
  define s' where "s' = put_cpu c ts' (s\<lparr>tm := set_status st t (tm s)\<rparr>)"
  have "tsys_ok (put_cpu c ts' (s\<lparr>tm := m\<rparr>)) \<and> sys_frame s (put_cpu c ts' (s\<lparr>tm := m\<rparr>))"
    using entry_put[OF s c_def[symmetric] cl v _ _ ck] mx by (simp add: ts'_def ts_def)
  moreover have "inval t s' = put_cpu c ts' (s\<lparr>tm := m\<rparr>)" by (simp add: s'_def inval_def put_cpu_def m_def)
  moreover have "sys_frame s (inval t x) = sys_frame s x" for x by (simp add: sys_frame_def inval_def)
  ultimately have "detached t s' \<and> sys_frame s s'" unfolding detached_def by metis
  moreover have "list_del t (s\<lparr>tm := set_status st t (tm s)\<rparr>) = Inr s'"
    using cl pt ti by (simp add: list_del_def per_cpu_def c_def[symmetric] ts_def[symmetric] s'_def ts'_def)
  ultimately show ?thesis by (simp add: s'_def)
qed

lemma list_del_inactive_ok:
  assumes "tsys_ok s" "t_status (tm s t) = TIMER_STATUS_inactive"
  shows "\<exists>s'. list_del t s = Inr s' \<and> detached t s' \<and> sys_frame s s' \<and> raised s' = raised s \<and> tm s' = tm s"
proof -
  have "set_status TIMER_STATUS_inactive t (tm s) = tm s" using assms(2) by (simp add: set_status_def fun_upd_idem_iff)
  then show ?thesis using list_del_ok[OF assms, of TIMER_STATUS_inactive] by simp
qed


section \<open>The operations\<close>

text \<open>
  What a timer is to its users: not initialised, idle or armed with an expiry time on a processor, or
  killed.
\<close>

datatype atimer = Uninit | Idle nat | Armed nat int | Killed

definition abs_timer :: "timer \<Rightarrow> atimer" where
  "abs_timer r =
     (case t_status r of
        TIMER_STATUS_invalid \<Rightarrow> Uninit
      | TIMER_STATUS_inactive \<Rightarrow> Idle (t_cpu r)
      | TIMER_STATUS_killed \<Rightarrow> Killed
      | _ \<Rightarrow> Armed (t_cpu r) (expires r))"

definition tabs :: "tsys \<Rightarrow> tid \<Rightarrow> atimer" where
  "tabs s t = abs_timer (tview (tm s) t)"

lemma tabs_cases:
  "t_status (tm s t) = TIMER_STATUS_invalid \<Longrightarrow> tabs s t = Uninit"
  "t_status (tm s t) = TIMER_STATUS_inactive \<Longrightarrow> tabs s t = Idle (t_cpu (tm s t))"
  "t_status (tm s t) = TIMER_STATUS_killed \<Longrightarrow> tabs s t = Killed"
  "active (t_status (tm s t)) \<Longrightarrow> tabs s t = Armed (t_cpu (tm s t)) (expires (tm s t))"
  by (auto simp: tabs_def abs_timer_def tview_def active_def)

lemma status_cases:
  obtains "t_status r = TIMER_STATUS_invalid" | "t_status r = TIMER_STATUS_inactive" | "t_status r = TIMER_STATUS_killed" | "active (t_status r)"
  by (cases "t_status r") (auto simp: active_def)

text \<open>
  The softirq is raised for a processor, or its programmed deadline is early enough for every timer
  that is armed on it.
\<close>

definition covers :: "int \<Rightarrow> int \<Rightarrow> bool" where
  "covers d e \<longleftrightarrow> (e < STIME_MAX \<longrightarrow> d \<noteq> 0 \<and> d \<le> e + timer_slop)"

definition timely :: "tsys \<Rightarrow> nat \<Rightarrow> bool" where
  "timely s c \<longleftrightarrow> c \<in> set (raised s) \<or> (\<forall>t e. tabs s t = Armed c e \<longrightarrow> covers (timer_deadline s c) e)"

text \<open>\<open>changes t st s s'\<close>: the status of one timer changes, nothing else but positions.\<close>

definition changes :: "tid \<Rightarrow> timer_status \<Rightarrow> tsys \<Rightarrow> tsys \<Rightarrow> bool" where
  "changes t st s s' \<longleftrightarrow> tsys_ok s' \<and> sys_frame s s' \<and> set (raised s) \<subseteq> set (raised s') \<and>
     tview (tm s') = (tview (tm s))(t := (tview (tm s) t)\<lparr>t_status := st\<rparr>)"

lemma changesD:
  assumes "changes t st s s'"
  shows "tsys_ok s'" "sys_frame s s'" "length (tcpus s') = length (tcpus s)" "timer_deadline s' = timer_deadline s"
    "set (raised s) \<subseteq> set (raised s')" "t_status (tm s' t) = st" "t_cpu (tm s' t) = t_cpu (tm s t)" "expires (tm s' t) = expires (tm s t)"
    "x \<noteq> t \<Longrightarrow> tview (tm s') x = tview (tm s) x" "x \<noteq> t \<Longrightarrow> tabs s' x = tabs s x"
  using assms sys_frame_len[of s s'] tview_fields[where m' = "tm s'" and x = t and m = "tm s" and st = st]
  by (auto simp: changes_def sys_frame_def tabs_def)

lemma deactivate_timer_ok:
  assumes s: "tsys_ok s" and a: "active (t_status (tm s t))"
  shows "\<exists>s'. deactivate_timer t s = Inr s' \<and> changes t TIMER_STATUS_inactive s s'"
proof -
  from remove_entry_ok[OF s a] obtain rc s1 where r: "remove_entry t s = Inr (rc, s1)" "tsys_ok s1" "sys_frame s s1" "raised s1 = raised s"
    and v: "tview (tm s1) = (tview (tm s))(t := (tview (tm s) t)\<lparr>t_status := TIMER_STATUS_invalid\<rparr>)" by blast
  have f: "t_cpu (tm s1 t) = t_cpu (tm s t)" "t_status (tm s1 t) = TIMER_STATUS_invalid"
    using tview_fields[where m' = "tm s1" and x = t and m = "tm s"] v by simp_all
  define s2 where "s2 = (if rc then cpu_raise_softirq (t_cpu (tm s1 t)) s1 else s1)"
  have s2: "tsys_ok s2" "tm s2 = tm s1" "tcpus s2 = tcpus s1" "set (raised s1) \<subseteq> set (raised s2)" "sys_frame s1 s2"
    using r(2) by (auto simp: s2_def sys_frame_def)
  define s3 where "s3 = s2\<lparr>tm := set_status TIMER_STATUS_inactive t (tm s2)\<rparr>"
  have d: "detached t s3" using detached_upd[of t s2] s2(1,2) f detached_invalid[of s2 t] by (simp add: s3_def set_status_def)
  have cl: "t_cpu (tm s t) < length (tcpus s3)"
    using tsys_okD(3)[OF s, of t] a sys_frame_len[OF r(3)] s2(3) by (auto simp: timer_ok_def active_def s3_def)
  from list_add_ok[OF d _ _ cl] s2(2) f obtain s4 where l: "list_add (t_cpu (tm s t)) t s3 = Inr s4" "tsys_ok s4" "sys_frame s3 s4"
    "raised s4 = raised s3" "tview (tm s4) = tview (tm s3)" by (auto simp: s3_def)
  have "deactivate_timer t s = Inr s4"
    using r(1) l(1) s2(2) f by (simp add: deactivate_timer_def Let_def s2_def[symmetric] s3_def[symmetric]) (simp add: s3_def)
  moreover have "sys_frame s2 s3" by (simp add: s3_def sys_frame_def)
  then have "sys_frame s s4" using sys_frame_trans r(3) s2(5) l(3) by blast
  moreover have "tview (tm s4) = (tview (tm s))(t := (tview (tm s) t)\<lparr>t_status := TIMER_STATUS_inactive\<rparr>)"
    using l(5) v s2(2) by (simp add: s3_def)
  moreover have "set (raised s) \<subseteq> set (raised s4)" using l(4) s2(4) r(4) by (simp add: s3_def)
  ultimately show ?thesis using l(2) by (auto simp: changes_def)
qed

lemma activate_timer_ok:
  assumes s: "tsys_ok s" and t: "t_status (tm s t) = TIMER_STATUS_inactive"
  shows "\<exists>s' st. activate_timer t s = Inr s' \<and> active st \<and> changes t st s s' \<and>
    (t_cpu (tm s t) \<in> set (raised s') \<or>
     (\<exists>x. x \<noteq> t \<and> active (t_status (tm s x)) \<and> t_cpu (tm s x) = t_cpu (tm s t) \<and> expires (tm s x) \<le> expires (tm s t)))"
proof -
  from list_del_ok[OF s t, of TIMER_STATUS_invalid] obtain s1 where
    l: "list_del t (s\<lparr>tm := set_status TIMER_STATUS_invalid t (tm s)\<rparr>) = Inr s1" "detached t s1" "sys_frame s s1" "raised s1 = raised s"
      "tm s1 = set_status TIMER_STATUS_invalid t (tm s)" by blast
  have s1: "tsys_ok s1" using l(2,5) detached_invalid[of s1 t] by simp
  have cl: "t_cpu (tm s1 t) < length (tcpus s1)"
    using tsys_okD(3)[OF s, of t] t sys_frame_len[OF l(3)] l(5) by (simp add: timer_ok_def)
  from add_entry_ok[OF s1 _ cl] l(5) obtain rc s2 st where a: "add_entry t s1 = Inr (rc, s2)" "tsys_ok s2" "sys_frame s1 s2" "raised s2 = raised s1"
    "active st" "tview (tm s2) = (tview (tm s1))(t := (tview (tm s1) t)\<lparr>t_status := st\<rparr>)"
    and q: "rc \<or> (\<exists>x. x \<noteq> t \<and> active (t_status (tm s1 x)) \<and> t_cpu (tm s1 x) = t_cpu (tm s1 t) \<and> expires (tm s1 x) \<le> expires (tm s1 t))"
    by auto
  define s3 where "s3 = (if rc then cpu_raise_softirq (t_cpu (tm s2 t)) s2 else s2)"
  have e: "activate_timer t s = Inr s3" using t l(1) a(1) by (simp add: activate_timer_def s3_def)
  have c: "t_cpu (tm s2 t) = t_cpu (tm s t)"
    using tview_fields(4)[where m' = "tm s2" and x = t and m = "tm s1" and st = st] a(6) l(5) by simp
  have "tsys_ok s3" "set (raised s) \<subseteq> set (raised s3)" "tm s3 = tm s2"
    using a(2,4) l(4) by (auto simp: s3_def)
  moreover have "sys_frame s2 s3" by (simp add: s3_def sys_frame_def)
  then have "sys_frame s s3" using sys_frame_trans l(3) a(3) by blast
  moreover have "tview (tm s2) = (tview (tm s))(t := (tview (tm s) t)\<lparr>t_status := st\<rparr>)" using a(6) l(5) by simp
  ultimately have "changes t st s s3" by (simp add: changes_def)
  moreover have "rc \<Longrightarrow> t_cpu (tm s t) \<in> set (raised s3)" using c by (simp add: s3_def)
  ultimately show ?thesis using e a(5) q l(5) by (auto split: if_splits)
qed

section \<open>Refinement of the interface\<close>

definition set_spec :: "tid \<Rightarrow> int \<Rightarrow> (tid \<Rightarrow> atimer) \<Rightarrow> tid \<Rightarrow> atimer" where
  "set_spec t e A = A(t := (case A t of Idle c \<Rightarrow> Armed c e | Armed c _ \<Rightarrow> Armed c e | x \<Rightarrow> x))"

definition stop_spec :: "tid \<Rightarrow> (tid \<Rightarrow> atimer) \<Rightarrow> tid \<Rightarrow> atimer" where
  "stop_spec t A = A(t := (case A t of Armed c _ \<Rightarrow> Idle c | x \<Rightarrow> x))"

definition migrate_spec :: "tid \<Rightarrow> nat \<Rightarrow> (tid \<Rightarrow> atimer) \<Rightarrow> tid \<Rightarrow> atimer" where
  "migrate_spec t c' A = A(t := (case A t of Idle _ \<Rightarrow> Idle c' | Armed _ e \<Rightarrow> Armed c' e | x \<Rightarrow> x))"

definition kill_spec :: "tid \<Rightarrow> (tid \<Rightarrow> atimer) \<Rightarrow> tid \<Rightarrow> atimer" where
  "kill_spec t A = A(t := (case A t of Idle _ \<Rightarrow> Killed | Armed _ _ \<Rightarrow> Killed | x \<Rightarrow> x))"

lemma killed_specs:
  "A t = Killed \<Longrightarrow> set_spec t e A = A" "A t = Killed \<Longrightarrow> stop_spec t A = A"
  "A t = Killed \<Longrightarrow> migrate_spec t c A = A" "A t = Killed \<Longrightarrow> kill_spec t A = A"
  by (simp_all add: set_spec_def stop_spec_def migrate_spec_def kill_spec_def fun_upd_idem)

text \<open>A step of the system that keeps the invariant and does not delay any deadline.\<close>

definition refines :: "tsys \<Rightarrow> (tid \<Rightarrow> atimer) \<Rightarrow> tsys \<Rightarrow> bool" where
  "refines s A s' \<longleftrightarrow> tsys_ok s' \<and> sys_frame s s' \<and> tabs s' = A \<and> (\<forall>c. timely s c \<longrightarrow> timely s' c)"

lemma refines_refl: "tsys_ok s \<Longrightarrow> tabs s = A \<Longrightarrow> refines s A s" by (simp add: refines_def)

lemma refines_trans: "refines s A s' \<Longrightarrow> refines s' A' s'' \<Longrightarrow> refines s A' s''"
  unfolding refines_def using sys_frame_trans by blast

lemma timely_mono:
  assumes "set (raised s) \<subseteq> set (raised s')" "timer_deadline s' = timer_deadline s"
    and "\<And>t e. tabs s' t = Armed c e \<Longrightarrow> c \<in> set (raised s') \<or> (\<exists>t' e'. tabs s t' = Armed c e' \<and> e' \<le> e)"
    and t: "timely s c"
  shows "timely s' c"
proof (cases "c \<in> set (raised s')")
  case False
  then have a: "covers (timer_deadline s c) e" if "tabs s t = Armed c e" for t e
    using t assms(1) that unfolding timely_def by blast
  have "covers (timer_deadline s' c) e" if u: "tabs s' u = Armed c e" for u e
  proof -
    from assms(3)[OF u] False obtain u' e' where "tabs s u' = Armed c e'" "e' \<le> e" by blast
    with a[of u' e'] show ?thesis unfolding covers_def assms(2) by auto
  qed
  then show ?thesis unfolding timely_def by blast
qed (simp add: timely_def)

lemma changes_refines:
  assumes ch: "changes t st s s'"
    and q: "active st \<Longrightarrow> t_cpu (tm s t) \<in> set (raised s') \<or>
      (\<exists>x. x \<noteq> t \<and> active (t_status (tm s x)) \<and> t_cpu (tm s x) = t_cpu (tm s t) \<and> expires (tm s x) \<le> expires (tm s t))"
  shows "refines s ((tabs s)(t := tabs s' t)) s'"
proof -
  note C = changesD[OF ch]
  have "timely s' c" if "timely s c" for c
  proof (rule timely_mono[OF C(5,4) _ that], goal_cases)
    case (1 x e)
    then have x: "tabs s' x = Armed c e" .
    show ?case
    proof (cases "x = t")
      case True
      then have "active st" "t_cpu (tm s t) = c" "e = expires (tm s t)"
        using x C(6-8) status_cases[of "tm s' t"] tabs_cases[of s' t] by (metis atimer.distinct atimer.inject(2))+
      then show ?thesis using q tabs_cases(4)[of s] by metis
    next
      case False
      then show ?thesis using x C(10) by auto
    qed
  qed
  moreover have "tabs s' = (tabs s)(t := tabs s' t)" using C(10) by auto
  ultimately show ?thesis using C(1,2) by (simp add: refines_def)
qed

lemma deactivate_if_active_ok:
  assumes s: "tsys_ok s" and t: "t_status (tm s t) \<noteq> TIMER_STATUS_invalid" "timer_lock t s"
  shows "\<exists>s'. deactivate_if_active t s = Inr (active (t_status (tm s t)), s') \<and> refines s (stop_spec t (tabs s)) s' \<and>
    changes t TIMER_STATUS_inactive s s'"
proof -
  have "t_status (tm s t) \<noteq> TIMER_STATUS_killed" using tsys_okD(3)[OF s, of t] t(2) by (auto simp: timer_ok_def timer_lock_def)
  then consider "active (t_status (tm s t))" | "t_status (tm s t) = TIMER_STATUS_inactive" using t(1) status_cases by metis
  then show ?thesis
  proof cases
    case 1
    from deactivate_timer_ok[OF s 1] obtain s' where s': "deactivate_timer t s = Inr s'" "changes t TIMER_STATUS_inactive s s'" by blast
    have "refines s ((tabs s)(t := tabs s' t)) s'" by (rule changes_refines[OF s'(2)]) (simp add: active_def)
    moreover have "(tabs s)(t := tabs s' t) = stop_spec t (tabs s)"
      using tabs_cases(4)[OF 1] tabs_cases(2)[of s' t] changesD(6,7)[OF s'(2)] by (simp add: stop_spec_def)
    ultimately show ?thesis using s' 1 t(1) by (auto simp: deactivate_if_active_def active_timer_def active_def)
  next
    case 2
    have "stop_spec t (tabs s) = tabs s" using tabs_cases(2)[OF 2] by (simp add: stop_spec_def fun_upd_idem_iff)
    moreover have "tview (tm s) t = (tview (tm s) t)\<lparr>t_status := TIMER_STATUS_inactive\<rparr>" using 2 by (simp add: tview_def)
    ultimately show ?thesis
      using 2 s refines_refl[OF s] by (simp add: deactivate_if_active_def active_timer_def active_def changes_def fun_upd_idem_iff)
  qed
qed

text \<open>The expiry time of an inactive timer matters to nobody.\<close>

lemma set_expires_ok:
  assumes s: "tsys_ok s" and t: "t_status (tm s t) = TIMER_STATUS_inactive"
  shows "tsys_ok (s\<lparr>tm := (tm s)(t := (tm s t)\<lparr>expires := e\<rparr>)\<rparr>)"
proof -
  let ?m = "(tm s)(t := (tm s t)\<lparr>expires := e\<rparr>)"
  have f: "t_cpu (?m x) = t_cpu (tm s x)" "t_status (?m x) = t_status (tm s x)" "t_pos (?m x) = t_pos (tm s x)" for x by simp_all
  have "cpu_ok ?m c (tcpus s ! c)" if "c < length (tcpus s)" for c
  proof -
    note K = tsys_okD(2)[OF s that, unfolded cpu_ok_def]
    have "x \<noteq> t" if "x \<in> heap_ids (tp_heap (tcpus s ! c)) \<or> x \<in> set (tp_list (tcpus s ! c))" for x using K t that by auto
    then have o: "?m x = tm s x" if "x \<in> heap_ids (tp_heap (tcpus s ! c)) \<or> x \<in> set (tp_list (tcpus s ! c))" for x
      using that by (metis fun_upd_other)
    have "heap_wf ?m (tp_heap (tcpus s ! c))" by (rule heap_wf_same[of "tm s"]) (use K o in blast)+
    moreover have "list_wf ?m (tp_list (tcpus s ! c))" by (rule list_wf_same[of "tm s"]) (use K o in blast)+
    ultimately show ?thesis using K unfolding cpu_ok_def f by blast
  qed
  moreover have "timer_ok (length (tcpus s)) (?m x)" for x using tsys_okD(3)[OF s, of x] timer_ok_cong[of "?m x" "tm s x"] f by blast
  ultimately show ?thesis using tsys_okD(1)[OF s] by (simp add: tsys_ok_def)
qed

lemma locked_fixed:
  assumes "tsys_ok s" "t_status (tm s t) \<noteq> TIMER_STATUS_invalid" "\<not> timer_lock t s"
  shows "tabs s t = Killed"
  using tsys_okD(1,3)[OF assms(1)] assms(2,3) tabs_cases(3)[of s t]
  by (cases rule: status_cases[of "tm s t"]) (fastforce simp: timer_ok_def timer_lock_def active_def dest: spec[of _ t])+

lemma set_timer_ok:
  assumes s: "tsys_ok s" and t: "t_status (tm s t) \<noteq> TIMER_STATUS_invalid"
  shows "\<exists>s'. set_timer t e s = Inr s' \<and> refines s (set_spec t e (tabs s)) s'"
proof (cases "timer_lock t s")
  case False
  then show ?thesis
    using locked_fixed[OF s t False] refines_refl[OF s] by (simp add: set_timer_def killed_specs)
next
  case True
  from deactivate_if_active_ok[OF s t True] obtain s1 a where
    d: "deactivate_if_active t s = Inr (a, s1)" "refines s (stop_spec t (tabs s)) s1" "changes t TIMER_STATUS_inactive s s1" by blast
  define s2 where "s2 = s1\<lparr>tm := (tm s1)(t := (tm s1 t)\<lparr>expires := e\<rparr>)\<rparr>"
  have t1: "t_status (tm s1 t) = TIMER_STATUS_inactive" using changesD(6)[OF d(3)] .
  have s2: "tsys_ok s2" "t_status (tm s2 t) = TIMER_STATUS_inactive"
    using set_expires_ok[OF changesD(1)[OF d(3)] t1] t1 by (simp_all add: s2_def)
  have tb: "tabs s2 = tabs s1" using tabs_cases(2)[OF t1] tabs_cases(2)[OF s2(2)] by (auto simp: fun_eq_iff tabs_def tview_def s2_def abs_timer_def t1)
  have r2: "refines s1 (tabs s1) s2" using s2(1) tb by (simp add: refines_def timely_def s2_def sys_frame_def)
  from activate_timer_ok[OF s2] obtain s3 st where a: "activate_timer t s2 = Inr s3" "active st" "changes t st s2 s3"
    and q: "t_cpu (tm s2 t) \<in> set (raised s3) \<or>
     (\<exists>x. x \<noteq> t \<and> active (t_status (tm s2 x)) \<and> t_cpu (tm s2 x) = t_cpu (tm s2 t) \<and> expires (tm s2 x) \<le> expires (tm s2 t))" by blast
  have r3: "refines s2 ((tabs s2)(t := tabs s3 t)) s3" by (rule changes_refines[OF a(3) q])
  have "tabs s3 t = Armed (t_cpu (tm s t)) e"
    using tabs_cases(4)[of s3 t] changesD(6-8)[OF a(3)] a(2) changesD(7)[OF d(3)] by (simp add: s2_def)
  moreover have "tabs s t = Idle (t_cpu (tm s t)) \<or> (\<exists>e. tabs s t = Armed (t_cpu (tm s t)) e)"
  proof -
    have "t_status (tm s t) \<noteq> TIMER_STATUS_killed" using tsys_okD(3)[OF s, of t] True by (auto simp: timer_ok_def timer_lock_def)
    then show ?thesis using t tabs_cases[of s t] by (cases rule: status_cases[of "tm s t"]) auto
  qed
  ultimately have "(tabs s2)(t := tabs s3 t) = set_spec t e (tabs s)"
    using tb d(2) by (auto simp: refines_def set_spec_def stop_spec_def)
  then have "refines s (set_spec t e (tabs s)) s3" using refines_trans[OF refines_trans[OF d(2) r2] r3] by simp
  then show ?thesis using True d(1) a(1) by (auto simp: set_timer_def s2_def)
qed

lemma stop_timer_ok:
  assumes s: "tsys_ok s" and t: "t_status (tm s t) \<noteq> TIMER_STATUS_invalid"
  shows "\<exists>s'. stop_timer t s = Inr s' \<and> refines s (stop_spec t (tabs s)) s'"
proof (cases "timer_lock t s")
  case False
  then show ?thesis
    using locked_fixed[OF s t False] refines_refl[OF s] by (simp add: stop_timer_def killed_specs)
next
  case True
  then show ?thesis using deactivate_if_active_ok[OF s t True] by (auto simp: stop_timer_def)
qed

lemma unlocked_spec:
  assumes s: "tsys_ok s" and t: "t_status (tm s t) \<noteq> TIMER_STATUS_invalid" and l: "timer_lock t s"
  shows "tabs s t = (if active (t_status (tm s t)) then Armed (t_cpu (tm s t)) (expires (tm s t)) else Idle (t_cpu (tm s t)))"
    "t_cpu (tm s t) < length (tcpus s)"
proof -
  have n: "t_status (tm s t) \<noteq> TIMER_STATUS_killed" using tsys_okD(3)[OF s, of t] l by (auto simp: timer_ok_def timer_lock_def)
  show "tabs s t = (if active (t_status (tm s t)) then Armed (t_cpu (tm s t)) (expires (tm s t)) else Idle (t_cpu (tm s t)))"
    using n t tabs_cases[of s t] by (cases rule: status_cases[of "tm s t"]) (auto simp: active_def)
  show "t_cpu (tm s t) < length (tcpus s)"
    using n t tsys_okD(3)[OF s, of t] by (cases "t_status (tm s t)") (auto simp: timer_ok_def)
qed

lemma disarm_refines:
  assumes "tsys_ok s'" "sys_frame s s'" "raised s' = raised s" "tabs s' = (tabs s)(t := x)" "\<And>c e. x \<noteq> Armed c e"
  shows "refines s ((tabs s)(t := x)) s'"
proof -
  have "timely s' k" if "timely s k" for k
  proof (rule timely_mono[OF _ _ _ that])
    fix u e assume "tabs s' u = Armed k e"
    then have "tabs s u = Armed k e" using assms(4,5) by (cases "u = t") auto
    then show "k \<in> set (raised s') \<or> (\<exists>t' e'. tabs s t' = Armed k e' \<and> e' \<le> e)" by blast
  qed (use assms(2,3) in \<open>auto simp: sys_frame_def\<close>)
  then show ?thesis using assms by (simp add: refines_def)
qed

text \<open>An idle timer moves to another processor.\<close>

lemma move_idle_ok:
  assumes s: "tsys_ok s" and t: "t_status (tm s t) = TIMER_STATUS_inactive" and c: "c < length (tcpus s)"
  shows "\<exists>s1 s2. list_del t s = Inr s1 \<and> list_add c t (set_cpu c t s1) = Inr s2 \<and> tsys_ok s2 \<and> sys_frame s s2 \<and>
    raised s2 = raised s \<and> tview (tm s2) = (tview (tm s))(t := (tview (tm s) t)\<lparr>t_cpu := c\<rparr>)"
proof -
  from list_del_inactive_ok[OF s t] obtain s1 where l: "list_del t s = Inr s1" "detached t s1" "sys_frame s s1" "raised s1 = raised s" "tm s1 = tm s"
    by blast
  have c16: "c mod 65536 = c" using c tsys_okD(1)[OF s] by (simp add: TIMER_CPU_status_killed_def)
  define s1' where "s1' = set_cpu c t s1"
  have d: "detached t s1'" using detached_upd[OF l(2)] by (simp add: s1'_def set_cpu_def)
  have f: "t_status (tm s1' t) = TIMER_STATUS_inactive" "t_cpu (tm s1' t) = c" "c < length (tcpus s1')" "sys_frame s1 s1'" "raised s1' = raised s1"
    using t c c16 l(5) sys_frame_len[OF l(3)] by (simp_all add: s1'_def set_cpu_def sys_frame_def)
  from list_add_ok[OF d f(1-3)] obtain s2 where a: "list_add c t s1' = Inr s2" "tsys_ok s2" "sys_frame s1' s2" "raised s2 = raised s1'"
    "tview (tm s2) = tview (tm s1')" by blast
  have "tview (tm s1') = (tview (tm s))(t := (tview (tm s) t)\<lparr>t_cpu := c\<rparr>)"
    using l(5) c16 by (auto simp: s1'_def set_cpu_def tview_def fun_eq_iff)
  moreover have "sys_frame s s2" using sys_frame_trans l(3) f(4) a(3) by blast
  ultimately show ?thesis using l a f(5) by (simp add: s1'_def)
qed

lemma migrate_timer_ok:
  assumes s: "tsys_ok s" and t: "t_status (tm s t) \<noteq> TIMER_STATUS_invalid" and c: "c < length (tcpus s)"
  shows "\<exists>s'. migrate_timer t c s = Inr s' \<and> refines s (migrate_spec t c (tabs s)) s'"
proof (cases "t_cpu (tm s t) = c \<or> \<not> timer_lock t s")
  case True
  have "migrate_spec t c (tabs s) = tabs s"
  proof (cases "timer_lock t s")
    case l: True
    then show ?thesis using True unlocked_spec(1)[OF s t l] by (auto simp: migrate_spec_def)
  qed (use locked_fixed[OF s t] killed_specs in blast)
  then show ?thesis using True refines_refl[OF s] by (simp add: migrate_timer_def)
next
  case False
  then have l: "timer_lock t s" by simp
  from deactivate_if_active_ok[OF s t l] obtain s1 where
    d: "deactivate_if_active t s = Inr (active (t_status (tm s t)), s1)" "refines s (stop_spec t (tabs s)) s1" "changes t TIMER_STATUS_inactive s s1" by blast
  note D = changesD[OF d(3)]
  from move_idle_ok[OF D(1,6), of c] c D(3) obtain s2 s3 where m: "list_del t s1 = Inr s2" "list_add c t (set_cpu c t s2) = Inr s3" "tsys_ok s3"
    "sys_frame s1 s3" "raised s3 = raised s1" "tview (tm s3) = (tview (tm s1))(t := (tview (tm s1) t)\<lparr>t_cpu := c\<rparr>)" by auto
  have t3: "t_status (tm s3 t) = TIMER_STATUS_inactive" "t_cpu (tm s3 t) = c" "expires (tm s3 t) = expires (tm s t)"
    using arg_cong[OF fun_cong[OF m(6), of t], of t_status] arg_cong[OF fun_cong[OF m(6), of t], of t_cpu]
      arg_cong[OF fun_cong[OF m(6), of t], of expires] D(6,8) by (simp_all add: tview_def)
  have tb3: "tabs s3 = (tabs s1)(t := Idle c)"
    using tabs_cases(2)[OF t3(1)] t3(2) m(6) by (auto simp: tabs_def fun_eq_iff)
  have "refines s1 ((tabs s1)(t := Idle c)) s3" by (rule disarm_refines[OF m(3-5) tb3]) simp
  moreover have "tabs s1 = stop_spec t (tabs s)" using d(2) unfolding refines_def by blast
  then have "(tabs s1)(t := Idle c) = (tabs s)(t := Idle c)" by (simp add: stop_spec_def)
  ultimately have r3: "refines s ((tabs s)(t := Idle c)) s3" using refines_trans[OF d(2)] by metis
  show ?thesis
  proof (cases "active (t_status (tm s t))")
    case False
    have "migrate_timer t c s = Inr s3" using \<open>\<not> (_ \<or> _)\<close> d(1) m(1,2) False by (simp add: migrate_timer_def)
    moreover have "migrate_spec t c (tabs s) = (tabs s)(t := Idle c)"
      using unlocked_spec(1)[OF s t l] False by (simp add: migrate_spec_def)
    ultimately show ?thesis using r3 by simp
  next
    case a: True
    from activate_timer_ok[OF m(3) t3(1)] obtain s4 st where v: "activate_timer t s3 = Inr s4" "active st" "changes t st s3 s4"
      and q: "t_cpu (tm s3 t) \<in> set (raised s4) \<or>
       (\<exists>x. x \<noteq> t \<and> active (t_status (tm s3 x)) \<and> t_cpu (tm s3 x) = t_cpu (tm s3 t) \<and> expires (tm s3 x) \<le> expires (tm s3 t))" by blast
    have r4: "refines s3 ((tabs s3)(t := tabs s4 t)) s4" by (rule changes_refines[OF v(3) q])
    have "tabs s4 t = Armed c (expires (tm s t))" using tabs_cases(4)[of s4 t] changesD(6-8)[OF v(3)] v(2) t3 by simp
    then have "(tabs s3)(t := tabs s4 t) = migrate_spec t c (tabs s)"
      using unlocked_spec(1)[OF s t l] a r3 by (simp add: migrate_spec_def refines_def)
    then have "refines s (migrate_spec t c (tabs s)) s4" using refines_trans[OF r3 r4] by simp
    moreover have "migrate_timer t c s = Inr s4" using \<open>\<not> (_ \<or> _)\<close> d(1) m(1,2) a v(1) by (simp add: migrate_timer_def)
    ultimately show ?thesis by blast
  qed
qed

lemma kill_timer_ok:
  assumes s: "tsys_ok s" and t: "t_status (tm s t) \<noteq> TIMER_STATUS_invalid"
    and c: "this_cpu < length (tcpus s)" "tp_running (tcpus s ! this_cpu) \<noteq> Some t"
  shows "\<exists>s'. kill_timer this_cpu t s = Inr (timer_lock t s \<and> (\<exists>ts\<in>set (tcpus s). tp_running ts = Some t), s') \<and>
    refines s (kill_spec t (tabs s)) s'"
proof (cases "timer_lock t s")
  case False
  then show ?thesis
    using locked_fixed[OF s t False] refines_refl[OF s] c by (simp add: kill_timer_def killed_specs per_cpu_in)
next
  case True
  from deactivate_if_active_ok[OF s t True] obtain s1 where
    d: "deactivate_if_active t s = Inr (active (t_status (tm s t)), s1)" "refines s (stop_spec t (tabs s)) s1" "changes t TIMER_STATUS_inactive s s1" by blast
  note D = changesD[OF d(3)]
  from list_del_inactive_ok[OF D(1,6)] obtain s2 where l: "list_del t s1 = Inr s2" "detached t s2" "sys_frame s1 s2" "raised s2 = raised s1" "tm s2 = tm s1"
    by blast
  define r where "r = (tm s2 t)\<lparr>t_status := TIMER_STATUS_killed, t_cpu := TIMER_CPU_status_killed\<rparr>"
  define s3 where "s3 = s2\<lparr>tm := (tm s2)(t := r)\<rparr>"
  have e3: "set_cpu TIMER_CPU_status_killed t (s2\<lparr>tm := set_status TIMER_STATUS_killed t (tm s2)\<rparr>) = s3"
    by (simp add: s3_def r_def set_cpu_def set_status_def TIMER_CPU_status_killed_def)
  have i3: "tsys_ok (inval t s3)" using detached_upd[OF l(2)] by (simp add: s3_def detached_def)
  have "cpu_ok (tm s3) k (tcpus s3 ! k)" if "k < length (tcpus s3)" for k
  proof (rule cpu_ok_frame)
    show "cpu_ok (tm (inval t s3)) k (tcpus s3 ! k)" using tsys_okD(2)[OF i3, of k] that by (simp add: inval_def)
    have "k \<noteq> TIMER_CPU_status_killed" using tsys_okD(1)[OF i3] that by (simp add: inval_def)
    then show "tm s3 x = tm (inval t s3) x" if "owned (tm (inval t s3)) k x \<or> owned (tm s3) k x" for x
      using that by (auto simp: inval_def owned_def s3_def r_def set_status_def split: if_splits)
  qed
  moreover have "timer_ok (length (tcpus s3)) (tm s3 x)" for x
    using tsys_okD(3)[OF i3, of x] by (cases "x = t") (auto simp: inval_def s3_def r_def timer_ok_def set_status_def)
  ultimately have ok3: "tsys_ok s3" using tsys_okD(1)[OF i3] by (simp add: tsys_ok_def inval_def)
  have k3: "t_status (tm s3 t) = TIMER_STATUS_killed" by (simp add: s3_def r_def)
  have tb3: "tabs s3 = (tabs s1)(t := Killed)"
    using tabs_cases(3)[OF k3] l(5) by (auto simp: tabs_def tview_def fun_eq_iff s3_def)
  have fr: "sys_frame s1 s3" using l(3) by (simp add: s3_def sys_frame_def)
  have "raised s3 = raised s1" using l(4) by (simp add: s3_def)
  then have "refines s1 ((tabs s1)(t := Killed)) s3" by (rule disarm_refines[OF ok3 fr _ tb3]) simp
  moreover have "tabs s1 = stop_spec t (tabs s)" using d(2) unfolding refines_def by blast
  then have "(tabs s1)(t := Killed) = (tabs s)(t := Killed)" by (simp add: stop_spec_def)
  ultimately have r3: "refines s ((tabs s)(t := Killed)) s3" using refines_trans[OF d(2)] by metis
  have "kill_spec t (tabs s) = (tabs s)(t := Killed)" using unlocked_spec(1)[OF s t True] by (simp add: kill_spec_def)
  moreover have "(\<exists>ts\<in>set (tcpus s3). tp_running ts = Some t) = (\<exists>ts\<in>set (tcpus s). tp_running ts = Some t)"
  proof -
    have "map tp_running (tcpus s3) = map tp_running (tcpus s)" using r3 by (simp add: refines_def sys_frame_def)
    then have "tp_running ` set (tcpus s3) = tp_running ` set (tcpus s)" by (metis set_map)
    then show ?thesis by (metis (no_types, lifting) image_iff)
  qed
  ultimately show ?thesis using c True d(1) l(1) r3 by (auto simp: kill_timer_def per_cpu_in e3)
qed

lemma init_timer_ok:
  assumes s: "tsys_ok s" and t: "t_status (tm s t) = TIMER_STATUS_invalid \<or> t_status (tm s t) = TIMER_STATUS_killed"
    and c: "c < length (tcpus s)"
  shows "\<exists>s'. init_timer t fn data c s = Inr s' \<and> refines s ((tabs s)(t := Idle c)) s' \<and>
    t_function (tm s' t) = fn \<and> t_data (tm s' t) = data"
proof -
  have c16: "c mod 65536 = c" "c \<noteq> TIMER_CPU_status_killed" using c tsys_okD(1)[OF s] by (auto simp: TIMER_CPU_status_killed_def)
  define r where "r = \<lparr>expires = 0, t_pos = Pos_none, t_function = fn, t_data = data, t_cpu = c, t_status = TIMER_STATUS_inactive\<rparr>"
  have "detached t s"
  proof -
    have no: "\<not> owned (tm s) k t" for k using t by (auto simp: owned_def)
    have "cpu_ok (tm (inval t s)) k (tcpus s ! k)" if "k < length (tcpus s)" for k
      using no by (intro cpu_ok_frame[OF tsys_okD(2)[OF s that]]) (auto simp: inval_def owned_def set_status_def split: if_splits)
    moreover have "timer_ok (length (tcpus s)) (tm (inval t s) x)" for x
      using tsys_okD(3)[OF s, of x] by (cases "x = t") (auto simp: inval_def timer_ok_def set_status_def)
    ultimately show ?thesis using tsys_okD(1)[OF s] by (simp add: detached_def tsys_ok_def inval_def)
  qed
  then have d: "detached t (s\<lparr>tm := (tm s)(t := r)\<rparr>)" by (rule detached_upd)
  from list_add_ok[OF d, of c] c obtain s' where l: "list_add c t (s\<lparr>tm := (tm s)(t := r)\<rparr>) = Inr s'" "tsys_ok s'"
    "sys_frame s s'" "raised s' = raised s" "tview (tm s') = tview ((tm s)(t := r))" by (auto simp: r_def sys_frame_def)
  have e: "init_timer t fn data c s = Inr s'" using l(1) c16 by (simp add: init_timer_def timer_lock_def r_def)
  have tb: "tabs s' = (tabs s)(t := Idle c)" using l(5) by (auto simp: tabs_def fun_eq_iff tview_def abs_timer_def r_def)
  have tv: "tview (tm s') t = r" using l(5) by (simp add: tview_def r_def)
  have "t_function (tm s' t) = fn" "t_data (tm s' t) = data"
    using arg_cong[OF tv, of t_function] arg_cong[OF tv, of t_data] by (simp_all add: tview_def r_def)
  moreover have "refines s ((tabs s)(t := Idle c)) s'" by (rule disarm_refines[OF l(2-4) tb]) simp
  ultimately show ?thesis using e by blast
qed

section \<open>Sequences of operations\<close>

datatype timer_op = Op_set tid int | Op_stop tid | Op_migrate tid nat | Op_kill nat tid

definition run_timer_op :: "timer_op \<Rightarrow> tsys \<Rightarrow> tsys result" where
  "run_timer_op op s =
     (case op of
        Op_set t e \<Rightarrow> set_timer t e s
      | Op_stop t \<Rightarrow> stop_timer t s
      | Op_migrate t c \<Rightarrow> migrate_timer t c s
      | Op_kill this_cpu t \<Rightarrow> bindR (kill_timer this_cpu t s) (\<lambda>(_, s). Inr s))"

definition timer_op_spec :: "timer_op \<Rightarrow> (tid \<Rightarrow> atimer) \<Rightarrow> tid \<Rightarrow> atimer" where
  "timer_op_spec op =
     (case op of
        Op_set t e \<Rightarrow> set_spec t e
      | Op_stop t \<Rightarrow> stop_spec t
      | Op_migrate t c \<Rightarrow> migrate_spec t c
      | Op_kill _ t \<Rightarrow> kill_spec t)"

text \<open>The timer is initialised, the processors exist, and nobody kills a timer from its own callback.\<close>

definition timer_op_okay :: "timer_op \<Rightarrow> tsys \<Rightarrow> bool" where
  "timer_op_okay op s =
     (case op of
        Op_set t e \<Rightarrow> tabs s t \<noteq> Uninit
      | Op_stop t \<Rightarrow> tabs s t \<noteq> Uninit
      | Op_migrate t c \<Rightarrow> tabs s t \<noteq> Uninit \<and> c < length (tcpus s)
      | Op_kill this_cpu t \<Rightarrow> tabs s t \<noteq> Uninit \<and> this_cpu < length (tcpus s) \<and> tp_running (tcpus s ! this_cpu) \<noteq> Some t)"

definition timers_inv :: "tsys \<Rightarrow> bool" where
  "timers_inv s \<longleftrightarrow> tsys_ok s \<and> (\<forall>c<length (tcpus s). timely s c)"

lemma initialised: "tabs s t \<noteq> Uninit \<Longrightarrow> t_status (tm s t) \<noteq> TIMER_STATUS_invalid"
  using tabs_cases(1) by metis

lemma run_timer_op_ok:
  assumes "tsys_ok s" "timer_op_okay op s"
  shows "\<exists>s'. run_timer_op op s = Inr s' \<and> refines s (timer_op_spec op (tabs s)) s'"
proof (cases op)
  case (Op_set t e)
  then show ?thesis using set_timer_ok[OF assms(1) initialised] assms(2) by (simp add: run_timer_op_def timer_op_spec_def timer_op_okay_def)
next
  case (Op_stop t)
  then show ?thesis using stop_timer_ok[OF assms(1) initialised] assms(2) by (simp add: run_timer_op_def timer_op_spec_def timer_op_okay_def)
next
  case (Op_migrate t c)
  then show ?thesis using migrate_timer_ok[OF assms(1) initialised] assms(2) by (simp add: run_timer_op_def timer_op_spec_def timer_op_okay_def)
next
  case (Op_kill c t)
  then show ?thesis using kill_timer_ok[OF assms(1) initialised, of t c] assms(2) by (auto simp: run_timer_op_def timer_op_spec_def timer_op_okay_def)
qed

lemma spec_keeps_uninit: "timer_op_spec op A t = Uninit \<longleftrightarrow> A t = Uninit"
  by (cases op) (auto simp: timer_op_spec_def set_spec_def stop_spec_def migrate_spec_def kill_spec_def split: atimer.splits)

lemma refines_running: "refines s A s' \<Longrightarrow> c < length (tcpus s) \<Longrightarrow> tp_running (tcpus s' ! c) = tp_running (tcpus s ! c)"
  unfolding refines_def sys_frame_def by (metis length_map nth_map)

interpretation timer_ops: refined_system timers_inv timer_op_okay run_timer_op tabs timer_op_spec
proof
  fix s a assume a: "timers_inv s" "timer_op_okay a s"
  from run_timer_op_ok[of s a] a obtain s' where r: "run_timer_op a s = Inr s'" "refines s (timer_op_spec a (tabs s)) s'"
    by (auto simp: timers_inv_def)
  have l: "length (tcpus s') = length (tcpus s)" using r(2) sys_frame_len by (auto simp: refines_def)
  have "timers_inv s'" using r(2) a(1) unfolding timers_inv_def refines_def l by blast
  then show "\<exists>s'. run_timer_op a s = Inr s' \<and> timers_inv s'" using r(1) by blast
  fix s'' assume "run_timer_op a s = Inr s''"
  then have e: "s'' = s'" using r(1) by simp
  show "tabs s'' = timer_op_spec a (tabs s)" using r(2) e by (simp add: refines_def)
  fix b assume "timer_op_okay b s"
  moreover have "tabs s'' t = Uninit \<longleftrightarrow> tabs s t = Uninit" for t using r(2) e spec_keeps_uninit by (simp add: refines_def)
  ultimately show "timer_op_okay b s''"
    using l e refines_running[OF r(2)] by (auto simp: timer_op_okay_def split: timer_op.splits)
qed

end
