(* ===== verification/Timer_Softirq.thy ===== *)
theory Timer_Softirq
  imports Timer_Invariant
begin

text \<open>
  The timer softirq and the migration of the timers of a processor that goes away: both end, keep the
  invariant and lose no timer.
\<close>

section \<open>Growing the heap\<close>

lemma limit_grows:
  assumes "limit_ok n"
  shows "limit_ok (nat (int ((n + 1) * 16 - 1) mod 65536))" "n \<le> nat (int ((n + 1) * 16 - 1) mod 65536)"
    "nat (int ((n + 1) * 16 - 1) mod 65536) < (n + 1) * 16"
  using assms by (auto simp: limit_ok_def)

text \<open>The allocator returns arrays of the size asked for.\<close>

definition alloc_ok :: "tenv \<Rightarrow> bool" where
  "alloc_ok env \<longleftrightarrow> (\<forall>n a. alloc_heap env n = Some a \<longrightarrow> length a = n)"

lemma grow_heap_ok:
  assumes s: "tsys_ok s" and c: "c < length (tcpus s)" and a: "alloc_ok env"
  shows "\<exists>s'. grow_heap env c s = Inr s' \<and> tsys_ok s' \<and> sys_frame s s' \<and> tm s' = tm s \<and> raised s' = raised s"
proof -
  define ts where "ts = tcpus s ! c"
  define h where "h = tp_heap ts"
  have k: "cpu_ok (tm s) c ts" using tsys_okD(2)[OF s c] by (simp add: ts_def)
  note K = k[unfolded cpu_ok_def]
  have pc: "per_cpu s c = Inr ts" using c by (simp add: per_cpu_in ts_def)
  have W: "heap_wf (tm s) h" using K by (simp add: h_def)
  note W' = W[unfolded heap_wf_def]
  let ?n = "(heap_limit h + 1) * 16 - 1"
  consider "tp_list ts = [] \<or> alloc_heap env (?n + 1) = None" | x where "tp_list ts \<noteq> []" "alloc_heap env (?n + 1) = Some x" by fastforce
  then show ?thesis
  proof cases
    case 1
    then have "grow_heap env c s = Inr s" using pc by (auto simp: grow_heap_def Let_def h_def)
    then show ?thesis using s by simp
  next
    case (2 x)
    have lx: "length x = (heap_limit h + 1) * 16" using a 2(2) by (simp add: alloc_ok_def)
    define h' where "h' = SET_HEAP_LIMIT (int ?n) (h\<lparr>heap_slots := take (heap_limit h + 1) (heap_slots h) @ drop (heap_limit h + 1) x\<rparr>)"
    define s' where "s' = put_cpu c (ts\<lparr>tp_heap := h'\<rparr>) s"
    have e: "grow_heap env c s = Inr s'"
      using pc 2 W' lx by (simp add: grow_heap_def Let_def s'_def h'_def h_def[symmetric])
    have sl: "heap_slots h' ! i = heap_slots h ! i" if "i \<le> heap_size h" for i
      using that W' by (simp add: h'_def SET_HEAP_LIMIT_def nth_append)
    have z: "heap_size h' = heap_size h" "length (heap_slots h') = (heap_limit h + 1) * 16"
      using W' lx by (simp_all add: h'_def SET_HEAP_LIMIT_def)
    have g: "limit_ok (heap_limit h')" "heap_limit h \<le> heap_limit h'" "heap_limit h' < (heap_limit h + 1) * 16"
      using limit_grows[of "heap_limit h"] W' unfolding h'_def SET_HEAP_LIMIT_def by simp_all
    have d2: "i div 2 \<le> heap_size h" if "i \<le> heap_size h" for i using that by (meson div_le_dividend order_trans)
    have "offsets_ok (tm s) (heap_slots h') (heap_size h')" using W' sl z unfolding offsets_ok_def by simp
    moreover have "ordered (\<lambda>x. expires (tm s x)) (heap_slots h') (heap_size h')"
      using W' sl z d2 unfolding ordered_def by simp
    ultimately have w: "heap_wf (tm s) h'" using W' z g unfolding heap_wf_def by simp
    have "heap_ids h' = heap_ids h" using sl z unfolding heap_ids_def slot_ids_def by force
    then have "cpu_ok (tm s) c (ts\<lparr>tp_heap := h'\<rparr>)" using K w by (simp add: cpu_ok_def h_def)
    from tsys_ok_put[OF s c this] have "tsys_ok s'" using tsys_okD(3)[OF s] by (simp add: s'_def)
    moreover have "sys_frame s s'" unfolding s'_def by (rule sys_frame_put(2)[OF c]) (simp add: ts_def)
    ultimately show ?thesis using e by (simp add: s'_def)
  qed
qed

section \<open>Running the expired timers\<close>

definition expired :: "tenv \<Rightarrow> nat \<Rightarrow> tsys \<Rightarrow> tid set" where
  "expired env c s = {t. \<exists>e. tabs s t = Armed c e \<and> e < now env}"

text \<open>
  What the callbacks may do, and the other processors while a callback runs: keep the invariant and
  arm no timer of this processor at a time that is already over. \<open>callback_keeps\<close>: nobody disarms the
  timers that wait to be run.
\<close>

definition callback_ok :: "tenv \<Rightarrow> nat \<Rightarrow> bool" where
  "callback_ok env c \<longleftrightarrow>
     (\<forall>fn data s. tsys_ok s \<longrightarrow> c < length (tcpus s) \<longrightarrow>
        tsys_ok (callback env fn data s) \<and> length (tcpus (callback env fn data s)) = length (tcpus s) \<and>
        fired (callback env fn data s) c = fired s c \<and>
        (\<forall>t\<in>expired env c (callback env fn data s). tview (tm (callback env fn data s)) t = tview (tm s) t))"

definition callback_keeps :: "tenv \<Rightarrow> nat \<Rightarrow> bool" where
  "callback_keeps env c \<longleftrightarrow> (\<forall>fn data s. expired env c s \<subseteq> expired env c (callback env fn data s))"

lemma armed_iff:
  assumes s: "tsys_ok s" and c: "c < length (tcpus s)"
  shows "(\<exists>e. tabs s t = Armed c e) \<longleftrightarrow> t \<in> heap_ids (tp_heap (tcpus s ! c)) \<or> t \<in> set (tp_list (tcpus s ! c))"
    and "t \<in> heap_ids (tp_heap (tcpus s ! c)) \<or> t \<in> set (tp_list (tcpus s ! c)) \<Longrightarrow> tabs s t = Armed c (expires (tm s t))"
proof -
  note K = tsys_okD(2)[OF s c, unfolded cpu_ok_def]
  show r: "t \<in> heap_ids (tp_heap (tcpus s ! c)) \<or> t \<in> set (tp_list (tcpus s ! c)) \<Longrightarrow> tabs s t = Armed c (expires (tm s t))"
    using K tabs_cases(4)[of s t] by (auto simp: active_def)
  have "t \<in> heap_ids (tp_heap (tcpus s ! c)) \<or> t \<in> set (tp_list (tcpus s ! c))" if "tabs s t = Armed c e" for e
    using that K tabs_cases[of s t] by (cases rule: status_cases[of "tm s t"]) (auto simp: active_def)
  then show "(\<exists>e. tabs s t = Armed c e) \<longleftrightarrow> t \<in> heap_ids (tp_heap (tcpus s ! c)) \<or> t \<in> set (tp_list (tcpus s ! c))"
    using r by blast
qed

lemma expired_iff:
  assumes s: "tsys_ok s" and c: "c < length (tcpus s)"
  shows "expired env c s = {t \<in> heap_ids (tp_heap (tcpus s ! c)) \<union> set (tp_list (tcpus s ! c)). expires (tm s t) < now env}"
proof (rule set_eqI)
  fix x
  show "x \<in> expired env c s \<longleftrightarrow> x \<in> {t \<in> heap_ids (tp_heap (tcpus s ! c)) \<union> set (tp_list (tcpus s ! c)). expires (tm s t) < now env}"
    using armed_iff[OF s c, of x] by (auto simp: expired_def)
qed

lemma finite_expired: "tsys_ok s \<Longrightarrow> c < length (tcpus s) \<Longrightarrow> finite (expired env c s)"
  unfolding expired_iff heap_ids_def slot_ids_def by simp

text \<open>The progress of the two loops: what was run is a duplicate-free list of the expired timers.\<close>

definition progress :: "tenv \<Rightarrow> nat \<Rightarrow> tsys \<Rightarrow> tsys \<Rightarrow> bool" where
  "progress env c s0 s \<longleftrightarrow>
     tsys_ok s \<and> length (tcpus s) = length (tcpus s0) \<and>
     (\<exists>ts. fired s c = fired s0 c @ ts \<and> distinct ts \<and> set ts \<subseteq> expired env c s0 \<and>
        expired env c s \<subseteq> expired env c s0 - set ts \<and>
        (callback_keeps env c \<longrightarrow> expired env c s = expired env c s0 - set ts))"

lemma set_running_ok:
  assumes "tsys_ok s" "c < length (tcpus s)"
  shows "\<exists>s'. set_running c r s = Inr s' \<and> tsys_ok s' \<and> tm s' = tm s \<and> length (tcpus s') = length (tcpus s) \<and> fired s' = fired s \<and>
    (\<forall>k. tp_heap (tcpus s' ! k) = tp_heap (tcpus s ! k) \<and> tp_list (tcpus s' ! k) = tp_list (tcpus s ! k))"
proof -
  define ts where "ts = (tcpus s ! c)\<lparr>tp_running := r\<rparr>"
  have "cpu_ok (tm s) c ts" using tsys_okD(2)[OF assms] by (simp add: ts_def cpu_ok_def)
  from tsys_ok_put[OF assms this] have "tsys_ok (put_cpu c ts s)" using tsys_okD(3)[OF assms(1)] by simp
  then show ?thesis using assms(2) by (auto simp: set_running_def per_cpu_in ts_def nth_list_update)
qed

lemma tabs_cong: "tm s' = tm s \<Longrightarrow> tabs s' = tabs s" by (rule ext) (simp add: tabs_def)

lemma expired_cong: "tabs s' = tabs s \<Longrightarrow> expired env c s' = expired env c s" by (simp add: expired_def)

lemma execute_timer_ok:
  assumes d: "detached t s" and t: "t_cpu (tm s t) = c" and c: "c < length (tcpus s)" and cb: "callback_ok env c"
  shows "\<exists>s'. execute_timer env c t s = Inr s' \<and> tsys_ok s' \<and> length (tcpus s') = length (tcpus s) \<and>
    fired s' c = fired s c @ [t] \<and>
    (\<forall>x\<in>expired env c s'. tview (tm s') x = tview (set_status TIMER_STATUS_inactive t (tm s)) x) \<and>
    (callback_keeps env c \<longrightarrow> expired env c s - {t} \<subseteq> expired env c s')"
proof -
  define s1 where "s1 = s\<lparr>tm := set_status TIMER_STATUS_inactive t (tm s)\<rparr>"
  have "detached t s1" using detached_upd[OF d] by (simp add: s1_def set_status_def)
  from list_add_ok[OF this, of c] t c obtain s2 where l: "list_add c t s1 = Inr s2" "tsys_ok s2" "sys_frame s1 s2" "tview (tm s2) = tview (tm s1)"
    by (auto simp: s1_def)
  have c2: "c < length (tcpus s2)" "length (tcpus s2) = length (tcpus s)" using c sys_frame_len[OF l(3)] by (simp_all add: s1_def)
  from set_running_ok[OF l(2) c2(1), of "Some t"] obtain s3 where r: "set_running c (Some t) s2 = Inr s3" "tsys_ok s3" "tm s3 = tm s2"
    "length (tcpus s3) = length (tcpus s2)" "fired s3 = fired s2" by blast
  define s4 where "s4 = s3\<lparr>fired := (fired s3)(c := fired s3 c @ [t])\<rparr>"
  have s4: "tsys_ok s4" "tm s4 = tm s3" "tcpus s4 = tcpus s3" using r(2) by (simp_all add: s4_def tsys_ok_def)
  define s5 where "s5 = callback env (t_function (tm s t)) (t_data (tm s t)) s4"
  have c4: "c < length (tcpus s4)" using c2 r(4) s4(3) by simp
  have s5: "tsys_ok s5" "length (tcpus s5) = length (tcpus s4)" "fired s5 c = fired s4 c"
    "\<And>x. x \<in> expired env c s5 \<Longrightarrow> tview (tm s5) x = tview (tm s4) x"
    using cb s4(1) c4 unfolding callback_ok_def s5_def by blast+
  have c5: "c < length (tcpus s5)" using s5(2) c4 by simp
  from set_running_ok[OF s5(1) c5, of None] obtain s6 where n: "set_running c None s5 = Inr s6" "tsys_ok s6" "tm s6 = tm s5"
    "length (tcpus s6) = length (tcpus s5)" "fired s6 = fired s5" by blast
  have e: "execute_timer env c t s = Inr s6"
    using l(1) r(1) n(1) by (simp add: execute_timer_def Let_def s1_def s4_def s5_def)
  have ex: "expired env c s6 = expired env c s5" using expired_cong[OF tabs_cong[OF n(3)]] .
  have v: "tview (tm s4) = tview (set_status TIMER_STATUS_inactive t (tm s))" using s4(2) r(3) l(4) by (simp add: s1_def)
  have "fired s6 c = fired s c @ [t]" using n(5) s5(3) r(5) l(3) by (simp add: s4_def sys_frame_def s1_def)
  moreover have "expired env c s - {t} \<subseteq> expired env c s6" if k: "callback_keeps env c"
  proof -
    have "expired env c s - {t} \<subseteq> expired env c s4"
      using v by (auto simp: expired_def tabs_def)
    then show ?thesis using k ex unfolding callback_keeps_def s5_def by blast
  qed
  moreover have "\<forall>x\<in>expired env c s6. tview (tm s6) x = tview (set_status TIMER_STATUS_inactive t (tm s)) x"
    using s5(4) v ex n(3) by simp
  ultimately show ?thesis using e n(2,4) s5(2) s4(3) r(4) c2(2) by simp
qed

lemma progress_step:
  assumes p: "progress env c s0 s" and t: "t \<in> expired env c s" and c: "c < length (tcpus s0)" and cb: "callback_ok env c"
    and s1: "detached t s1" "tview (tm s1) = tview (tm s)" "length (tcpus s1) = length (tcpus s)" "fired s1 = fired s"
  shows "\<exists>s'. execute_timer env c t s1 = Inr s' \<and> progress env c s0 s' \<and> card (expired env c s') < card (expired env c s) \<and>
    (\<forall>x\<in>expired env c s'. tview (tm s') x = tview (tm s) x)"
proof -
  from p obtain ts where P: "tsys_ok s" "length (tcpus s) = length (tcpus s0)" "fired s c = fired s0 c @ ts" "distinct ts"
    "set ts \<subseteq> expired env c s0" "expired env c s \<subseteq> expired env c s0 - set ts"
    "callback_keeps env c \<Longrightarrow> expired env c s = expired env c s0 - set ts" unfolding progress_def by blast
  have tc: "t_cpu (tm s1 t) = c"
  proof -
    have "t_cpu (tm s t) = c" using t tabs_cases[of s t] by (cases rule: status_cases[of "tm s t"]) (auto simp: expired_def)
    then show ?thesis using tview_eq_fields[OF fun_cong[OF s1(2), of t]] by simp
  qed
  have c1: "c < length (tcpus s1)" using c s1(3) P(2) by simp
  from execute_timer_ok[OF s1(1) tc c1 cb] obtain s' where e: "execute_timer env c t s1 = Inr s'" "tsys_ok s'"
    "length (tcpus s') = length (tcpus s1)" "fired s' c = fired s1 c @ [t]"
    "\<And>x. x \<in> expired env c s' \<Longrightarrow> tview (tm s') x = tview (set_status TIMER_STATUS_inactive t (tm s1)) x"
    "callback_keeps env c \<Longrightarrow> expired env c s1 - {t} \<subseteq> expired env c s'" by blast
  have ex1: "expired env c s1 = expired env c s" by (rule expired_cong) (simp add: tabs_def fun_eq_iff s1(2))
  have sv: "x \<in> expired env c s - {t} \<and> tview (tm s') x = tview (tm s) x" if x: "x \<in> expired env c s'" for x
  proof -
    from e(5)[OF x] have v: "tview (tm s') x = tview (set_status TIMER_STATUS_inactive t (tm s1)) x" .
    have "x \<noteq> t"
    proof
      assume "x = t"
      then have "t_status (tm s' t) = TIMER_STATUS_inactive" using v tview_fields(5)[where m' = "tm s'" and x = t and m = "tm s1"] by simp
      then show False using x \<open>x = t\<close> tabs_cases(2)[of s' t] by (simp add: expired_def)
    qed
    then have "tabs s' x = tabs s x" "tview (tm s') x = tview (tm s) x" using v s1(2) by (simp_all add: tabs_def)
    then show ?thesis using x \<open>x \<noteq> t\<close> by (simp add: expired_def)
  qed
  then have sub: "expired env c s' \<subseteq> expired env c s - {t}" by blast
  have "card (expired env c s') < card (expired env c s)"
    using sub t finite_expired[OF P(1), of c env] c P(2) by (intro psubset_card_mono) auto
  moreover have "progress env c s0 s'"
    unfolding progress_def
  proof (intro conjI exI[of _ "ts @ [t]"])
    show "fired s' c = fired s0 c @ (ts @ [t])" using e(4) s1(4) P(3) by simp
    show "distinct (ts @ [t])" "set (ts @ [t]) \<subseteq> expired env c s0" using P(4-6) t by auto
    show "expired env c s' \<subseteq> expired env c s0 - set (ts @ [t])" using sub P(6) by auto
    show "callback_keeps env c \<longrightarrow> expired env c s' = expired env c s0 - set (ts @ [t])"
      using sub P(7) e(6) ex1 by auto
  qed (use e s1(3) P(2) in simp_all)
  ultimately show ?thesis using e(1) sv by blast
qed


lemma heap_step_ok:
  assumes p: "progress env c s0 s" and c: "c < length (tcpus s0)" and cb: "callback_ok env c"
  shows "heap_step env c s = Inr None \<and> (\<forall>x\<in>expired env c s. t_status (tm s x) \<noteq> TIMER_STATUS_in_heap) \<or>
    (\<exists>s'. heap_step env c s = Inr (Some s') \<and> progress env c s0 s' \<and> card (expired env c s') < card (expired env c s))"
proof -
  have s: "tsys_ok s" "c < length (tcpus s)" using p c by (auto simp: progress_def)
  define ts where "ts = tcpus s ! c"
  note K = tsys_okD(2)[OF s, folded ts_def, unfolded cpu_ok_def]
  have pc: "per_cpu s c = Inr ts" using s(2) by (simp add: per_cpu_in ts_def)
  note ei = expired_iff[OF s, of env, folded ts_def]
  have st: "t_status (tm s x) = TIMER_STATUS_in_heap \<Longrightarrow> x \<in> expired env c s \<Longrightarrow> x \<in> heap_ids (tp_heap ts) \<and> expires (tm s x) < now env" for x
    using K ei by auto
  show ?thesis
  proof (cases "heap_size (tp_heap ts) = 0")
    case True
    then have "heap_ids (tp_heap ts) = {}" by (simp add: heap_ids_def slot_ids_def)
    then show ?thesis using True pc st by (auto simp: heap_step_def)
  next
    case False
    define t where "t = heap_slots (tp_heap ts) ! 1"
    have f: "heap_first (tp_heap ts) = Some t" using False by (simp add: heap_first_def t_def)
    have t: "t \<in> heap_ids (tp_heap ts)" "\<And>x. x \<in> heap_ids (tp_heap ts) \<Longrightarrow> expires (tm s t) \<le> expires (tm s x)"
      using heap_container.first_law[OF _ f, of "tm s"] K by auto
    have g: "heap_get (tp_heap ts) 1 = Inr t"
      using K False unfolding heap_wf_def heap_get_def t_def by (simp add: arr_get_def)
    show ?thesis
    proof (cases "expires (tm s t) < now env")
      case False
      then have "\<forall>x\<in>expired env c s. t_status (tm s x) \<noteq> TIMER_STATUS_in_heap" using st t(2) by fastforce
      then show ?thesis using \<open>heap_size _ \<noteq> 0\<close> pc g False by (simp add: heap_step_def)
    next
      case True
      have ts: "t_status (tm s t) = TIMER_STATUS_in_heap" "t_cpu (tm s t) = c" using K t(1) by auto
      from remove_entry_ok[OF s(1), of t] ts obtain rc s1 where r: "remove_entry t s = Inr (rc, s1)" "tsys_ok s1" by (auto simp: active_def)
      obtain h m where rh: "remove_from_heap (tp_heap ts) t (tm s) = Inr (True, h, m)" and mv: "moved (heap_ids (tp_heap ts) - {t}) (tm s) m"
        using heap_container.remove_law[of "tm s" "tp_heap ts" t] K t(1) f by auto
      define s2 where "s2 = put_cpu c (ts\<lparr>tp_heap := h\<rparr>) (s\<lparr>tm := m\<rparr>)"
      have "inval t s2 = put_cpu c (ts\<lparr>tp_heap := h\<rparr>) (s\<lparr>tm := set_status TIMER_STATUS_invalid t m\<rparr>)"
        by (rule tsys.equality) (simp_all add: s2_def inval_def)
      then have "inval t s2 = s1" using r(1) rh ts pc by (simp add: remove_entry_def)
      then have d: "detached t s2" using r(2) by (simp add: detached_def)
      have x: "t \<in> expired env c s" using ei t(1) True by auto
      have v: "tview (tm s2) = tview (tm s)" using moved_fields(3)[OF mv] by (simp add: s2_def fun_eq_iff)
      from progress_step[OF p x c cb d v] obtain s' where "execute_timer env c t s2 = Inr s'" "progress env c s0 s'"
        "card (expired env c s') < card (expired env c s)" by (auto simp: s2_def)
      then show ?thesis using False pc g True rh by (auto simp: heap_step_def s2_def)
    qed
  qed
qed

lemma list_step_ok:
  assumes p: "progress env c s0 s" "\<forall>x\<in>expired env c s. t_status (tm s x) \<noteq> TIMER_STATUS_in_heap"
    and c: "c < length (tcpus s0)" and cb: "callback_ok env c"
  shows "list_step env c s = Inr None \<and> expired env c s = {} \<or>
    (\<exists>s'. list_step env c s = Inr (Some s') \<and>
      (progress env c s0 s' \<and> (\<forall>x\<in>expired env c s'. t_status (tm s' x) \<noteq> TIMER_STATUS_in_heap)) \<and>
      card (expired env c s') < card (expired env c s))"
proof -
  have s: "tsys_ok s" "c < length (tcpus s)" using p c by (auto simp: progress_def)
  define ts where "ts = tcpus s ! c"
  note K = tsys_okD(2)[OF s, folded ts_def, unfolded cpu_ok_def]
  have pc: "per_cpu s c = Inr ts" using s(2) by (simp add: per_cpu_in ts_def)
  note ei = expired_iff[OF s, of env, folded ts_def]
  have hs: "t_status (tm s x) = TIMER_STATUS_in_heap" if "x \<in> heap_ids (tp_heap ts)" for x using K that by blast
  have el: "x \<in> set (tp_list ts) \<and> expires (tm s x) < now env" if "x \<in> expired env c s" for x
    using that p(2) hs[of x] ei by blast
  show ?thesis
  proof (cases "tp_list ts")
    case Nil
    then show ?thesis using pc el by (auto simp: list_step_def)
  next
    case (Cons t q)
    have t: "t \<in> set (tp_list ts)" "\<And>x. x \<in> set (tp_list ts) \<Longrightarrow> expires (tm s t) \<le> expires (tm s x)"
      using list_container.first_law[of "tm s" "tp_list ts" t] K Cons by (auto simp: list_first_def)
    have ps: "t_pos (tm s t) = List_next" using K t(1) by (auto simp: list_wf_def)
    show ?thesis
    proof (cases "expires (tm s t) < now env")
      case False
      then show ?thesis using pc Cons el t(2) by (fastforce simp: list_step_def)
    next
      case True
      have st: "t_status (tm s t) = TIMER_STATUS_in_list" "t_cpu (tm s t) = c" using K t(1) by auto
      from remove_entry_ok[OF s(1), of t] st obtain rc s1 where r: "remove_entry t s = Inr (rc, s1)" "tsys_ok s1" by (auto simp: active_def)
      define s2 where "s2 = put_cpu c (ts\<lparr>tp_list := q\<rparr>) s"
      have "inval t s2 = put_cpu c (ts\<lparr>tp_list := q\<rparr>) (s\<lparr>tm := set_status TIMER_STATUS_invalid t (tm s)\<rparr>)"
        by (rule tsys.equality) (simp_all add: s2_def inval_def)
      then have "inval t s2 = s1" using r(1) st pc ps Cons by (simp add: remove_entry_def remove_list_entry_def)
      then have d: "detached t s2" using r(2) by (simp add: detached_def)
      have x: "t \<in> expired env c s" using ei t(1) True by auto
      from progress_step[OF p(1) x c cb d] obtain s' where e: "execute_timer env c t s2 = Inr s'" "progress env c s0 s'"
        "card (expired env c s') < card (expired env c s)" and v: "\<forall>x\<in>expired env c s'. tview (tm s') x = tview (tm s) x"
        by (auto simp: s2_def)
      have "t_status (tm s' x) \<noteq> TIMER_STATUS_in_heap" if "x \<in> expired env c s'" for x
      proof -
        have vx: "tview (tm s') x = tview (tm s) x" using v that by blast
        then have "x \<in> expired env c s" using that by (simp add: expired_def tabs_def)
        then show ?thesis using p(2) tview_eq_fields[OF vx] by simp
      qed
      then show ?thesis using e pc Cons True ps by (auto simp: list_step_def s2_def)
    qed
  qed
qed

section \<open>Moving timers from the list to the heap\<close>

text \<open>The containers do not look at the status of timers: adding commutes with changing it.\<close>

definition restat :: "(tid \<Rightarrow> timer_status) \<Rightarrow> tmem \<Rightarrow> tmem" where
  "restat g m = (\<lambda>x. (m x)\<lparr>t_status := g x\<rparr>)"

lemma restat_simps [simp]:
  "expires (restat g m x) = expires (m x)" "t_pos (restat g m x) = t_pos (m x)" "t_cpu (restat g m x) = t_cpu (m x)"
  "t_status (restat g m x) = g x" "set_offset p t (restat g m) = restat g (set_offset p t m)"
  "(restat g m)(t := (restat g m t)\<lparr>t_pos := u\<rparr>) = restat g (m(t := (m t)\<lparr>t_pos := u\<rparr>))"
  by (auto simp: restat_def set_offset_def fun_eq_iff)

lemma restat_same: "(\<And>x. g x = t_status (m x)) \<Longrightarrow> restat g m = m"
  by (simp add: restat_def)

lemma up_loop_restat:
  "up_loop t p h (restat g m) = bindR (up_loop t p h m) (\<lambda>(p, h, m). Inr (p, h, restat g m))"
proof (induction t p h m rule: up_loop.induct)
  case (1 t p h m)
  show ?case
  proof (cases "1 < p")
    case True
    show ?thesis
    proof (cases "heap_get h (p div 2)")
      case (Inr x)
      show ?thesis
      proof (cases "expires (m t) < expires (m x)")
        case lt: True
        show ?thesis
        proof (cases "heap_put h p x")
          case h': (Inr h')
          have "up_loop t (p div 2) h' (restat g (set_offset p x m)) =
            bindR (up_loop t (p div 2) h' (set_offset p x m)) (\<lambda>(p, h, m). Inr (p, h, restat g m))"
            by (rule "1.IH"[OF True Inr lt h'])
          then show ?thesis using True Inr lt h' by (simp add: up_loop.simps[of t p])
        qed (use True Inr lt in \<open>simp add: up_loop.simps[of t p]\<close>)
      qed (use True Inr in \<open>simp add: up_loop.simps[of t p]\<close>)
    qed (use True in \<open>simp add: up_loop.simps[of t p]\<close>)
  qed (simp add: up_loop.simps[of t p])
qed

lemma add_to_heap_restat:
  "add_to_heap h t (restat g m) = bindR (add_to_heap h t m) (\<lambda>(b, h, m). Inr (b, h, restat g m))"
  by (simp add: add_to_heap_def Let_def up_heap_def up_loop_restat bindR_assoc split_beta)

lemma insert_in_list_restat: "insert_in_list q t (restat g m) = insert_in_list q t m"
  by (induction q) simp_all

lemma add_to_list_restat:
  "add_to_list q t (restat g m) = bindR (add_to_list q t m) (\<lambda>(b, q, m). Inr (b, q, restat g m))"
  by (cases "insert_in_list q t m") (auto simp: add_to_list_def insert_in_list_restat)

lemma add_keeps_status:
  "add_to_heap h t m = Inr (b, h', m') \<Longrightarrow> t_status (m' x) = t_status (m x)"
  "add_to_list q t m = Inr (b, q', m') \<Longrightarrow> t_status (m' x) = t_status (m x)"
proof -
  have m: "restat (\<lambda>x. t_status (m x)) m = m" by (rule restat_same) simp
  show "add_to_heap h t m = Inr (b, h', m') \<Longrightarrow> t_status (m' x) = t_status (m x)"
    using add_to_heap_restat[of h t "\<lambda>x. t_status (m x)" m] m by (simp add: fun_eq_iff restat_def)
      (metis timer.select_convs(6) timer.surjective timer.update_convs(6))
  show "add_to_list q t m = Inr (b, q', m') \<Longrightarrow> t_status (m' x) = t_status (m x)"
    using add_to_list_restat[of q t "\<lambda>x. t_status (m x)" m] m by (simp add: fun_eq_iff restat_def)
      (metis timer.select_convs(6) timer.surjective timer.update_convs(6))
qed

lemma put_cpu_tm: "(put_cpu c ts s)\<lparr>tm := m\<rparr> = put_cpu c ts (s\<lparr>tm := m\<rparr>)"
  by (rule tsys.equality) simp_all

lemma add_entry_restat:
  assumes "g t = t_status (tm s t)"
  shows "add_entry t (s\<lparr>tm := restat g (tm s)\<rparr>) =
    bindR (add_entry t s) (\<lambda>(rc, s'). Inr (rc, s'\<lparr>tm := restat (g(t := t_status (tm s' t))) (tm s')\<rparr>))"
proof -
  have m0: "set_status TIMER_STATUS_in_heap t (set_pos (Heap_offset 0) t (restat g (tm s))) =
      restat (g(t := TIMER_STATUS_in_heap)) (set_status TIMER_STATUS_in_heap t (set_pos (Heap_offset 0) t (tm s)))"
    by (auto simp: set_status_def set_pos_def restat_def fun_eq_iff)
  have m1: "set_status TIMER_STATUS_in_list t (restat (g(t := st)) m) = restat (g(t := TIMER_STATUS_in_list)) (set_status TIMER_STATUS_in_list t m)" for m st
    by (auto simp: set_status_def restat_def fun_eq_iff)
  have pc: "per_cpu (s\<lparr>tm := m\<rparr>) c = per_cpu s c" for m c by (simp add: per_cpu_def)
  show ?thesis
  proof (cases "t_status (tm s t) = TIMER_STATUS_invalid \<and> (\<exists>ts. per_cpu s (t_cpu (tm s t)) = Inr ts)")
    case False
    then show ?thesis using assms by (cases "per_cpu s (t_cpu (tm s t))") (auto simp: add_entry_def pc Let_def)
  next
    case True
    then obtain ts where ts: "per_cpu s (t_cpu (tm s t)) = Inr ts" "t_status (tm s t) = TIMER_STATUS_invalid" by blast
    let ?m0 = "set_status TIMER_STATUS_in_heap t (set_pos (Heap_offset 0) t (tm s))"
    note simps = add_entry_def Let_def pc m0 m1 add_to_heap_restat add_to_list_restat put_cpu_tm
    show ?thesis
    proof (cases "add_to_heap (tp_heap ts) t ?m0")
      case (Inl e)
      then show ?thesis using ts assms by (simp add: simps)
    next
      case h: (Inr r)
      obtain b h' m' where r: "r = (b, h', m')" by (cases r)
      have st: "t_status (m' t) = TIMER_STATUS_in_heap" using add_keeps_status(1) h r by fastforce
      show ?thesis
      proof (cases "t_pos (m' t) = Heap_offset 0")
        case False
        then show ?thesis using ts assms h r st by (simp add: simps)
      next
        case z: True
        show ?thesis
        proof (cases "add_to_list (tp_list ts) t (set_status TIMER_STATUS_in_list t m')")
          case (Inl e)
          then show ?thesis using ts assms h r z by (simp add: simps)
        next
          case l: (Inr r')
          obtain b' q' m'' where r': "r' = (b', q', m'')" by (cases r')
          have "t_status (m'' t) = TIMER_STATUS_in_list" using add_keeps_status(2) l r' by fastforce
          then show ?thesis using ts assms h r z l r' by (simp add: simps)
        qed
      qed
    qed
  qed
qed

text \<open>The state in which the timers still to be moved are in no container.\<close>

definition inval_all :: "tid set \<Rightarrow> tsys \<Rightarrow> tsys" where
  "inval_all X s = s\<lparr>tm := restat (\<lambda>x. if x \<in> X then TIMER_STATUS_invalid else t_status (tm s x)) (tm s)\<rparr>"

lemma inval_all_empty: "inval_all {} s = s"
proof -
  have "restat (\<lambda>x. if x \<in> {} then TIMER_STATUS_invalid else t_status (tm s x)) (tm s) = tm s" by (rule restat_same) simp
  then show ?thesis unfolding inval_all_def by simp
qed

lemma tview_from_restat:
  assumes "tview (restat g m') x = tview (restat g' m) x"
  shows "tview m' x = (tview m x)\<lparr>t_status := t_status (m' x)\<rparr>"
proof -
  note a = arg_cong[OF assms]
  show ?thesis
    using a[of expires] a[of t_function] a[of t_data] a[of t_cpu] by (intro timer.equality) (simp_all add: tview_def restat_def)
qed

lemma requeue_ok:
  assumes t: "t \<notin> X" and s: "tsys_ok (inval_all (insert t X) s)" and c: "t_cpu (tm s t) < length (tcpus s)"
    and X: "\<And>x. x \<in> insert t X \<Longrightarrow> t_status (tm s x) = TIMER_STATUS_in_list \<and> t_pos (tm s x) = List_next"
  shows "\<exists>s' st. requeue t s = Inr s' \<and> active st \<and> tsys_ok (inval_all X s') \<and> sys_frame s s' \<and> raised s' = raised s \<and>
    tview (tm s') = (tview (tm s))(t := (tview (tm s) t)\<lparr>t_status := st\<rparr>) \<and> (\<forall>x\<in>X. t_pos (tm s' x) = List_next)"
proof -
  define s1 where "s1 = s\<lparr>tm := set_status TIMER_STATUS_invalid t (tm s)\<rparr>"
  define g where "g = (\<lambda>x. if x \<in> X then TIMER_STATUS_invalid else t_status (tm s1 x))"
  define A where "A = s1\<lparr>tm := restat g (tm s1)\<rparr>"
  have A: "A = inval_all (insert t X) s"
    unfolding A_def inval_all_def g_def s1_def using t
    by (intro tsys.equality) (auto simp: restat_def set_status_def fun_eq_iff)
  have gt: "g t = t_status (tm s1 t)" using t by (simp add: g_def)
  have A2: "tsys_ok A" "t_status (tm A t) = TIMER_STATUS_invalid" "t_cpu (tm A t) < length (tcpus A)" "tcpus A = tcpus s"
    using s[folded A] t c by (simp, simp_all add: A_def g_def s1_def)
  from add_entry_ok[OF A2(1-3)] obtain rc A' st where a: "add_entry t A = Inr (rc, A')" "tsys_ok A'" "sys_frame A A'" "raised A' = raised A"
    "active st" "tview (tm A') = (tview (tm A))(t := (tview (tm A) t)\<lparr>t_status := st\<rparr>)"
    and ap: "\<And>x. x \<noteq> t \<Longrightarrow> \<not> active (t_status (tm A x)) \<Longrightarrow> tm A' x = tm A x" by blast
  from a(1) add_entry_restat[where g = g and t = t and s = s1, OF gt] obtain s2 where e: "add_entry t s1 = Inr (rc, s2)"
    and A': "A' = s2\<lparr>tm := restat (g(t := t_status (tm s2 t))) (tm s2)\<rparr>"
    unfolding A_def[symmetric] by (cases "add_entry t s1") auto
  have r: "requeue t s = Inr s2" using e X by (simp add: requeue_def s1_def)
  have pos: "t_pos (tm s2 x) = List_next" if "x \<in> X" for x
  proof -
    have "x \<noteq> t" "\<not> active (t_status (tm A x))" using that t by (auto simp: A_def g_def active_def)
    from ap[OF this] have "t_pos (tm A' x) = t_pos (tm A x)" by simp
    then show ?thesis using that X by (simp add: A' A_def s1_def)
  qed
  have st2: "t_status (tm s2 x) = t_status (tm s x)" if "x \<noteq> t" for x
  proof -
    define g' where "g' = (\<lambda>x. t_status (tm s1 x))"
    have "restat g' (tm s1) = tm s1" by (rule restat_same) (simp add: g'_def)
    then have "s1\<lparr>tm := restat g' (tm s1)\<rparr> = s1" by simp
    with add_entry_restat[where g = g' and t = t and s = s1] e have "s2 = s2\<lparr>tm := restat (g'(t := t_status (tm s2 t))) (tm s2)\<rparr>" by (simp add: g'_def)
    from arg_cong[OF this, of "\<lambda>s. t_status (tm s x)"] show ?thesis using that by (simp add: g'_def s1_def)
  qed
  have "A' = inval_all X s2"
    unfolding A' inval_all_def using st2 t
    by (intro tsys.equality) (auto simp: restat_def fun_eq_iff g_def s1_def)
  moreover have v: "tview (tm s2) = (tview (tm s))(t := (tview (tm s) t)\<lparr>t_status := st\<rparr>)"
  proof
    fix x
    show "tview (tm s2) x = ((tview (tm s))(t := (tview (tm s) t)\<lparr>t_status := st\<rparr>)) x"
    proof (cases "x = t")
      case True
      have f: "tview (tm A') t = (tview (tm A) t)\<lparr>t_status := st\<rparr>" using a(6) by simp
      have "tview (restat (g(t := t_status (tm s2 t))) (tm s2)) t = tview (restat (g(t := st)) (tm s1)) t"
        using f by (simp add: A' A_def tview_def restat_def)
      from tview_from_restat[OF this] have "tview (tm s2) t = (tview (tm s1) t)\<lparr>t_status := t_status (tm s2 t)\<rparr>" .
      moreover have "t_status (tm s2 t) = st" using tview_fields(5)[OF f] by (simp add: A')
      ultimately show ?thesis using True by (simp add: s1_def)
    next
      case False
      then have "tview (restat (g(t := t_status (tm s2 t))) (tm s2)) x = tview (restat g (tm s1)) x"
        using fun_cong[OF a(6), of x] by (simp add: A' A_def)
      from tview_from_restat[OF this] show ?thesis using False st2[OF False] by (simp add: s1_def tview_def)
    qed
  qed
  moreover have "sys_frame s s2" "raised s2 = raised s" using a(3,4) by (simp_all add: sys_frame_def A' A_def s1_def)
  ultimately show ?thesis using r a(2,5) pos by metis
qed

lemma requeue_loop_ok:
  assumes "distinct q" "tsys_ok (inval_all (set q) s)"
    and "\<And>x. x \<in> set q \<Longrightarrow> t_status (tm s x) = TIMER_STATUS_in_list \<and> t_pos (tm s x) = List_next \<and> t_cpu (tm s x) < length (tcpus s)"
  shows "\<exists>s'. for_loop requeue q s = Inr s' \<and> tsys_ok s' \<and> sys_frame s s' \<and> raised s' = raised s \<and> tabs s' = tabs s"
  using assms
proof (induction q arbitrary: s)
  case Nil
  then show ?case by (simp add: inval_all_empty)
next
  case (Cons t q)
  have "\<exists>s' st. requeue t s = Inr s' \<and> active st \<and> tsys_ok (inval_all (set q) s') \<and> sys_frame s s' \<and> raised s' = raised s \<and>
    tview (tm s') = (tview (tm s))(t := (tview (tm s) t)\<lparr>t_status := st\<rparr>) \<and> (\<forall>x\<in>set q. t_pos (tm s' x) = List_next)"
    using Cons.prems by (intro requeue_ok) auto
  then obtain s1 st where r: "requeue t s = Inr s1" "active st" "tsys_ok (inval_all (set q) s1)" "sys_frame s s1" "raised s1 = raised s"
    and v: "tview (tm s1) = (tview (tm s))(t := (tview (tm s) t)\<lparr>t_status := st\<rparr>)" and p: "\<forall>x\<in>set q. t_pos (tm s1 x) = List_next" by blast
  have x1: "t_status (tm s1 x) = TIMER_STATUS_in_list \<and> t_pos (tm s1 x) = List_next \<and> t_cpu (tm s1 x) < length (tcpus s1)" if "x \<in> set q" for x
  proof -
    have "x \<noteq> t" using that Cons.prems(1) by auto
    then have "tview (tm s1) x = tview (tm s) x" using v by simp
    from tview_eq_fields[OF this] show ?thesis using Cons.prems(3)[of x] that p sys_frame_len[OF r(4)] by simp
  qed
  from Cons.IH[OF _ r(3) x1] Cons.prems(1) obtain s' where s': "for_loop requeue q s1 = Inr s'" "tsys_ok s'" "sys_frame s1 s'" "raised s' = raised s1" "tabs s' = tabs s1"
    by auto
  have "tabs s1 = tabs s"
  proof
    fix x
    show "tabs s1 x = tabs s x"
    proof (cases "x = t")
      case True
      have "active (t_status (tm s t))" using Cons.prems(3)[of t] by (simp add: active_def)
      then show ?thesis
        using True tabs_cases(4)[of s t] tabs_cases(4)[of s1 t] r(2) tview_fields[where m' = "tm s1" and x = t and m = "tm s" and st = st] v by simp
    qed (simp add: tabs_def v)
  qed
  then show ?case using r s' sys_frame_trans by auto
qed

lemma refill_heap_ok:
  assumes s: "tsys_ok s" and c: "c < length (tcpus s)"
  shows "\<exists>s'. refill_heap c s = Inr s' \<and> tsys_ok s' \<and> sys_frame s s' \<and> raised s' = raised s \<and> tabs s' = tabs s"
proof -
  define ts where "ts = tcpus s ! c"
  define q where "q = tp_list ts"
  define s0 where "s0 = put_cpu c (ts\<lparr>tp_list := []\<rparr>) s"
  note K = tsys_okD(2)[OF s c, folded ts_def, unfolded cpu_ok_def]
  define m where "m = restat (\<lambda>x. if x \<in> set q then TIMER_STATUS_invalid else t_status (tm s x)) (tm s)"
  have i: "inval_all (set q) s0 = put_cpu c (ts\<lparr>tp_list := []\<rparr>) (s\<lparr>tm := m\<rparr>)"
    unfolding inval_all_def s0_def m_def put_cpu_simps by (rule tsys.equality) simp_all
  have mx: "m x = tm s x" if "x \<notin> set q" for x using that by (simp add: m_def restat_def)
  have mf: "t_cpu (m x) = t_cpu (tm s x)" "t_pos (m x) = t_pos (tm s x)" "t_status (m x) = (if x \<in> set q then TIMER_STATUS_invalid else t_status (tm s x))" for x
    by (simp_all add: m_def)
  have ql: "t_cpu (tm s x) = c \<and> t_status (tm s x) = TIMER_STATUS_in_list \<and> t_pos (tm s x) = List_next" if "x \<in> set q" for x
    using that K by (auto simp: q_def list_wf_def)
  have hq: "x \<notin> set q" if "x \<in> heap_ids (tp_heap ts) \<or> x \<in> set (tp_inactive ts)" for x using K ql[of x] that by auto
  have "heap_wf m (tp_heap ts)" by (rule heap_wf_same[of "tm s"]) (use K in blast, use hq mx in metis)
  moreover have "{x. t_cpu (m x) = c \<and> t_status (m x) = st} = (if st = TIMER_STATUS_in_list then {} else {x. t_cpu (tm s x) = c \<and> t_status (tm s x) = st})"
    if "st \<noteq> TIMER_STATUS_invalid" for st
    using that K ql unfolding mf by (auto simp: q_def)
  ultimately have ck: "cpu_ok m c (ts\<lparr>tp_list := []\<rparr>)" using K unfolding cpu_ok_def by (simp add: list_wf_def mf)
  have "tsys_ok (inval_all (set q) s0)"
    unfolding i
  proof (rule tsys_ok_put[OF s c ck])
    show "m x = tm s x" if "c' \<noteq> c" "owned (tm s) c' x \<or> owned m c' x" for x c'
      using that ql[of x] mx[of x] mf[of x] by (cases "x \<in> set q") (auto simp: owned_def)
    show "timer_ok (length (tcpus s)) (m x)" for x
      using tsys_okD(3)[OF s, of x] mx[of x] mf[of x] by (cases "x \<in> set q") (auto simp: timer_ok_def)
  qed
  moreover have "t_status (tm s0 x) = TIMER_STATUS_in_list \<and> t_pos (tm s0 x) = List_next \<and> t_cpu (tm s0 x) < length (tcpus s0)" if "x \<in> set q" for x
    using ql[OF that] c by (simp add: s0_def)
  moreover have "distinct q" using K by (simp add: list_wf_def q_def)
  ultimately obtain s' where l: "for_loop requeue q s0 = Inr s'" "tsys_ok s'" "sys_frame s0 s'" "raised s' = raised s0" "tabs s' = tabs s0"
    using requeue_loop_ok[of q s0] by blast
  have "sys_frame s s0" unfolding s0_def by (rule sys_frame_put(2)[OF c]) (simp add: ts_def)
  then have "sys_frame s s'" using l(3) sys_frame_trans by blast
  moreover have "tabs s0 = tabs s" by (rule tabs_cong) (simp add: s0_def)
  moreover have "refill_heap c s = Inr s'" using c l(1) by (simp add: refill_heap_def per_cpu_in ts_def s0_def q_def)
  ultimately show ?thesis using l by (simp add: s0_def)
qed

section \<open>The next deadline\<close>

lemma earliest_ok:
  assumes s: "tsys_ok s" and c: "c < length (tcpus s)"
  shows "tabs s t = Armed c e \<Longrightarrow> earliest (tcpus s ! c) (tm s) \<le> e"
    and "earliest (tcpus s ! c) (tm s) = STIME_MAX \<or> (\<exists>t. tabs s t = Armed c (earliest (tcpus s ! c) (tm s)))"
proof -
  define ts where "ts = tcpus s ! c"
  note K = tsys_okD(2)[OF s c, folded ts_def, unfolded cpu_ok_def]
  note A = armed_iff[OF s c, folded ts_def]
  let ?h = "expires (tm s (heap_slots (tp_heap ts) ! 1))"
  have hf: "heap_slots (tp_heap ts) ! 1 \<in> heap_ids (tp_heap ts) \<and> (\<forall>x\<in>heap_ids (tp_heap ts). ?h \<le> expires (tm s x))" if "heap_size (tp_heap ts) \<noteq> 0"
    using heap_container.first_law[of "tm s" "tp_heap ts" "heap_slots (tp_heap ts) ! 1"] K that by (simp add: heap_first_def)
  have hz: "heap_ids (tp_heap ts) = {}" if "heap_size (tp_heap ts) = 0" using that by (simp add: heap_ids_def slot_ids_def)
  have lf: "x \<in> set (tp_list ts) \<and> (\<forall>y\<in>set (tp_list ts). expires (tm s x) \<le> expires (tm s y))" if "tp_list ts = x # q" for x q
  proof -
    have "list_wf (tm s) (tp_list ts)" "list_first (tp_list ts) = Some x" using K that by (auto simp: list_first_def)
    from list_container.first_law[OF this] show ?thesis .
  qed
  show "earliest (tcpus s ! c) (tm s) \<le> e" if "tabs s t = Armed c e"
  proof -
    have t: "t \<in> heap_ids (tp_heap ts) \<or> t \<in> set (tp_list ts)" "e = expires (tm s t)" using A[of t] that by auto
    have e1: "earliest ts (tm s) \<le> ?h" if "heap_size (tp_heap ts) \<noteq> 0"
      using that by (simp add: earliest_def Let_def split: list.splits)
    have e2: "earliest ts (tm s) \<le> expires (tm s x)" if "tp_list ts = x # q" for x q
      using that by (simp add: earliest_def Let_def)
    from t(1) show ?thesis unfolding ts_def[symmetric] t(2)
    proof
      assume a: "t \<in> heap_ids (tp_heap ts)"
      then have "heap_size (tp_heap ts) \<noteq> 0" using hz by blast
      from e1[OF this] hf[OF this] a show "earliest ts (tm s) \<le> expires (tm s t)" by force
    next
      assume a: "t \<in> set (tp_list ts)"
      then obtain x q where "tp_list ts = x # q" by (cases "tp_list ts") auto
      from e2[OF this] lf[OF this] a show "earliest ts (tm s) \<le> expires (tm s t)" by force
    qed
  qed
  show "earliest (tcpus s ! c) (tm s) = STIME_MAX \<or> (\<exists>t. tabs s t = Armed c (earliest (tcpus s ! c) (tm s)))"
  proof -
    have "earliest ts (tm s) = STIME_MAX \<or> (heap_size (tp_heap ts) \<noteq> 0 \<and> earliest ts (tm s) = ?h) \<or>
        (\<exists>x q. tp_list ts = x # q \<and> earliest ts (tm s) = expires (tm s x))"
      by (auto simp: earliest_def Let_def split: list.splits)
    then show ?thesis unfolding ts_def[symmetric] using hf lf A(2) by metis
  qed
qed

lemma program_deadline_ok:
  assumes s: "tsys_ok s" and c: "c < length (tcpus s)" and n: "0 < now env" "expired env c s = {}"
  shows "\<exists>s'. program_deadline env c s = Inr s' \<and> tsys_ok s' \<and> tabs s' = tabs s \<and> fired s' = fired s \<and>
    length (tcpus s') = length (tcpus s) \<and> (\<forall>t e. tabs s' t = Armed c e \<longrightarrow> covers (timer_deadline s' c) e)"
proof -
  define E where "E = earliest (tcpus s ! c) (tm s)"
  define d where "d = (if E = STIME_MAX then 0 else s64 (E + timer_slop))"
  define s1 where "s1 = s\<lparr>timer_deadline := (timer_deadline s)(c := d)\<rparr>"
  define s2 where "s2 = (if reprogram_timer env d then s1 else cpu_raise_softirq c s1)"
  note E = earliest_ok[OF s c, folded E_def]
  have r: "program_deadline env c s = Inr s2" using c by (simp add: program_deadline_def per_cpu_in Let_def E_def d_def s1_def s2_def)
  have "tsys_ok s1" using s by (simp add: s1_def tsys_ok_def)
  then have f: "tsys_ok s2" "tm s2 = tm s" "fired s2 = fired s" "tcpus s2 = tcpus s" "timer_deadline s2 c = d"
    by (auto simp: s2_def s1_def)
  have "covers d e" if "tabs s t = Armed c e" for t e
    unfolding covers_def
  proof
    assume lt: "e < STIME_MAX"
    have le: "E \<le> e" using E(1)[OF that] .
    then have ne: "E \<noteq> STIME_MAX" using lt by auto
    then obtain u where "tabs s u = Armed c E" using E(2) by blast
    then have "0 < E" using n unfolding expired_def by force
    then have "0 < E + timer_slop" "E + timer_slop < 2 ^ 64" using le lt by (simp_all add: timer_slop_def STIME_MAX_def)
    then have "s64 (E + timer_slop) \<noteq> 0 \<and> s64 (E + timer_slop) \<le> E + timer_slop"
    proof (cases "E + timer_slop < 2 ^ 63")
      case True
      then have "s64 (E + timer_slop) = E + timer_slop" using \<open>0 < E + timer_slop\<close> by (simp add: s64_def)
      then show ?thesis using \<open>0 < E + timer_slop\<close> by simp
    next
      case False
      have "(E + timer_slop + 2 ^ 63) mod 2 ^ 64 = (E + timer_slop + 2 ^ 63 - 2 ^ 64) mod 2 ^ 64" by (metis minus_mod_self2)
      also have "\<dots> = E + timer_slop - 2 ^ 63"
        using False \<open>E + timer_slop < 2 ^ 64\<close> by (subst mod_pos_pos_trivial) simp_all
      finally show ?thesis using \<open>E + timer_slop < 2 ^ 64\<close> by (simp add: s64_def)
    qed
    then show "d \<noteq> 0 \<and> d \<le> e + timer_slop" using ne le by (simp add: d_def)
  qed
  moreover have "tabs s2 = tabs s" by (rule tabs_cong[OF f(2)])
  ultimately show ?thesis using r f by auto
qed

section \<open>The whole softirq\<close>

lemma timer_softirq_action_ok:
  assumes s: "tsys_ok s" and c: "c < length (tcpus s)" and a: "alloc_ok env" and cb: "callback_ok env c" and n: "0 < now env"
  shows "\<exists>s' ts. timer_softirq_action env c s = Some (Inr s') \<and> tsys_ok s' \<and>
    fired s' c = fired s c @ ts \<and> distinct ts \<and> set ts \<subseteq> expired env c s \<and>
    (callback_keeps env c \<longrightarrow> set ts = expired env c s) \<and> expired env c s' = {} \<and>
    (\<forall>t e. tabs s' t = Armed c e \<longrightarrow> covers (timer_deadline s' c) e)"
proof -
  from grow_heap_ok[OF s c a] obtain s1 where g: "grow_heap env c s = Inr s1" "tsys_ok s1" "sys_frame s s1" "tm s1 = tm s" by blast
  have ex: "expired env c s1 = expired env c s" by (rule expired_cong[OF tabs_cong[OF g(4)]])
  have c1: "c < length (tcpus s1)" "fired s1 = fired s" using sys_frame_len[OF g(3)] c g(3) by (simp_all add: sys_frame_def)
  have p1: "progress env c s1 s1" using g(2) by (auto simp: progress_def)
  obtain s2 where h: "while_loop (heap_step env c) s1 = Some (Inr s2)" "progress env c s1 s2"
    "\<forall>x\<in>expired env c s2. t_status (tm s2 x) \<noteq> TIMER_STATUS_in_heap"
    using while_loop_rule[where I = "progress env c s1" and f = "heap_step env c" and \<mu> = "\<lambda>s. card (expired env c s)"
        and Q = "\<lambda>s. \<forall>x\<in>expired env c s. t_status (tm s x) \<noteq> TIMER_STATUS_in_heap", OF p1]
      heap_step_ok[OF _ c1(1) cb] by blast
  have "\<exists>s'. while_loop (list_step env c) s2 = Some (Inr s') \<and>
      (progress env c s1 s' \<and> (\<forall>x\<in>expired env c s'. t_status (tm s' x) \<noteq> TIMER_STATUS_in_heap)) \<and> expired env c s' = {}"
    by (rule while_loop_rule[where \<mu> = "\<lambda>s. card (expired env c s)"]) (use h(2,3) list_step_ok[OF _ _ c1(1) cb] in blast)+
  then obtain s3 where l: "while_loop (list_step env c) s2 = Some (Inr s3)" "progress env c s1 s3" "expired env c s3 = {}" by blast
  from l(2) obtain ts where P: "tsys_ok s3" "length (tcpus s3) = length (tcpus s1)" "fired s3 c = fired s1 c @ ts" "distinct ts"
    "set ts \<subseteq> expired env c s1" "callback_keeps env c \<Longrightarrow> expired env c s3 = expired env c s1 - set ts" unfolding progress_def by blast
  have c3: "c < length (tcpus s3)" using P(2) c1(1) by simp
  from refill_heap_ok[OF P(1) c3] obtain s4 where r: "refill_heap c s3 = Inr s4" "tsys_ok s4" "sys_frame s3 s4" "tabs s4 = tabs s3" by blast
  have c4: "c < length (tcpus s4)" "fired s4 = fired s3" using sys_frame_len[OF r(3)] c3 r(3) by (simp_all add: sys_frame_def)
  have e4: "expired env c s4 = {}" using expired_cong[OF r(4)] l(3) by simp
  from program_deadline_ok[OF r(2) c4(1) n e4] obtain s5 where d: "program_deadline env c s4 = Inr s5" "tsys_ok s5" "tabs s5 = tabs s4"
    "fired s5 = fired s4" "\<forall>t e. tabs s5 t = Armed c e \<longrightarrow> covers (timer_deadline s5 c) e" by blast
  have "timer_softirq_action env c s = Some (Inr s5)" using g(1) h(1) l(1) r(1) d(1) by (simp add: timer_softirq_action_def)
  moreover have "expired env c s5 = {}" using expired_cong[OF d(3)] e4 by simp
  moreover have "set ts = expired env c s" if "callback_keeps env c" using P(5,6)[simplified ex] that l(3) ex by blast
  ultimately show ?thesis using d P ex c1(2) c4(2) by (intro exI[of _ s5] exI[of _ ts]) simp
qed

section \<open>A processor goes away\<close>

definition move_all_spec :: "nat \<Rightarrow> nat \<Rightarrow> (tid \<Rightarrow> atimer) \<Rightarrow> tid \<Rightarrow> atimer" where
  "move_all_spec old_cpu new_cpu A =
     (\<lambda>t. case A t of
            Idle c \<Rightarrow> Idle (if c = old_cpu then new_cpu else c)
          | Armed c e \<Rightarrow> Armed (if c = old_cpu then new_cpu else c) e
          | x \<Rightarrow> x)"

text \<open>The first loop: some of the timers armed on the old processor are armed on the new one.\<close>

definition moving :: "nat \<Rightarrow> nat \<Rightarrow> tsys \<Rightarrow> bool \<times> tsys \<Rightarrow> bool" where
  "moving old_cpu new_cpu s0 bs \<longleftrightarrow>
     (case bs of (b, s) \<Rightarrow>
        tsys_ok s \<and> sys_frame s0 s \<and> raised s = raised s0 \<and>
        (\<forall>t. tabs s t = tabs s0 t \<or> (\<exists>e. tabs s0 t = Armed old_cpu e \<and> tabs s t = Armed new_cpu e)) \<and>
        (timely s0 new_cpu \<longrightarrow> b \<or> timely s new_cpu))"

lemma move_step_ok:
  assumes m: "moving old_cpu new_cpu s0 bs" and c: "old_cpu < length (tcpus s0)" "new_cpu < length (tcpus s0)" "old_cpu \<noteq> new_cpu"
  shows "move_step old_cpu new_cpu bs = Inr None \<and> (\<forall>t e. tabs (snd bs) t \<noteq> Armed old_cpu e) \<or>
    (\<exists>bs'. move_step old_cpu new_cpu bs = Inr (Some bs') \<and> moving old_cpu new_cpu s0 bs' \<and>
      card {t. \<exists>e. tabs (snd bs') t = Armed old_cpu e} < card {t. \<exists>e. tabs (snd bs) t = Armed old_cpu e})"
proof -
  obtain b s where bs: "bs = (b, s)" by (cases bs)
  have M: "tsys_ok s" "sys_frame s0 s" "raised s = raised s0"
    "\<And>t. tabs s t = tabs s0 t \<or> (\<exists>e. tabs s0 t = Armed old_cpu e \<and> tabs s t = Armed new_cpu e)"
    "timely s0 new_cpu \<Longrightarrow> b \<or> timely s new_cpu" using m by (auto simp: moving_def bs)
  have l: "length (tcpus s) = length (tcpus s0)" by (rule sys_frame_len[OF M(2)])
  then have co: "old_cpu < length (tcpus s)" "new_cpu < length (tcpus s)" using c by simp_all
  define ts where "ts = tcpus s ! old_cpu"
  note K = tsys_okD(2)[OF M(1) co(1), folded ts_def, unfolded cpu_ok_def]
  note A = armed_iff[OF M(1) co(1), folded ts_def]
  have pc: "per_cpu s old_cpu = Inr ts" using co by (simp add: per_cpu_in ts_def)
  define nx where "nx = (if heap_size (tp_heap ts) \<noteq> 0 then Some (heap_slots (tp_heap ts) ! 1) else list_first (tp_list ts))"
  have g: "(if heap_size (tp_heap ts) \<noteq> 0 then bindR (heap_get (tp_heap ts) 1) (\<lambda>t. Inr (Some t)) else Inr (list_first (tp_list ts))) = Inr nx"
    using K unfolding nx_def heap_wf_def heap_get_def by (simp add: arr_get_def)
  show ?thesis
  proof (cases nx)
    case None
    then have "heap_size (tp_heap ts) = 0" "tp_list ts = []" by (auto simp: nx_def list_first_def split: if_splits list.splits)
    then have "tabs s t \<noteq> Armed old_cpu e" for t e using A(1)[of t] by (auto simp: heap_ids_def slot_ids_def)
    then show ?thesis using bs pc g None by (simp add: move_step_def)
  next
    case (Some t)
    have t: "t \<in> heap_ids (tp_heap ts) \<or> t \<in> set (tp_list ts)"
      using Some by (auto simp: nx_def list_first_def heap_ids_def slot_ids_def split: if_splits list.splits intro!: image_eqI[of _ _ 1])
    define e where "e = expires (tm s t)"
    have at: "tabs s t = Armed old_cpu e" using A(2)[OF t] by (simp add: e_def)
    have st: "active (t_status (tm s t))" "t_cpu (tm s t) = old_cpu" using t K by (auto simp: active_def)
    from remove_entry_ok[OF M(1) st(1)] obtain rc s1 where r: "remove_entry t s = Inr (rc, s1)" "tsys_ok s1" "sys_frame s s1" "raised s1 = raised s"
      "tview (tm s1) = (tview (tm s))(t := (tview (tm s) t)\<lparr>t_status := TIMER_STATUS_invalid\<rparr>)" by blast
    have c16: "new_cpu mod 65536 = new_cpu" using co(2) tsys_okD(1)[OF M(1)] by (simp add: TIMER_CPU_status_killed_def)
    define s2 where "s2 = set_cpu new_cpu t s1"
    have t1: "t_status (tm s1 t) = TIMER_STATUS_invalid" "expires (tm s1 t) = e"
      using tview_fields[where m' = "tm s1" and x = t and m = "tm s"] r(5) by (simp_all add: e_def)
    have s2: "tsys_ok s2" "t_status (tm s2 t) = TIMER_STATUS_invalid" "t_cpu (tm s2 t) < length (tcpus s2)" "t_cpu (tm s2 t) = new_cpu" "expires (tm s2 t) = e"
      using tsys_ok_other[OF r(2) t1(1)] t1 c16 co(2) sys_frame_len[OF r(3)] by (simp_all add: s2_def set_cpu_def)
    from add_entry_ok[OF s2(1-3)] obtain rc' s3 st' where a: "add_entry t s2 = Inr (rc', s3)" "tsys_ok s3" "sys_frame s2 s3" "raised s3 = raised s2" "active st'"
      "tview (tm s3) = (tview (tm s2))(t := (tview (tm s2) t)\<lparr>t_status := st'\<rparr>)"
      and q: "rc' \<or> (\<exists>x. x \<noteq> t \<and> active (t_status (tm s2 x)) \<and> t_cpu (tm s2 x) = t_cpu (tm s2 t) \<and> expires (tm s2 x) \<le> expires (tm s2 t))" by blast
    have at3: "tabs s3 t = Armed new_cpu e"
      using tview_fields[where m' = "tm s3" and x = t and m = "tm s2" and st = st'] a(5,6) s2(4,5) tabs_cases(4)[of s3 t] by simp
    have o2: "tm s2 x = tm s1 x" if "x \<noteq> t" for x using that by (simp add: s2_def set_cpu_def)
    have v2: "tview (tm s2) x = tview (tm s) x" if "x \<noteq> t" for x
    proof -
      have "tview (tm s2) x = tview (tm s1) x" using o2[OF that] by (simp add: tview_def)
      then show ?thesis using that r(5) by simp
    qed
    have v3: "tview (tm s3) x = tview (tm s) x" if "x \<noteq> t" for x using that a(6) v2[OF that] by simp
    have tb: "tabs s3 = (tabs s)(t := Armed new_cpu e)" using at3 v3 by (auto simp: tabs_def fun_eq_iff)
    have fr: "sys_frame s s3" "raised s3 = raised s0"
      using r(3,4) a(3,4) M(3) sys_frame_trans[of s s1 s3] by (auto simp: s2_def set_cpu_def sys_frame_def)
    have tl: "timely s0 new_cpu \<Longrightarrow> (b \<or> rc') \<or> timely s3 new_cpu"
    proof -
      assume "timely s0 new_cpu"
      then consider "b \<or> rc'" | "timely s new_cpu" "\<not> rc'" using M(5) by blast
      then show ?thesis
      proof cases
        case 2
        with q s2(4,5) obtain x where x: "x \<noteq> t" "active (t_status (tm s2 x))" "t_cpu (tm s2 x) = new_cpu" "expires (tm s2 x) \<le> e" by auto
        note vx = v2[OF x(1)]
        have xa: "tabs s x = Armed new_cpu (expires (tm s x))" "expires (tm s x) \<le> e"
          using tview_eq_fields[OF vx] x tabs_cases(4)[of s x] by simp_all
        have "timely s3 new_cpu"
        proof (rule timely_mono[OF _ _ _ 2(1)])
          show "set (raised s) \<subseteq> set (raised s3)" "timer_deadline s3 = timer_deadline s" using fr M(3) by (simp_all add: sys_frame_def)
          fix u d assume u: "tabs s3 u = Armed new_cpu d"
          show "new_cpu \<in> set (raised s3) \<or> (\<exists>t' e'. tabs s t' = Armed new_cpu e' \<and> e' \<le> d)"
            using u xa tb by (cases "u = t") auto
        qed
        then show ?thesis by blast
      qed blast
    qed
    have "move_step old_cpu new_cpu bs = Inr (Some (b \<or> rc', s3))"
      using bs pc g Some r(1) a(1) by (simp add: move_step_def s2_def)
    moreover have "moving old_cpu new_cpu s0 (b \<or> rc', s3)"
      unfolding moving_def prod.case
    proof (intro conjI allI impI)
      show "sys_frame s0 s3" using sys_frame_trans[OF M(2) fr(1)] .
      show "tabs s3 u = tabs s0 u \<or> (\<exists>e. tabs s0 u = Armed old_cpu e \<and> tabs s3 u = Armed new_cpu e)" for u
        using M(4)[of u] tb at c(3) by (cases "u = t") auto
    qed (use a(2) fr(2) tl in auto)
    moreover have "card {t. \<exists>e. tabs s3 t = Armed old_cpu e} < card {t. \<exists>e. tabs s t = Armed old_cpu e}"
    proof (rule psubset_card_mono)
      show "finite {t. \<exists>e. tabs s t = Armed old_cpu e}" unfolding A(1) by (simp add: heap_ids_def slot_ids_def)
      show "{t. \<exists>e. tabs s3 t = Armed old_cpu e} \<subset> {t. \<exists>e. tabs s t = Armed old_cpu e}" using tb at c(3) by auto
    qed
    ultimately show ?thesis using bs by auto
  qed
qed


text \<open>The second loop: some of the timers idle on the old processor are idle on the new one.\<close>

definition moving_idle :: "nat \<Rightarrow> nat \<Rightarrow> tsys \<Rightarrow> tsys \<Rightarrow> bool" where
  "moving_idle old_cpu new_cpu s0 s \<longleftrightarrow>
     tsys_ok s \<and> sys_frame s0 s \<and> raised s = raised s0 \<and>
     (\<forall>t. tabs s t = tabs s0 t \<or> (tabs s0 t = Idle old_cpu \<and> tabs s t = Idle new_cpu))"

lemma inactive_step_ok:
  assumes m: "moving_idle old_cpu new_cpu s0 s" and c: "old_cpu < length (tcpus s0)" "new_cpu < length (tcpus s0)" "old_cpu \<noteq> new_cpu"
  shows "inactive_step old_cpu new_cpu s = Inr None \<and> (\<forall>t. tabs s t \<noteq> Idle old_cpu) \<or>
    (\<exists>s'. inactive_step old_cpu new_cpu s = Inr (Some s') \<and> moving_idle old_cpu new_cpu s0 s' \<and>
      card {t. tabs s' t = Idle old_cpu} < card {t. tabs s t = Idle old_cpu})"
proof -
  have M: "tsys_ok s" "sys_frame s0 s" "raised s = raised s0"
    "\<And>t. tabs s t = tabs s0 t \<or> (tabs s0 t = Idle old_cpu \<and> tabs s t = Idle new_cpu)" using m by (auto simp: moving_idle_def)
  have l: "length (tcpus s) = length (tcpus s0)" by (rule sys_frame_len[OF M(2)])
  then have co: "old_cpu < length (tcpus s)" "new_cpu < length (tcpus s)" using c by simp_all
  define ts where "ts = tcpus s ! old_cpu"
  note K = tsys_okD(2)[OF M(1) co(1), folded ts_def, unfolded cpu_ok_def]
  have pc: "per_cpu s old_cpu = Inr ts" using co by (simp add: per_cpu_in ts_def)
  have ii: "tabs s t = Idle old_cpu \<longleftrightarrow> t \<in> set (tp_inactive ts)" for t
    using K tabs_cases[of s t] by (cases rule: status_cases[of "tm s t"]) (auto simp: active_def)
  show ?thesis
  proof (cases "tp_inactive ts")
    case Nil
    then show ?thesis using pc ii by (simp add: inactive_step_def)
  next
    case (Cons t q)
    have t: "t_status (tm s t) = TIMER_STATUS_inactive" "tabs s t = Idle old_cpu" using Cons K ii[of t] by auto
    from move_idle_ok[OF M(1) t(1) co(2)] obtain s1 s2 where v: "list_del t s = Inr s1" "list_add new_cpu t (set_cpu new_cpu t s1) = Inr s2"
      "tsys_ok s2" "sys_frame s s2" "raised s2 = raised s" "tview (tm s2) = (tview (tm s))(t := (tview (tm s) t)\<lparr>t_cpu := new_cpu\<rparr>)" by blast
    have "abs_timer (tview (tm s2) t) = Idle new_cpu" using v(6) t(1) by (simp add: abs_timer_def tview_def)
    then have tb: "tabs s2 = (tabs s)(t := Idle new_cpu)" using v(6) by (auto simp: tabs_def fun_eq_iff)
    have "inactive_step old_cpu new_cpu s = Inr (Some s2)" using pc Cons v(1,2) by (simp add: inactive_step_def)
    moreover have "moving_idle old_cpu new_cpu s0 s2"
      unfolding moving_idle_def
    proof (intro conjI allI)
      show "sys_frame s0 s2" using sys_frame_trans[OF M(2) v(4)] .
      show "tabs s2 u = tabs s0 u \<or> (tabs s0 u = Idle old_cpu \<and> tabs s2 u = Idle new_cpu)" for u
        using M(4)[of u] tb t(2) c(3) by (cases "u = t") auto
    qed (use v M(3) in auto)
    moreover have "card {t. tabs s2 t = Idle old_cpu} < card {t. tabs s t = Idle old_cpu}"
    proof (rule psubset_card_mono)
      show "finite {t. tabs s t = Idle old_cpu}" unfolding ii by simp
      show "{t. tabs s2 t = Idle old_cpu} \<subset> {t. tabs s t = Idle old_cpu}" using tb t(2) c(3) by auto
    qed
    ultimately show ?thesis by blast
  qed
qed

lemma migrate_timers_from_cpu_ok:
  assumes s: "tsys_ok s" and c: "old_cpu < length (tcpus s)" "new_cpu < length (tcpus s)" "old_cpu \<notin> set (new_cpu # cs)"
  shows "\<exists>s'. migrate_timers_from_cpu (new_cpu # cs) old_cpu s = Some (Inr s') \<and> tsys_ok s' \<and>
    tabs s' = move_all_spec old_cpu new_cpu (tabs s) \<and> (timely s new_cpu \<longrightarrow> timely s' new_cpu)"
proof -
  have ne: "old_cpu \<noteq> new_cpu" using c(3) by auto
  have m0: "moving old_cpu new_cpu s (False, s)" using s by (simp add: moving_def)
  obtain b s1 where w: "while_loop (move_step old_cpu new_cpu) (False, s) = Some (Inr (b, s1))" "moving old_cpu new_cpu s (b, s1)"
    "\<forall>t e. tabs s1 t \<noteq> Armed old_cpu e"
    using while_loop_rule[where I = "moving old_cpu new_cpu s" and f = "move_step old_cpu new_cpu"
        and \<mu> = "\<lambda>bs. card {t. \<exists>e. tabs (snd bs) t = Armed old_cpu e}" and Q = "\<lambda>bs. \<forall>t e. tabs (snd bs) t \<noteq> Armed old_cpu e", OF m0]
      move_step_ok[OF _ c(1,2) ne] by fastforce
  have M: "tsys_ok s1" "sys_frame s s1" "raised s1 = raised s"
    "\<And>t. tabs s1 t = tabs s t \<or> (\<exists>e. tabs s t = Armed old_cpu e \<and> tabs s1 t = Armed new_cpu e)"
    "timely s new_cpu \<Longrightarrow> b \<or> timely s1 new_cpu" using w(2) by (auto simp: moving_def)
  have c1: "old_cpu < length (tcpus s1)" "new_cpu < length (tcpus s1)" using c sys_frame_len[OF M(2)] by simp_all
  have m1: "moving_idle old_cpu new_cpu s1 s1" using M(1) by (simp add: moving_idle_def)
  have "\<exists>s'. while_loop (inactive_step old_cpu new_cpu) s1 = Some (Inr s') \<and> moving_idle old_cpu new_cpu s1 s' \<and> (\<forall>t. tabs s' t \<noteq> Idle old_cpu)"
    by (rule while_loop_rule[where \<mu> = "\<lambda>s. card {t. tabs s t = Idle old_cpu}"]) (use m1 inactive_step_ok[OF _ c1 ne] in blast)+
  then obtain s2 where i: "while_loop (inactive_step old_cpu new_cpu) s1 = Some (Inr s2)" "moving_idle old_cpu new_cpu s1 s2" "\<forall>t. tabs s2 t \<noteq> Idle old_cpu"
    by blast
  have I: "tsys_ok s2" "sys_frame s1 s2" "raised s2 = raised s1"
    "\<And>t. tabs s2 t = tabs s1 t \<or> (tabs s1 t = Idle old_cpu \<and> tabs s2 t = Idle new_cpu)" using i(2) by (auto simp: moving_idle_def)
  define s3 where "s3 = (if b then cpu_raise_softirq new_cpu s2 else s2)"
  have e: "migrate_timers_from_cpu (new_cpu # cs) old_cpu s = Some (Inr s3)"
    using c(3) w(1) i(1) by (simp add: migrate_timers_from_cpu_def s3_def)
  have s3: "tsys_ok s3" "tabs s3 = tabs s2" using I(1) by (auto simp: s3_def intro!: tabs_cong)
  have "tabs s2 t = move_all_spec old_cpu new_cpu (tabs s) t" for t
    using M(4)[of t] I(4)[of t] w(3) i(3) ne by (cases "tabs s t") (auto simp: move_all_spec_def)
  then have tb: "tabs s3 = move_all_spec old_cpu new_cpu (tabs s)" using s3(2) by auto
  moreover have "timely s3 new_cpu" if t: "timely s new_cpu"
  proof (cases b)
    case True
    then show ?thesis by (simp add: s3_def timely_def)
  next
    case False
    then have "timely s1 new_cpu" using M(5)[OF t] by simp
    then have "timely s2 new_cpu"
    proof (rule timely_mono[rotated 3])
      show "set (raised s1) \<subseteq> set (raised s2)" "timer_deadline s2 = timer_deadline s1" using I(2,3) by (simp_all add: sys_frame_def)
      show "new_cpu \<in> set (raised s2) \<or> (\<exists>t' e'. tabs s1 t' = Armed new_cpu e' \<and> e' \<le> e)" if "tabs s2 u = Armed new_cpu e" for u e
      proof -
        have "tabs s1 u = Armed new_cpu e" using I(4)[of u] that by auto
        then show ?thesis by blast
      qed
    qed
    then show ?thesis using False by (simp add: s3_def)
  qed
  ultimately show ?thesis using e s3(1) by blast
qed

end
