(* ===== verification/Timer_Properties.thy ===== *)
theory Timer_Properties
  imports Timer_Softirq
begin

text \<open>
  The properties of the timers: the interface refines a map from timers to their states, the softirq
  runs exactly what has expired and programs the next deadline, and no timer is lost when a processor
  goes away; each with a concrete instance.
\<close>

section \<open>A concrete system\<close>

text \<open>Two processors just brought up and one timer, idle and then armed.\<close>

definition demo_base :: tsys where
  "demo_base = \<lparr>tm = (\<lambda>_. \<lparr>expires = 0, t_pos = Pos_none, t_function = 0, t_data = 0, t_cpu = 0, t_status = TIMER_STATUS_invalid\<rparr>),
     tcpus = replicate 2 \<lparr>tp_heap = dummy_heap, tp_list = [], tp_running = None, tp_inactive = []\<rparr>,
     timer_deadline = (\<lambda>_. 0), raised = [], fired = (\<lambda>_. [])\<rparr>"

definition demo_idle :: tsys where
  "demo_idle = (case init_timer 0 7 8 0 demo_base of Inr s \<Rightarrow> s | Inl _ \<Rightarrow> demo_base)"

definition demo_armed :: tsys where
  "demo_armed = (case set_timer 0 10 demo_idle of Inr s \<Rightarrow> s | Inl _ \<Rightarrow> demo_idle)"

definition demo_tenv :: tenv where
  "demo_tenv = \<lparr>alloc_heap = (\<lambda>n. Some (replicate n 0)), now = 50, callback = (\<lambda>_ _ s. s), reprogram_timer = (\<lambda>_. True)\<rparr>"

lemma demo_base_ok: "tsys_ok demo_base" "tabs demo_base = (\<lambda>_. Uninit)" "length (tcpus demo_base) = 2" "timely demo_base c"
proof -
  have e: "c < 2 \<Longrightarrow> replicate 2 x ! c = x" for c and x :: timers by simp
  show "tsys_ok demo_base"
    unfolding tsys_ok_def demo_base_def
    by (auto simp: e cpu_ok_def dummy_heap_def heap_wf_def limit_ok_def offsets_ok_def ordered_def list_wf_def heap_ids_def slot_ids_def timer_ok_def
        TIMER_CPU_status_killed_def simp del: replicate.simps)
  show t: "tabs demo_base = (\<lambda>_. Uninit)" by (simp add: demo_base_def tabs_def tview_def abs_timer_def fun_eq_iff)
  show "length (tcpus demo_base) = 2" by (simp add: demo_base_def)
  show "timely demo_base c" by (simp add: timely_def t)
qed

lemma demo_idle_ok: "tsys_ok demo_idle" "tabs demo_idle = (\<lambda>_. Uninit)(0 := Idle 0)" "length (tcpus demo_idle) = 2" "timely demo_idle c"
proof -
  have "t_status (tm demo_base 0) = TIMER_STATUS_invalid" by (simp add: demo_base_def)
  then have "refines demo_base ((tabs demo_base)(0 := Idle 0)) demo_idle"
    using init_timer_ok[OF demo_base_ok(1), of 0 0 7 8] demo_base_ok(3) by (auto simp: demo_idle_def)
  then show "tsys_ok demo_idle" "tabs demo_idle = (\<lambda>_. Uninit)(0 := Idle 0)" "length (tcpus demo_idle) = 2" "timely demo_idle c"
    using demo_base_ok sys_frame_len[of demo_base demo_idle] by (auto simp: refines_def)
qed

lemma demo_armed_ok: "tsys_ok demo_armed" "tabs demo_armed = (\<lambda>_. Uninit)(0 := Armed 0 10)" "length (tcpus demo_armed) = 2" "timely demo_armed c"
proof -
  have "tabs demo_idle 0 \<noteq> Uninit" by (simp add: demo_idle_ok)
  then have "refines demo_idle (set_spec 0 10 (tabs demo_idle)) demo_armed"
    using set_timer_ok[OF demo_idle_ok(1) initialised, of 0 10] by (auto simp: demo_armed_def)
  then show "tsys_ok demo_armed" "tabs demo_armed = (\<lambda>_. Uninit)(0 := Armed 0 10)" "length (tcpus demo_armed) = 2" "timely demo_armed c"
    using demo_idle_ok sys_frame_len[of demo_idle demo_armed] by (auto simp: refines_def set_spec_def)
qed

lemma demo_tenv_ok: "alloc_ok demo_tenv" "callback_ok demo_tenv c" "0 < now demo_tenv"
  by (auto simp: demo_tenv_def alloc_ok_def callback_ok_def)

section \<open>Properties\<close>

text \<open>
  C14. Refinement of the interface: any sequence of \<open>set_timer\<close>, \<open>stop_timer\<close>, \<open>migrate_timer\<close> and
  \<open>kill_timer\<close> on initialised timers returns without a fault, keeps the invariant of heaps, lists and
  back pointers, and acts on what a timer is to its users (idle, armed on a processor until a time,
  killed) as the specification says. Whenever a timer becomes the earliest of its processor the softirq
  is raised, so no armed timer waits behind a deadline that was programmed too late.
\<close>

theorem timer_interface_refines:
  assumes "tsys_ok s" and "\<forall>c<length (tcpus s). timely s c" and "\<forall>op\<in>set ops. timer_op_okay op s"
  shows "\<exists>s'. for_loop run_timer_op ops s = Inr s' \<and> tsys_ok s' \<and> tabs s' = fold timer_op_spec ops (tabs s) \<and>
    (\<forall>c<length (tcpus s'). timely s' c)"
  using timer_ops.run_abs[of s ops] assms unfolding timers_inv_def by blast

theorem timer_interface_refines_witness:
  "\<exists>s'. for_loop run_timer_op [Op_set 0 20, Op_migrate 0 1, Op_set 0 5, Op_stop 0, Op_kill 1 0, Op_set 0 30] demo_armed = Inr s' \<and> tsys_ok s' \<and>
    tabs s' = fold timer_op_spec [Op_set 0 20, Op_migrate 0 1, Op_set 0 5, Op_stop 0, Op_kill 1 0, Op_set 0 30] (tabs demo_armed) \<and>
    (\<forall>c<length (tcpus s'). timely s' c)"
proof (rule timer_interface_refines[OF demo_armed_ok(1)])
  have "sys_frame demo_base demo_idle" "sys_frame demo_idle demo_armed"
    using init_timer_ok[OF demo_base_ok(1), of 0 0 7 8] set_timer_ok[OF demo_idle_ok(1) initialised, of 0 10] demo_base_ok(3) demo_idle_ok(2)
    by (auto simp: demo_idle_def demo_armed_def refines_def demo_base_def)
  then have "map tp_running (tcpus demo_armed) = replicate 2 None" by (simp add: sys_frame_def demo_base_def)
  from arg_cong[OF this, of "\<lambda>l. l ! 1"] have "tp_running (tcpus demo_armed ! 1) = None"
    using demo_armed_ok(3) by simp
  then show "\<forall>op\<in>set [Op_set 0 20, Op_migrate 0 1, Op_set 0 5, Op_stop 0, Op_kill 1 0, Op_set 0 30]. timer_op_okay op demo_armed"
    by (simp add: timer_op_okay_def demo_armed_ok)
qed (simp add: demo_armed_ok)

text \<open>
  C15. The timer softirq ends: it runs the callbacks of timers of this processor that have expired, each
  once and of all of them unless a callback disarms another one, leaves no expired timer, and programs a
  deadline that is early enough for every timer that stays armed. The callbacks may use timers freely
  but not arm one at a time that is already over.
\<close>

theorem timer_softirq_exact:
  assumes "tsys_ok s" and "c < length (tcpus s)" and "alloc_ok env" and "callback_ok env c" and "0 < now env"
  shows "\<exists>s' ts. timer_softirq_action env c s = Some (Inr s') \<and> tsys_ok s' \<and>
    fired s' c = fired s c @ ts \<and> distinct ts \<and> set ts \<subseteq> expired env c s \<and>
    (callback_keeps env c \<longrightarrow> set ts = expired env c s) \<and> expired env c s' = {} \<and>
    (\<forall>t e. tabs s' t = Armed c e \<longrightarrow> covers (timer_deadline s' c) e)"
  using assms by (rule timer_softirq_action_ok)

theorem timer_softirq_exact_witness:
  "\<exists>s' ts. timer_softirq_action demo_tenv 0 demo_armed = Some (Inr s') \<and> tsys_ok s' \<and>
    fired s' 0 = fired demo_armed 0 @ ts \<and> distinct ts \<and> set ts \<subseteq> expired demo_tenv 0 demo_armed \<and>
    (callback_keeps demo_tenv 0 \<longrightarrow> set ts = expired demo_tenv 0 demo_armed) \<and> expired demo_tenv 0 s' = {} \<and>
    (\<forall>t e. tabs s' t = Armed 0 e \<longrightarrow> covers (timer_deadline s' 0) e)"
  by (rule timer_softirq_exact[OF demo_armed_ok(1) _ demo_tenv_ok]) (simp add: demo_armed_ok)

text \<open>
  C16. A processor that goes away loses no timer: \<open>migrate_timers_from_cpu\<close> ends, every timer of the old
  processor is in the same state on the new one and no other timer changes, and the new processor is
  still told in time.
\<close>

theorem timers_survive_cpu_offline:
  assumes "tsys_ok s" and "old_cpu < length (tcpus s)" and "new_cpu < length (tcpus s)" and "old_cpu \<notin> set (new_cpu # cs)"
  shows "\<exists>s'. migrate_timers_from_cpu (new_cpu # cs) old_cpu s = Some (Inr s') \<and> tsys_ok s' \<and>
    tabs s' = move_all_spec old_cpu new_cpu (tabs s) \<and> (timely s new_cpu \<longrightarrow> timely s' new_cpu)"
  using assms by (rule migrate_timers_from_cpu_ok)

theorem timers_survive_cpu_offline_witness:
  "\<exists>s'. migrate_timers_from_cpu [1] 0 demo_armed = Some (Inr s') \<and> tsys_ok s' \<and>
    tabs s' = move_all_spec 0 1 (tabs demo_armed) \<and> (timely demo_armed 1 \<longrightarrow> timely s' 1)"
  by (rule timers_survive_cpu_offline[OF demo_armed_ok(1)]) (simp_all add: demo_armed_ok)

end
