(* ===== verification/Softirq.thy ===== *)
theory Softirq
  imports Xen_Prelude
begin

unbundle bit_operations_syntax

text \<open>
  Deferred work of the hypervisor, \<open>common/softirq.c\<close>: every processor has a word of pending bits; bits are raised from
  anywhere and their handlers run, lowest bit first, before the processor returns to a guest.
\<close>

section \<open>Raising\<close>

text \<open>The pending bits of every processor, and the processors that were sent an event-check interrupt, latest first.\<close>

record softirq_sys =
  softirq_pending :: "nat \<Rightarrow> u64"
  event_checks :: "nat list"

definition SCHEDULE_SOFTIRQ :: nat where "SCHEDULE_SOFTIRQ = 1"

definition TASKLET_SOFTIRQ :: nat where "TASKLET_SOFTIRQ = 4"

definition NR_SOFTIRQS :: nat where "NR_SOFTIRQS = 5 + 4"

text \<open>\<open>me\<close> is \<open>smp_processor_id()\<close>.\<close>

definition raise_softirq :: "nat \<Rightarrow> nat \<Rightarrow> 'a softirq_sys_scheme \<Rightarrow> 'a softirq_sys_scheme" where
  "raise_softirq me nr s = s\<lparr>softirq_pending := (softirq_pending s)(me := set_bit nr (softirq_pending s me))\<rparr>"

definition clear_softirq :: "nat \<Rightarrow> nat \<Rightarrow> 'a softirq_sys_scheme \<Rightarrow> 'a softirq_sys_scheme" where
  "clear_softirq cpu nr s = s\<lparr>softirq_pending := (softirq_pending s)(cpu := unset_bit nr (softirq_pending s cpu))\<rparr>"

definition cpu_raise_softirq_on :: "nat \<Rightarrow> nat \<Rightarrow> nat \<Rightarrow> 'a softirq_sys_scheme \<Rightarrow> 'a softirq_sys_scheme" where
  "cpu_raise_softirq_on me cpu nr s =
     (let was_set = bit (softirq_pending s cpu) nr;
          s = raise_softirq cpu nr s
      in if \<not> was_set \<and> cpu \<noteq> me then s\<lparr>event_checks := cpu # event_checks s\<rparr> else s)"

text \<open>The loop takes processors whose bit was set out of the mask; the rest get the interrupt.\<close>

definition cpumask_raise_softirq :: "nat list \<Rightarrow> nat \<Rightarrow> 'a softirq_sys_scheme \<Rightarrow> 'a softirq_sys_scheme" where
  "cpumask_raise_softirq cpus nr s =
     (let cleared = filter (\<lambda>c. \<not> bit (softirq_pending s c) nr) cpus
      in (fold (\<lambda>c. raise_softirq c nr) cpus s)\<lparr>event_checks := rev cleared @ event_checks s\<rparr>)"

section \<open>Running\<close>

text \<open>
  What the loop calls: RCU, the test for a processor that is gone, and the table of handlers (\<open>None\<close> where nothing
  was registered). A handler gets the processor it runs on and returns the one it ends on.
\<close>

record 's softirq_env =
  rcu_pending :: "nat \<Rightarrow> 's \<Rightarrow> bool"
  rcu_check_callbacks :: "nat \<Rightarrow> 's \<Rightarrow> 's"
  cpu_is_offline :: "nat \<Rightarrow> 's \<Rightarrow> bool"
  softirq_handlers :: "nat \<Rightarrow> (nat \<times> 's \<Rightarrow> (nat \<times> 's) result) option"

definition open_softirq :: "nat \<Rightarrow> (nat \<times> 's \<Rightarrow> (nat \<times> 's) result) \<Rightarrow> 's softirq_env \<Rightarrow> 's softirq_env result" where
  "open_softirq nr handler env =
     (if \<not> nr < NR_SOFTIRQS then Inl Assert_failed else Inr (env\<lparr>softirq_handlers := (softirq_handlers env)(nr \<mapsto> handler)\<rparr>))"

definition first_bit :: "u64 \<Rightarrow> nat" where
  "first_bit w = length (takeWhile (\<lambda>i. \<not> bit w i) [0..<64])"

text \<open>One iteration; the flag tells that the loop was left.\<close>

definition softirq_step ::
  "'a softirq_sys_scheme softirq_env \<Rightarrow> u64 \<Rightarrow> bool \<times> nat \<times> 'a softirq_sys_scheme \<Rightarrow> (bool \<times> nat \<times> 'a softirq_sys_scheme) option result" where
  "softirq_step env ignore_mask x =
     (case x of (left, cpu, s) \<Rightarrow>
        if left then Inr None
        else
          let s = (if rcu_pending env cpu s then rcu_check_callbacks env cpu s else s);
              pending = softirq_pending s cpu AND NOT ignore_mask
          in if pending = 0 \<or> cpu_is_offline env cpu s then Inr (Some (True, cpu, s))
             else
               let i = first_bit pending; s = clear_softirq cpu i s in
               if \<not> i < NR_SOFTIRQS then Inl Out_of_bounds
               else
                 (case softirq_handlers env i of
                    None \<Rightarrow> Inl Null_deref
                  | Some f \<Rightarrow> bindR (f (cpu, s)) (\<lambda>(cpu, s). Inr (Some (False, cpu, s)))))"

definition do_softirq_loop ::
  "'a softirq_sys_scheme softirq_env \<Rightarrow> u64 \<Rightarrow> nat \<Rightarrow> 'a softirq_sys_scheme \<Rightarrow> (nat \<times> 'a softirq_sys_scheme) result option" where
  "do_softirq_loop env ignore_mask cpu s = map_option (\<lambda>r. bindR r (\<lambda>(_, x). Inr x)) (while_loop (softirq_step env ignore_mask) (False, cpu, s))"

text \<open>The assertions about the context of the caller (no interrupt, not atomic) are left to the callers.\<close>

definition process_pending_softirqs where
  "process_pending_softirqs env cpu s = do_softirq_loop env (push_bit SCHEDULE_SOFTIRQ 1) cpu s"

definition do_softirq where
  "do_softirq env cpu s = do_softirq_loop env 0 cpu s"

section \<open>Bits\<close>

lemma raise_pending [simp]:
  "bit (softirq_pending (raise_softirq c nr s) c') k \<longleftrightarrow> bit (softirq_pending s c') k \<or> c' = c \<and> k = nr \<and> nr < 64"
  by (auto simp: raise_softirq_def bit_set_bit_iff dest: bit_imp_le_length)

lemma clear_pending [simp]:
  "bit (softirq_pending (clear_softirq c nr s) c') k \<longleftrightarrow> bit (softirq_pending s c') k \<and> \<not> (c' = c \<and> k = nr)"
  by (auto simp: clear_softirq_def bit_unset_bit_iff)

lemma cpu_raise_pending [simp]:
  "bit (softirq_pending (cpu_raise_softirq_on me c nr s) c') k \<longleftrightarrow> bit (softirq_pending s c') k \<or> c' = c \<and> k = nr \<and> nr < 64"
  using raise_pending[of c nr s c' k] by (simp add: cpu_raise_softirq_on_def Let_def)

lemma first_bit_set:
  assumes "w \<noteq> 0"
  shows "bit w (first_bit w)" "k < first_bit w \<Longrightarrow> \<not> bit w k"
proof -
  let ?P = "\<lambda>i. \<not> bit w i"
  have "\<exists>k. bit w k" using assms by (metis bit_eqI bit_0_eq bot_apply bot_bool_def)
  then obtain j where j: "bit w j" by blast
  then have "j \<in> set [0..<64]" using bit_imp_le_length[OF j] by simp
  then have "length (takeWhile ?P [0..<64]) \<noteq> length [0..<64]" unfolding takeWhile_length_full using j by blast
  then have lt: "first_bit w < 64" unfolding first_bit_def using length_takeWhile_le[of ?P "[0..<64]"] by simp
  have "length (takeWhile ?P [0..<64]) < length [0..<64]" using lt by (simp add: first_bit_def)
  from nth_length_takeWhile[OF this] show "bit w (first_bit w)" using lt by (simp add: first_bit_def)
  assume "k < first_bit w"
  then have "[0..<64] ! k \<in> set (takeWhile ?P [0..<64])" unfolding first_bit_def using takeWhile_nth[of k ?P "[0..<64]"] nth_mem by metis
  then show "\<not> bit w k" using \<open>k < first_bit w\<close> lt set_takeWhileD by fastforce
qed

section \<open>The loop\<close>

text \<open>
  Suppose the registered handlers, called with the lowest pending bit cleared, return and come closer to an end.
  Then the loop ends, calls no handler that is missing, and leaves nothing pending but what it was told to ignore on the processor
  it ends on, unless that processor is gone. Handlers may raise further bits and may change the processor.\<close>

lemma do_softirq_drains:
  fixes \<mu> :: "nat \<Rightarrow> 'a softirq_sys_scheme \<Rightarrow> nat"
  assumes start: "I cpu s"
    and rcu: "\<And>c s. I c s \<Longrightarrow> rcu_pending env c s \<Longrightarrow> I c (rcu_check_callbacks env c s) \<and> \<mu> c (rcu_check_callbacks env c s) \<le> \<mu> c s"
    and handler: "\<And>c s i. I c s \<Longrightarrow> bit (softirq_pending s c) i \<Longrightarrow> \<not> bit ignore_mask i \<Longrightarrow>
      i < NR_SOFTIRQS \<and> (\<exists>f c' s'. softirq_handlers env i = Some f \<and> f (c, clear_softirq c i s) = Inr (c', s') \<and> I c' s' \<and> \<mu> c' s' < \<mu> c s)"
  shows "\<exists>cpu' s'. do_softirq_loop env ignore_mask cpu s = Some (Inr (cpu', s')) \<and> I cpu' s' \<and>
    (softirq_pending s' cpu' AND NOT ignore_mask = 0 \<or> cpu_is_offline env cpu' s')"
proof -
  let ?I = "\<lambda>(left, c, s). I c s \<and> (left \<longrightarrow> softirq_pending s c AND NOT ignore_mask = 0 \<or> cpu_is_offline env c s)"
  let ?m = "\<lambda>(left, c, s). if left then 0 else Suc (\<mu> c s)"
  have "\<exists>x. while_loop (softirq_step env ignore_mask) (False, cpu, s) = Some (Inr x) \<and> ?I x \<and> fst x"
  proof (rule while_loop_rule[where \<mu> = ?m])
    show "?I (False, cpu, s)" using start by simp
    fix x assume "?I x"
    then obtain lf c s where x: "x = (lf, c, s)" "I c s" "lf \<longrightarrow> softirq_pending s c AND NOT ignore_mask = 0 \<or> cpu_is_offline env c s" by (cases x) auto
    define s1 where "s1 = (if rcu_pending env c s then rcu_check_callbacks env c s else s)"
    have s1: "I c s1" "\<mu> c s1 \<le> \<mu> c s" using rcu[OF x(2)] x(2) by (simp_all add: s1_def)
    let ?p = "softirq_pending s1 c AND NOT ignore_mask"
    show "softirq_step env ignore_mask x = Inr None \<and> fst x \<or> (\<exists>x'. softirq_step env ignore_mask x = Inr (Some x') \<and> ?I x' \<and> ?m x' < ?m x)"
    proof (cases "lf \<or> ?p = 0 \<or> cpu_is_offline env c s1")
      case True
      then show ?thesis using s1 x by (auto simp: softirq_step_def s1_def[symmetric] Let_def)
    next
      case False
      then have "bit ?p (first_bit ?p)" by (intro first_bit_set) simp
      then have b: "bit (softirq_pending s1 c) (first_bit ?p)" "\<not> bit ignore_mask (first_bit ?p)" by (simp_all add: bit_and_iff bit_not_iff)
      from handler[OF s1(1) b] obtain f c' s' where f: "first_bit ?p < NR_SOFTIRQS" "softirq_handlers env (first_bit ?p) = Some f"
        "f (c, clear_softirq c (first_bit ?p) s1) = Inr (c', s')" "I c' s'" "\<mu> c' s' < \<mu> c s1" by blast
      then have "softirq_step env ignore_mask x = Inr (Some (False, c', s'))"
        using False by (simp add: softirq_step_def x(1) s1_def[symmetric] Let_def)
      then show ?thesis using f(4,5) s1(2) False x(1) by (intro disjI2 exI[of _ "(False, c', s')"]) simp
    qed
  qed
  then show ?thesis by (auto simp: do_softirq_loop_def)
qed

text \<open>Two handlers; the first raises the second.\<close>

definition demo_softirqs :: "softirq_sys softirq_env" where
  "demo_softirqs = \<lparr>rcu_pending = (\<lambda>_ _. False), rcu_check_callbacks = (\<lambda>_ s. s), cpu_is_offline = (\<lambda>_ _. False),
     softirq_handlers = [0 \<mapsto> \<lambda>(c, s). Inr (c, raise_softirq c 1 s), 1 \<mapsto> \<lambda>(c, s). Inr (c, s)]\<rparr>"

lemma do_softirq_drains_witness:
  "\<exists>cpu' s'. do_softirq_loop demo_softirqs 0 3 \<lparr>softirq_pending = (\<lambda>_. 1), event_checks = []\<rparr> = Some (Inr (cpu', s')) \<and> softirq_pending s' cpu' = 0"
proof -
  let ?m = "\<lambda>c s. (if bit (softirq_pending s c) 0 then 2 else 0 :: nat) + (if bit (softirq_pending s c) 1 then 1 else 0)"
  let ?I = "\<lambda>c (s :: softirq_sys). \<forall>i. bit (softirq_pending s c) i \<longrightarrow> i < 2"
  have "\<exists>cpu' s'. do_softirq_loop demo_softirqs 0 3 \<lparr>softirq_pending = (\<lambda>_. 1), event_checks = []\<rparr> = Some (Inr (cpu', s')) \<and> ?I cpu' s' \<and>
    (softirq_pending s' cpu' AND NOT 0 = 0 \<or> cpu_is_offline demo_softirqs cpu' s')"
  proof (rule do_softirq_drains[where \<mu> = ?m])
    fix c and s :: softirq_sys and i assume "?I c s" "bit (softirq_pending s c) i"
    moreover from this have "i = 0 \<or> i = 1" by force
    ultimately show "i < NR_SOFTIRQS \<and> (\<exists>f c' s'. softirq_handlers demo_softirqs i = Some f \<and> f (c, clear_softirq c i s) = Inr (c', s') \<and>
      ?I c' s' \<and> ?m c' s' < ?m c s)" by (auto simp: NR_SOFTIRQS_def demo_softirqs_def)
  qed (auto simp: demo_softirqs_def bit_1_iff)
  moreover have "cpu_is_offline demo_softirqs = (\<lambda>_ _. False)" by (simp add: demo_softirqs_def)
  ultimately show ?thesis by auto
qed

end
