(* ===== verification/Tasklet.thy ===== *)
theory Tasklet
  imports Softirq
begin

unbundle bit_operations_syntax

text \<open>
  Tasklets, \<open>common/tasklet.c\<close>, with the part of \<open>schedule()\<close> that serves them: functions that are queued for a
  processor and run there later, in softirq context or by its idle virtual processor. All lists and
  tasklets are protected by one lock, which is dropped while the function of a tasklet runs; what happens
  under the lock is one step, and the steps of all processors interleave freely.
\<close>

section \<open>State\<close>

text \<open>
  \<open>t_list\<close> is the member \<open>list\<close>: the list the tasklet is on, \<open>None\<close> when it is linked to itself. A list is given by
  the context (\<open>True\<close>: \<open>softirq_tasklet_list\<close>, \<open>False\<close>: \<open>tasklet_list\<close>) and the processor. \<open>func\<close> and \<open>data\<close> are the
  tasklet's own business and not represented.
\<close>

record tasklet =
  t_list :: "(bool \<times> nat) option"
  scheduled_on :: int
  is_softirq :: bool
  is_running :: bool
  is_dead :: bool

text \<open>A processor is down, between \<open>CPU_UP_PREPARE\<close> and being online, or online.\<close>

datatype cpu_phase = Cpu_down | Cpu_prepared | Cpu_online

text \<open>\<open>frames\<close>: the tasklets whose function a processor is in, innermost first, with the context they were taken in.\<close>

record tasklet_sys = softirq_sys +
  tasklets_initialised :: bool
  tasklets :: "nat \<Rightarrow> tasklet"
  tlists :: "bool \<Rightarrow> nat \<Rightarrow> nat list"
  tasklet_work_to_do :: "nat \<Rightarrow> u64"
  cpu_phase :: "nat \<Rightarrow> cpu_phase"
  frames :: "nat \<Rightarrow> (bool \<times> nat) list"

definition put_tasklet :: "nat \<Rightarrow> tasklet \<Rightarrow> tasklet_sys \<Rightarrow> tasklet_sys" where
  "put_tasklet t x s = s\<lparr>tasklets := (tasklets s)(t := x)\<rparr>"

definition put_tlist :: "bool \<Rightarrow> nat \<Rightarrow> nat list \<Rightarrow> tasklet_sys \<Rightarrow> tasklet_sys" where
  "put_tlist q c l s = s\<lparr>tlists := (tlists s)(q := (tlists s q)(c := l))\<rparr>"

text \<open>\<open>list_add_tail\<close> and \<open>list_del\<close>; taking a tasklet off that is linked to itself changes nothing.\<close>

definition link_tail :: "nat \<Rightarrow> bool \<Rightarrow> nat \<Rightarrow> tasklet_sys \<Rightarrow> tasklet_sys" where
  "link_tail t q c s = put_tasklet t ((tasklets s t)\<lparr>t_list := Some (q, c)\<rparr>) (put_tlist q c (tlists s q c @ [t]) s)"

definition unlink :: "nat \<Rightarrow> tasklet_sys \<Rightarrow> tasklet_sys" where
  "unlink t s =
     (case t_list (tasklets s t) of
        None \<Rightarrow> s
      | Some (q, c) \<Rightarrow> put_tasklet t ((tasklets s t)\<lparr>t_list := None\<rparr>) (put_tlist q c (remove1 t (tlists s q c)) s))"

section \<open>Operations\<close>

definition TASKLET_enqueued :: u64 where "TASKLET_enqueued = 1"

definition TASKLET_scheduled :: u64 where "TASKLET_scheduled = 2"

definition put_work :: "nat \<Rightarrow> u64 \<Rightarrow> tasklet_sys \<Rightarrow> tasklet_sys" where
  "put_work c w s = s\<lparr>tasklet_work_to_do := (tasklet_work_to_do s)(c := w)\<rparr>"

definition tasklet_enqueue :: "nat \<Rightarrow> nat \<Rightarrow> tasklet_sys \<Rightarrow> tasklet_sys result" where
  "tasklet_enqueue me t s =
     (let cpu = nat (scheduled_on (tasklets s t)); q = is_softirq (tasklets s t) in
      if scheduled_on (tasklets s t) < 0 then Inl Out_of_bounds
      else if q then
        let was_empty = tlists s q cpu = []; s = link_tail t q cpu s
        in Inr (if was_empty then cpu_raise_softirq_on me cpu TASKLET_SOFTIRQ s else s)
      else
        let s = link_tail t q cpu s; was_set = bit (tasklet_work_to_do s cpu) 0;
            s = put_work cpu (set_bit 0 (tasklet_work_to_do s cpu)) s
        in Inr (if \<not> was_set then cpu_raise_softirq_on me cpu SCHEDULE_SOFTIRQ s else s))"

definition tasklet_schedule_on_cpu :: "nat \<Rightarrow> nat \<Rightarrow> nat \<Rightarrow> tasklet_sys \<Rightarrow> tasklet_sys result" where
  "tasklet_schedule_on_cpu me t cpu s =
     (if tasklets_initialised s \<and> \<not> is_dead (tasklets s t) then
        let s = put_tasklet t ((tasklets s t)\<lparr>scheduled_on := int cpu\<rparr>) s
        in if \<not> is_running (tasklets s t) then tasklet_enqueue me t (unlink t s) else Inr s
      else Inr s)"

definition tasklet_schedule :: "nat \<Rightarrow> nat \<Rightarrow> tasklet_sys \<Rightarrow> tasklet_sys result" where
  "tasklet_schedule me t s = tasklet_schedule_on_cpu me t me s"

text \<open>\<open>do_tasklet_work\<close> up to the call of the function, and what follows it.\<close>

definition do_tasklet_work_begin :: "nat \<Rightarrow> bool \<Rightarrow> tasklet_sys \<Rightarrow> (nat option \<times> tasklet_sys) result" where
  "do_tasklet_work_begin cpu q s =
     (if tlists s q cpu = [] \<or> cpu_phase s cpu \<noteq> Cpu_online then Inr (None, s)
      else
        let t = hd (tlists s q cpu); s = unlink t s; x = tasklets s t in
        if is_dead x \<or> is_running x \<or> scheduled_on x \<noteq> int cpu then Inl Bug_on
        else Inr (Some t, put_tasklet t (x\<lparr>scheduled_on := - 1, is_running := True\<rparr>) s))"

definition do_tasklet_work_end :: "nat \<Rightarrow> nat \<Rightarrow> tasklet_sys \<Rightarrow> tasklet_sys result" where
  "do_tasklet_work_end me t s =
     (let x = (tasklets s t)\<lparr>is_running := False\<rparr>; s = put_tasklet t x s in
      if scheduled_on x \<ge> 0 then
        if is_dead x \<or> t_list x \<noteq> None then Inl Bug_on else tasklet_enqueue me t s
      else Inr s)"

text \<open>The rest of \<open>do_tasklet\<close> and of \<open>tasklet_softirq_action\<close>, before the lock is dropped.\<close>

definition do_tasklet_rest :: "nat \<Rightarrow> tasklet_sys \<Rightarrow> tasklet_sys" where
  "do_tasklet_rest cpu s =
     (if tlists s False cpu = []
      then raise_softirq cpu SCHEDULE_SOFTIRQ (put_work cpu (unset_bit 0 (tasklet_work_to_do s cpu)) s) else s)"

definition tasklet_softirq_rest :: "nat \<Rightarrow> tasklet_sys \<Rightarrow> tasklet_sys" where
  "tasklet_softirq_rest cpu s =
     (if tlists s True cpu \<noteq> [] \<and> cpu_phase s cpu = Cpu_online then raise_softirq cpu TASKLET_SOFTIRQ s else s)"

definition work_rest :: "bool \<Rightarrow> nat \<Rightarrow> tasklet_sys \<Rightarrow> tasklet_sys" where
  "work_rest q cpu s = (if q then tasklet_softirq_rest cpu s else do_tasklet_rest cpu s)"

definition work_enter :: "bool \<Rightarrow> nat \<Rightarrow> tasklet_sys \<Rightarrow> tasklet_sys result" where
  "work_enter q cpu s =
     bindR (do_tasklet_work_begin cpu q s) (\<lambda>(t, s).
       case t of
         None \<Rightarrow> Inr (work_rest q cpu s)
       | Some t \<Rightarrow> Inr (s\<lparr>frames := (frames s)(cpu := (q, t) # frames s cpu)\<rparr>))"

definition do_tasklet :: "nat \<Rightarrow> tasklet_sys \<Rightarrow> tasklet_sys result" where
  "do_tasklet cpu s =
     (if tasklet_work_to_do s cpu \<noteq> TASKLET_enqueued OR TASKLET_scheduled then Inr s else work_enter False cpu s)"

definition tasklet_softirq_action :: "nat \<Rightarrow> tasklet_sys \<Rightarrow> tasklet_sys result" where
  "tasklet_softirq_action cpu s = work_enter True cpu s"

text \<open>The function of the innermost tasklet returns.\<close>

definition func_returns :: "nat \<Rightarrow> tasklet_sys \<Rightarrow> tasklet_sys result" where
  "func_returns cpu s =
     (case frames s cpu of
        [] \<Rightarrow> Inr s
      | (q, t) # fs \<Rightarrow>
          bindR (do_tasklet_work_end cpu t (s\<lparr>frames := (frames s)(cpu := fs)\<rparr>)) (\<lambda>s. Inr (work_rest q cpu s)))"

text \<open>\<open>tasklet_kill\<close> up to its loop, which waits until the tasklet is not running.\<close>

definition tasklet_kill :: "nat \<Rightarrow> tasklet_sys \<Rightarrow> tasklet_sys result" where
  "tasklet_kill t s =
     (let x = tasklets s t in
      if t_list x \<noteq> None \<and> (is_dead x \<or> is_running x \<or> scheduled_on x < 0) then Inl Bug_on
      else
        let s = unlink t s
        in Inr (put_tasklet t ((tasklets s t)\<lparr>scheduled_on := - 1, is_dead := True\<rparr>) s))"

definition migrate_step :: "nat \<Rightarrow> nat \<Rightarrow> bool \<Rightarrow> tasklet_sys \<Rightarrow> tasklet_sys option result" where
  "migrate_step me cpu q s =
     (case tlists s q cpu of
        [] \<Rightarrow> Inr None
      | t # _ \<Rightarrow>
          if scheduled_on (tasklets s t) \<noteq> int cpu then Inl Bug_on
          else bindR (tasklet_enqueue me t (unlink t (put_tasklet t ((tasklets s t)\<lparr>scheduled_on := int me\<rparr>) s))) (\<lambda>s. Inr (Some s)))"

definition migrate_tasklets_from_cpu :: "nat \<Rightarrow> nat \<Rightarrow> bool \<Rightarrow> tasklet_sys \<Rightarrow> tasklet_sys result option" where
  "migrate_tasklets_from_cpu me cpu q s = while_loop (migrate_step me cpu q) s"

text \<open>Clearing the storage of a tasklet that is still linked breaks the list.\<close>

definition tasklet_init :: "nat \<Rightarrow> tasklet_sys \<Rightarrow> tasklet_sys result" where
  "tasklet_init t s =
     (if t_list (tasklets s t) \<noteq> None then Inl List_corruption
      else Inr (put_tasklet t \<lparr>t_list = None, scheduled_on = - 1, is_softirq = False, is_running = False, is_dead = False\<rparr> s))"

definition softirq_tasklet_init :: "nat \<Rightarrow> tasklet_sys \<Rightarrow> tasklet_sys result" where
  "softirq_tasklet_init t s = bindR (tasklet_init t s) (\<lambda>s. Inr (put_tasklet t ((tasklets s t)\<lparr>is_softirq := True\<rparr>) s))"

text \<open>\<open>INIT_LIST_HEAD\<close> on a list with entries leaves them linked to a list that does not know them.\<close>

definition init_list_head :: "bool \<Rightarrow> nat \<Rightarrow> tasklet_sys \<Rightarrow> tasklet_sys result" where
  "init_list_head q c s = (if tlists s q c \<noteq> [] then Inl List_corruption else Inr (put_tlist q c [] s))"

datatype cpu_action = CPU_UP_PREPARE | CPU_UP_CANCELED | CPU_DEAD | CPU_other

definition cpu_callback :: "nat \<Rightarrow> cpu_action \<Rightarrow> nat \<Rightarrow> tasklet_sys \<Rightarrow> tasklet_sys result option" where
  "cpu_callback me action cpu s =
     (case action of
        CPU_UP_PREPARE \<Rightarrow> Some (bindR (init_list_head False cpu s) (init_list_head True cpu))
      | CPU_UP_CANCELED \<Rightarrow> bindO (migrate_tasklets_from_cpu me cpu False s) (migrate_tasklets_from_cpu me cpu True)
      | CPU_DEAD \<Rightarrow> bindO (migrate_tasklets_from_cpu me cpu False s) (migrate_tasklets_from_cpu me cpu True)
      | CPU_other \<Rightarrow> Some (Inr s))"

text \<open>Registering the notifier and the handler is what makes the steps of the next section happen.\<close>

definition tasklet_subsys_init :: "nat \<Rightarrow> tasklet_sys \<Rightarrow> tasklet_sys result option" where
  "tasklet_subsys_init me s = bindO (cpu_callback me CPU_UP_PREPARE me s) (\<lambda>s. Some (Inr (s\<lparr>tasklets_initialised := True\<rparr>)))"

text \<open>The first switch of \<open>schedule()\<close>; the result tells the policy that the idle virtual processor has work.\<close>

definition schedule_tasklet_work :: "nat \<Rightarrow> tasklet_sys \<Rightarrow> (bool \<times> tasklet_sys) result" where
  "schedule_tasklet_work cpu s =
     (let w = tasklet_work_to_do s cpu in
      if w = TASKLET_enqueued then Inr (True, put_work cpu (set_bit 1 w) s)
      else if w = TASKLET_enqueued OR TASKLET_scheduled then Inr (True, s)
      else if w = TASKLET_scheduled then Inr (False, put_work cpu (unset_bit 1 w) s)
      else if w = 0 then Inr (False, s)
      else Inl Bug_on)"

section \<open>Interleaving\<close>

text \<open>
  The steps of the whole system. \<open>Schedule_softirq\<close> is the handler of \<open>SCHEDULE_SOFTIRQ\<close> as far as tasklets go,
  \<open>Tasklet_softirq\<close> that of \<open>TASKLET_SOFTIRQ\<close>; processors come and go with the calls their notifier gets.
\<close>

datatype tasklet_op =
    Init nat bool | Schedule_on nat nat nat | Do_tasklet nat | Tasklet_softirq nat | Schedule_softirq nat | Returns nat | Kill nat
  | Subsys_init nat | Up_prepare nat nat | Online nat | Offline nat | Dead nat nat

definition set_phase :: "nat \<Rightarrow> cpu_phase \<Rightarrow> tasklet_sys \<Rightarrow> tasklet_sys" where
  "set_phase c p s = s\<lparr>cpu_phase := (cpu_phase s)(c := p)\<rparr>"

definition tasklet_step :: "tasklet_op \<Rightarrow> tasklet_sys \<Rightarrow> tasklet_sys result option" where
  "tasklet_step op s =
     (case op of
        Init t q \<Rightarrow> Some (if q then softirq_tasklet_init t s else tasklet_init t s)
      | Schedule_on me t c \<Rightarrow> Some (tasklet_schedule_on_cpu me t c s)
      | Do_tasklet c \<Rightarrow> Some (do_tasklet c s)
      | Tasklet_softirq c \<Rightarrow> Some (tasklet_softirq_action c (clear_softirq c TASKLET_SOFTIRQ s))
      | Schedule_softirq c \<Rightarrow> Some (bindR (schedule_tasklet_work c (clear_softirq c SCHEDULE_SOFTIRQ s)) (\<lambda>(_, s). Inr s))
      | Returns c \<Rightarrow> Some (func_returns c s)
      | Kill t \<Rightarrow> Some (tasklet_kill t s)
      | Subsys_init me \<Rightarrow> tasklet_subsys_init me s
      | Up_prepare me c \<Rightarrow> bindO (cpu_callback me CPU_UP_PREPARE c s) (\<lambda>s. Some (Inr (set_phase c Cpu_prepared s)))
      | Online c \<Rightarrow> Some (Inr (set_phase c Cpu_online s))
      | Offline c \<Rightarrow> Some (Inr (set_phase c Cpu_down s))
      | Dead me c \<Rightarrow> bindO (cpu_callback me CPU_DEAD c s) (\<lambda>s. Some (Inr (set_phase c Cpu_down s))))"

text \<open>
  When a step can happen: handlers run on online processors with the bit pending, a processor that comes up or is
  gone executes nothing, the subsystem is initialised once, and nobody clears the storage of a tasklet in use.
  A processor may be prepared whatever its lists hold: \<open>cpu_callback\<close> does not look at them. (Callers name
  processors that have been prepared before; the lists of one that never was are taken as empty.)
\<close>

definition enabled :: "tasklet_op \<Rightarrow> tasklet_sys \<Rightarrow> bool" where
  "enabled op s \<longleftrightarrow>
     (case op of
        Init t q \<Rightarrow> \<not> is_running (tasklets s t) \<and> t_list (tasklets s t) = None
      | Tasklet_softirq c \<Rightarrow> cpu_phase s c = Cpu_online \<and> bit (softirq_pending s c) TASKLET_SOFTIRQ
      | Schedule_softirq c \<Rightarrow> cpu_phase s c = Cpu_online \<and> bit (softirq_pending s c) SCHEDULE_SOFTIRQ
      | Returns c \<Rightarrow> frames s c \<noteq> []
      | Subsys_init me \<Rightarrow> \<not> tasklets_initialised s
      | Up_prepare me c \<Rightarrow> cpu_phase s c = Cpu_down \<and> frames s c = []
      | Online c \<Rightarrow> cpu_phase s c = Cpu_prepared
      | Offline c \<Rightarrow> cpu_phase s c = Cpu_online
      | Dead me c \<Rightarrow> cpu_phase s c \<noteq> Cpu_online \<and> frames s c = [] \<and> me \<noteq> c
      | _ \<Rightarrow> True)"

inductive tasklet_run :: "tasklet_sys \<Rightarrow> tasklet_op list \<Rightarrow> tasklet_sys \<Rightarrow> bool" where
  run_nil: "tasklet_run s [] s"
| run_step: "enabled op s \<Longrightarrow> tasklet_step op s = Some (Inr s') \<Longrightarrow> tasklet_run s' ops s'' \<Longrightarrow> tasklet_run s (op # ops) s''"

inductive_simps tasklet_run_simps: "tasklet_run s [] s'" "tasklet_run s (op # ops) s'"

text \<open>The one step that can go wrong: a processor comes up again while tasklets wait on a list of it.\<close>

definition resets_list :: "tasklet_op \<Rightarrow> tasklet_sys \<Rightarrow> bool" where
  "resets_list op s \<longleftrightarrow> (case op of Up_prepare me c \<Rightarrow> tlists s False c \<noteq> [] \<or> tlists s True c \<noteq> [] | _ \<Rightarrow> False)"

text \<open>At boot: only processor \<open>c0\<close> is up, and nothing is queued.\<close>

definition boot_tasklets :: "nat \<Rightarrow> tasklet_sys" where
  "boot_tasklets c0 =
     \<lparr>softirq_pending = (\<lambda>_. 0), event_checks = [], tasklets_initialised = False,
      tasklets = (\<lambda>_. \<lparr>t_list = None, scheduled_on = - 1, is_softirq = False, is_running = False, is_dead = False\<rparr>),
      tlists = (\<lambda>_ _. []), tasklet_work_to_do = (\<lambda>_. 0), cpu_phase = (\<lambda>_. Cpu_down)(c0 := Cpu_online), frames = (\<lambda>_. [])\<rparr>"

section \<open>The invariant\<close>

text \<open>The processor will look at its list: a softirq is pending or its handler active, or the idle virtual processor has been asked for.\<close>

definition notified :: "tasklet_sys \<Rightarrow> bool \<Rightarrow> nat \<Rightarrow> bool" where
  "notified s q c \<longleftrightarrow>
     (if q then cpu_phase s c \<noteq> Cpu_down \<and> tlists s True c \<noteq> [] \<longrightarrow> bit (softirq_pending s c) TASKLET_SOFTIRQ \<or> (\<exists>t. (True, t) \<in> set (frames s c))
      else (tlists s False c \<noteq> [] \<longrightarrow> bit (tasklet_work_to_do s c) 0) \<and>
        (bit (tasklet_work_to_do s c) 0 \<longrightarrow> bit (softirq_pending s c) SCHEDULE_SOFTIRQ \<or> bit (tasklet_work_to_do s c) 1))"

text \<open>
  Lists and links agree, queued tasklets wait for the processor of their list, a tasklet is marked running exactly
  while one processor is in its function, and no wish to run is forgotten. \<open>X\<close> are tasklets just taken in hand,
  \<open>Y\<close> lists whose notice has just been used up.
\<close>

definition lists_inv :: "nat set \<Rightarrow> tasklet_sys \<Rightarrow> bool" where
  "lists_inv X s \<longleftrightarrow>
     (\<forall>t q c. t_list (tasklets s t) = Some (q, c) \<longleftrightarrow> t \<in> set (tlists s q c)) \<and>
     (\<forall>q c. distinct (tlists s q c)) \<and>
     (\<forall>t q c. t_list (tasklets s t) = Some (q, c) \<longrightarrow>
        is_softirq (tasklets s t) = q \<and> scheduled_on (tasklets s t) = int c \<and> \<not> is_running (tasklets s t) \<and> \<not> is_dead (tasklets s t)) \<and>
     (\<forall>t. is_dead (tasklets s t) \<longrightarrow> scheduled_on (tasklets s t) < 0) \<and>
     (\<forall>t. t \<notin> X \<longrightarrow> 0 \<le> scheduled_on (tasklets s t) \<longrightarrow> is_running (tasklets s t) \<or> t_list (tasklets s t) \<noteq> None)"

definition frames_inv :: "tasklet_sys \<Rightarrow> bool" where
  "frames_inv s \<longleftrightarrow>
     (\<forall>t. is_running (tasklets s t) \<longleftrightarrow> (\<exists>c. t \<in> snd ` set (frames s c))) \<and>
     (\<forall>c. distinct (map snd (frames s c))) \<and>
     (\<forall>c c' t. t \<in> snd ` set (frames s c) \<longrightarrow> t \<in> snd ` set (frames s c') \<longrightarrow> c = c') \<and>
     (\<forall>c. cpu_phase s c = Cpu_prepared \<longrightarrow> frames s c = [])"

definition work_inv :: "(bool \<times> nat) set \<Rightarrow> tasklet_sys \<Rightarrow> bool" where
  "work_inv Y s \<longleftrightarrow> (\<forall>c k. bit (tasklet_work_to_do s c) k \<longrightarrow> k < 2) \<and> (\<forall>q c. (q, c) \<notin> Y \<longrightarrow> notified s q c)"

definition idle_before_init :: "tasklet_sys \<Rightarrow> bool" where
  "idle_before_init s \<longleftrightarrow> (\<not> tasklets_initialised s \<longrightarrow> (\<forall>q c. tlists s q c = []) \<and> (\<forall>c. frames s c = []))"

definition tasklet_inv :: "nat set \<Rightarrow> (bool \<times> nat) set \<Rightarrow> tasklet_sys \<Rightarrow> bool" where
  "tasklet_inv X Y s \<longleftrightarrow> lists_inv X s \<and> frames_inv s \<and> work_inv Y s"

end
