(* ===== verification/Tasklet_Properties.thy ===== *)
theory Tasklet_Properties
  imports Tasklet
begin

unbundle bit_operations_syntax

text \<open>
  Every interleaving of the tasklet operations keeps the invariant of \<open>Tasklet\<close>; from it follow the promises of
  \<open>common/tasklet.c\<close>: a tasklet runs on at most one processor at a time, none is forgotten, a killed one stays away.
\<close>

section \<open>Lists\<close>

lemma softirq_numbers [simp]: "SCHEDULE_SOFTIRQ = 1" "TASKLET_SOFTIRQ = 4"
  by (simp_all add: SCHEDULE_SOFTIRQ_def TASKLET_SOFTIRQ_def)

lemma unlink_eq:
  assumes "lists_inv X s"
  shows "unlink t s = s\<lparr>tasklets := (tasklets s)(t := (tasklets s t)\<lparr>t_list := None\<rparr>), tlists := (\<lambda>q c. removeAll t (tlists s q c))\<rparr>"
proof (cases "t_list (tasklets s t)")
  case None
  then have "t \<notin> set (tlists s q c)" for q c using assms unfolding lists_inv_def by (metis option.distinct(1))
  then have "removeAll t (tlists s q c) = tlists s q c" for q c by (metis removeAll_id)
  moreover have "(tasklets s)(t := (tasklets s t)\<lparr>t_list := None\<rparr>) = tasklets s" using None by (simp add: fun_eq_iff)
  ultimately show ?thesis using None by (simp add: unlink_def)
next
  case (Some l)
  obtain q c where l: "l = (q, c)" by (cases l)
  have "t \<notin> set (tlists s q' c')" if "(q', c') \<noteq> (q, c)" for q' c' using assms Some l that unfolding lists_inv_def by (metis option.inject)
  then have other: "removeAll t (tlists s q' c') = tlists s q' c'" if "(q', c') \<noteq> (q, c)" for q' c' using that by (metis removeAll_id)
  have "distinct (tlists s q c)" using assms by (simp add: lists_inv_def)
  then have "remove1 t (tlists s q c) = removeAll t (tlists s q c)" by (simp add: distinct_remove1_removeAll)
  then have "(tlists s)(q := (tlists s q)(c := remove1 t (tlists s q c))) = (\<lambda>q c. removeAll t (tlists s q c))"
    using other by (auto simp: fun_eq_iff)
  then show ?thesis using Some l by (simp add: unlink_def put_tasklet_def put_tlist_def)
qed

lemma unlink_lists:
  assumes "lists_inv X s"
  shows "lists_inv (insert t X) (unlink t s)"
  unfolding unlink_eq[OF assms] using assms unfolding lists_inv_def by (auto simp: distinct_removeAll)

lemma tasklet_loose:
  assumes "lists_inv X s" "t_list (tasklets s t) = None"
  shows "t \<notin> set (tlists s q c)"
  using assms unfolding lists_inv_def by (metis option.distinct(1))

text \<open>A tasklet that is on no list may change, as long as the dead are not scheduled.\<close>

lemma put_lists:
  assumes "lists_inv X s" "t_list (tasklets s t) = None" "t_list x = None" "is_dead x \<Longrightarrow> scheduled_on x < 0"
    "t \<in> X' \<or> scheduled_on x < 0 \<or> is_running x" "X \<subseteq> insert t X'"
  shows "lists_inv X' (put_tasklet t x s)"
  using assms tasklet_loose[OF assms(1,2)] unfolding lists_inv_def put_tasklet_def by auto

lemma link_lists:
  assumes "lists_inv {t} s" "t_list (tasklets s t) = None" "scheduled_on (tasklets s t) = int c" "is_softirq (tasklets s t) = q"
    "\<not> is_running (tasklets s t)" "\<not> is_dead (tasklets s t)"
  shows "lists_inv {} (link_tail t q c s)"
  using assms tasklet_loose[OF assms(1,2)] unfolding lists_inv_def link_tail_def put_tasklet_def put_tlist_def by auto

section \<open>Queueing\<close>

text \<open>What \<open>tasklet_enqueue\<close> does not touch.\<close>

definition same_tasklets :: "nat \<Rightarrow> tasklet_sys \<Rightarrow> tasklet_sys \<Rightarrow> bool" where
  "same_tasklets t s s' \<longleftrightarrow> frames s' = frames s \<and> cpu_phase s' = cpu_phase s \<and> tasklets_initialised s' = tasklets_initialised s \<and>
     (\<forall>u. is_dead (tasklets s' u) = is_dead (tasklets s u) \<and> is_running (tasklets s' u) = is_running (tasklets s u) \<and>
        is_softirq (tasklets s' u) = is_softirq (tasklets s u) \<and> (u \<noteq> t \<longrightarrow> tasklets s' u = tasklets s u))"

lemma raise_other [simp]:
  "tasklets (raise_softirq c nr s) = tasklets s" "tlists (raise_softirq c nr s) = tlists s" "frames (raise_softirq c nr s) = frames s"
  "cpu_phase (raise_softirq c nr s) = cpu_phase s" "tasklet_work_to_do (raise_softirq c nr s) = tasklet_work_to_do s"
  "tasklets_initialised (raise_softirq c nr s) = tasklets_initialised s"
  by (simp_all add: raise_softirq_def)

lemma raise_on_other [simp]:
  "tasklets (cpu_raise_softirq_on me c nr s) = tasklets s" "tlists (cpu_raise_softirq_on me c nr s) = tlists s"
  "frames (cpu_raise_softirq_on me c nr s) = frames s" "cpu_phase (cpu_raise_softirq_on me c nr s) = cpu_phase s"
  "tasklet_work_to_do (cpu_raise_softirq_on me c nr s) = tasklet_work_to_do s"
  "tasklets_initialised (cpu_raise_softirq_on me c nr s) = tasklets_initialised s"
  by (simp_all add: cpu_raise_softirq_on_def Let_def)

lemma clear_other [simp]:
  "tasklets (clear_softirq c nr s) = tasklets s" "tlists (clear_softirq c nr s) = tlists s" "frames (clear_softirq c nr s) = frames s"
  "cpu_phase (clear_softirq c nr s) = cpu_phase s" "tasklet_work_to_do (clear_softirq c nr s) = tasklet_work_to_do s"
  "tasklets_initialised (clear_softirq c nr s) = tasklets_initialised s"
  by (simp_all add: clear_softirq_def)

lemma link_other [simp]:
  "frames (link_tail t q c s) = frames s" "cpu_phase (link_tail t q c s) = cpu_phase s" "tasklets_initialised (link_tail t q c s) = tasklets_initialised s"
  "tasklet_work_to_do (link_tail t q c s) = tasklet_work_to_do s" "softirq_pending (link_tail t q c s) = softirq_pending s"
  "tasklets (link_tail t q c s) = (tasklets s)(t := (tasklets s t)\<lparr>t_list := Some (q, c)\<rparr>)"
  "tlists (link_tail t q c s) = (tlists s)(q := (tlists s q)(c := tlists s q c @ [t]))"
  by (simp_all add: link_tail_def put_tasklet_def put_tlist_def)

lemma put_other [simp]:
  "frames (put_tasklet t x s) = frames s" "cpu_phase (put_tasklet t x s) = cpu_phase s" "tasklets_initialised (put_tasklet t x s) = tasklets_initialised s"
  "tasklet_work_to_do (put_tasklet t x s) = tasklet_work_to_do s" "softirq_pending (put_tasklet t x s) = softirq_pending s"
  "tasklets (put_tasklet t x s) = (tasklets s)(t := x)" "tlists (put_tasklet t x s) = tlists s"
  by (simp_all add: put_tasklet_def)

lemma work_other [simp]:
  "frames (put_work c w s) = frames s" "cpu_phase (put_work c w s) = cpu_phase s" "tasklets_initialised (put_work c w s) = tasklets_initialised s"
  "tasklet_work_to_do (put_work c w s) = (tasklet_work_to_do s)(c := w)" "softirq_pending (put_work c w s) = softirq_pending s"
  "tasklets (put_work c w s) = tasklets s" "tlists (put_work c w s) = tlists s"
  by (simp_all add: put_work_def)

lemma lists_inv_cong: "tasklets s' = tasklets s \<Longrightarrow> tlists s' = tlists s \<Longrightarrow> lists_inv X s' = lists_inv X s"
  by (simp add: lists_inv_def)

lemma lists_inv_frames [simp]: "lists_inv X (s\<lparr>frames := g\<rparr>) = lists_inv X s"
  by (rule lists_inv_cong) simp_all

lemma frames_inv_cong:
  "frames s' = frames s \<Longrightarrow> cpu_phase s' = cpu_phase s \<Longrightarrow> (\<forall>u. is_running (tasklets s' u) = is_running (tasklets s u)) \<Longrightarrow> frames_inv s' = frames_inv s"
  by (simp add: frames_inv_def)

lemma enqueue_ok:
  assumes inv: "tasklet_inv {t} Y s" and t: "t_list (tasklets s t) = None" "scheduled_on (tasklets s t) = int c"
    "\<not> is_running (tasklets s t)" "\<not> is_dead (tasklets s t)"
  shows "\<exists>s'. tasklet_enqueue me t s = Inr s' \<and> tasklet_inv {} Y s' \<and> same_tasklets t s s' \<and>
    tlists s' = (tlists (link_tail t (is_softirq (tasklets s t)) c s)) \<and> tasklets s' t = (tasklets s t)\<lparr>t_list := Some (is_softirq (tasklets s t), c)\<rparr>"
proof -
  define q where "q = is_softirq (tasklets s t)"
  let ?l = "link_tail t q c s"
  have li: "lists_inv {} ?l" using link_lists[of t s c q] inv t by (simp add: tasklet_inv_def q_def)
  define s' where "s' = (if q then (if tlists s True c = [] then cpu_raise_softirq_on me c TASKLET_SOFTIRQ ?l else ?l)
    else (let s1 = put_work c (set_bit 0 (tasklet_work_to_do s c)) ?l in
      if \<not> bit (tasklet_work_to_do s c) 0 then cpu_raise_softirq_on me c SCHEDULE_SOFTIRQ s1 else s1))"
  have enq: "tasklet_enqueue me t s = Inr s'"
    using t(2) by (simp add: tasklet_enqueue_def s'_def q_def[symmetric] Let_def)
  have eqs: "tasklets s' = tasklets ?l" "tlists s' = tlists ?l" "frames s' = frames s" "cpu_phase s' = cpu_phase s"
    "tasklets_initialised s' = tasklets_initialised s"
    by (simp_all add: s'_def Let_def)
  have pend: "bit (softirq_pending s x) k \<Longrightarrow> bit (softirq_pending s' x) k" for x k by (simp add: s'_def Let_def)
  have wk: "bit (tasklet_work_to_do s' x) k \<longleftrightarrow> bit (tasklet_work_to_do s x) k \<or> \<not> q \<and> x = c \<and> k = 0" for x k
    by (auto simp: s'_def Let_def bit_set_bit_iff)
  have wi: "work_inv Y s" using inv by (simp add: tasklet_inv_def)
  have "notified s' p x" if "notified s p x" for p x
  proof (cases "p = q \<and> x = c")
    case True
    then show ?thesis using that unfolding notified_def eqs wk
      by (auto simp: s'_def Let_def bit_set_bit_iff)
  next
    case False
    then show ?thesis using that pend unfolding notified_def eqs wk by (auto simp: fun_upd_def)
  qed
  then have "work_inv Y s'" using wi by (auto simp: work_inv_def wk)
  moreover have "lists_inv {} s'" using li lists_inv_cong eqs by metis
  moreover have "frames_inv s'" using inv frames_inv_cong[of s' s] eqs by (simp add: tasklet_inv_def)
  ultimately show ?thesis using enq eqs by (simp add: tasklet_inv_def same_tasklets_def q_def)
qed

text \<open>Taking a tasklet in hand, and changing it while it is.\<close>

lemma unlink_same:
  assumes "tasklet_inv X Y s"
  shows "tasklet_inv (insert t X) Y (unlink t s)"
    and "tasklets (unlink t s) = (tasklets s)(t := (tasklets s t)\<lparr>t_list := None\<rparr>)" "tlists (unlink t s) = (\<lambda>q c. removeAll t (tlists s q c))"
    "frames (unlink t s) = frames s" "cpu_phase (unlink t s) = cpu_phase s" "softirq_pending (unlink t s) = softirq_pending s"
    "tasklet_work_to_do (unlink t s) = tasklet_work_to_do s" "tasklets_initialised (unlink t s) = tasklets_initialised s"
proof -
  have li: "lists_inv X s" using assms by (simp add: tasklet_inv_def)
  note u = unlink_eq[OF li, of t]
  show f: "tasklets (unlink t s) = (tasklets s)(t := (tasklets s t)\<lparr>t_list := None\<rparr>)" "tlists (unlink t s) = (\<lambda>q c. removeAll t (tlists s q c))"
    "frames (unlink t s) = frames s" "cpu_phase (unlink t s) = cpu_phase s" "softirq_pending (unlink t s) = softirq_pending s"
    "tasklet_work_to_do (unlink t s) = tasklet_work_to_do s" "tasklets_initialised (unlink t s) = tasklets_initialised s" by (simp_all add: u)
  have "notified (unlink t s) q c" if "notified s q c" for q c
  proof -
    have "tlists (unlink t s) x c \<noteq> [] \<Longrightarrow> tlists s x c \<noteq> []" for x unfolding f by auto
    then show ?thesis using that unfolding notified_def f(3-7) by auto
  qed
  then have "work_inv Y (unlink t s)" using assms by (auto simp: tasklet_inv_def work_inv_def f)
  moreover have "frames_inv (unlink t s)" using assms frames_inv_cong[of "unlink t s" s] f by (simp add: tasklet_inv_def)
  ultimately show "tasklet_inv (insert t X) Y (unlink t s)" using unlink_lists[OF li] by (simp add: tasklet_inv_def)
qed

lemma put_same:
  assumes "tasklet_inv X Y s" "t_list (tasklets s t) = None" "t_list x = None" "is_dead x \<Longrightarrow> scheduled_on x < 0"
    "t \<in> X' \<or> scheduled_on x < 0 \<or> is_running x" "X \<subseteq> insert t X'" "is_running x = is_running (tasklets s t)"
  shows "tasklet_inv X' Y (put_tasklet t x s)"
proof -
  have "notified (put_tasklet t x s) q c = notified s q c" for q c by (simp add: notified_def)
  then have "work_inv Y (put_tasklet t x s)" using assms(1) by (simp add: tasklet_inv_def work_inv_def)
  moreover have "frames_inv (put_tasklet t x s)" using assms(1,7) frames_inv_cong[of "put_tasklet t x s" s] by (simp add: tasklet_inv_def)
  moreover have "lists_inv X' (put_tasklet t x s)" using put_lists[of X s t x X'] assms by (simp add: tasklet_inv_def)
  ultimately show ?thesis by (simp add: tasklet_inv_def)
qed

lemma unlink_put:
  "unlink t (put_tasklet t ((tasklets s t)\<lparr>scheduled_on := v\<rparr>) s) = put_tasklet t ((tasklets (unlink t s) t)\<lparr>scheduled_on := v\<rparr>) (unlink t s)"
proof -
  have swap: "x\<lparr>scheduled_on := v, t_list := None\<rparr> = x\<lparr>t_list := None, scheduled_on := v\<rparr>" for x :: tasklet by (cases x) simp
  show ?thesis by (cases "t_list (tasklets s t)") (auto simp: unlink_def put_tasklet_def put_tlist_def swap)
qed

text \<open>Moving a tasklet that is not running and not dead to the list of processor \<open>c\<close>.\<close>

lemma tasklet_requeue_ok:
  assumes inv: "tasklet_inv {} Y s" and t: "\<not> is_running (tasklets s t)" "\<not> is_dead (tasklets s t)"
  shows "\<exists>s'. tasklet_enqueue me t (unlink t (put_tasklet t ((tasklets s t)\<lparr>scheduled_on := int c\<rparr>) s)) = Inr s' \<and> tasklet_inv {} Y s' \<and> same_tasklets t s s' \<and>
    tlists s' = (\<lambda>q k. removeAll t (tlists s q k) @ (if q = is_softirq (tasklets s t) \<and> k = c then [t] else [])) \<and> scheduled_on (tasklets s' t) = int c"
proof -
  note u = unlink_same[OF inv, of t]
  let ?s = "put_tasklet t ((tasklets (unlink t s) t)\<lparr>scheduled_on := int c\<rparr>) (unlink t s)"
  have "tasklet_inv {t} Y ?s" by (rule put_same[OF u(1)]) (use t in \<open>simp_all add: u(2)\<close>)
  from enqueue_ok[OF this, of c me] obtain s' where s': "tasklet_enqueue me t ?s = Inr s'" "tasklet_inv {} Y s'" "same_tasklets t ?s s'"
    "tlists s' = tlists (link_tail t (is_softirq (tasklets s t)) c ?s)" "scheduled_on (tasklets s' t) = int c"
    using t by (auto simp: u(2))
  have "same_tasklets t s s'" using s'(3) by (simp add: same_tasklets_def u)
  moreover have "tlists s' = (\<lambda>q k. removeAll t (tlists s q k) @ (if q = is_softirq (tasklets s t) \<and> k = c then [t] else []))"
    unfolding s'(4) by (auto simp: fun_eq_iff u(3))
  ultimately show ?thesis using s' unfolding unlink_put by blast
qed

section \<open>The operations\<close>

text \<open>The dead stay dead, and none of them starts to run.\<close>

definition dead_stay :: "tasklet_sys \<Rightarrow> tasklet_sys \<Rightarrow> bool" where
  "dead_stay s s' \<longleftrightarrow> (\<forall>u. is_dead (tasklets s u) \<longrightarrow> is_dead (tasklets s' u) \<and> (is_running (tasklets s' u) \<longrightarrow> is_running (tasklets s u)))"

lemma same_dead_stay: "same_tasklets t s s' \<Longrightarrow> dead_stay s s'"
  by (simp add: same_tasklets_def dead_stay_def)

lemma dead_stay_trans: "dead_stay s s' \<Longrightarrow> dead_stay s' s'' \<Longrightarrow> dead_stay s s''"
  unfolding dead_stay_def by blast

lemma lists_invD:
  assumes "tasklet_inv X Y s"
  shows "t_list (tasklets s t) = Some (q, c) \<longleftrightarrow> t \<in> set (tlists s q c)" "distinct (tlists s q c)"
    "t_list (tasklets s t) = Some (q, c) \<Longrightarrow>
       is_softirq (tasklets s t) = q \<and> scheduled_on (tasklets s t) = int c \<and> \<not> is_running (tasklets s t) \<and> \<not> is_dead (tasklets s t)"
    "is_dead (tasklets s t) \<Longrightarrow> scheduled_on (tasklets s t) < 0" "is_running (tasklets s t) \<Longrightarrow> t_list (tasklets s t) = None"
    "is_dead (tasklets s t) \<Longrightarrow> t_list (tasklets s t) = None"
proof -
  have l: "lists_inv X s" using assms by (simp add: tasklet_inv_def)
  show "t_list (tasklets s t) = Some (q, c) \<longleftrightarrow> t \<in> set (tlists s q c)" "distinct (tlists s q c)"
    "is_dead (tasklets s t) \<Longrightarrow> scheduled_on (tasklets s t) < 0" using l unfolding lists_inv_def by blast+
  show q: "is_softirq (tasklets s t) = q \<and> scheduled_on (tasklets s t) = int c \<and> \<not> is_running (tasklets s t) \<and> \<not> is_dead (tasklets s t)"
    if "t_list (tasklets s t) = Some (q, c)" for q c using l that unfolding lists_inv_def by blast
  show "is_running (tasklets s t) \<Longrightarrow> t_list (tasklets s t) = None" "is_dead (tasklets s t) \<Longrightarrow> t_list (tasklets s t) = None"
    using q by (metis option.exhaust surj_pair)+
qed

lemma frames_invD:
  assumes "frames_inv s"
  shows "is_running (tasklets s t) \<longleftrightarrow> (\<exists>c. t \<in> snd ` set (frames s c))" "distinct (map snd (frames s c))"
    "t \<in> snd ` set (frames s c) \<Longrightarrow> t \<in> snd ` set (frames s c') \<Longrightarrow> c = c'" "cpu_phase s c = Cpu_prepared \<Longrightarrow> frames s c = []"
  using assms unfolding frames_inv_def by blast+

lemma schedule_on_ok:
  assumes inv: "tasklet_inv {} Y s"
  shows "\<exists>s'. tasklet_schedule_on_cpu me t c s = Inr s' \<and> tasklet_inv {} Y s' \<and> dead_stay s s'"
proof (cases "tasklets_initialised s \<and> \<not> is_dead (tasklets s t)")
  case True
  show ?thesis
  proof (cases "is_running (tasklets s t)")
    case run: True
    let ?s = "put_tasklet t ((tasklets s t)\<lparr>scheduled_on := int c\<rparr>) s"
    have "tasklet_inv {} Y ?s" by (rule put_same[OF inv]) (use True run lists_invD(5)[OF inv run] in simp_all)
    moreover have "dead_stay s ?s" by (simp add: dead_stay_def)
    ultimately show ?thesis using True run by (simp add: tasklet_schedule_on_cpu_def)
  next
    case False
    with tasklet_requeue_ok[OF inv this, of me c] True same_dead_stay show ?thesis by (auto simp: tasklet_schedule_on_cpu_def Let_def)
  qed
next
  case False
  then have "tasklet_schedule_on_cpu me t c s = Inr s" by (auto simp: tasklet_schedule_on_cpu_def)
  then show ?thesis using inv by (simp add: dead_stay_def)
qed

lemma kill_ok:
  assumes inv: "tasklet_inv {} Y s"
  shows "\<exists>s'. tasklet_kill t s = Inr s' \<and> tasklet_inv {} Y s' \<and> dead_stay s s' \<and> is_dead (tasklets s' t)"
proof -
  note u = unlink_same[OF inv, of t]
  let ?s = "put_tasklet t ((tasklets (unlink t s) t)\<lparr>scheduled_on := - 1, is_dead := True\<rparr>) (unlink t s)"
  have "\<not> (t_list (tasklets s t) \<noteq> None \<and> (is_dead (tasklets s t) \<or> is_running (tasklets s t) \<or> scheduled_on (tasklets s t) < 0))"
    using lists_invD(3)[OF inv, of t] by (cases "t_list (tasklets s t)") auto
  then have "tasklet_kill t s = Inr ?s" by (auto simp: tasklet_kill_def Let_def)
  moreover have "tasklet_inv {} Y ?s" by (rule put_same[OF u(1)]) (simp_all add: u)
  moreover have "dead_stay s ?s" "is_dead (tasklets ?s t)" by (simp_all add: dead_stay_def u)
  ultimately show ?thesis by blast
qed

definition used_up :: "bool \<Rightarrow> nat \<Rightarrow> (bool \<times> nat) set" where "used_up q c = (if q then {(True, c)} else {})"

lemma rest_ok:
  assumes inv: "tasklet_inv {} (used_up q c) s" and ph: "q \<Longrightarrow> cpu_phase s c \<noteq> Cpu_prepared"
  shows "tasklet_inv {} {} (work_rest q c s)" "dead_stay s (work_rest q c s)"
proof -
  let ?s = "work_rest q c s"
  have eqs: "tasklets ?s = tasklets s" "tlists ?s = tlists s" "frames ?s = frames s" "cpu_phase ?s = cpu_phase s"
    by (simp_all add: work_rest_def tasklet_softirq_rest_def do_tasklet_rest_def)
  have w: "work_inv (used_up q c) s" using inv by (simp add: tasklet_inv_def)
  have "notified ?s p k" for p k
  proof (cases "p = q \<and> k = c")
    case True
    have "notified s False c" if "\<not> q" using w that by (simp add: work_inv_def used_up_def)
    then show ?thesis using True ph
      by (cases "cpu_phase s c") (auto simp: notified_def work_rest_def tasklet_softirq_rest_def do_tasklet_rest_def bit_unset_bit_iff)
  next
    case False
    then have "notified s p k" using w by (auto simp: work_inv_def used_up_def split: if_splits)
    then show ?thesis using False by (auto simp: notified_def work_rest_def tasklet_softirq_rest_def do_tasklet_rest_def bit_unset_bit_iff)
  qed
  moreover have "\<forall>k b. bit (tasklet_work_to_do ?s k) b \<longrightarrow> b < 2"
    using w by (auto simp: work_inv_def work_rest_def tasklet_softirq_rest_def do_tasklet_rest_def bit_unset_bit_iff)
  ultimately have "work_inv {} ?s" by (simp add: work_inv_def)
  then show "tasklet_inv {} {} ?s" using inv lists_inv_cong[of ?s s] frames_inv_cong[of ?s s] eqs by (simp add: tasklet_inv_def)
  show "dead_stay s ?s" by (simp add: dead_stay_def eqs)
qed

text \<open>A processor enters the function of the first tasklet of its list.\<close>

lemma start_ok:
  assumes inv: "tasklet_inv {} (used_up q c) s" and t: "t \<in> set (tlists s q c)" and ph: "cpu_phase s c \<noteq> Cpu_prepared"
  defines "s' \<equiv> (put_tasklet t ((tasklets (unlink t s) t)\<lparr>scheduled_on := - 1, is_running := True\<rparr>) (unlink t s))\<lparr>frames := (frames s)(c := (q, t) # frames s c)\<rparr>"
  shows "tasklet_inv {} {} s'" "dead_stay s s'"
proof -
  note u = unlink_same[OF inv, of t]
  have qt: "\<not> is_running (tasklets s t)" "\<not> is_dead (tasklets s t)" using lists_invD(1,3)[OF inv, of t q c] t by blast+
  have eqs: "tasklets s' = (tasklets s)(t := (tasklets s t)\<lparr>t_list := None, scheduled_on := - 1, is_running := True\<rparr>)"
    "tlists s' = tlists (unlink t s)" "frames s' = (frames s)(c := (q, t) # frames s c)" "cpu_phase s' = cpu_phase s"
    "tasklet_work_to_do s' = tasklet_work_to_do s" "softirq_pending s' = softirq_pending s" by (simp_all add: s'_def u)
  show "dead_stay s s'" using qt by (auto simp: dead_stay_def eqs)
  have "lists_inv {} (put_tasklet t ((tasklets (unlink t s) t)\<lparr>scheduled_on := - 1, is_running := True\<rparr>) (unlink t s))"
    by (rule put_lists[where X = "{t}"]) (use u(1) qt in \<open>simp_all add: u tasklet_inv_def\<close>)
  then have "lists_inv {} s'" by (simp add: s'_def)
  moreover have "frames_inv s'"
  proof -
    have f: "frames_inv s" using inv by (simp add: tasklet_inv_def)
    then have no: "t \<notin> snd ` set (frames s k)" for k using qt(1) unfolding frames_inv_def by blast
    have fr: "snd ` set (frames s' k) = snd ` set (frames s k) \<union> (if k = c then {t} else {})" for k by (auto simp: eqs)
    show ?thesis unfolding frames_inv_def fr
    proof (intro conjI allI impI)
      fix u show "is_running (tasklets s' u) \<longleftrightarrow> (\<exists>k. u \<in> snd ` set (frames s k) \<union> (if k = c then {t} else {}))"
        using frames_invD(1)[OF f, of u] by (cases "u = t") (auto simp: eqs)
    next
      fix k show "distinct (map snd (frames s' k))" using frames_invD(2)[OF f, of k] no[of k] by (cases "k = c") (auto simp: eqs)
    next
      fix k k' u assume u: "u \<in> snd ` set (frames s k) \<union> (if k = c then {t} else {})" "u \<in> snd ` set (frames s k') \<union> (if k' = c then {t} else {})"
      show "k = k'"
      proof (cases "u = t")
        case True
        then have "k = c" "k' = c" using u no by (metis Un_iff empty_iff)+
        then show ?thesis by simp
      next
        case False
        then have "u \<in> snd ` set (frames s k)" "u \<in> snd ` set (frames s k')" using u by (metis Un_iff empty_iff singletonD)+
        then show ?thesis by (rule frames_invD(3)[OF f])
      qed
    next
      fix k assume "cpu_phase s' k = Cpu_prepared"
      then show "frames s' k = []" using frames_invD(4)[OF f, of k] ph by (cases "k = c") (simp_all add: eqs)
    qed
  qed
  moreover have "work_inv {} s'"
  proof -
    have w: "work_inv (used_up q c) (unlink t s)" using u(1) by (simp add: tasklet_inv_def)
    have "notified s' p k" for p k
    proof (cases "p \<and> q \<and> k = c")
      case True
      then show ?thesis by (auto simp: notified_def eqs)
    next
      case False
      then have "notified (unlink t s) p k" using w by (auto simp: work_inv_def used_up_def split: if_splits)
      then show ?thesis by (auto simp: notified_def eqs u)
    qed
    then show ?thesis using w by (simp add: work_inv_def eqs u)
  qed
  ultimately show "tasklet_inv {} {} s'" by (simp add: tasklet_inv_def)
qed

lemma enter_ok:
  assumes inv: "tasklet_inv {} (used_up q c) s" and ph: "q \<Longrightarrow> cpu_phase s c \<noteq> Cpu_prepared"
  shows "\<exists>s'. work_enter q c s = Inr s' \<and> tasklet_inv {} {} s' \<and> dead_stay s s'"
proof (cases "tlists s q c = [] \<or> cpu_phase s c \<noteq> Cpu_online")
  case True
  then have "work_enter q c s = Inr (work_rest q c s)" by (auto simp: work_enter_def do_tasklet_work_begin_def)
  then show ?thesis using rest_ok[OF inv ph] by blast
next
  case False
  define t where "t = hd (tlists s q c)"
  have t: "t \<in> set (tlists s q c)" using False by (simp add: t_def)
  then have l: "is_softirq (tasklets s t) = q \<and> scheduled_on (tasklets s t) = int c \<and> \<not> is_running (tasklets s t) \<and> \<not> is_dead (tasklets s t)"
    using lists_invD(1,3)[OF inv, of t q c] by blast
  note u = unlink_same[OF inv, of t]
  have "work_enter q c s = Inr ((put_tasklet t ((tasklets (unlink t s) t)\<lparr>scheduled_on := - 1, is_running := True\<rparr>) (unlink t s))\<lparr>frames := (frames s)(c := (q, t) # frames s c)\<rparr>)"
    using False l by (simp add: work_enter_def do_tasklet_work_begin_def t_def[symmetric] Let_def u)
  then show ?thesis using start_ok[OF inv t] False by auto
qed

text \<open>The function has returned: the frame is gone and the tasklet is not running.\<close>

lemma stop_ok:
  fixes s c
  assumes inv: "tasklet_inv {} {} s" and f: "frames s c = (q, t) # fs"
  defines "s' \<equiv> put_tasklet t ((tasklets s t)\<lparr>is_running := False\<rparr>) (s\<lparr>frames := (frames s)(c := fs)\<rparr>)"
  shows "tasklet_inv {t} (used_up q c) s'" "t_list (tasklets s t) = None" "cpu_phase s c \<noteq> Cpu_prepared"
proof -
  have fi: "frames_inv s" using inv by (simp add: tasklet_inv_def)
  have here: "t \<in> snd ` set (frames s c)" by (simp add: f)
  then have run: "is_running (tasklets s t)" using fi unfolding frames_inv_def by blast
  show tl: "t_list (tasklets s t) = None" by (rule lists_invD(5)[OF inv run])
  have "distinct (map snd (frames s c))" using fi unfolding frames_inv_def by blast
  then have dist: "t \<notin> snd ` set fs" "distinct (map snd fs)" by (simp_all add: f)
  have only: "t \<in> snd ` set (frames s k) \<Longrightarrow> k = c" for k using fi here unfolding frames_inv_def by blast
  show ph: "cpu_phase s c \<noteq> Cpu_prepared" using fi f unfolding frames_inv_def by (metis list.distinct(1))
  have "lists_inv {} (s\<lparr>frames := (frames s)(c := fs)\<rparr>)" using inv by (simp add: tasklet_inv_def)
  then have "lists_inv {t} s'" unfolding s'_def by (rule put_lists) (use tl lists_invD(4)[OF inv] in simp_all)
  moreover have "frames_inv s'"
  proof -
    have fr: "snd ` set (frames s' k) = snd ` set (frames s k) - {t}" for k
    proof (cases "k = c")
      case True
      have "snd ` set (frames s c) = insert t (snd ` set fs)" by (simp add: f)
      then show ?thesis using dist(1) unfolding True by (auto simp: s'_def)
    next
      case False
      then have "t \<notin> snd ` set (frames s k)" using only by blast
      then show ?thesis using False by (simp add: s'_def)
    qed
    show ?thesis unfolding frames_inv_def fr
    proof (intro conjI allI impI)
      fix u show "is_running (tasklets s' u) \<longleftrightarrow> (\<exists>k. u \<in> snd ` set (frames s k) - {t})" using frames_invD(1)[OF fi, of u] by (cases "u = t") (simp_all add: s'_def)
    next
      fix k show "distinct (map snd (frames s' k))" using frames_invD(2)[OF fi, of k] dist(2) by (cases "k = c") (simp_all add: s'_def)
    next
      fix k k' u assume "u \<in> snd ` set (frames s k) - {t}" "u \<in> snd ` set (frames s k') - {t}"
      then show "k = k'" using frames_invD(3)[OF fi, of u k k'] by blast
    next
      fix k assume "cpu_phase s' k = Cpu_prepared"
      then have "cpu_phase s k = Cpu_prepared" by (simp add: s'_def)
      then show "frames s' k = []" using frames_invD(4)[OF fi, of k] ph by (cases "k = c") (simp_all add: s'_def)
    qed
  qed
  moreover have "notified s' p k" if "(p, k) \<notin> used_up q c" for p k
  proof -
    have "notified s p k" using inv by (simp add: tasklet_inv_def work_inv_def)
    then show ?thesis using that f by (auto simp: notified_def s'_def used_up_def split: if_splits)
  qed
  then have "work_inv (used_up q c) s'" using inv by (simp add: tasklet_inv_def work_inv_def s'_def)
  ultimately show "tasklet_inv {t} (used_up q c) s'" by (simp add: tasklet_inv_def)
qed

lemma work_end_ok:
  fixes s c
  assumes inv: "tasklet_inv {} {} s" and f: "frames s c = (q, t) # fs"
  defines "x \<equiv> (tasklets s t)\<lparr>is_running := False\<rparr>"
  shows "\<exists>s'. do_tasklet_work_end c t (s\<lparr>frames := (frames s)(c := fs)\<rparr>) = Inr s' \<and> tasklet_inv {} (used_up q c) s' \<and> dead_stay s s' \<and> cpu_phase s' = cpu_phase s \<and>
    (0 \<le> scheduled_on x \<longrightarrow> t \<in> set (tlists s' (is_softirq x) (nat (scheduled_on x))))"
proof -
  define s1 where "s1 = put_tasklet t x (s\<lparr>frames := (frames s)(c := fs)\<rparr>)"
  note st = stop_ok[OF inv f, folded x_def, folded s1_def]
  have d1: "dead_stay s s1" "tasklets s1 t = x" by (auto simp: dead_stay_def s1_def x_def)
  have x: "t_list x = None" "\<not> is_running x" using st(2) by (simp_all add: x_def)
  have e: "do_tasklet_work_end c t (s\<lparr>frames := (frames s)(c := fs)\<rparr>) =
    (if scheduled_on x \<ge> 0 then if is_dead x \<or> t_list x \<noteq> None then Inl Bug_on else tasklet_enqueue c t s1 else Inr s1)"
    by (simp add: do_tasklet_work_end_def x_def s1_def)
  show ?thesis
  proof (cases "scheduled_on x \<ge> 0")
    case True
    then have y: "\<not> is_dead x" "scheduled_on x = int (nat (scheduled_on x))" using lists_invD(4)[OF st(1), of t] by (auto simp: d1(2))
    from enqueue_ok[OF st(1), of "nat (scheduled_on x)" c, unfolded d1(2), OF x(1) y(2) x(2) y(1)] obtain s2 where
      s2: "tasklet_enqueue c t s1 = Inr s2" "tasklet_inv {} (used_up q c) s2" "same_tasklets t s1 s2"
      "tlists s2 = tlists (link_tail t (is_softirq x) (nat (scheduled_on x)) s1)" by blast
    have "cpu_phase s2 = cpu_phase s" using s2(3) by (simp add: same_tasklets_def s1_def)
    then show ?thesis using s2 e True x y dead_stay_trans[OF d1(1) same_dead_stay[OF s2(3)]] by auto
  next
    case False
    then have "lists_inv {} s1" using st(1) d1(2) unfolding tasklet_inv_def lists_inv_def by auto
    then show ?thesis using e st(1) d1 False by (auto simp: tasklet_inv_def s1_def)
  qed
qed

lemma returns_ok:
  assumes inv: "tasklet_inv {} {} s" and f: "frames s c = (q, t) # fs"
  shows "\<exists>s'. func_returns c s = Inr s' \<and> tasklet_inv {} {} s' \<and> dead_stay s s' \<and>
    (0 \<le> scheduled_on (tasklets s t) \<longrightarrow> t \<in> set (tlists s' (is_softirq (tasklets s t)) (nat (scheduled_on (tasklets s t)))))"
proof -
  from work_end_ok[OF assms] obtain s2 where
    s2: "do_tasklet_work_end c t (s\<lparr>frames := (frames s)(c := fs)\<rparr>) = Inr s2" "tasklet_inv {} (used_up q c) s2" "dead_stay s s2" "cpu_phase s2 = cpu_phase s"
    "0 \<le> scheduled_on (tasklets s t) \<longrightarrow> t \<in> set (tlists s2 (is_softirq (tasklets s t)) (nat (scheduled_on (tasklets s t))))" by auto
  have ph: "q \<Longrightarrow> cpu_phase s2 c \<noteq> Cpu_prepared" using stop_ok(3)[OF assms] s2(4) by simp
  have "tlists (work_rest q c s2) = tlists s2" by (simp add: work_rest_def tasklet_softirq_rest_def do_tasklet_rest_def)
  moreover have "func_returns c s = Inr (work_rest q c s2)" using f s2(1) by (simp add: func_returns_def)
  ultimately show ?thesis using rest_ok[OF s2(2) ph] dead_stay_trans[OF s2(3)] s2(5) by auto
qed

text \<open>A processor that is gone: its lists are emptied and nothing else happens to its tasklets.\<close>

lemma migrate_ok:
  assumes inv: "tasklet_inv {} {} s" and me: "me \<noteq> c"
  shows "\<exists>s'. migrate_tasklets_from_cpu me c q s = Some (Inr s') \<and> tasklet_inv {} {} s' \<and> dead_stay s s' \<and> frames s' = frames s \<and>
    cpu_phase s' = cpu_phase s \<and> tlists s' q c = [] \<and> tlists s' (\<not> q) c = tlists s (\<not> q) c"
proof -
  let ?I = "\<lambda>r. tasklet_inv {} {} r \<and> dead_stay s r \<and> frames r = frames s \<and> cpu_phase r = cpu_phase s \<and> tlists r (\<not> q) c = tlists s (\<not> q) c"
  have "\<exists>s'. while_loop (migrate_step me c q) s = Some (Inr s') \<and> ?I s' \<and> tlists s' q c = []"
  proof (rule while_loop_rule[where \<mu> = "\<lambda>r. length (tlists r q c)"])
    show "?I s" using inv by (simp add: dead_stay_def)
    fix r assume r: "?I r"
    show "migrate_step me c q r = Inr None \<and> tlists r q c = [] \<or>
      (\<exists>r'. migrate_step me c q r = Inr (Some r') \<and> ?I r' \<and> length (tlists r' q c) < length (tlists r q c))"
    proof (cases "tlists r q c")
      case Nil
      then show ?thesis by (simp add: migrate_step_def)
    next
      case (Cons t ts)
      have ri: "tasklet_inv {} {} r" using r by blast
      have t: "t \<in> set (tlists r q c)" by (simp add: Cons)
      then have l: "t_list (tasklets r t) = Some (q, c)" using lists_invD(1)[OF ri] by blast
      note x = lists_invD(3)[OF ri l]
      from tasklet_requeue_ok[OF ri, of t me me] x obtain r' where
        r': "tasklet_enqueue me t (unlink t (put_tasklet t ((tasklets r t)\<lparr>scheduled_on := int me\<rparr>) r)) = Inr r'" "tasklet_inv {} {} r'" "same_tasklets t r r'"
        "tlists r' = (\<lambda>p k. removeAll t (tlists r p k) @ (if p = q \<and> k = me then [t] else []))" by blast
      have "t \<notin> set (tlists r (\<not> q) c)" using l lists_invD(1)[OF ri, of t "\<not> q" c] by simp
      then have "tlists r' (\<not> q) c = tlists r (\<not> q) c" by (simp add: r'(4))
      moreover have "length (tlists r' q c) < length (tlists r q c)" using me length_removeAll_less[OF t] by (simp add: r'(4))
      moreover have "migrate_step me c q r = Inr (Some r')" using r'(1) x by (simp add: migrate_step_def Cons)
      moreover have "dead_stay s r'" using r dead_stay_trans same_dead_stay[OF r'(3)] by blast
      ultimately show ?thesis using r r'(2,3) by (intro disjI2 exI[of _ r']) (simp add: same_tasklets_def)
    qed
  qed
  then show ?thesis unfolding migrate_tasklets_from_cpu_def by blast
qed

lemma small_word: "(\<And>k. bit w k \<Longrightarrow> k < 2) \<Longrightarrow> w = 0 \<or> w = 1 \<or> w = 2 \<or> w = (3 :: u64)"
proof -
  assume "\<And>k. bit w k \<Longrightarrow> k < 2"
  then have "take_bit 2 w = w" by (intro bit_eqI) (auto simp: bit_take_bit_iff)
  then have "unat w = take_bit 2 (unat w)" by (metis unsigned_take_bit_eq)
  moreover have "take_bit 2 (unat w) < 2 ^ 2" by (rule take_bit_nat_less_exp)
  ultimately have "unat w < 4" by simp
  then have "unat w = 0 \<or> unat w = 1 \<or> unat w = 2 \<or> unat w = 3" by arith
  then show ?thesis by (simp add: word_unat_eq_iff)
qed

lemma clear_tasklet_ok: "tasklet_inv {} {} s \<Longrightarrow> tasklet_inv {} (used_up True c) (clear_softirq c TASKLET_SOFTIRQ s)"
proof -
  assume inv: "tasklet_inv {} {} s"
  let ?s = "clear_softirq c TASKLET_SOFTIRQ s"
  have "notified ?s q k" if "(q, k) \<notin> used_up True c" for q k
  proof -
    have "notified s q k" using inv by (simp add: tasklet_inv_def work_inv_def)
    then show ?thesis using that by (auto simp: notified_def used_up_def)
  qed
  then have "work_inv (used_up True c) ?s" using inv by (simp add: tasklet_inv_def work_inv_def)
  then show ?thesis using inv lists_inv_cong[of ?s s] frames_inv_cong[of ?s s] by (simp add: tasklet_inv_def)
qed

lemma schedule_ok:
  assumes inv: "tasklet_inv {} {} s"
  shows "\<exists>b s'. schedule_tasklet_work c (clear_softirq c SCHEDULE_SOFTIRQ s) = Inr (b, s') \<and> tasklet_inv {} {} s' \<and> dead_stay s s'"
proof -
  let ?s = "clear_softirq c SCHEDULE_SOFTIRQ s"
  define w v where "w = tasklet_work_to_do s c" and "v = (if bit w 0 then mask 2 else 0 :: u64)"
  have m: "mask 2 = (3 :: u64)" by (simp add: mask_eq_exp_minus_1)
  have bits: "bit (tasklet_work_to_do s k) b \<Longrightarrow> b < 2" for k b using inv by (simp add: tasklet_inv_def work_inv_def)
  have v2: "bit v b \<longleftrightarrow> bit w 0 \<and> b < 2" for b by (auto simp: v_def bit_mask_iff)
  have k: "set_bit 1 (1 :: u64) = 3" "unset_bit 1 (2 :: u64) = 0" by code_simp+
  have "?s\<lparr>tasklet_work_to_do := (tasklet_work_to_do ?s)(c := tasklet_work_to_do ?s c)\<rparr> = ?s" by (simp only: fun_upd_triv) simp
  then have same: "put_work c w ?s = ?s" by (simp add: put_work_def w_def)
  have "w = 0 \<or> w = 1 \<or> w = 2 \<or> w = 3" using bits[of c] by (intro small_word) (simp add: w_def)
  then have run: "\<exists>b. schedule_tasklet_work c ?s = Inr (b, put_work c v ?s)"
    using k same by (auto simp: schedule_tasklet_work_def w_def[symmetric] v_def m TASKLET_enqueued_def TASKLET_scheduled_def)
  let ?t = "put_work c v ?s"
  have "notified ?t q k" for q k
  proof -
    have "notified s q k" using inv by (simp add: tasklet_inv_def work_inv_def)
    then show ?thesis by (cases "k = c") (auto simp: notified_def v2 w_def)
  qed
  then have "work_inv {} ?t" using bits v2 by (auto simp: work_inv_def)
  then have "tasklet_inv {} {} ?t" using inv lists_inv_cong[of ?t s] frames_inv_cong[of ?t s] by (simp add: tasklet_inv_def)
  moreover have "dead_stay s ?t" by (simp add: dead_stay_def)
  ultimately show ?thesis using run by blast
qed

lemma phase_ok:
  assumes inv: "tasklet_inv {} {} s" and p: "p = Cpu_down \<or> cpu_phase s c \<noteq> Cpu_down \<or> tlists s True c = []" "p = Cpu_prepared \<Longrightarrow> frames s c = []"
  shows "tasklet_inv {} {} (set_phase c p s)" "dead_stay s (set_phase c p s)"
proof -
  let ?s = "set_phase c p s"
  have eqs: "tasklets ?s = tasklets s" "tlists ?s = tlists s" "frames ?s = frames s" "tasklet_work_to_do ?s = tasklet_work_to_do s"
    "softirq_pending ?s = softirq_pending s" "cpu_phase ?s = (cpu_phase s)(c := p)" by (simp_all add: set_phase_def)
  show "dead_stay s ?s" by (simp add: dead_stay_def eqs)
  have "notified ?s q k" for q k
  proof -
    have "notified s q k" using inv by (simp add: tasklet_inv_def work_inv_def)
    then show ?thesis using p(1) unfolding notified_def eqs by (cases "k = c") auto
  qed
  then have "work_inv {} ?s" using inv by (simp add: tasklet_inv_def work_inv_def eqs)
  moreover have "frames_inv ?s"
  proof -
    have f: "frames_inv s" using inv by (simp add: tasklet_inv_def)
    have "frames s k = []" if "((cpu_phase s)(c := p)) k = Cpu_prepared" for k using frames_invD(4)[OF f, of k] p(2) that by (cases "k = c") simp_all
    then show ?thesis using f unfolding frames_inv_def eqs by blast
  qed
  ultimately show "tasklet_inv {} {} ?s" using inv lists_inv_cong[of ?s s] eqs by (simp add: tasklet_inv_def)
qed

section \<open>Every step\<close>

lemma init_ok:
  assumes inv: "tasklet_inv {} {} s" and e: "enabled (Init t q) s"
  shows "\<exists>s'. tasklet_step (Init t q) s = Some (Inr s') \<and> tasklet_inv {} {} s' \<and> (\<forall>u. u \<noteq> t \<longrightarrow> tasklets s' u = tasklets s u)"
proof -
  let ?x = "\<lparr>t_list = None, scheduled_on = - 1, is_softirq = q, is_running = False, is_dead = False\<rparr>"
  have t: "\<not> is_running (tasklets s t)" "t_list (tasklets s t) = None" using e by (simp_all add: enabled_def)
  then have "tasklet_step (Init t q) s = Some (Inr (put_tasklet t ?x s))"
    by (auto simp: tasklet_step_def softirq_tasklet_init_def tasklet_init_def put_tasklet_def)
  moreover have "tasklet_inv {} {} (put_tasklet t ?x s)" by (rule put_same[OF inv t(2)]) (use t in simp_all)
  ultimately show ?thesis by simp
qed

lemma up_prepare_ok:
  assumes "tlists s False c = []" "tlists s True c = []"
  shows "cpu_callback me CPU_UP_PREPARE c s = Some (Inr s)"
proof -
  have "put_tlist q c [] s = s" if "tlists s q c = []" for q
  proof -
    have "(tlists s)(q := (tlists s q)(c := [])) = tlists s" using that by (auto simp: fun_eq_iff)
    then show ?thesis by (simp add: put_tlist_def)
  qed
  then show ?thesis using assms by (simp add: cpu_callback_def init_list_head_def)
qed

lemma dead_ok:
  assumes inv: "tasklet_inv {} {} s" and me: "me \<noteq> c"
  shows "\<exists>s'. tasklet_step (Dead me c) s = Some (Inr s') \<and> tasklet_inv {} {} s' \<and> dead_stay s s' \<and> tlists s' False c = [] \<and> tlists s' True c = []"
proof -
  from migrate_ok[OF inv me, of False] obtain s1 where s1: "migrate_tasklets_from_cpu me c False s = Some (Inr s1)" "tasklet_inv {} {} s1" "dead_stay s s1"
    "tlists s1 False c = []" by blast
  from migrate_ok[OF s1(2) me, of True] obtain s2 where s2: "migrate_tasklets_from_cpu me c True s1 = Some (Inr s2)" "tasklet_inv {} {} s2" "dead_stay s1 s2"
    "tlists s2 True c = []" "tlists s2 False c = tlists s1 False c" by auto
  have p: "tasklet_inv {} {} (set_phase c Cpu_down s2)" "dead_stay s2 (set_phase c Cpu_down s2)" using phase_ok[OF s2(2), of Cpu_down c] by simp_all
  have "tasklet_step (Dead me c) s = Some (Inr (set_phase c Cpu_down s2))" using s1(1) s2(1) by (simp add: tasklet_step_def cpu_callback_def)
  then show ?thesis using p(1) dead_stay_trans[OF dead_stay_trans[OF s1(3) s2(3)] p(2)] s1(4) s2(4,5) by (auto simp: set_phase_def)
qed

lemma up_prepare_corrupts:
  assumes "tlists s False c \<noteq> [] \<or> tlists s True c \<noteq> []"
  shows "cpu_callback me CPU_UP_PREPARE c s = Some (Inl List_corruption)"
proof -
  have "tlists (put_tlist False c [] s) True c = tlists s True c" by (simp add: put_tlist_def)
  then show ?thesis using assms by (auto simp: cpu_callback_def init_list_head_def)
qed

text \<open>Nothing is queued or runs before the subsystem is initialised.\<close>

lemma unlink_initialised [simp]: "tasklets_initialised (unlink t s) = tasklets_initialised s"
  by (simp add: unlink_def put_tlist_def split: option.split prod.split)

lemma enqueue_initialised: "tasklet_enqueue me t s = Inr s' \<Longrightarrow> tasklets_initialised s' = tasklets_initialised s"
  by (auto simp: tasklet_enqueue_def Let_def split: if_splits)

lemma rest_initialised [simp]:
  "tasklets_initialised (work_rest q c s) = tasklets_initialised s" "tlists (work_rest q c s) = tlists s" "frames (work_rest q c s) = frames s"
  by (simp_all add: work_rest_def tasklet_softirq_rest_def do_tasklet_rest_def)

lemma enter_initialised: "work_enter q c s = Inr s' \<Longrightarrow> tasklets_initialised s' = tasklets_initialised s"
  by (auto simp: work_enter_def do_tasklet_work_begin_def Let_def bindR_Inr_iff split: if_splits option.splits)

lemma migrate_initialised:
  assumes "migrate_tasklets_from_cpu me c q s = Some (Inr s')"
  shows "tasklets_initialised s' = tasklets_initialised s"
proof (rule while_loop_keeps[OF assms[unfolded migrate_tasklets_from_cpu_def]])
  fix u v assume u: "tasklets_initialised u = tasklets_initialised s" and "migrate_step me c q u = Inr (Some v)"
  then obtain t x where "tasklet_enqueue me t (unlink t (put_tasklet t x u)) = Inr v"
    by (auto simp: migrate_step_def bindR_Inr_iff split: list.splits if_splits)
  from enqueue_initialised[OF this] u show "tasklets_initialised v = tasklets_initialised s" by simp
qed simp

lemma migrate_nothing: "tlists s q c = [] \<Longrightarrow> migrate_tasklets_from_cpu me c q s = Some (Inr s)"
  by (simp add: migrate_tasklets_from_cpu_def while_loop.simps migrate_step_def)

lemma step_initialised:
  assumes "tasklet_step op s = Some (Inr s')" "tasklets_initialised s"
  shows "tasklets_initialised s'"
  using assms
  by (cases op)
    (auto simp: tasklet_step_def softirq_tasklet_init_def tasklet_init_def tasklet_schedule_on_cpu_def do_tasklet_def
      tasklet_softirq_action_def schedule_tasklet_work_def func_returns_def do_tasklet_work_end_def tasklet_kill_def
      tasklet_subsys_init_def cpu_callback_def init_list_head_def set_phase_def put_tlist_def Let_def bindR_Inr_iff bindO_Inr_iff
      dest!: enqueue_initialised enter_initialised migrate_initialised split: if_splits list.splits)

lemma idle_before_init_step:
  assumes "idle_before_init s" "tasklet_step op s = Some (Inr s')"
  shows "idle_before_init s'"
proof (cases "tasklets_initialised s")
  case True
  then show ?thesis using step_initialised[OF assms(2)] by (simp add: idle_before_init_def)
next
  case False
  then have e: "tlists s q c = []" "frames s c = []" for q c using assms(1) by (simp_all add: idle_before_init_def)
  have u: "tlists (unlink t s) q c = []" "frames (unlink t s) c = []" for t q c
    using e by (auto simp: unlink_def put_tlist_def split: option.split)
  show ?thesis
    using assms(2) False e u
    by (cases op)
      (auto simp: idle_before_init_def tasklet_step_def softirq_tasklet_init_def tasklet_init_def tasklet_schedule_on_cpu_def
        do_tasklet_def tasklet_softirq_action_def work_enter_def do_tasklet_work_begin_def schedule_tasklet_work_def func_returns_def
        tasklet_kill_def tasklet_subsys_init_def cpu_callback_def init_list_head_def set_phase_def put_tlist_def migrate_nothing
        Let_def bindR_Inr_iff split: if_splits)
qed

lemma step_ok:
  assumes inv: "tasklet_inv {} {} s" and b: "idle_before_init s" and e: "enabled op s" "\<not> resets_list op s" and i: "\<And>t q. op \<noteq> Init t q"
  shows "\<exists>s'. tasklet_step op s = Some (Inr s') \<and> tasklet_inv {} {} s' \<and> dead_stay s s'"
proof (cases op)
  case (Schedule_on me t c)
  then show ?thesis using schedule_on_ok[OF inv] by (auto simp: tasklet_step_def)
next
  case (Do_tasklet c)
  have "\<exists>s'. work_enter False c s = Inr s' \<and> tasklet_inv {} {} s' \<and> dead_stay s s'" using enter_ok[of False c s] inv by (simp add: used_up_def)
  then show ?thesis using Do_tasklet inv by (auto simp: tasklet_step_def do_tasklet_def dead_stay_def)
next
  case (Tasklet_softirq c)
  have d: "dead_stay s (clear_softirq c TASKLET_SOFTIRQ s)" by (simp add: dead_stay_def)
  from enter_ok[OF clear_tasklet_ok[OF inv], of c] e Tasklet_softirq show ?thesis
    using dead_stay_trans[OF d] by (auto simp: tasklet_step_def tasklet_softirq_action_def enabled_def)
next
  case (Schedule_softirq c)
  from schedule_ok[OF inv, of c] obtain b s' where "schedule_tasklet_work c (clear_softirq c SCHEDULE_SOFTIRQ s) = Inr (b, s')" "tasklet_inv {} {} s'" "dead_stay s s'" by blast
  then show ?thesis using Schedule_softirq by (simp add: tasklet_step_def)
next
  case (Returns c)
  then obtain q t fs where f: "frames s c = (q, t) # fs" using e by (cases "frames s c") (auto simp: enabled_def)
  from returns_ok[OF inv this] Returns show ?thesis by (auto simp: tasklet_step_def)
next
  case (Kill t)
  then show ?thesis using kill_ok[OF inv, of t] by (auto simp: tasklet_step_def)
next
  case (Subsys_init me)
  let ?s = "s\<lparr>tasklets_initialised := True\<rparr>"
  have "tasklet_step op s = Some (Inr ?s)" using Subsys_init e b up_prepare_ok[of s me me] by (simp add: tasklet_step_def enabled_def tasklet_subsys_init_def idle_before_init_def)
  moreover have "notified ?s q c = notified s q c" for q c by (simp add: notified_def)
  then have "tasklet_inv {} {} ?s" using inv lists_inv_cong[of ?s s] frames_inv_cong[of ?s s] by (simp add: tasklet_inv_def work_inv_def)
  ultimately show ?thesis by (simp add: dead_stay_def)
next
  case (Up_prepare me c)
  have "tasklet_step op s = Some (Inr (set_phase c Cpu_prepared s))" using Up_prepare e up_prepare_ok[of s c me] by (simp add: tasklet_step_def resets_list_def)
  then show ?thesis using phase_ok[OF inv, of Cpu_prepared c] e Up_prepare by (simp add: enabled_def resets_list_def)
next
  case (Online c)
  then show ?thesis using phase_ok[OF inv, of Cpu_online c] e by (simp add: enabled_def tasklet_step_def)
next
  case (Offline c)
  then show ?thesis using phase_ok[OF inv, of Cpu_down c] by (simp add: tasklet_step_def)
next
  case (Dead me c)
  then show ?thesis using dead_ok[OF inv, of me c] e by (auto simp: enabled_def)
qed (use i in blast)

lemma any_step_ok:
  assumes "tasklet_inv {} {} s" "idle_before_init s" "enabled op s" "\<not> resets_list op s"
  shows "\<exists>s'. tasklet_step op s = Some (Inr s') \<and> tasklet_inv {} {} s' \<and>
    (\<forall>u. (\<forall>q. op \<noteq> Init u q) \<longrightarrow> is_dead (tasklets s u) \<longrightarrow> is_dead (tasklets s' u) \<and> (is_running (tasklets s' u) \<longrightarrow> is_running (tasklets s u)))"
proof (cases "\<exists>t q. op = Init t q")
  case True
  then obtain t q where "op = Init t q" by blast
  then show ?thesis using init_ok[OF assms(1), of t q] assms(3) by auto
next
  case False
  then show ?thesis using step_ok[OF assms] unfolding dead_stay_def by blast
qed

lemma resets_list_faults: "resets_list op s \<Longrightarrow> tasklet_step op s = Some (Inl List_corruption)"
  by (auto simp: resets_list_def tasklet_step_def up_prepare_corrupts split: tasklet_op.splits)

text \<open>The state between two steps of a run.\<close>

definition tasklets_sound :: "tasklet_sys \<Rightarrow> bool" where
  "tasklets_sound s \<longleftrightarrow> tasklet_inv {} {} s \<and> idle_before_init s"

lemma step_sound:
  assumes "tasklets_sound s" "enabled op s" "tasklet_step op s = Some (Inr s')"
  shows "tasklets_sound s'"
    "\<And>u. (\<forall>q. op \<noteq> Init u q) \<Longrightarrow> is_dead (tasklets s u) \<Longrightarrow> is_dead (tasklets s' u) \<and> (is_running (tasklets s' u) \<longrightarrow> is_running (tasklets s u))"
proof -
  have "\<not> resets_list op s" using assms(3) resets_list_faults by fastforce
  from any_step_ok[OF _ _ assms(2) this] assms(1,3)
  have s': "tasklet_inv {} {} s'" and d: "\<forall>u. (\<forall>q. op \<noteq> Init u q) \<longrightarrow> is_dead (tasklets s u) \<longrightarrow> is_dead (tasklets s' u) \<and> (is_running (tasklets s' u) \<longrightarrow> is_running (tasklets s u))"
    by (auto simp: tasklets_sound_def)
  then show "tasklets_sound s'" using idle_before_init_step[OF _ assms(3)] assms(1) by (simp add: tasklets_sound_def)
  show "\<And>u. (\<forall>q. op \<noteq> Init u q) \<Longrightarrow> is_dead (tasklets s u) \<Longrightarrow> is_dead (tasklets s' u) \<and> (is_running (tasklets s' u) \<longrightarrow> is_running (tasklets s u))"
    using d by blast
qed

lemma run_sound: "tasklet_run s ops s' \<Longrightarrow> tasklets_sound s \<Longrightarrow> tasklets_sound s'"
  by (induction rule: tasklet_run.induct) (auto dest: step_sound(1))

lemma run_dead:
  assumes "tasklet_run s ops s'" "tasklets_sound s" "is_dead (tasklets s t)" "\<forall>q. Init t q \<notin> set ops"
  shows "is_dead (tasklets s' t) \<and> (is_running (tasklets s' t) \<longrightarrow> is_running (tasklets s t))"
  using assms
proof (induction rule: tasklet_run.induct)
  case (run_step op s s' ops s'')
  have "\<forall>q. op \<noteq> Init t q" using run_step.prems(3) by auto
  then have "is_dead (tasklets s' t) \<and> (is_running (tasklets s' t) \<longrightarrow> is_running (tasklets s t))"
    using step_sound(2)[OF run_step.prems(1) run_step.hyps(1,2)] run_step.prems(2) by blast
  then show ?case using run_step.IH step_sound(1)[OF run_step.prems(1) run_step.hyps(1,2)] run_step.prems(3) by auto
qed simp

lemma boot_ok: "tasklets_sound (boot_tasklets c0)"
  by (auto simp: boot_tasklets_def tasklets_sound_def idle_before_init_def tasklet_inv_def lists_inv_def frames_inv_def work_inv_def notified_def)

lemma run_inv: "tasklet_run (boot_tasklets c0) ops s \<Longrightarrow> tasklet_inv {} {} s \<and> idle_before_init s"
  using run_sound[OF _ boot_ok] by (simp add: tasklets_sound_def)

section \<open>Properties\<close>

text \<open>
  C17. In every state that an interleaving of tasklet operations on any processors has reached without a fault, every
  operation that can happen returns, with one exception: preparing a processor to come up resets its two lists
  unconditionally, and this corrupts them exactly when tasklets still wait there (\<open>tasklet_lost_with_cpu\<close> reaches
  such a state). And no tasklet is executed twice at the same time, neither on two processors nor nested on one.
  Nobody re-initialises a tasklet that runs or is queued.\<close>

theorem tasklets_run_alone:
  assumes "tasklet_run (boot_tasklets c0) ops s"
  shows "(\<forall>op. enabled op s \<longrightarrow>
      (if \<exists>me c. op = Up_prepare me c \<and> (tlists s False c \<noteq> [] \<or> tlists s True c \<noteq> [])
       then tasklet_step op s = Some (Inl List_corruption) else \<exists>s'. tasklet_step op s = Some (Inr s'))) \<and>
    (\<forall>c c' i j. i < length (frames s c) \<longrightarrow> j < length (frames s c') \<longrightarrow> snd (frames s c ! i) = snd (frames s c' ! j) \<longrightarrow> c = c' \<and> i = j)"
proof (intro conjI allI impI)
  have inv: "tasklet_inv {} {} s" "idle_before_init s" using run_inv[OF assms] by simp_all
  fix op assume e: "enabled op s"
  have rl: "(\<exists>me c. op = Up_prepare me c \<and> (tlists s False c \<noteq> [] \<or> tlists s True c \<noteq> [])) = resets_list op s"
    by (auto simp: resets_list_def split: tasklet_op.splits)
  show "if \<exists>me c. op = Up_prepare me c \<and> (tlists s False c \<noteq> [] \<or> tlists s True c \<noteq> [])
       then tasklet_step op s = Some (Inl List_corruption) else \<exists>s'. tasklet_step op s = Some (Inr s')"
    unfolding rl using any_step_ok[OF inv e] resets_list_faults[of op s] by auto
next
  have inv: "tasklet_inv {} {} s" using run_inv[OF assms] by simp
  fix c c' i j assume ij: "i < length (frames s c)" "j < length (frames s c')" "snd (frames s c ! i) = snd (frames s c' ! j)"
  have f: "frames_inv s" using inv by (simp add: tasklet_inv_def)
  show c: "c = c'" using frames_invD(3)[OF f, of "snd (frames s c ! i)" c c'] ij by (metis image_eqI nth_mem)
  show "i = j" using frames_invD(2)[OF f, of c] ij c nth_eq_iff_index_eq[of "map snd (frames s c)" i j] by simp
qed

text \<open>
  C19. After \<open>tasklet_kill\<close> has returned, that is, once the tasklet is dead and not running, it is on no list and no
  processor enters it again, whoever tries to schedule it, until it is initialised anew.\<close>

theorem tasklet_kill_final:
  assumes "tasklet_run (boot_tasklets c0) ops s" "tasklet_step (Kill t) s = Some (Inr s1)"
    and "tasklet_run s1 ops1 s2" "\<not> is_running (tasklets s2 t)" "tasklet_run s2 ops2 s3" "\<forall>q. Init t q \<notin> set (ops1 @ ops2)"
  shows "(\<forall>q c. t \<notin> set (tlists s3 q c)) \<and> (\<forall>c. t \<notin> snd ` set (frames s3 c))"
proof -
  have s: "tasklets_sound s" by (rule run_sound[OF assms(1) boot_ok])
  then have "is_dead (tasklets s1 t)" using kill_ok[where s = s and t = t] assms(2) by (auto simp: tasklet_step_def tasklets_sound_def)
  then have s1: "tasklets_sound s1" "is_dead (tasklets s1 t)" using step_sound(1)[OF s _ assms(2)] by (simp_all add: enabled_def)
  have s2: "tasklets_sound s2" "is_dead (tasklets s2 t)" using run_sound[OF assms(3) s1(1)] run_dead[OF assms(3) s1] assms(6) by auto
  have s3: "tasklet_inv {} {} s3" "is_dead (tasklets s3 t)" "\<not> is_running (tasklets s3 t)"
    using run_sound[OF assms(5) s2(1)] run_dead[OF assms(5) s2] assms(4,6) by (auto simp: tasklets_sound_def)
  have "frames_inv s3" using s3(1) by (simp add: tasklet_inv_def)
  then have "\<forall>c. t \<notin> snd ` set (frames s3 c)" using frames_invD(1)[of s3 t] s3(3) by blast
  moreover have "t \<notin> set (tlists s3 q c)" for q c using lists_invD(1)[OF s3(1), of t q c] lists_invD(6)[OF s3(1,2)] by simp
  ultimately show ?thesis by blast
qed

text \<open>
  C18. In every state reached without a fault, a tasklet that was scheduled is not forgotten. While it is not running it
  is on the list of its processor, and that processor has been told: the softirq is pending or its handler active, or
  the scheduler has been or will be asked to run the idle virtual processor. Only a processor that is down has not
  been told of a softirq tasklet: there the tasklet waits on the list, and when the processor comes up again with
  the list not emptied before, preparing it is the fault of \<open>tasklets_run_alone\<close>. A tasklet that is scheduled
  while it runs is on the list as soon as its function returns.\<close>

theorem tasklet_not_lost:
  assumes "tasklet_run (boot_tasklets c0) ops s" "scheduled_on (tasklets s t) = int c"
  shows "(\<not> is_running (tasklets s t) \<longrightarrow> t \<in> set (tlists s (is_softirq (tasklets s t)) c) \<and>
      (if is_softirq (tasklets s t)
       then cpu_phase s c \<noteq> Cpu_down \<longrightarrow> bit (softirq_pending s c) TASKLET_SOFTIRQ \<or> (\<exists>u. (True, u) \<in> set (frames s c))
       else bit (tasklet_work_to_do s c) 0 \<and> (bit (softirq_pending s c) SCHEDULE_SOFTIRQ \<or> bit (tasklet_work_to_do s c) 1))) \<and>
    (\<forall>k q fs. frames s k = (q, t) # fs \<longrightarrow>
      (\<exists>s'. tasklet_step (Returns k) s = Some (Inr s') \<and> t \<in> set (tlists s' (is_softirq (tasklets s t)) c)))"
proof (intro conjI allI impI)
  have inv: "tasklet_inv {} {} s" using run_inv[OF assms(1)] by simp
  show "\<exists>s'. tasklet_step (Returns k) s = Some (Inr s') \<and> t \<in> set (tlists s' (is_softirq (tasklets s t)) c)" if "frames s k = (q, t) # fs" for k q fs
    using returns_ok[OF inv that] assms(2) by (auto simp: tasklet_step_def)
  assume "\<not> is_running (tasklets s t)"
  moreover have "0 \<le> scheduled_on (tasklets s t)" by (simp add: assms(2))
  ultimately have "t_list (tasklets s t) \<noteq> None" using inv unfolding tasklet_inv_def lists_inv_def by blast
  then obtain q k where l: "t_list (tasklets s t) = Some (q, k)" by (cases "t_list (tasklets s t)") auto
  have "q = is_softirq (tasklets s t)" "k = c" using lists_invD(3)[OF inv l] assms(2) by simp_all
  then show t: "t \<in> set (tlists s (is_softirq (tasklets s t)) c)" using l lists_invD(1)[OF inv] by blast
  then have ne: "tlists s (is_softirq (tasklets s t)) c \<noteq> []" by auto
  have "notified s (is_softirq (tasklets s t)) c" using inv by (simp add: tasklet_inv_def work_inv_def)
  then show "if is_softirq (tasklets s t)
       then cpu_phase s c \<noteq> Cpu_down \<longrightarrow> bit (softirq_pending s c) TASKLET_SOFTIRQ \<or> (\<exists>u. (True, u) \<in> set (frames s c))
       else bit (tasklet_work_to_do s c) 0 \<and> (bit (softirq_pending s c) SCHEDULE_SOFTIRQ \<or> bit (tasklet_work_to_do s c) 1)"
    using ne unfolding notified_def by (cases "is_softirq (tasklets s t)") auto
qed

section \<open>Examples\<close>

fun tasklet_exec :: "tasklet_op list \<Rightarrow> tasklet_sys \<Rightarrow> tasklet_sys option" where
  "tasklet_exec [] s = Some s"
| "tasklet_exec (op # ops) s =
     (if enabled op s then case tasklet_step op s of Some (Inr s') \<Rightarrow> tasklet_exec ops s' | _ \<Rightarrow> None else None)"

lemma exec_run: "tasklet_exec ops s = Some s' \<Longrightarrow> tasklet_run s ops s'"
proof (induction ops arbitrary: s)
  case (Cons op ops)
  then obtain s1 where "enabled op s" "tasklet_step op s = Some (Inr s1)" "tasklet_exec ops s1 = Some s'" by (auto split: if_splits option.splits sum.splits)
  then show ?case using Cons.IH by (auto intro: run_step)
qed (auto intro: run_nil)

lemma exec_append: "tasklet_exec (as @ bs) s = Option.bind (tasklet_exec as s) (tasklet_exec bs)"
  by (induction as arbitrary: s) (auto split: option.split sum.split)

text \<open>
  Tasklet 7 runs on processor 0 and is scheduled on processor 1, which goes down before the function returns:
  the tasklet ends up on the list of a processor that is gone, after that list was cleaned up.
\<close>

definition dead_cpu_run :: "tasklet_op list" where
  "dead_cpu_run = [Subsys_init 0, Up_prepare 0 1, Online 1, Schedule_on 0 7 0, Schedule_softirq 0, Do_tasklet 0, Schedule_on 0 7 1, Offline 1, Dead 0 1, Returns 0]"

lemma tasklet_lost_with_cpu:
  "\<exists>s. tasklet_run (boot_tasklets 0) dead_cpu_run s \<and> cpu_phase s 1 = Cpu_down \<and> tlists s False 1 = [7] \<and>
    enabled (Up_prepare 0 1) s \<and> tasklet_step (Up_prepare 0 1) s = Some (Inl List_corruption)"
proof -
  have "map_option (\<lambda>s. (cpu_phase s 1, tlists s False 1, frames s 1)) (tasklet_exec dead_cpu_run (boot_tasklets 0)) = Some (Cpu_down, [7], [])"
    by code_simp
  then obtain s where s: "tasklet_exec dead_cpu_run (boot_tasklets 0) = Some s" "cpu_phase s 1 = Cpu_down" "tlists s False 1 = [7]" "frames s 1 = []"
    by auto
  have "enabled (Up_prepare 0 1) s" using s(2,4) by (simp add: enabled_def)
  moreover have "tasklet_step (Up_prepare 0 1) s = Some (Inl List_corruption)" using s(3) by (intro resets_list_faults) (simp add: resets_list_def)
  ultimately show ?thesis using exec_run[OF s(1)] s(2,3) by blast
qed

lemma tasklet_demo_run: "\<exists>s. tasklet_run (boot_tasklets 0) (take 7 dead_cpu_run) s \<and> scheduled_on (tasklets s 7) = 1 \<and> frames s 0 = [(False, 7)] \<and> \<not> is_softirq (tasklets s 7)"
proof -
  have "map_option (\<lambda>s. (scheduled_on (tasklets s 7), frames s 0, is_softirq (tasklets s 7))) (tasklet_exec (take 7 dead_cpu_run) (boot_tasklets 0)) = Some (1, [(False, 7)], False)"
    by code_simp
  then obtain s where s: "tasklet_exec (take 7 dead_cpu_run) (boot_tasklets 0) = Some s" "scheduled_on (tasklets s 7) = 1" "frames s 0 = [(False, 7)]" "\<not> is_softirq (tasklets s 7)"
    by auto
  then show ?thesis using exec_run[OF s(1)] by blast
qed

theorem tasklets_run_alone_witness: "\<exists>s s'. tasklet_run (boot_tasklets 0) (take 7 dead_cpu_run) s \<and> tasklet_step (Returns 0) s = Some (Inr s')"
proof -
  obtain s where s: "tasklet_run (boot_tasklets 0) (take 7 dead_cpu_run) s" "frames s 0 = [(False, 7)]" using tasklet_demo_run by blast
  then have "enabled (Returns 0) s" by (simp add: enabled_def)
  moreover have "\<not> (\<exists>me c. Returns 0 = Up_prepare me c \<and> (tlists s False c \<noteq> [] \<or> tlists s True c \<noteq> []))" by simp
  ultimately show ?thesis using tasklets_run_alone[OF s(1)] s(1) by meson
qed

theorem tasklet_not_lost_witness:
  "\<exists>s s'. tasklet_run (boot_tasklets 0) (take 7 dead_cpu_run) s \<and> tasklet_step (Returns 0) s = Some (Inr s') \<and> 7 \<in> set (tlists s' False 1)"
proof -
  obtain s where s: "tasklet_run (boot_tasklets 0) (take 7 dead_cpu_run) s" "frames s 0 = [(False, 7)]" "scheduled_on (tasklets s 7) = int 1" "\<not> is_softirq (tasklets s 7)"
    using tasklet_demo_run by auto
  have "\<exists>s'. tasklet_step (Returns 0) s = Some (Inr s') \<and> 7 \<in> set (tlists s' (is_softirq (tasklets s 7)) 1)"
    using tasklet_not_lost[OF s(1,3)] s(2) by blast
  then show ?thesis using s(1,4) by auto
qed

text \<open>The same tasklet is killed while it runs; it is scheduled once more and its function returns.\<close>

theorem tasklet_kill_final_witness:
  "\<exists>s s1 s2 s3. tasklet_run (boot_tasklets 0) (take 7 dead_cpu_run) s \<and> tasklet_step (Kill 7) s = Some (Inr s1) \<and>
    tasklet_run s1 [Schedule_on 1 7 1, Returns 0] s2 \<and> tasklet_run s2 [Schedule_on 1 7 1] s3 \<and> (\<forall>q c. 7 \<notin> set (tlists s3 q c))"
proof -
  let ?A = "take 7 dead_cpu_run" and ?B = "[Schedule_on 1 7 1, Returns 0]" and ?C = "[Schedule_on 1 7 1]"
  have "map_option (\<lambda>s. is_running (tasklets s 7)) (tasklet_exec (?A @ [Kill 7] @ ?B) (boot_tasklets 0)) = Some False" by code_simp
  then obtain s2 where s2: "tasklet_exec (?A @ [Kill 7] @ ?B) (boot_tasklets 0) = Some s2" "\<not> is_running (tasklets s2 7)" by auto
  then obtain s s1 where s: "tasklet_exec ?A (boot_tasklets 0) = Some s" "tasklet_exec [Kill 7] s = Some s1" "tasklet_exec ?B s1 = Some s2"
    unfolding exec_append bind_eq_Some_conv by blast
  have kill: "tasklet_step (Kill 7) s = Some (Inr s1)" using exec_run[OF s(2)] by (simp add: tasklet_run_simps)
  have "map_option (\<lambda>_. ()) (tasklet_exec ((?A @ [Kill 7] @ ?B) @ ?C) (boot_tasklets 0)) = Some ()" by code_simp
  then obtain s3 where s3: "tasklet_exec ?C s2 = Some s3" unfolding exec_append[of "?A @ [Kill 7] @ ?B"] s2(1) by auto
  have "\<forall>q. Init 7 q \<notin> set (?B @ ?C)" by simp
  from tasklet_kill_final[OF exec_run[OF s(1)] kill exec_run[OF s(3)] s2(2) exec_run[OF s3] this]
  show ?thesis using exec_run[OF s(1)] kill exec_run[OF s(3)] exec_run[OF s3] by blast
qed

end
