(* ===== verification/Page_Alloc.thy ===== *)
theory Page_Alloc
  imports Xen_Prelude
begin

unbundle bit_operations_syntax

text \<open>
  The buddy allocator of \<open>common/page_alloc.c\<close>: for every node, zone and order a list of free blocks,
  counters of free pages, and the frame table with the state of every page. A page is named by its machine
  frame number, so that pointer arithmetic on \<open>struct page_info *\<close> is arithmetic on frame numbers. The
  functions run under \<open>heap_lock\<close> and are one step each.
\<close>

section \<open>Pages\<close>

datatype page_state = PGC_state_inuse | PGC_state_offlining | PGC_state_offlined | PGC_state_free

text \<open>
  \<open>struct page_info\<close>. The word \<open>count_info\<close> by its fields: the state, the flags \<open>PGC_broken\<close>,
  \<open>PGC_xen_heap\<close> and \<open>PGC_allocated\<close>, and the rest (reference count, page-table flag, cache attributes).
  \<open>v_raw\<close> is the union \<open>v\<close>: the owner of a page in use (0 is \<open>NULL\<close>) and the order of the head of a free
  block share the word, and whoever reads one reads what was last stored as either. Of the union \<open>u\<close> both
  members are fields, since no code reads the one after the other was stored.
\<close>

record page_info =
  pgc_state :: page_state
  pgc_broken :: bool
  pgc_xen_heap :: bool
  pgc_allocated :: bool
  pgc_rest :: nat
  type_info :: nat
  need_tlbflush :: bool
  v_raw :: nat
  tlbflush_timestamp :: u32

definition page_state_is :: "page_info \<Rightarrow> page_state \<Rightarrow> bool" where
  "page_state_is p st \<longleftrightarrow> pgc_state p = st"

definition PFN_ORDER :: "page_info \<Rightarrow> nat" where "PFN_ORDER p = v_raw p"

definition page_get_owner :: "page_info \<Rightarrow> nat option" where
  "page_get_owner p = (if v_raw p = 0 then None else Some (v_raw p))"

definition page_set_owner :: "nat option \<Rightarrow> page_info \<Rightarrow> page_info" where
  "page_set_owner d p = p\<lparr>v_raw := (case d of None \<Rightarrow> 0 | Some i \<Rightarrow> i)\<rparr>"

text \<open>\<open>count_info == PGC_state_free\<close>: the state and nothing else.\<close>

definition count_info_free :: "page_info \<Rightarrow> bool" where
  "count_info_free p \<longleftrightarrow> pgc_state p = PGC_state_free \<and> \<not> pgc_broken p \<and> \<not> pgc_xen_heap p \<and> \<not> pgc_allocated p \<and> pgc_rest p = 0"

definition set_count_info :: "page_state \<Rightarrow> bool \<Rightarrow> page_info \<Rightarrow> page_info" where
  "set_count_info st broken p =
     p\<lparr>pgc_state := st, pgc_broken := broken, pgc_xen_heap := False, pgc_allocated := False, pgc_rest := 0\<rparr>"

section \<open>The heap\<close>

definition MAX_ORDER :: nat where "MAX_ORDER = 18"
definition NR_ZONES :: nat where "NR_ZONES = 40"
definition MAX_NUMNODES :: nat where "MAX_NUMNODES = 64"
definition NUMA_NO_NODE :: nat where "NUMA_NO_NODE = 255"
definition MEMZONE_XEN :: nat where "MEMZONE_XEN = 0"
definition MIDSIZE_ALLOC_FRAC :: int where "MIDSIZE_ALLOC_FRAC = 128"

text \<open>The number of the highest bit set, counted from 1; 0 for 0.\<close>

fun fls :: "nat \<Rightarrow> nat" where
  "fls n = (if n = 0 then 0 else Suc (fls (n div 2)))"

declare fls.simps [simp del]

record heap_state =
  frame_table :: "nat \<Rightarrow> page_info"
  heaps :: "nat \<times> nat \<times> nat \<Rightarrow> nat list"
  avail :: "nat \<Rightarrow> (nat \<Rightarrow> nat) option"
  total_avail_pages :: int
  midsize_alloc_zone_pages :: int
  page_offlined_list :: "nat list"
  page_broken_list :: "nat list"

text \<open>
  What the functions ask of the machine and of other files: which frames exist, on which node they are,
  the online nodes in ascending order, the node of this processor, transcendent memory, and the clock of TLB
  flushes.
\<close>

record heap_env =
  frame_valid :: "nat \<Rightarrow> bool"
  phys_to_nid :: "nat \<Rightarrow> nat"
  node_online_map :: "nat list"
  cpu_node :: nat
  opt_tmem :: bool
  tmem_freeable_pages :: bool
  tmem_relinquish_pages :: "nat \<Rightarrow> nat option"
  cpu_online_map :: "nat list"
  tlbflush_time :: "nat \<Rightarrow> u32"
  tlbflush_current_time :: u32

text \<open>
  \<open>page_to_zone\<close>: zone 0 for pages of the hypervisor's heap, otherwise the position of the highest bit of the
  frame number. Frame 0 has no zone: the subtraction wraps and indexes outside every array.
\<close>

definition page_to_zone :: "heap_state \<Rightarrow> nat \<Rightarrow> nat result" where
  "page_to_zone s m =
     (if pgc_xen_heap (frame_table s m) then Inr MEMZONE_XEN
      else if m = 0 then Inl Out_of_bounds else Inr (fls m - 1))"

text \<open>\<open>heap(node, zone, order)\<close>\<close>

definition heap_at :: "heap_state \<Rightarrow> nat \<Rightarrow> nat \<Rightarrow> nat \<Rightarrow> nat list result" where
  "heap_at s node zone order =
     (if node \<ge> MAX_NUMNODES \<or> zone \<ge> NR_ZONES \<or> order > MAX_ORDER then Inl Out_of_bounds
      else if avail s node = None then Inl Null_deref else Inr (heaps s (node, zone, order)))"

definition put_page :: "nat \<Rightarrow> (page_info \<Rightarrow> page_info) \<Rightarrow> heap_state \<Rightarrow> heap_state" where
  "put_page m f s = s\<lparr>frame_table := (frame_table s)(m := f (frame_table s m))\<rparr>"

definition put_heap :: "nat \<Rightarrow> nat \<Rightarrow> nat \<Rightarrow> nat list \<Rightarrow> heap_state \<Rightarrow> heap_state" where
  "put_heap node zone order l s = s\<lparr>heaps := (heaps s)((node, zone, order) := l)\<rparr>"

definition page_list_add_tail :: "nat \<Rightarrow> nat \<Rightarrow> nat \<Rightarrow> nat \<Rightarrow> heap_state \<Rightarrow> heap_state result" where
  "page_list_add_tail pg node zone order s =
     bindR (heap_at s node zone order) (\<lambda>l. Inr (put_heap node zone order (l @ [pg]) s))"

definition page_list_del :: "nat \<Rightarrow> nat \<Rightarrow> nat \<Rightarrow> nat \<Rightarrow> heap_state \<Rightarrow> heap_state result" where
  "page_list_del pg node zone order s =
     bindR (heap_at s node zone order) (\<lambda>l.
       if pg \<in> set l then Inr (put_heap node zone order (remove1 pg l) s) else Inl List_corruption)"

text \<open>
  \<open>avail[node][zone] += n\<close> for an initialised node. The counters are natural numbers here and \<open>unsigned long\<close> in the
  source; by the invariant they count pages, so that neither a wrap nor a cut-off at 0 happens in a sound heap.
\<close>

definition add_avail :: "nat \<Rightarrow> nat \<Rightarrow> int \<Rightarrow> heap_state \<Rightarrow> heap_state result" where
  "add_avail node zone n s =
     (if node \<ge> MAX_NUMNODES \<or> zone \<ge> NR_ZONES then Inl Out_of_bounds
      else case avail s node of
        None \<Rightarrow> Inl Null_deref
      | Some a \<Rightarrow> Inr (s\<lparr>avail := (avail s)(node \<mapsto> a(zone := nat (int (a zone) + n))),
                          total_avail_pages := total_avail_pages s + n\<rparr>))"

section \<open>Allocation\<close>

text \<open>Sets of nodes are ascending lists.\<close>

definition first_node :: "nat list \<Rightarrow> nat" where
  "first_node msk = (case msk of [] \<Rightarrow> MAX_NUMNODES | n # _ \<Rightarrow> n)"

definition next_node :: "nat \<Rightarrow> nat list \<Rightarrow> nat" where
  "next_node n msk = first_node (filter (\<lambda>m. n < m) msk)"

definition nodes_andnot :: "nat list \<Rightarrow> nat list \<Rightarrow> nat list" where
  "nodes_andnot a b = filter (\<lambda>n. n \<notin> set b) a"

text \<open>The smallest order from \<open>order\<close> on with a free block in a zone, and the block.\<close>

definition find_block :: "heap_state \<Rightarrow> nat \<Rightarrow> nat \<Rightarrow> nat \<Rightarrow> (nat \<times> nat) option" where
  "find_block s node zone order =
     map_option (\<lambda>j. (j, hd (heaps s (node, zone, j)))) (find (\<lambda>j. heaps s (node, zone, j) \<noteq> []) [order..<Suc MAX_ORDER])"

text \<open>The zones of a node from the highest down; the result is zone, order and head of the block found.\<close>

fun scan_zones :: "heap_state \<Rightarrow> nat \<Rightarrow> nat \<Rightarrow> nat list \<Rightarrow> (nat \<times> nat \<times> nat) option result" where
  "scan_zones s node order [] = Inr None"
| "scan_zones s node order (zone # zones) =
     (if node \<ge> MAX_NUMNODES then Inl Out_of_bounds
      else case avail s node of
        None \<Rightarrow> scan_zones s node order zones
      | Some a \<Rightarrow>
          if a zone < 2 ^ order then scan_zones s node order zones
          else case find_block s node zone order of
            Some (j, pg) \<Rightarrow> Inr (Some (zone, j, pg))
          | None \<Rightarrow> scan_zones s node order zones)"

text \<open>
  The loop over the nodes: the node under consideration, the node at which a round ends, the set of nodes
  of this round, whether the first round is over, and the outcome.
\<close>

datatype search_outcome = Searching | Not_found | Found nat nat nat nat

record node_search =
  ns_node :: nat
  ns_first :: nat
  ns_mask :: "nat list"
  ns_retry :: bool
  ns_outcome :: search_outcome

text \<open>What happens when a node has no block: the next node, the other nodes, or failure.\<close>

definition end_of_round :: "heap_env \<Rightarrow> node_search \<Rightarrow> node_search" where
  "end_of_round env n =
     (if ns_node n \<noteq> ns_first n then n
      else if ns_retry n then n\<lparr>ns_outcome := Not_found\<rparr>
      else
        let msk = nodes_andnot (node_online_map env) (ns_mask n);
            node = first_node msk
        in \<lparr>ns_node = node, ns_first = node, ns_mask = msk, ns_retry = True,
            ns_outcome = (if node \<ge> MAX_NUMNODES then Not_found else Searching)\<rparr>)"

definition pick_next_node :: "heap_env \<Rightarrow> bool \<Rightarrow> node_search \<Rightarrow> node_search result" where
  "pick_next_node env exact n =
     (if exact then Inr (n\<lparr>ns_outcome := Not_found\<rparr>)
      else if ns_node n \<notin> set (ns_mask n) then
        if ns_retry n then Inl Assert_failed
        else
          let node = first_node (ns_mask n);
              n = n\<lparr>ns_node := node, ns_first := node\<rparr>
          in Inr (if node < MAX_NUMNODES then n else end_of_round env n)
      else
        let node = next_node (ns_node n) (ns_mask n);
            node = (if node \<ge> MAX_NUMNODES then first_node (ns_mask n) else node)
        in Inr (end_of_round env (n\<lparr>ns_node := node\<rparr>)))"

definition search_step ::
  "heap_env \<Rightarrow> heap_state \<Rightarrow> nat list \<Rightarrow> nat \<Rightarrow> bool \<Rightarrow> node_search \<Rightarrow> node_search option result" where
  "search_step env s zones order exact n =
     (case ns_outcome n of
        Searching \<Rightarrow>
          bindR (scan_zones s (ns_node n) order zones) (\<lambda>r.
            case r of
              Some (zone, j, pg) \<Rightarrow> Inr (Some (n\<lparr>ns_outcome := Found (ns_node n) zone j pg\<rparr>))
            | None \<Rightarrow> bindR (pick_next_node env exact n) (\<lambda>n. Inr (Some n)))
      | _ \<Rightarrow> Inr None)"

text \<open>Halving a block until it has the order asked for; the lower halves go back to the heap.\<close>

fun halve :: "nat \<Rightarrow> nat \<Rightarrow> nat \<Rightarrow> nat \<Rightarrow> nat \<Rightarrow> heap_state \<Rightarrow> (nat \<times> heap_state) result" where
  "halve node zone order 0 pg s = Inr (pg, s)"
| "halve node zone order (Suc j) pg s =
     (if Suc j = order then Inr (pg, s)
      else bindR (page_list_add_tail pg node zone j (put_page pg (\<lambda>p. p\<lparr>v_raw := j\<rparr>) s)) (\<lambda>s.
        halve node zone order j (pg + 2 ^ j) s))"

definition NEED_FLUSH :: "u32 \<Rightarrow> u32 \<Rightarrow> u32 \<Rightarrow> bool" where
  "NEED_FLUSH curr_time cpu_stamp lastuse_stamp \<longleftrightarrow>
     curr_time = 0 \<or> (cpu_stamp \<le> lastuse_stamp \<and> lastuse_stamp \<le> curr_time)"

definition tlbflush_filter :: "heap_env \<Rightarrow> nat list \<Rightarrow> u32 \<Rightarrow> nat list" where
  "tlbflush_filter env msk stamp = filter (\<lambda>c. NEED_FLUSH (tlbflush_current_time env) (tlbflush_time env c) stamp) msk"

text \<open>One page of the block handed out; \<open>msk\<close> collects the processors whose TLB has to be flushed.\<close>

definition take_page :: "heap_env \<Rightarrow> nat \<Rightarrow> nat list \<times> heap_state \<Rightarrow> (nat list \<times> heap_state) result" where
  "take_page env m ms =
     (case ms of (msk, s) \<Rightarrow>
        let p = frame_table s m in
        if \<not> count_info_free p then Inl Bug_on
        else
          let msk = (if need_tlbflush p
                then msk @ tlbflush_filter env (filter (\<lambda>c. c \<notin> set msk) (cpu_online_map env)) (tlbflush_timestamp p)
                else msk)
          in Inr (msk, put_page m (\<lambda>p. page_set_owner None
               ((set_count_info PGC_state_inuse False p)\<lparr>type_info := 0, need_tlbflush := False\<rparr>)) s))"

text \<open>What \<open>alloc_heap_pages\<close> uses of a domain.\<close>

record node_prefs =
  node_affinity :: "nat list"
  last_alloc_node :: nat

definition MEMF_exact_node :: "u32 \<Rightarrow> bool" where "MEMF_exact_node memflags \<longleftrightarrow> bit memflags 4"

definition first_choice :: "heap_env \<Rightarrow> u32 \<Rightarrow> node_prefs option \<Rightarrow> nat \<times> bool" where
  "first_choice env memflags d =
     (let node = unat (ucast (drop_bit 8 memflags - 1) :: u8) in
      if node = NUMA_NO_NODE then
        let node = (case d of
              None \<Rightarrow> node
            | Some d \<Rightarrow>
                let node = next_node (last_alloc_node d) (node_affinity d)
                in if node \<ge> MAX_NUMNODES then first_node (node_affinity d) else node);
            node = (if node \<ge> MAX_NUMNODES then cpu_node env else node)
        in (node, False)
      else (node, MEMF_exact_node memflags))"

definition zone_list :: "nat \<Rightarrow> nat \<Rightarrow> nat list" where
  "zone_list zone_lo zone_hi = rev [zone_lo..<Suc zone_hi]"

text \<open>The part from the label \<open>found\<close> on: halve the block, adjust the counters, hand the pages out.\<close>

definition take_block ::
  "heap_env \<Rightarrow> nat \<Rightarrow> nat \<Rightarrow> nat \<Rightarrow> nat \<Rightarrow> nat \<Rightarrow> heap_state \<Rightarrow> (nat \<times> nat list \<times> heap_state) result" where
  "take_block env node zone order j pg s =
     bindR (page_list_del pg node zone j s) (\<lambda>s.
     bindR (halve node zone order j pg s) (\<lambda>(pg, s).
     if (case avail s node of Some a \<Rightarrow> a zone < 2 ^ order | None \<Rightarrow> False) then Inl Assert_failed
     else
       bindR (add_avail node zone (- (2 ^ order)) s) (\<lambda>s.
       if total_avail_pages s < 0 then Inl Assert_failed
       else
         bindR (for_loop (take_page env) [pg..<pg + 2 ^ order] ([], s)) (\<lambda>(msk, s).
           Inr (pg, msk, s)))))"

text \<open>
  The result: the page (\<open>None\<close> for \<open>NULL\<close>), what \<open>d->last_alloc_node\<close> is afterwards, the processors flushed, and the
  heap. The result \<open>None\<close> of the whole is a search that does not end.
\<close>

definition alloc_heap_pages ::
  "heap_env \<Rightarrow> nat \<Rightarrow> nat \<Rightarrow> nat \<Rightarrow> u32 \<Rightarrow> node_prefs option \<Rightarrow> heap_state
     \<Rightarrow> ((nat \<times> nat \<times> nat list) option \<times> heap_state) result option" where
  "alloc_heap_pages env zone_lo zone_hi order memflags d s =
     (case first_choice env memflags d of (node, exact) \<Rightarrow>
        let nodemask = (case d of None \<Rightarrow> node_online_map env | Some d \<Rightarrow> node_affinity d) in
        if \<not> zone_lo \<le> zone_hi \<or> \<not> zone_hi < NR_ZONES then Some (Inl Assert_failed)
        else if order > MAX_ORDER then Some (Inr (None, s))
        else if opt_tmem env \<and> (order = 0 \<or> order \<ge> 9) \<and> total_avail_pages s \<le> midsize_alloc_zone_pages s \<and>
                tmem_freeable_pages env
        then Some (Inr (map_option (\<lambda>pg. (pg, (case d of None \<Rightarrow> node | Some x \<Rightarrow> last_alloc_node x), []))
                          (tmem_relinquish_pages env order), s))
        else
          case while_loop (search_step env s (zone_list zone_lo zone_hi) order exact)
                 \<lparr>ns_node = node, ns_first = node, ns_mask = nodemask, ns_retry = False, ns_outcome = Searching\<rparr> of
            None \<Rightarrow> None
          | Some (Inl e) \<Rightarrow> Some (Inl e)
          | Some (Inr n) \<Rightarrow>
              (case ns_outcome n of
                 Found node zone j pg \<Rightarrow>
                   Some (bindR (take_block env node zone order j pg s) (\<lambda>(pg, msk, s). Inr (Some (pg, node, msk), s)))
               | _ \<Rightarrow> Some (Inr (None, s))))"

section \<open>Taking pages out of the heap\<close>

text \<open>
  The inner loop of \<open>reserve_offlined_page\<close>: how large a block can start at \<open>cur_head\<close> without an offlined
  page and inside the block at \<open>head\<close>. \<open>None\<close>: the loop ends without reaching the label \<open>merge\<close>.
\<close>

function grow_order :: "heap_state \<Rightarrow> nat \<Rightarrow> nat \<Rightarrow> nat \<Rightarrow> nat \<Rightarrow> nat option" where
  "grow_order s head head_order cur_head cur_order =
     (if cur_order < head_order then
        if cur_head + 2 ^ Suc cur_order \<ge> head + 2 ^ head_order then Some cur_order
        else if \<exists>m\<in>set [cur_head + 2 ^ cur_order..<cur_head + 2 ^ Suc cur_order].
                  page_state_is (frame_table s m) PGC_state_offlined
        then Some cur_order
        else grow_order s head head_order cur_head (Suc cur_order)
      else None)"
  by pat_completeness auto
termination
  by (relation "measure (\<lambda>(s, h, ho, c, co). ho - co)") auto

declare grow_order.simps [simp del]

text \<open>One iteration of the outer loop.\<close>

definition regroup_step :: "nat \<Rightarrow> nat \<Rightarrow> nat \<Rightarrow> nat \<Rightarrow> nat \<times> heap_state \<Rightarrow> (nat \<times> heap_state) option result" where
  "regroup_step node zone head head_order cs =
     (case cs of (cur_head, s) \<Rightarrow>
        if \<not> cur_head < head + 2 ^ head_order then Inr None
        else if page_state_is (frame_table s cur_head) PGC_state_offlined then Inr (Some (Suc cur_head, s))
        else case grow_order s head head_order cur_head 0 of
          None \<Rightarrow> Inr (Some (cur_head, s))
        | Some cur_order \<Rightarrow>
            bindR (page_list_add_tail cur_head node zone cur_order s) (\<lambda>s.
              Inr (Some (cur_head + 2 ^ cur_order, put_page cur_head (\<lambda>p. p\<lparr>v_raw := cur_order\<rparr>) s))))"

definition retire_page :: "nat \<Rightarrow> nat \<Rightarrow> nat \<Rightarrow> nat \<times> heap_state \<Rightarrow> (nat \<times> heap_state) result" where
  "retire_page node zone m cs =
     (case cs of (cnt, s) \<Rightarrow>
        if \<not> page_state_is (frame_table s m) PGC_state_offlined then Inr (cnt, s)
        else
          bindR (add_avail node zone (- 1) s) (\<lambda>s.
            if total_avail_pages s < 0 then Inl Assert_failed
            else Inr (Suc cnt,
              if pgc_broken (frame_table s m) then s\<lparr>page_broken_list := page_broken_list s @ [m]\<rparr>
              else s\<lparr>page_offlined_list := page_offlined_list s @ [m]\<rparr>)))"

definition reserve_offlined_page :: "heap_env \<Rightarrow> nat \<Rightarrow> heap_state \<Rightarrow> (nat \<times> heap_state) result option" where
  "reserve_offlined_page env head s =
     (let node = phys_to_nid env head;
          head_order = PFN_ORDER (frame_table s head)
      in case bindR (page_to_zone s head) (\<lambda>zone. bindR (page_list_del head node zone head_order s) (\<lambda>s. Inr (zone, s))) of
           Inl e \<Rightarrow> Some (Inl e)
         | Inr (zone, s) \<Rightarrow>
             (case while_loop (regroup_step node zone head head_order) (head, s) of
                None \<Rightarrow> None
              | Some (Inl e) \<Rightarrow> Some (Inl e)
              | Some (Inr (_, s)) \<Rightarrow>
                  Some (for_loop (retire_page node zone) [head..<head + 2 ^ head_order] (0, s))))"

section \<open>Freeing\<close>

definition release_page :: "heap_env \<Rightarrow> nat \<Rightarrow> bool \<times> heap_state \<Rightarrow> (bool \<times> heap_state) result" where
  "release_page env m ts =
     (case ts of (tainted, s) \<Rightarrow>
        let p = frame_table s m in
        if page_state_is p PGC_state_offlined then Inl Assert_failed
        else
          let p = set_count_info (if page_state_is p PGC_state_offlining then PGC_state_offlined else PGC_state_free)
                    (pgc_broken p) p;
              need = page_get_owner p \<noteq> None
          in Inr (tainted \<or> page_state_is p PGC_state_offlined,
                  put_page m (\<lambda>_. p\<lparr>need_tlbflush := need,
                     tlbflush_timestamp := (if need then tlbflush_current_time env else tlbflush_timestamp p)\<rparr>) s))"

text \<open>Is the block of this order at \<open>b\<close> free and on this node?\<close>

definition mergeable :: "heap_env \<Rightarrow> heap_state \<Rightarrow> nat \<Rightarrow> nat \<Rightarrow> nat \<Rightarrow> bool" where
  "mergeable env s node order b \<longleftrightarrow>
     frame_valid env b \<and> page_state_is (frame_table s b) PGC_state_free \<and> PFN_ORDER (frame_table s b) = order \<and>
     phys_to_nid env b = node"

function merge_loop :: "heap_env \<Rightarrow> nat \<Rightarrow> nat \<Rightarrow> nat \<Rightarrow> nat \<Rightarrow> heap_state \<Rightarrow> (nat \<times> nat \<times> heap_state) result" where
  "merge_loop env node zone order pg s =
     (if order < MAX_ORDER then
        if odd (pg div 2 ^ order) then
          if \<not> mergeable env s node order (pg - 2 ^ order) then Inr (order, pg, s)
          else bindR (page_list_del (pg - 2 ^ order) node zone order s) (\<lambda>s.
            merge_loop env node zone (Suc order) (pg - 2 ^ order) s)
        else
          if \<not> mergeable env s node order (pg + 2 ^ order) then Inr (order, pg, s)
          else bindR (page_list_del (pg + 2 ^ order) node zone order s) (\<lambda>s.
            merge_loop env node zone (Suc order) pg s)
      else Inr (order, pg, s))"
  by pat_completeness auto
termination
  by (relation "measure (\<lambda>(e, n, z, j, p, s). MAX_ORDER - j)") auto

declare merge_loop.simps [simp del]

definition free_heap_pages :: "heap_env \<Rightarrow> nat \<Rightarrow> nat \<Rightarrow> heap_state \<Rightarrow> heap_state result option" where
  "free_heap_pages env pg order s =
     (let node = phys_to_nid env pg in
      case bindR (page_to_zone s pg) (\<lambda>zone.
           if order > MAX_ORDER then Inl Assert_failed
           else
             bindR (for_loop (release_page env) [pg..<pg + 2 ^ order] (False, s)) (\<lambda>(tainted, s).
             bindR (add_avail node zone (2 ^ order) s) (\<lambda>s.
             let s = (if opt_tmem env
                      then s\<lparr>midsize_alloc_zone_pages := max (midsize_alloc_zone_pages s) (total_avail_pages s div MIDSIZE_ALLOC_FRAC)\<rparr>
                      else s)
             in bindR (merge_loop env node zone order pg s) (\<lambda>(order, pg, s).
                bindR (page_list_add_tail pg node zone order (put_page pg (\<lambda>p. p\<lparr>v_raw := order\<rparr>) s)) (\<lambda>s.
                  Inr (tainted, pg, s)))))) of
        Inl e \<Rightarrow> Some (Inl e)
      | Inr (tainted, pg, s) \<Rightarrow>
          if tainted
          then (case reserve_offlined_page env pg s of
                  None \<Rightarrow> None | Some r \<Rightarrow> Some (bindR r (\<lambda>(_, s). Inr s)))
          else Some (Inr s))"

section \<open>Offlining and onlining pages\<close>

text \<open>
  \<open>mark_page_offline\<close> returns the page as it was. Its loop repeats the exchange when another processor
  changed the word in between; here it is one exchange.
\<close>

definition mark_page_offline :: "nat \<Rightarrow> bool \<Rightarrow> heap_state \<Rightarrow> page_info \<times> heap_state" where
  "mark_page_offline pg broken s =
     (let x = frame_table s pg;
          st = (if pgc_state x \<noteq> PGC_state_offlined \<and> pgc_state x \<noteq> PGC_state_offlining
                then if pgc_state x = PGC_state_free then PGC_state_offlined else PGC_state_offlining
                else pgc_state x)
      in (x, put_page pg (\<lambda>p. p\<lparr>pgc_state := st, pgc_broken := (broken \<or> pgc_broken p)\<rparr>) s))"

text \<open>The block that a page lies in: by ascending order, and along the list.\<close>

definition block_of :: "heap_state \<Rightarrow> nat \<Rightarrow> nat \<Rightarrow> nat \<Rightarrow> nat option" where
  "block_of s node zone pg =
     map_option snd (find (\<lambda>(i, head). head \<le> pg \<and> pg < head + 2 ^ i)
       (concat (map (\<lambda>i. map (Pair i) (heaps s (node, zone, i))) [0..<Suc MAX_ORDER])))"

definition reserve_heap_page :: "heap_env \<Rightarrow> nat \<Rightarrow> heap_state \<Rightarrow> (int \<times> heap_state) result option" where
  "reserve_heap_page env pg s =
     (case bindR (page_to_zone s pg) (\<lambda>zone. bindR (heap_at s (phys_to_nid env pg) zone 0) (\<lambda>_. Inr zone)) of
        Inl e \<Rightarrow> Some (Inl e)
      | Inr zone \<Rightarrow>
          (case block_of s (phys_to_nid env pg) zone pg of
             None \<Rightarrow> Some (Inr (- 22, s))
           | Some head \<Rightarrow>
               (case reserve_offlined_page env head s of
                  None \<Rightarrow> None
                | Some r \<Rightarrow> Some (bindR r (\<lambda>(n, s). Inr (int n, s))))))"

definition PG_OFFLINE_OFFLINED :: u32 where "PG_OFFLINE_OFFLINED = 0x2"
definition PG_OFFLINE_PENDING :: u32 where "PG_OFFLINE_PENDING = 0x4"
definition PG_OFFLINE_FAILED :: u32 where "PG_OFFLINE_FAILED = 0x8"
definition PG_ONLINE_FAILED :: u32 where "PG_ONLINE_FAILED = PG_OFFLINE_FAILED"
definition PG_ONLINE_ONLINED :: u32 where "PG_ONLINE_ONLINED = PG_OFFLINE_OFFLINED"
definition PG_OFFLINE_STATUS_OFFLINED :: u32 where "PG_OFFLINE_STATUS_OFFLINED = 0x2"
definition PG_OFFLINE_STATUS_OFFLINE_PENDING :: u32 where "PG_OFFLINE_STATUS_OFFLINE_PENDING = 0x8"
definition PG_OFFLINE_STATUS_BROKEN :: u32 where "PG_OFFLINE_STATUS_BROKEN = 0x10"
definition PG_OFFLINE_XENPAGE :: u32 where "PG_OFFLINE_XENPAGE = 0x100"
definition PG_OFFLINE_ANONYMOUS :: u32 where "PG_OFFLINE_ANONYMOUS = 0x400"
definition PG_OFFLINE_NOT_CONV_RAM :: u32 where "PG_OFFLINE_NOT_CONV_RAM = 0x800"
definition PG_OFFLINE_OWNED :: u32 where "PG_OFFLINE_OWNED = 0x1000"
definition PG_OFFLINE_BROKEN :: u32 where "PG_OFFLINE_BROKEN = 0x2000"
definition PG_ONLINE_BROKEN :: u32 where "PG_ONLINE_BROKEN = PG_OFFLINE_BROKEN"
definition PG_OFFLINE_OWNER_SHIFT :: nat where "PG_OFFLINE_OWNER_SHIFT = 16"
definition DOMID_XEN :: u32 where "DOMID_XEN = 0x7FF2"
definition DOMID_INVALID :: u32 where "DOMID_INVALID = 0x7FF4"

text \<open>
  What offlining asks of other files: the fixed pages of the hypervisor, conventional memory, taking
  (if the page is owned: the domain and its id) and dropping a reference, and populate-on-demand.
\<close>

record offline_env =
  is_xen_fixed_mfn :: "nat \<Rightarrow> bool"
  page_is_conventional :: "nat \<Rightarrow> bool"
  page_get_owner_and_reference :: "nat \<Rightarrow> heap_state \<Rightarrow> u16 option \<times> heap_state"
  drop_reference :: "nat \<Rightarrow> heap_state \<Rightarrow> heap_state"
  p2m_pod_offline_or_broken_hit :: "nat \<Rightarrow> heap_state \<Rightarrow> bool \<times> heap_state"
  p2m_pod_offline_or_broken_replace :: "nat \<Rightarrow> heap_state \<Rightarrow> heap_state"

text \<open>The result: return value, status word, heap.\<close>

definition offline_page ::
  "heap_env \<Rightarrow> offline_env \<Rightarrow> nat \<Rightarrow> bool \<Rightarrow> u32 \<Rightarrow> heap_state \<Rightarrow> (int \<times> u32 \<times> heap_state) result option" where
  "offline_page env oe mfn broken status s =
     (let brk = (if broken then PG_OFFLINE_BROKEN else 0) in
      if \<not> frame_valid env mfn then Some (Inr (- 22, status, s))
      else if is_xen_fixed_mfn oe mfn
      then Some (Inr (- 1, PG_OFFLINE_XENPAGE OR PG_OFFLINE_FAILED OR push_bit PG_OFFLINE_OWNER_SHIFT DOMID_XEN, s))
      else if \<not> page_is_conventional oe mfn then Some (Inr (- 22, PG_OFFLINE_FAILED OR PG_OFFLINE_NOT_CONV_RAM, s))
      else
        case mark_page_offline mfn broken s of (old_info, s) \<Rightarrow>
          if page_state_is (frame_table s mfn) PGC_state_offlined then
            (case reserve_heap_page env mfn s of
               None \<Rightarrow> None
             | Some r \<Rightarrow> Some (bindR r (\<lambda>(_, s). Inr (0, PG_OFFLINE_OFFLINED OR brk, s))))
          else
            case page_get_owner_and_reference oe mfn s of
              (Some owner, s) \<Rightarrow>
                (case p2m_pod_offline_or_broken_hit oe mfn s of
                   (True, s) \<Rightarrow>
                     Some (Inr (0, PG_OFFLINE_OFFLINED OR brk, p2m_pod_offline_or_broken_replace oe mfn (drop_reference oe mfn s)))
                 | (False, s) \<Rightarrow>
                     Some (Inr (0, PG_OFFLINE_OWNED OR PG_OFFLINE_PENDING OR push_bit PG_OFFLINE_OWNER_SHIFT (ucast owner) OR brk,
                       drop_reference oe mfn s)))
            | (None, s) \<Rightarrow>
                if pgc_xen_heap old_info
                then Some (Inr (0, PG_OFFLINE_XENPAGE OR PG_OFFLINE_PENDING OR push_bit PG_OFFLINE_OWNER_SHIFT DOMID_XEN OR brk, s))
                else Some (Inr (0, PG_OFFLINE_ANONYMOUS OR PG_OFFLINE_FAILED OR push_bit PG_OFFLINE_OWNER_SHIFT DOMID_INVALID OR brk, s)))"

definition online_page :: "heap_env \<Rightarrow> nat \<Rightarrow> u32 \<Rightarrow> heap_state \<Rightarrow> (int \<times> u32 \<times> heap_state) result option" where
  "online_page env mfn status s =
     (if \<not> frame_valid env mfn then Some (Inr (- 22, status, s))
      else
        let y = frame_table s mfn;
            inuse = put_page mfn (\<lambda>p. p\<lparr>pgc_state := PGC_state_inuse\<rparr>)
        in case (if pgc_broken y then Inr (- 22, PG_ONLINE_FAILED OR PG_ONLINE_BROKEN, s)
                 else if pgc_state y = PGC_state_offlined then
                   if mfn \<in> set (page_offlined_list s)
                   then Inr (0, PG_ONLINE_ONLINED, inuse (s\<lparr>page_offlined_list := remove1 mfn (page_offlined_list s)\<rparr>))
                   else Inl List_corruption
                 else if pgc_state y = PGC_state_offlining then Inr (0, PG_ONLINE_ONLINED, inuse s)
                 else Inr (0, 0, s)) of
             Inl e \<Rightarrow> Some (Inl e)
           | Inr (ret, status, s) \<Rightarrow>
               if pgc_state y = PGC_state_offlined then
                 (case free_heap_pages env mfn 0 s of
                    None \<Rightarrow> None | Some r \<Rightarrow> Some (bindR r (\<lambda>s. Inr (ret, status, s))))
               else Some (Inr (ret, status, s)))"

definition query_page_offline :: "heap_env \<Rightarrow> offline_env \<Rightarrow> nat \<Rightarrow> u32 \<Rightarrow> heap_state \<Rightarrow> int \<times> u32" where
  "query_page_offline env oe mfn status s =
     (if \<not> frame_valid env mfn \<or> \<not> page_is_conventional oe mfn then (- 22, status)
      else
        let p = frame_table s mfn in
        (0, (if page_state_is p PGC_state_offlining then PG_OFFLINE_STATUS_OFFLINE_PENDING else 0) OR
            (if pgc_broken p then PG_OFFLINE_STATUS_BROKEN else 0) OR
            (if page_state_is p PGC_state_offlined then PG_OFFLINE_STATUS_OFFLINED else 0)))"

section \<open>Counters\<close>

text \<open>\<open>None\<close> for the node stands for \<open>-1\<close>, all nodes.\<close>

definition avail_heap_pages :: "heap_env \<Rightarrow> nat \<Rightarrow> nat \<Rightarrow> nat option \<Rightarrow> heap_state \<Rightarrow> nat" where
  "avail_heap_pages env zone_lo zone_hi node s =
     (let zone_hi = (if zone_hi \<ge> NR_ZONES then NR_ZONES - 1 else zone_hi) in
      sum_list (map (\<lambda>i. case avail s i of
            None \<Rightarrow> 0
          | Some a \<Rightarrow> sum_list (map (\<lambda>zone. if node = None \<or> node = Some i then a zone else 0) [zone_lo..<Suc zone_hi]))
        (node_online_map env)))"

definition total_free_pages :: "heap_state \<Rightarrow> int" where
  "total_free_pages s = total_avail_pages s - midsize_alloc_zone_pages s"

end
