(* ===== verification/Page_Heap.thy ===== *)
theory Page_Heap
  imports Page_Alloc
begin

text \<open>
  The shape of the buddy heap: blocks are aligned, disjoint and maximal, and cover exactly the free pages.
  A block can be taken off its list, which leaves its pages floating, and floating pages can be put back as
  a block; both keep the shape.
\<close>

section \<open>Aligned blocks\<close>

definition span :: "nat \<Rightarrow> nat \<Rightarrow> nat set" where
  "span p j = {p..<p + 2 ^ j}"

definition buddy :: "nat \<Rightarrow> nat \<Rightarrow> nat" where
  "buddy p j = (if odd (p div 2 ^ j) then p - 2 ^ j else p + 2 ^ j)"

lemma span_self [simp]: "p \<in> span p j" by (simp add: span_def)

lemma finite_span [simp]: "finite (span p j)" by (simp add: span_def)

lemma card_span [simp]: "card (span p j) = 2 ^ j" by (simp add: span_def)

lemma set_span: "set [p..<p + 2 ^ j] = span p j" by (auto simp: span_def)

lemma span_div:
  assumes "2 ^ j dvd p"
  shows "m \<in> span p j \<longleftrightarrow> m div 2 ^ j = p div 2 ^ j"
proof -
  obtain k where k: "p = 2 ^ j * k" using assms by blast
  have "m \<in> span p j \<longleftrightarrow> k * 2 ^ j \<le> m \<and> m < Suc k * 2 ^ j" by (auto simp: span_def k mult.commute)
  also have "\<dots> \<longleftrightarrow> m div 2 ^ j = k"
    by (metis div_nat_eqI dividend_less_div_times div_times_less_eq_dividend mult.commute mult_Suc add.commute zero_less_numeral zero_less_power)
  finally show ?thesis by (simp add: k)
qed

lemma span_nest:
  assumes "2 ^ j dvd p" "2 ^ k dvd q" "j \<le> k" "span p j \<inter> span q k \<noteq> {}"
  shows "span p j \<subseteq> span q k"
proof
  obtain m where m: "m div 2 ^ j = p div 2 ^ j" "m div 2 ^ k = q div 2 ^ k"
    using assms(4) by (auto simp: span_div[OF assms(1)] span_div[OF assms(2)])
  have d: "y div 2 ^ k = y div 2 ^ j div 2 ^ (k - j)" for y :: nat
    using assms(3) by (simp add: div_mult2_eq[symmetric] power_add[symmetric])
  fix x assume "x \<in> span p j"
  then have "x div 2 ^ j = m div 2 ^ j" using m(1) by (simp add: span_div[OF assms(1)])
  then have "x div 2 ^ k = q div 2 ^ k" using d[of x] d[of m] m(2) by simp
  then show "x \<in> span q k" by (simp add: span_div[OF assms(2)])
qed

lemma span_Suc: "span p (Suc j) = span p j \<union> span (p + 2 ^ j) j" "span p j \<inter> span (p + 2 ^ j) j = {}"
  by (auto simp: span_def)

lemma fls_pos: "0 < m \<Longrightarrow> fls m = Suc (fls (m div 2))" by (subst fls.simps) simp

lemma fls_div: "0 < m div 2 ^ j \<Longrightarrow> fls m = fls (m div 2 ^ j) + j"
proof (induction j arbitrary: m)
  case (Suc j)
  have d: "m div 2 ^ Suc j = m div 2 div 2 ^ j" by (simp add: div_mult2_eq)
  then have "0 < m" using Suc.prems by (cases "m = 0") auto
  then show ?case using Suc.IH[of "m div 2"] Suc.prems d fls_pos[of m] by simp
qed simp

lemma fls_span:
  assumes "2 ^ j dvd p" "0 < p" "m \<in> span p j"
  shows "fls m = fls p"
proof -
  have "0 < p div 2 ^ j" using assms(1,2) by (auto elim!: dvdE)
  moreover have "m div 2 ^ j = p div 2 ^ j" using assms by (simp add: span_div)
  ultimately show ?thesis using fls_div[of m j] fls_div[of p j] by simp
qed

lemma buddy_facts:
  assumes "2 ^ j dvd p"
  shows "2 ^ j dvd buddy p j" "2 ^ Suc j dvd min p (buddy p j)"
    "span (min p (buddy p j)) (Suc j) = span p j \<union> span (buddy p j) j" "span p j \<inter> span (buddy p j) j = {}"
    "buddy (buddy p j) j = p" "odd (p div 2 ^ j) \<Longrightarrow> 2 ^ j \<le> p"
proof -
  obtain k where k: "p = 2 ^ j * k" using assms by blast
  then have pk: "p div 2 ^ j = k" by simp
  show le: "odd (p div 2 ^ j) \<Longrightarrow> 2 ^ j \<le> p" using k pk by (cases k) auto
  show "2 ^ j dvd buddy p j" using assms by (auto simp: buddy_def intro: dvd_diff_nat)
  show "2 ^ Suc j dvd min p (buddy p j)"
  proof (cases "odd k")
    case True
    then obtain i where "k = 2 * i + 1" by (auto elim: oddE)
    then have "buddy p j = 2 ^ Suc j * i" "buddy p j \<le> p" using True pk by (auto simp: buddy_def k algebra_simps)
    then show ?thesis by (simp add: min_def)
  next
    case False
    then obtain i where "k = 2 * i" by (auto elim: evenE)
    then have "p = 2 ^ Suc j * i" "p \<le> buddy p j" using False pk by (auto simp: buddy_def k)
    then show ?thesis by (simp add: min_def)
  qed
  show "span (min p (buddy p j)) (Suc j) = span p j \<union> span (buddy p j) j" "span p j \<inter> span (buddy p j) j = {}"
    using le by (auto simp: buddy_def span_def min_def)
  show "buddy (buddy p j) j = p"
  proof (cases "odd k")
    case True
    then have "buddy p j = 2 ^ j * (k - 1)" using pk by (simp add: buddy_def k diff_mult_distrib2)
    then have "buddy p j div 2 ^ j = k - 1" by simp
    then show ?thesis using True le pk by (auto simp: buddy_def)
  next
    case False
    then have "buddy p j = 2 ^ j * (k + 1)" using pk by (simp add: buddy_def k distrib_left)
    then have "buddy p j div 2 ^ j = k + 1" by simp
    then show ?thesis using False pk by (auto simp: buddy_def)
  qed
qed


section \<open>The shape of the heap\<close>

definition free_set :: "heap_state \<Rightarrow> nat set" where
  "free_set s = {m. pgc_state (frame_table s m) = PGC_state_free}"

definition zone_of :: "nat \<Rightarrow> nat" where "zone_of m = fls m - 1"

text \<open>A block where it belongs: aligned, on one node and in one zone, of free pages that exist.\<close>

definition block_ok :: "heap_env \<Rightarrow> heap_state \<Rightarrow> nat \<Rightarrow> nat \<Rightarrow> nat \<Rightarrow> nat \<Rightarrow> bool" where
  "block_ok env s n z j p \<longleftrightarrow>
     n < MAX_NUMNODES \<and> avail s n \<noteq> None \<and> z < NR_ZONES \<and> j \<le> MAX_ORDER \<and> 0 < p \<and> 2 ^ j dvd p \<and> z = zone_of p \<and>
     (\<forall>m\<in>span p j. count_info_free (frame_table s m) \<and> frame_valid env m \<and> phys_to_nid env m = n)"

definition blocks :: "heap_state \<Rightarrow> (nat \<times> nat) set" where
  "blocks s = {(p, j). \<exists>n z. p \<in> set (heaps s (n, z, j))}"

text \<open>\<open>X\<close> are the floating pages: free, but in no block.\<close>

definition lists_ok :: "heap_env \<Rightarrow> heap_state \<Rightarrow> nat set \<Rightarrow> bool" where
  "lists_ok env s X \<longleftrightarrow>
     (\<forall>i. distinct (heaps s i)) \<and>
     (\<forall>n z j p. p \<in> set (heaps s (n, z, j)) \<longrightarrow> block_ok env s n z j p \<and> PFN_ORDER (frame_table s p) = j) \<and>
     (\<forall>p j q k. (p, j) \<in> blocks s \<longrightarrow> (q, k) \<in> blocks s \<longrightarrow> span p j \<inter> span q k \<noteq> {} \<longrightarrow> p = q \<and> j = k) \<and>
     free_set s = (\<Union>(p, j)\<in>blocks s. span p j) \<union> X \<and>
     (\<forall>p j. (p, j) \<in> blocks s \<longrightarrow> span p j \<inter> X = {}) \<and>
     (\<forall>p j. (p, j) \<in> blocks s \<longrightarrow> j < MAX_ORDER \<longrightarrow> phys_to_nid env (buddy p j) = phys_to_nid env p \<longrightarrow> (buddy p j, j) \<notin> blocks s)"

lemma lists_okD:
  assumes "lists_ok env s X"
  shows "distinct (heaps s i)"
    and "p \<in> set (heaps s (n, z, j)) \<Longrightarrow> block_ok env s n z j p"
    and "p \<in> set (heaps s (n, z, j)) \<Longrightarrow> PFN_ORDER (frame_table s p) = j"
    and "(p, j) \<in> blocks s \<Longrightarrow> (q, k) \<in> blocks s \<Longrightarrow> m \<in> span p j \<Longrightarrow> m \<in> span q k \<Longrightarrow> p = q \<and> j = k"
    and "free_set s = (\<Union>(p, j)\<in>blocks s. span p j) \<union> X"
    and "(p, j) \<in> blocks s \<Longrightarrow> span p j \<inter> X = {}"
    and "(p, j) \<in> blocks s \<Longrightarrow> j < MAX_ORDER \<Longrightarrow> phys_to_nid env (buddy p j) = phys_to_nid env p \<Longrightarrow> (buddy p j, j) \<notin> blocks s"
proof -
  note a = assms[unfolded lists_ok_def]
  note b = a[THEN conjunct2] and c = a[THEN conjunct2, THEN conjunct2] and d = a[THEN conjunct2, THEN conjunct2, THEN conjunct2]
  show "distinct (heaps s i)" using a[THEN conjunct1] by (rule spec)
  show "p \<in> set (heaps s (n, z, j)) \<Longrightarrow> block_ok env s n z j p" using b[THEN conjunct1] by simp
  show "p \<in> set (heaps s (n, z, j)) \<Longrightarrow> PFN_ORDER (frame_table s p) = j" using b[THEN conjunct1] by simp
  show "(p, j) \<in> blocks s \<Longrightarrow> (q, k) \<in> blocks s \<Longrightarrow> m \<in> span p j \<Longrightarrow> m \<in> span q k \<Longrightarrow> p = q \<and> j = k"
    using c[THEN conjunct1, rule_format, of p j q k] by blast
  show "free_set s = (\<Union>(p, j)\<in>blocks s. span p j) \<union> X" by (rule d[THEN conjunct1])
  show "(p, j) \<in> blocks s \<Longrightarrow> span p j \<inter> X = {}" by (rule d[THEN conjunct2, THEN conjunct1, rule_format])
  show "(p, j) \<in> blocks s \<Longrightarrow> j < MAX_ORDER \<Longrightarrow> phys_to_nid env (buddy p j) = phys_to_nid env p \<Longrightarrow> (buddy p j, j) \<notin> blocks s"
    by (rule d[THEN conjunct2, THEN conjunct2, rule_format])
qed

lemma block_ok_place: "block_ok env s n z j p \<Longrightarrow> n = phys_to_nid env p \<and> z = zone_of p"
  using span_self[of p j] unfolding block_ok_def by metis

lemma listed_block: "p \<in> set (heaps s (n, z, j)) \<Longrightarrow> (p, j) \<in> blocks s"
  by (auto simp: blocks_def)

text \<open>The list a block is on is the one of its node and zone.\<close>

lemma block_listed:
  assumes "lists_ok env s X" "(p, j) \<in> blocks s"
  shows "p \<in> set (heaps s (phys_to_nid env p, zone_of p, j))" "block_ok env s (phys_to_nid env p) (zone_of p) j p"
proof -
  obtain n z where l: "p \<in> set (heaps s (n, z, j))" using assms(2) by (auto simp: blocks_def)
  from lists_okD(2)[OF assms(1) l] have "n = phys_to_nid env p" "z = zone_of p" "block_ok env s n z j p"
    using block_ok_place by blast+
  then show "p \<in> set (heaps s (phys_to_nid env p, zone_of p, j))" "block_ok env s (phys_to_nid env p) (zone_of p) j p"
    using l by auto
qed

lemma block_align: "lists_ok env s X \<Longrightarrow> (p, j) \<in> blocks s \<Longrightarrow> 2 ^ j dvd p \<and> 0 < p"
  using block_listed(2) by (auto simp: block_ok_def)

lemma put_heap_simps [simp]:
  "frame_table (put_heap n z j l s) = frame_table s" "avail (put_heap n z j l s) = avail s"
  "total_avail_pages (put_heap n z j l s) = total_avail_pages s"
  "heaps (put_heap n z j l s) = (heaps s)((n, z, j) := l)" "free_set (put_heap n z j l s) = free_set s"
  by (simp_all add: put_heap_def free_set_def)

lemma block_ok_cong:
  assumes "avail s' = avail s" "\<And>m. m \<in> span p j \<Longrightarrow> count_info_free (frame_table s' m) = count_info_free (frame_table s m)"
  shows "block_ok env s' n z j p = block_ok env s n z j p"
  using assms by (simp add: block_ok_def)

text \<open>Taking a block off its list.\<close>

lemma blocks_remove:
  assumes "lists_ok env s X" "p \<in> set (heaps s (n, z, j))"
  shows "blocks (put_heap n z j (remove1 p (heaps s (n, z, j))) s) = blocks s - {(p, j)}"
proof -
  have "n' = n \<and> z' = z" if "p \<in> set (heaps s (n', z', j))" for n' z'
    using block_ok_place[OF lists_okD(2)[OF assms]] block_ok_place[OF lists_okD(2)[OF assms(1) that]] by simp
  then have "q \<in> set (((heaps s)((n, z, j) := remove1 p (heaps s (n, z, j)))) (n', z', k)) \<longleftrightarrow>
      q \<in> set (heaps s (n', z', k)) \<and> \<not> (q = p \<and> k = j)" for q n' z' k
    using lists_okD(1)[OF assms(1)] by auto
  then show ?thesis by (auto simp: blocks_def)
qed

lemma remove_block:
  assumes ok: "lists_ok env s X" and p: "p \<in> set (heaps s (n, z, j))"
  shows "lists_ok env (put_heap n z j (remove1 p (heaps s (n, z, j))) s) (X \<union> span p j)"
proof -
  let ?s = "put_heap n z j (remove1 p (heaps s (n, z, j))) s"
  note b = blocks_remove[OF ok p]
  have sub: "q \<in> set (heaps ?s (n', z', k)) \<Longrightarrow> q \<in> set (heaps s (n', z', k))" for q n' z' k
    by (auto split: if_splits dest: set_remove1_subset[THEN subsetD])
  have bo: "block_ok env ?s n' z' k q = block_ok env s n' z' k q" for n' z' k q
    by (rule block_ok_cong) simp_all
  have pb: "(p, j) \<in> blocks s" by (rule listed_block[OF p])
  have dis: "span q k \<inter> span p j = {}" if "(q, k) \<in> blocks s - {(p, j)}" for q k
    using lists_okD(4)[OF ok _ pb] that by blast
  show ?thesis
    unfolding lists_ok_def b
  proof (intro conjI allI impI)
    show "distinct (heaps ?s i)" for i using lists_okD(1)[OF ok] by simp
    show "block_ok env ?s n' z' k q" "PFN_ORDER (frame_table ?s q) = k" if "q \<in> set (heaps ?s (n', z', k))" for n' z' k q
      using lists_okD(2,3)[OF ok sub[OF that]] by (simp_all add: bo)
    have "q = r \<and> k = i" if "(q, k) \<in> blocks s - {(p, j)}" "(r, i) \<in> blocks s - {(p, j)}" "span q k \<inter> span r i \<noteq> {}" for q k r i
      using lists_okD(4)[OF ok] that by blast
    then show "q = r" "k = i" if "(q, k) \<in> blocks s - {(p, j)}" "(r, i) \<in> blocks s - {(p, j)}" "span q k \<inter> span r i \<noteq> {}" for q k r i
      using that by blast+
    show "free_set ?s = (\<Union>(p, j)\<in>blocks s - {(p, j)}. span p j) \<union> (X \<union> span p j)"
      using lists_okD(5)[OF ok] pb by auto
    show "span q k \<inter> (X \<union> span p j) = {}" if "(q, k) \<in> blocks s - {(p, j)}" for q k
      using lists_okD(6)[OF ok, of q k] dis[OF that] that by auto
    show "(buddy q k, k) \<notin> blocks s - {(p, j)}" if "(q, k) \<in> blocks s - {(p, j)}" "k < MAX_ORDER" "phys_to_nid env (buddy q k) = phys_to_nid env q" for q k
      using lists_okD(7)[OF ok, of q k] that by auto
  qed
qed


text \<open>Putting floating pages back as a block.\<close>

definition enlist :: "nat \<Rightarrow> nat \<Rightarrow> nat \<Rightarrow> nat \<Rightarrow> heap_state \<Rightarrow> heap_state" where
  "enlist n z j p s = put_heap n z j (heaps s (n, z, j) @ [p]) (put_page p (\<lambda>x. x\<lparr>v_raw := j\<rparr>) s)"

lemma put_page_simps [simp]:
  "heaps (put_page m f s) = heaps s" "avail (put_page m f s) = avail s" "total_avail_pages (put_page m f s) = total_avail_pages s"
  "frame_table (put_page m f s) = (frame_table s)(m := f (frame_table s m))" "blocks (put_page m f s) = blocks s"
  by (simp_all add: put_page_def blocks_def)

lemma enlist_simps [simp]:
  "avail (enlist n z j p s) = avail s" "total_avail_pages (enlist n z j p s) = total_avail_pages s"
  "heaps (enlist n z j p s) = (heaps s)((n, z, j) := heaps s (n, z, j) @ [p])"
  "frame_table (enlist n z j p s) = (frame_table s)(p := (frame_table s p)\<lparr>v_raw := j\<rparr>)"
  "free_set (enlist n z j p s) = free_set s" "blocks (enlist n z j p s) = insert (p, j) (blocks s)"
  by (auto simp: enlist_def free_set_def blocks_def)

lemma count_info_free_v [simp]: "count_info_free (x\<lparr>v_raw := j\<rparr>) = count_info_free x"
  by (simp add: count_info_free_def)

lemma block_ok_enlist: "block_ok env (enlist n' z' k q s) n z j p = block_ok env s n z j p"
  by (rule block_ok_cong) simp_all

lemma add_block:
  assumes ok: "lists_ok env s (X \<union> span p j)" and dis: "span p j \<inter> X = {}" and blk: "block_ok env s n z j p"
    and nb: "j < MAX_ORDER \<Longrightarrow> phys_to_nid env (buddy p j) = n \<Longrightarrow> (buddy p j, j) \<notin> blocks s"
  shows "lists_ok env (enlist n z j p s) X"
proof -
  let ?s = "enlist n z j p s"
  have al: "2 ^ j dvd p" using blk by (simp add: block_ok_def)
  have apart: "span q k \<inter> span p j = {}" if "(q, k) \<in> blocks s" for q k
    using lists_okD(6)[OF ok that] by blast
  have other: "q \<noteq> p" if "(q, k) \<in> blocks s" for q k using apart[OF that] by (metis IntI empty_iff span_self)
  have pnew: "p \<notin> set (heaps s i)" for i
    using other[of p "snd (snd i)"] listed_block[of p s "fst i" "fst (snd i)" "snd (snd i)"] by auto
  have n: "phys_to_nid env p = n" using block_ok_place[OF blk] by simp
  show ?thesis
    unfolding lists_ok_def enlist_simps
  proof (intro conjI allI impI)
    show "distinct (((heaps s)((n, z, j) := heaps s (n, z, j) @ [p])) i)" for i
      using lists_okD(1)[OF ok] pnew by simp
    show "block_ok env ?s n' z' k q" "PFN_ORDER (((frame_table s)(p := (frame_table s p)\<lparr>v_raw := j\<rparr>)) q) = k"
      if mem: "q \<in> set (((heaps s)((n, z, j) := heaps s (n, z, j) @ [p])) (n', z', k))" for n' z' k q
    proof -
      consider "q \<in> set (heaps s (n', z', k))" | "q = p" "n' = n" "z' = z" "k = j" "q \<notin> set (heaps s (n', z', k))"
        using mem by (auto split: if_splits)
      then have "block_ok env s n' z' k q \<and> PFN_ORDER (((frame_table s)(p := (frame_table s p)\<lparr>v_raw := j\<rparr>)) q) = k"
      proof cases
        case 1
        then show ?thesis using lists_okD(2,3)[OF ok 1] other[OF listed_block[OF 1]] by simp
      qed (use blk in \<open>simp add: PFN_ORDER_def\<close>)
      then show "block_ok env ?s n' z' k q" "PFN_ORDER (((frame_table s)(p := (frame_table s p)\<lparr>v_raw := j\<rparr>)) q) = k"
        by (simp_all add: block_ok_enlist)
    qed
    have "q = r \<and> k = i" if "(q, k) \<in> insert (p, j) (blocks s)" "(r, i) \<in> insert (p, j) (blocks s)" "span q k \<inter> span r i \<noteq> {}" for q k r i
      using that apart[of q k] apart[of r i] lists_okD(4)[OF ok, of q k r i] by blast
    then show "q = r" "k = i" if "(q, k) \<in> insert (p, j) (blocks s)" "(r, i) \<in> insert (p, j) (blocks s)" "span q k \<inter> span r i \<noteq> {}" for q k r i
      using that by blast+
    show "free_set s = (\<Union>(p, j)\<in>insert (p, j) (blocks s). span p j) \<union> X" using lists_okD(5)[OF ok] by auto
    show "span q k \<inter> X = {}" if "(q, k) \<in> insert (p, j) (blocks s)" for q k
      using that dis lists_okD(6)[OF ok, of q k] by auto
    show "(buddy q k, k) \<notin> insert (p, j) (blocks s)"
      if "(q, k) \<in> insert (p, j) (blocks s)" "k < MAX_ORDER" "phys_to_nid env (buddy q k) = phys_to_nid env q" for q k
    proof (cases "(q, k) = (p, j)")
      case True
      then have "(buddy q k, k) \<notin> blocks s" using nb that n by simp
      moreover have "buddy p j \<noteq> p" using buddy_facts(4)[OF al] by (metis IntI empty_iff span_self)
      ultimately show ?thesis using True by simp
    next
      case False
      then have q: "(q, k) \<in> blocks s" using that(1) by blast
      have "(buddy q k, k) \<noteq> (p, j)"
      proof
        assume e: "(buddy q k, k) = (p, j)"
        then have "buddy p j = q" using buddy_facts(5)[of k q] block_align[OF ok q] by auto
        then show False using nb that(2,3) q e n by auto
      qed
      then show ?thesis using lists_okD(7)[OF ok q that(2,3)] by simp
    qed
  qed
qed

text \<open>The test of the merging loop: a free page at the buddy's place whose order fits is the buddy block.\<close>

lemma mergeable_block:
  assumes ok: "lists_ok env s (span p j)" and al: "2 ^ j dvd p" and m: "mergeable env s n j (buddy p j)"
  shows "(buddy p j, j) \<in> blocks s"
proof -
  let ?b = "buddy p j"
  note B = buddy_facts[OF al]
  have "?b \<in> free_set s" using m by (simp add: mergeable_def free_set_def page_state_is_def)
  moreover have "?b \<notin> span p j" using B(4) by auto
  ultimately obtain q k where q: "(q, k) \<in> blocks s" "?b \<in> span q k" using lists_okD(5)[OF ok] by auto
  have qal: "2 ^ k dvd q" using block_align[OF ok q(1)] by simp
  have "k \<le> j"
  proof (rule ccontr)
    assume "\<not> k \<le> j"
    moreover have "?b \<in> span (min p ?b) (Suc j)" using B(3) by simp
    ultimately have "span (min p ?b) (Suc j) \<subseteq> span q k"
      using span_nest[OF B(2) qal] q(2) by (metis IntI empty_iff not_less_eq_eq)
    then show False using lists_okD(6)[OF ok q(1)] B(3) span_self[of p j] by blast
  qed
  then have "span q k \<subseteq> span ?b j" using span_nest[OF qal B(1)] q(2) by (metis IntI empty_iff span_self)
  then have "q \<in> span ?b j" by (rule subsetD) simp
  then have "q = ?b" using q(2) by (simp add: span_def)
  moreover have "PFN_ORDER (frame_table s q) = k" using lists_okD(3)[OF ok block_listed(1)[OF ok q(1)]] .
  ultimately show ?thesis using q(1) m by (simp add: mergeable_def)
qed

text \<open>Conversely the buddy block passes the test.\<close>

lemma block_mergeable:
  assumes ok: "lists_ok env s X" and b: "(b, j) \<in> blocks s" and n: "phys_to_nid env b = n"
  shows "mergeable env s n j b"
  using block_listed[OF ok b] lists_okD(3)[OF ok block_listed(1)[OF ok b]] n span_self[of b j]
  by (auto simp: mergeable_def block_ok_def page_state_is_def count_info_free_def)

end
