(* ===== verification/Page_Free.thy ===== *)
theory Page_Free
  imports Page_Heap
begin

text \<open>
  Freeing pages: the merging loop finds exactly the buddy blocks, and a block that is freed joins the heap
  with the largest block around it.
\<close>

section \<open>The invariant\<close>

definition counters_ok :: "heap_env \<Rightarrow> heap_state \<Rightarrow> bool" where
  "counters_ok env s \<longleftrightarrow> finite (free_set s) \<and> total_avail_pages s = int (card (free_set s)) \<and>
     (\<forall>n a z. avail s n = Some a \<longrightarrow> z < NR_ZONES \<longrightarrow>
        a z = card {m \<in> free_set s. phys_to_nid env m = n \<and> zone_of m = z})"

definition heap_ok :: "heap_env \<Rightarrow> heap_state \<Rightarrow> bool" where
  "heap_ok env s \<longleftrightarrow> lists_ok env s {} \<and> counters_ok env s"

text \<open>The pages of a block that may be freed, or were just allocated.\<close>

definition owned_block :: "heap_env \<Rightarrow> heap_state \<Rightarrow> nat \<Rightarrow> nat \<Rightarrow> bool" where
  "owned_block env s p j \<longleftrightarrow>
     j \<le> MAX_ORDER \<and> 0 < p \<and> 2 ^ j dvd p \<and> zone_of p < NR_ZONES \<and> phys_to_nid env p < MAX_NUMNODES \<and> avail s (phys_to_nid env p) \<noteq> None \<and>
     (\<forall>m\<in>span p j. frame_valid env m \<and> phys_to_nid env m = phys_to_nid env p \<and> pgc_state (frame_table s m) = PGC_state_inuse \<and>
        \<not> pgc_broken (frame_table s m) \<and> \<not> pgc_xen_heap (frame_table s m))"

text \<open>What an operation on the heap may change of pages outside the heap: nothing.\<close>

definition outside_same :: "nat set \<Rightarrow> heap_state \<Rightarrow> heap_state \<Rightarrow> bool" where
  "outside_same F s s' \<longleftrightarrow> (\<forall>m. m \<notin> F \<longrightarrow> frame_table s' m = frame_table s m) \<and>
     (\<forall>n. avail s' n = None \<longleftrightarrow> avail s n = None) \<and>
     page_offlined_list s' = page_offlined_list s \<and> page_broken_list s' = page_broken_list s"

lemma lists_ok_reframe:
  assumes ok: "lists_ok env s X" and h: "heaps s' = heaps s" and av: "\<And>n. avail s' n = None \<longleftrightarrow> avail s n = None"
    and fr: "\<And>m. m \<in> free_set s - X \<Longrightarrow> frame_table s' m = frame_table s m"
    and F: "free_set s' = (free_set s - X) \<union> Y" "Y \<inter> (free_set s - X) = {}"
  shows "lists_ok env s' Y"
proof -
  have b: "blocks s' = blocks s" using h by (simp add: blocks_def)
  have U: "free_set s - X = (\<Union>(p, j)\<in>blocks s. span p j)"
    using lists_okD(5)[OF ok] lists_okD(6)[OF ok] by fastforce
  have fr': "frame_table s' m = frame_table s m" if "(p, j) \<in> blocks s" "m \<in> span p j" for p j m
    using fr[of m] that unfolding U by blast
  have bo: "block_ok env s' n z j p" if "block_ok env s n z j p" "(p, j) \<in> blocks s" for n z j p
    using that(1) av[of n] fr'[OF that(2)] by (simp add: block_ok_def)
  show ?thesis
    unfolding lists_ok_def b h
  proof (intro conjI allI impI)
    show "distinct (heaps s i)" for i by (rule lists_okD(1)[OF ok])
    show "block_ok env s' n z j p" "PFN_ORDER (frame_table s' p) = j" if "p \<in> set (heaps s (n, z, j))" for n z j p
      using bo[OF lists_okD(2)[OF ok that] listed_block[OF that]] fr'[OF listed_block[OF that] span_self] lists_okD(3)[OF ok that] by simp_all
    have "p = q \<and> j = k" if "(p, j) \<in> blocks s" "(q, k) \<in> blocks s" "span p j \<inter> span q k \<noteq> {}" for p j q k
      using lists_okD(4)[OF ok] that by blast
    then show "p = q" "j = k" if "(p, j) \<in> blocks s" "(q, k) \<in> blocks s" "span p j \<inter> span q k \<noteq> {}" for p j q k
      using that by blast+
    show "free_set s' = (\<Union>(p, j)\<in>blocks s. span p j) \<union> Y" using F(1) U by simp
    show "span p j \<inter> Y = {}" if "(p, j) \<in> blocks s" for p j using F(2) that unfolding U by blast
    show "(buddy p j, j) \<notin> blocks s" if "(p, j) \<in> blocks s" "j < MAX_ORDER" "phys_to_nid env (buddy p j) = phys_to_nid env p" for p j
      by (rule lists_okD(7)[OF ok that])
  qed
qed

section \<open>The merging loop\<close>

lemma page_list_del_listed:
  assumes "block_ok env s n z j p" "p \<in> set (heaps s (n, z, j))"
  shows "page_list_del p n z j s = Inr (put_heap n z j (remove1 p (heaps s (n, z, j))) s)"
  using assms by (simp add: page_list_del_def heap_at_def block_ok_def not_less)

lemma page_list_add_enlist:
  assumes "block_ok env s n z j p"
  shows "page_list_add_tail p n z j (put_page p (\<lambda>x. x\<lparr>v_raw := j\<rparr>) s) = Inr (enlist n z j p s)"
  using assms by (simp add: page_list_add_tail_def heap_at_def block_ok_def not_less enlist_def)

lemma zone_of_span: "2 ^ j dvd p \<Longrightarrow> 0 < p \<Longrightarrow> m \<in> span p j \<Longrightarrow> zone_of m = zone_of p"
  using fls_span[of j p m] by (simp add: zone_of_def)

text \<open>A floating block and its buddy block make a floating block of the next order.\<close>

lemma merge_block:
  assumes ok: "lists_ok env s (span p j)" and p: "block_ok env s n z j p" and b: "(buddy p j, j) \<in> blocks s"
    and n: "phys_to_nid env (buddy p j) = n" and j: "j < MAX_ORDER"
  defines "s' \<equiv> put_heap n z j (remove1 (buddy p j) (heaps s (n, z, j))) s"
  shows "page_list_del (buddy p j) n z j s = Inr s'" "lists_ok env s' (span (min p (buddy p j)) (Suc j))"
    "block_ok env s' n z (Suc j) (min p (buddy p j))"
proof -
  let ?b = "buddy p j"
  have al: "2 ^ j dvd p" "0 < p" "z = zone_of p" using p by (auto simp: block_ok_def)
  note B = buddy_facts[OF al(1)]
  note l = block_listed[OF ok b]
  have pos: "0 < min p ?b" using al(2) l(2) by (simp add: block_ok_def)
  have zm: "zone_of p = zone_of (min p ?b)" "zone_of ?b = zone_of (min p ?b)"
    using zone_of_span[OF B(2) pos] B(3) by auto
  then have l': "?b \<in> set (heaps s (n, z, j))" "block_ok env s n z j ?b" using l n al(3) by auto
  show "page_list_del ?b n z j s = Inr s'" unfolding s'_def by (rule page_list_del_listed[OF l'(2,1)])
  show "lists_ok env s' (span (min p ?b) (Suc j))" using remove_block[OF ok l'(1)] B(3) by (simp add: s'_def)
  have "\<forall>m\<in>span (min p ?b) (Suc j). count_info_free (frame_table s m) \<and> frame_valid env m \<and> phys_to_nid env m = n"
    unfolding B(3) using p l'(2) by (auto simp: block_ok_def)
  then show "block_ok env s' n z (Suc j) (min p ?b)"
    using p j pos B(2) zm(1) by (simp add: block_ok_def s'_def)
qed

definition heap_frame :: "heap_state \<Rightarrow> heap_state \<Rightarrow> bool" where
  "heap_frame s s' \<longleftrightarrow> frame_table s' = frame_table s \<and> avail s' = avail s \<and> total_avail_pages s' = total_avail_pages s \<and>
     page_offlined_list s' = page_offlined_list s \<and> page_broken_list s' = page_broken_list s"

lemma heap_frame_trans: "heap_frame s t \<Longrightarrow> heap_frame t u \<Longrightarrow> heap_frame s u"
  by (simp add: heap_frame_def)

lemma heap_frame_put: "heap_frame s (put_heap n z j l s)" by (simp add: heap_frame_def put_heap_def)

lemma merge_loop_ok:
  assumes "lists_ok env s (span p j)" "block_ok env s n z j p"
  shows "\<exists>j' p' s'. merge_loop env n z j p s = Inr (j', p', s') \<and> heap_frame s s' \<and>
    lists_ok env s' (span p' j') \<and> block_ok env s' n z j' p' \<and> span p j \<subseteq> span p' j' \<and>
    (j' < MAX_ORDER \<longrightarrow> phys_to_nid env (buddy p' j') = n \<longrightarrow> (buddy p' j', j') \<notin> blocks s')"
  using assms
proof (induction "MAX_ORDER - j" arbitrary: j p s)
  case 0
  then show ?case by (subst merge_loop.simps) (auto simp: heap_frame_def)
next
  case (Suc k)
  then have j: "j < MAX_ORDER" by simp
  have al: "2 ^ j dvd p" using Suc.prems(2) by (simp add: block_ok_def)
  note B = buddy_facts[OF al]
  show ?case
  proof (cases "mergeable env s n j (buddy p j)")
    case False
    have "(buddy p j, j) \<notin> blocks s" if "phys_to_nid env (buddy p j) = n"
      using block_mergeable[OF Suc.prems(1) _ that, of j] False by blast
    moreover have "merge_loop env n z j p s = Inr (j, p, s)"
      using False j by (subst merge_loop.simps) (simp add: buddy_def split: if_splits)
    ultimately show ?thesis using Suc.prems by (auto simp: heap_frame_def)
  next
    case True
    let ?p = "min p (buddy p j)"
    have b: "(buddy p j, j) \<in> blocks s" by (rule mergeable_block[OF Suc.prems(1) al True])
    have n: "phys_to_nid env (buddy p j) = n" using True by (simp add: mergeable_def)
    note m = merge_block[OF Suc.prems b n j]
    let ?s = "put_heap n z j (remove1 (buddy p j) (heaps s (n, z, j))) s"
    have "merge_loop env n z j p s = merge_loop env n z (Suc j) ?p ?s"
    proof (cases "odd (p div 2 ^ j)")
      case odd: True
      then have "buddy p j = p - 2 ^ j" "?p = p - 2 ^ j" by (simp_all add: buddy_def)
      then show ?thesis using odd True j m(1) by (subst merge_loop.simps) simp
    next
      case even: False
      then have "buddy p j = p + 2 ^ j" "?p = p" by (simp_all add: buddy_def)
      then show ?thesis using even True j m(1) by (subst merge_loop.simps) simp
    qed
    moreover have "k = MAX_ORDER - Suc j" using Suc.hyps(2) by simp
    from Suc.hyps(1)[OF this m(2,3)] obtain j' p' s' where r: "merge_loop env n z (Suc j) ?p ?s = Inr (j', p', s')"
      "heap_frame ?s s'" "lists_ok env s' (span p' j')" "block_ok env s' n z j' p'" "span ?p (Suc j) \<subseteq> span p' j'"
      "j' < MAX_ORDER \<longrightarrow> phys_to_nid env (buddy p' j') = n \<longrightarrow> (buddy p' j', j') \<notin> blocks s'" by blast
    ultimately show ?thesis
      using heap_frame_trans[OF heap_frame_put r(2)] B(3) by (intro exI[of _ j'] exI[of _ p'] exI[of _ s']) auto
  qed
qed


section \<open>Counters\<close>

lemma count_union:
  assumes "finite F" "F \<inter> S = {}" "finite S" "\<forall>m\<in>S. P m = b"
  shows "card {m \<in> F \<union> S. P m} = card {m \<in> F. P m} + (if b then card S else 0)"
proof -
  have "{m \<in> F \<union> S. P m} = {m \<in> F. P m} \<union> (if b then S else {})" using assms(4) by auto
  moreover have "{m \<in> F. P m} \<inter> (if b then S else {}) = {}" using assms(2) by auto
  ultimately show ?thesis using assms(1,3) by (simp add: card_Un_disjoint)
qed

text \<open>The counters before and after a block of one node and zone joins the free pages.\<close>

lemma counters_block:
  assumes S: "free_set s' = free_set s \<union> span p j" "free_set s \<inter> span p j = {}"
    and nz: "\<forall>m\<in>span p j. phys_to_nid env m = n \<and> zone_of m = z"
    and a: "avail s n = Some a" "avail s' = (avail s)(n \<mapsto> a')" "\<And>y. y \<noteq> z \<Longrightarrow> a' y = a y"
      "z < NR_ZONES \<Longrightarrow> a' z = a z + 2 ^ j" "total_avail_pages s' = total_avail_pages s + 2 ^ j"
    and fin: "finite (free_set s)"
  shows "counters_ok env s' = (counters_ok env s)"
proof -
  let ?c = "\<lambda>s k y. card {m \<in> free_set s. phys_to_nid env m = k \<and> zone_of m = y}"
  have c: "?c s' k y = ?c s k y + (if k = n \<and> y = z then 2 ^ j else 0)" for k y
    unfolding S(1) by (subst count_union[where b = "k = n \<and> y = z"]) (use S(2) fin nz in auto)
  have t: "card (free_set s') = card (free_set s) + 2 ^ j"
    unfolding S(1) using S(2) fin by (simp add: card_Un_disjoint)
  have "(\<forall>b y. avail s' k = Some b \<longrightarrow> y < NR_ZONES \<longrightarrow> b y = ?c s' k y) \<longleftrightarrow>
      (\<forall>b y. avail s k = Some b \<longrightarrow> y < NR_ZONES \<longrightarrow> b y = ?c s k y)" for k
  proof (cases "k = n")
    case True
    have "a' y = ?c s' n y \<longleftrightarrow> a y = ?c s n y" if "y < NR_ZONES" for y
      using c[of n y] a(3)[of y] a(4) that by (cases "y = z") auto
    then show ?thesis using True a(1,2) by auto
  qed (use a(2) c[of k] in simp)
  then show ?thesis using t a(5) fin S(1) unfolding counters_ok_def by simp
qed

section \<open>Freeing a block\<close>

definition released :: "heap_env \<Rightarrow> page_info \<Rightarrow> page_info" where
  "released env x = (set_count_info PGC_state_free (pgc_broken x) x)\<lparr>need_tlbflush := (v_raw x \<noteq> 0),
     tlbflush_timestamp := (if v_raw x \<noteq> 0 then tlbflush_current_time env else tlbflush_timestamp x)\<rparr>"

definition map_frames :: "nat set \<Rightarrow> (page_info \<Rightarrow> page_info) \<Rightarrow> heap_state \<Rightarrow> heap_state" where
  "map_frames S f s = s\<lparr>frame_table := (\<lambda>m. if m \<in> S then f (frame_table s m) else frame_table s m)\<rparr>"

lemma map_frames_simps [simp]:
  "heaps (map_frames S f s) = heaps s" "avail (map_frames S f s) = avail s" "total_avail_pages (map_frames S f s) = total_avail_pages s"
  "midsize_alloc_zone_pages (map_frames S f s) = midsize_alloc_zone_pages s"
  "page_offlined_list (map_frames S f s) = page_offlined_list s" "page_broken_list (map_frames S f s) = page_broken_list s"
  "frame_table (map_frames S f s) m = (if m \<in> S then f (frame_table s m) else frame_table s m)"
  by (simp_all add: map_frames_def)

lemma map_frames_put: "m \<notin> S \<Longrightarrow> map_frames S f (put_page m f s) = map_frames (insert m S) f s"
  by (auto simp: map_frames_def put_page_def fun_eq_iff)

lemma release_page_inuse:
  assumes "pgc_state (frame_table s m) = PGC_state_inuse"
  shows "release_page env m (t, s) = Inr (t, put_page m (released env) s)"
proof -
  have "\<And>x. page_get_owner x \<noteq> None \<longleftrightarrow> v_raw x \<noteq> 0" by (simp add: page_get_owner_def)
  then show ?thesis
    using assms by (simp add: release_page_def page_state_is_def set_count_info_def released_def put_page_def Let_def)
qed

lemma release_loop:
  assumes "distinct ms" "\<forall>m\<in>set ms. pgc_state (frame_table s m) = PGC_state_inuse"
  shows "for_loop (release_page env) ms (t, s) = Inr (t, map_frames (set ms) (released env) s)"
  using assms
proof (induction ms arbitrary: s)
  case (Cons m ms)
  then show ?case
    using Cons.IH[of "put_page m (released env) s"] by (auto simp: release_page_inuse map_frames_put)
qed (simp add: map_frames_def)

lemma released_free [simp]: "pgc_state (released env x) = PGC_state_free" "\<not> pgc_broken x \<Longrightarrow> count_info_free (released env x)"
  by (simp_all add: released_def set_count_info_def count_info_free_def)

text \<open>The heap with the pages of a block marked free and counted, but not yet on a list.\<close>

lemma release_block:
  assumes ok: "heap_ok env s" and p: "owned_block env s p j"
  defines "s1 \<equiv> map_frames (span p j) (released env) s" and "n \<equiv> phys_to_nid env p" and "z \<equiv> zone_of p"
  shows "\<exists>s2. add_avail n z (2 ^ j) s1 = Inr s2 \<and> frame_table s2 = frame_table s1 \<and> heaps s2 = heaps s \<and>
    lists_ok env s2 (span p j) \<and> block_ok env s2 n z j p \<and> counters_ok env s2 \<and> outside_same (span p j) s s2 \<and>
    free_set s2 = free_set s \<union> span p j"
proof -
  have lo: "lists_ok env s {}" and co: "counters_ok env s" using ok by (auto simp: heap_ok_def)
  have P: "j \<le> MAX_ORDER" "0 < p" "2 ^ j dvd p" "z < NR_ZONES" "n < MAX_NUMNODES"
    "\<And>m. m \<in> span p j \<Longrightarrow> frame_valid env m \<and> phys_to_nid env m = n \<and> pgc_state (frame_table s m) = PGC_state_inuse \<and> \<not> pgc_broken (frame_table s m)"
    using p unfolding owned_block_def n_def z_def by blast+
  obtain a where a: "avail s n = Some a" using p unfolding owned_block_def n_def by blast
  let ?a = "a(z := a z + 2 ^ j)"
  define s2 where "s2 = s1\<lparr>avail := (avail s)(n \<mapsto> ?a), total_avail_pages := total_avail_pages s + 2 ^ j\<rparr>"
  have "nat (int (a z) + 2 ^ j) = a z + 2 ^ j" by (simp add: nat_add_distrib nat_power_eq)
  then have add: "add_avail n z (2 ^ j) s1 = Inr s2"
    using P(4,5) a by (simp add: add_avail_def s2_def s1_def)
  have st: "\<And>m. m \<in> span p j \<Longrightarrow> pgc_state (frame_table s m) \<noteq> PGC_state_free" using P(6) by simp
  then have dis: "free_set s \<inter> span p j = {}" by (auto simp: free_set_def)
  have F: "free_set s2 = free_set s \<union> span p j" by (auto simp: free_set_def s2_def s1_def)
  have zs: "\<forall>m\<in>span p j. phys_to_nid env m = n \<and> zone_of m = z"
    using P(6) zone_of_span[OF P(3,2)] unfolding z_def by blast
  have "counters_ok env s2 = counters_ok env s"
    by (rule counters_block[OF F dis zs a, of ?a]) (use co in \<open>auto simp: s2_def counters_ok_def\<close>)
  moreover have "lists_ok env s2 (span p j)"
    by (rule lists_ok_reframe[OF lo]) (use a dis F in \<open>auto simp: s2_def s1_def\<close>)
  moreover have "block_ok env s2 n z j p"
    using P(1-5) P(6) by (simp add: block_ok_def s2_def s1_def z_def[symmetric])
  moreover have "outside_same (span p j) s s2" using a by (auto simp: outside_same_def s2_def s1_def)
  ultimately show ?thesis using add F co by (intro exI[of _ s2]) (simp add: s2_def s1_def)
qed


lemma lists_ok_cong:
  assumes "frame_table s' = frame_table s" "heaps s' = heaps s" "avail s' = avail s"
  shows "lists_ok env s' X = lists_ok env s X" "block_ok env s' n z j p = block_ok env s n z j p" "free_set s' = free_set s"
    "blocks s' = blocks s"
  using assms by (simp_all add: lists_ok_def block_ok_def blocks_def free_set_def)

lemma heap_frame_counters: "heap_frame s s' \<Longrightarrow> counters_ok env s' = counters_ok env s \<and> free_set s' = free_set s"
  by (simp add: heap_frame_def counters_ok_def free_set_def)

lemma counters_enlist: "counters_ok env (enlist n z j p s) = counters_ok env s"
  by (simp add: counters_ok_def)

lemma free_heap_pages_ok:
  assumes ok: "heap_ok env s" and p: "owned_block env s p j"
  shows "\<exists>s'. free_heap_pages env p j s = Some (Inr s') \<and> heap_ok env s' \<and> free_set s' = free_set s \<union> span p j \<and>
    outside_same (free_set s') s s'"
proof -
  define n z where "n = phys_to_nid env p" and "z = zone_of p"
  let ?s1 = "map_frames (span p j) (released env) s"
  obtain s2 where s2: "add_avail n z (2 ^ j) ?s1 = Inr s2" "frame_table s2 = frame_table ?s1" "lists_ok env s2 (span p j)"
    "block_ok env s2 n z j p" "counters_ok env s2" "outside_same (span p j) s s2" "free_set s2 = free_set s \<union> span p j"
    using release_block[OF ok p] unfolding n_def z_def by blast
  have st: "\<forall>m\<in>span p j. pgc_state (frame_table s m) = PGC_state_inuse" "\<not> pgc_xen_heap (frame_table s p)" "p \<noteq> 0" "\<not> MAX_ORDER < j"
    using p by (auto simp: owned_block_def)
  have rel: "for_loop (release_page env) [p..<p + 2 ^ j] (False, s) = Inr (False, ?s1)"
    using release_loop[of "[p..<p + 2 ^ j]" s env False] st(1) by (simp add: set_span del: set_upt)
  define s3 where "s3 = (if opt_tmem env
      then s2\<lparr>midsize_alloc_zone_pages := max (midsize_alloc_zone_pages s2) (total_avail_pages s2 div MIDSIZE_ALLOC_FRAC)\<rparr> else s2)"
  have s3: "frame_table s3 = frame_table s2" "heaps s3 = heaps s2" "avail s3 = avail s2" "heap_frame s2 s3"
    by (simp_all add: s3_def heap_frame_def)
  note cong = lists_ok_cong[OF s3(1-3)]
  have "lists_ok env s3 (span p j)" "block_ok env s3 n z j p" using s2(3,4) cong by simp_all
  from merge_loop_ok[OF this] obtain k q s4 where m: "merge_loop env n z j p s3 = Inr (k, q, s4)" "heap_frame s3 s4"
    "lists_ok env s4 (span q k)" "block_ok env s4 n z k q" "span p j \<subseteq> span q k"
    "k < MAX_ORDER \<longrightarrow> phys_to_nid env (buddy q k) = n \<longrightarrow> (buddy q k, k) \<notin> blocks s4" by blast
  note f4 = heap_frame_trans[OF s3(4) m(2)]
  have l: "lists_ok env (enlist n z k q s4) {}" by (rule add_block) (use m in auto)
  have zone: "page_to_zone s p = Inr z" using st by (simp add: page_to_zone_def z_def zone_of_def)
  have eq: "free_heap_pages env p j s = Some (Inr (enlist n z k q s4))"
    unfolding free_heap_pages_def Let_def n_def[symmetric] zone
    using st(4) rel s2(1) m(1) page_list_add_enlist[OF m(4)] by (simp add: s3_def[symmetric])
  have F: "free_set (enlist n z k q s4) = free_set s \<union> span p j" using heap_frame_counters[OF f4] s2(7) by simp
  have "heap_ok env (enlist n z k q s4)"
    using l heap_frame_counters[OF f4] s2(5) by (simp add: heap_ok_def counters_enlist)
  moreover have "q \<in> free_set s \<union> span p j"
    using m(4) F by (auto simp: block_ok_def count_info_free_def free_set_def)
  then have "outside_same (free_set s \<union> span p j) s (enlist n z k q s4)"
    using s2(6) f4 by (auto simp: outside_same_def heap_frame_def) (simp_all add: enlist_def put_heap_def put_page_def)
  ultimately show ?thesis using eq F by auto
qed

end
