(* ===== verification/Page_Get.thy ===== *)
theory Page_Get
  imports Page_Free
begin

text \<open>
  Allocation: a block that is large enough is halved until it fits and its pages are handed out; the search
  ends, looks at every node it may use, and fails only when none of them has a block.
\<close>

section \<open>Halving\<close>

text \<open>What halving leaves alone: everything but the order words inside the block that is split.\<close>

definition split_frame :: "nat set \<Rightarrow> heap_state \<Rightarrow> heap_state \<Rightarrow> bool" where
  "split_frame S s s' \<longleftrightarrow> (\<forall>m. m \<notin> S \<longrightarrow> frame_table s' m = frame_table s m) \<and> avail s' = avail s \<and>
     total_avail_pages s' = total_avail_pages s \<and> free_set s' = free_set s \<and>
     page_offlined_list s' = page_offlined_list s \<and> page_broken_list s' = page_broken_list s"

lemma split_frame_trans: "split_frame S s t \<Longrightarrow> split_frame T t u \<Longrightarrow> S \<union> T \<subseteq> U \<Longrightarrow> split_frame U s u"
  unfolding split_frame_def by (intro conjI allI impI) (metis Un_iff subsetD, simp_all)

lemma split_frame_enlist: "split_frame {p} s (enlist n z j p s)"
  by (simp add: split_frame_def) (simp add: enlist_def put_heap_def put_page_def)

lemma even_div: "2 ^ Suc i dvd (p :: nat) \<Longrightarrow> even (p div 2 ^ i)"
  by (auto elim!: dvdE)

lemma halve_step:
  assumes ok: "lists_ok env s (span p (Suc i))" and b: "block_ok env s n z (Suc i) p"
  shows "lists_ok env (enlist n z i p s) (span (p + 2 ^ i) i)" "block_ok env (enlist n z i p s) n z i (p + 2 ^ i)"
    "page_list_add_tail p n z i (put_page p (\<lambda>x. x\<lparr>v_raw := i\<rparr>) s) = Inr (enlist n z i p s)"
proof -
  note S = span_Suc[of p i]
  have al: "2 ^ Suc i dvd p" "0 < p" "i < MAX_ORDER" "z = zone_of p" using b by (auto simp: block_ok_def)
  have e: "buddy p i = p + 2 ^ i" using even_div[OF al(1)] by (simp add: buddy_def)
  have d: "2 ^ i dvd p" using al(1) by (rule power_le_dvd) simp
  have lo: "block_ok env s n z i p" using b d al S(1) by (auto simp: block_ok_def)
  show "page_list_add_tail p n z i (put_page p (\<lambda>x. x\<lparr>v_raw := i\<rparr>) s) = Inr (enlist n z i p s)"
    by (rule page_list_add_enlist[OF lo])
  have "(buddy p i, i) \<notin> blocks s"
  proof
    assume "(buddy p i, i) \<in> blocks s"
    from lists_okD(6)[OF ok this] S(1) have "span (p + 2 ^ i) i = {}" by (auto simp: e)
    then show False using span_self by blast
  qed
  moreover have "lists_ok env s (span (p + 2 ^ i) i \<union> span p i)" using ok S(1) by (simp add: Un_commute)
  ultimately show "lists_ok env (enlist n z i p s) (span (p + 2 ^ i) i)"
    by (intro add_block[OF _ _ lo]) (use S(2) in auto)
  have "zone_of (p + 2 ^ i) = z" using zone_of_span[OF al(1,2), of "p + 2 ^ i"] al(4) by (simp add: span_def)
  moreover have "\<forall>m\<in>span (p + 2 ^ i) i. count_info_free (frame_table s m) \<and> frame_valid env m \<and> phys_to_nid env m = n"
    using b S(1) by (auto simp: block_ok_def)
  ultimately show "block_ok env (enlist n z i p s) n z i (p + 2 ^ i)"
    unfolding block_ok_enlist using b al d by (simp add: block_ok_def)
qed

lemma halve_ok:
  assumes "lists_ok env s (span p j)" "block_ok env s n z j p" "order \<le> j"
  shows "\<exists>q s'. halve n z order j p s = Inr (q, s') \<and> lists_ok env s' (span q order) \<and> block_ok env s' n z order q \<and>
    span q order \<subseteq> span p j \<and> split_frame (span p j - span q order) s s'"
  using assms
proof (induction j arbitrary: p s)
  case 0
  then show ?case by (auto simp: split_frame_def)
next
  case (Suc i)
  show ?case
  proof (cases "Suc i = order")
    case True
    then show ?thesis using Suc.prems by (auto simp: split_frame_def)
  next
    case False
    let ?s = "enlist n z i p s" and ?p = "p + 2 ^ i"
    note h = halve_step[OF Suc.prems(1,2)]
    note S = span_Suc[of p i]
    have "order \<le> i" using Suc.prems(3) False by simp
    from Suc.IH[OF h(1,2) this] obtain q s' where r: "halve n z order i ?p ?s = Inr (q, s')" "lists_ok env s' (span q order)"
      "block_ok env s' n z order q" "span q order \<subseteq> span ?p i" "split_frame (span ?p i - span q order) ?s s'" by blast
    have "p \<notin> span q order" using r(4) by (auto simp: span_def)
    then have "split_frame (span p (Suc i) - span q order) s s'"
      using S by (intro split_frame_trans[OF split_frame_enlist r(5)]) auto
    then show ?thesis using r(1-4) S False h(3) by auto
  qed
qed

section \<open>Handing pages out\<close>

definition taken :: "page_info \<Rightarrow> page_info" where
  "taken x = page_set_owner None ((set_count_info PGC_state_inuse False x)\<lparr>type_info := 0, need_tlbflush := False\<rparr>)"

text \<open>A page just handed out: no owner, no type, no references.\<close>

definition fresh_page :: "page_info \<Rightarrow> bool" where
  "fresh_page x \<longleftrightarrow> v_raw x = 0 \<and> type_info x = 0 \<and> pgc_rest x = 0 \<and> \<not> pgc_allocated x"

lemma taken_fresh: "fresh_page (taken x)"
  by (simp add: fresh_page_def taken_def page_set_owner_def set_count_info_def)

text \<open>The processors whose TLB may still hold a translation to one of these pages.\<close>

definition stale_cpus :: "heap_env \<Rightarrow> heap_state \<Rightarrow> nat set \<Rightarrow> nat set" where
  "stale_cpus env s S = {c \<in> set (cpu_online_map env). \<exists>m\<in>S. need_tlbflush (frame_table s m) \<and>
     NEED_FLUSH (tlbflush_current_time env) (tlbflush_time env c) (tlbflush_timestamp (frame_table s m))}"

lemma stale_insert:
  "stale_cpus env s (insert m S) = stale_cpus env s S \<union> stale_cpus env s {m}"
  by (auto simp: stale_cpus_def)

lemma stale_put: "m \<notin> S \<Longrightarrow> stale_cpus env (put_page m f s) S = stale_cpus env s S"
  by (auto simp: stale_cpus_def)

lemma take_loop:
  assumes "distinct ms" "\<forall>m\<in>set ms. count_info_free (frame_table s m)"
  shows "\<exists>fl'. for_loop (take_page env) ms (fl, s) = Inr (fl', map_frames (set ms) taken s) \<and>
    set fl' = set fl \<union> stale_cpus env s (set ms)"
  using assms
proof (induction ms arbitrary: s fl)
  case Nil
  then show ?case by (simp add: map_frames_def stale_cpus_def)
next
  case (Cons m ms)
  let ?s = "put_page m taken s"
  let ?fl = "if need_tlbflush (frame_table s m)
    then fl @ tlbflush_filter env (filter (\<lambda>c. c \<notin> set fl) (cpu_online_map env)) (tlbflush_timestamp (frame_table s m)) else fl"
  have t: "take_page env m (fl, s) = Inr (?fl, ?s)"
    using Cons.prems(2) by (simp add: take_page_def Let_def taken_def put_page_def)
  have f: "set ?fl = set fl \<union> stale_cpus env s {m}" by (auto simp: stale_cpus_def tlbflush_filter_def)
  have "\<forall>x\<in>set ms. count_info_free (frame_table ?s x)" using Cons.prems by auto
  from Cons.IH[OF _ this, of ?fl] Cons.prems(1) obtain fl' where "for_loop (take_page env) ms (?fl, ?s) = Inr (fl', map_frames (set ms) taken ?s)"
    "set fl' = set ?fl \<union> stale_cpus env ?s (set ms)" by auto
  note r = this
  have nm: "m \<notin> set ms" using Cons.prems(1) by simp
  have "for_loop (take_page env) (m # ms) (fl, s) = Inr (fl', map_frames (set (m # ms)) taken s)"
    using r(1) by (simp add: t map_frames_put[OF nm])
  moreover have "set fl' = set fl \<union> stale_cpus env s (set (m # ms))"
    using stale_insert[of env s m "set ms"] unfolding r(2) f stale_put[OF nm] by auto
  ultimately show ?case by blast
qed

lemma taken_state [simp]: "pgc_state (taken x) = PGC_state_inuse" "\<not> pgc_broken (taken x)" "\<not> pgc_xen_heap (taken x)" "v_raw (taken x) = 0"
  by (simp_all add: taken_def page_set_owner_def set_count_info_def)


lemma avail_block:
  assumes ok: "heap_ok env s" and a: "avail s n = Some a" and b: "\<forall>m\<in>S. phys_to_nid env m = n \<and> zone_of m = z"
    and S: "S \<subseteq> free_set s" and z: "z < NR_ZONES"
  shows "card S \<le> a z" "int (card S) \<le> total_avail_pages s"
proof -
  have c: "finite (free_set s)" "total_avail_pages s = int (card (free_set s))"
    "a z = card {m \<in> free_set s. phys_to_nid env m = n \<and> zone_of m = z}"
    using ok a z by (auto simp: heap_ok_def counters_ok_def)
  show "card S \<le> a z" unfolding c(3) using c(1) S b by (intro card_mono) auto
  show "int (card S) \<le> total_avail_pages s" unfolding c(2) using c(1) S by (simp add: card_mono)
qed

lemma block_pages:
  assumes "block_ok env s n z j q"
  shows "\<forall>m\<in>span q j. phys_to_nid env m = n \<and> zone_of m = z"
proof -
  have "2 ^ j dvd q" "0 < q" "z = zone_of q" "\<forall>m\<in>span q j. phys_to_nid env m = n" using assms by (simp_all add: block_ok_def)
  then show ?thesis using zone_of_span by blast
qed

text \<open>The block is split off and still floating.\<close>

lemma split_off:
  assumes ok: "heap_ok env s" and p: "p \<in> set (heaps s (n, z, j))" and o: "order \<le> j"
  shows "\<exists>q s2. bindR (page_list_del p n z j s) (halve n z order j p) = Inr (q, s2) \<and>
    lists_ok env s2 (span q order) \<and> block_ok env s2 n z order q \<and>
    split_frame (free_set s - span q order) s s2 \<and> span q order \<subseteq> free_set s"
proof -
  have lo: "lists_ok env s {}" using ok by (simp add: heap_ok_def)
  have b: "block_ok env s n z j p" by (rule lists_okD(2)[OF lo p])
  let ?s = "put_heap n z j (remove1 p (heaps s (n, z, j))) s"
  have l1: "lists_ok env ?s (span p j)" using remove_block[OF lo p] by simp
  have b1: "block_ok env ?s n z j p" using b by (simp add: block_ok_def)
  obtain q s2 where h: "halve n z order j p ?s = Inr (q, s2)" "lists_ok env s2 (span q order)" "block_ok env s2 n z order q"
    "span q order \<subseteq> span p j" "split_frame (span p j - span q order) ?s s2"
    using halve_ok[OF l1 b1 o] by blast
  have F: "span p j \<subseteq> free_set s" using lists_okD(5)[OF lo] listed_block[OF p] by auto
  have "split_frame {} s ?s" by (simp add: split_frame_def) (simp add: put_heap_def)
  then have "split_frame (free_set s - span q order) s s2"
    by (rule split_frame_trans[OF _ h(5)]) (use F in auto)
  then show ?thesis using h F page_list_del_listed[OF b p] by auto
qed

lemma take_block_ok:
  assumes ok: "heap_ok env s" and p: "p \<in> set (heaps s (n, z, j))" and o: "order \<le> j"
  shows "\<exists>q fl s'. take_block env n z order j p s = Inr (q, fl, s') \<and> heap_ok env s' \<and> owned_block env s' q order \<and>
    span q order \<subseteq> free_set s \<and> free_set s' = free_set s - span q order \<and> phys_to_nid env q = n \<and> zone_of q = z \<and>
    outside_same (free_set s) s s' \<and> set fl = stale_cpus env s (span q order) \<and> (\<forall>m\<in>span q order. fresh_page (frame_table s' m))"
proof -
  obtain q s2 where h: "bindR (page_list_del p n z j s) (halve n z order j p) = Inr (q, s2)" "lists_ok env s2 (span q order)"
    "block_ok env s2 n z order q" "split_frame (free_set s - span q order) s s2" "span q order \<subseteq> free_set s"
    using split_off[OF assms] by blast
  let ?S = "span q order"
  have B: "n < MAX_NUMNODES" "z < NR_ZONES" "order \<le> MAX_ORDER" "0 < q" "2 ^ order dvd q"
    "\<forall>m\<in>?S. count_info_free (frame_table s2 m) \<and> frame_valid env m" "avail s2 n \<noteq> None"
    using h(3) by (auto simp: block_ok_def)
  note nz = block_pages[OF h(3)]
  have same: "avail s2 = avail s" "total_avail_pages s2 = total_avail_pages s" "free_set s2 = free_set s"
    "\<forall>m\<in>?S. frame_table s2 m = frame_table s m" using h(4) by (auto simp: split_frame_def)
  obtain a where a: "avail s n = Some a" using B(7) same(1) by auto
  note le = avail_block[OF ok a nz h(5) B(2), simplified]
  define s3 where "s3 = s2\<lparr>avail := (avail s)(n \<mapsto> a(z := a z - 2 ^ order)), total_avail_pages := total_avail_pages s - 2 ^ order\<rparr>"
  have "nat (int (a z) - 2 ^ order) = a z - 2 ^ order" by (simp add: nat_diff_distrib' nat_power_eq)
  then have add: "add_avail n z (- (2 ^ order)) s2 = Inr s3"
    using B(1,2) a same by (simp add: add_avail_def s3_def)
  define s4 where "s4 = map_frames ?S taken s3"
  have s3f: "frame_table s3 = frame_table s2" "heaps s3 = heaps s2" by (simp_all add: s3_def)
  have cf: "\<forall>m\<in>set [q..<q + 2 ^ order]. count_info_free (frame_table s3 m)" using B(6) s3f(1) set_span by metis
  obtain fl where fl: "for_loop (take_page env) [q..<q + 2 ^ order] ([], s3) = Inr (fl, s4)" "set fl = stale_cpus env s3 ?S"
    using take_loop[OF _ cf, of env "[]"] by (auto simp: set_span s4_def simp del: set_upt)
  have "stale_cpus env s3 ?S = stale_cpus env s ?S" using same(4) s3f(1) by (auto simp: stale_cpus_def)
  moreover have eq: "take_block env n z order j p s = Inr (q, fl, s4)"
    using h(1) add fl(1) a le same(1,2) unfolding take_block_def bindR_assoc[symmetric]
    by (simp add: s3_def not_less)
  have F: "free_set s4 = free_set s - ?S"
    using same(3) by (auto simp: free_set_def s4_def s3f)
  have "lists_ok env s4 {}"
    by (rule lists_ok_reframe[OF h(2)]) (use a same F in \<open>auto simp: s4_def s3_def\<close>)
  moreover have "counters_ok env s = counters_ok env s4"
    by (rule counters_block[where p = q and j = order and n = n and z = z and a = "a(z := a z - 2 ^ order)" and a' = a])
      (use F h(5) nz a le ok same in \<open>auto simp: s4_def s3_def heap_ok_def counters_ok_def finite_subset\<close>)
  moreover have "owned_block env s4 q order"
  proof -
    have "phys_to_nid env q = n" "zone_of q = z" using block_ok_place[OF h(3)] by auto
    then show ?thesis using B nz a unfolding owned_block_def by (simp add: s4_def s3_def)
  qed
  moreover have "outside_same (free_set s) s s4"
    using h(4,5) a by (auto simp: outside_same_def split_frame_def s4_def s3_def)
  moreover have "\<forall>m\<in>?S. fresh_page (frame_table s4 m)" by (simp add: s4_def taken_fresh)
  ultimately show ?thesis using eq F h(5) fl(2) ok block_ok_place[OF h(3)]
    by (intro exI[of _ q] exI[of _ fl] exI[of _ s4]) (simp add: heap_ok_def)
qed


section \<open>The search\<close>

definition node_empty :: "heap_state \<Rightarrow> nat list \<Rightarrow> nat \<Rightarrow> nat \<Rightarrow> bool" where
  "node_empty s zones order n \<longleftrightarrow> (\<forall>z\<in>set zones. \<forall>j\<ge>order. heaps s (n, z, j) = [])"

definition suitable :: "heap_state \<Rightarrow> nat list \<Rightarrow> nat \<Rightarrow> nat \<Rightarrow> nat \<Rightarrow> nat \<Rightarrow> nat \<Rightarrow> bool" where
  "suitable s zones order n z j p \<longleftrightarrow> z \<in> set zones \<and> order \<le> j \<and> p \<in> set (heaps s (n, z, j))"

lemma find_block_cases:
  assumes "lists_ok env s {}"
  shows "case find_block s n z order of
      None \<Rightarrow> \<forall>j\<ge>order. heaps s (n, z, j) = []
    | Some (j, p) \<Rightarrow> order \<le> j \<and> p \<in> set (heaps s (n, z, j))"
proof (cases "find (\<lambda>j. heaps s (n, z, j) \<noteq> []) [order..<Suc MAX_ORDER]")
  case None
  have "heaps s (n, z, j) = []" if j: "order \<le> j" for j
  proof (rule ccontr)
    assume ne: "heaps s (n, z, j) \<noteq> []"
    then obtain p where "p \<in> set (heaps s (n, z, j))" by (cases "heaps s (n, z, j)") auto
    from lists_okD(2)[OF assms this] have "j \<le> MAX_ORDER" by (simp add: block_ok_def)
    then show False using None ne j by (auto simp: find_None_iff simp del: upt_Suc)
  qed
  then show ?thesis using None by (simp add: find_block_def del: upt_Suc)
next
  case (Some j)
  then have "j \<in> set [order..<Suc MAX_ORDER]" "heaps s (n, z, j) \<noteq> []" by (auto simp: find_Some_iff simp del: upt_Suc)
  then show ?thesis using Some by (simp add: find_block_def del: upt_Suc)
qed

lemma scan_zones_ok:
  assumes ok: "heap_ok env s" and n: "n < MAX_NUMNODES" and z: "\<forall>z\<in>set zones. z < NR_ZONES"
  shows "scan_zones s n order zones = Inr None \<and> node_empty s zones order n \<or>
    (\<exists>z j p. scan_zones s n order zones = Inr (Some (z, j, p)) \<and> suitable s zones order n z j p)"
  using z
proof (induction zones)
  case Nil
  then show ?case by (simp add: node_empty_def)
next
  case (Cons z zones)
  have lo: "lists_ok env s {}" using ok by (simp add: heap_ok_def)
  have IH: "scan_zones s n order zones = Inr None \<and> node_empty s zones order n \<or>
    (\<exists>z j p. scan_zones s n order zones = Inr (Some (z, j, p)) \<and> suitable s zones order n z j p)" using Cons by simp
  have skip: ?case if "scan_zones s n order (z # zones) = scan_zones s n order zones" "\<forall>j\<ge>order. heaps s (n, z, j) = []"
    using IH that by (auto simp: node_empty_def suitable_def)
  have none: "heaps s (n, z, j) = []" if j: "order \<le> j" and a: "avail s n = None \<or> (\<exists>a. avail s n = Some a \<and> a z < 2 ^ order)" for j
  proof (rule ccontr)
    assume "heaps s (n, z, j) \<noteq> []"
    then obtain p where p: "p \<in> set (heaps s (n, z, j))" by (cases "heaps s (n, z, j)") auto
    note b = lists_okD(2)[OF lo p]
    obtain a' where a': "avail s n = Some a'" using b by (auto simp: block_ok_def)
    have "span p j \<subseteq> free_set s" using lists_okD(5)[OF lo] listed_block[OF p] by auto
    from avail_block(1)[OF ok a' block_pages[OF b] this] Cons.prems have "2 ^ j \<le> a' z" by simp
    moreover have "(2 :: nat) ^ order \<le> 2 ^ j" using j by (intro power_increasing) simp_all
    moreover have "a' z < 2 ^ order" using a a' by auto
    ultimately show False by linarith
  qed
  show ?case
  proof (cases "avail s n")
    case None
    then show ?thesis using skip none n by simp
  next
    case (Some a)
    show ?thesis
    proof (cases "a z < 2 ^ order")
      case True
      then show ?thesis using Some skip none n by simp
    next
      case False
      note f = find_block_cases[OF lo, where n = n and z = z and order = order]
      show ?thesis
      proof (cases "find_block s n z order")
        case None
        then show ?thesis using Some False n skip f by simp
      next
        case (Some jp)
        then show ?thesis using \<open>avail s n = Some a\<close> False n f by (cases jp) (simp add: suitable_def)
      qed
    qed
  qed
qed

text \<open>What a search may end with; \<open>N\<close> are the nodes it may use.\<close>

definition searched :: "heap_state \<Rightarrow> nat list \<Rightarrow> nat \<Rightarrow> nat set \<Rightarrow> node_search result option \<Rightarrow> bool" where
  "searched s zones order N r \<longleftrightarrow> (\<exists>n. r = Some (Inr n) \<and>
     ((\<exists>k z j p. ns_outcome n = Found k z j p \<and> k \<in> N \<and> suitable s zones order k z j p) \<or>
      (ns_outcome n = Not_found \<and> (\<forall>k\<in>N. node_empty s zones order k))))"

lemma search_stop: "ns_outcome n \<noteq> Searching \<Longrightarrow> while_loop (search_step env s zones order ex) n = Some (Inr n)"
  by (subst while_loop.simps) (simp add: search_step_def split: search_outcome.splits)

text \<open>One node: it has a block and the search is over, or the next node is picked.\<close>

lemma search_node:
  assumes ok: "heap_ok env s" "\<forall>z\<in>set zones. z < NR_ZONES" and k: "ns_node n < MAX_NUMNODES" "ns_node n \<in> N" "ns_outcome n = Searching"
    and nxt: "node_empty s zones order (ns_node n) \<Longrightarrow>
      \<exists>n'. pick_next_node env ex n = Inr n' \<and> searched s zones order N (while_loop (search_step env s zones order ex) n')"
  shows "searched s zones order N (while_loop (search_step env s zones order ex) n)"
proof -
  consider "scan_zones s (ns_node n) order zones = Inr None" "node_empty s zones order (ns_node n)"
    | z j p where "scan_zones s (ns_node n) order zones = Inr (Some (z, j, p))" "suitable s zones order (ns_node n) z j p"
    using scan_zones_ok[OF ok(1) k(1) ok(2), of order] by blast
  then show ?thesis
  proof cases
    case 1
    from nxt[OF 1(2)] obtain n' where "pick_next_node env ex n = Inr n'" "searched s zones order N (while_loop (search_step env s zones order ex) n')" by blast
    then show ?thesis using 1(1) k(3) by (subst while_loop.simps) (simp add: search_step_def)
  next
    case 2
    then have "while_loop (search_step env s zones order ex) n = Some (Inr (n\<lparr>ns_outcome := Found (ns_node n) z j p\<rparr>))"
      using k(3) by (subst while_loop.simps) (simp add: search_step_def[of _ _ _ _ _ n] search_stop)
    then show ?thesis using k(2) 2(2) by (simp add: searched_def)
  qed
qed


text \<open>Sets of nodes as the code has them: ascending and below \<open>MAX_NUMNODES\<close>.\<close>

definition nodes_ok :: "nat list \<Rightarrow> bool" where
  "nodes_ok ns \<longleftrightarrow> sorted_wrt (<) ns \<and> (\<forall>n\<in>set ns. n < MAX_NUMNODES)"

lemma nodes_ok_filter: "nodes_ok ns \<Longrightarrow> nodes_ok (filter P ns)"
  by (auto simp: nodes_ok_def sorted_wrt_filter)

lemma next_node_nth:
  assumes "nodes_ok ns" "i < length ns"
  shows "next_node (ns ! i) ns = (if Suc i < length ns then ns ! Suc i else MAX_NUMNODES)"
proof -
  have s: "sorted_wrt (<) ns" using assms(1) by (simp add: nodes_ok_def)
  have "filter (\<lambda>m. ns ! i < m) ns = filter (\<lambda>m. ns ! i < m) (take (Suc i) ns) @ filter (\<lambda>m. ns ! i < m) (drop (Suc i) ns)"
    by (metis append_take_drop_id filter_append)
  also have "filter (\<lambda>m. ns ! i < m) (take (Suc i) ns) = []"
  proof (rule filter_False, intro ballI)
    fix x assume "x \<in> set (take (Suc i) ns)"
    then obtain k where k: "k < Suc i" "x = ns ! k" using assms(2) by (auto simp: in_set_conv_nth)
    then show "\<not> ns ! i < x" using sorted_wrt_nth_less[OF s, of k i] assms(2) by (cases "k = i") auto
  qed
  also have "filter (\<lambda>m. ns ! i < m) (drop (Suc i) ns) = drop (Suc i) ns"
  proof (rule filter_True, intro ballI)
    fix x assume "x \<in> set (drop (Suc i) ns)"
    then obtain k where k: "k < length ns - Suc i" "x = ns ! (Suc i + k)" using assms(2) by (auto simp: in_set_conv_nth)
    then show "ns ! i < x" using sorted_wrt_nth_less[OF s, of i "Suc i + k"] by simp
  qed
  finally show ?thesis
    by (cases "Suc i < length ns") (auto simp: next_node_def first_node_def Cons_nth_drop_Suc[symmetric])
qed

text \<open>The round over the nodes of one set, started anywhere: when all are empty it ends where it began.\<close>

lemma search_round:
  assumes ok: "heap_ok env s" "\<forall>z\<in>set zones. z < NR_ZONES" and ns: "nodes_ok ns" "set ns \<subseteq> N" "f < length ns"
    and fin: "\<forall>k\<in>set ns. node_empty s zones order k \<Longrightarrow> searched s zones order N (while_loop (search_step env s zones order False)
      (end_of_round env \<lparr>ns_node = ns ! f, ns_first = ns ! f, ns_mask = ns, ns_retry = r, ns_outcome = Searching\<rparr>))"
    and e: "e < length ns" "\<forall>d<e. node_empty s zones order (ns ! ((f + d) mod length ns))"
  shows "searched s zones order N (while_loop (search_step env s zones order False)
    \<lparr>ns_node = ns ! ((f + e) mod length ns), ns_first = ns ! f, ns_mask = ns, ns_retry = r, ns_outcome = Searching\<rparr>)"
  using e
proof (induction "length ns - e" arbitrary: e)
  case (Suc k)
  let ?L = "length ns"
  let ?i = "(f + e) mod ?L" and ?i' = "(f + Suc e) mod ?L"
  let ?n = "\<lparr>ns_node = ns ! ?i, ns_first = ns ! f, ns_mask = ns, ns_retry = r, ns_outcome = Searching\<rparr>"
  let ?n' = "\<lparr>ns_node = ns ! ?i', ns_first = ns ! f, ns_mask = ns, ns_retry = r, ns_outcome = Searching\<rparr>"
  have "0 < ?L" using ns(3) by (rule le_less_trans[OF le0])
  then have i: "?i < ?L" by (rule mod_less_divisor)
  then have m: "ns ! ?i \<in> set ns" by simp
  have i': "?i' = (if Suc ?i < ?L then Suc ?i else 0)"
    by (metis add_Suc_right i less_imp_le_nat mod_Suc mod_less nat_neq_iff not_less_eq)
  have nx: "pick_next_node env False ?n = Inr (end_of_round env ?n')"
  proof -
    have f0: "first_node ns = ns ! 0" using i by (cases ns) (simp_all add: first_node_def)
    have "Suc ?i < ?L \<Longrightarrow> ns ! Suc ?i < MAX_NUMNODES" using ns(1) unfolding nodes_ok_def by (meson nth_mem)
    then have "(if next_node (ns ! ?i) ns \<ge> MAX_NUMNODES then first_node ns else next_node (ns ! ?i) ns) = ns ! ?i'"
      unfolding next_node_nth[OF ns(1) i] i' f0 by (auto simp: not_le)
    then show ?thesis using m by (auto simp: pick_next_node_def Let_def split: if_splits)
  qed
  show ?case
  proof (rule search_node[OF ok])
    show "ns_node ?n < MAX_NUMNODES" "ns_node ?n \<in> N" using m ns(1,2) by (auto simp: nodes_ok_def)
    assume em: "node_empty s zones order (ns_node ?n)"
    have all: "\<forall>d<Suc e. node_empty s zones order (ns ! ((f + d) mod ?L))" using Suc.prems(2) em by (auto simp: less_Suc_eq)
    have "searched s zones order N (while_loop (search_step env s zones order False) (end_of_round env ?n'))"
    proof (cases "Suc e = ?L")
      case True
      then have "?i' = f" using ns(3) by simp
      moreover have "\<forall>k\<in>set ns. node_empty s zones order k"
      proof
        fix x assume "x \<in> set ns"
        then obtain y where y: "y < ?L" "x = ns ! y" by (auto simp: in_set_conv_nth)
        define d where "d = (if f \<le> y then y - f else y + ?L - f)"
        have "d < ?L" "(f + d) mod ?L = y" using y(1) ns(3) by (auto simp: d_def)
        then show "node_empty s zones order x" using all True y(2) by metis
      qed
      ultimately show ?thesis using fin by simp
    next
      case False
      then have lt: "Suc e < ?L" using Suc.prems(1) by simp
      have "?i' \<noteq> f"
      proof
        assume "?i' = f"
        moreover have "?i' = (if f + Suc e < ?L then f + Suc e else f + Suc e - ?L)"
          using ns(3) lt by (simp add: mod_if)
        ultimately show False using lt by (auto split: if_splits)
      qed
      moreover have "distinct ns" using ns(1) by (simp add: nodes_ok_def strict_sorted_iff)
      moreover have "?i' < ?L" using \<open>0 < ?L\<close> by (rule mod_less_divisor)
      ultimately have "ns ! ?i' \<noteq> ns ! f" using ns(3) nth_eq_iff_index_eq by blast
      then have "end_of_round env ?n' = ?n'" by (simp add: end_of_round_def)
      then show ?thesis using Suc.hyps(1)[of "Suc e"] Suc.hyps(2) lt all by simp
    qed
    then show "\<exists>n'. pick_next_node env False ?n = Inr n' \<and> searched s zones order N (while_loop (search_step env s zones order False) n')"
      using nx by blast
  qed simp
qed simp


text \<open>The second round, over the nodes outside the first set, and after it the end of the search.\<close>

lemma search_others:
  assumes ok: "heap_ok env s" "\<forall>z\<in>set zones. z < NR_ZONES" and on: "nodes_ok (node_online_map env)" "set (node_online_map env) \<subseteq> N"
    and dn: "\<forall>k\<in>N. k \<in> set ns \<or> k \<in> set (node_online_map env) \<or> node_empty s zones order k" "\<forall>k\<in>set ns. node_empty s zones order k"
  shows "searched s zones order N (while_loop (search_step env s zones order False)
    (end_of_round env \<lparr>ns_node = a, ns_first = a, ns_mask = ns, ns_retry = False, ns_outcome = Searching\<rparr>))"
proof -
  define ms where "ms = nodes_andnot (node_online_map env) ns"
  have ms: "nodes_ok ms" "set ms = set (node_online_map env) - set ns"
    using nodes_ok_filter[OF on(1)] by (auto simp: ms_def nodes_andnot_def)
  have last: "\<forall>k\<in>N. node_empty s zones order k" if "\<forall>k\<in>set ms. node_empty s zones order k"
    using dn that ms(2) by blast
  have e: "end_of_round env \<lparr>ns_node = a, ns_first = a, ns_mask = ns, ns_retry = False, ns_outcome = Searching\<rparr> =
      \<lparr>ns_node = first_node ms, ns_first = first_node ms, ns_mask = ms, ns_retry = True,
       ns_outcome = (if first_node ms \<ge> MAX_NUMNODES then Not_found else Searching)\<rparr>"
    by (simp add: end_of_round_def ms_def Let_def)
  show ?thesis
  proof (cases ms)
    case Nil
    then show ?thesis unfolding e using last by (simp add: search_stop first_node_def searched_def)
  next
    case (Cons m ms')
    have f: "first_node ms = ms ! 0" "ms ! 0 < MAX_NUMNODES" "0 < length ms" using Cons ms(1) by (simp_all add: first_node_def nodes_ok_def)
    have fin: "searched s zones order N (while_loop (search_step env s zones order False)
        (end_of_round env \<lparr>ns_node = ms ! 0, ns_first = ms ! 0, ns_mask = ms, ns_retry = True, ns_outcome = Searching\<rparr>))"
      if "\<forall>k\<in>set ms. node_empty s zones order k"
      using last[OF that] by (simp add: end_of_round_def search_stop searched_def)
    have "set ms \<subseteq> N" using ms(2) on(2) by blast
    from search_round[OF ok ms(1) this f(3) fin f(3)] show ?thesis unfolding e f(1) using f(2,3) by simp
  qed
qed

lemma search_ok:
  fixes ex :: bool
  assumes ok: "heap_ok env s" "\<forall>z\<in>set zones. z < NR_ZONES" and on: "nodes_ok (node_online_map env)" and ns: "nodes_ok ns"
    and node: "node < MAX_NUMNODES"
  defines "N \<equiv> (if ex then {node} else insert node (set ns \<union> set (node_online_map env)))"
  shows "searched s zones order N (while_loop (search_step env s zones order ex)
    \<lparr>ns_node = node, ns_first = node, ns_mask = ns, ns_retry = False, ns_outcome = Searching\<rparr>)"
proof -
  let ?n = "\<lparr>ns_node = node, ns_first = node, ns_mask = ns, ns_retry = False, ns_outcome = Searching\<rparr>"
  have inN: "node \<in> N" by (simp add: N_def)
  consider (exact) ex | (inside) "\<not> ex" "node \<in> set ns" | (outside) "\<not> ex" "node \<notin> set ns" by blast
  then show ?thesis
  proof cases
    case exact
    then show ?thesis
      by (intro search_node[OF ok]) (use node inN in \<open>auto simp: pick_next_node_def search_stop searched_def N_def\<close>)
  next
    case inside
    then have N: "N = set ns \<union> set (node_online_map env)" by (auto simp: N_def)
    obtain f where f: "f < length ns" "node = ns ! f" using inside(2) by (auto simp: in_set_conv_nth)
    have "searched s zones order N (while_loop (search_step env s zones order False)
        \<lparr>ns_node = ns ! ((f + 0) mod length ns), ns_first = ns ! f, ns_mask = ns, ns_retry = False, ns_outcome = Searching\<rparr>)"
    proof (rule search_round[OF ok ns _ f(1)])
      show "set ns \<subseteq> N" by (simp add: N)
      show "0 < length ns" using f(1) by (rule le_less_trans[OF le0])
      show "searched s zones order N (while_loop (search_step env s zones order False)
          (end_of_round env \<lparr>ns_node = ns ! f, ns_first = ns ! f, ns_mask = ns, ns_retry = False, ns_outcome = Searching\<rparr>))"
        if "\<forall>k\<in>set ns. node_empty s zones order k"
        by (rule search_others[OF ok on _ _ that]) (auto simp: N)
    qed simp
    then show ?thesis using f inside(1) by simp
  next
    case outside
    have N: "N = insert node (set ns \<union> set (node_online_map env))" using outside by (simp add: N_def)
    have others: "searched s zones order N (while_loop (search_step env s zones order False)
        (end_of_round env \<lparr>ns_node = a, ns_first = a, ns_mask = ns, ns_retry = False, ns_outcome = Searching\<rparr>))"
      if "node_empty s zones order node" "\<forall>k\<in>set ns. node_empty s zones order k" for a
      by (rule search_others[OF ok on _ _ that(2)]) (use that(1) in \<open>auto simp: N\<close>)
    have "\<exists>n'. pick_next_node env ex ?n = Inr n' \<and> searched s zones order N (while_loop (search_step env s zones order ex) n')"
      if em: "node_empty s zones order node"
    proof (cases ns)
      case Nil
      then show ?thesis using others[OF em, of MAX_NUMNODES] outside by (simp add: pick_next_node_def first_node_def)
    next
      case (Cons m ns')
      then have f: "first_node ns = ns ! 0" "ns ! 0 < MAX_NUMNODES" "0 < length ns" using ns by (simp_all add: first_node_def nodes_ok_def)
      have sub: "set ns \<subseteq> N" by (auto simp: N)
      from search_round[OF ok ns sub f(3) others[OF em] f(3)]
      have "searched s zones order N (while_loop (search_step env s zones order False)
        \<lparr>ns_node = ns ! 0, ns_first = ns ! 0, ns_mask = ns, ns_retry = False, ns_outcome = Searching\<rparr>)" by simp
      then show ?thesis using outside f by (simp add: pick_next_node_def Let_def)
    qed
    then show ?thesis by (intro search_node[OF ok]) (use node inN in auto)
  qed
qed


section \<open>Allocating a block\<close>

text \<open>Because buddies are always merged, an aligned run of free pages on one node lies in one block.\<close>

lemma run_in_block:
  assumes ok: "lists_ok env s {}" and al: "2 ^ i dvd p" and i: "i \<le> MAX_ORDER"
    and run: "span p i \<subseteq> free_set s" and n: "\<forall>m\<in>span p i. phys_to_nid env m = n"
  shows "\<exists>q j. (q, j) \<in> blocks s \<and> i \<le> j \<and> span p i \<subseteq> span q j"
  using al i run n
proof (induction i arbitrary: p)
  case 0
  have "p \<in> free_set s" using "0.prems"(3) span_self by blast
  then obtain q j where q: "(q, j) \<in> blocks s" "p \<in> span q j" using lists_okD(5)[OF ok] by auto
  have "span p 0 = {p}" by (auto simp: span_def)
  then have "span p 0 \<subseteq> span q j" using q(2) by simp
  then show ?case using q(1) by blast
next
  case (Suc i)
  note S = span_Suc[of p i]
  have d: "2 ^ i dvd p" using Suc.prems(1) by (rule power_le_dvd) simp
  have e: "buddy p i = p + 2 ^ i" using even_div[OF Suc.prems(1)] by (simp add: buddy_def)
  have d': "2 ^ i dvd p + 2 ^ i" using d by simp
  obtain q j where q: "(q, j) \<in> blocks s" "i \<le> j" "span p i \<subseteq> span q j"
    using Suc.IH[OF d] Suc.prems(2-4) S(1) by auto
  obtain q' j' where q': "(q', j') \<in> blocks s" "i \<le> j'" "span (p + 2 ^ i) i \<subseteq> span q' j'"
    using Suc.IH[OF d'] Suc.prems(2-4) S(1) by auto
  have big: "\<exists>q j. (q, j) \<in> blocks s \<and> Suc i \<le> j \<and> span p (Suc i) \<subseteq> span q j"
    if "(r, k) \<in> blocks s" "i < k" "m \<in> span r k" "m \<in> span p (Suc i)" for r k m
    using span_nest[OF Suc.prems(1), of k r] block_align[OF ok that(1)] that by (metis Suc_leI disjoint_iff)
  have exact: "r = a" if "(r, i) \<in> blocks s" "span a i \<subseteq> span r i" for r a
  proof -
    have "a \<in> span r i" using that(2) by (rule subsetD) simp
    moreover have "1 \<le> (2 :: nat) ^ i" by simp
    then have "a + 2 ^ i - 1 \<in> span a i" unfolding span_def atLeastLessThan_iff by linarith
    then have "a + 2 ^ i - 1 \<in> span r i" by (rule subsetD[OF that(2)])
    ultimately show ?thesis unfolding span_def atLeastLessThan_iff using \<open>1 \<le> 2 ^ i\<close> by linarith
  qed
  show ?case
  proof (cases "i < j \<or> i < j'")
    case True
    have "p \<in> span p (Suc i)" "p + 2 ^ i \<in> span p (Suc i)" unfolding S(1) by auto
    moreover have "p \<in> span q j" using q(3) by (rule subsetD) simp
    moreover have "p + 2 ^ i \<in> span q' j'" using q'(3) by (rule subsetD) simp
    ultimately show ?thesis using True big[OF q(1)] big[OF q'(1)] by blast
  next
    case False
    then have "j = i" "j' = i" using q(2) q'(2) by simp_all
    then have "(p, i) \<in> blocks s" "(buddy p i, i) \<in> blocks s" using exact q q' e by auto
    moreover have "p \<in> span p (Suc i)" "p + 2 ^ i \<in> span p (Suc i)" unfolding S(1) by auto
    then have "phys_to_nid env (buddy p i) = phys_to_nid env p" using Suc.prems(4) e by metis
    ultimately show ?thesis using lists_okD(7)[OF ok] Suc.prems(2) by (meson Suc_le_lessD)
  qed
qed

definition usable_nodes :: "heap_env \<Rightarrow> u32 \<Rightarrow> node_prefs option \<Rightarrow> nat set" where
  "usable_nodes env memflags d =
     (case first_choice env memflags d of (node, exact) \<Rightarrow>
        if exact then {node}
        else insert node (set (case d of None \<Rightarrow> node_online_map env | Some d \<Rightarrow> node_affinity d) \<union> set (node_online_map env)))"

text \<open>The node sets are sets of nodes, and the node asked for exists.\<close>

definition request_ok :: "heap_env \<Rightarrow> u32 \<Rightarrow> node_prefs option \<Rightarrow> bool" where
  "request_ok env memflags d \<longleftrightarrow> nodes_ok (node_online_map env) \<and> (\<forall>x. d = Some x \<longrightarrow> nodes_ok (node_affinity x)) \<and>
     fst (first_choice env memflags d) < MAX_NUMNODES \<and> \<not> opt_tmem env"

definition free_run :: "heap_env \<Rightarrow> heap_state \<Rightarrow> nat set \<Rightarrow> nat \<Rightarrow> nat \<Rightarrow> nat \<Rightarrow> nat \<Rightarrow> bool" where
  "free_run env s N zone_lo zone_hi order p \<longleftrightarrow> 2 ^ order dvd p \<and> span p order \<subseteq> free_set s \<and>
     (\<forall>m\<in>span p order. phys_to_nid env m = phys_to_nid env p) \<and> phys_to_nid env p \<in> N \<and> zone_lo \<le> zone_of p \<and> zone_of p \<le> zone_hi"

lemma no_run:
  assumes ok: "lists_ok env s {}" and o: "order \<le> MAX_ORDER"
    and em: "\<forall>k\<in>N. node_empty s (zone_list zone_lo zone_hi) order k"
  shows "\<not> free_run env s N zone_lo zone_hi order p"
proof
  assume r: "free_run env s N zone_lo zone_hi order p"
  then have "2 ^ order dvd p" "span p order \<subseteq> free_set s" "\<forall>m\<in>span p order. phys_to_nid env m = phys_to_nid env p"
    unfolding free_run_def by blast+
  from run_in_block[OF ok this(1) o this(2,3)] obtain q j where q: "(q, j) \<in> blocks s" "order \<le> j" "span p order \<subseteq> span q j" by blast
  have "p \<in> span q j" using q(3) by (rule subsetD) simp
  with block_pages[OF block_listed(2)[OF ok q(1)]] have "phys_to_nid env p = phys_to_nid env q" "zone_of p = zone_of q" by blast+
  then have "q \<in> set (heaps s (phys_to_nid env p, zone_of p, j))" using block_listed(1)[OF ok q(1)] by simp
  moreover have "zone_lo \<le> zone_of p" "zone_of p \<le> zone_hi" and nN: "phys_to_nid env p \<in> N"
    using r unfolding free_run_def by blast+
  then have "zone_of p \<in> set (zone_list zone_lo zone_hi)" by (auto simp: zone_list_def)
  moreover note nN
  ultimately show False using em q(2) unfolding node_empty_def by fastforce
qed

lemma alloc_heap_pages_ok:
  assumes ok: "heap_ok env s" and rq: "request_ok env memflags d" and z: "zone_lo \<le> zone_hi" "zone_hi < NR_ZONES" and o: "order \<le> MAX_ORDER"
  shows "(\<exists>q fl s'. alloc_heap_pages env zone_lo zone_hi order memflags d s = Some (Inr (Some (q, phys_to_nid env q, fl), s')) \<and>
      heap_ok env s' \<and> owned_block env s' q order \<and> free_run env s (usable_nodes env memflags d) zone_lo zone_hi order q \<and>
      free_set s' = free_set s - span q order \<and> outside_same (free_set s) s s' \<and> set fl = stale_cpus env s (span q order) \<and>
      (\<forall>m\<in>span q order. fresh_page (frame_table s' m))) \<or>
    (alloc_heap_pages env zone_lo zone_hi order memflags d s = Some (Inr (None, s)) \<and>
      (\<forall>p. \<not> free_run env s (usable_nodes env memflags d) zone_lo zone_hi order p))"
proof -
  obtain node exact where fc: "first_choice env memflags d = (node, exact)" by (cases "first_choice env memflags d")
  let ?ns = "case d of None \<Rightarrow> node_online_map env | Some d \<Rightarrow> node_affinity d" and ?zs = "zone_list zone_lo zone_hi"
  let ?N = "usable_nodes env memflags d"
  have N: "?N = (if exact then {node} else insert node (set ?ns \<union> set (node_online_map env)))" by (simp add: usable_nodes_def fc)
  have R: "nodes_ok (node_online_map env)" "nodes_ok ?ns" "node < MAX_NUMNODES" "\<not> opt_tmem env"
    using rq by (auto simp: request_ok_def fc split: option.splits)
  have zs: "\<forall>z\<in>set ?zs. z < NR_ZONES" using z by (auto simp: zone_list_def)
  let ?w = "while_loop (search_step env s ?zs order exact) \<lparr>ns_node = node, ns_first = node, ns_mask = ?ns, ns_retry = False, ns_outcome = Searching\<rparr>"
  have "searched s ?zs order ?N ?w" unfolding N by (rule search_ok[OF ok zs R(1,2,3)])
  then obtain n where n: "?w = Some (Inr n)" and
    cs: "(\<exists>k z j p. ns_outcome n = Found k z j p \<and> k \<in> ?N \<and> suitable s ?zs order k z j p) \<or>
      (ns_outcome n = Not_found \<and> (\<forall>k\<in>?N. node_empty s ?zs order k))" by (auto simp: searched_def)
  have eq: "alloc_heap_pages env zone_lo zone_hi order memflags d s =
      (case ns_outcome n of
         Found node zone j pg \<Rightarrow> Some (bindR (take_block env node zone order j pg s) (\<lambda>(pg, msk, s). Inr (Some (pg, node, msk), s)))
       | _ \<Rightarrow> Some (Inr (None, s)))"
    unfolding alloc_heap_pages_def fc using z o R(4) n by (simp add: not_less)
  from cs show ?thesis
  proof (elim disjE exE conjE)
    fix k z j p assume f: "ns_outcome n = Found k z j p" "k \<in> ?N" "suitable s ?zs order k z j p"
    then have zj: "zone_lo \<le> z" "z \<le> zone_hi" "order \<le> j" "p \<in> set (heaps s (k, z, j))" by (auto simp: suitable_def zone_list_def)
    obtain q fl s' where t: "take_block env k z order j p s = Inr (q, fl, s')" "heap_ok env s'" "owned_block env s' q order"
      "span q order \<subseteq> free_set s" "free_set s' = free_set s - span q order" "phys_to_nid env q = k" "zone_of q = z"
      "outside_same (free_set s) s s'" "set fl = stale_cpus env s (span q order)" "\<forall>m\<in>span q order. fresh_page (frame_table s' m)"
      using take_block_ok[OF ok zj(4,3)] by blast
    have "2 ^ order dvd q" "\<forall>m\<in>span q order. phys_to_nid env m = phys_to_nid env q"
      using t(3) unfolding owned_block_def by blast+
    then have "free_run env s ?N zone_lo zone_hi order q" using f(2) t(4,6,7) zj(1,2) by (simp add: free_run_def)
    then show ?thesis using eq f(1) t by simp
  next
    assume "ns_outcome n = Not_found" "\<forall>k\<in>?N. node_empty s ?zs order k"
    then show ?thesis using eq no_run[of env s order ?N] ok o by (simp add: heap_ok_def)
  qed
qed

end
