(* ===== verification/Page_Offline.thy ===== *)
theory Page_Offline
  imports Page_Get
begin

text \<open>
  Offlining a free page. The block that holds the page is broken up around it; the pieces cover exactly the other
  pages of the block and are disjoint, but they need not be aligned, so what holds of the lists afterwards is
  less than the shape of a buddy heap.
\<close>

section \<open>Lists of blocks that cover the free pages\<close>

text \<open>The shape without alignment and maximality. \<open>X\<close> are the floating pages.\<close>

definition tiles :: "heap_env \<Rightarrow> heap_state \<Rightarrow> nat set \<Rightarrow> bool" where
  "tiles env s X \<longleftrightarrow>
     (\<forall>i. distinct (heaps s i)) \<and>
     (\<forall>n z j p. p \<in> set (heaps s (n, z, j)) \<longrightarrow> n = phys_to_nid env p \<and> z = zone_of p \<and> PFN_ORDER (frame_table s p) = j) \<and>
     (\<forall>p j q k. (p, j) \<in> blocks s \<longrightarrow> (q, k) \<in> blocks s \<longrightarrow> span p j \<inter> span q k \<noteq> {} \<longrightarrow> p = q \<and> j = k) \<and>
     free_set s = (\<Union>(p, j)\<in>blocks s. span p j) \<union> X \<and>
     (\<forall>p j. (p, j) \<in> blocks s \<longrightarrow> span p j \<inter> X = {})"

lemma tilesD:
  assumes "tiles env s X"
  shows "distinct (heaps s i)"
    and "p \<in> set (heaps s (n, z, j)) \<Longrightarrow> n = phys_to_nid env p \<and> z = zone_of p \<and> PFN_ORDER (frame_table s p) = j"
    and "(p, j) \<in> blocks s \<Longrightarrow> (q, k) \<in> blocks s \<Longrightarrow> m \<in> span p j \<Longrightarrow> m \<in> span q k \<Longrightarrow> p = q \<and> j = k"
    and "free_set s = (\<Union>(p, j)\<in>blocks s. span p j) \<union> X"
    and "(p, j) \<in> blocks s \<Longrightarrow> span p j \<inter> X = {}"
proof -
  note a = assms[unfolded tiles_def]
  note b = a[THEN conjunct2] and c = a[THEN conjunct2, THEN conjunct2]
  show "distinct (heaps s i)" using a[THEN conjunct1] by (rule spec)
  show "p \<in> set (heaps s (n, z, j)) \<Longrightarrow> n = phys_to_nid env p \<and> z = zone_of p \<and> PFN_ORDER (frame_table s p) = j"
    by (rule b[THEN conjunct1, rule_format])
  show "(p, j) \<in> blocks s \<Longrightarrow> (q, k) \<in> blocks s \<Longrightarrow> m \<in> span p j \<Longrightarrow> m \<in> span q k \<Longrightarrow> p = q \<and> j = k"
    using c[THEN conjunct1, rule_format, of p j q k] by blast
  show "free_set s = (\<Union>(p, j)\<in>blocks s. span p j) \<union> X" by (rule c[THEN conjunct2, THEN conjunct1])
  show "(p, j) \<in> blocks s \<Longrightarrow> span p j \<inter> X = {}" by (rule c[THEN conjunct2, THEN conjunct2, rule_format])
qed

lemma lists_ok_tiles:
  assumes ok: "lists_ok env s X"
  shows "tiles env s X"
  unfolding tiles_def
proof (intro conjI allI impI)
  show "distinct (heaps s i)" for i by (rule lists_okD(1)[OF ok])
  show "n = phys_to_nid env p" "z = zone_of p" "PFN_ORDER (frame_table s p) = j" if "p \<in> set (heaps s (n, z, j))" for n z j p
    using block_ok_place[OF lists_okD(2)[OF ok that]] lists_okD(3)[OF ok that] by simp_all
  show "p = q" "j = k" if "(p, j) \<in> blocks s" "(q, k) \<in> blocks s" "span p j \<inter> span q k \<noteq> {}" for p j q k
    using lists_okD(4)[OF ok that(1,2)] that(3) by blast+
  show "free_set s = (\<Union>(p, j)\<in>blocks s. span p j) \<union> X" by (rule lists_okD(5)[OF ok])
  show "span p j \<inter> X = {}" if "(p, j) \<in> blocks s" for p j by (rule lists_okD(6)[OF ok that])
qed

text \<open>Pages that float may stop being free.\<close>

lemma tiles_reframe:
  assumes ok: "tiles env s X" and h: "heaps s' = heaps s" and v: "\<And>m. v_raw (frame_table s' m) = v_raw (frame_table s m)"
    and F: "free_set s' = free_set s - M" "M \<subseteq> X"
  shows "tiles env s' (X - M)"
proof -
  have b: "blocks s' = blocks s" using h by (simp add: blocks_def)
  show ?thesis
    unfolding tiles_def b h
  proof (intro conjI allI impI)
    show "distinct (heaps s i)" for i by (rule tilesD(1)[OF ok])
    show "n = phys_to_nid env p" "z = zone_of p" "PFN_ORDER (frame_table s' p) = j" if "p \<in> set (heaps s (n, z, j))" for n z j p
      using tilesD(2)[OF ok that] by (simp_all add: PFN_ORDER_def v)
    show "p = q" "j = k" if "(p, j) \<in> blocks s" "(q, k) \<in> blocks s" "span p j \<inter> span q k \<noteq> {}" for p j q k
      using tilesD(3)[OF ok that(1,2)] that(3) by blast+
    show "free_set s' = (\<Union>(p, j)\<in>blocks s. span p j) \<union> (X - M)"
      using tilesD(4)[OF ok] tilesD(5)[OF ok] F by fastforce
    show "span p j \<inter> (X - M) = {}" if "(p, j) \<in> blocks s" for p j using tilesD(5)[OF ok that] by blast
  qed
qed

text \<open>Floating pages become a block, at any address.\<close>

lemma add_tile:
  assumes ok: "tiles env s (X \<union> span p j)" and dis: "span p j \<inter> X = {}"
  shows "tiles env (enlist (phys_to_nid env p) (zone_of p) j p s) X"
proof -
  have apart: "span q k \<inter> span p j = {}" if "(q, k) \<in> blocks s" for q k using tilesD(5)[OF ok that] by blast
  have other: "q \<noteq> p" if "(q, k) \<in> blocks s" for q k using apart[OF that] by (metis IntI empty_iff span_self)
  have pnew: "p \<notin> set (heaps s i)" for i
    using other[of p "snd (snd i)"] listed_block[of p s "fst i" "fst (snd i)" "snd (snd i)"] by auto
  let ?n = "phys_to_nid env p" and ?z = "zone_of p"
  let ?h = "(heaps s)((?n, ?z, j) := heaps s (?n, ?z, j) @ [p])" and ?f = "(frame_table s)(p := (frame_table s p)\<lparr>v_raw := j\<rparr>)"
  show ?thesis
    unfolding tiles_def enlist_simps
  proof (intro conjI allI impI)
    show "distinct (?h i)" for i using tilesD(1)[OF ok] pnew by simp
    have "n' = phys_to_nid env q \<and> z' = zone_of q \<and> PFN_ORDER (?f q) = k" if mem: "q \<in> set (?h (n', z', k))" for n' z' k q
    proof (cases "q = p")
      case True
      then show ?thesis using mem pnew by (auto simp: PFN_ORDER_def split: if_splits)
    next
      case False
      then show ?thesis using mem tilesD(2)[OF ok, of q n' z' k] by (auto split: if_splits)
    qed
    then show "n' = phys_to_nid env q" "z' = zone_of q" "PFN_ORDER (?f q) = k" if "q \<in> set (?h (n', z', k))" for n' z' k q
      using that by blast+
    have "q = r \<and> k = i" if "(q, k) \<in> insert (p, j) (blocks s)" "(r, i) \<in> insert (p, j) (blocks s)" "span q k \<inter> span r i \<noteq> {}" for q k r i
      using that apart[of q k] apart[of r i] tilesD(3)[OF ok, of q k r i] by blast
    then show "q = r" "k = i" if "(q, k) \<in> insert (p, j) (blocks s)" "(r, i) \<in> insert (p, j) (blocks s)" "span q k \<inter> span r i \<noteq> {}" for q k r i
      using that by blast+
    show "free_set s = (\<Union>(p, j)\<in>insert (p, j) (blocks s). span p j) \<union> X" using tilesD(4)[OF ok] by auto
    show "span q k \<inter> X = {}" if "(q, k) \<in> insert (p, j) (blocks s)" for q k
      using that dis tilesD(5)[OF ok, of q k] by auto
  qed
qed

section \<open>Breaking up a block\<close>

text \<open>The inner loop: the piece stays inside the block and contains no offlined page.\<close>

lemma grow_order_ok:
  assumes "h \<le> c" "w \<le> k" "c + 2 ^ w \<le> h + 2 ^ k" "m \<in> span h k" "pgc_state (frame_table s m) = PGC_state_offlined"
    "\<forall>x\<in>span c w. pgc_state (frame_table s x) \<noteq> PGC_state_offlined"
  shows "\<exists>o'. grow_order s h k c w = Some o' \<and> o' < k \<and> c + 2 ^ o' \<le> h + 2 ^ k \<and>
    (\<forall>x\<in>span c o'. pgc_state (frame_table s x) \<noteq> PGC_state_offlined)"
  using assms
proof (induction s h k c w rule: grow_order.induct)
  case (1 s h k c w)
  have "w < k"
  proof (rule ccontr)
    assume "\<not> w < k"
    then have "w = k" using "1.prems"(2) by simp
    then have "c = h" using "1.prems"(1,3) by simp
    then show False using "1.prems"(4,5,6) \<open>w = k\<close> by blast
  qed
  let ?off = "\<exists>x\<in>set [c + 2 ^ w..<c + 2 ^ Suc w]. page_state_is (frame_table s x) PGC_state_offlined"
  show ?case
  proof (cases "h + 2 ^ k \<le> c + 2 ^ Suc w \<or> ?off")
    case True
    then show ?thesis using \<open>w < k\<close> "1.prems" by (subst grow_order.simps) (auto simp del: power_Suc)
  next
    case False
    have "pgc_state (frame_table s x) \<noteq> PGC_state_offlined" if "x \<in> span c (Suc w)" for x
      using that False "1.prems"(6) by (fastforce simp: span_Suc span_def page_state_is_def)
    then have "\<exists>o'. grow_order s h k c (Suc w) = Some o' \<and> o' < k \<and> c + 2 ^ o' \<le> h + 2 ^ k \<and>
        (\<forall>x\<in>span c o'. pgc_state (frame_table s x) \<noteq> PGC_state_offlined)"
      using "1.IH"[OF \<open>w < k\<close>] False \<open>w < k\<close> "1.prems" by (simp del: power_Suc)
    then show ?thesis using False \<open>w < k\<close> by (subst grow_order.simps) (simp del: power_Suc)
  qed
qed

text \<open>What the loops leave of a state: everything but the lists and the orders of pages in \<open>S\<close>.\<close>

definition retagged :: "nat set \<Rightarrow> heap_state \<Rightarrow> heap_state \<Rightarrow> bool" where
  "retagged S s s' \<longleftrightarrow> avail s' = avail s \<and> total_avail_pages s' = total_avail_pages s \<and>
     page_offlined_list s' = page_offlined_list s \<and> page_broken_list s' = page_broken_list s \<and>
     (\<forall>m. m \<notin> S \<longrightarrow> frame_table s' m = frame_table s m) \<and>
     (\<forall>m. pgc_state (frame_table s' m) = pgc_state (frame_table s m) \<and> pgc_broken (frame_table s' m) = pgc_broken (frame_table s m))"

lemma retagged_refl: "retagged S s s" by (simp add: retagged_def)

lemma retagged_put_heap: "retagged S s (put_heap n z j l s)" by (simp add: retagged_def put_heap_def)

lemma retagged_enlist: "retagged S s t \<Longrightarrow> p \<in> S \<Longrightarrow> retagged S s (enlist n z j p t)"
  by (simp add: retagged_def) (simp add: enlist_def put_heap_def put_page_def)

lemma retagged_trans: "retagged S s t \<Longrightarrow> retagged S t u \<Longrightarrow> retagged S s u"
  by (simp add: retagged_def)

lemma retagged_free: "retagged S s t \<Longrightarrow> free_set t = free_set s"
  by (simp add: retagged_def free_set_def)

lemma enlist_tail:
  assumes "n < MAX_NUMNODES" "z < NR_ZONES" "j \<le> MAX_ORDER" "avail s n \<noteq> None"
  shows "bindR (page_list_add_tail p n z j s) (\<lambda>s. Inr (f (put_page p (\<lambda>x. x\<lparr>v_raw := j\<rparr>) s))) = Inr (f (enlist n z j p s))"
proof -
  have "put_page p (\<lambda>x. x\<lparr>v_raw := j\<rparr>) (put_heap n z j (heaps s (n, z, j) @ [p]) s) = enlist n z j p s"
    by (simp add: enlist_def put_heap_def put_page_def)
  then show ?thesis using assms by (simp add: page_list_add_tail_def heap_at_def not_less)
qed

lemma regroup_loop:
  assumes blk: "block_ok env s0 n z k h" and ok: "tiles env s (span h k - {m})" and m: "m \<in> span h k"
    and fr: "avail s = avail s0" "\<And>x. pgc_state (frame_table s x) = PGC_state_offlined \<Longrightarrow> x \<in> span h k \<Longrightarrow> x = m"
      "pgc_state (frame_table s m) = PGC_state_offlined"
  shows "\<exists>c s'. while_loop (regroup_step n z h k) (h, s) = Some (Inr (c, s')) \<and> tiles env s' {} \<and> retagged (span h k) s s'"
proof -
  have B: "n < MAX_NUMNODES" "z < NR_ZONES" "k \<le> MAX_ORDER" "avail s n \<noteq> None" using blk fr(1) by (simp_all add: block_ok_def)
  have place: "phys_to_nid env x = n" "zone_of x = z" if "x \<in> span h k" for x using block_pages[OF blk] that by blast+
  define I where "I = (\<lambda>(c, t). h \<le> c \<and> c \<le> h + 2 ^ k \<and> tiles env t ({c..<h + 2 ^ k} - {m}) \<and> retagged (span h k) s t)"
  have "\<exists>s'. while_loop (regroup_step n z h k) (h, s) = Some (Inr s') \<and> I s' \<and> h + 2 ^ k \<le> fst s'"
  proof (rule while_loop_rule[where \<mu> = "\<lambda>(c, t). h + 2 ^ k - c"])
    show "I (h, s)" using ok by (simp add: I_def span_def retagged_refl)
    fix ct assume I: "I ct"
    obtain c t where ct: "ct = (c, t)" by (cases ct)
    have J: "h \<le> c" "c \<le> h + 2 ^ k" "tiles env t ({c..<h + 2 ^ k} - {m})" "retagged (span h k) s t" using I by (auto simp: I_def ct)
    have st: "pgc_state (frame_table t x) = pgc_state (frame_table s x)" for x using J(4) by (simp add: retagged_def)
    consider "\<not> c < h + 2 ^ k" | "c < h + 2 ^ k" "c = m" | "c < h + 2 ^ k" "c \<noteq> m" by blast
    then show "regroup_step n z h k ct = Inr None \<and> h + 2 ^ k \<le> fst ct \<or>
      (\<exists>s'. regroup_step n z h k ct = Inr (Some s') \<and> I s' \<and> (case s' of (c, t) \<Rightarrow> h + 2 ^ k - c) < (case ct of (c, t) \<Rightarrow> h + 2 ^ k - c))"
    proof cases
      case 1
      then show ?thesis by (simp add: ct regroup_step_def)
    next
      case 2
      have "{Suc m..<h + 2 ^ k} - {m} = {m..<h + 2 ^ k} - {m}" by auto
      then have "I (Suc c, t)" using J 2 by (simp add: I_def)
      moreover have "regroup_step n z h k ct = Inr (Some (Suc c, t))"
        using 2 st fr(3) by (simp add: ct regroup_step_def page_state_is_def)
      ultimately show ?thesis using 2 by (auto simp: ct)
    next
      case 3
      have c: "c \<in> span h k" using 3 J(1) by (simp add: span_def)
      have noff: "pgc_state (frame_table t c) \<noteq> PGC_state_offlined" using fr(2)[OF _ c] 3(2) st by auto
      obtain o' where o': "grow_order t h k c 0 = Some o'" "o' < k" "c + 2 ^ o' \<le> h + 2 ^ k"
          "\<forall>x\<in>span c o'. pgc_state (frame_table t x) \<noteq> PGC_state_offlined"
        using grow_order_ok[OF J(1), of 0 k m t] 3(1) m fr(3) st noff by (auto simp: span_def)
      have "m \<notin> span c o'" using o'(4) st fr(3) by auto
      then have X: "{c..<h + 2 ^ k} - {m} = ({c + 2 ^ o'..<h + 2 ^ k} - {m}) \<union> span c o'" "span c o' \<inter> ({c + 2 ^ o'..<h + 2 ^ k} - {m}) = {}"
        using o'(3) by (auto simp: span_def)
      have t: "tiles env (enlist n z o' c t) ({c + 2 ^ o'..<h + 2 ^ k} - {m})"
        using add_tile[OF J(3)[unfolded X(1)] X(2)] place[OF c] by simp
      have av: "avail t n \<noteq> None" using J(4) B(4) by (simp add: retagged_def)
      have "regroup_step n z h k ct = Inr (Some (c + 2 ^ o', enlist n z o' c t))"
        using 3(1) noff o'(1) enlist_tail[OF B(1,2) _ av, of o' c "\<lambda>s. Some (c + 2 ^ o', s)"] o'(2) B(3)
        by (simp add: ct regroup_step_def page_state_is_def)
      moreover have "I (c + 2 ^ o', enlist n z o' c t)"
        using J(1,4) o'(3) t retagged_enlist[OF J(4) c] by (simp add: I_def)
      moreover have "h + 2 ^ k - (c + 2 ^ o') < h + 2 ^ k - c" using 3(1) by (intro diff_less_mono2) simp_all
      ultimately show ?thesis by (auto simp: ct)
    qed
  qed
  then obtain c t where r: "while_loop (regroup_step n z h k) (h, s) = Some (Inr (c, t))" "I (c, t)" "h + 2 ^ k \<le> c" by auto
  then have "{c..<h + 2 ^ k} - {m} = {}" by simp
  then show ?thesis using r by (auto simp: I_def)
qed

section \<open>Retiring the page\<close>

lemma retire_none:
  assumes "\<forall>x\<in>set xs. pgc_state (frame_table s x) \<noteq> PGC_state_offlined"
  shows "for_loop (retire_page n z) xs (i, s) = Inr (i, s)"
  using assms by (induction xs) (simp_all add: retire_page_def page_state_is_def)

definition retired :: "nat \<Rightarrow> heap_state \<Rightarrow> heap_state" where
  "retired m s = (if pgc_broken (frame_table s m) then s\<lparr>page_broken_list := page_broken_list s @ [m]\<rparr>
     else s\<lparr>page_offlined_list := page_offlined_list s @ [m]\<rparr>)"

lemma retired_simps [simp]:
  "frame_table (retired m s) = frame_table s" "heaps (retired m s) = heaps s" "avail (retired m s) = avail s"
  "total_avail_pages (retired m s) = total_avail_pages s"
  "page_broken_list (retired m s) = page_broken_list s @ (if pgc_broken (frame_table s m) then [m] else [])"
  "page_offlined_list (retired m s) = page_offlined_list s @ (if pgc_broken (frame_table s m) then [] else [m])"
  by (simp_all add: retired_def)

lemma retire_loop:
  assumes m: "m \<in> span h k" "pgc_state (frame_table s m) = PGC_state_offlined"
    and off: "\<And>x. pgc_state (frame_table s x) = PGC_state_offlined \<Longrightarrow> x \<in> span h k \<Longrightarrow> x = m"
    and a: "add_avail n z (- 1) s = Inr t" "0 \<le> total_avail_pages t" "frame_table t = frame_table s"
  shows "for_loop (retire_page n z) [h..<h + 2 ^ k] (0, s) = Inr (1, retired m t)"
proof -
  have "[h..<h + 2 ^ k] = [h..<m] @ m # [Suc m..<h + 2 ^ k]"
    using upt_add_eq_append[of h m "h + 2 ^ k - m"] m(1) by (simp add: span_def upt_conv_Cons)
  moreover have "for_loop (retire_page n z) [h..<m] (0, s) = Inr (0, s)"
    by (rule retire_none) (use off m(1) in \<open>fastforce simp: span_def\<close>)
  moreover have "retire_page n z m (0, s) = Inr (1, retired m t)"
    using m(2) a by (simp add: retire_page_def page_state_is_def retired_def)
  moreover have "for_loop (retire_page n z) [Suc m..<h + 2 ^ k] (1, retired m t) = Inr (1, retired m t)"
    by (rule retire_none) (use off m(1) a(3) in \<open>fastforce simp: span_def\<close>)
  ultimately show ?thesis by (simp add: for_loop_append)
qed

section \<open>Offlining\<close>

lemma block_okD:
  assumes "block_ok env s n z j p"
  shows "n < MAX_NUMNODES" "z < NR_ZONES" "avail s n \<noteq> None" "j \<le> MAX_ORDER" "0 < p"
    "\<And>x. x \<in> span p j \<Longrightarrow> count_info_free (frame_table s x) \<and> frame_valid env x"
  using assms by (simp_all add: block_ok_def)

text \<open>The page marked offlined; its block is found and broken up.\<close>

definition offlined_page :: "bool \<Rightarrow> page_info \<Rightarrow> page_info" where
  "offlined_page broken x = x\<lparr>pgc_state := PGC_state_offlined, pgc_broken := (broken \<or> pgc_broken x)\<rparr>"

lemma mark_free_page:
  assumes "m \<in> free_set s"
  shows "mark_page_offline m broken s = (frame_table s m, put_page m (offlined_page broken) s)"
  using assms by (simp add: mark_page_offline_def free_set_def offlined_page_def put_page_def Let_def)

lemma block_of_unique:
  assumes ok: "lists_ok env s X" and h: "(h, k) \<in> blocks s" and m: "m \<in> span h k"
  shows "block_of s (phys_to_nid env h) (zone_of h) m = Some h"
proof -
  let ?n = "phys_to_nid env h" and ?z = "zone_of h" and ?P = "\<lambda>(i, p). p \<le> m \<and> m < p + 2 ^ i"
  let ?l = "concat (map (\<lambda>i. map (Pair i) (heaps s (?n, ?z, i))) [0..<Suc MAX_ORDER])"
  have l: "set ?l = {(i, p). i \<le> MAX_ORDER \<and> p \<in> set (heaps s (?n, ?z, i))}" by (auto simp: less_Suc_eq_le simp del: upt_Suc)
  then have "(k, h) \<in> set ?l" using block_listed(1)[OF ok h] block_okD(4)[OF block_listed(2)[OF ok h]] by simp
  moreover have "?P (k, h)" using m by (simp add: span_def)
  ultimately have "find ?P ?l \<noteq> None" unfolding find_None_iff by blast
  then obtain i p where f: "find ?P ?l = Some (i, p)" by auto
  then have "(i, p) \<in> set ?l" "?P (i, p)" unfolding find_Some_iff by (metis nth_mem)+
  then have "(p, i) \<in> blocks s" "m \<in> span p i" unfolding l by (auto simp: blocks_def span_def)
  then have "p = h" using lists_okD(4)[OF ok _ h _ m] by blast
  then show ?thesis using f by (simp add: block_of_def)
qed

text \<open>One page less: the counters.\<close>

lemma drop_counter:
  assumes ok: "heap_ok env s" and m: "m \<in> free_set s" and F: "free_set t = free_set s - {m}"
    and fr: "avail t = avail s" "total_avail_pages t = total_avail_pages s"
  obtains u where "add_avail (phys_to_nid env m) (zone_of m) (- 1) t = Inr u" "0 \<le> total_avail_pages u" "counters_ok env u"
    "frame_table u = frame_table t" "heaps u = heaps t" "page_offlined_list u = page_offlined_list t" "page_broken_list u = page_broken_list t"
proof -
  let ?n = "phys_to_nid env m" and ?z = "zone_of m"
  have lo: "lists_ok env s {}" and co: "counters_ok env s" using ok by (auto simp: heap_ok_def)
  obtain h k where h: "(h, k) \<in> blocks s" "m \<in> span h k" using m lists_okD(5)[OF lo] by auto
  note blk = block_listed(2)[OF lo h(1)]
  have pm: "?n = phys_to_nid env h" "?z = zone_of h" using block_pages[OF blk] h(2) by blast+
  have nz: "?n < MAX_NUMNODES" "?z < NR_ZONES" "avail s ?n \<noteq> None" unfolding pm by (rule block_okD[OF blk])+
  then obtain a where a: "avail s ?n = Some a" by blast
  have pos: "1 \<le> a ?z" "1 \<le> total_avail_pages s"
    using avail_block[OF ok a, of "{m}" ?z] m nz(2) by simp_all
  define u where "u = t\<lparr>avail := (avail t)(?n \<mapsto> a(?z := a ?z - 1)), total_avail_pages := total_avail_pages t - 1\<rparr>"
  have "nat (int (a ?z) - 1) = a ?z - 1" by simp
  then have add: "add_avail ?n ?z (- 1) t = Inr u"
    using nz a fr by (simp add: add_avail_def u_def)
  have Fu: "free_set u = free_set s - {m}" using F by (simp add: u_def free_set_def)
  have s0: "span m 0 = {m}" by (auto simp: span_def)
  have "counters_ok env s = counters_ok env u"
  proof (rule counters_block[where p = m and j = 0 and n = ?n and z = ?z and a = "a(?z := a ?z - 1)" and a' = a])
    show "free_set s = free_set u \<union> span m 0" "free_set u \<inter> span m 0 = {}" using Fu m s0 by auto
    show "\<forall>x\<in>span m 0. phys_to_nid env x = ?n \<and> zone_of x = ?z" using s0 by simp
    show "avail s = (avail u)(?n \<mapsto> a)" using a fr(1) by (auto simp: u_def)
    show "finite (free_set u)" using Fu co by (simp add: counters_ok_def)
  qed (use pos fr in \<open>simp_all add: u_def\<close>)
  then show thesis using that[of u] add co pos fr by (simp add: u_def)
qed

lemma offline_free_page:
  assumes ok: "heap_ok env s" and m: "m \<in> free_set s" and oe: "\<not> is_xen_fixed_mfn oe m" "page_is_conventional oe m"
  shows "\<exists>s'. offline_page env oe m broken st s =
      Some (Inr (0, PG_OFFLINE_OFFLINED OR (if broken then PG_OFFLINE_BROKEN else 0), s')) \<and>
    tiles env s' {} \<and> counters_ok env s' \<and> free_set s' = free_set s - {m} \<and> pgc_state (frame_table s' m) = PGC_state_offlined \<and>
    pgc_broken (frame_table s' m) = broken \<and>
    page_broken_list s' = page_broken_list s @ (if broken then [m] else []) \<and>
    page_offlined_list s' = page_offlined_list s @ (if broken then [] else [m])"
proof -
  have lo: "lists_ok env s {}" using ok by (simp add: heap_ok_def)
  obtain h k where h: "(h, k) \<in> blocks s" "m \<in> span h k" using m lists_okD(5)[OF lo] by auto
  let ?n = "phys_to_nid env h" and ?z = "zone_of h"
  note lst = block_listed(1)[OF lo h(1)] and blk = block_listed(2)[OF lo h(1)]
  have pm: "phys_to_nid env m = ?n" "zone_of m = ?z" using block_pages[OF blk] h(2) by blast+
  note B = block_okD(1,2,4,3,5)[OF blk] and free = block_okD(6)[OF blk]
  define s1 where "s1 = put_page m (offlined_page broken) s"
  define s2 where "s2 = put_heap ?n ?z k (remove1 h (heaps s (?n, ?z, k))) s1"
  have st1: "pgc_state (frame_table s1 x) = (if x = m then PGC_state_offlined else pgc_state (frame_table s x))"
    "v_raw (frame_table s1 x) = v_raw (frame_table s x)" "pgc_xen_heap (frame_table s1 x) = pgc_xen_heap (frame_table s x)"
    "pgc_broken (frame_table s1 m) = broken" for x
    using free[OF h(2)] by (auto simp: s1_def offlined_page_def count_info_free_def)
  have F1: "free_set s2 = free_set s - {m}" using st1(1) by (auto simp: s2_def free_set_def)
  have only: "x = m" if "pgc_state (frame_table t x) = PGC_state_offlined" "x \<in> span h k" "retagged S s2 t" for x t S
    using that free[OF that(2)] st1(1)[of x] by (auto simp: retagged_def s2_def count_info_free_def split: if_splits)
  have t2: "tiles env s2 (span h k - {m})"
    by (rule tiles_reframe[OF lists_ok_tiles[OF remove_block[OF lo lst], simplified]])
      (use F1 h(2) st1(2) in \<open>auto simp: s2_def s1_def\<close>)
  have a2: "avail s2 = avail s" "pgc_state (frame_table s2 m) = PGC_state_offlined"
    by (simp_all add: s2_def s1_def offlined_page_def)
  from regroup_loop[OF blk t2 h(2) a2(1) only[OF _ _ retagged_refl] a2(2)]
  obtain c s3 where s3: "while_loop (regroup_step ?n ?z h k) (h, s2) = Some (Inr (c, s3))" "tiles env s3 {}" "retagged (span h k) s2 s3"
    by blast
  have av: "avail s3 = avail s" "total_avail_pages s3 = total_avail_pages s" using s3(3) by (simp_all add: retagged_def s2_def s1_def)
  have m3: "pgc_state (frame_table s3 m) = PGC_state_offlined" "pgc_broken (frame_table s3 m) = broken"
    using s3(3) st1(1)[of m] st1(4) by (simp_all add: retagged_def s2_def)
  obtain u where u: "add_avail ?n ?z (- 1) s3 = Inr u" "0 \<le> total_avail_pages u" "counters_ok env u" "frame_table u = frame_table s3"
      "heaps u = heaps s3" "page_offlined_list u = page_offlined_list s3" "page_broken_list u = page_broken_list s3"
    using drop_counter[OF ok m _ av] retagged_free[OF s3(3)] F1 pm by metis
  have ret: "for_loop (retire_page ?n ?z) [h..<h + 2 ^ k] (0, s3) = Inr (1, retired m u)"
    by (rule retire_loop[OF h(2) m3(1) only[OF _ _ s3(3)] u(1,2,4)])
  have del: "page_list_del h ?n ?z k s1 = Inr s2"
    using B lst by (simp add: page_list_del_def heap_at_def not_less s2_def) (simp add: s1_def)
  have hz: "page_to_zone s1 h = Inr ?z" "page_to_zone s1 m = Inr ?z" "PFN_ORDER (frame_table s1 h) = k"
    using free[OF h(2)] free[OF span_self] B(5) h(2) pm lists_okD(3)[OF lo lst]
    by (auto simp: page_to_zone_def st1 count_info_free_def zone_of_def PFN_ORDER_def span_def)
  have res: "reserve_offlined_page env h s1 = Some (Inr (1, retired m u))"
    using hz del s3(1) ret by (simp add: reserve_offlined_page_def Let_def)
  have "heaps s1 = heaps s" by (simp add: s1_def)
  then have "block_of s1 ?n ?z m = Some h" using block_of_unique[OF lo h] by (simp add: block_of_def)
  then have "reserve_heap_page env m s1 = Some (Inr (1, retired m u))"
    using res hz(2) pm B by (simp add: reserve_heap_page_def heap_at_def not_less) (simp add: s1_def)
  then have off: "offline_page env oe m broken st s =
      Some (Inr (0, PG_OFFLINE_OFFLINED OR (if broken then PG_OFFLINE_BROKEN else 0), retired m u))"
    using free[OF h(2)] oe st1(1)[of m] by (simp add: offline_page_def mark_free_page[OF m] s1_def[symmetric] page_state_is_def Let_def)
  have "free_set (retired m u) = free_set s - {m}" using u(4) retagged_free[OF s3(3)] F1 by (simp add: free_set_def)
  moreover have "tiles env (retired m u) {}" using s3(2) u(4,5) by (simp add: tiles_def free_set_def blocks_def)
  moreover have "counters_ok env (retired m u)" using u(3) by (simp add: counters_ok_def free_set_def)
  moreover have "page_broken_list s3 = page_broken_list s" "page_offlined_list s3 = page_offlined_list s"
    using s3(3) by (simp_all add: retagged_def s2_def s1_def put_heap_def put_page_def)
  ultimately show ?thesis using off m3 u(4,6,7) by simp
qed

end
