(* ===== verification/Page_Properties.thy ===== *)
theory Page_Properties
  imports Page_Offline
begin

unbundle bit_operations_syntax

text \<open>
  The properties of the page allocator: what an allocation returns and when it fails, what freeing does, and that
  sequences of both never hand a page out twice; and what offlining a page does to the heap.
\<close>

section \<open>Clients\<close>

text \<open>
  A client of the allocator holds a list of blocks. It asks for a block, or gives back the block at some
  position of its list.
\<close>

datatype heap_op = Get nat nat nat u32 "node_prefs option" | Put nat

type_synonym heap_client = "heap_state \<times> (nat \<times> nat) list"

definition client_step :: "heap_env \<Rightarrow> heap_op \<Rightarrow> heap_client \<Rightarrow> heap_client result" where
  "client_step env op c =
     (case c of (s, L) \<Rightarrow>
        (case op of
           Get zone_lo zone_hi order memflags d \<Rightarrow>
             (case alloc_heap_pages env zone_lo zone_hi order memflags d s of
                None \<Rightarrow> Inl Bug_on
              | Some (Inl e) \<Rightarrow> Inl e
              | Some (Inr (None, s)) \<Rightarrow> Inr (s, L)
              | Some (Inr (Some (pg, _), s)) \<Rightarrow> Inr (s, (pg, order) # L))
         | Put i \<Rightarrow>
             if i < length L then
               (case free_heap_pages env (fst (L ! i)) (snd (L ! i)) s of
                  None \<Rightarrow> Inl Bug_on
                | Some (Inl e) \<Rightarrow> Inl e
                | Some (Inr s) \<Rightarrow> Inr (s, take i L @ drop (Suc i) L))
             else Inr (s, L)))"

definition client_okay :: "heap_env \<Rightarrow> heap_op \<Rightarrow> heap_client \<Rightarrow> bool" where
  "client_okay env op c \<longleftrightarrow>
     (case op of
        Get zone_lo zone_hi order memflags d \<Rightarrow> zone_lo \<le> zone_hi \<and> zone_hi < NR_ZONES \<and> request_ok env memflags d
      | Put i \<Rightarrow> True)"

definition pages_of :: "(nat \<times> nat) list \<Rightarrow> nat set" where
  "pages_of L = (\<Union>(p, j)\<in>set L. span p j)"

definition apart :: "nat \<times> nat \<Rightarrow> nat \<times> nat \<Rightarrow> bool" where
  "apart x y \<longleftrightarrow> span (fst x) (snd x) \<inter> span (fst y) (snd y) = {}"

text \<open>The blocks held are disjoint and in use, and together with the free pages they are always the same pages \<open>U\<close>.\<close>

definition client_ok :: "heap_env \<Rightarrow> nat set \<Rightarrow> heap_client \<Rightarrow> bool" where
  "client_ok env U c \<longleftrightarrow>
     (case c of (s, L) \<Rightarrow> heap_ok env s \<and> (\<forall>(p, j)\<in>set L. owned_block env s p j) \<and> sorted_wrt apart L \<and> free_set s \<union> pages_of L = U)"

lemma owned_block_same:
  assumes "owned_block env s p j" "outside_same F s s'" "span p j \<inter> F = {}"
  shows "owned_block env s' p j"
proof -
  have "frame_table s' m = frame_table s m" if "m \<in> span p j" for m using assms(2,3) that unfolding outside_same_def by blast
  moreover have "avail s' (phys_to_nid env p) = None \<longleftrightarrow> avail s (phys_to_nid env p) = None" using assms(2) unfolding outside_same_def by blast
  ultimately show ?thesis using assms(1) unfolding owned_block_def by metis
qed

lemma owned_block_used: "owned_block env s p j \<Longrightarrow> span p j \<inter> free_set s = {}"
  unfolding owned_block_def free_set_def by fastforce

lemma client_get_ok:
  assumes c: "client_ok env U (s, L)" and ok: "client_okay env (Get zl zh order mf d) (s, L)"
  shows "\<exists>c'. client_step env (Get zl zh order mf d) (s, L) = Inr c' \<and> client_ok env U c'"
proof (cases "order \<le> MAX_ORDER")
  case False
  then have "alloc_heap_pages env zl zh order mf d s = Some (Inr (None, s))"
    using ok by (simp add: alloc_heap_pages_def client_okay_def request_ok_def not_le split: prod.splits)
  then show ?thesis using c by (simp add: client_step_def)
next
  case True
  have C: "heap_ok env s" "\<And>p j. (p, j) \<in> set L \<Longrightarrow> owned_block env s p j" "sorted_wrt apart L" "free_set s \<union> pages_of L = U"
    using c by (auto simp: client_ok_def)
  have R: "request_ok env mf d" "zl \<le> zh" "zh < NR_ZONES" using ok by (auto simp: client_okay_def)
  consider q fl s' where "alloc_heap_pages env zl zh order mf d s = Some (Inr (Some (q, phys_to_nid env q, fl), s'))" "heap_ok env s'"
      "owned_block env s' q order" "free_run env s (usable_nodes env mf d) zl zh order q" "free_set s' = free_set s - span q order"
      "outside_same (free_set s) s s'"
    | "alloc_heap_pages env zl zh order mf d s = Some (Inr (None, s))"
    using alloc_heap_pages_ok[OF C(1) R True] by blast
  then show ?thesis
  proof cases
    case 1
    have sub: "span q order \<subseteq> free_set s" using 1(4) unfolding free_run_def by blast
    have dis: "span p j \<inter> free_set s = {}" if "(p, j) \<in> set L" for p j by (rule owned_block_used[OF C(2)[OF that]])
    have "owned_block env s' p j" if "(p, j) \<in> set ((q, order) # L)" for p j
      using that 1(3) owned_block_same[OF C(2) 1(6) dis] by auto
    moreover have "sorted_wrt apart ((q, order) # L)" using C(3) dis sub by (fastforce simp: apart_def)
    moreover have "free_set s' \<union> pages_of ((q, order) # L) = U" using C(4) 1(5) sub by (auto simp: pages_of_def)
    ultimately have "client_ok env U (s', (q, order) # L)" using 1(2) by (auto simp: client_ok_def)
    then show ?thesis using 1(1) by (simp add: client_step_def)
  next
    case 2
    then show ?thesis using c by (simp add: client_step_def)
  qed
qed

lemma client_put_ok:
  assumes c: "client_ok env U (s, L)"
  shows "\<exists>c'. client_step env (Put i) (s, L) = Inr c' \<and> client_ok env U c'"
proof (cases "i < length L")
  case False
  then show ?thesis using c by (simp add: client_step_def)
next
  case True
  obtain p j where pj: "L ! i = (p, j)" by (cases "L ! i")
  define A B where "A = take i L" and "B = drop (Suc i) L"
  have L: "L = A @ (p, j) # B" using id_take_nth_drop[OF True] pj by (simp add: A_def B_def)
  have C: "heap_ok env s" "\<And>q k. (q, k) \<in> set L \<Longrightarrow> owned_block env s q k" "sorted_wrt apart L" "free_set s \<union> pages_of L = U"
    using c by (auto simp: client_ok_def)
  have "owned_block env s p j" using C(2) L by simp
  from free_heap_pages_ok[OF C(1) this] obtain s' where f: "free_heap_pages env p j s = Some (Inr s')" "heap_ok env s'"
    "free_set s' = free_set s \<union> span p j" "outside_same (free_set s') s s'" by blast
  have "span q k \<inter> span p j = {}" if "(q, k) \<in> set (A @ B)" for q k
  proof -
    have "apart (q, k) (p, j) \<or> apart (p, j) (q, k)" using C(3) that unfolding L by (fastforce simp: sorted_wrt_append)
    then show ?thesis by (auto simp: apart_def)
  qed
  then have "span q k \<inter> free_set s' = {}" if "(q, k) \<in> set (A @ B)" for q k
    using that owned_block_used[OF C(2)[of q k]] L unfolding f(3) by auto
  then have "owned_block env s' q k" if "(q, k) \<in> set (A @ B)" for q k
    using that owned_block_same[OF C(2)[of q k] f(4)] L by auto
  moreover have "sorted_wrt apart (A @ B)" using C(3) unfolding L by (auto simp: sorted_wrt_append)
  moreover have "free_set s' \<union> pages_of (A @ B) = U" using C(4) f(3) unfolding L by (auto simp: pages_of_def)
  ultimately have "client_ok env U (s', A @ B)" using f(2) by (auto simp: client_ok_def)
  then show ?thesis using True pj f(1) by (simp add: client_step_def A_def B_def)
qed

interpretation heap_clients: guarded_system "client_ok env U" "client_okay env" "client_step env"
proof
  show "\<exists>c'. client_step env op c = Inr c' \<and> client_ok env U c'" if "client_ok env U c" "client_okay env op c" for c op
    using client_get_ok client_put_ok that by (cases c; cases op) blast+
  show "client_okay env b c'" if "client_okay env b c" for b c c'
    using that by (simp add: client_okay_def)
qed

section \<open>The blocks are determined by the free pages\<close>

lemma block_in_block:
  assumes ok: "lists_ok env s {}" "lists_ok env t {}" and F: "free_set s = free_set t" and p: "(p, j) \<in> blocks s"
  shows "\<exists>q k. (q, k) \<in> blocks t \<and> j \<le> k \<and> span p j \<subseteq> span q k"
proof -
  note blk = block_listed(2)[OF ok(1) p]
  have "span p j \<subseteq> free_set t" using lists_okD(5)[OF ok(1)] p F by auto
  moreover have "\<forall>m\<in>span p j. phys_to_nid env m = phys_to_nid env p" using block_pages[OF blk] by blast
  ultimately show ?thesis using run_in_block[OF ok(2)] block_align[OF ok(1) p] block_okD(4)[OF blk] by blast
qed

lemma blocks_sub:
  assumes ok: "lists_ok env s {}" "lists_ok env t {}" and F: "free_set s = free_set t"
  shows "blocks s \<subseteq> blocks t"
proof
  fix x assume "x \<in> blocks s"
  moreover obtain p j where x: "x = (p, j)" by (cases x)
  ultimately have p: "(p, j) \<in> blocks s" by simp
  obtain q k where q: "(q, k) \<in> blocks t" "j \<le> k" "span p j \<subseteq> span q k" using block_in_block[OF ok F p] by blast
  obtain r i where r: "(r, i) \<in> blocks s" "k \<le> i" "span q k \<subseteq> span r i" using block_in_block[OF ok(2,1) F[symmetric] q(1)] by blast
  have "p \<in> span r i" using q(3) r(3) span_self[of p j] by (metis subsetD)
  then have "p = r \<and> j = i" using lists_okD(4)[OF ok(1) p r(1) span_self] by blast
  then have "j = k" "span p j = span q k" using q(2,3) r(2,3) by auto
  then have "p = q" using span_self[of p j] span_self[of q k] by (auto simp: span_def)
  then show "x \<in> blocks t" using q(1) x \<open>j = k\<close> by simp
qed

lemma heap_canonical:
  assumes "heap_ok env s" "heap_ok env t" "free_set s = free_set t"
  shows "blocks s = blocks t" "total_avail_pages s = total_avail_pages t"
  using assms blocks_sub[of env s t] blocks_sub[of env t s] by (auto simp: heap_ok_def counters_ok_def)

section \<open>An example\<close>

text \<open>One node with the pages 4 to 7, a single free block of order 2 in zone 2.\<close>

definition demo_env :: heap_env where
  "demo_env = \<lparr>frame_valid = (\<lambda>_. True), phys_to_nid = (\<lambda>_. 0), node_online_map = [0], cpu_node = 0, opt_tmem = False,
     tmem_freeable_pages = False, tmem_relinquish_pages = (\<lambda>_. None), cpu_online_map = [0, 1], tlbflush_time = (\<lambda>_. 1),
     tlbflush_current_time = 2\<rparr>"

definition demo_page :: "page_state \<Rightarrow> nat \<Rightarrow> page_info" where
  "demo_page st v = \<lparr>pgc_state = st, pgc_broken = False, pgc_xen_heap = False, pgc_allocated = False, pgc_rest = 0, type_info = 0,
     need_tlbflush = False, v_raw = v, tlbflush_timestamp = 0\<rparr>"

definition demo_heap :: heap_state where
  "demo_heap = \<lparr>frame_table = (\<lambda>m. if 4 \<le> m \<and> m < 8 then demo_page PGC_state_free (if m = 4 then 2 else 0) else demo_page PGC_state_inuse 1),
     heaps = (\<lambda>_. [])((0, 2, 2) := [4]), avail = Map.empty(0 \<mapsto> (\<lambda>_. 0)(2 := 4)), total_avail_pages = 4,
     midsize_alloc_zone_pages = 0, page_offlined_list = [], page_broken_list = []\<rparr>"

definition demo_offline :: offline_env where
  "demo_offline = \<lparr>is_xen_fixed_mfn = (\<lambda>_. False), page_is_conventional = (\<lambda>_. True),
     page_get_owner_and_reference = (\<lambda>_ s. (None, s)), drop_reference = (\<lambda>_ s. s),
     p2m_pod_offline_or_broken_hit = (\<lambda>_ s. (False, s)), p2m_pod_offline_or_broken_replace = (\<lambda>_ s. s)\<rparr>"

lemma demo_free: "free_set demo_heap = {4..<8}"
  by (auto simp: free_set_def demo_heap_def demo_page_def)

lemma demo_span: "span 4 2 = {4..<8}" by (auto simp: span_def)

lemma demo_zone: "m \<in> {4..<8} \<Longrightarrow> zone_of m = 2"
  using zone_of_span[of 2 4 m] by (simp add: demo_span) (simp add: zone_of_def fls.simps)

lemma demo_blocks: "blocks demo_heap = {(4, 2)}"
  by (auto simp: blocks_def demo_heap_def)

lemma demo_block: "block_ok demo_env demo_heap 0 2 2 4"
  using demo_zone[of 4]
  by (auto simp: block_ok_def demo_span count_info_free_def MAX_NUMNODES_def NR_ZONES_def MAX_ORDER_def demo_env_def demo_heap_def demo_page_def)

lemma demo_lists: "lists_ok demo_env demo_heap {}"
  unfolding lists_ok_def demo_blocks demo_free
proof (intro conjI allI impI)
  show "distinct (heaps demo_heap i)" for i by (simp add: demo_heap_def)
  have mem: "p = 4 \<and> n = 0 \<and> z = 2 \<and> j = 2" if "p \<in> set (heaps demo_heap (n, z, j))" for n z j p
    using that by (auto simp: demo_heap_def split: if_splits)
  show "block_ok demo_env demo_heap n z j p" "PFN_ORDER (frame_table demo_heap p) = j" if "p \<in> set (heaps demo_heap (n, z, j))" for n z j p
    using mem[OF that] demo_block by (simp_all add: PFN_ORDER_def) (simp add: demo_heap_def demo_page_def)
  show "{4..<8} = (\<Union>(p, j)\<in>{(4, 2)}. span p j) \<union> {}" by (simp add: demo_span)
  show "(buddy p j, j) \<notin> {(4, 2)}" if "(p, j) \<in> {(4, 2)}" for p j using that by (simp add: buddy_def)
qed auto

lemma demo_ok: "heap_ok demo_env demo_heap"
proof -
  have "{m \<in> {4..<8}. phys_to_nid demo_env m = 0 \<and> zone_of m = z} = (if z = 2 then {4..<8} else {})" for z
    using demo_zone by (auto simp: demo_env_def)
  then have "counters_ok demo_env demo_heap"
    by (auto simp: counters_ok_def demo_free) (auto simp: demo_heap_def split: if_splits)
  then show ?thesis using demo_lists by (simp add: heap_ok_def)
qed

lemma no_node_asked: "unat (ucast (drop_bit 8 (0 :: u32) - 1) :: u8) = 255" by code_simp

lemma demo_choice: "first_choice demo_env 0 None = (0, False)"
  unfolding first_choice_def no_node_asked by (simp add: demo_env_def NUMA_NO_NODE_def MAX_NUMNODES_def Let_def)

lemma demo_request: "request_ok demo_env 0 None"
  by (simp add: request_ok_def demo_choice) (simp add: demo_env_def nodes_ok_def MAX_NUMNODES_def)

lemma demo_run: "free_run demo_env demo_heap (usable_nodes demo_env 0 None) 0 39 1 4"
  using demo_zone[of 4] by (auto simp: free_run_def demo_free usable_nodes_def demo_choice span_def) (simp_all add: demo_env_def)

lemma demo_stale: "stale_cpus demo_env demo_heap S = {}"
  by (auto simp: stale_cpus_def demo_heap_def demo_page_def)

lemma demo_sizes: "39 < NR_ZONES" "1 \<le> MAX_ORDER" by (simp_all add: NR_ZONES_def MAX_ORDER_def)

section \<open>Properties\<close>





text \<open>
  C22. Giving back what an allocation returned undoes it: freeing succeeds and the heap has exactly the blocks and
  the number of free pages it had before, however often blocks were halved on the way and merged again.\<close>

theorem alloc_free_restores:
  assumes "heap_ok env s" "request_ok env memflags d" "zone_lo \<le> zone_hi" "zone_hi < NR_ZONES" "order \<le> MAX_ORDER"
    and "alloc_heap_pages env zone_lo zone_hi order memflags d s = Some (Inr (Some (q, node, flushed), s'))"
  shows "\<exists>s''. free_heap_pages env q order s' = Some (Inr s'') \<and> heap_ok env s'' \<and> blocks s'' = blocks s \<and>
    free_set s'' = free_set s \<and> total_avail_pages s'' = total_avail_pages s"
proof -
  have a: "heap_ok env s'" "owned_block env s' q order" "free_run env s (usable_nodes env memflags d) zone_lo zone_hi order q"
    "free_set s' = free_set s - span q order"
    using alloc_heap_pages_ok[OF assms(1-5)] assms(6) by auto
  from free_heap_pages_ok[OF a(1,2)] obtain s'' where f: "free_heap_pages env q order s' = Some (Inr s'')" "heap_ok env s''"
    "free_set s'' = free_set s' \<union> span q order" by blast
  have "free_set s'' = free_set s" using a(3,4) f(3) unfolding free_run_def by blast
  then show ?thesis using f heap_canonical[OF f(2) assms(1)] by blast
qed

theorem alloc_free_restores_witness:
  "\<exists>q node flushed s' s''. alloc_heap_pages demo_env 0 39 1 0 None demo_heap = Some (Inr (Some (q, node, flushed), s')) \<and>
     free_heap_pages demo_env q 1 s' = Some (Inr s'') \<and> blocks s'' = {(4, 2)}"
proof -
  obtain q node flushed s' where "alloc_heap_pages demo_env 0 39 1 0 None demo_heap = Some (Inr (Some (q, node, flushed), s'))"
    using alloc_heap_pages_ok[OF demo_ok demo_request zero_le demo_sizes] demo_run by blast
  with alloc_free_restores[OF demo_ok demo_request zero_le demo_sizes this] show ?thesis unfolding demo_blocks by blast
qed

text \<open>
  C23. Offlining a free page succeeds: the page leaves the free pages and is put on the list of offlined or of broken
  pages, the counters follow, and the blocks on the lists are disjoint and cover exactly the other free pages.\<close>

theorem offline_page_free:
  assumes "heap_ok env s" "m \<in> free_set s" "\<not> is_xen_fixed_mfn oe m" "page_is_conventional oe m"
  shows "\<exists>s'. offline_page env oe m broken status s =
      Some (Inr (0, PG_OFFLINE_OFFLINED OR (if broken then PG_OFFLINE_BROKEN else 0), s')) \<and>
    tiles env s' {} \<and> counters_ok env s' \<and> free_set s' = free_set s - {m} \<and> pgc_state (frame_table s' m) = PGC_state_offlined \<and>
    page_broken_list s' = page_broken_list s @ (if broken then [m] else []) \<and>
    page_offlined_list s' = page_offlined_list s @ (if broken then [] else [m])"
  using offline_free_page[OF assms] by blast

theorem offline_page_free_witness:
  "\<exists>s'. offline_page demo_env demo_offline 4 False 0 demo_heap = Some (Inr (0, PG_OFFLINE_OFFLINED, s')) \<and>
    tiles demo_env s' {} \<and> free_set s' = {5..<8} \<and> page_offlined_list s' = [4]"
proof -
  have "{4..<8} - {4} = {5..<8 :: nat}" by auto
  then show ?thesis
    using offline_page_free[of demo_env demo_heap 4 demo_offline False 0] demo_ok
    by (auto simp: demo_free demo_offline_def) (simp add: demo_heap_def)
qed

section \<open>Misaligned blocks\<close>

text \<open>
  Offlining page 4 of the example leaves a block of order 1 at the odd address 5, and page 6 inside it with the order
  0 it was given at boot. An allocation then returns page 7, and freeing that page takes page 6 for its buddy
  and removes it from a list it is not on.
\<close>

definition offline_alloc_free :: "heap_env \<Rightarrow> offline_env \<Rightarrow> nat \<Rightarrow> heap_state \<Rightarrow> (nat \<times> fault) option" where
  "offline_alloc_free env oe m s =
     (case offline_page env oe m False 0 s of
        Some (Inr (_, _, s)) \<Rightarrow>
          (case alloc_heap_pages env 0 39 0 0 None s of
             Some (Inr (Some (q, _, _), s)) \<Rightarrow>
               (case free_heap_pages env q 0 s of Some (Inl e) \<Rightarrow> Some (q, e) | _ \<Rightarrow> None)
           | _ \<Rightarrow> None)
      | _ \<Rightarrow> None)"

lemma offline_misaligns:
  "heap_ok demo_env demo_heap \<and> offline_alloc_free demo_env demo_offline 4 demo_heap = Some (7, List_corruption)"
proof (intro conjI)
  show "offline_alloc_free demo_env demo_offline 4 demo_heap = Some (7, List_corruption)" by code_simp
qed (rule demo_ok)

end
