(* ===== verification/Page_Domain.thy ===== *)
theory Page_Domain
  imports Page_Properties
begin

unbundle bit_operations_syntax

text \<open>
  The allocators for domains and for the hypervisor itself on top of the buddy heap, \<open>common/page_alloc.c\<close>:
  pages are assigned to a domain, counted against its limit, and a domain with pages holds a reference on itself.
  The functions are not called from interrupts, which the source asserts.
\<close>

section \<open>Domains\<close>

text \<open>What the allocator uses of \<open>struct domain\<close>.\<close>

record domain_memory =
  dying :: bool
  page_list :: "nat list"
  xenpage_list :: "nat list"
  relmem_list :: "nat list"
  tot_pages :: u32
  max_pages :: u32
  xenheap_pages :: u32
  refs :: u32
  physaddr_bitsize :: nat
  nodes :: node_prefs

text \<open>
  Domains are known by the value that pages store for their owner, which is never 0. \<open>scrubbed\<close> lists the pages
  \<open>scrub_one_page\<close> was called on, \<open>destroyed\<close> the domains \<open>domain_destroy\<close> was called on.
\<close>

record memory_state =
  heap :: heap_state
  domains :: "nat \<rightharpoonup> domain_memory"
  scrubbed :: "nat list"
  destroyed :: "nat list"

record domheap_env =
  dma_bitsize :: nat
  dom_cow :: nat

definition MEMF_no_refcount :: "u32 \<Rightarrow> bool" where "MEMF_no_refcount memflags \<longleftrightarrow> bit memflags 0"

definition MEMF_no_dma :: "u32 \<Rightarrow> bool" where "MEMF_no_dma memflags \<longleftrightarrow> bit memflags 3"

definition PGT_count :: "page_info \<Rightarrow> nat" where "PGT_count x = type_info x mod 2 ^ 55"

definition get_knownalive :: "domain_memory \<Rightarrow> domain_memory result" where
  "get_knownalive d =
     (let d = d\<lparr>refs := refs d + 1\<rparr> in if bit (refs d) 31 then Inl Assert_failed else Inr d)"

definition put_dom :: "nat \<Rightarrow> memory_state \<Rightarrow> memory_state result" where
  "put_dom dp s =
     (case domains s dp of
        None \<Rightarrow> Inl Use_after_free
      | Some d \<Rightarrow>
          let d = d\<lparr>refs := refs d - 1\<rparr>
          in Inr (s\<lparr>domains := (domains s)(dp \<mapsto> d), destroyed := destroyed s @ (if refs d = 0 then [dp] else [])\<rparr>))"

section \<open>Assigning pages\<close>

definition assigned :: "nat \<Rightarrow> page_info \<Rightarrow> page_info" where
  "assigned dp x = (page_set_owner (Some dp) (set_count_info PGC_state_inuse False x))\<lparr>pgc_allocated := True, pgc_rest := 1\<rparr>"

definition assign_page :: "nat \<Rightarrow> nat \<Rightarrow> memory_state \<Rightarrow> memory_state result" where
  "assign_page dp m s =
     (let x = frame_table (heap s) m in
      if page_get_owner x \<noteq> None then Inl Assert_failed
      else if pgc_state x \<noteq> PGC_state_inuse \<or> pgc_broken x \<or> pgc_xen_heap x \<or> pgc_rest x > 1 then Inl Assert_failed
      else
        (case domains s dp of
           None \<Rightarrow> Inl Use_after_free
         | Some d \<Rightarrow> Inr (s\<lparr>heap := put_page m (assigned dp) (heap s), domains := (domains s)(dp \<mapsto> d\<lparr>page_list := page_list d @ [m]\<rparr>)\<rparr>)))"

definition assign_pages :: "nat \<Rightarrow> nat \<Rightarrow> nat \<Rightarrow> u32 \<Rightarrow> memory_state \<Rightarrow> (int \<times> memory_state) result" where
  "assign_pages dp pg order memflags s =
     (case domains s dp of
        None \<Rightarrow> Inl Use_after_free
      | Some d \<Rightarrow>
          if dying d then Inr (- 1, s)
          else if \<not> MEMF_no_refcount memflags \<and> tot_pages d + push_bit order 1 > max_pages d then Inr (- 1, s)
          else
            bindR (if MEMF_no_refcount memflags then Inr d
                   else bindR (if tot_pages d = 0 then get_knownalive d else Inr d) (\<lambda>d.
                     Inr (d\<lparr>tot_pages := tot_pages d + push_bit order 1\<rparr>))) (\<lambda>d.
            bindR (for_loop (assign_page dp) [pg..<pg + 2 ^ order] (s\<lparr>domains := (domains s)(dp \<mapsto> d)\<rparr>)) (\<lambda>s.
              Inr (0, s))))"

definition domain_clamp_alloc_bitsize :: "domain_memory option \<Rightarrow> nat \<Rightarrow> nat" where
  "domain_clamp_alloc_bitsize d bits =
     (case d of None \<Rightarrow> bits | Some d \<Rightarrow> if physaddr_bitsize d = 0 then bits else min (physaddr_bitsize d) bits)"

definition bits_to_zone :: "nat \<Rightarrow> nat" where "bits_to_zone b = (if b < 13 then 0 else b - 13)"

text \<open>The call of \<open>alloc_heap_pages\<close>, which also stores the node in the domain.\<close>

definition heap_alloc ::
  "heap_env \<Rightarrow> nat option \<Rightarrow> nat \<Rightarrow> nat \<Rightarrow> nat \<Rightarrow> u32 \<Rightarrow> memory_state \<Rightarrow> (nat option \<times> memory_state) result option" where
  "heap_alloc env dp zone_lo zone_hi order memflags s =
     (let d = Option.bind dp (domains s) in
      bindO (alloc_heap_pages env zone_lo zone_hi order memflags (map_option nodes d) (heap s)) (\<lambda>(r, h).
        case r of
          None \<Rightarrow> Some (Inr (None, s\<lparr>heap := h\<rparr>))
        | Some (pg, node, _) \<Rightarrow>
            Some (Inr (Some pg, s\<lparr>heap := h,
              domains := (case (dp, d) of
                  (Some dp, Some d) \<Rightarrow> (domains s)(dp \<mapsto> d\<lparr>nodes := (nodes d)\<lparr>last_alloc_node := node\<rparr>\<rparr>)
                | _ \<Rightarrow> domains s)\<rparr>))))"

text \<open>The highest zone for the width of addresses asked for, clamped to what the domain can use.\<close>

definition highest_zone :: "domain_memory option \<Rightarrow> u32 \<Rightarrow> nat" where
  "highest_zone d memflags =
     (let bits = unat (drop_bit 24 memflags);
          bits = domain_clamp_alloc_bitsize d (if bits = 0 then 64 + 12 else bits)
      in min (bits_to_zone bits) (NR_ZONES - 1))"

text \<open>The pages found are assigned to the domain, or go back.\<close>

definition assign_or_free ::
  "heap_env \<Rightarrow> nat option \<Rightarrow> nat \<Rightarrow> u32 \<Rightarrow> nat option \<times> memory_state \<Rightarrow> (nat option \<times> memory_state) result option" where
  "assign_or_free env dp order memflags ps =
     (case ps of (pg, s) \<Rightarrow>
        case (pg, dp) of
          (Some p, Some dp) \<Rightarrow>
            bindO (Some (assign_pages dp p order memflags s)) (\<lambda>(r, s).
              if r \<noteq> 0 then bindO (free_heap_pages env p order (heap s)) (\<lambda>h. Some (Inr (None, s\<lparr>heap := h\<rparr>)))
              else Some (Inr (Some p, s)))
        | _ \<Rightarrow> Some (Inr (pg, s)))"

definition alloc_domheap_pages ::
  "heap_env \<Rightarrow> domheap_env \<Rightarrow> nat option \<Rightarrow> nat \<Rightarrow> u32 \<Rightarrow> memory_state \<Rightarrow> (nat option \<times> memory_state) result option" where
  "alloc_domheap_pages env de dp order memflags s =
     (let d = Option.bind dp (domains s);
          zone_hi = highest_zone d memflags;
          dma_zone = bits_to_zone (dma_bitsize de)
      in
      if dp \<noteq> None \<and> d = None then Some (Inl Use_after_free)
      else if zone_hi = 0 then Some (Inr (None, s))
      else
        bindO (if dma_bitsize de \<noteq> 0 \<and> dma_zone < zone_hi then heap_alloc env dp (dma_zone + 1) zone_hi order memflags s
               else Some (Inr (None, s))) (\<lambda>(pg, s).
        bindO (if pg \<noteq> None then Some (Inr (pg, s))
               else if MEMF_no_dma memflags then Some (Inr (None, s))
               else heap_alloc env dp (MEMZONE_XEN + 1) zone_hi order memflags s)
          (assign_or_free env dp order memflags)))"

section \<open>Freeing pages\<close>

text \<open>\<open>page_list_del2\<close>: the page is on one of the two lists.\<close>

definition page_list_del2 :: "nat \<Rightarrow> nat list \<Rightarrow> nat list \<Rightarrow> (nat list \<times> nat list) result" where
  "page_list_del2 m l1 l2 =
     (if m \<in> set l1 then Inr (remove1 m l1, l2) else if m \<in> set l2 then Inr (l1, remove1 m l2) else Inl List_corruption)"

definition drop_xen_page :: "nat \<Rightarrow> domain_memory \<Rightarrow> domain_memory result" where
  "drop_xen_page m d = bindR (page_list_del2 m (xenpage_list d) (relmem_list d)) (\<lambda>(x, l). Inr (d\<lparr>xenpage_list := x, relmem_list := l\<rparr>))"

definition drop_dom_page :: "heap_state \<Rightarrow> nat \<Rightarrow> domain_memory \<Rightarrow> domain_memory result" where
  "drop_dom_page h m d =
     (if PGT_count (frame_table h m) \<noteq> 0 then Inl Bug_on
      else bindR (page_list_del2 m (page_list d) (relmem_list d)) (\<lambda>(x, l). Inr (d\<lparr>page_list := x, relmem_list := l\<rparr>)))"

definition free_domheap_pages :: "heap_env \<Rightarrow> domheap_env \<Rightarrow> nat \<Rightarrow> nat \<Rightarrow> memory_state \<Rightarrow> memory_state result option" where
  "free_domheap_pages env de pg order s =
     (let x = frame_table (heap s) pg;
          dp = page_get_owner x;
          pages = [pg..<pg + 2 ^ order];
          to_heap = (\<lambda>order s. bindO (free_heap_pages env pg order (heap s)) (\<lambda>h. Some (Inr (s\<lparr>heap := h\<rparr>))))
      in
      if pgc_xen_heap x then
        (case dp of
           None \<Rightarrow> Some (Inl Null_deref)
         | Some dp \<Rightarrow>
             (case domains s dp of
                None \<Rightarrow> Some (Inl Use_after_free)
              | Some d \<Rightarrow>
                  Some (bindR (for_loop drop_xen_page pages d) (\<lambda>d.
                    let d = d\<lparr>xenheap_pages := xenheap_pages d - push_bit order 1\<rparr>;
                        s = s\<lparr>domains := (domains s)(dp \<mapsto> d)\<rparr>
                    in if xenheap_pages d = 0 then put_dom dp s else Inr s))))
      else
        (case dp of
           Some dp \<Rightarrow>
             if dp = dom_cow de then
               if order \<noteq> 0 then Some (Inl Assert_failed) else to_heap 0 (s\<lparr>scrubbed := scrubbed s @ [pg]\<rparr>)
             else
               (case domains s dp of
                  None \<Rightarrow> Some (Inl Use_after_free)
                | Some d \<Rightarrow>
                    bindO (Some (for_loop (drop_dom_page (heap s)) pages d)) (\<lambda>d.
                    let d = d\<lparr>tot_pages := tot_pages d - push_bit order 1\<rparr>;
                        s = s\<lparr>domains := (domains s)(dp \<mapsto> d), scrubbed := scrubbed s @ (if dying d then pages else [])\<rparr>
                    in bindO (to_heap order s) (\<lambda>s. Some (if tot_pages d = 0 then put_dom dp s else Inr s))))
         | None \<Rightarrow> to_heap order s))"

section \<open>The hypervisor's heap\<close>

definition alloc_xenheap_pages :: "heap_env \<Rightarrow> domheap_env \<Rightarrow> nat \<Rightarrow> u32 \<Rightarrow> memory_state \<Rightarrow> (nat option \<times> memory_state) result option" where
  "alloc_xenheap_pages env de order memflags s =
     bindO (alloc_domheap_pages env de None order memflags s) (\<lambda>(pg, s).
       case pg of
         None \<Rightarrow> Some (Inr (None, s))
       | Some p \<Rightarrow> Some (Inr (Some p, s\<lparr>heap := fold (\<lambda>m. put_page m (\<lambda>x. x\<lparr>pgc_xen_heap := True\<rparr>)) [p..<p + 2 ^ order] (heap s)\<rparr>)))"

definition free_xenheap_pages :: "heap_env \<Rightarrow> nat option \<Rightarrow> nat \<Rightarrow> memory_state \<Rightarrow> memory_state result option" where
  "free_xenheap_pages env v order s =
     (case v of
        None \<Rightarrow> Some (Inr s)
      | Some p \<Rightarrow>
          bindO (free_heap_pages env p order (fold (\<lambda>m. put_page m (\<lambda>x. x\<lparr>pgc_xen_heap := False\<rparr>)) [p..<p + 2 ^ order] (heap s))) (\<lambda>h.
            Some (Inr (s\<lparr>heap := h\<rparr>))))"

section \<open>Counting free memory\<close>

definition clamp_zone :: "int \<Rightarrow> nat" where
  "clamp_zone z = nat (max (int MEMZONE_XEN + 1) (min (int NR_ZONES - 1) z))"

definition avail_domheap_pages_region :: "heap_env \<Rightarrow> nat option \<Rightarrow> nat \<Rightarrow> nat \<Rightarrow> memory_state \<Rightarrow> nat" where
  "avail_domheap_pages_region env node min_width max_width s =
     avail_heap_pages env
       (clamp_zone (if min_width = 0 then int MEMZONE_XEN + 1 else int (bits_to_zone min_width)))
       (clamp_zone (if max_width = 0 then int NR_ZONES - 1 else int (bits_to_zone max_width))) node (heap s)"

definition avail_domheap_pages :: "heap_env \<Rightarrow> memory_state \<Rightarrow> nat" where
  "avail_domheap_pages env s = avail_heap_pages env (MEMZONE_XEN + 1) (NR_ZONES - 1) None (heap s)"

definition avail_node_heap_pages :: "heap_env \<Rightarrow> nat \<Rightarrow> memory_state \<Rightarrow> nat" where
  "avail_node_heap_pages env nodeid s = avail_heap_pages env MEMZONE_XEN (NR_ZONES - 1) (Some nodeid) (heap s)"

end
