(* ===== verification/Page_Owner.thy ===== *)
theory Page_Owner
  imports Page_Domain
begin

unbundle bit_operations_syntax

text \<open>
  The accounts of domains: every page of a domain is owned by it and in use, the count of pages and the reference
  are exact, and allocating and freeing move pages between the heap and the domains without losing any.
\<close>

section \<open>Pages in use do not concern the heap\<close>

lemma heap_ok_used:
  assumes ok: "heap_ok env s" and S: "S \<inter> free_set s = {}" and f: "\<And>x. pgc_state (f x) = PGC_state_inuse"
  shows "heap_ok env (map_frames S f s)" "free_set (map_frames S f s) = free_set s"
proof -
  have st: "m \<in> free_set s \<Longrightarrow> m \<notin> S" for m using S by blast
  show F: "free_set (map_frames S f s) = free_set s" using st f by (auto simp: free_set_def)
  have "lists_ok env (map_frames S f s) {}"
    by (rule lists_ok_reframe[of env s "{}"]) (use ok F st in \<open>auto simp: heap_ok_def\<close>)
  moreover have "counters_ok env (map_frames S f s)" using ok F by (simp add: heap_ok_def counters_ok_def)
  ultimately show "heap_ok env (map_frames S f s)" by (simp add: heap_ok_def)
qed

section \<open>Assigning pages\<close>

definition assignable :: "page_info \<Rightarrow> bool" where
  "assignable x \<longleftrightarrow> v_raw x = 0 \<and> pgc_state x = PGC_state_inuse \<and> \<not> pgc_broken x \<and> \<not> pgc_xen_heap x \<and> pgc_rest x \<le> 1"

lemma assign_loop:
  assumes "distinct ms" "\<forall>m\<in>set ms. assignable (frame_table (heap s) m)" "domains s dp = Some d"
  shows "for_loop (assign_page dp) ms s =
    Inr (s\<lparr>heap := map_frames (set ms) (assigned dp) (heap s), domains := (domains s)(dp \<mapsto> d\<lparr>page_list := page_list d @ ms\<rparr>)\<rparr>)"
  using assms
proof (induction ms arbitrary: s d)
  case Nil
  then have "(domains s)(dp \<mapsto> d) = domains s" by auto
  then show ?case by (simp add: map_frames_def)
next
  case (Cons m ms)
  let ?t = "s\<lparr>heap := put_page m (assigned dp) (heap s), domains := (domains s)(dp \<mapsto> d\<lparr>page_list := page_list d @ [m]\<rparr>)\<rparr>"
  have "assign_page dp m s = Inr ?t" using Cons.prems(2,3) by (simp add: assign_page_def assignable_def page_get_owner_def Let_def)
  moreover have "for_loop (assign_page dp) ms ?t =
      Inr (?t\<lparr>heap := map_frames (set ms) (assigned dp) (heap ?t),
        domains := (domains ?t)(dp \<mapsto> (d\<lparr>page_list := page_list d @ [m]\<rparr>)\<lparr>page_list := page_list (d\<lparr>page_list := page_list d @ [m]\<rparr>) @ ms\<rparr>)\<rparr>)"
    by (rule Cons.IH) (use Cons.prems in auto)
  ultimately show ?case using Cons.prems(1) by (simp add: map_frames_put) (simp add: fun_upd_def)
qed

text \<open>A domain's limit.\<close>

definition has_room :: "nat \<Rightarrow> domain_memory \<Rightarrow> bool" where
  "has_room order d \<longleftrightarrow> \<not> dying d \<and> unat (tot_pages d) + 2 ^ order \<le> unat (max_pages d)"

lemma order_word:
  assumes "order \<le> MAX_ORDER" "n + 2 ^ MAX_ORDER < 2 ^ 32" "unat (t :: u32) = n"
  shows "unat (t + push_bit order 1) = n + 2 ^ order"
proof -
  have "(2 :: nat) ^ order \<le> 2 ^ MAX_ORDER" using assms(1) by (simp add: power_increasing)
  then have le: "n + 2 ^ order < 2 ^ 32" using assms(2) by linarith
  then have "(2 :: nat) ^ order < 2 ^ 32" by linarith
  moreover have "order < 32" using assms(1) by (simp add: MAX_ORDER_def)
  ultimately have "unat (push_bit order (1 :: u32)) = 2 ^ order"
    by (simp only: unsigned_push_bit_eq unsigned_1) (simp add: take_bit_nat_eq_self push_bit_eq_mult)
  then show ?thesis using le assms(3) by (simp add: unat_word_ariths)
qed


section \<open>The accounts\<close>

definition dom_pages :: "domain_memory \<Rightarrow> nat list" where "dom_pages d = page_list d @ relmem_list d"

definition dom_page :: "heap_env \<Rightarrow> heap_state \<Rightarrow> nat \<Rightarrow> nat \<Rightarrow> bool" where
  "dom_page env h dp m \<longleftrightarrow> owned_block env h m 0 \<and> v_raw (frame_table h m) = dp \<and> PGT_count (frame_table h m) = 0"

text \<open>\<open>other\<close> is the number of references held for other reasons than having pages.\<close>

definition account_ok :: "heap_env \<Rightarrow> heap_state \<Rightarrow> nat \<Rightarrow> nat \<Rightarrow> domain_memory \<Rightarrow> bool" where
  "account_ok env h other dp d \<longleftrightarrow> 0 < dp \<and> (\<forall>m\<in>set (dom_pages d). dom_page env h dp m) \<and> distinct (dom_pages d) \<and>
     unat (tot_pages d) = length (dom_pages d) \<and> tot_pages d \<le> max_pages d \<and>
     0 < other \<and> other + 1 < 2 ^ 31 \<and> unat (refs d) = other + (if dom_pages d = [] then 0 else 1) \<and> nodes_ok (node_affinity (nodes d))"

definition env_ok :: "heap_env \<Rightarrow> bool" where
  "env_ok env \<longleftrightarrow> nodes_ok (node_online_map env) \<and> cpu_node env < MAX_NUMNODES \<and> \<not> opt_tmem env"

definition pages_at :: "(nat \<rightharpoonup> domain_memory) \<Rightarrow> nat \<Rightarrow> nat list" where
  "pages_at D x = (case D x of None \<Rightarrow> [] | Some d \<Rightarrow> dom_pages d)"

definition all_pages :: "memory_state \<Rightarrow> nat set" where
  "all_pages s = (\<Union>x. set (pages_at (domains s) x))"

text \<open>\<open>U\<close> are all pages, free or with a domain; there are few enough of them that counts do not wrap.\<close>

definition mem_ok :: "heap_env \<Rightarrow> domheap_env \<Rightarrow> (nat \<Rightarrow> nat) \<Rightarrow> nat set \<Rightarrow> memory_state \<Rightarrow> bool" where
  "mem_ok env de other U s \<longleftrightarrow> env_ok env \<and> heap_ok env (heap s) \<and> finite U \<and> card U + 2 ^ MAX_ORDER < 2 ^ 32 \<and>
     domains s (dom_cow de) = None \<and> (\<forall>dp d. domains s dp = Some d \<longrightarrow> account_ok env (heap s) (other dp) dp d) \<and>
     free_set (heap s) \<union> all_pages s = U"

lemma mem_okD:
  assumes "mem_ok env de other U s"
  shows "env_ok env" "heap_ok env (heap s)" "finite U" "card U + 2 ^ MAX_ORDER < 2 ^ 32" "domains s (dom_cow de) = None"
    "\<And>dp d. domains s dp = Some d \<Longrightarrow> account_ok env (heap s) (other dp) dp d" "free_set (heap s) \<union> all_pages s = U"
  using assms by (simp_all add: mem_ok_def)

lemma dom_page_used: "dom_page env h dp m \<Longrightarrow> m \<notin> free_set h"
  unfolding dom_page_def using owned_block_used[of env h m 0] span_self[of m 0] by blast

lemma account_pages: "account_ok env h other dp d \<Longrightarrow> m \<in> set (dom_pages d) \<Longrightarrow> dom_page env h dp m"
  by (simp add: account_ok_def)

text \<open>A page belongs to one domain only.\<close>

lemma owner_unique:
  assumes "mem_ok env de other U s" "domains s dp = Some d" "domains s dp' = Some d'" "m \<in> set (dom_pages d)" "m \<in> set (dom_pages d')"
  shows "dp = dp'"
  using account_pages[OF mem_okD(6)[OF assms(1,2)] assms(4)] account_pages[OF mem_okD(6)[OF assms(1,3)] assms(5)]
  by (simp add: dom_page_def)

text \<open>Accounts only depend on the pages of the domain.\<close>

lemma dom_page_cong:
  assumes "dom_page env h dp m" "frame_table h' m = frame_table h m" "\<And>n. avail h' n = None \<longleftrightarrow> avail h n = None"
  shows "dom_page env h' dp m"
proof -
  have "span m 0 = {m}" by (auto simp: span_def)
  then show ?thesis using assms by (simp add: dom_page_def owned_block_def)
qed

lemma account_cong:
  assumes "account_ok env h other dp d" "\<And>m. m \<in> set (dom_pages d) \<Longrightarrow> frame_table h' m = frame_table h m"
    "\<And>n. avail h' n = None \<longleftrightarrow> avail h n = None"
  shows "account_ok env h' other dp d"
  using assms dom_page_cong[of env h dp _ h'] unfolding account_ok_def by blast

lemma account_length:
  assumes "mem_ok env de other U s" "domains s dp = Some d"
  shows "length (dom_pages d) \<le> card U"
proof -
  have "set (dom_pages d) \<subseteq> all_pages s" using assms(2) by (auto simp: all_pages_def pages_at_def intro!: exI[of _ dp])
  also have "\<dots> \<subseteq> U" using mem_okD(7)[OF assms(1)] by blast
  finally have "card (set (dom_pages d)) \<le> card U" by (rule card_mono[OF mem_okD(3)[OF assms(1)]])
  moreover have "distinct (dom_pages d)" using mem_okD(6)[OF assms] by (simp add: account_ok_def)
  ultimately show ?thesis by (simp add: distinct_card)
qed

section \<open>Allocating for a domain\<close>

text \<open>What the memory looks like between taking pages from the heap and assigning them.\<close>

definition grabbed :: "heap_env \<Rightarrow> memory_state \<Rightarrow> nat \<Rightarrow> nat \<Rightarrow> heap_state \<Rightarrow> bool" where
  "grabbed env s q order h \<longleftrightarrow> heap_ok env h \<and> owned_block env h q order \<and> span q order \<subseteq> free_set (heap s) \<and>
     free_set h = free_set (heap s) - span q order \<and> outside_same (free_set (heap s)) (heap s) h \<and>
     (\<forall>m\<in>span q order. fresh_page (frame_table h m))"

definition with_node :: "nat option \<Rightarrow> nat \<Rightarrow> (nat \<rightharpoonup> domain_memory) \<Rightarrow> nat \<rightharpoonup> domain_memory" where
  "with_node dp node D =
     (case dp of None \<Rightarrow> D
      | Some dp \<Rightarrow> (case D dp of None \<Rightarrow> D | Some d \<Rightarrow> D(dp \<mapsto> d\<lparr>nodes := (nodes d)\<lparr>last_alloc_node := node\<rparr>\<rparr>)))"

definition node_field_ok :: "u32 \<Rightarrow> bool" where
  "node_field_ok memflags \<longleftrightarrow> (let n = unat (ucast (drop_bit 8 memflags - 1) :: u8) in n = NUMA_NO_NODE \<or> n < MAX_NUMNODES)"

lemma request_nodes:
  assumes e: "env_ok env" and n: "node_field_ok memflags" and p: "\<And>x. p = Some x \<Longrightarrow> nodes_ok (node_affinity x)"
  shows "request_ok env memflags p"
  using assms by (auto simp: request_ok_def env_ok_def node_field_ok_def first_choice_def Let_def split: option.splits if_splits)

lemma heap_alloc_ok:
  assumes ok: "mem_ok env de other U s" and n: "node_field_ok memflags" and z: "zone_lo \<le> zone_hi" "zone_hi < NR_ZONES"
  shows "heap_alloc env dp zone_lo zone_hi order memflags s = Some (Inr (None, s)) \<or>
    (\<exists>q node h. heap_alloc env dp zone_lo zone_hi order memflags s =
       Some (Inr (Some q, s\<lparr>heap := h, domains := with_node dp node (domains s)\<rparr>)) \<and> grabbed env s q order h)"
proof -
  let ?p = "map_option nodes (Option.bind dp (domains s))"
  have "nodes_ok (node_affinity x)" if "?p = Some x" for x
    using that mem_okD(6)[OF ok] by (cases dp) (auto simp: account_ok_def)
  then have rq: "request_ok env memflags ?p" using request_nodes[OF mem_okD(1)[OF ok] n] by blast
  consider "alloc_heap_pages env zone_lo zone_hi order memflags ?p (heap s) = Some (Inr (None, heap s))"
    | q fl h where "alloc_heap_pages env zone_lo zone_hi order memflags ?p (heap s) = Some (Inr (Some (q, phys_to_nid env q, fl), h))"
      "grabbed env s q order h"
  proof (cases "order \<le> MAX_ORDER")
    case True
    show ?thesis
      using alloc_heap_pages_ok[OF mem_okD(2)[OF ok] rq z True] that unfolding grabbed_def free_run_def by blast
  next
    case False
    then have "alloc_heap_pages env zone_lo zone_hi order memflags ?p (heap s) = Some (Inr (None, heap s))"
      using z by (simp add: alloc_heap_pages_def not_le split: prod.splits)
    then show ?thesis using that by blast
  qed
  then show ?thesis
  proof cases
    case 1
    then show ?thesis by (simp add: heap_alloc_def Let_def)
  next
    case 2
    have "heap_alloc env dp zone_lo zone_hi order memflags s =
        Some (Inr (Some q, s\<lparr>heap := h, domains := with_node dp (phys_to_nid env q) (domains s)\<rparr>))"
      using 2(1) by (auto simp: heap_alloc_def with_node_def Let_def split: option.splits)
    then show ?thesis using 2(2) by blast
  qed
qed

text \<open>The node that is remembered does not matter for the accounts.\<close>

lemma with_node_cases:
  assumes "with_node dp node D x = Some d'"
  shows "\<exists>d. D x = Some d \<and> (d' = d \<or> d' = d\<lparr>nodes := (nodes d)\<lparr>last_alloc_node := node\<rparr>\<rparr>)"
  using assms by (auto simp: with_node_def split: option.splits if_splits)

lemma pages_with_node: "pages_at (with_node dp node D) x = pages_at D x"
  by (simp add: pages_at_def with_node_def dom_pages_def split: option.splits)

lemma all_pages_with_node: "all_pages (s\<lparr>heap := h, domains := with_node dp node (domains s)\<rparr>) = all_pages s"
  by (simp add: all_pages_def pages_with_node)

lemma owned_page:
  assumes "owned_block env h q order" "m \<in> span q order"
  shows "owned_block env h m 0"
proof -
  have q: "0 < q" "2 ^ order dvd q" "zone_of q < NR_ZONES" "phys_to_nid env q < MAX_NUMNODES" "avail h (phys_to_nid env q) \<noteq> None"
    and m: "frame_valid env m" "phys_to_nid env m = phys_to_nid env q" "pgc_state (frame_table h m) = PGC_state_inuse"
      "\<not> pgc_broken (frame_table h m)" "\<not> pgc_xen_heap (frame_table h m)"
    using assms unfolding owned_block_def by blast+
  have z: "zone_of m = zone_of q" by (rule zone_of_span[OF q(2,1) assms(2)])
  have "q \<le> m" using assms(2) by (simp add: span_def)
  moreover have "span m 0 = {m}" by (auto simp: span_def)
  ultimately show ?thesis using q m(1,3,4,5) unfolding owned_block_def m(2) z by (simp add: m(2))
qed

text \<open>A heap that changed outside the pages of the domains only.\<close>

lemma accounts_same:
  assumes ok: "mem_ok env de other U s" and d: "domains s x = Some d" and o: "outside_same (free_set (heap s)) (heap s) h"
  shows "account_ok env h (other x) x d"
proof (rule account_cong[OF mem_okD(6)[OF ok d]])
  show "frame_table h m = frame_table (heap s) m" if "m \<in> set (dom_pages d)" for m
    using dom_page_used[OF account_pages[OF mem_okD(6)[OF ok d] that]] o unfolding outside_same_def by blast
  show "avail h n = None \<longleftrightarrow> avail (heap s) n = None" for n using o unfolding outside_same_def by blast
qed

lemma account_node: "account_ok env h other dp (d\<lparr>nodes := (nodes d)\<lparr>last_alloc_node := node\<rparr>\<rparr>) = account_ok env h other dp d"
  by (simp add: account_ok_def dom_pages_def)

lemma accounts_with_node:
  assumes ok: "mem_ok env de other U s" and o: "outside_same (free_set (heap s)) (heap s) h" and d: "with_node dp node (domains s) x = Some d"
  shows "account_ok env h (other x) x d"
  using with_node_cases[OF d] accounts_same[OF ok _ o] account_node by metis

text \<open>Giving the pages back leaves everything as it was, but for the node.\<close>

lemma grabbed_back:
  assumes ok: "mem_ok env de other U s" and g: "grabbed env s q order h"
  shows "\<exists>h'. free_heap_pages env q order h = Some (Inr h') \<and> free_set h' = free_set (heap s) \<and>
    mem_ok env de other U (s\<lparr>heap := h', domains := with_node dp node (domains s)\<rparr>)"
proof -
  have G: "heap_ok env h" "owned_block env h q order" "span q order \<subseteq> free_set (heap s)" "free_set h = free_set (heap s) - span q order"
    "outside_same (free_set (heap s)) (heap s) h" using g unfolding grabbed_def by blast+
  from free_heap_pages_ok[OF G(1,2)] obtain h' where h': "free_heap_pages env q order h = Some (Inr h')" "heap_ok env h'"
    "free_set h' = free_set h \<union> span q order" "outside_same (free_set h') h h'" by blast
  have F: "free_set h' = free_set (heap s)" using G(3,4) h'(3) by blast
  have o: "outside_same (free_set (heap s)) (heap s) h'" using G(5) h'(4) unfolding outside_same_def F by simp
  have cow: "with_node dp node (domains s) (dom_cow de) = None" using mem_okD(5)[OF ok] with_node_cases by (metis option.exhaust option.distinct(1))
  show ?thesis
    using h'(1,2) F mem_okD[OF ok] accounts_with_node[OF ok o] all_pages_with_node[where s = s and h = h' and dp = dp and node = node] cow
    by (intro exI[of _ h']) (simp add: mem_ok_def)
qed

text \<open>The domain after it was given pages.\<close>

definition given :: "nat \<Rightarrow> nat list \<Rightarrow> domain_memory \<Rightarrow> domain_memory" where
  "given order ms d = d\<lparr>refs := (if tot_pages d = 0 then refs d + 1 else refs d), tot_pages := tot_pages d + push_bit order 1,
     page_list := page_list d @ ms\<rparr>"

lemma given_nodes: "given order ms (d\<lparr>nodes := x\<rparr>) = (given order ms d)\<lparr>nodes := x\<rparr>"
  by (simp add: given_def)

lemma tot_pages_zero: "account_ok env h other dp d \<Longrightarrow> tot_pages d = 0 \<longleftrightarrow> dom_pages d = []"
  unfolding account_ok_def by (metis length_0_conv unat_eq_zero)

lemma not_high_bit:
  assumes "unat (r :: u32) < 2 ^ 31"
  shows "\<not> bit r 31"
proof -
  have "\<not> bit (unat r) 31" using assms by (simp add: bit_iff_odd)
  then show ?thesis by (simp add: bit_unsigned_iff)
qed

lemma all_pages_split: "all_pages s = set (pages_at (domains s) dp) \<union> (\<Union>x\<in>- {dp}. set (pages_at (domains s) x))"
  by (auto simp: all_pages_def)

lemma pages_at_upd: "pages_at (D(dp \<mapsto> d)) x = (if x = dp then dom_pages d else pages_at D x)"
  by (simp add: pages_at_def)

text \<open>Whether the pages are assigned depends on the limit only.\<close>

lemma assign_pages_run:
  assumes d: "domains t dp = Some d" and rc: "\<not> MEMF_no_refcount memflags" and o: "order \<le> MAX_ORDER"
    and n: "unat (tot_pages d) + 2 ^ MAX_ORDER < 2 ^ 32" and r: "tot_pages d = 0 \<Longrightarrow> unat (refs d) + 1 < 2 ^ 31"
    and a: "\<forall>m\<in>span q order. assignable (frame_table (heap t) m)"
  shows "assign_pages dp q order memflags t =
    (if has_room order d
     then Inr (0, t\<lparr>heap := map_frames (span q order) (assigned dp) (heap t), domains := (domains t)(dp \<mapsto> given order [q..<q + 2 ^ order] d)\<rparr>)
     else Inr (- 1, t))"
proof -
  let ?t = "tot_pages d + push_bit order 1"
  have t: "unat ?t = unat (tot_pages d) + 2 ^ order" by (rule order_word[OF o n refl])
  have room: "has_room order d \<longleftrightarrow> \<not> dying d \<and> \<not> max_pages d < ?t"
    unfolding has_room_def word_less_nat_alt t by auto
  have "\<not> bit (refs d + 1) 31" if "tot_pages d = 0"
  proof -
    have "unat (refs d + 1) = unat (refs d) + 1" using r[OF that] by (simp add: unat_word_ariths)
    then show ?thesis using r[OF that] not_high_bit by simp
  qed
  then have g: "(if tot_pages d = 0 then get_knownalive d else Inr d) = Inr (d\<lparr>refs := (if tot_pages d = 0 then refs d + 1 else refs d)\<rparr>)"
    by (simp add: get_knownalive_def Let_def)
  let ?d = "d\<lparr>refs := (if tot_pages d = 0 then refs d + 1 else refs d), tot_pages := ?t\<rparr>"
  let ?u = "t\<lparr>domains := (domains t)(dp \<mapsto> ?d)\<rparr>"
  have "for_loop (assign_page dp) [q..<q + 2 ^ order] ?u =
      Inr (?u\<lparr>heap := map_frames (span q order) (assigned dp) (heap ?u),
        domains := (domains ?u)(dp \<mapsto> ?d\<lparr>page_list := page_list ?d @ [q..<q + 2 ^ order]\<rparr>)\<rparr>)"
    unfolding set_span[symmetric] by (rule assign_loop) (use a in \<open>simp_all add: set_span del: set_upt\<close>)
  then show ?thesis
    using d rc room g by (auto simp: assign_pages_def given_def)
qed

lemma assign_grabbed:
  fixes node :: nat
  assumes ok: "mem_ok env de other U s" and d: "domains s dp = Some d" and g: "grabbed env s q order h" and rm: "has_room order d"
  defines "d' \<equiv> (given order [q..<q + 2 ^ order] d)\<lparr>nodes := (nodes d)\<lparr>last_alloc_node := node\<rparr>\<rparr>"
  shows "mem_ok env de other U (s\<lparr>heap := map_frames (span q order) (assigned dp) h, domains := (domains s)(dp \<mapsto> d')\<rparr>)"
proof -
  let ?S = "span q order" and ?h = "map_frames (span q order) (assigned dp) h"
  have G: "heap_ok env h" "owned_block env h q order" "?S \<subseteq> free_set (heap s)" "free_set h = free_set (heap s) - ?S"
    "outside_same (free_set (heap s)) (heap s) h" "\<forall>m\<in>?S. fresh_page (frame_table h m)" using g unfolding grabbed_def by blast+
  have st: "pgc_state (assigned dp x) = PGC_state_inuse" for x by (simp add: assigned_def page_set_owner_def set_count_info_def)
  have dis: "?S \<inter> free_set h = {}" using G(4) by blast
  note H = heap_ok_used[OF G(1) dis st]
  have o: "order \<le> MAX_ORDER" using G(2) by (simp add: owned_block_def)
  have out: "outside_same (free_set (heap s)) (heap s) ?h" using G(3,5) unfolding outside_same_def by auto
  note acc = mem_okD(6)[OF ok d]
  have A: "0 < dp" "unat (tot_pages d) = length (dom_pages d)" "0 < other dp" "other dp + 1 < 2 ^ 31" "nodes_ok (node_affinity (nodes d))"
    "unat (refs d) = other dp + (if dom_pages d = [] then 0 else 1)" "distinct (dom_pages d)"
    using acc unfolding account_ok_def by blast+
  have old: "m \<notin> free_set (heap s)" if "m \<in> set (dom_pages d)" for m by (rule dom_page_used[OF account_pages[OF acc that]])
  have pg: "set (dom_pages d') = set (dom_pages d) \<union> ?S" "length (dom_pages d') = length (dom_pages d) + 2 ^ order"
    using set_span[of q order] by (auto simp: d'_def given_def dom_pages_def simp del: set_upt)
  have "account_ok env ?h (other dp) dp d'"
    unfolding account_ok_def
  proof (intro conjI ballI)
    have n: "length (dom_pages d) + 2 ^ MAX_ORDER < 2 ^ 32" using account_length[OF ok d] mem_okD(4)[OF ok] by linarith
    have t: "unat (tot_pages d') = length (dom_pages d) + 2 ^ order"
      using order_word[OF o n A(2)] by (simp add: d'_def given_def)
    then show "unat (tot_pages d') = length (dom_pages d')" using pg(2) by simp
    show "tot_pages d' \<le> max_pages d'" using rm t A(2) by (simp add: word_le_nat_alt has_room_def) (simp add: d'_def given_def)
    have "dom_pages d' \<noteq> []" using pg(2) by auto
    moreover have "unat (refs d + 1) = unat (refs d) + 1" if "dom_pages d = []" using that A(4,6) by (simp add: unat_word_ariths)
    ultimately show "unat (refs d') = other dp + (if dom_pages d' = [] then 0 else 1)"
      using A(6) tot_pages_zero[OF acc] by (auto simp: d'_def given_def)
    have "set (page_list d) \<inter> ?S = {}" "set (relmem_list d) \<inter> ?S = {}" using old G(3) by (auto simp: dom_pages_def)
    then show "distinct (dom_pages d')"
      using A(7) set_span[of q order] by (auto simp: d'_def given_def dom_pages_def simp del: set_upt)
    show "dom_page env ?h dp m" if m: "m \<in> set (dom_pages d')" for m
    proof (cases "m \<in> ?S")
      case True
      have s0: "span m 0 = {m}" by (auto simp: span_def)
      have "PGT_count (frame_table h m) = 0" using G(6) True by (simp add: PGT_count_def fresh_page_def)
      then show ?thesis using owned_page[OF G(2) True] True A(1)
        by (simp add: dom_page_def owned_block_def s0 assigned_def page_set_owner_def set_count_info_def PGT_count_def)
    next
      case False
      then have "m \<in> set (dom_pages d)" using m pg(1) by blast
      then show ?thesis using account_pages[OF accounts_same[OF ok d out]] by blast
    qed
  qed (use A in \<open>simp_all add: d'_def given_def\<close>)
  moreover have "account_ok env ?h (other x) x e" if "domains s x = Some e" for x e by (rule accounts_same[OF ok that out])
  moreover have "free_set ?h \<union> all_pages (s\<lparr>heap := ?h, domains := (domains s)(dp \<mapsto> d')\<rparr>) = U"
  proof -
    have "all_pages (s\<lparr>heap := ?h, domains := (domains s)(dp \<mapsto> d')\<rparr>) = all_pages s \<union> ?S"
      unfolding all_pages_split[of _ dp] using pg(1) d by (auto simp: pages_at_upd pages_at_def)
    then show ?thesis using H(2) G(3,4) mem_okD(7)[OF ok] by auto
  qed
  moreover have "dp \<noteq> dom_cow de" using mem_okD(5)[OF ok] d by auto
  ultimately show ?thesis using mem_okD[OF ok] H(1) by (simp add: mem_ok_def)
qed

text \<open>The two attempts, above the zone for devices and everywhere.\<close>

lemma two_tries:
  fixes K :: "nat option \<times> memory_state \<Rightarrow> 'a result option" and P Q :: bool and dp :: "nat option" and order dma_zone :: nat
  assumes ok: "mem_ok env de other U s" and n: "node_field_ok memflags" and z: "0 < zone_hi" "zone_hi < NR_ZONES"
  defines "r \<equiv> bindO (if P \<and> dma_zone < zone_hi then heap_alloc env dp (dma_zone + 1) zone_hi order memflags s
       else Some (Inr (None, s))) (\<lambda>(pg, s).
     bindO (if pg \<noteq> None then Some (Inr (pg, s)) else if Q then Some (Inr (None, s))
       else heap_alloc env dp (MEMZONE_XEN + 1) zone_hi order memflags s) K)"
  shows "r = K (None, s) \<or> (\<exists>q node h. r = K (Some q, s\<lparr>heap := h, domains := with_node dp node (domains s)\<rparr>) \<and> grabbed env s q order h)"
proof -
  have snd_try: "bindO (if Q then Some (Inr (None, s)) else heap_alloc env dp (MEMZONE_XEN + 1) zone_hi order memflags s) K = K (None, s) \<or>
    (\<exists>q node h. bindO (if Q then Some (Inr (None, s)) else heap_alloc env dp (MEMZONE_XEN + 1) zone_hi order memflags s) K =
       K (Some q, s\<lparr>heap := h, domains := with_node dp node (domains s)\<rparr>) \<and> grabbed env s q order h)"
    using heap_alloc_ok[OF ok n, of "MEMZONE_XEN + 1" zone_hi dp order] z by (auto simp: MEMZONE_XEN_def)
  show ?thesis
  proof (cases "P \<and> dma_zone < zone_hi")
    case True
    then show ?thesis
      using heap_alloc_ok[OF ok n, of "dma_zone + 1" zone_hi dp order] z(2) snd_try unfolding r_def by (auto simp: Suc_le_eq)
  next
    case False
    then show ?thesis using snd_try unfolding r_def by auto
  qed
qed

lemma fresh_assignable:
  assumes "grabbed env s q order h" "m \<in> span q order"
  shows "assignable (frame_table h m)"
  using assms unfolding grabbed_def owned_block_def by (simp add: assignable_def fresh_page_def)

lemma alloc_dom_ok:
  assumes ok: "mem_ok env de other U s" and d: "domains s dp = Some d" and n: "node_field_ok memflags" and rc: "\<not> MEMF_no_refcount memflags"
  shows "\<exists>r s'. alloc_domheap_pages env de (Some dp) order memflags s = Some (Inr (r, s')) \<and> mem_ok env de other U s' \<and>
    (\<forall>x. domains s' x = None \<longleftrightarrow> domains s x = None) \<and>
    (case r of
       None \<Rightarrow> free_set (heap s') = free_set (heap s) \<and> (\<forall>x. pages_at (domains s') x = pages_at (domains s) x)
     | Some q \<Rightarrow> span q order \<subseteq> free_set (heap s) \<and> free_set (heap s') = free_set (heap s) - span q order \<and> has_room order d \<and>
         (\<exists>d'. domains s' dp = Some d' \<and> page_list d' = page_list d @ [q..<q + 2 ^ order]) \<and>
         (\<forall>x. x \<noteq> dp \<longrightarrow> domains s' x = domains s x))"
proof -
  define z where "z = highest_zone (Some d) memflags"
  let ?r = "alloc_domheap_pages env de (Some dp) order memflags s" and ?K = "assign_or_free env (Some dp) order memflags"
  have none: "?K (None, s) = Some (Inr (None, s))" by (simp add: assign_or_free_def)
  show ?thesis
  proof (cases "z = 0")
    case True
    then have "?r = Some (Inr (None, s))" using d by (simp add: alloc_domheap_pages_def Let_def z_def)
    then show ?thesis using ok by simp
  next
    case False
    have zz: "0 < z" "z < NR_ZONES" using False by (auto simp: z_def highest_zone_def NR_ZONES_def Let_def)
    have bd: "Option.bind (Some dp) (domains s) = Some d" using d by simp
    have eq: "?r = bindO (if dma_bitsize de \<noteq> 0 \<and> bits_to_zone (dma_bitsize de) < z
          then heap_alloc env (Some dp) (bits_to_zone (dma_bitsize de) + 1) z order memflags s else Some (Inr (None, s))) (\<lambda>(pg, s).
        bindO (if pg \<noteq> None then Some (Inr (pg, s)) else if MEMF_no_dma memflags then Some (Inr (None, s))
          else heap_alloc env (Some dp) (MEMZONE_XEN + 1) z order memflags s) ?K)"
      using False unfolding z_def alloc_domheap_pages_def Let_def bd by simp
    have "?r = ?K (None, s) \<or> (\<exists>q node h. ?r = ?K (Some q, s\<lparr>heap := h, domains := with_node (Some dp) node (domains s)\<rparr>) \<and> grabbed env s q order h)"
      unfolding eq by (rule two_tries[OF ok n zz])
    then consider "?r = Some (Inr (None, s))"
      | q node h where "?r = ?K (Some q, s\<lparr>heap := h, domains := with_node (Some dp) node (domains s)\<rparr>)" "grabbed env s q order h"
      unfolding none by blast
    then show ?thesis
    proof cases
      case 1
      then show ?thesis using ok by simp
    next
      case (2 q node h)
      let ?d = "d\<lparr>nodes := (nodes d)\<lparr>last_alloc_node := node\<rparr>\<rparr>"
      let ?t = "s\<lparr>heap := h, domains := (domains s)(dp \<mapsto> ?d)\<rparr>"
      have wn: "with_node (Some dp) node (domains s) = (domains s)(dp \<mapsto> ?d)" using d by (simp add: with_node_def)
      have o: "order \<le> MAX_ORDER" "span q order \<subseteq> free_set (heap s)" "free_set h = free_set (heap s) - span q order"
        using 2(2) unfolding grabbed_def owned_block_def by blast+
      have acc: "unat (tot_pages d) = length (dom_pages d)" "unat (refs d) = other dp + (if dom_pages d = [] then 0 else 1)" "other dp + 1 < 2 ^ 31"
        using mem_okD(6)[OF ok d] unfolding account_ok_def by blast+
      have tot: "unat (tot_pages ?d) + 2 ^ MAX_ORDER < 2 ^ 32" using acc(1) account_length[OF ok d] mem_okD(4)[OF ok] by simp
      have rf: "unat (refs ?d) + 1 < 2 ^ 31" if "tot_pages ?d = 0"
        using that acc(2,3) tot_pages_zero[OF mem_okD(6)[OF ok d]] by simp
      have fa: "\<forall>m\<in>span q order. assignable (frame_table (heap ?t) m)" using fresh_assignable[OF 2(2)] by simp
      note run = assign_pages_run[of ?t dp ?d memflags order q, OF _ rc o(1) tot rf fa]
      show ?thesis
      proof (cases "has_room order d")
        case True
        let ?d' = "given order [q..<q + 2 ^ order] ?d"
        let ?s' = "s\<lparr>heap := map_frames (span q order) (assigned dp) h, domains := (domains s)(dp \<mapsto> ?d')\<rparr>"
        have "assign_pages dp q order memflags ?t = Inr (0, ?s')" using run True by (simp add: has_room_def)
        then have "?r = Some (Inr (Some q, ?s'))" using 2(1) by (simp add: wn assign_or_free_def)
        moreover have "mem_ok env de other U ?s'"
          using assign_grabbed[OF ok d 2(2) True, of node] by (simp only: given_nodes)
        moreover have "free_set (heap ?s') = free_set (heap s) - span q order"
          using heap_ok_used(2)[of env h "span q order" "assigned dp"] 2(2) o(3)
          by (simp add: grabbed_def assigned_def page_set_owner_def set_count_info_def)
        ultimately show ?thesis using d True o(2) by (simp add: given_def)
      next
        case False
        from grabbed_back[OF ok 2(2), of "Some dp" node] obtain h' where h': "free_heap_pages env q order h = Some (Inr h')"
          "free_set h' = free_set (heap s)" "mem_ok env de other U (s\<lparr>heap := h', domains := (domains s)(dp \<mapsto> ?d)\<rparr>)"
          unfolding wn by blast
        have "assign_pages dp q order memflags ?t = Inr (- 1, ?t)" using run False by (simp add: has_room_def)
        then have "?r = Some (Inr (None, s\<lparr>heap := h', domains := (domains s)(dp \<mapsto> ?d)\<rparr>))" using 2(1) h'(1) by (simp add: wn assign_or_free_def)
        then show ?thesis using h'(2,3) d pages_with_node[of "Some dp" node "domains s"] unfolding wn by simp
      qed
    qed
  qed
qed

section \<open>Freeing a page of a domain\<close>

lemma dom_pages_remove:
  assumes "m \<in> set (page_list d) \<union> set (relmem_list d)" "distinct (dom_pages d)"
  shows "\<exists>x l. page_list_del2 m (page_list d) (relmem_list d) = Inr (x, l) \<and> distinct (x @ l) \<and> set (x @ l) = set (dom_pages d) - {m} \<and>
    Suc (length (x @ l)) = length (dom_pages d)"
  using assms
  by (auto simp: page_list_del2_def dom_pages_def length_remove1 distinct_remove1)
    (metis Suc_pred length_pos_if_in_set)+

lemma free_dom_ok:
  assumes ok: "mem_ok env de other U s" and d: "domains s dp = Some d" and m: "m \<in> set (dom_pages d)"
  shows "\<exists>s'. free_domheap_pages env de m 0 s = Some (Inr s') \<and> mem_ok env de other U s' \<and>
    (\<forall>x. domains s' x = None \<longleftrightarrow> domains s x = None) \<and> free_set (heap s') = insert m (free_set (heap s)) \<and>
    (\<exists>d'. domains s' dp = Some d' \<and> set (dom_pages d') = set (dom_pages d) - {m}) \<and> (\<forall>x. x \<noteq> dp \<longrightarrow> domains s' x = domains s x) \<and>
    destroyed s' = destroyed s \<and> scrubbed s' = scrubbed s @ (if dying d then [m] else [])"
proof -
  note acc = mem_okD(6)[OF ok d]
  have A: "0 < dp" "unat (tot_pages d) = length (dom_pages d)" "tot_pages d \<le> max_pages d" "0 < other dp" "other dp + 1 < 2 ^ 31"
    "nodes_ok (node_affinity (nodes d))" "unat (refs d) = other dp + (if dom_pages d = [] then 0 else 1)" "distinct (dom_pages d)"
    using acc unfolding account_ok_def by blast+
  have P: "owned_block env (heap s) m 0" "v_raw (frame_table (heap s) m) = dp" "PGT_count (frame_table (heap s) m) = 0"
    using account_pages[OF acc m] unfolding dom_page_def by blast+
  have cow: "dp \<noteq> dom_cow de" using mem_okD(5)[OF ok] d by auto
  obtain x l where xl: "page_list_del2 m (page_list d) (relmem_list d) = Inr (x, l)" "distinct (x @ l)" "set (x @ l) = set (dom_pages d) - {m}"
    "Suc (length (x @ l)) = length (dom_pages d)" using dom_pages_remove[of m d] m A(8) by (auto simp: dom_pages_def)
  from free_heap_pages_ok[OF mem_okD(2)[OF ok] P(1)] obtain h where h: "free_heap_pages env m 0 (heap s) = Some (Inr h)" "heap_ok env h"
    "free_set h = free_set (heap s) \<union> span m 0" "outside_same (free_set h) (heap s) h" by blast
  have s0: "span m 0 = {m}" by (auto simp: span_def)
  define d1 where "d1 = d\<lparr>page_list := x, relmem_list := l, tot_pages := tot_pages d - 1\<rparr>"
  define d2 where "d2 = (if x @ l = [] then d1\<lparr>refs := refs d - 1\<rparr> else d1)"
  define s' where "s' = s\<lparr>heap := h, domains := (domains s)(dp \<mapsto> d2), scrubbed := scrubbed s @ (if dying d then [m] else [])\<rparr>"
  have "1 \<le> tot_pages d" using A(2) xl(4) by (simp add: word_le_nat_alt)
  then have t: "unat (tot_pages d - 1) = length (x @ l)" using A(2) xl(4) by (simp add: unat_sub)
  then have tz: "tot_pages d - 1 = 0 \<longleftrightarrow> x @ l = []" by (metis length_0_conv unat_eq_zero)
  have "unat (refs d) = other dp + 1" using A(7) xl(4) by (cases "dom_pages d") auto
  moreover from this have "1 \<le> refs d" by (simp add: word_le_nat_alt)
  ultimately have r: "unat (refs d - 1) = other dp" "refs d - 1 \<noteq> 0" using A(4) by (auto simp: unat_sub)
  have "\<not> pgc_xen_heap (frame_table (heap s) m)" using P(1) unfolding owned_block_def by (metis span_self)
  moreover have "[m..<m + 2 ^ 0] = [m]" by simp
  ultimately have run: "free_domheap_pages env de m 0 s = Some (Inr s')"
    using P A(1) cow d xl(1) h(1) tz r(2)
    by (auto simp: free_domheap_pages_def Let_def page_get_owner_def drop_dom_page_def put_dom_def s'_def d1_def d2_def)
  have dp2: "dom_pages d2 = x @ l" by (simp add: d2_def d1_def dom_pages_def)
  have other_page: "frame_table h y = frame_table (heap s) y" if "y \<noteq> m" "y \<notin> free_set (heap s)" for y
    using h(3,4) that s0 unfolding outside_same_def by blast
  have av: "avail h n = None \<longleftrightarrow> avail (heap s) n = None" for n using h(4) unfolding outside_same_def by blast
  have same: "account_ok env h (other y) y e" if "domains s y = Some e" "y \<noteq> dp" for y e
  proof (rule account_cong[OF mem_okD(6)[OF ok that(1)] other_page av])
    fix k assume k: "k \<in> set (dom_pages e)"
    show "k \<noteq> m" using owner_unique[OF ok d that(1) m] k that(2) by blast
    show "k \<notin> free_set (heap s)" by (rule dom_page_used[OF account_pages[OF mem_okD(6)[OF ok that(1)] k]])
  qed
  have own: "account_ok env h (other dp) dp d2"
    unfolding account_ok_def dp2
  proof (intro conjI ballI)
    show "dom_page env h dp k" if "k \<in> set (x @ l)" for k
    proof -
      have k: "k \<in> set (dom_pages d)" "k \<noteq> m" using that xl(3) by auto
      show ?thesis using dom_page_cong[OF account_pages[OF acc k(1)] other_page[OF k(2)] av] dom_page_used[OF account_pages[OF acc k(1)]] by blast
    qed
    have t2: "unat (tot_pages d2) = length (x @ l)" using t by (simp add: d2_def d1_def)
    then show "unat (tot_pages d2) = length (x @ l)" .
    show "tot_pages d2 \<le> max_pages d2" using t2 A(2,3) xl(4) by (simp add: word_le_nat_alt d2_def d1_def)
    show "unat (refs d2) = other dp + (if x @ l = [] then 0 else 1)"
      using r(1) \<open>unat (refs d) = other dp + 1\<close> by (auto simp: d2_def d1_def)
  qed (use A xl(2) in \<open>auto simp: d2_def d1_def\<close>)
  have F: "free_set h = insert m (free_set (heap s))" using h(3) s0 by simp
  have gone: "all_pages s' = all_pages s - {m}"
  proof -
    define R where "R = (\<Union>y\<in>- {dp}. set (pages_at (domains s) y))"
    have "m \<notin> set (pages_at (domains s) y)" if "y \<noteq> dp" for y
      using owner_unique[OF ok d _ m] that by (cases "domains s y") (auto simp: pages_at_def)
    then have nR: "m \<notin> R" unfolding R_def by blast
    have e: "all_pages s' = set (x @ l) \<union> R"
      unfolding all_pages_split[of s' dp] by (simp add: s'_def pages_at_upd dp2 R_def)
    have e': "all_pages s = set (dom_pages d) \<union> R"
      unfolding all_pages_split[of s dp] using d by (simp add: pages_at_def R_def)
    show ?thesis using nR unfolding e e' xl(3) by blast
  qed
  have "m \<in> all_pages s" unfolding all_pages_split[of s dp] using m d by (simp add: pages_at_def)
  then have "free_set h \<union> all_pages s' = U" unfolding gone F mem_okD(7)[OF ok, symmetric] by blast
  then have "mem_ok env de other U s'"
    using mem_okD[OF ok] h(2) own same cow by (simp add: mem_ok_def s'_def)
  then show ?thesis using run F d dp2 xl(3) by (auto simp: s'_def)
qed

section \<open>Sequences of operations\<close>

text \<open>A domain is given a block, or gives back the page at a position of its list.\<close>

datatype dom_op = Dom_alloc nat nat u32 | Dom_free nat nat

definition dom_step :: "heap_env \<Rightarrow> domheap_env \<Rightarrow> dom_op \<Rightarrow> memory_state \<Rightarrow> memory_state result" where
  "dom_step env de op s =
     (case op of
        Dom_alloc dp order memflags \<Rightarrow>
          (case alloc_domheap_pages env de (Some dp) order memflags s of
             None \<Rightarrow> Inl Bug_on | Some r \<Rightarrow> bindR r (\<lambda>(_, s). Inr s))
      | Dom_free dp i \<Rightarrow>
          (case domains s dp of
             None \<Rightarrow> Inl Use_after_free
           | Some d \<Rightarrow>
               if i < length (page_list d)
               then (case free_domheap_pages env de (page_list d ! i) 0 s of None \<Rightarrow> Inl Bug_on | Some r \<Rightarrow> r)
               else Inr s))"

definition dom_okay :: "dom_op \<Rightarrow> memory_state \<Rightarrow> bool" where
  "dom_okay op s \<longleftrightarrow>
     (case op of
        Dom_alloc dp order memflags \<Rightarrow> domains s dp \<noteq> None \<and> node_field_ok memflags \<and> \<not> MEMF_no_refcount memflags
      | Dom_free dp i \<Rightarrow> domains s dp \<noteq> None)"

lemma dom_step_ok:
  assumes ok: "mem_ok env de other U s" and op: "dom_okay op s"
  shows "\<exists>s'. dom_step env de op s = Inr s' \<and> mem_ok env de other U s' \<and> (\<forall>x. domains s' x = None \<longleftrightarrow> domains s x = None)"
proof (cases op)
  case (Dom_alloc dp order memflags)
  then obtain d where "domains s dp = Some d" "node_field_ok memflags" "\<not> MEMF_no_refcount memflags" using op by (auto simp: dom_okay_def)
  from alloc_dom_ok[OF ok this, of order] obtain r s' where
    "alloc_domheap_pages env de (Some dp) order memflags s = Some (Inr (r, s'))" "mem_ok env de other U s'"
    "\<forall>x. domains s' x = None \<longleftrightarrow> domains s x = None" by (elim exE conjE)
  then show ?thesis using Dom_alloc by (simp add: dom_step_def)
next
  case (Dom_free dp i)
  then obtain d where d: "domains s dp = Some d" using op by (auto simp: dom_okay_def)
  show ?thesis
  proof (cases "i < length (page_list d)")
    case True
    then have "page_list d ! i \<in> set (dom_pages d)" by (simp add: dom_pages_def)
    from free_dom_ok[OF ok d this] obtain s' where
      "free_domheap_pages env de (page_list d ! i) 0 s = Some (Inr s')" "mem_ok env de other U s'"
      "\<forall>x. domains s' x = None \<longleftrightarrow> domains s x = None" by (elim exE conjE)
    then show ?thesis using Dom_free d True by (simp add: dom_step_def)
  next
    case False
    then show ?thesis using Dom_free d ok by (simp add: dom_step_def)
  qed
qed

interpretation domain_accounts: guarded_system "mem_ok env de other U" dom_okay "dom_step env de"
proof
  show "\<exists>s'. dom_step env de op s = Inr s' \<and> mem_ok env de other U s'" if "mem_ok env de other U s" "dom_okay op s" for s op
    using dom_step_ok[OF that] by blast
  show "dom_okay b s'" if "mem_ok env de other U s" "dom_okay a s" "dom_okay b s" "dom_step env de a s = Inr s'" for s a b s'
    using dom_step_ok[OF that(1,2)] that(3,4) by (auto simp: dom_okay_def split: dom_op.splits)
qed

section \<open>Properties\<close>


definition demo_memory :: memory_state where
  "demo_memory = \<lparr>heap = demo_heap,
     domains = [1 \<mapsto> \<lparr>dying = False, page_list = [], xenpage_list = [], relmem_list = [], tot_pages = 0, max_pages = 3, xenheap_pages = 0,
       refs = 1, physaddr_bitsize = 0, nodes = \<lparr>node_affinity = [0], last_alloc_node = 0\<rparr>\<rparr>], scrubbed = [], destroyed = []\<rparr>"

lemma demo_memory_ok: "mem_ok demo_env \<lparr>dma_bitsize = 0, dom_cow = 2\<rparr> (\<lambda>_. 1) {4..<8} demo_memory"
proof -
  have "env_ok demo_env" by (simp add: env_ok_def demo_env_def nodes_ok_def MAX_NUMNODES_def)
  moreover have "all_pages demo_memory = {}" by (auto simp: all_pages_def pages_at_def demo_memory_def dom_pages_def split: option.splits if_splits)
  ultimately show ?thesis using demo_ok demo_free
    by (simp add: mem_ok_def demo_memory_def account_ok_def dom_pages_def nodes_ok_def MAX_NUMNODES_def MAX_ORDER_def)
qed

lemma demo_flags: "node_field_ok 0" "\<not> MEMF_no_refcount 0"
  using no_node_asked by (simp_all add: node_field_ok_def NUMA_NO_NODE_def MEMF_no_refcount_def)




end
