(* ===== verification/Boot_Memory.thy ===== *)
theory Boot_Memory
  imports Xen_Prelude
begin

unbundle bit_operations_syntax

text \<open>
  The allocator used while the hypervisor boots, \<open>common/page_alloc.c\<close>: an ascending array of regions of free
  page frames, kept in the first page it is given. Frame numbers are 64-bit words and wrap as in the source.
\<close>

section \<open>Regions\<close>

record bootmem_region =
  br_s :: u64
  br_e :: u64

text \<open>The page that holds the array (\<open>None\<close> for \<open>NULL\<close>), its entries in use, and the lowest frame seen.\<close>

record boot_state =
  bootmem_region_list :: "u64 option"
  bootmem_regions :: "bootmem_region list"
  first_valid_mfn :: u64

definition MAX_BOOTMEM_REGIONS :: nat where "MAX_BOOTMEM_REGIONS = 256"

definition bootmem_region_add :: "u64 \<Rightarrow> u64 \<Rightarrow> boot_state \<Rightarrow> boot_state result" where
  "bootmem_region_add s e b =
     (let (b, s) = (if bootmem_region_list b = None \<and> s < e then (b\<lparr>bootmem_region_list := Some s\<rparr>, s + 1) else (b, s)) in
      if s \<ge> e then Inr b
      else
        let rs = bootmem_regions b;
            i = length (takeWhile (\<lambda>r. \<not> s < br_e r) rs)
        in if i < length rs \<and> e > br_s (rs ! i) then Inl Bug_on
           else if length rs = MAX_BOOTMEM_REGIONS then Inl Bug_on
           else Inr (b\<lparr>bootmem_regions := take i rs @ \<lparr>br_s = s, br_e = e\<rparr> # drop i rs\<rparr>))"

definition set_region :: "nat \<Rightarrow> bootmem_region \<Rightarrow> boot_state \<Rightarrow> boot_state" where
  "set_region i r b = b\<lparr>bootmem_regions := (bootmem_regions b)[i := r]\<rparr>"

text \<open>One iteration; the array may grow under the loop.\<close>

definition zap_step :: "u64 \<Rightarrow> u64 \<Rightarrow> nat \<times> boot_state \<Rightarrow> (nat \<times> boot_state) option result" where
  "zap_step s e ib =
     (case ib of (i, b) \<Rightarrow>
        if \<not> i < length (bootmem_regions b) then Inr None
        else
          let r = bootmem_regions b ! i in
          if e \<le> br_s r then Inr None
          else if s \<ge> br_e r then Inr (Some (Suc i, b))
          else if s \<le> br_s r then Inr (Some (Suc i, set_region i (r\<lparr>br_s := min e (br_e r)\<rparr>) b))
          else if e \<ge> br_e r then Inr (Some (Suc i, set_region i (r\<lparr>br_e := s\<rparr>) b))
          else bindR (bootmem_region_add e (br_e r) (set_region i (r\<lparr>br_e := s\<rparr>) b)) (\<lambda>b. Inr (Some (Suc i, b))))"

definition bootmem_region_zap :: "u64 \<Rightarrow> u64 \<Rightarrow> boot_state \<Rightarrow> boot_state result option" where
  "bootmem_region_zap s e b =
     map_option (\<lambda>r. bindR r (\<lambda>(_, b). Inr b)) (while_loop (zap_step s e) (0, b))"

section \<open>The list of bad pages\<close>

text \<open>\<open>simple_strtoul\<close> of \<open>common/vsprintf.c\<close>; the end of the list is the terminating zero.\<close>

definition isdigit :: "char \<Rightarrow> bool" where
  "isdigit c \<longleftrightarrow> (of_char c :: nat) \<in> {48..57}"

definition isxdigit :: "char \<Rightarrow> bool" where
  "isxdigit c \<longleftrightarrow> isdigit c \<or> (of_char c :: nat) \<in> {65..70} \<or> (of_char c :: nat) \<in> {97..102}"

definition toupper_code :: "char \<Rightarrow> nat" where
  "toupper_code c = (if (of_char c :: nat) \<in> {97..122} then of_char c - 32 else of_char c)"

definition digit_value :: "char \<Rightarrow> nat" where
  "digit_value c = (if isdigit c then of_char c - 48 else toupper_code c - 65 + 10)"

fun strtoul_digits :: "nat \<Rightarrow> u64 \<Rightarrow> string \<Rightarrow> u64 \<times> string" where
  "strtoul_digits base acc [] = (acc, [])"
| "strtoul_digits base acc (c # cs) =
     (if isxdigit c \<and> digit_value c < base
      then strtoul_digits base (acc * of_nat base + of_nat (digit_value c)) cs else (acc, c # cs))"

definition strtoul_prefix :: "string \<Rightarrow> nat \<Rightarrow> nat \<times> string" where
  "strtoul_prefix cp base =
     (if base = 0 then
        (case cp of
           c # cp1 \<Rightarrow>
             if c = CHR ''0'' then
               (case cp1 of
                  x # d # cs \<Rightarrow> if toupper_code x = 88 \<and> isxdigit d then (16, d # cs) else (8, cp1)
                | _ \<Rightarrow> (8, cp1))
             else (10, cp)
         | [] \<Rightarrow> (10, cp))
      else if base = 16 then
        (case cp of
           c # x # cs \<Rightarrow> if c = CHR ''0'' \<and> toupper_code x = 88 then (base, cs) else (base, cp)
         | _ \<Rightarrow> (base, cp))
      else (base, cp))"

definition simple_strtoul :: "string \<Rightarrow> nat \<Rightarrow> u64 \<times> string" where
  "simple_strtoul cp base = (case strtoul_prefix cp base of (base, cp) \<Rightarrow> strtoul_digits base 0 cp)"

lemma strtoul_digits_length: "length (snd (strtoul_digits base acc cs)) \<le> length cs"
  by (induction base acc cs rule: strtoul_digits.induct) auto

lemma simple_strtoul_length: "length (snd (simple_strtoul cp base)) \<le> length cp"
proof -
  have "length (snd (strtoul_prefix cp base)) \<le> length cp"
    by (auto simp: strtoul_prefix_def split: list.splits)
  then show ?thesis
    using strtoul_digits_length[of "fst (strtoul_prefix cp base)" 0 "snd (strtoul_prefix cp base)"]
    by (simp add: simple_strtoul_def case_prod_unfold)
qed

text \<open>One entry of the list: a page or a range of pages, and what is left of the string.\<close>

definition bad_range :: "string \<Rightarrow> u64 \<times> u64 \<times> string" where
  "bad_range p =
     (case simple_strtoul p 0 of (bad_spfn, p) \<Rightarrow>
        case p of
          c # q \<Rightarrow>
            if c = CHR ''-'' then
              (case simple_strtoul q 0 of (bad_epfn, p) \<Rightarrow> (bad_spfn, (if bad_epfn < bad_spfn then bad_spfn else bad_epfn), p))
            else (bad_spfn, bad_spfn, p)
        | [] \<Rightarrow> (bad_spfn, bad_spfn, p))"

lemma bad_range_length: "bad_range p = (x, y, q) \<Longrightarrow> length q \<le> length p"
proof -
  assume a: "bad_range p = (x, y, q)"
  obtain v p1 where v: "simple_strtoul p 0 = (v, p1)" by (cases "simple_strtoul p 0")
  have l: "length p1 \<le> length p" using simple_strtoul_length[of p 0] v by simp
  show ?thesis
  proof (cases p1)
    case (Cons c p2)
    obtain w p3 where w: "simple_strtoul p2 0 = (w, p3)" by (cases "simple_strtoul p2 0")
    have "length p3 \<le> length p2" using simple_strtoul_length[of p2 0] w by simp
    then show ?thesis using a v w Cons l by (auto simp: bad_range_def split: if_splits)
  qed (use a v l in \<open>simp add: bad_range_def\<close>)
qed

lemma bad_rest_shorter: "p \<noteq> [] \<Longrightarrow> length (tl (snd (snd (bad_range p)))) < length p"
proof -
  assume "p \<noteq> []"
  moreover have "length (snd (snd (bad_range p))) \<le> length p"
    using bad_range_length[of p "fst (bad_range p)" "fst (snd (bad_range p))"] by simp
  ultimately show ?thesis by (cases "snd (snd (bad_range p))") auto
qed

function zap_bad_pages :: "string \<Rightarrow> boot_state \<Rightarrow> boot_state result option" where
  "zap_bad_pages p b =
     (if p = [] then Some (Inr b)
      else
        let r = bad_range p; q = snd (snd r) in
        if q \<noteq> [] \<and> hd q \<noteq> CHR '','' then Some (Inr b)
        else
          (case bootmem_region_zap (fst r) (fst (snd r) + 1) b of
             None \<Rightarrow> None
           | Some (Inl e) \<Rightarrow> Some (Inl e)
           | Some (Inr b) \<Rightarrow> zap_bad_pages (tl q) b))"
  by pat_completeness auto
termination
  by (relation "measure (\<lambda>(p, b). length p)") (simp_all add: bad_rest_shorter del: length_tl)

declare zap_bad_pages.simps [simp del]

section \<open>Operations\<close>

definition round_pgup :: "u64 \<Rightarrow> u64" where "round_pgup p = (p + 4095) AND NOT 4095"

definition round_pgdown :: "u64 \<Rightarrow> u64" where "round_pgdown p = p AND NOT 4095"

definition init_boot_pages :: "string \<Rightarrow> u64 \<Rightarrow> u64 \<Rightarrow> boot_state \<Rightarrow> boot_state result option" where
  "init_boot_pages opt_badpage ps pe b =
     (let ps = round_pgup ps; pe = round_pgdown pe in
      if pe \<le> ps then Some (Inr b)
      else
        (case bootmem_region_add (drop_bit 12 ps) (drop_bit 12 pe) (b\<lparr>first_valid_mfn := min (drop_bit 12 ps) (first_valid_mfn b)\<rparr>) of
           Inl e \<Rightarrow> Some (Inl e)
         | Inr b \<Rightarrow> zap_bad_pages opt_badpage b))"

text \<open>The regions from the highest down.\<close>

fun alloc_boot_loop :: "u64 \<Rightarrow> u64 \<Rightarrow> nat \<Rightarrow> boot_state \<Rightarrow> (u64 \<times> boot_state) result" where
  "alloc_boot_loop nr_pfns pfn_align 0 b = Inl Bug_on"
| "alloc_boot_loop nr_pfns pfn_align (Suc i) b =
     (let r = bootmem_regions b ! i;
          pg = (br_e r - nr_pfns) AND NOT (pfn_align - 1)
      in if pg < br_s r then alloc_boot_loop nr_pfns pfn_align i b
         else bindR (bootmem_region_add (pg + nr_pfns) (br_e r) (set_region i (r\<lparr>br_e := pg\<rparr>) b)) (\<lambda>b. Inr (pg, b)))"

definition alloc_boot_pages :: "u64 \<Rightarrow> u64 \<Rightarrow> boot_state \<Rightarrow> (u64 \<times> boot_state) result" where
  "alloc_boot_pages nr_pfns pfn_align b = alloc_boot_loop nr_pfns pfn_align (length (bootmem_regions b)) b"

section \<open>Ascending regions\<close>

definition frames :: "bootmem_region list \<Rightarrow> u64 set" where
  "frames rs = (\<Union>r\<in>set rs. {br_s r..<br_e r})"

definition regions_ok :: "bootmem_region list \<Rightarrow> bool" where
  "regions_ok rs \<longleftrightarrow> (\<forall>r\<in>set rs. br_s r \<le> br_e r) \<and> sorted_wrt (\<lambda>x y. br_e x \<le> br_s y) rs"

lemma frames_simps [simp]: "frames [] = {}" "frames (r # rs) = {br_s r..<br_e r} \<union> frames rs" "frames (rs @ ts) = frames rs \<union> frames ts"
  by (simp_all add: frames_def)

lemma regions_ok_mid:
  "regions_ok (A @ r # B) \<longleftrightarrow> regions_ok (A @ B) \<and> br_s r \<le> br_e r \<and> (\<forall>x\<in>set A. br_e x \<le> br_s r) \<and> (\<forall>x\<in>set B. br_e r \<le> br_s x)"
  by (auto simp: regions_ok_def sorted_wrt_append)

lemma frames_below: "(\<forall>x\<in>set A. br_e x \<le> s) \<Longrightarrow> frames A \<inter> {s..<e} = {}"
  by (fastforce simp: frames_def)

lemma frames_above: "(\<forall>x\<in>set B. e \<le> br_s x) \<Longrightarrow> frames B \<inter> {s..<e} = {}"
  by (fastforce simp: frames_def)

lemma bootmem_region_add_empty: "e \<le> s \<Longrightarrow> bootmem_region_add s e b = Inr b"
  by (auto simp: bootmem_region_add_def)

text \<open>A region goes between those below and those above it.\<close>

lemma add_between:
  assumes l: "bootmem_region_list b \<noteq> None" and rs: "bootmem_regions b = A @ B" "regions_ok (A @ B)" "length (A @ B) < MAX_BOOTMEM_REGIONS"
    and se: "s < e" and A: "\<forall>x\<in>set A. br_e x \<le> s" and B: "\<forall>x\<in>set B. e \<le> br_s x"
  shows "bootmem_region_add s e b = Inr (b\<lparr>bootmem_regions := A @ \<lparr>br_s = s, br_e = e\<rparr> # B\<rparr>)"
    "regions_ok (A @ \<lparr>br_s = s, br_e = e\<rparr> # B)"
proof -
  show "regions_ok (A @ \<lparr>br_s = s, br_e = e\<rparr> # B)" using rs(2) se A B by (simp add: regions_ok_mid)
  have B': "s < br_e x" if "x \<in> set B" for x
    using that B se rs(2) unfolding regions_ok_def by (metis Un_iff less_le_trans order_trans set_append)
  have "\<forall>x\<in>set A. \<not> s < br_e x" using A by (simp add: not_less)
  then have tw: "takeWhile (\<lambda>r. \<not> s < br_e r) (A @ B) = A"
    using B' by (cases B) (auto simp: takeWhile_append)
  have "\<not> (bootmem_region_list b = None \<and> s < e)" "\<not> e \<le> s" "\<not> (length A < length (A @ B) \<and> br_s ((A @ B) ! length A) < e)"
    using l se B by (cases B; auto simp: nth_append)+
  then show "bootmem_region_add s e b = Inr (b\<lparr>bootmem_regions := A @ \<lparr>br_s = s, br_e = e\<rparr> # B\<rparr>)"
    using rs(3) unfolding bootmem_region_add_def Let_def rs(1) by (simp only: if_False prod.case rs(1) tw) simp
qed

text \<open>Adding panics exactly when the new range meets a region, an empty one inside it included, or the array is full.\<close>

lemma bootmem_region_add_exact:
  assumes l: "bootmem_region_list b \<noteq> None" and rs: "regions_ok (bootmem_regions b)" and se: "s < e"
  shows "if (\<exists>r\<in>set (bootmem_regions b). s < br_e r \<and> br_s r < e) \<or> length (bootmem_regions b) = MAX_BOOTMEM_REGIONS
    then bootmem_region_add s e b = Inl Bug_on
    else \<exists>rs'. bootmem_region_add s e b = Inr (b\<lparr>bootmem_regions := rs'\<rparr>) \<and> regions_ok rs' \<and>
      frames rs' = frames (bootmem_regions b) \<union> {s..<e} \<and> length rs' = Suc (length (bootmem_regions b))"
proof -
  let ?rs = "bootmem_regions b" and ?P = "\<lambda>r. \<not> s < br_e r"
  define A B where "A = takeWhile ?P ?rs" and "B = dropWhile ?P ?rs"
  have AB: "?rs = A @ B" by (simp add: A_def B_def)
  have td: "take (length A) ?rs = A" "drop (length A) ?rs = B" by (simp_all add: AB)
  have A: "\<forall>x\<in>set A. br_e x \<le> s" using set_takeWhileD unfolding A_def by fastforce
  have hdB: "s < br_e (hd B)" if "B \<noteq> []" using that hd_dropWhile[of ?P ?rs] unfolding B_def by auto
  have asc: "br_s (hd B) \<le> br_s x" "s < br_e x" if "x \<in> set B" for x
    using that hdB rs unfolding AB regions_ok_def
    by (cases B; force simp: sorted_wrt_append intro: order_trans less_le_trans)+
  have meet: "(\<exists>r\<in>set ?rs. s < br_e r \<and> br_s r < e) \<longleftrightarrow> B \<noteq> [] \<and> br_s (hd B) < e"
  proof
    assume "\<exists>r\<in>set ?rs. s < br_e r \<and> br_s r < e"
    then obtain r where r: "r \<in> set A \<union> set B" "s < br_e r" "br_s r < e" by (auto simp: AB)
    then have "r \<in> set B" using A by auto
    then show "B \<noteq> [] \<and> br_s (hd B) < e" using asc(1)[of r] r(3) by auto
  next
    assume "B \<noteq> [] \<and> br_s (hd B) < e"
    then show "\<exists>r\<in>set ?rs. s < br_e r \<and> br_s r < e" using hdB by (intro bexI[of _ "hd B"]) (auto simp: AB)
  qed
  have at: "length A < length ?rs \<longleftrightarrow> B \<noteq> []" "B \<noteq> [] \<Longrightarrow> ?rs ! length A = hd B"
    by (auto simp: AB nth_append hd_conv_nth)
  have red: "bootmem_region_add s e b = (if B \<noteq> [] \<and> br_s (hd B) < e then Inl Bug_on
      else if length ?rs = MAX_BOOTMEM_REGIONS then Inl Bug_on
      else Inr (b\<lparr>bootmem_regions := A @ \<lparr>br_s = s, br_e = e\<rparr> # B\<rparr>))"
    using l se at by (auto simp: bootmem_region_add_def Let_def A_def[symmetric] td)
  show ?thesis
  proof (cases "(\<exists>r\<in>set ?rs. s < br_e r \<and> br_s r < e) \<or> length ?rs = MAX_BOOTMEM_REGIONS")
    case True
    then show ?thesis unfolding red meet by auto
  next
    case False
    then have "\<forall>x\<in>set B. e \<le> br_s x" using asc(1) meet by (cases B) (auto intro: order_trans simp: not_less)
    then have "regions_ok (A @ \<lparr>br_s = s, br_e = e\<rparr> # B)" using rs A se by (simp add: regions_ok_mid AB)
    then show ?thesis
      using False unfolding red meet by (auto simp: AB intro!: exI[of _ "A @ \<lparr>br_s = s, br_e = e\<rparr> # B"])
  qed
qed

section \<open>Taking a range out\<close>

lemma set_region_mid: "bootmem_regions b = A @ r # B \<Longrightarrow> set_region (length A) r' b = b\<lparr>bootmem_regions := A @ r' # B\<rparr>"
  by (simp add: set_region_def)

text \<open>
  The invariant of the loop: regions below \<open>i\<close> are clear of the range, frames outside the range are as they were, and
  once a region was split the next one lies above the range.
\<close>

definition zap_inv :: "u64 \<Rightarrow> u64 \<Rightarrow> boot_state \<Rightarrow> nat \<times> boot_state \<Rightarrow> bool" where
  "zap_inv s e b ib \<longleftrightarrow>
     (\<exists>rs. snd ib = b\<lparr>bootmem_regions := rs\<rparr> \<and> regions_ok rs \<and> fst ib \<le> length rs \<and> frames (take (fst ib) rs) \<inter> {s..<e} = {} \<and>
        frames rs - {s..<e} = frames (bootmem_regions b) - {s..<e} \<and>
        (length rs = length (bootmem_regions b) \<or>
         length rs = Suc (length (bootmem_regions b)) \<and> (\<forall>x\<in>set (drop (fst ib) rs). e \<le> br_s x)))"

lemma zap_step_ok:
  assumes l: "bootmem_region_list b \<noteq> None" "length (bootmem_regions b) < MAX_BOOTMEM_REGIONS" and se: "s < e"
    and I: "zap_inv s e b (i, b')"
  shows "zap_step s e (i, b') = Inr None \<and> frames (bootmem_regions b') \<inter> {s..<e} = {} \<or>
    (\<exists>b''. zap_step s e (i, b') = Inr (Some (Suc i, b'')) \<and> zap_inv s e b (Suc i, b'') \<and> i < Suc (length (bootmem_regions b)))"
proof -
  obtain rs where rs: "b' = b\<lparr>bootmem_regions := rs\<rparr>" "regions_ok rs" "i \<le> length rs" "frames (take i rs) \<inter> {s..<e} = {}"
    "frames rs - {s..<e} = frames (bootmem_regions b) - {s..<e}"
    "length rs = length (bootmem_regions b) \<or> length rs = Suc (length (bootmem_regions b)) \<and> (\<forall>x\<in>set (drop i rs). e \<le> br_s x)"
    using I by (auto simp: zap_inv_def)
  show ?thesis
  proof (cases "i < length rs")
    case False
    then show ?thesis using rs(1,3,4) by (simp add: zap_step_def)
  next
    case True
    define A r B where "A = take i rs" and "r = rs ! i" and "B = drop (Suc i) rs"
    have eq: "rs = A @ r # B" "length A = i" using id_take_nth_drop[OF True] True by (simp_all add: A_def r_def B_def)
    have mid: "regions_ok (A @ B)" "br_s r \<le> br_e r" "\<forall>x\<in>set A. br_e x \<le> br_s r" "\<forall>x\<in>set B. br_e r \<le> br_s x"
      using rs(2) unfolding eq(1) regions_ok_mid by blast+
    have fA: "frames A \<inter> {s..<e} = {}" using rs(4) eq by simp
    have at: "bootmem_regions b' ! i = r" "bootmem_regions b' = A @ r # B" using rs(1) eq by (auto simp: nth_append)
    have ok': "regions_ok (A @ r' # B)" if "br_s r \<le> br_s r'" "br_s r' \<le> br_e r'" "br_e r' \<le> br_e r" for r'
      using that mid unfolding regions_ok_mid by (auto intro: order_trans)
    have upd: "set_region i r' b' = b\<lparr>bootmem_regions := A @ r' # B\<rparr>" for r'
      using set_region_mid[OF at(2), of r'] eq(2) rs(1) by simp
    have inv: "zap_inv s e b (Suc i, b\<lparr>bootmem_regions := A @ r' # B\<rparr>)"
      if r': "br_s r \<le> br_s r'" "br_s r' \<le> br_e r'" "br_e r' \<le> br_e r" "{br_s r'..<br_e r'} = {br_s r..<br_e r} - {s..<e}"
        and nb: "\<not> e \<le> br_s r" for r'
    proof -
      have "length rs = length (bootmem_regions b)" using rs(6) eq nb by auto
      moreover have "frames (A @ r' # B) - {s..<e} = frames rs - {s..<e}" using r'(4) eq(1) by auto
      moreover have "frames (take (Suc i) (A @ r' # B)) \<inter> {s..<e} = {}" using fA r'(4) eq(2) by (auto simp: take_Suc_conv_app_nth nth_append)
      ultimately show ?thesis using ok'[OF r'(1-3)] rs(5) eq unfolding zap_inv_def by (intro exI[of _ "A @ r' # B"]) simp
    qed
    consider "e \<le> br_s r" | "\<not> e \<le> br_s r" "br_e r \<le> s" | "\<not> e \<le> br_s r" "\<not> br_e r \<le> s" "s \<le> br_s r"
      | "\<not> e \<le> br_s r" "\<not> br_e r \<le> s" "\<not> s \<le> br_s r" "br_e r \<le> e" | "\<not> e \<le> br_s r" "\<not> br_e r \<le> s" "\<not> s \<le> br_s r" "\<not> br_e r \<le> e"
      by blast
    then show ?thesis
    proof cases
      case 1
      then have "\<forall>x\<in>set (r # B). e \<le> br_s x" using mid(2,4) by (auto intro: order_trans)
      from frames_above[OF this, of s] have "frames rs \<inter> {s..<e} = {}" using fA by (auto simp: eq(1))
      then show ?thesis using 1 at True rs(1) by (simp add: zap_step_def)
    next
      case 2
      have "zap_step s e (i, b') = Inr (Some (Suc i, b'))" using 2 at True rs(1) by (simp add: zap_step_def)
      moreover have "zap_inv s e b (Suc i, b')" using inv[of r] 2 mid(2) at(2) rs(1) by (force simp: eq(1))
      ultimately show ?thesis using True rs(6) by auto
    next
      case 3
      have "zap_step s e (i, b') = Inr (Some (Suc i, b\<lparr>bootmem_regions := A @ r\<lparr>br_s := min e (br_e r)\<rparr> # B\<rparr>))"
        using 3 at True rs(1) upd by (simp add: zap_step_def)
      moreover have "zap_inv s e b (Suc i, b\<lparr>bootmem_regions := A @ r\<lparr>br_s := min e (br_e r)\<rparr> # B\<rparr>)"
        by (rule inv) (use 3 mid(2) in \<open>auto simp: min_def\<close>)
      ultimately show ?thesis using True rs(6) by auto
    next
      case 4
      have "zap_step s e (i, b') = Inr (Some (Suc i, b\<lparr>bootmem_regions := A @ r\<lparr>br_e := s\<rparr> # B\<rparr>))"
        using 4 at True rs(1) upd by (simp add: zap_step_def)
      moreover have "zap_inv s e b (Suc i, b\<lparr>bootmem_regions := A @ r\<lparr>br_e := s\<rparr> # B\<rparr>)"
        by (rule inv) (use 4 mid(2) in auto)
      ultimately show ?thesis using True rs(6) by auto
    next
      case 5
      let ?r = "r\<lparr>br_e := s\<rparr>" and ?n = "\<lparr>br_s = e, br_e = br_e r\<rparr>"
      have len: "length rs = length (bootmem_regions b)" using rs(6) eq 5 by auto
      have ok: "regions_ok ((A @ [?r]) @ B)" using ok'[of ?r] 5 by simp
      have "\<forall>x\<in>set (A @ [?r]). br_e x \<le> e" using mid(3) 5 se by (auto intro: order_trans)
      note add = add_between[of "b\<lparr>bootmem_regions := (A @ [?r]) @ B\<rparr>", OF _ _ ok _ _ this mid(4)]
      have step: "zap_step s e (i, b') = Inr (Some (Suc i, b\<lparr>bootmem_regions := A @ ?r # ?n # B\<rparr>))"
        using add(1) 5 l len eq at True rs(1) upd by (simp add: zap_step_def)
      have "zap_inv s e b (Suc i, b\<lparr>bootmem_regions := A @ ?r # ?n # B\<rparr>)"
        unfolding zap_inv_def
      proof (intro exI[of _ "A @ ?r # ?n # B"] conjI disjI2)
        show "regions_ok (A @ ?r # ?n # B)" using add(2) l len eq 5 by simp
        show "frames (take (fst (Suc i, b\<lparr>bootmem_regions := A @ ?r # ?n # B\<rparr>)) (A @ ?r # ?n # B)) \<inter> {s..<e} = {}"
          using fA eq(2) by (auto simp: take_Suc_conv_app_nth nth_append)
        have "{br_s r..<s} \<union> {e..<br_e r} = {br_s r..<br_e r} - {s..<e}" using 5 se by auto
        then have "frames (A @ ?r # ?n # B) = frames A \<union> ({br_s r..<br_e r} - {s..<e}) \<union> frames B" by auto
        then show "frames (A @ ?r # ?n # B) - {s..<e} = frames (bootmem_regions b) - {s..<e}"
          using rs(5) unfolding eq(1) by auto
        show "\<forall>x\<in>set (drop (fst (Suc i, b\<lparr>bootmem_regions := A @ ?r # ?n # B\<rparr>)) (A @ ?r # ?n # B)). e \<le> br_s x"
          using eq(2) mid(4) 5 by (auto intro: order_trans)
      qed (use eq len in auto)
      then show ?thesis using step True len by auto
    qed
  qed
qed

text \<open>Zapping ends and removes exactly the range, as long as there is room for one more region.\<close>

lemma bootmem_region_zap_exact:
  assumes l: "bootmem_region_list b \<noteq> None" "length (bootmem_regions b) < MAX_BOOTMEM_REGIONS" and se: "s < e"
    and ok: "regions_ok (bootmem_regions b)"
  shows "\<exists>rs. bootmem_region_zap s e b = Some (Inr (b\<lparr>bootmem_regions := rs\<rparr>)) \<and> regions_ok rs \<and>
    frames rs = frames (bootmem_regions b) - {s..<e} \<and> length rs \<le> Suc (length (bootmem_regions b))"
proof -
  have "\<exists>ib. while_loop (zap_step s e) (0, b) = Some (Inr ib) \<and> zap_inv s e b ib \<and> frames (bootmem_regions (snd ib)) \<inter> {s..<e} = {}"
  proof (rule while_loop_rule[where \<mu> = "\<lambda>ib. Suc (Suc (length (bootmem_regions b))) - fst ib"])
    show "zap_inv s e b (0, b)" using ok unfolding zap_inv_def by (intro exI[of _ "bootmem_regions b"]) simp
    fix ib assume I: "zap_inv s e b ib"
    obtain i b' where ib: "ib = (i, b')" by (cases ib)
    from zap_step_ok[OF l se I[unfolded ib]]
    show "zap_step s e ib = Inr None \<and> frames (bootmem_regions (snd ib)) \<inter> {s..<e} = {} \<or>
      (\<exists>ib'. zap_step s e ib = Inr (Some ib') \<and> zap_inv s e b ib' \<and>
        Suc (Suc (length (bootmem_regions b))) - fst ib' < Suc (Suc (length (bootmem_regions b))) - fst ib)"
      unfolding ib by fastforce
  qed
  then obtain i b' where r: "while_loop (zap_step s e) (0, b) = Some (Inr (i, b'))" "zap_inv s e b (i, b')"
    "frames (bootmem_regions b') \<inter> {s..<e} = {}" by auto
  then obtain rs where "b' = b\<lparr>bootmem_regions := rs\<rparr>" "regions_ok rs" "frames rs - {s..<e} = frames (bootmem_regions b) - {s..<e}"
    "length rs \<le> Suc (length (bootmem_regions b))" "frames rs \<inter> {s..<e} = {}" by (auto simp: zap_inv_def)
  moreover from this have "frames rs = frames (bootmem_regions b) - {s..<e}" by blast
  ultimately show ?thesis using r(1) by (auto simp: bootmem_region_zap_def)
qed

lemma bootmem_region_zap_nothing: "bootmem_region_zap s 0 b = Some (Inr b)"
proof -
  have "zap_step s 0 (0, b) = Inr None" by (simp add: zap_step_def)
  then show ?thesis by (simp add: bootmem_region_zap_def while_loop.simps)
qed

section \<open>What the list of bad pages says\<close>

function bad_frames :: "string \<Rightarrow> u64 set" where
  "bad_frames p =
     (if p = [] then {}
      else
        let r = bad_range p; q = snd (snd r) in
        if q \<noteq> [] \<and> hd q \<noteq> CHR '','' then {}
        else {fst r..<fst (snd r) + 1} \<union> bad_frames (tl q))"
  by pat_completeness auto
termination
  by (relation "measure length") (simp_all add: bad_rest_shorter del: length_tl)

declare bad_frames.simps [simp del]

lemma bad_range_ordered: "fst (bad_range p) \<le> fst (snd (bad_range p))"
  by (auto simp: bad_range_def split: prod.splits list.splits)

lemma zap_bad_pages_exact:
  assumes "bootmem_region_list b \<noteq> None" "regions_ok (bootmem_regions b)"
    "length (bootmem_regions b) + length p \<le> MAX_BOOTMEM_REGIONS"
  shows "\<exists>rs. zap_bad_pages p b = Some (Inr (b\<lparr>bootmem_regions := rs\<rparr>)) \<and> regions_ok rs \<and>
    frames rs = frames (bootmem_regions b) - bad_frames p"
  using assms
proof (induction p arbitrary: b rule: bad_frames.induct)
  case (1 p)
  define r q where "r = bad_range p" and "q = snd (snd r)"
  consider "p = []" | "p \<noteq> []" "q \<noteq> [] \<and> hd q \<noteq> CHR '',''" | "p \<noteq> []" "\<not> (q \<noteq> [] \<and> hd q \<noteq> CHR '','')" by blast
  then show ?case
  proof cases
    case 1
    then show ?thesis using "1.prems"(2) by (intro exI[of _ "bootmem_regions b"]) (simp add: zap_bad_pages.simps bad_frames.simps)
  next
    case 2
    then show ?thesis using "1.prems"(2)
      by (intro exI[of _ "bootmem_regions b"]) (simp add: zap_bad_pages.simps[of p] bad_frames.simps[of p] r_def q_def Let_def)
  next
    case 3
    have len: "length (bootmem_regions b) < MAX_BOOTMEM_REGIONS" using "1.prems"(3) 3(1) by (cases p) auto
    obtain rs where rs: "bootmem_region_zap (fst r) (fst (snd r) + 1) b = Some (Inr (b\<lparr>bootmem_regions := rs\<rparr>))" "regions_ok rs"
      "frames rs = frames (bootmem_regions b) - {fst r..<fst (snd r) + 1}" "length rs \<le> Suc (length (bootmem_regions b))"
    proof (cases "fst (snd r) + 1 = 0")
      case True
      then show thesis using that[of "bootmem_regions b"] bootmem_region_zap_nothing "1.prems"(2) by simp
    next
      case False
      then have "fst r < fst (snd r) + 1"
        using bad_range_ordered[of p] unatSuc[of "fst (snd r)"]
        by (simp add: r_def word_less_nat_alt word_le_nat_alt add.commute)
      then show thesis using that bootmem_region_zap_exact[OF "1.prems"(1) len _ "1.prems"(2)] by blast
    qed
    let ?b = "b\<lparr>bootmem_regions := rs\<rparr>"
    have "length (tl q) < length p" unfolding q_def r_def by (rule bad_rest_shorter[OF 3(1)])
    then have "length (bootmem_regions ?b) + length (tl q) \<le> MAX_BOOTMEM_REGIONS" using rs(4) "1.prems"(3) by simp
    then obtain rs' where rs': "zap_bad_pages (tl q) ?b = Some (Inr (?b\<lparr>bootmem_regions := rs'\<rparr>))" "regions_ok rs'"
        "frames rs' = frames rs - bad_frames (tl q)"
      using "1.IH"[OF 3(1) r_def q_def 3(2), of ?b] "1.prems"(1) rs(2) by auto
    have "zap_bad_pages p b = zap_bad_pages (tl q) ?b"
      using 3 rs(1) by (subst zap_bad_pages.simps) (auto simp: r_def q_def Let_def)
    moreover have "bad_frames p = {fst r..<fst (snd r) + 1} \<union> bad_frames (tl q)"
      using 3 by (subst bad_frames.simps) (auto simp: r_def q_def Let_def)
    ultimately show ?thesis using rs rs' by auto
  qed
qed

section \<open>Alignment\<close>

lemma align_down:
  fixes x :: u64
  assumes "k < 64"
  shows "unat (x AND NOT (2 ^ k - 1)) = unat x div 2 ^ k * 2 ^ k"
proof -
  have "x AND NOT (2 ^ k - 1) = push_bit k (drop_bit k x)"
    using mask_eq_exp_minus_1[of k, where 'a = "64 word"] by (auto intro!: bit_word_eqI simp: bit_simps simp flip: mask_eq_exp_minus_1)
  moreover have u: "unat x < 2 ^ LENGTH(64)" by (rule unsigned_less)
  then have "unat x div 2 ^ k * 2 ^ k < 2 ^ 64"
    using div_times_less_eq_dividend[of "unat x" "2 ^ k"] by (simp del: div_times_less_eq_dividend)
  moreover have "unat (push_bit k (drop_bit k x)) = take_bit 64 (push_bit k (drop_bit k (unat x)))"
    using u by (simp only: unsigned_push_bit_eq unsigned_drop_bit_eq) (simp add: take_bit_nat_eq_self)
  ultimately show ?thesis by (simp only: take_bit_nat_eq_self push_bit_eq_mult drop_bit_eq_div)
qed

text \<open>A region has room for \<open>nr\<close> frames at a multiple of \<open>2 ^ k\<close>.\<close>

definition fits :: "u64 \<Rightarrow> nat \<Rightarrow> bootmem_region \<Rightarrow> bool" where
  "fits nr k r \<longleftrightarrow> (\<exists>p. 2 ^ k dvd p \<and> unat (br_s r) \<le> p \<and> p + unat nr \<le> unat (br_e r))"

lemma fits_test:
  assumes k: "k < 64" and nr: "nr \<le> br_e r"
  defines "pg \<equiv> (br_e r - nr) AND NOT (2 ^ k - 1)"
  shows "fits nr k r \<longleftrightarrow> \<not> pg < br_s r" "2 ^ k dvd unat pg" "unat pg + unat nr \<le> unat (br_e r)" "unat (pg + nr) = unat pg + unat nr"
proof -
  let ?d = "unat (br_e r) - unat nr"
  have le: "unat nr \<le> unat (br_e r)" using nr by (simp add: word_le_nat_alt)
  have pg: "unat pg = ?d div 2 ^ k * 2 ^ k" unfolding pg_def align_down[OF k] using unat_sub[OF nr] by simp
  show d: "2 ^ k dvd unat pg" by (simp add: pg)
  show b: "unat pg + unat nr \<le> unat (br_e r)" unfolding pg using le div_times_less_eq_dividend[of ?d "2 ^ k"] by linarith
  have "unat (br_e r) < 2 ^ LENGTH(64)" by (rule unsigned_less)
  then show "unat (pg + nr) = unat pg + unat nr" using b by (intro unat_plus_simple[THEN iffD1]) (simp add: no_olen_add_nat)
  show "fits nr k r \<longleftrightarrow> \<not> pg < br_s r"
  proof
    assume "fits nr k r"
    then obtain p where p: "2 ^ k dvd p" "unat (br_s r) \<le> p" "p + unat nr \<le> unat (br_e r)" by (auto simp: fits_def)
    then have "p div 2 ^ k * 2 ^ k \<le> ?d div 2 ^ k * 2 ^ k" by (intro mult_right_mono div_le_mono) simp_all
    then show "\<not> pg < br_s r" using p(1,2) pg by (simp add: word_less_nat_alt)
  next
    assume "\<not> pg < br_s r"
    then show "fits nr k r" unfolding fits_def using d b by (intro exI[of _ "unat pg"]) (simp add: word_less_nat_alt not_less)
  qed
qed

lemma alloc_boot_loop_exact:
  assumes l: "bootmem_region_list b \<noteq> None" "length (bootmem_regions b) < MAX_BOOTMEM_REGIONS" "regions_ok (bootmem_regions b)"
    and nr: "0 < nr" "\<forall>r\<in>set (bootmem_regions b). nr \<le> br_e r" and k: "k < 64" and i: "i \<le> length (bootmem_regions b)"
  shows "if \<exists>r\<in>set (take i (bootmem_regions b)). fits nr k r
    then \<exists>pg rs. alloc_boot_loop nr (2 ^ k) i b = Inr (pg, b\<lparr>bootmem_regions := rs\<rparr>) \<and> regions_ok rs \<and> 2 ^ k dvd unat pg \<and>
      unat (pg + nr) = unat pg + unat nr \<and> {pg..<pg + nr} \<subseteq> frames (bootmem_regions b) \<and>
      frames rs = frames (bootmem_regions b) - {pg..<pg + nr}
    else alloc_boot_loop nr (2 ^ k) i b = Inl Bug_on"
  using i
proof (induction i)
  case (Suc i)
  let ?rs = "bootmem_regions b"
  define A r B where "A = take i ?rs" and "r = ?rs ! i" and "B = drop (Suc i) ?rs"
  have eq: "?rs = A @ r # B" "length A = i" "take (Suc i) ?rs = A @ [r]"
    using id_take_nth_drop[of i ?rs] Suc.prems by (simp_all add: A_def r_def B_def take_Suc_conv_app_nth)
  define pg where "pg = (br_e r - nr) AND NOT (2 ^ k - 1)"
  have "nr \<le> br_e r" using nr(2) unfolding eq(1) by simp
  note F = fits_test[OF k this, folded pg_def]
  show ?case
  proof (cases "fits nr k r")
    case False
    then have "alloc_boot_loop nr (2 ^ k) (Suc i) b = alloc_boot_loop nr (2 ^ k) i b"
      using F(1) by (simp add: Let_def pg_def r_def)
    then show ?thesis using Suc.IH Suc.prems False eq(3) by (simp add: A_def)
  next
    case True
    let ?r = "r\<lparr>br_e := pg\<rparr>"
    have mid: "regions_ok (A @ B)" "br_s r \<le> br_e r" "\<forall>x\<in>set A. br_e x \<le> br_s r" "\<forall>x\<in>set B. br_e r \<le> br_s x"
      using l(3) unfolding eq(1) regions_ok_mid by blast+
    have o: "br_s r \<le> pg" "pg < pg + nr" "pg + nr \<le> br_e r"
      using True F nr(1) by (simp_all add: word_less_nat_alt word_le_nat_alt not_less)
    have upd: "set_region i ?r b = b\<lparr>bootmem_regions := A @ ?r # B\<rparr>" using set_region_mid[OF eq(1), of ?r] eq(2) by simp
    have run: "alloc_boot_loop nr (2 ^ k) (Suc i) b =
        bindR (bootmem_region_add (pg + nr) (br_e r) (b\<lparr>bootmem_regions := A @ ?r # B\<rparr>)) (\<lambda>b. Inr (pg, b))"
      using True F(1) upd by (simp add: Let_def pg_def r_def)
    have ok: "regions_ok ((A @ [?r]) @ B)" using mid o by (auto simp: regions_ok_mid intro: order_trans)
    have sub: "{pg..<pg + nr} \<subseteq> {br_s r..<br_e r}" using o by auto
    have apart: "frames A \<inter> {pg..<pg + nr} = {}"
      by (rule frames_below) (use mid(3) o(1) in \<open>blast intro: order_trans\<close>)
    have apart': "frames B \<inter> {pg..<pg + nr} = {}"
      by (rule frames_above) (use mid(4) o(3) in \<open>blast intro: order_trans\<close>)
    have fr: "frames ?rs = frames A \<union> {br_s r..<br_e r} \<union> frames B" unfolding eq(1) by auto
    have "\<exists>rs. bootmem_region_add (pg + nr) (br_e r) (b\<lparr>bootmem_regions := A @ ?r # B\<rparr>) = Inr (b\<lparr>bootmem_regions := rs\<rparr>) \<and> regions_ok rs \<and>
        frames rs = frames A \<union> {br_s r..<pg} \<union> {pg + nr..<br_e r} \<union> frames B"
    proof (cases "pg + nr < br_e r")
      case True
      have "\<forall>x\<in>set (A @ [?r]). br_e x \<le> pg + nr" using mid(3) o by (auto intro: order_trans)
      from add_between[of "b\<lparr>bootmem_regions := (A @ [?r]) @ B\<rparr>", OF _ _ ok _ True this mid(4)] show ?thesis
        using l(1,2) eq(1) by auto
    next
      case False
      then have "bootmem_region_add (pg + nr) (br_e r) (b\<lparr>bootmem_regions := A @ ?r # B\<rparr>) = Inr (b\<lparr>bootmem_regions := A @ ?r # B\<rparr>)"
        by (simp add: bootmem_region_add_empty not_less)
      then show ?thesis using ok False by auto
    qed
    then obtain rs where rs: "bootmem_region_add (pg + nr) (br_e r) (b\<lparr>bootmem_regions := A @ ?r # B\<rparr>) = Inr (b\<lparr>bootmem_regions := rs\<rparr>)"
      "regions_ok rs" "frames rs = frames A \<union> {br_s r..<pg} \<union> {pg + nr..<br_e r} \<union> frames B" by blast
    have out: "frames rs = frames ?rs - {pg..<pg + nr}" using rs(3) fr apart apart' o by auto
    have "{pg..<pg + nr} \<subseteq> frames ?rs" using sub fr by blast
    moreover have "alloc_boot_loop nr (2 ^ k) (Suc i) b = Inr (pg, b\<lparr>bootmem_regions := rs\<rparr>)" using run rs(1) by simp
    moreover have "\<exists>r\<in>set (take (Suc i) ?rs). fits nr k r" using True eq(3) by auto
    ultimately show ?thesis using rs(2) F(2,4) out by (metis (no_types, lifting))
  qed
qed simp

section \<open>Properties\<close>

text \<open>The first region gives its first page to the array.\<close>

lemma first_region_add:
  assumes "bootmem_region_list b = None" "bootmem_regions b = []" "s < e"
  shows "\<exists>rs. bootmem_region_add s e b = Inr (b\<lparr>bootmem_region_list := Some s, bootmem_regions := rs\<rparr>) \<and> regions_ok rs \<and>
    frames rs = {s..<e} - {s} \<and> length rs \<le> 1"
proof -
  have "unat s < unat e" using assms(3) by (simp add: word_less_nat_alt)
  moreover have "unat e < 2 ^ LENGTH(64)" by (rule unsigned_less)
  ultimately have "unat (s + 1) = Suc (unat s)" by (simp add: unat_word_ariths)
  then have up: "s + 1 \<le> x \<longleftrightarrow> s < x" for x by (simp add: word_le_nat_alt word_less_nat_alt Suc_le_eq)
  have eq: "{s + 1..<e} = {s..<e} - {s}"
    unfolding set_eq_iff atLeastLessThan_iff Diff_iff singleton_iff up by (metis order_less_le)
  show ?thesis
  proof (cases "e \<le> s + 1")
    case True
    then have "{s..<e} - {s} = {}" using eq by simp
    then show ?thesis using True assms by (intro exI[of _ "[]"]) (simp add: bootmem_region_add_def regions_ok_def)
  next
    case False
    then show ?thesis using assms eq
      by (intro exI[of _ "[\<lparr>br_s = s + 1, br_e = e\<rparr>]"]) (simp add: bootmem_region_add_def regions_ok_def MAX_BOOTMEM_REGIONS_def)
  qed
qed

text \<open>Adding a range of memory, before the bad pages are considered.\<close>

lemma add_memory:
  assumes b: "regions_ok (bootmem_regions b)" "bootmem_region_list b = None \<Longrightarrow> bootmem_regions b = []"
    and se: "s < e" "\<forall>r\<in>set (bootmem_regions b). \<not> (s < br_e r \<and> br_s r < e)" "length (bootmem_regions b) < MAX_BOOTMEM_REGIONS"
  defines "taken \<equiv> (if bootmem_region_list b = None then {s} else {})"
  shows "\<exists>l rs. bootmem_region_add s e b = Inr (b\<lparr>bootmem_region_list := Some l, bootmem_regions := rs\<rparr>) \<and> regions_ok rs \<and>
    frames rs = frames (bootmem_regions b) \<union> {s..<e} - taken \<and> length rs \<le> Suc (length (bootmem_regions b))"
proof (cases "bootmem_region_list b")
  case None
  then show ?thesis using first_region_add[OF None b(2)[OF None] se(1)] b(2) by (auto simp: taken_def)
next
  case (Some l)
  then obtain rs where "bootmem_region_add s e b = Inr (b\<lparr>bootmem_regions := rs\<rparr>)" "regions_ok rs"
      "frames rs = frames (bootmem_regions b) \<union> {s..<e}" "length rs = Suc (length (bootmem_regions b))"
    using bootmem_region_add_exact[of b s e] b(1) se by (auto split: if_splits)
  moreover have "b\<lparr>bootmem_regions := rs\<rparr> = b\<lparr>bootmem_region_list := Some l, bootmem_regions := rs\<rparr>" using Some by simp
  ultimately show ?thesis using Some unfolding taken_def by (intro exI[of _ l] exI[of _ rs]) simp
qed

lemma page_bounds:
  assumes "round_pgup ps < round_pgdown pe"
  shows "drop_bit 12 (round_pgup ps) < drop_bit 12 (round_pgdown pe)"
proof -
  have al: "unat (x AND NOT 4095) = unat x div 4096 * 4096" for x :: u64 using align_down[of 12 x] by simp
  show ?thesis
    using assms unfolding round_pgup_def round_pgdown_def word_less_nat_alt unat_drop_bit_eq al by (simp add: drop_bit_eq_div)
qed

text \<open>
  C28. Handing a range of memory to the boot allocator adds exactly the frames that lie completely in the range,
  less the frame that holds the array when there was none yet, and less the frames that the list of bad
  pages names; it ends, does not panic as long as the range meets no region and the array has room, and keeps
  the regions ascending and disjoint.\<close>

theorem init_boot_pages_exact:
  assumes "regions_ok (bootmem_regions b)" "bootmem_region_list b = None \<Longrightarrow> bootmem_regions b = []"
    and s: "s = drop_bit 12 (round_pgup ps)" and e: "e = drop_bit 12 (round_pgdown pe)" and "round_pgup ps < round_pgdown pe"
    and "\<forall>r\<in>set (bootmem_regions b). \<not> (s < br_e r \<and> br_s r < e)"
    and room: "length (bootmem_regions b) + 1 + length opt_badpage \<le> MAX_BOOTMEM_REGIONS"
  shows "\<exists>b'. init_boot_pages opt_badpage ps pe b = Some (Inr b') \<and> regions_ok (bootmem_regions b') \<and> bootmem_region_list b' \<noteq> None \<and>
    frames (bootmem_regions b') =
      frames (bootmem_regions b) \<union> {s..<e} - (if bootmem_region_list b = None then {s} else {}) - bad_frames opt_badpage"
proof -
  let ?b = "b\<lparr>first_valid_mfn := min s (first_valid_mfn b)\<rparr>"
  obtain l rs where a: "bootmem_region_add s e ?b = Inr (?b\<lparr>bootmem_region_list := Some l, bootmem_regions := rs\<rparr>)" "regions_ok rs"
    "frames rs = frames (bootmem_regions b) \<union> {s..<e} - (if bootmem_region_list b = None then {s} else {})"
    "length rs \<le> Suc (length (bootmem_regions b))"
    using add_memory[of ?b s e] assms page_bounds[OF assms(5)] by auto
  let ?c = "?b\<lparr>bootmem_region_list := Some l, bootmem_regions := rs\<rparr>"
  obtain rs' where z: "zap_bad_pages opt_badpage ?c = Some (Inr (?c\<lparr>bootmem_regions := rs'\<rparr>))" "regions_ok rs'"
    "frames rs' = frames rs - bad_frames opt_badpage"
    using zap_bad_pages_exact[of ?c opt_badpage] a(2,4) room by auto
  have "init_boot_pages opt_badpage ps pe b = Some (Inr (?c\<lparr>bootmem_regions := rs'\<rparr>))"
    using assms(5) a(1) z(1) by (simp add: init_boot_pages_def Let_def s e)
  then show ?thesis using z(2,3) a(3) by simp
qed

definition demo_boot_memory :: boot_state where
  "demo_boot_memory = \<lparr>bootmem_region_list = None, bootmem_regions = [], first_valid_mfn = 2 ^ 64 - 1\<rparr>"

lemma demo_bad: "bad_frames ''0x12-0x13'' = {18..<20}"
proof -
  have "bad_range ''0x12-0x13'' = (18, 19, [])" by code_simp
  then show ?thesis by (simp add: bad_frames.simps[of "''0x12-0x13''"] bad_frames.simps[of "[]"])
qed

theorem init_boot_pages_exact_witness:
  "\<exists>b'. init_boot_pages ''0x12-0x13'' 65536 131072 demo_boot_memory = Some (Inr b') \<and>
    frames (bootmem_regions b') = {16..<32} - {16} - {18..<20}"
proof -
  have r: "round_pgup 65536 = 65536" "round_pgdown 131072 = 131072" "drop_bit 12 (65536 :: u64) = 16" "drop_bit 12 (131072 :: u64) = 32"
    by code_simp+
  show ?thesis
    using init_boot_pages_exact[of demo_boot_memory 16 65536 32 131072 "''0x12-0x13''"]
    unfolding r demo_bad by (auto simp: demo_boot_memory_def regions_ok_def MAX_BOOTMEM_REGIONS_def)
qed

text \<open>
  C29. While no region ends below the number of frames asked for, an allocation succeeds exactly when some region has
  room at an aligned frame; it returns an aligned run of free frames and removes exactly that run. Otherwise it
  panics.\<close>

theorem alloc_boot_pages_exact:
  assumes "bootmem_region_list b \<noteq> None" "length (bootmem_regions b) < MAX_BOOTMEM_REGIONS" "regions_ok (bootmem_regions b)"
    and "0 < nr" "\<forall>r\<in>set (bootmem_regions b). nr \<le> br_e r" "k < 64"
  shows "if \<exists>r\<in>set (bootmem_regions b). fits nr k r
    then \<exists>pg b'. alloc_boot_pages nr (2 ^ k) b = Inr (pg, b') \<and> regions_ok (bootmem_regions b') \<and> 2 ^ k dvd unat pg \<and>
      unat (pg + nr) = unat pg + unat nr \<and> {pg..<pg + nr} \<subseteq> frames (bootmem_regions b) \<and>
      frames (bootmem_regions b') = frames (bootmem_regions b) - {pg..<pg + nr}
    else alloc_boot_pages nr (2 ^ k) b = Inl Bug_on"
proof -
  have t: "take (length (bootmem_regions b)) (bootmem_regions b) = bootmem_regions b" by simp
  show ?thesis
    using alloc_boot_loop_exact[OF assms order_refl] unfolding alloc_boot_pages_def t by (auto split: if_splits)
qed

definition demo_boot_regions :: boot_state where
  "demo_boot_regions = \<lparr>bootmem_region_list = Some 16, bootmem_regions = [\<lparr>br_s = 17, br_e = 18\<rparr>, \<lparr>br_s = 20, br_e = 31\<rparr>], first_valid_mfn = 16\<rparr>"

theorem alloc_boot_pages_exact_witness:
  "\<exists>pg b'. alloc_boot_pages 4 (2 ^ 2) demo_boot_regions = Inr (pg, b') \<and> 4 dvd unat pg \<and> {pg..<pg + 4} \<subseteq> frames (bootmem_regions demo_boot_regions)"
proof -
  have "fits 4 2 \<lparr>br_s = 20, br_e = 31\<rparr>" unfolding fits_def by (intro exI[of _ 20]) simp
  then have "\<exists>r\<in>set (bootmem_regions demo_boot_regions). fits 4 2 r" by (simp add: demo_boot_regions_def)
  then show ?thesis
    using alloc_boot_pages_exact[of demo_boot_regions 4 2]
    by (auto simp: demo_boot_regions_def regions_ok_def MAX_BOOTMEM_REGIONS_def)
qed

text \<open>
  The test for room subtracts without looking for a borrow: when the only region ends below the number of frames
  asked for, the subtraction wraps and the allocation hands out frames far above all memory instead of failing.\<close>

lemma alloc_boot_pages_wraps:
  assumes "bootmem_region_list b \<noteq> None" "bootmem_regions b = [r]" "br_s r \<le> br_e r" "br_e r < nr"
  shows "\<exists>b'. alloc_boot_pages nr 1 b = Inr (br_e r - nr, b') \<and> br_e r < br_e r - nr"
proof -
  have "unat (br_e r - nr) = unat (br_e r) + 2 ^ 64 - unat nr"
    using assms(4) by (simp add: unat_sub_if' word_less_nat_alt)
  moreover have "unat nr < 2 ^ LENGTH(64)" by (rule unsigned_less)
  ultimately have lt: "br_e r < br_e r - nr" by (simp add: word_less_nat_alt)
  then have "\<not> br_e r - nr < br_s r" using assms(3) by auto
  then show ?thesis
    using assms lt by (simp add: alloc_boot_pages_def bootmem_region_add_def set_region_def Let_def)
qed

lemma alloc_boot_pages_wraps_witness:
  "\<exists>b'. alloc_boot_pages 5 1 \<lparr>bootmem_region_list = Some 0, bootmem_regions = [\<lparr>br_s = 1, br_e = 3\<rparr>], first_valid_mfn = 0\<rparr> =
    Inr (- 2, b')"
  using alloc_boot_pages_wraps[of "\<lparr>bootmem_region_list = Some 0, bootmem_regions = [\<lparr>br_s = 1, br_e = 3\<rparr>], first_valid_mfn = 0\<rparr>"
      "\<lparr>br_s = 1, br_e = 3\<rparr>" 5] by simp

end
