(* ===== verification/Page_Init.thy ===== *)
theory Page_Init
  imports Page_Owner Boot_Memory
begin

unbundle bit_operations_syntax

text \<open>
  Handing memory over to the buddy heap, \<open>common/page_alloc.c\<close>: the arrays of a node are placed when its first
  page arrives, pages are freed to the heap one by one, and at the end of booting everything the boot allocator
  still has goes to the heap.
\<close>

section \<open>The arrays of a node\<close>

text \<open>
  The lists of a node (40 zones, 19 orders, 16 bytes each) and its counters (40 words) fill four pages. The last
  two branches of the source depend on these sizes only: the orders of both are 2, so the arrays come from the
  hypervisor's heap when they fit nowhere else.
\<close>

definition needed_pages :: nat where "needed_pages = (16 * 40 * 19 + 8 * 40 + 4096 - 1) div 4096"

definition clear_node :: "nat \<Rightarrow> heap_state \<Rightarrow> heap_state" where
  "clear_node node h = h\<lparr>avail := (avail h)(node \<mapsto> (\<lambda>_. 0)), heaps := (\<lambda>(n, z, j). if n = node then [] else heaps h (n, z, j))\<rparr>"

text \<open>
  \<open>fi\<close> is \<open>first_node_initialised\<close>, \<open>dm_end\<close> the frame behind the direct mapping. The result: pages used, \<open>*use_tail\<close>, and
  the state.
\<close>

definition init_node_heap ::
  "heap_env \<Rightarrow> domheap_env \<Rightarrow> nat \<Rightarrow> nat \<Rightarrow> nat \<Rightarrow> nat \<Rightarrow> bool \<Rightarrow> bool \<times> memory_state
     \<Rightarrow> (nat \<times> bool \<times> bool \<times> memory_state) result option" where
  "init_node_heap env de dm_end node mfn nr use_tail fs =
     (case fs of (fi, s) \<Rightarrow>
        if \<not> fi then Some (Inr (0, use_tail, True, s\<lparr>heap := clear_node node (heap s)\<rparr>))
        else if use_tail \<and> nr \<ge> needed_pages \<and> mfn + nr \<le> dm_end
        then Some (Inr (needed_pages, True, fi, s\<lparr>heap := clear_node node (heap s)\<rparr>))
        else if nr \<ge> needed_pages \<and> mfn + needed_pages \<le> dm_end
        then Some (Inr (needed_pages, False, fi, s\<lparr>heap := clear_node node (heap s)\<rparr>))
        else
          bindO (alloc_xenheap_pages env de 2 0 s) (\<lambda>(pg, s).
            if pg = None then Some (Inl Bug_on) else Some (Inr (0, use_tail, fi, s\<lparr>heap := clear_node node (heap s)\<rparr>))))"

text \<open>The result for 0 is not defined in the source; it is asked for 0 only when the range starts at frame 0.\<close>

fun find_first_set_bit :: "nat \<Rightarrow> nat" where
  "find_first_set_bit n = (if n = 0 \<or> odd n then 0 else Suc (find_first_set_bit (n div 2)))"

declare find_first_set_bit.simps [simp del]

text \<open>May the arrays go to the end of the range?\<close>

definition tail_first :: "heap_env \<Rightarrow> nat \<Rightarrow> nat \<Rightarrow> nat \<Rightarrow> bool" where
  "tail_first env nid s e \<longleftrightarrow> nid = phys_to_nid env (e - 1) \<and> s mod 2 ^ MAX_ORDER = 0 \<and> find_first_set_bit e \<le> find_first_set_bit s"

section \<open>A range of pages\<close>

text \<open>What happens to page \<open>i\<close>: the loop ends, goes on behind the arrays, or frees the page, with fewer pages to go.\<close>

datatype next_page = Stop | Skip nat | Free_page nat

definition place_node ::
  "heap_env \<Rightarrow> domheap_env \<Rightarrow> nat \<Rightarrow> nat \<Rightarrow> nat \<Rightarrow> nat \<Rightarrow> bool \<times> memory_state \<Rightarrow> (next_page \<times> bool \<times> memory_state) result option" where
  "place_node env de dm_end pg i nr_pages fs =
     (let nid = phys_to_nid env (pg + i); use_tail = tail_first env nid (pg + i) (pg + nr_pages) in
      if nid \<ge> MAX_NUMNODES then Some (Inl Out_of_bounds)
      else if avail (heap (snd fs)) nid \<noteq> None then Some (Inr (Free_page 0, fs))
      else
        bindO (init_node_heap env de dm_end nid (pg + i) (nr_pages - i) use_tail fs) (\<lambda>(n, use_tail, fs).
          if i + n > nr_pages then Some (Inl Bug_on)
          else if n \<noteq> 0 \<and> \<not> use_tail then Some (Inr (Skip n, fs))
          else if i + n = nr_pages then Some (Inr (Stop, fs))
          else Some (Inr (Free_page n, fs))))"

function init_heap_loop ::
  "heap_env \<Rightarrow> domheap_env \<Rightarrow> nat \<Rightarrow> nat \<Rightarrow> nat \<Rightarrow> nat \<Rightarrow> bool \<times> memory_state \<Rightarrow> (bool \<times> memory_state) result option" where
  "init_heap_loop env de dm_end pg i nr_pages fs =
     (if \<not> i < nr_pages then Some (Inr fs)
      else
        case place_node env de dm_end pg i nr_pages fs of
          None \<Rightarrow> None
        | Some (Inl e) \<Rightarrow> Some (Inl e)
        | Some (Inr (Stop, fs)) \<Rightarrow> Some (Inr fs)
        | Some (Inr (Skip n, fs)) \<Rightarrow> init_heap_loop env de dm_end pg (Suc (i + (n - 1))) nr_pages fs
        | Some (Inr (Free_page n, fs)) \<Rightarrow>
            (case free_heap_pages env (pg + i) 0 (heap (snd fs)) of
               None \<Rightarrow> None
             | Some (Inl e) \<Rightarrow> Some (Inl e)
             | Some (Inr h) \<Rightarrow> init_heap_loop env de dm_end pg (Suc i) (nr_pages - n) (fst fs, (snd fs)\<lparr>heap := h\<rparr>)))"
  by pat_completeness auto
termination
  by (relation "measure (\<lambda>(env, de, dm, pg, i, nr, fs). nr - i)") auto

declare init_heap_loop.simps [simp del]

definition init_heap_pages ::
  "heap_env \<Rightarrow> domheap_env \<Rightarrow> nat \<Rightarrow> nat \<Rightarrow> nat \<Rightarrow> bool \<times> memory_state \<Rightarrow> (bool \<times> memory_state) result option" where
  "init_heap_pages env de dm_end pg nr_pages fs = init_heap_loop env de dm_end pg 0 nr_pages fs"

definition init_domheap_pages ::
  "heap_env \<Rightarrow> domheap_env \<Rightarrow> nat \<Rightarrow> u64 \<Rightarrow> u64 \<Rightarrow> bool \<times> memory_state \<Rightarrow> (bool \<times> memory_state) result option" where
  "init_domheap_pages env de dm_end ps pe fs =
     (let smfn = drop_bit 12 (round_pgup ps); emfn = drop_bit 12 (round_pgdown pe)
      in init_heap_pages env de dm_end (unat smfn) (unat (emfn - smfn)) fs)"

definition init_xenheap_pages ::
  "heap_env \<Rightarrow> domheap_env \<Rightarrow> nat \<Rightarrow> u64 \<Rightarrow> u64 \<Rightarrow> bool \<times> memory_state \<Rightarrow> (bool \<times> memory_state) result option" where
  "init_xenheap_pages = init_domheap_pages"

section \<open>The end of booting\<close>

text \<open>The regions in the order given; empty ones are skipped.\<close>

fun hand_over ::
  "heap_env \<Rightarrow> domheap_env \<Rightarrow> nat \<Rightarrow> bootmem_region list \<Rightarrow> bool \<times> memory_state \<Rightarrow> (bool \<times> memory_state) result option" where
  "hand_over env de dm_end [] fs = Some (Inr fs)"
| "hand_over env de dm_end (r # rs) fs =
     bindO (if br_s r < br_e r then init_heap_pages env de dm_end (unat (br_s r)) (unat (br_e r - br_s r)) fs else Some (Inr fs))
       (hand_over env de dm_end rs)"

text \<open>\<open>node0_pages\<close> is the number of pages node 0 spans. The result includes the new \<open>dma_bitsize\<close>.\<close>

definition end_boot_allocator ::
  "heap_env \<Rightarrow> domheap_env \<Rightarrow> nat \<Rightarrow> nat \<Rightarrow> nat \<Rightarrow> boot_state \<Rightarrow> bool \<times> memory_state \<Rightarrow> (nat \<times> bool \<times> memory_state) result option" where
  "end_boot_allocator env de dm_end cpu0_node node0_pages b fs =
     (let rs = bootmem_regions b;
          i = length (takeWhile (\<lambda>r. \<not> (br_s r < br_e r \<and> phys_to_nid env (unat (br_s r)) = cpu0_node)) rs);
          rs' = (if i < length rs then rs[i := (rs ! i)\<lparr>br_e := br_s (rs ! i)\<rparr>] else rs);
          dma = (if dma_bitsize de = 0 \<and> length (node_online_map env) > 1
                 then min (fls node0_pages - 1 + 12 - 2) 32 else dma_bitsize de)
      in
      bindO (if i < length rs then hand_over env de dm_end [rs ! i] fs else Some (Inr fs)) (\<lambda>fs.
      bindO (hand_over env de dm_end (rev rs') fs) (\<lambda>fs.
      case bootmem_region_list b of
        None \<Rightarrow> Some (Inl Null_deref)
      | Some l \<Rightarrow> bindO (init_heap_pages env de dm_end (unat l) 1 fs) (\<lambda>fs. Some (Inr (dma, fs))))))"

text \<open>
  Scrubbing what is free, from the lowest frame up, with nothing else running: the source drops the lock between
  pages and tests the state a second time under it.
\<close>

definition scrub_heap_pages :: "heap_env \<Rightarrow> bool \<Rightarrow> nat \<Rightarrow> nat \<Rightarrow> memory_state \<Rightarrow> memory_state" where
  "scrub_heap_pages env opt_bootscrub first_valid max_page s =
     (if \<not> opt_bootscrub then s
      else s\<lparr>scrubbed := scrubbed s @
        filter (\<lambda>m. frame_valid env m \<and> page_state_is (frame_table (heap s) m) PGC_state_free) [first_valid..<max_page]\<rparr>)"

section \<open>A node that is not there yet\<close>

lemma empty_node:
  assumes ok: "lists_ok env h {}" and n: "avail h node = None"
  shows "heaps h (node, z, j) = []" "m \<in> free_set h \<Longrightarrow> phys_to_nid env m \<noteq> node"
proof -
  show "heaps h (node, z, j) = []"
  proof (rule ccontr)
    assume "heaps h (node, z, j) \<noteq> []"
    then obtain p where "p \<in> set (heaps h (node, z, j))" by (cases "heaps h (node, z, j)") auto
    from block_okD(3)[OF lists_okD(2)[OF ok this]] n show False by simp
  qed
  assume "m \<in> free_set h"
  then obtain p j where p: "(p, j) \<in> blocks h" "m \<in> span p j" using lists_okD(5)[OF ok] by auto
  note blk = block_listed(2)[OF ok p(1)]
  have eq: "phys_to_nid env m = phys_to_nid env p" using block_pages[OF blk] p(2) by blast
  have "avail h (phys_to_nid env m) \<noteq> None" unfolding eq by (rule block_okD(3)[OF blk])
  then show "phys_to_nid env m \<noteq> node" using n by metis
qed

lemma clear_node_ok:
  assumes ok: "heap_ok env h" and n: "avail h node = None"
  shows "heap_ok env (clear_node node h)" "free_set (clear_node node h) = free_set h" "frame_table (clear_node node h) = frame_table h"
    "avail (clear_node node h) node \<noteq> None" "avail h k \<noteq> None \<Longrightarrow> avail (clear_node node h) k \<noteq> None"
proof -
  let ?h = "clear_node node h"
  have lo: "lists_ok env h {}" using ok by (simp add: heap_ok_def)
  show ft: "frame_table ?h = frame_table h" and F: "free_set ?h = free_set h" by (simp_all add: clear_node_def free_set_def)
  have hp: "heaps ?h = heaps h" using empty_node(1)[OF lo n] by (auto simp: clear_node_def fun_eq_iff)
  have b: "blocks ?h = blocks h" by (simp add: blocks_def hp)
  have bo: "block_ok env ?h k z j p" if "block_ok env h k z j p" for k z j p
    using that n by (auto simp: block_ok_def clear_node_def)
  have "lists_ok env ?h {}"
    unfolding lists_ok_def b hp F ft
  proof (intro conjI allI impI)
    show "distinct (heaps h i)" for i by (rule lists_okD(1)[OF lo])
    show "block_ok env ?h k z j p" "PFN_ORDER (frame_table h p) = j" if "p \<in> set (heaps h (k, z, j))" for k z j p
      using bo[OF lists_okD(2)[OF lo that]] lists_okD(3)[OF lo that] by blast+
    show "p = q" "j = i" if "(p, j) \<in> blocks h" "(q, i) \<in> blocks h" "span p j \<inter> span q i \<noteq> {}" for p j q i
      using lists_okD(4)[OF lo that(1,2)] that(3) by blast+
    show "free_set h = (\<Union>(p, j)\<in>blocks h. span p j) \<union> {}" by (rule lists_okD(5)[OF lo])
    show "span p j \<inter> {} = {}" for p j by simp
    show "(buddy p j, j) \<notin> blocks h" if "(p, j) \<in> blocks h" "j < MAX_ORDER" "phys_to_nid env (buddy p j) = phys_to_nid env p" for p j
      by (rule lists_okD(7)[OF lo that])
  qed
  moreover have "counters_ok env ?h"
    unfolding counters_ok_def
  proof (intro conjI allI impI)
    show "finite (free_set ?h)" "total_avail_pages ?h = int (card (free_set ?h))"
      using ok F by (simp_all add: heap_ok_def counters_ok_def clear_node_def)
    show "a z = card {m \<in> free_set ?h. phys_to_nid env m = k \<and> zone_of m = z}" if "avail ?h k = Some a" "z < NR_ZONES" for k a z
    proof (cases "k = node")
      case True
      then have e: "{m \<in> free_set ?h. phys_to_nid env m = k \<and> zone_of m = z} = {}" using empty_node(2)[OF lo n] F by auto
      have "a = (\<lambda>_. 0)" using that(1) True by (simp add: clear_node_def)
      then show ?thesis unfolding e by simp
    next
      case False
      then show ?thesis using that ok F by (simp add: heap_ok_def counters_ok_def clear_node_def)
    qed
  qed
  ultimately show "heap_ok env ?h" by (simp add: heap_ok_def)
  show "avail ?h node \<noteq> None" "avail h k \<noteq> None \<Longrightarrow> avail ?h k \<noteq> None" by (simp_all add: clear_node_def)
qed

section \<open>Freeing the pages of a range\<close>

text \<open>A page that may go to the heap once its node is there.\<close>

definition handable :: "heap_env \<Rightarrow> heap_state \<Rightarrow> nat \<Rightarrow> bool" where
  "handable env h m \<longleftrightarrow> 0 < m \<and> zone_of m < NR_ZONES \<and> phys_to_nid env m < MAX_NUMNODES \<and> frame_valid env m \<and>
     pgc_state (frame_table h m) = PGC_state_inuse \<and> \<not> pgc_broken (frame_table h m) \<and> \<not> pgc_xen_heap (frame_table h m)"

lemma handable_owned: "handable env h m \<Longrightarrow> avail h (phys_to_nid env m) \<noteq> None \<Longrightarrow> owned_block env h m 0"
proof -
  have "span m 0 = {m}" by (auto simp: span_def)
  then show "handable env h m \<Longrightarrow> avail h (phys_to_nid env m) \<noteq> None \<Longrightarrow> owned_block env h m 0"
    by (simp add: handable_def owned_block_def)
qed

lemma handable_same: "frame_table h' m = frame_table h m \<Longrightarrow> handable env h' m = handable env h m"
  by (simp add: handable_def)

lemma outside_same_trans:
  "outside_same F s t \<Longrightarrow> outside_same G t u \<Longrightarrow> F \<subseteq> G \<Longrightarrow> outside_same G s u"
  unfolding outside_same_def by (metis subsetD)

lemma init_loop_known:
  assumes "heap_ok env (heap s)" "\<forall>m\<in>{pg + i..<pg + nr}. handable env (heap s) m \<and> avail (heap s) (phys_to_nid env m) \<noteq> None"
  shows "\<exists>h. init_heap_loop env de dm_end pg i nr (fi, s) = Some (Inr (fi, s\<lparr>heap := h\<rparr>)) \<and> heap_ok env h \<and>
    free_set h = free_set (heap s) \<union> {pg + i..<pg + nr} \<and> outside_same (free_set h) (heap s) h"
  using assms
proof (induction "nr - i" arbitrary: i s)
  case 0
  then have "init_heap_loop env de dm_end pg i nr (fi, s) = Some (Inr (fi, s\<lparr>heap := heap s\<rparr>))"
    by (subst init_heap_loop.simps) simp
  then show ?case using 0 by (intro exI[of _ "heap s"]) (simp add: outside_same_def)
next
  case (Suc x)
  have i: "i < nr" using Suc.hyps(2) by simp
  have m: "handable env (heap s) (pg + i)" "avail (heap s) (phys_to_nid env (pg + i)) \<noteq> None" using Suc.prems(2) i by simp_all
  from free_heap_pages_ok[OF Suc.prems(1) handable_owned[OF m]] obtain h1 where h1: "free_heap_pages env (pg + i) 0 (heap s) = Some (Inr h1)"
    "heap_ok env h1" "free_set h1 = free_set (heap s) \<union> span (pg + i) 0" "outside_same (free_set h1) (heap s) h1" by blast
  have s0: "span (pg + i) 0 = {pg + i}" by (auto simp: span_def)
  have av: "avail h1 n = None \<longleftrightarrow> avail (heap s) n = None" for n using h1(4) unfolding outside_same_def by blast
  have rest: "handable env h1 k \<and> avail h1 (phys_to_nid env k) \<noteq> None" if "k \<in> {pg + Suc i..<pg + nr}" for k
  proof -
    have k: "handable env (heap s) k" "avail (heap s) (phys_to_nid env k) \<noteq> None" using Suc.prems(2) that by simp_all
    then have "k \<notin> free_set h1" unfolding h1(3) s0 using that by (auto simp: handable_def free_set_def)
    then have "frame_table h1 k = frame_table (heap s) k" using h1(4) unfolding outside_same_def by blast
    then show ?thesis using k handable_same[of h1 k "heap s" env] av[of "phys_to_nid env k"] by simp
  qed
  have x: "x = nr - Suc i" using Suc.hyps(2) by simp
  have later: "\<forall>k\<in>{pg + Suc i..<pg + nr}. handable env (heap (s\<lparr>heap := h1\<rparr>)) k \<and> avail (heap (s\<lparr>heap := h1\<rparr>)) (phys_to_nid env k) \<noteq> None"
    using rest by simp
  from Suc.hyps(1)[OF x _ later] h1(2)
  have "\<exists>h. init_heap_loop env de dm_end pg (Suc i) nr (fi, s\<lparr>heap := h1\<rparr>) = Some (Inr (fi, s\<lparr>heap := h\<rparr>)) \<and> heap_ok env h \<and>
    free_set h = free_set h1 \<union> {pg + Suc i..<pg + nr} \<and> outside_same (free_set h) h1 h" by simp
  then obtain h where h: "init_heap_loop env de dm_end pg (Suc i) nr (fi, s\<lparr>heap := h1\<rparr>) = Some (Inr (fi, s\<lparr>heap := h\<rparr>))" "heap_ok env h"
    "free_set h = free_set h1 \<union> {pg + Suc i..<pg + nr}" "outside_same (free_set h) h1 h" by blast
  have "phys_to_nid env (pg + i) < MAX_NUMNODES" using m(1) by (simp add: handable_def)
  then have "place_node env de dm_end pg i nr (fi, s) = Some (Inr (Free_page 0, fi, s))"
    using m(2) by (auto simp: place_node_def Let_def)
  then have "init_heap_loop env de dm_end pg i nr (fi, s) = init_heap_loop env de dm_end pg (Suc i) nr (fi, s\<lparr>heap := h1\<rparr>)"
    using i h1(1) by (subst init_heap_loop.simps) simp
  moreover have "free_set h = free_set (heap s) \<union> {pg + i..<pg + nr}" using h(3) h1(3) s0 i by auto
  moreover have "outside_same (free_set h) (heap s) h" using outside_same_trans[OF h1(4) h(4)] h(3) by blast
  ultimately show ?case using h(1,2) by auto
qed

text \<open>The pages that hold the arrays of a new node.\<close>

definition kept_pages :: "heap_env \<Rightarrow> nat \<Rightarrow> nat \<Rightarrow> bool \<Rightarrow> heap_state \<Rightarrow> nat set" where
  "kept_pages env pg nr fi h =
     (if nr = 0 \<or> avail h (phys_to_nid env pg) \<noteq> None \<or> \<not> fi then {}
      else if tail_first env (phys_to_nid env pg) pg (pg + nr) then {pg + nr - 4..<pg + nr} else {pg..<pg + 4})"

lemma init_loop_free:
  assumes "place_node env de dm_end pg 0 nr fs = Some (Inr (Free_page k, fs'))" "k < nr" "phys_to_nid env pg < MAX_NUMNODES"
    "avail (heap (snd fs')) (phys_to_nid env pg) \<noteq> None"
  shows "init_heap_loop env de dm_end pg 0 nr fs = init_heap_loop env de dm_end pg 0 (nr - k) fs'"
proof -
  have "place_node env de dm_end pg 0 (nr - k) fs' = Some (Inr (Free_page 0, fs'))"
    using assms(3,4) by (simp add: place_node_def Let_def)
  then show ?thesis using assms(1,2) by (simp add: init_heap_loop.simps[of env de dm_end pg 0] split: option.split sum.split)
qed

text \<open>Where the arrays go, and what is left of the loop.\<close>

lemma init_new_node:
  assumes n: "phys_to_nid env pg < MAX_NUMNODES" "avail (heap s) (phys_to_nid env pg) = None" and nr: "0 < nr"
    and room: "\<not> fi \<or> 4 \<le> nr \<and> pg + nr \<le> dm_end"
  defines "s' \<equiv> s\<lparr>heap := clear_node (phys_to_nid env pg) (heap s)\<rparr>"
  shows "init_heap_loop env de dm_end pg 0 nr (fi, s) =
    (if \<not> fi then init_heap_loop env de dm_end pg 0 nr (True, s')
     else if tail_first env (phys_to_nid env pg) pg (pg + nr) then init_heap_loop env de dm_end pg 0 (nr - 4) (True, s')
     else init_heap_loop env de dm_end pg 4 nr (True, s'))"
proof -
  have np: "needed_pages = 4" by (simp add: needed_pages_def)
  have av: "avail (heap (snd (True, s'))) (phys_to_nid env pg) \<noteq> None" by (simp add: s'_def clear_node_def)
  consider "\<not> fi" | "fi" "tail_first env (phys_to_nid env pg) pg (pg + nr)" "nr = 4"
    | "fi" "tail_first env (phys_to_nid env pg) pg (pg + nr)" "4 < nr" | "fi" "\<not> tail_first env (phys_to_nid env pg) pg (pg + nr)"
    using room by (metis le_neq_implies_less)
  then show ?thesis
  proof cases
    case 1
    then have "place_node env de dm_end pg 0 nr (fi, s) = Some (Inr (Free_page 0, True, s'))"
      using n nr by (simp add: place_node_def init_node_heap_def Let_def s'_def)
    from init_loop_free[OF this nr n(1) av] 1 show ?thesis by simp
  next
    case 2
    then have "place_node env de dm_end pg 0 nr (fi, s) = Some (Inr (Stop, True, s'))"
      using n room np by (simp add: place_node_def init_node_heap_def Let_def s'_def)
    then show ?thesis using 2 by (simp add: init_heap_loop.simps[of env de dm_end pg 0])
  next
    case 3
    then have "place_node env de dm_end pg 0 nr (fi, s) = Some (Inr (Free_page 4, True, s'))"
      using n room np by (simp add: place_node_def init_node_heap_def Let_def s'_def)
    from init_loop_free[OF this 3(3) n(1) av] 3 show ?thesis by simp
  next
    case 4
    then have "place_node env de dm_end pg 0 nr (fi, s) = Some (Inr (Skip 4, True, s'))"
      using n room np by (simp add: place_node_def init_node_heap_def Let_def s'_def)
    then show ?thesis using 4 nr by (simp add: init_heap_loop.simps[of env de dm_end pg 0])
  qed
qed

lemma init_heap_range:
  assumes ok: "heap_ok env (heap s)" and pages: "\<forall>m\<in>{pg..<pg + nr}. handable env (heap s) m \<and> phys_to_nid env m = phys_to_nid env pg"
    and room: "avail (heap s) (phys_to_nid env pg) \<noteq> None \<or> \<not> fi \<or> 4 \<le> nr \<and> pg + nr \<le> dm_end"
  shows "\<exists>h. init_heap_pages env de dm_end pg nr (fi, s) = Some (Inr (fi \<or> 0 < nr \<and> avail (heap s) (phys_to_nid env pg) = None, s\<lparr>heap := h\<rparr>)) \<and>
    heap_ok env h \<and> free_set h = free_set (heap s) \<union> ({pg..<pg + nr} - kept_pages env pg nr fi (heap s)) \<and>
    (\<forall>m. m \<notin> free_set h \<longrightarrow> frame_table h m = frame_table (heap s) m) \<and>
    (\<forall>k. avail h k = None \<longleftrightarrow> avail (heap s) k = None \<and> \<not> (0 < nr \<and> k = phys_to_nid env pg))"
proof -
  let ?n = "phys_to_nid env pg" and ?c = "clear_node (phys_to_nid env pg) (heap s)"
  have pg: "handable env (heap s) m" "phys_to_nid env m = ?n" if "m \<in> {pg..<pg + nr}" for m using pages that by blast+
  consider "nr = 0" | "0 < nr" "avail (heap s) ?n \<noteq> None" | "0 < nr" "avail (heap s) ?n = None" by blast
  then show ?thesis
  proof cases
    case 1
    then have "init_heap_pages env de dm_end pg nr (fi, s) = Some (Inr (fi, s\<lparr>heap := heap s\<rparr>))"
      unfolding init_heap_pages_def by (subst init_heap_loop.simps) simp
    then show ?thesis using 1 ok by (intro exI[of _ "heap s"]) (simp add: kept_pages_def)
  next
    case 2
    have "\<forall>m\<in>{pg + 0..<pg + nr}. handable env (heap s) m \<and> avail (heap s) (phys_to_nid env m) \<noteq> None"
      using pg 2(2) by (metis add.right_neutral)
    from init_loop_known[OF ok this, of de dm_end fi] 2 show ?thesis
      unfolding init_heap_pages_def outside_same_def by (auto simp: kept_pages_def)
  next
    case 3
    note C = clear_node_ok[OF ok 3(2)]
    have rm: "\<not> fi \<or> 4 \<le> nr \<and> pg + nr \<le> dm_end" using room 3(2) by blast
    have n: "?n < MAX_NUMNODES" using pg(1)[of pg] 3(1) by (simp add: handable_def)
    define i k where "i = (if fi \<and> \<not> tail_first env ?n pg (pg + nr) then 4 else 0 :: nat)"
      and "k = (if fi \<and> tail_first env ?n pg (pg + nr) then nr - 4 else nr)"
    have run: "init_heap_loop env de dm_end pg 0 nr (fi, s) = init_heap_loop env de dm_end pg i k (True, s\<lparr>heap := ?c\<rparr>)"
      using init_new_node[OF n 3(2,1) rm, of de] by (simp add: i_def k_def)
    have rng: "{pg + i..<pg + k} = {pg..<pg + nr} - kept_pages env pg nr fi (heap s)"
      using 3 rm by (auto simp: kept_pages_def i_def k_def)
    have "\<forall>m\<in>{pg + i..<pg + k}. handable env (heap (s\<lparr>heap := ?c\<rparr>)) m \<and> avail (heap (s\<lparr>heap := ?c\<rparr>)) (phys_to_nid env m) \<noteq> None"
    proof
      fix m assume "m \<in> {pg + i..<pg + k}"
      then have "m \<in> {pg..<pg + nr}" unfolding rng by blast
      note m = pg[OF this]
      show "handable env (heap (s\<lparr>heap := ?c\<rparr>)) m \<and> avail (heap (s\<lparr>heap := ?c\<rparr>)) (phys_to_nid env m) \<noteq> None"
        unfolding m(2) using m(1) C(3,4) handable_same[of ?c m "heap s" env] by simp
    qed
    from init_loop_known[OF _ this, of de dm_end True] C(1) obtain h where
      h: "init_heap_loop env de dm_end pg i k (True, s\<lparr>heap := ?c\<rparr>) = Some (Inr (True, s\<lparr>heap := h\<rparr>))" "heap_ok env h"
      "free_set h = free_set ?c \<union> {pg + i..<pg + k}" "outside_same (free_set h) ?c h" by auto
    have "avail h x = None \<longleftrightarrow> avail (heap s) x = None \<and> x \<noteq> ?n" for x
      using h(4) unfolding outside_same_def by (auto simp: clear_node_def)
    moreover have "frame_table h m = frame_table (heap s) m" if "m \<notin> free_set h" for m using h(4) that C(3) unfolding outside_same_def by simp
    ultimately show ?thesis using h(1-3) run C(2) rng 3 unfolding init_heap_pages_def by (intro exI[of _ h]) simp
  qed
qed

section \<open>Everything goes to the heap\<close>

lemma unat_range: "unat ` {a..<b} = {unat a..<unat (b :: u64)}"
proof
  show "unat ` {a..<b} \<subseteq> {unat a..<unat b}" by (auto simp: word_le_nat_alt word_less_nat_alt)
  show "{unat a..<unat b} \<subseteq> unat ` {a..<b}"
  proof
    fix m assume m: "m \<in> {unat a..<unat b}"
    have "unat b < 2 ^ LENGTH(64)" by (rule unsigned_less)
    then have "m < 2 ^ LENGTH(64)" using m by simp
    then have "unat (word_of_nat m :: u64) = m" by (simp add: unsigned_of_nat take_bit_nat_eq_self)
    then show "m \<in> unat ` {a..<b}" using m by (intro image_eqI[of _ _ "word_of_nat m"]) (simp_all add: word_le_nat_alt word_less_nat_alt)
  qed
qed

lemma handable_kept:
  assumes "handable env h m" "m \<notin> X" "free_set h' = free_set h \<union> X" "\<forall>m. m \<notin> free_set h' \<longrightarrow> frame_table h' m = frame_table h m"
  shows "handable env h' m"
proof -
  have "m \<notin> free_set h'" using assms(1-3) by (auto simp: handable_def free_set_def)
  then show ?thesis using assms(1,4) handable_same by metis
qed

text \<open>
  What the hand-over keeps, on a machine with the single node \<open>n\<close>: the heap is in order, exactly the frames in
  \<open>X\<close> have been added to it, and the static arrays are still there for the node.
\<close>

definition handed :: "heap_env \<Rightarrow> nat \<Rightarrow> nat set \<Rightarrow> heap_state \<Rightarrow> bool \<times> heap_state \<Rightarrow> bool" where
  "handed env n X h r \<longleftrightarrow> (case r of (fi, h') \<Rightarrow> heap_ok env h' \<and> free_set h' = free_set h \<union> X \<and>
     (\<forall>m. m \<notin> free_set h' \<longrightarrow> frame_table h' m = frame_table h m) \<and> (avail h' n \<noteq> None \<or> \<not> fi))"

lemma handed_trans: "handed env n X h (fi, h1) \<Longrightarrow> handed env n Y h1 (fi', h2) \<Longrightarrow> handed env n (X \<union> Y) h (fi', h2)"
  unfolding handed_def by auto

lemma handed_handable: "handed env n X h (fi, h') \<Longrightarrow> handable env h m \<Longrightarrow> m \<notin> X \<Longrightarrow> handable env h' m"
  unfolding handed_def by (auto intro: handable_kept)

lemma hand_one:
  assumes "heap_ok env (heap s)" "avail (heap s) n \<noteq> None \<or> \<not> fi"
    and "\<forall>m\<in>{pg..<pg + nr}. handable env (heap s) m \<and> phys_to_nid env m = n"
  shows "\<exists>fi' h. init_heap_pages env de dm_end pg nr (fi, s) = Some (Inr (fi', s\<lparr>heap := h\<rparr>)) \<and> handed env n {pg..<pg + nr} (heap s) (fi', h)"
proof -
  have n: "phys_to_nid env pg = n" if "0 < nr" using assms(3) that by simp
  have keep: "kept_pages env pg nr fi (heap s) = {}" using n assms(2) by (auto simp: kept_pages_def)
  have room: "avail (heap s) (phys_to_nid env pg) \<noteq> None \<or> \<not> fi \<or> 4 \<le> nr \<and> pg + nr \<le> dm_end" if "0 < nr" using n[OF that] assms(2) by auto
  show ?thesis
  proof (cases "nr = 0")
    case True
    then have "init_heap_pages env de dm_end pg nr (fi, s) = Some (Inr (fi, s\<lparr>heap := heap s\<rparr>))"
      unfolding init_heap_pages_def by (subst init_heap_loop.simps) simp
    then show ?thesis using True assms(1,2) by (intro exI[of _ fi] exI[of _ "heap s"]) (simp add: handed_def)
  next
    case False
    then have nr: "0 < nr" by simp
    have "\<forall>m\<in>{pg..<pg + nr}. handable env (heap s) m \<and> phys_to_nid env m = phys_to_nid env pg" using assms(3) n[OF nr] by simp
    from init_heap_range[OF assms(1) this room[OF nr], of de] obtain fi' h where
      h: "init_heap_pages env de dm_end pg nr (fi, s) = Some (Inr (fi', s\<lparr>heap := h\<rparr>))" "heap_ok env h" "free_set h = free_set (heap s) \<union> {pg..<pg + nr}"
      "\<forall>m. m \<notin> free_set h \<longrightarrow> frame_table h m = frame_table (heap s) m" "avail h n \<noteq> None"
      unfolding keep n[OF nr] using nr by blast
    then show ?thesis unfolding handed_def by blast
  qed
qed

lemma hand_over_exact:
  assumes "heap_ok env (heap s)" "avail (heap s) n \<noteq> None \<or> \<not> fi"
    and "\<forall>m\<in>frames rs. handable env (heap s) (unat m) \<and> phys_to_nid env (unat m) = n"
    and "sorted_wrt (\<lambda>x y. {br_s x..<br_e x} \<inter> {br_s y..<br_e y} = {}) rs"
  shows "\<exists>fi' h. hand_over env de dm_end rs (fi, s) = Some (Inr (fi', s\<lparr>heap := h\<rparr>)) \<and> handed env n (unat ` frames rs) (heap s) (fi', h)"
  using assms
proof (induction rs arbitrary: fi s)
  case Nil
  then show ?case by (intro exI[of _ fi] exI[of _ "heap s"]) (simp add: handed_def)
next
  case (Cons r rs)
  let ?R = "{br_s r..<br_e r}"
  obtain fi1 h1 where 1: "(if br_s r < br_e r then init_heap_pages env de dm_end (unat (br_s r)) (unat (br_e r - br_s r)) (fi, s) else Some (Inr (fi, s))) =
      Some (Inr (fi1, s\<lparr>heap := h1\<rparr>))" "handed env n (unat ` ?R) (heap s) (fi1, h1)"
  proof (cases "br_s r < br_e r")
    case True
    then have e: "unat (br_s r) + unat (br_e r - br_s r) = unat (br_e r)" by (simp add: unat_sub word_less_nat_alt word_le_nat_alt)
    have "\<forall>m\<in>unat ` ?R. handable env (heap s) m \<and> phys_to_nid env m = n" using Cons.prems(3) by simp
    then have "\<forall>m\<in>{unat (br_s r)..<unat (br_s r) + unat (br_e r - br_s r)}. handable env (heap s) m \<and> phys_to_nid env m = n"
      unfolding e unat_range .
    from hand_one[OF Cons.prems(1,2) this, of de dm_end] show thesis using that True unfolding e unat_range by auto
  next
    case False
    then show thesis using that[of fi "heap s"] Cons.prems(1,2) by (simp add: handed_def)
  qed
  have later: "\<forall>m\<in>frames rs. handable env (heap (s\<lparr>heap := h1\<rparr>)) (unat m) \<and> phys_to_nid env (unat m) = n"
  proof
    fix m assume m: "m \<in> frames rs"
    then have "m \<notin> ?R" using Cons.prems(4) by (auto simp: frames_def)
    then have "unat m \<notin> unat ` ?R" by (metis imageE unsigned_word_eqI)
    then show "handable env (heap (s\<lparr>heap := h1\<rparr>)) (unat m) \<and> phys_to_nid env (unat m) = n"
      using m Cons.prems(3) handed_handable[OF 1(2)] by simp
  qed
  have ok1: "heap_ok env (heap (s\<lparr>heap := h1\<rparr>))" "avail (heap (s\<lparr>heap := h1\<rparr>)) n \<noteq> None \<or> \<not> fi1" using 1(2) by (simp_all add: handed_def)
  from Cons.IH[OF ok1 later] Cons.prems(4)
  have "\<exists>fi' h. hand_over env de dm_end rs (fi1, s\<lparr>heap := h1\<rparr>) = Some (Inr (fi', s\<lparr>heap := h\<rparr>)) \<and> handed env n (unat ` frames rs) h1 (fi', h)" by simp
  then obtain fi2 h2 where 2: "hand_over env de dm_end rs (fi1, s\<lparr>heap := h1\<rparr>) = Some (Inr (fi2, s\<lparr>heap := h2\<rparr>))"
    "handed env n (unat ` frames rs) h1 (fi2, h2)" by blast
  show ?case using 1(1) 2(1) handed_trans[OF 1(2) 2(2)] by (intro exI[of _ fi2] exI[of _ h2]) (simp add: image_Un)
qed

lemma regions_apart:
  assumes "regions_ok rs"
  shows "sorted_wrt (\<lambda>x y. {br_s x..<br_e x} \<inter> {br_s y..<br_e y} = {}) (rev rs)" "frames (rev rs) = frames rs"
proof -
  have "sorted_wrt (\<lambda>x y. {br_s y..<br_e y} \<inter> {br_s x..<br_e x} = {}) rs"
    using assms by (auto simp: regions_ok_def elim!: sorted_wrt_mono_rel[rotated])
  then show "sorted_wrt (\<lambda>x y. {br_s x..<br_e x} \<inter> {br_s y..<br_e y} = {}) (rev rs)" by (simp add: sorted_wrt_rev)
qed (simp add: frames_def)

text \<open>The region handed over first is empty afterwards; nothing is lost and nothing is handed over twice.\<close>

lemma region_emptied:
  fixes rs i
  assumes "regions_ok rs" "i < length rs"
  defines "rs' \<equiv> rs[i := (rs ! i)\<lparr>br_e := br_s (rs ! i)\<rparr>]"
  shows "frames [rs ! i] \<union> frames rs' = frames rs" "frames [rs ! i] \<inter> frames rs' = {}" "regions_ok rs'"
proof -
  obtain A r B where rs: "rs = A @ r # B" "i = length A" using assms(2) id_take_nth_drop[OF assms(2)] by (metis length_take min.absorb4)
  have rs': "rs' = A @ r\<lparr>br_e := br_s r\<rparr> # B" "rs ! i = r" by (simp_all add: rs'_def rs)
  note ok = assms(1)[unfolded rs(1) regions_ok_mid]
  show "frames [rs ! i] \<union> frames rs' = frames rs" unfolding rs' by (auto simp: rs(1))
  show "frames [rs ! i] \<inter> frames rs' = {}" unfolding rs' using frames_below[of A "br_s r" "br_e r"] frames_above[of B "br_e r" "br_s r"] ok by auto
  show "regions_ok rs'" unfolding rs'(1) regions_ok_mid using ok by (auto intro: order_trans)
qed

lemma handed_later:
  fixes X Y :: "u64 set"
  assumes "handed env n (unat ` X) h (fi, h')" "X \<inter> Y = {}" "\<forall>m\<in>Y. handable env h (unat m) \<and> phys_to_nid env (unat m) = n"
  shows "\<forall>m\<in>Y. handable env h' (unat m) \<and> phys_to_nid env (unat m) = n"
proof
  fix m assume m: "m \<in> Y"
  then have "unat m \<notin> unat ` X" using assms(2) by (auto dest: unsigned_word_eqI)
  then show "handable env h' (unat m) \<and> phys_to_nid env (unat m) = n" using m assms(3) handed_handable[OF assms(1)] by blast
qed

lemma hand_over_twice:
  fixes A B :: "bootmem_region list"
  defines "sep \<equiv> sorted_wrt (\<lambda>x y. {br_s x..<br_e x} \<inter> {br_s y..<br_e y} = {})"
  assumes heap: "heap_ok env (heap s)" "avail (heap s) n \<noteq> None \<or> \<not> fi" and disj: "sep A" "sep B" "frames A \<inter> frames B = {}"
    and pages: "\<forall>m\<in>frames A \<union> frames B. handable env (heap s) (unat m) \<and> phys_to_nid env (unat m) = n"
  shows "\<exists>f1 h1 f2 h2. hand_over env de dm_end A (fi, s) = Some (Inr (f1, s\<lparr>heap := h1\<rparr>)) \<and>
    hand_over env de dm_end B (f1, s\<lparr>heap := h1\<rparr>) = Some (Inr (f2, s\<lparr>heap := h2\<rparr>)) \<and>
    handed env n (unat ` (frames A \<union> frames B)) (heap s) (f2, h2)"
proof -
  from hand_over_exact[OF heap, of A de dm_end] pages disj(1)
  obtain f1 h1 where 1: "hand_over env de dm_end A (fi, s) = Some (Inr (f1, s\<lparr>heap := h1\<rparr>))"
    "handed env n (unat ` frames A) (heap s) (f1, h1)" unfolding sep_def by blast
  let ?s = "s\<lparr>heap := h1\<rparr>"
  have h1: "heap ?s = h1" "\<And>h. ?s\<lparr>heap := h\<rparr> = s\<lparr>heap := h\<rparr>" by simp_all
  have ok: "heap_ok env (heap ?s)" "avail (heap ?s) n \<noteq> None \<or> \<not> f1" using 1(2) by (simp_all add: handed_def)
  have "\<forall>m\<in>frames B. handable env (heap ?s) (unat m) \<and> phys_to_nid env (unat m) = n"
    unfolding h1 by (rule handed_later[OF 1(2) disj(3)]) (use pages in blast)
  from hand_over_exact[OF ok this disj(2)[unfolded sep_def], of de dm_end]
  obtain f2 h2 where 2: "hand_over env de dm_end B (f1, ?s) = Some (Inr (f2, s\<lparr>heap := h2\<rparr>))" "handed env n (unat ` frames B) h1 (f2, h2)"
    unfolding h1 by blast
  show ?thesis using 1(1) 2(1) handed_trans[OF 1(2) 2(2)] unfolding image_Un by blast
qed

text \<open>
  C26. Handing a range of pages of one node to the heap ends, keeps the heap in order and frees exactly these pages, less
  the four that hold the arrays of a node seen for the first time: none for the first node of all, else the last four
  pages when the range starts on a boundary of the largest block and ends on a smaller one, and otherwise the first four.\<close>

theorem init_heap_pages_exact:
  assumes "heap_ok env (heap s)" "\<forall>m\<in>{pg..<pg + nr}. handable env (heap s) m \<and> phys_to_nid env m = phys_to_nid env pg"
    and "avail (heap s) (phys_to_nid env pg) \<noteq> None \<or> \<not> fi \<or> 4 \<le> nr \<and> pg + nr \<le> dm_end"
  shows "\<exists>fi' h. init_heap_pages env de dm_end pg nr (fi, s) = Some (Inr (fi', s\<lparr>heap := h\<rparr>)) \<and> heap_ok env h \<and>
    free_set h = free_set (heap s) \<union> ({pg..<pg + nr} - kept_pages env pg nr fi (heap s)) \<and>
    (\<forall>m. m \<notin> free_set h \<longrightarrow> frame_table h m = frame_table (heap s) m)"
  using init_heap_range[OF assms] by blast

text \<open>The pages of the demonstration machine that are not free.\<close>

lemma fls_le: "m < 2 ^ k \<Longrightarrow> fls m \<le> k"
proof (induction k arbitrary: m)
  case 0
  then show ?case by (simp add: fls.simps)
next
  case (Suc k)
  then show ?case by (cases "m = 0") (simp_all add: fls_pos fls.simps[of 0])
qed

lemma demo_handable: "0 < m \<Longrightarrow> m < 2 ^ 20 \<Longrightarrow> m \<notin> {4..<8} \<Longrightarrow> handable demo_env demo_heap m"
proof -
  assume m: "0 < m" "m < 2 ^ 20" "m \<notin> {4..<8}"
  have "fls m \<le> 20" using m(2) by (rule fls_le)
  then have "zone_of m < NR_ZONES" by (simp add: zone_of_def NR_ZONES_def)
  then show ?thesis using m by (auto simp: handable_def demo_env_def demo_heap_def demo_page_def MAX_NUMNODES_def)
qed

theorem init_heap_pages_exact_witness:
  "\<exists>fi' h. init_heap_pages demo_env \<lparr>dma_bitsize = 0, dom_cow = 2\<rparr> 4096 8 8 (True, demo_memory) = Some (Inr (fi', demo_memory\<lparr>heap := h\<rparr>)) \<and>
    free_set h = {4..<16}"
proof -
  have h: "heap demo_memory = demo_heap" by (simp add: demo_memory_def)
  have "\<forall>m\<in>{8..<8 + 8}. handable demo_env demo_heap m \<and> phys_to_nid demo_env m = phys_to_nid demo_env 8"
    using demo_handable by (simp add: demo_env_def)
  moreover have a: "avail demo_heap (phys_to_nid demo_env 8) \<noteq> None" by (simp add: demo_env_def demo_heap_def)
  moreover have "kept_pages demo_env 8 8 True demo_heap = {}" using a by (simp add: kept_pages_def)
  moreover have "{4..<8} \<union> ({8..<8 + 8} - {}) = {4..<16 :: nat}" by auto
  ultimately show ?thesis
    using init_heap_pages_exact[of demo_env demo_memory 8 8 True 4096 "\<lparr>dma_bitsize = 0, dom_cow = 2\<rparr>"] demo_ok unfolding h demo_free by metis
qed

text \<open>
  C27. On a machine with one memory node the end of booting gives the heap every page that was left: the calls end, the
  heap is in order, and its free pages have grown by the frames of all regions and the frame of the array of regions.\<close>

theorem end_boot_allocator_exact:
  assumes heap: "heap_ok env (heap s)" "avail (heap s) n \<noteq> None \<or> \<not> fi"
    and boot: "regions_ok (bootmem_regions b)" "bootmem_region_list b = Some l" "l \<notin> frames (bootmem_regions b)"
    and pages: "\<forall>m\<in>insert l (frames (bootmem_regions b)). handable env (heap s) (unat m) \<and> phys_to_nid env (unat m) = n"
  shows "\<exists>dma fi' h. end_boot_allocator env de dm_end cpu0_node node0_pages b (fi, s) = Some (Inr (dma, fi', s\<lparr>heap := h\<rparr>)) \<and>
    heap_ok env h \<and> free_set h = free_set (heap s) \<union> unat ` insert l (frames (bootmem_regions b))"
proof -
  define rs i where "rs = bootmem_regions b"
    and "i = length (takeWhile (\<lambda>r. \<not> (br_s r < br_e r \<and> phys_to_nid env (unat (br_s r)) = cpu0_node)) (bootmem_regions b))"
  define fst_rs rs' where "fst_rs = (if i < length rs then [rs ! i] else [])"
    and "rs' = (if i < length rs then rs[i := (rs ! i)\<lparr>br_e := br_s (rs ! i)\<rparr>] else rs)"
  have parts: "frames fst_rs \<union> frames rs' = frames rs" "frames fst_rs \<inter> frames rs' = {}" "regions_ok rs'"
    using region_emptied[of rs i] boot(1) by (auto simp: fst_rs_def rs'_def rs_def)
  note apart = regions_apart[OF parts(3)]
  have "sorted_wrt (\<lambda>x y. {br_s x..<br_e x} \<inter> {br_s y..<br_e y} = {}) fst_rs" by (simp add: fst_rs_def)
  moreover have "\<forall>m\<in>frames fst_rs \<union> frames (rev rs'). handable env (heap s) (unat m) \<and> phys_to_nid env (unat m) = n"
    unfolding apart parts(1) using pages unfolding rs_def by blast
  moreover have "frames fst_rs \<inter> frames (rev rs') = {}" unfolding apart by (rule parts)
  ultimately obtain f1 h1 f2 h2 where 1: "hand_over env de dm_end fst_rs (fi, s) = Some (Inr (f1, s\<lparr>heap := h1\<rparr>))"
    and 2: "hand_over env de dm_end (rev rs') (f1, s\<lparr>heap := h1\<rparr>) = Some (Inr (f2, s\<lparr>heap := h2\<rparr>))"
    and both: "handed env n (unat ` frames rs) (heap s) (f2, h2)"
    using hand_over_twice[OF heap, of fst_rs "rev rs'" de dm_end] apart(1) unfolding apart(2) parts(1) by blast
  let ?s = "s\<lparr>heap := h2\<rparr>"
  have h2: "heap ?s = h2" "\<And>h. ?s\<lparr>heap := h\<rparr> = s\<lparr>heap := h\<rparr>" by simp_all
  have ok2: "heap_ok env (heap ?s)" "avail (heap ?s) n \<noteq> None \<or> \<not> f2" using both by (simp_all add: handed_def)
  have one: "{unat l..<unat l + 1} = {unat l}" by auto
  have "\<forall>m\<in>{unat l..<unat l + 1}. handable env (heap ?s) m \<and> phys_to_nid env m = n"
    unfolding one h2 using handed_later[OF both, of "{l}"] boot(3) pages unfolding rs_def by blast
  from hand_one[OF ok2 this, of de dm_end] obtain f3 h3 where
    3: "init_heap_pages env de dm_end (unat l) 1 (f2, ?s) = Some (Inr (f3, s\<lparr>heap := h3\<rparr>))" "handed env n {unat l} h2 (f3, h3)"
    unfolding one h2 by blast
  have "end_boot_allocator env de dm_end cpu0_node node0_pages b (fi, s) =
    Some (Inr (if dma_bitsize de = 0 \<and> length (node_online_map env) > 1 then min (fls node0_pages - 1 + 12 - 2) 32 else dma_bitsize de, f3, s\<lparr>heap := h3\<rparr>))"
    using 1 2 3(1) boot(2) unfolding end_boot_allocator_def Let_def fst_rs_def rs'_def i_def rs_def by (simp split: if_splits)
  moreover have "heap_ok env h3" "free_set h3 = free_set (heap s) \<union> unat ` insert l (frames rs)"
    using handed_trans[OF both 3(2)] by (auto simp: handed_def)
  ultimately show ?thesis unfolding rs_def by blast
qed

theorem end_boot_allocator_exact_witness:
  "\<exists>dma fi' h. end_boot_allocator demo_env \<lparr>dma_bitsize = 0, dom_cow = 2\<rparr> 4096 0 64 demo_boot_regions (True, demo_memory) =
      Some (Inr (dma, fi', demo_memory\<lparr>heap := h\<rparr>)) \<and>
    free_set h = {4..<8} \<union> unat ` insert 16 ({17..<18} \<union> {20..<31 :: u64})"
proof -
  have h: "heap demo_memory = demo_heap" by (simp add: demo_memory_def)
  have fr: "frames (bootmem_regions demo_boot_regions) = {17..<18} \<union> {20..<31}" by (simp add: demo_boot_regions_def)
  have "handable demo_env demo_heap (unat m)" if "m \<in> insert 16 ({17..<18} \<union> {20..<31 :: u64})" for m
  proof -
    have "16 \<le> unat m" "unat m < 31" using that by (auto simp: word_le_nat_alt word_less_nat_alt)
    then show ?thesis by (intro demo_handable) auto
  qed
  then have "\<forall>m\<in>insert 16 (frames (bootmem_regions demo_boot_regions)). handable demo_env (heap demo_memory) (unat m) \<and> phys_to_nid demo_env (unat m) = 0"
    unfolding h fr by (simp add: demo_env_def)
  moreover have "regions_ok (bootmem_regions demo_boot_regions)" "bootmem_region_list demo_boot_regions = Some 16" "16 \<notin> frames (bootmem_regions demo_boot_regions)"
    by (simp_all add: demo_boot_regions_def regions_ok_def)
  moreover have "avail (heap demo_memory) 0 \<noteq> None \<or> \<not> True" by (simp add: h demo_heap_def)
  ultimately show ?thesis
    using end_boot_allocator_exact[of demo_env demo_memory 0 True demo_boot_regions 16 "\<lparr>dma_bitsize = 0, dom_cow = 2\<rparr>" 4096 0 64] demo_ok
    unfolding h fr demo_free by metis
qed

end
