(* ===== verification/Spec2Isabelle.thy ===== *)
theory Spec2Isabelle
  imports Monitor_Pipeline EPT_P2M Rangeset Event_Properties Timer_Properties Tasklet_Properties Page_Init
begin

text \<open>
  \<^bold>\<open>The memory monitor on Xen.\<close>

  The program is a Xen hypervisor (\<open>src/xen\<close>) extended with a memory monitor: the scheduler records the CR3
  of every virtual processor it switches to in a sampled domain (\<open>schedule()\<close> in \<open>common/schedule.c\<close>), a
  hypercall starts and stops the sampling and hands the recorded CR3s out (\<open>do_vt_op\<close> in
  \<open>arch/x86/mm/hap/p2m-ept.c\<close>), and a tool in the control domain (\<open>Monitor_tools/analyze.h\<close> and
  \<open>analyze.cpp\<close>) fetches them every five seconds, walks the page tables behind them, keeps a record per
  virtual page and sums up working set and swapped pages. The development models the monitor completely
  and, around it, the components of the hypervisor that it shares its files and mechanisms with: the
  extended page tables, rangesets, event channels, timers, softirqs and tasklets, and the page allocator.

  \<^bold>\<open>How the code is modelled.\<close> A C function becomes a definition of the same name with explicit state;
  a struct is a record, an enumeration or a union with a tag a datatype, an integer whose width matters a
  word. Every way a C program can go wrong is a value: \<open>Inl\<close> of a \<open>fault\<close> for a null dereference, an access
  outside an array, a use after free, the wrong member of a union, a \<open>BUG_ON\<close> or an \<open>ASSERT\<close> that fails.
  Error returns of the source are ordinary results. Loops are structural recursion, recursion with a
  measure, \<open>for_loop\<close> over the index values, or \<open>while_loop\<close>, whose value is \<open>None\<close> when it does not end;
  the theorems about those loops say that they do end. Code behind a lock is one step; where the source
  drops the lock, or reads without it, the model has a parameter for what the other processors do
  (\<open>other_cpus\<close>, \<open>callback\<close>) or separate steps (\<open>vt_step\<close>, \<open>tasklet_step\<close>).

  \<^bold>\<open>The theories.\<close>
  \<^item> \<open>Xen_Prelude\<close>: faults, results, array access, loops, and the contracts \<open>guarded_system\<close> (operations that
    return and keep an invariant, hence so do sequences of them) and \<open>refined_system\<close> (they also act on an
    abstract state as specified).
  \<^item> \<open>CR3_Sampling\<close>: the fields of \<open>struct domain\<close> the monitor adds, domain lookup with its reference count,
    the scheduler hook (\<open>schedule_sample\<close>), the three operations of \<open>do_vt_op\<close>, and their interleaving
    (\<open>vt_step\<close>). The locale \<open>recent_recorder\<close> states what a record of recent keys promises; the hook
    implements it. Shown: between two drains nothing is lost and nothing repeated; no interleaving of hooks
    with the calls of one tool faults as long as it never stops; a stop can crash the scheduler, and so can a
    second tool that drains during a start; references leak, a first drain hands out heap contents.
  \<^item> \<open>Std_Map\<close>, \<open>Monitor_Analyze\<close>: the tool. Shown: the nested loops of \<open>page_walk_ia32e\<close> visit exactly the
    addresses that \<open>tool_leaf\<close> describes one by one (4 KB entries but address 0, user 2 MB pages, no 1 GB pages),
    each once; what they count; the packing of frame numbers and swap slots; the working set counts each
    frame once, with the weight of the first page in it; ageing forgets exactly what was not seen for 20 rounds.
  \<^item> \<open>Monitor_Pipeline\<close>: hook, hypercall and tool composed (\<open>monitor_turn\<close> is a turn of the loop of \<open>main\<close>).
    Shown: a turn updates exactly the pages that the tool looks at in the tables of the CR3s that ran (all but the
    Windows kernel's, which it never walks), and when the tool's buffer overflows.
  \<^item> \<open>EPT_P2M\<close>: \<open>p2m-ept.c\<close>. Tables are functions from machine frames to entries; the locale \<open>page_map\<close> is the
    contract of a map from guest frames. Shown: setting and reading back, sequences of updates refine a
    finite map, success when there are table pages, type changes, permissions, what the IOMMU is told.
  \<^item> \<open>Rangeset\<close>: \<open>common/rangeset.c\<close> against sets of numbers (locale \<open>number_set\<close>).
  \<^item> \<open>Event_Channel\<close> (the operations of \<open>common/event_channel.c\<close>), \<open>Event_Invariant\<close>, \<open>Event_Ops\<close>,
    \<open>Event_Lifecycle\<close>, \<open>Event_Properties\<close>: as long as security labels can be allocated, every sequence of
    hypercalls is free of faults and keeps the invariant (and what goes wrong when a label cannot), the two ends of a channel always agree, delivery, binding, closing, waking of pollers, teardown.
  \<^item> \<open>Timer_Heap\<close>, \<open>Timer_Queue\<close> (locale \<open>timer_container\<close>, implemented by the heap and by the overflow list),
    \<open>Timer\<close>, \<open>Timer_Invariant\<close>, \<open>Timer_Softirq\<close>, \<open>Timer_Properties\<close>: \<open>common/timer.c\<close> refines a map from timers
    to their states, the softirq ends and runs exactly what expired, no timer is lost with its processor.
  \<^item> \<open>Softirq\<close> (\<open>common/softirq.c\<close>), \<open>Tasklet\<close> (\<open>common/tasklet.c\<close> and the tasklet switch of \<open>schedule()\<close>), \<open>Tasklet_Properties\<close>:
    what happens under the lock is a step, the functions of tasklets run between steps, and the steps of all
    processors interleave (\<open>tasklet_run\<close>). Shown: nothing faults but the preparation of a processor on whose lists
    tasklets wait, a tasklet runs on one processor at a time, none is forgotten, a killed one stays away, and how
    one is left behind on a processor that goes down.
  \<^item> \<open>Page_Alloc\<close> (the buddy allocator of \<open>common/page_alloc.c\<close>), \<open>Page_Heap\<close> (its shape: aligned, disjoint, maximal
    blocks that cover the free pages), \<open>Page_Free\<close>, \<open>Page_Get\<close>, \<open>Page_Offline\<close>, \<open>Page_Properties\<close>: sequences of
    allocations and frees are free of faults and never hand a page out twice, an allocation fails only when no
    run of pages fits, freeing undoes allocating block by block, the search over the nodes ends, and offlining
    a free page removes exactly that page, but may leave blocks misaligned.
  \<^item> \<open>Boot_Memory\<close>: the allocator used during boot (\<open>init_boot_pages\<close>, \<open>alloc_boot_pages\<close>) with the list of bad pages.
    Shown: exactly which frames are added and handed out, and where a subtraction wraps.
  \<^item> \<open>Page_Domain\<close> (\<open>assign_pages\<close>, \<open>alloc_domheap_pages\<close>, \<open>free_domheap_pages\<close> and the allocator for the hypervisor),
    \<open>Page_Owner\<close>: every page is free or belongs to exactly one domain, the page counts and references of a domain
    are exact, and an allocation that is refused leaves the heap as it was.
  \<^item> \<open>Page_Init\<close> (\<open>init_node_heap\<close>, \<open>init_heap_pages\<close>, \<open>end_boot_allocator\<close>, \<open>scrub_heap_pages\<close>): handing memory over
    frees exactly the pages given, less the arrays of a new node; after booting on one node every frame is in the heap.

  \<^bold>\<open>Bounds and fuel.\<close> \<open>close_all\<close> walks the ports of a dying domain with fuel \<open>MAX_EVTCHNS + 1\<close>, one more than
  there are ports; \<open>move_pirqs_loop\<close> follows a list of ports with fuel above their number, and
  \<open>evtchn_move_pirqs_exact\<close> shows that it visits exactly the list; the walk of \<open>ept_get_entry\<close> uses one unit
  per level. The theorem about domain accounts assumes that all pages, and the largest block of 2^18 more, can be
  counted in 32 bits, the width of a domain's page counts. The counters of a timer heap are 16 bits wide as in the
  source and truncate. Times are integers, and the deadline, the one sum of times, wraps at 64 bits. The tool's activity sums are integers, since its
  doubles only ever hold integers; its decay by \<open>0.9\<close> truncates as the store into a \<open>short\<close> does.

  \<^bold>\<open>Parameters.\<close> Heap allocation, the security module, populate-on-demand, the memory types of the
  hardware, interrupt binding, guest memory, and the contents of uninitialised variables are arguments of
  the definitions that use them; what a theorem needs of them (an allocator returns arrays of the size
  asked for, guest pages can be read) is one of its hypotheses.

  \<^bold>\<open>Not modelled.\<close> The console dumps of the modelled files; opening devices and printing in the tool; the
  scheduling policies (the hook does not depend on who is chosen); the contents of pages, so that scrubbing
  and clearing only record the page; and the rest of the hypervisor, which
  is Xen as published and independent of the monitor: shadow paging, HVM emulation, the instruction
  emulator, grant tables, boot code, drivers, IOMMUs, ACPI, the IA-64 port.
\<close>

end
